(* ===== verification/Prelude.thy ===== *)
theory Prelude
  imports Main "HOL-Library.Word" "HOL-Library.Signed_Division"
begin

text \<open>
  Shared vocabulary of the development: the C++ integer conventions used by libPMacc and
  PIConGPU, the index boxes that kernels run over, and the generic facts about lists,
  division and bijections that the component theories rely on.

  \<^item> \<open>int\<close> of the source (32 bit, overflow undefined) is HOL's \<open>int\<close>; a result that leaves the
    range is excluded by an explicit hypothesis wherever a theorem depends on it.
  \<^item> \<open>uint32_t\<close> is an \<open>int\<close> reduced by \<open>u32\<close>; a conversion from \<open>uint32_t\<close> or \<open>size_t\<close> back to
    \<open>int\<close> is \<open>i32\<close> (two's complement). Bit masks are \<open>32 word\<close>.
  \<^item> \<open>/\<close> and \<open>%\<close> on \<open>int\<close> truncate towards zero: \<open>sdiv\<close> and \<open>smod\<close> of Signed\_Division.
\<close>

named_theorems vec_simps \<open>unfolding of componentwise vector operations\<close>
named_theorems conv_simps \<open>integer conversions that do not change a value in range\<close>

section \<open>Machine integers\<close>

definition u32 :: "int \<Rightarrow> int" where
  "u32 i = i mod 2 ^ 32"

definition i32 :: "int \<Rightarrow> int" where
  "i32 i = (i + 2 ^ 31) mod 2 ^ 32 - 2 ^ 31"

lemma u32_id [conv_simps]: "0 \<le> i \<Longrightarrow> i < 2 ^ 32 \<Longrightarrow> u32 i = i"
  by (simp add: u32_def)

lemma i32_id [conv_simps]: "- (2 ^ 31) \<le> i \<Longrightarrow> i < 2 ^ 31 \<Longrightarrow> i32 i = i"
  by (simp add: i32_def)

lemma u32_range: "0 \<le> u32 i \<and> u32 i < 2 ^ 32"
  by (simp add: u32_def)

lemma i32_range: "- (2 ^ 31) \<le> i32 i \<and> i32 i < 2 ^ 31"
  using pos_mod_bound [of "2 ^ 32" "i + 2 ^ 31"] pos_mod_sign [of "2 ^ 32" "i + 2 ^ 31"]
  unfolding i32_def by auto

lemma i32_u32: "i32 (u32 i) = i32 i"
  by (simp add: i32_def u32_def mod_add_left_eq)

lemma sdiv_nonneg: "0 \<le> a \<Longrightarrow> 0 \<le> b \<Longrightarrow> a sdiv b = a div b" for a b :: int
  by (cases "a = 0"; cases "b = 0") (simp_all add: signed_divide_int_def sgn_if)

lemma smod_nonneg: "0 \<le> a \<Longrightarrow> 0 \<le> b \<Longrightarrow> a smod b = a mod b" for a b :: int
  by (cases "a = 0") (simp_all add: signed_modulo_int_def sdiv_nonneg sgn_if)

lemma smod_neg: "a < 0 \<Longrightarrow> 0 < b \<Longrightarrow> a smod b = - ((- a) mod b)" for a b :: int
  by (simp add: signed_modulo_int_def signed_divide_int_def sgn_if minus_div_mult_eq_mod [symmetric])

lemma smod_bound_mod: "0 < b \<Longrightarrow> a smod b < b \<and> a smod b mod b = a mod b" for a b :: int
proof (cases "a < 0")
  case True
  assume b: "0 < b"
  have "- ((- a) mod b) mod b = a mod b" using mod_minus_eq [of "- a" b] by simp
  moreover have "- ((- a) mod b) < b" using b pos_mod_sign [OF b, of "- a"] by linarith
  ultimately show ?thesis using b True by (simp add: smod_neg)
next
  case False
  assume "0 < b"
  with False show ?thesis by (simp add: smod_nonneg)
qed

section \<open>Mixed-radix positions\<close>

lemma radix_mod: "0 \<le> a \<Longrightarrow> a < n \<Longrightarrow> (b * n + a) mod n = a" for a b n :: int
  by simp

lemma radix_div: "0 \<le> a \<Longrightarrow> a < n \<Longrightarrow> (b * n + a) div n = b" for a b n :: int
  by simp

lemma radix_bound: "0 \<le> a \<Longrightarrow> a < n \<Longrightarrow> b < m \<Longrightarrow> b * n + a < m * n" for a b n m :: int
proof -
  assume a: "0 \<le> a" "a < n" and b: "b < m"
  have "b * n + a < (b + 1) * n" using a by (simp add: algebra_simps)
  also have "\<dots> \<le> m * n" using a b by (intro mult_right_mono) auto
  finally show ?thesis .
qed

lemma radix_div_bound: "0 \<le> t \<Longrightarrow> t < m * n \<Longrightarrow> 0 < n \<Longrightarrow> 0 \<le> t div n \<and> t div n < m" for t m n :: int
proof -
  assume t: "0 \<le> t" "t < m * n" "0 < n"
  have "(t div n) * n \<le> t"
    using t div_mult_mod_eq [of t n] pos_mod_sign [of n t] by linarith
  with t have "(t div n) * n < m * n" by linarith
  with t show ?thesis by (simp add: pos_imp_zdiv_nonneg_iff)
qed

lemma factor_le: "0 < a \<Longrightarrow> 0 < b \<Longrightarrow> a \<le> a * b \<and> b \<le> a * b" for a b :: int
  using mult_left_mono [of 1 b a] mult_right_mono [of 1 a b] by simp

lemma radix_unique:
  fixes a a' b b' n :: int
  assumes "0 \<le> a" "a < n" "0 \<le> a'" "a' < n" "b * n + a = b' * n + a'"
  shows "a = a' \<and> b = b'"
  using radix_mod [of a n b] radix_mod [of a' n b'] radix_div [of a n b] radix_div [of a' n b'] assms
  by metis

section \<open>Index boxes\<close>

text \<open>\<open>box n\<close> is the set of positions of a grid with extent \<open>n\<close>, in any dimension.\<close>

definition box :: "int list \<Rightarrow> int list set" where
  "box n = {p. length p = length n \<and> (\<forall>d < length n. 0 \<le> p ! d \<and> p ! d < n ! d)}"

definition in_box :: "int list \<Rightarrow> int list \<Rightarrow> bool" where
  "in_box n p \<longleftrightarrow> length p = length n \<and> list_all2 (\<lambda>a b. 0 \<le> a \<and> a < b) p n"

lemma in_box_iff: "in_box n p \<longleftrightarrow> p \<in> box n"
  by (auto simp: in_box_def box_def list_all2_conv_all_nth)

lemma box_Nil [simp]: "box [] = {[]}"
  by (auto simp: box_def)

lemma box_Cons: "p \<in> box (n # ns) \<longleftrightarrow> (\<exists>a q. p = a # q \<and> 0 \<le> a \<and> a < n \<and> q \<in> box ns)"
  by (cases p) (auto simp: in_box_iff [symmetric] in_box_def)

lemma box_Cons_Cons [simp]: "a # q \<in> box (n # ns) \<longleftrightarrow> 0 \<le> a \<and> a < n \<and> q \<in> box ns"
  by (simp add: box_Cons)

text \<open>All positions of a box, the first axis running fastest: the order of the elements in a linear buffer.\<close>

fun boxList :: "int list \<Rightarrow> int list list" where
  "boxList [] = [[]]"
| "boxList (n # ns) = concat (map (\<lambda>q. map (\<lambda>a. a # q) [0..n - 1]) (boxList ns))"

lemma set_boxList: "set (boxList n) = box n"
  by (induction n) (force simp: box_Cons image_iff)+

lemma distinct_boxList: "distinct (boxList n)"
proof (induction n)
  case (Cons n ns)
  have "distinct (concat (map (\<lambda>q. map (\<lambda>a. a # q) [0..n - 1]) qs))" if "distinct qs" for qs
    using that by (induction qs) (auto simp: distinct_map inj_on_def)
  with Cons show ?case by simp
qed simp

lemma box1E: "p \<in> box [n] \<Longrightarrow> (\<And>x. p = [x] \<Longrightarrow> 0 \<le> x \<Longrightarrow> x < n \<Longrightarrow> P) \<Longrightarrow> P"
  by (auto simp: box_Cons)

lemma box2E:
  "p \<in> box [n, m] \<Longrightarrow> (\<And>x y. p = [x, y] \<Longrightarrow> 0 \<le> x \<Longrightarrow> x < n \<Longrightarrow> 0 \<le> y \<Longrightarrow> y < m \<Longrightarrow> P) \<Longrightarrow> P"
  by (auto simp: box_Cons)

lemma box3E:
  "p \<in> box [n, m, k] \<Longrightarrow>
   (\<And>x y z. p = [x, y, z] \<Longrightarrow> 0 \<le> x \<Longrightarrow> x < n \<Longrightarrow> 0 \<le> y \<Longrightarrow> y < m \<Longrightarrow> 0 \<le> z \<Longrightarrow> z < k \<Longrightarrow> P) \<Longrightarrow> P"
  by (auto simp: box_Cons)

lemma length2E: "length p = 2 \<Longrightarrow> (\<And>x y. p = [x, y] \<Longrightarrow> P) \<Longrightarrow> P"
  by (auto simp: numeral_2_eq_2 length_Suc_conv)

lemma length3E: "length p = 3 \<Longrightarrow> (\<And>x y z. p = [x, y, z] \<Longrightarrow> P) \<Longrightarrow> P"
  by (auto simp: numeral_3_eq_3 length_Suc_conv)

section \<open>Bijections\<close>

lemma bij_betwI_inverse:
  assumes "\<And>a. a \<in> A \<Longrightarrow> f a \<in> B \<and> g (f a) = a"
    and "\<And>b. b \<in> B \<Longrightarrow> g b \<in> A \<and> f (g b) = b"
  shows "bij_betw f A B"
  by (rule bij_betw_byWitness [where f' = g]) (use assms in auto)

lemma bij_betw_reindex_Sigma:
  assumes "bij_betw h K A" "bij_betw f (SIGMA a : A. B a) C"
  shows "bij_betw (\<lambda>(k, i). f (h k, i)) (SIGMA k : K. B (h k)) C"
proof -
  have "bij_betw (\<lambda>(k, i). (h k, i)) (SIGMA k : K. B (h k)) (SIGMA a : A. B a)"
    using assms(1) by (auto simp: bij_betw_def inj_on_def image_def)
  from bij_betw_trans [OF this assms(2)] show ?thesis by (simp add: o_def case_prod_unfold)
qed

end
