(* ===== verification/Vectors.thy ===== *)
theory Vectors
  imports Prelude Complex_Main
begin

text \<open>
  Models \<open>math::Vector<T_Type, T_dim>\<close> of src/libPMacc/include/math/vector/Vector.hpp with the
  standard storage, accessor and navigator: a vector of dimension \<open>dim\<close> is the list of its
  \<open>dim\<close> components. The compound assignments are the loops over the components; the binary
  operators copy the left operand and call the compound assignment, as in the source. Integer
  and floating point division differ, so the divisions take the component division as an
  argument. The lemmas give the algebra the later theories calculate with, and the facts about
  \<open>revert\<close>, \<open>shrink\<close>, \<open>toString\<close> and the reversed alpaka extents.
\<close>

type_synonym 'a vec = "'a list"

section \<open>Construction and access\<close>

definition vec_create :: "nat \<Rightarrow> 'a \<Rightarrow> 'a vec" where
  "vec_create n value = map (\<lambda>i. value) [0..<n]"

definition copyElementWise :: "bool \<Rightarrow> 'a vec \<Rightarrow> 'a vec \<Rightarrow> 'a vec" where
  "copyElementWise isDestConst dest src =
     (if isDestConst then dest else map (\<lambda>d. src ! d) [0..<length dest])"

abbreviation xc :: "'a vec \<Rightarrow> 'a" where "xc v \<equiv> v ! 0"
abbreviation yc :: "'a vec \<Rightarrow> 'a" where "yc v \<equiv> v ! 1"
abbreviation zc :: "'a vec \<Rightarrow> 'a" where "zc v \<equiv> v ! 2"

definition revert :: "'a vec \<Rightarrow> 'a vec" where
  "revert this =
     foldl (\<lambda>inverted i. inverted[length this - 1 - i := this ! i]) this [0..<length this]"

definition shrink :: "nat \<Rightarrow> nat \<Rightarrow> 'a vec \<Rightarrow> 'a vec" where
  "shrink shrinkedDim startIdx this =
     map (\<lambda>i. this ! ((startIdx + i) mod length this)) [0..<shrinkedDim]"

definition productOfComponents :: "'a :: times vec \<Rightarrow> 'a" where
  "productOfComponents this = foldl (\<lambda>result c. result * c) (hd this) (tl this)"

section \<open>Arithmetic\<close>

definition vec_add_assign :: "'a :: plus vec \<Rightarrow> 'a vec \<Rightarrow> 'a vec" where
  "vec_add_assign this other = map2 (+) this other"

definition vec_sub_assign :: "'a :: minus vec \<Rightarrow> 'a vec \<Rightarrow> 'a vec" where
  "vec_sub_assign this other = map2 (-) this other"

definition vec_mul_assign :: "'a :: times vec \<Rightarrow> 'a vec \<Rightarrow> 'a vec" where
  "vec_mul_assign this other = map2 (*) this other"

definition vec_div_assign :: "('a \<Rightarrow> 'a \<Rightarrow> 'a) \<Rightarrow> 'a vec \<Rightarrow> 'a vec \<Rightarrow> 'a vec" where
  "vec_div_assign dv this other = map2 dv this other"

definition scalar_add_assign :: "'a :: plus vec \<Rightarrow> 'a \<Rightarrow> 'a vec" where
  "scalar_add_assign this other = map (\<lambda>c. c + other) this"

definition scalar_sub_assign :: "'a :: minus vec \<Rightarrow> 'a \<Rightarrow> 'a vec" where
  "scalar_sub_assign this other = map (\<lambda>c. c - other) this"

definition scalar_mul_assign :: "'a :: times vec \<Rightarrow> 'a \<Rightarrow> 'a vec" where
  "scalar_mul_assign this other = map (\<lambda>c. c * other) this"

definition scalar_div_assign :: "('a \<Rightarrow> 'a \<Rightarrow> 'a) \<Rightarrow> 'a vec \<Rightarrow> 'a \<Rightarrow> 'a vec" where
  "scalar_div_assign dv this other = map (\<lambda>c. dv c other) this"

definition vec_add :: "'a :: plus vec \<Rightarrow> 'a vec \<Rightarrow> 'a vec" where
  "vec_add lhs rhs = vec_add_assign lhs rhs"

definition vec_add_s :: "'a :: plus vec \<Rightarrow> 'a \<Rightarrow> 'a vec" where
  "vec_add_s lhs rhs = scalar_add_assign lhs rhs"

definition vec_sub :: "'a :: minus vec \<Rightarrow> 'a vec \<Rightarrow> 'a vec" where
  "vec_sub lhs rhs = vec_sub_assign lhs rhs"

definition vec_sub_s :: "'a :: minus vec \<Rightarrow> 'a \<Rightarrow> 'a vec" where
  "vec_sub_s lhs rhs = scalar_sub_assign lhs rhs"

definition vec_mul :: "'a :: times vec \<Rightarrow> 'a vec \<Rightarrow> 'a vec" where
  "vec_mul lhs rhs = vec_mul_assign lhs rhs"

definition vec_div :: "('a \<Rightarrow> 'a \<Rightarrow> 'a) \<Rightarrow> 'a vec \<Rightarrow> 'a vec \<Rightarrow> 'a vec" where
  "vec_div dv lhs rhs = vec_div_assign dv lhs rhs"

definition vec_mul_s :: "'a :: times vec \<Rightarrow> 'a \<Rightarrow> 'a vec" where
  "vec_mul_s lhs rhs = scalar_mul_assign lhs rhs"

definition s_mul_vec :: "'a :: times \<Rightarrow> 'a vec \<Rightarrow> 'a vec" where
  "s_mul_vec lhs rhs = scalar_mul_assign rhs lhs"

definition vec_div_s :: "('a \<Rightarrow> 'a \<Rightarrow> 'a) \<Rightarrow> 'a vec \<Rightarrow> 'a \<Rightarrow> 'a vec" where
  "vec_div_s dv lhs rhs = scalar_div_assign dv lhs rhs"

definition vec_uminus :: "'a :: uminus vec \<Rightarrow> 'a vec" where
  "vec_uminus v = map (\<lambda>c. - c) v"

definition vec_smod :: "int vec \<Rightarrow> int vec \<Rightarrow> int vec" where
  "vec_smod lhs rhs = map2 (\<lambda>a b. a smod b) lhs rhs"

section \<open>Comparison, reductions and printing\<close>

fun vec_eq :: "'a vec \<Rightarrow> 'a vec \<Rightarrow> bool" where
  "vec_eq (a # this) (b # rhs) = (if a \<noteq> b then False else vec_eq this rhs)"
| "vec_eq _ _ = True"

definition vec_neq :: "'a vec \<Rightarrow> 'a vec \<Rightarrow> bool" where
  "vec_neq this rhs \<longleftrightarrow> \<not> vec_eq this rhs"

definition vec_ge :: "'a :: ord vec \<Rightarrow> 'a vec \<Rightarrow> bool vec" where
  "vec_ge lhs rhs = map2 (\<lambda>a b. a \<ge> b) lhs rhs"

definition linearize2 :: "'a :: {plus, times} vec \<Rightarrow> 'a vec \<Rightarrow> 'a" where
  "linearize2 sz pos = yc pos * xc sz + xc pos"

definition linearize3 :: "'a :: {plus, times} vec \<Rightarrow> 'a vec \<Rightarrow> 'a" where
  "linearize3 sz pos = zc pos * xc sz * yc sz + yc pos * xc sz + xc pos"

definition abs2 :: "'a :: {plus, times} vec \<Rightarrow> 'a" where
  "abs2 v = foldl (\<lambda>result c. result + c * c) (xc v * xc v) (tl v)"

definition vec_abs :: "real vec \<Rightarrow> real" where
  "vec_abs v = sqrt (abs2 v)"

definition dot :: "'a :: {plus, times} vec \<Rightarrow> 'a vec \<Rightarrow> 'a" where
  "dot a b = foldl (\<lambda>result (c, d). result + c * d) (xc a * xc b) (tl (zip a b))"

definition vec_toString :: "('a \<Rightarrow> string) \<Rightarrow> string \<Rightarrow> string \<Rightarrow> 'a vec \<Rightarrow> string" where
  "vec_toString put separator enclosings this =
     (let n = length enclosings;
          enclosing_begin = (if n > 0 then [enclosings ! (0 mod n)] else []);
          enclosing_end = (if n > 0 then [enclosings ! (1 mod n)] else [])
      in enclosing_begin @ put (hd this)
         @ concat (map (\<lambda>c. separator @ put c) (tl this)) @ enclosing_end)"

text \<open>The alpaka accessors number the components z, y, x.\<close>

definition getExtent :: "nat \<Rightarrow> 'a vec \<Rightarrow> 'a" where
  "getExtent idx extents = extents ! (length extents - 1 - idx)"

definition setExtent :: "nat \<Rightarrow> 'a vec \<Rightarrow> 'a \<Rightarrow> 'a vec" where
  "setExtent idx extents extent = extents[length extents - 1 - idx := extent]"

definition getOffset :: "nat \<Rightarrow> 'a vec \<Rightarrow> 'a" where
  "getOffset idx offsets = offsets ! (length offsets - 1 - idx)"

definition setOffset :: "nat \<Rightarrow> 'a vec \<Rightarrow> 'a \<Rightarrow> 'a vec" where
  "setOffset idx offsets off = offsets[length offsets - 1 - idx := off]"

section \<open>Facts\<close>

lemmas vec_defs [vec_simps] =
  vec_create_def vec_add_def vec_add_assign_def vec_sub_def vec_sub_assign_def
  vec_mul_def vec_mul_assign_def vec_div_def vec_div_assign_def
  vec_add_s_def scalar_add_assign_def vec_sub_s_def scalar_sub_assign_def
  vec_mul_s_def s_mul_vec_def scalar_mul_assign_def vec_div_s_def scalar_div_assign_def
  vec_uminus_def vec_smod_def

lemma vec_create_replicate [simp]: "vec_create n value = replicate n value"
  by (simp add: vec_create_def map_replicate_trivial)

lemma length_vec_ops [simp]:
  "length (vec_add a b) = min (length a) (length b)"
  "length (vec_sub a b) = min (length a) (length b)"
  "length (vec_mul c d) = min (length c) (length d)"
  "length (vec_add_s a s) = length a"
  "length (vec_sub_s a s) = length a"
  "length (vec_mul_s c t) = length c"
  "length (s_mul_vec t c) = length c"
  for a b :: "'a :: {plus, minus} vec" and c d :: "'b :: times vec"
  by (simp_all add: vec_simps)

lemma copyElementWise_copies: "length dest = length src \<Longrightarrow> copyElementWise False dest src = src"
  by (simp add: copyElementWise_def map_nth)

lemma vec_eq_iff: "length a = length b \<Longrightarrow> vec_eq a b \<longleftrightarrow> a = b"
  by (induction a b rule: vec_eq.induct) auto

lemma length_foldl_update [simp]: "length (foldl (\<lambda>w i. w[f i := g i]) u is) = length u"
  by (induction "is" arbitrary: u) simp_all

lemma revert_prefix:
  "k \<le> length v \<Longrightarrow> length u = length v \<Longrightarrow> j < length v \<Longrightarrow> length v - k \<le> j \<Longrightarrow>
   foldl (\<lambda>inverted i. inverted[length v - 1 - i := v ! i]) u [0..<k] ! j = v ! (length v - 1 - j)"
proof (induction k)
  case (Suc k)
  show ?case
  proof (cases "j = length v - 1 - k")
    case True
    with Suc.prems show ?thesis by (simp add: nth_list_update)
  next
    case False
    with Suc.prems have "length v - k \<le> j" by linarith
    with False Suc show ?thesis by (simp add: nth_list_update)
  qed
qed simp

lemma revert_rev: "revert v = rev v"
proof (rule nth_equalityI)
  show "length (revert v) = length (rev v)" by (simp add: revert_def)
  fix j assume "j < length (revert v)"
  then have j: "j < length v" by (simp add: revert_def)
  then have "revert v ! j = v ! (length v - 1 - j)"
    unfolding revert_def by (intro revert_prefix) simp_all
  then show "revert v ! j = rev v ! j" using j by (simp add: rev_nth)
qed

lemma shrink_prefix: "n \<le> length v \<Longrightarrow> shrink n 0 v = take n v"
  by (rule nth_equalityI) (auto simp: shrink_def)

lemma productOfComponents_prod_list:
  "v \<noteq> [] \<Longrightarrow> productOfComponents v = prod_list v" for v :: "'a :: comm_monoid_mult vec"
proof -
  assume "v \<noteq> []"
  then obtain a w where v: "v = a # w" by (cases v) auto
  have "foldl (\<lambda>result c. result * c) a w = a * prod_list w"
    by (induction w arbitrary: a) (simp_all add: mult.assoc)
  then show ?thesis by (simp add: v productOfComponents_def)
qed

lemma abs2_dot: "abs2 v = dot v v" for v :: "'a :: {plus, times} vec"
proof -
  have "foldl (\<lambda>r c. r + c * c) s w = foldl (\<lambda>r (c, d). r + c * d) s (zip w w)" for s and w :: "'a vec"
    by (induction w arbitrary: s) simp_all
  then show ?thesis by (cases v) (simp_all add: abs2_def dot_def)
qed

lemma extent_reversed: "idx < length v \<Longrightarrow> getExtent idx v = rev v ! idx"
  by (simp add: getExtent_def rev_nth)

lemma extent_get_set: "idx < length v \<Longrightarrow> getExtent idx (setExtent idx v e) = e"
  by (simp add: getExtent_def setExtent_def)

end
