(* ===== verification/DataSpaces.thy ===== *)
theory DataSpaces
  imports Vectors
begin

text \<open>
  Models \<open>DataSpace<DIM>\<close> (src/libPMacc/include/dimensions/DataSpace.hpp, DataSpace.tpp), the
  integer vector that every grid size, offset and position of the framework is, and
  \<open>GridLayout<DIM>\<close> (dimensions/GridLayout.hpp), a grid with its guard cells. The arithmetic of
  DataSpace is that of \<open>math::Vector<int, DIM>\<close>; division is C++ \<open>int\<close> division.
\<close>

type_synonym DataSpace = "int vec"

definition DataSpace_default :: "nat \<Rightarrow> DataSpace" where
  "DataSpace_default DIM = map (\<lambda>i. 0) [0..<DIM]"

definition DataSpace_of_alpaka :: "int vec \<Rightarrow> DataSpace" where
  "DataSpace_of_alpaka v = map (\<lambda>i. v ! (length v - 1 - i)) [0..<length v]"

definition DataSpace_create :: "nat \<Rightarrow> int \<Rightarrow> DataSpace" where
  "DataSpace_create DIM value = map (\<lambda>i. value) [0..<DIM]"

definition getDim :: "DataSpace \<Rightarrow> int" where
  "getDim this = int (length this)"

fun isOneDimensionGreaterThan :: "DataSpace \<Rightarrow> DataSpace \<Rightarrow> bool" where
  "isOneDimensionGreaterThan (a # this) (b # other) =
     (if a > b then True else isOneDimensionGreaterThan this other)"
| "isOneDimensionGreaterThan _ _ = False"

definition to_Size_t :: "DataSpace \<Rightarrow> int vec" where
  "to_Size_t this = map (\<lambda>c. c mod 2 ^ 64) this"

abbreviation ds_div :: "DataSpace \<Rightarrow> DataSpace \<Rightarrow> DataSpace" where
  "ds_div \<equiv> vec_div (\<lambda>a b. a sdiv b)"

abbreviation ds_div_s :: "DataSpace \<Rightarrow> int \<Rightarrow> DataSpace" where
  "ds_div_s \<equiv> vec_div_s (\<lambda>a b. a sdiv b)"

section \<open>GridLayout\<close>

record GridLayout =
  layout_dataSpace :: DataSpace
  layout_guard :: DataSpace

definition GridLayout_default :: "nat \<Rightarrow> GridLayout" where
  "GridLayout_default DIM =
     \<lparr>layout_dataSpace = DataSpace_create DIM 1, layout_guard = DataSpace_create DIM 0\<rparr>"

definition GridLayout_of :: "DataSpace \<Rightarrow> DataSpace \<Rightarrow> GridLayout" where
  "GridLayout_of ds g = \<lparr>layout_dataSpace = ds, layout_guard = g\<rparr>"

definition getDataSpace :: "GridLayout \<Rightarrow> DataSpace" where
  "getDataSpace l = vec_add (vec_add (layout_dataSpace l) (layout_guard l)) (layout_guard l)"

definition getDataSpaceWithoutGuarding :: "GridLayout \<Rightarrow> DataSpace" where
  "getDataSpaceWithoutGuarding l = layout_dataSpace l"

definition getGuard :: "GridLayout \<Rightarrow> DataSpace" where
  "getGuard l = layout_guard l"

section \<open>Facts\<close>

lemma DataSpace_create_replicate [simp]: "DataSpace_create n v = replicate n v"
  by (simp add: DataSpace_create_def map_replicate_trivial)

lemma DataSpace_default_replicate [simp]: "DataSpace_default n = replicate n 0"
  by (simp add: DataSpace_default_def map_replicate_trivial)

lemma DataSpace_of_alpaka_rev: "DataSpace_of_alpaka v = rev v"
  by (rule nth_equalityI) (simp_all add: DataSpace_of_alpaka_def rev_nth)

text \<open>
  Reading the components of a \<open>DataSpace\<close> in alpaka's order and building a \<open>DataSpace\<close> from them
  gives the original back: both sides of the interface reverse the axes.
\<close>

lemma alpaka_roundtrip: "DataSpace_of_alpaka (map (\<lambda>i. getExtent i ds) [0..<length ds]) = ds"
proof -
  have "map (\<lambda>i. getExtent i ds) [0..<length ds] = rev ds"
    by (rule nth_equalityI) (simp_all add: getExtent_def rev_nth)
  then show ?thesis by (simp add: DataSpace_of_alpaka_rev)
qed

lemma isOneDimensionGreaterThan_iff:
  "length a = length b \<Longrightarrow> isOneDimensionGreaterThan a b \<longleftrightarrow> (\<exists>d < length a. a ! d > b ! d)"
proof (induction a b rule: isOneDimensionGreaterThan.induct)
  case (1 a this b other)
  then show ?case by (simp add: Ex_less_Suc2)
qed auto

lemma getDataSpace_guarded:
  "length ds = length g \<Longrightarrow> getDataSpace (GridLayout_of ds g) = map2 (\<lambda>a b. a + 2 * b) ds g"
  by (rule nth_equalityI) (simp_all add: getDataSpace_def GridLayout_of_def vec_simps)

end
