(* ===== verification/Masks.thy ===== *)
theory Masks
  imports DataSpaces
begin

unbundle bit_operations_syntax

text \<open>
  Models the direction codes \<open>ExchangeType\<close> (src/libPMacc/include/types.h), the number of
  exchanges (traits/NumberOfExchanges.hpp) and \<open>class Mask\<close> (memory/dataTypes/Mask.hpp). A direction is a
  three-digit number in base 3, one digit per axis: 0 no shift, 1 and 2 the two sides. A mask is
  a 32 bit word with one bit per direction. The lemmas show that the base 3 code enumerates all
  neighbours exactly once, that \<open>containsExchangeType\<close> reads the intended digit, and that
  mirroring negates the direction and is an involution.
\<close>

section \<open>Directions\<close>

definition RIGHT :: nat where "RIGHT = 1"
definition LEFT :: nat where "LEFT = 2"
definition BOTTOM :: nat where "BOTTOM = 3"
definition TOP :: nat where "TOP = 6"
definition BACK :: nat where "BACK = 9"
definition FRONT :: nat where "FRONT = 18"

lemmas direction_defs = RIGHT_def LEFT_def BOTTOM_def TOP_def BACK_def FRONT_def

fun NumberOfExchanges :: "nat \<Rightarrow> nat" where
  "NumberOfExchanges DIM =
     (if DIM = 1 then LEFT + RIGHT else if DIM = 2 then TOP + BOTTOM else BACK + FRONT)"

section \<open>The class Mask\<close>

record Mask =
  bitMask :: "32 word"

datatype mask_error = ParameterExceedsMaximum

definition Mask_empty :: Mask where
  "Mask_empty = \<lparr>bitMask = 0\<rparr>"

definition Mask_of :: "nat \<Rightarrow> Mask" where
  "Mask_of ex = \<lparr>bitMask = push_bit ex 1\<rparr>"

definition Mask_assign :: "Mask \<Rightarrow> 32 word \<Rightarrow> Mask" where
  "Mask_assign this other = this\<lparr>bitMask := other\<rparr>"

definition Mask_join :: "Mask \<Rightarrow> Mask \<Rightarrow> Mask" where
  "Mask_join this other = \<lparr>bitMask = bitMask this OR bitMask other\<rparr>"

definition Mask_intersect :: "Mask \<Rightarrow> Mask \<Rightarrow> Mask" where
  "Mask_intersect this other = \<lparr>bitMask = bitMask this AND bitMask other\<rparr>"

definition isSet :: "Mask \<Rightarrow> nat \<Rightarrow> bool" where
  "isSet this ex \<longleftrightarrow> bitMask this AND push_bit ex 1 \<noteq> 0"

fun scaleToDigit :: "nat \<Rightarrow> nat \<Rightarrow> nat \<times> nat" where
  "scaleToDigit tmp tmp_ex =
     (if tmp_ex \<ge> 3 then scaleToDigit (tmp div 3) (tmp_ex div 3) else (tmp, tmp_ex))"

declare scaleToDigit.simps [simp del]

definition containsExchangeType :: "Mask \<Rightarrow> nat \<Rightarrow> bool" where
  "containsExchangeType this ex =
     list_ex (\<lambda>i. isSet this i \<and> (case scaleToDigit i ex of (tmp, tmp_ex) \<Rightarrow> tmp mod 3 = tmp_ex))
       [1..<27]"

definition getMirroredExchangeType :: "nat \<Rightarrow> mask_error + nat" where
  "getMirroredExchangeType ex =
     (if ex \<ge> NumberOfExchanges 3 then Inl ParameterExceedsMaximum
      else let mask = Mask_of ex;
               tmp = 0;
               tmp = (if containsExchangeType mask RIGHT then tmp + LEFT else tmp);
               tmp = (if containsExchangeType mask LEFT then tmp + RIGHT else tmp);
               tmp = (if containsExchangeType mask BOTTOM then tmp + TOP else tmp);
               tmp = (if containsExchangeType mask TOP then tmp + BOTTOM else tmp);
               tmp = (if containsExchangeType mask FRONT then tmp + BACK else tmp);
               tmp = (if containsExchangeType mask BACK then tmp + FRONT else tmp)
           in Inr tmp)"

fun mirrorBits :: "Mask \<Rightarrow> 32 word \<Rightarrow> nat list \<Rightarrow> mask_error + 32 word" where
  "mirrorBits this tmp [] = Inr tmp"
| "mirrorBits this tmp (i # is) =
     (if isSet this i then
        (case getMirroredExchangeType i of
           Inl e \<Rightarrow> Inl e
         | Inr ex \<Rightarrow> mirrorBits this (tmp OR push_bit ex 1) is)
      else mirrorBits this tmp is)"

definition getMirroredMask :: "Mask \<Rightarrow> mask_error + Mask" where
  "getMirroredMask this =
     (case mirrorBits this 0 [1..<27] of Inl e \<Rightarrow> Inl e | Inr tmp \<Rightarrow> Inr \<lparr>bitMask = tmp\<rparr>)"

text \<open>Direction to relative offset; \<open>DIM1\<close> has its own specialisation without modulo.\<close>

fun relativeDigits :: "nat \<Rightarrow> nat \<Rightarrow> DataSpace" where
  "relativeDigits 0 direction = []"
| "relativeDigits (Suc n) direction =
     (let dim_direction = direction mod 3
      in (if dim_direction = 2 then -1 else int dim_direction) # relativeDigits n (direction div 3))"

definition getRelativeDirections1 :: "nat \<Rightarrow> DataSpace" where
  "getRelativeDirections1 direction = (if direction = 2 then [-1] else [int direction])"

definition getRelativeDirections :: "nat \<Rightarrow> nat \<Rightarrow> DataSpace" where
  "getRelativeDirections DIM direction =
     (if DIM = 1 then getRelativeDirections1 direction else relativeDigits DIM direction)"

section \<open>The base 3 code\<close>

lemma length_relativeDigits [simp]: "length (relativeDigits n ex) = n"
  by (induction n arbitrary: ex) (simp_all add: Let_def)

lemma length_getRelativeDirections [simp]: "length (getRelativeDirections n ex) = n"
  by (simp add: getRelativeDirections_def getRelativeDirections1_def)

lemma getRelativeDirections_digits:
  "ex < 3 ^ n \<Longrightarrow> getRelativeDirections n ex = relativeDigits n ex"
  by (cases "n = 1") (auto simp: getRelativeDirections_def getRelativeDirections1_def Let_def)

definition unit_offsets :: "nat \<Rightarrow> DataSpace set" where
  "unit_offsets n = {v. length v = n \<and> set v \<subseteq> {-1, 0, 1}}"

fun encodeDigits :: "DataSpace \<Rightarrow> nat" where
  "encodeDigits [] = 0"
| "encodeDigits (c # v) = (if c = -1 then 2 else nat c) + 3 * encodeDigits v"

lemma relativeDigits_unit: "relativeDigits n ex \<in> unit_offsets n"
proof (induction n arbitrary: ex)
  case (Suc n)
  have "ex mod 3 = 0 \<or> ex mod 3 = 1 \<or> ex mod 3 = 2" by linarith
  with Suc [of "ex div 3"] show ?case by (auto simp: unit_offsets_def Let_def)
qed (simp add: unit_offsets_def)

lemma encode_relativeDigits: "ex < 3 ^ n \<Longrightarrow> encodeDigits (relativeDigits n ex) = ex"
proof (induction n arbitrary: ex)
  case (Suc n)
  have "ex div 3 < 3 ^ n" using Suc.prems by simp
  then have "encodeDigits (relativeDigits n (ex div 3)) = ex div 3" by (rule Suc.IH)
  moreover have "ex mod 3 = 0 \<or> ex mod 3 = 1 \<or> ex mod 3 = 2" by linarith
  ultimately show ?case by (auto simp: Let_def; presburger)
qed simp

lemma relativeDigits_encode:
  "v \<in> unit_offsets n \<Longrightarrow> relativeDigits n (encodeDigits v) = v \<and> encodeDigits v < 3 ^ n"
proof (induction n arbitrary: v)
  case (Suc n)
  then obtain c w where v: "v = c # w" and c: "c = -1 \<or> c = 0 \<or> c = 1" and w: "w \<in> unit_offsets n"
    by (cases v) (auto simp: unit_offsets_def)
  from Suc.IH [OF w] show ?case
    using c by (auto simp: v Let_def)
qed (simp add: unit_offsets_def)

lemma relativeDigits_bij: "bij_betw (relativeDigits n) {0..<3 ^ n} (unit_offsets n)"
  by (rule bij_betwI_inverse [where g = encodeDigits])
     (auto simp: encode_relativeDigits relativeDigits_unit relativeDigits_encode)

lemma relativeDigits_zero: "relativeDigits n 0 = replicate n 0"
  by (induction n) (simp_all add: Let_def)

section \<open>Reading and joining masks\<close>

lemma isSet_bit: "isSet m ex \<longleftrightarrow> bit (bitMask m) ex"
proof -
  have "bitMask m AND push_bit ex 1 = (if bit (bitMask m) ex then push_bit ex 1 else 0)"
    by (rule bit_eqI) (auto simp: bit_and_iff bit_exp_iff)
  moreover have "bit (bitMask m) ex \<Longrightarrow> push_bit ex (1 :: 32 word) \<noteq> 0"
    by (auto simp: bit_eq_iff [of _ 0] bit_exp_iff dest: bit_imp_le_length)
  ultimately show ?thesis by (auto simp: isSet_def)
qed

lemma isSet_Mask_of [simp]: "ex < 32 \<Longrightarrow> isSet (Mask_of ex) i \<longleftrightarrow> i = ex"
  by (auto simp: isSet_bit Mask_of_def bit_exp_iff)

lemma isSet_empty [simp]: "\<not> isSet Mask_empty i"
  by (simp add: isSet_bit Mask_empty_def)

lemma isSet_join [simp]: "isSet (Mask_join a b) i \<longleftrightarrow> isSet a i \<or> isSet b i"
  by (simp add: isSet_bit Mask_join_def bit_or_iff)

lemma isSet_intersect [simp]: "isSet (Mask_intersect a b) i \<longleftrightarrow> isSet a i \<and> isSet b i"
  by (simp add: isSet_bit Mask_intersect_def bit_and_iff)

lemma scaleToDigit_axis:
  "scaleToDigit i RIGHT = (i, 1)" "scaleToDigit i LEFT = (i, 2)"
  "scaleToDigit i BOTTOM = (i div 3, 1)" "scaleToDigit i TOP = (i div 3, 2)"
  "scaleToDigit i BACK = (i div 9, 1)" "scaleToDigit i FRONT = (i div 9, 2)"
  by (simp_all add: direction_defs scaleToDigit.simps div_mult2_eq [symmetric])

lemma containsExchangeType_iff:
  "containsExchangeType m ex \<longleftrightarrow>
     (\<exists>i. 1 \<le> i \<and> i < 27 \<and> isSet m i \<and> fst (scaleToDigit i ex) mod 3 = snd (scaleToDigit i ex))"
  unfolding containsExchangeType_def list_ex_iff set_upt
  by (auto simp: case_prod_unfold simp del: upt_rec_numeral)

lemma containsExchangeType_single:
  assumes "0 < ex" "ex < 27"
  shows "containsExchangeType (Mask_of ex) RIGHT \<longleftrightarrow> ex mod 3 = 1"
    and "containsExchangeType (Mask_of ex) LEFT \<longleftrightarrow> ex mod 3 = 2"
    and "containsExchangeType (Mask_of ex) BOTTOM \<longleftrightarrow> ex div 3 mod 3 = 1"
    and "containsExchangeType (Mask_of ex) TOP \<longleftrightarrow> ex div 3 mod 3 = 2"
    and "containsExchangeType (Mask_of ex) BACK \<longleftrightarrow> ex div 9 mod 3 = 1"
    and "containsExchangeType (Mask_of ex) FRONT \<longleftrightarrow> ex div 9 mod 3 = 2"
  using assms by (auto simp: containsExchangeType_iff scaleToDigit_axis)

lemma containsExchangeType_origin:
  "\<not> containsExchangeType (Mask_of 0) d"
  by (auto simp: containsExchangeType_iff)

section \<open>Mirroring\<close>

definition mirror_digit :: "nat \<Rightarrow> nat" where
  "mirror_digit d = (if d = 1 then 2 else if d = 2 then 1 else 0)"

definition mirror_code :: "nat \<Rightarrow> nat" where
  "mirror_code ex =
     mirror_digit (ex mod 3) + 3 * mirror_digit (ex div 3 mod 3) + 9 * mirror_digit (ex div 9 mod 3)"

lemma mirror_digit_bound: "mirror_digit d < 3"
  by (simp add: mirror_digit_def)

lemma mirror_digit_invol [simp]: "d < 3 \<Longrightarrow> mirror_digit (mirror_digit d) = d"
  by (auto simp: mirror_digit_def)

lemma digits3:
  fixes a b c :: nat
  assumes "a < 3" "b < 3" "c < 3"
  shows "(a + 3 * b + 9 * c) mod 3 = a"
    and "(a + 3 * b + 9 * c) div 3 mod 3 = b"
    and "(a + 3 * b + 9 * c) div 9 mod 3 = c"
proof -
  have e: "a + 3 * b + 9 * c = a + 3 * (b + 3 * c)" by simp
  have f: "(a + 3 * (b + 3 * c)) div 3 = b + 3 * c" using assms by simp
  show "(a + 3 * b + 9 * c) mod 3 = a" unfolding e mod_mult_self2 using assms by simp
  show "(a + 3 * b + 9 * c) div 3 mod 3 = b" unfolding e f using assms by simp
  have "(a + 3 * (b + 3 * c)) div (3 * 3) = c" unfolding div_mult2_eq f using assms by simp
  then show "(a + 3 * b + 9 * c) div 9 mod 3 = c" unfolding e using assms by simp
qed

lemma mirror_code_digits [simp]:
  "mirror_code ex mod 3 = mirror_digit (ex mod 3)"
  "mirror_code ex div 3 mod 3 = mirror_digit (ex div 3 mod 3)"
  "mirror_code ex div 9 mod 3 = mirror_digit (ex div 9 mod 3)"
  unfolding mirror_code_def by (rule digits3; rule mirror_digit_bound)+

lemma mirror_code_bound: "mirror_code ex < 27"
  unfolding mirror_code_def
  using mirror_digit_bound [of "ex mod 3"] mirror_digit_bound [of "ex div 3 mod 3"]
    mirror_digit_bound [of "ex div 9 mod 3"] by linarith

lemma code3_expand: "ex < 27 \<Longrightarrow> ex mod 3 + 3 * (ex div 3 mod 3) + 9 * (ex div 9 mod 3) = ex" for ex :: nat
proof -
  assume ex: "ex < 27"
  have "ex div 9 = ex div 3 div 3" by (simp add: div_mult2_eq [symmetric])
  moreover have "ex div 9 mod 3 = ex div 9" using ex by simp
  ultimately show ?thesis
    using mod_mult_div_eq [of ex 3] mod_mult_div_eq [of "ex div 3" 3] by linarith
qed

lemma mirror_code_invol: "ex < 27 \<Longrightarrow> mirror_code (mirror_code ex) = ex"
  unfolding mirror_code_def [of "mirror_code ex"] mirror_code_digits
  by (simp only: mirror_digit_invol mod_less_divisor zero_less_numeral code3_expand)

lemma mirror_code_pos: "0 < ex \<Longrightarrow> ex < 27 \<Longrightarrow> 0 < mirror_code ex"
proof (rule ccontr)
  assume "0 < ex" "ex < 27" "\<not> 0 < mirror_code ex"
  then show False using mirror_code_invol [of ex] by (simp add: mirror_code_def [of 0] mirror_digit_def)
qed

lemma getMirroredExchangeType_eq: "ex < 27 \<Longrightarrow> getMirroredExchangeType ex = Inr (mirror_code ex)"
proof -
  assume ex: "ex < 27"
  have bound: "\<not> NumberOfExchanges 3 \<le> ex" using ex by (simp add: direction_defs)
  show ?thesis
  proof (cases "ex = 0")
    case True
    then show ?thesis using bound
      by (simp add: getMirroredExchangeType_def containsExchangeType_origin mirror_code_def mirror_digit_def)
  next
    case False
    then have c: "0 < ex" by simp
    show ?thesis using bound
      unfolding getMirroredExchangeType_def Let_def containsExchangeType_single [OF c ex]
      by (auto simp: mirror_code_def mirror_digit_def direction_defs)
  qed
qed

lemma relativeDigits3:
  "relativeDigits 3 ex =
     (let dg = (\<lambda>d. if d = 2 then -1 else int d) in [dg (ex mod 3), dg (ex div 3 mod 3), dg (ex div 9 mod 3)])"
  by (subst numeral_3_eq_3) (simp add: Let_def div_mult2_eq [symmetric])

lemma relativeDigits_mirror: "relativeDigits 3 (mirror_code ex) = vec_uminus (relativeDigits 3 ex)"
proof -
  have "(if mirror_digit d = 2 then -1 else int (mirror_digit d)) = - (if d = 2 then -1 else int d)"
    if "d < 3" for d
    using that by (auto simp: mirror_digit_def)
  then show ?thesis by (simp add: relativeDigits3 Let_def vec_uminus_def)
qed

lemma mirrorBits_spec:
  "set is \<subseteq> {1..<27} \<Longrightarrow>
   \<exists>w. mirrorBits m tmp is = Inr w \<and>
     (\<forall>j. bit w j \<longleftrightarrow> bit tmp j \<or> (\<exists>i \<in> set is. isSet m i \<and> j = mirror_code i))"
proof (induction "is" arbitrary: tmp)
  case (Cons i "is")
  then have i: "i < 27" by auto
  have b: "bit (push_bit (mirror_code i) (1 :: 32 word)) j \<longleftrightarrow> j = mirror_code i" for j
    using mirror_code_bound [of i] by (auto simp: bit_exp_iff)
  have IH: "\<exists>w. mirrorBits m t is = Inr w \<and>
     (\<forall>j. bit w j \<longleftrightarrow> bit t j \<or> (\<exists>i \<in> set is. isSet m i \<and> j = mirror_code i))" for t
    using Cons by simp
  show ?case
  proof (cases "isSet m i")
    case True
    obtain w where "mirrorBits m (tmp OR push_bit (mirror_code i) 1) is = Inr w"
      and "\<forall>j. bit w j \<longleftrightarrow> bit (tmp OR push_bit (mirror_code i) 1) j
             \<or> (\<exists>i \<in> set is. isSet m i \<and> j = mirror_code i)"
      using IH by blast
    with True show ?thesis
      unfolding mirrorBits.simps getMirroredExchangeType_eq [OF i] bit_or_iff b by auto
  next
    case False
    with IH [of tmp] show ?thesis by auto
  qed
qed simp

lemma getMirroredMask_spec:
  "\<exists>m'. getMirroredMask m = Inr m' \<and>
     (\<forall>j. isSet m' j \<longleftrightarrow> (\<exists>i. 1 \<le> i \<and> i < 27 \<and> isSet m i \<and> j = mirror_code i))"
proof -
  obtain w where "mirrorBits m 0 [1..<27] = Inr w"
    and "\<forall>j. bit w j \<longleftrightarrow> (\<exists>i \<in> {1..<27}. isSet m i \<and> j = mirror_code i)"
    using mirrorBits_spec [of "[1..<27]" m 0] by auto
  then show ?thesis by (auto simp: getMirroredMask_def isSet_bit)
qed

section \<open>Properties\<close>

text \<open>
  The direction code of an exchange enumerates the neighbours: in any dimension
  \<open>getRelativeDirections\<close> is a bijection between the codes below \<open>3 ^ DIM\<close> and the offset vectors
  with components -1, 0 and 1.
\<close>

theorem getRelativeDirections_enumerates:
  "bij_betw (getRelativeDirections DIM) {0..<3 ^ DIM} {v. length v = DIM \<and> set v \<subseteq> {-1, 0, 1}}"
proof -
  have "bij_betw (getRelativeDirections DIM) {0..<3 ^ DIM} (unit_offsets DIM)"
    using relativeDigits_bij [of DIM]
    by (rule bij_betw_cong [THEN iffD2, rotated]) (simp add: getRelativeDirections_digits)
  then show ?thesis by (simp add: unit_offsets_def)
qed

text \<open>
  Mirroring an exchange direction succeeds exactly for the 27 valid codes, negates the
  relative offset and is its own inverse; every other code is rejected with an exception.
\<close>

theorem getMirroredExchangeType_negates:
  "if ex < 27
   then \<exists>ex'. getMirroredExchangeType ex = Inr ex' \<and> ex' < 27
          \<and> getRelativeDirections 3 ex' = vec_uminus (getRelativeDirections 3 ex)
          \<and> getMirroredExchangeType ex' = Inr ex
   else getMirroredExchangeType ex = Inl ParameterExceedsMaximum"
  by (simp add: getMirroredExchangeType_eq mirror_code_bound getRelativeDirections_def
      relativeDigits_mirror mirror_code_invol)
     (simp add: getMirroredExchangeType_def direction_defs)

text \<open>
  \<open>getMirroredMask\<close> never fails, sets exactly the mirrored directions of the mask, and
  mirroring twice gives back every direction that a mask can hold.
\<close>

theorem getMirroredMask_mirrors:
  "\<exists>m'. getMirroredMask m = Inr m' \<and>
     (\<forall>i \<in> {1..<27}. \<forall>i'. getMirroredExchangeType i = Inr i' \<longrightarrow> (isSet m' i' \<longleftrightarrow> isSet m i)) \<and>
     (\<exists>m''. getMirroredMask m' = Inr m'' \<and> (\<forall>i \<in> {1..<27}. isSet m'' i \<longleftrightarrow> isSet m i))"
proof -
  obtain m' where m': "getMirroredMask m = Inr m'"
    and s: "\<And>j. isSet m' j \<longleftrightarrow> (\<exists>i. 1 \<le> i \<and> i < 27 \<and> isSet m i \<and> j = mirror_code i)"
    using getMirroredMask_spec by blast
  have s': "isSet m' (mirror_code i) \<longleftrightarrow> isSet m i" if "i \<in> {1..<27}" for i
    using that s mirror_code_invol by (metis atLeastLessThan_iff)
  obtain m'' where m'': "getMirroredMask m' = Inr m''"
    and t: "\<And>j. isSet m'' j \<longleftrightarrow> (\<exists>i. 1 \<le> i \<and> i < 27 \<and> isSet m' i \<and> j = mirror_code i)"
    using getMirroredMask_spec by blast
  have "isSet m'' i \<longleftrightarrow> isSet m i" if i: "i \<in> {1..<27}" for i
  proof -
    have c: "mirror_code i \<in> {1..<27}" using i mirror_code_bound [of i] mirror_code_pos [of i] by auto
    have "isSet m'' i \<longleftrightarrow> isSet m' (mirror_code i)"
      using t [of i] c i mirror_code_invol by (metis atLeastLessThan_iff)
    then show ?thesis using s' [OF i] by simp
  qed
  with m' m'' s' show ?thesis by (auto simp: getMirroredExchangeType_eq)
qed

theorem getMirroredMask_mirrors_witness:
  "\<exists>m'. getMirroredMask (Mask_join (Mask_of RIGHT) (Mask_of 26)) = Inr m' \<and> isSet m' LEFT \<and> isSet m' 13 \<and> \<not> isSet m' RIGHT"
proof -
  have e: "getMirroredExchangeType RIGHT = Inr LEFT" "getMirroredExchangeType LEFT = Inr RIGHT"
    "getMirroredExchangeType 26 = Inr 13"
    by (simp_all add: getMirroredExchangeType_eq mirror_code_def mirror_digit_def direction_defs)
  obtain m' where m': "getMirroredMask (Mask_join (Mask_of RIGHT) (Mask_of 26)) = Inr m'"
    and s: "\<forall>i \<in> {1..<27}. \<forall>i'. getMirroredExchangeType i = Inr i' \<longrightarrow>
      (isSet m' i' \<longleftrightarrow> isSet (Mask_join (Mask_of RIGHT) (Mask_of 26)) i)"
    using getMirroredMask_mirrors [of "Mask_join (Mask_of RIGHT) (Mask_of 26)"] by blast
  have "isSet m' LEFT" using bspec [OF s, of RIGHT] e by (simp add: direction_defs)
  moreover have "isSet m' 13" using bspec [OF s, of 26] e by simp
  moreover have "\<not> isSet m' RIGHT" using bspec [OF s, of LEFT] e by (simp add: direction_defs)
  ultimately show ?thesis using m' by blast
qed

end
