(* ===== verification/SpaceOps.thy ===== *)
theory SpaceOps
  imports Masks
begin

text \<open>
  Models \<open>DataSpaceOperations<DIM>\<close> (src/libPMacc/include/dimensions/DataSpaceOperations.hpp):
  the maps between linear \<open>uint32_t\<close> indices and positions, and the pair \<open>reduce\<close>/\<open>extend\<close> that
  carries a supercell position across a particle exchange. The template versions with a
  compile-time size \<open>TVEC\<close> and the versions with a run-time size are separate definitions, as in
  the source. Shown: index and position maps are mutually inverse on every grid whose cell
  count fits into \<open>int\<close>, and \<open>extend\<close> after \<open>reduce\<close> places a bashed supercell at its image in the
  receiving domain.
\<close>

section \<open>Linear indices and positions\<close>

definition map1_of_index :: "int \<Rightarrow> DataSpace" where
  "map1_of_index pos = [i32 pos]"

definition map1_to_index :: "DataSpace \<Rightarrow> int" where
  "map1_to_index pos = u32 (xc pos)"

definition map2_of_index_ct :: "int vec \<Rightarrow> int \<Rightarrow> DataSpace" where
  "map2_of_index_ct TVEC pos = [i32 (pos mod u32 (xc TVEC)), i32 (pos div u32 (xc TVEC))]"

definition map2_to_index_ct :: "int vec \<Rightarrow> DataSpace \<Rightarrow> int" where
  "map2_to_index_ct TVEC pos = u32 (yc pos * xc TVEC + xc pos)"

definition map2_of_index :: "DataSpace \<Rightarrow> int \<Rightarrow> DataSpace" where
  "map2_of_index sz pos = [i32 (pos mod u32 (xc sz)), i32 (pos div u32 (xc sz))]"

definition map2_to_index :: "DataSpace \<Rightarrow> DataSpace \<Rightarrow> int" where
  "map2_to_index sz pos = u32 (yc pos * xc sz + xc pos)"

definition map3_of_index_ct :: "int vec \<Rightarrow> int \<Rightarrow> DataSpace" where
  "map3_of_index_ct TVEC pos =
     [i32 (pos mod u32 (xc TVEC)),
      i32 ((pos mod u32 (xc TVEC * yc TVEC)) div u32 (xc TVEC)),
      i32 (pos div u32 (xc TVEC * yc TVEC))]"

definition map3_of_index :: "DataSpace \<Rightarrow> int \<Rightarrow> DataSpace" where
  "map3_of_index sz pos =
     [i32 (pos mod u32 (xc sz)),
      i32 ((pos mod u32 (xc sz * yc sz)) div u32 (xc sz)),
      i32 (pos div u32 (xc sz * yc sz))]"

definition map3_to_index_ct :: "int vec \<Rightarrow> DataSpace \<Rightarrow> int" where
  "map3_to_index_ct TVEC pos = u32 (zc pos * xc TVEC * yc TVEC + yc pos * xc TVEC + xc pos)"

definition map3_to_index :: "DataSpace \<Rightarrow> DataSpace \<Rightarrow> int" where
  "map3_to_index sz pos = u32 (zc pos * xc sz * yc sz + yc pos * xc sz + xc pos)"

text \<open>The overloads with a run-time size, for the dimension of the size argument.\<close>

definition map_of_index :: "DataSpace \<Rightarrow> int \<Rightarrow> DataSpace" where
  "map_of_index sz pos = (if length sz = 2 then map2_of_index sz pos else map3_of_index sz pos)"

definition map_to_index :: "DataSpace \<Rightarrow> DataSpace \<Rightarrow> int" where
  "map_to_index sz pos = (if length sz = 2 then map2_to_index sz pos else map3_to_index sz pos)"

section \<open>Reducing and extending positions\<close>

definition reduce2 :: "DataSpace \<Rightarrow> nat \<Rightarrow> DataSpace" where
  "reduce2 ds ex =
     (let directions = getRelativeDirections 2 ex
      in if xc directions \<noteq> 0 then [yc ds]
         else if yc directions \<noteq> 0 then [xc ds]
         else [0])"

definition reduce3 :: "DataSpace \<Rightarrow> nat \<Rightarrow> DataSpace" where
  "reduce3 ds ex =
     (let directions = getRelativeDirections 3 ex
      in if xc directions \<noteq> 0 then [yc ds, zc ds]
         else if zc directions \<noteq> 0 then [xc ds, yc ds]
         else if yc directions \<noteq> 0 then [xc ds, zc ds]
         else [0, 0])"

definition extend1 :: "DataSpace \<Rightarrow> nat \<Rightarrow> DataSpace \<Rightarrow> DataSpace \<Rightarrow> DataSpace" where
  "extend1 ds ex target offs =
     (let directions = getRelativeDirections 2 ex;
          result_x = xc ds;
          result_y = xc ds;
          result_x = (if xc directions = 1 then xc target - xc offs - 1 else result_x);
          result_x = (if xc directions = -1 then xc offs else result_x);
          result_y = (if yc directions = 1 then yc target - yc offs - 1 else result_y);
          result_y = (if yc directions = -1 then yc offs else result_y)
      in [result_x, result_y])"

definition extend2 :: "DataSpace \<Rightarrow> nat \<Rightarrow> DataSpace \<Rightarrow> DataSpace \<Rightarrow> DataSpace" where
  "extend2 ds ex target offs =
     (let directions = getRelativeDirections 3 ex;
          y_entry = (if xc directions = 1 \<or> xc directions = -1 then 0 else (1 :: nat));
          result_x = (if xc directions = 1 then xc target - xc offs - 1
                      else if xc directions = -1 then xc offs else ds ! 0);
          result_z = (if zc directions = 1 then zc target - zc offs - 1
                      else if zc directions = -1 then zc offs else ds ! 1);
          result_y = (if yc directions = 1 then yc target - yc offs - 1
                      else if yc directions = -1 then yc offs
                      else if y_entry = 0 then xc ds else yc ds)
      in [result_x, result_y, result_z])"

section \<open>Index maps are inverse to each other\<close>

lemma of_to_index2:
  assumes "p \<in> box [sx, sy]" "sx * sy < 2 ^ 31"
  shows "map2_to_index [sx, sy] p \<in> {0..<sx * sy} \<and> map2_of_index [sx, sy] (map2_to_index [sx, sy] p) = p"
  using assms(1)
proof (rule box2E)
  fix x y assume p: "p = [x, y]" and x: "0 \<le> x" "x < sx" and y: "0 \<le> y" "y < sy"
  have b: "y * sx + x < sx * sy" using radix_bound [OF x y(2)] by (simp add: mult.commute)
  have z: "0 \<le> y * sx + x" using x y by simp
  have idx: "map2_to_index [sx, sy] p = y * sx + x"
    using b z assms(2) by (simp add: p map2_to_index_def u32_id)
  have "sx < 2 ^ 31" "sy < 2 ^ 31" using x y factor_le [of sx sy] assms(2) by linarith+
  then have "u32 sx = sx" "i32 x = x" "i32 y = y"
    using x y by (auto intro!: u32_id i32_id)
  then show ?thesis
    using b z x unfolding idx by (simp add: p map2_of_index_def radix_mod radix_div)
qed

lemma to_of_index2:
  assumes "0 < sx" "0 < sy" "sx * sy < 2 ^ 31" "i \<in> {0..<sx * sy}"
  shows "map2_of_index [sx, sy] i \<in> box [sx, sy] \<and> map2_to_index [sx, sy] (map2_of_index [sx, sy] i) = i"
proof -
  let ?p = "[i mod sx, i div sx]"
  have "i < sy * sx" using assms by (simp add: mult.commute)
  then have p: "?p \<in> box [sx, sy]" using assms radix_div_bound [of i sy sx] by simp
  have "map2_to_index [sx, sy] ?p = i"
    using assms by (simp add: map2_to_index_def u32_id)
  moreover from of_to_index2 [OF p assms(3)] have "map2_of_index [sx, sy] (map2_to_index [sx, sy] ?p) = ?p" by simp
  ultimately have "map2_of_index [sx, sy] i = ?p" by simp
  with p \<open>map2_to_index [sx, sy] ?p = i\<close> show ?thesis by simp
qed

lemma of_to_index3:
  assumes "p \<in> box [sx, sy, sz]" "sx * sy * sz < 2 ^ 31"
  shows "map3_to_index [sx, sy, sz] p \<in> {0..<sx * sy * sz}
    \<and> map3_of_index [sx, sy, sz] (map3_to_index [sx, sy, sz] p) = p"
  using assms(1)
proof (rule box3E)
  fix x y z
  assume p: "p = [x, y, z]" and x: "0 \<le> x" "x < sx" and y: "0 \<le> y" "y < sy" and z: "0 \<le> z" "z < sz"
  define r where "r = y * sx + x"
  have r: "0 \<le> r" "r < sx * sy"
    using x y radix_bound [OF x y(2)] by (simp_all add: r_def mult.commute)
  have i: "0 \<le> z * (sx * sy) + r" "z * (sx * sy) + r < sx * sy * sz"
    using r z radix_bound [OF r z(2)] x y by (simp_all add: mult.commute)
  have idx: "map3_to_index [sx, sy, sz] p = z * (sx * sy) + r"
    using i assms(2) by (simp add: p map3_to_index_def r_def u32_id algebra_simps)
  have "0 < sx * sy" using r by linarith
  then have s: "sx < 2 ^ 31" "sy < 2 ^ 31" "sx * sy < 2 ^ 31" "sz < 2 ^ 31"
    using x y z factor_le [of sx sy] factor_le [of "sx * sy" sz] assms(2) by linarith+
  have conv: "u32 sx = sx" "u32 (sx * sy) = sx * sy" "i32 x = x" "i32 y = y" "i32 z = z"
    using s x y z r by (auto intro!: u32_id i32_id)
  have "(z * (sx * sy) + r) mod sx = r mod sx"
    by (simp add: mult.left_commute [of z sx sy])
  then have "(z * (sx * sy) + r) mod sx = x" "r div sx = y"
    unfolding r_def using x by simp_all
  then show ?thesis
    using i r radix_div [OF r, of z] unfolding idx by (simp add: p map3_of_index_def conv)
qed

lemma to_of_index3:
  assumes "0 < sx" "0 < sy" "0 < sz" "sx * sy * sz < 2 ^ 31" "i \<in> {0..<sx * sy * sz}"
  shows "map3_of_index [sx, sy, sz] i \<in> box [sx, sy, sz]
    \<and> map3_to_index [sx, sy, sz] (map3_of_index [sx, sy, sz] i) = i"
proof -
  let ?p = "[i mod (sx * sy) mod sx, i mod (sx * sy) div sx, i div (sx * sy)]"
  have n: "0 < sx * sy" using assms by simp
  have m: "0 \<le> i mod (sx * sy)" "i mod (sx * sy) < sy * sx"
    using n pos_mod_bound [OF n, of i] by (simp_all add: mult.commute)
  have "i < sz * (sx * sy)" using assms(5) by (simp add: mult.commute)
  then have p: "?p \<in> box [sx, sy, sz]"
    using assms n radix_div_bound [OF m assms(1)] radix_div_bound [of i sz "sx * sy"] by simp
  have "i div (sx * sy) * sx * sy + i mod (sx * sy) div sx * sx + i mod (sx * sy) mod sx
      = i div (sx * sy) * (sx * sy) + i mod (sx * sy)"
    by (simp add: add.assoc mult.assoc)
  also have "\<dots> = i" by (rule div_mult_mod_eq)
  finally have e: "map3_to_index [sx, sy, sz] ?p = i"
    using assms by (simp add: map3_to_index_def u32_id)
  moreover from of_to_index3 [OF p assms(4)]
  have "map3_of_index [sx, sy, sz] (map3_to_index [sx, sy, sz] ?p) = ?p" by simp
  ultimately have "map3_of_index [sx, sy, sz] i = ?p" by simp
  with p e show ?thesis by simp
qed

lemma map_of_to_index:
  assumes "length sz = 2 \<or> length sz = 3" "prod_list sz < 2 ^ 31" "p \<in> box sz"
  shows "map_to_index sz p \<in> {0..<prod_list sz} \<and> map_of_index sz (map_to_index sz p) = p"
  using assms(1)
proof
  assume "length sz = 2"
  then obtain sx sy where "sz = [sx, sy]" by (rule length2E)
  with assms of_to_index2 [of p sx sy] show ?thesis by (simp add: map_to_index_def map_of_index_def)
next
  assume "length sz = 3"
  then obtain sx sy sz' where "sz = [sx, sy, sz']" by (rule length3E)
  with assms of_to_index3 [of p sx sy sz'] show ?thesis
    by (simp add: map_to_index_def map_of_index_def mult.assoc)
qed

lemma map_to_of_index:
  assumes "length sz = 2 \<or> length sz = 3" "\<forall>s \<in> set sz. 0 < s" "prod_list sz < 2 ^ 31" "i \<in> {0..<prod_list sz}"
  shows "map_of_index sz i \<in> box sz \<and> map_to_index sz (map_of_index sz i) = i"
  using assms(1)
proof
  assume "length sz = 2"
  then obtain sx sy where "sz = [sx, sy]" by (rule length2E)
  with assms to_of_index2 [of sx sy i] show ?thesis by (simp add: map_to_index_def map_of_index_def)
next
  assume "length sz = 3"
  then obtain sx sy sz' where "sz = [sx, sy, sz']" by (rule length3E)
  with assms to_of_index3 [of sx sy sz' i] show ?thesis
    by (simp add: map_to_index_def map_of_index_def mult.assoc)
qed

section \<open>Properties\<close>

text \<open>
  On every two- or three-dimensional grid of positive extent whose number of cells fits into
  \<open>int\<close>, the linear index of a position and the position of a linear index are inverse
  bijections: no two cells share an index and no index leaves the grid.
\<close>

theorem map_index_roundtrip:
  assumes "length sz = 2 \<or> length sz = 3" "\<forall>s \<in> set sz. 0 < s" "prod_list sz < 2 ^ 31"
  shows "bij_betw (map_to_index sz) (box sz) {0..<prod_list sz}
    \<and> (\<forall>p \<in> box sz. map_of_index sz (map_to_index sz p) = p)
    \<and> (\<forall>i \<in> {0..<prod_list sz}. map_to_index sz (map_of_index sz i) = i)"
proof -
  have ft: "map_to_index sz p \<in> {0..<prod_list sz} \<and> map_of_index sz (map_to_index sz p) = p" if "p \<in> box sz" for p
    using map_of_to_index [OF assms(1,3) that] .
  have tf: "map_of_index sz i \<in> box sz \<and> map_to_index sz (map_of_index sz i) = i" if "i \<in> {0..<prod_list sz}" for i
    using map_to_of_index [OF assms that] .
  have "bij_betw (map_to_index sz) (box sz) {0..<prod_list sz}" using ft tf by (rule bij_betwI_inverse)
  with ft tf show ?thesis by blast
qed

theorem map_index_roundtrip_witness:
  "bij_betw (map_to_index [4, 3, 2]) (box [4, 3, 2]) {0..<24}
   \<and> map_of_index [4, 3, 2] 17 = [1, 1, 1] \<and> map_to_index [4, 3, 2] [1, 1, 1] = 17"
  using map_index_roundtrip [of "[4, 3, 2]"]
  by (simp add: map_of_index_def map3_of_index_def map_to_index_def map3_to_index_def u32_def i32_def)

text \<open>
  Particle exchange addresses the right supercell. A supercell \<open>p\<close> of the sender's guard (one
  guard supercell on each side) in direction \<open>ex\<close> is sent as \<open>reduce p ex\<close>; the receiver extends it
  with the mirrored direction and reaches the supercell of its own domain that is \<open>p\<close> moved by
  the domain size against \<open>ex\<close>: for all 26 directions in 3D, faces, edges and corners.
\<close>

definition guard_pos :: "DataSpace \<Rightarrow> DataSpace \<Rightarrow> DataSpace \<Rightarrow> bool" where
  "guard_pos n dir p \<longleftrightarrow>
     length p = length n \<and> length dir = length n \<and>
     (\<forall>d < length n. (dir ! d = -1 \<longrightarrow> p ! d = 0) \<and> (dir ! d = 1 \<longrightarrow> p ! d = n ! d - 1))"

definition moved_against :: "DataSpace \<Rightarrow> DataSpace \<Rightarrow> DataSpace \<Rightarrow> DataSpace" where
  "moved_against n dir p = map (\<lambda>d. p ! d - dir ! d * (n ! d - 2)) [0..<length n]"

lemma relativeDigits_cases: "v \<in> unit_offsets 3 \<Longrightarrow>
  (\<And>a b c. v = [a, b, c] \<Longrightarrow> a = -1 \<or> a = 0 \<or> a = 1 \<Longrightarrow> b = -1 \<or> b = 0 \<or> b = 1 \<Longrightarrow> c = -1 \<or> c = 0 \<or> c = 1 \<Longrightarrow> P) \<Longrightarrow> P"
  by (auto simp: unit_offsets_def elim!: length3E)

lemma all_less_3: "(\<forall>d < Suc (Suc (Suc 0)). P d) \<longleftrightarrow> P 0 \<and> P (Suc 0) \<and> P (Suc (Suc 0))"
  by (auto simp: less_Suc_eq)

lemma extend_reduce_exchange3:
  assumes "0 < ex" "ex < 27" "length n = 3" "guard_pos n (getRelativeDirections 3 ex) p"
    and "getMirroredExchangeType ex = Inr ex'"
  shows "extend2 (reduce3 p ex) ex' n (DataSpace_create 3 1)
    = moved_against n (getRelativeDirections 3 ex) p"
proof -
  have ex': "ex' = mirror_code ex" using assms by (simp add: getMirroredExchangeType_eq)
  define v where "v = relativeDigits 3 ex"
  have dir: "getRelativeDirections 3 ex = v" by (simp add: getRelativeDirections_def v_def)
  have dir': "getRelativeDirections 3 ex' = vec_uminus v"
    by (simp add: getRelativeDirections_def ex' relativeDigits_mirror v_def)
  have "v \<noteq> replicate 3 0"
    using encode_relativeDigits [of ex 3] encode_relativeDigits [of 0 3] assms
    by (auto simp: v_def relativeDigits_zero)
  obtain n0 n1 n2 where n: "n = [n0, n1, n2]" using assms(3) by (rule length3E)
  obtain p0 p1 p2 where p: "p = [p0, p1, p2]"
    using assms(3,4) by (auto simp: guard_pos_def elim: length3E)
  have "v \<in> unit_offsets 3" by (simp add: v_def relativeDigits_unit)
  then obtain a b c where v: "v = [a, b, c]"
    and abc: "a = -1 \<or> a = 0 \<or> a = 1" "b = -1 \<or> b = 0 \<or> b = 1" "c = -1 \<or> c = 0 \<or> c = 1"
    by (rule relativeDigits_cases)
  have g: "(a = -1 \<longrightarrow> p0 = 0) \<and> (a = 1 \<longrightarrow> p0 = n0 - 1)" "(b = -1 \<longrightarrow> p1 = 0) \<and> (b = 1 \<longrightarrow> p1 = n1 - 1)"
    "(c = -1 \<longrightarrow> p2 = 0) \<and> (c = 1 \<longrightarrow> p2 = n2 - 1)"
    using assms(4) by (simp_all add: guard_pos_def dir v p n all_less_3)
  have "a \<noteq> 0 \<or> b \<noteq> 0 \<or> c \<noteq> 0" using \<open>v \<noteq> replicate 3 0\<close> by (auto simp: v numeral_3_eq_3)
  then show ?thesis
    unfolding extend2_def reduce3_def moved_against_def dir dir' v p n
    using abc g by (elim disjE) (simp_all add: Let_def vec_uminus_def upt_rec)
qed

lemma relativeDigits2_take: "relativeDigits 2 ex = take 2 (relativeDigits 3 ex)"
proof -
  have "relativeDigits 2 ex = relativeDigits (Suc (Suc 0)) ex" by (simp only: numeral_2_eq_2)
  then show ?thesis unfolding relativeDigits3 by (simp add: Let_def)
qed

lemma extend_reduce_exchange2:
  assumes "0 < ex" "ex < 9" "length n = 2" "guard_pos n (getRelativeDirections 2 ex) p"
    and "getMirroredExchangeType ex = Inr ex'"
  shows "extend1 (reduce2 p ex) ex' n (DataSpace_create 2 1)
    = moved_against n (getRelativeDirections 2 ex) p"
proof -
  have ex': "ex' = mirror_code ex" using assms by (simp add: getMirroredExchangeType_eq)
  define v where "v = relativeDigits 2 ex"
  have dir: "getRelativeDirections 2 ex = v" by (simp add: getRelativeDirections_def v_def)
  have dir': "getRelativeDirections 2 ex' = vec_uminus v"
    by (simp add: getRelativeDirections_def ex' relativeDigits2_take relativeDigits_mirror v_def vec_uminus_def take_map)
  have "v \<noteq> replicate 2 0"
    using encode_relativeDigits [of ex 2] encode_relativeDigits [of 0 2] assms
    by (auto simp: v_def relativeDigits_zero)
  obtain n0 n1 where n: "n = [n0, n1]" using assms(3) by (rule length2E)
  obtain p0 p1 where p: "p = [p0, p1]"
    using assms(3,4) by (auto simp: guard_pos_def elim: length2E)
  have "v \<in> unit_offsets 2" by (simp add: v_def relativeDigits_unit)
  then obtain a b where v: "v = [a, b]" and ab: "a = -1 \<or> a = 0 \<or> a = 1" "b = -1 \<or> b = 0 \<or> b = 1"
    by (auto simp: unit_offsets_def elim!: length2E)
  have g: "(a = -1 \<longrightarrow> p0 = 0) \<and> (a = 1 \<longrightarrow> p0 = n0 - 1)" "(b = -1 \<longrightarrow> p1 = 0) \<and> (b = 1 \<longrightarrow> p1 = n1 - 1)"
    using assms(4) by (auto simp: guard_pos_def dir v p n less_Suc_eq)
  have "a \<noteq> 0 \<or> b \<noteq> 0" using \<open>v \<noteq> replicate 2 0\<close> by (auto simp: v numeral_2_eq_2)
  then show ?thesis
    unfolding extend1_def reduce2_def moved_against_def dir dir' v p n
    using ab g by (elim disjE) (simp_all add: Let_def vec_uminus_def upt_rec)
qed

end
