(* ===== verification/Communicator.thy ===== *)
theory Communicator
  imports SpaceOps
begin

text \<open>
  Models \<open>CommunicatorMPI<DIM>\<close> (communication/CommunicatorMPI.hpp) for DIM 2 and 3: the
  process grid, the table of neighbour ranks, sliding, and the numbering of the processes of a
  host. The calls \<open>MPI_Cart_coords\<close> and \<open>MPI_Cart_rank\<close> are arguments \<open>cart_coords\<close> and \<open>cart_rank\<close>;
  what the MPI standard documents about them is the locale \<open>cart_topology\<close>, interpreted on the
  row-major numbering. Shown: sends and receives of neighbours always meet, sliding rotates the
  process grid, restoring \<open>n\<close> slides gives the state of \<open>n\<close> slides, host ranks are unique.
\<close>

section \<open>State\<close>

record Communicator =
  coordinates :: DataSpace
  periodic :: DataSpace
  ranks :: "int list"
  dims :: DataSpace
  communicationMask :: Mask
  hostRank :: int
  yoffset :: int
  mpiRank :: int
  mpiSize :: int

datatype comm_error = WrongParameters

section \<open>Coordinates and neighbours\<close>

text \<open>
  \<open>while (coords[1] < 0) coords[1] += dims[1]\<close>; the source does not return for a negative
  coordinate and a size that is not positive, where this function stops.
\<close>

function liftCoordinate :: "int \<Rightarrow> int \<Rightarrow> int" where
  "liftCoordinate d c = (if c < 0 \<and> 0 < d then liftCoordinate d (c + d) else c)"
  by pat_completeness auto
termination by (relation "measure (\<lambda>(d, c). nat (- c))") auto

declare liftCoordinate.simps [simp del]

definition numberOfNeighbours :: "nat \<Rightarrow> nat" where
  "numberOfNeighbours DIM = nat (-12 * int DIM + 6 * int DIM * int DIM + 9)"

definition neighbourCoords :: "nat \<Rightarrow> DataSpace \<Rightarrow> nat \<Rightarrow> DataSpace" where
  "neighbourCoords DIM coords i =
     (let m = Mask_of i; mcoords = coords;
          mcoords = (if containsExchangeType m LEFT then mcoords[0 := mcoords ! 0 - 1] else mcoords);
          mcoords = (if containsExchangeType m RIGHT then mcoords[0 := mcoords ! 0 + 1] else mcoords);
          mcoords = (if containsExchangeType m TOP then mcoords[1 := mcoords ! 1 - 1] else mcoords);
          mcoords = (if containsExchangeType m BOTTOM then mcoords[1 := mcoords ! 1 + 1] else mcoords)
      in if DIM = 3
         then let mcoords = (if containsExchangeType m BACK then mcoords[2 := mcoords ! 2 + 1] else mcoords);
                  mcoords = (if containsExchangeType m FRONT then mcoords[2 := mcoords ! 2 - 1] else mcoords)
              in mcoords
         else mcoords)"

definition neighbourExists :: "nat \<Rightarrow> Communicator \<Rightarrow> DataSpace \<Rightarrow> bool" where
  "neighbourExists DIM this mcoords =
     list_all (\<lambda>j. \<not> (periodic this ! j = 0 \<and> (mcoords ! j < 0 \<or> mcoords ! j \<ge> dims this ! j))) [0..<DIM]"

definition updateNeighbour :: "(DataSpace \<Rightarrow> int) \<Rightarrow> nat \<Rightarrow> DataSpace \<Rightarrow> nat \<Rightarrow> Communicator \<Rightarrow> Communicator" where
  "updateNeighbour cart_rank DIM coords i this =
     (let mcoords = neighbourCoords DIM coords i
      in if neighbourExists DIM this mcoords
         then let mcoords = (if dims this ! 1 > 1
                             then mcoords[1 := (mcoords ! 1 - yoffset this) smod (dims this ! 1)] else mcoords)
              in this\<lparr>ranks := (ranks this)[i := cart_rank mcoords],
                      communicationMask := Mask_join (communicationMask this) (Mask_of i)\<rparr>
         else this\<lparr>ranks := (ranks this)[i := -1]\<rparr>)"

text \<open>\<open>rank\<close> is the rank of this process in the topology.\<close>

definition updateCoordinates ::
  "(int \<Rightarrow> DataSpace) \<Rightarrow> (DataSpace \<Rightarrow> int) \<Rightarrow> nat \<Rightarrow> int \<Rightarrow> Communicator \<Rightarrow> Communicator" where
  "updateCoordinates cart_coords cart_rank DIM rank this =
     (let coords = cart_coords rank;
          coords = (if dims this ! 1 > 1
                    then coords[1 := (coords ! 1 + yoffset this) smod (dims this ! 1)] else coords);
          coords = coords[1 := liftCoordinate (dims this ! 1) (coords ! 1)];
          this = this\<lparr>coordinates := map (\<lambda>i. coords ! i) [0..<DIM], communicationMask := Mask_empty\<rparr>
      in fold (updateNeighbour cart_rank DIM coords) [1..<numberOfNeighbours DIM] this)"

definition ExchangeTypeToRank :: "Communicator \<Rightarrow> nat \<Rightarrow> int" where
  "ExchangeTypeToRank this type = ranks this ! type"

section \<open>Sliding\<close>

definition comm_slide ::
  "(int \<Rightarrow> DataSpace) \<Rightarrow> (DataSpace \<Rightarrow> int) \<Rightarrow> nat \<Rightarrow> int \<Rightarrow> Communicator \<Rightarrow> Communicator \<times> bool" where
  "comm_slide cart_coords cart_rank DIM rank this =
     (let this = this\<lparr>yoffset := yoffset this - 1\<rparr>;
          this = (if yoffset this = - (dims this ! 1) then this\<lparr>yoffset := 0\<rparr> else this);
          this = updateCoordinates cart_coords cart_rank DIM rank this
      in (this, DIM \<ge> 2 \<and> coordinates this ! 1 = dims this ! 1 - 1))"

text \<open>\<open>numSlides % dims[1]\<close> is a \<open>size_t\<close> expression.\<close>

fun slideLoop ::
  "(int \<Rightarrow> DataSpace) \<Rightarrow> (DataSpace \<Rightarrow> int) \<Rightarrow> nat \<Rightarrow> int \<Rightarrow> nat \<Rightarrow> Communicator \<times> bool \<Rightarrow> Communicator \<times> bool" where
  "slideLoop cart_coords cart_rank DIM rank 0 (this, result) = (this, result)"
| "slideLoop cart_coords cart_rank DIM rank (Suc n) (this, result) =
     slideLoop cart_coords cart_rank DIM rank n (comm_slide cart_coords cart_rank DIM rank this)"

definition comm_setStateAfterSlides ::
  "(int \<Rightarrow> DataSpace) \<Rightarrow> (DataSpace \<Rightarrow> int) \<Rightarrow> nat \<Rightarrow> int \<Rightarrow> nat \<Rightarrow> Communicator \<Rightarrow> Communicator \<times> bool" where
  "comm_setStateAfterSlides cart_coords cart_rank DIM rank numSlides this =
     slideLoop cart_coords cart_rank DIM rank (numSlides mod nat (dims this ! 1 mod 2 ^ 64)) (this, False)"

section \<open>Initialisation and host ranks\<close>

definition hostChar :: "char \<Rightarrow> bool" where
  "hostChar c \<longleftrightarrow>
     (of_char CHR ''A'' \<le> (of_char c :: nat) \<and> of_char c \<le> (of_char CHR ''Z'' :: nat)) \<or>
     (of_char CHR ''a'' \<le> (of_char c :: nat) \<and> of_char c \<le> (of_char CHR ''z'' :: nat)) \<or>
     (of_char CHR ''0'' \<le> (of_char c :: nat) \<and> of_char c \<le> (of_char CHR ''9'' :: nat)) \<or>
     c = CHR ''_'' \<or> c = CHR ''-''"

text \<open>Ending the C string at the first other character leaves its longest clean prefix.\<close>

fun cleanHostname :: "string \<Rightarrow> string" where
  "cleanHostname [] = []"
| "cleanHostname (c # name) = (if hostChar c then c # cleanHostname name else [])"

text \<open>
  The master's loop: it receives the host name of each further rank in order, answers with the
  host rank and stores it. The result lists the answers.
\<close>

fun assignHostRanks :: "(string \<rightharpoonup> int) \<Rightarrow> string list \<Rightarrow> int list" where
  "assignHostRanks hosts [] = []"
| "assignHostRanks hosts (hostname # rest) =
     (let hostrank = (case hosts hostname of Some r \<Rightarrow> r + 1 | None \<Rightarrow> 0)
      in hostrank # assignHostRanks (hosts(hostname \<mapsto> hostrank)) rest)"

text \<open>Host ranks of all processes, from the processor names by rank.\<close>

definition updateHostRank :: "string list \<Rightarrow> int list" where
  "updateHostRank names =
     (case map cleanHostname names of
        [] \<Rightarrow> []
      | hostname # rest \<Rightarrow> 0 # assignHostRanks [hostname \<mapsto> 0] rest)"

definition comm_init ::
  "(int \<Rightarrow> DataSpace) \<Rightarrow> (DataSpace \<Rightarrow> int) \<Rightarrow> string list \<Rightarrow> nat \<Rightarrow> int \<Rightarrow> DataSpace \<Rightarrow> DataSpace \<Rightarrow> Communicator
    \<Rightarrow> comm_error + Communicator" where
  "comm_init cart_coords cart_rank names DIM rank numberProcesses isPeriodic this =
     (let this = this\<lparr>periodic := isPeriodic, mpiSize := int (length names)\<rparr>
      in if productOfComponents numberProcesses \<noteq> mpiSize this then Inl WrongParameters
         else let this = this\<lparr>yoffset := 0,
                    dims := [xc numberProcesses, yc numberProcesses, zc numberProcesses]\<rparr>;
                  this = this\<lparr>mpiRank := rank, hostRank := updateHostRank names ! nat rank\<rparr>
              in Inr (updateCoordinates cart_coords cart_rank DIM rank this))"

section \<open>What MPI promises\<close>

text \<open>
  The documented behaviour of a Cartesian communicator: ranks and coordinates are inverse to each
  other, and a coordinate outside the grid is shifted back along periodic axes.
\<close>

locale cart_topology =
  fixes cart_coords :: "int \<Rightarrow> DataSpace" and cart_rank :: "DataSpace \<Rightarrow> int"
    and extent :: DataSpace and periods :: DataSpace
  assumes coords_in: "0 \<le> r \<Longrightarrow> r < prod_list extent \<Longrightarrow> cart_coords r \<in> box extent"
    and rank_coords: "0 \<le> r \<Longrightarrow> r < prod_list extent \<Longrightarrow> cart_rank (cart_coords r) = r"
    and rank_in: "c \<in> box extent \<Longrightarrow> 0 \<le> cart_rank c \<and> cart_rank c < prod_list extent"
    and coords_rank: "c \<in> box extent \<Longrightarrow> cart_coords (cart_rank c) = c"
    and rank_wrap: "\<lbrakk>length c = length extent;
        \<forall>d < length extent. periods ! d = 0 \<longrightarrow> 0 \<le> c ! d \<and> c ! d < extent ! d\<rbrakk> \<Longrightarrow>
      cart_rank c = cart_rank (map (\<lambda>d. c ! d mod extent ! d) [0..<length extent])"

section \<open>Neighbour coordinates\<close>

lemma liftCoordinate_mod: "0 < d \<Longrightarrow> c < d \<Longrightarrow> liftCoordinate d c = c mod d"
proof (induction d c rule: liftCoordinate.induct)
  case (1 d c)
  then show ?case by (cases "c < 0") (simp_all add: liftCoordinate.simps [of d c])
qed

lemma numberOfNeighbours_eq: "DIM = 2 \<or> DIM = 3 \<Longrightarrow> numberOfNeighbours DIM = 3 ^ DIM"
  by (auto simp: numberOfNeighbours_def)

lemma relativeDigits2: "relativeDigits 2 ex =
     (let dg = (\<lambda>d. if d = 2 then -1 else int d) in [dg (ex mod 3), dg (ex div 3 mod 3)])"
  by (simp add: numeral_2_eq_2 Let_def)

lemma neighbourCoords_eq:
  assumes D: "DIM = 2 \<or> DIM = 3" and i: "0 < i" "i < 3 ^ DIM" and c: "length coords = DIM"
  shows "neighbourCoords DIM coords i = vec_add coords (relativeDigits DIM i)"
proof -
  have i27: "i < 27" using D i by auto
  have m: "i mod 3 = 0 \<or> i mod 3 = 1 \<or> i mod 3 = 2" "i div 3 mod 3 = 0 \<or> i div 3 mod 3 = 1 \<or> i div 3 mod 3 = 2"
    "i div 9 mod 3 = 0 \<or> i div 9 mod 3 = 1 \<or> i div 9 mod 3 = 2" by linarith+
  show ?thesis
    using D
  proof
    assume D: "DIM = 2"
    with c obtain x y where "coords = [x, y]" by (auto elim: length2E)
    then show ?thesis
      using m(1,2) unfolding neighbourCoords_def Let_def containsExchangeType_single [OF i(1) i27]
      by (elim disjE) (simp_all add: D relativeDigits2 vec_simps)
  next
    assume D: "DIM = 3"
    with c obtain x y z where "coords = [x, y, z]" by (auto elim: length3E)
    then show ?thesis
      using m unfolding neighbourCoords_def Let_def containsExchangeType_single [OF i(1) i27]
      by (elim disjE) (simp_all add: D relativeDigits3 vec_simps)
  qed
qed

section \<open>The neighbour table\<close>

definition rankCoords :: "Communicator \<Rightarrow> DataSpace \<Rightarrow> DataSpace" where
  "rankCoords this c = (if dims this ! 1 > 1 then c[1 := (c ! 1 - yoffset this) smod (dims this ! 1)] else c)"

definition sameGrid :: "Communicator \<Rightarrow> Communicator \<Rightarrow> bool" where
  "sameGrid a b \<longleftrightarrow> dims a = dims b \<and> periodic a = periodic b \<and> yoffset a = yoffset b"

lemma updateNeighbour_grid:
  "sameGrid (updateNeighbour cr DIM coords i this) this"
  "coordinates (updateNeighbour cr DIM coords i this) = coordinates this"
  "length (ranks (updateNeighbour cr DIM coords i this)) = length (ranks this)"
  by (simp_all add: sameGrid_def updateNeighbour_def Let_def)

lemma sameGrid_neighbour:
  "sameGrid a b \<Longrightarrow> neighbourExists DIM a c = neighbourExists DIM b c \<and> rankCoords a c = rankCoords b c"
  by (simp add: sameGrid_def neighbourExists_def rankCoords_def)

lemma fold_updateNeighbour:
  fixes cr :: "DataSpace \<Rightarrow> int" and DIM :: nat and coords :: DataSpace
  assumes "distinct is" "\<forall>i \<in> set is. i < length (ranks this) \<and> i < 32"
  defines "this' \<equiv> fold (updateNeighbour cr DIM coords) is this"
  shows "sameGrid this' this \<and> coordinates this' = coordinates this \<and> length (ranks this') = length (ranks this)
    \<and> (\<forall>i. i \<notin> set is \<longrightarrow> ranks this' ! i = ranks this ! i)
    \<and> (\<forall>i \<in> set is. ranks this' ! i = (let c = neighbourCoords DIM coords i
         in if neighbourExists DIM this c then cr (rankCoords this c) else -1))
    \<and> (\<forall>i. isSet (communicationMask this') i \<longleftrightarrow> isSet (communicationMask this) i
         \<or> i \<in> set is \<and> neighbourExists DIM this (neighbourCoords DIM coords i))"
  using assms(1,2) unfolding this'_def
proof (induction "is" arbitrary: this)
  case (Cons i "is")
  let ?t = "updateNeighbour cr DIM coords i this"
  have g: "sameGrid ?t this" "coordinates ?t = coordinates this" "length (ranks ?t) = length (ranks this)"
    by (rule updateNeighbour_grid)+
  have i: "i < length (ranks this)" "i < 32" "i \<notin> set is" using Cons.prems by auto
  have r: "ranks ?t ! j = (if j = i then let c = neighbourCoords DIM coords i
         in if neighbourExists DIM this c then cr (rankCoords this c) else -1 else ranks this ! j)" for j
    using i by (simp add: updateNeighbour_def Let_def rankCoords_def nth_list_update)
  have m: "isSet (communicationMask ?t) j \<longleftrightarrow> isSet (communicationMask this) j
      \<or> j = i \<and> neighbourExists DIM this (neighbourCoords DIM coords i)" for j
    using i by (auto simp: updateNeighbour_def Let_def)
  have n: "neighbourExists DIM ?t c = neighbourExists DIM this c" "rankCoords ?t c = rankCoords this c" for c
    using sameGrid_neighbour [OF g(1)] by blast+
  have "distinct is" "\<forall>i \<in> set is. i < length (ranks ?t) \<and> i < 32" using Cons.prems g(3) by auto
  note IH = Cons.IH [OF this]
  have "sameGrid (fold (updateNeighbour cr DIM coords) is ?t) this"
    using IH g(1) by (auto simp: sameGrid_def)
  then show ?case
    using IH i(3) unfolding n r m g(2,3) fold_simps comp_def by (auto simp: Let_def)
qed (simp add: sameGrid_def)

definition logicalCoords :: "Communicator \<Rightarrow> DataSpace \<Rightarrow> DataSpace" where
  "logicalCoords this c = c[1 := (c ! 1 + yoffset this) mod (dims this ! 1)]"

text \<open>A communicator whose process grid is set up, as \<open>init\<close> and \<open>slide\<close> leave it.\<close>

definition comm_wf :: "nat \<Rightarrow> Communicator \<Rightarrow> bool" where
  "comm_wf DIM this \<longleftrightarrow>
     (DIM = 2 \<or> DIM = 3) \<and> length (dims this) = 3 \<and> length (periodic this) = 3 \<and> length (ranks this) = 27 \<and>
     list_all (\<lambda>d. 0 < d) (dims this) \<and> dims this ! 1 < 2 ^ 31 \<and>
     - (dims this ! 1) < yoffset this \<and> yoffset this \<le> 0"

lemma comm_wf_dims:
  assumes "comm_wf DIM this" "d < 3"
  shows "0 < dims this ! d"
  using assms by (simp add: comm_wf_def list_all_length)

lemma updateCoordinates_table:
  fixes cart_rank :: "DataSpace \<Rightarrow> int"
  assumes wf: "comm_wf DIM this" and c: "cart_coords rank \<in> box (take DIM (dims this))"
  defines "this' \<equiv> updateCoordinates cart_coords cart_rank DIM rank this"
    and "L \<equiv> logicalCoords this (cart_coords rank)"
  shows "sameGrid this' this" "coordinates this' = L" "length (ranks this') = 27"
    and "\<And>i. 0 < i \<Longrightarrow> i < 3 ^ DIM \<Longrightarrow> ranks this' ! i =
      (let n = vec_add L (relativeDigits DIM i) in if neighbourExists DIM this n then cart_rank (rankCoords this n) else -1)"
    and "\<And>i. 0 < i \<Longrightarrow> i < 3 ^ DIM \<Longrightarrow> isSet (communicationMask this') i \<longleftrightarrow>
      neighbourExists DIM this (vec_add L (relativeDigits DIM i))"
proof -
  let ?c = "cart_coords rank" and ?d = "dims this ! 1"
  have D: "DIM = 2 \<or> DIM = 3" using wf by (simp add: comm_wf_def)
  have l: "length (dims this) = 3" "length (ranks this) = 27" using wf by (simp_all add: comm_wf_def)
  have lc: "length ?c = DIM" using c D l by (auto simp: box_def)
  have d: "0 < ?d" "- ?d < yoffset this" "yoffset this \<le> 0" using wf comm_wf_dims [OF wf, of 1] by (auto simp: comm_wf_def)
  have c1: "0 \<le> ?c ! 1" "?c ! 1 < ?d" using c D l by (auto simp: box_def)
  let ?c' = "if ?d > 1 then ?c[1 := (?c ! 1 + yoffset this) smod ?d] else ?c"
  have L: "?c'[1 := liftCoordinate ?d (?c' ! 1)] = L"
  proof (cases "?d > 1")
    case True
    have "(?c ! 1 + yoffset this) smod ?d < ?d \<and> (?c ! 1 + yoffset this) smod ?d mod ?d = (?c ! 1 + yoffset this) mod ?d"
      using d(1) by (rule smod_bound_mod)
    with True d lc D show ?thesis by (auto simp: L_def logicalCoords_def liftCoordinate_mod)
  next
    case False
    then have "?d = 1" "?c ! 1 = 0" "yoffset this = 0" using d c1 by linarith+
    with d lc D show ?thesis by (auto simp: L_def logicalCoords_def liftCoordinate_mod)
  qed
  have lL: "length L = DIM" using lc by (simp add: L_def logicalCoords_def)
  let ?t = "this\<lparr>coordinates := map (\<lambda>i. L ! i) [0..<DIM], communicationMask := Mask_empty\<rparr>"
  have this': "this' = fold (updateNeighbour cart_rank DIM L) [1..<3 ^ DIM] ?t"
    unfolding this'_def updateCoordinates_def Let_def L by (simp add: numberOfNeighbours_eq [OF D])
  have n: "neighbourExists DIM ?t c = neighbourExists DIM this c" "rankCoords ?t c = rankCoords this c" for c
    by (simp_all add: neighbourExists_def rankCoords_def)
  have "(3 :: nat) ^ DIM \<le> 27" using D by auto
  then have "distinct [1..<3 ^ DIM]" "\<forall>i \<in> set [1..<3 ^ DIM]. i < length (ranks ?t) \<and> i < 32"
    using l by auto
  note F = fold_updateNeighbour [OF this, of cart_rank DIM L, folded this', unfolded n]
  show "sameGrid this' this" using F by (simp add: sameGrid_def)
  show "coordinates this' = L" using F lL by (auto intro: nth_equalityI)
  show "length (ranks this') = 27" using F l by simp
  fix i :: nat assume i: "0 < i" "i < 3 ^ DIM"
  then have "i \<in> set [1..<3 ^ DIM]" by simp
  with F i show "ranks this' ! i =
      (let n = vec_add L (relativeDigits DIM i) in if neighbourExists DIM this n then cart_rank (rankCoords this n) else -1)"
    "isSet (communicationMask this') i \<longleftrightarrow> neighbourExists DIM this (vec_add L (relativeDigits DIM i))"
    using neighbourCoords_eq [OF D i lL] by auto
qed

section \<open>Logical coordinates and ranks\<close>

definition physicalCoords :: "Communicator \<Rightarrow> DataSpace \<Rightarrow> DataSpace" where
  "physicalCoords this c = c[1 := (c ! 1 - yoffset this) mod (dims this ! 1)]"

definition wrapCoords :: "DataSpace \<Rightarrow> DataSpace \<Rightarrow> DataSpace" where
  "wrapCoords ext c = map (\<lambda>d. c ! d mod ext ! d) [0..<length ext]"

lemma comm_wf_extent:
  assumes "comm_wf DIM this"
  shows "length (take DIM (dims this)) = DIM" "1 < DIM"
    and "\<And>d. d < DIM \<Longrightarrow> take DIM (dims this) ! d = dims this ! d \<and> 0 < dims this ! d"
  using assms comm_wf_dims [OF assms] by (auto simp: comm_wf_def)

lemma physical_logical:
  assumes wf: "comm_wf DIM this" and c: "c \<in> box (take DIM (dims this))"
  shows "logicalCoords this c \<in> box (take DIM (dims this)) \<and> physicalCoords this (logicalCoords this c) = c"
    and "physicalCoords this c \<in> box (take DIM (dims this)) \<and> logicalCoords this (physicalCoords this c) = c"
proof -
  note e = comm_wf_extent [OF wf]
  have c1: "0 \<le> c ! 1" "c ! 1 < dims this ! 1" and lc: "length c = DIM" using c e by (auto simp: box_def)
  have p: "((c ! 1 + yoffset this) mod dims this ! 1 - yoffset this) mod dims this ! 1 = c ! 1"
    "((c ! 1 - yoffset this) mod dims this ! 1 + yoffset this) mod dims this ! 1 = c ! 1"
    using c1 by (simp_all add: mod_simps)
  show "logicalCoords this c \<in> box (take DIM (dims this)) \<and> physicalCoords this (logicalCoords this c) = c"
    using c e p lc by (auto simp: box_def logicalCoords_def physicalCoords_def nth_list_update list_update_same_conv)
  show "physicalCoords this c \<in> box (take DIM (dims this)) \<and> logicalCoords this (physicalCoords this c) = c"
    using c e p lc by (auto simp: box_def logicalCoords_def physicalCoords_def nth_list_update list_update_same_conv)
qed

context cart_topology
begin

lemma rank_of_neighbour:
  assumes wf: "comm_wf DIM this" and ext: "extent = take DIM (dims this)" "periods = take DIM (periodic this)"
    and n: "length n = DIM" "neighbourExists DIM this n"
  shows "cart_rank (rankCoords this n) = cart_rank (physicalCoords this (wrapCoords extent n))
    \<and> wrapCoords extent n \<in> box extent"
proof -
  note e = comm_wf_extent [OF wf]
  let ?d = "dims this ! 1"
  have lp: "length (periodic this) = 3" "DIM \<le> 3" using wf by (auto simp: comm_wf_def)
  have yo: "- ?d < yoffset this" "yoffset this \<le> 0" using wf by (simp_all add: comm_wf_def)
  have ok: "periods ! j = 0 \<Longrightarrow> 0 \<le> n ! j \<and> n ! j < extent ! j" if "j < DIM" for j
    using n(2) that e(3) [of j] lp ext by (auto simp: neighbourExists_def list_all_iff)
  have one: "?d = 1 \<or> ?d > 1" "?d = 1 \<Longrightarrow> yoffset this = 0" using e(3) [of 1] e(2) yo by linarith+
  have y: "(n ! 1 - yoffset this) smod ?d < ?d \<and> (n ! 1 - yoffset this) smod ?d mod ?d = (n ! 1 - yoffset this) mod ?d"
    using e(2) e(3) [of 1] by (intro smod_bound_mod) simp
  have y0: "0 \<le> n ! 1 \<Longrightarrow> 0 \<le> (n ! 1 - yoffset this) smod ?d"
    using yo e(2) e(3) [of 1] by (simp add: smod_nonneg)
  have "cart_rank (rankCoords this n) = cart_rank (wrapCoords extent (rankCoords this n))"
    unfolding wrapCoords_def
  proof (rule rank_wrap)
    show "length (rankCoords this n) = length extent" using n e ext by (simp add: rankCoords_def)
    show "\<forall>d < length extent. periods ! d = 0 \<longrightarrow> 0 \<le> rankCoords this n ! d \<and> rankCoords this n ! d < extent ! d"
      using ok n e ext y y0 by (auto simp: rankCoords_def nth_list_update)
  qed
  moreover have "wrapCoords extent (rankCoords this n) = physicalCoords this (wrapCoords extent n)"
    using n e ext y one
    by (auto simp: wrapCoords_def rankCoords_def physicalCoords_def nth_list_update mod_diff_left_eq intro!: nth_equalityI)
  moreover have "wrapCoords extent n \<in> box extent" using e ext by (auto simp: wrapCoords_def box_def)
  ultimately show ?thesis by simp
qed

lemma neighbour_meets:
  assumes wf: "comm_wf DIM a" "comm_wf DIM b" "sameGrid a b"
    and ext: "extent = take DIM (dims a)" "periods = take DIM (periodic a)"
    and r: "0 \<le> r" "r < prod_list extent"
    and ex: "0 < ex" "ex < 3 ^ DIM" "0 < ex'" "ex' < 3 ^ DIM" "relativeDigits DIM ex' = vec_uminus (relativeDigits DIM ex)"
    and m: "isSet (communicationMask (updateCoordinates cart_coords cart_rank DIM r a)) ex"
    and r': "r' = ExchangeTypeToRank (updateCoordinates cart_coords cart_rank DIM r a) ex"
  shows "0 \<le> r' \<and> r' < prod_list extent
    \<and> isSet (communicationMask (updateCoordinates cart_coords cart_rank DIM r' b)) ex'
    \<and> ExchangeTypeToRank (updateCoordinates cart_coords cart_rank DIM r' b) ex' = r"
proof -
  note e = comm_wf_extent [OF wf(1)]
  have same: "neighbourExists DIM b c = neighbourExists DIM a c" "rankCoords b c = rankCoords a c"
    "logicalCoords b c = logicalCoords a c" "dims b = dims a" for c
    using wf(3) sameGrid_neighbour [OF wf(3)] by (simp_all add: sameGrid_def logicalCoords_def)
  define L v n where "L = logicalCoords a (cart_coords r)" and "v = relativeDigits DIM ex" and "n = vec_add L v"
  have c: "cart_coords r \<in> box extent" using coords_in [OF r] .
  have L: "L \<in> box extent" "physicalCoords a L = cart_coords r"
    using physical_logical(1) [OF wf(1)] c ext by (simp_all add: L_def)
  note Ta = updateCoordinates_table [where cart_coords = cart_coords and rank = r and cart_rank = cart_rank,
      OF wf(1) c [unfolded ext]]
  have ok: "neighbourExists DIM a n" using m ex Ta(5) by (simp add: n_def v_def L_def)
  have lL: "length L = DIM" using L e ext by (simp add: box_def)
  have ln: "length n = DIM" using lL by (simp add: n_def v_def)
  note N = rank_of_neighbour [OF wf(1) ext ln ok]
  define W where "W = wrapCoords extent n"
  have W: "W \<in> box extent" using N by (simp add: W_def)
  have P: "physicalCoords a W \<in> box extent" "logicalCoords a (physicalCoords a W) = W"
    using physical_logical(2) [OF wf(1)] W ext by simp_all
  have r'W: "r' = cart_rank (physicalCoords a W)"
    using r' ex Ta(4) ok N by (simp add: ExchangeTypeToRank_def Let_def n_def [symmetric] v_def [symmetric] L_def [symmetric] W_def)
  have c': "cart_coords r' = physicalCoords a W" using coords_rank [OF P(1)] r'W by simp
  have cb: "cart_coords r' \<in> box (take DIM (dims b))" using P(1) ext by (simp add: c' same)
  have Lb: "logicalCoords a (cart_coords r') = W" by (simp add: c' P(2))
  note Tb = updateCoordinates_table [where cart_coords = cart_coords and rank = r' and cart_rank = cart_rank,
      OF wf(2) cb, unfolded same Lb]
  define n' where "n' = vec_add W (vec_uminus v)"
  have lW: "length W = DIM" using W e ext by (simp add: box_def)
  have lv: "length v = DIM" by (simp add: v_def)
  have nW: "W ! j = n ! j mod extent ! j" "n ! j = L ! j + v ! j" "n' ! j = W ! j - v ! j" if "j < DIM" for j
    using that e ext lW lL lv by (simp_all add: W_def wrapCoords_def n_def n'_def vec_simps)
  have LR: "0 \<le> L ! j \<and> L ! j < dims a ! j" if "j < DIM" for j using L(1) that e ext by (simp add: box_def)
  have ok': "neighbourExists DIM a n'"
    unfolding neighbourExists_def list_all_iff
  proof (intro ballI)
    fix j assume "j \<in> set [0..<DIM]"
    then have j: "j < DIM" by simp
    show "\<not> (periodic a ! j = 0 \<and> (n' ! j < 0 \<or> dims a ! j \<le> n' ! j))"
    proof (cases "periodic a ! j = 0")
      case True
      then have "0 \<le> n ! j \<and> n ! j < dims a ! j" using ok j by (auto simp: neighbourExists_def list_all_iff)
      then have "W ! j = n ! j" using nW(1) [OF j] e(3) [OF j] ext by simp
      then have "n' ! j = L ! j" using nW(2,3) [OF j] by simp
      then show ?thesis using LR [OF j] by simp
    qed simp
  qed
  have ln': "length n' = DIM" using lW lv by (simp add: n'_def vec_simps)
  note N' = rank_of_neighbour [OF wf(1) ext ln' ok']
  have "wrapCoords extent n' = L"
  proof (rule nth_equalityI)
    show "length (wrapCoords extent n') = length L" using e ext lL by (simp add: wrapCoords_def)
    fix j assume "j < length (wrapCoords extent n')"
    then have j: "j < DIM" using e ext by (simp add: wrapCoords_def)
    have "n' ! j mod extent ! j = L ! j mod extent ! j"
      using nW [OF j] by (simp add: mod_diff_left_eq)
    then show "wrapCoords extent n' ! j = L ! j"
      using j LR [OF j] e(1) e(3) [OF j] ext by (simp add: wrapCoords_def)
  qed
  then have "cart_rank (rankCoords a n') = r" using N' L(2) rank_coords [OF r] by simp
  moreover have "vec_add W (relativeDigits DIM ex') = n'" using ex(5) by (simp add: n'_def v_def)
  moreover have "0 \<le> r' \<and> r' < prod_list extent" using rank_in [OF P(1)] r'W by simp
  ultimately show ?thesis using Tb(4) [OF ex(3,4)] Tb(5) [OF ex(3,4)] ok'
    by (simp add: ExchangeTypeToRank_def Let_def)
qed

end

section \<open>The row-major numbering\<close>

fun rowMajor_coords :: "DataSpace \<Rightarrow> int \<Rightarrow> DataSpace" where
  "rowMajor_coords [] r = []"
| "rowMajor_coords (n # ns) r = r div prod_list ns # rowMajor_coords ns (r mod prod_list ns)"

fun rowMajor_index :: "DataSpace \<Rightarrow> DataSpace \<Rightarrow> int" where
  "rowMajor_index (n # ns) (c # cs) = c * prod_list ns + rowMajor_index ns cs"
| "rowMajor_index _ _ = 0"

definition rowMajor_rank :: "DataSpace \<Rightarrow> DataSpace \<Rightarrow> int" where
  "rowMajor_rank ext c = rowMajor_index ext (wrapCoords ext c)"

lemma rowMajor_coords_index:
  "\<forall>n \<in> set ext. 0 < n \<Longrightarrow> 0 \<le> r \<Longrightarrow> r < prod_list ext \<Longrightarrow>
   rowMajor_coords ext r \<in> box ext \<and> rowMajor_index ext (rowMajor_coords ext r) = r"
proof (induction ext arbitrary: r)
  case (Cons n ns)
  have p: "0 < prod_list ns" using Cons.prems(1) by (induction ns) auto
  have "0 \<le> r div prod_list ns \<and> r div prod_list ns < n"
    using Cons.prems p by (intro radix_div_bound) simp_all
  with Cons p show ?case by simp
qed simp

lemma rowMajor_index_coords:
  "\<forall>n \<in> set ext. 0 < n \<Longrightarrow> c \<in> box ext \<Longrightarrow>
   0 \<le> rowMajor_index ext c \<and> rowMajor_index ext c < prod_list ext \<and> rowMajor_coords ext (rowMajor_index ext c) = c"
proof (induction ext arbitrary: c)
  case (Cons n ns)
  then obtain a q where c: "c = a # q" "0 \<le> a" "a < n" "q \<in> box ns" by (auto simp: box_Cons)
  have p: "0 < prod_list ns" using Cons.prems(1) by (induction ns) auto
  have i: "0 \<le> rowMajor_index ns q" "rowMajor_index ns q < prod_list ns" "rowMajor_coords ns (rowMajor_index ns q) = q"
    using Cons c by simp_all
  with radix_bound [OF i(1,2) c(3)] c p show ?case
    using radix_div [OF i(1,2), of a] radix_mod [OF i(1,2), of a] by simp
qed simp

lemma wrapCoords_id: "c \<in> box ext \<Longrightarrow> wrapCoords ext c = c"
  by (auto simp: box_def wrapCoords_def intro!: nth_equalityI)

lemma wrapCoords_wrap: "wrapCoords ext (wrapCoords ext c) = wrapCoords ext c"
  by (auto simp: wrapCoords_def intro!: nth_equalityI)

locale row_major_grid =
  fixes extent :: DataSpace
  assumes extent_pos: "\<forall>n \<in> set extent. 0 < n"

sublocale row_major_grid \<subseteq> row_major: cart_topology "rowMajor_coords extent" "rowMajor_rank extent" extent periods
  for periods
proof unfold_locales
  fix r assume "0 \<le> r" "r < prod_list extent"
  then show "rowMajor_coords extent r \<in> box extent" "rowMajor_rank extent (rowMajor_coords extent r) = r"
    using rowMajor_coords_index [OF extent_pos] by (simp_all add: rowMajor_rank_def wrapCoords_id)
next
  fix c assume "c \<in> box extent"
  then show "0 \<le> rowMajor_rank extent c \<and> rowMajor_rank extent c < prod_list extent"
    "rowMajor_coords extent (rowMajor_rank extent c) = c"
    using rowMajor_index_coords [OF extent_pos] by (simp_all add: rowMajor_rank_def wrapCoords_id)
next
  fix c
  show "rowMajor_rank extent c = rowMajor_rank extent (map (\<lambda>d. c ! d mod extent ! d) [0..<length extent])"
    unfolding wrapCoords_def [symmetric] by (simp add: rowMajor_rank_def wrapCoords_wrap)
qed

interpretation grid342: row_major_grid "[3, 4, 2]"
  by unfold_locales simp

section \<open>Sliding\<close>

definition neighbourRank :: "(DataSpace \<Rightarrow> int) \<Rightarrow> nat \<Rightarrow> Communicator \<Rightarrow> DataSpace \<Rightarrow> nat \<Rightarrow> int" where
  "neighbourRank cr DIM this coords i = (let c = neighbourCoords DIM coords i
     in if neighbourExists DIM this c then cr (rankCoords this c) else -1)"

definition neighbourMask :: "nat \<Rightarrow> Communicator \<Rightarrow> DataSpace \<Rightarrow> nat list \<Rightarrow> Mask \<Rightarrow> Mask" where
  "neighbourMask DIM this coords is m =
     fold (\<lambda>i m. if neighbourExists DIM this (neighbourCoords DIM coords i) then Mask_join m (Mask_of i) else m) is m"

definition ownCoords :: "(int \<Rightarrow> DataSpace) \<Rightarrow> int \<Rightarrow> Communicator \<Rightarrow> DataSpace" where
  "ownCoords cc rank this =
     (let coords = cc rank;
          coords = (if dims this ! 1 > 1 then coords[1 := (coords ! 1 + yoffset this) smod (dims this ! 1)] else coords)
      in coords[1 := liftCoordinate (dims this ! 1) (coords ! 1)])"

lemma sameGrid_table:
  assumes "sameGrid a b"
  shows "neighbourRank cr DIM a = neighbourRank cr DIM b" "neighbourMask DIM a = neighbourMask DIM b"
    "ownCoords cc rank a = ownCoords cc rank b"
  using sameGrid_neighbour [OF assms] assms
  by (simp_all add: neighbourRank_def [abs_def] neighbourMask_def [abs_def] ownCoords_def sameGrid_def Let_def cong: if_cong)

lemma fold_updateNeighbour_exact:
  "fold (updateNeighbour cr DIM coords) is this =
     this\<lparr>ranks := fold (\<lambda>i r. r[i := neighbourRank cr DIM this coords i]) is (ranks this),
          communicationMask := neighbourMask DIM this coords is (communicationMask this)\<rparr>"
proof (induction "is" arbitrary: this)
  case (Cons i "is")
  note g = sameGrid_table [OF updateNeighbour_grid(1) [of cr DIM coords i this]]
  show ?case
    unfolding fold_simps comp_def Cons.IH g
    by (simp add: updateNeighbour_def neighbourRank_def neighbourMask_def rankCoords_def Let_def)
qed (simp add: neighbourMask_def)

lemma updateCoordinates_exact:
  "updateCoordinates cc cr DIM rank this =
     this\<lparr>coordinates := map (\<lambda>i. ownCoords cc rank this ! i) [0..<DIM],
          communicationMask := neighbourMask DIM this (ownCoords cc rank this) [1..<numberOfNeighbours DIM] Mask_empty,
          ranks := fold (\<lambda>i r. r[i := neighbourRank cr DIM this (ownCoords cc rank this) i]) [1..<numberOfNeighbours DIM] (ranks this)\<rparr>"
proof -
  let ?t = "this\<lparr>coordinates := map (\<lambda>i. ownCoords cc rank this ! i) [0..<DIM], communicationMask := Mask_empty\<rparr>"
  have "sameGrid ?t this" by (simp add: sameGrid_def)
  note g = sameGrid_table(1,2) [OF this]
  have "updateCoordinates cc cr DIM rank this
      = fold (updateNeighbour cr DIM (ownCoords cc rank this)) [1..<numberOfNeighbours DIM] ?t"
    by (simp add: updateCoordinates_def ownCoords_def Let_def)
  then show ?thesis unfolding fold_updateNeighbour_exact g by simp
qed

lemma fold_update_nth: "j < length r \<Longrightarrow> fold (\<lambda>i r. r[i := f i]) is r ! j = (if j \<in> set is then f j else r ! j)"
  by (induction "is" arbitrary: r) (auto simp: nth_list_update)

lemma length_fold_update [simp]: "length (fold (\<lambda>i r. r[i := f i]) is r) = length r"
  by (induction "is" arbitrary: r) simp_all

lemma fold_update_absorb:
  "fold (\<lambda>i r. r[i := f i]) is (fold (\<lambda>i r. r[i := g i]) is r) = fold (\<lambda>i r. r[i := f i]) is r"
  by (rule nth_equalityI) (simp_all add: fold_update_nth)

lemma updateCoordinates_absorb:
  "updateCoordinates cc cr DIM rank (updateCoordinates cc cr DIM rank this\<lparr>yoffset := y\<rparr>)
    = updateCoordinates cc cr DIM rank (this\<lparr>yoffset := y\<rparr>)"
proof -
  let ?u = "updateCoordinates cc cr DIM rank this\<lparr>yoffset := y\<rparr>" and ?v = "this\<lparr>yoffset := y\<rparr>"
  have u: "?u = ?v\<lparr>coordinates := coordinates ?u, communicationMask := communicationMask ?u, ranks := ranks ?u\<rparr>"
    unfolding updateCoordinates_exact by simp
  have "sameGrid ?u ?v" by (simp add: updateCoordinates_exact sameGrid_def)
  note g = sameGrid_table [OF this]
  show ?thesis
    unfolding updateCoordinates_exact [of cc cr DIM rank ?u] g updateCoordinates_exact [of cc cr DIM rank ?v]
    by (simp add: updateCoordinates_exact [of cc cr DIM rank this] fold_update_absorb)
qed

lemma updateCoordinates_fields [simp]:
  "dims (updateCoordinates cc cr DIM rank this) = dims this"
  "periodic (updateCoordinates cc cr DIM rank this) = periodic this"
  "yoffset (updateCoordinates cc cr DIM rank this) = yoffset this"
  "length (ranks (updateCoordinates cc cr DIM rank this)) = length (ranks this)"
  by (simp_all add: updateCoordinates_exact)

definition slidOffset :: "int \<Rightarrow> int \<Rightarrow> nat \<Rightarrow> int" where
  "slidOffset d y n = - ((int n - y) mod d)"

lemma slidOffset_Suc: "0 < d \<Longrightarrow> slidOffset d (slidOffset d y m) n = slidOffset d y (m + n)"
  by (simp add: slidOffset_def mod_simps algebra_simps)

lemma comm_slide_offset:
  assumes "- d < y" "y \<le> (0 :: int)" "0 < d"
  shows "(if y - 1 = - d then 0 else y - 1) = slidOffset d y 1"
proof (cases "y - 1 = - d")
  case True
  then have "int 1 - y = d" by simp
  with True show ?thesis by (simp add: slidOffset_def)
next
  case False
  then have "(int 1 - y) mod d = 1 - y" using assms by (simp add: mod_pos_pos_trivial)
  with False show ?thesis by (simp add: slidOffset_def)
qed

lemma comm_slide_eq:
  assumes "comm_wf DIM this"
  shows "comm_slide cc cr DIM rank this =
    (let this' = updateCoordinates cc cr DIM rank (this\<lparr>yoffset := slidOffset (dims this ! 1) (yoffset this) 1\<rparr>)
     in (this', coordinates this' ! 1 = dims this ! 1 - 1))"
proof -
  have w: "- (dims this ! 1) < yoffset this" "yoffset this \<le> 0" "0 < dims this ! 1" "2 \<le> DIM"
    using assms comm_wf_dims [OF assms, of 1] by (auto simp: comm_wf_def)
  note o = comm_slide_offset [OF w(1-3)]
  show ?thesis
    using o w(4) by (cases "yoffset this - 1 = - (dims this ! 1)") (simp_all add: comm_slide_def Let_def)
qed

lemma comm_wf_offset:
  assumes "comm_wf DIM this"
  shows "comm_wf DIM (this\<lparr>yoffset := slidOffset (dims this ! 1) y n\<rparr>)"
  using assms comm_wf_dims [OF assms, of 1] pos_mod_bound [of "dims this ! 1" "int n - y"]
  by (simp add: comm_wf_def slidOffset_def)

lemma comm_wf_update: "comm_wf DIM this \<Longrightarrow> comm_wf DIM (updateCoordinates cc cr DIM rank this)"
  by (simp add: comm_wf_def)

lemma slideLoop_eq:
  assumes "comm_wf DIM this"
  shows "slideLoop cc cr DIM rank (Suc n) (this, b) =
    (let this' = updateCoordinates cc cr DIM rank (this\<lparr>yoffset := slidOffset (dims this ! 1) (yoffset this) (Suc n)\<rparr>)
     in (this', coordinates this' ! 1 = dims this ! 1 - 1))"
  using assms
proof (induction n arbitrary: this b)
  case 0
  then show ?case by (simp add: comm_slide_eq Let_def)
next
  case (Suc n)
  let ?d = "dims this ! 1"
  let ?t = "updateCoordinates cc cr DIM rank (this\<lparr>yoffset := slidOffset ?d (yoffset this) 1\<rparr>)"
  have d: "0 < ?d" using comm_wf_dims [OF Suc.prems, of 1] by simp
  have wf: "comm_wf DIM ?t" using Suc.prems by (intro comm_wf_update comm_wf_offset)
  have "slideLoop cc cr DIM rank (Suc (Suc n)) (this, b) = slideLoop cc cr DIM rank (Suc n) (?t, coordinates ?t ! 1 = ?d - 1)"
    using comm_slide_eq [OF Suc.prems, of cc cr rank] by (simp add: Let_def del: slideLoop.simps(2) add: slideLoop.simps(2) [of _ _ _ _ "Suc n"])
  also have "\<dots> = (let this' = updateCoordinates cc cr DIM rank (?t\<lparr>yoffset := slidOffset ?d (yoffset this) (Suc (Suc n))\<rparr>)
     in (this', coordinates this' ! 1 = ?d - 1))"
    using Suc.IH [OF wf] slidOffset_Suc [OF d, of "yoffset this" 1 "Suc n"] by simp
  finally show ?case by (simp add: updateCoordinates_absorb)
qed

lemma setStateAfterSlides_eq:
  assumes wf: "comm_wf DIM s" and t: "this = updateCoordinates cc cr DIM rank s"
  shows "comm_setStateAfterSlides cc cr DIM rank n this
    = (fst (slideLoop cc cr DIM rank n (this, False)),
       n mod nat (dims s ! 1) \<noteq> 0 \<and> snd (slideLoop cc cr DIM rank n (this, False)))"
proof -
  let ?d = "dims s ! 1"
  have d: "0 < ?d" "?d < 2 ^ 31" using wf comm_wf_dims [OF wf, of 1] by (simp_all add: comm_wf_def)
  have wt: "comm_wf DIM this" using wf comm_wf_update t by simp
  have yo: "- ?d < yoffset s" "yoffset s \<le> 0" using wf by (simp_all add: comm_wf_def)
  have S: "comm_setStateAfterSlides cc cr DIM rank n this = slideLoop cc cr DIM rank (n mod nat ?d) (this, False)"
    using d by (simp add: comm_setStateAfterSlides_def t)
  have off: "slidOffset ?d (yoffset s) (n mod nat ?d) = slidOffset ?d (yoffset s) n"
    using d by (simp add: slidOffset_def zmod_int mod_diff_left_eq)
  have loop: "slideLoop cc cr DIM rank k (this, False) =
      (updateCoordinates cc cr DIM rank (s\<lparr>yoffset := slidOffset ?d (yoffset s) k\<rparr>),
       coordinates (updateCoordinates cc cr DIM rank (s\<lparr>yoffset := slidOffset ?d (yoffset s) k\<rparr>)) ! 1 = ?d - 1)"
    if "0 < k" for k
    using that slideLoop_eq [OF wt, of cc cr rank "k - 1" False] by (simp add: t updateCoordinates_absorb Let_def)
  show ?thesis
  proof (cases "n mod nat ?d = 0")
    case False
    then have "0 < n" by (cases n) auto
    with False show ?thesis unfolding S using loop [of "n mod nat ?d"] loop [of n] off by simp
  next
    case True
    have "slidOffset ?d (yoffset s) n = yoffset s"
      using off True yo by (simp add: slidOffset_def)
    then have "fst (slideLoop cc cr DIM rank n (this, False)) = this"
      using loop [of n] by (cases "n = 0") (simp_all add: t)
    with True S show ?thesis by simp
  qed
qed

section \<open>Host ranks\<close>

definition knownHosts :: "string list \<Rightarrow> string \<rightharpoonup> int" where
  "knownHosts seen h = (if h \<in> set seen then Some (int (count_list seen h) - 1) else None)"

lemma assignHostRanks_count:
  "assignHostRanks (knownHosts seen) names =
     map (\<lambda>i. int (count_list seen (names ! i)) + int (count_list (take i names) (names ! i))) [0..<length names]"
proof (induction names arbitrary: seen)
  case (Cons h names)
  have r: "(case knownHosts seen h of Some r \<Rightarrow> r + 1 | None \<Rightarrow> 0) = int (count_list seen h)"
    by (simp add: knownHosts_def)
  have "(knownHosts seen)(h \<mapsto> int (count_list seen h)) = knownHosts (h # seen)"
    by (auto simp: knownHosts_def fun_eq_iff)
  then show ?case
    unfolding assignHostRanks.simps r Let_def using Cons.IH [of "h # seen"]
    by (auto simp: map_upt_Suc simp del: upt_Suc intro!: nth_equalityI)
qed simp

lemma updateHostRank_count:
  "updateHostRank names =
     map (\<lambda>i. int (count_list (take i (map cleanHostname names)) (cleanHostname (names ! i)))) [0..<length names]"
proof (cases names)
  case (Cons h rest)
  have "[cleanHostname h \<mapsto> 0] = knownHosts [cleanHostname h]" by (auto simp: knownHosts_def fun_eq_iff)
  then show ?thesis
    using assignHostRanks_count [of "[cleanHostname h]" "map cleanHostname rest"]
    by (auto simp: Cons updateHostRank_def map_upt_Suc simp del: upt_Suc intro!: nth_equalityI)
qed (simp add: updateHostRank_def)

lemma count_list_take_less:
  "i < j \<Longrightarrow> j \<le> length xs \<Longrightarrow> count_list (take i xs) (xs ! i) < count_list (take j xs) (xs ! i)"
proof (induction xs arbitrary: i j)
  case (Cons x xs)
  then show ?case by (cases i; cases j) auto
qed simp

section \<open>Reachable communicators\<close>

text \<open>The states of the communicator of one process after \<open>init\<close> and any number of slides and restarts.\<close>

inductive comm_reachable ::
  "(int \<Rightarrow> DataSpace) \<Rightarrow> (DataSpace \<Rightarrow> int) \<Rightarrow> string list \<Rightarrow> nat \<Rightarrow> int \<Rightarrow> DataSpace \<Rightarrow> DataSpace \<Rightarrow> Communicator \<Rightarrow> bool"
  for cc cr names DIM rank nodes isPeriodic where
  reach_init: "comm_init cc cr names DIM rank nodes isPeriodic c0 = Inr c \<Longrightarrow> length (ranks c0) = 27 \<Longrightarrow>
    comm_reachable cc cr names DIM rank nodes isPeriodic c"
| reach_slide: "comm_reachable cc cr names DIM rank nodes isPeriodic c \<Longrightarrow>
    comm_reachable cc cr names DIM rank nodes isPeriodic (fst (comm_slide cc cr DIM rank c))"
| reach_restore: "comm_reachable cc cr names DIM rank nodes isPeriodic c \<Longrightarrow>
    comm_reachable cc cr names DIM rank nodes isPeriodic (fst (comm_setStateAfterSlides cc cr DIM rank n c))"

lemma comm_slide_updated:
  assumes "comm_wf DIM c"
  shows "\<exists>s. comm_wf DIM s \<and> sameGrid (fst (comm_slide cc cr DIM rank c)) s
    \<and> fst (comm_slide cc cr DIM rank c) = updateCoordinates cc cr DIM rank s \<and> dims s = dims c \<and> periodic s = periodic c"
  using assms comm_wf_offset [OF assms]
  by (intro exI [where x = "c\<lparr>yoffset := slidOffset (dims c ! 1) (yoffset c) 1\<rparr>"])
     (simp add: comm_slide_eq Let_def sameGrid_def)

lemma slideLoop_updated:
  assumes "comm_wf DIM c" "c = updateCoordinates cc cr DIM rank s" "comm_wf DIM s"
  shows "\<exists>s'. comm_wf DIM s' \<and> fst (slideLoop cc cr DIM rank n (c, b)) = updateCoordinates cc cr DIM rank s'
    \<and> dims s' = dims c \<and> periodic s' = periodic c"
proof (cases n)
  case 0
  with assms show ?thesis by auto
next
  case (Suc k)
  then show ?thesis
    using slideLoop_eq [OF assms(1), of cc cr rank k b] comm_wf_offset [OF assms(1)]
    by (intro exI [where x = "c\<lparr>yoffset := slidOffset (dims c ! 1) (yoffset c) n\<rparr>"]) (simp add: Let_def)
qed

lemma comm_reachable_updated:
  assumes "comm_reachable cc cr names DIM rank nodes isPeriodic c"
    and "DIM = 2 \<or> DIM = 3" "length nodes = 3" "length isPeriodic = 3" "list_all (\<lambda>d. 0 < d) nodes" "nodes ! 1 < 2 ^ 31"
  shows "\<exists>s. comm_wf DIM s \<and> c = updateCoordinates cc cr DIM rank s \<and> dims s = nodes \<and> periodic s = isPeriodic"
  using assms
proof (induction rule: comm_reachable.induct)
  case (reach_init c0 c)
  then obtain x y z where n: "nodes = [x, y, z]" by (auto elim: length3E)
  let ?s = "c0\<lparr>periodic := isPeriodic, mpiSize := int (length names), yoffset := 0, dims := nodes, mpiRank := rank,
    hostRank := updateHostRank names ! nat rank\<rparr>"
  have "c = updateCoordinates cc cr DIM rank ?s"
    using reach_init(1) n by (simp add: comm_init_def Let_def split: if_splits)
  moreover have "comm_wf DIM ?s" using reach_init n by (simp add: comm_wf_def)
  ultimately show ?case by (intro exI [where x = ?s]) simp
next
  case (reach_slide c)
  then obtain s where "comm_wf DIM s" "c = updateCoordinates cc cr DIM rank s" "dims s = nodes" "periodic s = isPeriodic"
    by auto
  with comm_slide_updated [of DIM c cc cr rank] show ?case by (auto simp: comm_wf_update)
next
  case (reach_restore c n)
  then obtain s where s: "comm_wf DIM s" "c = updateCoordinates cc cr DIM rank s" "dims s = nodes" "periodic s = isPeriodic"
    by auto
  have "comm_wf DIM c" using s comm_wf_update by simp
  from slideLoop_updated [OF this s(2,1)] show ?case
    unfolding comm_setStateAfterSlides_def using s by auto
qed

section \<open>Properties\<close>

lemma mirror_code_digits2: "ex < 9 \<Longrightarrow> mirror_code ex < 9"
  using mirror_digit_bound [of "ex mod 3"] mirror_digit_bound [of "ex div 3 mod 3"]
  by (simp add: mirror_code_def mirror_digit_def [of 0])

lemma mirror_relative:
  assumes D: "DIM = 2 \<or> DIM = 3" and ex: "ex < 3 ^ DIM"
  shows "mirror_code ex < 3 ^ DIM \<and> relativeDigits DIM (mirror_code ex) = vec_uminus (relativeDigits DIM ex)"
  using D
proof
  assume D: "DIM = 2"
  have "(if mirror_digit d = 2 then -1 else int (mirror_digit d)) = - (if d = 2 then -1 else int d)" if "d < 3" for d
    using that by (auto simp: mirror_digit_def)
  then show ?thesis using ex mirror_code_digits2 [of ex]
    by (simp add: D relativeDigits2 Let_def vec_uminus_def del: relativeDigits.simps)
next
  assume "DIM = 3"
  then show ?thesis using relativeDigits_mirror mirror_code_bound by simp
qed

text \<open>
  C17. Sends and receives of neighbouring processes meet. If process \<open>r\<close> has a neighbour in
  direction \<open>ex\<close>, the table of that neighbour names \<open>r\<close> in the mirrored direction, for every
  process grid, any choice of periodic axes and any slide offset shared by the processes.
\<close>

theorem neighbour_symmetric:
  assumes mpi: "cart_topology cart_coords cart_rank (take DIM (dims a)) (take DIM (periodic a))"
    and wf: "comm_wf DIM a" "comm_wf DIM b" "sameGrid a b"
    and r: "0 \<le> r" "r < prod_list (take DIM (dims a))"
    and ex: "0 < ex" "ex < 3 ^ DIM" "getMirroredExchangeType ex = Inr ex'"
    and set: "isSet (communicationMask (updateCoordinates cart_coords cart_rank DIM r a)) ex"
    and r': "r' = ExchangeTypeToRank (updateCoordinates cart_coords cart_rank DIM r a) ex"
  shows "0 \<le> r' \<and> r' < prod_list (take DIM (dims a))
    \<and> isSet (communicationMask (updateCoordinates cart_coords cart_rank DIM r' b)) ex'
    \<and> ExchangeTypeToRank (updateCoordinates cart_coords cart_rank DIM r' b) ex' = r"
proof -
  have D: "DIM = 2 \<or> DIM = 3" using wf by (simp add: comm_wf_def)
  then have ex27: "ex < 27" using ex by auto
  then have ex': "ex' = mirror_code ex" using ex by (simp add: getMirroredExchangeType_eq)
  have "0 < ex'" using mirror_code_pos ex(1) ex27 ex' by simp
  then show ?thesis
    using cart_topology.neighbour_meets [OF mpi wf refl refl r ex(1,2) _ _ _ set r', of ex']
      mirror_relative [OF D ex(2)] ex' by simp
qed

definition sampleComm :: Communicator where
  "sampleComm = \<lparr>coordinates = [0, 0, 0], periodic = [1, 0, 1], ranks = replicate 27 0, dims = [3, 4, 2],
     communicationMask = Mask_empty, hostRank = 0, yoffset = -1, mpiRank = 0, mpiSize = 24\<rparr>"

lemma sampleComm_wf: "comm_wf 3 sampleComm"
  by (simp add: comm_wf_def sampleComm_def)

lemma sampleComm_topology:
  "cart_topology (rowMajor_coords [3, 4, 2]) (rowMajor_rank [3, 4, 2]) (take 3 (dims sampleComm)) (take 3 (periodic sampleComm))"
  using grid342.row_major.cart_topology_axioms by (simp add: sampleComm_def)

lemma sampleComm_neighbour:
  defines "t \<equiv> updateCoordinates (rowMajor_coords [3, 4, 2]) (rowMajor_rank [3, 4, 2]) 3 0 sampleComm"
  shows "isSet (communicationMask t) LEFT" "ExchangeTypeToRank t LEFT = 16"
proof -
  have c: "rowMajor_coords [3, 4, 2] 0 \<in> box (take 3 (dims sampleComm))" by (simp add: sampleComm_def)
  note T = updateCoordinates_table [where cart_coords = "rowMajor_coords [3, 4, 2]" and rank = 0, OF sampleComm_wf c]
  have n: "vec_add (logicalCoords sampleComm (rowMajor_coords [3, 4, 2] 0)) (relativeDigits 3 LEFT) = [-1, 3, 0]"
    by (simp add: logicalCoords_def sampleComm_def relativeDigits3 LEFT_def vec_simps)
  have e: "neighbourExists 3 sampleComm [-1, 3, 0]" by (simp add: neighbourExists_def sampleComm_def upt_rec)
  have k: "rankCoords sampleComm [-1, 3, 0] = [-1, 0, 0]"
    by (simp add: rankCoords_def sampleComm_def smod_nonneg)
  have r: "rowMajor_rank [3, 4, 2] [-1, 0, 0] = 16" by (simp add: rowMajor_rank_def wrapCoords_def upt_rec zmod_minus1)
  show "isSet (communicationMask t) LEFT" "ExchangeTypeToRank t LEFT = 16"
    using T(4,5) [of LEFT "rowMajor_rank [3, 4, 2]"] n e r k by (simp_all add: t_def LEFT_def ExchangeTypeToRank_def Let_def)
qed

theorem neighbour_symmetric_witness:
  "isSet (communicationMask (updateCoordinates (rowMajor_coords [3, 4, 2]) (rowMajor_rank [3, 4, 2]) 3 16 sampleComm)) RIGHT
   \<and> ExchangeTypeToRank (updateCoordinates (rowMajor_coords [3, 4, 2]) (rowMajor_rank [3, 4, 2]) 3 16 sampleComm) RIGHT = 0"
proof -
  have m: "getMirroredExchangeType LEFT = Inr RIGHT"
    by (simp add: getMirroredExchangeType_eq mirror_code_def mirror_digit_def direction_defs)
  have "sameGrid sampleComm sampleComm" "0 < LEFT" "LEFT < 3 ^ 3" "0 < prod_list (take 3 (dims sampleComm))"
    by (simp_all add: sameGrid_def LEFT_def sampleComm_def)
  then show ?thesis
    using neighbour_symmetric [OF sampleComm_topology sampleComm_wf sampleComm_wf _ _ _ _ _ m sampleComm_neighbour(1)
        sampleComm_neighbour(2) [symmetric]] by simp
qed

lemma slide_coordinates:
  assumes "comm_wf DIM s" "cart_coords rank \<in> box (take DIM (dims s))"
    and "this = updateCoordinates cart_coords cart_rank DIM rank s"
  shows "coordinates (fst (comm_slide cart_coords cart_rank DIM rank this))
      = (coordinates this)[1 := (if coordinates this ! 1 = 0 then dims s ! 1 - 1 else coordinates this ! 1 - 1)]"
    and "(snd (comm_slide cart_coords cart_rank DIM rank this) \<longleftrightarrow> coordinates this ! 1 = 0)"
proof -
  let ?d = "dims s ! 1" and ?c = "cart_coords rank"
  let ?s' = "s\<lparr>yoffset := slidOffset ?d (yoffset s) 1\<rparr>"
  have d: "0 < ?d" using comm_wf_dims [OF assms(1), of 1] by simp
  have lc: "1 < length ?c" using assms(2) comm_wf_extent [OF assms(1)] by (simp add: box_def)
  have L: "coordinates this = logicalCoords s ?c"
    using updateCoordinates_table(2) [where cart_coords = cart_coords and rank = rank, OF assms(1,2)] assms(3) by simp
  have L': "coordinates (updateCoordinates cart_coords cart_rank DIM rank ?s') = logicalCoords ?s' ?c"
    using updateCoordinates_table(2) [where cart_coords = cart_coords and rank = rank, OF comm_wf_offset [OF assms(1)]] assms(2)
    by simp
  have sl: "comm_slide cart_coords cart_rank DIM rank this =
      (updateCoordinates cart_coords cart_rank DIM rank ?s', logicalCoords ?s' ?c ! 1 = ?d - 1)"
    using comm_slide_eq [OF comm_wf_update [OF assms(1)], of cart_coords cart_rank rank cart_coords cart_rank rank] L' assms(3)
    by (simp add: updateCoordinates_absorb Let_def)
  define y where "y = (?c ! 1 + yoffset s) mod ?d"
  have y: "0 \<le> y" "y < ?d" using d by (simp_all add: y_def)
  have "(?c ! 1 + slidOffset ?d (yoffset s) 1) mod ?d = (y - 1) mod ?d"
    by (simp add: slidOffset_def y_def mod_simps algebra_simps)
  also have "\<dots> = (if y = 0 then ?d - 1 else y - 1)"
    using y by (auto simp: zmod_minus1)
  finally have e: "logicalCoords ?s' ?c = ?c[1 := if y = 0 then ?d - 1 else y - 1]"
    by (simp add: logicalCoords_def)
  have "logicalCoords s ?c = ?c[1 := y]" by (simp add: logicalCoords_def y_def)
  then show "coordinates (fst (comm_slide cart_coords cart_rank DIM rank this))
      = (coordinates this)[1 := (if coordinates this ! 1 = 0 then dims s ! 1 - 1 else coordinates this ! 1 - 1)]"
    "snd (comm_slide cart_coords cart_rank DIM rank this) \<longleftrightarrow> coordinates this ! 1 = 0"
    using y lc unfolding sl L fst_conv snd_conv L' e by auto
qed

text \<open>
  One slide rotates the process grid: every process moves up by one along y, the process at
  the top moves to the end, and \<open>slide\<close> returns true for exactly that process.
\<close>

theorem slide_rotates:
  assumes "comm_wf DIM s" "cart_coords rank \<in> box (take DIM (dims s))"
    and "this = updateCoordinates cart_coords cart_rank DIM rank s"
  shows "coordinates (fst (comm_slide cart_coords cart_rank DIM rank this))
      = (coordinates this)[1 := (if coordinates this ! 1 = 0 then dims s ! 1 - 1 else coordinates this ! 1 - 1)]
    \<and> (snd (comm_slide cart_coords cart_rank DIM rank this) \<longleftrightarrow> coordinates this ! 1 = 0)"
  using slide_coordinates [OF assms] by blast

theorem slide_rotates_witness:
  "snd (comm_slide (rowMajor_coords [3, 4, 2]) (rowMajor_rank [3, 4, 2]) 3 2
     (updateCoordinates (rowMajor_coords [3, 4, 2]) (rowMajor_rank [3, 4, 2]) 3 2 sampleComm))"
proof -
  have c: "rowMajor_coords [3, 4, 2] 2 \<in> box (take 3 (dims sampleComm))" by (simp add: sampleComm_def)
  have "coordinates (updateCoordinates (rowMajor_coords [3, 4, 2]) (rowMajor_rank [3, 4, 2]) 3 2 sampleComm) ! 1 = 0"
    using updateCoordinates_table(2) [where cart_coords = "rowMajor_coords [3, 4, 2]" and rank = 2, OF sampleComm_wf c]
    by (simp add: logicalCoords_def sampleComm_def)
  then show ?thesis
    using slide_rotates [where cart_coords = "rowMajor_coords [3, 4, 2]" and rank = 2, OF sampleComm_wf c refl, of "rowMajor_rank [3, 4, 2]"]
    by simp
qed

text \<open>
  Restoring the state after \<open>n\<close> slides gives the state that \<open>n\<close> single slides produce, although
  only \<open>n % dims[1]\<close> of them are performed. The returned flag is that of the last slide
  only if some slide was performed: for a multiple of \<open>dims[1]\<close> it is false.
\<close>

theorem setStateAfterSlides_equivalent:
  assumes "comm_reachable cart_coords cart_rank names DIM rank nodes isPeriodic this"
    and "DIM = 2 \<or> DIM = 3" "length nodes = 3" "length isPeriodic = 3" "list_all (\<lambda>d. 0 < d) nodes" "nodes ! 1 < 2 ^ 31"
  shows "comm_setStateAfterSlides cart_coords cart_rank DIM rank n this
    = (fst (slideLoop cart_coords cart_rank DIM rank n (this, False)),
       n mod nat (nodes ! 1) \<noteq> 0 \<and> snd (slideLoop cart_coords cart_rank DIM rank n (this, False)))"
  using comm_reachable_updated [OF assms] setStateAfterSlides_eq by metis

theorem setStateAfterSlides_equivalent_witness:
  "\<exists>c. comm_reachable (rowMajor_coords [3, 4, 2]) (rowMajor_rank [3, 4, 2]) (replicate 24 ''n'') 3 0 [3, 4, 2] [1, 0, 1] c
     \<and> \<not> snd (comm_setStateAfterSlides (rowMajor_coords [3, 4, 2]) (rowMajor_rank [3, 4, 2]) 3 0 8 c)"
proof -
  obtain c where "comm_init (rowMajor_coords [3, 4, 2]) (rowMajor_rank [3, 4, 2]) (replicate 24 ''n'') 3 0 [3, 4, 2] [1, 0, 1] sampleComm = Inr c"
    by (simp add: comm_init_def productOfComponents_def)
  then have r: "comm_reachable (rowMajor_coords [3, 4, 2]) (rowMajor_rank [3, 4, 2]) (replicate 24 ''n'') 3 0 [3, 4, 2] [1, 0, 1] c"
    by (rule reach_init) (simp add: sampleComm_def)
  with setStateAfterSlides_equivalent [OF r, of 8] show ?thesis by auto
qed

text \<open>
  The processes of one host get different host ranks, numbered from zero without gaps: the
  host rank of a process is the number of processes of smaller rank with the same (cleaned)
  host name.
\<close>

theorem hostRanks_unique:
  "length (updateHostRank names) = length names
   \<and> distinct (zip (map cleanHostname names) (updateHostRank names))
   \<and> updateHostRank names = map (\<lambda>i. int (card {j. j < i \<and> cleanHostname (names ! j) = cleanHostname (names ! i)})) [0..<length names]"
proof -
  let ?h = "map cleanHostname names"
  have "distinct (zip ?h (updateHostRank names))"
    unfolding distinct_conv_nth
  proof (intro allI impI)
    fix i j assume ij: "i < length (zip ?h (updateHostRank names))" "j < length (zip ?h (updateHostRank names))" "i \<noteq> j"
    have "zip ?h (updateHostRank names) ! a \<noteq> zip ?h (updateHostRank names) ! b"
      if "a < b" "b < length names" for a b
      using that count_list_take_less [of a b ?h] by (auto simp: updateHostRank_count)
    from this [of i j] this [of j i] show "zip ?h (updateHostRank names) ! i \<noteq> zip ?h (updateHostRank names) ! j"
      using ij by (cases "i < j") (auto simp: updateHostRank_count)
  qed
  moreover have "count_list (take i ?h) (cleanHostname (names ! i)) = card {j. j < i \<and> cleanHostname (names ! j) = cleanHostname (names ! i)}"
    if "i < length names" for i
  proof -
    have "count_list (take i ?h) c = card {j. j < i \<and> ?h ! j = c}" for c
      unfolding count_list_eq_length_filter length_filter_conv_card using that by (auto intro!: arg_cong [where f = card])
    moreover have "{j. j < i \<and> ?h ! j = c} = {j. j < i \<and> cleanHostname (names ! j) = c}" for c using that by auto
    ultimately show ?thesis by simp
  qed
  ultimately show ?thesis by (auto simp: updateHostRank_count)
qed


end
