(* ===== verification/AreaMaps.thy ===== *)
theory AreaMaps
  imports SpaceOps
begin

text \<open>
  Models \<open>MappingDescription\<close> (mappings/kernel/MappingDescription.hpp), \<open>AreaMapping\<close>
  (AreaMapping.hpp) and the specialisations of \<open>AreaMappingMethods\<close> (AreaMappingMethods.hpp): the
  map from the block index of a kernel to the supercell it works on, for each area of the local
  domain. A component that the source computes with an unsigned operand is evaluated modulo
  \<open>2 ^ 32\<close> and converted to \<open>int\<close> by \<open>i32\<close>; \<open>b & 1u\<close> is \<open>b mod 2\<close>. Shown: every area mapper is a
  bijection between the block indices of its kernel grid and the supercells of the area, so a
  kernel treats each supercell of its area exactly once.
\<close>

section \<open>MappingDescription\<close>

datatype AreaType = CORE | BORDER | GUARD | CORE_BORDER | CORE_BORDER_GUARD

record MappingDescription =
  gridSuperCells :: DataSpace
  guardingSuperCells :: int
  borderSuperCells :: int

text \<open>The constructor; a failed \<open>assert\<close> is \<open>None\<close>.\<close>

definition MappingDescription_of :: "DataSpace \<Rightarrow> DataSpace \<Rightarrow> int \<Rightarrow> int \<Rightarrow> MappingDescription option" where
  "MappingDescription_of SuperCellSize localGridCells border guard =
     (let cells = ds_div localGridCells SuperCellSize;
          minBlock = min (xc cells) (yc cells);
          minBlock = (if length cells = 3 then min minBlock (zc cells) else minBlock)
      in if (guard = 0 \<or> minBlock \<ge> 3) \<and> border \<le> minBlock - 2 * guard
         then Some \<lparr>gridSuperCells = cells, guardingSuperCells = guard, borderSuperCells = border\<rparr>
         else None)"

definition setGridSuperCells :: "DataSpace \<Rightarrow> MappingDescription \<Rightarrow> MappingDescription" where
  "setGridSuperCells superCellsCount m = m\<lparr>gridSuperCells := superCellsCount\<rparr>"

definition getRootSuperCellCoordinate :: "DataSpace \<Rightarrow> DataSpace \<Rightarrow> DataSpace" where
  "getRootSuperCellCoordinate SuperCellSize globalOffset = ds_div globalOffset SuperCellSize"

definition getGridLayout :: "DataSpace \<Rightarrow> MappingDescription \<Rightarrow> GridLayout" where
  "getGridLayout SuperCellSize m =
     GridLayout_of (vec_mul SuperCellSize (vec_sub_s (gridSuperCells m) (2 * guardingSuperCells m)))
       (vec_mul_s SuperCellSize (guardingSuperCells m))"

definition getGlobalSuperCells :: "DataSpace \<Rightarrow> MappingDescription \<Rightarrow> DataSpace" where
  "getGlobalSuperCells gpuNodes m =
     vec_mul gpuNodes (vec_sub_s (gridSuperCells m) (2 * guardingSuperCells m))"

section \<open>Areas of any dimension\<close>

definition AreaAll_getGridDim :: "MappingDescription \<Rightarrow> DataSpace \<Rightarrow> DataSpace" where
  "AreaAll_getGridDim base gBlocks = gBlocks"

definition AreaAll_getBlockIndex :: "MappingDescription \<Rightarrow> DataSpace \<Rightarrow> DataSpace \<Rightarrow> DataSpace" where
  "AreaAll_getBlockIndex base gBlocks blockIdx = blockIdx"

definition AreaCore_getGridDim :: "MappingDescription \<Rightarrow> DataSpace \<Rightarrow> DataSpace" where
  "AreaCore_getGridDim base gBlocks =
     vec_sub_s gBlocks (2 * (guardingSuperCells base + borderSuperCells base))"

definition AreaCore_getBlockIndex :: "MappingDescription \<Rightarrow> DataSpace \<Rightarrow> DataSpace \<Rightarrow> DataSpace" where
  "AreaCore_getBlockIndex base gBlocks blockIdx =
     vec_add_s blockIdx (guardingSuperCells base + borderSuperCells base)"

definition AreaCoreBorder_getGridDim :: "MappingDescription \<Rightarrow> DataSpace \<Rightarrow> DataSpace" where
  "AreaCoreBorder_getGridDim base gBlocks = vec_sub_s gBlocks (2 * guardingSuperCells base)"

definition AreaCoreBorder_getBlockIndex :: "MappingDescription \<Rightarrow> DataSpace \<Rightarrow> DataSpace \<Rightarrow> DataSpace" where
  "AreaCoreBorder_getBlockIndex base gBlocks blockIdx = vec_add_s blockIdx (guardingSuperCells base)"

section \<open>GUARD and BORDER in 2D\<close>

definition AreaGuard2_getGridDim :: "MappingDescription \<Rightarrow> DataSpace \<Rightarrow> DataSpace" where
  "AreaGuard2_getGridDim base gBlocks =
     [xc gBlocks + yc gBlocks - 2 * guardingSuperCells base, 2 * guardingSuperCells base]"

definition AreaGuard2_getBlockIndex :: "MappingDescription \<Rightarrow> DataSpace \<Rightarrow> DataSpace \<Rightarrow> DataSpace" where
  "AreaGuard2_getBlockIndex base gBlocks blockIdx =
     (if xc blockIdx < xc gBlocks
      then [xc blockIdx,
            i32 (yc blockIdx sdiv 2 + (yc blockIdx mod 2) * (yc gBlocks - guardingSuperCells base))]
      else [i32 (yc blockIdx sdiv 2 + (yc blockIdx mod 2) * (xc gBlocks - guardingSuperCells base)),
            guardingSuperCells base + xc blockIdx - xc gBlocks])"

definition AreaBorder2_getGridDim :: "MappingDescription \<Rightarrow> DataSpace \<Rightarrow> DataSpace" where
  "AreaBorder2_getGridDim base gBlocks =
     (let xOverhead = u32 (2 * guardingSuperCells base);
          yOverhead = u32 (xOverhead + 2 * borderSuperCells base)
      in [i32 (xc gBlocks - xOverhead + yc gBlocks - yOverhead), 2 * borderSuperCells base])"

definition AreaBorder2_getBlockIndex :: "MappingDescription \<Rightarrow> DataSpace \<Rightarrow> DataSpace \<Rightarrow> DataSpace" where
  "AreaBorder2_getBlockIndex base gBlocks blockIdx =
     (let g = guardingSuperCells base; b = borderSuperCells base;
          width = u32 (xc gBlocks - 2 * g)
      in if u32 (xc blockIdx) < width
         then [g + xc blockIdx,
               i32 (g + yc blockIdx sdiv 2 + (yc blockIdx mod 2) * (yc gBlocks - 2 * g - b))]
         else [i32 (g + yc blockIdx sdiv 2 + (yc blockIdx mod 2) * (xc gBlocks - b - 2 * g)),
               i32 (g + b + xc blockIdx - width)])"

section \<open>GUARD and BORDER in 3D\<close>

definition AreaGuard3_getGridDim :: "MappingDescription \<Rightarrow> DataSpace \<Rightarrow> DataSpace" where
  "AreaGuard3_getGridDim base gBlocks =
     (let x = xc gBlocks; x' = xc gBlocks - 2 * guardingSuperCells base; y = yc gBlocks;
          z' = zc gBlocks - 2 * guardingSuperCells base
      in [x * y + z' * y + x' * z', 2 * guardingSuperCells base, 1])"

definition AreaGuard3_getBlockIndex :: "MappingDescription \<Rightarrow> DataSpace \<Rightarrow> DataSpace \<Rightarrow> DataSpace" where
  "AreaGuard3_getBlockIndex base gBlocks blockIdx =
     (let g = guardingSuperCells base; x = xc gBlocks; x' = xc gBlocks - 2 * g;
          y = yc gBlocks; z = zc gBlocks; z' = zc gBlocks - 2 * g
      in if xc blockIdx < x * y then
           let tmp_x = xc blockIdx
           in [tmp_x smod x, tmp_x sdiv x, i32 (yc blockIdx sdiv 2 + (yc blockIdx mod 2) * (z - g))]
         else if xc blockIdx \<ge> x * y \<and> xc blockIdx < x * y + z' * y then
           let tmp_x = xc blockIdx - x * y
           in [i32 (yc blockIdx sdiv 2 + (yc blockIdx mod 2) * (x - g)), tmp_x sdiv z', tmp_x smod z' + g]
         else
           let tmp_x = xc blockIdx - x * y - z' * y
           in [tmp_x smod x' + g, i32 (yc blockIdx sdiv 2 + (yc blockIdx mod 2) * (y - g)), tmp_x sdiv x' + g])"

definition AreaBorder3_getGridDim :: "MappingDescription \<Rightarrow> DataSpace \<Rightarrow> DataSpace" where
  "AreaBorder3_getGridDim base gBlocks =
     (let g = 2 * guardingSuperCells base; b = 2 * borderSuperCells base;
          x = xc gBlocks - g; x' = xc gBlocks - g - b; y = yc gBlocks - g; z' = zc gBlocks - g - b
      in [x * y + z' * y + x' * z', b, 1])"

definition AreaBorder3_getBlockIndex :: "MappingDescription \<Rightarrow> DataSpace \<Rightarrow> DataSpace \<Rightarrow> DataSpace" where
  "AreaBorder3_getBlockIndex base gBlocks blockIdx =
     (let g = guardingSuperCells base; b = borderSuperCells base;
          x = xc gBlocks - 2 * g; x' = xc gBlocks - 2 * g - 2 * b; y = yc gBlocks - 2 * g;
          z = zc gBlocks - 2 * g; z' = zc gBlocks - 2 * g - 2 * b
      in if xc blockIdx < x * y then
           let tmp_x = xc blockIdx
           in [tmp_x smod x + g, tmp_x sdiv x + g,
               i32 (g + yc blockIdx sdiv 2 + (yc blockIdx mod 2) * (z - b))]
         else if xc blockIdx \<ge> x * y \<and> xc blockIdx < x * y + z' * y then
           let tmp_x = xc blockIdx - x * y
           in [i32 (g + yc blockIdx sdiv 2 + (yc blockIdx mod 2) * (x - b)), tmp_x sdiv z' + g,
               tmp_x smod z' + g + b]
         else
           let tmp_x = xc blockIdx - x * y - z' * y
           in [tmp_x smod x' + g + b, i32 (g + yc blockIdx sdiv 2 + (yc blockIdx mod 2) * (y - b)),
               tmp_x sdiv x' + g + b])"

section \<open>AreaMapping\<close>

definition area_getGridDim :: "AreaType \<Rightarrow> MappingDescription \<Rightarrow> DataSpace" where
  "area_getGridDim areaType m =
     (let gBlocks = gridSuperCells m; DIM = length gBlocks
      in case areaType of
           CORE_BORDER_GUARD \<Rightarrow> AreaAll_getGridDim m gBlocks
         | CORE \<Rightarrow> AreaCore_getGridDim m gBlocks
         | CORE_BORDER \<Rightarrow> AreaCoreBorder_getGridDim m gBlocks
         | GUARD \<Rightarrow> (if DIM = 2 then AreaGuard2_getGridDim m gBlocks else AreaGuard3_getGridDim m gBlocks)
         | BORDER \<Rightarrow> (if DIM = 2 then AreaBorder2_getGridDim m gBlocks else AreaBorder3_getGridDim m gBlocks))"

definition area_getSuperCellIndex :: "AreaType \<Rightarrow> MappingDescription \<Rightarrow> DataSpace \<Rightarrow> DataSpace" where
  "area_getSuperCellIndex areaType m realSuperCellIdx =
     (let gBlocks = gridSuperCells m; DIM = length gBlocks
      in case areaType of
           CORE_BORDER_GUARD \<Rightarrow> AreaAll_getBlockIndex m gBlocks realSuperCellIdx
         | CORE \<Rightarrow> AreaCore_getBlockIndex m gBlocks realSuperCellIdx
         | CORE_BORDER \<Rightarrow> AreaCoreBorder_getBlockIndex m gBlocks realSuperCellIdx
         | GUARD \<Rightarrow> (if DIM = 2 then AreaGuard2_getBlockIndex m gBlocks realSuperCellIdx
                     else AreaGuard3_getBlockIndex m gBlocks realSuperCellIdx)
         | BORDER \<Rightarrow> (if DIM = 2 then AreaBorder2_getBlockIndex m gBlocks realSuperCellIdx
                      else AreaBorder3_getBlockIndex m gBlocks realSuperCellIdx))"

section \<open>Specification of the areas\<close>

text \<open>
  \<open>inner_box n k\<close> holds the positions at distance at least \<open>k\<close> from every face. A mapping is well
  formed when the border layers of opposite faces do not overlap and all supercells can be
  numbered by an \<open>int\<close>.
\<close>

definition inner_box :: "DataSpace \<Rightarrow> int \<Rightarrow> DataSpace set" where
  "inner_box n k = {p. length p = length n \<and> (\<forall>d < length n. k \<le> p ! d \<and> p ! d < n ! d - k)}"

definition areaCells :: "AreaType \<Rightarrow> MappingDescription \<Rightarrow> DataSpace set" where
  "areaCells areaType m =
     (let n = gridSuperCells m; g = guardingSuperCells m; b = borderSuperCells m
      in case areaType of
           CORE_BORDER_GUARD \<Rightarrow> inner_box n 0
         | CORE_BORDER \<Rightarrow> inner_box n g
         | CORE \<Rightarrow> inner_box n (g + b)
         | GUARD \<Rightarrow> inner_box n 0 - inner_box n g
         | BORDER \<Rightarrow> inner_box n g - inner_box n (g + b))"

definition mapping_wf :: "MappingDescription \<Rightarrow> bool" where
  "mapping_wf m \<longleftrightarrow>
     (length (gridSuperCells m) = 2 \<or> length (gridSuperCells m) = 3) \<and>
     0 \<le> guardingSuperCells m \<and> 0 \<le> borderSuperCells m \<and>
     list_all (\<lambda>n. 0 < n \<and> 2 * (guardingSuperCells m + borderSuperCells m) \<le> n) (gridSuperCells m) \<and>
     prod_list (gridSuperCells m) < 2 ^ 31"

text \<open>
  The common pattern of the GUARD and BORDER specialisations: index \<open>k\<close> of \<open>2 * t\<close> walks the two
  layers of thickness \<open>t\<close> at the ends of an axis of length \<open>n\<close> alternately; \<open>shell2\<close> and \<open>shell3\<close>
  enumerate a shell of thickness \<open>t\<close> slab by slab.
\<close>

definition side :: "int \<Rightarrow> int \<Rightarrow> int \<Rightarrow> int" where
  "side t n k = k div 2 + (k mod 2) * (n - t)"

definition unside :: "int \<Rightarrow> int \<Rightarrow> int \<Rightarrow> int" where
  "unside t n c = (if c < t then 2 * c else 2 * (c - (n - t)) + 1)"

definition shell2 :: "int \<Rightarrow> int \<Rightarrow> int \<Rightarrow> DataSpace \<Rightarrow> DataSpace" where
  "shell2 t nx ny i =
     (if xc i < nx then [xc i, side t ny (yc i)] else [side t nx (yc i), t + xc i - nx])"

definition shell3 :: "int \<Rightarrow> int \<Rightarrow> int \<Rightarrow> int \<Rightarrow> DataSpace \<Rightarrow> DataSpace" where
  "shell3 t nx ny nz i =
     (let bx = xc i; k = yc i; mx = nx - 2 * t; mz = nz - 2 * t
      in if bx < nx * ny then [bx mod nx, bx div nx, side t nz k]
         else if bx < nx * ny + mz * ny
         then [side t nx k, (bx - nx * ny) div mz, (bx - nx * ny) mod mz + t]
         else [(bx - nx * ny - mz * ny) mod mx + t, side t ny k, (bx - nx * ny - mz * ny) div mx + t])"

section \<open>Shell enumeration is a bijection\<close>

lemma inner_box_Nil [simp]: "p \<in> inner_box [] k \<longleftrightarrow> p = []"
  by (simp add: inner_box_def)

lemma inner_box_Cons [simp]: "x # p \<in> inner_box (n # ns) k \<longleftrightarrow> k \<le> x \<and> x < n - k \<and> p \<in> inner_box ns k"
  by (auto simp: inner_box_def less_Suc_eq_0_disj)

lemma inner_box_length: "p \<in> inner_box n k \<Longrightarrow> length p = length n"
  by (simp add: inner_box_def)

lemma inner_box2E:
  assumes "p \<in> inner_box [nx, ny] k"
  obtains x y where "p = [x, y]" "k \<le> x" "x < nx - k" "k \<le> y" "y < ny - k"
proof -
  have "length p = 2" using inner_box_length [OF assms] by simp
  then obtain x y where "p = [x, y]" by (rule length2E)
  with assms that show thesis by simp
qed

lemma inner_box3E:
  assumes "p \<in> inner_box [nx, ny, nz] k"
  obtains x y z where "p = [x, y, z]" "k \<le> x" "x < nx - k" "k \<le> y" "y < ny - k" "k \<le> z" "z < nz - k"
proof -
  have "length p = 3" using inner_box_length [OF assms] by simp
  then obtain x y z where "p = [x, y, z]" by (rule length3E)
  with assms that show thesis by simp
qed

lemma side_parity:
  "side t n (2 * q) = q" "side t n (2 * q + 1) = q + (n - t)"
  by (simp_all add: side_def)

lemma parityE:
  fixes k :: int
  assumes "0 \<le> k" "k < 2 * t"
  obtains q where "k = 2 * q" "0 \<le> q" "q < t" | q where "k = 2 * q + 1" "0 \<le> q" "q < t"
proof (cases "even k")
  case True
  with assms that(1) [of "k div 2"] show ?thesis by auto
next
  case False
  then obtain q where "k = 2 * q + 1" by (auto elim: oddE)
  with assms that(2) [of q] show ?thesis by simp
qed

lemma side_layers:
  assumes "0 \<le> k" "k < 2 * t" "2 * t \<le> n"
  shows "0 \<le> side t n k \<and> side t n k < n \<and> (side t n k < t \<or> n - t \<le> side t n k) \<and> unside t n (side t n k) = k"
  using assms(1,2)
proof (cases rule: parityE)
  case (1 q)
  with assms(3) show ?thesis by (simp add: side_parity unside_def)
next
  case (2 q)
  with assms(3) show ?thesis by (simp add: side_parity unside_def)
qed

lemma unside_layers:
  assumes "0 \<le> c" "c < n" "c < t \<or> n - t \<le> c" "2 * t \<le> n"
  shows "0 \<le> unside t n c \<and> unside t n c < 2 * t \<and> side t n (unside t n c) = c"
proof (cases "c < t")
  case True
  with assms show ?thesis by (simp add: unside_def side_parity)
next
  case False
  then have "unside t n c = 2 * (c - (n - t)) + 1" by (simp add: unside_def)
  moreover have "side t n (2 * (c - (n - t)) + 1) = c" unfolding side_parity by simp
  ultimately show ?thesis using False assms by simp
qed

definition unshell2 :: "int \<Rightarrow> int \<Rightarrow> int \<Rightarrow> DataSpace \<Rightarrow> DataSpace" where
  "unshell2 t nx ny p =
     (if yc p < t \<or> ny - t \<le> yc p then [xc p, unside t ny (yc p)]
      else [nx + yc p - t, unside t nx (xc p)])"

lemma shell2_bij:
  assumes "0 \<le> t" "2 * t \<le> nx" "2 * t \<le> ny"
  shows "bij_betw (shell2 t nx ny) (box [nx + ny - 2 * t, 2 * t]) (inner_box [nx, ny] 0 - inner_box [nx, ny] t)"
proof (rule bij_betwI_inverse [where g = "unshell2 t nx ny"])
  fix i assume "i \<in> box [nx + ny - 2 * t, 2 * t]"
  then obtain a k where i: "i = [a, k]" and a: "0 \<le> a" "a < nx + ny - 2 * t" and k: "0 \<le> k" "k < 2 * t"
    by (rule box2E)
  show "shell2 t nx ny i \<in> inner_box [nx, ny] 0 - inner_box [nx, ny] t \<and> unshell2 t nx ny (shell2 t nx ny i) = i"
  proof (cases "a < nx")
    case True
    with a side_layers [OF k assms(3)] show ?thesis by (auto simp: i shell2_def unshell2_def)
  next
    case False
    with a side_layers [OF k assms(2)] show ?thesis by (auto simp: i shell2_def unshell2_def)
  qed
next
  fix p assume p: "p \<in> inner_box [nx, ny] 0 - inner_box [nx, ny] t"
  then have "p \<in> inner_box [nx, ny] 0" by simp
  then obtain x y where p': "p = [x, y]" and xy: "0 \<le> x" "x < nx" "0 \<le> y" "y < ny"
    by (rule inner_box2E) simp
  have "\<not> (y < t \<or> ny - t \<le> y) \<Longrightarrow> x < t \<or> nx - t \<le> x" using p p' by auto
  with xy assms unside_layers [of x nx t] unside_layers [of y ny t]
  show "unshell2 t nx ny p \<in> box [nx + ny - 2 * t, 2 * t] \<and> shell2 t nx ny (unshell2 t nx ny p) = p"
    by (auto simp: p' shell2_def unshell2_def)
qed

definition unshell3 :: "int \<Rightarrow> int \<Rightarrow> int \<Rightarrow> int \<Rightarrow> DataSpace \<Rightarrow> DataSpace" where
  "unshell3 t nx ny nz p =
     (let x = xc p; y = yc p; z = zc p; mx = nx - 2 * t; mz = nz - 2 * t
      in if z < t \<or> nz - t \<le> z then [y * nx + x, unside t nz z, 0]
         else if x < t \<or> nx - t \<le> x then [nx * ny + (y * mz + (z - t)), unside t nx x, 0]
         else [nx * ny + mz * ny + ((z - t) * mx + (x - t)), unside t ny y, 0])"

lemma slab_split:
  fixes a n m :: int
  assumes "0 \<le> a" "a < m * n"
  obtains q r where "a = q * n + r" "0 \<le> r" "r < n" "0 \<le> q" "q < m" "a mod n = r" "a div n = q"
    | "n \<le> 0"
proof (cases "0 < n")
  case True
  with assms that(1) [of "a div n" "a mod n"] radix_div_bound [OF assms True] show ?thesis by simp
next
  case False
  with that(2) show ?thesis by simp
qed

lemma shell3_into:
  assumes t: "0 \<le> t" "2 * t \<le> nx" "2 * t \<le> ny" "2 * t \<le> nz" "0 < nx" "0 < ny"
    and i: "i \<in> box [nx * ny + (nz - 2 * t) * ny + (nx - 2 * t) * (nz - 2 * t), 2 * t, 1]"
  shows "shell3 t nx ny nz i \<in> inner_box [nx, ny, nz] 0 - inner_box [nx, ny, nz] t
    \<and> unshell3 t nx ny nz (shell3 t nx ny nz i) = i"
  using i
proof (rule box3E)
  define mx mz where "mx = nx - 2 * t" and "mz = nz - 2 * t"
  fix a k u
  assume i: "i = [a, k, u]" and a: "0 \<le> a" "a < nx * ny + (nz - 2 * t) * ny + (nx - 2 * t) * (nz - 2 * t)"
    and k: "0 \<le> k" "k < 2 * t" and u: "0 \<le> u" "u < 1"
  have u: "u = 0" using u by simp
  have m: "0 \<le> mx" "0 \<le> mz" using t by (simp_all add: mx_def mz_def)
  have a': "a < nx * ny + mz * ny + mx * mz" using a by (simp add: mx_def mz_def)
  have "ny * nx = nx * ny" "ny * mz = mz * ny" "mz * mx = mx * mz" by (simp_all add: mult.commute)
  with a' have "a < ny * nx \<or> \<not> a < nx * ny \<and> a - nx * ny < ny * mz
      \<or> \<not> a < nx * ny \<and> \<not> a < nx * ny + mz * ny \<and> a - nx * ny - mz * ny < mz * mx" by linarith
  then consider "a < ny * nx" | "\<not> a < nx * ny" "a - nx * ny < ny * mz"
    | "\<not> a < nx * ny" "\<not> a < nx * ny + mz * ny" "a - nx * ny - mz * ny < mz * mx"
    by blast
  then show ?thesis
  proof cases
    case 1
    from a(1) 1 show ?thesis
    proof (rule slab_split)
      fix q r assume "a = q * nx + r" "0 \<le> r" "r < nx" "0 \<le> q" "q < ny" "a mod nx = r" "a div nx = q"
      with 1 t side_layers [OF k t(4)] show ?thesis
        by (auto simp: i u shell3_def unshell3_def Let_def mult.commute [of nx ny])
    qed (use t in simp)
  next
    case 2
    have "0 \<le> a - nx * ny" using 2 by simp
    then show ?thesis using 2(2)
    proof (rule slab_split)
      fix q r assume qr: "a - nx * ny = q * mz + r" "0 \<le> r" "r < mz" "0 \<le> q" "q < ny"
        "(a - nx * ny) mod mz = r" "(a - nx * ny) div mz = q"
      have "a < nx * ny + mz * ny" using 2 by (simp add: mult.commute)
      then have s: "shell3 t nx ny nz i = [side t nx k, q, r + t]"
        using 2 qr by (simp add: i shell3_def Let_def mz_def)
      have "r + t < nz - t" using qr mz_def by simp
      with t qr side_layers [OF k t(2)] show ?thesis unfolding s
        by (auto simp: i u unshell3_def Let_def mz_def)
    next
      assume "mz \<le> 0"
      then have "mz = 0" using m by simp
      then show ?thesis using 2 by simp
    qed
  next
    case 3
    have "0 \<le> a - nx * ny - mz * ny" using 3 by simp
    then show ?thesis using 3(3)
    proof (rule slab_split)
      fix q r assume qr: "a - nx * ny - mz * ny = q * mx + r" "0 \<le> r" "r < mx" "0 \<le> q" "q < mz"
        "(a - nx * ny - mz * ny) mod mx = r" "(a - nx * ny - mz * ny) div mx = q"
      have s: "shell3 t nx ny nz i = [r + t, side t ny k, q + t]"
        using 3 qr by (simp add: i shell3_def Let_def mz_def mx_def)
      have "r + t < nx - t" "q + t < nz - t" using qr mx_def mz_def by simp_all
      with t qr side_layers [OF k t(3)] show ?thesis unfolding s
        by (auto simp: i u unshell3_def Let_def mz_def mx_def)
    next
      assume "mx \<le> 0"
      then have "mx = 0" using m by simp
      then show ?thesis using 3 by simp
    qed
  qed
qed

lemma shell3_onto:
  assumes t: "0 \<le> t" "2 * t \<le> nx" "2 * t \<le> ny" "2 * t \<le> nz"
    and p: "p \<in> inner_box [nx, ny, nz] 0 - inner_box [nx, ny, nz] t"
  shows "unshell3 t nx ny nz p \<in> box [nx * ny + (nz - 2 * t) * ny + (nx - 2 * t) * (nz - 2 * t), 2 * t, 1]
    \<and> shell3 t nx ny nz (unshell3 t nx ny nz p) = p"
proof -
  define mx mz where "mx = nx - 2 * t" and "mz = nz - 2 * t"
  have m: "0 \<le> mx" "0 \<le> mz" "0 \<le> ny" "0 \<le> nx" using t by (simp_all add: mx_def mz_def)
  have m': "0 \<le> mz * ny" "0 \<le> mx * mz" "0 \<le> nx * ny" using m by simp_all
  have "p \<in> inner_box [nx, ny, nz] 0" using p by simp
  then obtain x y z where p': "p = [x, y, z]" and x: "0 \<le> x" "x < nx" and y: "0 \<le> y" "y < ny"
    and z: "0 \<le> z" "z < nz" by (rule inner_box3E) simp
  have "(z < t \<or> nz - t \<le> z) \<or> (x < t \<or> nx - t \<le> x) \<or> (y < t \<or> ny - t \<le> y)"
    using p p' by auto
  then consider "z < t \<or> nz - t \<le> z" | "\<not> (z < t \<or> nz - t \<le> z)" "x < t \<or> nx - t \<le> x"
    | "\<not> (z < t \<or> nz - t \<le> z)" "\<not> (x < t \<or> nx - t \<le> x)" "y < t \<or> ny - t \<le> y"
    by blast
  then show ?thesis
  proof cases
    case 1
    have un: "unshell3 t nx ny nz p = [y * nx + x, unside t nz z, 0]"
      using 1 by (simp add: p' unshell3_def Let_def)
    have "y * nx + x < nx * ny" using radix_bound [OF x y(2)] by (simp add: mult.commute)
    moreover have "0 \<le> y * nx + x" using x y by simp
    ultimately show ?thesis
      using m' x unside_layers [OF z 1 t(4)] unfolding un mx_def mz_def
      by (simp add: p' shell3_def Let_def)
  next
    case 2
    have zt: "0 \<le> z - t" "z - t < mz" using 2 by (auto simp: mz_def)
    define c where "c = y * mz + (z - t)"
    have un: "unshell3 t nx ny nz p = [nx * ny + c, unside t nx x, 0]"
      using 2 by (simp add: p' unshell3_def Let_def mz_def c_def)
    have "c < mz * ny" using radix_bound [OF zt y(2)] by (simp add: c_def mult.commute)
    moreover have "0 \<le> c" using zt y by (simp add: c_def)
    moreover have "c div mz = y" "c mod mz = z - t"
      unfolding c_def using radix_div [OF zt] radix_mod [OF zt] by simp_all
    ultimately show ?thesis
      using m' unside_layers [OF x 2(2) t(2)] unfolding un mx_def mz_def
      by (simp add: p' shell3_def Let_def)
  next
    case 3
    have zt: "0 \<le> z - t" "z - t < mz" using 3 by (auto simp: mz_def)
    have xt: "0 \<le> x - t" "x - t < mx" using 3 by (auto simp: mx_def)
    define c where "c = (z - t) * mx + (x - t)"
    have un: "unshell3 t nx ny nz p = [nx * ny + mz * ny + c, unside t ny y, 0]"
      using 3 by (simp add: p' unshell3_def Let_def mz_def mx_def c_def)
    have "c < mx * mz" using radix_bound [OF xt zt(2)] by (simp add: c_def mult.commute)
    moreover have "0 \<le> c" using zt xt by (simp add: c_def)
    moreover have "c div mx = z - t" "c mod mx = x - t"
      unfolding c_def using radix_div [OF xt] radix_mod [OF xt] by simp_all
    ultimately show ?thesis
      using m' unside_layers [OF y 3(3) t(3)] unfolding un mx_def mz_def
      by (simp add: p' shell3_def Let_def)
  qed
qed

lemma shell3_bij:
  assumes "0 \<le> t" "2 * t \<le> nx" "2 * t \<le> ny" "2 * t \<le> nz" "0 < nx" "0 < ny"
  shows "bij_betw (shell3 t nx ny nz) (box [nx * ny + (nz - 2 * t) * ny + (nx - 2 * t) * (nz - 2 * t), 2 * t, 1])
    (inner_box [nx, ny, nz] 0 - inner_box [nx, ny, nz] t)"
  using shell3_into [OF assms] shell3_onto [OF assms(1-4)] by (rule bij_betwI_inverse)

section \<open>The area mappers are shell enumerations\<close>

lemma box_inner: "box n = inner_box n 0"
  by (simp add: box_def inner_box_def)

lemma shift_inner:
  "bij_betw (\<lambda>p. vec_add_s p g) (inner_box (vec_sub_s n (2 * g)) k) (inner_box n (g + k))"
  by (rule bij_betwI_inverse [where g = "\<lambda>p. vec_sub_s p g"])
     (auto simp: inner_box_def vec_simps o_def)

lemma shift_shell:
  assumes "bij_betw f A (inner_box (vec_sub_s n (2 * g)) 0 - inner_box (vec_sub_s n (2 * g)) b)" "0 \<le> b"
  shows "bij_betw (\<lambda>i. vec_add_s (f i) g) A (inner_box n g - inner_box n (g + b))"
proof -
  let ?m = "vec_sub_s n (2 * g)"
  have s0: "bij_betw (\<lambda>p. vec_add_s p g) (inner_box ?m 0) (inner_box n g)"
    using shift_inner [of g n 0] by simp
  have sub: "inner_box ?m b \<subseteq> inner_box ?m 0"
    using assms(2) by (fastforce simp: inner_box_def)
  have "(\<lambda>p. vec_add_s p g) ` (inner_box ?m 0 - inner_box ?m b) = inner_box n g - inner_box n (g + b)"
    using s0 shift_inner [of g n b] sub
    by (simp add: bij_betw_def inj_on_image_set_diff [OF _ _ sub])
  with s0 have "bij_betw (\<lambda>p. vec_add_s p g) (inner_box ?m 0 - inner_box ?m b) (inner_box n g - inner_box n (g + b))"
    by (auto simp: bij_betw_def inj_on_diff)
  from bij_betw_trans [OF assms(1) this] show ?thesis by (simp add: o_def)
qed

lemma prod_list_pos: "\<forall>c \<in> set v. 0 < c \<Longrightarrow> 0 < prod_list v" for v :: "int list"
  by (induction v) auto

lemma le_prod_list: "c \<in> set v \<Longrightarrow> \<forall>c \<in> set v. 0 < c \<Longrightarrow> c \<le> prod_list v" for c :: int
proof (induction v)
  case (Cons a v)
  then have a: "0 < a" "0 < prod_list v" using prod_list_pos [of v] by auto
  from a factor_le [of a "prod_list v"] have le: "a \<le> a * prod_list v" "prod_list v \<le> a * prod_list v" by simp_all
  from Cons.prems consider "c = a" | "c \<in> set v" by auto
  then show ?case
  proof cases
    case 2
    then have "c \<le> prod_list v" using Cons by simp
    with le show ?thesis by simp
  qed (use le in simp)
qed simp

lemma mapping_wf_extents:
  assumes "mapping_wf m" "n \<in> set (gridSuperCells m)"
  shows "0 < n \<and> n < 2 ^ 31 \<and> 2 * (guardingSuperCells m + borderSuperCells m) \<le> n"
proof -
  have w: "\<forall>c \<in> set (gridSuperCells m). 0 < c" "prod_list (gridSuperCells m) < 2 ^ 31"
    "\<forall>c \<in> set (gridSuperCells m). 2 * (guardingSuperCells m + borderSuperCells m) \<le> c"
    using assms by (auto simp: mapping_wf_def list_all_iff)
  have "n \<le> prod_list (gridSuperCells m)" by (rule le_prod_list [OF assms(2) w(1)])
  then have "n < 2 ^ 31" using w(2) by linarith
  with w assms(2) show ?thesis by blast
qed

lemma side_i32:
  assumes "0 \<le> k" "k < 2 * t" "2 * t \<le> n" "0 \<le> g" "g + n < 2 ^ 31"
  shows "i32 (g + k sdiv 2 + (k mod 2) * (n - t)) = g + side t n k"
    and "g = 0 \<Longrightarrow> i32 (k sdiv 2 + (k mod 2) * (n - t)) = side t n k"
proof -
  have "k sdiv 2 + (k mod 2) * (n - t) = side t n k" using assms by (simp add: side_def sdiv_nonneg)
  moreover have "i32 (g + side t n k) = g + side t n k"
    using side_layers [OF assms(1-3)] assms(4,5) by (intro i32_id) auto
  ultimately show "i32 (g + k sdiv 2 + (k mod 2) * (n - t)) = g + side t n k"
    "g = 0 \<Longrightarrow> i32 (k sdiv 2 + (k mod 2) * (n - t)) = side t n k"
    by (simp_all add: add.assoc)
qed

lemma AreaGuard2_shell:
  assumes "gridSuperCells m = [nx, ny]" "0 \<le> guardingSuperCells m" "2 * guardingSuperCells m \<le> nx"
    "2 * guardingSuperCells m \<le> ny" "nx < 2 ^ 31" "ny < 2 ^ 31" "i \<in> box (AreaGuard2_getGridDim m [nx, ny])"
  shows "AreaGuard2_getBlockIndex m [nx, ny] i = shell2 (guardingSuperCells m) nx ny i"
  using assms(7) unfolding AreaGuard2_getGridDim_def
  by (rule box2E)
     (use assms in \<open>simp add: AreaGuard2_getBlockIndex_def shell2_def side_i32(2) [where g = 0]\<close>)

lemma AreaBorder2_grid:
  assumes g: "0 \<le> guardingSuperCells m" "0 \<le> borderSuperCells m"
    "2 * (guardingSuperCells m + borderSuperCells m) \<le> nx"
    "2 * (guardingSuperCells m + borderSuperCells m) \<le> ny" "nx + ny < 2 ^ 31 + 2"
  shows "box (AreaBorder2_getGridDim m [nx, ny])
    = box [nx - 2 * guardingSuperCells m + (ny - 2 * guardingSuperCells m) - 2 * borderSuperCells m, 2 * borderSuperCells m]"
proof -
  define g b where "g = guardingSuperCells m" and "b = borderSuperCells m"
  have gb: "0 \<le> g" "0 \<le> b" "2 * (g + b) \<le> nx" "2 * (g + b) \<le> ny" using g by (simp_all add: g_def b_def)
  show ?thesis
  proof (cases "b = 0")
    case True
    then show ?thesis by (auto simp: AreaBorder2_getGridDim_def b_def [symmetric] Let_def box_Cons)
  next
    case False
    have d: "AreaBorder2_getGridDim m [nx, ny] = [i32 (nx - u32 (2 * g) + ny - u32 (u32 (2 * g) + 2 * b)), 2 * b]"
      by (simp add: AreaBorder2_getGridDim_def Let_def g_def b_def)
    have u: "u32 (2 * g) = 2 * g" "u32 (2 * g + 2 * b) = 2 * g + 2 * b"
      using gb g by (auto intro!: u32_id)
    have i: "i32 (nx - 2 * g + ny - (2 * g + 2 * b)) = nx - 2 * g + (ny - 2 * g) - 2 * b"
      using gb g False by (subst i32_id) auto
    show ?thesis unfolding d u i g_def [symmetric] b_def [symmetric] ..
  qed
qed

lemma AreaBorder2_shell:
  assumes gm: "guardingSuperCells m = g" "borderSuperCells m = b"
    and gb: "0 \<le> g" "0 \<le> b" "2 * (g + b) \<le> nx" "2 * (g + b) \<le> ny"
    and n: "nx < 2 ^ 31" "ny < 2 ^ 31" "nx + ny < 2 ^ 31 + 2"
    and i: "i \<in> box [nx - 2 * g + (ny - 2 * g) - 2 * b, 2 * b]"
  shows "AreaBorder2_getBlockIndex m [nx, ny] i = vec_add_s (shell2 b (nx - 2 * g) (ny - 2 * g) i) g"
  using i
proof (rule box2E)
  fix a k assume i: "i = [a, k]" and a: "0 \<le> a" "a < nx - 2 * g + (ny - 2 * g) - 2 * b" and k: "0 \<le> k" "k < 2 * b"
  have c: "u32 (nx - 2 * g) = nx - 2 * g" "u32 a = a"
    using gb n a by (auto intro!: u32_id)
  have e: "i32 (g + b + a - (nx - 2 * g)) = g + b + a - (nx - 2 * g)" if "\<not> a < nx - 2 * g"
    using gb n a that by (intro i32_id) auto
  have sy: "i32 (g + k sdiv 2 + (k mod 2) * (ny - 2 * g - b)) = g + side b (ny - 2 * g) k"
    using gb n k side_i32(1) [of k b "ny - 2 * g" g] by simp
  have "nx - b - 2 * g = nx - 2 * g - b" by simp
  then have sx: "i32 (g + k sdiv 2 + (k mod 2) * (nx - b - 2 * g)) = g + side b (nx - 2 * g) k"
    using gb n k side_i32(1) [of k b "nx - 2 * g" g] by (simp only:) simp
  show ?thesis
    unfolding AreaBorder2_getBlockIndex_def Let_def gm
    using sx sy e by (simp add: i c shell2_def vec_simps)
qed

lemma AreaGuard3_shell:
  assumes gm: "guardingSuperCells m = g"
    and g: "0 \<le> g" "2 * g \<le> nx" "2 * g \<le> ny" "2 * g \<le> nz"
    and n: "nx < 2 ^ 31" "ny < 2 ^ 31" "nz < 2 ^ 31" "0 < nx"
    and i: "i \<in> box [nx * ny + (nz - 2 * g) * ny + (nx - 2 * g) * (nz - 2 * g), 2 * g, 1]"
  shows "AreaGuard3_getBlockIndex m [nx, ny, nz] i = shell3 g nx ny nz i"
  using i
proof (rule box3E)
  fix a k u assume i: "i = [a, k, u]" and a: "0 \<le> a" and k: "0 \<le> k" "k < 2 * g"
  have "i32 (k sdiv 2 + (k mod 2) * (c - g)) = side g c k" if "2 * g \<le> c" "c < 2 ^ 31" for c
    using side_i32(2) [OF k that(1), of 0] that by simp
  then show ?thesis
    using g n a by (simp add: AreaGuard3_getBlockIndex_def Let_def gm i shell3_def sdiv_nonneg smod_nonneg)
qed

lemma AreaBorder3_shell:
  assumes gm: "guardingSuperCells m = g" "borderSuperCells m = b"
    and g: "0 \<le> g" "0 \<le> b" "2 * (g + b) \<le> nx" "2 * (g + b) \<le> ny" "2 * (g + b) \<le> nz"
    and n: "nx < 2 ^ 31" "ny < 2 ^ 31" "nz < 2 ^ 31"
    and xyz: "x = nx - 2 * g" "y = ny - 2 * g" "z = nz - 2 * g"
    and i: "i \<in> box [x * y + (z - 2 * b) * y + (x - 2 * b) * (z - 2 * b), 2 * b, 1]"
  shows "AreaBorder3_getBlockIndex m [nx, ny, nz] i = vec_add_s (shell3 b x y z i) g"
  using i
proof (rule box3E)
  fix a k u assume i: "i = [a, k, u]" and a: "0 \<le> a" and k: "0 \<le> k" "k < 2 * b"
  have s: "i32 (g + k sdiv 2 + (k mod 2) * (c - b)) = g + side b c k" if "2 * b \<le> c" "g + c < 2 ^ 31" for c
    using side_i32(1) [OF k that(1), of g] g that by simp
  have nn: "nx = x + 2 * g" "ny = y + 2 * g" "nz = z + 2 * g" using xyz by simp_all
  have pos: "0 \<le> x" "0 \<le> y" "0 \<le> z" "0 \<le> x - 2 * b" "0 \<le> z - 2 * b" "2 * b \<le> y"
    "g + x < 2 ^ 31" "g + y < 2 ^ 31" "g + z < 2 ^ 31"
    using g n xyz by simp_all
  show ?thesis
    using pos a
    by (simp add: AreaBorder3_getBlockIndex_def Let_def gm nn i shell3_def s sdiv_nonneg smod_nonneg vec_simps)
qed

section \<open>Properties\<close>

lemma area_bij_2:
  assumes wf: "mapping_wf m" and n: "gridSuperCells m = [nx, ny]"
  shows "bij_betw (area_getSuperCellIndex GUARD m) (box (area_getGridDim GUARD m)) (areaCells GUARD m)"
    and "bij_betw (area_getSuperCellIndex BORDER m) (box (area_getGridDim BORDER m)) (areaCells BORDER m)"
proof -
  obtain g b where gb: "guardingSuperCells m = g" "borderSuperCells m = b" by blast
  have w: "0 \<le> g" "0 \<le> b" using wf by (auto simp: mapping_wf_def gb)
  have x: "0 < nx" "nx < 2 ^ 31" "2 * (g + b) \<le> nx" and y: "0 < ny" "ny < 2 ^ 31" "2 * (g + b) \<le> ny"
    using mapping_wf_extents [OF wf, of nx] mapping_wf_extents [OF wf, of ny] by (simp_all add: n gb)
  have "nx * ny < 2 ^ 31" using wf by (simp add: mapping_wf_def n)
  moreover have "nx + ny \<le> nx * ny + 1"
    using mult_nonneg_nonneg [of "nx - 1" "ny - 1"] x y by (simp add: algebra_simps)
  ultimately have xy: "nx + ny < 2 ^ 31 + 2" by linarith
  have "bij_betw (shell2 g nx ny) (box [nx + ny - 2 * g, 2 * g]) (inner_box [nx, ny] 0 - inner_box [nx, ny] g)"
    using w x y by (intro shell2_bij) auto
  then show "bij_betw (area_getSuperCellIndex GUARD m) (box (area_getGridDim GUARD m)) (areaCells GUARD m)"
    using w x y AreaGuard2_shell [OF n]
    by (subst bij_betw_cong [where g = "shell2 g nx ny"])
       (auto simp: area_getSuperCellIndex_def area_getGridDim_def areaCells_def Let_def n gb AreaGuard2_getGridDim_def)
  have "bij_betw (shell2 b (nx - 2 * g) (ny - 2 * g)) (box [nx - 2 * g + (ny - 2 * g) - 2 * b, 2 * b])
      (inner_box (vec_sub_s [nx, ny] (2 * g)) 0 - inner_box (vec_sub_s [nx, ny] (2 * g)) b)"
    using w x y shell2_bij [of b "nx - 2 * g" "ny - 2 * g"] by (simp add: vec_simps)
  from shift_shell [OF this w(2)]
  have "bij_betw (AreaBorder2_getBlockIndex m [nx, ny]) (box [nx - 2 * g + (ny - 2 * g) - 2 * b, 2 * b])
      (inner_box [nx, ny] g - inner_box [nx, ny] (g + b))"
    by (rule bij_betw_cong [THEN iffD1, rotated])
       (rule AreaBorder2_shell [OF gb w x(3) y(3) x(2) y(2) xy, symmetric])
  moreover have "box (AreaBorder2_getGridDim m [nx, ny]) = box [nx - 2 * g + (ny - 2 * g) - 2 * b, 2 * b]"
    using AreaBorder2_grid [of m nx ny] w x y xy by (simp add: gb)
  ultimately show "bij_betw (area_getSuperCellIndex BORDER m) (box (area_getGridDim BORDER m)) (areaCells BORDER m)"
    by (simp add: area_getSuperCellIndex_def [abs_def] area_getGridDim_def areaCells_def Let_def n gb)
qed

lemma area_bij_3:
  assumes wf: "mapping_wf m" and n: "gridSuperCells m = [nx, ny, nz]"
  shows "bij_betw (area_getSuperCellIndex GUARD m) (box (area_getGridDim GUARD m)) (areaCells GUARD m)"
    and "bij_betw (area_getSuperCellIndex BORDER m) (box (area_getGridDim BORDER m)) (areaCells BORDER m)"
proof -
  obtain g b where gb: "guardingSuperCells m = g" "borderSuperCells m = b" by blast
  obtain x y z where xyz: "x = nx - 2 * g" "y = ny - 2 * g" "z = nz - 2 * g" by blast
  have w: "0 \<le> g" "0 \<le> b" using wf by (auto simp: mapping_wf_def gb)
  have e: "0 < nx" "nx < 2 ^ 31" "2 * (g + b) \<le> nx" "0 < ny" "ny < 2 ^ 31" "2 * (g + b) \<le> ny"
    "0 < nz" "nz < 2 ^ 31" "2 * (g + b) \<le> nz"
    using mapping_wf_extents [OF wf, of nx] mapping_wf_extents [OF wf, of ny] mapping_wf_extents [OF wf, of nz]
    by (simp_all add: n gb)
  then have e': "2 * g \<le> nx" "2 * g \<le> ny" "2 * g \<le> nz" using w by simp_all
  from shell3_bij [OF w(1) e' e(1,4)]
  have "bij_betw (AreaGuard3_getBlockIndex m [nx, ny, nz])
      (box [nx * ny + (nz - 2 * g) * ny + (nx - 2 * g) * (nz - 2 * g), 2 * g, 1])
      (inner_box [nx, ny, nz] 0 - inner_box [nx, ny, nz] g)"
    by (rule bij_betw_cong [THEN iffD1, rotated])
       (rule AreaGuard3_shell [OF gb(1) w(1) e' e(2,5,8,1), symmetric])
  then show "bij_betw (area_getSuperCellIndex GUARD m) (box (area_getGridDim GUARD m)) (areaCells GUARD m)"
    by (simp add: area_getSuperCellIndex_def [abs_def] area_getGridDim_def AreaGuard3_getGridDim_def
        areaCells_def Let_def n gb)
  let ?B = "box [x * y + (z - 2 * b) * y + (x - 2 * b) * (z - 2 * b), 2 * b, 1]"
  have "bij_betw (AreaBorder3_getBlockIndex m [nx, ny, nz]) ?B (inner_box [nx, ny, nz] g - inner_box [nx, ny, nz] (g + b))"
  proof (cases "b = 0")
    case True
    then have "?B = {}" by (auto simp: box_Cons)
    then show ?thesis using True by (simp add: bij_betw_def)
  next
    case False
    then have "0 < x" "0 < y" using e w xyz by simp_all
    then have "bij_betw (shell3 b x y z) ?B
        (inner_box (vec_sub_s [nx, ny, nz] (2 * g)) 0 - inner_box (vec_sub_s [nx, ny, nz] (2 * g)) b)"
      using w e xyz shell3_bij [of b x y z] by (simp add: vec_simps)
    from shift_shell [OF this w(2)] show ?thesis
      by (rule bij_betw_cong [THEN iffD1, rotated])
         (rule AreaBorder3_shell [OF gb w e(3,6,9,2,5,8) xyz, symmetric])
  qed
  then show "bij_betw (area_getSuperCellIndex BORDER m) (box (area_getGridDim BORDER m)) (areaCells BORDER m)"
    by (simp add: area_getSuperCellIndex_def [abs_def] area_getGridDim_def AreaBorder3_getGridDim_def
        areaCells_def Let_def n gb xyz)
qed

lemma area_bij:
  assumes "mapping_wf m"
  shows "bij_betw (area_getSuperCellIndex areaType m) (box (area_getGridDim areaType m)) (areaCells areaType m)"
proof (cases areaType)
  case CORE
  then show ?thesis
    using shift_inner [of "guardingSuperCells m + borderSuperCells m" "gridSuperCells m" 0]
    by (simp add: area_getSuperCellIndex_def [abs_def] area_getGridDim_def areaCells_def Let_def
        AreaCore_getBlockIndex_def AreaCore_getGridDim_def box_inner)
next
  case CORE_BORDER
  then show ?thesis
    using shift_inner [of "guardingSuperCells m" "gridSuperCells m" 0]
    by (simp add: area_getSuperCellIndex_def [abs_def] area_getGridDim_def areaCells_def Let_def
        AreaCoreBorder_getBlockIndex_def AreaCoreBorder_getGridDim_def box_inner)
next
  case CORE_BORDER_GUARD
  then show ?thesis
    by (simp add: area_getSuperCellIndex_def [abs_def] area_getGridDim_def areaCells_def Let_def
        AreaAll_getBlockIndex_def AreaAll_getGridDim_def box_inner bij_betw_def)
next
  case GUARD
  from assms have "length (gridSuperCells m) = 2 \<or> length (gridSuperCells m) = 3" by (simp add: mapping_wf_def)
  then show ?thesis
    using area_bij_2(1) [OF assms] area_bij_3(1) [OF assms] GUARD by (auto elim: length2E length3E)
next
  case BORDER
  from assms have "length (gridSuperCells m) = 2 \<or> length (gridSuperCells m) = 3" by (simp add: mapping_wf_def)
  then show ?thesis
    using area_bij_2(2) [OF assms] area_bij_3(2) [OF assms] BORDER by (auto elim: length2E length3E)
qed

text \<open>
  C15. Every area mapper covers its area exactly. For each of the five areas, in 2D and 3D and for
  every guard and border width that fits, \<open>getSuperCellIndex\<close> is a bijection from the block
  indices of the kernel grid \<open>getGridDim\<close> onto the supercells of the area: a kernel started on
  the area treats every supercell of it once and no other.
\<close>

theorem areaMapping_bijective:
  assumes "mapping_wf m"
  shows "bij_betw (area_getSuperCellIndex areaType m) (box (area_getGridDim areaType m)) (areaCells areaType m)"
  using assms by (rule area_bij)

theorem areaMapping_bijective_witness:
  "bij_betw (area_getSuperCellIndex BORDER \<lparr>gridSuperCells = [8, 7, 6], guardingSuperCells = 1, borderSuperCells = 1\<rparr>)
     (box [48, 2, 1]) (inner_box [8, 7, 6] 1 - inner_box [8, 7, 6] 2)"
  using areaMapping_bijective [of "\<lparr>gridSuperCells = [8, 7, 6], guardingSuperCells = 1, borderSuperCells = 1\<rparr>" BORDER]
  by (simp add: mapping_wf_def area_getGridDim_def AreaBorder3_getGridDim_def areaCells_def Let_def)

text \<open>
  The constructor of \<open>MappingDescription\<close> does not ask for enough supercells: its assertion
  compares the border with core and border together, although the comment next to it asks
  for the core alone. On an accepted grid the BORDER mapper then visits one supercell twice and
  leaves another one out.
\<close>

theorem border_overlap_accepted:
  "\<exists>m. MappingDescription_of [8, 8] [32, 24] 1 1 = Some m
     \<and> area_getSuperCellIndex BORDER m [0, 0] = area_getSuperCellIndex BORDER m [0, 1]
     \<and> [2, 1] \<in> areaCells BORDER m
     \<and> [2, 1] \<notin> area_getSuperCellIndex BORDER m ` box (area_getGridDim BORDER m)"
proof -
  let ?m = "\<lparr>gridSuperCells = [4, 3], guardingSuperCells = 1, borderSuperCells = 1\<rparr>"
  have "MappingDescription_of [8, 8] [32, 24] 1 1 = Some ?m"
    by (simp add: MappingDescription_of_def vec_simps sdiv_nonneg)
  moreover have "area_getGridDim BORDER ?m = [1, 2]"
    by (simp add: area_getGridDim_def AreaBorder2_getGridDim_def u32_def i32_def Let_def)
  moreover have "area_getSuperCellIndex BORDER ?m [0, k] = [1, 1]" if "k = 0 \<or> k = 1" for k
    using that by (auto simp: area_getSuperCellIndex_def AreaBorder2_getBlockIndex_def u32_def i32_def Let_def sdiv_nonneg)
  moreover have "[2, 1] \<in> areaCells BORDER ?m" by (simp add: areaCells_def Let_def)
  moreover have "box [1, 2] = {[0, 0], [0, 1 :: int]}" by (auto elim!: box2E)
  ultimately show ?thesis by auto
qed

end
