(* ===== verification/GridBuffers.thy ===== *)
theory GridBuffers
  imports Communicator AreaMaps
begin

text \<open>
  Models the buffers of libPMacc that hold a field on one process and exchange its guard with the neighbours
  (src/libPMacc/include/memory/buffers): the used extent of a buffer (Buffer.hpp), the geometry of an exchange
  (ExchangeIntern.hpp), and the \<open>GridBuffer\<close> with its table of exchanges and message tags (GridBuffer.hpp). Allocation is
  not modelled; an exchange is the list of cells it reads or writes, in the
  order of the linear message buffer. Shown: the cells an exchange sends lie in the border, the cells it receives
  lie in the guard on the side of the direction, received regions of different directions are disjoint, and what is
  sent in a direction has, in global coordinates, the position at which the neighbour stores it.
\<close>

section \<open>The used part of a buffer\<close>

definition getCurrentDataSpace :: "DataSpace \<Rightarrow> int \<Rightarrow> DataSpace" where
  "getCurrentDataSpace data_space currentSize =
     (let DIM = length data_space; n0 = data_space ! 0; n1 = data_space ! 1 in
      if DIM = 1 then [currentSize]
      else if DIM = 2 then
        (if currentSize \<le> n0 then [currentSize, 1] else [n0, (currentSize + n0 - 1) sdiv n0])
      else
        (if currentSize \<le> n0 then [currentSize, 1, 1]
         else if currentSize \<le> n0 * n1 then [n0, (currentSize + n0 - 1) sdiv n0, 1]
         else [n0, n1, (currentSize + n0 * n1 - 1) sdiv (n0 * n1)]))"

definition setSizeHost :: "DataSpace \<Rightarrow> int \<Rightarrow> int option" where
  "setSizeHost data_space newsize = (if newsize \<le> productOfComponents data_space then Some newsize else None)"

definition isMyDataSpaceGreaterThan :: "DataSpace \<Rightarrow> DataSpace \<Rightarrow> bool" where
  "isMyDataSpaceGreaterThan data_space other \<longleftrightarrow> \<not> isOneDimensionGreaterThan other data_space"

section \<open>Exchanges\<close>

record ExchangeIntern =
  ex_type :: nat
  ex_tag :: "32 word"
  ex_size :: DataSpace
  ex_offset :: DataSpace

definition exchangeTypeToDim :: "nat \<Rightarrow> nat \<Rightarrow> DataSpace" where
  "exchangeTypeToDim DIM exchange =
     (let exchangeMask = Mask_of exchange; result = DataSpace_default DIM;
          result = (if containsExchangeType exchangeMask LEFT \<or> containsExchangeType exchangeMask RIGHT then result[0 := 1] else result);
          result = (if DIM > 1 \<and> (containsExchangeType exchangeMask TOP \<or> containsExchangeType exchangeMask BOTTOM) then result[1 := 1] else result)
      in if DIM > 2 \<and> (containsExchangeType exchangeMask FRONT \<or> containsExchangeType exchangeMask BACK) then result[2 := 1] else result)"

definition axisOffset :: "Mask \<Rightarrow> nat \<Rightarrow> nat \<Rightarrow> AreaType \<Rightarrow> int \<Rightarrow> int \<Rightarrow> int \<Rightarrow> int" where
  "axisOffset exMask upper lower area sz border guarding =
     (if containsExchangeType exMask upper
      then sz - border - guarding + (if area = GUARD then guarding else 0)
      else border - (if area = GUARD \<and> containsExchangeType exMask lower then guarding else 0))"

definition exchangeTypeToOffset :: "nat \<Rightarrow> GridLayout \<Rightarrow> DataSpace \<Rightarrow> AreaType \<Rightarrow> DataSpace" where
  "exchangeTypeToOffset exchange memoryLayout guardingCells area =
     (let sz = getDataSpace memoryLayout; border = getGuard memoryLayout; exMask = Mask_of exchange; DIM = length sz;
          tmp_offset = DataSpace_default DIM;
          tmp_offset = (if DIM \<ge> 1 then tmp_offset[0 := axisOffset exMask RIGHT LEFT area (sz ! 0) (border ! 0) (guardingCells ! 0)] else tmp_offset);
          tmp_offset = (if DIM \<ge> 2 then tmp_offset[1 := axisOffset exMask BOTTOM TOP area (sz ! 1) (border ! 1) (guardingCells ! 1)] else tmp_offset)
      in if DIM = 3 then tmp_offset[2 := axisOffset exMask BACK FRONT area (sz ! 2) (border ! 2) (guardingCells ! 2)] else tmp_offset)"

definition ExchangeIntern_of :: "GridLayout \<Rightarrow> DataSpace \<Rightarrow> nat \<Rightarrow> 32 word \<Rightarrow> AreaType \<Rightarrow> ExchangeIntern option" where
  "ExchangeIntern_of memoryLayout guardingCells exchange communicationTag area =
     (if isOneDimensionGreaterThan guardingCells (getGuard memoryLayout) then None
      else let tmp_size = getDataSpaceWithoutGuarding memoryLayout;
               exchangeDimensions = exchangeTypeToDim (length tmp_size) exchange;
               tmp_size = map (\<lambda>d. if exchangeDimensions ! d = 1 then guardingCells ! d else tmp_size ! d) [0..<length tmp_size]
           in Some \<lparr>ex_type = exchange, ex_tag = communicationTag, ex_size = tmp_size,
                    ex_offset = exchangeTypeToOffset exchange memoryLayout guardingCells area\<rparr>)"

definition ExchangeIntern_buffer :: "DataSpace \<Rightarrow> nat \<Rightarrow> 32 word \<Rightarrow> ExchangeIntern" where
  "ExchangeIntern_buffer exchangeDataSpace exchange communicationTag =
     \<lparr>ex_type = exchange, ex_tag = communicationTag, ex_size = exchangeDataSpace, ex_offset = DataSpace_default (length exchangeDataSpace)\<rparr>"

definition exchangeCells :: "ExchangeIntern \<Rightarrow> DataSpace list" where
  "exchangeCells e = map (vec_add (ex_offset e)) (boxList (getCurrentDataSpace (ex_size e) (productOfComponents (ex_size e))))"

section \<open>The grid buffer\<close>

datatype gb_error = DifferentTags | TagUsed | ExchangeAdded | AssertionFailed | MaskError

record GridBuffer =
  gridLayout :: GridLayout
  hasOneExchange :: bool
  lastUsedCommunicationTag :: "32 word"
  sendMask :: Mask
  receiveMask :: Mask
  sendExchanges :: "nat \<rightharpoonup> ExchangeIntern"
  receiveExchanges :: "nat \<rightharpoonup> ExchangeIntern"
  maxExchange :: nat

definition GridBuffer_of :: "GridLayout \<Rightarrow> GridBuffer" where
  "GridBuffer_of layout = \<lparr>gridLayout = layout, hasOneExchange = False, lastUsedCommunicationTag = 0, sendMask = Mask_empty,
     receiveMask = Mask_empty, sendExchanges = Map.empty, receiveExchanges = Map.empty, maxExchange = 0\<rparr>"

definition isTagUniqu :: "32 word \<Rightarrow> 32 word list \<Rightarrow> bool \<times> 32 word list" where
  "isTagUniqu tag tags = (if tag \<notin> set tags then (True, tags @ [tag]) else (False, tags))"

text \<open>What the loops of \<open>addExchange\<close> and \<open>addExchangeBuffer\<close> share: \<open>build\<close> creates the two exchanges of a direction.\<close>

fun exchangeLoop ::
    "(nat \<Rightarrow> nat \<Rightarrow> 32 word \<Rightarrow> (ExchangeIntern \<times> ExchangeIntern) option) \<Rightarrow> Mask \<Rightarrow> 32 word \<Rightarrow> nat list
     \<Rightarrow> GridBuffer \<times> 32 word list \<Rightarrow> gb_error + (GridBuffer \<times> 32 word list)" where
  "exchangeLoop build sendDirs communicationTag [] (this, tags) = Inr (this, tags)"
| "exchangeLoop build sendDirs communicationTag (ex # rest) (this, tags) =
     (if isSet sendDirs ex then
        let uniqCommunicationTag = push_bit 5 communicationTag OR of_nat ex;
            (fresh, tags') = (if hasOneExchange this then (True, tags) else isTagUniqu uniqCommunicationTag tags)
        in if \<not> fresh then Inl TagUsed
           else if sendExchanges this ex \<noteq> None then Inl ExchangeAdded
           else case getMirroredExchangeType ex of
                  Inl e \<Rightarrow> Inl MaskError
                | Inr recvex \<Rightarrow>
                    (case build ex recvex uniqCommunicationTag of
                       None \<Rightarrow> Inl AssertionFailed
                     | Some (s, r) \<Rightarrow>
                         exchangeLoop build sendDirs communicationTag rest
                           (this\<lparr>hasOneExchange := True, sendExchanges := (sendExchanges this)(ex \<mapsto> s),
                                 receiveExchanges := (receiveExchanges this)(recvex \<mapsto> r),
                                 maxExchange := max (max (maxExchange this) (ex + 1)) (recvex + 1)\<rparr>, tags'))
      else exchangeLoop build sendDirs communicationTag rest (this, tags))"

definition addExchange ::
    "AreaType \<Rightarrow> Mask \<Rightarrow> DataSpace \<Rightarrow> 32 word \<Rightarrow> GridBuffer \<times> 32 word list \<Rightarrow> gb_error + (GridBuffer \<times> 32 word list)" where
  "addExchange dataPlace receive guardingCells communicationTag st =
     (case st of (this, tags) \<Rightarrow>
        if hasOneExchange this \<and> communicationTag \<noteq> lastUsedCommunicationTag this then Inl DifferentTags
        else let receiveMask' = Mask_join (receiveMask this) receive;
                 DIM = length (layout_dataSpace (gridLayout this))
             in case (getMirroredMask receiveMask', getMirroredMask receive) of
                  (Inr sendMask', Inr sendDirs) \<Rightarrow>
                    exchangeLoop
                      (\<lambda>ex recvex tag.
                         case (ExchangeIntern_of (gridLayout this) guardingCells ex tag (if dataPlace = GUARD then BORDER else GUARD),
                               ExchangeIntern_of (gridLayout this) guardingCells recvex tag (if dataPlace = GUARD then GUARD else BORDER)) of
                           (Some s, Some r) \<Rightarrow> Some (s, r) | _ \<Rightarrow> None)
                      sendDirs communicationTag [1..<6 * DIM * DIM + 9 - 12 * DIM]
                      (this\<lparr>lastUsedCommunicationTag := communicationTag, receiveMask := receiveMask', sendMask := sendMask'\<rparr>, tags)
                | _ \<Rightarrow> Inl MaskError)"

definition addExchangeBuffer ::
    "Mask \<Rightarrow> DataSpace \<Rightarrow> 32 word \<Rightarrow> GridBuffer \<times> 32 word list \<Rightarrow> gb_error + (GridBuffer \<times> 32 word list)" where
  "addExchangeBuffer receive dataSpace communicationTag st =
     (case st of (this, tags) \<Rightarrow>
        if hasOneExchange this \<and> communicationTag \<noteq> lastUsedCommunicationTag this then Inl DifferentTags
        else if productOfComponents dataSpace \<noteq> 0 then
          (case (getMirroredMask (Mask_join (receiveMask this) receive), getMirroredMask receive) of
             (Inr sendMask', Inr sendDirs) \<Rightarrow>
               exchangeLoop
                 (\<lambda>ex recvex tag. Some (ExchangeIntern_buffer dataSpace ex tag, ExchangeIntern_buffer dataSpace recvex tag))
                 sendDirs communicationTag [1..<27]
                 (this\<lparr>lastUsedCommunicationTag := communicationTag, receiveMask := Mask_join (receiveMask this) receive, sendMask := sendMask'\<rparr>, tags)
           | _ \<Rightarrow> Inl MaskError)
        else Inr (this\<lparr>lastUsedCommunicationTag := communicationTag\<rparr>, tags))"

definition getSendMask :: "Mask \<Rightarrow> GridBuffer \<Rightarrow> Mask" where
  "getSendMask commMask this = Mask_intersect commMask (sendMask this)"

definition getReceiveMask :: "Mask \<Rightarrow> GridBuffer \<Rightarrow> Mask" where
  "getReceiveMask commMask this = Mask_intersect commMask (receiveMask this)"

definition hasSendExchange :: "Mask \<Rightarrow> GridBuffer \<Rightarrow> nat \<Rightarrow> bool" where
  "hasSendExchange commMask this ex \<longleftrightarrow> sendExchanges this ex \<noteq> None \<and> isSet (getSendMask commMask this) ex"

definition hasReceiveExchange :: "Mask \<Rightarrow> GridBuffer \<Rightarrow> nat \<Rightarrow> bool" where
  "hasReceiveExchange commMask this ex \<longleftrightarrow> receiveExchanges this ex \<noteq> None \<and> isSet (getReceiveMask commMask this) ex"

section \<open>The used part is the whole buffer when it is full\<close>

lemma boxList_zero: "0 \<in> set n \<Longrightarrow> boxList n = []"
  by (induction n) auto

lemma sdiv_pos: "0 \<le> a \<Longrightarrow> 0 < b \<Longrightarrow> a sdiv b = a div b" for a b :: int
  by (rule sdiv_nonneg) auto

lemma fill_exact: "0 < a \<Longrightarrow> 0 < b \<Longrightarrow> (a * b + a - 1) sdiv a = b" for a b :: int
proof -
  assume ab: "0 < a" "0 < b"
  have "(a * b + a - 1) div a = b + (a - 1) div a"
    using ab div_mult_self1 [of a "a - 1" b] by (simp add: algebra_simps)
  moreover have "0 < a * b" using ab by simp
  then have "0 \<le> a * b + a - 1" using ab by linarith
  ultimately show ?thesis using ab by (simp add: sdiv_pos div_pos_pos_trivial)
qed

lemma full_buffer:
  assumes "length ds = 2 \<or> length ds = 3" "\<forall>n \<in> set ds. 0 \<le> n"
  shows "boxList (getCurrentDataSpace ds (productOfComponents ds)) = boxList ds"
  using assms(1)
proof
  assume "length ds = 2"
  then obtain a b where ds: "ds = [a, b]" by (rule length2E)
  have nn: "0 \<le> a" "0 \<le> b" using assms(2) ds by auto
  consider "a = 0" | "b = 0" | "0 < a" "0 < b" using nn by linarith
  then show ?thesis
  proof cases
    case 3
    have "a * b \<le> a \<longleftrightarrow> b = 1" using 3 by (auto simp: mult_le_cancel_left)
    then show ?thesis using 3 fill_exact [of a b] by (auto simp: ds getCurrentDataSpace_def productOfComponents_def Let_def)
  qed (use nn in \<open>simp_all add: ds getCurrentDataSpace_def productOfComponents_def Let_def boxList_zero\<close>)
next
  assume "length ds = 3"
  then obtain a b c where ds: "ds = [a, b, c]" by (rule length3E)
  have nn: "0 \<le> a" "0 \<le> b" "0 \<le> c" using assms(2) ds by auto
  consider "a = 0 \<or> b = 0 \<or> c = 0" | "0 < a" "0 < b" "0 < c" using nn by linarith
  then show ?thesis
  proof cases
    case 1
    then have "productOfComponents ds = 0" "0 \<in> set ds" by (auto simp: ds productOfComponents_def)
    then show ?thesis using nn by (simp add: boxList_zero) (simp add: ds getCurrentDataSpace_def Let_def)
  next
    case 2
    have "0 < b * c" using 2 by simp
    moreover have "a * b * c \<le> a \<longleftrightarrow> b * c \<le> 1" using 2 mult_le_cancel_left_pos [of a "b * c" 1] by (simp add: mult.assoc)
    ultimately have "a * b * c \<le> a \<longleftrightarrow> b * c = 1" by linarith
    moreover have "b * c = 1 \<longleftrightarrow> b = 1 \<and> c = 1" using 2 by (auto simp: zmult_eq_1_iff)
    moreover have "a * b * c \<le> a * b \<longleftrightarrow> c = 1" using 2 mult_le_cancel_left_pos [of "a * b" c 1] by auto
    ultimately show ?thesis using 2 fill_exact [of a b] fill_exact [of "a * b" c]
      by (auto simp: ds getCurrentDataSpace_def productOfComponents_def Let_def)
  qed
qed

section \<open>The geometry of an exchange\<close>

definition layout_ok :: "GridLayout \<Rightarrow> bool" where
  "layout_ok l \<longleftrightarrow> (length (layout_dataSpace l) = 2 \<or> length (layout_dataSpace l) = 3)
     \<and> length (layout_guard l) = length (layout_dataSpace l)
     \<and> (\<forall>d < length (layout_dataSpace l). 0 \<le> layout_guard l ! d \<and> 0 \<le> layout_dataSpace l ! d)"

definition guarding_ok :: "GridLayout \<Rightarrow> DataSpace \<Rightarrow> bool" where
  "guarding_ok l gc \<longleftrightarrow> length gc = length (layout_dataSpace l)
     \<and> (\<forall>d < length gc. 0 \<le> gc ! d \<and> gc ! d \<le> layout_dataSpace l ! d)"

lemma contains_digit:
  assumes "0 < ex" "ex < 27" "n = 2 \<or> n = 3"
  shows "containsExchangeType (Mask_of ex) RIGHT \<longleftrightarrow> relativeDigits n ex ! 0 = 1"
    "containsExchangeType (Mask_of ex) LEFT \<longleftrightarrow> relativeDigits n ex ! 0 = - 1"
    "containsExchangeType (Mask_of ex) BOTTOM \<longleftrightarrow> relativeDigits n ex ! 1 = 1"
    "containsExchangeType (Mask_of ex) TOP \<longleftrightarrow> relativeDigits n ex ! 1 = - 1"
    "n = 3 \<Longrightarrow> containsExchangeType (Mask_of ex) BACK \<longleftrightarrow> relativeDigits n ex ! 2 = 1"
    "n = 3 \<Longrightarrow> containsExchangeType (Mask_of ex) FRONT \<longleftrightarrow> relativeDigits n ex ! 2 = - 1"
  using assms(3) unfolding containsExchangeType_single [OF assms(1,2)]
  by (auto simp: relativeDigits2 relativeDigits3 Let_def split: if_splits simp del: relativeDigits.simps)

lemma digit_range:
  assumes "n = 2 \<or> n = 3" "d < n"
  shows "relativeDigits n ex ! d \<in> {- 1, 0, 1}"
proof -
  have "relativeDigits n ex ! d \<in> set (relativeDigits n ex)" using assms by (intro nth_mem) simp
  then show ?thesis using relativeDigits_unit [of n ex] by (auto simp: unit_offsets_def)
qed

lemma exchangeTypeToOffset_nth:
  assumes "layout_ok l" "0 < ex" "ex < 27" "d < length (layout_dataSpace l)"
  defines "n \<equiv> length (layout_dataSpace l)"
  shows "length (exchangeTypeToOffset ex l gc area) = n"
    and "exchangeTypeToOffset ex l gc area ! d =
      (if relativeDigits n ex ! d = 1 then layout_dataSpace l ! d + layout_guard l ! d - gc ! d + (if area = GUARD then gc ! d else 0)
       else layout_guard l ! d - (if area = GUARD \<and> relativeDigits n ex ! d = - 1 then gc ! d else 0))"
proof -
  have n: "n = 2 \<or> n = 3" "length (layout_guard l) = n" using assms by (simp_all add: layout_ok_def)
  note c = contains_digit [OF assms(2,3) n(1)]
  have sz: "length (getDataSpace l) = n" "\<And>k. k < n \<Longrightarrow> getDataSpace l ! k = layout_dataSpace l ! k + 2 * layout_guard l ! k"
    using n by (simp_all add: getDataSpace_def vec_add_def vec_add_assign_def n_def)
  show "length (exchangeTypeToOffset ex l gc area) = n"
    by (simp add: exchangeTypeToOffset_def Let_def sz DataSpace_default_def)
  have "d = 0 \<or> d = 1 \<or> d = 2 \<and> n = 3" using assms(4) n by (auto simp: n_def)
  then show "exchangeTypeToOffset ex l gc area ! d =
      (if relativeDigits n ex ! d = 1 then layout_dataSpace l ! d + layout_guard l ! d - gc ! d + (if area = GUARD then gc ! d else 0)
       else layout_guard l ! d - (if area = GUARD \<and> relativeDigits n ex ! d = - 1 then gc ! d else 0))"
    using n(1) sz c
    by (elim disjE conjE) (simp_all add: exchangeTypeToOffset_def Let_def DataSpace_default_def axisOffset_def getGuard_def)
qed

lemma exchangeTypeToDim_nth:
  assumes "n = 2 \<or> n = 3" "0 < ex" "ex < 27" "d < n"
  shows "exchangeTypeToDim n ex ! d = 1 \<longleftrightarrow> relativeDigits n ex ! d \<noteq> 0"
proof -
  note c = contains_digit [OF assms(2,3,1)]
  have "d = 0 \<or> d = 1 \<or> d = 2 \<and> n = 3" using assms by auto
  then show ?thesis using assms(1) digit_range [OF assms(1), of d ex] assms(4)
    by (elim disjE conjE) (auto simp: exchangeTypeToDim_def Let_def DataSpace_default_def c)
qed

lemma ExchangeIntern_of_nth:
  assumes "layout_ok l" "0 < ex" "ex < 27" "ExchangeIntern_of l gc ex tag area = Some e"
  defines "n \<equiv> length (layout_dataSpace l)"
  shows "length (ex_size e) = n" "length (ex_offset e) = n" "ex_offset e = exchangeTypeToOffset ex l gc area"
    and "d < n \<Longrightarrow> ex_size e ! d = (if relativeDigits n ex ! d \<noteq> 0 then gc ! d else layout_dataSpace l ! d)"
proof -
  have n: "n = 2 \<or> n = 3" using assms by (simp add: layout_ok_def)
  have e: "e = \<lparr>ex_type = ex, ex_tag = tag,
      ex_size = map (\<lambda>d. if exchangeTypeToDim n ex ! d = 1 then gc ! d else layout_dataSpace l ! d) [0..<n],
      ex_offset = exchangeTypeToOffset ex l gc area\<rparr>"
    using assms(4) by (simp add: ExchangeIntern_of_def getDataSpaceWithoutGuarding_def Let_def n_def split: if_splits)
  show "length (ex_size e) = n" "length (ex_offset e) = n" "ex_offset e = exchangeTypeToOffset ex l gc area"
    using e n exchangeTypeToOffset_nth(1) [OF assms(1-3), of 0] by (force simp: n_def)+
  show "ex_size e ! d = (if relativeDigits n ex ! d \<noteq> 0 then gc ! d else layout_dataSpace l ! d)" if "d < n"
    using e exchangeTypeToDim_nth [OF n assms(2,3) that] that by simp
qed

lemma exchangeCells_list:
  assumes "layout_ok l" "guarding_ok l gc" "0 < ex" "ex < 27" "ExchangeIntern_of l gc ex tag area = Some e"
  shows "exchangeCells e = map (vec_add (ex_offset e)) (boxList (ex_size e))"
proof -
  note s = ExchangeIntern_of_nth [OF assms(1,3-5)]
  have "\<forall>n \<in> set (ex_size e). 0 \<le> n"
    using s(1,4) assms(1,2) by (fastforce simp: in_set_conv_nth layout_ok_def guarding_ok_def)
  then show ?thesis using full_buffer [of "ex_size e"] s(1) assms(1) by (simp add: exchangeCells_def layout_ok_def)
qed

lemma vec_add_inj: "length a = length p \<Longrightarrow> length a = length q \<Longrightarrow> vec_add a p = vec_add a q \<Longrightarrow> p = q" for a p q :: "int list"
  by (auto simp: vec_add_def vec_add_assign_def list_eq_iff_nth_eq)

lemma set_shifted_box:
  fixes off n :: "int list"
  assumes "length off = length n"
  shows "c \<in> vec_add off ` box n \<longleftrightarrow> length c = length n \<and> (\<forall>d < length n. off ! d \<le> c ! d \<and> c ! d < off ! d + n ! d)"
proof
  assume "c \<in> vec_add off ` box n"
  then show "length c = length n \<and> (\<forall>d < length n. off ! d \<le> c ! d \<and> c ! d < off ! d + n ! d)"
    using assms by (auto simp: box_def vec_add_def vec_add_assign_def)
next
  assume c: "length c = length n \<and> (\<forall>d < length n. off ! d \<le> c ! d \<and> c ! d < off ! d + n ! d)"
  then have "c = vec_add off (vec_sub c off)" "vec_sub c off \<in> box n"
    using assms by (auto simp: box_def vec_add_def vec_add_assign_def vec_sub_def vec_sub_assign_def list_eq_iff_nth_eq)
  then show "c \<in> vec_add off ` box n" by blast
qed

text \<open>Where a cell of the local grid lies: before, in or behind the domain along each axis.\<close>

definition cellSide :: "GridLayout \<Rightarrow> DataSpace \<Rightarrow> DataSpace" where
  "cellSide l c = map (\<lambda>d. if c ! d < layout_guard l ! d then - 1
     else if c ! d < layout_guard l ! d + layout_dataSpace l ! d then 0 else 1) [0..<length (layout_dataSpace l)]"

lemma exchangeCells_facts:
  assumes "layout_ok l" "guarding_ok l gc" "0 < ex" "ex < 27" "ExchangeIntern_of l gc ex tag area = Some e"
  defines "n \<equiv> length (layout_dataSpace l)"
  shows "distinct (exchangeCells e)"
    and "c \<in> set (exchangeCells e) \<Longrightarrow> length c = n"
    and "area = GUARD \<Longrightarrow> c \<in> set (exchangeCells e) \<Longrightarrow> cellSide l c = relativeDigits n ex"
    and "area = BORDER \<Longrightarrow> c \<in> set (exchangeCells e) \<Longrightarrow> cellSide l c = replicate n 0"
proof -
  have n: "n = 2 \<or> n = 3" using assms(1) by (simp add: layout_ok_def n_def)
  note s = ExchangeIntern_of_nth [OF assms(1,3-5), folded n_def]
  note cells = exchangeCells_list [OF assms(1-5)]
  have len: "length (ex_offset e) = length (ex_size e)" using s by simp
  show "distinct (exchangeCells e)"
    using vec_add_inj [of "ex_offset e"] s(1,2)
    by (auto simp: cells distinct_map distinct_boxList set_boxList inj_on_def box_def)
  have mem: "c \<in> set (exchangeCells e) \<longleftrightarrow> length c = n \<and> (\<forall>d < n. ex_offset e ! d \<le> c ! d \<and> c ! d < ex_offset e ! d + ex_size e ! d)" for c
    using set_shifted_box [OF len] s(1) by (simp add: cells set_boxList)
  show "c \<in> set (exchangeCells e) \<Longrightarrow> length c = n" for c by (simp add: mem)
  have o: "ex_offset e ! d = (if relativeDigits n ex ! d = 1 then layout_dataSpace l ! d + layout_guard l ! d - gc ! d + (if area = GUARD then gc ! d else 0)
       else layout_guard l ! d - (if area = GUARD \<and> relativeDigits n ex ! d = - 1 then gc ! d else 0))" if "d < n" for d
    using exchangeTypeToOffset_nth(2) [OF assms(1,3,4), of d gc area] that s(3) by (simp add: n_def)
  have b: "0 \<le> gc ! d \<and> gc ! d \<le> layout_dataSpace l ! d \<and> 0 \<le> layout_guard l ! d" if "d < n" for d
    using assms(1,2) that by (simp add: layout_ok_def guarding_ok_def n_def)
  show "cellSide l c = relativeDigits n ex" if "area = GUARD" "c \<in> set (exchangeCells e)" for c
  proof (rule nth_equalityI)
    show "length (cellSide l c) = length (relativeDigits n ex)" by (simp add: cellSide_def n_def)
    fix d assume "d < length (cellSide l c)"
    then have d: "d < n" by (simp add: cellSide_def n_def)
    show "cellSide l c ! d = relativeDigits n ex ! d"
      using that d o [OF d] s(4) [OF d] b [OF d] digit_range [OF n d, of ex] mem [of c] by (auto simp: cellSide_def n_def)
  qed
  show "cellSide l c = replicate n 0" if "area = BORDER" "c \<in> set (exchangeCells e)" for c
  proof (rule nth_equalityI)
    show "length (cellSide l c) = length (replicate n (0 :: int))" by (simp add: cellSide_def n_def)
    fix d assume "d < length (cellSide l c)"
    then have d: "d < n" by (simp add: cellSide_def n_def)
    show "cellSide l c ! d = replicate n 0 ! d"
      using that d o [OF d] s(4) [OF d] b [OF d] digit_range [OF n d, of ex] mem [of c] by (auto simp: cellSide_def n_def split: if_splits)
  qed
qed

text \<open>What is sent towards \<open>mirror ex\<close> arrives one domain size further in direction \<open>ex\<close>.\<close>

lemma exchangeCells_shift:
  assumes "layout_ok l" "guarding_ok l gc" "0 < ex" "ex < 3 ^ length (layout_dataSpace l)"
    and "ExchangeIntern_of l gc (mirror_code ex) tag BORDER = Some s" "ExchangeIntern_of l gc ex tag GUARD = Some r"
  defines "n \<equiv> length (layout_dataSpace l)"
  shows "exchangeCells r = map (vec_add (vec_mul (relativeDigits n ex) (layout_dataSpace l))) (exchangeCells s)"
proof -
  have n: "n = 2 \<or> n = 3" using assms(1) by (simp add: layout_ok_def n_def)
  have ex27: "ex < 27" using assms(4) n by (auto simp: n_def)
  have m: "0 < mirror_code ex" "mirror_code ex < 27" "relativeDigits n (mirror_code ex) = vec_uminus (relativeDigits n ex)"
    using mirror_code_pos [OF assms(3) ex27] mirror_code_bound mirror_relative [OF n] assms(4) by (simp_all add: n_def)
  note S = ExchangeIntern_of_nth [OF assms(1) m(1,2) assms(5), folded n_def]
  note R = ExchangeIntern_of_nth [OF assms(1,3) ex27 assms(6), folded n_def]
  have dig: "relativeDigits n (mirror_code ex) ! d = - relativeDigits n ex ! d" if "d < n" for d
    using m(3) that by (simp add: vec_uminus_def)
  have sz: "ex_size r = ex_size s"
    using S(1,4) R(1,4) dig by (intro nth_equalityI) auto
  have off: "ex_offset r = vec_add (vec_mul (relativeDigits n ex) (layout_dataSpace l)) (ex_offset s)"
  proof (rule nth_equalityI)
    show "length (ex_offset r) = length (vec_add (vec_mul (relativeDigits n ex) (layout_dataSpace l)) (ex_offset s))"
      using S R by (simp add: vec_add_def vec_add_assign_def vec_mul_def vec_mul_assign_def n_def)
    fix d assume "d < length (ex_offset r)"
    then have d: "d < n" using R by simp
    show "ex_offset r ! d = vec_add (vec_mul (relativeDigits n ex) (layout_dataSpace l)) (ex_offset s) ! d"
      using d S(2,3) R(3) dig [OF d] digit_range [OF n d, of ex]
        exchangeTypeToOffset_nth(2) [OF assms(1,3) ex27, of d gc GUARD] exchangeTypeToOffset_nth(2) [OF assms(1) m(1,2), of d gc BORDER]
      by (auto simp: vec_add_def vec_add_assign_def vec_mul_def vec_mul_assign_def n_def [symmetric])
  qed
  have "vec_add (vec_add a b) c = vec_add a (vec_add b c)" for a b c :: "int list"
    by (auto simp: vec_add_def vec_add_assign_def list_eq_iff_nth_eq)
  then show ?thesis
    unfolding exchangeCells_list [OF assms(1-3) ex27 assms(6)] exchangeCells_list [OF assms(1,2) m(1,2) assms(5)]
    by (simp add: sz off)
qed

section \<open>Grid buffers built by \<open>addExchange\<close>\<close>

abbreviation uniqTag :: "32 word \<Rightarrow> nat \<Rightarrow> 32 word" where
  "uniqTag tag ex \<equiv> push_bit 5 tag OR of_nat ex"

definition pairedExchange :: "GridBuffer \<Rightarrow> nat \<Rightarrow> ExchangeIntern \<Rightarrow> bool" where
  "pairedExchange gb ex s \<longleftrightarrow> isSet (sendMask gb) ex \<and> isSet (receiveMask gb) (mirror_code ex)
     \<and> hasOneExchange gb \<and> ex < maxExchange gb \<and> mirror_code ex < maxExchange gb
     \<and> (\<exists>gc r. guarding_ok (gridLayout gb) gc
          \<and> ExchangeIntern_of (gridLayout gb) gc ex (uniqTag (lastUsedCommunicationTag gb) ex) BORDER = Some s
          \<and> receiveExchanges gb (mirror_code ex) = Some r
          \<and> ExchangeIntern_of (gridLayout gb) gc (mirror_code ex) (uniqTag (lastUsedCommunicationTag gb) ex) GUARD = Some r)"

definition gb_inv :: "GridBuffer \<Rightarrow> bool" where
  "gb_inv gb \<longleftrightarrow> layout_ok (gridLayout gb) \<and> maxExchange gb \<le> 27
     \<and> (\<forall>ex s. sendExchanges gb ex = Some s \<longrightarrow> 0 < ex \<and> ex < 3 ^ length (layout_dataSpace (gridLayout gb)) \<and> pairedExchange gb ex s)
     \<and> (\<forall>ex r. receiveExchanges gb ex = Some r \<longrightarrow>
          0 < ex \<and> ex < 3 ^ length (layout_dataSpace (gridLayout gb)) \<and> sendExchanges gb (mirror_code ex) \<noteq> None)"

lemma gb_inv_new: "layout_ok l \<Longrightarrow> gb_inv (GridBuffer_of l)"
  by (simp add: gb_inv_def GridBuffer_of_def)

lemma mirror_bounds:
  assumes "layout_ok l" "0 < ex" "ex < 3 ^ length (layout_dataSpace l)"
  shows "ex < 27" "0 < mirror_code ex" "mirror_code ex < 3 ^ length (layout_dataSpace l)" "mirror_code (mirror_code ex) = ex"
proof -
  have n: "length (layout_dataSpace l) = 2 \<or> length (layout_dataSpace l) = 3" using assms(1) by (simp add: layout_ok_def)
  then show ex: "ex < 27" using assms(3) by auto
  show "0 < mirror_code ex" "mirror_code (mirror_code ex) = ex" using mirror_code_pos mirror_code_invol assms(2) ex by blast+
  show "mirror_code ex < 3 ^ length (layout_dataSpace l)" using mirror_relative [OF n assms(3)] by simp
qed

definition guardExchanges :: "GridLayout \<Rightarrow> DataSpace \<Rightarrow> nat \<Rightarrow> nat \<Rightarrow> 32 word \<Rightarrow> (ExchangeIntern \<times> ExchangeIntern) option" where
  "guardExchanges l gc ex recvex tag =
     (case (ExchangeIntern_of l gc ex tag BORDER, ExchangeIntern_of l gc recvex tag GUARD) of
        (Some s, Some r) \<Rightarrow> Some (s, r) | _ \<Rightarrow> None)"

lemma gb_inv_extend:
  assumes "gb_inv gb" "guarding_ok (gridLayout gb) gc" "0 < ex" "ex < 3 ^ length (layout_dataSpace (gridLayout gb))"
    and "sendExchanges gb ex = None"
    and "guardExchanges (gridLayout gb) gc ex (mirror_code ex) (uniqTag (lastUsedCommunicationTag gb) ex) = Some (s, r)"
    and "isSet (sendMask gb) ex" "isSet (receiveMask gb) (mirror_code ex)"
    and "maxExchange gb \<le> k" "ex < k" "mirror_code ex < k" "k \<le> 27"
  shows "gb_inv (gb\<lparr>hasOneExchange := True, sendExchanges := (sendExchanges gb)(ex \<mapsto> s),
    receiveExchanges := (receiveExchanges gb)(mirror_code ex \<mapsto> r), maxExchange := k\<rparr>)"
proof -
  have l: "layout_ok (gridLayout gb)" using assms(1) by (simp add: gb_inv_def)
  note m = mirror_bounds [OF l assms(3,4)]
  let ?tag = "uniqTag (lastUsedCommunicationTag gb) ex"
  have sr: "ExchangeIntern_of (gridLayout gb) gc ex ?tag BORDER = Some s" "ExchangeIntern_of (gridLayout gb) gc (mirror_code ex) ?tag GUARD = Some r"
    using assms(6) by (auto simp: guardExchanges_def split: option.splits)
  have other: "mirror_code ex' \<noteq> mirror_code ex" if "ex' \<noteq> ex" "sendExchanges gb ex' = Some s'" for ex' s'
  proof -
    have "0 < ex'" "ex' < 3 ^ length (layout_dataSpace (gridLayout gb))" using assms(1) that(2) by (auto simp: gb_inv_def)
    then show ?thesis using mirror_bounds(4) [OF l] m(4) that(1) by metis
  qed
  show ?thesis
    using assms(1-5,7-12) sr m other unfolding gb_inv_def pairedExchange_def by (fastforce split: if_splits)
qed

lemma exchangeLoop_inv:
  assumes "gb_inv gb" "guarding_ok (gridLayout gb) gc" "set exs \<subseteq> {1..<3 ^ length (layout_dataSpace (gridLayout gb))}"
    and "\<forall>ex \<in> set exs. isSet dirs ex \<longrightarrow> isSet (sendMask gb) ex \<and> isSet (receiveMask gb) (mirror_code ex)"
    and "exchangeLoop (guardExchanges (gridLayout gb) gc) dirs (lastUsedCommunicationTag gb) exs (gb, tags) = Inr (gb', tags')"
  shows "gb_inv gb' \<and> gridLayout gb' = gridLayout gb \<and> lastUsedCommunicationTag gb' = lastUsedCommunicationTag gb \<and> sendMask gb' = sendMask gb \<and> receiveMask gb' = receiveMask gb
    \<and> dom (sendExchanges gb') = dom (sendExchanges gb) \<union> {ex \<in> set exs. isSet dirs ex}"
  using assms
proof (induction exs arbitrary: gb tags)
  case (Cons ex exs)
  show ?case
  proof (cases "isSet dirs ex")
    case True
    let ?l = "gridLayout gb" and ?t = "lastUsedCommunicationTag gb"
    have l: "layout_ok ?l" using Cons.prems(1) by (simp add: gb_inv_def)
    have ex: "0 < ex" "ex < 3 ^ length (layout_dataSpace ?l)" using Cons.prems(3) by auto
    note m = mirror_bounds [OF l ex]
    obtain s r tags1 where b: "sendExchanges gb ex = None" "guardExchanges ?l gc ex (mirror_code ex) (uniqTag ?t ex) = Some (s, r)"
      and loop: "exchangeLoop (guardExchanges ?l gc) dirs ?t exs
          (gb\<lparr>hasOneExchange := True, sendExchanges := (sendExchanges gb)(ex \<mapsto> s),
             receiveExchanges := (receiveExchanges gb)(mirror_code ex \<mapsto> r),
             maxExchange := max (max (maxExchange gb) (ex + 1)) (mirror_code ex + 1)\<rparr>, tags1) = Inr (gb', tags')"
      using Cons.prems(5) True
      by (simp add: getMirroredExchangeType_eq [OF m(1)] Let_def isTagUniqu_def split: if_splits option.splits prod.splits)
    let ?g = "gb\<lparr>hasOneExchange := True, sendExchanges := (sendExchanges gb)(ex \<mapsto> s),
             receiveExchanges := (receiveExchanges gb)(mirror_code ex \<mapsto> r),
             maxExchange := max (max (maxExchange gb) (ex + 1)) (mirror_code ex + 1)\<rparr>"
    have "maxExchange gb \<le> 27" using Cons.prems(1) by (simp add: gb_inv_def)
    then have "gb_inv ?g" using gb_inv_extend [OF Cons.prems(1,2) ex b] Cons.prems(4) True m(1) mirror_code_bound [of ex] by simp
    moreover have "guarding_ok (gridLayout ?g) gc" "set exs \<subseteq> {1..<3 ^ length (layout_dataSpace (gridLayout ?g))}"
      "\<forall>ex \<in> set exs. isSet dirs ex \<longrightarrow> isSet (sendMask ?g) ex \<and> isSet (receiveMask ?g) (mirror_code ex)"
      using Cons.prems(2-4) by auto
    moreover have "exchangeLoop (guardExchanges (gridLayout ?g) gc) dirs (lastUsedCommunicationTag ?g) exs (?g, tags1) = Inr (gb', tags')" using loop by simp
    ultimately have "gb_inv gb' \<and> gridLayout gb' = gridLayout ?g \<and> lastUsedCommunicationTag gb' = lastUsedCommunicationTag ?g \<and> sendMask gb' = sendMask ?g \<and> receiveMask gb' = receiveMask ?g
        \<and> dom (sendExchanges gb') = dom (sendExchanges ?g) \<union> {ex \<in> set exs. isSet dirs ex}"
      by (rule Cons.IH)
    moreover have "dom (sendExchanges ?g) = insert ex (dom (sendExchanges gb))" by (simp del: fun_upd_apply)
    ultimately show ?thesis using True by (auto simp del: fun_upd_apply)
  next
    case False
    then show ?thesis using Cons.IH [OF Cons.prems(1,2)] Cons.prems(3-5) by auto
  qed
qed simp

lemma addExchange_inv:
  assumes "gb_inv gb" "guarding_ok (gridLayout gb) gc" "addExchange GUARD receive gc tag (gb, tags) = Inr (gb', tags')"
  shows "gb_inv gb' \<and> gridLayout gb' = gridLayout gb
    \<and> dom (sendExchanges gb') = dom (sendExchanges gb)
        \<union> {ex. 0 < ex \<and> ex < 3 ^ length (layout_dataSpace (gridLayout gb)) \<and> isSet receive (mirror_code ex)}"
proof -
  let ?l = "gridLayout gb" let ?n = "length (layout_dataSpace ?l)"
  have l: "layout_ok ?l" using assms(1) by (simp add: gb_inv_def)
  have n: "6 * ?n * ?n + 9 - 12 * ?n = 3 ^ ?n" "?n = 2 \<or> ?n = 3" using l by (auto simp: layout_ok_def)
  obtain sm where sm: "getMirroredMask (Mask_join (receiveMask gb) receive) = Inr sm"
      "\<And>j. isSet sm j \<longleftrightarrow> (\<exists>i. 1 \<le> i \<and> i < 27 \<and> isSet (Mask_join (receiveMask gb) receive) i \<and> j = mirror_code i)"
    using getMirroredMask_spec by blast
  obtain dirs where dirs: "getMirroredMask receive = Inr dirs"
      "\<And>j. isSet dirs j \<longleftrightarrow> (\<exists>i. 1 \<le> i \<and> i < 27 \<and> isSet receive i \<and> j = mirror_code i)"
    using getMirroredMask_spec by blast
  let ?g = "gb\<lparr>lastUsedCommunicationTag := tag, receiveMask := Mask_join (receiveMask gb) receive, sendMask := sm\<rparr>"
  have tag: "hasOneExchange gb \<Longrightarrow> lastUsedCommunicationTag gb = tag"
    using assms(3) by (auto simp: addExchange_def split: if_splits)
  have loop: "exchangeLoop (guardExchanges ?l gc) dirs tag [1..<3 ^ ?n] (?g, tags) = Inr (gb', tags')"
    using assms(3) by (simp add: addExchange_def sm(1) dirs(1) Let_def n(1) guardExchanges_def [abs_def] split: if_splits)
  have dir: "isSet dirs ex \<longleftrightarrow> isSet receive (mirror_code ex)" if "0 < ex" "ex < 3 ^ ?n" for ex
    using dirs(2) [of ex] mirror_bounds [OF l that] mirror_code_invol mirror_code_bound [of ex] by (metis One_nat_def Suc_leI)
  have "gb_inv ?g"
  proof -
    have "isSet sm ex" if "sendExchanges gb ex = Some s" for ex s
    proof -
      have "0 < ex" "ex < 3 ^ ?n" "isSet (receiveMask gb) (mirror_code ex)" using assms(1) that by (auto simp: gb_inv_def pairedExchange_def)
      then show ?thesis using sm(2) [of ex] mirror_bounds [OF l, of ex] mirror_code_bound [of ex]
        by (metis One_nat_def Suc_leI isSet_join)
    qed
    then show ?thesis using assms(1) tag by (fastforce simp: gb_inv_def pairedExchange_def)
  qed
  moreover have "\<forall>ex \<in> set [1..<3 ^ ?n]. isSet dirs ex \<longrightarrow> isSet (sendMask ?g) ex \<and> isSet (receiveMask ?g) (mirror_code ex)"
  proof (intro ballI impI)
    fix ex assume ex: "ex \<in> set [1..<3 ^ ?n]" "isSet dirs ex"
    then have r: "isSet receive (mirror_code ex)" "0 < ex" "ex < 3 ^ ?n" using dir by auto
    have "isSet sm ex" using sm(2) [of ex] mirror_bounds [OF l r(2,3)] mirror_code_bound [of ex] r(1)
      by (metis One_nat_def Suc_leI isSet_join)
    with r(1) show "isSet (sendMask ?g) ex \<and> isSet (receiveMask ?g) (mirror_code ex)" by simp
  qed
  ultimately have "gb_inv gb' \<and> gridLayout gb' = ?l \<and> dom (sendExchanges gb') = dom (sendExchanges gb) \<union> {ex \<in> set [1..<3 ^ ?n]. isSet dirs ex}"
    using exchangeLoop_inv [of ?g gc "[1..<3 ^ ?n]" dirs tags gb' tags'] loop assms(2) by auto
  moreover have "{ex \<in> set [1..<3 ^ ?n]. isSet dirs ex} = {ex. 0 < ex \<and> ex < 3 ^ ?n \<and> isSet receive (mirror_code ex)}"
    using dir by auto
  ultimately show ?thesis by simp
qed

section \<open>What the check of the tags sees\<close>

definition firstSend :: "nat \<Rightarrow> Mask \<Rightarrow> nat option" where
  "firstSend n receive = find (\<lambda>ex. isSet receive (mirror_code ex)) [1..<3 ^ n]"

lemma uniqTag_low: "ex < 32 \<Longrightarrow> take_bit 5 (uniqTag tag ex) = (of_nat ex :: 32 word)"
  by (simp add: take_bit_or take_bit_push_bit take_bit_nat_eq_self flip: of_nat_take_bit)

lemma uniqTag_inj: "a < 27 \<Longrightarrow> b < 27 \<Longrightarrow> uniqTag tag a = uniqTag tag b \<Longrightarrow> a = b"
  using uniqTag_low [of a tag] uniqTag_low [of b tag] by (auto simp: word_of_nat_eq_iff take_bit_nat_eq_self)

lemma firstSend_bound:
  assumes "layout_ok l" "firstSend (length (layout_dataSpace l)) receive = Some a"
  shows "a < 27"
  using assms mirror_bounds(1) [OF assms(1), of a] by (auto simp: firstSend_def find_Some_iff)

lemma exchangeLoop_succeeds:
  assumes "hasOneExchange gb" "distinct exs"
    and "\<forall>ex \<in> set exs. isSet dirs ex \<longrightarrow> ex < 27 \<and> sendExchanges gb ex = None \<and> build ex (mirror_code ex) (uniqTag tag ex) \<noteq> None"
  shows "\<exists>gb'. exchangeLoop build dirs tag exs (gb, tags) = Inr (gb', tags)
    \<and> (\<forall>ex \<in> set exs. isSet dirs ex \<longrightarrow> sendExchanges gb' ex = map_option fst (build ex (mirror_code ex) (uniqTag tag ex))
        \<and> receiveExchanges gb' (mirror_code ex) = map_option snd (build ex (mirror_code ex) (uniqTag tag ex)))
    \<and> (\<forall>ex. ex \<notin> set exs \<longrightarrow> sendExchanges gb' ex = sendExchanges gb ex)
    \<and> (\<forall>x. x \<notin> mirror_code ` {ex \<in> set exs. isSet dirs ex} \<longrightarrow> receiveExchanges gb' x = receiveExchanges gb x)"
  using assms
proof (induction exs arbitrary: gb)
  case (Cons ex exs)
  show ?case
  proof (cases "isSet dirs ex")
    case True
    then obtain s r where b: "build ex (mirror_code ex) (uniqTag tag ex) = Some (s, r)" "sendExchanges gb ex = None" "ex < 27"
      using Cons.prems(3) by auto
    let ?g = "gb\<lparr>hasOneExchange := True, sendExchanges := (sendExchanges gb)(ex \<mapsto> s),
             receiveExchanges := (receiveExchanges gb)(mirror_code ex \<mapsto> r),
             maxExchange := max (max (maxExchange gb) (ex + 1)) (mirror_code ex + 1)\<rparr>"
    have step: "exchangeLoop build dirs tag (ex # exs) (gb, tags) = exchangeLoop build dirs tag exs (?g, tags)"
      using True b Cons.prems(1) by (simp add: getMirroredExchangeType_eq)
    have ok: "distinct exs" "\<forall>ex' \<in> set exs. isSet dirs ex' \<longrightarrow> ex' < 27 \<and> sendExchanges ?g ex' = None \<and> build ex' (mirror_code ex') (uniqTag tag ex') \<noteq> None"
      using Cons.prems(2,3) by auto
    from Cons.IH [OF _ this] obtain gb' where gb': "exchangeLoop build dirs tag exs (?g, tags) = Inr (gb', tags)"
        "\<forall>ex \<in> set exs. isSet dirs ex \<longrightarrow> sendExchanges gb' ex = map_option fst (build ex (mirror_code ex) (uniqTag tag ex))
          \<and> receiveExchanges gb' (mirror_code ex) = map_option snd (build ex (mirror_code ex) (uniqTag tag ex))"
        "\<forall>ex. ex \<notin> set exs \<longrightarrow> sendExchanges gb' ex = sendExchanges ?g ex"
        "\<forall>x. x \<notin> mirror_code ` {ex \<in> set exs. isSet dirs ex} \<longrightarrow> receiveExchanges gb' x = receiveExchanges ?g x"
      by auto
    have "mirror_code ex \<notin> mirror_code ` {ex \<in> set exs. isSet dirs ex}"
    proof
      assume "mirror_code ex \<in> mirror_code ` {ex \<in> set exs. isSet dirs ex}"
      then obtain x where x: "x \<in> set exs" "isSet dirs x" "mirror_code x = mirror_code ex" by auto
      then have "x = ex" using mirror_code_invol [of x] mirror_code_invol [OF b(3)] ok(2) by metis
      then show False using x(1) Cons.prems(2) by simp
    qed
    then have "receiveExchanges gb' (mirror_code ex) = Some r" using gb'(4) by simp
    moreover have "sendExchanges gb' ex = Some s" using gb'(3) Cons.prems(2) by simp
    moreover have "receiveExchanges gb' x = receiveExchanges gb x" if "x \<notin> mirror_code ` {ex' \<in> set (ex # exs). isSet dirs ex'}" for x
    proof -
      have "x \<noteq> mirror_code ex" "x \<notin> mirror_code ` {ex' \<in> set exs. isSet dirs ex'}" using that True by auto
      then show ?thesis using gb'(4) by simp
    qed
    moreover have "sendExchanges gb' x = sendExchanges gb x" if "x \<notin> set (ex # exs)" for x using gb'(3) that by auto
    ultimately show ?thesis using gb'(1,2) b(1) unfolding step by (intro exI [of _ gb']) auto
  next
    case False
    then have "{ex' \<in> set (ex # exs). isSet dirs ex'} = {ex' \<in> set exs. isSet dirs ex'}" by auto
    then show ?thesis using Cons.IH [OF Cons.prems(1)] Cons.prems(2,3) False by fastforce
  qed
qed simp

lemma exchangeLoop_skips:
  "\<forall>ex \<in> set pre. \<not> isSet dirs ex \<Longrightarrow> exchangeLoop build dirs tag (pre @ exs) (gb, tags) = exchangeLoop build dirs tag exs (gb, tags)"
  by (induction pre) auto

lemma find_split: "find P xs = Some a \<Longrightarrow> \<exists>pre post. xs = pre @ a # post \<and> (\<forall>x \<in> set pre. \<not> P x) \<and> P a"
proof (induction xs)
  case (Cons x xs)
  show ?case
  proof (cases "P x")
    case False
    then obtain pre post where "xs = pre @ a # post \<and> (\<forall>x \<in> set pre. \<not> P x) \<and> P a" using Cons by auto
    then show ?thesis using False by (intro exI [of _ "x # pre"] exI [of _ post]) auto
  qed (use Cons.prems in \<open>force intro: exI [of _ "[]"]\<close>)
qed simp

lemma addExchange_fresh:
  assumes l: "layout_ok l" and gc: "\<not> isOneDimensionGreaterThan gc (layout_guard l)"
    and a: "firstSend (length (layout_dataSpace l)) receive = Some a"
  shows "uniqTag tag a \<in> set tags \<Longrightarrow> addExchange GUARD receive gc tag (GridBuffer_of l, tags) = Inl TagUsed"
    and "uniqTag tag a \<notin> set tags \<Longrightarrow> \<exists>gb. addExchange GUARD receive gc tag (GridBuffer_of l, tags) = Inr (gb, tags @ [uniqTag tag a])
       \<and> (\<forall>ex. 0 < ex \<and> ex < 3 ^ length (layout_dataSpace l) \<and> isSet receive (mirror_code ex) \<longrightarrow>
            sendExchanges gb ex = ExchangeIntern_of l gc ex (uniqTag tag ex) BORDER
            \<and> receiveExchanges gb (mirror_code ex) = ExchangeIntern_of l gc (mirror_code ex) (uniqTag tag ex) GUARD)"
proof -
  let ?n = "length (layout_dataSpace l)"
  have n: "6 * ?n * ?n + 9 - 12 * ?n = 3 ^ ?n" "?n = 2 \<or> ?n = 3" using l by (auto simp: layout_ok_def)
  obtain pre post where split: "[1..<3 ^ ?n] = pre @ a # post" "\<forall>ex \<in> set pre. \<not> isSet receive (mirror_code ex)" "isSet receive (mirror_code a)"
    using find_split [OF a [unfolded firstSend_def]] by blast
  obtain sm where sm: "getMirroredMask (Mask_join (receiveMask (GridBuffer_of l)) receive) = Inr sm" using getMirroredMask_spec by blast
  obtain dirs where dirs: "getMirroredMask receive = Inr dirs"
      "\<And>j. isSet dirs j \<longleftrightarrow> (\<exists>i. 1 \<le> i \<and> i < 27 \<and> isSet receive i \<and> j = mirror_code i)"
    using getMirroredMask_spec by blast
  have dir: "isSet dirs ex \<longleftrightarrow> isSet receive (mirror_code ex)" if "ex \<in> set [1..<3 ^ ?n]" for ex
    using dirs(2) [of ex] mirror_bounds [OF l] that mirror_code_invol mirror_code_bound [of ex]
    by (metis One_nat_def Suc_leI Suc_le_lessD atLeastLessThan_iff set_upt)
  let ?g = "(GridBuffer_of l)\<lparr>lastUsedCommunicationTag := tag, receiveMask := Mask_join (receiveMask (GridBuffer_of l)) receive, sendMask := sm\<rparr>"
  have xs: "set [1..<3 ^ ?n] = insert a (set pre \<union> set post)" using arg_cong [OF split(1), of set] by auto
  then have "set pre \<subseteq> set [1..<3 ^ ?n]" by blast
  then have pre: "\<forall>ex \<in> set pre. \<not> isSet dirs ex" using dir split(2) by blast
  have "a \<in> set [1..<3 ^ ?n]" using xs by blast
  then have da: "isSet dirs a" "0 < a" "a < 27" using dir split(3) n(2) by auto
  have build: "guardExchanges l gc ex r t \<noteq> None" for ex r t
    using gc by (simp add: guardExchanges_def ExchangeIntern_of_def Let_def getGuard_def)
  have add: "addExchange GUARD receive gc tag (GridBuffer_of l, tags) = exchangeLoop (guardExchanges l gc) dirs tag (a # post) (?g, tags)"
  proof -
    have "addExchange GUARD receive gc tag (GridBuffer_of l, tags) = exchangeLoop (guardExchanges l gc) dirs tag [1..<3 ^ ?n] (?g, tags)"
      using n(1) sm by (simp add: addExchange_def dirs(1) Let_def guardExchanges_def [abs_def] GridBuffer_of_def)
    then show ?thesis unfolding split(1) exchangeLoop_skips [OF pre] .
  qed
  show "addExchange GUARD receive gc tag (GridBuffer_of l, tags) = Inl TagUsed" if "uniqTag tag a \<in> set tags"
    using that da unfolding add by (simp add: isTagUniqu_def GridBuffer_of_def)
  assume fresh: "uniqTag tag a \<notin> set tags"
  obtain s r where sr: "guardExchanges l gc a (mirror_code a) (uniqTag tag a) = Some (s, r)" using build by fast
  let ?h = "?g\<lparr>hasOneExchange := True, sendExchanges := (sendExchanges ?g)(a \<mapsto> s),
       receiveExchanges := (receiveExchanges ?g)(mirror_code a \<mapsto> r), maxExchange := max (max (maxExchange ?g) (a + 1)) (mirror_code a + 1)\<rparr>"
  have step: "exchangeLoop (guardExchanges l gc) dirs tag (a # post) (?g, tags)
      = exchangeLoop (guardExchanges l gc) dirs tag post (?h, tags @ [uniqTag tag a])"
    using fresh da sr by (simp add: isTagUniqu_def GridBuffer_of_def getMirroredExchangeType_eq)
  have small: "ex < 27" if "ex \<in> set post" for ex
    using that xs mirror_bounds(1) [OF l, of ex] by (metis UnCI insertCI atLeastLessThan_iff set_upt One_nat_def Suc_le_lessD)
  have post: "distinct (pre @ a # post)" using split(1) distinct_upt by metis
  have "\<exists>gb'. exchangeLoop (guardExchanges l gc) dirs tag post (?h, tags @ [uniqTag tag a]) = Inr (gb', tags @ [uniqTag tag a])
    \<and> (\<forall>ex \<in> set post. isSet dirs ex \<longrightarrow> sendExchanges gb' ex = map_option fst (guardExchanges l gc ex (mirror_code ex) (uniqTag tag ex))
        \<and> receiveExchanges gb' (mirror_code ex) = map_option snd (guardExchanges l gc ex (mirror_code ex) (uniqTag tag ex)))
    \<and> (\<forall>ex. ex \<notin> set post \<longrightarrow> sendExchanges gb' ex = sendExchanges ?h ex)
    \<and> (\<forall>x. x \<notin> mirror_code ` {ex \<in> set post. isSet dirs ex} \<longrightarrow> receiveExchanges gb' x = receiveExchanges ?h x)"
  proof (rule exchangeLoop_succeeds)
    show "\<forall>ex \<in> set post. isSet dirs ex \<longrightarrow> ex < 27 \<and> sendExchanges ?h ex = None \<and> guardExchanges l gc ex (mirror_code ex) (uniqTag tag ex) \<noteq> None"
      using build post small by (auto simp: GridBuffer_of_def)
  qed (use post in auto)
  then obtain gb where gb: "addExchange GUARD receive gc tag (GridBuffer_of l, tags) = Inr (gb, tags @ [uniqTag tag a])"
      "\<forall>ex \<in> set post. isSet dirs ex \<longrightarrow> sendExchanges gb ex = map_option fst (guardExchanges l gc ex (mirror_code ex) (uniqTag tag ex))
        \<and> receiveExchanges gb (mirror_code ex) = map_option snd (guardExchanges l gc ex (mirror_code ex) (uniqTag tag ex))"
      "\<forall>ex. ex \<notin> set post \<longrightarrow> sendExchanges gb ex = sendExchanges ?h ex"
      "\<forall>x. x \<notin> mirror_code ` {ex \<in> set post. isSet dirs ex} \<longrightarrow> receiveExchanges gb x = receiveExchanges ?h x"
    unfolding add step by blast
  have "mirror_code a \<notin> mirror_code ` {ex \<in> set post. isSet dirs ex}"
  proof
    assume "mirror_code a \<in> mirror_code ` {ex \<in> set post. isSet dirs ex}"
    then obtain x where x: "x \<in> set post" "mirror_code x = mirror_code a" by auto
    then have "x = a" using mirror_code_invol [OF small [OF x(1)]] mirror_code_invol [OF da(3)] by metis
    then show False using x(1) post by simp
  qed
  then have first: "sendExchanges gb a = Some s" "receiveExchanges gb (mirror_code a) = Some r" using gb(3,4) post by auto
  have ex: "map_option fst (guardExchanges l gc ex r t) = ExchangeIntern_of l gc ex t BORDER"
      "map_option snd (guardExchanges l gc ex r t) = ExchangeIntern_of l gc r t GUARD" for ex r t
    using build [of ex r t] by (auto simp: guardExchanges_def split: option.splits)
  show "\<exists>gb. addExchange GUARD receive gc tag (GridBuffer_of l, tags) = Inr (gb, tags @ [uniqTag tag a])
     \<and> (\<forall>ex. 0 < ex \<and> ex < 3 ^ ?n \<and> isSet receive (mirror_code ex) \<longrightarrow> sendExchanges gb ex = ExchangeIntern_of l gc ex (uniqTag tag ex) BORDER
         \<and> receiveExchanges gb (mirror_code ex) = ExchangeIntern_of l gc (mirror_code ex) (uniqTag tag ex) GUARD)"
  proof (intro exI [of _ gb] conjI [OF gb(1)] allI impI)
    fix x assume x: "0 < x \<and> x < 3 ^ ?n \<and> isSet receive (mirror_code x)"
    then have mem: "x \<in> set [1..<3 ^ ?n]" by simp
    then have "isSet dirs x" using x dir by blast
    moreover from this mem have "x = a \<or> x \<in> set post" using xs pre by blast
    ultimately show "sendExchanges gb x = ExchangeIntern_of l gc x (uniqTag tag x) BORDER
        \<and> receiveExchanges gb (mirror_code x) = ExchangeIntern_of l gc (mirror_code x) (uniqTag tag x) GUARD"
      using gb(2) first ex [of x "mirror_code x" "uniqTag tag x"] sr by auto
  qed
qed

text \<open>
  C38. The tag of a message is only checked for the first exchange of a buffer. Two grid buffers that are given
  the same communication tag are told apart by \<open>addExchange\<close> exactly when their lowest send directions coincide:
  then the second call raises, otherwise it succeeds, and in every direction both send, their messages
  carry the same tag.
\<close>

theorem tag_checked_for_first_exchange_only:
  assumes l: "layout_ok l" "layout_ok l'" "length (layout_dataSpace l') = length (layout_dataSpace l)"
    and gc: "\<not> isOneDimensionGreaterThan gc (layout_guard l)" "\<not> isOneDimensionGreaterThan gc' (layout_guard l')"
    and first: "firstSend (length (layout_dataSpace l)) receive = Some a" "firstSend (length (layout_dataSpace l)) receive' = Some b"
    and c: "0 < c" "c < 3 ^ length (layout_dataSpace l)" "isSet receive (mirror_code c)" "isSet receive' (mirror_code c)"
  shows "\<exists>gb tags. addExchange GUARD receive gc tag (GridBuffer_of l, []) = Inr (gb, tags)
    \<and> (if a = b then addExchange GUARD receive' gc' tag (GridBuffer_of l', tags) = Inl TagUsed
       else \<exists>gb' tags' s s'. addExchange GUARD receive' gc' tag (GridBuffer_of l', tags) = Inr (gb', tags')
              \<and> sendExchanges gb c = Some s \<and> sendExchanges gb' c = Some s' \<and> ex_tag s = ex_tag s')"
proof -
  obtain gb where gb: "addExchange GUARD receive gc tag (GridBuffer_of l, []) = Inr (gb, [uniqTag tag a])"
      "sendExchanges gb c = ExchangeIntern_of l gc c (uniqTag tag c) BORDER"
    using addExchange_fresh(2) [OF l(1) gc(1) first(1), of tag "[]"] c by auto
  have ab: "uniqTag tag b = uniqTag tag a \<longleftrightarrow> a = b"
    using uniqTag_inj firstSend_bound [OF l(1) first(1)] firstSend_bound [OF l(1) first(2)] by blast
  have s: "\<exists>s. ExchangeIntern_of k g c t BORDER = Some s \<and> ex_tag s = t" if "\<not> isOneDimensionGreaterThan g (layout_guard k)" for k g t
    using that by (auto simp: ExchangeIntern_of_def Let_def getGuard_def)
  show ?thesis
  proof (cases "a = b")
    case True
    then show ?thesis using gb(1) addExchange_fresh(1) [OF l(2) gc(2) first(2) [folded l(3)], of tag "[uniqTag tag a]"] by auto
  next
    case False
    then show ?thesis
      using gb addExchange_fresh(2) [OF l(2) gc(2) first(2) [folded l(3)], of tag "[uniqTag tag a]"] ab c l(3) s [OF gc(1)] s [OF gc(2)]
      by fastforce
  qed
qed


definition sampleLayout :: "int \<Rightarrow> GridLayout" where
  "sampleLayout g = \<lparr>layout_dataSpace = [16, 8, 8], layout_guard = [g, g, g]\<rparr>"

theorem tag_checked_for_first_exchange_only_witness:
  "\<exists>gb tags. addExchange GUARD (Mask_join (Mask_of LEFT) (Mask_of RIGHT)) [1, 1, 1] 7 (GridBuffer_of (sampleLayout 1), []) = Inr (gb, tags)
    \<and> (\<exists>gb' tags' s s'. addExchange GUARD (Mask_of RIGHT) [2, 2, 2] 7 (GridBuffer_of (sampleLayout 2), tags) = Inr (gb', tags')
              \<and> sendExchanges gb LEFT = Some s \<and> sendExchanges gb' LEFT = Some s' \<and> ex_tag s = ex_tag s')"
proof -
  have "layout_ok (sampleLayout 1)" "layout_ok (sampleLayout 2)"
    by (auto simp: layout_ok_def sampleLayout_def nth_Cons' numeral_3_eq_3 less_Suc_eq)
  moreover have "\<not> isOneDimensionGreaterThan [1, 1, 1] (layout_guard (sampleLayout 1))"
    "\<not> isOneDimensionGreaterThan [2, 2, 2] (layout_guard (sampleLayout 2))" by code_simp+
  moreover have "firstSend 3 (Mask_join (Mask_of LEFT) (Mask_of RIGHT)) = Some RIGHT" "firstSend 3 (Mask_of RIGHT) = Some LEFT" by code_simp+
  moreover have "isSet (Mask_join (Mask_of LEFT) (Mask_of RIGHT)) (mirror_code LEFT)" "isSet (Mask_of RIGHT) (mirror_code LEFT)" by code_simp+
  moreover have "length (layout_dataSpace (sampleLayout g)) = 3" for g by (simp add: sampleLayout_def)
  moreover have "RIGHT \<noteq> LEFT" "0 < LEFT" "LEFT < 3 ^ 3" by (simp_all add: LEFT_def RIGHT_def)
  ultimately show ?thesis
    using tag_checked_for_first_exchange_only [of "sampleLayout 1" "sampleLayout 2" "[1, 1, 1]" "[2, 2, 2]"
        "Mask_join (Mask_of LEFT) (Mask_of RIGHT)" RIGHT "Mask_of RIGHT" LEFT LEFT 7]
    by simp
qed

end
