(* ===== verification/EventSystem.thy ===== *)
theory EventSystem
  imports Main "HOL-Library.AList" "HOL-Library.Monad_Syntax" Prelude
begin

text \<open>
  The event system of libPMacc (\<open>src/src/libPMacc/include/eventSystem\<close>): the \<open>Manager\<close> with its
  maps of active and passive tasks, the observer lists of the tasks, \<open>TaskLogicalAnd\<close>, the
  \<open>EventTask\<close> handles and their sum, the pool of device events and of streams, and the stack of
  transactions.

  Task objects live in an explicit heap \<open>objects\<close> (task id to object), so that a notification that
  reaches a deleted object is visible: it makes the operation fail with \<open>None\<close>, as does a failed
  \<open>assert\<close> and a thrown exception. Two things come from outside the program and are the fields of
  \<open>Runtime\<close>: the addresses of the observers (they order the \<open>std::set\<close> of observers) and
  whether the device or MPI reports an operation as completed at a given poll. Waiting loops are
  \<open>partial_function (option)\<close>: a loop that does not end is \<open>None\<close> as well, so each
  \<open>Some\<close> in a theorem says that the wait ends.

  The operations poll the leaf tasks (copies, kernels, single MPI operations); tasks that react to
  an event by starting further tasks are not objects of this heap.
\<close>

section \<open>State\<close>

datatype EventType =
    FINISHED | COPYHOST2DEVICE | COPYDEVICE2HOST | COPYDEVICE2DEVICE | SENDFINISHED
  | RECVFINISHED | LOGICALAND | SETVALUE | GETVALUE | KERNEL

datatype TaskType = TASK_UNKNOWN | TASK_CUDA | TASK_MPI | TASK_HOST

text \<open>The implementations of \<open>IEvent\<close> that are registered as observers.\<close>

datatype IEvent = ManagerObserver | TaskObserver nat

text \<open>A leaf task is polled and notifies with its event type when it is destroyed; a
  \<open>TaskLogicalAnd\<close> keeps the ids of the two tasks it waits for, 0 once that task has finished.\<close>

datatype TaskBody = Leaf EventType | TaskLogicalAnd nat nat

record ITask =
  myType :: TaskType
  body :: TaskBody
  observers :: "IEvent list"
  stream :: "nat option"
  cudaEvent :: "(nat \<times> nat) option"  \<comment> \<open>index in the pool, stream it is recorded in\<close>

record Transaction =
  baseEvent :: nat
  eventStream :: nat
  isAtomic :: bool

datatype StreamOp = EnqueueWork nat | EnqueueEvent nat | EnqueueWait nat

record EventState =
  globalId :: nat
  objects :: "(nat \<times> ITask) list"
  tasks :: "nat list"
  passiveTasks :: "nat list"
  polls :: nat
  currentEventIndex :: nat
  eventsCount :: nat
  currentStreamIndex :: nat
  streamsCount :: nat
  isActivated :: bool
  deviceLog :: "(nat \<times> StreamOp) list"
  transactions :: "Transaction list"

record Runtime =
  address :: "IEvent \<Rightarrow> nat"
  completed :: "nat \<Rightarrow> nat \<Rightarrow> bool"

abbreviation obj :: "EventState \<Rightarrow> nat \<Rightarrow> ITask option" where
  "obj S \<equiv> map_of (objects S)"

definition put_object :: "nat \<Rightarrow> ITask \<Rightarrow> EventState \<Rightarrow> EventState" where
  "put_object i t S = S\<lparr>objects := AList.update i t (objects S)\<rparr>"

definition free_object :: "nat \<Rightarrow> EventState \<Rightarrow> EventState" where
  "free_object i S = S\<lparr>objects := AList.delete i (objects S)\<rparr>"

section \<open>Observers and notifications\<close>

definition addObserver :: "Runtime \<Rightarrow> IEvent \<Rightarrow> ITask \<Rightarrow> ITask" where
  "addObserver rt ob t =
     (if ob \<in> set (observers t) then t
      else t\<lparr>observers := insort_key (address rt) ob (observers t)\<rparr>)"

definition removeObserver :: "IEvent \<Rightarrow> ITask \<Rightarrow> ITask" where
  "removeObserver ob t = t\<lparr>observers := filter (\<lambda>x. x \<noteq> ob) (observers t)\<rparr>"

definition Manager_event :: "nat \<Rightarrow> EventState \<Rightarrow> EventState" where
  "Manager_event eventId S =
     S\<lparr>passiveTasks := filter (\<lambda>i. i \<noteq> eventId) (passiveTasks S)\<rparr>"

text \<open>\<open>TaskLogicalAnd::event\<close> on the two slots, and \<open>executeIntern\<close>.\<close>

definition And_event :: "nat \<Rightarrow> nat \<times> nat \<Rightarrow> nat \<times> nat" where
  "And_event eventId s =
     (case s of (t1, t2) \<Rightarrow>
        if t1 = eventId then (0, t2) else if t2 = eventId then (t1, 0) else (t1, t2))"

definition And_executeIntern :: "nat \<times> nat \<Rightarrow> bool" where
  "And_executeIntern s \<longleftrightarrow> fst s = 0 \<and> snd s = 0"

text \<open>The destructor of a task notifies its observers with the event type of the task.\<close>

fun destroyType :: "TaskBody \<Rightarrow> EventType" where
  "destroyType (Leaf ty) = ty"
| "destroyType (TaskLogicalAnd t1 t2) = LOGICALAND"

definition notify :: "nat \<Rightarrow> EventType \<Rightarrow> IEvent list \<Rightarrow> (IEvent \<times> nat \<times> EventType) list" where
  "notify eventId ty obs = map (\<lambda>ob. (ob, eventId, ty)) obs"

text \<open>
  \<open>notify\<close> calls the observers one after the other; an AND task whose second subtask reports
  deletes itself inside its \<open>event\<close> method, which notifies its own observers before the remaining
  observers of the first task are called. The pending calls form a stack.
\<close>

lemma sum_list_delete_le:
  assumes "map_of xs i = Some t"
  shows "(\<Sum>p\<leftarrow>AList.delete i xs. f (snd p)) + f t \<le> (\<Sum>p\<leftarrow>xs. (f (snd p) :: nat))"
  using assms
proof (induction xs)
  case (Cons p xs)
  have "(\<Sum>p\<leftarrow>AList.delete i xs. f (snd p)) \<le> (\<Sum>p\<leftarrow>xs. f (snd p))"
    by (induction xs) auto
  with Cons show ?case by (cases p) (auto split: if_splits)
qed simp

lemma sum_list_update_same:
  assumes "map_of xs i = Some t" "f t' = f t"
  shows "(\<Sum>p\<leftarrow>AList.update i t' xs. f (snd p)) = (\<Sum>p\<leftarrow>xs. (f (snd p) :: nat))"
  using assms by (induction xs) (auto split: if_splits)

function deliver :: "(IEvent \<times> nat \<times> EventType) list \<Rightarrow> EventState \<Rightarrow> EventState option" where
  "deliver [] S = Some S"
| "deliver ((ManagerObserver, eventId, ty) # wl) S = deliver wl (Manager_event eventId S)"
| "deliver ((TaskObserver a, eventId, ty) # wl) S =
     (case obj S a of
        None \<Rightarrow> None
      | Some t \<Rightarrow>
          (case body t of
             Leaf lty \<Rightarrow> deliver wl S
           | TaskLogicalAnd t1 t2 \<Rightarrow>
               let s = And_event eventId (t1, t2) in
               if And_executeIntern s
               then deliver (notify a LOGICALAND (observers t) @ wl) (free_object a S)
               else deliver wl (put_object a (t\<lparr>body := TaskLogicalAnd (fst s) (snd s)\<rparr>) S)))"
  by pat_completeness auto
termination
proof (relation "measure (\<lambda>(wl, S). length wl + (\<Sum>p\<leftarrow>objects S. length (observers (snd p))))", goal_cases)
  case (4 a eventId ty wl S t t1 t2 s)
  then show ?case
    using sum_list_delete_le [of "objects S" a t "\<lambda>t. length (observers t)"]
    by (simp add: notify_def free_object_def)
next
  case (5 a eventId ty wl S t t1 t2 s)
  then show ?case
    by (simp add: put_object_def
        sum_list_update_same [of "objects S" a t "\<lambda>t. length (observers t)"])
qed (simp_all add: Manager_event_def)

text \<open>\<open>delete\<close> of a task object: its destructor notifies, then the memory is gone.\<close>

definition delete_task :: "nat \<Rightarrow> EventState \<Rightarrow> EventState option" where
  "delete_task i S =
     (case obj S i of
        None \<Rightarrow> None
      | Some t \<Rightarrow> deliver (notify i (destroyType (body t)) (observers t)) (free_object i S))"

section \<open>Manager\<close>

definition getPassiveITaskIfNotFinished :: "nat \<Rightarrow> EventState \<Rightarrow> nat option" where
  "getPassiveITaskIfNotFinished taskId S =
     (if taskId \<in> set (passiveTasks S) then Some taskId else None)"

definition getActiveITaskIfNotFinished :: "nat \<Rightarrow> EventState \<Rightarrow> nat option" where
  "getActiveITaskIfNotFinished taskId S =
     (if taskId \<in> set (tasks S) then Some taskId else None)"

definition getITaskIfNotFinished :: "nat \<Rightarrow> EventState \<Rightarrow> nat option" where
  "getITaskIfNotFinished taskId S =
     (case getPassiveITaskIfNotFinished taskId S of
        Some p \<Rightarrow> Some p
      | None \<Rightarrow> getActiveITaskIfNotFinished taskId S)"

definition addTask :: "nat \<Rightarrow> EventState \<Rightarrow> EventState" where
  "addTask i S = S\<lparr>tasks := List.insort_insert i (tasks S)\<rparr>"

definition addPassiveTask :: "Runtime \<Rightarrow> nat \<Rightarrow> EventState \<Rightarrow> EventState option" where
  "addPassiveTask rt i S =
     (case obj S i of
        None \<Rightarrow> None
      | Some t \<Rightarrow>
          let S1 = put_object i (addObserver rt ManagerObserver t) S
          in Some (S1\<lparr>passiveTasks := List.insort_insert i (passiveTasks S1)\<rparr>))"

text \<open>\<open>execute\<close> of one task: a leaf asks the device or MPI, an AND task looks at its slots.\<close>

definition task_execute :: "Runtime \<Rightarrow> nat \<Rightarrow> EventState \<Rightarrow> (bool \<times> EventState) option" where
  "task_execute rt i S =
     (case obj S i of
        None \<Rightarrow> None
      | Some t \<Rightarrow>
          (case body t of
             Leaf ty \<Rightarrow> Some (completed rt i (polls S), S\<lparr>polls := polls S + 1\<rparr>)
           | TaskLogicalAnd t1 t2 \<Rightarrow> Some (And_executeIntern (t1, t2), S)))"

text \<open>
  The loop of \<open>Manager::execute\<close>. The iterator is advanced before the task runs and only the task
  it has passed is erased, so the keys still to visit are those of the map at entry.
\<close>

fun execute_loop :: "Runtime \<Rightarrow> nat \<Rightarrow> nat list \<Rightarrow> EventState \<Rightarrow> (bool \<times> EventState) option" where
  "execute_loop rt taskToWait [] S = Some (False, S)"
| "execute_loop rt taskToWait (i # iter) S =
     do {
       (finished, S1) \<leftarrow> task_execute rt i S;
       if finished then do {
         S2 \<leftarrow> (if getActiveITaskIfNotFinished i S1 = Some i
               then delete_task i (S1\<lparr>tasks := filter (\<lambda>k. k \<noteq> i) (tasks S1)\<rparr>)
               else Some S1);
         if taskToWait = i then Some (True, S2) else execute_loop rt taskToWait iter S2
       }
       else execute_loop rt taskToWait iter S1
     }"

definition execute :: "Runtime \<Rightarrow> nat \<Rightarrow> EventState \<Rightarrow> (bool \<times> EventState) option" where
  "execute rt taskToWait S = execute_loop rt taskToWait (tasks S) S"

text \<open>The three waiting loops of the manager.\<close>

partial_function (option) waitPassive :: "Runtime \<Rightarrow> nat \<Rightarrow> EventState \<Rightarrow> EventState option" where
  "waitPassive rt taskId S =
     do {
       (b, S1) \<leftarrow> execute rt 0 S;
       if getPassiveITaskIfNotFinished taskId S1 \<noteq> None then waitPassive rt taskId S1 else Some S1
     }"

partial_function (option) waitActive :: "Runtime \<Rightarrow> nat \<Rightarrow> EventState \<Rightarrow> EventState option" where
  "waitActive rt taskId S =
     do {
       (b, S1) \<leftarrow> execute rt taskId S;
       if b then Some S1
       else if getActiveITaskIfNotFinished taskId S1 \<noteq> None then waitActive rt taskId S1 else Some S1
     }"

definition Manager_waitForFinished :: "Runtime \<Rightarrow> nat \<Rightarrow> EventState \<Rightarrow> EventState option" where
  "Manager_waitForFinished rt taskId S =
     (if getPassiveITaskIfNotFinished taskId S \<noteq> None then waitPassive rt taskId S
      else if getActiveITaskIfNotFinished taskId S \<noteq> None then waitActive rt taskId S
      else Some S)"

partial_function (option) waitForAllTasks :: "Runtime \<Rightarrow> EventState \<Rightarrow> EventState option" where
  "waitForAllTasks rt S =
     (if tasks S \<noteq> [] \<or> passiveTasks S \<noteq> []
      then do { (b, S1) \<leftarrow> execute rt 0 S; waitForAllTasks rt S1 }
      else Some S)"

declare waitPassive.simps [code] waitActive.simps [code] waitForAllTasks.simps [code]

section \<open>Streams and device events\<close>

text \<open>An index outside of the vector of streams or of pooled events is a failure as well.\<close>

definition getNextStream :: "EventState \<Rightarrow> (nat \<times> EventState) option" where
  "getNextStream S =
     (if \<not> isActivated S then None
      else let oldIndex = currentStreamIndex S; n = oldIndex + 1
           in if oldIndex < streamsCount S
              then Some (oldIndex, S\<lparr>currentStreamIndex := (if n = streamsCount S then 0 else n)\<rparr>)
              else None)"

definition addStreams :: "nat \<Rightarrow> EventState \<Rightarrow> EventState" where
  "addStreams count S = S\<lparr>streamsCount := streamsCount S + count\<rparr>"

definition StreamController_activate :: "EventState \<Rightarrow> EventState" where
  "StreamController_activate S = (addStreams 1 S)\<lparr>isActivated := True\<rparr>"

definition getNextEvent :: "EventState \<Rightarrow> (nat \<times> EventState) option" where
  "getNextEvent S =
     (if currentEventIndex S < eventsCount S
      then Some (currentEventIndex S,
        S\<lparr>currentEventIndex := (currentEventIndex S + 1) mod eventsCount S\<rparr>)
      else None)"

definition addEvents :: "nat \<Rightarrow> EventState \<Rightarrow> EventState" where
  "addEvents count S = S\<lparr>eventsCount := eventsCount S + count\<rparr>"

definition enqueue :: "nat \<Rightarrow> StreamOp \<Rightarrow> EventState \<Rightarrow> EventState" where
  "enqueue s op S = S\<lparr>deviceLog := deviceLog S @ [(s, op)]\<rparr>"

definition waitOn :: "nat \<Rightarrow> nat \<times> nat \<Rightarrow> EventState \<Rightarrow> EventState" where
  "waitOn s ev S = (if s \<noteq> snd ev then enqueue s (EnqueueWait (fst ev)) S else S)"

text \<open>\<open>TransactionManager::getEventStream\<close> and \<open>StreamTask::getEventStream\<close>, which remembers the
  stream of the transaction it was first asked in.\<close>

definition TransactionManager_getEventStream :: "EventState \<Rightarrow> nat option" where
  "TransactionManager_getEventStream S =
     (case transactions S of [] \<Rightarrow> None | tr # trs \<Rightarrow> Some (eventStream tr))"

definition getEventStream :: "nat \<Rightarrow> EventState \<Rightarrow> (nat \<times> EventState) option" where
  "getEventStream i S =
     (case obj S i of
        None \<Rightarrow> None
      | Some t \<Rightarrow>
          (case stream t of
             Some s \<Rightarrow> Some (s, S)
           | None \<Rightarrow>
               do {
                 s \<leftarrow> TransactionManager_getEventStream S;
                 Some (s, put_object i (t\<lparr>stream := Some s\<rparr>) S)
               }))"

definition setEventStream :: "nat \<Rightarrow> nat \<Rightarrow> EventState \<Rightarrow> EventState option" where
  "setEventStream i newStream S =
     (case obj S i of
        None \<Rightarrow> None
      | Some t \<Rightarrow>
          if stream t = None then Some (put_object i (t\<lparr>stream := Some newStream\<rparr>) S) else None)"

definition getCudaEvent :: "nat \<Rightarrow> EventState \<Rightarrow> (nat \<times> nat) option" where
  "getCudaEvent i S = (case obj S i of None \<Rightarrow> None | Some t \<Rightarrow> cudaEvent t)"

definition activate :: "nat \<Rightarrow> EventState \<Rightarrow> EventState option" where
  "activate i S =
     (case obj S i of
        None \<Rightarrow> None
      | Some t \<Rightarrow>
          do {
            s \<leftarrow> stream t;
            (e, S1) \<leftarrow> getNextEvent S;
            Some (enqueue s (EnqueueEvent e) (put_object i (t\<lparr>cudaEvent := Some (e, s)\<rparr>) S1))
          })"

section \<open>Task construction and EventTask\<close>

text \<open>\<open>new\<close> of a task: the constructors of \<open>ITask\<close>, \<open>StreamTask\<close> and \<open>MPITask\<close>.\<close>

definition new_task :: "TaskType \<Rightarrow> TaskBody \<Rightarrow> EventState \<Rightarrow> nat \<times> EventState" where
  "new_task ty b S =
     (globalId S,
      put_object (globalId S)
        \<lparr>myType = ty, body = b, observers = [], stream = None, cudaEvent = None\<rparr>
        (S\<lparr>globalId := globalId S + 1\<rparr>))"

definition register :: "Runtime \<Rightarrow> nat \<Rightarrow> IEvent \<Rightarrow> EventState \<Rightarrow> EventState option" where
  "register rt i ob S =
     (case obj S i of
        None \<Rightarrow> None
      | Some t \<Rightarrow> Some (put_object i (addObserver rt ob t) S))"

definition getTaskType :: "nat \<Rightarrow> EventState \<Rightarrow> TaskType option" where
  "getTaskType i S = map_option myType (obj S i)"

definition setTaskType :: "nat \<Rightarrow> TaskType \<Rightarrow> EventState \<Rightarrow> EventState option" where
  "setTaskType i ty S = map_option (\<lambda>t. put_object i (t\<lparr>myType := ty\<rparr>) S) (obj S i)"

text \<open>\<open>TaskLogicalAnd::combine\<close>.\<close>

definition combine :: "Runtime \<Rightarrow> nat \<Rightarrow> nat \<Rightarrow> nat \<Rightarrow> EventState \<Rightarrow> EventState option" where
  "combine rt this s1 s2 S =
     do {
       S1 \<leftarrow> register rt s1 (TaskObserver this) S;
       S2 \<leftarrow> register rt s2 (TaskObserver this) S1;
       ty1 \<leftarrow> getTaskType s1 S2;
       ty2 \<leftarrow> getTaskType s2 S2;
       if ty1 = TASK_CUDA \<and> ty2 = TASK_CUDA then do {
         S3 \<leftarrow> setTaskType this TASK_CUDA S2;
         (s, S4) \<leftarrow> getEventStream s2 S3;
         S5 \<leftarrow> setEventStream this s S4;
         ev \<leftarrow> getCudaEvent s1 S5;
         activate this (waitOn s ev S5)
       }
       else if ty1 = TASK_MPI \<and> ty2 = TASK_CUDA then do {
         S3 \<leftarrow> setTaskType this TASK_MPI S2;
         (s, S4) \<leftarrow> getEventStream s2 S3;
         setEventStream this s S4
       }
       else if ty2 = TASK_MPI \<and> ty1 = TASK_CUDA then do {
         S3 \<leftarrow> setTaskType this TASK_MPI S2;
         (s, S4) \<leftarrow> getEventStream s1 S3;
         setEventStream this s S4
       }
       else if ty1 = TASK_MPI \<and> ty2 = TASK_MPI then setTaskType this TASK_MPI S2
       else Some S2
     }"

definition new_TaskLogicalAnd :: "Runtime \<Rightarrow> nat \<Rightarrow> nat \<Rightarrow> EventState \<Rightarrow> (nat \<times> EventState) option" where
  "new_TaskLogicalAnd rt s1 s2 S =
     do {
       let (this, S1) = new_task TASK_CUDA (TaskLogicalAnd s1 s2) S;
       S2 \<leftarrow> combine rt this s1 s2 S1;
       Some (this, S2)
     }"

definition isFinished :: "nat \<Rightarrow> EventState \<Rightarrow> bool" where
  "isFinished e S \<longleftrightarrow> getITaskIfNotFinished e S = None"

text \<open>\<open>EventTask::operator+=\<close>: the new task id of the left operand and the new state.\<close>

definition event_add :: "Runtime \<Rightarrow> nat \<Rightarrow> nat \<Rightarrow> EventState \<Rightarrow> (nat \<times> EventState) option" where
  "event_add rt e other S =
     (if e = other then Some (e, S)
      else case getITaskIfNotFinished e S of
        None \<Rightarrow> Some (other, S)
      | Some myTask \<Rightarrow>
          (case getITaskIfNotFinished other S of
             None \<Rightarrow> Some (e, S)
           | Some otherTask \<Rightarrow>
               do {
                 (a, S1) \<leftarrow> new_TaskLogicalAnd rt myTask otherTask S;
                 S2 \<leftarrow> addPassiveTask rt a S1;
                 Some (a, S2)
               }))"

section \<open>Transactions\<close>

text \<open>The constructor of \<open>Transaction\<close> takes the next stream and waits for its event.\<close>

definition new_Transaction :: "Runtime \<Rightarrow> nat \<Rightarrow> bool \<Rightarrow> EventState \<Rightarrow> (Transaction \<times> EventState) option" where
  "new_Transaction rt event atomic S =
     do {
       (s, S1) \<leftarrow> getNextStream S;
       S2 \<leftarrow> Manager_waitForFinished rt event S1;
       Some (\<lparr>baseEvent = event, eventStream = s, isAtomic = atomic\<rparr>, S2)
     }"

definition startTransaction :: "Runtime \<Rightarrow> nat \<Rightarrow> EventState \<Rightarrow> EventState option" where
  "startTransaction rt serialEvent S =
     do {
       (tr, S1) \<leftarrow> new_Transaction rt serialEvent False S;
       Some (S1\<lparr>transactions := tr # transactions S1\<rparr>)
     }"

definition startAtomicTransaction :: "Runtime \<Rightarrow> nat \<Rightarrow> EventState \<Rightarrow> EventState option" where
  "startAtomicTransaction rt serialEvent S =
     do {
       (tr, S1) \<leftarrow> new_Transaction rt serialEvent True S;
       Some (S1\<lparr>transactions := tr # transactions S1\<rparr>)
     }"

definition endTransaction :: "EventState \<Rightarrow> (nat \<times> EventState) option" where
  "endTransaction S =
     (case transactions S of
        [] \<Rightarrow> None
      | tr # trs \<Rightarrow> Some (baseEvent tr, S\<lparr>transactions := trs\<rparr>))"

definition getTransactionEvent :: "EventState \<Rightarrow> nat option" where
  "getTransactionEvent S = (case transactions S of [] \<Rightarrow> None | tr # trs \<Rightarrow> Some (baseEvent tr))"

text \<open>\<open>Transaction::operation\<close> through \<open>TransactionManager::startOperation\<close>.\<close>

definition operation :: "Runtime \<Rightarrow> Transaction \<Rightarrow> EventState \<Rightarrow> EventState option" where
  "operation rt tr S =
     (if \<not> isAtomic tr then Manager_waitForFinished rt (baseEvent tr) S else Some S)"

definition startOperation :: "Runtime \<Rightarrow> EventState \<Rightarrow> EventState option" where
  "startOperation rt S =
     (case transactions S of [] \<Rightarrow> None | tr # trs \<Rightarrow> operation rt tr S)"

text \<open>\<open>Transaction::setTransactionEvent\<close> through the transaction manager.\<close>

definition setTransactionEvent :: "Runtime \<Rightarrow> nat \<Rightarrow> EventState \<Rightarrow> (nat \<times> EventState) option" where
  "setTransactionEvent rt event S =
     (case transactions S of
        [] \<Rightarrow> None
      | tr # trs \<Rightarrow>
          do {
            S1 \<leftarrow> (case getITaskIfNotFinished event S of
                     None \<Rightarrow> Some S
                   | Some baseTask \<Rightarrow>
                       (case getTaskType baseTask S of
                          None \<Rightarrow> None
                        | Some ty \<Rightarrow>
                            if ty = TASK_CUDA
                            then do { ev \<leftarrow> getCudaEvent baseTask S; Some (waitOn (eventStream tr) ev S) }
                            else Some S));
            (e, S2) \<leftarrow> event_add rt (baseEvent tr) event S1;
            Some (e, S2\<lparr>transactions := tr\<lparr>baseEvent := e\<rparr> # trs\<rparr>)
          })"

definition TransactionManager_destroy :: "EventState \<Rightarrow> EventState option" where
  "TransactionManager_destroy S =
     (case transactions S of [tr] \<Rightarrow> Some (S\<lparr>transactions := []\<rparr>) | _ \<Rightarrow> None)"

section \<open>Starting leaf tasks\<close>

text \<open>\<open>init\<close> of a copy, set-value or size task: take the stream, enqueue the device work, record
  the event (\<open>activate\<close>).\<close>

definition init_stream_task :: "nat \<Rightarrow> EventState \<Rightarrow> EventState option" where
  "init_stream_task i S =
     do {
       (s, S1) \<leftarrow> getEventStream i S;
       activate i (enqueue s (EnqueueWork i) S1)
     }"

text \<open>\<open>Factory::startTask\<close> without a registering task, for a stream task and for an MPI task.\<close>

definition startStreamTask :: "Runtime \<Rightarrow> EventType \<Rightarrow> EventState \<Rightarrow> (nat \<times> EventState) option" where
  "startStreamTask rt ty S =
     do {
       let (i, S1) = new_task TASK_CUDA (Leaf ty) S;
       S2 \<leftarrow> init_stream_task i S1;
       (b, S3) \<leftarrow> setTransactionEvent rt i (addTask i S2);
       Some (i, S3)
     }"

definition startMPITask :: "Runtime \<Rightarrow> EventType \<Rightarrow> EventState \<Rightarrow> (nat \<times> EventState) option" where
  "startMPITask rt ty S =
     do {
       let (i, S1) = new_task TASK_MPI (Leaf ty) S;
       (b, S2) \<leftarrow> setTransactionEvent rt i (addTask i S1);
       Some (i, S2)
     }"

text \<open>A kernel call (\<open>__cudaKernel\<close>): create the task, enqueue the kernel on its stream and
  \<open>activateChecks\<close>.\<close>

definition activateChecks :: "Runtime \<Rightarrow> nat \<Rightarrow> EventState \<Rightarrow> EventState option" where
  "activateChecks rt i S =
     do {
       S1 \<leftarrow> activate i S;
       (b, S2) \<leftarrow> setTransactionEvent rt i (addTask i S1);
       Some S2
     }"

definition cudaKernel :: "Runtime \<Rightarrow> EventState \<Rightarrow> EventState option" where
  "cudaKernel rt S =
     do {
       let (i, S1) = new_task TASK_CUDA (Leaf KERNEL) S;
       (s, S2) \<leftarrow> getEventStream i S1;
       activateChecks rt i (enqueue s (EnqueueWork i) S2)
     }"

text \<open>The state after the constructors of \<open>StreamController\<close>, \<open>Manager\<close> (a pool of 1 + 300
  events), activation of the streams and the first transaction of \<open>TransactionManager\<close>.\<close>

definition initial :: "nat \<Rightarrow> EventState" where
  "initial extraStreams =
     addStreams extraStreams (StreamController_activate
       \<lparr>globalId = 1, objects = [], tasks = [], passiveTasks = [], polls = 0,
        currentEventIndex = 0, eventsCount = 1 + 300, currentStreamIndex = 0, streamsCount = 0,
        isActivated = False, deviceLog = [], transactions = []\<rparr>)"

section \<open>Invariant of the object heap\<close>

text \<open>
  \<open>wf S wl\<close> is the invariant of the heap while the calls \<open>wl\<close> of a notification are still to be
  made; between operations \<open>wl\<close> is empty. It says that every registration or pending call of
  an AND task comes from one of its two slots and the other way round, that the manager is
  registered at exactly the AND tasks, that the two maps of the manager hold the live leaf tasks and
  the AND tasks, that subtasks are older than the AND task, and that a task of type
  \<open>TASK_CUDA\<close> has a recorded event.
\<close>

fun slots :: "TaskBody \<Rightarrow> nat set" where
  "slots (Leaf ty) = {}"
| "slots (TaskLogicalAnd t1 t2) = {t1, t2} - {0}"

fun is_leaf :: "TaskBody \<Rightarrow> bool" where
  "is_leaf (Leaf ty) = True"
| "is_leaf (TaskLogicalAnd t1 t2) = False"

fun and_ok :: "nat \<Rightarrow> TaskBody \<Rightarrow> bool" where
  "and_ok i (Leaf ty) = True"
| "and_ok i (TaskLogicalAnd t1 t2) = (t1 \<noteq> t2 \<and> t1 < i \<and> t2 < i)"

definition typed :: "ITask \<Rightarrow> bool" where
  "typed t \<longleftrightarrow>
     myType t = TASK_MPI \<or> myType t = TASK_CUDA \<and> stream t \<noteq> None \<and> cudaEvent t \<noteq> None"

definition task_ok :: "nat \<Rightarrow> nat \<Rightarrow> ITask \<Rightarrow> bool" where
  "task_ok n i t \<longleftrightarrow>
     0 < i \<and> i < n \<and> and_ok i (body t) \<and> distinct (observers t) \<and>
     (ManagerObserver \<in> set (observers t) \<longleftrightarrow> \<not> is_leaf (body t)) \<and> typed t"

definition pend :: "(IEvent \<times> nat \<times> EventType) list \<Rightarrow> IEvent \<Rightarrow> nat \<Rightarrow> bool" where
  "pend wl ob e \<longleftrightarrow> (\<exists>ty. (ob, e, ty) \<in> set wl)"

definition observes :: "EventState \<Rightarrow> (IEvent \<times> nat \<times> EventType) list \<Rightarrow> IEvent \<Rightarrow> nat \<Rightarrow> bool" where
  "observes S wl ob e \<longleftrightarrow> (\<exists>t. obj S e = Some t \<and> ob \<in> set (observers t)) \<or> pend wl ob e"

definition pool_ok :: "EventState \<Rightarrow> bool" where
  "pool_ok S \<longleftrightarrow> currentEventIndex S < eventsCount S"

definition wf :: "EventState \<Rightarrow> (IEvent \<times> nat \<times> EventType) list \<Rightarrow> bool" where
  "wf S wl \<longleftrightarrow>
     (\<forall>i t. obj S i = Some t \<longrightarrow> task_ok (globalId S) i t) \<and>
     distinct (tasks S) \<and>
     (\<forall>i. i \<in> set (tasks S) \<longleftrightarrow> (\<exists>t. obj S i = Some t \<and> is_leaf (body t))) \<and>
     (\<forall>e. e \<in> set (passiveTasks S) \<longleftrightarrow> observes S wl ManagerObserver e) \<and>
     (\<forall>a e. observes S wl (TaskObserver a) e \<longleftrightarrow> (\<exists>t. obj S a = Some t \<and> e \<in> slots (body t))) \<and>
     (\<forall>ob e. pend wl ob e \<longrightarrow> obj S e = None \<and> 0 < e \<and> e < globalId S) \<and>
     distinct (map (\<lambda>(ob, e, ty). (ob, e)) wl) \<and>
     pool_ok S"

lemma wfD:
  assumes "wf S wl"
  shows wf_task: "obj S i = Some t \<Longrightarrow> task_ok (globalId S) i t"
    and wf_distinct: "distinct (tasks S)"
    and wf_tasks: "i \<in> set (tasks S) \<longleftrightarrow> (\<exists>t. obj S i = Some t \<and> is_leaf (body t))"
    and wf_passive: "e \<in> set (passiveTasks S) \<longleftrightarrow> observes S wl ManagerObserver e"
    and wf_observes: "observes S wl (TaskObserver a) e \<longleftrightarrow> (\<exists>t. obj S a = Some t \<and> e \<in> slots (body t))"
    and wf_pend: "pend wl ob e \<Longrightarrow> obj S e = None \<and> 0 < e \<and> e < globalId S"
    and wf_distinct_pend: "distinct (map (\<lambda>(ob, e, ty). (ob, e)) wl)"
    and wf_pool: "pool_ok S"
  using assms unfolding wf_def by blast+

lemma wfI:
  assumes "\<And>i t. obj S i = Some t \<Longrightarrow> task_ok (globalId S) i t"
    and "distinct (tasks S)"
    and "\<And>i. i \<in> set (tasks S) \<longleftrightarrow> (\<exists>t. obj S i = Some t \<and> is_leaf (body t))"
    and "\<And>e. e \<in> set (passiveTasks S) \<longleftrightarrow> observes S wl ManagerObserver e"
    and "\<And>a e. observes S wl (TaskObserver a) e \<longleftrightarrow> (\<exists>t. obj S a = Some t \<and> e \<in> slots (body t))"
    and "\<And>ob e. pend wl ob e \<Longrightarrow> obj S e = None \<and> 0 < e \<and> e < globalId S"
    and "distinct (map (\<lambda>(ob, e, ty). (ob, e)) wl)"
    and "pool_ok S"
  shows "wf S wl"
  using assms unfolding wf_def by blast

lemma pend_simps [simp]:
  "\<not> pend [] ob e"
  "pend ((ob', e', ty) # wl) ob e \<longleftrightarrow> (ob = ob' \<and> e = e') \<or> pend wl ob e"
  "pend (wl1 @ wl2) ob e \<longleftrightarrow> pend wl1 ob e \<or> pend wl2 ob e"
  by (auto simp: pend_def)

lemma pend_notify [simp]: "pend (notify i ty obs) ob e \<longleftrightarrow> e = i \<and> ob \<in> set obs"
  by (auto simp: pend_def notify_def)

lemma pend_notin: "pend wl ob e \<longleftrightarrow> (ob, e) \<in> set (map (\<lambda>(ob, e, ty). (ob, e)) wl)"
  by (force simp: pend_def)

definition streamState :: "EventState \<Rightarrow> bool \<times> nat \<times> nat" where
  "streamState S = (isActivated S, currentStreamIndex S, streamsCount S)"

lemma pool_stream_frame [simp]:
  "pool_ok (S\<lparr>tasks := xt\<rparr>) = pool_ok S" "streamState (S\<lparr>tasks := xt\<rparr>) = streamState S"
  "pool_ok (S\<lparr>passiveTasks := xp\<rparr>) = pool_ok S" "streamState (S\<lparr>passiveTasks := xp\<rparr>) = streamState S"
  "pool_ok (S\<lparr>polls := xc\<rparr>) = pool_ok S" "streamState (S\<lparr>polls := xc\<rparr>) = streamState S"
  "pool_ok (S\<lparr>transactions := xr\<rparr>) = pool_ok S" "streamState (S\<lparr>transactions := xr\<rparr>) = streamState S"
  "pool_ok (S\<lparr>globalId := xg\<rparr>) = pool_ok S" "streamState (S\<lparr>globalId := xg\<rparr>) = streamState S"
  by (simp_all add: pool_ok_def streamState_def)

lemma obj_put [simp]: "obj (put_object i t S) = (obj S)(i \<mapsto> t)"
  by (simp add: put_object_def update_conv')

lemma obj_free [simp]: "obj (free_object i S) = (obj S)(i := None)"
  by (simp add: free_object_def delete_conv')

lemma put_frame [simp]:
  "globalId (put_object i t S) = globalId S" "tasks (put_object i t S) = tasks S"
  "passiveTasks (put_object i t S) = passiveTasks S" "polls (put_object i t S) = polls S"
  "transactions (put_object i t S) = transactions S" "pool_ok (put_object i t S) = pool_ok S"
  "streamState (put_object i t S) = streamState S"
  by (simp_all add: put_object_def pool_ok_def streamState_def)

lemma free_frame [simp]:
  "globalId (free_object i S) = globalId S" "tasks (free_object i S) = tasks S"
  "passiveTasks (free_object i S) = passiveTasks S" "polls (free_object i S) = polls S"
  "transactions (free_object i S) = transactions S" "pool_ok (free_object i S) = pool_ok S"
  "streamState (free_object i S) = streamState S"
  by (simp_all add: free_object_def pool_ok_def streamState_def)

lemma Manager_event_frame [simp]:
  "globalId (Manager_event e S) = globalId S" "tasks (Manager_event e S) = tasks S"
  "objects (Manager_event e S) = objects S" "polls (Manager_event e S) = polls S"
  "transactions (Manager_event e S) = transactions S" "pool_ok (Manager_event e S) = pool_ok S"
  "streamState (Manager_event e S) = streamState S"
  by (simp_all add: Manager_event_def pool_ok_def streamState_def)

subsection \<open>Delivery of notifications\<close>

lemma wf_deliver_manager:
  assumes wf: "wf S ((ManagerObserver, e, ty) # wl)"
  shows "wf (Manager_event e S) wl"
proof -
  have e: "obj S e = None" and nd: "\<not> pend wl ManagerObserver e"
    using wfD(6) [OF wf] wfD(7) [OF wf] by (auto simp: pend_notin)
  have "i \<in> set (passiveTasks (Manager_event e S)) \<longleftrightarrow> observes S wl ManagerObserver i" for i
    using wfD(4) [OF wf, of i] e nd by (auto simp: Manager_event_def observes_def)
  then show ?thesis
    using wf e nd unfolding wf_def observes_def by auto
qed

lemma wf_pending_task:
  assumes wf: "wf S ((TaskObserver a, e, ty) # wl)"
  obtains t t1 t2 where "obj S a = Some t" "body t = TaskLogicalAnd t1 t2"
    "t1 \<noteq> t2" "e \<noteq> 0" "e = t1 \<or> e = t2" "obj S e = None"
    "\<not> pend wl (TaskObserver a) e"
proof -
  obtain t where t: "obj S a = Some t" "e \<in> slots (body t)"
    using wfD(5) [OF wf, of a e] by (auto simp: observes_def)
  then obtain t1 t2 where b: "body t = TaskLogicalAnd t1 t2" by (cases "body t") auto
  show ?thesis
    using that [OF t(1) b] t b wfD(1) [OF wf t(1)] wfD(6) [OF wf, of "TaskObserver a" e]
      wfD(7) [OF wf] by (auto simp: task_ok_def pend_notin)
qed

lemma wf_deliver_keep:
  assumes wf: "wf S ((TaskObserver a, e, ty) # wl)"
    and t: "obj S a = Some t" "body t = TaskLogicalAnd t1 t2"
    and s: "s = And_event e (t1, t2)" "\<not> And_executeIntern s"
  shows "wf (put_object a (t\<lparr>body := TaskLogicalAnd (fst s) (snd s)\<rparr>) S) wl" (is "wf ?S wl")
proof -
  obtain t' u1 u2 where u: "obj S a = Some t'" "body t' = TaskLogicalAnd u1 u2" "u1 \<noteq> u2" "e \<noteq> 0"
    "e = u1 \<or> e = u2" "obj S e = None" "\<not> pend wl (TaskObserver a) e"
    by (rule wf_pending_task [OF wf])
  with t have tt: "t' = t" "u1 = t1" "u2 = t2" by auto
  have sl: "slots (TaskLogicalAnd (fst s) (snd s)) = slots (body t) - {e}" "fst s \<noteq> snd s"
    "0 < a \<Longrightarrow> t1 < a \<Longrightarrow> t2 < a \<Longrightarrow> fst s < a \<and> snd s < a"
    using s u tt t(2) by (auto simp: And_event_def And_executeIntern_def split: if_splits)
  have ok: "task_ok (globalId S) a t" by (rule wfD(1) [OF wf t(1)])
  have obs: "observes ?S wl ob i \<longleftrightarrow> observes S wl ob i" for ob i
    using t by (auto simp: observes_def)
  have obsS: "observes S ((TaskObserver a, e, ty) # wl) ob i \<longleftrightarrow>
      observes S wl ob i \<or> (ob = TaskObserver a \<and> i = e)" for ob i
    by (auto simp: observes_def)
  have no: "\<not> observes S wl (TaskObserver a) e" using u by (simp add: observes_def)
  show ?thesis
  proof (rule wfI)
    fix b i
    show "observes ?S wl (TaskObserver b) i \<longleftrightarrow> (\<exists>t. obj ?S b = Some t \<and> i \<in> slots (body t))"
      using wfD(5) [OF wf, of b i] no t(1) sl(1) unfolding obs obsS
      by (cases "b = a"; cases "i = e"; simp del: slots.simps)
    show "i \<in> set (passiveTasks ?S) \<longleftrightarrow> observes ?S wl ManagerObserver i"
      using wfD(4) [OF wf, of i] unfolding obs obsS by simp
    show "i \<in> set (tasks ?S) \<longleftrightarrow> (\<exists>t. obj ?S i = Some t \<and> is_leaf (body t))"
      using wfD(3) [OF wf, of i] t by (cases "i = a") auto
  next
    fix i t'
    assume "obj ?S i = Some t'"
    then show "task_ok (globalId ?S) i t'"
      using wfD(1) [OF wf, of i t'] ok sl(2,3) t by (auto simp: task_ok_def typed_def split: if_splits)
  next
    fix ob i
    assume "pend wl ob i"
    then show "obj ?S i = None \<and> 0 < i \<and> i < globalId ?S"
      using wfD(6) [OF wf, of ob i] t by auto
  qed (use wfD(2,7,8) [OF wf] in simp_all)
qed

lemma wf_deliver_free:
  assumes wf: "wf S ((TaskObserver a, e, ty) # wl)"
    and t: "obj S a = Some t" "body t = TaskLogicalAnd t1 t2"
    and s: "And_executeIntern (And_event e (t1, t2))"
  shows "wf (free_object a S) (notify a LOGICALAND (observers t) @ wl)" (is "wf ?S ?wl")
proof -
  obtain t' u1 u2 where u: "obj S a = Some t'" "body t' = TaskLogicalAnd u1 u2" "u1 \<noteq> u2" "e \<noteq> 0"
    "e = u1 \<or> e = u2" "obj S e = None" "\<not> pend wl (TaskObserver a) e"
    by (rule wf_pending_task [OF wf])
  with t have tt: "t' = t" "u1 = t1" "u2 = t2" by auto
  have sl: "slots (body t) = {e}"
    using s u tt t(2) by (auto simp: And_event_def And_executeIntern_def split: if_splits)
  have obs: "observes ?S ?wl ob i \<longleftrightarrow> observes S wl ob i" for ob i
    using t by (auto simp: observes_def)
  have obsS: "observes S ((TaskObserver a, e, ty) # wl) ob i \<longleftrightarrow>
      observes S wl ob i \<or> (ob = TaskObserver a \<and> i = e)" for ob i
    by (auto simp: observes_def)
  have no: "\<not> observes S wl (TaskObserver a) e" using u by (simp add: observes_def)
  have pa: "\<not> pend wl ob a" for ob using wfD(6) [OF wf, of ob a] t by auto
  show ?thesis
  proof (rule wfI)
    fix b i
    show "observes ?S ?wl (TaskObserver b) i \<longleftrightarrow> (\<exists>t. obj ?S b = Some t \<and> i \<in> slots (body t))"
      using wfD(5) [OF wf, of b i] no t(1) sl unfolding obs obsS
      by (cases "b = a"; cases "i = e"; simp)
    show "i \<in> set (passiveTasks ?S) \<longleftrightarrow> observes ?S ?wl ManagerObserver i"
      using wfD(4) [OF wf, of i] unfolding obs obsS by simp
    show "i \<in> set (tasks ?S) \<longleftrightarrow> (\<exists>t. obj ?S i = Some t \<and> is_leaf (body t))"
      using wfD(3) [OF wf, of i] t by (cases "i = a") auto
  next
    fix i t'
    assume "obj ?S i = Some t'"
    then show "task_ok (globalId ?S) i t'"
      using wfD(1) [OF wf, of i t'] by (auto split: if_splits)
  next
    fix ob i
    assume "pend ?wl ob i"
    then show "obj ?S i = None \<and> 0 < i \<and> i < globalId ?S"
      using wfD(6) [OF wf, of ob i] wfD(1) [OF wf t(1)] by (auto simp: task_ok_def)
  next
    show "distinct (map (\<lambda>(ob, e, ty). (ob, e)) ?wl)"
      using wfD(7) [OF wf] wfD(1) [OF wf t(1)] pa
      by (auto simp: notify_def task_ok_def comp_def distinct_map inj_on_def pend_def)
  qed (use wfD(2,8) [OF wf] in simp_all)
qed

text \<open>What a delivery leaves unchanged.\<close>

definition same_frame :: "EventState \<Rightarrow> EventState \<Rightarrow> bool" where
  "same_frame S S' \<longleftrightarrow> globalId S' = globalId S \<and> tasks S' = tasks S \<and> polls S' = polls S \<and>
     transactions S' = transactions S \<and> streamState S' = streamState S"

lemma same_frame_refl [simp]: "same_frame S S"
  by (simp add: same_frame_def)

text \<open>
  The unfinished leaf tasks that a task id stands for; an id without a live object stands for none.
\<close>

function (sequential) leaves :: "EventState \<Rightarrow> nat \<Rightarrow> nat set" where
  "leaves S i =
     (case obj S i of
        None \<Rightarrow> {}
      | Some t \<Rightarrow>
          (case body t of
             Leaf ty \<Rightarrow> {i}
           | TaskLogicalAnd t1 t2 \<Rightarrow>
               (if t1 < i then leaves S t1 else {}) \<union> (if t2 < i then leaves S t2 else {})))"
  by auto
termination by (relation "measure snd") auto

declare leaves.simps [simp del]

lemma leaves_None: "obj S i = None \<Longrightarrow> leaves S i = {}"
  by (simp add: leaves.simps)

lemma leaves_Leaf: "obj S i = Some t \<Longrightarrow> is_leaf (body t) \<Longrightarrow> leaves S i = {i}"
  by (cases "body t") (simp_all add: leaves.simps)

lemma leaves_And:
  assumes "wf S wl" "obj S i = Some t" "\<not> is_leaf (body t)"
  shows "leaves S i = (\<Union>j \<in> slots (body t). leaves S j)"
proof -
  obtain t1 t2 where b: "body t = TaskLogicalAnd t1 t2" using assms(3) by (cases "body t") auto
  have lt: "t1 < i" "t2 < i" using wfD(1) [OF assms(1,2)] b by (auto simp: task_ok_def)
  have "leaves S 0 = {}"
    by (cases "obj S 0") (use wfD(1) [OF assms(1), of 0] in \<open>auto simp: task_ok_def leaves_None\<close>)
  then show ?thesis using assms b lt
    by (subst leaves.simps) auto
qed

lemma leaves_free_object:
  assumes "leaves S a \<subseteq> {a}"
  shows "leaves (free_object a S) i = leaves S i - leaves S a"
proof (induction i rule: less_induct)
  case (less i)
  show ?case
  proof (cases "i = a \<or> obj S i = None")
    case True
    then show ?thesis using leaves_None [of S i] leaves_None [of "free_object a S" i] by auto
  next
    case False
    then obtain t where t: "obj S i = Some t" "i \<noteq> a" by auto
    show ?thesis
    proof (cases "body t")
      case (Leaf ty)
      with t assms show ?thesis by (auto simp: leaves_Leaf)
    next
      case (TaskLogicalAnd t1 t2)
      with t have "leaves S i = (if t1 < i then leaves S t1 else {}) \<union> (if t2 < i then leaves S t2 else {})"
        "leaves (free_object a S) i = (if t1 < i then leaves (free_object a S) t1 else {}) \<union>
          (if t2 < i then leaves (free_object a S) t2 else {})"
        by (simp_all add: leaves.simps [of _ i])
      then show ?thesis using less.IH [of t1] less.IH [of t2] by auto
    qed
  qed
qed

lemma leaves_update_slots:
  assumes t: "obj S a = Some t" "body t = TaskLogicalAnd t1 t2"
    and b': "body t' = TaskLogicalAnd u1 u2"
    and u: "u1 = t1 \<or> leaves S t1 = {} \<and> u1 < a \<and> obj S u1 = None"
      "u2 = t2 \<or> leaves S t2 = {} \<and> u2 < a \<and> obj S u2 = None"
  shows "leaves (put_object a t' S) i = leaves S i"
proof (induction i rule: less_induct)
  case (less i)
  show ?case
  proof (cases "obj S i")
    case None
    with t show ?thesis by (subst (1 2) leaves.simps) auto
  next
    case (Some t0)
    have n: "obj S k = None \<Longrightarrow> leaves S k = {}" for k by (rule leaves_None)
    show ?thesis
      using Some t b' less.IH u n
      by (subst (1 2) leaves.simps) (auto split: TaskBody.splits if_splits)
  qed
qed

lemma wf_zero: "wf S wl \<Longrightarrow> obj S 0 = None"
  by (cases "obj S 0") (auto dest: wfD(1) simp: task_ok_def)

lemma leaves_deliver_keep:
  assumes wf: "wf S ((TaskObserver a, e, ty) # wl)"
    and t: "obj S a = Some t" "body t = TaskLogicalAnd t1 t2"
    and s: "s = And_event e (t1, t2)"
  shows "leaves (put_object a (t\<lparr>body := TaskLogicalAnd (fst s) (snd s)\<rparr>) S) i = leaves S i"
proof -
  have "obj S e = None" "0 < a" "obj S 0 = None"
    using wfD(6) [OF wf, of "TaskObserver a" e] wfD(1) [OF wf t(1)] wf_zero [OF wf]
    by (auto simp: task_ok_def)
  then show ?thesis
    by (intro leaves_update_slots [OF t]) (auto simp: s And_event_def leaves_None split: if_splits)
qed

lemma leaves_deliver_free:
  assumes wf: "wf S ((TaskObserver a, e, ty) # wl)"
    and t: "obj S a = Some t" "body t = TaskLogicalAnd t1 t2"
    and s: "And_executeIntern (And_event e (t1, t2))"
  shows "leaves (free_object a S) i = leaves S i"
proof -
  have "obj S e = None" "obj S 0 = None"
    using wfD(6) [OF wf, of "TaskObserver a" e] wf_zero [OF wf] by auto
  then have "leaves S a = {}"
    using s t by (subst leaves.simps)
      (auto simp: And_event_def And_executeIntern_def leaves_None split: if_splits)
  then show ?thesis using leaves_free_object [of S a i] by simp
qed

lemma leaves_Manager_event [simp]: "leaves (Manager_event e S) i = leaves S i"
  by (induction i rule: less_induct) (subst (1 2) leaves.simps, auto split: option.splits TaskBody.splits)

text \<open>A notification reaches live objects only, ends, restores the invariant and changes no set of
  unfinished leaves.\<close>

lemma deliver_ok:
  assumes "wf S wl"
  shows "\<exists>S'. deliver wl S = Some S' \<and> wf S' [] \<and> same_frame S S' \<and> leaves S' = leaves S"
  using assms
proof (induction wl S rule: deliver.induct)
  case (1 S)
  then show ?case by simp
next
  case (2 e ty wl S)
  from 2(1) [OF wf_deliver_manager [OF 2(2)]] show ?case
    by (auto simp: same_frame_def fun_eq_iff)
next
  case (3 a e ty wl S)
  obtain t t1 t2 where t: "obj S a = Some t" "body t = TaskLogicalAnd t1 t2"
    by (rule wf_pending_task [OF 3(4)])
  let ?s = "And_event e (t1, t2)"
  show ?case
  proof (cases "And_executeIntern ?s")
    case True
    from 3(2) [OF t refl True wf_deliver_free [OF 3(4) t True]]
    show ?thesis using t True leaves_deliver_free [OF 3(4) t True]
      by (auto simp: same_frame_def fun_eq_iff)
  next
    case False
    from 3(3) [OF t refl False wf_deliver_keep [OF 3(4) t refl False]]
    show ?thesis using t False leaves_deliver_keep [OF 3(4) t refl]
      by (auto simp: same_frame_def fun_eq_iff)
  qed
qed

subsection \<open>Progress of the manager\<close>

text \<open>
  \<open>advances S S'\<close> is the abstract step of the manager: some leaf tasks finish, and every id then
  stands for those of its leaves that are still active. No task is added and no transaction changes.
\<close>

definition advances :: "EventState \<Rightarrow> EventState \<Rightarrow> bool" where
  "advances S S' \<longleftrightarrow>
     globalId S' = globalId S \<and> transactions S' = transactions S \<and> polls S \<le> polls S' \<and>
     streamState S' = streamState S \<and> set (tasks S') \<subseteq> set (tasks S) \<and> (\<forall>i. leaves S' i = leaves S i \<inter> set (tasks S'))"

lemma advances_trans: "advances S S1 \<Longrightarrow> advances S1 S2 \<Longrightarrow> advances S S2"
  unfolding advances_def by auto

lemma leaves_active: "wf S wl \<Longrightarrow> leaves S i \<subseteq> set (tasks S)"
proof (induction i rule: less_induct)
  case (less i)
  show ?case
  proof (cases "obj S i")
    case (Some t)
    show ?thesis
    proof (cases "body t")
      case (Leaf ty)
      then show ?thesis using Some wfD(3) [OF less.prems, of i] leaves_Leaf [OF Some] by simp
    next
      case (TaskLogicalAnd t1 t2)
      then show ?thesis using Some less by (subst leaves.simps) auto
    qed
  qed (simp add: leaves_None)
qed

lemma advances_refl: "wf S wl \<Longrightarrow> advances S S"
  using leaves_active unfolding advances_def by blast

lemma leaves_frame: "objects S' = objects S \<Longrightarrow> leaves S' i = leaves S i"
  by (induction i rule: less_induct) (subst (1 2) leaves.simps, auto split: option.splits TaskBody.splits)

lemma wf_frame:
  assumes "wf S wl" "objects S' = objects S" "tasks S' = tasks S" "passiveTasks S' = passiveTasks S"
    "globalId S' = globalId S" "pool_ok S' = pool_ok S"
  shows "wf S' wl"
  using assms unfolding wf_def observes_def by simp

lemma wf_free_leaf:
  assumes wf: "wf S []" and x: "obj S x = Some t" "is_leaf (body t)"
  shows "wf (free_object x (S\<lparr>tasks := filter (\<lambda>k. k \<noteq> x) (tasks S)\<rparr>)) (notify x ty (observers t))"
    (is "wf ?S ?wl")
proof -
  have sl: "slots (body t) = {}" using x by (cases "body t") auto
  have ob: "obj ?S = (obj S)(x := None)" by simp
  have obs: "observes ?S ?wl ob i \<longleftrightarrow> observes S [] ob i" for ob i
    using x unfolding observes_def ob by auto
  have nx: "\<not> observes S [] (TaskObserver x) i" for i
    using wfD(5) [OF wf, of x i] x sl by auto
  show ?thesis
  proof (rule wfI)
    fix b i
    show "observes ?S ?wl (TaskObserver b) i \<longleftrightarrow> (\<exists>t. obj ?S b = Some t \<and> i \<in> slots (body t))"
      using wfD(5) [OF wf, of b i] nx [of i] unfolding obs ob by (cases "b = x"; simp)
    show "i \<in> set (passiveTasks ?S) \<longleftrightarrow> observes ?S ?wl ManagerObserver i"
      using wfD(4) [OF wf, of i] unfolding obs by simp
    show "i \<in> set (tasks ?S) \<longleftrightarrow> (\<exists>t. obj ?S i = Some t \<and> is_leaf (body t))"
      using wfD(3) [OF wf, of i] unfolding ob by (cases "i = x"; simp)
  next
    fix i t'
    assume "obj ?S i = Some t'"
    then show "task_ok (globalId ?S) i t'"
      using wfD(1) [OF wf, of i t'] unfolding ob by (simp split: if_splits)
  next
    fix ob i
    assume "pend ?wl ob i"
    then show "obj ?S i = None \<and> 0 < i \<and> i < globalId ?S"
      using wfD(1) [OF wf x(1)] by (simp add: task_ok_def)
  next
    show "distinct (map (\<lambda>(ob, e, ty). (ob, e)) ?wl)"
      using wfD(1) [OF wf x(1)] by (simp add: notify_def task_ok_def comp_def distinct_map inj_on_def)
  qed (use wfD(2,8) [OF wf] in simp_all)
qed

lemma delete_leaf_ok:
  assumes wf: "wf S []" and x: "x \<in> set (tasks S)"
  shows "\<exists>S'. delete_task x (S\<lparr>tasks := filter (\<lambda>k. k \<noteq> x) (tasks S)\<rparr>) = Some S' \<and> wf S' [] \<and>
     advances S S' \<and> tasks S' = filter (\<lambda>k. k \<noteq> x) (tasks S) \<and> polls S' = polls S"
proof -
  let ?S = "S\<lparr>tasks := filter (\<lambda>k. k \<noteq> x) (tasks S)\<rparr>"
  obtain t where t: "obj S x = Some t" "is_leaf (body t)" using wfD(3) [OF wf] x by auto
  obtain S' where S': "deliver (notify x (destroyType (body t)) (observers t)) (free_object x ?S) = Some S'"
    "wf S' []" "same_frame (free_object x ?S) S'" "leaves S' = leaves (free_object x ?S)"
    using deliver_ok [OF wf_free_leaf [OF wf t]] by blast
  have fr: "leaves ?S i = leaves S i" for i by (rule leaves_frame) simp
  have "leaves S' i = leaves S i - {x}" for i
    using S'(4) leaves_free_object [of ?S x i] leaves_Leaf [OF t] by (simp add: fr)
  then have "advances S S'" "tasks S' = filter (\<lambda>k. k \<noteq> x) (tasks S)" "polls S' = polls S"
    using S'(3) leaves_active [OF wf] unfolding advances_def same_frame_def by auto
  then show ?thesis using S' t by (simp add: delete_task_def)
qed

lemma task_execute_leaf:
  assumes "wf S []" "i \<in> set (tasks S)"
  shows "task_execute rt i S = Some (completed rt i (polls S), S\<lparr>polls := polls S + 1\<rparr>)"
proof -
  obtain t where "obj S i = Some t" "is_leaf (body t)" using wfD(3) [OF assms(1)] assms(2) by auto
  then show ?thesis by (cases "body t") (auto simp: task_execute_def)
qed

text \<open>One visit of the loop of \<open>Manager::execute\<close> to the active task \<open>i\<close>.\<close>

lemma visit_ok:
  assumes wf: "wf S []" and i: "i \<in> set (tasks S)"
  obtains S1 where "wf S1 []" "advances S S1" "polls S1 = polls S + 1"
    "tasks S1 = (if completed rt i (polls S) then filter (\<lambda>k. k \<noteq> i) (tasks S) else tasks S)"
    "\<And>w iter. execute_loop rt w (i # iter) S =
       (if completed rt i (polls S) \<and> w = i then Some (True, S1) else execute_loop rt w iter S1)"
proof -
  let ?S = "S\<lparr>polls := polls S + 1\<rparr>"
  have wf': "wf ?S []" by (rule wf_frame [OF wf]) simp_all
  have fr: "leaves (S\<lparr>polls := n\<rparr>) j = leaves S j" for n j by (rule leaves_frame) simp
  have adv: "advances S ?S" using advances_refl [OF wf] by (simp add: advances_def fr)
  show thesis
  proof (cases "completed rt i (polls S)")
    case True
    obtain S1 where "delete_task i (?S\<lparr>tasks := filter (\<lambda>k. k \<noteq> i) (tasks ?S)\<rparr>) = Some S1" "wf S1 []"
      "advances ?S S1" "tasks S1 = filter (\<lambda>k. k \<noteq> i) (tasks ?S)" "polls S1 = polls ?S"
      using delete_leaf_ok [OF wf', of i] i by auto
    then show thesis
      using True i advances_trans [OF adv] task_execute_leaf [OF wf i, of rt]
      by (intro that [of S1]) (auto simp: getActiveITaskIfNotFinished_def)
  next
    case False
    then show thesis using wf' adv task_execute_leaf [OF wf i, of rt] by (intro that [of ?S]) auto
  qed
qed

lemma execute_loop_ok:
  assumes "wf S []" "distinct iter" "set iter \<subseteq> set (tasks S)"
  shows "\<exists>b S'. execute_loop rt w iter S = Some (b, S') \<and> wf S' [] \<and> advances S S' \<and>
     (b \<longrightarrow> w \<in> set iter \<and> w \<notin> set (tasks S')) \<and>
     (\<not> b \<longrightarrow> polls S' = polls S + length iter \<and>
        (\<forall>x \<in> set iter. (\<forall>m \<ge> polls S. completed rt x m) \<longrightarrow> x \<notin> set (tasks S')))"
  using assms
proof (induction iter arbitrary: S)
  case Nil
  then show ?case by (auto intro: advances_refl)
next
  case (Cons i iter)
  have i: "i \<in> set (tasks S)" using Cons.prems(3) by simp
  obtain S1 where S1: "wf S1 []" "advances S S1" "polls S1 = polls S + 1"
    "tasks S1 = (if completed rt i (polls S) then filter (\<lambda>k. k \<noteq> i) (tasks S) else tasks S)"
    "execute_loop rt w (i # iter) S =
       (if completed rt i (polls S) \<and> w = i then Some (True, S1) else execute_loop rt w iter S1)"
    by (rule visit_ok [OF Cons.prems(1) i, of rt]) blast
  show ?case
  proof (cases "completed rt i (polls S) \<and> w = i")
    case True
    then show ?thesis using S1 by auto
  next
    case False
    have "set iter \<subseteq> set (tasks S1)" using S1(4) Cons.prems by auto
    then obtain b S' where S': "execute_loop rt w iter S1 = Some (b, S')" "wf S' []" "advances S1 S'"
      "b \<longrightarrow> w \<in> set iter \<and> w \<notin> set (tasks S')"
      "\<not> b \<longrightarrow> polls S' = polls S1 + length iter \<and>
        (\<forall>x \<in> set iter. (\<forall>m \<ge> polls S1. completed rt x m) \<longrightarrow> x \<notin> set (tasks S'))"
      using Cons.IH [OF S1(1)] Cons.prems(2) by auto
    have "set (tasks S') \<subseteq> set (tasks S1)" using S'(3) by (simp add: advances_def)
    then have "(\<forall>m \<ge> polls S. completed rt i m) \<longrightarrow> i \<notin> set (tasks S')" using S1(4) by auto
    then show ?thesis
      using S' S1 False advances_trans [OF S1(2) S'(3)] by auto
  qed
qed

lemma execute_ok:
  assumes wf: "wf S []"
  obtains b S' where "execute rt w S = Some (b, S')" "wf S' []" "advances S S'"
    "b \<Longrightarrow> w \<in> set (tasks S) \<and> w \<notin> set (tasks S')"
    "\<not> b \<Longrightarrow> polls S' = polls S + length (tasks S)"
    "\<not> b \<Longrightarrow> \<forall>x \<in> set (tasks S). \<forall>m \<ge> polls S. completed rt x m \<Longrightarrow> tasks S' = []"
proof -
  obtain b S' where S': "execute rt w S = Some (b, S')" "wf S' []" "advances S S'"
    "b \<longrightarrow> w \<in> set (tasks S) \<and> w \<notin> set (tasks S')"
    "\<not> b \<longrightarrow> polls S' = polls S + length (tasks S) \<and>
        (\<forall>x \<in> set (tasks S). (\<forall>m \<ge> polls S. completed rt x m) \<longrightarrow> x \<notin> set (tasks S'))"
    using execute_loop_ok [OF wf wfD(2) [OF wf], of rt w] by (auto simp: execute_def)
  have "tasks S' = []" if "\<not> b" "\<forall>x \<in> set (tasks S). \<forall>m \<ge> polls S. completed rt x m"
  proof -
    have "set (tasks S') \<subseteq> set (tasks S)" using S'(3) by (simp add: advances_def)
    moreover have "x \<notin> set (tasks S')" if "x \<in> set (tasks S)" for x
      using S'(5) \<open>\<not> b\<close> that \<open>\<forall>x \<in> set (tasks S). \<forall>m \<ge> polls S. completed rt x m\<close> by blast
    ultimately show ?thesis by (metis last_in_set subsetD)
  qed
  then show thesis using S' by (intro that [of b S']) auto
qed

subsection \<open>Finished events\<close>

text \<open>An event is finished exactly when none of the leaf tasks it stands for is active.\<close>

lemma leaves_alive:
  assumes "wf S []" "obj S i = Some t"
  shows "leaves S i \<noteq> {}"
  using assms(2)
proof (induction i arbitrary: t rule: less_induct)
  case (less i)
  show ?case
  proof (cases "body t")
    case (Leaf ty)
    then show ?thesis using leaves_Leaf [OF less.prems] by simp
  next
    case (TaskLogicalAnd t1 t2)
    then have ok: "t1 \<noteq> t2" "t1 < i" "t2 < i" using wfD(1) [OF assms(1) less.prems] by (auto simp: task_ok_def)
    then obtain j where j: "j \<in> slots (body t)" "j < i" using TaskLogicalAnd by (cases "t1 = 0") auto
    then have "observes S [] (TaskObserver i) j" using wfD(5) [OF assms(1)] less.prems by blast
    then obtain u where "obj S j = Some u" by (auto simp: observes_def)
    then have "leaves S j \<noteq> {}" using less.IH j by blast
    then show ?thesis using leaves_And [OF assms(1) less.prems] TaskLogicalAnd j by auto
  qed
qed

lemma unfinished_alive:
  assumes "wf S []"
  shows "getITaskIfNotFinished e S = (if obj S e = None then None else Some e)"
proof -
  have "e \<in> set (passiveTasks S) \<or> e \<in> set (tasks S) \<longleftrightarrow> obj S e \<noteq> None"
    using wfD(3,4) [OF assms, of e] wfD(1) [OF assms, of e]
    by (auto simp: observes_def task_ok_def)
  then show ?thesis
    by (auto simp: getITaskIfNotFinished_def getPassiveITaskIfNotFinished_def
        getActiveITaskIfNotFinished_def)
qed

lemma finished_leaves: "wf S [] \<Longrightarrow> isFinished e S \<longleftrightarrow> leaves S e = {}"
  using leaves_alive [of S e] leaves_None [of S e] unfinished_alive [of S e]
  by (cases "obj S e") (auto simp: isFinished_def)

lemma idle_passive: "wf S [] \<Longrightarrow> tasks S = [] \<Longrightarrow> passiveTasks S = [] \<and> (\<forall>i. obj S i = None)"
proof -
  assume wf: "wf S []" "tasks S = []"
  have n: "obj S i = None" for i
    using leaves_alive [OF wf(1), of i] leaves_active [OF wf(1), of i] wf(2) by (cases "obj S i") auto
  then have "e \<notin> set (passiveTasks S)" for e
    using wfD(4) [OF wf(1), of e] by (simp add: observes_def)
  then show ?thesis using n by (metis last_in_set)
qed

section \<open>Waiting\<close>

text \<open>
  The interface of a waiting loop: a pass either reports that the awaited condition holds or
  advances a clock, and a pass that starts at or after the \<open>horizon\<close> establishes the condition. A
  loop that repeats the pass until the condition holds then returns.
\<close>

locale busy_wait =
  fixes pass :: "'s \<Rightarrow> (bool \<times> 's) option"
    and fin :: "'s \<Rightarrow> bool"
    and inv :: "'s \<Rightarrow> bool"
    and rel :: "'s \<Rightarrow> 's \<Rightarrow> bool"
    and clock :: "'s \<Rightarrow> nat"
    and horizon :: nat
    and loop :: "'s \<Rightarrow> 's option"
  assumes pass_ok: "inv S \<Longrightarrow> \<not> fin S \<Longrightarrow>
      \<exists>b S'. pass S = Some (b, S') \<and> inv S' \<and> rel S S' \<and> (b \<longrightarrow> fin S') \<and>
        (\<not> b \<longrightarrow> clock S < clock S') \<and> (\<not> b \<and> horizon \<le> clock S \<longrightarrow> fin S')"
    and rel_trans: "rel S S1 \<Longrightarrow> rel S1 S2 \<Longrightarrow> rel S S2"
    and loop_unfold: "inv S \<Longrightarrow> \<not> fin S \<Longrightarrow> pass S = Some (b, S') \<Longrightarrow>
      loop S = (if b \<or> fin S' then Some S' else loop S')"
begin

lemma returns:
  assumes "inv S" "\<not> fin S"
  shows "\<exists>S'. loop S = Some S' \<and> inv S' \<and> rel S S' \<and> fin S'"
  using assms
proof (induction "horizon + 1 - clock S" arbitrary: S rule: less_induct)
  case less
  obtain b S1 where S1: "pass S = Some (b, S1)" "inv S1" "rel S S1" "b \<longrightarrow> fin S1"
    "\<not> b \<longrightarrow> clock S < clock S1" "\<not> b \<and> horizon \<le> clock S \<longrightarrow> fin S1"
    using pass_ok [OF less.prems] by blast
  show ?case
  proof (cases "fin S1")
    case True
    then show ?thesis using S1 loop_unfold [OF less.prems S1(1)] by auto
  next
    case False
    then have lt: "horizon + 1 - clock S1 < horizon + 1 - clock S" using S1 by linarith
    obtain S2 where "loop S1 = Some S2" "inv S2" "rel S1 S2" "fin S2"
      using less.hyps [OF lt S1(2) False] by blast
    then show ?thesis using S1 False rel_trans loop_unfold [OF less.prems S1(1)] by auto
  qed
qed

end

text \<open>The horizon of a state: from this poll on the runtime reports every active task as done.\<close>

definition settled :: "Runtime \<Rightarrow> nat \<Rightarrow> EventState \<Rightarrow> bool" where
  "settled rt h S \<longleftrightarrow> wf S [] \<and> (\<forall>x \<in> set (tasks S). \<forall>m \<ge> h. completed rt x m)"

lemma settled_advances: "settled rt h S \<Longrightarrow> wf S' [] \<Longrightarrow> advances S S' \<Longrightarrow> settled rt h S'"
  unfolding settled_def advances_def by blast

lemma pass_settled:
  assumes S: "settled rt h S" and ne: "tasks S \<noteq> []"
  obtains b S' where "execute rt w S = Some (b, S')" "settled rt h S'" "advances S S'"
    "b \<Longrightarrow> w \<in> set (tasks S) \<and> w \<notin> set (tasks S')" "\<not> b \<Longrightarrow> polls S < polls S'"
    "\<not> b \<Longrightarrow> h \<le> polls S \<Longrightarrow> tasks S' = [] \<and> passiveTasks S' = []"
proof -
  have wf: "wf S []" using S by (simp add: settled_def)
  obtain b S' where S': "execute rt w S = Some (b, S')" "wf S' []" "advances S S'"
    "b \<Longrightarrow> w \<in> set (tasks S) \<and> w \<notin> set (tasks S')"
    "\<not> b \<Longrightarrow> polls S' = polls S + length (tasks S)"
    "\<not> b \<Longrightarrow> \<forall>x \<in> set (tasks S). \<forall>m \<ge> polls S. completed rt x m \<Longrightarrow> tasks S' = []"
    by (rule execute_ok [OF wf, of rt w]) (rule that)
  have "tasks S' = [] \<and> passiveTasks S' = []" if "\<not> b" "h \<le> polls S"
    using S'(6) [OF that(1)] idle_passive [OF S'(2)] S that(2) unfolding settled_def
    by (meson order_trans)
  then show thesis
    using S' ne settled_advances [OF S S'(2,3)] by (intro that [of b S']) auto
qed

lemma zero_not_active: "wf S wl \<Longrightarrow> 0 \<notin> set (tasks S)"
  using wf_zero wfD(3) by fastforce

lemma pass_zero: "wf S [] \<Longrightarrow> execute rt 0 S = Some (b, S') \<Longrightarrow> \<not> b"
  using execute_ok [of S rt 0 "\<not> b"] zero_not_active [of S "[]"] by fastforce

lemma waitPassive_unfold:
  "waitPassive rt e S =
     (case execute rt 0 S of
        None \<Rightarrow> None
      | Some (b, S1) \<Rightarrow> if e \<in> set (passiveTasks S1) then waitPassive rt e S1 else Some S1)"
  by (subst waitPassive.simps) (auto simp: getPassiveITaskIfNotFinished_def split: option.splits)

lemma waitActive_unfold:
  "waitActive rt e S =
     (case execute rt e S of
        None \<Rightarrow> None
      | Some (b, S1) \<Rightarrow> if b \<or> e \<notin> set (tasks S1) then Some S1 else waitActive rt e S1)"
  by (subst waitActive.simps) (auto simp: getActiveITaskIfNotFinished_def split: option.splits)

interpretation passive_wait: busy_wait "execute rt 0" "\<lambda>S. e \<notin> set (passiveTasks S)" "settled rt h"
  advances polls h "waitPassive rt e" for rt e h
proof
  fix S
  assume S: "settled rt h S" "\<not> e \<notin> set (passiveTasks S)"
  then have wf: "wf S []" and ne: "tasks S \<noteq> []" using idle_passive [of S] by (auto simp: settled_def)
  obtain b S' where "execute rt 0 S = Some (b, S')" "settled rt h S'" "advances S S'"
    "b \<Longrightarrow> 0 \<in> set (tasks S) \<and> 0 \<notin> set (tasks S')" "\<not> b \<Longrightarrow> polls S < polls S'"
    "\<not> b \<Longrightarrow> h \<le> polls S \<Longrightarrow> tasks S' = [] \<and> passiveTasks S' = []"
    by (rule pass_settled [OF S(1) ne, of 0]) (rule that)
  then show "\<exists>b S'. execute rt 0 S = Some (b, S') \<and> settled rt h S' \<and> advances S S' \<and>
      (b \<longrightarrow> e \<notin> set (passiveTasks S')) \<and> (\<not> b \<longrightarrow> polls S < polls S') \<and>
      (\<not> b \<and> h \<le> polls S \<longrightarrow> e \<notin> set (passiveTasks S'))"
    using pass_zero [OF wf, of rt b S'] by (intro exI [of _ b] exI [of _ S']) auto
next
  fix S b S'
  assume S: "settled rt h S" "execute rt 0 S = Some (b, S')"
  then have "\<not> b" using pass_zero by (auto simp: settled_def)
  then show "waitPassive rt e S =
      (if b \<or> e \<notin> set (passiveTasks S') then Some S' else waitPassive rt e S')"
    using S by (subst waitPassive_unfold) simp
qed (rule advances_trans)

interpretation active_wait: busy_wait "execute rt e" "\<lambda>S. e \<notin> set (tasks S)" "settled rt h"
  advances polls h "waitActive rt e" for rt e h
proof
  fix S
  assume S: "settled rt h S" "\<not> e \<notin> set (tasks S)"
  then have ne: "tasks S \<noteq> []" by auto
  obtain b S' where "execute rt e S = Some (b, S')" "settled rt h S'" "advances S S'"
    "b \<Longrightarrow> e \<in> set (tasks S) \<and> e \<notin> set (tasks S')" "\<not> b \<Longrightarrow> polls S < polls S'"
    "\<not> b \<Longrightarrow> h \<le> polls S \<Longrightarrow> tasks S' = [] \<and> passiveTasks S' = []"
    by (rule pass_settled [OF S(1) ne, of e]) (rule that)
  then show "\<exists>b S'. execute rt e S = Some (b, S') \<and> settled rt h S' \<and> advances S S' \<and>
      (b \<longrightarrow> e \<notin> set (tasks S')) \<and> (\<not> b \<longrightarrow> polls S < polls S') \<and>
      (\<not> b \<and> h \<le> polls S \<longrightarrow> e \<notin> set (tasks S'))"
    by (intro exI [of _ b] exI [of _ S']) auto
next
  fix S b S'
  assume "execute rt e S = Some (b, S')"
  then show "waitActive rt e S = (if b \<or> e \<notin> set (tasks S') then Some S' else waitActive rt e S')"
    by (subst waitActive_unfold) simp
qed (rule advances_trans)

interpretation all_wait: busy_wait "execute rt 0" "\<lambda>S. tasks S = [] \<and> passiveTasks S = []"
  "settled rt h" advances polls h "waitForAllTasks rt" for rt h
proof
  fix S
  assume S: "settled rt h S" "\<not> (tasks S = [] \<and> passiveTasks S = [])"
  then have wf: "wf S []" and ne: "tasks S \<noteq> []" using idle_passive [of S] by (auto simp: settled_def)
  obtain b S' where "execute rt 0 S = Some (b, S')" "settled rt h S'" "advances S S'"
    "b \<Longrightarrow> 0 \<in> set (tasks S) \<and> 0 \<notin> set (tasks S')" "\<not> b \<Longrightarrow> polls S < polls S'"
    "\<not> b \<Longrightarrow> h \<le> polls S \<Longrightarrow> tasks S' = [] \<and> passiveTasks S' = []"
    by (rule pass_settled [OF S(1) ne, of 0]) (rule that)
  then show "\<exists>b S'. execute rt 0 S = Some (b, S') \<and> settled rt h S' \<and> advances S S' \<and>
      (b \<longrightarrow> tasks S' = [] \<and> passiveTasks S' = []) \<and> (\<not> b \<longrightarrow> polls S < polls S') \<and>
      (\<not> b \<and> h \<le> polls S \<longrightarrow> tasks S' = [] \<and> passiveTasks S' = [])"
    using pass_zero [OF wf, of rt b S'] by (intro exI [of _ b] exI [of _ S']) auto
next
  fix S b S'
  assume S: "settled rt h S" "\<not> (tasks S = [] \<and> passiveTasks S = [])" "execute rt 0 S = Some (b, S')"
  then have "\<not> b" using pass_zero by (auto simp: settled_def)
  moreover have "waitForAllTasks rt S = waitForAllTasks rt S'"
    using S by (subst waitForAllTasks.simps) auto
  ultimately show "waitForAllTasks rt S =
      (if b \<or> (tasks S' = [] \<and> passiveTasks S' = []) then Some S' else waitForAllTasks rt S')"
    using waitForAllTasks.simps [of rt S'] by auto
qed (rule advances_trans)

text \<open>
  The runtime is fair when every operation is reported as done from some poll on.
\<close>

definition fair :: "Runtime \<Rightarrow> bool" where
  "fair rt \<longleftrightarrow> (\<forall>x. \<exists>n. \<forall>m \<ge> n. completed rt x m)"

lemma fair_settled: "fair rt \<Longrightarrow> wf S [] \<Longrightarrow> \<exists>h. settled rt h S"
proof -
  assume fair: "fair rt" and wf: "wf S []"
  have "\<exists>h. \<forall>x \<in> set xs. \<forall>m \<ge> h. completed rt x m" for xs
  proof (induction xs)
    case (Cons x xs)
    then obtain h n where "\<forall>x \<in> set xs. \<forall>m \<ge> h. completed rt x m" "\<forall>m \<ge> n. completed rt x m"
      using fair unfolding fair_def by blast
    then show ?case by (intro exI [of _ "max h n"]) auto
  qed simp
  then show ?thesis using wf by (auto simp: settled_def)
qed

lemma isFinished_iff: "isFinished e S \<longleftrightarrow> e \<notin> set (passiveTasks S) \<and> e \<notin> set (tasks S)"
  by (simp add: isFinished_def getITaskIfNotFinished_def getPassiveITaskIfNotFinished_def
      getActiveITaskIfNotFinished_def)

lemma waitForFinished_ok:
  assumes "fair rt" "wf S []"
  shows "\<exists>S'. Manager_waitForFinished rt e S = Some S' \<and> wf S' [] \<and> advances S S' \<and> isFinished e S'"
proof -
  obtain h where h: "settled rt h S" using fair_settled [OF assms] by blast
  have excl: "e \<in> set (tasks S) \<Longrightarrow> wf S [] \<Longrightarrow> e \<notin> set (passiveTasks S)" for S
    using wfD(3,4) [of S "[]" e] wfD(1) [of S "[]" e] by (auto simp: observes_def task_ok_def)
  have lv: "leaves S e = {e}" if "e \<in> set (tasks S)"
    using that wfD(3) [OF assms(2), of e] leaves_Leaf by auto
  show ?thesis
  proof (cases "e \<in> set (passiveTasks S)")
    case True
    then obtain S' where S': "waitPassive rt e S = Some S'" "settled rt h S'" "advances S S'"
      "e \<notin> set (passiveTasks S')"
      using passive_wait.returns [OF h, of e] by auto
    have "e \<notin> set (tasks S')" using S'(3) excl [of S] True assms(2) by (auto simp: advances_def)
    then show ?thesis
      using S' True unfolding isFinished_iff by (auto simp: Manager_waitForFinished_def settled_def
          getPassiveITaskIfNotFinished_def)
  next
    case np: False
    show ?thesis
    proof (cases "e \<in> set (tasks S)")
      case True
      then obtain S' where S': "waitActive rt e S = Some S'" "settled rt h S'" "advances S S'"
        "e \<notin> set (tasks S')"
        using active_wait.returns [OF h, of e] by auto
      have "leaves S' e = {}" using S'(3,4) lv [OF True] by (simp add: advances_def)
      then show ?thesis
        using S' np True finished_leaves [of S' e] by (auto simp: Manager_waitForFinished_def settled_def
            getPassiveITaskIfNotFinished_def getActiveITaskIfNotFinished_def)
    next
      case False
      then show ?thesis using np assms(2) advances_refl [OF assms(2)] unfolding isFinished_iff
        by (auto simp: Manager_waitForFinished_def getPassiveITaskIfNotFinished_def
            getActiveITaskIfNotFinished_def)
    qed
  qed
qed

section \<open>Sums of events\<close>

lemma addObserver_simps [simp]:
  "body (addObserver rt ob t) = body t" "myType (addObserver rt ob t) = myType t"
  "stream (addObserver rt ob t) = stream t" "cudaEvent (addObserver rt ob t) = cudaEvent t"
  "set (observers (addObserver rt ob t)) = insert ob (set (observers t))"
  "distinct (observers (addObserver rt ob t)) = distinct (observers t)"
  by (auto simp: addObserver_def set_insort_key distinct_insort)

lemma typed_addObserver [simp]: "typed (addObserver rt ob t) = typed t"
  by (simp add: typed_def)

lemma enqueue_frame [simp]:
  "objects (enqueue s op S) = objects S" "globalId (enqueue s op S) = globalId S"
  "tasks (enqueue s op S) = tasks S" "passiveTasks (enqueue s op S) = passiveTasks S"
  "polls (enqueue s op S) = polls S" "transactions (enqueue s op S) = transactions S"
  "pool_ok (enqueue s op S) = pool_ok S" "streamState (enqueue s op S) = streamState S"
  by (simp_all add: enqueue_def pool_ok_def streamState_def)

lemma waitOn_frame [simp]:
  "objects (waitOn s ev S) = objects S" "globalId (waitOn s ev S) = globalId S"
  "tasks (waitOn s ev S) = tasks S" "passiveTasks (waitOn s ev S) = passiveTasks S"
  "polls (waitOn s ev S) = polls S" "transactions (waitOn s ev S) = transactions S"
  "pool_ok (waitOn s ev S) = pool_ok S" "streamState (waitOn s ev S) = streamState S"
  by (simp_all add: waitOn_def)

lemma activate_ok:
  assumes "obj S i = Some t" "stream t = Some s" "pool_ok S"
  shows "\<exists>S' e. activate i S = Some S' \<and> obj S' = (obj S)(i \<mapsto> t\<lparr>cudaEvent := Some (e, s)\<rparr>) \<and>
     same_frame S S' \<and> passiveTasks S' = passiveTasks S \<and> pool_ok S'"
  using assms
  by (auto simp: activate_def getNextEvent_def same_frame_def put_object_def update_conv'
      pool_ok_def streamState_def enqueue_def)

lemma combine_ok:
  assumes x: "obj S s1 = Some x1" "obj S s2 = Some x2" "typed x1" "typed x2" "s1 \<noteq> s2"
    and n: "obj S n = Some t" "n \<noteq> s1" "n \<noteq> s2" "stream t = None"
    and pool: "pool_ok S"
  shows "\<exists>S' t'. combine rt n s1 s2 S = Some S' \<and> same_frame S S' \<and>
     passiveTasks S' = passiveTasks S \<and> pool_ok S' \<and>
     obj S' = (obj S)(s1 \<mapsto> addObserver rt (TaskObserver n) x1,
       s2 \<mapsto> addObserver rt (TaskObserver n) x2, n \<mapsto> t') \<and>
     body t' = body t \<and> observers t' = observers t \<and> typed t'"
proof -
  let ?O = "(obj S)(s1 \<mapsto> addObserver rt (TaskObserver n) x1, s2 \<mapsto> addObserver rt (TaskObserver n) x2)"
  let ?S2 = "put_object s2 (addObserver rt (TaskObserver n) x2)
    (put_object s1 (addObserver rt (TaskObserver n) x1) S)"
  have O: "obj ?S2 = ?O" by simp
  consider (cc) "myType x1 = TASK_CUDA" "myType x2 = TASK_CUDA"
    | (mc) "myType x1 = TASK_MPI" "myType x2 = TASK_CUDA"
    | (cm) "myType x1 = TASK_CUDA" "myType x2 = TASK_MPI"
    | (mm) "myType x1 = TASK_MPI" "myType x2 = TASK_MPI"
    using x(3,4) by (auto simp: typed_def)
  then show ?thesis
  proof cases
    case cc
    obtain st where st: "stream x2 = Some st" using x(4) cc by (auto simp: typed_def)
    obtain ev where ev: "cudaEvent x1 = Some ev" using x(3) cc by (auto simp: typed_def)
    let ?t = "t\<lparr>myType := TASK_CUDA, stream := Some st\<rparr>"
    let ?S5 = "put_object n ?t (put_object n (t\<lparr>myType := TASK_CUDA\<rparr>) ?S2)"
    have "obj (waitOn st ev ?S5) n = Some ?t" by simp
    from activate_ok [OF this, of st] obtain S' e where
      S': "activate n (waitOn st ev ?S5) = Some S'" "obj S' = (obj ?S5)(n \<mapsto> ?t\<lparr>cudaEvent := Some (e, st)\<rparr>)"
      "same_frame (waitOn st ev ?S5) S'" "passiveTasks S' = passiveTasks (waitOn st ev ?S5)" "pool_ok S'"
      using pool by auto
    have "combine rt n s1 s2 S = Some S'"
      using x n cc st ev S'(1)
      by (simp add: combine_def register_def getTaskType_def setTaskType_def getEventStream_def
          setEventStream_def getCudaEvent_def)
    then show ?thesis using S'
      by (intro exI [of _ S'] exI [of _ "?t\<lparr>cudaEvent := Some (e, st)\<rparr>"])
        (auto simp: same_frame_def typed_def)
  next
    case mc
    then obtain st where "stream x2 = Some st" using x(4) by (auto simp: typed_def)
    then show ?thesis using x n mc pool
      by (intro exI [of _ "put_object n (t\<lparr>myType := TASK_MPI, stream := Some st\<rparr>)
            (put_object n (t\<lparr>myType := TASK_MPI\<rparr>) ?S2)"]
          exI [of _ "t\<lparr>myType := TASK_MPI, stream := Some st\<rparr>"])
        (simp add: combine_def register_def getTaskType_def setTaskType_def getEventStream_def
          setEventStream_def same_frame_def typed_def)
  next
    case cm
    then obtain st where "stream x1 = Some st" using x(3) by (auto simp: typed_def)
    then show ?thesis using x n cm pool
      by (intro exI [of _ "put_object n (t\<lparr>myType := TASK_MPI, stream := Some st\<rparr>)
            (put_object n (t\<lparr>myType := TASK_MPI\<rparr>) ?S2)"]
          exI [of _ "t\<lparr>myType := TASK_MPI, stream := Some st\<rparr>"])
        (simp add: combine_def register_def getTaskType_def setTaskType_def getEventStream_def
          setEventStream_def same_frame_def typed_def)
  next
    case mm
    then show ?thesis using x n pool
      by (intro exI [of _ "put_object n (t\<lparr>myType := TASK_MPI\<rparr>) ?S2"] exI [of _ "t\<lparr>myType := TASK_MPI\<rparr>"])
        (simp add: combine_def register_def getTaskType_def setTaskType_def same_frame_def typed_def)
  qed
qed

text \<open>\<open>extends S S'\<close>: tasks may have been created, nothing that existed has changed its leaves.\<close>

definition extends :: "EventState \<Rightarrow> EventState \<Rightarrow> bool" where
  "extends S S' \<longleftrightarrow> globalId S \<le> globalId S' \<and> polls S' = polls S \<and> streamState S' = streamState S \<and>
     (\<forall>i < globalId S. leaves S' i = leaves S i)"

lemma extends_refl [simp]: "extends S S"
  by (simp add: extends_def)

lemma extends_trans: "extends S S1 \<Longrightarrow> extends S1 S2 \<Longrightarrow> extends S S2"
  by (auto simp: extends_def)

lemma leaves_and_added:
  assumes wf: "wf S []"
    and x: "obj S s1 = Some x1" "obj S s2 = Some x2"
    and S': "obj S' = (obj S)(s1 \<mapsto> y1, s2 \<mapsto> y2, n \<mapsto> t)" "body y1 = body x1" "body y2 = body x2"
    and n: "n = globalId S"
    and i: "i < n"
  shows "leaves S' i = leaves S i"
  using i
proof (induction i rule: less_induct)
  case (less i)
  have b: "map_option body (obj S' i) = map_option body (obj S i)"
    using x S' less.prems by auto
  show ?case
  proof (cases "obj S i")
    case None
    with b show ?thesis by (simp add: leaves_None)
  next
    case (Some u)
    with b obtain u' where u': "obj S' i = Some u'" "body u' = body u" by (cases "obj S' i") auto
    show ?thesis using Some u' less.IH less.prems
      by (subst (1 2) leaves.simps) (auto split: TaskBody.splits)
  qed
qed

lemma wf_and_added:
  assumes wf: "wf S []"
    and x: "obj S s1 = Some x1" "obj S s2 = Some x2" "s1 \<noteq> s2"
    and S': "obj S' = (obj S)(s1 \<mapsto> addObserver rt (TaskObserver n) x1,
       s2 \<mapsto> addObserver rt (TaskObserver n) x2, n \<mapsto> t)"
      "globalId S' = n + 1" "tasks S' = tasks S" "passiveTasks S' = List.insort_insert n (passiveTasks S)"
      "pool_ok S'"
    and n: "n = globalId S"
    and t: "body t = TaskLogicalAnd s1 s2" "observers t = [ManagerObserver]" "typed t"
  shows "wf S' []"
proof -
  have ok: "task_ok n s1 x1" "task_ok n s2 x2" "s1 < n" "s2 < n" "0 < s1" "0 < s2"
    using wfD(1) [OF wf x(1)] wfD(1) [OF wf x(2)] by (auto simp: task_ok_def n)
  have fresh: "obj S n = None" using wfD(1) [OF wf, of n] n by (cases "obj S n") (auto simp: task_ok_def)
  have obs: "observes S' [] ob i \<longleftrightarrow> observes S [] ob i \<or> (ob = TaskObserver n \<and> (i = s1 \<or> i = s2)) \<or>
      (ob = ManagerObserver \<and> i = n)" for ob i
    using x ok fresh t unfolding observes_def S'(1) by auto
  have no: "\<not> observes S [] (TaskObserver n) i" for i
    using wfD(5) [OF wf, of n i] fresh by simp
  show ?thesis
  proof (rule wfI)
    fix b i
    show "observes S' [] (TaskObserver b) i \<longleftrightarrow> (\<exists>t. obj S' b = Some t \<and> i \<in> slots (body t))"
    proof (cases "b = n")
      case True
      then show ?thesis using no [of i] ok t unfolding obs S'(1) by auto
    next
      case False
      then have "map_option body (obj S' b) = map_option body (obj S b)"
        using x unfolding S'(1) by simp
      then have "(\<exists>t. obj S' b = Some t \<and> i \<in> slots (body t)) \<longleftrightarrow> (\<exists>t. obj S b = Some t \<and> i \<in> slots (body t))"
        by (cases "obj S' b"; cases "obj S b"; simp)
      then show ?thesis using wfD(5) [OF wf, of b i] False unfolding obs by simp
    qed
    show "i \<in> set (passiveTasks S') \<longleftrightarrow> observes S' [] ManagerObserver i"
      using wfD(4) [OF wf, of i] unfolding obs S'(4) by (auto simp: set_insort_insert)
    show "i \<in> set (tasks S') \<longleftrightarrow> (\<exists>t. obj S' i = Some t \<and> is_leaf (body t))"
      using wfD(3) [OF wf, of i] x t fresh unfolding S' by auto
  next
    fix i u
    assume u: "obj S' i = Some u"
    show "task_ok (globalId S') i u"
    proof (cases "i = n \<or> i = s1 \<or> i = s2")
      case True
      with u have "(i = n \<and> u = t) \<or> (i = s1 \<and> u = addObserver rt (TaskObserver n) x1) \<or>
          (i = s2 \<and> u = addObserver rt (TaskObserver n) x2)"
        unfolding S'(1) using x(3) ok(3,4) by auto
      then show ?thesis using ok x(3) t S'(2) by (elim disjE) (simp_all add: task_ok_def)
    next
      case False
      with u have "obj S i = Some u" unfolding S'(1) by simp
      then show ?thesis using wfD(1) [OF wf] S'(2) n by (fastforce simp: task_ok_def)
    qed
  qed (use S'(3,5) wfD(2) [OF wf] in simp_all)
qed

lemma event_add_ok:
  assumes wf: "wf S []" and lt: "e < globalId S" "other < globalId S"
  shows "\<exists>e' S'. event_add rt e other S = Some (e', S') \<and> wf S' [] \<and> extends S S' \<and>
     e' < globalId S' \<and> (\<forall>i < globalId S'. i < globalId S \<or> i = e') \<and> tasks S' = tasks S \<and> transactions S' = transactions S \<and>
     leaves S' e' = leaves S e \<union> leaves S other"
proof (cases "e = other \<or> obj S e = None \<or> obj S other = None")
  case True
  then show ?thesis
    using wf lt leaves_None [of S e] leaves_None [of S other] unfinished_alive [OF wf]
    by (auto simp: event_add_def)
next
  case False
  then obtain x1 x2 where x: "obj S e = Some x1" "obj S other = Some x2" "e \<noteq> other" by auto
  let ?n = "globalId S"
  obtain S1 where S1: "new_task TASK_CUDA (TaskLogicalAnd e other) S = (?n, S1)" by (simp add: new_task_def)
  let ?t = "\<lparr>myType = TASK_CUDA, body = TaskLogicalAnd e other, observers = [], stream = None,
    cudaEvent = None\<rparr>"
  have f1: "obj S1 = (obj S)(?n \<mapsto> ?t)" "globalId S1 = ?n + 1" "tasks S1 = tasks S" "polls S1 = polls S"
    "passiveTasks S1 = passiveTasks S" "transactions S1 = transactions S" "pool_ok S1"
    "streamState S1 = streamState S"
    using S1 wfD(8) [OF wf] by (auto simp: new_task_def)
  have ty: "typed x1" "typed x2" using wfD(1) [OF wf] x by (auto simp: task_ok_def)
  obtain S2 t' where S2: "combine rt ?n e other S1 = Some S2" "same_frame S1 S2"
    "passiveTasks S2 = passiveTasks S1" "pool_ok S2"
    "obj S2 = (obj S1)(e \<mapsto> addObserver rt (TaskObserver ?n) x1,
       other \<mapsto> addObserver rt (TaskObserver ?n) x2, ?n \<mapsto> t')"
    "body t' = TaskLogicalAnd e other" "observers t' = []" "typed t'"
    using combine_ok [of S1 e x1 other x2 ?n ?t rt] x ty lt by (auto simp: f1)
  let ?u = "addObserver rt ManagerObserver t'"
  let ?S' = "(put_object ?n ?u S2)\<lparr>passiveTasks := List.insort_insert ?n (passiveTasks S)\<rparr>"
  have run: "event_add rt e other S = Some (?n, ?S')"
    using x S1 S2(1,3,5) f1(5) unfinished_alive [OF wf]
    by (simp add: event_add_def new_TaskLogicalAnd_def addPassiveTask_def)
  have ob: "obj ?S' = (obj S)(e \<mapsto> addObserver rt (TaskObserver ?n) x1,
       other \<mapsto> addObserver rt (TaskObserver ?n) x2, ?n \<mapsto> ?u)"
    using S2(5) f1(1) lt by (simp add: fun_eq_iff)
  have fr: "globalId ?S' = ?n + 1" "tasks ?S' = tasks S" "polls ?S' = polls S"
    "transactions ?S' = transactions S" "pool_ok ?S'" "streamState ?S' = streamState S"
    using S2(2,4) f1 by (simp_all add: same_frame_def)
  have u: "body ?u = TaskLogicalAnd e other" "observers ?u = [ManagerObserver]" "typed ?u"
    using S2 by (simp_all add: addObserver_def typed_def)
  have wf': "wf ?S' []"
    by (rule wf_and_added [OF wf x ob fr(1,2) _ fr(5) refl u]) simp
  have lv: "leaves ?S' i = leaves S i" if "i < ?n" for i
    by (rule leaves_and_added [OF wf x(1,2) ob _ _ refl that]) simp_all
  have "leaves ?S' ?n = leaves S e \<union> leaves S other"
    using ob u lt lv by (subst leaves.simps) (simp del: fun_upd_apply add: fun_upd_same)
  then show ?thesis using run wf' fr lv by (auto simp: extends_def)
qed

section \<open>Transactions and started tasks\<close>

text \<open>The invariant of the whole system: the heap, the known base events of the open
  transactions and the round-robin of the streams.\<close>

definition sys_ok :: "EventState \<Rightarrow> bool" where
  "sys_ok S \<longleftrightarrow> wf S [] \<and> 0 < globalId S \<and> (\<forall>tr \<in> set (transactions S). baseEvent tr < globalId S) \<and>
     isActivated S \<and> currentStreamIndex S < streamsCount S"

lemma sys_okD: "sys_ok S \<Longrightarrow> wf S []"
  by (simp add: sys_ok_def)

text \<open>What the rest of the system sees of an operation: ids stay valid, a finished leaf stays
  finished, and an id known before stands for those of its leaves that are still active.\<close>

definition later :: "EventState \<Rightarrow> EventState \<Rightarrow> bool" where
  "later S S' \<longleftrightarrow> globalId S \<le> globalId S' \<and>
     set (tasks S') \<inter> {..<globalId S} \<subseteq> set (tasks S) \<and>
     (\<forall>i < globalId S. leaves S' i = leaves S i \<inter> set (tasks S'))"

lemma tasks_known: "wf S wl \<Longrightarrow> set (tasks S) \<subseteq> {..<globalId S}"
  using wfD(1,3) by (fastforce simp: task_ok_def)

lemma later_trans:
  assumes "wf S []" "later S S1" "later S1 S2"
  shows "later S S2"
proof -
  have le: "globalId S \<le> globalId S1" "globalId S1 \<le> globalId S2" using assms by (auto simp: later_def)
  have t12: "set (tasks S2) \<inter> {..<globalId S1} \<subseteq> set (tasks S1)"
    and t01: "set (tasks S1) \<inter> {..<globalId S} \<subseteq> set (tasks S)"
    using assms by (simp_all add: later_def)
  have "leaves S2 i = leaves S i \<inter> set (tasks S2)" if i: "i < globalId S" for i
  proof -
    have "leaves S i \<subseteq> {..<globalId S1}"
      using leaves_active [OF assms(1), of i] tasks_known [OF assms(1)] le by auto
    then have "leaves S i \<inter> set (tasks S1) \<inter> set (tasks S2) = leaves S i \<inter> set (tasks S2)"
      using t12 by blast
    then show ?thesis using assms(2,3) i le by (simp add: later_def)
  qed
  then show ?thesis using le t12 t01 unfolding later_def by auto
qed

lemma later_refl: "wf S [] \<Longrightarrow> later S S"
  using leaves_active [of S "[]"] by (auto simp: later_def)

lemma advances_later: "advances S S' \<Longrightarrow> later S S'"
  by (auto simp: later_def advances_def)

lemma extends_later:
  assumes "extends S S'" "wf S' []" "set (tasks S') \<inter> {..<globalId S} \<subseteq> set (tasks S)"
  shows "later S S'"
  using assms leaves_active [OF assms(2)] unfolding later_def extends_def by blast

lemma later_finished:
  assumes "wf S []" "wf S' []" "later S S'" "e < globalId S"
  shows "isFinished e S' \<longleftrightarrow> leaves S e \<inter> set (tasks S') = {}"
  using finished_leaves [OF assms(2), of e] assms(3,4) by (simp add: later_def)

lemma getITask_obj: "wf S [] \<Longrightarrow> getITaskIfNotFinished e S = Some b \<Longrightarrow> b = e \<and> (\<exists>t. obj S e = Some t)"
  using unfinished_alive [of S e] by (auto split: if_splits)

lemma setTransactionEvent_ok:
  assumes S: "sys_ok S" "transactions S = tr # trs" and e: "e < globalId S"
  shows "\<exists>b S'. setTransactionEvent rt e S = Some (b, S') \<and> sys_ok S' \<and> extends S S' \<and>
     tasks S' = tasks S \<and> transactions S' = tr\<lparr>baseEvent := b\<rparr> # trs \<and> b < globalId S' \<and>
     (\<forall>i < globalId S'. i < globalId S \<or> i = b) \<and>
     leaves S' b = leaves S (baseEvent tr) \<union> leaves S e"
proof -
  have wf: "wf S []" using S by (simp add: sys_ok_def)
  obtain S1 where S1: "(case getITaskIfNotFinished e S of
        None \<Rightarrow> Some S
      | Some baseTask \<Rightarrow>
          (case getTaskType baseTask S of
             None \<Rightarrow> None
           | Some ty \<Rightarrow>
               if ty = TASK_CUDA
               then do { ev \<leftarrow> getCudaEvent baseTask S; Some (waitOn (eventStream tr) ev S) }
               else Some S)) = Some S1"
    and eq: "S1 = S \<or> (\<exists>ev. S1 = waitOn (eventStream tr) ev S)"
  proof (cases "obj S e")
    case None
    then show thesis using unfinished_alive [OF wf, of e] that [of S] by simp
  next
    case (Some t)
    then have "typed t" using wfD(1) [OF wf] by (auto simp: task_ok_def)
    then consider "myType t = TASK_MPI" | ev where "myType t = TASK_CUDA" "cudaEvent t = Some ev"
      by (auto simp: typed_def)
    then show thesis
    proof cases
      case 1
      then show thesis using Some unfinished_alive [OF wf, of e]
        by (intro that [of S]) (simp_all add: getTaskType_def)
    next
      case (2 ev)
      then show thesis using Some unfinished_alive [OF wf, of e]
        by (intro that [of "waitOn (eventStream tr) ev S"] disjI2 exI [of _ ev])
          (simp_all add: getTaskType_def getCudaEvent_def)
    qed
  qed
  have fr: "objects S1 = objects S" "tasks S1 = tasks S" "passiveTasks S1 = passiveTasks S"
    "globalId S1 = globalId S" "polls S1 = polls S" "transactions S1 = transactions S"
    "pool_ok S1 = pool_ok S" "streamState S1 = streamState S"
    using eq by auto
  have wf1: "wf S1 []" using fr by (intro wf_frame [OF wf]) auto
  have lv1: "leaves S1 i = leaves S i" for i using fr by (intro leaves_frame) auto
  have bt: "baseEvent tr < globalId S1" "e < globalId S1" using S e fr by (auto simp: sys_ok_def)
  obtain b S2 where S2: "event_add rt (baseEvent tr) e S1 = Some (b, S2)" "wf S2 []" "extends S1 S2"
    "b < globalId S2" "\<forall>i < globalId S2. i < globalId S1 \<or> i = b" "tasks S2 = tasks S1" "transactions S2 = transactions S1"
    "leaves S2 b = leaves S1 (baseEvent tr) \<union> leaves S1 e"
    using event_add_ok [OF wf1 bt] by blast
  let ?S' = "S2\<lparr>transactions := tr\<lparr>baseEvent := b\<rparr> # trs\<rparr>"
  have lv2: "leaves ?S' i = leaves S2 i" for i by (rule leaves_frame) simp
  have wf2: "wf ?S' []" by (rule wf_frame [OF S2(2)]) simp_all
  have ext: "extends S ?S'" using S2(3) fr lv1 lv2 by (simp add: extends_def)
  have "sys_ok ?S'"
    using wf2 S S2(4) ext by (auto simp: sys_ok_def extends_def streamState_def)
  moreover have "setTransactionEvent rt e S = Some (b, ?S')"
    using S(2) S1 S2(1) by (simp add: setTransactionEvent_def)
  ultimately show ?thesis using ext S2 fr lv1 lv2 by auto
qed

lemma wf_leaf_added:
  assumes wf: "wf S []"
    and S': "obj S' = (obj S)(n \<mapsto> t)" "globalId S' = n + 1" "tasks S' = List.insort_insert n (tasks S)"
      "passiveTasks S' = passiveTasks S" "pool_ok S'"
    and n: "n = globalId S" "0 < n"
    and t: "is_leaf (body t)" "observers t = []" "typed t"
  shows "wf S' []"
proof -
  have fresh: "obj S n = None" using wfD(1) [OF wf, of n] n by (cases "obj S n") (auto simp: task_ok_def)
  have sl: "slots (body t) = {}" "and_ok n (body t)" using t(1) by (cases "body t"; simp)+
  have obs: "observes S' [] ob i \<longleftrightarrow> observes S [] ob i" for ob i
    using fresh t unfolding observes_def S'(1) by auto
  show ?thesis
  proof (rule wfI)
    fix b i
    show "observes S' [] (TaskObserver b) i \<longleftrightarrow> (\<exists>t. obj S' b = Some t \<and> i \<in> slots (body t))"
      using wfD(5) [OF wf, of b i] fresh sl unfolding obs S'(1) by (cases "b = n"; simp)
    show "i \<in> set (passiveTasks S') \<longleftrightarrow> observes S' [] ManagerObserver i"
      using wfD(4) [OF wf, of i] unfolding obs S'(4) by simp
    show "i \<in> set (tasks S') \<longleftrightarrow> (\<exists>t. obj S' i = Some t \<and> is_leaf (body t))"
      using wfD(3) [OF wf, of i] t unfolding S'(1,3) by (cases "i = n"; simp add: set_insort_insert)
  next
    fix i u
    assume u: "obj S' i = Some u"
    show "task_ok (globalId S') i u"
    proof (cases "i = n")
      case True
      with u show ?thesis using S' t sl n by (simp add: task_ok_def)
    next
      case False
      with u have "obj S i = Some u" unfolding S'(1) by simp
      then show ?thesis using wfD(1) [OF wf] S'(2) n by (fastforce simp: task_ok_def)
    qed
  qed (use S'(3,5) wfD(2) [OF wf] in \<open>simp_all add: distinct_insort_insert\<close>)
qed

lemma leaves_leaf_added:
  assumes "obj S' = (obj S)(n \<mapsto> t)" "i < n"
  shows "leaves S' i = leaves S i"
  using assms(2)
proof (induction i rule: less_induct)
  case (less i)
  then have "obj S' i = obj S i" using assms(1) by simp
  then show ?case using less
    by (subst (1 2) leaves.simps) (auto split: option.splits TaskBody.splits)
qed

text \<open>The common part of every started task: a new leaf is added to the manager and to the base
  event of the current transaction.\<close>

lemma addTask_ok:
  assumes S: "sys_ok S" "transactions S = tr # trs"
    and S': "obj S' = (obj S)(n \<mapsto> t)" "globalId S' = n + 1" "tasks S' = tasks S"
      "passiveTasks S' = passiveTasks S" "pool_ok S'" "polls S' = polls S"
      "transactions S' = transactions S" "streamState S' = streamState S"
    and n: "n = globalId S"
    and t: "is_leaf (body t)" "observers t = []" "typed t"
  shows "\<exists>b S''. setTransactionEvent rt n (addTask n S') = Some (b, S'') \<and> sys_ok S'' \<and> extends S S'' \<and>
     later S S'' \<and> leaves S'' n = {n} \<and> n < globalId S'' \<and>
     transactions S'' = tr\<lparr>baseEvent := b\<rparr> # trs \<and> leaves S'' b = insert n (leaves S (baseEvent tr)) \<and>
     (\<forall>i < globalId S''. i < n \<or> i = n \<or> i = b)"
proof -
  let ?S = "addTask n S'"
  have wf: "wf S []" using S by (simp add: sys_ok_def)
  have n0: "0 < n" using S n by (simp add: sys_ok_def)
  have fr: "obj ?S = (obj S)(n \<mapsto> t)" "globalId ?S = n + 1" "tasks ?S = List.insort_insert n (tasks S)"
    "passiveTasks ?S = passiveTasks S" "pool_ok ?S" "polls ?S = polls S" "transactions ?S = tr # trs"
    "streamState ?S = streamState S"
    using S S' by (simp_all add: addTask_def)
  have wf': "wf ?S []" by (rule wf_leaf_added [OF wf fr(1-5) n n0 t])
  have lv: "leaves ?S i = leaves S i" if "i < n" for i
    by (rule leaves_leaf_added [OF fr(1) that])
  have lvn: "leaves ?S n = {n}" using leaves_Leaf [of ?S n t] fr(1) t(1) by simp
  have ok: "sys_ok ?S"
    using S wf' fr n by (auto simp: sys_ok_def streamState_def)
  have ext: "extends S ?S" using fr lv n by (simp add: extends_def)
  have bt: "baseEvent tr < n" using S n by (simp add: sys_ok_def)
  have nk: "n < globalId ?S" using fr(2) by simp
  obtain b S'' where S'': "setTransactionEvent rt n ?S = Some (b, S'')" "sys_ok S''" "extends ?S S''"
    "tasks S'' = tasks ?S" "transactions S'' = tr\<lparr>baseEvent := b\<rparr> # trs"
    "\<forall>i < globalId S''. i < n + 1 \<or> i = b"
    "leaves S'' b = leaves ?S (baseEvent tr) \<union> leaves ?S n"
    using setTransactionEvent_ok [OF ok fr(7) nk, of rt] fr(2) by auto
  have ext': "extends S S''" by (rule extends_trans [OF ext S''(3)])
  have "later S S''"
    using S''(2,4) fr(3) n by (intro extends_later [OF ext']) (auto simp: sys_ok_def set_insort_insert)
  then show ?thesis
    using S'' ext' fr(2) lvn lv [OF bt] by (auto simp: extends_def)
qed

text \<open>\<open>started rt S i S'\<close>: the observable effect of starting a leaf task \<open>i\<close>.\<close>

definition started :: "EventState \<Rightarrow> nat \<Rightarrow> EventState \<Rightarrow> bool" where
  "started S i S' \<longleftrightarrow> i = globalId S \<and> sys_ok S' \<and> extends S S' \<and> later S S' \<and> i < globalId S' \<and> leaves S' i = {i} \<and>
     (\<exists>b. transactions S' = (hd (transactions S))\<lparr>baseEvent := b\<rparr> # tl (transactions S) \<and>
       leaves S' b = insert i (leaves S (baseEvent (hd (transactions S)))) \<and>
       (\<forall>k < globalId S'. k < i \<or> k = i \<or> k = b))"

lemma startMPITask_ok:
  assumes "sys_ok S" "transactions S \<noteq> []"
  shows "\<exists>i S'. startMPITask rt ty S = Some (i, S') \<and> started S i S'"
proof -
  obtain tr trs where tr: "transactions S = tr # trs" using assms(2) by (cases "transactions S") auto
  let ?n = "globalId S"
  let ?t = "\<lparr>myType = TASK_MPI, body = Leaf ty, observers = [], stream = None, cudaEvent = None\<rparr>"
  let ?S1 = "put_object ?n ?t (S\<lparr>globalId := ?n + 1\<rparr>)"
  have "pool_ok ?S1" using wfD(8) [OF sys_okD [OF assms(1)]] by simp
  then obtain b S' where "setTransactionEvent rt ?n (addTask ?n ?S1) = Some (b, S')" "sys_ok S'"
    "extends S S'" "later S S'" "leaves S' ?n = {?n}" "?n < globalId S'"
    "transactions S' = tr\<lparr>baseEvent := b\<rparr> # trs" "leaves S' b = insert ?n (leaves S (baseEvent tr))"
    "\<forall>i < globalId S'. i < ?n \<or> i = ?n \<or> i = b"
    using addTask_ok [OF assms(1) tr, of ?S1 ?n ?t rt] by (auto simp: typed_def)
  then show ?thesis using tr by (auto simp: startMPITask_def new_task_def started_def)
qed

lemma stream_task_activated:
  assumes "sys_ok S" "transactions S = tr # trs" "new_task TASK_CUDA (Leaf ty) S = (n, S1)"
  shows "\<exists>S2 S3 t. getEventStream n S1 = Some (eventStream tr, S2) \<and>
     activate n (enqueue (eventStream tr) (EnqueueWork n) S2) = Some S3 \<and>
     obj S3 = (obj S)(n \<mapsto> t) \<and> is_leaf (body t) \<and> observers t = [] \<and> typed t \<and> n = globalId S \<and>
     globalId S3 = n + 1 \<and> tasks S3 = tasks S \<and> passiveTasks S3 = passiveTasks S \<and> pool_ok S3 \<and>
     polls S3 = polls S \<and> transactions S3 = transactions S \<and> streamState S3 = streamState S"
proof -
  let ?t = "\<lparr>myType = TASK_CUDA, body = Leaf ty, observers = [], stream = None, cudaEvent = None\<rparr>"
  have n: "n = globalId S" and f1: "obj S1 = (obj S)(n \<mapsto> ?t)" "globalId S1 = n + 1" "tasks S1 = tasks S"
    "passiveTasks S1 = passiveTasks S" "pool_ok S1" "polls S1 = polls S" "transactions S1 = tr # trs"
    "streamState S1 = streamState S"
    using assms wfD(8) [of S "[]"] by (auto simp: new_task_def sys_ok_def)
  let ?u = "?t\<lparr>stream := Some (eventStream tr)\<rparr>"
  let ?S2 = "put_object n ?u S1"
  have g: "getEventStream n S1 = Some (eventStream tr, ?S2)"
    using f1 by (simp add: getEventStream_def TransactionManager_getEventStream_def)
  let ?S = "enqueue (eventStream tr) (EnqueueWork n) ?S2"
  obtain S3 e where S3: "activate n ?S = Some S3"
    "obj S3 = (obj ?S)(n \<mapsto> ?u\<lparr>cudaEvent := Some (e, eventStream tr)\<rparr>)" "same_frame ?S S3"
    "passiveTasks S3 = passiveTasks ?S" "pool_ok S3"
    using activate_ok [of ?S n ?u "eventStream tr"] f1 by auto
  then show ?thesis using g n f1 assms(2)
    by (intro exI [of _ ?S2] exI [of _ S3] exI [of _ "?u\<lparr>cudaEvent := Some (e, eventStream tr)\<rparr>"])
      (simp add: same_frame_def typed_def)
qed

lemma startStreamTask_ok:
  assumes "sys_ok S" "transactions S \<noteq> []"
  shows "\<exists>i S'. startStreamTask rt ty S = Some (i, S') \<and> started S i S'"
proof -
  obtain tr trs where tr: "transactions S = tr # trs" using assms(2) by (cases "transactions S") auto
  obtain n S1 where S1: "new_task TASK_CUDA (Leaf ty) S = (n, S1)" by (cases "new_task TASK_CUDA (Leaf ty) S") auto
  obtain S2 S3 t where s: "getEventStream n S1 = Some (eventStream tr, S2)"
    "activate n (enqueue (eventStream tr) (EnqueueWork n) S2) = Some S3"
    and f: "obj S3 = (obj S)(n \<mapsto> t)" "is_leaf (body t)" "observers t = []" "typed t" "n = globalId S"
     "globalId S3 = n + 1" "tasks S3 = tasks S" "passiveTasks S3 = passiveTasks S" "pool_ok S3"
     "polls S3 = polls S" "transactions S3 = transactions S" "streamState S3 = streamState S"
    using stream_task_activated [OF assms(1) tr S1] by blast
  show ?thesis
    using addTask_ok [OF assms(1) tr f(1,6-12,5,2-4), of rt] S1 s tr f(5)
    by (auto simp: startStreamTask_def init_stream_task_def started_def)
qed

lemma cudaKernel_ok:
  assumes "sys_ok S" "transactions S \<noteq> []"
  shows "\<exists>S'. cudaKernel rt S = Some S' \<and> started S (globalId S) S'"
proof -
  obtain tr trs where tr: "transactions S = tr # trs" using assms(2) by (cases "transactions S") auto
  obtain n S1 where S1: "new_task TASK_CUDA (Leaf KERNEL) S = (n, S1)"
    by (cases "new_task TASK_CUDA (Leaf KERNEL) S") auto
  obtain S2 S3 t where s: "getEventStream n S1 = Some (eventStream tr, S2)"
    "activate n (enqueue (eventStream tr) (EnqueueWork n) S2) = Some S3"
    and f: "obj S3 = (obj S)(n \<mapsto> t)" "is_leaf (body t)" "observers t = []" "typed t" "n = globalId S"
     "globalId S3 = n + 1" "tasks S3 = tasks S" "passiveTasks S3 = passiveTasks S" "pool_ok S3"
     "polls S3 = polls S" "transactions S3 = transactions S" "streamState S3 = streamState S"
    using stream_task_activated [OF assms(1) tr S1] by blast
  show ?thesis
    using addTask_ok [OF assms(1) tr f(1,6-12,5,2-4), of rt] S1 s tr f(5)
    by (auto simp: cudaKernel_def activateChecks_def started_def)
qed

lemma known_zero: "sys_ok S \<Longrightarrow> 0 < globalId S"
  by (simp add: sys_ok_def)

lemma sys_ok_advances: "sys_ok S \<Longrightarrow> wf S' [] \<Longrightarrow> advances S S' \<Longrightarrow> sys_ok S'"
  by (auto simp: sys_ok_def advances_def streamState_def)

lemma wait_ok:
  assumes "fair rt" "sys_ok S"
  shows "\<exists>S'. Manager_waitForFinished rt e S = Some S' \<and> sys_ok S' \<and> advances S S' \<and> isFinished e S'"
  using waitForFinished_ok [OF assms(1) sys_okD [OF assms(2)], of e] sys_ok_advances [OF assms(2)] by blast

lemma new_Transaction_ok:
  assumes fair: "fair rt" and S: "sys_ok S" and e: "e < globalId S"
  shows "\<exists>tr S'. new_Transaction rt e a S = Some (tr, S') \<and> sys_ok (S'\<lparr>transactions := tr # transactions S'\<rparr>) \<and>
     later S (S'\<lparr>transactions := tr # transactions S'\<rparr>) \<and> isFinished e (S'\<lparr>transactions := tr # transactions S'\<rparr>) \<and>
     transactions S' = transactions S \<and> baseEvent tr = e \<and> isAtomic tr = a"
proof -
  obtain s S1 where S1: "getNextStream S = Some (s, S1)" using S by (auto simp: getNextStream_def sys_ok_def Let_def)
  then have fr: "objects S1 = objects S" "tasks S1 = tasks S" "passiveTasks S1 = passiveTasks S"
    "globalId S1 = globalId S" "transactions S1 = transactions S" "pool_ok S1 = pool_ok S"
    "isActivated S1" "currentStreamIndex S1 < streamsCount S1"
    using S by (auto simp: getNextStream_def pool_ok_def Let_def sys_ok_def split: if_splits)
  have lv: "leaves S1 i = leaves S i" for i by (rule leaves_frame [OF fr(1)])
  have "wf S1 []" by (rule wf_frame [OF sys_okD [OF S] fr(1-4,6)])
  then have ok1: "sys_ok S1" using S fr by (simp add: sys_ok_def)
  obtain S2 where S2: "Manager_waitForFinished rt e S1 = Some S2" "sys_ok S2" "advances S1 S2" "isFinished e S2"
    using wait_ok [OF fair ok1] by blast
  let ?tr = "\<lparr>baseEvent = e, eventStream = s, isAtomic = a\<rparr>"
  let ?S = "S2\<lparr>transactions := ?tr # transactions S2\<rparr>"
  have lv2: "leaves ?S i = leaves S2 i" for i by (rule leaves_frame) simp
  have "wf ?S []" by (rule wf_frame [OF sys_okD [OF S2(2)]]) simp_all
  moreover have "later S ?S"
    using S2(3) lv lv2 fr unfolding later_def advances_def by auto
  moreover have "isFinished e ?S"
    using S2(4) by (simp add: isFinished_iff)
  ultimately show ?thesis
    using S1 S2 e fr by (auto simp: new_Transaction_def sys_ok_def advances_def)
qed

lemma startOperation_ok:
  assumes "fair rt" "sys_ok S" "transactions S = tr # trs"
  shows "\<exists>S'. startOperation rt S = Some S' \<and> sys_ok S' \<and> later S S' \<and>
     (\<not> isAtomic tr \<longrightarrow> isFinished (baseEvent tr) S')"
  using wait_ok [OF assms(1,2), of "baseEvent tr"] advances_later later_refl [OF sys_okD [OF assms(2)]] assms
  by (auto simp: startOperation_def operation_def)

section \<open>Client calls\<close>

text \<open>
  The calls through which the rest of the program uses the event system, and the obligations of
  the caller: event ids come from earlier calls, and the calls that need a transaction are made with
  one on the stack.
\<close>

datatype Call =
    StartTransaction nat | StartAtomicTransaction nat | EndTransaction
  | SetTransactionEvent nat | StartOperation
  | StreamTask EventType | MPITask EventType | CudaKernel
  | EventSum nat nat | WaitForFinished nat | WaitForAllTasks | Execute nat

fun call :: "Runtime \<Rightarrow> Call \<Rightarrow> EventState \<Rightarrow> EventState option" where
  "call rt (StartTransaction e) S = startTransaction rt e S"
| "call rt (StartAtomicTransaction e) S = startAtomicTransaction rt e S"
| "call rt EndTransaction S = map_option snd (endTransaction S)"
| "call rt (SetTransactionEvent e) S = map_option snd (setTransactionEvent rt e S)"
| "call rt StartOperation S = startOperation rt S"
| "call rt (StreamTask ty) S = map_option snd (startStreamTask rt ty S)"
| "call rt (MPITask ty) S = map_option snd (startMPITask rt ty S)"
| "call rt CudaKernel S = cudaKernel rt S"
| "call rt (EventSum e other) S = map_option snd (event_add rt e other S)"
| "call rt (WaitForFinished e) S = Manager_waitForFinished rt e S"
| "call rt WaitForAllTasks S = waitForAllTasks rt S"
| "call rt (Execute w) S = map_option snd (execute rt w S)"

fun admissible :: "Call \<Rightarrow> EventState \<Rightarrow> bool" where
  "admissible (StartTransaction e) S = (e < globalId S)"
| "admissible (StartAtomicTransaction e) S = (e < globalId S)"
| "admissible (SetTransactionEvent e) S = (e < globalId S \<and> transactions S \<noteq> [])"
| "admissible (EventSum e other) S = (e < globalId S \<and> other < globalId S)"
| "admissible (WaitForFinished e) S = True"
| "admissible WaitForAllTasks S = True"
| "admissible (Execute w) S = True"
| "admissible c S = (transactions S \<noteq> [])"

lemma waitForAllTasks_ok:
  assumes "fair rt" "wf S []"
  shows "\<exists>S'. waitForAllTasks rt S = Some S' \<and> wf S' [] \<and> advances S S' \<and> tasks S' = [] \<and> passiveTasks S' = []"
proof (cases "tasks S = [] \<and> passiveTasks S = []")
  case True
  then show ?thesis using assms(2) advances_refl [OF assms(2)] by (subst waitForAllTasks.simps) auto
next
  case False
  obtain h where h: "settled rt h S" using fair_settled [OF assms] by blast
  show ?thesis using all_wait.returns [OF h False] unfolding settled_def by blast
qed

lemma call_ok:
  assumes fair: "fair rt" and S: "sys_ok S" and c: "admissible c S"
  shows "\<exists>S'. call rt c S = Some S' \<and> sys_ok S' \<and> later S S'"
proof -
  have wf: "wf S []" by (rule sys_okD [OF S])
  note adv = sys_ok_advances [OF S] advances_later
  have st: "started S i S' \<Longrightarrow> sys_ok S' \<and> later S S'" for i S' by (simp add: started_def)
  show ?thesis
  proof (cases c)
    case (StartTransaction e)
    then show ?thesis using new_Transaction_ok [OF fair S, of e False] c by (auto simp: startTransaction_def)
  next
    case (StartAtomicTransaction e)
    then show ?thesis using new_Transaction_ok [OF fair S, of e True] c by (auto simp: startAtomicTransaction_def)
  next
    case EndTransaction
    then obtain tr trs where tr: "transactions S = tr # trs" using c by (cases "transactions S") auto
    let ?S = "S\<lparr>transactions := trs\<rparr>"
    have "wf ?S []" by (rule wf_frame [OF wf]) simp_all
    moreover have "leaves ?S i = leaves S i" for i by (rule leaves_frame) simp
    then have "later S ?S" using later_refl [OF wf] by (simp add: later_def)
    ultimately show ?thesis using EndTransaction tr S by (simp add: endTransaction_def sys_ok_def)
  next
    case (SetTransactionEvent e)
    then obtain tr trs where tr: "transactions S = tr # trs" using c by (cases "transactions S") auto
    obtain b S' where "setTransactionEvent rt e S = Some (b, S')" "sys_ok S'" "extends S S'" "tasks S' = tasks S"
      using setTransactionEvent_ok [OF S tr, of e rt] SetTransactionEvent c by auto
    then show ?thesis using SetTransactionEvent by (auto simp: sys_ok_def intro!: extends_later)
  next
    case StartOperation
    then obtain tr trs where tr: "transactions S = tr # trs" using c by (cases "transactions S") auto
    then show ?thesis using StartOperation startOperation_ok [OF fair S tr] by auto
  next
    case (StreamTask ty)
    then show ?thesis using startStreamTask_ok [OF S, of rt ty] c st by auto
  next
    case (MPITask ty)
    then show ?thesis using startMPITask_ok [OF S, of rt ty] c st by auto
  next
    case CudaKernel
    then show ?thesis using cudaKernel_ok [OF S, of rt] c st by auto
  next
    case (EventSum e other)
    obtain e' S' where S': "event_add rt e other S = Some (e', S')" "wf S' []" "extends S S'"
      "tasks S' = tasks S" "transactions S' = transactions S"
      using event_add_ok [OF wf, of e other rt] EventSum c by auto
    then have "sys_ok S'" using S by (auto simp: sys_ok_def extends_def streamState_def)
    then show ?thesis using S' EventSum by (auto intro!: extends_later)
  next
    case (WaitForFinished e)
    then show ?thesis using wait_ok [OF fair S, of e] advances_later by auto
  next
    case WaitForAllTasks
    then show ?thesis using waitForAllTasks_ok [OF fair wf] adv by auto
  next
    case (Execute w)
    obtain b S' where "execute rt w S = Some (b, S')" "wf S' []" "advances S S'"
      by (rule execute_ok [OF wf, of rt w])
    then show ?thesis using Execute adv by auto
  qed
qed

text \<open>A sequence of admissible calls, and the states a program reaches with them.\<close>

fun run :: "Runtime \<Rightarrow> Call list \<Rightarrow> EventState \<Rightarrow> EventState option" where
  "run rt [] S = Some S"
| "run rt (c # cs) S = (if admissible c S then do { S1 \<leftarrow> call rt c S; run rt cs S1 } else None)"

inductive reachable :: "Runtime \<Rightarrow> nat \<Rightarrow> EventState \<Rightarrow> bool" for rt n where
  start: "startTransaction rt 0 (initial n) = Some S \<Longrightarrow> reachable rt n S"
| step: "reachable rt n S \<Longrightarrow> admissible c S \<Longrightarrow> call rt c S = Some S' \<Longrightarrow> reachable rt n S'"

lemma initial_ok: "sys_ok (initial n)"
  by (simp add: sys_ok_def wf_def initial_def addStreams_def StreamController_activate_def observes_def
      pool_ok_def)

lemma reachable_ok:
  assumes "fair rt" "reachable rt n S"
  shows "sys_ok S"
  using assms(2)
proof induction
  case (start S)
  then show ?case
    using call_ok [OF assms(1) initial_ok, of "StartTransaction 0" n] known_zero [OF initial_ok, of n] by auto
next
  case (step S c S')
  then show ?case using call_ok [OF assms(1), of S c] by auto
qed

lemma run_ok:
  assumes "fair rt" "sys_ok S" "run rt cs S = Some S'"
  shows "sys_ok S' \<and> later S S'"
  using assms(2,3)
proof (induction cs arbitrary: S)
  case Nil
  then show ?case by (auto intro: later_refl sys_okD)
next
  case (Cons c cs)
  then obtain S1 where S1: "admissible c S" "call rt c S = Some S1" "run rt cs S1 = Some S'"
    by (auto split: if_splits bind_splits)
  then have "sys_ok S1" "later S S1" using call_ok [OF assms(1) Cons.prems(1), of c] by auto
  then show ?case using Cons.IH S1 later_trans sys_okD Cons.prems(1) by blast
qed

subsection \<open>What a transaction collects\<close>

fun adds :: "Call \<Rightarrow> bool" where
  "adds (SetTransactionEvent e) = True"
| "adds (StreamTask ty) = True"
| "adds (MPITask ty) = True"
| "adds CudaKernel = True"
| "adds c = False"

text \<open>\<open>collects S S' b es\<close>: the base event \<open>b\<close> of \<open>S'\<close> stands for the leaves of the old base event,
  of every task created since \<open>S\<close> and of the events \<open>es\<close>.\<close>

definition collects :: "EventState \<Rightarrow> EventState \<Rightarrow> nat set \<Rightarrow> bool" where
  "collects S S' es \<longleftrightarrow> (case (transactions S, transactions S') of
       (tr # trs, tr' # trs') \<Rightarrow>
          trs' = trs \<and> isAtomic tr' = isAtomic tr \<and>
          leaves S (baseEvent tr) \<subseteq> leaves S' (baseEvent tr') \<and>
          (\<forall>i \<in> {globalId S ..< globalId S'} \<union> es. i < globalId S' \<and> leaves S' i \<subseteq> leaves S' (baseEvent tr'))
     | _ \<Rightarrow> False)"

lemma started_collects:
  assumes "started S n S'" "transactions S = tr # trs"
  shows "collects S S' {}"
proof -
  obtain b where b: "transactions S' = tr\<lparr>baseEvent := b\<rparr> # trs"
    "leaves S' b = insert n (leaves S (baseEvent tr))" "\<forall>k < globalId S'. k < n \<or> k = n \<or> k = b"
    "n = globalId S" "leaves S' n = {n}"
    using assms by (auto simp: started_def)
  have "i = n \<or> i = b" if "globalId S \<le> i" "i < globalId S'" for i using b(3,4) that by auto
  then have "leaves S' i \<subseteq> leaves S' b" if "globalId S \<le> i" "i < globalId S'" for i
    using b(2,5) that by fastforce
  then show ?thesis using b assms(2) by (auto simp: collects_def)
qed

lemma add_collects:
  assumes S: "sys_ok S" and c: "adds c" "admissible c S" "call rt c S = Some S'"
  shows "extends S S' \<and> collects S S' {e. c = SetTransactionEvent e}"
proof -
  obtain tr trs where tr: "transactions S = tr # trs" using c by (cases c; cases "transactions S") auto
  have st: "started S i S' \<Longrightarrow> (\<And>e. c \<noteq> SetTransactionEvent e) \<Longrightarrow> ?thesis" for i
    using started_collects [of S i S'] tr by (auto simp: started_def)
  show ?thesis
  proof (cases c)
    case (SetTransactionEvent e)
    then have e: "e < globalId S" using c by simp
    obtain b S1 where S1: "setTransactionEvent rt e S = Some (b, S1)" "extends S S1"
      "transactions S1 = tr\<lparr>baseEvent := b\<rparr> # trs" "b < globalId S1"
      "\<forall>i < globalId S1. i < globalId S \<or> i = b" "leaves S1 b = leaves S (baseEvent tr) \<union> leaves S e"
      using setTransactionEvent_ok [OF S tr e, of rt] by blast
    moreover have "S' = S1" using c(3) SetTransactionEvent S1(1) by simp
    moreover have "leaves S1 e = leaves S e" "e < globalId S1" using S1(2) e by (auto simp: extends_def)
    ultimately show ?thesis using SetTransactionEvent tr by (auto simp: collects_def)
  next
    case (StreamTask ty)
    then show ?thesis using startStreamTask_ok [OF S, of rt ty] c tr st by auto
  next
    case (MPITask ty)
    then show ?thesis using startMPITask_ok [OF S, of rt ty] c tr st by auto
  next
    case CudaKernel
    then show ?thesis using cudaKernel_ok [OF S, of rt] c tr st by auto
  qed (use c in auto)
qed

lemma collects_trans:
  assumes "collects S S1 es" "collects S1 S2 fs" "extends S1 S2"
  shows "collects S S2 (es \<union> fs)"
proof -
  obtain tr trs tr1 tr2 where tr: "transactions S = tr # trs" "transactions S1 = tr1 # trs"
    "transactions S2 = tr2 # trs" "isAtomic tr1 = isAtomic tr" "isAtomic tr2 = isAtomic tr1"
    using assms(1,2) by (auto simp: collects_def split: list.splits)
  have le: "globalId S1 \<le> globalId S2" and lv: "\<And>i. i < globalId S1 \<Longrightarrow> leaves S2 i = leaves S1 i"
    using assms(3) by (auto simp: extends_def)
  have b: "leaves S (baseEvent tr) \<subseteq> leaves S1 (baseEvent tr1)"
    "leaves S1 (baseEvent tr1) \<subseteq> leaves S2 (baseEvent tr2)"
    and c1: "\<And>i. i \<in> {globalId S ..< globalId S1} \<union> es \<Longrightarrow> i < globalId S1 \<and> leaves S1 i \<subseteq> leaves S1 (baseEvent tr1)"
    and c2: "\<And>i. i \<in> {globalId S1 ..< globalId S2} \<union> fs \<Longrightarrow> i < globalId S2 \<and> leaves S2 i \<subseteq> leaves S2 (baseEvent tr2)"
    using assms(1,2) tr by (auto simp: collects_def)
  have "i < globalId S2 \<and> leaves S2 i \<subseteq> leaves S2 (baseEvent tr2)"
    if i: "i \<in> {globalId S ..< globalId S2} \<union> (es \<union> fs)" for i
  proof (cases "i \<in> {globalId S ..< globalId S1} \<union> es")
    case True
    then show ?thesis using c1 [OF True] lv le b by fastforce
  next
    case False
    then show ?thesis using c2 [of i] i by auto
  qed
  then show ?thesis using tr b by (auto simp: collects_def)
qed

lemma run_collects:
  assumes "fair rt" "sys_ok S" "transactions S \<noteq> []" "list_all adds cs" "run rt cs S = Some S'"
  shows "collects S S' {e. SetTransactionEvent e \<in> set cs}"
  using assms(2-)
proof (induction cs arbitrary: S)
  case Nil
  then show ?case by (cases "transactions S") (auto simp: collects_def)
next
  case (Cons c cs)
  then obtain S1 where S1: "admissible c S" "call rt c S = Some S1" "run rt cs S1 = Some S'"
    by (auto split: if_splits bind_splits)
  have ok1: "sys_ok S1" using call_ok [OF assms(1) Cons.prems(1) S1(1)] S1(2) by auto
  have c1: "extends S S1" "collects S S1 {e. c = SetTransactionEvent e}"
    using add_collects [OF Cons.prems(1) _ S1(1,2)] Cons.prems(3) by auto
  then have "transactions S1 \<noteq> []" by (auto simp: collects_def split: list.splits)
  then have c2: "collects S1 S' {e. SetTransactionEvent e \<in> set cs}"
    using Cons.IH [OF ok1] Cons.prems(3) S1(3) by simp
  have "extends S1 S'"
    using ok1 Cons.prems(3) S1(3)
  proof (induction cs arbitrary: S1)
    case (Cons d ds)
    then obtain S2 where S2: "admissible d S1" "call rt d S1 = Some S2" "run rt ds S2 = Some S'"
      by (auto split: if_splits bind_splits)
    have "sys_ok S2" using call_ok [OF assms(1) Cons.prems(1) S2(1)] S2(2) by auto
    then have "extends S2 S'" using Cons S2(3) by simp
    then show ?case using add_collects [OF Cons.prems(1) _ S2(1,2)] Cons.prems(2) extends_trans by auto
  qed simp
  then have "collects S S' ({e. c = SetTransactionEvent e} \<union> {e. SetTransactionEvent e \<in> set cs})"
    by (rule collects_trans [OF c1(2) c2])
  then show ?case by (simp add: Collect_disj_eq eq_commute)
qed

section \<open>Properties\<close>

text \<open>
  C12. No admissible call into the event system goes wrong: in every state that a program reaches
  through such calls, with a fair runtime, each further admissible call returns (it neither touches a
  deleted task, nor fails an assertion, nor waits for ever) and keeps the invariant of the heap.
\<close>

theorem event_calls_return:
  assumes "fair rt" "reachable rt n S" "admissible c S"
  shows "\<exists>S'. call rt c S = Some S' \<and> sys_ok S'"
  using call_ok [OF assms(1) reachable_ok [OF assms(1,2)] assms(3)] by blast

text \<open>
  C13. The sum of two events is their conjunction: after any further sequence of calls, the event
  returned by \<open>operator+=\<close> is finished exactly when both operands are.
\<close>

theorem event_sum_finished:
  assumes "fair rt" "reachable rt n S" "e < globalId S" "other < globalId S"
    and "event_add rt e other S = Some (e', S1)" "run rt cs S1 = Some S2"
  shows "isFinished e' S2 \<longleftrightarrow> isFinished e S2 \<and> isFinished other S2"
proof -
  have S: "sys_ok S" by (rule reachable_ok [OF assms(1,2)])
  have e': "e' < globalId S1" "extends S S1" "leaves S1 e' = leaves S e \<union> leaves S other"
    using event_add_ok [OF sys_okD [OF S] assms(3,4), of rt] assms(5) by auto
  have S1: "sys_ok S1" using call_ok [OF assms(1) S, of "EventSum e other"] assms by auto
  have S2: "sys_ok S2" "later S1 S2" using run_ok [OF assms(1) S1 assms(6)] by auto
  have "leaves S1 e = leaves S e" "leaves S1 other = leaves S other" "e < globalId S1" "other < globalId S1"
    using e'(2) assms(3,4) by (auto simp: extends_def)
  then show ?thesis
    using later_finished [OF sys_okD [OF S1] sys_okD [OF S2(1)] S2(2)] e' by auto
qed

text \<open>
  \<open>waitForAllTasks\<close>, which the destructor of the manager relies on, ends when the runtime is
  fair, and afterwards both task maps are empty and no task object is left in the heap.
\<close>

theorem waitForAllTasks_returns:
  assumes "fair rt" "reachable rt n S"
  shows "\<exists>S'. waitForAllTasks rt S = Some S' \<and> tasks S' = [] \<and> passiveTasks S' = [] \<and> objects S' = []"
proof -
  obtain S' where S': "waitForAllTasks rt S = Some S'" "wf S' []" "tasks S' = []" "passiveTasks S' = []"
    using waitForAllTasks_ok [OF assms(1) sys_okD [OF reachable_ok [OF assms]]] by blast
  have "obj S' = Map.empty" by (rule ext) (use idle_passive [OF S'(2,3)] in blast)
  then show ?thesis using S' by auto
qed

text \<open>
  C18. A blocking operation in a non-atomic transaction starts only when everything the transaction
  has collected is done: after any sequence of started tasks and added events, \<open>startOperation\<close>
  returns in a state in which the old base event, every task created since, and every added event
  are finished.
\<close>

theorem startOperation_waits_for_transaction:
  assumes "fair rt" "reachable rt n S" "transactions S = tr # trs" "\<not> isAtomic tr"
    and "list_all adds cs" "run rt cs S = Some S1"
  shows "\<exists>S2. startOperation rt S1 = Some S2 \<and> isFinished (baseEvent tr) S2 \<and>
     list_all (\<lambda>i. isFinished i S2) [globalId S ..< globalId S1] \<and>
     list_all (\<lambda>c. case c of SetTransactionEvent e \<Rightarrow> isFinished e S2 | _ \<Rightarrow> True) cs"
proof -
  have S: "sys_ok S" by (rule reachable_ok [OF assms(1,2)])
  have S1: "sys_ok S1" "later S S1" using run_ok [OF assms(1) S assms(6)] by auto
  have col: "collects S S1 {e. SetTransactionEvent e \<in> set cs}"
    using run_collects [OF assms(1) S _ assms(5,6)] assms(3) by simp
  then obtain tr1 trs1 where tr1: "transactions S1 = tr1 # trs1" by (auto simp: collects_def split: list.splits)
  obtain S2 where S2: "startOperation rt S1 = Some S2" "sys_ok S2" "later S1 S2" "isFinished (baseEvent tr1) S2"
    using startOperation_ok [OF assms(1) S1(1) tr1] col assms(3,4) tr1 by (auto simp: collects_def)
  note fin = later_finished [OF sys_okD [OF S1(1)] sys_okD [OF S2(2)] S2(3)]
  have b1: "baseEvent tr1 < globalId S1" using S1(1) tr1 by (simp add: sys_ok_def)
  then have none: "leaves S1 (baseEvent tr1) \<inter> set (tasks S2) = {}" using fin S2(4) by blast
  have sub_done: "isFinished i S2" if "i < globalId S1" "leaves S1 i \<subseteq> leaves S1 (baseEvent tr1)" for i
    using fin [OF that(1)] that(2) none by blast
  have all: "isFinished i S2" if "i \<in> {globalId S ..< globalId S1} \<union> {e. SetTransactionEvent e \<in> set cs}" for i
    using col assms(3) tr1 that by (intro sub_done) (auto simp: collects_def)
  have base: "baseEvent tr < globalId S" using S assms(3) by (simp add: sys_ok_def)
  have "leaves S1 (baseEvent tr) \<subseteq> leaves S (baseEvent tr)" "globalId S \<le> globalId S1"
    using S1(2) base by (auto simp: later_def)
  then have "isFinished (baseEvent tr) S2"
    using col assms(3) tr1 base by (intro sub_done) (auto simp: collects_def)
  then show ?thesis using S2(1) all by (auto simp: list_all_iff split: Call.splits)
qed

section \<open>Witnesses\<close>

text \<open>A runtime in which task \<open>x\<close> is done from poll \<open>x + 3\<close> on, and a program that launches a kernel and
  an MPI send on three streams.\<close>

definition sample_rt :: Runtime where
  "sample_rt = \<lparr>address = (\<lambda>ob. case ob of ManagerObserver \<Rightarrow> 7 | TaskObserver i \<Rightarrow> 100 - i),
     completed = (\<lambda>x m. x + 3 \<le> m)\<rparr>"

definition sample_start :: EventState where
  "sample_start = the (startTransaction sample_rt 0 (initial 2))"

definition sample_state :: EventState where
  "sample_state = the (run sample_rt [CudaKernel, MPITask SENDFINISHED] sample_start)"

definition sample_sum :: EventState where
  "sample_sum = the (call sample_rt (EventSum 1 2) sample_state)"

definition sample_filled :: EventState where
  "sample_filled = the (run sample_rt [StreamTask COPYDEVICE2HOST, SetTransactionEvent 1] sample_state)"

lemma the_Some: "\<not> Option.is_none x \<Longrightarrow> x = Some (the x)"
  by (cases x) simp_all

lemma sample_fair: "fair sample_rt"
  by (auto simp: fair_def sample_rt_def)

lemma reachable_run: "reachable rt n S \<Longrightarrow> run rt cs S = Some S' \<Longrightarrow> reachable rt n S'"
  by (induction cs arbitrary: S) (auto split: if_splits bind_splits intro: reachable.step)

lemma sample_reachable: "reachable sample_rt 2 sample_state"
proof -
  have "startTransaction sample_rt 0 (initial 2) = Some sample_start"
    unfolding sample_start_def by (rule the_Some) code_simp
  then have "reachable sample_rt 2 sample_start" by (rule reachable.start)
  moreover have "run sample_rt [CudaKernel, MPITask SENDFINISHED] sample_start = Some sample_state"
    unfolding sample_state_def by (rule the_Some) code_simp
  ultimately show ?thesis by (rule reachable_run)
qed

theorem event_calls_return_witness:
  "\<exists>S'. call sample_rt (EventSum 1 2) sample_state = Some S' \<and> sys_ok S'"
proof (rule event_calls_return [OF sample_fair sample_reachable])
  show "admissible (EventSum 1 2) sample_state" by code_simp
qed

theorem event_sum_finished_witness:
  "isFinished 4 (the (run sample_rt [WaitForFinished 2] sample_sum)) \<longleftrightarrow>
     isFinished 1 (the (run sample_rt [WaitForFinished 2] sample_sum)) \<and>
     isFinished 2 (the (run sample_rt [WaitForFinished 2] sample_sum))"
proof (rule event_sum_finished [OF sample_fair sample_reachable])
  show "1 < globalId sample_state" "2 < globalId sample_state" by code_simp+
  show "event_add sample_rt 1 2 sample_state = Some (4, sample_sum)" by code_simp
  show "run sample_rt [WaitForFinished 2] sample_sum =
      Some (the (run sample_rt [WaitForFinished 2] sample_sum))"
    by (rule the_Some) code_simp
qed

theorem waitForAllTasks_returns_witness:
  "\<exists>S'. waitForAllTasks sample_rt sample_state = Some S' \<and> tasks S' = [] \<and> passiveTasks S' = [] \<and>
     objects S' = []"
  by (rule waitForAllTasks_returns [OF sample_fair sample_reachable])

theorem startOperation_waits_for_transaction_witness:
  "\<exists>S2. startOperation sample_rt sample_filled = Some S2 \<and>
     isFinished (baseEvent (hd (transactions sample_state))) S2 \<and>
     list_all (\<lambda>i. isFinished i S2) [globalId sample_state ..< globalId sample_filled] \<and>
     list_all (\<lambda>c. case c of SetTransactionEvent e \<Rightarrow> isFinished e S2 | _ \<Rightarrow> True)
       [StreamTask COPYDEVICE2HOST, SetTransactionEvent 1]"
proof (rule startOperation_waits_for_transaction [OF sample_fair sample_reachable])
  show "transactions sample_state = hd (transactions sample_state) # tl (transactions sample_state)"
    by (rule list.collapse [symmetric]) code_simp
  show "\<not> isAtomic (hd (transactions sample_state))" by code_simp
  show "list_all adds [StreamTask COPYDEVICE2HOST, SetTransactionEvent 1]" by simp
  show "run sample_rt [StreamTask COPYDEVICE2HOST, SetTransactionEvent 1] sample_state = Some sample_filled"
    unfolding sample_filled_def by (rule the_Some) code_simp
qed

end
