(* ===== verification/GuardExchange.thy ===== *)
theory GuardExchange
  imports GridBuffers EventSystem
begin

text \<open>
  Models the exchange of the guards that \<open>GridBuffer::asyncCommunication\<close> starts on every process: the tasks
  \<open>TaskSend\<close> and \<open>TaskReceive\<close> with the copies they enqueue (src/libPMacc/include/eventSystem/tasks), the two
  calls of the communicator (\<open>startSend\<close>, \<open>startReceive\<close>) and, as a step relation, all interleavings of the tasks of all
  processes. The messages of MPI are a parameter, described by the locale \<open>mpi_messages\<close>. Shown: every run
  ends, it only stops when all tasks are finished, and a process whose receives are finished holds in its guard
  the border of its neighbours as it was at the start, and everywhere else what it held before.
\<close>

section \<open>Tasks\<close>

datatype TaskSend_state = TS_Constructor | TS_InitDone | TS_DeviceToHostFinished | TS_SendDone | TS_Finish

datatype TaskReceive_state = TR_Constructor | TR_WaitForReceived | TR_RunCopy | TR_WaitForFinish | TR_Finish

datatype CopyTask = TaskCopyDeviceToDevice | TaskCopyDeviceToHost | TaskCopyHostToDevice

record 'a TaskSend =
  ts_exchange :: ExchangeIntern
  ts_state :: TaskSend_state
  ts_copies :: "CopyTask list"  \<comment> \<open>enqueued and not yet executed\<close>
  ts_double :: "'a list"
  ts_host :: "'a list"

record 'a TaskReceive =
  tr_exchange :: ExchangeIntern
  tr_state :: TaskReceive_state
  newBufferSize :: nat
  tr_copies :: "CopyTask list"
  tr_currentSize :: nat
  tr_host :: "'a list"
  tr_double :: "'a list"

definition hasDeviceDoubleBuffer :: "ExchangeIntern \<Rightarrow> bool" where
  "hasDeviceDoubleBuffer e \<longleftrightarrow> length (ex_size e) > 1"

definition currentCells :: "ExchangeIntern \<Rightarrow> nat \<Rightarrow> DataSpace list" where
  "currentCells e n = map (vec_add (ex_offset e)) (boxList (getCurrentDataSpace (ex_size e) (int n)))"

definition TaskSend_start :: "ExchangeIntern \<Rightarrow> 'a TaskSend" where
  "TaskSend_start e = \<lparr>ts_exchange = e, ts_state = TS_InitDone,
     ts_copies = (if hasDeviceDoubleBuffer e then [TaskCopyDeviceToDevice, TaskCopyDeviceToHost] else [TaskCopyDeviceToHost]),
     ts_double = [], ts_host = []\<rparr>"

text \<open>The second component says whether the MPI task is started, the third whether the task has finished.\<close>

definition TaskSend_execute :: "'a TaskSend \<Rightarrow> 'a TaskSend \<times> bool \<times> bool" where
  "TaskSend_execute t =
     (case ts_state t of
        TS_InitDone \<Rightarrow> (t, False, False)
      | TS_DeviceToHostFinished \<Rightarrow> (t\<lparr>ts_state := TS_SendDone\<rparr>, True, False)
      | TS_SendDone \<Rightarrow> (t, False, False)
      | TS_Finish \<Rightarrow> (t, False, True)
      | TS_Constructor \<Rightarrow> (t, False, False))"

definition TaskSend_event :: "EventType \<Rightarrow> 'a TaskSend \<Rightarrow> 'a TaskSend \<times> bool" where
  "TaskSend_event type t =
     (let (t, sendMPI) = (if type = COPYDEVICE2HOST
            then (case TaskSend_execute (t\<lparr>ts_state := TS_DeviceToHostFinished\<rparr>) of (t, sendMPI, _) \<Rightarrow> (t, sendMPI))
            else (t, False))
      in (if type = SENDFINISHED then t\<lparr>ts_state := TS_Finish\<rparr> else t, sendMPI))"

definition TaskReceive_start :: "ExchangeIntern \<Rightarrow> 'a TaskReceive" where
  "TaskReceive_start e = \<lparr>tr_exchange = e, tr_state = TR_WaitForReceived, newBufferSize = 0, tr_copies = [],
     tr_currentSize = 0, tr_host = [], tr_double = []\<rparr>"

definition TaskReceive_execute :: "'a TaskReceive \<Rightarrow> 'a TaskReceive \<times> bool" where
  "TaskReceive_execute u =
     (case tr_state u of
        TR_WaitForReceived \<Rightarrow> (u, False)
      | TR_RunCopy \<Rightarrow>
          (u\<lparr>tr_state := TR_WaitForFinish, tr_currentSize := newBufferSize u,
             tr_copies := (if hasDeviceDoubleBuffer (tr_exchange u) then [TaskCopyHostToDevice, TaskCopyDeviceToDevice] else [TaskCopyHostToDevice])\<rparr>, False)
      | TR_WaitForFinish \<Rightarrow> (u, False)
      | TR_Finish \<Rightarrow> (u, True)
      | TR_Constructor \<Rightarrow> (u, False))"

definition TaskReceive_event :: "EventType \<Rightarrow> nat option \<Rightarrow> 'a TaskReceive \<Rightarrow> 'a TaskReceive" where
  "TaskReceive_event type data u =
     (case type of
        RECVFINISHED \<Rightarrow>
          (case data of None \<Rightarrow> u
           | Some receivedCount \<Rightarrow> fst (TaskReceive_execute (u\<lparr>newBufferSize := receivedCount, tr_state := TR_RunCopy\<rparr>)))
      | COPYHOST2DEVICE \<Rightarrow> u\<lparr>tr_state := TR_Finish\<rparr>
      | COPYDEVICE2DEVICE \<Rightarrow> u\<lparr>tr_state := TR_Finish\<rparr>
      | _ \<Rightarrow> u)"

section \<open>Copies\<close>

text \<open>The device buffer of an exchange is a view of the field; the double buffer and the host buffer are
  linear. The copies of one task run in the order in which they were enqueued.\<close>

definition writeCells :: "DataSpace list \<Rightarrow> 'a list \<Rightarrow> (DataSpace \<Rightarrow> 'a) \<Rightarrow> DataSpace \<Rightarrow> 'a" where
  "writeCells cells data field = (\<lambda>c. case map_of (zip cells data) c of None \<Rightarrow> field c | Some v \<Rightarrow> v)"

fun copyOut :: "(DataSpace \<Rightarrow> 'a) \<Rightarrow> CopyTask \<Rightarrow> 'a TaskSend \<Rightarrow> 'a TaskSend" where
  "copyOut field TaskCopyDeviceToDevice t = t\<lparr>ts_double := map field (exchangeCells (ts_exchange t))\<rparr>"
| "copyOut field TaskCopyDeviceToHost t =
     t\<lparr>ts_host := (if hasDeviceDoubleBuffer (ts_exchange t) then ts_double t else map field (exchangeCells (ts_exchange t)))\<rparr>"
| "copyOut field TaskCopyHostToDevice t = t"

fun copyIn :: "CopyTask \<Rightarrow> 'a TaskReceive \<Rightarrow> (DataSpace \<Rightarrow> 'a) \<Rightarrow> 'a TaskReceive \<times> (DataSpace \<Rightarrow> 'a)" where
  "copyIn TaskCopyHostToDevice u field =
     (if hasDeviceDoubleBuffer (tr_exchange u) then (u\<lparr>tr_double := tr_host u\<rparr>, field)
      else (u, writeCells (currentCells (tr_exchange u) (tr_currentSize u)) (tr_host u) field))"
| "copyIn TaskCopyDeviceToDevice u field = (u, writeCells (currentCells (tr_exchange u) (tr_currentSize u)) (tr_double u) field)"
| "copyIn TaskCopyDeviceToHost u field = (u, field)"

section \<open>The calls of the communicator\<close>

type_synonym envelope = "int \<times> int \<times> 32 word"

definition gridExchangeTag :: "32 word" where
  "gridExchangeTag = 5"

definition startSend :: "int \<Rightarrow> Communicator \<Rightarrow> nat \<Rightarrow> 32 word \<Rightarrow> envelope" where
  "startSend rank this ex tag = (rank, ExchangeTypeToRank this ex, gridExchangeTag + tag)"

definition startReceive :: "int \<Rightarrow> Communicator \<Rightarrow> nat \<Rightarrow> 32 word \<Rightarrow> envelope" where
  "startReceive rank this ex tag = (ExchangeTypeToRank this ex, rank, gridExchangeTag + tag)"

section \<open>The communication of a grid buffer\<close>

datatype StartedTask = StartReceive nat | StartSend nat

fun asyncLoop :: "Mask \<Rightarrow> GridBuffer \<Rightarrow> nat list \<Rightarrow> mask_error + StartedTask list" where
  "asyncLoop commMask this [] = Inr []"
| "asyncLoop commMask this (i # rest) =
     (case getMirroredExchangeType i of
        Inl e \<Rightarrow> Inl e
      | Inr sendEx \<Rightarrow>
          (case asyncLoop commMask this rest of
             Inl e \<Rightarrow> Inl e
           | Inr ts \<Rightarrow> Inr ((if hasReceiveExchange commMask this i then [StartReceive i] else [])
                                @ (if hasSendExchange commMask this sendEx then [StartSend sendEx] else []) @ ts)))"

definition asyncCommunication :: "Mask \<Rightarrow> GridBuffer \<Rightarrow> mask_error + StartedTask list" where
  "asyncCommunication commMask this = asyncLoop commMask this [0..<maxExchange this]"

record ('a, 'n) HaloState =
  deviceField :: "int \<Rightarrow> DataSpace \<Rightarrow> 'a"
  sendTasks :: "int \<Rightarrow> nat \<Rightarrow> 'a TaskSend option"
  receiveTasks :: "int \<Rightarrow> nat \<Rightarrow> 'a TaskReceive option"
  network :: 'n

definition startedOn :: "int \<Rightarrow> (int \<Rightarrow> Communicator) \<Rightarrow> GridBuffer \<Rightarrow> int \<Rightarrow> StartedTask list" where
  "startedOn nRanks comm gb r =
     (if 0 \<le> r \<and> r < nRanks
      then (case asyncCommunication (communicationMask (comm r)) gb of Inl _ \<Rightarrow> [] | Inr ts \<Rightarrow> ts) else [])"

definition startCommunication ::
    "int \<Rightarrow> (int \<Rightarrow> Communicator) \<Rightarrow> GridBuffer \<Rightarrow> (int \<Rightarrow> DataSpace \<Rightarrow> 'a) \<Rightarrow> 'n \<Rightarrow> ('a, 'n) HaloState" where
  "startCommunication nRanks comm gb field net =
     \<lparr>deviceField = field,
      sendTasks = (\<lambda>r ex. if StartSend ex \<in> set (startedOn nRanks comm gb r) then map_option TaskSend_start (sendExchanges gb ex) else None),
      receiveTasks = (\<lambda>r ex. if StartReceive ex \<in> set (startedOn nRanks comm gb r) then map_option TaskReceive_start (receiveExchanges gb ex) else None),
      network = net\<rparr>"

section \<open>Steps\<close>

definition putSend :: "int \<Rightarrow> nat \<Rightarrow> 'a TaskSend \<Rightarrow> ('a, 'n) HaloState \<Rightarrow> ('a, 'n) HaloState" where
  "putSend r ex t s = s\<lparr>sendTasks := (sendTasks s)(r := (sendTasks s r)(ex \<mapsto> t))\<rparr>"

definition putReceive :: "int \<Rightarrow> nat \<Rightarrow> 'a TaskReceive \<Rightarrow> ('a, 'n) HaloState \<Rightarrow> ('a, 'n) HaloState" where
  "putReceive r ex u s = s\<lparr>receiveTasks := (receiveTasks s)(r := (receiveTasks s r)(ex \<mapsto> u))\<rparr>"

definition sendEnvelope :: "(int \<Rightarrow> Communicator) \<Rightarrow> int \<Rightarrow> nat \<Rightarrow> ExchangeIntern \<Rightarrow> envelope" where
  "sendEnvelope comm r ex e = startSend r (comm r) ex (ex_tag e)"

definition receiveEnvelope :: "(int \<Rightarrow> Communicator) \<Rightarrow> int \<Rightarrow> nat \<Rightarrow> ExchangeIntern \<Rightarrow> envelope" where
  "receiveEnvelope comm r ex e = startReceive r (comm r) ex (ex_tag e)"

text \<open>
  One event on one process: a copy runs, its end is delivered to the task that enqueued it, MPI reports the
  end of a send or the arrival of a message. \<open>isend\<close>, \<open>arrive\<close> and \<open>sendDone\<close> are the operations of MPI.
\<close>

inductive haloStep ::
    "('n \<Rightarrow> envelope \<Rightarrow> 'a list \<Rightarrow> 'n) \<Rightarrow> ('n \<Rightarrow> envelope \<Rightarrow> 'a list \<Rightarrow> 'n \<Rightarrow> bool) \<Rightarrow> ('n \<Rightarrow> envelope \<Rightarrow> bool)
     \<Rightarrow> (int \<Rightarrow> Communicator) \<Rightarrow> ('a, 'n) HaloState \<Rightarrow> ('a, 'n) HaloState \<Rightarrow> bool"
  for isend arrive sendDone comm where
  sendCopy:
    "\<lbrakk>sendTasks s r ex = Some t; ts_copies t = k # ks\<rbrakk>
     \<Longrightarrow> haloStep isend arrive sendDone comm s (putSend r ex (copyOut (deviceField s r) k (t\<lparr>ts_copies := ks\<rparr>)) s)"
| sendCopied:
    "\<lbrakk>sendTasks s r ex = Some t; ts_state t = TS_InitDone; ts_copies t = []; TaskSend_event COPYDEVICE2HOST t = (t', sendMPI);
      net = (if sendMPI then isend (network s) (sendEnvelope comm r ex (ts_exchange t)) (ts_host t) else network s)\<rbrakk>
     \<Longrightarrow> haloStep isend arrive sendDone comm s ((putSend r ex t' s)\<lparr>network := net\<rparr>)"
| sendFinished:
    "\<lbrakk>sendTasks s r ex = Some t; ts_state t = TS_SendDone; sendDone (network s) (sendEnvelope comm r ex (ts_exchange t))\<rbrakk>
     \<Longrightarrow> haloStep isend arrive sendDone comm s (putSend r ex (fst (TaskSend_event SENDFINISHED t)) s)"
| received:
    "\<lbrakk>receiveTasks s r ex = Some u; tr_state u = TR_WaitForReceived;
      arrive (network s) (receiveEnvelope comm r ex (tr_exchange u)) msg net\<rbrakk>
     \<Longrightarrow> haloStep isend arrive sendDone comm s
           ((putReceive r ex (TaskReceive_event RECVFINISHED (Some (length msg)) (u\<lparr>tr_host := msg\<rparr>)) s)\<lparr>network := net\<rparr>)"
| receiveCopy:
    "\<lbrakk>receiveTasks s r ex = Some u; tr_copies u = k # ks; copyIn k (u\<lparr>tr_copies := ks\<rparr>) (deviceField s r) = (u', field)\<rbrakk>
     \<Longrightarrow> haloStep isend arrive sendDone comm s ((putReceive r ex u' s)\<lparr>deviceField := (deviceField s)(r := field)\<rparr>)"
| receiveCopied:
    "\<lbrakk>receiveTasks s r ex = Some u; tr_state u = TR_WaitForFinish; tr_copies u = [];
      type = (if hasDeviceDoubleBuffer (tr_exchange u) then COPYDEVICE2DEVICE else COPYHOST2DEVICE)\<rbrakk>
     \<Longrightarrow> haloStep isend arrive sendDone comm s (putReceive r ex (TaskReceive_event type None u) s)"

definition sendFinishedOn :: "('a, 'n) HaloState \<Rightarrow> int \<Rightarrow> nat \<Rightarrow> bool" where
  "sendFinishedOn s r ex \<longleftrightarrow> (case sendTasks s r ex of None \<Rightarrow> True | Some t \<Rightarrow> snd (snd (TaskSend_execute t)))"

definition receiveFinishedOn :: "('a, 'n) HaloState \<Rightarrow> int \<Rightarrow> nat \<Rightarrow> bool" where
  "receiveFinishedOn s r ex \<longleftrightarrow> (case receiveTasks s r ex of None \<Rightarrow> True | Some u \<Rightarrow> snd (TaskReceive_execute u))"

section \<open>Messages\<close>

text \<open>
  What the exchange relies on of MPI: a message waits until a receive with its source, destination and tag takes
  it, messages with equal envelopes do not overtake each other, a waiting message reaches a posted
  receive, and a send completes at the latest when its message was taken.
\<close>

locale mpi_messages =
  fixes isend :: "'n \<Rightarrow> envelope \<Rightarrow> 'a list \<Rightarrow> 'n" and arrive :: "'n \<Rightarrow> envelope \<Rightarrow> 'a list \<Rightarrow> 'n \<Rightarrow> bool"
    and sendDone :: "'n \<Rightarrow> envelope \<Rightarrow> bool" and pending :: "'n \<Rightarrow> envelope \<Rightarrow> 'a list list"
  assumes pending_isend: "pending (isend n e d) = (pending n)(e := pending n e @ [d])"
    and arrive_pending: "arrive n e d n' \<Longrightarrow> pending n e = d # pending n' e \<and> (\<forall>e'. e' \<noteq> e \<longrightarrow> pending n' e' = pending n e')"
    and arrive_progress: "pending n e \<noteq> [] \<Longrightarrow> \<exists>d n'. arrive n e d n'"
    and complete_progress: "pending n e = [] \<Longrightarrow> sendDone n e"

text \<open>Channels as queues satisfy it; a send completes as soon as it is started.\<close>

definition queue_isend :: "(envelope \<Rightarrow> 'a list list) \<Rightarrow> envelope \<Rightarrow> 'a list \<Rightarrow> envelope \<Rightarrow> 'a list list" where
  "queue_isend n e d = n(e := n e @ [d])"

definition queue_arrive :: "(envelope \<Rightarrow> 'a list list) \<Rightarrow> envelope \<Rightarrow> 'a list \<Rightarrow> (envelope \<Rightarrow> 'a list list) \<Rightarrow> bool" where
  "queue_arrive n e d n' \<longleftrightarrow> n e \<noteq> [] \<and> d = hd (n e) \<and> n' = n(e := tl (n e))"

interpretation queues: mpi_messages queue_isend queue_arrive "\<lambda>n e. True" "\<lambda>n. n"
  by unfold_locales (auto simp: queue_isend_def queue_arrive_def)

section \<open>Meeting tasks\<close>

text \<open>
  What the tasks rely on of the tables they are started from: every send has a receive of the neighbour with the same
  tag and size, and the other way round, sends of a process differ in their tags, and received regions neither overlap nor
  meet a region that is sent.
\<close>

definition sendStage :: "'a list \<Rightarrow> 'a TaskSend \<Rightarrow> bool" where
  "sendStage d t \<longleftrightarrow>
     ts_copies t = (if hasDeviceDoubleBuffer (ts_exchange t) then [TaskCopyDeviceToDevice, TaskCopyDeviceToHost] else [TaskCopyDeviceToHost])
     \<or> hasDeviceDoubleBuffer (ts_exchange t) \<and> ts_copies t = [TaskCopyDeviceToHost] \<and> ts_double t = d
     \<or> ts_copies t = [] \<and> ts_host t = d"

definition receiveStage :: "'a list \<Rightarrow> 'a TaskReceive \<Rightarrow> bool" where
  "receiveStage d u \<longleftrightarrow> tr_currentSize u = length d \<and> tr_host u = d
     \<and> (tr_state u = TR_WaitForFinish
          \<and> (tr_copies u = (if hasDeviceDoubleBuffer (tr_exchange u) then [TaskCopyHostToDevice, TaskCopyDeviceToDevice] else [TaskCopyHostToDevice])
             \<or> hasDeviceDoubleBuffer (tr_exchange u) \<and> tr_copies u = [TaskCopyDeviceToDevice] \<and> tr_double u = d
             \<or> tr_copies u = [])
        \<or> tr_state u = TR_Finish \<and> tr_copies u = [])"

definition channelOk :: "'a list \<Rightarrow> 'a TaskSend \<Rightarrow> 'a list list \<Rightarrow> 'a TaskReceive \<Rightarrow> bool" where
  "channelOk d t msgs u \<longleftrightarrow>
     ts_state t = TS_InitDone \<and> sendStage d t \<and> msgs = [] \<and> tr_state u = TR_WaitForReceived \<and> tr_copies u = []
     \<or> (ts_state t = TS_SendDone \<or> ts_state t = TS_Finish) \<and> ts_copies t = []
        \<and> (msgs = [d] \<and> tr_state u = TR_WaitForReceived \<and> tr_copies u = [] \<or> msgs = [] \<and> receiveStage d u)"

definition copiedIn :: "'a TaskReceive \<Rightarrow> bool" where
  "copiedIn u \<longleftrightarrow> (tr_state u = TR_WaitForFinish \<or> tr_state u = TR_Finish) \<and> tr_copies u = []"

definition sendWeight :: "'a TaskSend \<Rightarrow> nat" where
  "sendWeight t = (case ts_state t of TS_InitDone \<Rightarrow> 2 + length (ts_copies t) | TS_SendDone \<Rightarrow> 1 | _ \<Rightarrow> 0)"

definition receiveWeight :: "'a TaskReceive \<Rightarrow> nat" where
  "receiveWeight u = (case tr_state u of TR_WaitForReceived \<Rightarrow> 4 | TR_WaitForFinish \<Rightarrow> 1 + length (tr_copies u) | _ \<Rightarrow> 0)"

lemma copyIn_exchange: "copyIn k u field = (u', field') \<Longrightarrow> tr_exchange u' = tr_exchange u"
  by (cases k) (auto split: if_splits)

lemma copyIn_stage:
  assumes st: "receiveStage d u" and copies: "tr_copies u = k # ks" and cp: "copyIn k (u\<lparr>tr_copies := ks\<rparr>) f = (u', g)"
  shows "receiveStage d u'"
    and "copiedIn u' = copiedIn u \<and> g = f \<or> \<not> copiedIn u \<and> copiedIn u' \<and> g = writeCells (currentCells (tr_exchange u) (tr_currentSize u)) d f"
proof -
  let ?dbl = "hasDeviceDoubleBuffer (tr_exchange u)"
  consider "?dbl" "k = TaskCopyHostToDevice" "ks = [TaskCopyDeviceToDevice]" | "?dbl" "k = TaskCopyDeviceToDevice" "ks = []" "tr_double u = d"
    | "\<not> ?dbl" "k = TaskCopyHostToDevice" "ks = []"
    using st copies by (auto simp: receiveStage_def split: if_splits)
  note cs = this
  show "receiveStage d u'" using cs cp st copies by cases (auto simp: receiveStage_def)
  show "copiedIn u' = copiedIn u \<and> g = f \<or> \<not> copiedIn u \<and> copiedIn u' \<and> g = writeCells (currentCells (tr_exchange u) (tr_currentSize u)) d f"
    using cs cp st copies by cases (auto simp: receiveStage_def copiedIn_def)
qed

lemmas task_defs = TaskSend_event_def TaskSend_execute_def TaskReceive_event_def TaskReceive_execute_def

locale halo_exchange = mpi_messages isend arrive sendDone pending
  for isend :: "'n \<Rightarrow> envelope \<Rightarrow> 'a list \<Rightarrow> 'n" and arrive sendDone pending +
  fixes comm :: "int \<Rightarrow> Communicator" and sendOf receiveOf :: "int \<Rightarrow> nat \<Rightarrow> ExchangeIntern option"
  assumes send_meets: "sendOf r ex = Some e \<Longrightarrow>
      \<exists>e'. receiveOf (ExchangeTypeToRank (comm r) ex) (mirror_code ex) = Some e'
        \<and> ex_tag e' = ex_tag e \<and> length (exchangeCells e') = length (exchangeCells e)
        \<and> ExchangeTypeToRank (comm (ExchangeTypeToRank (comm r) ex)) (mirror_code ex) = r \<and> mirror_code (mirror_code ex) = ex"
    and receive_meets: "receiveOf r ex = Some e \<Longrightarrow>
      sendOf (ExchangeTypeToRank (comm r) ex) (mirror_code ex) \<noteq> None
        \<and> ExchangeTypeToRank (comm (ExchangeTypeToRank (comm r) ex)) (mirror_code ex) = r \<and> mirror_code (mirror_code ex) = ex"
    and tags_differ: "sendOf r ex = Some e \<Longrightarrow> sendOf r ex' = Some e' \<Longrightarrow> ex_tag e = ex_tag e' \<Longrightarrow> ex = ex'"
    and cells_distinct: "receiveOf r ex = Some e \<Longrightarrow> distinct (exchangeCells e)"
    and cells_full: "receiveOf r ex = Some e \<Longrightarrow> currentCells e (length (exchangeCells e)) = exchangeCells e"
    and receives_disjoint: "receiveOf r ex = Some e \<Longrightarrow> receiveOf r ex' = Some e' \<Longrightarrow> ex \<noteq> ex' \<Longrightarrow>
      set (exchangeCells e) \<inter> set (exchangeCells e') = {}"
    and send_receive_disjoint: "sendOf r ex = Some e \<Longrightarrow> receiveOf r ex' = Some e' \<Longrightarrow>
      set (exchangeCells e) \<inter> set (exchangeCells e') = {}"
    and finitely_many: "finite {(r, ex). sendOf r ex \<noteq> None}" "finite {(r, ex). receiveOf r ex \<noteq> None}"
begin

abbreviation nb :: "int \<Rightarrow> nat \<Rightarrow> int" where
  "nb r ex \<equiv> ExchangeTypeToRank (comm r) ex"

definition payload :: "(int \<Rightarrow> DataSpace \<Rightarrow> 'a) \<Rightarrow> int \<Rightarrow> nat \<Rightarrow> 'a list" where
  "payload F r ex = (case sendOf r ex of None \<Rightarrow> [] | Some e \<Rightarrow> map (F r) (exchangeCells e))"

definition tablesOk :: "('a, 'n) HaloState \<Rightarrow> bool" where
  "tablesOk s \<longleftrightarrow> (\<forall>r ex. sendOf r ex = map_option ts_exchange (sendTasks s r ex) \<and> receiveOf r ex = map_option tr_exchange (receiveTasks s r ex))"

definition channelsOk :: "(int \<Rightarrow> DataSpace \<Rightarrow> 'a) \<Rightarrow> ('a, 'n) HaloState \<Rightarrow> bool" where
  "channelsOk F s \<longleftrightarrow> (\<forall>r ex t u. sendTasks s r ex = Some t \<longrightarrow> receiveTasks s (nb r ex) (mirror_code ex) = Some u \<longrightarrow>
     channelOk (payload F r ex) t (pending (network s) (sendEnvelope comm r ex (ts_exchange t))) u)"

definition fieldOk :: "(int \<Rightarrow> DataSpace \<Rightarrow> 'a) \<Rightarrow> ('a, 'n) HaloState \<Rightarrow> bool" where
  "fieldOk F s \<longleftrightarrow> (\<forall>r c.
     (\<forall>ex u. receiveTasks s r ex = Some u \<and> copiedIn u \<and> c \<in> set (exchangeCells (tr_exchange u)) \<longrightarrow>
        map_of (zip (exchangeCells (tr_exchange u)) (payload F (nb r ex) (mirror_code ex))) c = Some (deviceField s r c))
     \<and> ((\<forall>ex u. receiveTasks s r ex = Some u \<and> copiedIn u \<longrightarrow> c \<notin> set (exchangeCells (tr_exchange u))) \<longrightarrow> deviceField s r c = F r c))"

definition halo_inv :: "(int \<Rightarrow> DataSpace \<Rightarrow> 'a) \<Rightarrow> ('a, 'n) HaloState \<Rightarrow> bool" where
  "halo_inv F s \<longleftrightarrow> tablesOk s \<and> channelsOk F s \<and> fieldOk F s"

lemma envelope_inj:
  assumes "sendOf r ex = Some e" "sendOf r' ex' = Some e'" "sendEnvelope comm r ex e = sendEnvelope comm r' ex' e'"
  shows "r = r'" "ex = ex'"
  using assms tags_differ [of r ex e ex' e'] by (auto simp: sendEnvelope_def startSend_def)

lemma receive_channel:
  assumes "receiveOf r ex = Some e"
  obtains e' where "sendOf (nb r ex) (mirror_code ex) = Some e'" "ex_tag e' = ex_tag e"
    "length (exchangeCells e') = length (exchangeCells e)" "nb (nb r ex) (mirror_code ex) = r" "mirror_code (mirror_code ex) = ex"
    "sendEnvelope comm (nb r ex) (mirror_code ex) e' = receiveEnvelope comm r ex e"
proof -
  obtain e' where e': "sendOf (nb r ex) (mirror_code ex) = Some e'" "nb (nb r ex) (mirror_code ex) = r" "mirror_code (mirror_code ex) = ex"
    using receive_meets [OF assms] by blast
  have "ex_tag e' = ex_tag e" "length (exchangeCells e') = length (exchangeCells e)"
    using send_meets [OF e'(1)] e'(2,3) assms by auto
  with e' show thesis by (intro that [of e']) (auto simp: sendEnvelope_def receiveEnvelope_def startSend_def startReceive_def)
qed

text \<open>A step of a sender touches one channel.\<close>

lemma channels_send:
  assumes "tablesOk s" "channelsOk F s" "sendTasks s r ex = Some t" "ts_exchange t' = ts_exchange t"
    and "\<forall>e. e \<noteq> sendEnvelope comm r ex (ts_exchange t) \<longrightarrow> pending net e = pending (network s) e"
    and "\<And>u. channelOk (payload F r ex) t (pending (network s) (sendEnvelope comm r ex (ts_exchange t))) u \<Longrightarrow>
           channelOk (payload F r ex) t' (pending net (sendEnvelope comm r ex (ts_exchange t))) u"
  shows "channelsOk F ((putSend r ex t' s)\<lparr>network := net\<rparr>)"
  unfolding channelsOk_def
proof (intro allI impI)
  fix q x t1 u
  assume t1: "sendTasks ((putSend r ex t' s)\<lparr>network := net\<rparr>) q x = Some t1"
    and u: "receiveTasks ((putSend r ex t' s)\<lparr>network := net\<rparr>) (nb q x) (mirror_code x) = Some u"
  have u': "receiveTasks s (nb q x) (mirror_code x) = Some u" using u by (simp add: putSend_def)
  show "channelOk (payload F q x) t1 (pending (network ((putSend r ex t' s)\<lparr>network := net\<rparr>)) (sendEnvelope comm q x (ts_exchange t1))) u"
  proof (cases "q = r \<and> x = ex")
    case True
    then have "t1 = t'" using t1 by (simp add: putSend_def)
    then show ?thesis using True assms(2,3,4,6) u' by (auto simp: channelsOk_def)
  next
    case False
    then have q: "sendTasks s q x = Some t1" using t1 by (auto simp: putSend_def split: if_splits)
    then have "sendOf q x = Some (ts_exchange t1)" "sendOf r ex = Some (ts_exchange t)"
      using assms(1,3) unfolding tablesOk_def by (metis option.simps(9))+
    then have "sendEnvelope comm q x (ts_exchange t1) \<noteq> sendEnvelope comm r ex (ts_exchange t)" using envelope_inj False by blast
    then have "pending net (sendEnvelope comm q x (ts_exchange t1)) = pending (network s) (sendEnvelope comm q x (ts_exchange t1))"
      using assms(5) by blast
    then show ?thesis using assms(2) q u' by (simp add: channelsOk_def)
  qed
qed

lemma channels_receive:
  assumes "tablesOk s" "channelsOk F s" "receiveTasks s r ex = Some u"
    and "\<forall>e. e \<noteq> receiveEnvelope comm r ex (tr_exchange u) \<longrightarrow> pending net e = pending (network s) e"
    and "\<And>t. channelOk (payload F (nb r ex) (mirror_code ex)) t (pending (network s) (receiveEnvelope comm r ex (tr_exchange u))) u \<Longrightarrow>
           channelOk (payload F (nb r ex) (mirror_code ex)) t (pending net (receiveEnvelope comm r ex (tr_exchange u))) u'"
  shows "channelsOk F ((putReceive r ex u' s)\<lparr>network := net, deviceField := f\<rparr>)"
  unfolding channelsOk_def
proof (intro allI impI)
  let ?s = "(putReceive r ex u' s)\<lparr>network := net, deviceField := f\<rparr>"
  fix q x t1 u1
  assume t1: "sendTasks ?s q x = Some t1" and u1: "receiveTasks ?s (nb q x) (mirror_code x) = Some u1"
  have t1': "sendTasks s q x = Some t1" using t1 by (simp add: putReceive_def)
  have of_recv: "receiveOf r ex = Some (tr_exchange u)" and of_send: "sendOf q x = Some (ts_exchange t1)"
    using assms(1,3) t1' unfolding tablesOk_def by (metis option.simps(9))+
  obtain e' where e': "sendOf (nb r ex) (mirror_code ex) = Some e'" "nb (nb r ex) (mirror_code ex) = r" "mirror_code (mirror_code ex) = ex"
      "sendEnvelope comm (nb r ex) (mirror_code ex) e' = receiveEnvelope comm r ex (tr_exchange u)"
    using receive_channel [OF of_recv] by metis
  have ret: "nb (nb q x) (mirror_code x) = q" "mirror_code (mirror_code x) = x" using send_meets [OF of_send] by auto
  show "channelOk (payload F q x) t1 (pending (network ?s) (sendEnvelope comm q x (ts_exchange t1))) u1"
  proof (cases "nb q x = r \<and> mirror_code x = ex")
    case True
    then have "q = nb r ex" "x = mirror_code ex" using ret by auto
    moreover from this have "ts_exchange t1 = e'" using e'(1) of_send by simp
    moreover have "u1 = u'" using u1 True by (simp add: putReceive_def)
    moreover from calculation have "channelOk (payload F (nb r ex) (mirror_code ex)) t1 (pending (network s) (receiveEnvelope comm r ex (tr_exchange u))) u"
      using assms(2,3) e' t1' unfolding channelsOk_def by metis
    ultimately show ?thesis using assms(5) e' by simp
  next
    case False
    then have "receiveTasks s (nb q x) (mirror_code x) = Some u1" using u1 by (auto simp: putReceive_def split: if_splits)
    moreover have "sendEnvelope comm q x (ts_exchange t1) \<noteq> receiveEnvelope comm r ex (tr_exchange u)"
      using envelope_inj [OF of_send e'(1)] e'(2-4) False by metis
    then have "pending net (sendEnvelope comm q x (ts_exchange t1)) = pending (network s) (sendEnvelope comm q x (ts_exchange t1))"
      using assms(4) by blast
    ultimately show ?thesis using assms(2) t1' by (simp add: channelsOk_def)
  qed
qed

lemma tables_update:
  assumes "tablesOk s"
  shows "\<lbrakk>sendTasks s r ex = Some t; ts_exchange t' = ts_exchange t\<rbrakk> \<Longrightarrow> tablesOk ((putSend r ex t' s)\<lparr>network := net\<rparr>)"
    and "\<lbrakk>receiveTasks s r ex = Some u; tr_exchange u' = tr_exchange u\<rbrakk> \<Longrightarrow> tablesOk ((putReceive r ex u' s)\<lparr>network := net, deviceField := f\<rparr>)"
  using assms by (auto simp: tablesOk_def putSend_def putReceive_def)

lemma tables_of:
  assumes "tablesOk s"
  shows "sendTasks s r ex = Some t \<Longrightarrow> sendOf r ex = Some (ts_exchange t)"
    and "receiveTasks s r ex = Some u \<Longrightarrow> receiveOf r ex = Some (tr_exchange u)"
    and "sendOf r ex \<noteq> None \<longleftrightarrow> sendTasks s r ex \<noteq> None" and "receiveOf r ex \<noteq> None \<longleftrightarrow> receiveTasks s r ex \<noteq> None"
  using assms by (simp_all add: tablesOk_def)

lemma channel_of_send:
  assumes "halo_inv F s" "sendTasks s r ex = Some t"
  obtains u where "receiveTasks s (nb r ex) (mirror_code ex) = Some u"
    "channelOk (payload F r ex) t (pending (network s) (sendEnvelope comm r ex (ts_exchange t))) u"
proof -
  have "tablesOk s" using assms(1) by (simp add: halo_inv_def)
  then have "receiveTasks s (nb r ex) (mirror_code ex) \<noteq> None"
    using send_meets [of r ex] tables_of(1) [OF _ assms(2)] tables_of(4) by blast
  then show thesis using that assms by (auto simp: halo_inv_def channelsOk_def)
qed

lemma channel_of_receive:
  assumes "halo_inv F s" "receiveTasks s r ex = Some u"
  obtains t where "sendTasks s (nb r ex) (mirror_code ex) = Some t" "nb (nb r ex) (mirror_code ex) = r" "mirror_code (mirror_code ex) = ex"
    "channelOk (payload F (nb r ex) (mirror_code ex)) t (pending (network s) (receiveEnvelope comm r ex (tr_exchange u))) u"
    "length (payload F (nb r ex) (mirror_code ex)) = length (exchangeCells (tr_exchange u))"
proof -
  have T: "tablesOk s" using assms(1) by (simp add: halo_inv_def)
  obtain e' where e': "sendOf (nb r ex) (mirror_code ex) = Some e'" "length (exchangeCells e') = length (exchangeCells (tr_exchange u))"
      "nb (nb r ex) (mirror_code ex) = r" "mirror_code (mirror_code ex) = ex"
      "sendEnvelope comm (nb r ex) (mirror_code ex) e' = receiveEnvelope comm r ex (tr_exchange u)"
    using receive_channel [OF tables_of(2) [OF T assms(2)]] by metis
  obtain t where t: "sendTasks s (nb r ex) (mirror_code ex) = Some t" "ts_exchange t = e'"
    using tables_of(1,3) [OF T] e'(1) by (metis option.discI option.exhaust option.inject)
  have "channelOk (payload F (nb r ex) (mirror_code ex)) t (pending (network s) (receiveEnvelope comm r ex (tr_exchange u))) u"
    using assms t e'(3-5) unfolding halo_inv_def channelsOk_def by metis
  moreover have "length (payload F (nb r ex) (mirror_code ex)) = length (exchangeCells (tr_exchange u))"
    using e'(1,2) by (simp add: payload_def)
  ultimately show thesis using that t(1) e'(3,4) by blast
qed

lemma payload_read:
  assumes "halo_inv F s" "sendTasks s r ex = Some t"
  shows "map (deviceField s r) (exchangeCells (ts_exchange t)) = payload F r ex"
proof -
  have T: "tablesOk s" using assms(1) by (simp add: halo_inv_def)
  have e: "sendOf r ex = Some (ts_exchange t)" using tables_of(1) [OF T assms(2)] .
  have "deviceField s r c = F r c" if "c \<in> set (exchangeCells (ts_exchange t))" for c
    using assms(1) that send_receive_disjoint [OF e] tables_of(2) [OF T] unfolding halo_inv_def fieldOk_def by blast
  then show ?thesis by (simp add: payload_def e)
qed

lemma receiveTasks_put:
  "receiveTasks ((putReceive r ex u s)\<lparr>network := net, deviceField := f\<rparr>) q x = (if q = r \<and> x = ex then Some u else receiveTasks s q x)"
  by (simp add: putReceive_def)

lemma field_keep:
  assumes "fieldOk F s" "receiveTasks s r ex = Some u" "tr_exchange u' = tr_exchange u" "copiedIn u' = copiedIn u"
  shows "fieldOk F ((putReceive r ex u' s)\<lparr>network := net, deviceField := deviceField s\<rparr>)"
proof -
  let ?s = "(putReceive r ex u' s)\<lparr>network := net, deviceField := deviceField s\<rparr>"
  have same: "(\<exists>w. receiveTasks ?s q x = Some w \<and> copiedIn w \<and> P (tr_exchange w)) \<longleftrightarrow> (\<exists>w. receiveTasks s q x = Some w \<and> copiedIn w \<and> P (tr_exchange w))" for q x P
    unfolding receiveTasks_put using assms(2-4) by auto
  show ?thesis unfolding fieldOk_def
  proof (intro allI conjI impI)
    fix q c x w assume "receiveTasks ?s q x = Some w \<and> copiedIn w \<and> c \<in> set (exchangeCells (tr_exchange w))"
    then obtain w' where "receiveTasks s q x = Some w'" "copiedIn w'" "c \<in> set (exchangeCells (tr_exchange w'))" "tr_exchange w' = tr_exchange w"
      using same [of q x "\<lambda>e. e = tr_exchange w"] by auto
    then show "map_of (zip (exchangeCells (tr_exchange w)) (payload F (nb q x) (mirror_code x))) c = Some (deviceField ?s q c)"
      using assms(1) unfolding fieldOk_def by (metis HaloState.select_convs(1) HaloState.surjective HaloState.update_convs(1))
  next
    fix q c assume "\<forall>x w. receiveTasks ?s q x = Some w \<and> copiedIn w \<longrightarrow> c \<notin> set (exchangeCells (tr_exchange w))"
    then have "\<forall>x w. receiveTasks s q x = Some w \<and> copiedIn w \<longrightarrow> c \<notin> set (exchangeCells (tr_exchange w))"
      using same [of q _ "\<lambda>e. c \<in> set (exchangeCells e)"] by blast
    then show "deviceField ?s q c = F q c" using assms(1) by (simp add: fieldOk_def)
  qed
qed

lemma field_write:
  assumes "tablesOk s" "fieldOk F s" "receiveTasks s r ex = Some u" "tr_exchange u' = tr_exchange u" "\<not> copiedIn u" "copiedIn u'"
    and "length (payload F (nb r ex) (mirror_code ex)) = length (exchangeCells (tr_exchange u))"
    and "g = writeCells (exchangeCells (tr_exchange u)) (payload F (nb r ex) (mirror_code ex)) (deviceField s r)"
  shows "fieldOk F ((putReceive r ex u' s)\<lparr>network := net, deviceField := (deviceField s)(r := g)\<rparr>)" (is "fieldOk F ?s")
  unfolding fieldOk_def
proof (intro allI conjI impI)
  let ?e = "tr_exchange u" and ?d = "payload F (nb r ex) (mirror_code ex)"
  have dom: "map_of (zip (exchangeCells ?e) ?d) c = None \<longleftrightarrow> c \<notin> set (exchangeCells ?e)" for c
    using assms(7) by (simp add: map_of_zip_is_None)
  have of_u: "receiveOf r ex = Some ?e" using tables_of(2) [OF assms(1,3)] .
  { fix q c x w
    assume w: "receiveTasks ?s q x = Some w \<and> copiedIn w \<and> c \<in> set (exchangeCells (tr_exchange w))"
    show "map_of (zip (exchangeCells (tr_exchange w)) (payload F (nb q x) (mirror_code x))) c = Some (deviceField ?s q c)"
    proof (cases "q = r \<and> x = ex")
      case True
      then have "c \<in> set (exchangeCells ?e)" "tr_exchange w = ?e" using w assms(4) by (auto simp: putReceive_def)
      then show ?thesis using True assms(8) dom [of c] by (auto simp: writeCells_def split: option.splits)
    next
      case False
      then have w': "receiveTasks s q x = Some w" using w by (auto simp: putReceive_def split: if_splits)
      have "deviceField ?s q c = deviceField s q c"
      proof (cases "q = r")
        case True
        then have "c \<notin> set (exchangeCells ?e)"
          using receives_disjoint [OF of_u tables_of(2) [OF assms(1), of r x w]] False w w' by auto
        then show ?thesis using True assms(8) dom [of c] by (simp add: writeCells_def)
      qed simp
      then show ?thesis using assms(2) w w' unfolding fieldOk_def by simp
    qed }
  fix q c
  assume c: "\<forall>x w. receiveTasks ?s q x = Some w \<and> copiedIn w \<longrightarrow> c \<notin> set (exchangeCells (tr_exchange w))"
  have "receiveTasks ?s r ex = Some u'" by (simp add: putReceive_def)
  then have "q = r \<Longrightarrow> c \<notin> set (exchangeCells ?e)" using c assms(4,6) by metis
  then have "deviceField ?s q c = deviceField s q c" using assms(8) dom [of c] by (auto simp: writeCells_def)
  moreover have "\<forall>x w. receiveTasks s q x = Some w \<and> copiedIn w \<longrightarrow> c \<notin> set (exchangeCells (tr_exchange w))"
    using c assms(3,5) unfolding receiveTasks_put by (metis option.inject)
  ultimately show "deviceField ?s q c = F q c" using assms(2) unfolding fieldOk_def by metis
qed

lemma put_same [simp]:
  "deviceField (putSend r ex t s) = deviceField s" "receiveTasks (putSend r ex t s) = receiveTasks s" "network (putSend r ex t s) = network s"
  "deviceField (putReceive r ex u s) = deviceField s" "sendTasks (putReceive r ex u s) = sendTasks s" "network (putReceive r ex u s) = network s"
  by (simp_all add: putSend_def putReceive_def)

lemma inv_send:
  assumes inv: "halo_inv F s" and t: "sendTasks s r ex = Some t" "ts_exchange t' = ts_exchange t"
    and net: "\<forall>e. e \<noteq> sendEnvelope comm r ex (ts_exchange t) \<longrightarrow> pending net e = pending (network s) e"
    and ok: "\<And>u. channelOk (payload F r ex) t (pending (network s) (sendEnvelope comm r ex (ts_exchange t))) u \<Longrightarrow>
           channelOk (payload F r ex) t' (pending net (sendEnvelope comm r ex (ts_exchange t))) u"
  shows "halo_inv F ((putSend r ex t' s)\<lparr>network := net\<rparr>)"
proof -
  have "tablesOk s" "channelsOk F s" "fieldOk F s" using inv by (simp_all add: halo_inv_def)
  then show ?thesis
    using channels_send [OF _ _ t net ok] tables_update(1) [OF _ t] by (simp add: halo_inv_def fieldOk_def)
qed

lemma inv_receive:
  assumes inv: "halo_inv F s" and u: "receiveTasks s r ex = Some u" "tr_exchange u' = tr_exchange u"
    and net: "\<forall>e. e \<noteq> receiveEnvelope comm r ex (tr_exchange u) \<longrightarrow> pending net e = pending (network s) e"
    and ok: "\<And>t. channelOk (payload F (nb r ex) (mirror_code ex)) t (pending (network s) (receiveEnvelope comm r ex (tr_exchange u))) u \<Longrightarrow>
           channelOk (payload F (nb r ex) (mirror_code ex)) t (pending net (receiveEnvelope comm r ex (tr_exchange u))) u'"
    and field: "copiedIn u' = copiedIn u \<and> g = deviceField s r
      \<or> \<not> copiedIn u \<and> copiedIn u' \<and> g = writeCells (exchangeCells (tr_exchange u)) (payload F (nb r ex) (mirror_code ex)) (deviceField s r)"
  shows "halo_inv F ((putReceive r ex u' s)\<lparr>network := net, deviceField := (deviceField s)(r := g)\<rparr>)"
proof -
  have I: "tablesOk s" "channelsOk F s" "fieldOk F s" using inv by (simp_all add: halo_inv_def)
  have len: "length (payload F (nb r ex) (mirror_code ex)) = length (exchangeCells (tr_exchange u))"
    using channel_of_receive [OF inv u(1)] by metis
  have "fieldOk F ((putReceive r ex u' s)\<lparr>network := net, deviceField := (deviceField s)(r := g)\<rparr>)"
    using field
  proof
    assume "copiedIn u' = copiedIn u \<and> g = deviceField s r"
    then show ?thesis using field_keep [OF I(3) u] by simp
  next
    assume "\<not> copiedIn u \<and> copiedIn u' \<and> g = writeCells (exchangeCells (tr_exchange u)) (payload F (nb r ex) (mirror_code ex)) (deviceField s r)"
    then show ?thesis using field_write [OF I(1,3) u _ _ len] by blast
  qed
  then show ?thesis
    using channels_receive [OF I(1,2) u(1) net ok] tables_update(2) [OF I(1) u] by (simp add: halo_inv_def)
qed

lemma inv_step:
  assumes "haloStep isend arrive sendDone comm s s'" "halo_inv F s"
  shows "halo_inv F s'"
  using assms
proof cases
  case (sendCopy r ex t k ks)
  note rd = payload_read [OF assms(2) sendCopy(2)]
  obtain u where "channelOk (payload F r ex) t (pending (network s) (sendEnvelope comm r ex (ts_exchange t))) u"
    using channel_of_send [OF assms(2) sendCopy(2)] by metis
  then have "halo_inv F ((putSend r ex (copyOut (deviceField s r) k (t\<lparr>ts_copies := ks\<rparr>)) s)\<lparr>network := network s\<rparr>)"
    using sendCopy(3) rd
    by (intro inv_send [OF assms(2) sendCopy(2)]; cases k) (auto simp: channelOk_def sendStage_def split: if_splits)
  then show ?thesis using sendCopy(1) by (simp add: putSend_def)
next
  case (sendCopied r ex t t' sendMPI net)
  have t': "t' = t\<lparr>ts_state := TS_SendDone\<rparr>" "net = isend (network s) (sendEnvelope comm r ex (ts_exchange t)) (ts_host t)"
    using sendCopied(5,6) by (auto simp: task_defs)
  show ?thesis unfolding sendCopied(1)
    using sendCopied(3,4) t' by (intro inv_send [OF assms(2) sendCopied(2)]) (auto simp: channelOk_def sendStage_def pending_isend split: if_splits)
next
  case (sendFinished r ex t)
  have "halo_inv F ((putSend r ex (fst (TaskSend_event SENDFINISHED t)) s)\<lparr>network := network s\<rparr>)"
    using sendFinished(3) by (intro inv_send [OF assms(2) sendFinished(2)]) (auto simp: channelOk_def task_defs)
  then show ?thesis using sendFinished(1) by (simp add: putSend_def)
next
  case (received r ex u msg net)
  have len: "length (payload F (nb r ex) (mirror_code ex)) = length (exchangeCells (tr_exchange u))"
    using channel_of_receive [OF assms(2) received(2)] by metis
  have "halo_inv F ((putReceive r ex (TaskReceive_event RECVFINISHED (Some (length msg)) (u\<lparr>tr_host := msg\<rparr>)) s)
      \<lparr>network := net, deviceField := (deviceField s)(r := deviceField s r)\<rparr>)"
    using received(3) arrive_pending [OF received(4)]
    by (intro inv_receive [OF assms(2) received(2)]) (auto simp: channelOk_def receiveStage_def task_defs copiedIn_def)
  then show ?thesis using received(1) by (simp add: putReceive_def)
next
  case (receiveCopy r ex u k ks u' g)
  obtain t where "channelOk (payload F (nb r ex) (mirror_code ex)) t (pending (network s) (receiveEnvelope comm r ex (tr_exchange u))) u"
      and len: "length (payload F (nb r ex) (mirror_code ex)) = length (exchangeCells (tr_exchange u))"
    using channel_of_receive [OF assms(2) receiveCopy(2)] by metis
  then have st: "receiveStage (payload F (nb r ex) (mirror_code ex)) u" using receiveCopy(3) by (auto simp: channelOk_def)
  have full: "currentCells (tr_exchange u) (tr_currentSize u) = exchangeCells (tr_exchange u)"
    using cells_full [OF tables_of(2) [OF _ receiveCopy(2)]] assms(2) st len by (simp add: halo_inv_def receiveStage_def)
  have run: "tr_state u = TR_WaitForFinish" "tr_exchange u' = tr_exchange u" using st receiveCopy(3,4) by (auto simp: receiveStage_def copyIn_exchange)
  have dn: "receiveStage (payload F (nb r ex) (mirror_code ex)) u'"
      "copiedIn u' = copiedIn u \<and> g = deviceField s r
        \<or> \<not> copiedIn u \<and> copiedIn u' \<and> g = writeCells (exchangeCells (tr_exchange u)) (payload F (nb r ex) (mirror_code ex)) (deviceField s r)"
    using copyIn_stage [OF st receiveCopy(3,4)] full by auto
  have "halo_inv F ((putReceive r ex u' s)\<lparr>network := network s, deviceField := (deviceField s)(r := g)\<rparr>)"
    using run dn by (intro inv_receive [OF assms(2) receiveCopy(2)]) (auto simp: channelOk_def)
  then show ?thesis using receiveCopy(1) by (simp add: putReceive_def)
next
  case (receiveCopied r ex u type)
  have "halo_inv F ((putReceive r ex (TaskReceive_event type None u) s)\<lparr>network := network s, deviceField := (deviceField s)(r := deviceField s r)\<rparr>)"
    using receiveCopied(3-5)
    by (intro inv_receive [OF assms(2) receiveCopied(2)]) (auto simp: channelOk_def receiveStage_def copiedIn_def task_defs split: if_splits)
  then show ?thesis using receiveCopied(1) by (simp add: putReceive_def)
qed

definition sendWork :: "('a, 'n) HaloState \<Rightarrow> int \<times> nat \<Rightarrow> nat" where
  "sendWork s = (\<lambda>(r, ex). case sendTasks s r ex of None \<Rightarrow> 0 | Some t \<Rightarrow> sendWeight t)"

definition receiveWork :: "('a, 'n) HaloState \<Rightarrow> int \<times> nat \<Rightarrow> nat" where
  "receiveWork s = (\<lambda>(r, ex). case receiveTasks s r ex of None \<Rightarrow> 0 | Some u \<Rightarrow> receiveWeight u)"

definition work :: "('a, 'n) HaloState \<Rightarrow> nat" where
  "work s = sum (sendWork s) {(r, ex). sendOf r ex \<noteq> None} + sum (receiveWork s) {(r, ex). receiveOf r ex \<noteq> None}"

lemma work_send:
  assumes "tablesOk s" "sendTasks s r ex = Some t" "sendWeight t' < sendWeight t"
  shows "work ((putSend r ex t' s)\<lparr>network := net\<rparr>) < work s"
proof -
  have "sum (sendWork ((putSend r ex t' s)\<lparr>network := net\<rparr>)) {(r, ex). sendOf r ex \<noteq> None} < sum (sendWork s) {(r, ex). sendOf r ex \<noteq> None}"
    using assms tables_of(1) [OF assms(1,2)] finitely_many(1)
    by (intro sum_strict_mono_ex1 ballI bexI [of _ "(r, ex)"]) (auto simp: sendWork_def putSend_def)
  then show ?thesis by (simp add: work_def receiveWork_def)
qed

lemma work_receive:
  assumes "tablesOk s" "receiveTasks s r ex = Some u" "receiveWeight u' < receiveWeight u"
  shows "work ((putReceive r ex u' s)\<lparr>network := net, deviceField := f\<rparr>) < work s"
proof -
  have "sum (receiveWork ((putReceive r ex u' s)\<lparr>network := net, deviceField := f\<rparr>)) {(r, ex). receiveOf r ex \<noteq> None}
      < sum (receiveWork s) {(r, ex). receiveOf r ex \<noteq> None}"
    using assms tables_of(2) [OF assms(1,2)] finitely_many(2)
    by (intro sum_strict_mono_ex1 ballI bexI [of _ "(r, ex)"]) (auto simp: receiveWork_def putReceive_def)
  then show ?thesis by (simp add: work_def sendWork_def)
qed

lemma work_step:
  assumes "haloStep isend arrive sendDone comm s s'" "halo_inv F s"
  shows "work s' < work s"
proof -
  have T: "tablesOk s" using assms(2) by (simp add: halo_inv_def)
  show ?thesis using assms
  proof cases
    case (sendCopy r ex t k ks)
    obtain u where "channelOk (payload F r ex) t (pending (network s) (sendEnvelope comm r ex (ts_exchange t))) u"
      using channel_of_send [OF assms(2) sendCopy(2)] by metis
    then have "sendWeight (copyOut (deviceField s r) k (t\<lparr>ts_copies := ks\<rparr>)) < sendWeight t"
      using sendCopy(3) by (cases k) (auto simp: channelOk_def sendWeight_def)
    from work_send [OF T sendCopy(2) this, of "network s"] show ?thesis using sendCopy(1) by (simp add: putSend_def)
  next
    case (sendCopied r ex t t' sendMPI net)
    then show ?thesis using work_send [OF T sendCopied(2), of t' net] by (auto simp: task_defs sendWeight_def)
  next
    case (sendFinished r ex t)
    have "sendWeight (fst (TaskSend_event SENDFINISHED t)) < sendWeight t" using sendFinished(3) by (simp add: task_defs sendWeight_def)
    from work_send [OF T sendFinished(2) this, of "network s"] show ?thesis using sendFinished(1) by (simp add: putSend_def)
  next
    case (received r ex u msg net)
    have "receiveWeight (TaskReceive_event RECVFINISHED (Some (length msg)) (u\<lparr>tr_host := msg\<rparr>)) < receiveWeight u"
      using received(3) by (simp add: task_defs receiveWeight_def)
    from work_receive [OF T received(2) this, of "deviceField s" net] show ?thesis using received(1) by (simp add: putReceive_def)
  next
    case (receiveCopy r ex u k ks u' g)
    obtain t where "channelOk (payload F (nb r ex) (mirror_code ex)) t (pending (network s) (receiveEnvelope comm r ex (tr_exchange u))) u"
      using channel_of_receive [OF assms(2) receiveCopy(2)] by metis
    then have "receiveWeight u' < receiveWeight u"
      using receiveCopy(3,4) by (cases k) (auto simp: channelOk_def receiveStage_def receiveWeight_def split: if_splits)
    from work_receive [OF T receiveCopy(2) this, of "(deviceField s)(r := g)" "network s"] show ?thesis using receiveCopy(1) by (simp add: putReceive_def)
  next
    case (receiveCopied r ex u type)
    have "receiveWeight (TaskReceive_event type None u) < receiveWeight u" using receiveCopied(3-5) by (auto simp: task_defs receiveWeight_def)
    from work_receive [OF T receiveCopied(2) this, of "deviceField s" "network s"] show ?thesis using receiveCopied(1) by (simp add: putReceive_def)
  qed
qed

lemma stuck_finished:
  assumes inv: "halo_inv F s" and stuck: "\<nexists>s'. haloStep isend arrive sendDone comm s s'"
  shows "sendFinishedOn s r ex" "receiveFinishedOn s r ex"
proof -
  note step = stuck [unfolded not_ex, rule_format]
  have waiting: "msgs = []" if "receiveTasks s r ex = Some u" "tr_state u = TR_WaitForReceived"
      "msgs = pending (network s) (receiveEnvelope comm r ex (tr_exchange u))" for r ex u msgs
    using arrive_progress [of "network s" "receiveEnvelope comm r ex (tr_exchange u)"] haloStep.received [OF that(1,2)] step that(3) by metis
  have send: "ts_state t = TS_Finish" if t: "sendTasks s r ex = Some t" for r ex t
  proof -
    obtain u where u: "receiveTasks s (nb r ex) (mirror_code ex) = Some u"
      "channelOk (payload F r ex) t (pending (network s) (sendEnvelope comm r ex (ts_exchange t))) u"
      using channel_of_send [OF inv t] by metis
    have T: "tablesOk s" using inv by (simp add: halo_inv_def)
    have env: "receiveEnvelope comm (nb r ex) (mirror_code ex) (tr_exchange u) = sendEnvelope comm r ex (ts_exchange t)"
      using send_meets [OF tables_of(1) [OF T t]] tables_of(2) [OF T u(1)]
      by (auto simp: sendEnvelope_def receiveEnvelope_def startSend_def startReceive_def)
    have "ts_copies t = []" using haloStep.sendCopy [OF t] step by (cases "ts_copies t") blast+
    moreover have "ts_state t \<noteq> TS_InitDone" using haloStep.sendCopied [OF t _ calculation] step by (metis surj_pair)
    moreover have "\<not> (ts_state t = TS_SendDone \<and> pending (network s) (sendEnvelope comm r ex (ts_exchange t)) = [])"
      using haloStep.sendFinished [OF t] step complete_progress by blast
    ultimately show ?thesis using u(2) waiting [OF u(1)] env by (auto simp: channelOk_def)
  qed
  then show "sendFinishedOn s r ex" by (simp add: sendFinishedOn_def TaskSend_execute_def split: option.splits)
  have "tr_state u = TR_Finish" if u: "receiveTasks s r ex = Some u" for u
  proof -
    obtain t where t: "sendTasks s (nb r ex) (mirror_code ex) = Some t"
      "channelOk (payload F (nb r ex) (mirror_code ex)) t (pending (network s) (receiveEnvelope comm r ex (tr_exchange u))) u"
      using channel_of_receive [OF inv u] by metis
    have "tr_copies u = []" using haloStep.receiveCopy [OF u] step by (cases "tr_copies u") (blast, metis surj_pair)
    moreover from this have "tr_state u \<noteq> TR_WaitForFinish" using haloStep.receiveCopied [OF u] step by blast
    ultimately show ?thesis using t(2) send [OF t(1)] waiting [OF u] by (auto simp: channelOk_def receiveStage_def)
  qed
  then show "receiveFinishedOn s r ex" by (simp add: receiveFinishedOn_def TaskReceive_execute_def split: option.splits)
qed

lemma received_field:
  assumes inv: "halo_inv F s" and fin: "\<And>ex. receiveFinishedOn s r ex"
  shows "receiveOf r ex = Some e \<Longrightarrow> sendOf (nb r ex) (mirror_code ex) = Some e' \<Longrightarrow>
      map (deviceField s r) (exchangeCells e) = map (F (nb r ex)) (exchangeCells e')"
    and "(\<And>ex e. receiveOf r ex = Some e \<Longrightarrow> c \<notin> set (exchangeCells e)) \<Longrightarrow> deviceField s r c = F r c"
proof -
  have T: "tablesOk s" using inv by (simp add: halo_inv_def)
  { assume e: "receiveOf r ex = Some e" "sendOf (nb r ex) (mirror_code ex) = Some e'"
    obtain u where u: "receiveTasks s r ex = Some u" "tr_exchange u = e" using tables_of(2,4) [OF T, of r ex] e(1) by (metis option.discI option.exhaust option.inject)
    have "copiedIn u" using fin [of ex] channel_of_receive [OF inv u(1)] u(1)
      by (auto simp: receiveFinishedOn_def TaskReceive_execute_def copiedIn_def channelOk_def receiveStage_def split: TaskReceive_state.splits)
    moreover have len: "length (exchangeCells e') = length (exchangeCells e)"
      using receive_channel [OF e(1)] e(2) by (metis option.inject)
    ultimately have "map_of (zip (exchangeCells e) (map (F (nb r ex)) (exchangeCells e'))) c = Some (deviceField s r c)" if "c \<in> set (exchangeCells e)" for c
      using inv u that e(2) unfolding halo_inv_def fieldOk_def payload_def by fastforce
    then have "deviceField s r (exchangeCells e ! i) = F (nb r ex) (exchangeCells e' ! i)" if "i < length (exchangeCells e)" for i
      using that len cells_distinct [OF e(1)] map_of_zip_nth [of "exchangeCells e" "map (F (nb r ex)) (exchangeCells e')" i] nth_mem [OF that]
      by (simp only: length_map nth_map option.inject)
    then show "map (deviceField s r) (exchangeCells e) = map (F (nb r ex)) (exchangeCells e')"
      using len by (intro nth_equalityI) auto }
  assume "\<And>ex e. receiveOf r ex = Some e \<Longrightarrow> c \<notin> set (exchangeCells e)"
  then show "deviceField s r c = F r c" using inv tables_of(2) [OF T] unfolding halo_inv_def fieldOk_def by blast
qed

end

section \<open>The tables of a grid buffer\<close>

lemma relativeDigits_inj: "a < 3 ^ n \<Longrightarrow> b < 3 ^ n \<Longrightarrow> relativeDigits n a = relativeDigits n b \<Longrightarrow> a = b"
proof (induction n arbitrary: a b)
  case (Suc n)
  have "a mod 3 = b mod 3" using Suc.prems(3) by (auto simp: Let_def split: if_splits)
  moreover have "a div 3 = b div 3" using Suc.prems by (intro Suc.IH) (auto simp: Let_def)
  ultimately show ?case by (metis div_mult_mod_eq)
qed simp

lemma length_boxList: "\<forall>n \<in> set ns. 0 \<le> n \<Longrightarrow> int (length (boxList ns)) = prod_list ns"
proof (induction ns)
  case (Cons n ns)
  have "length (boxList (n # ns)) = length (boxList ns) * nat n"
    by (simp add: length_concat comp_def sum_list_triv)
  then show ?case using Cons by simp
qed simp

lemma exchangeCells_full:
  assumes "layout_ok l" "guarding_ok l gc" "0 < ex" "ex < 27" "ExchangeIntern_of l gc ex tag area = Some e"
  shows "currentCells e (length (exchangeCells e)) = exchangeCells e"
proof -
  note s = ExchangeIntern_of_nth [OF assms(1,3-5)]
  have "\<forall>n \<in> set (ex_size e). 0 \<le> n" using s assms(1,2) by (auto simp: in_set_conv_nth layout_ok_def guarding_ok_def)
  moreover have "ex_size e \<noteq> []" using s(1) assms(1) by (auto simp: layout_ok_def)
  ultimately have "int (length (exchangeCells e)) = productOfComponents (ex_size e)"
    using length_boxList by (simp add: exchangeCells_list [OF assms] productOfComponents_prod_list)
  then show ?thesis by (simp add: currentCells_def exchangeCells_def)
qed

inductive guardBuffer :: "GridBuffer \<Rightarrow> bool" where
  created: "layout_ok l \<Longrightarrow> guardBuffer (GridBuffer_of l)"
| added: "\<lbrakk>guardBuffer gb; guarding_ok (gridLayout gb) gc; addExchange GUARD receive gc tag (gb, tags) = Inr (gb', tags')\<rbrakk> \<Longrightarrow> guardBuffer gb'"

lemma guardBuffer_inv: "guardBuffer gb \<Longrightarrow> gb_inv gb"
  by (induction rule: guardBuffer.induct) (auto dest: gb_inv_new addExchange_inv)

lemma gb_inv_send:
  assumes "gb_inv gb" "sendExchanges gb ex = Some s"
  obtains gc r where "layout_ok (gridLayout gb)" "guarding_ok (gridLayout gb) gc" "0 < ex" "ex < 3 ^ length (layout_dataSpace (gridLayout gb))" "ex < 27"
    "0 < mirror_code ex" "mirror_code ex < 3 ^ length (layout_dataSpace (gridLayout gb))" "mirror_code ex < 27" "mirror_code (mirror_code ex) = ex"
    "ExchangeIntern_of (gridLayout gb) gc ex (uniqTag (lastUsedCommunicationTag gb) ex) BORDER = Some s"
    "receiveExchanges gb (mirror_code ex) = Some r"
    "ExchangeIntern_of (gridLayout gb) gc (mirror_code ex) (uniqTag (lastUsedCommunicationTag gb) ex) GUARD = Some r"
    "isSet (sendMask gb) ex" "isSet (receiveMask gb) (mirror_code ex)" "ex < maxExchange gb" "mirror_code ex < maxExchange gb"
proof -
  have l: "layout_ok (gridLayout gb)" and ex: "0 < ex" "ex < 3 ^ length (layout_dataSpace (gridLayout gb))" and p: "pairedExchange gb ex s"
    using assms by (auto simp: gb_inv_def)
  note m = mirror_bounds [OF l ex]
  have "mirror_code ex < 27" using mirror_bounds(1) [OF l m(2,3)] .
  then show thesis using p that l ex m unfolding pairedExchange_def by blast
qed

lemma gb_inv_receive:
  assumes "gb_inv gb" "receiveExchanges gb ex = Some r"
  obtains gc s where "layout_ok (gridLayout gb)" "guarding_ok (gridLayout gb) gc" "0 < ex" "ex < 3 ^ length (layout_dataSpace (gridLayout gb))" "ex < 27"
    "0 < mirror_code ex" "mirror_code ex < 3 ^ length (layout_dataSpace (gridLayout gb))" "mirror_code (mirror_code ex) = ex"
    "sendExchanges gb (mirror_code ex) = Some s" "isSet (sendMask gb) (mirror_code ex)" "isSet (receiveMask gb) ex" "ex < maxExchange gb"
    "ExchangeIntern_of (gridLayout gb) gc ex (uniqTag (lastUsedCommunicationTag gb) (mirror_code ex)) GUARD = Some r"
    "ExchangeIntern_of (gridLayout gb) gc (mirror_code ex) (uniqTag (lastUsedCommunicationTag gb) (mirror_code ex)) BORDER = Some s"
proof -
  have l: "layout_ok (gridLayout gb)" and ex: "0 < ex" "ex < 3 ^ length (layout_dataSpace (gridLayout gb))" and "sendExchanges gb (mirror_code ex) \<noteq> None"
    using assms by (auto simp: gb_inv_def)
  then obtain s where s: "sendExchanges gb (mirror_code ex) = Some s" by blast
  note m = mirror_bounds [OF l ex]
  obtain gc r' where g: "guarding_ok (gridLayout gb) gc" "receiveExchanges gb (mirror_code (mirror_code ex)) = Some r'"
      "isSet (sendMask gb) (mirror_code ex)" "isSet (receiveMask gb) (mirror_code (mirror_code ex))" "mirror_code (mirror_code ex) < maxExchange gb"
      "ExchangeIntern_of (gridLayout gb) gc (mirror_code (mirror_code ex)) (uniqTag (lastUsedCommunicationTag gb) (mirror_code ex)) GUARD = Some r'"
      "ExchangeIntern_of (gridLayout gb) gc (mirror_code ex) (uniqTag (lastUsedCommunicationTag gb) (mirror_code ex)) BORDER = Some s"
    using gb_inv_send [OF assms(1) s] by metis
  then show thesis using that l ex m s g assms(2) by (metis option.inject)
qed

lemma exchange_tag: "ExchangeIntern_of l gc ex tag area = Some e \<Longrightarrow> ex_tag e = tag"
  by (auto simp: ExchangeIntern_of_def Let_def split: if_splits)

lemma asyncLoop_started:
  assumes "\<forall>i \<in> set is. i < 27"
  shows "\<exists>ts. asyncLoop m gb is = Inr ts
    \<and> (\<forall>i. StartReceive i \<in> set ts \<longleftrightarrow> i \<in> set is \<and> hasReceiveExchange m gb i)
    \<and> (\<forall>x. StartSend x \<in> set ts \<longleftrightarrow> x \<in> mirror_code ` set is \<and> hasSendExchange m gb x)"
  using assms by (induction "is") (auto simp: getMirroredExchangeType_eq)

lemma asyncCommunication_started:
  assumes "gb_inv gb"
  shows "\<exists>ts. asyncCommunication m gb = Inr ts
    \<and> (\<forall>i. StartReceive i \<in> set ts \<longleftrightarrow> hasReceiveExchange m gb i) \<and> (\<forall>x. StartSend x \<in> set ts \<longleftrightarrow> hasSendExchange m gb x)"
proof -
  have "maxExchange gb \<le> 27" using assms by (simp add: gb_inv_def)
  then have "\<forall>i \<in> set [0..<maxExchange gb]. i < 27" by simp
  then obtain ts where ts: "asyncLoop m gb [0..<maxExchange gb] = Inr ts"
      "\<forall>i. StartReceive i \<in> set ts \<longleftrightarrow> i \<in> set [0..<maxExchange gb] \<and> hasReceiveExchange m gb i"
      "\<forall>x. StartSend x \<in> set ts \<longleftrightarrow> x \<in> mirror_code ` set [0..<maxExchange gb] \<and> hasSendExchange m gb x"
    using asyncLoop_started by blast
  have "i < maxExchange gb" if "hasReceiveExchange m gb i" for i
    using that gb_inv_receive [OF assms] by (metis hasReceiveExchange_def option.exhaust)
  moreover have "x \<in> mirror_code ` set [0..<maxExchange gb]" if x: "hasSendExchange m gb x" for x
  proof -
    obtain s where "sendExchanges gb x = Some s" using x by (auto simp: hasSendExchange_def)
    then have "mirror_code x < maxExchange gb" "mirror_code (mirror_code x) = x" using gb_inv_send [OF assms] by metis+
    then show ?thesis by (metis atLeastLessThan_iff image_eqI set_upt zero_le)
  qed
  ultimately show ?thesis using ts by (auto simp: asyncCommunication_def)
qed

definition startedSend :: "int \<Rightarrow> (int \<Rightarrow> Communicator) \<Rightarrow> GridBuffer \<Rightarrow> int \<Rightarrow> nat \<Rightarrow> ExchangeIntern option" where
  "startedSend nRanks comm gb r ex =
     (if 0 \<le> r \<and> r < nRanks \<and> hasSendExchange (communicationMask (comm r)) gb ex then sendExchanges gb ex else None)"

definition startedReceive :: "int \<Rightarrow> (int \<Rightarrow> Communicator) \<Rightarrow> GridBuffer \<Rightarrow> int \<Rightarrow> nat \<Rightarrow> ExchangeIntern option" where
  "startedReceive nRanks comm gb r ex =
     (if 0 \<le> r \<and> r < nRanks \<and> hasReceiveExchange (communicationMask (comm r)) gb ex then receiveExchanges gb ex else None)"

lemma startCommunication_tasks:
  assumes "gb_inv gb"
  shows "sendTasks (startCommunication nRanks comm gb F net) r ex = map_option TaskSend_start (startedSend nRanks comm gb r ex)"
    and "receiveTasks (startCommunication nRanks comm gb F net) r ex = map_option TaskReceive_start (startedReceive nRanks comm gb r ex)"
proof -
  obtain ts where "asyncCommunication (communicationMask (comm r)) gb = Inr ts"
      "\<forall>i. StartReceive i \<in> set ts \<longleftrightarrow> hasReceiveExchange (communicationMask (comm r)) gb i"
      "\<forall>x. StartSend x \<in> set ts \<longleftrightarrow> hasSendExchange (communicationMask (comm r)) gb x"
    using asyncCommunication_started [OF assms] by blast
  then have "StartSend ex \<in> set (startedOn nRanks comm gb r) \<longleftrightarrow> 0 \<le> r \<and> r < nRanks \<and> hasSendExchange (communicationMask (comm r)) gb ex"
      "StartReceive ex \<in> set (startedOn nRanks comm gb r) \<longleftrightarrow> 0 \<le> r \<and> r < nRanks \<and> hasReceiveExchange (communicationMask (comm r)) gb ex"
    unfolding startedOn_def by (cases "0 \<le> r \<and> r < nRanks"; simp only: sum.case if_True if_False list.set empty_iff simp_thms; blast)+
  then show "sendTasks (startCommunication nRanks comm gb F net) r ex = map_option TaskSend_start (startedSend nRanks comm gb r ex)"
    and "receiveTasks (startCommunication nRanks comm gb F net) r ex = map_option TaskReceive_start (startedReceive nRanks comm gb r ex)"
    unfolding startCommunication_def startedSend_def startedReceive_def by auto
qed

lemma cells_side:
  assumes "gb_inv gb"
  shows "sendExchanges gb ex = Some s \<Longrightarrow> c \<in> set (exchangeCells s) \<Longrightarrow>
      cellSide (gridLayout gb) c = relativeDigits (length (layout_dataSpace (gridLayout gb))) 0"
    and "receiveExchanges gb ex = Some r \<Longrightarrow> c \<in> set (exchangeCells r) \<Longrightarrow>
      cellSide (gridLayout gb) c = relativeDigits (length (layout_dataSpace (gridLayout gb))) ex"
proof -
  assume s: "sendExchanges gb ex = Some s" and c: "c \<in> set (exchangeCells s)"
  obtain gc tag where "layout_ok (gridLayout gb)" "guarding_ok (gridLayout gb) gc" "0 < ex" "ex < 27" "ExchangeIntern_of (gridLayout gb) gc ex tag BORDER = Some s"
    using gb_inv_send [OF assms s] by metis
  from exchangeCells_facts(4) [OF this refl c]
  show "cellSide (gridLayout gb) c = relativeDigits (length (layout_dataSpace (gridLayout gb))) 0" by (simp only: relativeDigits_zero)
next
  assume r: "receiveExchanges gb ex = Some r" and c: "c \<in> set (exchangeCells r)"
  obtain gc tag where "layout_ok (gridLayout gb)" "guarding_ok (gridLayout gb) gc" "0 < ex" "ex < 27" "ExchangeIntern_of (gridLayout gb) gc ex tag GUARD = Some r"
    using gb_inv_receive [OF assms r] by metis
  from exchangeCells_facts(3) [OF this refl c]
  show "cellSide (gridLayout gb) c = relativeDigits (length (layout_dataSpace (gridLayout gb))) ex" .
qed

lemma receive_regions:
  assumes "gb_inv gb" "receiveExchanges gb ex = Some e"
  shows "receiveExchanges gb ex' = Some e' \<Longrightarrow> ex \<noteq> ex' \<Longrightarrow> set (exchangeCells e) \<inter> set (exchangeCells e') = {}"
    and "sendExchanges gb ex' = Some e' \<Longrightarrow> set (exchangeCells e') \<inter> set (exchangeCells e) = {}"
proof -
  let ?n = "length (layout_dataSpace (gridLayout gb))"
  have ex: "0 < ex" "ex < 3 ^ ?n" using gb_inv_receive [OF assms] by metis+
  show "set (exchangeCells e) \<inter> set (exchangeCells e') = {}" if r: "receiveExchanges gb ex' = Some e'" and ne: "ex \<noteq> ex'"
  proof -
    have "ex' < 3 ^ ?n" using gb_inv_receive [OF assms(1) r] by metis
    then show ?thesis using cells_side(2) [OF assms] cells_side(2) [OF assms(1) r] relativeDigits_inj [OF ex(2)] ne by fastforce
  qed
  show "set (exchangeCells e') \<inter> set (exchangeCells e) = {}" if s: "sendExchanges gb ex' = Some e'"
    using cells_side(2) [OF assms] cells_side(1) [OF assms(1) s] relativeDigits_inj [OF ex(2), of 0] ex(1) by fastforce
qed

section \<open>The exchange on a process grid\<close>

definition communicators ::
    "(int \<Rightarrow> DataSpace) \<Rightarrow> (DataSpace \<Rightarrow> int) \<Rightarrow> nat \<Rightarrow> (int \<Rightarrow> Communicator) \<Rightarrow> int \<Rightarrow> Communicator" where
  "communicators cart_coords cart_rank DIM c r = updateCoordinates cart_coords cart_rank DIM r (c r)"

definition gridSize :: "nat \<Rightarrow> (int \<Rightarrow> Communicator) \<Rightarrow> int" where
  "gridSize DIM c = prod_list (take DIM (dims (c 0)))"

locale guard_exchange = mpi_messages isend arrive sendDone pending
    + cart_topology cart_coords cart_rank "take DIM (dims (c 0))" "take DIM (periodic (c 0))"
  for isend :: "'n \<Rightarrow> envelope \<Rightarrow> 'a list \<Rightarrow> 'n" and arrive sendDone pending
    and cart_coords cart_rank and DIM :: nat and c :: "int \<Rightarrow> Communicator" +
  fixes gb :: GridBuffer
  assumes wf: "comm_wf DIM (c r)" and same: "sameGrid (c r) (c r')"
    and inv: "gb_inv gb" and dim: "length (layout_dataSpace (gridLayout gb)) = DIM"
begin

abbreviation comm :: "int \<Rightarrow> Communicator" where
  "comm \<equiv> communicators cart_coords cart_rank DIM c"

lemma meets:
  assumes "0 \<le> r" "r < gridSize DIM c" "isSet (communicationMask (comm r)) ex" "0 < ex" "ex < 3 ^ DIM"
  defines "q \<equiv> ExchangeTypeToRank (comm r) ex"
  shows "0 \<le> q" "q < gridSize DIM c" "isSet (communicationMask (comm q)) (mirror_code ex)" "ExchangeTypeToRank (comm q) (mirror_code ex) = r"
proof -
  have grid: "take DIM (dims (c r)) = take DIM (dims (c 0))" "take DIM (periodic (c r)) = take DIM (periodic (c 0))"
    using same [of r 0] by (simp_all add: sameGrid_def)
  have "DIM = 2 \<or> DIM = 3" using wf by (auto simp: comm_wf_def)
  then have m: "mirror_code ex < 3 ^ DIM" "relativeDigits DIM (mirror_code ex) = vec_uminus (relativeDigits DIM ex)" "0 < mirror_code ex"
    using mirror_relative assms(4,5) mirror_code_pos by auto
  have "0 \<le> q \<and> q < prod_list (take DIM (dims (c 0))) \<and> isSet (communicationMask (updateCoordinates cart_coords cart_rank DIM q (c q))) (mirror_code ex)
      \<and> ExchangeTypeToRank (updateCoordinates cart_coords cart_rank DIM q (c q)) (mirror_code ex) = r"
    using assms(1-3) by (intro neighbour_meets [OF wf wf same grid [symmetric] _ _ assms(4,5) m(3,1,2)]) (auto simp: gridSize_def communicators_def q_def)
  then show "0 \<le> q" "q < gridSize DIM c" "isSet (communicationMask (comm q)) (mirror_code ex)" "ExchangeTypeToRank (comm q) (mirror_code ex) = r"
    by (auto simp: gridSize_def communicators_def)
qed

end

sublocale guard_exchange \<subseteq> halo: halo_exchange isend arrive sendDone pending "communicators cart_coords cart_rank DIM c"
  "startedSend (gridSize DIM c) (communicators cart_coords cart_rank DIM c) gb"
  "startedReceive (gridSize DIM c) (communicators cart_coords cart_rank DIM c) gb"
proof unfold_locales
  let ?S = "startedSend (gridSize DIM c) comm gb" and ?R = "startedReceive (gridSize DIM c) comm gb"
  fix r ex e ex' e'
  have S: "?S r ex = Some e \<longleftrightarrow> 0 \<le> r \<and> r < gridSize DIM c \<and> isSet (communicationMask (comm r)) ex \<and> isSet (sendMask gb) ex \<and> sendExchanges gb ex = Some e" for r ex e
    by (auto simp: startedSend_def hasSendExchange_def getSendMask_def)
  have R: "?R r ex = Some e \<longleftrightarrow> 0 \<le> r \<and> r < gridSize DIM c \<and> isSet (communicationMask (comm r)) ex \<and> isSet (receiveMask gb) ex \<and> receiveExchanges gb ex = Some e" for r ex e
    by (auto simp: startedReceive_def hasReceiveExchange_def getReceiveMask_def)
  { assume s: "?S r ex = Some e"
    let ?q = "ExchangeTypeToRank (comm r) ex"
    obtain gc e' where g: "layout_ok (gridLayout gb)" "guarding_ok (gridLayout gb) gc" "0 < ex" "ex < 3 ^ DIM" "mirror_code (mirror_code ex) = ex"
      "ExchangeIntern_of (gridLayout gb) gc ex (uniqTag (lastUsedCommunicationTag gb) ex) BORDER = Some e"
      "receiveExchanges gb (mirror_code ex) = Some e'"
      "ExchangeIntern_of (gridLayout gb) gc (mirror_code ex) (uniqTag (lastUsedCommunicationTag gb) ex) GUARD = Some e'"
      "isSet (receiveMask gb) (mirror_code ex)" "0 < mirror_code ex" "mirror_code ex < 3 ^ DIM"
      using gb_inv_send [OF inv, of ex e] s [unfolded S] unfolding dim by metis
    note m = meets [OF _ _ _ g(3,4), of r]
    have "length (exchangeCells e') = length (exchangeCells e)"
      using exchangeCells_shift [OF g(1,2,10) _ _ g(8)] g(5,6,11) dim by (metis length_map)
    then show "\<exists>e'. ?R ?q (mirror_code ex) = Some e' \<and> ex_tag e' = ex_tag e \<and> length (exchangeCells e') = length (exchangeCells e)
        \<and> ExchangeTypeToRank (comm ?q) (mirror_code ex) = r \<and> mirror_code (mirror_code ex) = ex"
      using m s g by (intro exI [of _ e']) (auto simp: S R exchange_tag) }
  { assume s: "?R r ex = Some e"
    let ?q = "ExchangeTypeToRank (comm r) ex"
    obtain e' where g: "0 < ex" "ex < 3 ^ DIM" "mirror_code (mirror_code ex) = ex" "sendExchanges gb (mirror_code ex) = Some e'" "isSet (sendMask gb) (mirror_code ex)"
      using gb_inv_receive [OF inv, of ex e] s [unfolded R] unfolding dim by metis
    note m = meets [OF _ _ _ g(1,2), of r]
    have "?S ?q (mirror_code ex) = Some e'" using m s g by (simp add: S R)
    then show "?S ?q (mirror_code ex) \<noteq> None \<and> ExchangeTypeToRank (comm ?q) (mirror_code ex) = r \<and> mirror_code (mirror_code ex) = ex"
      using m s g by (simp add: R) }
  { assume "?S r ex = Some e" "?S r ex' = Some e'" "ex_tag e = ex_tag e'"
    then have "ex_tag e = uniqTag (lastUsedCommunicationTag gb) ex" "ex_tag e' = uniqTag (lastUsedCommunicationTag gb) ex'" "ex < 27" "ex' < 27" "ex_tag e = ex_tag e'"
      using gb_inv_send [OF inv, of ex e] gb_inv_send [OF inv, of ex' e'] unfolding S by (metis exchange_tag)+
    then show "ex = ex'" using uniqTag_inj by metis }
  { assume s: "?R r ex = Some e"
    then obtain gc tag where g: "layout_ok (gridLayout gb)" "guarding_ok (gridLayout gb) gc" "0 < ex" "ex < 27" "ExchangeIntern_of (gridLayout gb) gc ex tag GUARD = Some e"
      using gb_inv_receive [OF inv, of ex e] unfolding R by metis
    show "distinct (exchangeCells e)" "currentCells e (length (exchangeCells e)) = exchangeCells e"
      using exchangeCells_facts(1) [OF g] exchangeCells_full [OF g] by simp_all }
  show "?R r ex = Some e \<Longrightarrow> ?R r ex' = Some e' \<Longrightarrow> ex \<noteq> ex' \<Longrightarrow> set (exchangeCells e) \<inter> set (exchangeCells e') = {}"
    using receive_regions(1) [OF inv] unfolding R by blast
  show "?S r ex = Some e \<Longrightarrow> ?R r ex' = Some e' \<Longrightarrow> set (exchangeCells e) \<inter> set (exchangeCells e') = {}"
    using receive_regions(2) [OF inv] unfolding R S by blast
  have "ex < 27" if "?S r ex = Some e \<or> ?R r ex = Some e" for r ex e
    using that gb_inv_send [OF inv, of ex e] gb_inv_receive [OF inv, of ex e] unfolding R S by metis
  then have sub: "{(r, ex). ?S r ex \<noteq> None} \<subseteq> {0..<gridSize DIM c} \<times> {..<27}" "{(r, ex). ?R r ex \<noteq> None} \<subseteq> {0..<gridSize DIM c} \<times> {..<27}"
    using S R by auto
  show "finite {(r, ex). ?S r ex \<noteq> None}" "finite {(r, ex). ?R r ex \<noteq> None}"
    using sub finite_subset by blast+
qed

lemma vec_sub_add: "length a = length b \<Longrightarrow> vec_sub (vec_add a b) a = b" for a b :: "int list"
  by (induction a b rule: list_induct2) (auto simp: vec_sub_def vec_sub_assign_def vec_add_def vec_add_assign_def)

lemma start_exchange: "ts_exchange (TaskSend_start e) = e" "tr_exchange (TaskReceive_start e) = e"
  by (simp_all add: TaskSend_start_def TaskReceive_start_def)

lemma start_channel: "channelOk d (TaskSend_start e) [] (TaskReceive_start e')"
  by (simp add: TaskSend_start_def TaskReceive_start_def channelOk_def sendStage_def)

lemma start_weight: "sendWeight (TaskSend_start e) \<le> 4" "receiveWeight (TaskReceive_start e) \<le> 4"
  by (simp_all add: TaskSend_start_def TaskReceive_start_def sendWeight_def receiveWeight_def)

context guard_exchange
begin

abbreviation start :: "(int \<Rightarrow> DataSpace \<Rightarrow> 'a) \<Rightarrow> 'n \<Rightarrow> ('a, 'n) HaloState" where
  "start F net \<equiv> startCommunication (gridSize DIM c) comm gb F net"

lemma start_inv:
  assumes empty: "\<forall>e. pending net e = []"
  shows "halo.halo_inv F (start F net)"
  unfolding halo.halo_inv_def
proof (intro conjI)
  show "halo.tablesOk (start F net)"
    unfolding halo.tablesOk_def startCommunication_tasks [OF inv] option.map_comp comp_def start_exchange option.map_ident by simp
  show "halo.channelsOk F (start F net)"
    unfolding halo.channelsOk_def
  proof (intro allI impI)
    fix r ex t u
    assume "sendTasks (start F net) r ex = Some t" "receiveTasks (start F net) (ExchangeTypeToRank (comm r) ex) (mirror_code ex) = Some u"
    then obtain e e' where "t = TaskSend_start e" "u = TaskReceive_start e'" unfolding startCommunication_tasks [OF inv] by blast
    moreover have "network (start F net) = net" by (simp add: startCommunication_def)
    ultimately show "channelOk (halo.payload F r ex) t (pending (network (start F net)) (sendEnvelope comm r ex (ts_exchange t))) u"
      using start_channel empty by metis
  qed
  show "halo.fieldOk F (start F net)"
  proof -
    have "\<not> copiedIn u" if "receiveTasks (start F net) r ex = Some u" for r ex u
      using that unfolding startCommunication_tasks [OF inv] by (auto simp: TaskReceive_start_def copiedIn_def)
    moreover have "deviceField (start F net) = F" by (simp add: startCommunication_def)
    ultimately show ?thesis unfolding halo.fieldOk_def by metis
  qed
qed

lemma run_inv:
  assumes "\<forall>e. pending net e = []" "(haloStep isend arrive sendDone comm)\<^sup>*\<^sup>* (start F net) s"
  shows "halo.halo_inv F s"
  using assms(2) by (induction rule: rtranclp_induct) (auto intro: start_inv [OF assms(1)] halo.inv_step)

lemma run_work:
  assumes "\<forall>e. pending net e = []" "(haloStep isend arrive sendDone comm ^^ n) (start F net) s"
  shows "n + halo.work s \<le> halo.work (start F net)"
  using assms(2)
proof (induction n arbitrary: s)
  case (Suc n)
  then obtain s1 where s1: "(haloStep isend arrive sendDone comm ^^ n) (start F net) s1" "haloStep isend arrive sendDone comm s1 s" by auto
  have "halo.halo_inv F s1" using run_inv [OF assms(1)] relpowp_imp_rtranclp [OF s1(1)] by blast
  then show ?case using halo.work_step [OF s1(2)] Suc.IH [OF s1(1)] by fastforce
qed simp

lemma start_work: "halo.work (start F net) \<le> 216 * nat (gridSize DIM c)"
proof -
  let ?A = "{0..<gridSize DIM c} \<times> {..<27 :: nat}"
  let ?S = "{(r, ex). startedSend (gridSize DIM c) comm gb r ex \<noteq> None}" and ?R = "{(r, ex). startedReceive (gridSize DIM c) comm gb r ex \<noteq> None}"
  have sub: "?S \<subseteq> ?A" "?R \<subseteq> ?A"
    using gb_inv_send [OF inv] gb_inv_receive [OF inv] by (auto simp: startedSend_def startedReceive_def split: if_splits) metis+
  have card: "card ?A = 27 * nat (gridSize DIM c)" by simp
  have "halo.sendWork (start F net) x \<le> 4" "halo.receiveWork (start F net) x \<le> 4" for x
    by (cases x; simp add: halo.sendWork_def halo.receiveWork_def startCommunication_tasks [OF inv] start_weight split: option.splits)+
  then have "sum (halo.sendWork (start F net)) ?S \<le> 4 * card ?S" "sum (halo.receiveWork (start F net)) ?R \<le> 4 * card ?R"
    using sum_bounded_above [of ?S "halo.sendWork (start F net)" 4] sum_bounded_above [of ?R "halo.receiveWork (start F net)" 4] by (simp_all add: mult.commute)
  moreover have "card ?S \<le> card ?A" "card ?R \<le> card ?A" using card_mono [OF _ sub(1)] card_mono [OF _ sub(2)] by simp_all
  ultimately show ?thesis unfolding card halo.work_def by linarith
qed

lemma finishing_run:
  assumes "\<forall>e. pending net e = []"
  shows "\<exists>s. (haloStep isend arrive sendDone comm)\<^sup>*\<^sup>* (start F net) s \<and> (\<forall>r ex. sendFinishedOn s r ex \<and> receiveFinishedOn s r ex)"
proof -
  have "\<exists>s'. (haloStep isend arrive sendDone comm)\<^sup>*\<^sup>* s s' \<and> (\<forall>r ex. sendFinishedOn s' r ex \<and> receiveFinishedOn s' r ex)" if "halo.halo_inv F s" for s
    using that
  proof (induction "halo.work s" arbitrary: s rule: less_induct)
    case less
    show ?case
    proof (cases "\<exists>s'. haloStep isend arrive sendDone comm s s'")
      case True
      then obtain s1 where s1: "haloStep isend arrive sendDone comm s s1" by blast
      from less.hyps [OF halo.work_step [OF s1 less.prems] halo.inv_step [OF s1 less.prems]] show ?thesis
        using s1 by (meson converse_rtranclp_into_rtranclp)
    next
      case False
      then show ?thesis using halo.stuck_finished [OF less.prems] by blast
    qed
  qed
  from this [OF start_inv [OF assms]] show ?thesis .
qed

lemma untouched:
  assumes "\<forall>e. pending net e = []" "(haloStep isend arrive sendDone comm)\<^sup>*\<^sup>* (start F net) s" "\<forall>ex. receiveFinishedOn s r ex"
    and "\<forall>ex e. startedReceive (gridSize DIM c) comm gb r ex = Some e \<longrightarrow> cell \<notin> set (exchangeCells e)"
  shows "deviceField s r cell = F r cell"
  using halo.received_field(2) [OF run_inv [OF assms(1,2)]] assms(3,4) by blast

lemma stuck:
  assumes "\<forall>e. pending net e = []" "(haloStep isend arrive sendDone comm)\<^sup>*\<^sup>* (start F net) s" "\<nexists>s'. haloStep isend arrive sendDone comm s s'"
  shows "sendFinishedOn s r ex \<and> receiveFinishedOn s r ex"
  using halo.stuck_finished [OF run_inv [OF assms(1,2)] assms(3)] by blast

lemma delivered:
  assumes "\<forall>e. pending net e = []" "(haloStep isend arrive sendDone comm)\<^sup>*\<^sup>* (start F net) s" "\<forall>ex. receiveFinishedOn s r ex"
    and e: "startedReceive (gridSize DIM c) comm gb r ex = Some e" and cell: "cell \<in> set (exchangeCells e)"
  shows "deviceField s r cell = F (ExchangeTypeToRank (comm r) ex) (vec_sub cell (vec_mul (relativeDigits DIM ex) (layout_dataSpace (gridLayout gb))))"
proof -
  let ?q = "ExchangeTypeToRank (comm r) ex" and ?d = "vec_mul (relativeDigits DIM ex) (layout_dataSpace (gridLayout gb))"
  obtain e' where e': "startedSend (gridSize DIM c) comm gb ?q (mirror_code ex) = Some e'" using halo.receive_meets [OF e] by blast
  have recv: "receiveExchanges gb ex = Some e" and sndx: "sendExchanges gb (mirror_code ex) = Some e'"
    using e e' by (auto simp: startedSend_def startedReceive_def split: if_splits)
  obtain gc tag where g: "layout_ok (gridLayout gb)" "guarding_ok (gridLayout gb) gc" "0 < ex" "ex < 3 ^ length (layout_dataSpace (gridLayout gb))" "ex < 27"
      "ExchangeIntern_of (gridLayout gb) gc (mirror_code ex) tag BORDER = Some e'" "ExchangeIntern_of (gridLayout gb) gc ex tag GUARD = Some e"
    using gb_inv_receive [OF inv recv] sndx by (metis option.inject)
  have m: "mirror_code ex < 27" "0 < mirror_code ex" using mirror_code_bound [of ex] mirror_code_pos [OF g(3,5)] by simp_all
  have shift: "exchangeCells e = map (vec_add ?d) (exchangeCells e')"
    using exchangeCells_shift [OF g(1-4,6,7)] dim by simp
  have eq: "map (deviceField s r) (exchangeCells e) = map (F ?q) (exchangeCells e')"
    by (rule halo.received_field(1) [OF run_inv [OF assms(1,2)] _ e e']) (use assms(3) in blast)
  obtain i where i: "i < length (exchangeCells e)" "cell = exchangeCells e ! i" using cell by (auto simp: in_set_conv_nth)
  have len: "length (exchangeCells e') = length (exchangeCells e)" using shift by simp
  have "length cell = DIM" using exchangeCells_facts(2) [OF g(1-3,5,7) cell] dim by simp
  moreover have "i < length (exchangeCells e')" using i(1) len by simp
  then have "cell = vec_add ?d (exchangeCells e' ! i)" unfolding i(2) by (simp only: shift nth_map)
  moreover have "length ?d = DIM" using dim by (simp add: vec_mul_def vec_mul_assign_def)
  moreover have "length (exchangeCells e' ! i) = DIM"
    using exchangeCells_facts(2) [OF g(1,2) m(2) m(1) g(6)] i(1) len dim nth_mem by metis
  ultimately have "vec_sub cell ?d = exchangeCells e' ! i" using vec_sub_add by simp
  moreover have "deviceField s r cell = F ?q (exchangeCells e' ! i)" using arg_cong [OF eq, of "\<lambda>xs. xs ! i"] i len by simp
  ultimately show ?thesis by simp
qed

end

section \<open>Properties\<close>

lemma guard_exchangeI:
  assumes "mpi_messages isend arrive sendDone pending"
    and "cart_topology cart_coords cart_rank (take DIM (dims (c 0))) (take DIM (periodic (c 0)))"
    and "\<forall>r r'. comm_wf DIM (c r) \<and> sameGrid (c r) (c r')"
    and "guardBuffer gb" "length (layout_dataSpace (gridLayout gb)) = DIM"
  shows "guard_exchange isend arrive sendDone pending cart_coords cart_rank DIM c gb"
  using assms guardBuffer_inv by (auto intro!: guard_exchange.intro simp: guard_exchange_axioms_def)

text \<open>
  C5. The exchange delivers the right data. Whatever the order in which the tasks of all processes run, once the
  receives of a process have finished, each cell of its guard that has a neighbour holds the value which that
  neighbour had, when the communication was started, in the cell of its border at the same place
  of the global grid, and every other cell holds its old value. This includes
  process grids in which a process is its own neighbour or the neighbour on several sides.
\<close>

theorem guards_hold_neighbour_border:
  assumes mpi: "mpi_messages isend arrive sendDone pending" "\<forall>e. pending net e = []"
    and topo: "cart_topology cart_coords cart_rank (take DIM (dims (c 0))) (take DIM (periodic (c 0)))"
    and grid: "\<forall>r r'. comm_wf DIM (c r) \<and> sameGrid (c r) (c r')"
    and gb: "guardBuffer gb" "length (layout_dataSpace (gridLayout gb)) = DIM"
    and run: "(haloStep isend arrive sendDone (communicators cart_coords cart_rank DIM c))\<^sup>*\<^sup>*
        (startCommunication (gridSize DIM c) (communicators cart_coords cart_rank DIM c) gb F net) s"
    and fin: "\<forall>ex. receiveFinishedOn s r ex"
  shows "(\<forall>ex e. startedReceive (gridSize DIM c) (communicators cart_coords cart_rank DIM c) gb r ex = Some e \<longrightarrow> cell \<in> set (exchangeCells e) \<longrightarrow>
      deviceField s r cell = F (ExchangeTypeToRank (communicators cart_coords cart_rank DIM c r) ex)
        (vec_sub cell (vec_mul (relativeDigits DIM ex) (layout_dataSpace (gridLayout gb)))))
    \<and> ((\<forall>ex e. startedReceive (gridSize DIM c) (communicators cart_coords cart_rank DIM c) gb r ex = Some e \<longrightarrow> cell \<notin> set (exchangeCells e)) \<longrightarrow>
      deviceField s r cell = F r cell)"
proof -
  note G = guard_exchangeI [OF mpi(1) topo grid gb]
  show ?thesis
    using guard_exchange.delivered [OF G mpi(2) run fin] guard_exchange.untouched [OF G mpi(2) run fin] by blast
qed

text \<open>
  The exchange ends. No run of the tasks has more than 216 events per process, and a state in which
  no event is possible is one in which every send and every receive has finished, so the processes never
  wait for each other.
\<close>

theorem guard_exchange_ends:
  assumes mpi: "mpi_messages isend arrive sendDone pending" "\<forall>e. pending net e = []"
    and topo: "cart_topology cart_coords cart_rank (take DIM (dims (c 0))) (take DIM (periodic (c 0)))"
    and grid: "\<forall>r r'. comm_wf DIM (c r) \<and> sameGrid (c r) (c r')"
    and gb: "guardBuffer gb" "length (layout_dataSpace (gridLayout gb)) = DIM"
    and run: "(haloStep isend arrive sendDone (communicators cart_coords cart_rank DIM c) ^^ n)
        (startCommunication (gridSize DIM c) (communicators cart_coords cart_rank DIM c) gb F net) s"
  shows "n \<le> 216 * nat (gridSize DIM c)
    \<and> ((\<nexists>s'. haloStep isend arrive sendDone (communicators cart_coords cart_rank DIM c) s s') \<longrightarrow>
        (\<forall>r ex. sendFinishedOn s r ex \<and> receiveFinishedOn s r ex))"
proof -
  note G = guard_exchangeI [OF mpi(1) topo grid gb]
  have "n \<le> 216 * nat (gridSize DIM c)"
    using guard_exchange.run_work [OF G mpi(2) run] guard_exchange.start_work [OF G, of F net] by linarith
  then show ?thesis
    using guard_exchange.stuck [OF G mpi(2) relpowp_imp_rtranclp [OF run]] by blast
qed

definition sampleGrid :: Communicator where
  "sampleGrid = \<lparr>coordinates = [0, 0, 0], periodic = [1, 0, 0], ranks = replicate 27 0, dims = [2, 1, 1],
     communicationMask = Mask_empty, hostRank = 0, yoffset = 0, mpiRank = 0, mpiSize = 2\<rparr>"

definition sampleBuffer :: GridBuffer where
  "sampleBuffer = (case addExchange GUARD (Mask_join (Mask_of LEFT) (Mask_of RIGHT)) [1, 1] 3 (GridBuffer_of \<lparr>layout_dataSpace = [4, 4], layout_guard = [1, 1]\<rparr>, []) of
     Inr (gb, _) \<Rightarrow> gb | Inl _ \<Rightarrow> GridBuffer_of \<lparr>layout_dataSpace = [4, 4], layout_guard = [1, 1]\<rparr>)"

lemma all_less2: "(\<forall>d < Suc (Suc 0). P d) \<longleftrightarrow> P 0 \<and> P 1"
  by (auto simp: less_Suc_eq)

lemma sampleBuffer_guard: "guardBuffer sampleBuffer" "gridLayout sampleBuffer = \<lparr>layout_dataSpace = [4, 4], layout_guard = [1, 1]\<rparr>"
proof -
  let ?l = "\<lparr>layout_dataSpace = [4, 4], layout_guard = [1, 1]\<rparr>" and ?m = "Mask_join (Mask_of LEFT) (Mask_of RIGHT)"
  have l: "layout_ok ?l" by (simp add: layout_ok_def all_less2)
  have g: "guarding_ok ?l [1, 1]" by (simp add: guarding_ok_def all_less2)
  have new: "guardBuffer (GridBuffer_of ?l)" "gridLayout (GridBuffer_of ?l) = ?l" using guardBuffer.created [OF l] by (auto simp: GridBuffer_of_def)
  show "guardBuffer sampleBuffer"
    using new guardBuffer.added [OF new(1), of "[1, 1]" ?m 3 "[]"] g
    by (auto simp: sampleBuffer_def split: sum.splits)
  show "gridLayout sampleBuffer = ?l"
    using new addExchange_inv [OF gb_inv_new [OF l], of "[1, 1]" ?m 3 "[]"] g
    by (auto simp: sampleBuffer_def split: sum.splits)
qed

lemma sampleGrid_ok: "comm_wf 2 sampleGrid" "sameGrid sampleGrid sampleGrid"
  by (simp_all add: comm_wf_def sampleGrid_def sameGrid_def)

interpretation grid21: row_major_grid "[2, 1]"
  by unfold_locales simp

lemma sampleGrid_topology: "cart_topology (rowMajor_coords [2, 1]) (rowMajor_rank [2, 1]) (take 2 (dims sampleGrid)) (take 2 (periodic sampleGrid))"
  using grid21.row_major.cart_topology_axioms by (simp add: sampleGrid_def)

interpretation sample: guard_exchange queue_isend queue_arrive "\<lambda>n e. True" "\<lambda>n. n" "rowMajor_coords [2, 1]" "rowMajor_rank [2, 1]" 2 "\<lambda>r. sampleGrid" sampleBuffer
  using sampleGrid_ok sampleGrid_topology sampleBuffer_guard
  by (intro guard_exchangeI queues.mpi_messages_axioms) auto

lemma sample_receive:
  "startedReceive (gridSize 2 (\<lambda>r. sampleGrid)) (communicators (rowMajor_coords [2, 1]) (rowMajor_rank [2, 1]) 2 (\<lambda>r. sampleGrid)) sampleBuffer 0 RIGHT
     = Some \<lparr>ex_type = RIGHT, ex_tag = 98, ex_size = [1, 4], ex_offset = [5, 1]\<rparr>"
  "ExchangeTypeToRank (communicators (rowMajor_coords [2, 1]) (rowMajor_rank [2, 1]) 2 (\<lambda>r. sampleGrid) 0) RIGHT = 1"
proof -
  let ?l = "\<lparr>layout_dataSpace = [4, 4], layout_guard = [1, 1]\<rparr>" and ?m = "Mask_join (Mask_of LEFT) (Mask_of RIGHT)"
  let ?t = "updateCoordinates (rowMajor_coords [2, 1]) (rowMajor_rank [2, 1]) 2 0 sampleGrid"
  have c: "rowMajor_coords [2, 1] 0 \<in> box (take 2 (dims sampleGrid))" by (simp add: sampleGrid_def)
  note T = updateCoordinates_table [where cart_coords = "rowMajor_coords [2, 1]" and rank = 0, OF sampleGrid_ok(1) c]
  have n: "vec_add (logicalCoords sampleGrid (rowMajor_coords [2, 1] 0)) (relativeDigits 2 RIGHT) = [1, 0]"
    by (simp add: logicalCoords_def sampleGrid_def relativeDigits2 RIGHT_def vec_simps)
  have e: "neighbourExists 2 sampleGrid [1, 0]" by (simp add: neighbourExists_def sampleGrid_def upt_rec)
  have k: "rowMajor_rank [2, 1] (rankCoords sampleGrid [1, 0]) = 1"
    by (simp add: rankCoords_def sampleGrid_def rowMajor_rank_def wrapCoords_def upt_rec)
  have nb: "isSet (communicationMask ?t) RIGHT" "ExchangeTypeToRank ?t RIGHT = 1"
    using T(4,5) [of RIGHT "rowMajor_rank [2, 1]"] n e k by (simp_all add: RIGHT_def ExchangeTypeToRank_def Let_def)
  show "ExchangeTypeToRank (communicators (rowMajor_coords [2, 1]) (rowMajor_rank [2, 1]) 2 (\<lambda>r. sampleGrid) 0) RIGHT = 1"
    using nb(2) by (simp add: communicators_def)
  have two: "length (layout_dataSpace ?l) = 2" by simp
  have first: "firstSend (length (layout_dataSpace ?l)) ?m = Some RIGHT" unfolding two by code_simp
  have gc: "\<not> isOneDimensionGreaterThan [1, 1] (layout_guard ?l)" by code_simp
  have l: "layout_ok ?l" by (simp add: layout_ok_def all_less2)
  have m: "isSet ?m (mirror_code LEFT)" "mirror_code LEFT = RIGHT" by code_simp+
  have fresh: "uniqTag 3 RIGHT \<notin> set []" by simp
  obtain gb where gb: "addExchange GUARD ?m [1, 1] 3 (GridBuffer_of ?l, []) = Inr (gb, [uniqTag 3 RIGHT])"
      "\<forall>ex. 0 < ex \<and> ex < 3 ^ 2 \<and> isSet ?m (mirror_code ex) \<longrightarrow>
            sendExchanges gb ex = ExchangeIntern_of ?l [1, 1] ex (uniqTag 3 ex) BORDER
            \<and> receiveExchanges gb (mirror_code ex) = ExchangeIntern_of ?l [1, 1] (mirror_code ex) (uniqTag 3 ex) GUARD"
    using addExchange_fresh(2) [OF l gc first fresh] unfolding two append_Nil by blast
  have "sampleBuffer = gb" using gb(1) by (simp add: sampleBuffer_def)
  moreover have "receiveExchanges gb RIGHT = ExchangeIntern_of ?l [1, 1] RIGHT (uniqTag 3 LEFT) GUARD"
    using gb(2) [rule_format, of LEFT] m by (simp add: LEFT_def)
  moreover have "ExchangeIntern_of ?l [1, 1] RIGHT (uniqTag 3 LEFT) GUARD = Some \<lparr>ex_type = RIGHT, ex_tag = 98, ex_size = [1, 4], ex_offset = [5, 1]\<rparr>"
    by code_simp
  ultimately have r: "receiveExchanges sampleBuffer RIGHT = Some \<lparr>ex_type = RIGHT, ex_tag = 98, ex_size = [1, 4], ex_offset = [5, 1]\<rparr>" by simp
  then have "isSet (receiveMask sampleBuffer) RIGHT" using gb_inv_receive [OF guardBuffer_inv [OF sampleBuffer_guard(1)]] by metis
  then show "startedReceive (gridSize 2 (\<lambda>r. sampleGrid)) (communicators (rowMajor_coords [2, 1]) (rowMajor_rank [2, 1]) 2 (\<lambda>r. sampleGrid)) sampleBuffer 0 RIGHT
     = Some \<lparr>ex_type = RIGHT, ex_tag = 98, ex_size = [1, 4], ex_offset = [5, 1]\<rparr>"
    using r nb(1) by (simp add: startedReceive_def hasReceiveExchange_def getReceiveMask_def communicators_def gridSize_def) (simp add: sampleGrid_def)
qed

theorem guards_hold_neighbour_border_witness:
  "\<exists>s. (haloStep queue_isend queue_arrive (\<lambda>n e. True) (communicators (rowMajor_coords [2, 1]) (rowMajor_rank [2, 1]) 2 (\<lambda>r. sampleGrid)))\<^sup>*\<^sup>*
        (startCommunication (gridSize 2 (\<lambda>r. sampleGrid)) (communicators (rowMajor_coords [2, 1]) (rowMajor_rank [2, 1]) 2 (\<lambda>r. sampleGrid)) sampleBuffer
          (\<lambda>r cell. (r, cell)) (\<lambda>e. [])) s
     \<and> deviceField s 0 [5, 2] = (1, [1, 2])"
proof -
  obtain s where run: "(haloStep queue_isend queue_arrive (\<lambda>n e. True) (communicators (rowMajor_coords [2, 1]) (rowMajor_rank [2, 1]) 2 (\<lambda>r. sampleGrid)))\<^sup>*\<^sup>*
        (startCommunication (gridSize 2 (\<lambda>r. sampleGrid)) (communicators (rowMajor_coords [2, 1]) (rowMajor_rank [2, 1]) 2 (\<lambda>r. sampleGrid)) sampleBuffer
          (\<lambda>r cell. (r, cell)) (\<lambda>e. [])) s" and fin: "\<forall>r ex. receiveFinishedOn s r ex"
    using sample.finishing_run [of "\<lambda>e. []" "\<lambda>r cell. (r, cell)"] by auto
  have cell: "[5, 2] \<in> set (exchangeCells \<lparr>ex_type = RIGHT, ex_tag = 98, ex_size = [1, 4], ex_offset = [5, 1]\<rparr>)" by code_simp
  have "\<forall>r r'. comm_wf 2 sampleGrid \<and> sameGrid sampleGrid sampleGrid" using sampleGrid_ok by blast
  moreover have "length (layout_dataSpace (gridLayout sampleBuffer)) = 2" by (simp add: sampleBuffer_guard(2))
  moreover have "\<forall>ex. receiveFinishedOn s 0 ex" using fin by blast
  ultimately have "deviceField s 0 [5, 2] = (1, vec_sub [5, 2] (vec_mul (relativeDigits 2 RIGHT) (layout_dataSpace (gridLayout sampleBuffer))))"
    using guards_hold_neighbour_border [OF queues.mpi_messages_axioms _ sampleGrid_topology _ sampleBuffer_guard(1) _ run, of 0 "[5, 2]"] sample_receive cell by auto
  moreover have "vec_sub [5, 2] (vec_mul (relativeDigits 2 RIGHT) (layout_dataSpace (gridLayout sampleBuffer))) = [1, 2]"
    by (simp add: sampleBuffer_guard(2) relativeDigits2 RIGHT_def vec_simps)
  ultimately show ?thesis using run by auto
qed

theorem guard_exchange_ends_witness:
  "\<exists>n s. (haloStep queue_isend queue_arrive (\<lambda>n e. True) (communicators (rowMajor_coords [2, 1]) (rowMajor_rank [2, 1]) 2 (\<lambda>r. sampleGrid)) ^^ n)
        (startCommunication (gridSize 2 (\<lambda>r. sampleGrid)) (communicators (rowMajor_coords [2, 1]) (rowMajor_rank [2, 1]) 2 (\<lambda>r. sampleGrid)) sampleBuffer
          (\<lambda>r cell. (r, cell)) (\<lambda>e. [])) s \<and> n \<le> 432 \<and> (\<forall>r ex. sendFinishedOn s r ex \<and> receiveFinishedOn s r ex)"
proof -
  obtain n s where run: "(haloStep queue_isend queue_arrive (\<lambda>n e. True) (communicators (rowMajor_coords [2, 1]) (rowMajor_rank [2, 1]) 2 (\<lambda>r. sampleGrid)) ^^ n)
        (startCommunication (gridSize 2 (\<lambda>r. sampleGrid)) (communicators (rowMajor_coords [2, 1]) (rowMajor_rank [2, 1]) 2 (\<lambda>r. sampleGrid)) sampleBuffer
          (\<lambda>r cell. (r, cell)) (\<lambda>e. [])) s" and fin: "\<forall>r ex. sendFinishedOn s r ex \<and> receiveFinishedOn s r ex"
    using sample.finishing_run [of "\<lambda>e. []" "\<lambda>r cell. (r, cell)"] by (auto dest!: rtranclp_imp_relpowp)
  have "\<forall>r r'. comm_wf 2 sampleGrid \<and> sameGrid sampleGrid sampleGrid" using sampleGrid_ok by blast
  moreover have "length (layout_dataSpace (gridLayout sampleBuffer)) = 2" by (simp add: sampleBuffer_guard(2))
  moreover have "gridSize 2 (\<lambda>r. sampleGrid) = 2" by (simp add: gridSize_def sampleGrid_def)
  ultimately have "n \<le> 432"
    using guard_exchange_ends [OF queues.mpi_messages_axioms _ sampleGrid_topology _ sampleBuffer_guard(1) _ run] by simp
  then show ?thesis using run fin by blast
qed

end
