(* ===== verification/ExchangeMaps.thy ===== *)
theory ExchangeMaps
  imports AreaMaps
begin

text \<open>
  Models \<open>ExchangeMapping\<close> (mappings/kernel/ExchangeMapping.hpp) and the specialisations of
  \<open>ExchangeMappingMethods\<close> (ExchangeMappingMethods.hpp): the mapper of the kernels that work on the
  part of GUARD or BORDER that belongs to one exchange direction. The BORDER specialisations add in
  \<open>size_t\<close>, so their sums are converted back by \<open>i32\<close>. Shown: over all directions the
  exchange areas partition GUARD and BORDER; no supercell is exchanged twice and none is
  forgotten.
\<close>

section \<open>ExchangeMappingMethods\<close>

definition ExchangeAny_getGridDim :: "MappingDescription \<Rightarrow> nat \<Rightarrow> DataSpace" where
  "ExchangeAny_getGridDim base exchangeType = gridSuperCells base"

definition ExchangeAny_getBlockIndex :: "MappingDescription \<Rightarrow> DataSpace \<Rightarrow> nat \<Rightarrow> DataSpace" where
  "ExchangeAny_getBlockIndex base blockIdx exchangeType = blockIdx"

definition ExchangeGuard2_getGridDim :: "MappingDescription \<Rightarrow> nat \<Rightarrow> DataSpace" where
  "ExchangeGuard2_getGridDim base exchangeType =
     (let result = vec_sub_s (gridSuperCells base) (2 * guardingSuperCells base);
          directions = getRelativeDirections 2 exchangeType;
          result = (if xc directions \<noteq> 0 then result[0 := guardingSuperCells base] else result);
          result = (if yc directions \<noteq> 0 then result[1 := guardingSuperCells base] else result)
      in result)"

definition ExchangeGuard2_getBlockIndex :: "MappingDescription \<Rightarrow> DataSpace \<Rightarrow> nat \<Rightarrow> DataSpace" where
  "ExchangeGuard2_getBlockIndex base blockIdx exchangeType =
     (let result = blockIdx; directions = getRelativeDirections 2 exchangeType;
          g = guardingSuperCells base; n = gridSuperCells base;
          result = (if xc directions = 0 then result[0 := xc result + g]
                    else if xc directions = 1 then result[0 := xc result + (xc n - g)] else result);
          result = (if yc directions = 0 then result[1 := yc result + g]
                    else if yc directions = 1 then result[1 := yc result + (yc n - g)] else result)
      in result)"

definition ExchangeBorder2_getGridDim :: "MappingDescription \<Rightarrow> nat \<Rightarrow> DataSpace" where
  "ExchangeBorder2_getGridDim base exchangeType =
     (let result = vec_sub_s (vec_sub_s (gridSuperCells base) (2 * guardingSuperCells base))
                     (2 * borderSuperCells base);
          directions = getRelativeDirections 2 exchangeType;
          result = (if xc directions \<noteq> 0 then result[0 := borderSuperCells base] else result);
          result = (if yc directions \<noteq> 0 then result[1 := borderSuperCells base] else result)
      in result)"

text \<open>The \<open>switch\<close> on one component of the direction, the same statement on every axis.\<close>

definition ExchangeBorder_shift :: "MappingDescription \<Rightarrow> nat \<Rightarrow> int \<Rightarrow> DataSpace \<Rightarrow> DataSpace" where
  "ExchangeBorder_shift base axis direction result =
     (let g = guardingSuperCells base; b = borderSuperCells base; n = gridSuperCells base ! axis
      in if direction = 0 then result[axis := i32 (result ! axis + (g + b))]
         else if direction = -1 then result[axis := i32 (result ! axis + g)]
         else if direction = 1 then result[axis := i32 (result ! axis + (n - g - b))]
         else result)"

definition ExchangeBorder2_getBlockIndex :: "MappingDescription \<Rightarrow> DataSpace \<Rightarrow> nat \<Rightarrow> DataSpace" where
  "ExchangeBorder2_getBlockIndex base blockIdx exchangeType =
     (let result = blockIdx; directions = getRelativeDirections 2 exchangeType;
          result = ExchangeBorder_shift base 0 (xc directions) result;
          result = ExchangeBorder_shift base 1 (yc directions) result
      in result)"

definition ExchangeGuard3_getGridDim :: "MappingDescription \<Rightarrow> nat \<Rightarrow> DataSpace" where
  "ExchangeGuard3_getGridDim base exchangeType =
     (let result = vec_sub_s (gridSuperCells base) (2 * guardingSuperCells base);
          directions = getRelativeDirections 3 exchangeType;
          result = (if xc directions \<noteq> 0 then result[0 := guardingSuperCells base] else result);
          result = (if yc directions \<noteq> 0 then result[1 := guardingSuperCells base] else result);
          result = (if zc directions \<noteq> 0 then result[2 := guardingSuperCells base] else result)
      in result)"

definition ExchangeGuard3_getBlockIndex :: "MappingDescription \<Rightarrow> DataSpace \<Rightarrow> nat \<Rightarrow> DataSpace" where
  "ExchangeGuard3_getBlockIndex base blockIdx exchangeType =
     (let result = blockIdx; directions = getRelativeDirections 3 exchangeType;
          g = guardingSuperCells base; n = gridSuperCells base;
          result = (if xc directions = 0 then result[0 := xc result + g]
                    else if xc directions = 1 then result[0 := xc result + (xc n - g)] else result);
          result = (if yc directions = 0 then result[1 := yc result + g]
                    else if yc directions = 1 then result[1 := yc result + (yc n - g)] else result);
          result = (if zc directions = 0 then result[2 := zc result + g]
                    else if zc directions = 1 then result[2 := zc result + (zc n - g)] else result)
      in result)"

definition ExchangeBorder3_getGridDim :: "MappingDescription \<Rightarrow> nat \<Rightarrow> DataSpace" where
  "ExchangeBorder3_getGridDim base exchangeType =
     (let result = vec_sub_s (vec_sub_s (gridSuperCells base) (2 * guardingSuperCells base))
                     (2 * borderSuperCells base);
          directions = getRelativeDirections 3 exchangeType;
          result = (if xc directions \<noteq> 0 then result[0 := borderSuperCells base] else result);
          result = (if yc directions \<noteq> 0 then result[1 := borderSuperCells base] else result);
          result = (if zc directions \<noteq> 0 then result[2 := borderSuperCells base] else result)
      in result)"

definition ExchangeBorder3_getBlockIndex :: "MappingDescription \<Rightarrow> DataSpace \<Rightarrow> nat \<Rightarrow> DataSpace" where
  "ExchangeBorder3_getBlockIndex base blockIdx exchangeType =
     (let result = blockIdx; directions = getRelativeDirections 3 exchangeType;
          result = ExchangeBorder_shift base 0 (xc directions) result;
          result = ExchangeBorder_shift base 1 (yc directions) result;
          result = ExchangeBorder_shift base 2 (zc directions) result
      in result)"

section \<open>ExchangeMapping\<close>

record ExchangeMapping = MappingDescription +
  exchangeType :: nat

definition ExchangeMapping_of :: "MappingDescription \<Rightarrow> nat \<Rightarrow> ExchangeMapping" where
  "ExchangeMapping_of base ex = MappingDescription.extend base \<lparr>exchangeType = ex\<rparr>"

definition exchange_getGridDim :: "AreaType \<Rightarrow> ExchangeMapping \<Rightarrow> DataSpace" where
  "exchange_getGridDim areaType this =
     (let base = MappingDescription.truncate this; ex = exchangeType this; DIM = length (gridSuperCells base)
      in case areaType of
           GUARD \<Rightarrow> (if DIM = 2 then ExchangeGuard2_getGridDim base ex else ExchangeGuard3_getGridDim base ex)
         | BORDER \<Rightarrow> (if DIM = 2 then ExchangeBorder2_getGridDim base ex else ExchangeBorder3_getGridDim base ex)
         | _ \<Rightarrow> ExchangeAny_getGridDim base ex)"

definition exchange_getSuperCellIndex :: "AreaType \<Rightarrow> ExchangeMapping \<Rightarrow> DataSpace \<Rightarrow> DataSpace" where
  "exchange_getSuperCellIndex areaType this realSuperCellIdx =
     (let base = MappingDescription.truncate this; ex = exchangeType this; DIM = length (gridSuperCells base)
      in case areaType of
           GUARD \<Rightarrow> (if DIM = 2 then ExchangeGuard2_getBlockIndex base realSuperCellIdx ex
                     else ExchangeGuard3_getBlockIndex base realSuperCellIdx ex)
         | BORDER \<Rightarrow> (if DIM = 2 then ExchangeBorder2_getBlockIndex base realSuperCellIdx ex
                      else ExchangeBorder3_getBlockIndex base realSuperCellIdx ex)
         | _ \<Rightarrow> ExchangeAny_getBlockIndex base realSuperCellIdx ex)"

section \<open>Layers along one axis\<close>

text \<open>
  Both areas follow one scheme per axis: a frame of \<open>s\<close> supercells is skipped on each side, the
  exchange layer is \<open>t\<close> thick, the rest of the axis lies between the layers. \<open>layerDim\<close> and
  \<open>layerPos\<close> are its extent and its position for one component of the direction.
\<close>

definition layerDim :: "int \<Rightarrow> int \<Rightarrow> int \<Rightarrow> int \<Rightarrow> int" where
  "layerDim s t n d = (if d \<noteq> 0 then t else n - 2 * s - 2 * t)"

definition layerPos :: "int \<Rightarrow> int \<Rightarrow> int \<Rightarrow> int \<Rightarrow> int \<Rightarrow> int" where
  "layerPos s t n d i = i + (if d = 0 then s + t else if d = 1 then n - s - t else s)"

definition layerDirection :: "int \<Rightarrow> int \<Rightarrow> int \<Rightarrow> int \<Rightarrow> int" where
  "layerDirection s t n p = (if p < s + t then -1 else if n - s - t \<le> p then 1 else 0)"

definition layersDim :: "int \<Rightarrow> int \<Rightarrow> DataSpace \<Rightarrow> DataSpace \<Rightarrow> DataSpace" where
  "layersDim s t n v = map2 (layerDim s t) n v"

definition layersPos :: "int \<Rightarrow> int \<Rightarrow> DataSpace \<Rightarrow> DataSpace \<Rightarrow> DataSpace \<Rightarrow> DataSpace" where
  "layersPos s t n v i = map (\<lambda>d. layerPos s t (n ! d) (v ! d) (i ! d)) [0..<length n]"

lemma layer_into:
  assumes "0 \<le> s" "0 \<le> t" "2 * (s + t) \<le> n" "d \<in> {-1, 0, 1}" "0 \<le> i" "i < layerDim s t n d"
  shows "s \<le> layerPos s t n d i \<and> layerPos s t n d i < n - s
    \<and> layerDirection s t n (layerPos s t n d i) = d
    \<and> (d = 0 \<longleftrightarrow> s + t \<le> layerPos s t n d i \<and> layerPos s t n d i < n - (s + t))"
  using assms by (auto simp: layerDim_def layerPos_def layerDirection_def split: if_splits)

lemma layer_onto:
  assumes "0 \<le> s" "0 \<le> t" "2 * (s + t) \<le> n" "s \<le> p" "p < n - s"
  defines "d \<equiv> layerDirection s t n p"
  shows "0 \<le> p - layerPos s t n d 0 \<and> p - layerPos s t n d 0 < layerDim s t n d
    \<and> layerPos s t n d (p - layerPos s t n d 0) = p"
  using assms by (auto simp: layerDim_def layerPos_def layerDirection_def)

section \<open>The layers of all directions partition the frame\<close>

definition directionsOf :: "int \<Rightarrow> int \<Rightarrow> DataSpace \<Rightarrow> DataSpace \<Rightarrow> DataSpace" where
  "directionsOf s t n p = map (\<lambda>d. layerDirection s t (n ! d) (p ! d)) [0..<length n]"

definition layerIndex :: "int \<Rightarrow> int \<Rightarrow> DataSpace \<Rightarrow> DataSpace \<Rightarrow> DataSpace" where
  "layerIndex s t n p = map (\<lambda>d. p ! d - layerPos s t (n ! d) (directionsOf s t n p ! d) 0) [0..<length n]"

lemma directionsOf_unit: "directionsOf s t n p \<in> unit_offsets (length n)"
  by (auto simp: directionsOf_def unit_offsets_def layerDirection_def)

lemma unit_offsets_nth: "v \<in> unit_offsets n \<Longrightarrow> d < n \<Longrightarrow> v ! d \<in> {-1, 0, 1}"
  unfolding unit_offsets_def using nth_mem by blast

lemma layers_into:
  assumes st: "0 \<le> s" "0 \<le> t" "\<forall>c \<in> set n. 2 * (s + t) \<le> c"
    and v: "v \<in> unit_offsets (length n)" "v \<noteq> replicate (length n) 0"
    and i: "i \<in> box (layersDim s t n v)"
  shows "layersPos s t n v i \<in> inner_box n s - inner_box n (s + t)
    \<and> directionsOf s t n (layersPos s t n v i) = v \<and> layerIndex s t n (layersPos s t n v i) = i"
proof -
  have lv: "length v = length n" using v by (simp add: unit_offsets_def)
  have li: "length i = length n" using i by (simp add: box_def layersDim_def lv)
  have ax: "s \<le> layersPos s t n v i ! d \<and> layersPos s t n v i ! d < n ! d - s
    \<and> layerDirection s t (n ! d) (layersPos s t n v i ! d) = v ! d
    \<and> (v ! d = 0 \<longleftrightarrow> s + t \<le> layersPos s t n v i ! d \<and> layersPos s t n v i ! d < n ! d - (s + t))"
    if d: "d < length n" for d
  proof -
    have "0 \<le> i ! d" "i ! d < layerDim s t (n ! d) (v ! d)"
      using i d by (auto simp: box_def layersDim_def lv)
    moreover have "2 * (s + t) \<le> n ! d" using st d by simp
    ultimately show ?thesis
      using layer_into [OF st(1,2) _ unit_offsets_nth [OF v(1) d]] d by (simp add: layersPos_def)
  qed
  have dir: "directionsOf s t n (layersPos s t n v i) = v"
    using ax lv by (auto simp: directionsOf_def intro!: nth_equalityI)
  have "\<exists>d < length n. v ! d \<noteq> 0"
    using v(2) lv by (metis length_replicate nth_equalityI nth_replicate)
  then have "layersPos s t n v i \<notin> inner_box n (s + t)" using ax by (auto simp: inner_box_def)
  moreover have "layersPos s t n v i \<in> inner_box n s" using ax by (simp add: inner_box_def layersPos_def)
  moreover have "layerIndex s t n (layersPos s t n v i) = i"
    unfolding layerIndex_def dir using li by (auto simp: layersPos_def layerPos_def intro!: nth_equalityI)
  ultimately show ?thesis using dir by simp
qed

lemma layers_onto:
  assumes st: "0 \<le> s" "0 \<le> t" "\<forall>c \<in> set n. 2 * (s + t) \<le> c"
    and p: "p \<in> inner_box n s - inner_box n (s + t)"
  shows "directionsOf s t n p \<noteq> replicate (length n) 0
    \<and> layerIndex s t n p \<in> box (layersDim s t n (directionsOf s t n p))
    \<and> layersPos s t n (directionsOf s t n p) (layerIndex s t n p) = p"
proof -
  have lp: "length p = length n" and b: "\<And>d. d < length n \<Longrightarrow> s \<le> p ! d \<and> p ! d < n ! d - s"
    using p by (auto simp: inner_box_def)
  have ax: "0 \<le> layerIndex s t n p ! d \<and> layerIndex s t n p ! d < layerDim s t (n ! d) (directionsOf s t n p ! d)
    \<and> layerPos s t (n ! d) (directionsOf s t n p ! d) (layerIndex s t n p ! d) = p ! d"
    if d: "d < length n" for d
    using layer_onto [OF st(1,2), of "n ! d" "p ! d"] st(3) b [OF d] d
    by (simp add: layerIndex_def directionsOf_def)
  have "\<exists>d < length n. \<not> (s + t \<le> p ! d \<and> p ! d < n ! d - (s + t))"
    using p lp by (auto simp: inner_box_def)
  then obtain d where d: "d < length n" "layerDirection s t (n ! d) (p ! d) \<noteq> 0"
    by (auto simp: layerDirection_def)
  then have "directionsOf s t n p ! d \<noteq> replicate (length n) 0 ! d" by (simp add: directionsOf_def)
  moreover have "layerIndex s t n p \<in> box (layersDim s t n (directionsOf s t n p))"
    using ax by (simp add: box_def layersDim_def layerIndex_def directionsOf_def)
  moreover have "layersPos s t n (directionsOf s t n p) (layerIndex s t n p) = p"
    using ax lp by (auto simp: layersPos_def intro!: nth_equalityI)
  ultimately show ?thesis by auto
qed

lemma relativeDigits_nonzero:
  assumes "0 < ex" "ex < 3 ^ n"
  shows "relativeDigits n ex \<noteq> replicate n 0"
  using assms encode_relativeDigits [of ex n] encode_relativeDigits [of 0 n]
  by (auto simp: relativeDigits_zero)

lemma layers_partition:
  assumes st: "0 \<le> s" "0 \<le> t" "\<forall>c \<in> set n. 2 * (s + t) \<le> c"
  shows "bij_betw (\<lambda>(ex, i). layersPos s t n (relativeDigits (length n) ex) i)
    (SIGMA ex : {1..<3 ^ length n}. box (layersDim s t n (relativeDigits (length n) ex)))
    (inner_box n s - inner_box n (s + t))"
proof (rule bij_betwI_inverse [where g = "\<lambda>p. (encodeDigits (directionsOf s t n p), layerIndex s t n p)"],
    goal_cases)
  case (1 a)
  then obtain ex i where a: "a = (ex, i)" and ex: "0 < ex" "ex < 3 ^ length n"
    and i: "i \<in> box (layersDim s t n (relativeDigits (length n) ex))" by auto
  from layers_into [OF st relativeDigits_unit relativeDigits_nonzero [OF ex] i] show ?case
    by (simp add: a encode_relativeDigits [OF ex(2)])
next
  case (2 p)
  let ?v = "directionsOf s t n p"
  note o = layers_onto [OF st 2]
  have e: "relativeDigits (length n) (encodeDigits ?v) = ?v" "encodeDigits ?v < 3 ^ length n"
    using relativeDigits_encode [OF directionsOf_unit] by blast+
  have "encodeDigits ?v \<noteq> 0" using e(1) o relativeDigits_zero by metis
  with o e show ?case by simp
qed

section \<open>The specialisations follow the layer scheme\<close>

lemma truncate_ExchangeMapping [simp]:
  "MappingDescription.truncate (ExchangeMapping_of m ex) = m" "exchangeType (ExchangeMapping_of m ex) = ex"
  by (simp_all add: ExchangeMapping_of_def MappingDescription.defs)

lemma unit_offsets2E:
  assumes "v \<in> unit_offsets 2"
  obtains a b where "v = [a, b]" "a = -1 \<or> a = 0 \<or> a = 1" "b = -1 \<or> b = 0 \<or> b = 1"
  using assms by (auto simp: unit_offsets_def elim!: length2E)

lemma directions_digits:
  "getRelativeDirections 2 ex = relativeDigits 2 ex" "getRelativeDirections 3 ex = relativeDigits 3 ex"
  by (simp_all add: getRelativeDirections_def)

lemmas exchange_grid_defs =
  exchange_getGridDim_def ExchangeGuard2_getGridDim_def ExchangeGuard3_getGridDim_def
  ExchangeBorder2_getGridDim_def ExchangeBorder3_getGridDim_def layersDim_def layerDim_def directions_digits

lemmas exchange_index_defs =
  exchange_getSuperCellIndex_def ExchangeGuard2_getBlockIndex_def ExchangeGuard3_getBlockIndex_def
  ExchangeBorder2_getBlockIndex_def ExchangeBorder3_getBlockIndex_def ExchangeBorder_shift_def
  layersPos_def layerPos_def directions_digits upt_rec

lemma exchange_grid2:
  assumes "gridSuperCells m = [nx, ny]"
  shows "exchange_getGridDim GUARD (ExchangeMapping_of m ex) = layersDim 0 (guardingSuperCells m) [nx, ny] (relativeDigits 2 ex)"
    and "exchange_getGridDim BORDER (ExchangeMapping_of m ex)
      = layersDim (guardingSuperCells m) (borderSuperCells m) [nx, ny] (relativeDigits 2 ex)"
  using relativeDigits_unit [of 2 ex]
  by (auto elim!: unit_offsets2E simp: exchange_grid_defs assms vec_simps Let_def)

lemma exchange_grid3:
  assumes "gridSuperCells m = [nx, ny, nz]"
  shows "exchange_getGridDim GUARD (ExchangeMapping_of m ex) = layersDim 0 (guardingSuperCells m) [nx, ny, nz] (relativeDigits 3 ex)"
    and "exchange_getGridDim BORDER (ExchangeMapping_of m ex)
      = layersDim (guardingSuperCells m) (borderSuperCells m) [nx, ny, nz] (relativeDigits 3 ex)"
proof -
  from relativeDigits_unit [of 3 ex] obtain a b c where v: "relativeDigits 3 ex = [a, b, c]"
    by (auto elim!: relativeDigits_cases)
  show "exchange_getGridDim GUARD (ExchangeMapping_of m ex) = layersDim 0 (guardingSuperCells m) [nx, ny, nz] (relativeDigits 3 ex)"
    by (simp add: exchange_grid_defs assms v vec_simps Let_def)
  show "exchange_getGridDim BORDER (ExchangeMapping_of m ex)
      = layersDim (guardingSuperCells m) (borderSuperCells m) [nx, ny, nz] (relativeDigits 3 ex)"
    by (simp add: exchange_grid_defs assms v vec_simps Let_def)
qed

lemma exchange_index2:
  assumes n: "gridSuperCells m = [nx, ny]" and i: "length i = 2"
  shows "exchange_getSuperCellIndex GUARD (ExchangeMapping_of m ex) i = layersPos 0 (guardingSuperCells m) [nx, ny] (relativeDigits 2 ex) i"
    and "exchange_getSuperCellIndex BORDER (ExchangeMapping_of m ex) i
      = map i32 (layersPos (guardingSuperCells m) (borderSuperCells m) [nx, ny] (relativeDigits 2 ex) i)"
proof -
  from relativeDigits_unit [of 2 ex] obtain a b where v: "relativeDigits 2 ex = [a, b]"
    and ab: "a = -1 \<or> a = 0 \<or> a = 1" "b = -1 \<or> b = 0 \<or> b = 1" by (rule unit_offsets2E)
  from i obtain x y where i: "i = [x, y]" by (rule length2E)
  show "exchange_getSuperCellIndex GUARD (ExchangeMapping_of m ex) i = layersPos 0 (guardingSuperCells m) [nx, ny] (relativeDigits 2 ex) i"
    using ab by (auto simp: exchange_index_defs n v i Let_def)
  show "exchange_getSuperCellIndex BORDER (ExchangeMapping_of m ex) i
      = map i32 (layersPos (guardingSuperCells m) (borderSuperCells m) [nx, ny] (relativeDigits 2 ex) i)"
    using ab by (auto simp: exchange_index_defs n v i Let_def)
qed

lemma exchange_index3:
  assumes n: "gridSuperCells m = [nx, ny, nz]" and i: "length i = 3"
  shows "exchange_getSuperCellIndex GUARD (ExchangeMapping_of m ex) i = layersPos 0 (guardingSuperCells m) [nx, ny, nz] (relativeDigits 3 ex) i"
    and "exchange_getSuperCellIndex BORDER (ExchangeMapping_of m ex) i
      = map i32 (layersPos (guardingSuperCells m) (borderSuperCells m) [nx, ny, nz] (relativeDigits 3 ex) i)"
proof -
  from relativeDigits_unit [of 3 ex] obtain a b c where v: "relativeDigits 3 ex = [a, b, c]"
    and abc: "a = -1 \<or> a = 0 \<or> a = 1" "b = -1 \<or> b = 0 \<or> b = 1" "c = -1 \<or> c = 0 \<or> c = 1"
    by (rule relativeDigits_cases)
  from i obtain x y z where i: "i = [x, y, z]" by (rule length3E)
  show "exchange_getSuperCellIndex GUARD (ExchangeMapping_of m ex) i = layersPos 0 (guardingSuperCells m) [nx, ny, nz] (relativeDigits 3 ex) i"
    using abc by (elim disjE) (simp_all add: exchange_index_defs n v i Let_def)
  show "exchange_getSuperCellIndex BORDER (ExchangeMapping_of m ex) i
      = map i32 (layersPos (guardingSuperCells m) (borderSuperCells m) [nx, ny, nz] (relativeDigits 3 ex) i)"
    using abc by (elim disjE) (simp_all add: exchange_index_defs n v i Let_def)
qed

lemma i32_inner_box:
  assumes "p \<in> inner_box n s" "0 \<le> s" "\<forall>c \<in> set n. c < 2 ^ 31"
  shows "map i32 p = p"
proof (rule map_idI)
  fix c assume "c \<in> set p"
  then obtain d where d: "d < length n" "c = p ! d" using assms(1) by (auto simp: in_set_conv_nth inner_box_def)
  then have "s \<le> c" "c < n ! d - s" "n ! d < 2 ^ 31" using assms by (auto simp: inner_box_def)
  then show "i32 c = c" using assms(2) by (intro i32_id) auto
qed

lemma exchange_scheme:
  assumes wf: "mapping_wf m"
    and st: "areaType = GUARD \<and> s = 0 \<and> t = guardingSuperCells m
      \<or> areaType = BORDER \<and> s = guardingSuperCells m \<and> t = borderSuperCells m"
  defines "n \<equiv> gridSuperCells m"
  shows "exchange_getGridDim areaType (ExchangeMapping_of m ex) = layersDim s t n (relativeDigits (length n) ex)"
    and "\<lbrakk>0 < ex; ex < 3 ^ length n; i \<in> box (layersDim s t n (relativeDigits (length n) ex))\<rbrakk> \<Longrightarrow>
      exchange_getSuperCellIndex areaType (ExchangeMapping_of m ex) i = layersPos s t n (relativeDigits (length n) ex) i"
    and "areaCells areaType m = inner_box n s - inner_box n (s + t)"
    and "0 \<le> s" "0 \<le> t" "\<forall>c \<in> set n. 2 * (s + t) \<le> c"
proof -
  have len: "length n = 2 \<or> length n = 3" and g: "0 \<le> guardingSuperCells m" "0 \<le> borderSuperCells m"
    using wf by (simp_all add: mapping_wf_def n_def)
  have e: "\<forall>c \<in> set n. c < 2 ^ 31 \<and> 2 * (guardingSuperCells m + borderSuperCells m) \<le> c"
    using mapping_wf_extents [OF wf] by (simp add: n_def)
  show st': "0 \<le> s" "0 \<le> t" "\<forall>c \<in> set n. 2 * (s + t) \<le> c"
    using st g e by (fastforce, fastforce, fastforce)
  show "areaCells areaType m = inner_box n s - inner_box n (s + t)"
    using st by (auto simp: areaCells_def Let_def n_def)
  show "exchange_getGridDim areaType (ExchangeMapping_of m ex) = layersDim s t n (relativeDigits (length n) ex)"
    using len
  proof
    assume l: "length n = 2"
    then obtain nx ny where n: "n = [nx, ny]" by (rule length2E)
    show ?thesis unfolding l using st exchange_grid2 [of m nx ny ex] by (auto simp: n n_def [symmetric])
  next
    assume l: "length n = 3"
    then obtain nx ny nz where n: "n = [nx, ny, nz]" by (rule length3E)
    show ?thesis unfolding l using st exchange_grid3 [of m nx ny nz ex] by (auto simp: n n_def [symmetric])
  qed
  assume ex: "0 < ex" "ex < 3 ^ length n" and i: "i \<in> box (layersDim s t n (relativeDigits (length n) ex))"
  have li: "length i = length n" using i by (simp add: box_def layersDim_def)
  have "layersPos s t n (relativeDigits (length n) ex) i \<in> inner_box n s"
    using layers_into [OF st' relativeDigits_unit relativeDigits_nonzero [OF ex] i] by simp
  then have fits: "map i32 (layersPos s t n (relativeDigits (length n) ex) i) = layersPos s t n (relativeDigits (length n) ex) i"
    using st' e by (intro i32_inner_box) auto
  show "exchange_getSuperCellIndex areaType (ExchangeMapping_of m ex) i = layersPos s t n (relativeDigits (length n) ex) i"
    using len
  proof
    assume l: "length n = 2"
    then obtain nx ny where n: "n = [nx, ny]" by (rule length2E)
    show ?thesis
      using st fits exchange_index2 [of m nx ny i ex] li unfolding l by (auto simp: n n_def [symmetric])
  next
    assume l: "length n = 3"
    then obtain nx ny nz where n: "n = [nx, ny, nz]" by (rule length3E)
    show ?thesis
      using st fits exchange_index3 [of m nx ny nz i ex] li unfolding l by (auto simp: n n_def [symmetric])
  qed
qed

section \<open>Properties\<close>

text \<open>
  C16. The exchanges of all directions partition GUARD and BORDER. Taken over every direction of
  the dimension, the supercells addressed by the exchange mappers cover the area, and two
  different directions or block indices never address the same supercell.
\<close>

theorem exchangeMapping_partition:
  assumes wf: "mapping_wf m" and area: "areaType = GUARD \<or> areaType = BORDER"
  shows "bij_betw (\<lambda>(ex, i). exchange_getSuperCellIndex areaType (ExchangeMapping_of m ex) i)
    (SIGMA ex : {1..<3 ^ length (gridSuperCells m)}. box (exchange_getGridDim areaType (ExchangeMapping_of m ex)))
    (areaCells areaType m)"
proof -
  from area obtain s t where st: "areaType = GUARD \<and> s = 0 \<and> t = guardingSuperCells m
      \<or> areaType = BORDER \<and> s = guardingSuperCells m \<and> t = borderSuperCells m" by blast
  note sch = exchange_scheme [OF wf st]
  show ?thesis
    unfolding sch(1,3)
    by (rule bij_betw_cong [THEN iffD2, OF _ layers_partition [OF sch(4-6)]]) (auto simp: sch(2))
qed

theorem exchangeMapping_partition_witness:
  "bij_betw (\<lambda>(ex, i). exchange_getSuperCellIndex BORDER
       (ExchangeMapping_of \<lparr>gridSuperCells = [6, 5, 7], guardingSuperCells = 1, borderSuperCells = 1\<rparr> ex) i)
    (SIGMA ex : {1..<27}. box (exchange_getGridDim BORDER
       (ExchangeMapping_of \<lparr>gridSuperCells = [6, 5, 7], guardingSuperCells = 1, borderSuperCells = 1\<rparr> ex)))
    (inner_box [6, 5, 7] 1 - inner_box [6, 5, 7] 2)"
  using exchangeMapping_partition [of "\<lparr>gridSuperCells = [6, 5, 7], guardingSuperCells = 1, borderSuperCells = 1\<rparr>" BORDER]
  by (simp add: mapping_wf_def areaCells_def Let_def)

end
