(* ===== verification/MovingWindows.thy ===== *)
theory MovingWindows
  imports GridControl
begin

text \<open>
  Models \<open>Window\<close> (src/picongpu/include/simulationControl/Window.hpp) and \<open>MovingWindow\<close>
  (MovingWindow.hpp). The physical constants of the parameter files are a record of reals;
  \<open>double\<close> is modelled by \<open>real\<close> (rounding is not modelled), conversions to \<open>uint32_t\<close> reduce
  modulo \<open>2 ^ 32\<close>. Out-parameters that a caller passes as NULL are results it ignores. Shown: the local
  windows of a column of processes tile the global window, the slide counter counts each
  slide step once however often it is asked, and the window offset can become negative.
\<close>

section \<open>State\<close>

record SimParams =
  CELL_HEIGHT :: real
  SPEED_OF_LIGHT :: real
  DELTA_T :: real
  slide_point :: real

record Window =
  globalDimensions :: Selection
  localDimensions :: Selection

record MovingWindow =
  slidingWindowActive :: bool
  slideCounter :: int
  lastSlideStep :: int

definition MovingWindow_init :: MovingWindow where
  "MovingWindow_init = \<lparr>slidingWindowActive = False, slideCounter = 0, lastSlideStep = 0\<rparr>"

definition d2i :: "real \<Rightarrow> int" where
  "d2i x = (if 0 \<le> x then \<lfloor>x\<rfloor> else \<lceil>x\<rceil>)"

section \<open>Operations\<close>

definition incrementSlideCounter :: "int \<Rightarrow> MovingWindow \<Rightarrow> MovingWindow" where
  "incrementSlideCounter currentStep this =
     (if slidingWindowActive this \<and> lastSlideStep this \<noteq> currentStep
      then this\<lparr>slideCounter := u32 (slideCounter this + 1), lastSlideStep := currentStep\<rparr> else this)"

definition stepsInFuture_tmp :: "SimParams \<Rightarrow> Env \<Rightarrow> MovingWindow \<Rightarrow> real" where
  "stepsInFuture_tmp par env this =
     (let windowGlobalDimY = u32 (yc (sel_size (globalDomain (subGrid env)))
            - yc (sel_size (localDomain (subGrid env))) * (if slidingWindowActive this then 1 else 0));
          light_way_per_step = SPEED_OF_LIGHT par * DELTA_T par
      in (real_of_int windowGlobalDimY * CELL_HEIGHT par / light_way_per_step) * (1 - slide_point par))"

definition stepsPerGPU :: "SimParams \<Rightarrow> Env \<Rightarrow> int" where
  "stepsPerGPU par env =
     (let light_way_per_step = SPEED_OF_LIGHT par * DELTA_T par
      in u32 \<lfloor>real_of_int (yc (sel_size (localDomain (subGrid env)))) * CELL_HEIGHT par / light_way_per_step + 1 / 2\<rfloor>)"

definition getCurrentSlideInfo :: "SimParams \<Rightarrow> Env \<Rightarrow> int \<Rightarrow> MovingWindow \<Rightarrow> MovingWindow \<times> bool \<times> real" where
  "getCurrentSlideInfo par env currentStep this =
     (let devices_y = u32 (yc (gpuNodes env));
          cell_height = CELL_HEIGHT par;
          light_way_per_step = SPEED_OF_LIGHT par * DELTA_T par;
          tmp = stepsInFuture_tmp par env this;
          stepsInFuture = u32 \<lceil>tmp\<rceil>;
          stepsInFutureAfterComma = tmp - real_of_int stepsInFuture;
          perGPU = stepsPerGPU par env;
          firstSlideStep = u32 (perGPU * devices_y - stepsInFuture);
          firstMoveStep = u32 (perGPU * (devices_y - 1) - stepsInFuture)
      in if slidingWindowActive this \<and> firstMoveStep \<le> currentStep then
           let stepsInLastGPU = u32 (currentStep + stepsInFuture) mod perGPU;
               doSlide = (firstSlideStep \<le> currentStep \<and> stepsInLastGPU = 0);
               this = (if doSlide then incrementSlideCounter currentStep this else this);
               offsetFirstGPU = \<lfloor>(real_of_int stepsInLastGPU + stepsInFutureAfterComma) * light_way_per_step / cell_height + 1 / 2\<rfloor>
           in (this, doSlide, real_of_int offsetFirstGPU)
         else (this, False, 0))"

definition setSlidingWindow :: "bool \<Rightarrow> MovingWindow \<Rightarrow> MovingWindow" where
  "setSlidingWindow value this = this\<lparr>slidingWindowActive := value\<rparr>"

definition setSlideCounter :: "int \<Rightarrow> int \<Rightarrow> MovingWindow \<Rightarrow> MovingWindow" where
  "setSlideCounter slides currentStep this = this\<lparr>slideCounter := slides, lastSlideStep := currentStep\<rparr>"

definition getSlideCounter :: "SimParams \<Rightarrow> Env \<Rightarrow> int \<Rightarrow> MovingWindow \<Rightarrow> MovingWindow \<times> int" where
  "getSlideCounter par env currentStep this =
     (case getCurrentSlideInfo par env currentStep this of (this, _) \<Rightarrow> (this, slideCounter this))"

definition slideInCurrentStep :: "SimParams \<Rightarrow> Env \<Rightarrow> int \<Rightarrow> MovingWindow \<Rightarrow> MovingWindow \<times> bool" where
  "slideInCurrentStep par env currentStep this =
     (if slidingWindowActive this
      then (case getCurrentSlideInfo par env currentStep this of (this, doSlide, _) \<Rightarrow> (this, doSlide))
      else (this, False))"

definition isBottomGPU :: "Env \<Rightarrow> bool" where
  "isBottomGPU env \<longleftrightarrow> \<not> isSet (getCommunicationMask env) BOTTOM"

definition getWindow :: "SimParams \<Rightarrow> Env \<Rightarrow> int \<Rightarrow> MovingWindow \<Rightarrow> MovingWindow \<times> Window" where
  "getWindow par env currentStep this =
     (let ld = localDomain (subGrid env); gd = globalDomain (subGrid env);
          loc = Selection_size (sel_size ld);
          glob = Selection_size (sel_size gd);
          glob = glob\<lparr>sel_size := (sel_size glob)[1 := yc (sel_size glob)
                   - yc (sel_size ld) * (if slidingWindowActive this then 1 else 0)]\<rparr>
      in if slidingWindowActive this then
           case getCurrentSlideInfo par env currentStep this of
             (this, _, offsetFirstGPU) \<Rightarrow>
               let glob = glob\<lparr>sel_offset := (sel_offset glob)[1 := d2i offsetFirstGPU]\<rparr>;
                   isTopGpu = (\<not> isSet (getCommunicationMask env) TOP);
                   isBottomGpu = (\<not> isSet (getCommunicationMask env) BOTTOM);
                   loc = (if isTopGpu then
                            loc\<lparr>sel_offset := (sel_offset loc)[1 := 0],
                                sel_size := (sel_size loc)[1 := d2i (real_of_int (yc (sel_size loc)) - offsetFirstGPU)]\<rparr>
                          else
                            let loc = loc\<lparr>sel_offset := (sel_offset loc)[1 := d2i (real_of_int (yc (sel_offset ld)) - offsetFirstGPU)]\<rparr>
                            in if isBottomGpu then loc\<lparr>sel_size := (sel_size loc)[1 := d2i offsetFirstGPU]\<rparr> else loc)
               in (this, \<lparr>globalDimensions = glob, localDimensions = loc\<rparr>)
         else (this, \<lparr>globalDimensions = glob, localDimensions = loc\<rparr>))"

definition getDomainAsWindow :: "Env \<Rightarrow> int \<Rightarrow> Window" where
  "getDomainAsWindow env currentStep =
     \<lparr>globalDimensions = globalDomain (subGrid env), localDimensions = localDomain (subGrid env)\<rparr>"

section \<open>The slide counter\<close>

definition slideStep :: "SimParams \<Rightarrow> Env \<Rightarrow> MovingWindow \<Rightarrow> int \<Rightarrow> bool" where
  "slideStep par env this t = fst (snd (getCurrentSlideInfo par env t this))"

lemma d2i_of_int [simp]: "d2i (real_of_int k) = k"
  by (simp add: d2i_def)

lemma info_state:
  "fst (getCurrentSlideInfo par env t this) = (if slideStep par env this t then incrementSlideCounter t this else this)"
  by (simp add: slideStep_def getCurrentSlideInfo_def Let_def)

lemma info_active:
  assumes "slidingWindowActive a = slidingWindowActive b"
  shows "snd (getCurrentSlideInfo par env t a) = snd (getCurrentSlideInfo par env t b)"
  using assms by (simp add: getCurrentSlideInfo_def stepsInFuture_tmp_def Let_def)

lemma info_integral: "\<exists>k. snd (snd (getCurrentSlideInfo par env t this)) = real_of_int k"
  by (auto simp: getCurrentSlideInfo_def Let_def intro: exI [where x = 0])

lemma incrementSlideCounter_active [simp]:
  "slidingWindowActive (incrementSlideCounter t this) = slidingWindowActive this"
  by (simp add: incrementSlideCounter_def)

lemma slideStep_cong: "slidingWindowActive a = slidingWindowActive b \<Longrightarrow> slideStep par env a t = slideStep par env b t"
  using info_active [of a b par env t] by (simp add: slideStep_def)

lemma slide_counter_invariant:
  fixes calls :: "int list" and par :: SimParams and env :: Env
  assumes "sorted calls" "\<forall>t \<in> set calls. lastSlideStep this \<le> t" "slidingWindowActive this"
    and "0 \<le> slideCounter this" "slideCounter this + int (length calls) < 2 ^ 32"
  defines "S \<equiv> {t \<in> set calls. slideStep par env this t \<and> t \<noteq> lastSlideStep this}"
  shows "slideCounter (fold (\<lambda>t m. fst (getCurrentSlideInfo par env t m)) calls this) = slideCounter this + int (card S)"
  using assms(1-5) unfolding S_def
proof (induction calls arbitrary: this)
  case (Cons t calls)
  let ?m = "fst (getCurrentSlideInfo par env t this)"
  have act: "slidingWindowActive ?m" using Cons.prems by (simp add: info_state)
  have ss: "slideStep par env ?m = slideStep par env this" using act Cons.prems by (intro ext slideStep_cong) simp
  have le: "\<forall>u \<in> set calls. t \<le> u" "sorted calls" using Cons.prems(1) by simp_all
  show ?case
  proof (cases "slideStep par env this t \<and> t \<noteq> lastSlideStep this")
    case True
    then have m: "lastSlideStep ?m = t" "slideCounter ?m = slideCounter this + 1"
      using Cons.prems by (simp_all add: info_state incrementSlideCounter_def u32_id)
    have "lastSlideStep this < t" using True Cons.prems(2) by force
    then have "{u \<in> set (t # calls). slideStep par env this u \<and> u \<noteq> lastSlideStep this}
        = insert t {u \<in> set calls. slideStep par env this u \<and> u \<noteq> t}" using True le by fastforce
    moreover have "slideCounter (fold (\<lambda>t m. fst (getCurrentSlideInfo par env t m)) calls ?m)
        = slideCounter ?m + int (card {u \<in> set calls. slideStep par env ?m u \<and> u \<noteq> lastSlideStep ?m})"
      using Cons.prems le act m by (intro Cons.IH) auto
    ultimately show ?thesis using m ss by simp
  next
    case False
    then have m: "?m = this" by (auto simp: info_state incrementSlideCounter_def)
    have "{u \<in> set (t # calls). slideStep par env this u \<and> u \<noteq> lastSlideStep this}
        = {u \<in> set calls. slideStep par env this u \<and> u \<noteq> lastSlideStep this}" using False by auto
    moreover have "slideCounter (fold (\<lambda>t m. fst (getCurrentSlideInfo par env t m)) calls this)
        = slideCounter this + int (card {u \<in> set calls. slideStep par env this u \<and> u \<noteq> lastSlideStep this})"
      using Cons.prems le by (intro Cons.IH) auto
    ultimately show ?thesis using m by simp
  qed
qed simp

section \<open>The window of one process\<close>

definition windowOffset :: "SimParams \<Rightarrow> Env \<Rightarrow> int \<Rightarrow> MovingWindow \<Rightarrow> int" where
  "windowOffset par env t this = d2i (snd (snd (getCurrentSlideInfo par env t this)))"

lemma windowOffset_real: "snd (snd (getCurrentSlideInfo par env t this)) = real_of_int (windowOffset par env t this)"
  using info_integral [of par env t this] by (auto simp: windowOffset_def)

lemma list_all_upt_single:
  assumes "k < n" "\<And>j. j < n \<Longrightarrow> j \<noteq> k \<Longrightarrow> P j"
  shows "list_all P [0..<n] \<longleftrightarrow> P k"
proof
  show "list_all P [0..<n] \<Longrightarrow> P k" using assms(1) by (simp add: list_all_iff)
  assume "P k"
  with assms(2) show "list_all P [0..<n]" by (auto simp: list_all_iff) metis
qed

text \<open>On a grid that is not periodic along y, only the first and the last process miss a neighbour there.\<close>

lemma mask_top_bottom:
  assumes wf: "comm_wf DIM s" "cart_coords rank \<in> box (take DIM (dims s))" "periodic s ! 1 = 0"
    and env: "comm env = updateCoordinates cart_coords cart_rank DIM rank s"
  shows "isSet (getCommunicationMask env) TOP \<longleftrightarrow> getPosition env ! 1 \<noteq> 0"
    and "isSet (getCommunicationMask env) BOTTOM \<longleftrightarrow> getPosition env ! 1 \<noteq> dims s ! 1 - 1"
    and "0 \<le> getPosition env ! 1" "getPosition env ! 1 < dims s ! 1"
proof -
  note T = updateCoordinates_table [where cart_coords = cart_coords and rank = rank and cart_rank = cart_rank, OF wf(1,2)]
  let ?L = "logicalCoords s (cart_coords rank)"
  note e = comm_wf_extent [OF wf(1)]
  have D: "DIM = 2 \<or> DIM = 3" using wf by (simp add: comm_wf_def)
  have pos: "getPosition env = ?L" using T(2) by (simp add: getPosition_def env)
  have L: "?L \<in> box (take DIM (dims s))" using physical_logical(1) [OF wf(1,2)] by simp
  then have lL: "length ?L = DIM" and b: "\<And>d. d < DIM \<Longrightarrow> 0 \<le> ?L ! d \<and> ?L ! d < dims s ! d"
    using e by (auto simp: box_def)
  show "0 \<le> getPosition env ! 1" "getPosition env ! 1 < dims s ! 1" using b [of 1] e(2) pos by simp_all
  have nb: "neighbourExists DIM s (vec_add ?L v) \<longleftrightarrow> 0 \<le> ?L ! 1 + v ! 1 \<and> ?L ! 1 + v ! 1 < dims s ! 1"
    if "length v = DIM" "\<And>d. d < DIM \<Longrightarrow> d \<noteq> 1 \<Longrightarrow> v ! d = 0" for v
  proof -
    have n: "vec_add ?L v ! d = ?L ! d + v ! d" if "d < DIM" for d using that \<open>length v = DIM\<close> lL by (simp add: vec_simps)
    have "vec_add ?L v ! d = ?L ! d" if "d < DIM" "d \<noteq> 1" for d using n that \<open>\<And>d. d < DIM \<Longrightarrow> d \<noteq> 1 \<Longrightarrow> v ! d = 0\<close> by simp
    then have "\<not> (periodic s ! j = 0 \<and> (vec_add ?L v ! j < 0 \<or> vec_add ?L v ! j \<ge> dims s ! j))" if "j < DIM" "j \<noteq> 1" for j
      using b [of j] that by simp
    then have "neighbourExists DIM s (vec_add ?L v) \<longleftrightarrow>
        \<not> (periodic s ! 1 = 0 \<and> (vec_add ?L v ! 1 < 0 \<or> vec_add ?L v ! 1 \<ge> dims s ! 1))"
      unfolding neighbourExists_def using e(2) by (intro list_all_upt_single)
    then show ?thesis unfolding n [OF e(2)] using wf(3) by (simp add: not_less not_le)
  qed
  have t: "0 < TOP" "TOP < 3 ^ DIM" "0 < BOTTOM" "BOTTOM < 3 ^ DIM" using D by (auto simp: direction_defs)
  have v: "relativeDigits 2 TOP = [0, -1]" "relativeDigits 3 TOP = [0, -1, 0]"
    "relativeDigits 2 BOTTOM = [0, 1]" "relativeDigits 3 BOTTOM = [0, 1, 0]"
    by (simp_all add: relativeDigits2 relativeDigits3 direction_defs)
  have z: "d < DIM \<Longrightarrow> d \<noteq> 1 \<Longrightarrow> d = 0 \<or> d = 2 \<and> DIM = 3" for d using D by auto
  have rt: "relativeDigits DIM TOP ! 1 = -1" "relativeDigits DIM BOTTOM ! 1 = 1"
    "\<And>d. d < DIM \<Longrightarrow> d \<noteq> 1 \<Longrightarrow> relativeDigits DIM TOP ! d = 0 \<and> relativeDigits DIM BOTTOM ! d = 0"
    using D v by (auto dest!: z)
  have "isSet (getCommunicationMask env) TOP \<longleftrightarrow> 0 \<le> ?L ! 1 - 1 \<and> ?L ! 1 - 1 < dims s ! 1"
    using T(5) [OF t(1,2)] nb [of "relativeDigits DIM TOP"] rt by (simp add: getCommunicationMask_def env)
  then show "isSet (getCommunicationMask env) TOP \<longleftrightarrow> getPosition env ! 1 \<noteq> 0"
    using b [of 1] e(2) by (auto simp: pos)
  have "isSet (getCommunicationMask env) BOTTOM \<longleftrightarrow> 0 \<le> ?L ! 1 + 1 \<and> ?L ! 1 + 1 < dims s ! 1"
    using T(5) [OF t(3,4)] nb [of "relativeDigits DIM BOTTOM"] rt by (simp add: getCommunicationMask_def env)
  then show "isSet (getCommunicationMask env) BOTTOM \<longleftrightarrow> getPosition env ! 1 \<noteq> dims s ! 1 - 1"
    using b [of 1] e(2) by (auto simp: pos)
qed

section \<open>Properties\<close>

text \<open>
  The slide counter is exact. However often the slide information is queried in each time
  step, after a non-decreasing sequence of queries the counter is the number of distinct slide
  steps among them (a slide step equal to the step of the last counted slide is not counted again).
\<close>

theorem slideCounter_counts_steps:
  fixes calls :: "int list"
  assumes "sorted calls" "\<forall>t \<in> set calls. 0 \<le> t" "length calls < 2 ^ 32"
  shows "slideCounter (fold (\<lambda>t m. fst (getSlideCounter par env t m)) calls (setSlidingWindow True MovingWindow_init))
    = int (card {t \<in> set calls. slideStep par env (setSlidingWindow True MovingWindow_init) t \<and> t \<noteq> 0})"
proof -
  let ?m = "setSlidingWindow True MovingWindow_init"
  have "(\<lambda>t m. fst (getSlideCounter par env t m)) = (\<lambda>t m. fst (getCurrentSlideInfo par env t m))"
    by (simp add: getSlideCounter_def case_prod_unfold)
  moreover have "lastSlideStep ?m = 0" "slideCounter ?m = 0" "slidingWindowActive ?m"
    by (simp_all add: setSlidingWindow_def MovingWindow_init_def)
  ultimately show ?thesis using slide_counter_invariant [OF assms(1), of ?m par env] assms by simp
qed

definition samplePar :: SimParams where
  "samplePar = \<lparr>CELL_HEIGHT = 1, SPEED_OF_LIGHT = 1, DELTA_T = 9 / 10, slide_point = 9 / 10\<rparr>"

text \<open>The first process of a column of four, with 64 cells each.\<close>

definition sampleColumn :: Env where
  "sampleColumn = \<lparr>commIsInit = True, gpuNodes = [3, 4, 2],
     comm = updateCoordinates (rowMajor_coords [3, 4, 2]) (rowMajor_rank [3, 4, 2]) 3 2 sampleComm,
     env_communicator = None, subGrid = SubGrid_init [8, 64, 8] [24, 256, 16] [0, 0, 0]\<rparr>"

lemma sampleColumn_numbers:
  "slidingWindowActive m \<Longrightarrow> stepsInFuture_tmp samplePar sampleColumn m = 64 / 3"
  "stepsPerGPU samplePar sampleColumn = 71"
  by (simp_all add: stepsInFuture_tmp_def stepsPerGPU_def samplePar_def sampleColumn_def SubGrid_init_def
      Selection_of_def Selection_size_def u32_def Let_def)

lemma sampleColumn_info:
  assumes "slidingWindowActive m" "191 \<le> t" "t < 2 ^ 31"
  shows "getCurrentSlideInfo samplePar sampleColumn t m =
    (let doSlide = (262 \<le> t \<and> (t + 22) mod 71 = 0)
     in (if doSlide then incrementSlideCounter t m else m, doSlide,
         real_of_int \<lfloor>(real_of_int ((t + 22) mod 71) - 2 / 3) * (9 / 10) + 1 / 2\<rfloor>))"
proof -
  have "u32 (t + 22) = t + 22" using assms by (simp add: u32_id)
  then show ?thesis
    using assms unfolding getCurrentSlideInfo_def Let_def sampleColumn_numbers(1) [OF assms(1)] sampleColumn_numbers(2)
    by (simp add: samplePar_def sampleColumn_def u32_def [of "_ :: int"])
qed

theorem slideCounter_counts_steps_witness:
  "slideCounter (fold (\<lambda>t m. fst (getSlideCounter samplePar sampleColumn t m)) [261, 262, 262, 263]
     (setSlidingWindow True MovingWindow_init)) = 1"
proof -
  have "slidingWindowActive (setSlidingWindow True MovingWindow_init)" by (simp add: setSlidingWindow_def)
  from sampleColumn_info [OF this]
  have "{t \<in> set [261, 262, 262, 263 :: int]. slideStep samplePar sampleColumn (setSlidingWindow True MovingWindow_init) t \<and> t \<noteq> 0} = {262}"
    by (auto simp: slideStep_def Let_def)
  then show ?thesis
    using slideCounter_counts_steps [of "[261, 262, 262, 263]" samplePar sampleColumn] by simp
qed

text \<open>
  The local windows of a column of processes tile the global window: the window of the
  process at position 0 starts at 0, the window of position \<open>k\<close> ends where that of \<open>k + 1\<close> starts,
  and the last one ends at the size of the global window.
\<close>

theorem getWindow_tiles:
  fixes par :: SimParams and t :: int
  assumes wf: "comm_wf DIM s" "cart_coords rank \<in> box (take DIM (dims s))" "periodic s ! 1 = 0"
    and env: "comm env = updateCoordinates cart_coords cart_rank DIM rank s"
    and loc: "length (sel_size (localDomain (subGrid env))) = DIM" "sel_size (localDomain (subGrid env)) ! 1 = L"
      "sel_offset (localDomain (subGrid env)) ! 1 = getPosition env ! 1 * L"
    and glob: "length (sel_size (globalDomain (subGrid env))) = DIM" "sel_size (globalDomain (subGrid env)) ! 1 = dims s ! 1 * L"
    and two: "1 < dims s ! 1" and act: "slidingWindowActive m"
  defines "k \<equiv> getPosition env ! 1" and "w \<equiv> snd (getWindow par env t m)"
    and "begins \<equiv> \<lambda>j. if j = 0 then 0 else j * L - windowOffset par env t m"
  shows "sel_offset (localDimensions w) ! 1 = begins k
    \<and> sel_offset (localDimensions w) ! 1 + sel_size (localDimensions w) ! 1
      = (if k = dims s ! 1 - 1 then sel_size (globalDimensions w) ! 1 else begins (k + 1))
    \<and> sel_size (globalDimensions w) ! 1 = (dims s ! 1 - 1) * L"
proof -
  note mk = mask_top_bottom [OF wf env]
  have D: "1 < DIM" using comm_wf_extent(2) [OF wf(1)] .
  let ?o = "windowOffset par env t m"
  obtain m' b where i: "getCurrentSlideInfo par env t m = (m', b, real_of_int ?o)"
    using windowOffset_real [of par env t m] by (cases "getCurrentSlideInfo par env t m") auto
  have r: "real_of_int a - real_of_int b = real_of_int (a - b)" "real_of_int a * real_of_int b = real_of_int (a * b)" for a b
    by simp_all
  note d = w_def getWindow_def Let_def act i Selection_size_def r d2i_of_int k_def begins_def
  have "sel_size (globalDimensions w) ! 1 = (dims s ! 1 - 1) * L"
    using act glob loc D by (simp add: d left_diff_distrib del: of_int_diff of_int_mult)
  moreover have "sel_offset (localDimensions w) ! 1 = begins k"
    using mk act loc D two by (simp add: d del: of_int_diff of_int_mult)
  moreover have "sel_offset (localDimensions w) ! 1 + sel_size (localDimensions w) ! 1
      = (if k = dims s ! 1 - 1 then sel_size (globalDimensions w) ! 1 else begins (k + 1))"
  proof (cases "k = dims s ! 1 - 1")
    case True
    then have "k \<noteq> 0" using two by simp
    then show ?thesis using True mk act glob loc D two
      by (simp add: d left_diff_distrib del: of_int_diff of_int_mult)
  next
    case False
    then show ?thesis using mk act glob loc D two
      by (cases "k = 0") (simp_all add: d distrib_right del: of_int_diff of_int_mult)
  qed
  ultimately show ?thesis by blast
qed

lemma sampleColumn_position:
  "rowMajor_coords [3, 4, 2] 2 \<in> box (take 3 (dims sampleComm))" "getPosition sampleColumn ! 1 = 0"
  "comm sampleColumn = updateCoordinates (rowMajor_coords [3, 4, 2]) (rowMajor_rank [3, 4, 2]) 3 2 sampleComm"
proof -
  show c: "rowMajor_coords [3, 4, 2] 2 \<in> box (take 3 (dims sampleComm))" by (simp add: sampleComm_def)
  show e: "comm sampleColumn = updateCoordinates (rowMajor_coords [3, 4, 2]) (rowMajor_rank [3, 4, 2]) 3 2 sampleComm"
    by (simp add: sampleColumn_def)
  show "getPosition sampleColumn ! 1 = 0"
    using updateCoordinates_table(2) [where cart_coords = "rowMajor_coords [3, 4, 2]" and rank = 2, OF sampleComm_wf c]
    by (simp add: getPosition_def e logicalCoords_def sampleComm_def)
qed

lemma sampleColumn_domain:
  "localDomain (subGrid sampleColumn) = \<lparr>sel_size = [8, 64, 8], sel_offset = [0, 0, 0]\<rparr>"
  "sel_size (globalDomain (subGrid sampleColumn)) = [24, 256, 16]"
  by (simp_all add: sampleColumn_def SubGrid_init_def Selection_of_def Selection_size_def)

lemma sampleColumn_tiles:
  assumes "slidingWindowActive m"
  shows "sel_offset (localDimensions (snd (getWindow samplePar sampleColumn t m))) ! 1 = 0
    \<and> sel_size (localDimensions (snd (getWindow samplePar sampleColumn t m))) ! 1 = 64 - windowOffset samplePar sampleColumn t m"
proof -
  have "isSet (getCommunicationMask sampleColumn) TOP \<longleftrightarrow> getPosition sampleColumn ! 1 \<noteq> 0"
    using mask_top_bottom(1) [where cart_coords = "rowMajor_coords [3, 4, 2]" and rank = 2,
        OF sampleComm_wf sampleColumn_position(1) _ sampleColumn_position(3)] by (simp add: sampleComm_def)
  then have top: "\<not> isSet (getCommunicationMask sampleColumn) TOP" using sampleColumn_position(2) by simp
  obtain m' b where i: "getCurrentSlideInfo samplePar sampleColumn t m = (m', b, real_of_int (windowOffset samplePar sampleColumn t m))"
    using windowOffset_real [of samplePar sampleColumn t m] by (cases "getCurrentSlideInfo samplePar sampleColumn t m") auto
  have "d2i (64 - real_of_int (windowOffset samplePar sampleColumn t m)) = 64 - windowOffset samplePar sampleColumn t m"
    using d2i_of_int [of "64 - windowOffset samplePar sampleColumn t m"] by simp
  then show ?thesis
    using assms by (simp add: getWindow_def Let_def i top sampleColumn_domain Selection_size_def del: of_int_diff)
qed

theorem getWindow_tiles_witness:
  "sel_offset (localDimensions (snd (getWindow samplePar sampleColumn 200 (setSlidingWindow True MovingWindow_init)))) ! 1 = 0
   \<and> sel_size (globalDimensions (snd (getWindow samplePar sampleColumn 200 (setSlidingWindow True MovingWindow_init)))) ! 1 = 192"
proof -
  have d: "dims sampleComm ! 1 = 4" "periodic sampleComm ! 1 = 0" by (simp_all add: sampleComm_def)
  have a: "slidingWindowActive (setSlidingWindow True MovingWindow_init)" by (simp add: setSlidingWindow_def)
  show ?thesis
    using getWindow_tiles [where cart_coords = "rowMajor_coords [3, 4, 2]" and rank = 2 and L = 64,
        OF sampleComm_wf sampleColumn_position(1) d(2) sampleColumn_position(3) _ _ _ _ _ _ a, of samplePar 200]
      sampleColumn_position(2) sampleColumn_domain d(1)
    by simp
qed

text \<open>
  The offset of the moving window can be negative. With a light way of 0.9 cells per step the
  rounding in \<open>getCurrentSlideInfo\<close> gives the offset -1 in a step in which the window starts to
  move through a new process; the window of the first process is then one cell larger than its domain.
\<close>

theorem negative_window_offset:
  "let w = snd (getWindow samplePar sampleColumn 191 (setSlidingWindow True MovingWindow_init))
   in sel_offset (globalDimensions w) ! 1 = -1
      \<and> sel_size (localDimensions w) ! 1 = sel_size (localDomain (subGrid sampleColumn)) ! 1 + 1"
proof -
  let ?m = "setSlidingWindow True MovingWindow_init"
  have a: "slidingWindowActive ?m" by (simp add: setSlidingWindow_def)
  have o: "windowOffset samplePar sampleColumn 191 ?m = -1"
    using sampleColumn_info [OF a, of 191] d2i_of_int [of "-1"] by (simp add: windowOffset_def Let_def)
  have "sel_offset (globalDimensions (snd (getWindow samplePar sampleColumn 191 ?m))) ! 1 = windowOffset samplePar sampleColumn 191 ?m"
    using a by (simp add: getWindow_def Let_def case_prod_unfold windowOffset_def sampleColumn_domain Selection_size_def)
  with o sampleColumn_tiles [OF a, of 191] show ?thesis by (simp add: sampleColumn_domain Let_def)
qed

end
