(* ===== verification/Cursors.thy ===== *)
theory Cursors
  imports DataSpaces
begin

text \<open>
  Models the part of the cursors of cuSTL (cuSTL/cursor) that the field algorithms use: a cursor
  over a field buffer that jumps by an integer vector, \<open>twistVectorFieldAxes\<close>, which exchanges the
  axes of the jumps (\<open>TwistAxesNavigator\<close>) and of the components (\<open>TwistAxesAccessor\<close>,
  \<open>PermutedNavigator\<close>), and the constants of the grid (gridConfig.unitless). A field of vectors is a function from
  a cell and a component to a real number, so a reference to a component is a pair of both.
\<close>

section \<open>Cursors\<close>

type_synonym fieldRef = "DataSpace \<times> nat"

type_synonym vectorField = "fieldRef \<Rightarrow> real"

datatype Cursor = BufferCursor DataSpace | TwistCursor "nat list" Cursor

definition twistedJump :: "nat list \<Rightarrow> DataSpace \<Rightarrow> DataSpace" where
  "twistedJump axes jump = foldl (\<lambda>tw d. tw[axes ! d := jump ! d]) (replicate (length axes) 0) [0..<length axes]"

fun cursor_jump :: "Cursor \<Rightarrow> DataSpace \<Rightarrow> Cursor" where
  "cursor_jump (BufferCursor cell) jump = BufferCursor (vec_add cell jump)"
| "cursor_jump (TwistCursor axes c) jump = TwistCursor axes (cursor_jump c (twistedJump axes jump))"

definition twistVectorFieldAxes :: "nat list \<Rightarrow> Cursor \<Rightarrow> Cursor" where
  "twistVectorFieldAxes axes c = TwistCursor axes c"

fun cursor_ref :: "Cursor \<Rightarrow> nat \<Rightarrow> fieldRef" where
  "cursor_ref (BufferCursor cell) d = (cell, d)"
| "cursor_ref (TwistCursor axes c) d = cursor_ref c (axes ! d)"

definition atomicAdd :: "fieldRef \<Rightarrow> real \<Rightarrow> vectorField \<Rightarrow> vectorField" where
  "atomicAdd r v J = J(r := J r + v)"

section \<open>Constants of the grid\<close>

record GridUnits =
  cellSize :: "real vec"
  DELTA_T :: real

definition CELL_VOLUME :: "'u GridUnits_scheme \<Rightarrow> real" where
  "CELL_VOLUME u = (if length (cellSize u) = 3 then cellSize u ! 0 * cellSize u ! 1 * cellSize u ! 2
                    else cellSize u ! 0 * cellSize u ! 1)"

section \<open>The twists in use\<close>

lemma twistedJump3 [simp]:
  "twistedJump [Suc 0, 2, 0] [i, j, k] = [k, i, j]" "twistedJump [2, 0, Suc 0] [i, j, k] = [j, k, i]"
  by (simp_all add: twistedJump_def numeral_3_eq_3 numeral_2_eq_2)

lemma twistedJump2 [simp]: "twistedJump [Suc 0, 0] [i, j] = [j, i]"
  by (simp add: twistedJump_def numeral_2_eq_2)

text \<open>A fold of additions adds up, reference by reference.\<close>

lemma foldl_additive:
  assumes "\<And>J x. G J x r = J r + (F x :: real)"
  shows "foldl G J xs r = J r + sum_list (map F xs)"
  by (induction xs arbitrary: J) (simp_all add: assms)

lemma sum_list_upto: "sum_list (map F [a..b]) = (\<Sum>i \<in> {a..b}. F i :: real)"
  by (simp add: sum_list_distinct_conv_sum_set)

section \<open>Discrete divergence\<close>

text \<open>The divergence on the staggered grid by differences to the lower neighbours.\<close>

definition divergence :: "nat \<Rightarrow> 'u GridUnits_scheme \<Rightarrow> vectorField \<Rightarrow> DataSpace \<Rightarrow> real" where
  "divergence n u F g = (\<Sum>d \<in> {..<n}. (F (g, d) - F (g[d := g ! d - 1], d)) / cellSize u ! d)"

lemma divergence3: "divergence 3 u F [x, y, z] =
  (F ([x, y, z], 0) - F ([x - 1, y, z], 0)) / cellSize u ! 0
  + (F ([x, y, z], 1) - F ([x, y - 1, z], 1)) / cellSize u ! 1 + (F ([x, y, z], 2) - F ([x, y, z - 1], 2)) / cellSize u ! 2"
  by (simp add: divergence_def numeral_3_eq_3 numeral_2_eq_2)

lemma divergence2: "divergence 2 u F [x, y] =
  (F ([x, y], 0) - F ([x - 1, y], 0)) / cellSize u ! 0 + (F ([x, y], 1) - F ([x, y - 1], 1)) / cellSize u ! 1"
  by (simp add: divergence_def numeral_2_eq_2)

end
