(* ===== verification/Pushers.thy ===== *)
theory Pushers
  imports Cursors
begin

text \<open>
  Models the particle pushers \<open>Boris\<close>, \<open>Vay\<close>, \<open>Free\<close>, \<open>Axl\<close>, \<open>Phot\<close> and \<open>None\<close> of particles/pusher with the
  functors \<open>Gamma\<close> and \<open>Velocity\<close> of algorithms, over real numbers. A pusher maps the position and the
  momentum of a particle to the new ones. Shown: velocities stay below the speed of light, Boris and Axl
  rotate the momentum, Vay solves its implicit equation, and a push moves a particle by less than one cell, except with the
  nonlinear trajectory of Axl.
\<close>

section \<open>Vectors and constants\<close>

definition cross :: "real vec \<Rightarrow> real vec \<Rightarrow> real vec" where
  "cross lhs rhs = [yc lhs * zc rhs - zc lhs * yc rhs, zc lhs * xc rhs - xc lhs * zc rhs, xc lhs * yc rhs - yc lhs * xc rhs]"

record PhysUnits = GridUnits +
  SPEED_OF_LIGHT :: real
  EPS0 :: real

definition MUE0_EPS0 :: "PhysUnits \<Rightarrow> real" where
  "MUE0_EPS0 u = 1 / SPEED_OF_LIGHT u / SPEED_OF_LIGHT u"

definition INV_CELL2_SUM :: "PhysUnits \<Rightarrow> real" where
  "INV_CELL2_SUM u =
     (if length (cellSize u) = 3
      then 1 / (cellSize u ! 0 * cellSize u ! 0) + 1 / (cellSize u ! 1 * cellSize u ! 1) + 1 / (cellSize u ! 2 * cellSize u ! 2)
      else if length (cellSize u) = 2
      then 1 / (cellSize u ! 0 * cellSize u ! 0) + 1 / (cellSize u ! 1 * cellSize u ! 1)
      else 1 / (cellSize u ! 0 * cellSize u ! 0))"

text \<open>The static assertion of \<open>YeeSolver::updateE\<close>.\<close>

definition cflCondition :: "PhysUnits \<Rightarrow> bool" where
  "cflCondition u \<longleftrightarrow> SPEED_OF_LIGHT u * SPEED_OF_LIGHT u * DELTA_T u * DELTA_T u * INV_CELL2_SUM u \<le> 1"

definition Gamma :: "PhysUnits \<Rightarrow> real vec \<Rightarrow> real \<Rightarrow> real" where
  "Gamma u mom mass =
     (let fMom2 = abs2 mom; c2 = SPEED_OF_LIGHT u * SPEED_OF_LIGHT u; m2_c2_reci = 1 / (mass * mass * c2)
      in sqrt (1 + fMom2 * m2_c2_reci))"

definition Velocity :: "PhysUnits \<Rightarrow> real vec \<Rightarrow> real \<Rightarrow> real vec" where
  "Velocity u mom mass0 =
     (let rc2 = MUE0_EPS0 u; m0_2 = mass0 * mass0; fMom2 = abs2 mom; t = 1 / sqrt (m0_2 + fMom2 * rc2)
      in s_mul_vec t mom)"

section \<open>Pushers\<close>

definition movePosition :: "PhysUnits \<Rightarrow> real vec \<Rightarrow> real vec \<Rightarrow> real vec" where
  "movePosition u vel pos =
     foldl (\<lambda>pos d. pos[d := pos ! d + (vel ! d * DELTA_T u) / cellSize u ! d]) pos [0..<length (cellSize u)]"

definition pushBoris ::
    "PhysUnits \<Rightarrow> real vec \<Rightarrow> real vec \<Rightarrow> real \<Rightarrow> real \<Rightarrow> real vec \<times> real vec \<Rightarrow> real vec \<times> real vec" where
  "pushBoris u bField eField mass charge = (\<lambda>(pos, mom).
     let QoM = charge / mass;
         deltaT = DELTA_T u;
         mom_minus = vec_add mom (vec_mul_s (s_mul_vec (0.5 * charge) eField) deltaT);
         gamma_reci = 1 / Gamma u mom_minus mass;
         t = vec_mul_s (vec_mul_s (s_mul_vec (0.5 * QoM) bField) gamma_reci) deltaT;
         s = vec_mul_s (s_mul_vec 2 t) (1 / (1 + abs2 t));
         mom_prime = vec_add mom_minus (cross mom_minus t);
         mom_plus = vec_add mom_minus (cross mom_prime s);
         new_mom = vec_add mom_plus (vec_mul_s (s_mul_vec (0.5 * charge) eField) deltaT);
         vel = Velocity u new_mom mass
     in (movePosition u vel pos, new_mom))"

definition pushVay ::
    "PhysUnits \<Rightarrow> real vec \<Rightarrow> real vec \<Rightarrow> real \<Rightarrow> real \<Rightarrow> real vec \<times> real vec \<Rightarrow> real vec \<times> real vec" where
  "pushVay u bField eField mass charge = (\<lambda>(pos, mom).
     let deltaT = DELTA_T u;
         factor = 0.5 * charge * deltaT;
         velocity_atMinusHalf = Velocity u mom mass;
         momentum_atZero = vec_add mom (s_mul_vec factor (vec_add eField (cross velocity_atMinusHalf bField)));
         momentum_prime = vec_add momentum_atZero (s_mul_vec factor eField);
         gamma_prime = Gamma u momentum_prime mass;
         tau = s_mul_vec (factor / mass) bField;
         u_star = dot momentum_prime tau / (SPEED_OF_LIGHT u * mass);
         sigma = gamma_prime * gamma_prime - abs2 tau;
         gamma_atPlusHalf = sqrt (0.5 * (sigma + sqrt (sigma * sigma + 4 * (abs2 tau + u_star * u_star))));
         t = vec_mul_s tau (1 / gamma_atPlusHalf);
         s = 1 / (1 + abs2 t);
         momentum_atPlusHalf =
           s_mul_vec s (vec_add (vec_add momentum_prime (s_mul_vec (dot momentum_prime t) t)) (cross momentum_prime t));
         vel = Velocity u momentum_atPlusHalf mass
     in (movePosition u vel pos, momentum_atPlusHalf))"

definition pushFree ::
    "PhysUnits \<Rightarrow> real vec \<Rightarrow> real vec \<Rightarrow> real \<Rightarrow> real \<Rightarrow> real vec \<times> real vec \<Rightarrow> real vec \<times> real vec" where
  "pushFree u bField eField mass charge = (\<lambda>(pos, mom). (movePosition u (Velocity u mom mass) pos, mom))"

definition pushPhot ::
    "PhysUnits \<Rightarrow> real vec \<Rightarrow> real vec \<Rightarrow> real \<Rightarrow> real \<Rightarrow> real vec \<times> real vec \<Rightarrow> real vec \<times> real vec" where
  "pushPhot u bField eField mass charge = (\<lambda>(pos, mom).
     let mom_abs = vec_abs mom; vel = vec_mul_s mom (SPEED_OF_LIGHT u / mom_abs)
     in (movePosition u vel pos, mom))"

definition pushNone ::
    "PhysUnits \<Rightarrow> real vec \<Rightarrow> real vec \<Rightarrow> real \<Rightarrow> real \<Rightarrow> real vec \<times> real vec \<Rightarrow> real vec \<times> real vec" where
  "pushNone u bField eField mass charge = (\<lambda>(pos, mom). (pos, mom))"

text \<open>
  The pusher \<open>Axl\<close> (three dimensions): the momentum is rotated about the magnetic field in closed form. The macros of the source sum an expression
  over the two other axes \<open>j\<close>, \<open>k\<close> of an axis \<open>i\<close>. In the nonlinear trajectory \<open>SUM_RLINE1\<close> reads the x component of the
  position for every axis, and only the x component of the result is set before the sums are added.
\<close>

datatype TrajectoryInterpolationType = LINEAR | NONLINEAR

definition levichivita :: "nat \<Rightarrow> nat \<Rightarrow> nat \<Rightarrow> real" where
  "levichivita i j k =
     (if i = j \<or> j = k \<or> i = k then 0
      else if i = 0 \<and> j = 1 then 1
      else if i = 2 \<and> j = 0 then 1
      else if i = 1 \<and> j = 2 then 1
      else - 1)"

definition FOR_JK_NOT_I :: "nat \<Rightarrow> nat \<Rightarrow> nat \<Rightarrow> (nat \<Rightarrow> nat \<Rightarrow> nat \<Rightarrow> real) \<Rightarrow> real" where
  "FOR_JK_NOT_I i j k code = code i j k + code i k j"

definition SUM_PLINE1 :: "real vec \<Rightarrow> real vec \<Rightarrow> real \<Rightarrow> real \<Rightarrow> real \<Rightarrow> real vec \<Rightarrow> nat \<Rightarrow> nat \<Rightarrow> nat \<Rightarrow> real" where
  "SUM_PLINE1 bField eField charge deltaT gamma mom_old i j k =
     bField ! j * (- levichivita i j k * gamma * eField ! k + bField ! i * (eField ! j * charge * deltaT + mom_old ! j))"

definition SUM_PLINE2 :: "real vec \<Rightarrow> real vec \<Rightarrow> real \<Rightarrow> real vec \<Rightarrow> nat \<Rightarrow> nat \<Rightarrow> nat \<Rightarrow> real" where
  "SUM_PLINE2 bField eField gamma mom_old i j k =
     - bField ! j * (- levichivita i j k * gamma * eField ! k + bField ! i * mom_old ! j - bField ! j * mom_old ! i)"

definition SUM_PLINE3 :: "real vec \<Rightarrow> real vec \<Rightarrow> real \<Rightarrow> real vec \<Rightarrow> real \<Rightarrow> nat \<Rightarrow> nat \<Rightarrow> nat \<Rightarrow> real" where
  "SUM_PLINE3 bField eField gamma mom_old B2 i j k =
     bField ! j * bField ! j * gamma * eField ! i - bField ! i * bField ! j * gamma * eField ! j + levichivita i j k * mom_old ! j * bField ! k * B2"

definition axlMomentum :: "PhysUnits \<Rightarrow> real vec \<Rightarrow> real vec \<Rightarrow> real \<Rightarrow> real \<Rightarrow> real vec \<Rightarrow> real vec" where
  "axlMomentum u bField eField mass charge mom_old =
     (let deltaT = DELTA_T u;
          gamma = Gamma u mom_old mass;
          B2 = abs2 bField;
          B = vec_abs bField
      in if B2 > 1 / 1000000
         then let arg = B * charge * deltaT / gamma; sinres = sin arg; cosres = cos arg;
                  component = (\<lambda>i j k. (bField ! i * bField ! i * (eField ! i * charge * deltaT + mom_old ! i)
                    + FOR_JK_NOT_I i j k (SUM_PLINE1 bField eField charge deltaT gamma mom_old)
                    + cosres * FOR_JK_NOT_I i j k (SUM_PLINE2 bField eField gamma mom_old)
                    + sinres / B * FOR_JK_NOT_I i j k (SUM_PLINE3 bField eField gamma mom_old B2)) * (1 / B2))
              in [component 0 1 2, component 1 2 0, component 2 0 1]
         else vec_add mom_old (vec_mul_s (vec_mul_s eField charge) deltaT))"

definition SUM_RLINE1 :: "real \<Rightarrow> real vec \<Rightarrow> real vec \<Rightarrow> real \<Rightarrow> real \<Rightarrow> real vec \<Rightarrow> real vec \<Rightarrow> nat \<Rightarrow> nat \<Rightarrow> nat \<Rightarrow> real" where
  "SUM_RLINE1 c bField eField QoM deltaT pos vel_old i j k =
     2 * bField ! j * bField ! j * bField ! j * bField ! j * QoM * xc pos
     + 2 * bField ! j * bField ! j * bField ! k * bField ! k * QoM * xc pos
     + bField ! j * bField ! j * bField ! j * (- levichivita i j k * 2 * c * (eField ! k * QoM * deltaT + vel_old ! k)
         + bField ! i * QoM * deltaT * (eField ! j * QoM * deltaT + 2 * vel_old ! j))
     + bField ! j * bField ! j * (2 * c * c * eField ! i
         + bField ! i * bField ! i * QoM * (eField ! i * QoM * deltaT * deltaT + 2 * deltaT * vel_old ! i + 4 * pos ! i)
         + levichivita i j k * 2 * c * bField ! k * vel_old ! j
         + bField ! k * QoM * (levichivita i j k * 2 * eField ! j * c * deltaT + bField ! i * bField ! k * QoM * deltaT * deltaT))
     + bField ! i * bField ! j * (bField ! i * bField ! i * QoM * deltaT * (eField ! j * QoM * deltaT + 2 * vel_old ! j)
         - levichivita i j k * 2 * bField ! i * c * (eField ! k * QoM * deltaT + vel_old ! k) - 2 * c * c * eField ! j)"

definition SUM_RLINE2 :: "real \<Rightarrow> real vec \<Rightarrow> real vec \<Rightarrow> real vec \<Rightarrow> nat \<Rightarrow> nat \<Rightarrow> nat \<Rightarrow> real" where
  "SUM_RLINE2 c bField eField vel_old i j k =
     - bField ! j * (c * eField ! i * bField ! j - levichivita i j k * bField ! j * bField ! j * vel_old ! k - bField ! i * c * eField ! j
         - levichivita i j k * bField ! j * vel_old ! k * (bField ! i * bField ! i + bField ! k * bField ! k))"

definition SUM_RLINE3 :: "real \<Rightarrow> real vec \<Rightarrow> real vec \<Rightarrow> real vec \<Rightarrow> nat \<Rightarrow> nat \<Rightarrow> nat \<Rightarrow> real" where
  "SUM_RLINE3 c bField eField vel_old i j k =
     levichivita i j k * bField ! j * (c * eField ! k + levichivita i j k * (bField ! j * vel_old ! i - bField ! i * vel_old ! j))"

definition axlPosition :: "PhysUnits \<Rightarrow> real vec \<Rightarrow> real vec \<Rightarrow> real \<Rightarrow> real \<Rightarrow> real vec \<Rightarrow> real vec \<Rightarrow> real vec" where
  "axlPosition u bField eField mass charge pos mom_old =
     (let deltaT = DELTA_T u;
          c = SPEED_OF_LIGHT u;
          vel_old = Velocity u mom_old mass;
          QoM = charge / mass;
          B2 = abs2 bField;
          B = vec_abs bField;
          B4 = B2 * B2
      in if B4 > 1 / 1000000
         then let arg = B * QoM * deltaT / c; sinres = sin arg; cosres = cos arg;
                  r = pos[0 := bField ! 0 * bField ! 0 * bField ! 0 * bField ! 0 * QoM
                        * (eField ! 0 * QoM * deltaT * deltaT + 2 * (deltaT * vel_old ! 0 + pos ! 0))];
                  component = (\<lambda>i j k. (r ! i
                    + FOR_JK_NOT_I i j k (SUM_RLINE1 c bField eField QoM deltaT pos vel_old)
                    + cosres * 2 * c * FOR_JK_NOT_I i j k (SUM_RLINE2 c bField eField vel_old)
                    + sinres * 2 * c * B * FOR_JK_NOT_I i j k (SUM_RLINE3 c bField eField vel_old)) * (0.5 / B4 / QoM))
              in [component 0 1 2, component 1 2 0, component 2 0 1]
         else vec_add pos (vec_add (vec_mul_s (vec_mul_s (vec_mul_s eField QoM) deltaT) deltaT) (vec_mul_s vel_old deltaT)))"

definition pushAxl ::
    "TrajectoryInterpolationType \<Rightarrow> PhysUnits \<Rightarrow> real vec \<Rightarrow> real vec \<Rightarrow> real \<Rightarrow> real \<Rightarrow> real vec \<times> real vec \<Rightarrow> real vec \<times> real vec" where
  "pushAxl TrajectoryInterpolation u bField eField mass charge = (\<lambda>(pos, mom_old).
     let mom = axlMomentum u bField eField mass charge mom_old;
         dr = (case TrajectoryInterpolation of
             LINEAR \<Rightarrow>
               let vel = Velocity u mom mass
               in [vel ! 0 * DELTA_T u / cellSize u ! 0, vel ! 1 * DELTA_T u / cellSize u ! 1, vel ! 2 * DELTA_T u / cellSize u ! 2]
           | NONLINEAR \<Rightarrow>
               let dr = vec_sub (axlPosition u bField eField mass charge pos mom_old) pos
               in [dr ! 0 * (1 / cellSize u ! 0), dr ! 1 * (1 / cellSize u ! 1), dr ! 2 * (1 / cellSize u ! 2)])
     in (vec_add pos dr, mom))"

section \<open>Vector arithmetic\<close>

lemma vec3_simps [simp]:
  "vec_add [a, b, c] [x, y, z] = [a + x, b + y, c + z :: real]"
  "s_mul_vec k [a, b, c] = [a * k, b * k, c * k]"
  "vec_mul_s [a, b, c] k = [a * k, b * k, c * k]"
  "abs2 [a, b, c] = a * a + b * b + c * c"
  "dot [a, b, c] [x, y, z] = a * x + b * y + c * z"
  "cross [a, b, c] [x, y, z] = [b * z - c * y, c * x - a * z, a * y - b * x]"
  by (simp_all add: vec_add_def vec_add_assign_def s_mul_vec_def vec_mul_s_def scalar_mul_assign_def abs2_def dot_def cross_def)

lemma vec3E:
  assumes "length v = 3"
  obtains a b c where "v = [a, b, c :: real]"
  using assms by (auto simp: numeral_3_eq_3 length_Suc_conv)

lemma abs2_nonneg: "length v = 3 \<Longrightarrow> 0 \<le> abs2 (v :: real vec)"
  by (erule vec3E) simp

lemma component_le_abs2:
  assumes "length v = 3" "d < 3"
  shows "v ! d * v ! d \<le> abs2 (v :: real vec)"
  using assms by (elim vec3E) (auto simp: less_Suc_eq numeral_3_eq_3)

lemma movePosition_nth:
  assumes "length (cellSize u) \<le> length pos" "d < length (cellSize u)"
  shows "movePosition u vel pos ! d = pos ! d + vel ! d * DELTA_T u / cellSize u ! d"
proof -
  have "foldl (\<lambda>pos d. pos[d := pos ! d + (vel ! d * DELTA_T u) / cellSize u ! d]) p [0..<n] ! d
      = (if d < n then p ! d + vel ! d * DELTA_T u / cellSize u ! d else p ! d)
    \<and> length (foldl (\<lambda>pos d. pos[d := pos ! d + (vel ! d * DELTA_T u) / cellSize u ! d]) p [0..<n]) = length p"
    if "n \<le> length p" for n p d
    using that by (induction n) (auto simp: nth_list_update less_Suc_eq)
  then show ?thesis using assms by (simp add: movePosition_def)
qed

section \<open>Velocity and Gamma\<close>

definition units_ok :: "PhysUnits \<Rightarrow> bool" where
  "units_ok u \<longleftrightarrow> 0 < SPEED_OF_LIGHT u \<and> 0 < DELTA_T u \<and> 0 < EPS0 u \<and> length (cellSize u) \<in> {2, 3} \<and>
     (\<forall>d < length (cellSize u). 0 < cellSize u ! d) \<and> cflCondition u"

lemma Velocity_abs2:
  assumes "length mom = 3" "0 < c" "c = SPEED_OF_LIGHT u" "0 < mass"
  shows "abs2 (Velocity u mom mass) = abs2 mom / (mass * mass + abs2 mom / (c * c))"
proof -
  from assms(1) obtain x y z where m: "mom = [x, y, z]" by (rule vec3E)
  let ?r = "sqrt (mass * mass + abs2 mom * (1 / c / c))"
  have r: "?r * ?r = mass * mass + abs2 mom / (c * c)" using assms abs2_nonneg [OF assms(1)] by simp
  have v: "Velocity u mom mass = s_mul_vec (1 / ?r) mom" using assms by (simp add: Velocity_def MUE0_EPS0_def Let_def)
  have "abs2 (Velocity u mom mass) = abs2 mom / (?r * ?r)" unfolding v unfolding m by (simp add: add_divide_distrib)
  then show ?thesis unfolding r .
qed

lemma Velocity_below_c:
  assumes "length mom = 3" "0 < SPEED_OF_LIGHT u" "0 < mass"
  shows "abs2 (Velocity u mom mass) < SPEED_OF_LIGHT u * SPEED_OF_LIGHT u"
proof -
  let ?c = "SPEED_OF_LIGHT u"
  have "0 < mass * mass + abs2 mom / (?c * ?c)" using assms abs2_nonneg [OF assms(1)]
    by (intro add_pos_nonneg) auto
  moreover have "abs2 mom < (?c * ?c) * (mass * mass + abs2 mom / (?c * ?c))"
    using assms by (simp add: distrib_left)
  ultimately show ?thesis using assms by (simp add: Velocity_abs2 divide_less_eq)
qed

lemma Velocity_Gamma:
  assumes "length mom = 3" "0 < SPEED_OF_LIGHT u" "0 < mass"
  shows "Velocity u mom mass = s_mul_vec (1 / (mass * Gamma u mom mass)) mom"
proof -
  let ?c = "SPEED_OF_LIGHT u"
  have "mass * mass + abs2 mom * (1 / ?c / ?c) = (mass * mass) * (1 + abs2 mom * (1 / (mass * mass * (?c * ?c))))"
    using assms by (simp add: field_simps)
  then have "sqrt (mass * mass + abs2 mom * (1 / ?c / ?c)) = mass * Gamma u mom mass"
    using assms by (simp add: Gamma_def Let_def real_sqrt_mult)
  then show ?thesis by (simp add: Velocity_def MUE0_EPS0_def Let_def)
qed

lemma cfl_step:
  assumes "units_ok u" "d < length (cellSize u)"
  shows "SPEED_OF_LIGHT u * DELTA_T u \<le> cellSize u ! d"
proof -
  let ?c = "SPEED_OF_LIGHT u" and ?t = "DELTA_T u" and ?s = "cellSize u ! d"
  have pos: "0 < ?c" "0 < ?t" "0 < ?s" "\<forall>d < length (cellSize u). 0 < cellSize u ! d" "length (cellSize u) \<in> {2, 3}"
    using assms by (auto simp: units_ok_def)
  have nn: "0 \<le> 1 / (cellSize u ! k * cellSize u ! k)" for k by simp
  have "1 / (?s * ?s) \<le> INV_CELL2_SUM u"
    using pos(5) assms(2) nn [of 0] nn [of 1] nn [of 2] unfolding INV_CELL2_SUM_def
    by (auto simp: less_Suc_eq numeral_3_eq_3 numeral_2_eq_2)
  then have "(?c * ?c * ?t * ?t) * (1 / (?s * ?s)) \<le> (?c * ?c * ?t * ?t) * INV_CELL2_SUM u"
    using pos by (intro mult_left_mono) auto
  also have "\<dots> \<le> 1" using assms(1) by (simp add: units_ok_def cflCondition_def)
  finally have "(?c * ?t) * (?c * ?t) \<le> ?s * ?s" using pos by (simp add: divide_le_eq mult_ac)
  then show ?thesis using pos by (simp add: abs_le_square_iff [symmetric] power2_eq_square [symmetric])
qed

text \<open>A velocity that is at most that of light moves a particle by at most one cell.\<close>

lemma step_bound:
  assumes u: "units_ok u" and d: "d < length (cellSize u)"
    and v: "length vel = 3" "abs2 vel < SPEED_OF_LIGHT u * SPEED_OF_LIGHT u"
  shows "\<bar>vel ! d * DELTA_T u\<bar> < cellSize u ! d"
proof -
  have pos: "0 < SPEED_OF_LIGHT u" "0 < DELTA_T u" "d < 3" using u d by (auto simp: units_ok_def)
  have "vel ! d * vel ! d < SPEED_OF_LIGHT u * SPEED_OF_LIGHT u" using component_le_abs2 [OF v(1) pos(3)] v(2) by linarith
  then have "\<bar>vel ! d\<bar> < SPEED_OF_LIGHT u"
    using pos by (intro power2_less_imp_less [of "\<bar>vel ! d\<bar>"]) (simp_all add: power2_eq_square)
  then have "\<bar>vel ! d\<bar> * DELTA_T u < SPEED_OF_LIGHT u * DELTA_T u" using pos by simp
  moreover have "\<bar>vel ! d * DELTA_T u\<bar> = \<bar>vel ! d\<bar> * DELTA_T u" using pos by (simp add: abs_mult)
  ultimately show ?thesis using cfl_step [OF u d] by linarith
qed

section \<open>Boris\<close>

lemma boris_rotation:
  fixes a b c x y z k :: real
  assumes "k * (1 + (x * x + y * y + z * z)) = 1"
  defines "q \<equiv> vec_add [a, b, c] (cross (vec_add [a, b, c] (cross [a, b, c] [x, y, z])) [x * 2 * k, y * 2 * k, z * 2 * k])"
  shows "abs2 q = abs2 [a, b, c]" "dot q [x, y, z] = dot [a, b, c] [x, y, z]"
proof -
  let ?X = "(b * z - c * y) * (b * z - c * y) + (c * x - a * z) * (c * x - a * z) + (a * y - b * x) * (a * y - b * x)"
  have "abs2 q - abs2 [a, b, c] = 4 * k * ?X * (k * (1 + (x * x + y * y + z * z)) - 1)"
    unfolding q_def by (simp add: algebra_simps)
  then show "abs2 q = abs2 [a, b, c]" using assms(1) by simp
  show "dot q [x, y, z] = dot [a, b, c] [x, y, z]" unfolding q_def by (simp add: algebra_simps)
qed

lemma pushBoris_momentum:
  fixes u :: PhysUnits and charge :: real
  assumes "length bField = 3" "length eField = 3" "length mom = 3"
  defines "h \<equiv> s_mul_vec (0.5 * charge * DELTA_T u) eField"
  obtains p where "length p = 3" "snd (pushBoris u bField eField mass charge (pos, mom)) = vec_add p h"
    "abs2 p = abs2 (vec_add mom h)" "charge / mass * DELTA_T u \<noteq> 0 \<Longrightarrow> Gamma u (vec_add mom h) mass \<noteq> 0 \<Longrightarrow> dot p bField = dot (vec_add mom h) bField"
proof -
  obtain b1 b2 b3 where b: "bField = [b1, b2, b3]" using assms(1) by (rule vec3E)
  obtain e1 e2 e3 where e: "eField = [e1, e2, e3]" using assms(2) by (rule vec3E)
  obtain m1 m2 m3 where m: "mom = [m1, m2, m3]" using assms(3) by (rule vec3E)
  let ?h = "\<lambda>e. e * (0.5 * charge) * DELTA_T u"
  let ?mm = "[m1 + ?h e1, m2 + ?h e2, m3 + ?h e3]"
  define f where "f = 1 / Gamma u ?mm mass"
  define x y z where "x = b1 * (0.5 * (charge / mass)) * f * DELTA_T u" and "y = b2 * (0.5 * (charge / mass)) * f * DELTA_T u"
    and "z = b3 * (0.5 * (charge / mass)) * f * DELTA_T u"
  define k where "k = 1 / (1 + (x * x + y * y + z * z))"
  have "0 < 1 + (x * x + y * y + z * z)" by (intro add_pos_nonneg add_nonneg_nonneg) auto
  then have k: "k * (1 + (x * x + y * y + z * z)) = 1" by (simp add: k_def)
  define p where "p = vec_add ?mm (cross (vec_add ?mm (cross ?mm [x, y, z])) [x * 2 * k, y * 2 * k, z * 2 * k])"
  have h: "vec_add mom h = ?mm" by (simp add: h_def m e mult_ac)
  have kick: "vec_mul_s (s_mul_vec (0.5 * charge) eField) (DELTA_T u) = h" by (simp add: h_def e mult_ac)
  have t: "vec_mul_s (vec_mul_s (s_mul_vec (0.5 * (charge / mass)) bField) f) (DELTA_T u) = [x, y, z]"
    unfolding b vec3_simps x_def y_def z_def by (rule refl)
  have s: "vec_mul_s (s_mul_vec 2 [x, y, z]) (1 / (1 + abs2 [x, y, z])) = [x * 2 * k, y * 2 * k, z * 2 * k]"
    unfolding vec3_simps k_def by (rule refl)
  have new: "snd (pushBoris u bField eField mass charge (pos, mom)) = vec_add p h"
    unfolding pushBoris_def Let_def prod.case kick h f_def [symmetric] t s snd_conv p_def by (rule refl)
  have rot: "abs2 p = abs2 ?mm" "dot p [x, y, z] = dot ?mm [x, y, z]" unfolding p_def using boris_rotation [OF k] by blast+
  have len: "length p = 3" by (simp add: p_def)
  then obtain p1 p2 p3 where pe: "p = [p1, p2, p3]" by (rule vec3E)
  have "dot p bField = dot ?mm bField" if "charge / mass * DELTA_T u \<noteq> 0" "Gamma u ?mm mass \<noteq> 0"
  proof -
    define r where "r = 0.5 * (charge / mass) * f * DELTA_T u"
    have r: "r \<noteq> 0" using that by (simp add: r_def f_def)
    have xyz: "[x, y, z] = s_mul_vec r bField" by (simp add: x_def y_def z_def r_def b mult_ac)
    have "dot p [x, y, z] = r * dot p bField" "dot ?mm [x, y, z] = r * dot ?mm bField"
      unfolding xyz by (simp_all add: pe b algebra_simps)
    with rot(2) r show ?thesis by simp
  qed
  with that [OF len new] rot(1) h show thesis by simp
qed

section \<open>Vay\<close>

text \<open>The rotation of the momentum solves the linear equation \<open>q = w + q \<times> t\<close>.\<close>

lemma vay_rotation:
  fixes a b c x y z s :: real
  assumes "s * (1 + (x * x + y * y + z * z)) = 1"
  defines "q \<equiv> s_mul_vec s (vec_add (vec_add [a, b, c] (s_mul_vec (dot [a, b, c] [x, y, z]) [x, y, z])) (cross [a, b, c] [x, y, z]))"
  shows "q = vec_add [a, b, c] (cross q [x, y, z])"
    "abs2 q = s * (abs2 [a, b, c] + dot [a, b, c] [x, y, z] * dot [a, b, c] [x, y, z])"
proof -
  let ?n = "1 + (x * x + y * y + z * z)"
  define v1 v2 v3 where "v1 = (a + x * (a * x + b * y + c * z) + (b * z - c * y)) * s"
    and "v2 = (b + y * (a * x + b * y + c * z) + (c * x - a * z)) * s" and "v3 = (c + z * (a * x + b * y + c * z) + (a * y - b * x)) * s"
  have "v1 - (a + (v2 * z - v3 * y)) = a * (s * ?n - 1)" "v2 - (b + (v3 * x - v1 * z)) = b * (s * ?n - 1)"
    "v3 - (c + (v1 * y - v2 * x)) = c * (s * ?n - 1)"
    unfolding v1_def v2_def v3_def by (simp_all add: algebra_simps)
  moreover have "s * ?n - 1 = 0" using assms(1) by simp
  ultimately have e: "v1 - (a + (v2 * z - v3 * y)) = 0" "v2 - (b + (v3 * x - v1 * z)) = 0" "v3 - (c + (v1 * y - v2 * x)) = 0"
    by (simp_all only: mult_zero_right)
  have qe: "q = [v1, v2, v3]" by (simp add: q_def v1_def v2_def v3_def)
  show "q = vec_add [a, b, c] (cross q [x, y, z])" unfolding qe vec3_simps list.inject
    by (intro conjI refl; use e in linarith)
  let ?d = "a * x + b * y + c * z"
  have "abs2 q = s * (s * ?n) * (abs2 [a, b, c] + ?d * ?d)" unfolding q_def by (simp add: algebra_simps)
  then show "abs2 q = s * (abs2 [a, b, c] + dot [a, b, c] [x, y, z] * dot [a, b, c] [x, y, z])" using assms(1) by simp
qed

lemma vay_gamma_root:
  fixes S R :: real
  assumes "0 \<le> R" "0 < R \<or> 0 < S"
  defines "G \<equiv> 0.5 * (S + sqrt (S * S + 4 * R))"
  shows "0 < G" "G * G = S * G + R"
proof -
  let ?r = "sqrt (S * S + 4 * R)"
  have r: "?r * ?r = S * S + 4 * R" "0 \<le> ?r" using assms(1) by simp_all
  show "0 < G"
  proof (cases "0 < S")
    case False
    then have "0 < R" using assms by simp
    then have "\<bar>S\<bar> < ?r" by (intro real_less_rsqrt) (simp add: power2_eq_square)
    then show ?thesis using False by (simp add: G_def)
  qed (use r in \<open>simp add: G_def add_pos_nonneg\<close>)
  show "G * G = S * G + R" using r(1) by (simp add: G_def field_simps)
qed

lemma vay_gamma:
  fixes W T U G :: real
  assumes "0 < G" "0 \<le> T" "G * G = (1 + W - T) * G + (T + U)"
  shows "1 + 1 / (1 + T / G) * (W + U / G) = G"
proof -
  have "0 < G + T" using assms by simp
  have e: "1 + T / G = (G + T) / G" "W + U / G = (W * G + U) / G" using assms(1) by (simp_all add: field_simps)
  have "1 + 1 / (1 + T / G) * (W + U / G) = (G + T + (W * G + U)) / (G + T)"
  proof -
    have "1 / ((G + T) / G) * ((W * G + U) / G) = (W * G + U) / (G + T)" using assms(1) by simp
    then show ?thesis unfolding e add_divide_distrib [of "G + T"] using \<open>0 < G + T\<close> by simp
  qed
  also have "G + T + (W * G + U) = G * (G + T)" using assms(3) by (simp add: algebra_simps)
  finally show ?thesis using \<open>0 < G + T\<close> by simp
qed

lemma Gamma_sq:
  assumes "length p = 3"
  shows "Gamma u p mass * Gamma u p mass = 1 + abs2 p / ((SPEED_OF_LIGHT u * mass) * (SPEED_OF_LIGHT u * mass))" "0 \<le> Gamma u p mass"
proof -
  have "0 \<le> 1 + abs2 p * (1 / (mass * mass * (SPEED_OF_LIGHT u * SPEED_OF_LIGHT u)))"
    using abs2_nonneg [OF assms] by (intro add_nonneg_nonneg mult_nonneg_nonneg) simp_all
  then show "Gamma u p mass * Gamma u p mass = 1 + abs2 p / ((SPEED_OF_LIGHT u * mass) * (SPEED_OF_LIGHT u * mass))" "0 \<le> Gamma u p mass"
    unfolding Gamma_def Let_def by (simp_all add: mult_ac)
qed

text \<open>The momentum after the Vay push solves \<open>q = w + q \<times> \<tau> / Gamma q\<close> with the intermediate momentum \<open>w\<close>.\<close>

lemma vay_step:
  fixes u :: PhysUnits
  assumes w: "length w = 3" and b: "length tau = 3" and c: "0 < SPEED_OF_LIGHT u" "0 < mass"
  defines "us \<equiv> dot w tau / (SPEED_OF_LIGHT u * mass)"
    and "sg \<equiv> Gamma u w mass * Gamma u w mass - abs2 tau"
  defines "g \<equiv> sqrt (0.5 * (sg + sqrt (sg * sg + 4 * (abs2 tau + us * us))))"
  defines "t \<equiv> vec_mul_s tau (1 / g)"
  defines "q \<equiv> s_mul_vec (1 / (1 + abs2 t)) (vec_add (vec_add w (s_mul_vec (dot w t) t)) (cross w t))"
  shows "q = vec_add w (s_mul_vec (1 / Gamma u q mass) (cross q tau))" "length q = 3"
proof -
  obtain w1 w2 w3 where we: "w = [w1, w2, w3]" using w by (rule vec3E)
  obtain t1 t2 t3 where te: "tau = [t1, t2, t3]" using b by (rule vec3E)
  let ?c = "SPEED_OF_LIGHT u * mass" and ?G = "0.5 * (sg + sqrt (sg * sg + 4 * (abs2 tau + us * us)))"
  have nn: "0 \<le> abs2 tau" "0 \<le> abs2 w" using abs2_nonneg w b by auto
  have "0 < abs2 tau + us * us \<or> 0 < sg"
  proof (cases "abs2 tau = 0")
    case True
    then show ?thesis using nn Gamma_sq(1) [OF w, of u mass] by (simp add: sg_def add_pos_nonneg)
  qed (use nn in \<open>simp add: add_pos_nonneg\<close>)
  then have G: "0 < ?G" "?G * ?G = sg * ?G + (abs2 tau + us * us)" using nn vay_gamma_root [of "abs2 tau + us * us" sg] by simp_all
  have g: "0 < g" "g * g = ?G" using G(1) by (simp_all add: g_def)
  have t: "t = [t1 / g, t2 / g, t3 / g]" by (simp add: t_def te)
  have tt: "abs2 t = abs2 tau / (g * g)" "dot w t = dot w tau / g" using g by (simp_all add: t te we add_divide_distrib)
  let ?s = "1 / (1 + abs2 t)"
  have "0 < 1 + abs2 t" using abs2_nonneg [of t] by (simp add: t add_pos_nonneg)
  then have s: "?s * (1 + (t1 / g * (t1 / g) + t2 / g * (t2 / g) + t3 / g * (t3 / g))) = 1" unfolding t by simp
  note rot = vay_rotation [OF s, of w1 w2 w3, folded we t, folded q_def]
  show len: "length q = 3" by (simp add: q_def we t)
  have "Gamma u q mass * Gamma u q mass = 1 + ?s * (abs2 w / (?c * ?c) + us * us / (g * g))"
  proof -
    have "r * (A + D / g * (D / g)) / (C * C) = r * (A / (C * C) + D / C * (D / C) / (g * g))" for r A D C :: real
      by (simp add: add_divide_distrib distrib_left mult_ac)
    from arg_cong [OF this, of "\<lambda>v. 1 + v"] show ?thesis unfolding Gamma_sq(1) [OF len] rot(2) tt(2) us_def .
  qed
  also have "\<dots> = g * g"
    unfolding tt(1) g(2) using Gamma_sq(1) [OF w, of u mass] G nn
    by (intro vay_gamma) (simp_all add: sg_def algebra_simps)
  finally have "Gamma u q mass = g"
    using Gamma_sq(2) [OF len, of u mass] g(1) by (simp add: abs_eq_iff square_eq_iff)
  moreover obtain q1 q2 q3 where "q = [q1, q2, q3]" using len by (rule vec3E)
  then have "cross q t = s_mul_vec (1 / g) (cross q tau)" by (simp add: t te diff_divide_distrib)
  ultimately show "q = vec_add w (s_mul_vec (1 / Gamma u q mass) (cross q tau))" using rot(1) by simp
qed

lemma pushVay_momentum:
  fixes u :: PhysUnits and pos mom bField eField :: "real vec" and charge mass :: real
  assumes c: "0 < SPEED_OF_LIGHT u" "0 < mass" and len: "length bField = 3" "length eField = 3" "length mom = 3"
  defines "f \<equiv> 0.5 * charge * DELTA_T u"
  defines "w \<equiv> vec_add (vec_add mom (s_mul_vec f (vec_add eField (cross (Velocity u mom mass) bField)))) (s_mul_vec f eField)"
  defines "q \<equiv> snd (pushVay u bField eField mass charge (pos, mom))"
  shows "q = vec_add w (s_mul_vec (1 / Gamma u q mass) (cross q (s_mul_vec (f / mass) bField)))" "length q = 3" "length w = 3"
proof -
  show lw: "length w = 3" using len
    by (simp add: w_def vec_add_def vec_add_assign_def s_mul_vec_def scalar_mul_assign_def cross_def)
  have lt: "length (s_mul_vec (f / mass) bField) = 3" using len by (simp add: s_mul_vec_def scalar_mul_assign_def)
  note step = vay_step [OF lw lt c]
  show "q = vec_add w (s_mul_vec (1 / Gamma u q mass) (cross q (s_mul_vec (f / mass) bField)))" "length q = 3"
    unfolding q_def pushVay_def Let_def prod.case snd_conv f_def [symmetric] w_def [symmetric] by (rule step)+
qed

lemma pushBoris_length:
  assumes "length bField = 3" "length eField = 3" "length mom = 3"
  shows "length (snd (pushBoris u bField eField mass charge (pos, mom))) = 3"
  by (rule pushBoris_momentum [OF assms, where charge = charge and u = u and mass = mass and pos = pos])
    (use assms in \<open>simp add: vec_add_def vec_add_assign_def s_mul_vec_def scalar_mul_assign_def\<close>)

lemma push_positions:
  "fst (pushBoris u bField eField mass charge (pos, mom)) =
     movePosition u (Velocity u (snd (pushBoris u bField eField mass charge (pos, mom))) mass) pos"
  "fst (pushVay u bField eField mass charge (pos, mom)) =
     movePosition u (Velocity u (snd (pushVay u bField eField mass charge (pos, mom))) mass) pos"
  "fst (pushFree u bField eField mass charge (pos, mom)) = movePosition u (Velocity u mom mass) pos"
  by (simp_all add: pushBoris_def pushVay_def pushFree_def Let_def)

lemma Velocity_length: "length (Velocity u mom mass) = length mom"
  by (simp add: Velocity_def Let_def s_mul_vec_def scalar_mul_assign_def)

lemma moved_less_than_cell:
  assumes u: "units_ok u" and d: "d < length (cellSize u)" "length pos = length (cellSize u)" and m: "0 < mass" "length mom = 3"
  shows "\<bar>movePosition u (Velocity u mom mass) pos ! d - pos ! d\<bar> < 1"
proof -
  have "0 < SPEED_OF_LIGHT u" "0 < cellSize u ! d" using u d(1) by (auto simp: units_ok_def)
  with step_bound [OF u d(1), of "Velocity u mom mass"] Velocity_below_c [of mom u mass] m d Velocity_length
  show ?thesis by (simp add: movePosition_nth abs_divide)
qed

section \<open>The pusher Axl\<close>

lemma axlMomentum_length: "length eField = 3 \<Longrightarrow> length mom = 3 \<Longrightarrow> length (axlMomentum u bField eField mass charge mom) = 3"
  by (auto simp: axlMomentum_def Let_def vec_add_def vec_add_assign_def)

lemma pushAxl_linear:
  assumes "length pos = 3" "length (cellSize u) = 3"
  shows "fst (pushAxl LINEAR u bField eField mass charge (pos, mom)) =
    movePosition u (Velocity u (axlMomentum u bField eField mass charge mom) mass) pos"
proof -
  obtain p1 p2 p3 where "pos = [p1, p2, p3]" using assms(1) by (rule vec3E)
  then show ?thesis using assms(2) by (simp add: pushAxl_def movePosition_def Let_def numeral_3_eq_3 numeral_2_eq_2)
qed

lemmas axl_sums = FOR_JK_NOT_I_def levichivita_def SUM_PLINE1_def SUM_PLINE2_def SUM_PLINE3_def SUM_RLINE1_def SUM_RLINE2_def SUM_RLINE3_def

lemma rotation_formula:
  fixes b1 b2 b3 m1 m2 m3 c t B2 D :: real
  assumes "B2 = b1 * b1 + b2 * b2 + b3 * b3" "D = b1 * m1 + b2 * m2 + b3 * m3" "c * c + t * t * B2 = 1" "B2 \<noteq> 0"
  defines "n1 \<equiv> (b1 * D + c * (B2 * m1 - b1 * D) + t * B2 * (m2 * b3 - m3 * b2)) / B2"
    and "n2 \<equiv> (b2 * D + c * (B2 * m2 - b2 * D) + t * B2 * (m3 * b1 - m1 * b3)) / B2"
    and "n3 \<equiv> (b3 * D + c * (B2 * m3 - b3 * D) + t * B2 * (m1 * b2 - m2 * b1)) / B2"
  shows "n1 * n1 + n2 * n2 + n3 * n3 = m1 * m1 + m2 * m2 + m3 * m3" "n1 * b1 + n2 * b2 + n3 * b3 = m1 * b1 + m2 * b2 + m3 * b3"
proof -
  have n: "B2 * n1 = b1 * D + c * (B2 * m1 - b1 * D) + t * B2 * (m2 * b3 - m3 * b2)"
    "B2 * n2 = b2 * D + c * (B2 * m2 - b2 * D) + t * B2 * (m3 * b1 - m1 * b3)"
    "B2 * n3 = b3 * D + c * (B2 * m3 - b3 * D) + t * B2 * (m1 * b2 - m2 * b1)"
    using assms(4) by (simp_all add: n1_def n2_def n3_def)
  have "B2 * (n1 * b1 + n2 * b2 + n3 * b3) = B2 * (m1 * b1 + m2 * b2 + m3 * b3)" using n assms(1,2) by algebra
  then show "n1 * b1 + n2 * b2 + n3 * b3 = m1 * b1 + m2 * b2 + m3 * b3" using assms(4) by simp
  have "(B2 * n1) * (B2 * n1) + (B2 * n2) * (B2 * n2) + (B2 * n3) * (B2 * n3)
      = B2 * (D * D) + c * c * (B2 * (B2 * (m1 * m1 + m2 * m2 + m3 * m3) - D * D))
        + t * t * B2 * (B2 * (B2 * (m1 * m1 + m2 * m2 + m3 * m3) - D * D))"
    unfolding n using assms(1,2) by algebra
  also have "\<dots> = B2 * (D * D) + (c * c + t * t * B2) * (B2 * (B2 * (m1 * m1 + m2 * m2 + m3 * m3) - D * D))" by algebra
  finally have "B2 * B2 * (n1 * n1 + n2 * n2 + n3 * n3) = B2 * B2 * (m1 * m1 + m2 * m2 + m3 * m3)"
    unfolding assms(3) by algebra
  then show "n1 * n1 + n2 * n2 + n3 * n3 = m1 * m1 + m2 * m2 + m3 * m3" using assms(4) by simp
qed

text \<open>Without electric field the momentum is rotated about the magnetic field.\<close>

lemma axlMomentum_rotates:
  assumes "length bField = 3" "length mom = 3"
  shows "abs2 (axlMomentum u bField [0, 0, 0] mass charge mom) = abs2 mom"
    and "dot (axlMomentum u bField [0, 0, 0] mass charge mom) bField = dot mom bField"
proof -
  obtain b1 b2 b3 where b: "bField = [b1, b2, b3]" using assms(1) by (rule vec3E)
  obtain m1 m2 m3 where m: "mom = [m1, m2, m3]" using assms(2) by (rule vec3E)
  define B2 where "B2 = abs2 bField"
  define \<phi> where "\<phi> = vec_abs bField * charge * DELTA_T u / Gamma u mom mass"
  define t where "t = sin \<phi> / vec_abs bField"
  have B2: "B2 = b1 * b1 + b2 * b2 + b3 * b3" by (simp add: B2_def b)
  have eq: "axlMomentum u bField [0, 0, 0] mass charge mom =
     [(b1 * (b1 * m1 + b2 * m2 + b3 * m3) + cos \<phi> * (B2 * m1 - b1 * (b1 * m1 + b2 * m2 + b3 * m3)) + t * B2 * (m2 * b3 - m3 * b2)) / B2,
      (b2 * (b1 * m1 + b2 * m2 + b3 * m3) + cos \<phi> * (B2 * m2 - b2 * (b1 * m1 + b2 * m2 + b3 * m3)) + t * B2 * (m3 * b1 - m1 * b3)) / B2,
      (b3 * (b1 * m1 + b2 * m2 + b3 * m3) + cos \<phi> * (B2 * m3 - b3 * (b1 * m1 + b2 * m2 + b3 * m3)) + t * B2 * (m1 * b2 - m2 * b1)) / B2]"
    if "B2 > 1 / 1000000"
    using that unfolding axlMomentum_def Let_def B2_def [symmetric] \<phi>_def [symmetric] t_def [symmetric]
    by (simp add: axl_sums b m) (simp add: B2 algebra_simps)
  have "abs2 (axlMomentum u bField [0, 0, 0] mass charge mom) = abs2 mom \<and> dot (axlMomentum u bField [0, 0, 0] mass charge mom) bField = dot mom bField"
  proof (cases "B2 > 1 / 1000000")
    case True
    have "vec_abs bField * vec_abs bField = B2" using abs2_nonneg [OF assms(1)] by (simp add: vec_abs_def B2_def)
    then have "t * t * B2 = sin \<phi> * sin \<phi>" using True by (auto simp: t_def)
    then have "cos \<phi> * cos \<phi> + t * t * B2 = 1" using sin_cos_squared_add2 [of \<phi>] by (simp add: power2_eq_square)
    moreover have "B2 \<noteq> 0" using True by auto
    ultimately show ?thesis unfolding eq [OF True] using rotation_formula [OF B2 refl, of "cos \<phi>" t m1 m2 m3] by (simp add: m b)
  next
    case False
    then show ?thesis by (simp add: axlMomentum_def Let_def B2_def m)
  qed
  then show "abs2 (axlMomentum u bField [0, 0, 0] mass charge mom) = abs2 mom"
    and "dot (axlMomentum u bField [0, 0, 0] mass charge mom) bField = dot mom bField" by blast+
qed

text \<open>
  The nonlinear trajectory does not keep a particle at rest where it is: a factor \<open>eField\<close> is missing in one term of \<open>SUM_RLINE1\<close>,
  and a magnetic field alone moves the particle, here by two cells.
\<close>

lemma Axl_nonlinear_moves_particle_at_rest:
  "fst (pushAxl NONLINEAR \<lparr>cellSize = [2, 2, 2], DELTA_T = 1, SPEED_OF_LIGHT = 1, EPS0 = 1\<rparr> [1, 1, 1] [0, 0, 0] 1 36 ([0, 0, 0], [0, 0, 0])) ! 0 = 2"
  by (simp add: pushAxl_def axlPosition_def Let_def axl_sums Velocity_def vec_sub_def vec_sub_assign_def)

section \<open>Properties\<close>

text \<open>
  Boris splits a push into two half kicks by the electric field around a rotation: between the
  kicks the momentum keeps its length and its component along the magnetic field, so a magnetic
  field alone does no work.
\<close>
theorem Boris_rotates_momentum:
  assumes "length bField = 3" "length eField = 3" "length mom = 3" "0 < mass" "charge \<noteq> 0" "0 < DELTA_T u"
  shows "\<exists>p. snd (pushBoris u bField eField mass charge (pos, mom)) = vec_add p (s_mul_vec (0.5 * charge * DELTA_T u) eField) \<and>
    abs2 p = abs2 (vec_add mom (s_mul_vec (0.5 * charge * DELTA_T u) eField)) \<and>
    dot p bField = dot (vec_add mom (s_mul_vec (0.5 * charge * DELTA_T u) eField)) bField"
proof -
  let ?h = "s_mul_vec (0.5 * charge * DELTA_T u) eField"
  have len: "length (vec_add mom ?h) = 3"
    using assms by (simp add: vec_add_def vec_add_assign_def s_mul_vec_def scalar_mul_assign_def)
  have "0 < 1 + abs2 (vec_add mom ?h) / ((SPEED_OF_LIGHT u * mass) * (SPEED_OF_LIGHT u * mass))"
    using abs2_nonneg [OF len] by (intro add_pos_nonneg) auto
  then have g: "Gamma u (vec_add mom ?h) mass \<noteq> 0" using Gamma_sq(1) [OF len, of u mass] by auto
  have q: "charge / mass * DELTA_T u \<noteq> 0" using assms(4-6) by simp
  show ?thesis
  proof (rule pushBoris_momentum [OF assms(1-3), where charge = charge and u = u and mass = mass and pos = pos])
    fix p assume "snd (pushBoris u bField eField mass charge (pos, mom)) = vec_add p ?h" "abs2 p = abs2 (vec_add mom ?h)"
      and "charge / mass * DELTA_T u \<noteq> 0 \<Longrightarrow> Gamma u (vec_add mom ?h) mass \<noteq> 0 \<Longrightarrow> dot p bField = dot (vec_add mom ?h) bField"
    with q g show ?thesis by blast
  qed
qed

theorem Boris_rotates_momentum_witness:
  "\<exists>p. snd (pushBoris \<lparr>cellSize = [2, 2, 2], DELTA_T = 1, SPEED_OF_LIGHT = 1, EPS0 = 1\<rparr> [0, 0, 3] [1, 0, 0] 1 2 ([0, 0, 0], [1, 2, 3])) =
      vec_add p (s_mul_vec (0.5 * 2 * 1) [1, 0, 0]) \<and> abs2 p = 17 \<and> dot p [0, 0, 3] = 9"
  using Boris_rotates_momentum [of "[0, 0, 3]" "[1, 0, 0]" "[1, 2, 3]" 1 2
      "\<lparr>cellSize = [2, 2, 2], DELTA_T = 1, SPEED_OF_LIGHT = 1, EPS0 = 1\<rparr>" "[0, 0, 0]"] by simp

text \<open>
  C33. Vay solves its implicit scheme exactly: the new momentum is the old one plus the Lorentz force
  of the given fields at the mean of the old and the new velocity, times the time step.
\<close>
theorem Vay_solves_implicit_scheme:
  assumes "0 < SPEED_OF_LIGHT u" "0 < mass" "length bField = 3" "length eField = 3" "length mom = 3"
    and "new = snd (pushVay u bField eField mass charge (pos, mom))"
  shows "new = vec_add mom (s_mul_vec (charge * DELTA_T u) (vec_add eField
      (cross (s_mul_vec 0.5 (vec_add (Velocity u mom mass) (Velocity u new mass))) bField)))"
proof -
  note v = pushVay_momentum(1,2) [OF assms(1-5), where charge = charge and pos = pos, folded assms(6)]
  have V: "Velocity u new mass = s_mul_vec (1 / (mass * Gamma u new mass)) new" using Velocity_Gamma [OF v(2)] assms by simp
  obtain b1 b2 b3 where b: "bField = [b1, b2, b3]" using assms(3) by (rule vec3E)
  obtain e1 e2 e3 where e: "eField = [e1, e2, e3]" using assms(4) by (rule vec3E)
  obtain m1 m2 m3 where m: "mom = [m1, m2, m3]" using assms(5) by (rule vec3E)
  obtain v1 v2 v3 where vo: "Velocity u mom mass = [v1, v2, v3]" using assms(5) Velocity_length by (metis vec3E)
  obtain n1 n2 n3 where n: "new = [n1, n2, n3]" using v(2) by (rule vec3E)
  define G where "G = Gamma u new mass"
  define r where "r = 1 / (mass * G)"
  define f where "f = 0.5 * charge * DELTA_T u"
  have V': "Velocity u new mass = [n1 * r, n2 * r, n3 * r]" unfolding V G_def [symmetric] r_def [symmetric] by (simp add: n)
  have "s_mul_vec (1 / G) (cross new (s_mul_vec (f / mass) bField)) = s_mul_vec f (cross [n1 * r, n2 * r, n3 * r] bField)"
    by (simp add: n b r_def algebra_simps diff_divide_distrib)
  then have "new = vec_add (vec_add (vec_add mom (s_mul_vec f (vec_add eField (cross [v1, v2, v3] bField)))) (s_mul_vec f eField))
      (s_mul_vec f (cross [n1 * r, n2 * r, n3 * r] bField))"
    using v(1) unfolding G_def [symmetric] f_def [symmetric] vo by simp
  also have "\<dots> = vec_add mom (s_mul_vec (2 * f) (vec_add eField (cross (s_mul_vec 0.5 (vec_add [v1, v2, v3] [n1 * r, n2 * r, n3 * r])) bField)))"
    by (simp add: m e b field_simps)
  finally show ?thesis unfolding V' vo by (simp add: f_def)
qed

theorem Vay_solves_implicit_scheme_witness:
  "\<exists>new. new = snd (pushVay \<lparr>cellSize = [2, 2, 2], DELTA_T = 1, SPEED_OF_LIGHT = 1, EPS0 = 1\<rparr> [0, 0, 3] [1, 0, 0] 1 2 ([0, 0, 0], [1, 2, 3])) \<and>
    new = vec_add [1, 2, 3] (s_mul_vec 2 (vec_add [1, 0, 0] (cross (s_mul_vec 0.5
      (vec_add (Velocity \<lparr>cellSize = [2, 2, 2], DELTA_T = 1, SPEED_OF_LIGHT = 1, EPS0 = 1\<rparr> [1, 2, 3] 1)
        (Velocity \<lparr>cellSize = [2, 2, 2], DELTA_T = 1, SPEED_OF_LIGHT = 1, EPS0 = 1\<rparr> new 1))) [0, 0, 3])))"
  using Vay_solves_implicit_scheme [of "\<lparr>cellSize = [2, 2, 2], DELTA_T = 1, SPEED_OF_LIGHT = 1, EPS0 = 1\<rparr>" 1 "[0, 0, 3]" "[1, 0, 0]" "[1, 2, 3]"
      _ 2 "[0, 0, 0]"] by simp

text \<open>
  C34. Under the Courant condition that the field solver asserts, the pushers Boris, Vay and Free, and in three dimensions Axl with the
  linear trajectory that the configuration sets, move a massive particle by less than a cell along every axis, whatever the fields are.
  This is what the current deposition and the shift of particles to neighbouring supercells rely on. The nonlinear
  trajectory of Axl is not covered: it moves a particle at rest.
\<close>
theorem push_moves_less_than_cell:
  assumes "units_ok u" "length pos = length (cellSize u)" "0 < mass"
    and "length bField = 3" "length eField = 3" "length mom = 3"
  shows "list_all (\<lambda>push. \<forall>d < length (cellSize u). \<bar>fst (push u bField eField mass charge (pos, mom)) ! d - pos ! d\<bar> < 1)
    ([pushBoris, pushVay, pushFree] @ (if length (cellSize u) = 3 then [pushAxl LINEAR] else []))"
proof -
  have c: "0 < SPEED_OF_LIGHT u" using assms(1) by (simp add: units_ok_def)
  have "length (snd (pushVay u bField eField mass charge (pos, mom))) = 3"
    by (rule pushVay_momentum(2) [OF c assms(3-6)])
  moreover have "length (snd (pushBoris u bField eField mass charge (pos, mom))) = 3"
    by (rule pushBoris_length [OF assms(4-6)])
  moreover have "length (axlMomentum u bField eField mass charge mom) = 3" by (rule axlMomentum_length [OF assms(5,6)])
  ultimately show ?thesis using moved_less_than_cell [OF assms(1) _ assms(2,3)] assms(2,6) by (simp add: push_positions pushAxl_linear)
qed

definition samplePhys :: PhysUnits where
  "samplePhys = \<lparr>cellSize = [2, 2, 2], DELTA_T = 1, SPEED_OF_LIGHT = 1, EPS0 = 1\<rparr>"

lemma samplePhys_ok: "units_ok samplePhys"
proof -
  have "\<forall>d < 3. 0 < [2, 2, 2 :: real] ! d" by (auto simp: less_Suc_eq numeral_3_eq_3)
  then show ?thesis by (simp add: units_ok_def samplePhys_def cflCondition_def INV_CELL2_SUM_def)
qed

theorem push_moves_less_than_cell_witness:
  "\<bar>fst (pushBoris samplePhys [0, 0, 3] [1, 0, 0] 1 2 ([0, 0, 0], [1, 2, 3])) ! 2 - 0\<bar> < 1"
proof -
  have "length (cellSize samplePhys) = 3" by (simp add: samplePhys_def)
  with push_moves_less_than_cell [OF samplePhys_ok, of "[0, 0, 0]" 1 "[0, 0, 3]" "[1, 0, 0]" "[1, 2, 3]" 2]
  have "\<forall>d < 3. \<bar>fst (pushBoris samplePhys [0, 0, 3] [1, 0, 0] 1 2 ([0, 0, 0], [1, 2, 3])) ! d - [0, 0, 0] ! d\<bar> < 1" by simp
  from this [rule_format, of 2] show ?thesis by simp
qed

end
