(* ===== verification/Maxwell.thy ===== *)
theory Maxwell
  imports Pushers
begin

text \<open>
  Models the Yee field solver (algorithms/DifferenceToLower.hpp, DifferenceToUpper.hpp,
  fields/MaxwellSolver/Yee) and the addition of the current to the electric field
  (fields/currentInterpolation, FieldJ.kernel) over real numbers. A kernel over an area is a fold of the
  code of one thread over the cells of the area. The cached copy of the block that the threads read equals the field
  itself, because a kernel never writes the field it reads. The locale \<open>difference_scheme\<close> captures
  what the two difference operators share.
\<close>

section \<open>Differences and curl\<close>

definition boxShift :: "vectorField \<Rightarrow> DataSpace \<Rightarrow> DataSpace \<Rightarrow> real vec" where
  "boxShift F cell idx = map (\<lambda>c. F (vec_add cell idx, c)) [0..<3]"

definition DifferenceToUpper :: "nat \<Rightarrow> real vec \<Rightarrow> nat \<Rightarrow> (DataSpace \<Rightarrow> real vec) \<Rightarrow> real vec" where
  "DifferenceToUpper dm cs direction mem =
     (if direction < dm
      then let indexIdentity = DataSpace_default dm; indexUpper = (DataSpace_default dm)[direction := 1]
           in vec_div_s (/) (vec_sub (mem indexUpper) (mem indexIdentity)) (cs ! direction)
      else vec_create 3 0)"

definition DifferenceToLower :: "nat \<Rightarrow> real vec \<Rightarrow> nat \<Rightarrow> (DataSpace \<Rightarrow> real vec) \<Rightarrow> real vec" where
  "DifferenceToLower dm cs direction mem =
     (if direction < dm
      then let indexIdentity = DataSpace_default dm; indexLower = (DataSpace_default dm)[direction := - 1]
           in vec_div_s (/) (vec_sub (mem indexIdentity) (mem indexLower)) (cs ! direction)
      else vec_create 3 0)"

definition Curl :: "(nat \<Rightarrow> (DataSpace \<Rightarrow> real vec) \<Rightarrow> real vec) \<Rightarrow> (DataSpace \<Rightarrow> real vec) \<Rightarrow> real vec" where
  "Curl difference mem =
     (let Dx = difference 0; Dy = difference 1; Dz = difference 2
      in [zc (Dy mem) - yc (Dz mem), xc (Dz mem) - zc (Dx mem), yc (Dx mem) - xc (Dy mem)])"

definition CurlLeft :: "nat \<Rightarrow> real vec \<Rightarrow> (DataSpace \<Rightarrow> real vec) \<Rightarrow> real vec" where
  "CurlLeft dm cs = Curl (DifferenceToLower dm cs)"

definition CurlRight :: "nat \<Rightarrow> real vec \<Rightarrow> (DataSpace \<Rightarrow> real vec) \<Rightarrow> real vec" where
  "CurlRight dm cs = Curl (DifferenceToUpper dm cs)"

section \<open>Kernels\<close>

definition writeVec :: "vectorField \<Rightarrow> DataSpace \<Rightarrow> real vec \<Rightarrow> vectorField" where
  "writeVec F cell v = (\<lambda>(g, c). if g = cell \<and> c < 3 then v ! c else F (g, c))"

definition readVec :: "vectorField \<Rightarrow> DataSpace \<Rightarrow> real vec" where
  "readVec F cell = map (\<lambda>c. F (cell, c)) [0..<3]"

definition KernelUpdateE ::
    "PhysUnits \<Rightarrow> ((DataSpace \<Rightarrow> real vec) \<Rightarrow> real vec) \<Rightarrow> vectorField \<Rightarrow> vectorField \<Rightarrow> DataSpace \<Rightarrow> vectorField" where
  "KernelUpdateE u curl fieldE fieldB cell =
     (let c2 = SPEED_OF_LIGHT u * SPEED_OF_LIGHT u; dt = DELTA_T u
      in writeVec fieldE cell (vec_add_assign (readVec fieldE cell) (vec_mul_s (vec_mul_s (curl (boxShift fieldB cell)) c2) dt)))"

definition KernelUpdateBHalf ::
    "PhysUnits \<Rightarrow> ((DataSpace \<Rightarrow> real vec) \<Rightarrow> real vec) \<Rightarrow> vectorField \<Rightarrow> vectorField \<Rightarrow> DataSpace \<Rightarrow> vectorField" where
  "KernelUpdateBHalf u curl fieldB fieldE cell =
     (let dt = DELTA_T u
      in writeVec fieldB cell (vec_sub_assign (readVec fieldB cell) (vec_mul_s (vec_mul_s (curl (boxShift fieldE cell)) 0.5) dt)))"

definition updateE :: "PhysUnits \<Rightarrow> nat \<Rightarrow> DataSpace list \<Rightarrow> vectorField \<Rightarrow> vectorField \<Rightarrow> vectorField" where
  "updateE u dm area fieldE fieldB =
     foldl (\<lambda>fieldE cell. KernelUpdateE u (CurlLeft dm (cellSize u)) fieldE fieldB cell) fieldE area"

definition updateBHalf :: "PhysUnits \<Rightarrow> nat \<Rightarrow> DataSpace list \<Rightarrow> vectorField \<Rightarrow> vectorField \<Rightarrow> vectorField" where
  "updateBHalf u dm area fieldB fieldE =
     foldl (\<lambda>fieldB cell. KernelUpdateBHalf u (CurlRight dm (cellSize u)) fieldB fieldE cell) fieldB area"

definition currentNone :: "PhysUnits \<Rightarrow> vectorField \<Rightarrow> vectorField \<Rightarrow> DataSpace \<Rightarrow> vectorField" where
  "currentNone u fieldE fieldJ cell =
     (let deltaT = DELTA_T u
      in writeVec fieldE cell (vec_sub_assign (readVec fieldE cell) (vec_mul_s (vec_mul_s (readVec fieldJ cell) (1 / EPS0 u)) deltaT)))"

definition binomialSum :: "nat \<Rightarrow> (DataSpace \<Rightarrow> real vec) \<Rightarrow> real vec" where
  "binomialSum dm fieldJ =
     foldl (\<lambda>dirSum d.
         let self = DataSpace_default dm; dw = (DataSpace_default dm)[d := - 1]; up = (DataSpace_default dm)[d := 1];
             dirDw = vec_add (fieldJ dw) (fieldJ self); dirUp = vec_add (fieldJ up) (fieldJ self)
         in vec_add_assign dirSum (vec_add dirDw dirUp))
       (vec_create 3 0) [0..<dm]"

definition currentBinomial :: "nat \<Rightarrow> PhysUnits \<Rightarrow> vectorField \<Rightarrow> vectorField \<Rightarrow> DataSpace \<Rightarrow> vectorField" where
  "currentBinomial dm u fieldE fieldJ cell =
     (let filteredJ = vec_div (/) (binomialSum dm (boxShift fieldJ cell)) (vec_create 3 (4 * real dm)); deltaT = DELTA_T u
      in writeVec fieldE cell (vec_sub_assign (readVec fieldE cell) (vec_mul_s (vec_mul_s filteredJ (1 / EPS0 u)) deltaT)))"

definition addCurrentToEMF ::
    "(vectorField \<Rightarrow> vectorField \<Rightarrow> DataSpace \<Rightarrow> vectorField) \<Rightarrow> DataSpace list \<Rightarrow> vectorField \<Rightarrow> vectorField \<Rightarrow> vectorField" where
  "addCurrentToEMF interpolation area fieldE fieldJ = foldl (\<lambda>fieldE cell. interpolation fieldE fieldJ cell) fieldE area"

section \<open>Kernels act cell by cell\<close>

lemma fold_cells:
  assumes "distinct area" "\<And>F cell g c. G F cell (g, c) = (if g = cell \<and> c < 3 then F (g, c) + h g c else F (g, c))"
  shows "foldl G F area (g, c) = F (g, c) + (if g \<in> set area \<and> c < (3 :: nat) then h g c else (0 :: real))"
  using assms(1) by (induction area arbitrary: F) (auto simp: assms(2))

lemma updateE_at:
  assumes "distinct area"
  shows "updateE u dm area E B (g, c) = E (g, c) +
    (if g \<in> set area \<and> c < 3 then CurlLeft dm (cellSize u) (boxShift B g) ! c * (SPEED_OF_LIGHT u * SPEED_OF_LIGHT u) * DELTA_T u else 0)"
  unfolding updateE_def
  by (rule fold_cells [OF assms])
    (auto simp: KernelUpdateE_def writeVec_def readVec_def vec_add_assign_def vec_mul_s_def scalar_mul_assign_def Let_def CurlLeft_def Curl_def
      less_Suc_eq numeral_3_eq_3 numeral_2_eq_2)

lemma updateBHalf_at:
  assumes "distinct area"
  shows "updateBHalf u dm area B E (g, c) = B (g, c) +
    (if g \<in> set area \<and> c < 3 then - (CurlRight dm (cellSize u) (boxShift E g) ! c * 0.5 * DELTA_T u) else 0)"
  unfolding updateBHalf_def
  by (rule fold_cells [OF assms])
    (auto simp: KernelUpdateBHalf_def writeVec_def readVec_def vec_sub_assign_def vec_mul_s_def scalar_mul_assign_def Let_def CurlRight_def Curl_def
      less_Suc_eq numeral_3_eq_3 numeral_2_eq_2)

lemma addCurrentNone_at:
  assumes "distinct area"
  shows "addCurrentToEMF (currentNone u) area E J (g, c) = E (g, c) +
    (if g \<in> set area \<and> c < 3 then - (J (g, c) * (1 / EPS0 u) * DELTA_T u) else 0)"
  unfolding addCurrentToEMF_def
  by (rule fold_cells [OF assms])
    (auto simp: currentNone_def writeVec_def readVec_def vec_sub_assign_def vec_mul_s_def scalar_mul_assign_def Let_def
      less_Suc_eq numeral_3_eq_3 numeral_2_eq_2)

section \<open>Differences as operators on scalar fields\<close>

definition lowerDiff :: "nat \<Rightarrow> real vec \<Rightarrow> nat \<Rightarrow> (DataSpace \<Rightarrow> real) \<Rightarrow> DataSpace \<Rightarrow> real" where
  "lowerDiff dm cs d f g = (if d < dm then (f g - f (g[d := g ! d - 1])) / cs ! d else 0)"

definition upperDiff :: "nat \<Rightarrow> real vec \<Rightarrow> nat \<Rightarrow> (DataSpace \<Rightarrow> real) \<Rightarrow> DataSpace \<Rightarrow> real" where
  "upperDiff dm cs d f g = (if d < dm then (f (g[d := g ! d + 1]) - f g) / cs ! d else 0)"

text \<open>
  What the solver relies on: differences along the axes are linear and commute. The divergence of a
  curl that is built from the same differences vanishes.
\<close>

locale difference_scheme =
  fixes D :: "nat \<Rightarrow> (DataSpace \<Rightarrow> real) \<Rightarrow> DataSpace \<Rightarrow> real"
  assumes D_diff: "D d (\<lambda>g. f g - h g) g = D d f g - D d h g"
    and D_commute: "D a (D b f) g = D b (D a f) g"
begin

definition schemeCurl :: "(nat \<Rightarrow> DataSpace \<Rightarrow> real) \<Rightarrow> nat \<Rightarrow> DataSpace \<Rightarrow> real" where
  "schemeCurl F c = [\<lambda>g. D 1 (F 2) g - D 2 (F 1) g, \<lambda>g. D 2 (F 0) g - D 0 (F 2) g, \<lambda>g. D 0 (F 1) g - D 1 (F 0) g] ! c"

lemma div_schemeCurl: "(\<Sum>d \<in> {..<3 :: nat}. D d (schemeCurl F d) g) = 0"
proof -
  have "(\<Sum>d \<in> {..<3 :: nat}. D d (schemeCurl F d) g) = D 0 (schemeCurl F 0) g + D 1 (schemeCurl F 1) g + D 2 (schemeCurl F 2) g"
    by (simp add: numeral_3_eq_3 numeral_2_eq_2)
  also have "\<dots> = (D 0 (D 1 (F 2)) g - D 0 (D 2 (F 1)) g) + (D 1 (D 2 (F 0)) g - D 1 (D 0 (F 2)) g)
      + (D 2 (D 0 (F 1)) g - D 2 (D 1 (F 0)) g)"
    by (simp add: schemeCurl_def D_diff)
  also have "\<dots> = 0"
    using D_commute [of 0 1 "F 2"] D_commute [of 0 2 "F 1"] D_commute [of 1 2 "F 0"] by simp
  finally show ?thesis .
qed

end

lemma lowerDiff_scheme: "difference_scheme (lowerDiff dm cs)"
proof
  show "lowerDiff dm cs d (\<lambda>g. f g - h g) g = lowerDiff dm cs d f g - lowerDiff dm cs d h g" for d f h g
    by (simp add: lowerDiff_def diff_divide_distrib)
  show "lowerDiff dm cs a (lowerDiff dm cs b f) g = lowerDiff dm cs b (lowerDiff dm cs a f) g" for a b f g
    by (cases "a = b") (simp_all add: lowerDiff_def list_update_swap diff_divide_distrib mult_ac)
qed

lemma upperDiff_scheme: "difference_scheme (upperDiff dm cs)"
proof
  show "upperDiff dm cs d (\<lambda>g. f g - h g) g = upperDiff dm cs d f g - upperDiff dm cs d h g" for d f h g
    by (simp add: upperDiff_def diff_divide_distrib)
  show "upperDiff dm cs a (upperDiff dm cs b f) g = upperDiff dm cs b (upperDiff dm cs a f) g" for a b f g
    by (cases "a = b") (simp_all add: upperDiff_def list_update_swap diff_divide_distrib mult_ac)
qed

interpretation lower: difference_scheme "lowerDiff dm cs" for dm cs
  by (rule lowerDiff_scheme)

interpretation upper: difference_scheme "upperDiff dm cs" for dm cs
  by (rule upperDiff_scheme)

text \<open>The operators of the code compute these differences.\<close>

lemma default_add:
  fixes g :: DataSpace
  assumes "length g = dm"
  shows "vec_add g (replicate dm 0) = g" "d < dm \<Longrightarrow> vec_add g ((replicate dm 0)[d := k]) = g[d := g ! d + k]"
  using assms by (auto simp: vec_add_def vec_add_assign_def nth_list_update intro!: nth_equalityI)

lemma DifferenceToLower_nth:
  assumes "length g = dm" "c < 3"
  shows "DifferenceToLower dm cs d (boxShift F g) ! c = lowerDiff dm cs d (\<lambda>g. F (g, c)) g"
  using assms by (simp add: DifferenceToLower_def lowerDiff_def boxShift_def default_add vec_div_s_def scalar_div_assign_def
      vec_sub_def vec_sub_assign_def vec_create_def Let_def del: upt_Suc)

lemma DifferenceToUpper_nth:
  assumes "length g = dm" "c < 3"
  shows "DifferenceToUpper dm cs d (boxShift F g) ! c = upperDiff dm cs d (\<lambda>g. F (g, c)) g"
  using assms by (simp add: DifferenceToUpper_def upperDiff_def boxShift_def default_add vec_div_s_def scalar_div_assign_def
      vec_sub_def vec_sub_assign_def vec_create_def Let_def del: upt_Suc)

lemma CurlLeft_scheme:
  assumes "length g = dm" "c < 3"
  shows "CurlLeft dm cs (boxShift F g) ! c = lower.schemeCurl dm cs (\<lambda>c g. F (g, c)) c g"
  using assms by (auto simp: CurlLeft_def Curl_def Let_def lower.schemeCurl_def DifferenceToLower_nth less_Suc_eq numeral_3_eq_3 numeral_2_eq_2)

lemma CurlRight_scheme:
  assumes "length g = dm" "c < 3"
  shows "CurlRight dm cs (boxShift F g) ! c = upper.schemeCurl dm cs (\<lambda>c g. F (g, c)) c g"
  using assms by (auto simp: CurlRight_def Curl_def Let_def upper.schemeCurl_def DifferenceToUpper_nth less_Suc_eq numeral_3_eq_3 numeral_2_eq_2)

section \<open>Properties\<close>

definition divergenceUpper :: "nat \<Rightarrow> PhysUnits \<Rightarrow> vectorField \<Rightarrow> DataSpace \<Rightarrow> real" where
  "divergenceUpper dm u F g = (\<Sum>d \<in> {..<dm}. (F (g[d := g ! d + 1], d) - F (g, d)) / cellSize u ! d)"

lemma divergence_lowerDiff: "dm \<le> 3 \<Longrightarrow> divergence dm u F g = (\<Sum>d \<in> {..<3}. lowerDiff dm (cellSize u) d (\<lambda>g. F (g, d)) g)"
  unfolding divergence_def lowerDiff_def by (rule sum.mono_neutral_cong_left) auto

lemma divergence_upperDiff: "dm \<le> 3 \<Longrightarrow> divergenceUpper dm u F g = (\<Sum>d \<in> {..<3}. upperDiff dm (cellSize u) d (\<lambda>g. F (g, d)) g)"
  unfolding divergenceUpper_def upperDiff_def by (rule sum.mono_neutral_cong_left) auto

text \<open>The divergence of a field to which a multiple of another one was added around a cell.\<close>

lemma divergence_add:
  assumes "\<And>d. d < dm \<Longrightarrow> F' (g, d) = F (g, d) + k * H (g, d)" "\<And>d. d < dm \<Longrightarrow> F' (g[d := g ! d - 1], d) = F (g[d := g ! d - 1], d) + k * H (g[d := g ! d - 1], d)"
  shows "divergence dm u F' g = divergence dm u F g + k * divergence dm u H g"
  unfolding divergence_def sum_distrib_left sum.distrib [symmetric]
  by (rule sum.cong) (simp_all add: assms diff_divide_distrib add_divide_distrib right_diff_distrib)

lemma divergenceUpper_add:
  assumes "\<And>d. d < dm \<Longrightarrow> F' (g, d) = F (g, d) + k * H (g, d)" "\<And>d. d < dm \<Longrightarrow> F' (g[d := g ! d + 1], d) = F (g[d := g ! d + 1], d) + k * H (g[d := g ! d + 1], d)"
  shows "divergenceUpper dm u F' g = divergenceUpper dm u F g + k * divergenceUpper dm u H g"
  unfolding divergenceUpper_def sum_distrib_left sum.distrib [symmetric]
  by (rule sum.cong) (simp_all add: assms diff_divide_distrib add_divide_distrib right_diff_distrib)

lemma updateE_divergence:
  assumes dm: "dm \<le> 3" "length g = dm" and area: "distinct area" "g \<in> set area" "\<forall>d < dm. g[d := g ! d - 1] \<in> set area"
  shows "divergence dm u (updateE u dm area E B) g = divergence dm u E g"
proof -
  let ?k = "SPEED_OF_LIGHT u * SPEED_OF_LIGHT u * DELTA_T u"
  let ?H = "\<lambda>(g, c). lower.schemeCurl dm (cellSize u) (\<lambda>c g. B (g, c)) c g"
  have "divergence dm u (updateE u dm area E B) g = divergence dm u E g + ?k * divergence dm u ?H g"
    by (rule divergence_add) (use dm area in \<open>simp_all add: updateE_at CurlLeft_scheme\<close>)
  moreover have "divergence dm u ?H g = 0" unfolding divergence_lowerDiff [OF dm(1)] by (simp add: lower.div_schemeCurl)
  ultimately show ?thesis by simp
qed

text \<open>
  The magnetic field stays free of sources: a half step of the Yee solver does not change the
  discrete divergence of the magnetic field at any cell that is updated together with its upper neighbours, in two and
  three dimensions.
\<close>
theorem yee_keeps_divB:
  assumes "dm \<le> 3" "length g = dm" "distinct area" "g \<in> set area" "\<forall>d < dm. g[d := g ! d + 1] \<in> set area"
  shows "divergenceUpper dm u (updateBHalf u dm area B E) g = divergenceUpper dm u B g"
proof -
  let ?k = "- (0.5 * DELTA_T u)"
  let ?H = "\<lambda>(g, c). upper.schemeCurl dm (cellSize u) (\<lambda>c g. E (g, c)) c g"
  have "divergenceUpper dm u (updateBHalf u dm area B E) g = divergenceUpper dm u B g + ?k * divergenceUpper dm u ?H g"
    by (rule divergenceUpper_add) (use assms in \<open>simp_all add: updateBHalf_at CurlRight_scheme\<close>)
  moreover have "divergenceUpper dm u ?H g = 0" unfolding divergence_upperDiff [OF assms(1)] by (simp add: upper.div_schemeCurl)
  ultimately show ?thesis by simp
qed

theorem yee_keeps_divB_witness:
  "divergenceUpper 2 samplePhys (updateBHalf samplePhys 2 [[4, 5], [5, 5], [4, 6]] (\<lambda>(g, c). g ! 0 * 3) (\<lambda>(g, c). g ! 1 * g ! 0)) [4, 5] = 3 / 2"
proof -
  have "divergenceUpper 2 samplePhys (updateBHalf samplePhys 2 [[4, 5], [5, 5], [4, 6]] (\<lambda>(g, c). g ! 0 * 3) (\<lambda>(g, c). g ! 1 * g ! 0)) [4, 5] =
    divergenceUpper 2 samplePhys (\<lambda>(g, c). g ! 0 * 3) [4, 5]"
    by (rule yee_keeps_divB) (auto simp: less_Suc_eq numeral_2_eq_2)
  then show ?thesis by (simp add: divergenceUpper_def samplePhys_def lessThan_nat_numeral)
qed

end
