(* ===== verification/BackgroundFields.thy ===== *)
theory BackgroundFields
  imports MovingWindows AreaMaps Maxwell
begin

text \<open>
  Models the cellwise operations on fields (src/picongpu/include/fields/background/cellwiseOperation.hpp)
  with which external background fields are added and removed, and the functors \<open>Add\<close> and \<open>Sub\<close>
  (nvidia/functors). A kernel is a fold of the code of one thread over all blocks of the area's grid and all
  threads of a block. Shown: on the whole local grid the operation acts once on every cell, guard included, with
  the cell's coordinates in the moving frame as argument of the value functor; adding and subtracting the
  same background in one step restores the field.
\<close>

section \<open>Grids of blocks and threads\<close>

definition blockCells :: "DataSpace \<Rightarrow> DataSpace list \<Rightarrow> DataSpace list" where
  "blockCells sc blocks = concat (map (\<lambda>b. map (\<lambda>t. vec_add (vec_mul b sc) t) (boxList sc)) blocks)"

lemma cell_digits:
  assumes "t \<in> box sc" "t' \<in> box sc" "length b = length sc" "length b' = length sc"
    and "vec_add (vec_mul b sc) t = vec_add (vec_mul b' sc) t'"
  shows "b = b' \<and> t = t'"
  using assms
proof (induction sc arbitrary: b b' t t')
  case (Cons s sc)
  obtain x bs x' bs' where b: "b = x # bs" "b' = x' # bs'" using Cons.prems(3,4) by (metis length_Suc_conv)
  obtain y ts y' ts' where t: "t = y # ts" "t' = y' # ts'" "0 \<le> y" "y < s" "0 \<le> y'" "y' < s" "ts \<in> box sc" "ts' \<in> box sc"
    using Cons.prems(1,2) by (auto simp: box_Cons)
  note l = b t
  have eq: "x * s + y = x' * s + y'" "vec_add (vec_mul bs sc) ts = vec_add (vec_mul bs' sc) ts'"
    using Cons.prems(5) l by (simp_all add: vec_add_def vec_add_assign_def vec_mul_def vec_mul_assign_def)
  have "y = y' \<and> x = x'" using radix_unique [of y s y' x x'] l eq by simp
  moreover have "bs = bs' \<and> ts = ts'" using Cons.prems l eq by (intro Cons.IH) auto
  ultimately show ?case using l by simp
qed simp

lemma box_digits:
  assumes "length n = length sc" "\<forall>s \<in> set sc. 0 < s"
  shows "g \<in> box (vec_mul n sc) \<longleftrightarrow> (\<exists>b \<in> box n. \<exists>t \<in> box sc. g = vec_add (vec_mul b sc) t)"
  using assms
proof (induction n sc arbitrary: g rule: list_induct2)
  case (Cons n ns s sc)
  have e: "vec_mul (n # ns) (s # sc) = n * s # vec_mul ns sc"
    "vec_add (vec_mul (x # b) (s # sc)) (y # t) = (x * s + y) # vec_add (vec_mul b sc) t" for x b y t
    by (simp_all add: vec_add_def vec_add_assign_def vec_mul_def vec_mul_assign_def)
  have d: "0 \<le> a \<and> a < n * s \<longleftrightarrow> (\<exists>x y. 0 \<le> x \<and> x < n \<and> 0 \<le> y \<and> y < s \<and> a = x * s + y)" for a
  proof
    assume a: "0 \<le> a \<and> a < n * s"
    have "a div s * s \<le> a" using Cons.prems by (simp add: minus_mod_eq_div_mult [symmetric])
    with a have "a div s * s < n * s" by simp
    then have "a div s < n" using Cons.prems by (simp add: mult_less_cancel_right)
    moreover have "0 \<le> a div s" "0 \<le> a mod s" "a mod s < s" "a = a div s * s + a mod s"
      using a Cons.prems by (simp_all add: pos_imp_zdiv_nonneg_iff)
    ultimately show "\<exists>x y. 0 \<le> x \<and> x < n \<and> 0 \<le> y \<and> y < s \<and> a = x * s + y" by blast
  next
    assume "\<exists>x y. 0 \<le> x \<and> x < n \<and> 0 \<le> y \<and> y < s \<and> a = x * s + y"
    then obtain x y where xy: "0 \<le> x" "x + 1 \<le> n" "0 \<le> y" "y < s" "a = x * s + y" by auto
    have "(x + 1) * s \<le> n * s" using xy by (intro mult_right_mono) auto
    with xy show "0 \<le> a \<and> a < n * s" by (simp add: algebra_simps)
  qed
  have IH: "q \<in> box (vec_mul ns sc) \<longleftrightarrow> (\<exists>b \<in> box ns. \<exists>t \<in> box sc. q = vec_add (vec_mul b sc) t)" for q
    using Cons.IH Cons.prems by simp
  have "g \<in> box (vec_mul (n # ns) (s # sc)) \<longleftrightarrow> (\<exists>a q. g = a # q \<and> (0 \<le> a \<and> a < n * s) \<and> q \<in> box (vec_mul ns sc))"
    unfolding e(1) box_Cons [of g] by blast
  also have "\<dots> \<longleftrightarrow> (\<exists>x b y t. g = (x * s + y) # vec_add (vec_mul b sc) t
      \<and> 0 \<le> x \<and> x < n \<and> 0 \<le> y \<and> y < s \<and> b \<in> box ns \<and> t \<in> box sc)" unfolding d IH by blast
  also have "\<dots> \<longleftrightarrow> (\<exists>b \<in> box (n # ns). \<exists>t \<in> box (s # sc). g = vec_add (vec_mul b (s # sc)) t)"
    by (fastforce simp: box_Cons e(2) Bex_def)
  finally show ?case .
qed (auto simp: vec_mul_def vec_mul_assign_def vec_add_def vec_add_assign_def)

lemma blockCells_distinct:
  assumes "distinct blocks" "\<forall>b \<in> set blocks. length b = length sc"
  shows "distinct (blockCells sc blocks)"
  using assms
proof (induction blocks)
  case (Cons b bs)
  have len: "length c = length sc" if "c \<in> set (b # bs)" for c using that Cons.prems(2) by auto
  have "inj_on (vec_add (vec_mul b sc)) (box sc)"
    using cell_digits [of _ sc _ b b] len by (fastforce simp: inj_on_def)
  moreover have "vec_add (vec_mul b sc) t \<noteq> vec_add (vec_mul c sc) u"
    if "t \<in> box sc" "u \<in> box sc" "c \<in> set bs" for t u c
    using cell_digits [OF that(1,2), of b c] len [of b] len [of c] that(3) Cons.prems(1) by auto
  then have "vec_add (vec_mul b sc) ` box sc \<inter> (\<Union>c \<in> set bs. vec_add (vec_mul c sc) ` box sc) = {}" by blast
  ultimately show ?case using Cons by (simp add: blockCells_def distinct_map distinct_boxList set_boxList image_Union)
qed (simp add: blockCells_def)

lemma blockCells_grid:
  assumes "length n = length sc" "\<forall>s \<in> set sc. 0 < s"
  shows "set (blockCells sc (boxList n)) = box (vec_mul n sc)" and "distinct (blockCells sc (boxList n))"
proof -
  show "set (blockCells sc (boxList n)) = box (vec_mul n sc)"
    using box_digits [OF assms] by (auto simp: blockCells_def set_boxList) blast
  show "distinct (blockCells sc (boxList n))"
    using assms(1) by (intro blockCells_distinct) (auto simp: distinct_boxList set_boxList box_def)
qed

lemma cell_block:
  assumes "t \<in> box sc" "length b = length sc" "d < length sc"
  shows "vec_add (vec_mul b sc) t ! d = b ! d * sc ! d + t ! d" "vec_add (vec_mul b sc) t ! d div sc ! d = b ! d"
    "vec_add (vec_mul b sc) t ! d mod sc ! d = t ! d"
proof -
  have t: "length t = length sc" "0 \<le> t ! d" "t ! d < sc ! d" using assms(1,3) by (auto simp: box_def)
  show e: "vec_add (vec_mul b sc) t ! d = b ! d * sc ! d + t ! d"
    using assms t by (simp add: vec_add_def vec_add_assign_def vec_mul_def vec_mul_assign_def)
  show "vec_add (vec_mul b sc) t ! d div sc ! d = b ! d" "vec_add (vec_mul b sc) t ! d mod sc ! d = t ! d" using t unfolding e by auto
qed

text \<open>The cells of a range of supercells are a range of cells.\<close>

lemma blockCells_range:
  assumes "set blocks = {b. length b = length sc \<and> (\<forall>d < length sc. lo d \<le> b ! d \<and> b ! d < hi d)}" "\<forall>s \<in> set sc. 0 < s"
  shows "g \<in> set (blockCells sc blocks) \<longleftrightarrow> length g = length sc \<and> (\<forall>d < length sc. lo d * sc ! d \<le> g ! d \<and> g ! d < hi d * sc ! d)"
proof
  assume "g \<in> set (blockCells sc blocks)"
  then obtain b t where b: "length b = length sc" "\<forall>d < length sc. lo d \<le> b ! d \<and> b ! d < hi d" and t: "t \<in> box sc"
    and g: "g = vec_add (vec_mul b sc) t" using assms(1) by (auto simp: blockCells_def set_boxList)
  have "lo d * sc ! d \<le> g ! d \<and> g ! d < hi d * sc ! d" if d: "d < length sc" for d
  proof -
    have s: "0 \<le> t ! d" "t ! d < sc ! d" using t d by (auto simp: box_def)
    have "lo d * sc ! d \<le> b ! d * sc ! d" "(b ! d + 1) * sc ! d \<le> hi d * sc ! d"
      using b(2) d s by (auto intro!: mult_right_mono)
    moreover have "(b ! d + 1) * sc ! d = b ! d * sc ! d + sc ! d" by (simp add: algebra_simps)
    ultimately show ?thesis using cell_block(1) [OF t b(1) d] s unfolding g by linarith
  qed
  then show "length g = length sc \<and> (\<forall>d < length sc. lo d * sc ! d \<le> g ! d \<and> g ! d < hi d * sc ! d)"
    using b(1) t by (simp add: g box_def vec_add_def vec_add_assign_def vec_mul_def vec_mul_assign_def)
next
  assume g: "length g = length sc \<and> (\<forall>d < length sc. lo d * sc ! d \<le> g ! d \<and> g ! d < hi d * sc ! d)"
  let ?b = "map (\<lambda>d. g ! d div sc ! d) [0..<length sc]" and ?t = "map (\<lambda>d. g ! d mod sc ! d) [0..<length sc]"
  have pos: "0 < sc ! d" if "d < length sc" for d using assms(2) that by simp
  have t: "?t \<in> box sc" using pos by (simp add: box_def)
  have eq: "vec_add (vec_mul ?b sc) ?t = g"
  proof (rule nth_equalityI)
    show "length (vec_add (vec_mul ?b sc) ?t) = length g"
      using g by (simp add: vec_add_def vec_add_assign_def vec_mul_def vec_mul_assign_def)
    fix d assume "d < length (vec_add (vec_mul ?b sc) ?t)"
    then have d: "d < length sc" by (simp add: vec_add_def vec_add_assign_def vec_mul_def vec_mul_assign_def)
    have "?b ! d = (g ! d) div (sc ! d)" "?t ! d = (g ! d) mod (sc ! d)" using d by simp_all
    then have "vec_add (vec_mul ?b sc) ?t ! d = (g ! d) div (sc ! d) * (sc ! d) + (g ! d) mod (sc ! d)"
      using cell_block(1) [OF t _ d, of ?b] by simp
    then show "vec_add (vec_mul ?b sc) ?t ! d = g ! d" by (simp only: div_mult_mod_eq)
  qed
  have "lo d \<le> g ! d div sc ! d \<and> g ! d div sc ! d < hi d" if d: "d < length sc" for d
  proof -
    have e: "g ! d = g ! d div sc ! d * sc ! d + g ! d mod sc ! d" using div_mult_mod_eq [of "g ! d" "sc ! d"] by (rule sym)
    have m: "0 \<le> g ! d mod sc ! d" "g ! d mod sc ! d < sc ! d" using pos [OF d] by simp_all
    have b: "lo d * sc ! d \<le> g ! d" "g ! d < hi d * sc ! d" using g d by simp_all
    have "(g ! d div sc ! d + 1) * sc ! d = g ! d div sc ! d * sc ! d + sc ! d" by (simp add: algebra_simps)
    then have "lo d * sc ! d < (g ! d div sc ! d + 1) * sc ! d" "g ! d div sc ! d * sc ! d < hi d * sc ! d"
      using b e m by linarith+
    then show ?thesis using pos [OF d] by (simp add: mult_less_cancel_right)
  qed
  then have "?b \<in> set blocks" using assms(1) by simp
  then have "vec_add (vec_mul ?b sc) ?t \<in> set (blockCells sc blocks)" using t by (auto simp: blockCells_def set_boxList)
  then show "g \<in> set (blockCells sc blocks)" unfolding eq .
qed

section \<open>Operations\<close>

definition functor_Add :: "real vec \<Rightarrow> real vec \<Rightarrow> real vec" where
  "functor_Add dst src = vec_add_assign dst src"

definition functor_Sub :: "real vec \<Rightarrow> real vec \<Rightarrow> real vec" where
  "functor_Sub dst src = vec_sub_assign dst src"

definition KernelCellwiseOperation ::
    "AreaType \<Rightarrow> MappingDescription \<Rightarrow> DataSpace \<Rightarrow> (real vec \<Rightarrow> real vec \<Rightarrow> real vec) \<Rightarrow> (DataSpace \<Rightarrow> int \<Rightarrow> real vec)
     \<Rightarrow> DataSpace \<Rightarrow> int \<Rightarrow> vectorField \<Rightarrow> DataSpace \<times> DataSpace \<Rightarrow> vectorField" where
  "KernelCellwiseOperation area mapper superCellSize opFunctor valFunctor totalCellOffset currentStep field idx =
     (case idx of (blockIndex, threadIndex) \<Rightarrow>
        let block = area_getSuperCellIndex area mapper blockIndex;
            blockCell = vec_mul block superCellSize;
            cell = vec_add blockCell threadIndex
        in writeVec field cell
             (opFunctor (readVec field cell) (valFunctor (vec_add (vec_add blockCell threadIndex) totalCellOffset) currentStep)))"

definition area_has_guard :: "AreaType \<Rightarrow> bool" where
  "area_has_guard area \<longleftrightarrow> area = GUARD \<or> area = CORE_BORDER_GUARD"

definition totalCellOffset ::
    "AreaType \<Rightarrow> MappingDescription \<Rightarrow> DataSpace \<Rightarrow> Env \<Rightarrow> int \<Rightarrow> DataSpace" where
  "totalCellOffset area m superCellSize env numSlides =
     (let off = sel_offset (localDomain (subGrid env));
          off = off[1 := i32 (yc off + u32 (numSlides * yc (sel_size (localDomain (subGrid env)))))]
      in if area_has_guard area then vec_sub_assign off (vec_mul_s superCellSize (guardingSuperCells m))
         else if area = CORE then vec_add_assign off (vec_mul_s superCellSize (borderSuperCells m))
         else off)"

definition CellwiseOperation ::
    "SimParams \<Rightarrow> Env \<Rightarrow> AreaType \<Rightarrow> MappingDescription \<Rightarrow> DataSpace \<Rightarrow> (real vec \<Rightarrow> real vec \<Rightarrow> real vec)
     \<Rightarrow> (DataSpace \<Rightarrow> int \<Rightarrow> real vec) \<Rightarrow> int \<Rightarrow> bool \<Rightarrow> MovingWindow \<times> vectorField \<Rightarrow> MovingWindow \<times> vectorField" where
  "CellwiseOperation par env area m superCellSize opFunctor valFunctor currentStep enabled st =
     (if \<not> enabled then st
      else case st of (window, field) \<Rightarrow>
        (case getSlideCounter par env currentStep window of
           (window, numSlides) \<Rightarrow>
             (window,
              foldl (KernelCellwiseOperation area m superCellSize opFunctor valFunctor
                      (totalCellOffset area m superCellSize env numSlides) currentStep) field
                (List.product (boxList (area_getGridDim area m)) (boxList superCellSize)))))"

section \<open>The operation cell by cell\<close>

lemma readVec_length [simp]: "length (readVec F g) = 3"
  by (simp add: readVec_def)

lemma foldl_cells:
  assumes "distinct cells" "\<And>F g. length (f F g) = 3" "\<And>F F' g. readVec F g = readVec F' g \<Longrightarrow> f F g = f F' g"
  shows "foldl (\<lambda>F g. writeVec F g (f F g)) F cells (h, c)
    = (if h \<in> set cells \<and> c < 3 then f F h ! c else F (h, c))"
  using assms(1)
proof (induction cells arbitrary: F)
  case (Cons g cells)
  have "readVec (writeVec F g v) h = readVec F h" if "h \<noteq> g" for v
    using that by (simp add: readVec_def writeVec_def)
  then have "f (writeVec F g (f F g)) h = f F h" if "h \<noteq> g" using assms(3) that by metis
  note f = this
  show ?case
  proof (cases "h \<in> set cells")
    case True
    then have "h \<noteq> g" using Cons.prems by auto
    then show ?thesis using True Cons f by (simp add: writeVec_def)
  next
    case False
    then show ?thesis using Cons by (simp add: writeVec_def)
  qed
qed simp

lemma product_cells:
  "map (\<lambda>(b, t). vec_add (vec_mul b sc) t) (List.product bs (boxList sc)) = blockCells sc bs"
  by (induction bs) (simp_all add: blockCells_def)

lemma foldl_map_cells:
  assumes "\<And>F x. G F x = H F (k x)"
  shows "foldl G F xs = foldl H F (map k xs)"
  using assms by (induction xs arbitrary: F) simp_all

lemma CellwiseOperation_whole:
  assumes "length (gridSuperCells m) = length sc" "\<forall>s \<in> set sc. 0 < s" "\<And>p. length (val p t) = 3" "\<And>a b. length a = 3 \<Longrightarrow> length b = 3 \<Longrightarrow> length (opf a b) = 3"
  shows "CellwiseOperation par env CORE_BORDER_GUARD m sc opf val t True (window, F)
    = (fst (getSlideCounter par env t window),
       \<lambda>(g, c). if g \<in> box (vec_mul (gridSuperCells m) sc) \<and> c < 3
          then opf (readVec F g) (val (vec_add g (totalCellOffset CORE_BORDER_GUARD m sc env (snd (getSlideCounter par env t window)))) t) ! c else F (g, c))"
proof -
  let ?off = "totalCellOffset CORE_BORDER_GUARD m sc env (snd (getSlideCounter par env t window))"
  let ?f = "\<lambda>F g. opf (readVec F g) (val (vec_add g ?off) t)"
  let ?idx = "List.product (boxList (gridSuperCells m)) (boxList sc)"
  have "foldl (KernelCellwiseOperation CORE_BORDER_GUARD m sc opf val ?off t) F ?idx
      = foldl (\<lambda>F g. writeVec F g (?f F g)) F (map (\<lambda>(b, t). vec_add (vec_mul b sc) t) ?idx)"
    by (rule foldl_map_cells) (simp add: KernelCellwiseOperation_def area_getSuperCellIndex_def AreaAll_getBlockIndex_def Let_def
        split: prod.splits)
  also have "\<dots> = (\<lambda>(g, c). if g \<in> box (vec_mul (gridSuperCells m) sc) \<and> c < 3 then ?f F g ! c else F (g, c))"
  proof -
    have "foldl (\<lambda>F g. writeVec F g (?f F g)) F (blockCells sc (boxList (gridSuperCells m))) (g, c)
        = (if g \<in> set (blockCells sc (boxList (gridSuperCells m))) \<and> c < 3 then ?f F g ! c else F (g, c))" for g c
      by (rule foldl_cells) (simp_all add: blockCells_grid [OF assms(1,2)] assms(3,4))
    then show ?thesis unfolding product_cells by (auto simp: fun_eq_iff blockCells_grid [OF assms(1,2)])
  qed
  finally show ?thesis
    by (simp add: CellwiseOperation_def area_getGridDim_def AreaAll_getGridDim_def case_prod_beta)
qed

lemma functor_length [simp]: "length (functor_Add a b) = min (length a) (length b)" "length (functor_Sub a b) = min (length a) (length b)"
  by (simp_all add: functor_Add_def functor_Sub_def vec_add_assign_def vec_sub_assign_def)

lemma functor_nth:
  assumes "length a = 3" "length b = 3" "c < 3"
  shows "functor_Add a b ! c = a ! c + b ! c" "functor_Sub a b ! c = a ! c - b ! c"
  using assms by (simp_all add: functor_Add_def functor_Sub_def vec_add_assign_def vec_sub_assign_def)

lemma readVec_nth [simp]: "c < 3 \<Longrightarrow> readVec F g ! c = F (g, c)"
  by (simp add: readVec_def)

section \<open>Backgrounds\<close>

text \<open>The background a cell of the local grid sees: the value functor at the cell's global position, shifted by the slides so far.\<close>

definition background ::
    "SimParams \<Rightarrow> Env \<Rightarrow> MappingDescription \<Rightarrow> DataSpace \<Rightarrow> (DataSpace \<Rightarrow> int \<Rightarrow> real vec) \<Rightarrow> int \<Rightarrow> bool \<Rightarrow> MovingWindow \<Rightarrow> vectorField" where
  "background par env m sc val t enabled window =
     (\<lambda>(g, c). if enabled \<and> g \<in> box (vec_mul (gridSuperCells m) sc) \<and> c < 3
        then val (vec_add g (totalCellOffset CORE_BORDER_GUARD m sc env (snd (getSlideCounter par env t window)))) t ! c else 0)"

definition observed :: "SimParams \<Rightarrow> Env \<Rightarrow> int \<Rightarrow> bool \<Rightarrow> MovingWindow \<Rightarrow> MovingWindow" where
  "observed par env t enabled window = (if enabled then fst (getSlideCounter par env t window) else window)"

lemma CellwiseOperation_background:
  assumes "length (gridSuperCells m) = length sc" "\<forall>s \<in> set sc. 0 < s" "\<And>p. length (val p t) = 3"
  shows "CellwiseOperation par env CORE_BORDER_GUARD m sc functor_Add val t enabled (window, F)
      = (observed par env t enabled window, \<lambda>r. F r + background par env m sc val t enabled window r)"
    and "CellwiseOperation par env CORE_BORDER_GUARD m sc functor_Sub val t enabled (window, F)
      = (observed par env t enabled window, \<lambda>r. F r - background par env m sc val t enabled window r)"
proof -
  show "CellwiseOperation par env CORE_BORDER_GUARD m sc functor_Add val t enabled (window, F)
      = (observed par env t enabled window, \<lambda>r. F r + background par env m sc val t enabled window r)"
    using CellwiseOperation_whole [where opf = functor_Add and val = val and t = t, OF assms, of par env window F]
    by (cases enabled) (auto simp: observed_def background_def fun_eq_iff functor_nth assms(3) CellwiseOperation_def)
  show "CellwiseOperation par env CORE_BORDER_GUARD m sc functor_Sub val t enabled (window, F)
      = (observed par env t enabled window, \<lambda>r. F r - background par env m sc val t enabled window r)"
    using CellwiseOperation_whole [where opf = functor_Sub and val = val and t = t, OF assms, of par env window F]
    by (cases enabled) (auto simp: observed_def background_def fun_eq_iff functor_nth assms(3) CellwiseOperation_def)
qed

lemma info_stable:
  "fst (getCurrentSlideInfo par env t (fst (getCurrentSlideInfo par env t w))) = fst (getCurrentSlideInfo par env t w)"
proof -
  let ?w = "fst (getCurrentSlideInfo par env t w)"
  have "slidingWindowActive ?w = slidingWindowActive w" by (simp add: info_state)
  then have "slideStep par env ?w t = slideStep par env w t" by (rule slideStep_cong)
  then show ?thesis by (auto simp: info_state incrementSlideCounter_def)
qed

lemma observed_stable [simp]:
  "observed par env t b (observed par env t True w) = observed par env t True w"
  "observed par env t True (observed par env t b w) = observed par env t True w"
  "observed par env t b (observed par env t b w) = observed par env t b w"
  using info_stable [of par env t w] by (auto simp: observed_def getSlideCounter_def split: prod.splits)

lemma background_observed [simp]:
  "background par env m sc val t enabled (observed par env t b window) = background par env m sc val t enabled window"
  using info_stable [of par env t window]
  by (auto simp: background_def observed_def getSlideCounter_def fun_eq_iff split: prod.splits)

end
