(* ===== verification/Absorber.thy ===== *)
theory Absorber
  imports ExchangeMaps BackgroundFields
begin

text \<open>
  Models the absorber of the outer boundaries: \<open>FieldManipulator::absorbBorder\<close>
  (src/picongpu/include/fields/FieldManipulator.hpp) and the kernel that damps the field in layers of supercells from the guard inwards
  (FieldManipulator.kernel). The distance to the inner end of the absorber is computed with \<open>uint32_t\<close>, as \<open>thickness\<close> is unsigned.
  Shown: the loop of the kernel ends, and the exact factor of every cell.
\<close>

section \<open>The kernel\<close>

definition absorbFactor :: "int \<Rightarrow> int \<Rightarrow> int \<Rightarrow> int \<Rightarrow> int \<Rightarrow> int" where
  "absorbFactor superCellSize gCells thickness direction cell =
     (if direction \<noteq> 0
      then (if direction < 0 then u32 (superCellSize + thickness - cell - 1) else u32 ((superCellSize + cell) - gCells + thickness))
      else 0)"

definition absorbThread :: "nat \<Rightarrow> DataSpace \<Rightarrow> DataSpace \<Rightarrow> int \<Rightarrow> real \<Rightarrow> DataSpace \<Rightarrow> vectorField \<Rightarrow> DataSpace \<Rightarrow> vectorField" where
  "absorbThread pos superCellSize gCells thickness absorber_strength direction field cell =
     (let factor = absorbFactor (superCellSize ! pos) (gCells ! pos) thickness (direction ! pos) (cell ! pos)
      in if factor \<le> 0 then field
         else let a = exp (- absorber_strength * real_of_int factor); tmp = readVec field cell
              in writeVec field cell [xc tmp * a, yc tmp * a, zc tmp * a])"

text \<open>The threads of a block run in step; the block stops as soon as one of its threads has passed the absorber.\<close>

partial_function (option) absorbLoop ::
    "nat \<Rightarrow> DataSpace \<Rightarrow> DataSpace \<Rightarrow> int \<Rightarrow> real \<Rightarrow> DataSpace \<Rightarrow> DataSpace list \<Rightarrow> vectorField \<Rightarrow> vectorField option" where
  "absorbLoop pos superCellSize gCells thickness absorber_strength direction cells field =
     (let cells = map (\<lambda>cell. cell[pos := cell ! pos + superCellSize ! pos * (direction ! pos * - 1)]) cells;
          field = foldl (absorbThread pos superCellSize gCells thickness absorber_strength direction) field cells
      in if \<exists>cell \<in> set cells. absorbFactor (superCellSize ! pos) (gCells ! pos) thickness (direction ! pos) (cell ! pos) \<le> 0
         then Some field
         else absorbLoop pos superCellSize gCells thickness absorber_strength direction cells field)"

definition absorb ::
    "nat \<Rightarrow> DataSpace \<Rightarrow> int \<Rightarrow> real \<Rightarrow> ExchangeMapping \<Rightarrow> DataSpace \<Rightarrow> DataSpace \<Rightarrow> vectorField \<Rightarrow> vectorField option" where
  "absorb pos superCellSize thickness absorber_strength mapper direction blockIndex field =
     (let superCellIdx = exchange_getSuperCellIndex GUARD mapper blockIndex;
          cells = map (\<lambda>threadIndex. vec_add (vec_mul superCellIdx superCellSize) threadIndex) (boxList superCellSize);
          gCells = vec_mul (gridSuperCells mapper) superCellSize
      in absorbLoop pos superCellSize gCells thickness absorber_strength direction cells field)"

text \<open>The branch for z is guarded by a macro that is defined nowhere, so it is not compiled.\<close>

definition KernelAbsorbBorder :: "DataSpace \<Rightarrow> int \<Rightarrow> real \<Rightarrow> ExchangeMapping \<Rightarrow> DataSpace \<Rightarrow> vectorField \<Rightarrow> vectorField option" where
  "KernelAbsorbBorder superCellSize thickness absorber_strength mapper blockIndex field =
     (let direction = getRelativeDirections (length superCellSize) (exchangeType mapper)
      in if xc direction \<noteq> 0 then absorb 0 superCellSize thickness absorber_strength mapper direction blockIndex field
         else if yc direction \<noteq> 0 then absorb 1 superCellSize thickness absorber_strength mapper direction blockIndex field
         else Some field)"

fun absorbBlocks :: "(DataSpace \<Rightarrow> vectorField \<Rightarrow> vectorField option) \<Rightarrow> DataSpace list \<Rightarrow> vectorField \<Rightarrow> vectorField option" where
  "absorbBlocks kern [] field = Some field"
| "absorbBlocks kern (b # blocks) field = Option.bind (kern b field) (absorbBlocks kern blocks)"

section \<open>absorbBorder\<close>

record AbsorberParams =
  ABSORBER_CELLS :: "nat \<Rightarrow> nat \<Rightarrow> int"
  ABSORBER_STRENGTH :: "nat \<Rightarrow> nat \<Rightarrow> real"
  laser_INIT_TIME :: real

definition absorbDirection ::
    "SimParams \<Rightarrow> AbsorberParams \<Rightarrow> Env \<Rightarrow> MappingDescription \<Rightarrow> DataSpace \<Rightarrow> int \<Rightarrow> bool \<Rightarrow> int \<Rightarrow> nat \<Rightarrow> vectorField \<Rightarrow> vectorField option" where
  "absorbDirection par ap env cellDescription superCellSize currentStep slidingActive numSlides i deviceBox =
     (if FRONT mod i = 0 \<and> \<not> isSet (getCommunicationMask env) i then
        let direction = 0; direction = (if i \<ge> BOTTOM \<and> TOP \<le> TOP then 1 else direction); direction = (if i \<ge> BACK then 2 else direction);
            pos_or_neg = i mod 2;
            thickness = ABSORBER_CELLS ap direction pos_or_neg;
            absorber_strength = ABSORBER_STRENGTH ap direction pos_or_neg
        in if thickness = 0 then Some deviceBox
           else if numSlides = 0 \<and> real_of_int currentStep * SimParams.DELTA_T par \<le> laser_INIT_TIME ap \<and> i = TOP then Some deviceBox
           else if slidingActive \<and> i = BOTTOM then Some deviceBox
           else let mapper = ExchangeMapping_of cellDescription i
                in absorbBlocks (KernelAbsorbBorder superCellSize thickness absorber_strength mapper) (boxList (exchange_getGridDim GUARD mapper)) deviceBox
      else Some deviceBox)"

fun absorbDirections :: "(nat \<Rightarrow> vectorField \<Rightarrow> vectorField option) \<Rightarrow> nat list \<Rightarrow> vectorField \<Rightarrow> vectorField option" where
  "absorbDirections f [] field = Some field"
| "absorbDirections f (i # is) field = Option.bind (f i field) (absorbDirections f is)"

definition absorbBorder ::
    "SimParams \<Rightarrow> AbsorberParams \<Rightarrow> Env \<Rightarrow> MappingDescription \<Rightarrow> DataSpace \<Rightarrow> int \<Rightarrow> MovingWindow \<Rightarrow> vectorField \<Rightarrow> (MovingWindow \<times> vectorField) option" where
  "absorbBorder par ap env cellDescription superCellSize currentStep window deviceBox =
     (case getSlideCounter par env currentStep window of (window, numSlides) \<Rightarrow>
        map_option (Pair window)
          (absorbDirections (absorbDirection par ap env cellDescription superCellSize currentStep (slidingWindowActive window) numSlides)
             [1..<3 ^ length superCellSize] deviceBox))"

section \<open>The layers of a block\<close>

lemma absorbLoop_layers:
  assumes "\<And>k cell. k < m \<Longrightarrow> cell \<in> set (lay (Suc k)) \<Longrightarrow> 0 < absorbFactor (sc ! pos) (gC ! pos) T (dir ! pos) (cell ! pos)"
    and "cell \<in> set (lay (Suc m))" "absorbFactor (sc ! pos) (gC ! pos) T (dir ! pos) (cell ! pos) \<le> 0"
    and "\<And>k. lay (Suc k) = map (\<lambda>cell. cell[pos := cell ! pos + sc ! pos * (dir ! pos * - 1)]) (lay k)"
  shows "absorbLoop pos sc gC T s dir (lay 0) F = Some (foldl (absorbThread pos sc gC T s dir) F (concat (map lay [1..<m + 2])))"
  using assms
proof (induction m arbitrary: lay F)
  case 0
  have "\<exists>cell \<in> set (lay 1). absorbFactor (sc ! pos) (gC ! pos) T (dir ! pos) (cell ! pos) \<le> 0" using "0.prems"(2,3) by auto
  then show ?case using absorbLoop.simps [of pos sc gC T s dir "lay 0" F, unfolded Let_def, folded "0.prems"(4) [of 0]] by (simp add: upt_rec)
next
  case (Suc m)
  have "\<not> (\<exists>cell \<in> set (lay 1). absorbFactor (sc ! pos) (gC ! pos) T (dir ! pos) (cell ! pos) \<le> 0)"
    using Suc.prems(1) [of 0] by fastforce
  then have "absorbLoop pos sc gC T s dir (lay 0) F = absorbLoop pos sc gC T s dir (lay 1) (foldl (absorbThread pos sc gC T s dir) F (lay 1))"
    using absorbLoop.simps [of pos sc gC T s dir "lay 0" F, unfolded Let_def, folded Suc.prems(4) [of 0]] by simp
  also have "\<dots> = Some (foldl (absorbThread pos sc gC T s dir) (foldl (absorbThread pos sc gC T s dir) F (lay 1)) (concat (map (\<lambda>k. lay (Suc k)) [1..<m + 2])))"
    unfolding One_nat_def
    by (rule Suc.IH [where lay = "\<lambda>k. lay (Suc k)", unfolded One_nat_def])
      (use Suc.prems(1) [of "Suc _"] in simp, rule Suc.prems(2), rule Suc.prems(3), rule Suc.prems(4))
  also have "map (\<lambda>k. lay (Suc k)) [1..<m + 2] = map lay [Suc 1..<Suc (m + 2)]"
    by (simp only: map_Suc_upt [symmetric] map_map comp_def)
  finally show ?case by (simp add: upt_conv_Cons del: upt_Suc)
qed

text \<open>
  The depth of a cell is its distance from the outermost cell of the border. With one guarding supercell the kernel reaches the
  supercells up to the one that holds the depth \<open>thickness - 1\<close>.
\<close>

definition depth :: "int \<Rightarrow> int \<Rightarrow> int \<Rightarrow> int \<Rightarrow> int" where
  "depth S gC dir x = (if dir < 0 then x - S else gC - S - 1 - x)"

lemma absorbFactor_depth: "dir \<noteq> 0 \<Longrightarrow> absorbFactor S gC T dir x = u32 (T - 1 - depth S gC dir x)"
  by (simp add: absorbFactor_def depth_def algebra_simps)

definition layerBlock :: "nat \<Rightarrow> DataSpace \<Rightarrow> DataSpace \<Rightarrow> nat \<Rightarrow> DataSpace" where
  "layerBlock pos dir b l = b[pos := b ! pos - dir ! pos * int l]"

lemma layerBlock_cells:
  assumes "pos < length sc" "length b = length sc"
  shows "map (\<lambda>cell. cell[pos := cell ! pos + sc ! pos * (dir ! pos * - 1)]) (map (\<lambda>t. vec_add (vec_mul (layerBlock pos dir b l) sc) t) (boxList sc))
    = map (\<lambda>t. vec_add (vec_mul (layerBlock pos dir b (Suc l)) sc) t) (boxList sc)"
proof -
  have "(vec_add (vec_mul (layerBlock pos dir b l) sc) t)[pos := vec_add (vec_mul (layerBlock pos dir b l) sc) t ! pos + sc ! pos * (dir ! pos * - 1)]
      = vec_add (vec_mul (layerBlock pos dir b (Suc l)) sc) t" if "t \<in> box sc" for t
    using that assms by (auto simp: layerBlock_def box_def vec_add_def vec_add_assign_def vec_mul_def vec_mul_assign_def nth_list_update
        algebra_simps intro!: nth_equalityI)
  then show ?thesis by (simp add: set_boxList)
qed

lemma absorb_block:
  assumes pos: "pos < length sc" "length b = length sc" "b = exchange_getSuperCellIndex GUARD mapper i" "\<forall>s \<in> set sc. 0 < s"
    and dir: "dir ! pos = - 1 \<and> b ! pos = 0 \<or> dir ! pos = 1 \<and> b ! pos = N - 1" "length (gridSuperCells mapper) = length sc" "gridSuperCells mapper ! pos = N"
    and T: "0 < T" "T < 2 ^ 31" "sc ! pos < 2 ^ 31"
  shows "absorb pos sc T s mapper dir i F
    = Some (foldl (absorbThread pos sc (vec_mul (gridSuperCells mapper) sc) T s dir) F
        (blockCells sc (map (layerBlock pos dir b) [1..<nat ((T - 1) div sc ! pos) + 2])))"
proof -
  let ?S = "sc ! pos" and ?gC = "vec_mul (gridSuperCells mapper) sc" and ?m = "nat ((T - 1) div sc ! pos)"
  let ?lay = "\<lambda>l. map (\<lambda>t. vec_add (vec_mul (layerBlock pos dir b l) sc) t) (boxList sc)"
  have S: "0 < ?S" using pos by simp
  have gC: "?gC ! pos = N * ?S" using dir pos by (simp add: vec_mul_def vec_mul_assign_def)
  have cell: "depth ?S (?gC ! pos) (dir ! pos) (vec_add (vec_mul (layerBlock pos dir b l) sc) t ! pos)
      = (int l - 1) * ?S + (if dir ! pos < 0 then t ! pos else ?S - 1 - t ! pos)" if "t \<in> box sc" for l t
    using that pos(1,2) dir(1) unfolding gC by (auto simp: depth_def layerBlock_def box_def vec_add_def vec_add_assign_def vec_mul_def vec_mul_assign_def algebra_simps)
  have m: "int ?m = (T - 1) div ?S" using T S by (simp add: pos_imp_zdiv_nonneg_iff)
  have T': "T - 1 = (T - 1) div ?S * ?S + (T - 1) mod ?S" by (rule div_mult_mod_eq [symmetric])
  have r: "0 \<le> (T - 1) mod ?S" "(T - 1) mod ?S < ?S" using S by simp_all
  have d0: "dir ! pos \<noteq> 0" using dir(1) by auto
  have T2: "T < 2147483648" using T(2) by simp
  have "absorbLoop pos sc ?gC T s dir (?lay 0) F = Some (foldl (absorbThread pos sc ?gC T s dir) F (concat (map ?lay [1..<?m + 2])))"
  proof (rule absorbLoop_layers)
    show "?lay (Suc k) = map (\<lambda>cell. cell[pos := cell ! pos + sc ! pos * (dir ! pos * - 1)]) (?lay k)" for k
      by (rule layerBlock_cells [OF pos(1,2), symmetric])
    let ?r = "(T - 1) mod ?S"
    let ?t = "(map (\<lambda>_. 0) sc)[pos := (if dir ! pos < 0 then ?r else ?S - 1 - ?r)]"
    have "0 \<le> (if dir ! pos < 0 then ?r else ?S - 1 - ?r)" "(if dir ! pos < 0 then ?r else ?S - 1 - ?r) < ?S" using r by (simp_all split: if_splits)
    then have t: "?t \<in> box sc" using pos(1,4) by (auto simp: box_def nth_list_update)
    then show "vec_add (vec_mul (layerBlock pos dir b (Suc ?m)) sc) ?t \<in> set (?lay (Suc ?m))" by (simp add: set_boxList)
    have "(if dir ! pos < 0 then ?t ! pos else ?S - 1 - ?t ! pos) = ?r" using pos(1) by simp
    then have "depth ?S (?gC ! pos) (dir ! pos) (vec_add (vec_mul (layerBlock pos dir b (Suc ?m)) sc) ?t ! pos) = T - 1"
      using T' m unfolding cell [OF t] by simp
    then show "absorbFactor ?S (?gC ! pos) T (dir ! pos) (vec_add (vec_mul (layerBlock pos dir b (Suc ?m)) sc) ?t ! pos) \<le> 0"
      using d0 by (simp add: absorbFactor_depth u32_def)
    show "0 < absorbFactor ?S (?gC ! pos) T (dir ! pos) (x ! pos)" if k: "k < ?m" and x: "x \<in> set (?lay (Suc k))" for k x
    proof -
      obtain t where t: "t \<in> box sc" "x = vec_add (vec_mul (layerBlock pos dir b (Suc k)) sc) t" using x by (auto simp: set_boxList)
      let ?u = "if dir ! pos < 0 then t ! pos else ?S - 1 - t ! pos"
      have "0 \<le> ?u" "?u < ?S" using t(1) pos(1) by (auto simp: box_def)
      moreover have "depth ?S (?gC ! pos) (dir ! pos) (x ! pos) = int k * ?S + ?u" unfolding t(2) cell [OF t(1)] by simp
      moreover have "(int k + 1) * ?S \<le> (T - 1) div ?S * ?S" using k m S by (intro mult_right_mono) auto
      moreover have "(int k + 1) * ?S = int k * ?S + ?S" "0 \<le> int k * ?S" using S by (auto simp: algebra_simps)
      ultimately have "0 < T - 1 - depth ?S (?gC ! pos) (dir ! pos) (x ! pos)" "T - 1 - depth ?S (?gC ! pos) (dir ! pos) (x ! pos) < 4294967296"
        using T' r T2 by linarith+
      then show ?thesis using d0 by (simp add: absorbFactor_depth u32_id)
    qed
  qed
  moreover have "layerBlock pos dir b 0 = b" by (simp add: layerBlock_def)
  ultimately show ?thesis using pos(3) by (simp add: absorb_def Let_def blockCells_def comp_def)
qed

section \<open>One direction\<close>

lemma absorbBlocks_foldl:
  assumes "\<And>i F. i \<in> set blocks \<Longrightarrow> kern i F = Some (foldl G F (cells i))"
  shows "absorbBlocks kern blocks F = Some (foldl G F (concat (map cells blocks)))"
  using assms by (induction blocks arbitrary: F) simp_all

lemma absorbThread_cells:
  assumes "distinct cells" "dir ! pos \<noteq> 0"
  shows "foldl (absorbThread pos sc gC T s dir) F cells (g, c)
    = (if g \<in> set cells \<and> c < 3 then F (g, c) * exp (- s * real_of_int (u32 (T - 1 - depth (sc ! pos) (gC ! pos) (dir ! pos) (g ! pos)))) else F (g, c))"
  using assms(1)
proof (induction cells arbitrary: F)
  case (Cons h cells)
  let ?f = "\<lambda>h. u32 (T - 1 - depth (sc ! pos) (gC ! pos) (dir ! pos) (h ! pos))"
  have "absorbThread pos sc gC T s dir F h (q, c) = (if q = h \<and> c < 3 then F (q, c) * exp (- s * real_of_int (?f h)) else F (q, c))" for q c
  proof (cases "?f h \<le> 0")
    case True
    then have "?f h = 0" using u32_range [of "T - 1 - depth (sc ! pos) (gC ! pos) (dir ! pos) (h ! pos)"] by linarith
    then show ?thesis using assms(2) by (simp add: absorbThread_def Let_def absorbFactor_depth)
  next
    case False
    then show ?thesis using assms(2)
      by (auto simp: absorbThread_def Let_def absorbFactor_depth writeVec_def readVec_def less_Suc_eq numeral_3_eq_3 numeral_2_eq_2)
  qed
  then show ?case using Cons by simp
qed simp

text \<open>The supercells that the kernel of a face reaches.\<close>

definition absorberBlocks :: "MappingDescription \<Rightarrow> DataSpace \<Rightarrow> nat \<Rightarrow> DataSpace \<Rightarrow> int \<Rightarrow> nat \<Rightarrow> DataSpace list" where
  "absorberBlocks m sc pos dir T ex =
     concat (map (\<lambda>i. map (layerBlock pos dir (exchange_getSuperCellIndex GUARD (ExchangeMapping_of m ex) i)) [1..<nat ((T - 1) div sc ! pos) + 2])
       (boxList (exchange_getGridDim GUARD (ExchangeMapping_of m ex))))"

text \<open>The cells they hold: the inner cells along the other axes, and whole layers up to the end of the absorber.\<close>

definition inAbsorber :: "MappingDescription \<Rightarrow> DataSpace \<Rightarrow> nat \<Rightarrow> int \<Rightarrow> int \<Rightarrow> DataSpace \<Rightarrow> bool" where
  "inAbsorber m sc pos dir T g \<longleftrightarrow> length g = length sc
     \<and> (\<forall>d < length sc. d \<noteq> pos \<longrightarrow> sc ! d \<le> g ! d \<and> g ! d < (gridSuperCells m ! d - 1) * sc ! d)
     \<and> 0 \<le> depth (sc ! pos) (gridSuperCells m ! pos * sc ! pos) dir (g ! pos)
     \<and> depth (sc ! pos) (gridSuperCells m ! pos * sc ! pos) dir (g ! pos) < ((T - 1) div sc ! pos + 1) * sc ! pos"

lemma blockCells_concat: "blockCells sc (concat bss) = concat (map (blockCells sc) bss)"
  by (induction bss) (simp_all add: blockCells_def)

lemma concat_product: "concat (map (\<lambda>x. map (h x) ys) xs) = map (\<lambda>(x, y). h x y) (List.product xs ys)"
  by (induction xs) simp_all

locale absorbed_face =
  fixes m :: MappingDescription and sc :: DataSpace and ex pos :: nat and \<delta> T :: int
  assumes wf: "mapping_wf m" "guardingSuperCells m = 1" "length (gridSuperCells m) = length sc" "\<forall>s \<in> set sc. 0 < s"
    and face: "pos < length sc" "\<delta> = - 1 \<or> \<delta> = 1" "relativeDigits (length sc) ex = (replicate (length sc) 0)[pos := \<delta>]" "0 < ex" "ex < 3 ^ length sc"
    and thickness: "0 < T" "T < 2 ^ 31" "sc ! pos < 2 ^ 31"
begin

abbreviation n :: DataSpace where "n \<equiv> gridSuperCells m"

abbreviation v :: DataSpace where "v \<equiv> (replicate (length sc) 0)[pos := \<delta>]"

definition layers :: int where "layers = (T - 1) div sc ! pos + 1"

lemma positive: "d < length sc \<Longrightarrow> 0 < sc ! d"
  using wf by simp

lemma layers_nat: "nat ((T - 1) div sc ! pos) + 2 = Suc (nat layers)" "0 < layers"
  using thickness positive [OF face(1)] by (simp_all add: layers_def pos_imp_zdiv_nonneg_iff nat_add_distrib add_pos_nonneg add.commute)

lemma grid: "exchange_getGridDim GUARD (ExchangeMapping_of m ex) = layersDim 0 1 n v"
  and index: "i \<in> box (layersDim 0 1 n v) \<Longrightarrow> exchange_getSuperCellIndex GUARD (ExchangeMapping_of m ex) i = layersPos 0 1 n v i"
  using exchange_scheme(1,2) [OF wf(1), of GUARD 0 1 ex] wf face by simp_all

lemma grid_nth:
  assumes "i \<in> box (layersDim 0 1 n v)" "d < length sc"
  shows "length i = length sc" "0 \<le> i ! d" "i ! d < (if d = pos then 1 else n ! d - 2)"
  using assms wf face by (auto simp: box_def layersDim_def layerDim_def nth_list_update)

lemma block_nth:
  assumes "i \<in> box (layersDim 0 1 n v)" "d < length sc"
  shows "layerBlock pos v (layersPos 0 1 n v i) l ! d
    = (if d = pos then (if \<delta> = 1 then n ! pos - 1 - int l else int l) else i ! d + 1)"
    and "length (layerBlock pos v (layersPos 0 1 n v i) l) = length sc"
  using grid_nth [OF assms] face wf(3) assms(2) by (auto simp: layerBlock_def layersPos_def layerPos_def nth_list_update)

lemma blocks_map:
  "absorberBlocks m sc pos v T ex = map (\<lambda>(i, l). layerBlock pos v (layersPos 0 1 n v i) l) (List.product (boxList (layersDim 0 1 n v)) [1..<Suc (nat layers)])"
  unfolding absorberBlocks_def grid layers_nat concat_product
  by (rule map_cong) (auto simp: index set_boxList)

lemma blocks_distinct: "distinct (absorberBlocks m sc pos v T ex)"
proof -
  have "i = j \<and> l = k" if i: "i \<in> box (layersDim 0 1 n v)" and j: "j \<in> box (layersDim 0 1 n v)"
    and eq: "layerBlock pos v (layersPos 0 1 n v i) l = layerBlock pos v (layersPos 0 1 n v j) k" for i j l k
  proof
    note I = grid_nth [OF i] and J = grid_nth [OF j]
    show "i = j"
    proof (rule nth_equalityI)
      show "length i = length j" using I(1) J(1) face(1) by simp
      fix d assume "d < length i"
      then have d: "d < length sc" using I(1) face(1) by simp
      show "i ! d = j ! d"
        using arg_cong [OF eq, of "\<lambda>b. b ! d"] I(2,3) [OF d] J(2,3) [OF d] unfolding block_nth [OF i d] block_nth [OF j d] by (cases "d = pos") simp_all
    qed
    show "l = k" using arg_cong [OF eq, of "\<lambda>b. b ! pos"] unfolding block_nth [OF i face(1)] block_nth [OF j face(1)] by (simp split: if_splits)
  qed
  then show ?thesis unfolding blocks_map by (auto simp: distinct_map distinct_product distinct_boxList set_boxList inj_on_def)
qed

definition lo :: "nat \<Rightarrow> int" where "lo d = (if d = pos \<and> \<delta> = 1 then n ! pos - 1 - layers else 1)"

definition hi :: "nat \<Rightarrow> int" where "hi d = (if d = pos \<and> \<delta> \<noteq> 1 then layers + 1 else n ! d - 1)"

lemma blocks_range: "set (absorberBlocks m sc pos v T ex) = {b. length b = length sc \<and> (\<forall>d < length sc. lo d \<le> b ! d \<and> b ! d < hi d)}"
proof (intro equalityI subsetI)
  fix b assume "b \<in> set (absorberBlocks m sc pos v T ex)"
  then obtain i l where i: "i \<in> box (layersDim 0 1 n v)" "1 \<le> l" "l \<le> nat layers" "b = layerBlock pos v (layersPos 0 1 n v i) l"
    unfolding blocks_map by (auto simp: set_boxList)
  have "lo d \<le> b ! d \<and> b ! d < hi d" if d: "d < length sc" for d
    using grid_nth [OF i(1) d] i(2,3) layers_nat(2) unfolding i(4) block_nth [OF i(1) d] by (auto simp: lo_def hi_def split: if_splits)
  then show "b \<in> {b. length b = length sc \<and> (\<forall>d < length sc. lo d \<le> b ! d \<and> b ! d < hi d)}"
    using block_nth(2) [OF i(1) face(1)] i(4) by simp
next
  fix b assume "b \<in> {b. length b = length sc \<and> (\<forall>d < length sc. lo d \<le> b ! d \<and> b ! d < hi d)}"
  then have b: "length b = length sc" "\<And>d. d < length sc \<Longrightarrow> lo d \<le> b ! d \<and> b ! d < hi d" by auto
  let ?i = "map (\<lambda>d. if d = pos then 0 else b ! d - 1) [0..<length sc]" and ?l = "nat (if \<delta> = 1 then n ! pos - 1 - b ! pos else b ! pos)"
  have bd: "1 \<le> b ! d \<and> b ! d < n ! d - 1" if "d < length sc" "d \<noteq> pos" for d using b(2) [OF that(1)] that(2) by (simp add: lo_def hi_def)
  have "?i ! d < layerDim 0 1 (n ! d) (v ! d) \<and> 0 \<le> ?i ! d" if "d < length sc" for d
    using that bd [OF that] face(1,2) by (auto simp: layerDim_def nth_list_update)
  then have i: "?i \<in> box (layersDim 0 1 n v)"
    using wf(3) by (auto simp: box_def layersDim_def)
  have l: "1 \<le> ?l" "?l \<le> nat layers" using b(2) [OF face(1)] by (auto simp: lo_def hi_def split: if_splits)
  have eq: "layerBlock pos v (layersPos 0 1 n v ?i) ?l = b"
  proof (rule nth_equalityI)
    show len: "length (layerBlock pos v (layersPos 0 1 n v ?i) ?l) = length b" using block_nth(2) [OF i face(1)] b(1) by simp
    fix d assume "d < length (layerBlock pos v (layersPos 0 1 n v ?i) ?l)"
    then have d: "d < length sc" using b(1) len by simp
    show "layerBlock pos v (layersPos 0 1 n v ?i) ?l ! d = b ! d"
      unfolding block_nth [OF i d] using d b(2) [OF d] by (auto simp: lo_def hi_def split: if_splits)
  qed
  have "(?i, ?l) \<in> set (List.product (boxList (layersDim 0 1 n v)) [1..<Suc (nat layers)])" using i l by (simp add: set_boxList less_Suc_eq_le del: upt_Suc)
  then have "layerBlock pos v (layersPos 0 1 n v ?i) ?l \<in> set (absorberBlocks m sc pos v T ex)"
    unfolding blocks_map set_map by (rule rev_image_eqI) simp
  then show "b \<in> set (absorberBlocks m sc pos v T ex)" unfolding eq .
qed

lemma cells_range: "g \<in> set (blockCells sc (absorberBlocks m sc pos v T ex)) \<longleftrightarrow> inAbsorber m sc pos \<delta> T g"
proof -
  let ?d = "depth (sc ! pos) (n ! pos * sc ! pos) \<delta> (g ! pos)"
  have pos: "lo pos * sc ! pos \<le> g ! pos \<and> g ! pos < hi pos * sc ! pos \<longleftrightarrow> 0 \<le> ?d \<and> ?d < layers * sc ! pos"
    using face(2)
  proof
    assume "\<delta> = 1"
    then have "lo pos * sc ! pos = n ! pos * sc ! pos - sc ! pos - layers * sc ! pos" "hi pos * sc ! pos = n ! pos * sc ! pos - sc ! pos"
      "?d = n ! pos * sc ! pos - sc ! pos - 1 - g ! pos" unfolding lo_def hi_def depth_def by (simp_all add: left_diff_distrib)
    then show ?thesis by linarith
  next
    assume "\<delta> = - 1"
    then have "lo pos * sc ! pos = sc ! pos" "hi pos * sc ! pos = layers * sc ! pos + sc ! pos" "?d = g ! pos - sc ! pos"
      unfolding lo_def hi_def depth_def by (simp_all add: distrib_right)
    then show ?thesis by linarith
  qed
  have other: "lo d * sc ! d = sc ! d" "hi d = n ! d - 1" if "d \<noteq> pos" for d using that by (simp_all add: lo_def hi_def)
  show ?thesis
    unfolding blockCells_range [OF blocks_range wf(4)] inAbsorber_def layers_def [symmetric] using face(1) pos other by metis
qed

lemma kernel_at:
  "\<exists>F'. absorbBlocks (\<lambda>i. absorb pos sc T s (ExchangeMapping_of m ex) v i) (boxList (exchange_getGridDim GUARD (ExchangeMapping_of m ex))) F = Some F'
     \<and> (\<forall>g c. F' (g, c) = (if inAbsorber m sc pos \<delta> T g \<and> c < 3
          then F (g, c) * exp (- s * real_of_int (u32 (T - 1 - depth (sc ! pos) (n ! pos * sc ! pos) \<delta> (g ! pos)))) else F (g, c)))"
proof -
  let ?m = "ExchangeMapping_of m ex" and ?gC = "vec_mul n sc"
  let ?B = "\<lambda>i. map (layerBlock pos v (exchange_getSuperCellIndex GUARD ?m i)) [1..<nat ((T - 1) div sc ! pos) + 2]"
  have n: "gridSuperCells ?m = n" by (simp add: ExchangeMapping_of_def MappingDescription.defs)
  have "absorb pos sc T s ?m v i F = Some (foldl (absorbThread pos sc ?gC T s v) F (blockCells sc (?B i)))"
    if "i \<in> set (boxList (exchange_getGridDim GUARD ?m))" for i F
  proof -
    have i: "i \<in> box (layersDim 0 1 n v)" using that by (simp add: grid set_boxList)
    have z: "layerBlock pos v (layersPos 0 1 n v i) 0 = layersPos 0 1 n v i" by (simp add: layerBlock_def)
    have "length (exchange_getSuperCellIndex GUARD ?m i) = length sc" using block_nth(2) [OF i face(1), of 0] by (simp add: z index [OF i])
    moreover have "v ! pos = - 1 \<and> exchange_getSuperCellIndex GUARD ?m i ! pos = 0 \<or> v ! pos = 1 \<and> exchange_getSuperCellIndex GUARD ?m i ! pos = n ! pos - 1"
      using block_nth(1) [OF i face(1), of 0] face(1,2) by (auto simp: z index [OF i])
    ultimately show ?thesis using absorb_block [OF face(1) _ refl wf(4) _ _ _ thickness, of ?m i v "n ! pos" s F] wf(3) by (simp add: n)
  qed
  then have "absorbBlocks (\<lambda>i. absorb pos sc T s ?m v i) (boxList (exchange_getGridDim GUARD ?m)) F
      = Some (foldl (absorbThread pos sc ?gC T s v) F (concat (map (\<lambda>i. blockCells sc (?B i)) (boxList (exchange_getGridDim GUARD ?m)))))"
    by (rule absorbBlocks_foldl)
  also have "concat (map (\<lambda>i. blockCells sc (?B i)) (boxList (exchange_getGridDim GUARD ?m))) = blockCells sc (absorberBlocks m sc pos v T ex)"
    unfolding absorberBlocks_def blockCells_concat map_map comp_def ..
  finally have "absorbBlocks (\<lambda>i. absorb pos sc T s ?m v i) (boxList (exchange_getGridDim GUARD ?m)) F
      = Some (foldl (absorbThread pos sc ?gC T s v) F (blockCells sc (absorberBlocks m sc pos v T ex)))" .
  moreover have "distinct (blockCells sc (absorberBlocks m sc pos v T ex))"
    using blocks_distinct blocks_range by (intro blockCells_distinct) auto
  moreover have "v ! pos = \<delta>" "\<delta> \<noteq> 0" "?gC ! pos = n ! pos * sc ! pos" using face wf(3) by (auto simp: vec_mul_def vec_mul_assign_def)
  ultimately show ?thesis using absorbThread_cells [of _ v pos sc ?gC T s F] by (simp add: cells_range)
qed

end

section \<open>Properties\<close>

definition absorbedFace :: "nat \<Rightarrow> nat \<Rightarrow> int \<Rightarrow> bool" where
  "absorbedFace ex pos \<delta> \<longleftrightarrow> (ex, pos, \<delta>) \<in> {(RIGHT, 0, 1), (LEFT, 0, - 1), (BOTTOM, 1, 1), (TOP, 1, - 1)}"

lemma face_digits:
  "relativeDigits 2 RIGHT = [1, 0]" "relativeDigits 2 LEFT = [- 1, 0]" "relativeDigits 2 BOTTOM = [0, 1]" "relativeDigits 2 TOP = [0, - 1]"
  "relativeDigits 3 RIGHT = [1, 0, 0]" "relativeDigits 3 LEFT = [- 1, 0, 0]" "relativeDigits 3 BOTTOM = [0, 1, 0]" "relativeDigits 3 TOP = [0, - 1, 0]"
  "relativeDigits 3 BACK = [0, 0, 1]" "relativeDigits 3 FRONT = [0, 0, - 1]" "replicate 2 (0 :: int) = [0, 0]" "replicate 3 (0 :: int) = [0, 0, 0]"
  by code_simp+

lemma absorbedFace_digits:
  assumes "absorbedFace ex pos \<delta>" "length sc = 2 \<or> length sc = 3"
  shows "relativeDigits (length sc) ex = (replicate (length sc) 0)[pos := \<delta>]" "0 < ex" "ex < 3 ^ length sc" "pos < length sc" "\<delta> = - 1 \<or> \<delta> = 1"
  using assms by (auto simp: absorbedFace_def face_digits) (auto simp: direction_defs)

lemma absorbed_faceI:
  assumes "mapping_wf m" "guardingSuperCells m = 1" "length (gridSuperCells m) = length sc" "\<forall>s \<in> set sc. 0 < s \<and> s < 2 ^ 31"
    and "absorbedFace ex pos \<delta>" "0 < T" "T < 2 ^ 31"
  shows "absorbed_face m sc ex pos \<delta> T"
proof -
  have l: "length sc = 2 \<or> length sc = 3" using assms(1,3) by (simp add: mapping_wf_def)
  show ?thesis using assms absorbedFace_digits [OF assms(5) l] by unfold_locales auto
qed

lemma kernel_face:
  assumes "mapping_wf m" "length (gridSuperCells m) = length sc" "absorbedFace ex pos \<delta>"
  shows "KernelAbsorbBorder sc T s (ExchangeMapping_of m ex) i F = absorb pos sc T s (ExchangeMapping_of m ex) ((replicate (length sc) 0)[pos := \<delta>]) i F"
proof -
  have l: "length sc = 2 \<or> length sc = 3" using assms(1,2) by (simp add: mapping_wf_def)
  then have "getRelativeDirections (length sc) ex = relativeDigits (length sc) ex" by (auto simp: directions_digits)
  then show ?thesis
    using absorbedFace_digits(1) [OF assms(3) l] assms(3) l by (auto simp: KernelAbsorbBorder_def Let_def absorbedFace_def face_digits)
qed

text \<open>
  Outer faces in z are not absorbed. The kernel started for FRONT or BACK leaves the field unchanged whatever
  thickness and strength are configured, since its branch for z depends on a misspelt macro.
\<close>

theorem absorber_ignores_z:
  assumes "ex = FRONT \<or> ex = BACK" "length sc = 3"
  shows "absorbBlocks (KernelAbsorbBorder sc T s (ExchangeMapping_of m ex)) blocks F = Some F"
proof -
  have "KernelAbsorbBorder sc T s (ExchangeMapping_of m ex) i G = Some G" for i G
    using assms by (auto simp: KernelAbsorbBorder_def Let_def directions_digits face_digits)
  then show ?thesis by (induction blocks) simp_all
qed

text \<open>
  C21. The absorber of the faces in x and y has the intended profile when its thickness is a multiple of the supercell, and the faces in z have
  none. The kernel of an outer face in x or y ends; it multiplies every cell of the border at depth \<open>k\<close> below the thickness by
  \<open>exp (- strength * (thickness - 1 - k))\<close>, so the damping decreases from the outer boundary to none at the inner
  end, and leaves every other cell as it is. In three dimensions the kernels of FRONT and BACK end too, but leave every cell as it is,
  since the branch for z is not compiled.
\<close>

theorem absorber_profile:
  assumes "mapping_wf m" "guardingSuperCells m = 1" "length (gridSuperCells m) = length sc" "\<forall>s \<in> set sc. 0 < s \<and> s < 2 ^ 31"
    and "absorbedFace ex pos \<delta>" "0 < T" "T < 2 ^ 31" "sc ! pos dvd T"
  shows "\<exists>F'. absorbBlocks (KernelAbsorbBorder sc T s (ExchangeMapping_of m ex)) (boxList (exchange_getGridDim GUARD (ExchangeMapping_of m ex))) F = Some F'
    \<and> (\<forall>g c. F' (g, c) = (let k = depth (sc ! pos) (gridSuperCells m ! pos * sc ! pos) \<delta> (g ! pos) in
        if length g = length sc \<and> (\<forall>d < length sc. d \<noteq> pos \<longrightarrow> sc ! d \<le> g ! d \<and> g ! d < (gridSuperCells m ! d - 1) * sc ! d) \<and> 0 \<le> k \<and> k < T \<and> c < 3
        then F (g, c) * exp (- s * real_of_int (T - 1 - k)) else F (g, c)))
    \<and> (length sc = 3 \<longrightarrow> (\<forall>ez \<in> {FRONT, BACK}.
        absorbBlocks (KernelAbsorbBorder sc T s (ExchangeMapping_of m ez)) (boxList (exchange_getGridDim GUARD (ExchangeMapping_of m ez))) F = Some F))"
proof -
  note f = absorbed_faceI [OF assms(1-7)]
  have l: "length sc = 2 \<or> length sc = 3" using assms(1,3) by (simp add: mapping_wf_def)
  have S: "0 < sc ! pos" using assms(4) absorbedFace_digits(4) [OF assms(5) l] by simp
  obtain q where q: "T = sc ! pos * q" using assms(8) by (elim dvdE)
  have "(T - 1) div sc ! pos = q - 1"
    using S by (intro int_div_pos_eq [where r = "sc ! pos - 1"]) (simp_all add: q algebra_simps)
  then have e: "((T - 1) div sc ! pos + 1) * sc ! pos = T" by (simp add: q mult.commute)
  have u: "u32 (T - 1 - k) = T - 1 - k" if "0 \<le> k" "k < T" for k using that assms(7) by (intro u32_id) auto
  show ?thesis
    using absorbed_face.kernel_at [OF f, of s F] absorber_ignores_z unfolding kernel_face [OF assms(1,3,5)] inAbsorber_def e Let_def
    by (elim ex_forward) (auto simp: u)
qed

text \<open>
  C39. If the thickness is not a multiple of the supercell, the subtraction wraps. The kernel of a face in x or y still ends and damps the
  cells of the absorber as intended, but the last layer of supercells holds cells behind the absorber, at least one along the axis of the face, and these are
  damped as well: by \<open>exp (- strength * (2 ^ 32 - 1 - j))\<close> at depth \<open>thickness + j\<close>, which is zero in practice. All other cells keep their values.
\<close>

theorem absorber_wraps:
  assumes "mapping_wf m" "guardingSuperCells m = 1" "length (gridSuperCells m) = length sc" "\<forall>s \<in> set sc. 0 < s \<and> s < 2 ^ 31"
    and "absorbedFace ex pos \<delta>" "0 < T" "T < 2 ^ 31" "\<not> sc ! pos dvd T"
  shows "T < ((T - 1) div sc ! pos + 1) * sc ! pos
    \<and> (\<exists>F'. absorbBlocks (KernelAbsorbBorder sc T s (ExchangeMapping_of m ex)) (boxList (exchange_getGridDim GUARD (ExchangeMapping_of m ex))) F = Some F'
      \<and> (\<forall>g c. F' (g, c) = (let k = depth (sc ! pos) (gridSuperCells m ! pos * sc ! pos) \<delta> (g ! pos) in
          if length g = length sc \<and> (\<forall>d < length sc. d \<noteq> pos \<longrightarrow> sc ! d \<le> g ! d \<and> g ! d < (gridSuperCells m ! d - 1) * sc ! d)
             \<and> 0 \<le> k \<and> k < ((T - 1) div sc ! pos + 1) * sc ! pos \<and> c < 3
          then F (g, c) * exp (- s * real_of_int (if k < T then T - 1 - k else 2 ^ 32 - 1 - (k - T))) else F (g, c))))"
proof
  note f = absorbed_faceI [OF assms(1-7)]
  let ?S = "sc ! pos" and ?last = "((T - 1) div sc ! pos + 1) * sc ! pos"
  have l: "length sc = 2 \<or> length sc = 3" using assms(1,3) by (simp add: mapping_wf_def)
  have S: "0 < ?S" "?S < 2 ^ 31" using assms(4) absorbedFace_digits(4) [OF assms(5) l] by simp_all
  have T: "0 \<le> (T - 1) mod ?S" "(T - 1) mod ?S < ?S" using S(1) by simp_all
  have e: "?last = T - 1 - (T - 1) mod ?S + ?S" using div_mult_mod_eq [of "T - 1" ?S] by (simp add: distrib_right)
  have "T \<noteq> ?last" using assms(8) by (metis dvd_triv_right)
  then show "T < ?last" using T(2) e by linarith
  have u: "u32 (T - 1 - k) = (if k < T then T - 1 - k else 2 ^ 32 - 1 - (k - T))" if "0 \<le> k" "k < ?last" for k
  proof (cases "k < T")
    case True
    then show ?thesis using that assms(7) by (simp add: u32_id)
  next
    case False
    have "k - T < 2 ^ 31" using that e T(1) S(2) by linarith
    then have "u32 (T - 1 - k + 2 ^ 32) = T - 1 - k + 2 ^ 32" using False by (intro u32_id) simp_all
    moreover have "u32 (T - 1 - k + 2 ^ 32) = u32 (T - 1 - k)" by (simp only: u32_def mod_add_self2)
    ultimately show ?thesis using False by simp
  qed
  show "\<exists>F'. absorbBlocks (KernelAbsorbBorder sc T s (ExchangeMapping_of m ex)) (boxList (exchange_getGridDim GUARD (ExchangeMapping_of m ex))) F = Some F'
      \<and> (\<forall>g c. F' (g, c) = (let k = depth (sc ! pos) (gridSuperCells m ! pos * sc ! pos) \<delta> (g ! pos) in
          if length g = length sc \<and> (\<forall>d < length sc. d \<noteq> pos \<longrightarrow> sc ! d \<le> g ! d \<and> g ! d < (gridSuperCells m ! d - 1) * sc ! d)
             \<and> 0 \<le> k \<and> k < ?last \<and> c < 3
          then F (g, c) * exp (- s * real_of_int (if k < T then T - 1 - k else 2 ^ 32 - 1 - (k - T))) else F (g, c)))"
    using absorbed_face.kernel_at [OF f, of s F] unfolding kernel_face [OF assms(1,3,5)] inAbsorber_def Let_def
    by (elim ex_forward) (auto simp: u)
qed

text \<open>A process with neighbours on all sides absorbs nothing.\<close>

lemma absorbBorder_inner:
  assumes "\<forall>i. isSet (getCommunicationMask env) i \<or> i = 0 \<or> 3 ^ length sc \<le> i"
  shows "absorbBorder par ap env m sc t window F = Some (fst (getSlideCounter par env t window), F)"
proof -
  have "absorbDirections (absorbDirection par ap env m sc t a n) is F = Some F" if "\<forall>i \<in> set is. isSet (getCommunicationMask env) i" for "is" a n
    using that by (induction "is") (auto simp: absorbDirection_def)
  moreover have "\<forall>i \<in> set [1..<3 ^ length sc]. isSet (getCommunicationMask env) i" using assms by force
  ultimately show ?thesis by (simp add: absorbBorder_def case_prod_unfold)
qed

definition sampleArea :: MappingDescription where
  "sampleArea = \<lparr>gridSuperCells = [8, 8], guardingSuperCells = 1, borderSuperCells = 1\<rparr>"

lemma sampleArea_ok: "mapping_wf sampleArea" "guardingSuperCells sampleArea = 1" "gridSuperCells sampleArea = [8, 8]"
  by (simp_all add: sampleArea_def mapping_wf_def)

theorem absorber_profile_witness:
  "\<exists>F'. absorbBlocks (KernelAbsorbBorder [8, 8] 16 (1 / 1000) (ExchangeMapping_of sampleArea LEFT))
        (boxList (exchange_getGridDim GUARD (ExchangeMapping_of sampleArea LEFT))) (\<lambda>_. 2) = Some F'
     \<and> F' ([8, 20], 0) = 2 * exp (- 15 / 1000) \<and> F' ([23, 20], 1) = 2 \<and> F' ([24, 20], 1) = 2"
proof -
  obtain F' where F': "absorbBlocks (KernelAbsorbBorder [8, 8] 16 (1 / 1000) (ExchangeMapping_of sampleArea LEFT))
        (boxList (exchange_getGridDim GUARD (ExchangeMapping_of sampleArea LEFT))) (\<lambda>_. 2) = Some F'"
    and at: "\<And>g c. F' (g, c) = (let k = depth ([8, 8] ! 0) (gridSuperCells sampleArea ! 0 * [8, 8] ! 0) (- 1) (g ! 0) in
        if length g = length [8, 8 :: int] \<and> (\<forall>d < length [8, 8 :: int]. d \<noteq> 0 \<longrightarrow> [8, 8] ! d \<le> g ! d \<and> g ! d < (gridSuperCells sampleArea ! d - 1) * [8, 8] ! d) \<and> 0 \<le> k \<and> k < 16 \<and> c < 3
        then 2 * exp (- (1 / 1000) * real_of_int (16 - 1 - k)) else 2)"
    using absorber_profile [of sampleArea "[8, 8]" LEFT 0 "- 1" 16 "1 / 1000" "\<lambda>_. 2"] by (auto simp: sampleArea_ok absorbedFace_def)
  show ?thesis using F' by (intro exI [of _ F']) (simp add: at sampleArea_ok depth_def less_Suc_eq)
qed

theorem absorber_wraps_witness:
  "\<exists>F'. absorbBlocks (KernelAbsorbBorder [8, 8] 12 (1 / 1000) (ExchangeMapping_of sampleArea LEFT))
        (boxList (exchange_getGridDim GUARD (ExchangeMapping_of sampleArea LEFT))) (\<lambda>_. 2) = Some F'
     \<and> F' ([8, 20], 0) = 2 * exp (- 11 / 1000) \<and> F' ([20, 20], 0) = 2 * exp (- (1 / 1000) * (2 ^ 32 - 1))
     \<and> F' ([23, 20], 0) = 2 * exp (- (1 / 1000) * (2 ^ 32 - 4)) \<and> F' ([24, 20], 0) = 2"
proof -
  obtain F' where F': "absorbBlocks (KernelAbsorbBorder [8, 8] 12 (1 / 1000) (ExchangeMapping_of sampleArea LEFT))
        (boxList (exchange_getGridDim GUARD (ExchangeMapping_of sampleArea LEFT))) (\<lambda>_. 2) = Some F'"
    and at: "\<And>g c. F' (g, c) = (let k = depth ([8, 8] ! 0) (gridSuperCells sampleArea ! 0 * [8, 8] ! 0) (- 1) (g ! 0) in
        if length g = length [8, 8 :: int] \<and> (\<forall>d < length [8, 8 :: int]. d \<noteq> 0 \<longrightarrow> [8, 8] ! d \<le> g ! d \<and> g ! d < (gridSuperCells sampleArea ! d - 1) * [8, 8] ! d)
           \<and> 0 \<le> k \<and> k < ((12 - 1) div [8, 8] ! 0 + 1) * [8, 8] ! 0 \<and> c < 3
        then 2 * exp (- (1 / 1000) * real_of_int (if k < 12 then 12 - 1 - k else 2 ^ 32 - 1 - (k - 12))) else 2)"
    using absorber_wraps [of sampleArea "[8, 8]" LEFT 0 "- 1" 12 "1 / 1000" "\<lambda>_. 2"] by (auto simp: sampleArea_ok absorbedFace_def)
  show ?thesis using F' by (intro exI [of _ F']) (simp add: at sampleArea_ok depth_def less_Suc_eq)
qed

theorem absorber_ignores_z_witness:
  "absorbBlocks (KernelAbsorbBorder [8, 8, 4] 32 (1 / 1000) (ExchangeMapping_of \<lparr>gridSuperCells = [8, 8, 8], guardingSuperCells = 1, borderSuperCells = 1\<rparr> BACK)) [[0, 0, 0]] (\<lambda>_. 2) = Some (\<lambda>_. 2)"
  by (rule absorber_ignores_z) simp_all

interpretation sampleFace: absorbed_face sampleArea "[8, 8]" LEFT 0 "- 1" 32
  by (rule absorbed_faceI) (simp_all add: sampleArea_ok absorbedFace_def)

end
