(* ===== verification/YeeStep.thy ===== *)
theory YeeStep
  imports GuardExchange Absorber
begin

text \<open>
  Models how \<open>YeeSolver\<close> (src/picongpu/include/fields/MaxwellSolver/Yee/YeeSolver.hpp) runs its kernels together with the
  communication of the guards: \<open>update_beforeCurrent\<close> and \<open>update_afterCurrent\<close> start the exchange of one field, update
  the other one in CORE while the exchange is running, and in BORDER when it has ended. Shown: for every interleaving of
  the threads of CORE with the tasks of the exchange on all processes, the fields of the processes of a periodic grid are, cell by
  cell, what one solver computes on the whole grid.
\<close>

section \<open>The cells of an area\<close>

definition areaKernelCells :: "AreaType \<Rightarrow> MappingDescription \<Rightarrow> DataSpace \<Rightarrow> DataSpace list" where
  "areaKernelCells area m superCellSize = blockCells superCellSize (map (area_getSuperCellIndex area m) (boxList (area_getGridDim area m)))"

lemma area_blocks:
  assumes "mapping_wf m"
  shows "set (map (area_getSuperCellIndex area m) (boxList (area_getGridDim area m))) = areaCells area m"
    and "distinct (map (area_getSuperCellIndex area m) (boxList (area_getGridDim area m)))"
  using area_bij [OF assms, of area] by (auto simp: bij_betw_def set_boxList distinct_map distinct_boxList)

lemma inner_box_range:
  "inner_box n k = {b. length b = length n \<and> (\<forall>d < length n. k \<le> b ! d \<and> b ! d < n ! d - k)}"
  by (simp add: inner_box_def)

definition innerCells :: "MappingDescription \<Rightarrow> DataSpace \<Rightarrow> int \<Rightarrow> DataSpace \<Rightarrow> bool" where
  "innerCells m sc k g \<longleftrightarrow> length g = length sc \<and> (\<forall>d < length sc. k * sc ! d \<le> g ! d \<and> g ! d < (gridSuperCells m ! d - k) * sc ! d)"

locale area_kernels =
  fixes m :: MappingDescription and sc :: DataSpace
  assumes wf: "mapping_wf m" "length (gridSuperCells m) = length sc" "\<forall>s \<in> set sc. 0 < s"
begin

lemma areaCells_length: "b \<in> areaCells area m \<Longrightarrow> length b = length sc"
  using wf(2) by (cases area) (auto simp: areaCells_def Let_def inner_box_def)

lemma area_distinct: "distinct (areaKernelCells area m sc)"
  unfolding areaKernelCells_def using area_blocks [OF wf(1), of area] areaCells_length
  by (intro blockCells_distinct) auto

lemma inner_cells:
  assumes "set blocks = inner_box (gridSuperCells m) k"
  shows "g \<in> set (blockCells sc blocks) \<longleftrightarrow> innerCells m sc k g"
  using blockCells_range [of blocks sc "\<lambda>d. k" "\<lambda>d. gridSuperCells m ! d - k" g] assms wf(2,3)
  by (simp add: innerCells_def inner_box_range)

lemma core_cells: "g \<in> set (areaKernelCells CORE m sc) \<longleftrightarrow> innerCells m sc (guardingSuperCells m + borderSuperCells m) g"
  and core_border_cells: "g \<in> set (areaKernelCells CORE_BORDER m sc) \<longleftrightarrow> innerCells m sc (guardingSuperCells m) g"
  unfolding areaKernelCells_def
  by (rule inner_cells; simp only: area_blocks(1) [OF wf(1)] areaCells_def Let_def AreaType.case)+

lemma border_cells: "g \<in> set (areaKernelCells BORDER m sc) \<longleftrightarrow> g \<in> set (areaKernelCells CORE_BORDER m sc) \<and> g \<notin> set (areaKernelCells CORE m sc)"
proof -
  have mem: "g \<in> set (areaKernelCells area m sc) \<longleftrightarrow> (\<exists>b \<in> areaCells area m. \<exists>t \<in> box sc. g = vec_add (vec_mul b sc) t)" for area
  proof -
    have B: "set (blockCells sc bs) = (\<Union>b \<in> set bs. vec_add (vec_mul b sc) ` box sc)" for bs by (auto simp: blockCells_def set_boxList)
    have "set (areaKernelCells area m sc) = (\<Union>b \<in> areaCells area m. vec_add (vec_mul b sc) ` box sc)"
      unfolding areaKernelCells_def B area_blocks(1) [OF wf(1)] ..
    then show ?thesis by blast
  qed
  have eq: "areaCells BORDER m = areaCells CORE_BORDER m - areaCells CORE m" by (simp add: areaCells_def Let_def)
  show ?thesis
  proof
    assume "g \<in> set (areaKernelCells BORDER m sc)"
    then obtain b t where b: "b \<in> areaCells CORE_BORDER m" "b \<notin> areaCells CORE m" "t \<in> box sc" "g = vec_add (vec_mul b sc) t"
      unfolding mem eq by auto
    then have "g \<notin> set (areaKernelCells CORE m sc)" unfolding mem using cell_digits areaCells_length by metis
    then show "g \<in> set (areaKernelCells CORE_BORDER m sc) \<and> g \<notin> set (areaKernelCells CORE m sc)" using b unfolding mem by blast
  next
    assume "g \<in> set (areaKernelCells CORE_BORDER m sc) \<and> g \<notin> set (areaKernelCells CORE m sc)"
    then show "g \<in> set (areaKernelCells BORDER m sc)" unfolding mem eq by blast
  qed
qed

lemma core_neighbours:
  assumes "g \<in> set (areaKernelCells CORE m sc)" "1 \<le> borderSuperCells m" "d < length sc" "\<sigma> = - 1 \<or> \<sigma> = 1"
  shows "g \<in> set (areaKernelCells CORE_BORDER m sc)" "g[d := g ! d + \<sigma>] \<in> set (areaKernelCells CORE_BORDER m sc)"
proof -
  let ?k = "guardingSuperCells m" and ?b = "borderSuperCells m"
  have g: "length g = length sc" "\<And>e. e < length sc \<Longrightarrow> (?k + ?b) * sc ! e \<le> g ! e \<and> g ! e < (gridSuperCells m ! e - (?k + ?b)) * sc ! e"
    using assms(1) unfolding core_cells innerCells_def by auto
  have s: "?k * sc ! e + 1 \<le> (?k + ?b) * sc ! e" "(gridSuperCells m ! e - (?k + ?b)) * sc ! e + 1 \<le> (gridSuperCells m ! e - ?k) * sc ! e" if "e < length sc" for e
  proof -
    have "0 < sc ! e" using wf(3) that by simp
    then have "1 \<le> ?b * sc ! e" using assms(2) mult_mono [of 1 ?b 1 "sc ! e"] by simp
    then show "?k * sc ! e + 1 \<le> (?k + ?b) * sc ! e" "(gridSuperCells m ! e - (?k + ?b)) * sc ! e + 1 \<le> (gridSuperCells m ! e - ?k) * sc ! e"
      by (simp_all add: algebra_simps)
  qed
  have near: "?k * sc ! e + 1 \<le> g ! e" "g ! e + 1 < (gridSuperCells m ! e - ?k) * sc ! e" if "e < length sc" for e
    using g(2) [OF that] s [OF that] by linarith+
  have "?k * sc ! e \<le> g ! e \<and> g ! e < (gridSuperCells m ! e - ?k) * sc ! e" if "e < length sc" for e using near [OF that] by linarith
  moreover have "?k * sc ! e \<le> g[d := g ! d + \<sigma>] ! e \<and> g[d := g ! d + \<sigma>] ! e < (gridSuperCells m ! e - ?k) * sc ! e" if "e < length sc" for e
    using near [OF that] assms(4) g(1) that by (cases "e = d") auto
  ultimately show "g \<in> set (areaKernelCells CORE_BORDER m sc)" "g[d := g ! d + \<sigma>] \<in> set (areaKernelCells CORE_BORDER m sc)"
    unfolding core_border_cells innerCells_def using g(1) by auto
qed

end

section \<open>Neighbours in the process grid\<close>

context cart_topology
begin

lemma neighbour_coordinates:
  assumes wf: "comm_wf DIM a" "comm_wf DIM b" "sameGrid a b" and ext: "extent = take DIM (dims a)" "periods = take DIM (periodic a)"
    and r: "0 \<le> r" "r < prod_list extent" and ex: "0 < ex" "ex < 3 ^ DIM"
    and m: "isSet (communicationMask (updateCoordinates cart_coords cart_rank DIM r a)) ex"
    and r': "r' = ExchangeTypeToRank (updateCoordinates cart_coords cart_rank DIM r a) ex"
  shows "coordinates (updateCoordinates cart_coords cart_rank DIM r' b)
      = wrapCoords extent (vec_add (coordinates (updateCoordinates cart_coords cart_rank DIM r a)) (relativeDigits DIM ex))"
    and "coordinates (updateCoordinates cart_coords cart_rank DIM r a) \<in> box extent"
proof -
  have same: "logicalCoords b c = logicalCoords a c" "dims b = dims a" for c using wf(3) by (simp_all add: sameGrid_def logicalCoords_def)
  define L n where "L = logicalCoords a (cart_coords r)" and "n = vec_add L (relativeDigits DIM ex)"
  have c: "cart_coords r \<in> box extent" using coords_in [OF r] .
  have L: "L \<in> box extent" using physical_logical(1) [OF wf(1)] c ext by (simp add: L_def)
  note Ta = updateCoordinates_table [where cart_coords = cart_coords and rank = r and cart_rank = cart_rank, OF wf(1) c [unfolded ext]]
  show "coordinates (updateCoordinates cart_coords cart_rank DIM r a) \<in> box extent" using L Ta(2) by (simp add: L_def)
  have ok: "neighbourExists DIM a n" using m ex Ta(5) by (simp add: n_def L_def)
  have "length n = DIM" using L comm_wf_extent(1) [OF wf(1)] ext by (simp add: n_def box_def vec_add_def vec_add_assign_def)
  note N = rank_of_neighbour [OF wf(1) ext this ok]
  have P: "physicalCoords a (wrapCoords extent n) \<in> box extent" "logicalCoords a (physicalCoords a (wrapCoords extent n)) = wrapCoords extent n"
    using physical_logical(2) [OF wf(1)] N ext by simp_all
  have "r' = cart_rank (physicalCoords a (wrapCoords extent n))"
    using r' ex Ta(4) ok N by (simp add: ExchangeTypeToRank_def Let_def n_def [symmetric] L_def [symmetric])
  then have c': "cart_coords r' = physicalCoords a (wrapCoords extent n)" using coords_rank [OF P(1)] by simp
  have cb: "cart_coords r' \<in> box (take DIM (dims b))" using P(1) ext by (simp add: c' same)
  show "coordinates (updateCoordinates cart_coords cart_rank DIM r' b)
      = wrapCoords extent (vec_add (coordinates (updateCoordinates cart_coords cart_rank DIM r a)) (relativeDigits DIM ex))"
    using updateCoordinates_table(2) [where cart_coords = cart_coords and rank = r' and cart_rank = cart_rank, OF wf(2) cb]
    unfolding same c' P(2) Ta(2) L_def [symmetric] n_def [symmetric] .
qed

end

section \<open>The local grids as parts of the whole\<close>

definition faceCode :: "nat \<Rightarrow> nat \<Rightarrow> int \<Rightarrow> nat" where
  "faceCode DIM d \<sigma> = encodeDigits ((replicate DIM 0)[d := \<sigma>])"

lemma faceCode_digits:
  assumes "d < DIM" "\<sigma> = - 1 \<or> \<sigma> = 1"
  shows "relativeDigits DIM (faceCode DIM d \<sigma>) = (replicate DIM 0)[d := \<sigma>]" "0 < faceCode DIM d \<sigma>" "faceCode DIM d \<sigma> < 3 ^ DIM"
proof -
  have "(replicate DIM 0)[d := \<sigma>] \<in> unit_offsets DIM" using assms by (auto simp: unit_offsets_def in_set_conv_nth nth_list_update split: if_splits)
  note e = relativeDigits_encode [OF this]
  show digits: "relativeDigits DIM (faceCode DIM d \<sigma>) = (replicate DIM 0)[d := \<sigma>]" and "faceCode DIM d \<sigma> < 3 ^ DIM" using e by (simp_all add: faceCode_def)
  have "(replicate DIM 0)[d := \<sigma>] ! d \<noteq> replicate DIM 0 ! d" using assms by auto
  then have "faceCode DIM d \<sigma> \<noteq> 0" using digits relativeDigits_zero by metis
  then show "0 < faceCode DIM d \<sigma>" by simp
qed

text \<open>The buffer of a field receives the cells next to its faces on the side \<open>\<sigma>\<close> of every axis.\<close>

definition receivesFaces :: "nat \<Rightarrow> int \<Rightarrow> GridBuffer \<Rightarrow> bool" where
  "receivesFaces DIM \<sigma> gb \<longleftrightarrow> (\<forall>d < DIM. \<exists>e. receiveExchanges gb (faceCode DIM d \<sigma>) = Some e \<and> 1 \<le> ex_size e ! d)"

definition interior :: "GridLayout \<Rightarrow> DataSpace \<Rightarrow> bool" where
  "interior l g \<longleftrightarrow> length g = length (layout_dataSpace l)
     \<and> (\<forall>d < length g. layout_guard l ! d \<le> g ! d \<and> g ! d < layout_guard l ! d + layout_dataSpace l ! d)"

definition globalCell :: "GridLayout \<Rightarrow> Communicator \<Rightarrow> DataSpace \<Rightarrow> DataSpace" where
  "globalCell l this g = vec_add (vec_mul (coordinates this) (layout_dataSpace l)) (vec_sub g (layout_guard l))"

definition periodicField :: "nat \<Rightarrow> DataSpace \<Rightarrow> vectorField \<Rightarrow> bool" where
  "periodicField DIM period G \<longleftrightarrow> (\<forall>g c d k. length g = DIM \<longrightarrow> d < DIM \<longrightarrow> G (g[d := g ! d + k * period ! d], c) = G (g, c))"

lemma interior_side: "interior l g \<longleftrightarrow> length g = length (layout_dataSpace l) \<and> cellSide l g = replicate (length (layout_dataSpace l)) 0"
proof -
  let ?n = "length (layout_dataSpace l)"
  have "cellSide l g = replicate ?n 0 \<longleftrightarrow> (\<forall>d < ?n. cellSide l g ! d = 0)" by (subst list_eq_iff_nth_eq) (simp add: cellSide_def)
  moreover have "cellSide l g ! d = 0 \<longleftrightarrow> layout_guard l ! d \<le> g ! d \<and> g ! d < layout_guard l ! d + layout_dataSpace l ! d" if "d < ?n" for d
    using that by (simp add: cellSide_def)
  ultimately show ?thesis by (auto simp: interior_def)
qed

context guard_exchange
begin

lemma interior_kept:
  assumes "\<forall>e. pending net e = []" "(haloStep isend arrive sendDone comm)\<^sup>*\<^sup>* (start F net) s" "interior (gridLayout gb) cell"
  shows "deviceField s r cell = F r cell"
proof -
  have I: "halo.halo_inv F s" by (rule run_inv [OF assms(1,2)])
  then have T: "halo.tablesOk s" by (simp add: halo.halo_inv_def)
  have "cell \<notin> set (exchangeCells (tr_exchange u))" if u: "receiveTasks s r ex = Some u" for ex u
  proof
    assume c: "cell \<in> set (exchangeCells (tr_exchange u))"
    have e: "receiveExchanges gb ex = Some (tr_exchange u)"
      using halo.tables_of(2) [OF T u] by (auto simp: startedReceive_def split: if_splits)
    have "0 < ex" "ex < 3 ^ DIM" using gb_inv_receive [OF inv e] dim by metis+
    moreover have "relativeDigits DIM ex = replicate DIM 0"
      using cells_side(2) [OF inv e c] assms(3) dim by (simp add: interior_side)
    ultimately show False using relativeDigits_inj [of ex DIM 0] relativeDigits_zero by auto
  qed
  then show ?thesis using I unfolding halo.halo_inv_def halo.fieldOk_def by blast
qed

lemma face_received:
  assumes e: "receiveExchanges gb (faceCode DIM d \<sigma>) = Some e" "1 \<le> ex_size e ! d" and d: "d < DIM" "\<sigma> = - 1 \<or> \<sigma> = 1"
    and g: "interior (gridLayout gb) g" "\<not> interior (gridLayout gb) (g[d := g ! d + \<sigma>])"
  shows "g[d := g ! d + \<sigma>] \<in> set (exchangeCells e)"
proof -
  let ?l = "gridLayout gb" and ?ex = "faceCode DIM d \<sigma>" and ?h = "g[d := g ! d + \<sigma>]"
  note code = faceCode_digits [OF d]
  obtain gc tag where gc: "layout_ok ?l" "guarding_ok ?l gc" "?ex < 27" "ExchangeIntern_of ?l gc ?ex tag GUARD = Some e"
    using gb_inv_receive [OF inv e(1)] by metis
  note X = ExchangeIntern_of_nth [OF gc(1) code(2) gc(3,4), unfolded dim]
  have off: "ex_offset e ! j = (if (replicate DIM 0)[d := \<sigma>] ! j = 1 then layout_dataSpace ?l ! j + layout_guard ?l ! j
      else layout_guard ?l ! j - (if (replicate DIM 0)[d := \<sigma>] ! j = - 1 then gc ! j else 0))" if "j < DIM" for j
    using exchangeTypeToOffset_nth(2) [OF gc(1) code(2) gc(3), of j gc GUARD] that X(3) code(1) by (simp add: dim)
  have lg: "length g = DIM" "\<And>j. j < DIM \<Longrightarrow> layout_guard ?l ! j \<le> g ! j \<and> g ! j < layout_guard ?l ! j + layout_dataSpace ?l ! j"
    using g(1) by (auto simp: interior_def dim)
  have edge: "\<sigma> = - 1 \<and> g ! d = layout_guard ?l ! d \<or> \<sigma> = 1 \<and> g ! d = layout_guard ?l ! d + layout_dataSpace ?l ! d - 1"
  proof (rule ccontr)
    assume "\<not> (\<sigma> = - 1 \<and> g ! d = layout_guard ?l ! d \<or> \<sigma> = 1 \<and> g ! d = layout_guard ?l ! d + layout_dataSpace ?l ! d - 1)"
    then have "layout_guard ?l ! d \<le> g ! d + \<sigma> \<and> g ! d + \<sigma> < layout_guard ?l ! d + layout_dataSpace ?l ! d" using lg(2) [OF d(1)] d(2) by auto
    then have "interior ?l ?h" using lg d(1) by (auto simp: interior_def dim nth_list_update)
    then show False using g(2) by simp
  qed
  have "ex_offset e ! j \<le> ?h ! j \<and> ?h ! j < ex_offset e ! j + ex_size e ! j" if j: "j < DIM" for j
    using off [OF j] X(4) [OF j] code(1) lg(1) lg(2) [OF j] edge e(2) d(1) j by (auto simp: nth_list_update split: if_splits)
  moreover have "length (ex_offset e) = length (ex_size e)" "length (ex_size e) = DIM" using X(1,2) by simp_all
  ultimately show ?thesis
    using set_shifted_box [of "ex_offset e" "ex_size e" ?h] exchangeCells_list [OF gc(1,2) code(2) gc(3,4)] lg(1) by (simp add: set_boxList)
qed

end

section \<open>Updating while the guards are exchanged\<close>

definition asField :: "(DataSpace \<Rightarrow> real vec) \<Rightarrow> vectorField" where
  "asField f = (\<lambda>(g, c). f g ! c)"

record 'n OverlapState =
  exchanged :: "(real vec, 'n) HaloState"
  updated :: "int \<Rightarrow> vectorField"
  coreTodo :: "int \<Rightarrow> DataSpace list"
  borderTodo :: "int \<Rightarrow> DataSpace list"

definition tasksFinished :: "('a, 'n) HaloState \<Rightarrow> int \<Rightarrow> bool" where
  "tasksFinished s r \<longleftrightarrow> (\<forall>ex. sendFinishedOn s r ex \<and> receiveFinishedOn s r ex)"

text \<open>The event that \<open>asyncCommunication\<close> returns: the receives have ended, and of every send the copy to the host.\<close>

definition exchangeEvent :: "('a, 'n) HaloState \<Rightarrow> int \<Rightarrow> bool" where
  "exchangeEvent s r \<longleftrightarrow> (\<forall>ex. receiveFinishedOn s r ex \<and> (case sendTasks s r ex of None \<Rightarrow> True | Some t \<Rightarrow> ts_copies t = []))"

definition overlapStart ::
    "int \<Rightarrow> (int \<Rightarrow> Communicator) \<Rightarrow> GridBuffer \<Rightarrow> MappingDescription \<Rightarrow> DataSpace \<Rightarrow> (int \<Rightarrow> vectorField) \<Rightarrow> (int \<Rightarrow> vectorField) \<Rightarrow> 'n \<Rightarrow> 'n OverlapState" where
  "overlapStart nRanks procs gb m superCellSize F G net =
     \<lparr>exchanged = startCommunication nRanks procs gb (\<lambda>r. readVec (G r)) net, updated = F,
      coreTodo = (\<lambda>r. if 0 \<le> r \<and> r < nRanks then areaKernelCells CORE m superCellSize else []),
      borderTodo = (\<lambda>r. if 0 \<le> r \<and> r < nRanks then areaKernelCells BORDER m superCellSize else [])\<rparr>"

text \<open>
  An event of the exchange, or one thread of the kernel on CORE, in any order; a thread of the kernel on BORDER only
  when the kernel on CORE has ended and the event of the exchange on this process is finished; its messages may still be on their way.
\<close>

inductive overlapStep ::
    "('n \<Rightarrow> envelope \<Rightarrow> real vec list \<Rightarrow> 'n) \<Rightarrow> ('n \<Rightarrow> envelope \<Rightarrow> real vec list \<Rightarrow> 'n \<Rightarrow> bool) \<Rightarrow> ('n \<Rightarrow> envelope \<Rightarrow> bool)
     \<Rightarrow> (int \<Rightarrow> Communicator) \<Rightarrow> (vectorField \<Rightarrow> vectorField \<Rightarrow> DataSpace \<Rightarrow> vectorField) \<Rightarrow> 'n OverlapState \<Rightarrow> 'n OverlapState \<Rightarrow> bool"
  for isend arrive sendDone procs kern where
  exchange: "haloStep isend arrive sendDone procs (exchanged s) h \<Longrightarrow> overlapStep isend arrive sendDone procs kern s (s\<lparr>exchanged := h\<rparr>)"
| core: "g \<in> set (coreTodo s r) \<Longrightarrow> overlapStep isend arrive sendDone procs kern s
     (s\<lparr>updated := (updated s)(r := kern (updated s r) (asField (deviceField (exchanged s) r)) g),
        coreTodo := (coreTodo s)(r := remove1 g (coreTodo s r))\<rparr>)"
| border: "\<lbrakk>coreTodo s r = []; exchangeEvent (exchanged s) r; g \<in> set (borderTodo s r)\<rbrakk> \<Longrightarrow> overlapStep isend arrive sendDone procs kern s
     (s\<lparr>updated := (updated s)(r := kern (updated s r) (asField (deviceField (exchanged s) r)) g),
        borderTodo := (borderTodo s)(r := remove1 g (borderTodo s r))\<rparr>)"

definition overlapFinished :: "'n OverlapState \<Rightarrow> int \<Rightarrow> bool" where
  "overlapFinished s r \<longleftrightarrow> coreTodo s r = [] \<and> borderTodo s r = [] \<and> tasksFinished (exchanged s) r"

text \<open>What the overlap relies on of a kernel: a thread writes its own cell and reads the other field at this cell and its neighbours on one side.\<close>

locale stencil_kernel =
  fixes kern :: "vectorField \<Rightarrow> vectorField \<Rightarrow> DataSpace \<Rightarrow> vectorField" and change :: "vectorField \<Rightarrow> DataSpace \<Rightarrow> nat \<Rightarrow> real"
    and DIM :: nat and \<sigma> :: int
  assumes kern_at: "kern F G cell (g, c) = (if g = cell \<and> c < 3 then F (g, c) + change G g c else F (g, c))"
    and change_local: "\<lbrakk>length g = DIM; length g' = DIM; c < 3; \<forall>c < 3. G (g, c) = G' (g', c);
      \<forall>d < DIM. \<forall>c < 3. G (g[d := g ! d + \<sigma>], c) = G' (g'[d := g' ! d + \<sigma>], c)\<rbrakk> \<Longrightarrow> change G g c = change G' g' c"
    and side: "\<sigma> = - 1 \<or> \<sigma> = 1"
begin

lemma change_periodic:
  assumes "periodicField DIM P G" "length g = DIM" "d < DIM" "c < 3"
  shows "change G (g[d := g ! d + k * P ! d]) c = change G g c"
proof (rule change_local)
  have per: "G (h[d := h ! d + k * P ! d], c) = G (h, c)" if "length h = DIM" for h c using assms(1,3) that by (simp add: periodicField_def)
  let ?g = "g[d := g ! d + k * P ! d]"
  show "\<forall>c < 3. G (?g, c) = G (g, c)" using per [OF assms(2)] by simp
  have "?g[e := ?g ! e + \<sigma>] = (g[e := g ! e + \<sigma>])[d := g[e := g ! e + \<sigma>] ! d + k * P ! d]" if "e < DIM" for e
    using that assms(2,3) by (cases "e = d") (auto simp: list_update_swap algebra_simps)
  then show "\<forall>e < DIM. \<forall>c < 3. G (?g[e := ?g ! e + \<sigma>], c) = G (g[e := g ! e + \<sigma>], c)" using per assms(2) by simp
qed (use assms in simp_all)

end

definition changeE :: "PhysUnits \<Rightarrow> nat \<Rightarrow> vectorField \<Rightarrow> DataSpace \<Rightarrow> nat \<Rightarrow> real" where
  "changeE u DIM G g c = CurlLeft DIM (cellSize u) (boxShift G g) ! c * (SPEED_OF_LIGHT u * SPEED_OF_LIGHT u) * DELTA_T u"

definition changeB :: "PhysUnits \<Rightarrow> nat \<Rightarrow> vectorField \<Rightarrow> DataSpace \<Rightarrow> nat \<Rightarrow> real" where
  "changeB u DIM G g c = - (CurlRight DIM (cellSize u) (boxShift G g) ! c * 0.5 * DELTA_T u)"

lemma three: "c < 3 \<Longrightarrow> c = 0 \<or> c = 1 \<or> c = (2 :: nat)"
  by linarith

interpretation stepE: stencil_kernel "KernelUpdateE u (CurlLeft DIM (cellSize u))" "changeE u DIM" DIM "- 1" for u DIM
proof
  show "KernelUpdateE u (CurlLeft DIM (cellSize u)) F G cell (g, c) = (if g = cell \<and> c < 3 then F (g, c) + changeE u DIM G g c else F (g, c))" for F G cell g c
    using updateE_at [of "[cell]" u DIM F G g c] by (auto simp: updateE_def changeE_def)
next
  fix g g' :: DataSpace and c :: nat and G G' :: vectorField
  assume a: "length g = DIM" "length g' = DIM" "c < 3" "\<forall>c < 3. G (g, c) = G' (g', c)" "\<forall>d < DIM. \<forall>c < 3. G (g[d := g ! d + - 1], c) = G' (g'[d := g' ! d + - 1], c)"
  then have "lowerDiff DIM (cellSize u) d (\<lambda>g. G (g, e)) g = lowerDiff DIM (cellSize u) d (\<lambda>g. G' (g, e)) g'" if "e < 3" for d e
    using that by (simp add: lowerDiff_def)
  then show "changeE u DIM G g c = changeE u DIM G' g' c"
    using a(1-3) three [OF a(3)] by (auto simp: changeE_def CurlLeft_scheme lower.schemeCurl_def)
qed simp

interpretation stepB: stencil_kernel "KernelUpdateBHalf u (CurlRight DIM (cellSize u))" "changeB u DIM" DIM 1 for u DIM
proof
  show "KernelUpdateBHalf u (CurlRight DIM (cellSize u)) F G cell (g, c) = (if g = cell \<and> c < 3 then F (g, c) + changeB u DIM G g c else F (g, c))" for F G cell g c
    using updateBHalf_at [of "[cell]" u DIM F G g c] by (auto simp: updateBHalf_def changeB_def)
next
  fix g g' :: DataSpace and c :: nat and G G' :: vectorField
  assume a: "length g = DIM" "length g' = DIM" "c < 3" "\<forall>c < 3. G (g, c) = G' (g', c)" "\<forall>d < DIM. \<forall>c < 3. G (g[d := g ! d + 1], c) = G' (g'[d := g' ! d + 1], c)"
  then have "upperDiff DIM (cellSize u) d (\<lambda>g. G (g, e)) g = upperDiff DIM (cellSize u) d (\<lambda>g. G' (g, e)) g'" if "e < 3" for d e
    using that by (simp add: upperDiff_def)
  then show "changeB u DIM G g c = changeB u DIM G' g' c"
    using a(1-3) three [OF a(3)] by (auto simp: changeB_def CurlRight_scheme upper.schemeCurl_def)
qed simp

section \<open>A periodic grid of processes\<close>

text \<open>\<open>showsField\<close>: the local field holds the values of the global one; \<open>showsSide\<close>: also next to the faces on one side.\<close>

definition showsField :: "GridLayout \<Rightarrow> Communicator \<Rightarrow> vectorField \<Rightarrow> vectorField \<Rightarrow> bool" where
  "showsField l this F G \<longleftrightarrow> (\<forall>g. interior l g \<longrightarrow> (\<forall>c < 3. F (g, c) = G (globalCell l this g, c)))"

definition showsSide :: "GridLayout \<Rightarrow> Communicator \<Rightarrow> int \<Rightarrow> vectorField \<Rightarrow> vectorField \<Rightarrow> bool" where
  "showsSide l this \<sigma> F G \<longleftrightarrow> (\<forall>g d. interior l g \<longrightarrow> d < length g \<longrightarrow>
     (\<forall>c < 3. F (g[d := g ! d + \<sigma>], c) = G (globalCell l this (g[d := g ! d + \<sigma>]), c)))"

definition globalPeriod :: "nat \<Rightarrow> (int \<Rightarrow> Communicator) \<Rightarrow> GridLayout \<Rightarrow> DataSpace" where
  "globalPeriod DIM c l = vec_mul (take DIM (dims (c 0))) (layout_dataSpace l)"

locale periodic_grid = guard_exchange isend arrive sendDone pending cart_coords cart_rank DIM c gb
  for isend :: "'n \<Rightarrow> envelope \<Rightarrow> real vec list \<Rightarrow> 'n" and arrive sendDone pending cart_coords cart_rank DIM c gb +
  assumes allPeriodic: "\<forall>d < DIM. periodic (c 0) ! d \<noteq> 0"
begin

abbreviation lay :: GridLayout where "lay \<equiv> gridLayout gb"

abbreviation period :: DataSpace where "period \<equiv> globalPeriod DIM c lay"

lemma lengths: "length (layout_dataSpace lay) = DIM" "length (layout_guard lay) = DIM" "DIM = 2 \<or> DIM = 3" "length (take DIM (dims (c 0))) = DIM"
  using dim inv wf [of 0] comm_wf_extent(1) [OF wf [of 0]] by (auto simp: gb_inv_def layout_ok_def comm_wf_def)

lemma all_neighbours:
  assumes r: "0 \<le> r" "r < gridSize DIM c" and ex: "0 < ex" "ex < 3 ^ DIM"
  shows "isSet (communicationMask (comm r)) ex"
proof -
  have g: "take DIM (dims (c r)) = take DIM (dims (c 0))" "periodic (c r) = periodic (c 0)" using same [of r 0] by (simp_all add: sameGrid_def)
  have "cart_coords r \<in> box (take DIM (dims (c r)))" using coords_in [OF r(1)] r(2) by (simp add: g gridSize_def)
  from updateCoordinates_table(5) [where cart_coords = cart_coords and cart_rank = cart_rank, OF wf this ex]
  show ?thesis using allPeriodic by (simp add: communicators_def neighbourExists_def list_all_iff g)
qed

lemma neighbour_cell:
  assumes r: "0 \<le> r" "r < gridSize DIM c" and d: "d < DIM" "\<sigma> = - 1 \<or> \<sigma> = 1" and h: "length h = DIM"
  shows "\<exists>k. globalCell lay (comm (ExchangeTypeToRank (comm r) (faceCode DIM d \<sigma>)))
      (vec_sub h (vec_mul (relativeDigits DIM (faceCode DIM d \<sigma>)) (layout_dataSpace lay)))
    = (globalCell lay (comm r) h)[d := globalCell lay (comm r) h ! d + k * period ! d]"
proof -
  note code = faceCode_digits [OF d]
  let ?q = "ExchangeTypeToRank (comm r) (faceCode DIM d \<sigma>)" and ?ext = "take DIM (dims (c 0))" and ?N = "layout_dataSpace lay"
  have g: "take DIM (dims (c 0)) = take DIM (dims (c r))" "take DIM (periodic (c 0)) = take DIM (periodic (c r))"
    using same [of 0 r] by (simp_all add: sameGrid_def)
  note n = neighbour_coordinates [OF wf [of r] wf [of ?q] same g _ _ code(2,3) _ refl, folded gridSize_def, OF r, folded communicators_def,
      OF all_neighbours [OF r code(2,3)]]
  define L where "L = coordinates (comm r)"
  have L: "length L = DIM" "\<And>j. j < DIM \<Longrightarrow> 0 \<le> L ! j \<and> L ! j < ?ext ! j" using n(2) lengths(4) by (auto simp: box_def L_def)
  have Lq: "coordinates (comm ?q) = wrapCoords ?ext (vec_add L ((replicate DIM 0)[d := \<sigma>]))" using n(1) by (simp add: code(1) L_def)
  have Lq_nth: "coordinates (comm ?q) ! j = (if j = d then (L ! d + \<sigma>) mod ?ext ! d else L ! j)" if "j < DIM" for j
    using that L d(1) lengths(4) by (auto simp: Lq wrapCoords_def vec_add_def vec_add_assign_def nth_list_update simp del: nth_take)
  have lq: "length (coordinates (comm ?q)) = DIM" using lengths(4) by (simp add: Lq wrapCoords_def)
  define k where "k = - ((L ! d + \<sigma>) div ?ext ! d)"
  have k: "(L ! d + \<sigma>) mod ?ext ! d = L ! d + \<sigma> + k * ?ext ! d" by (simp add: k_def minus_div_mult_eq_mod [symmetric] del: nth_take)
  have "globalCell lay (comm ?q) (vec_sub h (vec_mul (relativeDigits DIM (faceCode DIM d \<sigma>)) ?N))
      = (globalCell lay (comm r) h)[d := globalCell lay (comm r) h ! d + k * period ! d]"
  proof (rule nth_equalityI)
    show "length (globalCell lay (comm ?q) (vec_sub h (vec_mul (relativeDigits DIM (faceCode DIM d \<sigma>)) ?N)))
        = length ((globalCell lay (comm r) h)[d := globalCell lay (comm r) h ! d + k * period ! d])"
      using lengths lq L(1) h by (simp add: globalCell_def code(1) vec_simps L_def)
    fix j assume "j < length (globalCell lay (comm ?q) (vec_sub h (vec_mul (relativeDigits DIM (faceCode DIM d \<sigma>)) ?N)))"
    then have j: "j < DIM" using lengths lq L(1) h by (simp add: globalCell_def code(1) vec_simps L_def)
    show "globalCell lay (comm ?q) (vec_sub h (vec_mul (relativeDigits DIM (faceCode DIM d \<sigma>)) ?N)) ! j
        = (globalCell lay (comm r) h)[d := globalCell lay (comm r) h ! d + k * period ! d] ! j"
      using j lengths lq L(1) h k d(1) Lq_nth [OF j]
      by (auto simp: globalCell_def globalPeriod_def code(1) vec_simps L_def nth_list_update algebra_simps simp del: nth_take)
  qed
  then show ?thesis by blast
qed

lemma globalCell_length: "length g = DIM \<Longrightarrow> 0 \<le> r \<Longrightarrow> r < gridSize DIM c \<Longrightarrow> length (globalCell lay (comm r) g) = DIM"
  and globalCell_step: "length g = DIM \<Longrightarrow> 0 \<le> r \<Longrightarrow> r < gridSize DIM c \<Longrightarrow> d < DIM \<Longrightarrow>
      globalCell lay (comm r) (g[d := g ! d + \<sigma>]) = (globalCell lay (comm r) g)[d := globalCell lay (comm r) g ! d + \<sigma>]"
proof -
  assume r: "0 \<le> r" "r < gridSize DIM c" and g: "length g = DIM"
  have gr: "take DIM (dims (c 0)) = take DIM (dims (c r))" "take DIM (periodic (c 0)) = take DIM (periodic (c r))"
    using same [of 0 r] by (simp_all add: sameGrid_def)
  have "cart_coords r \<in> box (take DIM (dims (c r)))" using coords_in [OF r(1)] r(2) by (simp add: gr [symmetric] gridSize_def)
  from updateCoordinates_table(2) [where cart_coords = cart_coords and cart_rank = cart_rank, OF wf this]
  have L: "length (coordinates (comm r)) = DIM"
    using coords_in [OF r(1)] r(2) lengths(4) by (simp add: communicators_def logicalCoords_def gridSize_def box_def)
  show "length (globalCell lay (comm r) g) = DIM" using L g lengths by (simp add: globalCell_def vec_simps)
  assume d: "d < DIM"
  show "globalCell lay (comm r) (g[d := g ! d + \<sigma>]) = (globalCell lay (comm r) g)[d := globalCell lay (comm r) g ! d + \<sigma>]"
    using L g lengths d by (intro nth_equalityI) (auto simp: globalCell_def vec_simps nth_list_update)
qed

lemma interior_shown:
  assumes "\<forall>e. pending net e = []" "(haloStep isend arrive sendDone comm)\<^sup>*\<^sup>* (start (\<lambda>r. readVec (G r)) net) h"
    and "showsField lay (comm r) (G r) \<Gamma>" "interior lay g" "c' < 3"
  shows "asField (deviceField h r) (g, c') = \<Gamma> (globalCell lay (comm r) g, c')"
  using interior_kept [OF assms(1,2,4), of r] assms(3-5) by (simp add: asField_def showsField_def)

text \<open>After the exchange the cells next to the faces hold the values of the global field, across process boundaries and around the periodic grid.\<close>

lemma face_shown:
  assumes run: "\<forall>e. pending net e = []" "(haloStep isend arrive sendDone comm)\<^sup>*\<^sup>* (start (\<lambda>r. readVec (G r)) net) h"
    and fin: "\<forall>ex. receiveFinishedOn h r ex" and r: "0 \<le> r" "r < gridSize DIM c" and faces: "receivesFaces DIM \<sigma> gb" "\<sigma> = - 1 \<or> \<sigma> = 1"
    and G: "\<forall>q. 0 \<le> q \<and> q < gridSize DIM c \<longrightarrow> showsField lay (comm q) (G q) \<Gamma>" "periodicField DIM period \<Gamma>"
  shows "showsSide lay (comm r) \<sigma> (asField (deviceField h r)) \<Gamma>"
  unfolding showsSide_def
proof (intro allI impI)
  fix g d and c' :: nat assume g: "interior lay g" and d': "d < length g" and c': "c' < 3"
  have d: "d < DIM" and lg: "length g = DIM" using g d' lengths by (simp_all add: interior_def)
  let ?h = "g[d := g ! d + \<sigma>]" and ?ex = "faceCode DIM d \<sigma>"
  show "asField (deviceField h r) (?h, c') = \<Gamma> (globalCell lay (comm r) ?h, c')"
  proof (cases "interior lay ?h")
    case True
    then show ?thesis using interior_shown [OF run G(1) [rule_format, OF conjI, OF r] True c'] by simp
  next
    case False
    note code = faceCode_digits [OF d faces(2)]
    obtain e where e: "receiveExchanges gb ?ex = Some e" "1 \<le> ex_size e ! d" using faces(1) d by (auto simp: receivesFaces_def)
    have cell: "?h \<in> set (exchangeCells e)" by (rule face_received [OF e d faces(2) g False])
    have "isSet (receiveMask gb) ?ex" using gb_inv_receive [OF inv e(1)] by metis
    then have st: "startedReceive (gridSize DIM c) comm gb r ?ex = Some e"
      using e(1) r all_neighbours [OF r code(2,3)] by (simp add: startedReceive_def hasReceiveExchange_def getReceiveMask_def)
    let ?q = "ExchangeTypeToRank (comm r) ?ex" and ?p = "vec_sub ?h (vec_mul (relativeDigits DIM ?ex) (layout_dataSpace lay))"
    have q: "0 \<le> ?q" "?q < gridSize DIM c" using meets(1,2) [OF r all_neighbours [OF r code(2,3)] code(2,3)] .
    have p: "interior lay ?p"
    proof -
      have in_g: "layout_guard lay ! j \<le> g ! j \<and> g ! j < layout_guard lay ! j + layout_dataSpace lay ! j" if "j < DIM" for j
        using g that lg by (simp add: interior_def)
      have "\<not> (layout_guard lay ! d \<le> g ! d + \<sigma> \<and> g ! d + \<sigma> < layout_guard lay ! d + layout_dataSpace lay ! d)"
        using False in_g lg lengths(1) d' by (auto simp: interior_def nth_list_update split: if_splits)
      then have D: "layout_guard lay ! d \<le> g ! d + \<sigma> - \<sigma> * layout_dataSpace lay ! d \<and> g ! d + \<sigma> - \<sigma> * layout_dataSpace lay ! d < layout_guard lay ! d + layout_dataSpace lay ! d"
        using faces(2) in_g [OF d] by auto
      have "?p ! j = (if j = d then g ! d + \<sigma> - \<sigma> * layout_dataSpace lay ! d else g ! j)" "length ?p = DIM" if "j < DIM" for j
        using that lg lengths(1) d' unfolding code(1) by (auto simp: vec_simps nth_list_update)
      then show ?thesis using in_g D lengths(1) d unfolding interior_def by auto
    qed
    obtain k where k: "globalCell lay (comm ?q) ?p = (globalCell lay (comm r) ?h)[d := globalCell lay (comm r) ?h ! d + k * period ! d]"
      using neighbour_cell [OF r d faces(2), of ?h] lg by auto
    have "asField (deviceField h r) (?h, c') = G ?q (?p, c')"
      using delivered [OF run fin st cell] c' by (simp add: asField_def)
    also have "\<dots> = \<Gamma> (globalCell lay (comm ?q) ?p, c')" using G(1) [rule_format, OF conjI, OF q] p c' by (simp add: showsField_def)
    also have "\<dots> = \<Gamma> (globalCell lay (comm r) ?h, c')"
      using G(2) d globalCell_length [OF _ r, of ?h] lg unfolding k periodicField_def by simp
    finally show ?thesis .
  qed
qed

end

section \<open>The overlapped update\<close>

locale overlapped_update = periodic_grid isend arrive sendDone pending cart_coords cart_rank DIM c gb
    + areas: area_kernels m sc + stencil: stencil_kernel kern change DIM \<sigma>
  for isend :: "'n \<Rightarrow> envelope \<Rightarrow> real vec list \<Rightarrow> 'n" and arrive sendDone pending cart_coords cart_rank DIM c gb m sc kern change \<sigma> +
  assumes layout: "gridLayout gb = getGridLayout sc m" and border: "1 \<le> borderSuperCells m" and faces: "receivesFaces DIM \<sigma> gb"
begin

abbreviation step :: "'n OverlapState \<Rightarrow> 'n OverlapState \<Rightarrow> bool" where
  "step \<equiv> overlapStep isend arrive sendDone comm kern"

abbreviation overlap :: "(int \<Rightarrow> vectorField) \<Rightarrow> (int \<Rightarrow> vectorField) \<Rightarrow> 'n \<Rightarrow> 'n OverlapState" where
  "overlap F G net \<equiv> overlapStart (gridSize DIM c) comm gb m sc F G net"

lemma sc_length: "length sc = DIM" "length (gridSuperCells m) = DIM"
  using lengths(1) areas.wf(2) by (simp_all add: layout getGridLayout_def GridLayout_of_def vec_simps)

lemma interior_cells: "interior lay g \<longleftrightarrow> g \<in> set (areaKernelCells CORE_BORDER m sc)"
proof -
  have "layout_guard lay ! d = guardingSuperCells m * sc ! d"
    "layout_guard lay ! d + layout_dataSpace lay ! d = (gridSuperCells m ! d - guardingSuperCells m) * sc ! d" if "d < DIM" for d
    using that sc_length by (simp_all add: layout getGridLayout_def GridLayout_of_def vec_simps algebra_simps)
  then show ?thesis unfolding areas.core_border_cells interior_def innerCells_def using sc_length lengths(1) by auto
qed

definition procInv :: "vectorField \<Rightarrow> vectorField \<Rightarrow> int \<Rightarrow> vectorField \<Rightarrow> DataSpace list \<Rightarrow> DataSpace list \<Rightarrow> bool" where
  "procInv F \<Gamma> r U core border \<longleftrightarrow> distinct core \<and> distinct border
     \<and> (if 0 \<le> r \<and> r < gridSize DIM c
        then set core \<subseteq> set (areaKernelCells CORE m sc) \<and> set border \<subseteq> set (areaKernelCells BORDER m sc)
        else core = [] \<and> border = [])
     \<and> (\<forall>g c'. U (g, c') = F (g, c') +
          (if 0 \<le> r \<and> r < gridSize DIM c \<and> interior lay g \<and> g \<notin> set core \<union> set border \<and> c' < 3
           then change \<Gamma> (globalCell lay (comm r) g) c' else 0))"

definition overlapInv :: "(int \<Rightarrow> vectorField) \<Rightarrow> (int \<Rightarrow> vectorField) \<Rightarrow> vectorField \<Rightarrow> 'n \<Rightarrow> 'n OverlapState \<Rightarrow> bool" where
  "overlapInv F G \<Gamma> net s \<longleftrightarrow>
     (haloStep isend arrive sendDone comm)\<^sup>*\<^sup>* (start (\<lambda>r. readVec (G r)) net) (exchanged s)
     \<and> (\<forall>r. procInv (F r) \<Gamma> r (updated s r) (coreTodo s r) (borderTodo s r))"

lemma change_shown:
  assumes r: "0 \<le> r" "r < gridSize DIM c" and g: "interior lay g" "c' < 3"
    and shown: "\<And>c'. c' < 3 \<Longrightarrow> H (g, c') = \<Gamma> (globalCell lay (comm r) g, c')"
      "\<And>d c'. d < DIM \<Longrightarrow> c' < 3 \<Longrightarrow> H (g[d := g ! d + \<sigma>], c') = \<Gamma> (globalCell lay (comm r) (g[d := g ! d + \<sigma>]), c')"
  shows "change H g c' = change \<Gamma> (globalCell lay (comm r) g) c'"
proof (rule stencil.change_local)
  show lg: "length g = DIM" using g(1) lengths by (simp add: interior_def)
  show "length (globalCell lay (comm r) g) = DIM" by (rule globalCell_length [OF lg r])
  show "\<forall>d < DIM. \<forall>c' < 3. H (g[d := g ! d + \<sigma>], c') = \<Gamma> ((globalCell lay (comm r) g)[d := globalCell lay (comm r) g ! d + \<sigma>], c')"
    using shown(2) globalCell_step [OF lg r] by simp
qed (use shown g in auto)

lemma areas_interior:
  assumes "g \<in> set (areaKernelCells CORE m sc) \<or> g \<in> set (areaKernelCells BORDER m sc)"
  shows "interior lay g"
  using assms areas.core_neighbours(1) [OF _ border, of g 0 1] areas.border_cells sc_length lengths(3) interior_cells by auto

lemma core_change:
  assumes run: "\<forall>e. pending net e = []" "(haloStep isend arrive sendDone comm)\<^sup>*\<^sup>* (start (\<lambda>r. readVec (G r)) net) h"
    and r: "0 \<le> r" "r < gridSize DIM c" and G: "showsField lay (comm r) (G r) \<Gamma>" and g: "g \<in> set (areaKernelCells CORE m sc)" "c' < 3"
  shows "change (asField (deviceField h r)) g c' = change \<Gamma> (globalCell lay (comm r) g) c'"
proof (rule change_shown [OF r _ g(2)])
  show i: "interior lay g" using areas_interior g(1) by blast
  show "asField (deviceField h r) (g, c'') = \<Gamma> (globalCell lay (comm r) g, c'')" if "c'' < 3" for c''
    by (rule interior_shown [OF run G i that])
  show "asField (deviceField h r) (g[d := g ! d + \<sigma>], c'') = \<Gamma> (globalCell lay (comm r) (g[d := g ! d + \<sigma>]), c'')" if "d < DIM" "c'' < 3" for d c''
    using areas.core_neighbours(2) [OF g(1) border, of d \<sigma>] that stencil.side sc_length
    by (intro interior_shown [OF run G _ that(2)]) (simp add: interior_cells)
qed

lemma border_change:
  assumes run: "\<forall>e. pending net e = []" "(haloStep isend arrive sendDone comm)\<^sup>*\<^sup>* (start (\<lambda>r. readVec (G r)) net) h"
    and r: "0 \<le> r" "r < gridSize DIM c" and fin: "\<forall>ex. receiveFinishedOn h r ex"
    and G: "\<forall>q. 0 \<le> q \<and> q < gridSize DIM c \<longrightarrow> showsField lay (comm q) (G q) \<Gamma>" "periodicField DIM period \<Gamma>"
    and g: "interior lay g" "c' < 3"
  shows "change (asField (deviceField h r)) g c' = change \<Gamma> (globalCell lay (comm r) g) c'"
proof (rule change_shown [OF r g])
  show "asField (deviceField h r) (g, c'') = \<Gamma> (globalCell lay (comm r) g, c'')" if "c'' < 3" for c''
    by (rule interior_shown [OF run G(1) [rule_format, OF conjI, OF r] g(1) that])
  show "asField (deviceField h r) (g[d := g ! d + \<sigma>], c'') = \<Gamma> (globalCell lay (comm r) (g[d := g ! d + \<sigma>]), c'')" if "d < DIM" "c'' < 3" for d c''
    using face_shown [OF run fin r faces stencil.side G] g(1) that lengths unfolding showsSide_def interior_def by simp
qed

lemma start_overlapInv: "overlapInv F G \<Gamma> net (overlap F G net)"
proof -
  have "interior lay g \<longleftrightarrow> g \<in> set (areaKernelCells CORE m sc) \<union> set (areaKernelCells BORDER m sc)" for g
    using areas_interior interior_cells areas.border_cells by blast
  then show ?thesis by (auto simp: overlapInv_def procInv_def overlapStart_def areas.area_distinct)
qed

lemma step_overlapInv:
  assumes "step s s'" "overlapInv F G \<Gamma> net s" and net: "\<forall>e. pending net e = []"
    and G: "\<forall>q. 0 \<le> q \<and> q < gridSize DIM c \<longrightarrow> showsField lay (comm q) (G q) \<Gamma>" "periodicField DIM period \<Gamma>"
  shows "overlapInv F G \<Gamma> net s'"
  using assms(1)
proof cases
  case (exchange h)
  then show ?thesis using assms(2) rtranclp.rtrancl_into_rtrancl [of "haloStep isend arrive sendDone comm" _ "exchanged s" h] by (simp add: overlapInv_def)
next
  case (core g r)
  have run: "(haloStep isend arrive sendDone comm)\<^sup>*\<^sup>* (start (\<lambda>r. readVec (G r)) net) (exchanged s)" using assms(2) by (simp add: overlapInv_def)
  have P: "procInv (F r) \<Gamma> r (updated s r) (coreTodo s r) (borderTodo s r)" using assms(2) by (simp add: overlapInv_def)
  then have r: "0 \<le> r" "r < gridSize DIM c" "g \<in> set (areaKernelCells CORE m sc)" "g \<notin> set (borderTodo s r)"
    using core(2) areas.border_cells [of g] unfolding procInv_def by (auto split: if_splits)
  have "procInv (F r) \<Gamma> r (kern (updated s r) (asField (deviceField (exchanged s) r)) g) (remove1 g (coreTodo s r)) (borderTodo s r)"
    using P core(2) r core_change [OF net run r(1,2) G(1) [rule_format, OF conjI, OF r(1,2)] r(3)] areas_interior [of g] unfolding procInv_def by (auto simp: stencil.kern_at)
  then show ?thesis using assms(2) core(1) by (simp add: overlapInv_def)
next
  case (border r g)
  have run: "(haloStep isend arrive sendDone comm)\<^sup>*\<^sup>* (start (\<lambda>r. readVec (G r)) net) (exchanged s)" using assms(2) by (simp add: overlapInv_def)
  have P: "procInv (F r) \<Gamma> r (updated s r) (coreTodo s r) (borderTodo s r)" using assms(2) by (simp add: overlapInv_def)
  then have r: "0 \<le> r" "r < gridSize DIM c" "g \<in> set (areaKernelCells BORDER m sc)"
    using border(4) unfolding procInv_def by (auto split: if_splits)
  have i: "interior lay g" using areas_interior r(3) by blast
  have fin: "\<forall>ex. receiveFinishedOn (exchanged s) r ex" using border(3) by (simp add: exchangeEvent_def)
  have "procInv (F r) \<Gamma> r (kern (updated s r) (asField (deviceField (exchanged s) r)) g) (coreTodo s r) (remove1 g (borderTodo s r))"
    using P border(2,4) r i border_change [OF net run r(1,2) fin G i] unfolding procInv_def by (auto simp: stencil.kern_at)
  then show ?thesis using assms(2) border(1) by (simp add: overlapInv_def)
qed

lemma run_overlapInv:
  assumes "step\<^sup>*\<^sup>* (overlap F G net) s" "\<forall>e. pending net e = []"
    and "\<forall>q. 0 \<le> q \<and> q < gridSize DIM c \<longrightarrow> showsField lay (comm q) (G q) \<Gamma>" "periodicField DIM period \<Gamma>"
  shows "overlapInv F G \<Gamma> net s"
  using assms(1) by (induction rule: rtranclp_induct) (rule start_overlapInv, rule step_overlapInv [OF _ _ assms(2-4)])

lemma overlap_result:
  assumes inv: "overlapInv F G \<Gamma> net s" and fin: "overlapFinished s r" and r: "0 \<le> r" "r < gridSize DIM c" and net: "\<forall>e. pending net e = []"
    and G: "\<forall>q. 0 \<le> q \<and> q < gridSize DIM c \<longrightarrow> showsField lay (comm q) (G q) \<Gamma>" "periodicField DIM period \<Gamma>"
  shows "interior lay g \<Longrightarrow> c' < 3 \<Longrightarrow> updated s r (g, c') = F r (g, c') + change \<Gamma> (globalCell lay (comm r) g) c'"
    and "\<not> interior lay g \<Longrightarrow> updated s r (g, c') = F r (g, c')"
    and "showsField lay (comm r) (asField (deviceField (exchanged s) r)) \<Gamma>"
    and "showsSide lay (comm r) \<sigma> (asField (deviceField (exchanged s) r)) \<Gamma>"
proof -
  have P: "procInv (F r) \<Gamma> r (updated s r) [] []" and run: "(haloStep isend arrive sendDone comm)\<^sup>*\<^sup>* (start (\<lambda>r. readVec (G r)) net) (exchanged s)"
    using inv fin unfolding overlapInv_def overlapFinished_def by metis+
  show "interior lay g \<Longrightarrow> c' < 3 \<Longrightarrow> updated s r (g, c') = F r (g, c') + change \<Gamma> (globalCell lay (comm r) g) c'"
    "\<not> interior lay g \<Longrightarrow> updated s r (g, c') = F r (g, c')" using P r by (simp_all add: procInv_def)
  show "showsField lay (comm r) (asField (deviceField (exchanged s) r)) \<Gamma>"
    using interior_shown [OF net run G(1) [rule_format, OF conjI, OF r]] by (simp add: showsField_def)
  show "showsSide lay (comm r) \<sigma> (asField (deviceField (exchanged s) r)) \<Gamma>"
    using fin by (intro face_shown [OF net run _ r faces stencil.side G]) (auto simp: overlapFinished_def tasksFinished_def)
qed

lemma overlap_stuck:
  assumes "overlapInv F G \<Gamma> net s" "\<forall>e. pending net e = []" "\<nexists>s'. step s s'"
  shows "overlapFinished s r"
proof -
  have "(haloStep isend arrive sendDone comm)\<^sup>*\<^sup>* (start (\<lambda>r. readVec (G r)) net) (exchanged s)" using assms(1) by (simp add: overlapInv_def)
  moreover have "\<nexists>h. haloStep isend arrive sendDone comm (exchanged s) h" using assms(3) overlapStep.exchange by blast
  ultimately have t: "tasksFinished (exchanged s) r" for r using stuck [OF assms(2)] by (simp add: tasksFinished_def)
  have "ts_copies k = []" if "sendTasks (exchanged s) r ex = Some k" for r ex k
    using haloStep.sendCopy [OF that] \<open>\<nexists>h. haloStep isend arrive sendDone comm (exchanged s) h\<close> by (cases "ts_copies k") blast+
  with t have e: "exchangeEvent (exchanged s) r" for r by (auto simp: exchangeEvent_def tasksFinished_def split: option.split)
  have "coreTodo s r = []" using assms(3) overlapStep.core [of _ s r] by (metis list.set_intros(1) neq_Nil_conv)
  moreover from this have "borderTodo s r = []" using assms(3) overlapStep.border [OF _ e, of r] by (metis list.set_intros(1) neq_Nil_conv)
  ultimately show ?thesis using t by (simp add: overlapFinished_def)
qed

definition overlapWork :: "'n OverlapState \<Rightarrow> nat" where
  "overlapWork s = halo.work (exchanged s) + (\<Sum>r \<in> {0..<gridSize DIM c}. length (coreTodo s r) + length (borderTodo s r))"

lemma sum_less: "finite A \<Longrightarrow> r \<in> A \<Longrightarrow> f r < h r \<Longrightarrow> \<forall>q. q \<noteq> r \<longrightarrow> f q = h q \<Longrightarrow> sum f A < sum h A" for f h :: "int \<Rightarrow> nat"
  by (rule sum_strict_mono_ex1) (auto simp: le_less)

lemma overlap_work:
  assumes "step s s'" "overlapInv F G \<Gamma> net s" "\<forall>e. pending net e = []"
  shows "overlapWork s' < overlapWork s"
proof -
  have run: "(haloStep isend arrive sendDone comm)\<^sup>*\<^sup>* (start (\<lambda>r. readVec (G r)) net) (exchanged s)"
    and P: "\<And>r. procInv (F r) \<Gamma> r (updated s r) (coreTodo s r) (borderTodo s r)" using assms(2) by (auto simp: overlapInv_def)
  have range: "r \<in> {0..<gridSize DIM c}" if "g \<in> set (coreTodo s r) \<or> g \<in> set (borderTodo s r)" for r g
    using P [of r] that by (auto simp: procInv_def split: if_splits)
  show ?thesis using assms(1)
  proof cases
    case (exchange h)
    then show ?thesis using halo.work_step [OF exchange(2) run_inv [OF assms(3) run]] by (simp add: overlapWork_def)
  next
    case (core g r)
    have "length (remove1 g (coreTodo s r)) < length (coreTodo s r)" using core(2) length_pos_if_in_set [OF core(2)] by (simp add: length_remove1)
    then show ?thesis unfolding overlapWork_def core(1) using range [of g r] core(2)
      by (auto intro!: sum_less [where r = r])
  next
    case (border r g)
    have "length (remove1 g (borderTodo s r)) < length (borderTodo s r)" using border(4) length_pos_if_in_set [OF border(4)] by (simp add: length_remove1)
    then show ?thesis unfolding overlapWork_def border(1) using range [of g r] border(4)
      by (auto intro!: sum_less [where r = r])
  qed
qed

lemma overlap_finishes:
  assumes "overlapInv F G \<Gamma> net s" "\<forall>e. pending net e = []"
    and G: "\<forall>q. 0 \<le> q \<and> q < gridSize DIM c \<longrightarrow> showsField lay (comm q) (G q) \<Gamma>" "periodicField DIM period \<Gamma>"
  shows "\<exists>s'. step\<^sup>*\<^sup>* s s' \<and> (\<forall>r. overlapFinished s' r)"
  using assms(1)
proof (induction "overlapWork s" arbitrary: s rule: less_induct)
  case less
  show ?case
  proof (cases "\<exists>s'. step s s'")
    case True
    then obtain s1 where s1: "step s s1" by blast
    from less.hyps [OF overlap_work [OF s1 less.prems assms(2)] step_overlapInv [OF s1 less.prems assms(2) G]] show ?thesis
      using s1 by (meson converse_rtranclp_into_rtranclp)
  next
    case False
    then show ?thesis using overlap_stuck [OF less.prems assms(2)] by blast
  qed
qed

end

section \<open>The two halves of a step of the solver\<close>

definition beforeCurrent_start ::
    "PhysUnits \<Rightarrow> nat \<Rightarrow> int \<Rightarrow> (int \<Rightarrow> Communicator) \<Rightarrow> GridBuffer \<Rightarrow> MappingDescription \<Rightarrow> DataSpace \<Rightarrow> (int \<Rightarrow> vectorField) \<Rightarrow> (int \<Rightarrow> vectorField) \<Rightarrow> 'n \<Rightarrow> 'n OverlapState" where
  "beforeCurrent_start u DIM nRanks procs bufferB m superCellSize fieldE fieldB net =
     overlapStart nRanks procs bufferB m superCellSize fieldE
       (\<lambda>r. updateBHalf u DIM (areaKernelCells CORE_BORDER m superCellSize) (fieldB r) (fieldE r)) net"

definition afterCurrent_E ::
    "SimParams \<Rightarrow> AbsorberParams \<Rightarrow> (int \<Rightarrow> vectorField \<Rightarrow> vectorField) \<Rightarrow> Env \<Rightarrow> MappingDescription \<Rightarrow> DataSpace \<Rightarrow> int \<Rightarrow> MovingWindow \<Rightarrow> vectorField \<Rightarrow> (MovingWindow \<times> vectorField) option" where
  "afterCurrent_E par ap laserManipulation env m superCellSize currentStep window fieldE =
     (case absorbBorder par ap env m superCellSize currentStep window fieldE of
        None \<Rightarrow> None
      | Some (window, fieldE) \<Rightarrow> Some (window, if laser_INIT_TIME ap > 0 then laserManipulation currentStep fieldE else fieldE))"

definition afterCurrent_start ::
    "int \<Rightarrow> (int \<Rightarrow> Communicator) \<Rightarrow> GridBuffer \<Rightarrow> MappingDescription \<Rightarrow> DataSpace \<Rightarrow> (int \<Rightarrow> vectorField) \<Rightarrow> (int \<Rightarrow> vectorField) \<Rightarrow> 'n \<Rightarrow> 'n OverlapState" where
  "afterCurrent_start nRanks procs bufferE m superCellSize fieldE fieldB net = overlapStart nRanks procs bufferE m superCellSize fieldB fieldE net"

definition afterCurrent_B ::
    "SimParams \<Rightarrow> AbsorberParams \<Rightarrow> Env \<Rightarrow> MappingDescription \<Rightarrow> DataSpace \<Rightarrow> int \<Rightarrow> MovingWindow \<Rightarrow> vectorField \<Rightarrow> (MovingWindow \<times> vectorField) option" where
  "afterCurrent_B par ap env m superCellSize currentStep window fieldB = absorbBorder par ap env m superCellSize currentStep window fieldB"

text \<open>The same steps by one solver on the whole grid.\<close>

definition globalStepE :: "PhysUnits \<Rightarrow> nat \<Rightarrow> vectorField \<Rightarrow> vectorField \<Rightarrow> vectorField" where
  "globalStepE u DIM E B = (\<lambda>(g, c). KernelUpdateE u (CurlLeft DIM (cellSize u)) E B g (g, c))"

definition globalStepB :: "PhysUnits \<Rightarrow> nat \<Rightarrow> vectorField \<Rightarrow> vectorField \<Rightarrow> vectorField" where
  "globalStepB u DIM B E = (\<lambda>(g, c). KernelUpdateBHalf u (CurlRight DIM (cellSize u)) B E g (g, c))"

lemma globalStepB_at: "globalStepB u DIM B E (g, c) = B (g, c) + (if c < 3 then changeB u DIM E g c else 0)"
  and globalStepE_at: "globalStepE u DIM E B (g, c) = E (g, c) + (if c < 3 then changeE u DIM B g c else 0)"
  by (simp_all add: globalStepB_def globalStepE_def stepB.kern_at stepE.kern_at)

lemma globalStepB_periodic:
  assumes "periodicField DIM P B" "periodicField DIM P E"
  shows "periodicField DIM P (globalStepB u DIM B E)"
  using assms stepB.change_periodic [OF assms(2)] by (auto simp: periodicField_def globalStepB_at)

text \<open>What the theorems on the distributed solver assume of the processes and of the buffer of the field that is exchanged.\<close>

definition processGrid :: "(int \<Rightarrow> DataSpace) \<Rightarrow> (DataSpace \<Rightarrow> int) \<Rightarrow> nat \<Rightarrow> (int \<Rightarrow> Communicator) \<Rightarrow> bool" where
  "processGrid cart_coords cart_rank DIM c \<longleftrightarrow>
     cart_topology cart_coords cart_rank (take DIM (dims (c 0))) (take DIM (periodic (c 0)))
     \<and> (\<forall>r r'. comm_wf DIM (c r) \<and> sameGrid (c r) (c r')) \<and> (\<forall>d < DIM. periodic (c 0) ! d \<noteq> 0)"

definition solverArea :: "nat \<Rightarrow> MappingDescription \<Rightarrow> DataSpace \<Rightarrow> bool" where
  "solverArea DIM m sc \<longleftrightarrow> mapping_wf m \<and> length (gridSuperCells m) = DIM \<and> length sc = DIM \<and> (\<forall>s \<in> set sc. 0 < s) \<and> 1 \<le> borderSuperCells m"

definition fieldBuffer :: "nat \<Rightarrow> MappingDescription \<Rightarrow> DataSpace \<Rightarrow> int \<Rightarrow> GridBuffer \<Rightarrow> bool" where
  "fieldBuffer DIM m sc \<sigma> gb \<longleftrightarrow> guardBuffer gb \<and> gridLayout gb = getGridLayout sc m \<and> receivesFaces DIM \<sigma> gb"

lemma layout_length: "solverArea DIM m sc \<Longrightarrow> length (layout_dataSpace (getGridLayout sc m)) = DIM"
  by (simp add: solverArea_def getGridLayout_def GridLayout_of_def vec_simps)

lemma periodic_gridI:
  assumes "mpi_messages isend arrive sendDone pending" "processGrid cart_coords cart_rank DIM c" "solverArea DIM m sc" "fieldBuffer DIM m sc \<sigma> gb"
  shows "periodic_grid isend arrive sendDone pending cart_coords cart_rank DIM c gb"
proof -
  have g: "guard_exchange isend arrive sendDone pending cart_coords cart_rank DIM c gb"
    using assms layout_length [OF assms(3)] by (intro guard_exchangeI) (auto simp: processGrid_def fieldBuffer_def)
  show ?thesis using assms(2) by (intro periodic_grid.intro [OF g]) (simp add: periodic_grid_axioms_def processGrid_def)
qed

lemma overlapped_updateI:
  assumes "mpi_messages isend arrive sendDone pending" "processGrid cart_coords cart_rank DIM c" "solverArea DIM m sc" "fieldBuffer DIM m sc \<sigma> gb"
    and "stencil_kernel kern change DIM \<sigma>"
  shows "overlapped_update isend arrive sendDone pending cart_coords cart_rank DIM c gb m sc kern change \<sigma>"
proof -
  have "area_kernels m sc" using assms(3) by (simp add: area_kernels_def solverArea_def)
  then show ?thesis using periodic_gridI [OF assms(1-4)] assms(3-5)
    by (intro overlapped_update.intro) (simp_all add: overlapped_update_axioms_def solverArea_def fieldBuffer_def)
qed

context overlapped_update
begin

lemma halfStep_shown:
  assumes r: "0 \<le> r" "r < gridSize DIM c" and E: "showsField lay (comm r) E \<Phi>" "showsSide lay (comm r) 1 E \<Phi>" and B: "showsField lay (comm r) B \<Gamma>"
  shows "showsField lay (comm r) (updateBHalf u DIM (areaKernelCells CORE_BORDER m sc) B E) (globalStepB u DIM \<Gamma> \<Phi>)"
  unfolding showsField_def
proof (intro allI impI)
  fix g and c' :: nat assume g: "interior lay g" and c': "c' < 3"
  have lg: "length g = DIM" using g lengths by (simp add: interior_def)
  have "changeB u DIM E g c' = changeB u DIM \<Phi> (globalCell lay (comm r) g) c'"
  proof (rule stepB.change_local [OF lg globalCell_length [OF lg r] c'])
    show "\<forall>c' < 3. E (g, c') = \<Phi> (globalCell lay (comm r) g, c')" using E(1) g by (simp add: showsField_def)
    show "\<forall>d < DIM. \<forall>c' < 3. E (g[d := g ! d + 1], c') = \<Phi> ((globalCell lay (comm r) g)[d := globalCell lay (comm r) g ! d + 1], c')"
      using E(2) g lg globalCell_step [OF lg r] by (simp add: showsSide_def)
  qed
  moreover have "updateBHalf u DIM (areaKernelCells CORE_BORDER m sc) B E (g, c') = B (g, c') + changeB u DIM E g c'"
    using updateBHalf_at [OF areas.area_distinct] g c' by (simp add: interior_cells changeB_def)
  ultimately show "updateBHalf u DIM (areaKernelCells CORE_BORDER m sc) B E (g, c') = globalStepB u DIM \<Gamma> \<Phi> (globalCell lay (comm r) g, c')"
    using B g c' by (simp add: showsField_def globalStepB_at)
qed

end

lemma beforeCurrent_shown:
  fixes isend :: "'n \<Rightarrow> envelope \<Rightarrow> real vec list \<Rightarrow> 'n"
  assumes "mpi_messages isend arrive sendDone pending" "processGrid cart_coords cart_rank DIM c" "solverArea DIM m sc" "fieldBuffer DIM m sc (- 1) bufferB"
    and E: "\<forall>q. 0 \<le> q \<and> q < gridSize DIM c \<longrightarrow> showsField (getGridLayout sc m) (communicators cart_coords cart_rank DIM c q) (E q) \<Phi>
        \<and> showsSide (getGridLayout sc m) (communicators cart_coords cart_rank DIM c q) 1 (E q) \<Phi>"
    and B: "\<forall>q. 0 \<le> q \<and> q < gridSize DIM c \<longrightarrow> showsField (getGridLayout sc m) (communicators cart_coords cart_rank DIM c q) (B q) \<Gamma>"
  shows "\<forall>q. 0 \<le> q \<and> q < gridSize DIM c \<longrightarrow> showsField (getGridLayout sc m) (communicators cart_coords cart_rank DIM c q)
      (updateBHalf u DIM (areaKernelCells CORE_BORDER m sc) (B q) (E q)) (globalStepB u DIM \<Gamma> \<Phi>)"
proof -
  note O = overlapped_updateI [OF assms(1-4) stepE.stencil_kernel_axioms [of u DIM]]
  have lay: "gridLayout bufferB = getGridLayout sc m" using assms(4) by (simp add: fieldBuffer_def)
  show ?thesis using overlapped_update.halfStep_shown [OF O] E B unfolding lay by blast
qed

section \<open>Properties\<close>

text \<open>
  C2. The first half of a step on many processes is the step on the whole grid. When all processes of a periodic grid show a
  global electric field, next to their upper faces too, and a global magnetic field, then for every interleaving of
  the exchange of the magnetic field with the kernels on CORE, a process that has finished \<open>update_beforeCurrent\<close> shows the global fields after
  the half step of B and the step of E, and its magnetic field is also right next to its lower faces.
\<close>

theorem update_beforeCurrent_distributed:
  assumes mpi: "mpi_messages isend arrive sendDone pending" "\<forall>e. pending net e = []"
    and grid: "processGrid cart_coords cart_rank DIM c" "solverArea DIM m sc" "fieldBuffer DIM m sc (- 1) bufferB"
    and E: "\<forall>q. 0 \<le> q \<and> q < gridSize DIM c \<longrightarrow> showsField (getGridLayout sc m) (communicators cart_coords cart_rank DIM c q) (E q) \<Phi>
        \<and> showsSide (getGridLayout sc m) (communicators cart_coords cart_rank DIM c q) 1 (E q) \<Phi>" "periodicField DIM (globalPeriod DIM c (getGridLayout sc m)) \<Phi>"
    and B: "\<forall>q. 0 \<le> q \<and> q < gridSize DIM c \<longrightarrow> showsField (getGridLayout sc m) (communicators cart_coords cart_rank DIM c q) (B q) \<Gamma>" "periodicField DIM (globalPeriod DIM c (getGridLayout sc m)) \<Gamma>"
    and run: "(overlapStep isend arrive sendDone (communicators cart_coords cart_rank DIM c) (KernelUpdateE u (CurlLeft DIM (cellSize u))))\<^sup>*\<^sup>*
        (beforeCurrent_start u DIM (gridSize DIM c) (communicators cart_coords cart_rank DIM c) bufferB m sc E B net) s"
    and fin: "overlapFinished s r" "0 \<le> r" "r < gridSize DIM c"
  shows "showsField (getGridLayout sc m) (communicators cart_coords cart_rank DIM c r) (updated s r) (globalStepE u DIM \<Phi> (globalStepB u DIM \<Gamma> \<Phi>))
    \<and> showsField (getGridLayout sc m) (communicators cart_coords cart_rank DIM c r) (asField (deviceField (exchanged s) r)) (globalStepB u DIM \<Gamma> \<Phi>)
    \<and> showsSide (getGridLayout sc m) (communicators cart_coords cart_rank DIM c r) (- 1) (asField (deviceField (exchanged s) r)) (globalStepB u DIM \<Gamma> \<Phi>)"
proof -
  let ?G = "globalStepB u DIM \<Gamma> \<Phi>"
  note O = overlapped_updateI [OF mpi(1) grid stepE.stencil_kernel_axioms [of u DIM]]
  have lay: "gridLayout bufferB = getGridLayout sc m" using grid(3) by (simp add: fieldBuffer_def)
  note shown = beforeCurrent_shown [OF mpi(1) grid E(1) B(1), of u]
  have per: "periodicField DIM (globalPeriod DIM c (getGridLayout sc m)) ?G" by (rule globalStepB_periodic [OF B(2) E(2)])
  note I = overlapped_update.run_overlapInv [OF O run [unfolded beforeCurrent_start_def] mpi(2), unfolded lay, OF shown per]
  note R = overlapped_update.overlap_result [OF O I fin mpi(2), unfolded lay, OF shown per]
  have "showsField (getGridLayout sc m) (communicators cart_coords cart_rank DIM c r) (updated s r) (globalStepE u DIM \<Phi> ?G)"
    using R(1) E(1) fin(2,3) by (simp add: showsField_def globalStepE_at)
  then show ?thesis using R(3,4) by blast
qed

lemma mask_full:
  assumes "periodic_grid isend arrive sendDone pending cart_coords cart_rank DIM c gb" "0 \<le> q" "q < gridSize DIM c"
    and "getCommunicationMask env = communicationMask (communicators cart_coords cart_rank DIM c q)" "length sc = DIM"
  shows "absorbBorder par ap env m sc t w F = Some (fst (getSlideCounter par env t w), F)"
  using periodic_grid.all_neighbours [OF assms(1-3)] assms(4,5) by (intro absorbBorder_inner) (metis gr0I not_le)

text \<open>
  C3. The second half of a step agrees with the whole grid too, and restores what the first half needs. On a periodic grid without laser the
  absorber changes nothing; after the overlapped half step of B and its final exchange every process shows the global magnetic field, next to
  its lower faces too, and its electric field is right next to the upper faces.
\<close>

theorem update_afterCurrent_distributed:
  assumes mpi: "mpi_messages isend arrive sendDone pending" "\<forall>e. pending net e = []" "\<forall>e. pending net' e = []"
    and grid: "processGrid cart_coords cart_rank DIM c" "solverArea DIM m sc" "fieldBuffer DIM m sc 1 bufferE" "fieldBuffer DIM m sc (- 1) bufferB"
    and laser: "laser_INIT_TIME ap \<le> 0"
    and env: "\<forall>q. getCommunicationMask (env q) = communicationMask (communicators cart_coords cart_rank DIM c q)"
    and E: "\<forall>q. 0 \<le> q \<and> q < gridSize DIM c \<longrightarrow> showsField (getGridLayout sc m) (communicators cart_coords cart_rank DIM c q) (E q) \<Phi>"
      "periodicField DIM (globalPeriod DIM c (getGridLayout sc m)) \<Phi>"
    and B: "\<forall>q. 0 \<le> q \<and> q < gridSize DIM c \<longrightarrow> showsField (getGridLayout sc m) (communicators cart_coords cart_rank DIM c q) (B q) \<Gamma>"
      "periodicField DIM (globalPeriod DIM c (getGridLayout sc m)) \<Gamma>"
    and absorbE: "\<forall>q. 0 \<le> q \<and> q < gridSize DIM c \<longrightarrow> map_option snd (afterCurrent_E par ap laserManipulation (env q) m sc t (window q) (E q)) = Some (E' q)"
    and run: "(overlapStep isend arrive sendDone (communicators cart_coords cart_rank DIM c) (KernelUpdateBHalf u (CurlRight DIM (cellSize u))))\<^sup>*\<^sup>*
        (afterCurrent_start (gridSize DIM c) (communicators cart_coords cart_rank DIM c) bufferE m sc E' B net) s"
    and fin: "\<forall>q. 0 \<le> q \<and> q < gridSize DIM c \<longrightarrow> overlapFinished s q"
    and absorbB: "\<forall>q. 0 \<le> q \<and> q < gridSize DIM c \<longrightarrow> map_option snd (afterCurrent_B par ap (env q) m sc t (window' q) (updated s q)) = Some (B' q)"
    and last: "(haloStep isend arrive sendDone (communicators cart_coords cart_rank DIM c))\<^sup>*\<^sup>*
        (startCommunication (gridSize DIM c) (communicators cart_coords cart_rank DIM c) bufferB (\<lambda>q. readVec (B' q)) net') h"
    and finB: "\<forall>ex. receiveFinishedOn h r ex" "0 \<le> r" "r < gridSize DIM c"
  shows "showsField (getGridLayout sc m) (communicators cart_coords cart_rank DIM c r) (asField (deviceField h r)) (globalStepB u DIM \<Gamma> \<Phi>)
    \<and> showsSide (getGridLayout sc m) (communicators cart_coords cart_rank DIM c r) (- 1) (asField (deviceField h r)) (globalStepB u DIM \<Gamma> \<Phi>)
    \<and> showsField (getGridLayout sc m) (communicators cart_coords cart_rank DIM c r) (asField (deviceField (exchanged s) r)) \<Phi>
    \<and> showsSide (getGridLayout sc m) (communicators cart_coords cart_rank DIM c r) 1 (asField (deviceField (exchanged s) r)) \<Phi>"
proof -
  let ?comm = "communicators cart_coords cart_rank DIM c" and ?l = "getGridLayout sc m" and ?G = "globalStepB u DIM \<Gamma> \<Phi>"
  note O = overlapped_updateI [OF mpi(1) grid(1-3) stepB.stencil_kernel_axioms [of u DIM]]
  note PE = periodic_gridI [OF mpi(1) grid(1-3)] and PB = periodic_gridI [OF mpi(1) grid(1,2,4)]
  have lay: "gridLayout bufferE = ?l" "gridLayout bufferB = ?l" and sc: "length sc = DIM" using grid by (simp_all add: fieldBuffer_def solverArea_def)
  note keep = mask_full [OF PE _ _ env [rule_format] sc]
  have "E' q = E q" "B' q = updated s q" if "0 \<le> q" "q < gridSize DIM c" for q
    using absorbE absorbB keep [OF that] laser that by (auto simp: afterCurrent_E_def afterCurrent_B_def)
  note same = this
  have E': "\<forall>q. 0 \<le> q \<and> q < gridSize DIM c \<longrightarrow> showsField ?l (?comm q) (E' q) \<Phi>" using E(1) same by simp
  note I = overlapped_update.run_overlapInv [OF O run [unfolded afterCurrent_start_def] mpi(2), unfolded lay, OF E' E(2)]
  note R = overlapped_update.overlap_result [OF O I _ _ _ mpi(2), unfolded lay, OF _ _ _ E' E(2)]
  have "showsField ?l (?comm q) (B' q) ?G" if q: "0 \<le> q" "q < gridSize DIM c" for q
    using R(1) [OF fin [rule_format, OF conjI, OF q] q] B(1) q same(2) [OF q] by (simp add: showsField_def globalStepB_at)
  then have B': "\<forall>q. 0 \<le> q \<and> q < gridSize DIM c \<longrightarrow> showsField ?l (?comm q) (B' q) ?G" by blast
  have per: "periodicField DIM (globalPeriod DIM c ?l) ?G" by (rule globalStepB_periodic [OF B(2) E(2)])
  have faces: "receivesFaces DIM (- 1) bufferB" using grid(4) by (simp add: fieldBuffer_def)
  have "showsField ?l (?comm r) (asField (deviceField h r)) ?G"
    using periodic_grid.interior_shown [OF PB mpi(3) last, of r ?G, unfolded lay] B' finB(2,3) by (simp add: showsField_def)
  moreover have "showsSide ?l (?comm r) (- 1) (asField (deviceField h r)) ?G"
    using periodic_grid.face_shown [OF PB mpi(3) last finB faces, unfolded lay, OF _ B' per] by simp
  moreover note R(3,4) [OF fin [rule_format, OF conjI, OF finB(2,3)] finB(2,3)]
  ultimately show ?thesis by blast
qed

text \<open>
  C20. The overlap never gets stuck: in a state of a half step in which no event is possible any more, every process
  has finished its kernels and its tasks; and such a state is reached from every state of a run.
\<close>

theorem overlapped_update_ends:
  assumes mpi: "mpi_messages isend arrive sendDone pending" "\<forall>e. pending net e = []"
    and grid: "processGrid cart_coords cart_rank DIM c" "solverArea DIM m sc" "fieldBuffer DIM m sc (- 1) bufferB"
    and E: "\<forall>q. 0 \<le> q \<and> q < gridSize DIM c \<longrightarrow> showsField (getGridLayout sc m) (communicators cart_coords cart_rank DIM c q) (E q) \<Phi>
        \<and> showsSide (getGridLayout sc m) (communicators cart_coords cart_rank DIM c q) 1 (E q) \<Phi>" "periodicField DIM (globalPeriod DIM c (getGridLayout sc m)) \<Phi>"
    and B: "\<forall>q. 0 \<le> q \<and> q < gridSize DIM c \<longrightarrow> showsField (getGridLayout sc m) (communicators cart_coords cart_rank DIM c q) (B q) \<Gamma>"
      "periodicField DIM (globalPeriod DIM c (getGridLayout sc m)) \<Gamma>"
    and run: "(overlapStep isend arrive sendDone (communicators cart_coords cart_rank DIM c) (KernelUpdateE u (CurlLeft DIM (cellSize u))))\<^sup>*\<^sup>*
        (beforeCurrent_start u DIM (gridSize DIM c) (communicators cart_coords cart_rank DIM c) bufferB m sc E B net) s"
  shows "((\<nexists>s'. overlapStep isend arrive sendDone (communicators cart_coords cart_rank DIM c) (KernelUpdateE u (CurlLeft DIM (cellSize u))) s s') \<longrightarrow>
      (\<forall>r. overlapFinished s r))
    \<and> (\<exists>s'. (overlapStep isend arrive sendDone (communicators cart_coords cart_rank DIM c) (KernelUpdateE u (CurlLeft DIM (cellSize u))))\<^sup>*\<^sup>* s s'
        \<and> (\<forall>r. overlapFinished s' r))"
proof -
  let ?G = "globalStepB u DIM \<Gamma> \<Phi>"
  note O = overlapped_updateI [OF mpi(1) grid stepE.stencil_kernel_axioms [of u DIM]]
  have lay: "gridLayout bufferB = getGridLayout sc m" using grid(3) by (simp add: fieldBuffer_def)
  note shown = beforeCurrent_shown [OF mpi(1) grid E(1) B(1), of u]
  have per: "periodicField DIM (globalPeriod DIM c (getGridLayout sc m)) ?G" by (rule globalStepB_periodic [OF B(2) E(2)])
  note I = overlapped_update.run_overlapInv [OF O run [unfolded beforeCurrent_start_def] mpi(2), unfolded lay, OF shown per]
  show ?thesis
    using overlapped_update.overlap_stuck [OF O I mpi(2)] overlapped_update.overlap_finishes [OF O I mpi(2), unfolded lay, OF shown per] by blast
qed

section \<open>A sample grid\<close>

definition torusGrid :: Communicator where
  "torusGrid = \<lparr>coordinates = [0, 0, 0], periodic = [1, 1, 0], ranks = replicate 27 0, dims = [2, 1, 1],
     communicationMask = Mask_empty, hostRank = 0, yoffset = 0, mpiRank = 0, mpiSize = 2\<rparr>"

definition torusArea :: MappingDescription where
  "torusArea = \<lparr>gridSuperCells = [5, 5], guardingSuperCells = 1, borderSuperCells = 1\<rparr>"

definition allDirections :: Mask where
  "allDirections = foldl (\<lambda>m i. Mask_join m (Mask_of i)) Mask_empty [1..<9]"

definition torusBuffer :: GridBuffer where
  "torusBuffer = (case addExchange GUARD allDirections [1, 1] 3 (GridBuffer_of (getGridLayout [2, 2] torusArea), []) of Inr (gb, _) \<Rightarrow> gb | Inl _ \<Rightarrow> GridBuffer_of (getGridLayout [2, 2] torusArea))"

lemma torus_layout: "getGridLayout [2, 2] torusArea = \<lparr>layout_dataSpace = [6, 6], layout_guard = [2, 2]\<rparr>"
  by (simp add: getGridLayout_def torusArea_def GridLayout_of_def vec_simps)

lemma torus_processes: "processGrid (rowMajor_coords [2, 1]) (rowMajor_rank [2, 1]) 2 (\<lambda>r. torusGrid)"
  using grid21.row_major.cart_topology_axioms
  by (auto simp: processGrid_def torusGrid_def comm_wf_def sameGrid_def less_Suc_eq numeral_2_eq_2)

lemma torus_area: "solverArea 2 torusArea [2, 2]"
  by (simp add: solverArea_def torusArea_def mapping_wf_def)

lemma torusBuffer_facts:
  "guardBuffer torusBuffer" "gridLayout torusBuffer = getGridLayout [2, 2] torusArea"
  "\<And>ex. 0 < ex \<Longrightarrow> ex < 9 \<Longrightarrow> receiveExchanges torusBuffer (mirror_code ex) = ExchangeIntern_of (getGridLayout [2, 2] torusArea) [1, 1] (mirror_code ex) (uniqTag 3 ex) GUARD"
proof -
  let ?l = "getGridLayout [2, 2] torusArea"
  have l: "layout_ok ?l" unfolding torus_layout by (simp add: layout_ok_def all_less2)
  have g: "guarding_ok ?l [1, 1]" unfolding torus_layout by (simp add: guarding_ok_def all_less2)
  have gc: "\<not> isOneDimensionGreaterThan [1, 1] (layout_guard ?l)" unfolding torus_layout by code_simp
  have two: "length (layout_dataSpace ?l) = 2" unfolding torus_layout by simp
  have first: "firstSend (length (layout_dataSpace ?l)) allDirections = Some RIGHT" unfolding two by code_simp
  have all: "isSet allDirections (mirror_code ex)" if "0 < ex" "ex < 9" for ex
  proof -
    have "\<forall>ex \<in> set [1..<9]. isSet allDirections (mirror_code ex)" by code_simp
    then show ?thesis using that by (auto simp del: upt_rec_numeral)
  qed
  have fresh: "uniqTag 3 RIGHT \<notin> set []" by simp
  obtain gb where gb: "addExchange GUARD allDirections [1, 1] 3 (GridBuffer_of ?l, []) = Inr (gb, [uniqTag 3 RIGHT])"
      "\<forall>ex. 0 < ex \<and> ex < 3 ^ 2 \<and> isSet allDirections (mirror_code ex) \<longrightarrow>
            sendExchanges gb ex = ExchangeIntern_of ?l [1, 1] ex (uniqTag 3 ex) BORDER
            \<and> receiveExchanges gb (mirror_code ex) = ExchangeIntern_of ?l [1, 1] (mirror_code ex) (uniqTag 3 ex) GUARD"
    using addExchange_fresh(2) [OF l gc first fresh] unfolding two append_Nil by blast
  have eq: "torusBuffer = gb" using gb(1) by (simp add: torusBuffer_def)
  have new: "guardBuffer (GridBuffer_of ?l)" "gridLayout (GridBuffer_of ?l) = ?l" using guardBuffer.created [OF l] by (auto simp: GridBuffer_of_def)
  show "guardBuffer torusBuffer" using guardBuffer.added [OF new(1) _ gb(1)] g by (simp add: eq new(2))
  show "gridLayout torusBuffer = ?l" using addExchange_inv [OF gb_inv_new [OF l] _ gb(1)] g by (simp add: eq new(2))
  show "receiveExchanges torusBuffer (mirror_code ex) = ExchangeIntern_of ?l [1, 1] (mirror_code ex) (uniqTag 3 ex) GUARD" if "0 < ex" "ex < 9" for ex
    using gb(2) that all [OF that] by (simp add: eq)
qed

lemma torusBuffer_fields: "fieldBuffer 2 torusArea [2, 2] (- 1) torusBuffer" "fieldBuffer 2 torusArea [2, 2] 1 torusBuffer"
proof -
  let ?l = "getGridLayout [2, 2] torusArea"
  have size: "\<exists>e. ExchangeIntern_of ?l [1, 1] ex t GUARD = Some e \<and> (\<forall>d < 2. 1 \<le> ex_size e ! d)" for ex t
  proof -
    have "\<not> isOneDimensionGreaterThan [1, 1] [2, 2]" by code_simp
    then show ?thesis unfolding torus_layout by (simp add: ExchangeIntern_of_def Let_def getGuard_def getDataSpaceWithoutGuarding_def less_Suc_eq numeral_2_eq_2)
  qed
  have faces: "receivesFaces 2 \<sigma> torusBuffer" if s: "\<sigma> = - 1 \<or> \<sigma> = 1" for \<sigma>
    unfolding receivesFaces_def
  proof (intro allI impI)
    fix d :: nat assume d: "d < 2"
    note code = faceCode_digits [OF d s]
    let ?ex = "mirror_code (faceCode 2 d \<sigma>)"
    have m: "0 < ?ex" "?ex < 9" "mirror_code ?ex = faceCode 2 d \<sigma>" using mirror_bounds [of ?l "faceCode 2 d \<sigma>"] code(2,3) torus_layout by (auto simp: layout_ok_def all_less2)
    obtain e where e: "receiveExchanges torusBuffer (faceCode 2 d \<sigma>) = Some e" "\<forall>d < 2. 1 \<le> ex_size e ! d"
      using torusBuffer_facts(3) [OF m(1,2)] size [of "faceCode 2 d \<sigma>"] m(3) by auto
    then show "\<exists>e. receiveExchanges torusBuffer (faceCode 2 d \<sigma>) = Some e \<and> 1 \<le> ex_size e ! d" using d by blast
  qed
  show "fieldBuffer 2 torusArea [2, 2] (- 1) torusBuffer" "fieldBuffer 2 torusArea [2, 2] 1 torusBuffer"
    using torusBuffer_facts(1,2) faces by (simp_all add: fieldBuffer_def)
qed

abbreviation torus :: "int \<Rightarrow> Communicator" where
  "torus \<equiv> communicators (rowMajor_coords [2, 1]) (rowMajor_rank [2, 1]) 2 (\<lambda>r. torusGrid)"

abbreviation torusLayout :: GridLayout where
  "torusLayout \<equiv> getGridLayout [2, 2] torusArea"

definition torusE :: vectorField where
  "torusE = (\<lambda>(g, c). real_of_int (g ! 0 mod 12 + int c * (g ! 1 mod 6)))"

definition torusB :: vectorField where
  "torusB = (\<lambda>(g, c). real_of_int (g ! 1 mod 6))"

definition localPart :: "vectorField \<Rightarrow> int \<Rightarrow> vectorField" where
  "localPart G r = (\<lambda>(g, c). G (globalCell torusLayout (torus r) g, c))"

lemma torus_fields:
  "showsField torusLayout (torus r) (localPart G r) G" "showsSide torusLayout (torus r) \<sigma> (localPart G r) G"
  "periodicField 2 (globalPeriod 2 (\<lambda>r. torusGrid) torusLayout) torusE" "periodicField 2 (globalPeriod 2 (\<lambda>r. torusGrid) torusLayout) torusB"
proof -
  show "showsField torusLayout (torus r) (localPart G r) G" "showsSide torusLayout (torus r) \<sigma> (localPart G r) G"
    by (simp_all add: showsField_def showsSide_def localPart_def)
  have p: "globalPeriod 2 (\<lambda>r. torusGrid) torusLayout = [12, 6]" by (simp add: globalPeriod_def torus_layout torusGrid_def vec_simps)
  show "periodicField 2 (globalPeriod 2 (\<lambda>r. torusGrid) torusLayout) torusE" "periodicField 2 (globalPeriod 2 (\<lambda>r. torusGrid) torusLayout) torusB"
    unfolding p by (auto simp: periodicField_def torusE_def torusB_def less_Suc_eq numeral_2_eq_2)
qed

lemma torus_size: "gridSize 2 (\<lambda>r. torusGrid) = 2"
  by (simp add: gridSize_def torusGrid_def)

interpretation torusCells: area_kernels torusArea "[2, 2]"
  using torus_area by unfold_locales (simp_all add: solverArea_def)

interpretation torusProcesses: periodic_grid queue_isend queue_arrive "\<lambda>n e. True" "\<lambda>n. n" "rowMajor_coords [2, 1]" "rowMajor_rank [2, 1]" 2 "\<lambda>r. torusGrid" torusBuffer
  by (rule periodic_gridI [OF queues.mpi_messages_axioms torus_processes torus_area torusBuffer_fields(1)])

interpretation torusStepE: overlapped_update queue_isend queue_arrive "\<lambda>n e. True" "\<lambda>n. n" "rowMajor_coords [2, 1]" "rowMajor_rank [2, 1]" 2 "\<lambda>r. torusGrid" torusBuffer
    torusArea "[2, 2]" "KernelUpdateE samplePhys (CurlLeft 2 (cellSize samplePhys))" "changeE samplePhys 2" "- 1"
  by (rule overlapped_updateI [OF queues.mpi_messages_axioms torus_processes torus_area torusBuffer_fields(1) stepE.stencil_kernel_axioms])

interpretation torusStepB: overlapped_update queue_isend queue_arrive "\<lambda>n e. True" "\<lambda>n. n" "rowMajor_coords [2, 1]" "rowMajor_rank [2, 1]" 2 "\<lambda>r. torusGrid" torusBuffer
    torusArea "[2, 2]" "KernelUpdateBHalf samplePhys (CurlRight 2 (cellSize samplePhys))" "changeB samplePhys 2" 1
  by (rule overlapped_updateI [OF queues.mpi_messages_axioms torus_processes torus_area torusBuffer_fields(2) stepB.stencil_kernel_axioms])

lemma torus_shown: "\<forall>q. 0 \<le> q \<and> q < gridSize 2 (\<lambda>r. torusGrid) \<longrightarrow> showsField torusLayout (torus q) (localPart G q) G"
    "\<forall>q. 0 \<le> q \<and> q < gridSize 2 (\<lambda>r. torusGrid) \<longrightarrow> showsField torusLayout (torus q) (localPart G q) G \<and> showsSide torusLayout (torus q) 1 (localPart G q) G"
  using torus_fields(1,2) by blast+

lemma torus_beforeCurrent:
  "\<exists>s. torusStepE.step\<^sup>*\<^sup>* (beforeCurrent_start samplePhys 2 (gridSize 2 (\<lambda>r. torusGrid)) torus torusBuffer torusArea [2, 2] (localPart torusE) (localPart torusB) (\<lambda>e. [])) s
     \<and> (\<forall>r. overlapFinished s r)"
proof -
  note shown = beforeCurrent_shown [OF queues.mpi_messages_axioms torus_processes torus_area torusBuffer_fields(1) torus_shown(2) [of torusE] torus_shown(1) [of torusB], of samplePhys]
  note lay = torusBuffer_facts(2)
  note per = globalStepB_periodic [OF torus_fields(4,3), of samplePhys]
  show ?thesis unfolding beforeCurrent_start_def
    by (rule torusStepE.overlap_finishes [OF torusStepE.start_overlapInv, unfolded lay, OF _ shown per]) simp
qed

theorem update_beforeCurrent_distributed_witness:
  "\<exists>s. torusStepE.step\<^sup>*\<^sup>* (beforeCurrent_start samplePhys 2 (gridSize 2 (\<lambda>r. torusGrid)) torus torusBuffer torusArea [2, 2] (localPart torusE) (localPart torusB) (\<lambda>e. [])) s
     \<and> showsField torusLayout (torus 1) (updated s 1) (globalStepE samplePhys 2 torusE (globalStepB samplePhys 2 torusB torusE))"
proof -
  obtain s where s: "torusStepE.step\<^sup>*\<^sup>* (beforeCurrent_start samplePhys 2 (gridSize 2 (\<lambda>r. torusGrid)) torus torusBuffer torusArea [2, 2] (localPart torusE) (localPart torusB) (\<lambda>e. [])) s"
      "\<forall>r. overlapFinished s r" using torus_beforeCurrent by blast
  have "overlapFinished s 1" using s(2) by blast
  then show ?thesis
    using update_beforeCurrent_distributed [OF queues.mpi_messages_axioms _ torus_processes torus_area torusBuffer_fields(1) torus_shown(2) [of torusE] torus_fields(3) torus_shown(1) [of torusB] torus_fields(4) s(1), of 1] s(1)
    by (auto simp: torus_size)
qed

theorem overlapped_update_ends_witness:
  "\<exists>s. torusStepE.step\<^sup>*\<^sup>* (beforeCurrent_start samplePhys 2 (gridSize 2 (\<lambda>r. torusGrid)) torus torusBuffer torusArea [2, 2] (localPart torusE) (localPart torusB) (\<lambda>e. [])) s
     \<and> (\<forall>r. overlapFinished s r)"
  using overlapped_update_ends [OF queues.mpi_messages_axioms _ torus_processes torus_area torusBuffer_fields(1) torus_shown(2) [of torusE] torus_fields(3) torus_shown(1) [of torusB] torus_fields(4) rtranclp.rtrancl_refl,
      of "\<lambda>e. []" samplePhys] by simp

definition torusAbsorber :: AbsorberParams where
  "torusAbsorber = \<lparr>ABSORBER_CELLS = (\<lambda>d s. 32), ABSORBER_STRENGTH = (\<lambda>d s. 1 / 1000), laser_INIT_TIME = 0\<rparr>"

definition torusEnv :: "int \<Rightarrow> Env" where
  "torusEnv r = sampleColumn\<lparr>comm := torus r\<rparr>"

theorem update_afterCurrent_distributed_witness:
  "\<exists>s h. torusStepB.step\<^sup>*\<^sup>* (afterCurrent_start (gridSize 2 (\<lambda>r. torusGrid)) torus torusBuffer torusArea [2, 2] (localPart torusE) (localPart torusB) (\<lambda>e. [])) s
     \<and> (haloStep queue_isend queue_arrive (\<lambda>n e. True) torus)\<^sup>*\<^sup>* (startCommunication (gridSize 2 (\<lambda>r. torusGrid)) torus torusBuffer (\<lambda>q. readVec (updated s q)) (\<lambda>e. [])) h
     \<and> showsSide torusLayout (torus 0) (- 1) (asField (deviceField h 0)) (globalStepB samplePhys 2 torusB torusE)"
proof -
  note lay = torusBuffer_facts(2)
  obtain s where s: "torusStepB.step\<^sup>*\<^sup>* (afterCurrent_start (gridSize 2 (\<lambda>r. torusGrid)) torus torusBuffer torusArea [2, 2] (localPart torusE) (localPart torusB) (\<lambda>e. [])) s"
      "\<forall>r. overlapFinished s r"
    unfolding afterCurrent_start_def
    using torusStepB.overlap_finishes [OF torusStepB.start_overlapInv, unfolded lay, OF _ torus_shown(1) torus_fields(3), of "\<lambda>e. []" "localPart torusB"] by auto
  obtain h where h: "(haloStep queue_isend queue_arrive (\<lambda>n e. True) torus)\<^sup>*\<^sup>* (startCommunication (gridSize 2 (\<lambda>r. torusGrid)) torus torusBuffer (\<lambda>q. readVec (updated s q)) (\<lambda>e. [])) h"
      "\<forall>r ex. receiveFinishedOn h r ex" using torusProcesses.finishing_run [of "\<lambda>e. []" "\<lambda>q. readVec (updated s q)"] by auto
  have env: "\<forall>q. getCommunicationMask (torusEnv q) = communicationMask (torus q)" by (simp add: torusEnv_def getCommunicationMask_def)
  have keep: "absorbBorder samplePar torusAbsorber (torusEnv q) torusArea [2, 2] 0 MovingWindow_init F = Some (fst (getSlideCounter samplePar (torusEnv q) 0 MovingWindow_init), F)"
    if "0 \<le> q \<and> q < gridSize 2 (\<lambda>r. torusGrid)" for q F
    using that env by (intro mask_full [OF torusProcesses.periodic_grid_axioms]) auto
  have "map_option snd (afterCurrent_E samplePar torusAbsorber (\<lambda>t F. F) (torusEnv q) torusArea [2, 2] 0 MovingWindow_init (localPart torusE q)) = Some (localPart torusE q)"
    "map_option snd (afterCurrent_B samplePar torusAbsorber (torusEnv q) torusArea [2, 2] 0 MovingWindow_init (updated s q)) = Some (updated s q)"
    if "0 \<le> q \<and> q < gridSize 2 (\<lambda>r. torusGrid)" for q
    using keep [OF that] by (simp_all add: afterCurrent_E_def afterCurrent_B_def)
  then have a: "\<forall>q. 0 \<le> q \<and> q < gridSize 2 (\<lambda>r. torusGrid) \<longrightarrow> map_option snd (afterCurrent_E samplePar torusAbsorber (\<lambda>t F. F) (torusEnv q) torusArea [2, 2] 0 ((\<lambda>q. MovingWindow_init) q) (localPart torusE q)) = Some (localPart torusE q)"
    "\<forall>q. 0 \<le> q \<and> q < gridSize 2 (\<lambda>r. torusGrid) \<longrightarrow> map_option snd (afterCurrent_B samplePar torusAbsorber (torusEnv q) torusArea [2, 2] 0 ((\<lambda>q. MovingWindow_init) q) (updated s q)) = Some (updated s q)"
    by blast+
  have fin: "\<forall>q. 0 \<le> q \<and> q < gridSize 2 (\<lambda>r. torusGrid) \<longrightarrow> overlapFinished s q" "\<forall>ex. receiveFinishedOn h 0 ex" using s(2) h(2) by blast+
  have "showsSide torusLayout (torus 0) (- 1) (asField (deviceField h 0)) (globalStepB samplePhys 2 torusB torusE)"
    using update_afterCurrent_distributed [OF queues.mpi_messages_axioms _ _ torus_processes torus_area torusBuffer_fields(2,1) _ env torus_shown(1) [of torusE] torus_fields(3) torus_shown(1) [of torusB] torus_fields(4)
        a(1) s(1) fin(1) a(2) h(1) fin(2)] by (simp add: torusAbsorber_def torus_size)
  then show ?thesis using s(1) h(1) by blast
qed

end
