(* ===== verification/FieldBuffers.thy ===== *)
theory FieldBuffers
  imports YeeStep
begin

text \<open>
  Models how the constructors of \<open>FieldE\<close> and \<open>FieldB\<close> (src/picongpu/include/fields/FieldE.tpp, FieldB.tpp) set up the exchanges of their
  buffers: one \<open>addExchange\<close> per direction, with the lower margin of solver and interpolation as guard in negative
  directions and the upper margin in the others. Shown: with a tag that is not in use the construction succeeds, and the buffer is
  one the distributed solver can use on every side on which the margin is at least one cell.
\<close>

definition fieldGuarding :: "DataSpace \<Rightarrow> DataSpace \<Rightarrow> nat \<Rightarrow> DataSpace" where
  "fieldGuarding originGuard endGuard i =
     (let relativMask = getRelativeDirections (length originGuard) i
      in map (\<lambda>d. if relativMask ! d = - 1 then originGuard ! d else endGuard ! d) [0..<length originGuard])"

fun addDirections :: "DataSpace \<Rightarrow> DataSpace \<Rightarrow> 32 word \<Rightarrow> nat list \<Rightarrow> GridBuffer \<times> 32 word list \<Rightarrow> gb_error + (GridBuffer \<times> 32 word list)" where
  "addDirections originGuard endGuard tag [] st = Inr st"
| "addDirections originGuard endGuard tag (i # is) st =
     (case addExchange GUARD (Mask_of i) (fieldGuarding originGuard endGuard i) tag st of
        Inl e \<Rightarrow> Inl e | Inr st \<Rightarrow> addDirections originGuard endGuard tag is st)"

definition Field_of :: "DataSpace \<Rightarrow> MappingDescription \<Rightarrow> DataSpace \<Rightarrow> DataSpace \<Rightarrow> 32 word \<Rightarrow> 32 word list \<Rightarrow> gb_error + (GridBuffer \<times> 32 word list)" where
  "Field_of superCellSize cellDescription originGuard endGuard tag tags =
     addDirections originGuard endGuard tag [1..<3 ^ length superCellSize] (GridBuffer_of (getGridLayout superCellSize cellDescription), tags)"

section \<open>Adding one direction\<close>

lemma addExchange_single:
  assumes l: "layout_ok (gridLayout gb)" and i: "0 < i" "i < 3 ^ length (layout_dataSpace (gridLayout gb))"
    and gc: "\<not> isOneDimensionGreaterThan gc (layout_guard (gridLayout gb))" and free: "sendExchanges gb (mirror_code i) = None"
    and tag: "if hasOneExchange gb then lastUsedCommunicationTag gb = tag else uniqTag tag (mirror_code i) \<notin> set tags"
  shows "\<exists>gb' tags'. addExchange GUARD (Mask_of i) gc tag (gb, tags) = Inr (gb', tags') \<and> hasOneExchange gb' \<and> lastUsedCommunicationTag gb' = tag
    \<and> gridLayout gb' = gridLayout gb
    \<and> receiveExchanges gb' = (receiveExchanges gb)(i := ExchangeIntern_of (gridLayout gb) gc i (uniqTag tag (mirror_code i)) GUARD)
    \<and> (\<forall>x. x \<noteq> mirror_code i \<longrightarrow> sendExchanges gb' x = sendExchanges gb x)"
proof -
  let ?n = "length (layout_dataSpace (gridLayout gb))" and ?l = "gridLayout gb" and ?a = "mirror_code i"
  have n: "6 * ?n * ?n + 9 - 12 * ?n = 3 ^ ?n" using l by (auto simp: layout_ok_def)
  note b = mirror_bounds [OF l i]
  obtain sm where sm: "getMirroredMask (Mask_join (receiveMask gb) (Mask_of i)) = Inr sm" using getMirroredMask_spec by blast
  obtain dirs where dirs: "getMirroredMask (Mask_of i) = Inr dirs" "\<And>j. isSet dirs j \<longleftrightarrow> (\<exists>k. 1 \<le> k \<and> k < 27 \<and> isSet (Mask_of i) k \<and> j = mirror_code k)"
    using getMirroredMask_spec by blast
  have dir: "isSet dirs j \<longleftrightarrow> j = ?a" for j using dirs(2) [of j] b(1) i(1) by (auto simp: isSet_Mask_of)
  have "?a \<in> set [1..<3 ^ ?n]" using b by simp
  then obtain pre post where split: "[1..<3 ^ ?n] = pre @ ?a # post" by (meson split_list)
  have "distinct (pre @ ?a # post)" using split distinct_upt by metis
  then have skip: "\<forall>ex \<in> set pre. \<not> isSet dirs ex" "\<forall>ex \<in> set post. \<not> isSet dirs ex" by (auto simp: dir)
  let ?g = "gb\<lparr>lastUsedCommunicationTag := tag, receiveMask := Mask_join (receiveMask gb) (Mask_of i), sendMask := sm\<rparr>"
  have add: "addExchange GUARD (Mask_of i) gc tag (gb, tags) = exchangeLoop (guardExchanges ?l gc) dirs tag [1..<3 ^ ?n] (?g, tags)"
    using n sm tag by (simp add: addExchange_def dirs(1) Let_def guardExchanges_def [abs_def] split: if_splits)
  obtain s r where sr: "guardExchanges ?l gc ?a i (uniqTag tag ?a) = Some (s, r)" "Some r = ExchangeIntern_of ?l gc i (uniqTag tag ?a) GUARD"
    using gc by (auto simp: guardExchanges_def ExchangeIntern_of_def Let_def getGuard_def)
  have m: "getMirroredExchangeType ?a = Inr i" using b by (simp add: getMirroredExchangeType_eq mirror_code_bound)
  let ?h = "?g\<lparr>hasOneExchange := True, sendExchanges := (sendExchanges ?g)(?a \<mapsto> s), receiveExchanges := (receiveExchanges ?g)(i \<mapsto> r),
      maxExchange := max (max (maxExchange ?g) (?a + 1)) (i + 1)\<rparr>" and ?t = "if hasOneExchange gb then tags else tags @ [uniqTag tag ?a]"
  have "exchangeLoop (guardExchanges ?l gc) dirs tag (?a # post) (?g, tags) = exchangeLoop (guardExchanges ?l gc) dirs tag post (?h, ?t)"
    using free tag sr(1) m dir [of ?a] by (simp add: isTagUniqu_def)
  also have "\<dots> = Inr (?h, ?t)" using exchangeLoop_skips [OF skip(2), of _ tag "[]"] by simp
  finally have "addExchange GUARD (Mask_of i) gc tag (gb, tags) = Inr (?h, ?t)" unfolding add split exchangeLoop_skips [OF skip(1)] .
  then show ?thesis using sr(2) by (intro exI [of _ ?h] exI [of _ ?t]) simp
qed

section \<open>All directions\<close>

definition marginOk :: "GridLayout \<Rightarrow> DataSpace \<Rightarrow> bool" where
  "marginOk l g \<longleftrightarrow> length g = length (layout_dataSpace l) \<and> (\<forall>d < length g. 0 \<le> g ! d \<and> g ! d \<le> layout_guard l ! d \<and> g ! d \<le> layout_dataSpace l ! d)"

lemma fieldGuarding_nth:
  "length (fieldGuarding originGuard endGuard i) = length originGuard"
  "d < length originGuard \<Longrightarrow> fieldGuarding originGuard endGuard i ! d = (if getRelativeDirections (length originGuard) i ! d = - 1 then originGuard ! d else endGuard ! d)"
  by (simp_all add: fieldGuarding_def Let_def)

lemma fieldGuarding_ok:
  assumes "layout_ok l" "marginOk l originGuard" "marginOk l endGuard"
  shows "guarding_ok l (fieldGuarding originGuard endGuard i)" "\<not> isOneDimensionGreaterThan (fieldGuarding originGuard endGuard i) (layout_guard l)"
proof -
  have g: "0 \<le> fieldGuarding originGuard endGuard i ! d \<and> fieldGuarding originGuard endGuard i ! d \<le> layout_guard l ! d \<and> fieldGuarding originGuard endGuard i ! d \<le> layout_dataSpace l ! d"
    if "d < length originGuard" for d
    using assms(2,3) that unfolding fieldGuarding_nth(2) [OF that] by (simp add: marginOk_def)
  have len: "length originGuard = length (layout_dataSpace l)" "length (layout_guard l) = length originGuard" using assms(1,2) by (simp_all add: layout_ok_def marginOk_def)
  show "guarding_ok l (fieldGuarding originGuard endGuard i)" using g len by (simp add: guarding_ok_def fieldGuarding_nth(1))
  show "\<not> isOneDimensionGreaterThan (fieldGuarding originGuard endGuard i) (layout_guard l)"
    using g len by (subst isOneDimensionGreaterThan_iff) (auto simp: fieldGuarding_nth(1) dest: leD)
qed

lemma addDirections_ok:
  assumes "guardBuffer gb" "marginOk (gridLayout gb) originGuard" "marginOk (gridLayout gb) endGuard" "distinct is"
    and "\<forall>i \<in> set is. 0 < i \<and> i < 3 ^ length (layout_dataSpace (gridLayout gb)) \<and> sendExchanges gb (mirror_code i) = None"
    and "if hasOneExchange gb then lastUsedCommunicationTag gb = tag else is \<noteq> [] \<longrightarrow> uniqTag tag (mirror_code (hd is)) \<notin> set tags"
  shows "\<exists>gb' tags'. addDirections originGuard endGuard tag is (gb, tags) = Inr (gb', tags') \<and> guardBuffer gb' \<and> gridLayout gb' = gridLayout gb
    \<and> (\<forall>i. receiveExchanges gb' i = (if i \<in> set is
         then ExchangeIntern_of (gridLayout gb) (fieldGuarding originGuard endGuard i) i (uniqTag tag (mirror_code i)) GUARD else receiveExchanges gb i))"
  using assms
proof (induction "is" arbitrary: gb tags)
  case (Cons i "is")
  have l: "layout_ok (gridLayout gb)" using guardBuffer_inv [OF Cons.prems(1)] by (simp add: gb_inv_def)
  note g = fieldGuarding_ok [OF l Cons.prems(2,3)]
  have i: "0 < i" "i < 3 ^ length (layout_dataSpace (gridLayout gb))" "sendExchanges gb (mirror_code i) = None" using Cons.prems(5) by simp_all
  have tag: "if hasOneExchange gb then lastUsedCommunicationTag gb = tag else uniqTag tag (mirror_code i) \<notin> set tags" using Cons.prems(6) by (simp split: if_splits)
  obtain gb1 tags1 where gb1: "addExchange GUARD (Mask_of i) (fieldGuarding originGuard endGuard i) tag (gb, tags) = Inr (gb1, tags1)"
      "hasOneExchange gb1" "lastUsedCommunicationTag gb1 = tag" "gridLayout gb1 = gridLayout gb"
      "receiveExchanges gb1 = (receiveExchanges gb)(i := ExchangeIntern_of (gridLayout gb) (fieldGuarding originGuard endGuard i) i (uniqTag tag (mirror_code i)) GUARD)"
      "\<forall>x. x \<noteq> mirror_code i \<longrightarrow> sendExchanges gb1 x = sendExchanges gb x"
    using addExchange_single [OF l i(1,2) g(2) i(3) tag] by blast
  have "guardBuffer gb1" by (rule guardBuffer.added [OF Cons.prems(1) g(1) gb1(1)])
  moreover have "mirror_code j \<noteq> mirror_code i" if "j \<in> set is" for j
    using that Cons.prems(4,5) mirror_bounds(4) [OF l] by (metis distinct.simps(2) list.set_intros(1,2))
  then have "\<forall>j \<in> set is. 0 < j \<and> j < 3 ^ length (layout_dataSpace (gridLayout gb1)) \<and> sendExchanges gb1 (mirror_code j) = None"
    using Cons.prems(5) gb1(4,6) by simp
  ultimately have "\<exists>gb' tags'. addDirections originGuard endGuard tag is (gb1, tags1) = Inr (gb', tags') \<and> guardBuffer gb' \<and> gridLayout gb' = gridLayout gb1
      \<and> (\<forall>i. receiveExchanges gb' i = (if i \<in> set is
           then ExchangeIntern_of (gridLayout gb1) (fieldGuarding originGuard endGuard i) i (uniqTag tag (mirror_code i)) GUARD else receiveExchanges gb1 i))"
    using Cons.prems(2-4) gb1(2-4) by (intro Cons.IH) simp_all
  then show ?case using gb1(1,4,5) by auto
qed simp

section \<open>Properties\<close>

text \<open>
  The fields are set up for the distributed solver. With a communication tag whose first message tag is unused and margins that fit into the guard and the
  domain, the constructors of the fields succeed, and where the lower (upper) margin is at least one cell along every axis the
  buffer receives the cells next to its lower (upper) faces, as the solver needs.
\<close>

theorem field_buffers_fit_solver:
  assumes "solverArea DIM m sc" "marginOk (getGridLayout sc m) originGuard" "marginOk (getGridLayout sc m) endGuard" "uniqTag tag LEFT \<notin> set tags"
  shows "\<exists>gb tags'. Field_of sc m originGuard endGuard tag tags = Inr (gb, tags')
    \<and> ((\<forall>d < DIM. 1 \<le> originGuard ! d) \<longrightarrow> fieldBuffer DIM m sc (- 1) gb) \<and> ((\<forall>d < DIM. 1 \<le> endGuard ! d) \<longrightarrow> fieldBuffer DIM m sc 1 gb)"
proof -
  let ?l = "getGridLayout sc m"
  have DIM: "length (layout_dataSpace ?l) = DIM" "length sc = DIM" "DIM = 2 \<or> DIM = 3" using layout_length [OF assms(1)] assms(1) by (auto simp: solverArea_def mapping_wf_def)
  have l: "layout_ok ?l"
  proof -
    have "0 \<le> layout_guard ?l ! d \<and> 0 \<le> layout_dataSpace ?l ! d" if "d < DIM" for d using assms(2) that DIM(1) by (fastforce simp: marginOk_def)
    moreover have "length (layout_guard ?l) = DIM" using DIM(2) by (simp add: getGridLayout_def GridLayout_of_def vec_simps)
    ultimately show ?thesis using DIM by (simp add: layout_ok_def)
  qed
  have m1: "mirror_code 1 = LEFT" by code_simp
  have "\<exists>gb tags'. addDirections originGuard endGuard tag [1..<3 ^ DIM] (GridBuffer_of ?l, tags) = Inr (gb, tags') \<and> guardBuffer gb \<and> gridLayout gb = gridLayout (GridBuffer_of ?l)
      \<and> (\<forall>i. receiveExchanges gb i = (if i \<in> set [1..<3 ^ DIM]
         then ExchangeIntern_of (gridLayout (GridBuffer_of ?l)) (fieldGuarding originGuard endGuard i) i (uniqTag tag (mirror_code i)) GUARD else receiveExchanges (GridBuffer_of ?l) i))"
  proof (rule addDirections_ok [OF guardBuffer.created [OF l]])
    have "hd [1..<3 ^ DIM] = 1" using DIM(3) by auto
    then show "if hasOneExchange (GridBuffer_of ?l) then lastUsedCommunicationTag (GridBuffer_of ?l) = tag
        else [1..<3 ^ DIM] \<noteq> [] \<longrightarrow> uniqTag tag (mirror_code (hd [1..<3 ^ DIM])) \<notin> set tags" using assms(4) m1 by (simp add: GridBuffer_of_def)
  qed (use assms(2,3) DIM(1) in \<open>simp_all add: GridBuffer_of_def\<close>)
  then obtain gb tags' where gb: "Field_of sc m originGuard endGuard tag tags = Inr (gb, tags')" "guardBuffer gb" "gridLayout gb = ?l"
      "\<And>i. 0 < i \<Longrightarrow> i < 3 ^ DIM \<Longrightarrow> receiveExchanges gb i = ExchangeIntern_of ?l (fieldGuarding originGuard endGuard i) i (uniqTag tag (mirror_code i)) GUARD"
    by (auto simp: Field_of_def DIM GridBuffer_of_def)
  have faces: "receivesFaces DIM \<sigma> gb" if s: "\<sigma> = - 1 \<or> \<sigma> = 1" and w: "\<forall>d < DIM. 1 \<le> (if \<sigma> = - 1 then originGuard else endGuard) ! d" for \<sigma>
    unfolding receivesFaces_def
  proof (intro allI impI)
    fix d assume d: "d < DIM"
    let ?i = "faceCode DIM d \<sigma>" and ?gc = "fieldGuarding originGuard endGuard (faceCode DIM d \<sigma>)"
    note code = faceCode_digits [OF d s]
    have lo: "length originGuard = DIM" using assms(2) DIM(1) by (simp add: marginOk_def)
    obtain e where e: "ExchangeIntern_of ?l ?gc ?i (uniqTag tag (mirror_code ?i)) GUARD = Some e"
      using fieldGuarding_ok(2) [OF l assms(2,3), of ?i] by (auto simp: ExchangeIntern_of_def Let_def getGuard_def)
    have "relativeDigits DIM ?i ! d \<noteq> 0" using d s by (auto simp: code(1))
    moreover have "?i < 27" using mirror_bounds(1) [OF l, of ?i] code(2,3) DIM(1) by simp
    ultimately have "ex_size e ! d = ?gc ! d" using ExchangeIntern_of_nth(4) [OF l code(2) _ e, of d] d DIM(1) by simp
    also have "\<dots> = (if \<sigma> = - 1 then originGuard else endGuard) ! d"
    proof -
      have "getRelativeDirections DIM ?i = relativeDigits DIM ?i" using DIM(3) by (auto simp: directions_digits)
      then show ?thesis using d s lo code(1) by (auto simp: fieldGuarding_nth)
    qed
    finally show "\<exists>e. receiveExchanges gb ?i = Some e \<and> 1 \<le> ex_size e ! d" using gb(4) [OF code(2,3)] e w d by simp
  qed
  show ?thesis using gb(1-3) faces [of "- 1"] faces [of 1] by (auto simp: fieldBuffer_def)
qed

theorem field_buffers_fit_solver_witness:
  "\<exists>gb tags'. Field_of [2, 2] torusArea [1, 2] [2, 1] 3 [] = Inr (gb, tags') \<and> fieldBuffer 2 torusArea [2, 2] (- 1) gb \<and> fieldBuffer 2 torusArea [2, 2] 1 gb"
  using field_buffers_fit_solver [OF torus_area, of "[1, 2]" "[2, 1]" 3 "[]"]
  by (auto simp: torus_layout marginOk_def less_Suc_eq numeral_2_eq_2)

end
