(* ===== verification/StrideMaps.thy ===== *)
theory StrideMaps
  imports AreaMaps
begin

text \<open>
  Models \<open>StrideMapping\<close> (mappings/kernel/StrideMapping.hpp) and \<open>StrideMappingMethods\<close>
  (StrideMappingMethods.hpp): kernels that would race on neighbouring supercells run on a strided
  subset of the area, once per offset; \<open>next\<close> moves to the next offset. \<open>strideSweep\<close> is the loop
  \<open>do kernel while (mapper.next())\<close> that all callers use; its fuel is the number of kernel starts,
  and \<open>stride ^ DIM\<close> of it are shown to be enough. Shown: the sweep visits every offset once, the kernels
  of one sweep together cover the area exactly once, and two supercells of one kernel are at
  least \<open>stride\<close> apart.
\<close>

section \<open>StrideMappingMethods\<close>

definition StrideAll_getGridDim :: "MappingDescription \<Rightarrow> DataSpace" where
  "StrideAll_getGridDim base = gridSuperCells base"

definition StrideAll_shift :: "MappingDescription \<Rightarrow> DataSpace \<Rightarrow> DataSpace" where
  "StrideAll_shift base value = value"

definition StrideCore_getGridDim :: "MappingDescription \<Rightarrow> DataSpace" where
  "StrideCore_getGridDim base =
     vec_sub_s (gridSuperCells base) (2 * (guardingSuperCells base + borderSuperCells base))"

definition StrideCore_shift :: "MappingDescription \<Rightarrow> DataSpace \<Rightarrow> DataSpace" where
  "StrideCore_shift base value = vec_add_s value (guardingSuperCells base + borderSuperCells base)"

definition StrideCoreBorder_getGridDim :: "MappingDescription \<Rightarrow> DataSpace" where
  "StrideCoreBorder_getGridDim base = vec_sub_s (gridSuperCells base) (2 * guardingSuperCells base)"

definition StrideCoreBorder_shift :: "MappingDescription \<Rightarrow> DataSpace \<Rightarrow> DataSpace" where
  "StrideCoreBorder_shift base value = vec_add_s value (guardingSuperCells base)"

section \<open>StrideMapping\<close>

text \<open>Only three areas have a specialisation; the class does not compile for the others.\<close>

datatype StrideArea = StrideAll | StrideCore | StrideCoreBorder

fun stride_area :: "StrideArea \<Rightarrow> AreaType" where
  "stride_area StrideAll = CORE_BORDER_GUARD"
| "stride_area StrideCore = CORE"
| "stride_area StrideCoreBorder = CORE_BORDER"

definition strideMethods_getGridDim :: "StrideArea \<Rightarrow> MappingDescription \<Rightarrow> DataSpace" where
  "strideMethods_getGridDim areaType base =
     (case areaType of StrideAll \<Rightarrow> StrideAll_getGridDim base | StrideCore \<Rightarrow> StrideCore_getGridDim base
      | StrideCoreBorder \<Rightarrow> StrideCoreBorder_getGridDim base)"

definition strideMethods_shift :: "StrideArea \<Rightarrow> MappingDescription \<Rightarrow> DataSpace \<Rightarrow> DataSpace" where
  "strideMethods_shift areaType base value =
     (case areaType of StrideAll \<Rightarrow> StrideAll_shift base value | StrideCore \<Rightarrow> StrideCore_shift base value
      | StrideCoreBorder \<Rightarrow> StrideCoreBorder_shift base value)"

record StrideMapping = MappingDescription +
  stride_offset :: DataSpace

definition StrideMapping_of :: "MappingDescription \<Rightarrow> StrideMapping" where
  "StrideMapping_of base =
     MappingDescription.extend base \<lparr>stride_offset = DataSpace_default (length (gridSuperCells base))\<rparr>"

definition stride_getGridDim :: "StrideArea \<Rightarrow> int \<Rightarrow> StrideMapping \<Rightarrow> DataSpace" where
  "stride_getGridDim areaType stride this =
     ds_div_s (vec_sub_s (vec_add_s
         (vec_sub (strideMethods_getGridDim areaType (MappingDescription.truncate this)) (stride_offset this))
         stride) 1) stride"

definition stride_getSuperCellIndex :: "StrideArea \<Rightarrow> int \<Rightarrow> StrideMapping \<Rightarrow> DataSpace \<Rightarrow> DataSpace" where
  "stride_getSuperCellIndex areaType stride this realSuperCellIdx =
     (let blockId = vec_add (vec_mul_s realSuperCellIdx stride) (stride_offset this)
      in strideMethods_shift areaType (MappingDescription.truncate this) blockId)"

definition stride_getOffset :: "StrideMapping \<Rightarrow> DataSpace" where
  "stride_getOffset this = stride_offset this"

definition stride_setOffset :: "StrideMapping \<Rightarrow> DataSpace \<Rightarrow> StrideMapping" where
  "stride_setOffset this off = this\<lparr>stride_offset := off\<rparr>"

definition stride_next :: "int \<Rightarrow> StrideMapping \<Rightarrow> StrideMapping \<times> bool" where
  "stride_next stride this =
     (let strideVec = DataSpace_create (length (stride_offset this)) stride;
          linearOffset = i32 (map_to_index strideVec (stride_offset this));
          linearOffset = linearOffset + 1
      in (this\<lparr>stride_offset := map_of_index strideVec (u32 linearOffset)\<rparr>,
          linearOffset < productOfComponents strideVec))"

fun strideSweep :: "nat \<Rightarrow> int \<Rightarrow> StrideMapping \<Rightarrow> StrideMapping list option" where
  "strideSweep 0 stride mapper = None"
| "strideSweep (Suc fuel) stride mapper =
     (case stride_next stride mapper of
        (mapper', valid) \<Rightarrow>
          if valid then map_option ((#) mapper) (strideSweep fuel stride mapper') else Some [mapper])"

section \<open>One strided kernel\<close>

lemma stride_axis_into:
  fixes n s o' i :: int
  assumes "0 < s" "0 \<le> o'" "o' < s" "0 \<le> i" "i < (n - o' + s - 1) div s" "0 \<le> n"
  shows "0 \<le> i * s + o' \<and> i * s + o' < n \<and> (i * s + o') mod s = o' \<and> (i * s + o') div s = i"
proof -
  have "(i + 1) * s \<le> (n - o' + s - 1) div s * s" using assms by (intro mult_right_mono) auto
  also have "\<dots> \<le> n - o' + s - 1"
    using div_mult_mod_eq [of "n - o' + s - 1" s] pos_mod_sign [OF assms(1), of "n - o' + s - 1"] by linarith
  finally have "i * s + o' < n" by (simp add: algebra_simps)
  then show ?thesis using assms by simp
qed

lemma stride_axis_onto:
  fixes n s p :: int
  assumes "0 < s" "0 \<le> p" "p < n"
  shows "0 \<le> p div s \<and> p div s < (n - p mod s + s - 1) div s"
proof -
  have "(p div s + 1) * s \<le> n - p mod s + s - 1"
    using div_mult_mod_eq [of p s] assms by (simp add: algebra_simps)
  then have "p div s + 1 \<le> (n - p mod s + s - 1) div s"
    using assms(1) zdiv_mono1 [of "(p div s + 1) * s" _ s] by simp
  then show ?thesis using assms by (simp add: pos_imp_zdiv_nonneg_iff)
qed

definition stridedDim :: "int \<Rightarrow> DataSpace \<Rightarrow> DataSpace \<Rightarrow> DataSpace" where
  "stridedDim s n off = map2 (\<lambda>a b. (a - b + s - 1) sdiv s) n off"

lemma stridedDim_nth:
  assumes "0 < s" "length off = length n" "d < length n" "0 \<le> n ! d" "off ! d < s"
  shows "stridedDim s n off ! d = (n ! d - off ! d + s - 1) div s"
  using assms by (simp add: stridedDim_def sdiv_nonneg)

lemma strided_partition:
  assumes s: "0 < s" and n: "\<forall>c \<in> set n. 0 \<le> c"
  shows "bij_betw (\<lambda>(off, i). map2 (\<lambda>a b. a * s + b) i off)
    (SIGMA off : box (replicate (length n) s). box (stridedDim s n off)) (box n)"
proof (rule bij_betwI_inverse [where g = "\<lambda>p. (map (\<lambda>c. c mod s) p, map (\<lambda>c. c div s) p)"], goal_cases)
  case (1 a)
  then obtain off i where a: "a = (off, i)" and off: "off \<in> box (replicate (length n) s)"
    and i: "i \<in> box (stridedDim s n off)" by auto
  have lo: "length off = length n" using off by (simp add: box_def)
  have li: "length i = length n" using i lo by (simp add: box_def stridedDim_def)
  have "0 \<le> i ! d * s + off ! d \<and> i ! d * s + off ! d < n ! d \<and> (i ! d * s + off ! d) mod s = off ! d
      \<and> (i ! d * s + off ! d) div s = i ! d" if d: "d < length n" for d
  proof (rule stride_axis_into [OF s])
    show o': "0 \<le> off ! d" "off ! d < s" using off d by (simp_all add: box_def)
    show "0 \<le> n ! d" using n d by simp
    then show "0 \<le> i ! d" "i ! d < (n ! d - off ! d + s - 1) div s"
      using i d lo o' stridedDim_nth [OF s lo d] by (auto simp: box_def stridedDim_def)
  qed
  then show ?case using lo li by (auto simp: a box_def intro!: nth_equalityI)
next
  case (2 p)
  then have lp: "length p = length n" by (simp add: box_def)
  have "0 \<le> p ! d mod s \<and> p ! d mod s < s" for d using s by simp
  moreover have "0 \<le> p ! d div s \<and> p ! d div s < stridedDim s n (map (\<lambda>c. c mod s) p) ! d"
    if d: "d < length n" for d
    using stride_axis_onto [OF s, of "p ! d" "n ! d"] 2 d lp n
      stridedDim_nth [OF s, of "map (\<lambda>c. c mod s) p" n d] s by (simp add: box_def)
  ultimately show ?case using lp
    by (auto simp: box_def stridedDim_def [THEN arg_cong [where f = length]] intro!: nth_equalityI)
qed

section \<open>The sweep over all offsets\<close>

lemma length_map_of_index [simp]: "length n = 2 \<or> length n = 3 \<Longrightarrow> length (map_of_index n i) = length n"
  by (auto simp: map_of_index_def map2_of_index_def map3_of_index_def)

lemma stride_next_step:
  fixes s :: int and k DIM :: nat
  assumes D: "DIM = 2 \<or> DIM = 3" and s: "0 < s" "s ^ DIM < 2 ^ 31" and k: "int k < s ^ DIM"
    and off: "stride_offset m = map_of_index (replicate DIM s) (int k)"
  shows "stride_next s m = (m\<lparr>stride_offset := map_of_index (replicate DIM s) (int (Suc k))\<rparr>, int (Suc k) < s ^ DIM)"
proof -
  let ?sv = "replicate DIM s"
  have P: "prod_list ?sv = s ^ DIM" by simp
  have "map_to_index ?sv (stride_offset m) = int k"
    unfolding off using map_to_of_index [of ?sv "int k"] D s k by simp
  moreover have "i32 (int k) = int k" using k s by (intro i32_id) auto
  moreover have "u32 (int k + 1) = int (Suc k)" using k s by (simp add: u32_id)
  moreover have "length (stride_offset m) = DIM" using D by (simp add: off)
  moreover have "productOfComponents ?sv = s ^ DIM"
    using D by (subst productOfComponents_prod_list) auto
  ultimately show ?thesis unfolding stride_next_def Let_def by (simp add: add.commute)
qed

lemma strideSweep_from:
  fixes s :: int
  assumes D: "DIM = 2 \<or> DIM = 3" and s: "0 < s" "s ^ DIM < 2 ^ 31" and N: "int N = s ^ DIM"
  shows "k < N \<Longrightarrow> stride_offset m = map_of_index (replicate DIM s) (int k) \<Longrightarrow>
    strideSweep (N - k) s m = Some (map (\<lambda>j. m\<lparr>stride_offset := map_of_index (replicate DIM s) (int j)\<rparr>) [k..<N])"
proof (induction "N - k" arbitrary: k m)
  case (Suc f)
  have k: "int k < s ^ DIM" using Suc.prems(1) N by linarith
  note step = stride_next_step [OF D s k Suc.prems(2)]
  have f: "N - k = Suc f" using Suc by simp
  have valid: "int (Suc k) < s ^ DIM \<longleftrightarrow> Suc k < N" using N by linarith
  show ?case
  proof (cases "Suc k < N")
    case True
    let ?m' = "m\<lparr>stride_offset := map_of_index (replicate DIM s) (int (Suc k))\<rparr>"
    have "f = N - Suc k" using f by simp
    then have "strideSweep f s ?m' = Some (map (\<lambda>j. ?m'\<lparr>stride_offset := map_of_index (replicate DIM s) (int j)\<rparr>) [Suc k..<N])"
      using Suc.hyps(1) [of "Suc k" ?m'] True by simp
    moreover have "m = m\<lparr>stride_offset := map_of_index (replicate DIM s) (int k)\<rparr>" using Suc.prems(2) by simp
    ultimately show ?thesis
      unfolding f using True Suc.prems(1) by (simp add: step valid upt_conv_Cons del: of_nat_Suc)
  next
    case False
    then have "[k..<N] = [k]" using Suc.prems(1) by (simp add: upt_conv_Cons)
    moreover have "m\<lparr>stride_offset := map_of_index (replicate DIM s) (int k)\<rparr> = m" using Suc.prems(2) by simp
    ultimately show ?thesis unfolding f using False by (simp add: step valid del: of_nat_Suc)
  qed
qed simp

lemma map_of_index_zero: "length n = 2 \<or> length n = 3 \<Longrightarrow> map_of_index n 0 = replicate (length n) 0"
  by (auto simp: map_of_index_def map2_of_index_def map3_of_index_def i32_def numeral_2_eq_2 numeral_3_eq_3)

lemma truncate_StrideMapping [simp]:
  "MappingDescription.truncate (StrideMapping_of m\<lparr>stride_offset := off\<rparr>) = m"
  "MappingDescription.truncate (StrideMapping_of m) = m"
  "stride_offset (StrideMapping_of m) = replicate (length (gridSuperCells m)) 0"
  by (simp_all add: StrideMapping_of_def MappingDescription.defs)

lemma strideSweep_all:
  fixes s :: int
  assumes wf: "mapping_wf m" and s: "0 < s" "s ^ length (gridSuperCells m) < 2 ^ 31"
  defines "N \<equiv> nat s ^ length (gridSuperCells m)"
  shows "strideSweep N s (StrideMapping_of m)
    = Some (map (\<lambda>j. StrideMapping_of m\<lparr>stride_offset := map_of_index (replicate (length (gridSuperCells m)) s) (int j)\<rparr>) [0..<N])"
proof -
  have D: "length (gridSuperCells m) = 2 \<or> length (gridSuperCells m) = 3" using wf by (simp add: mapping_wf_def)
  have "int N = s ^ length (gridSuperCells m)" using s by (simp add: N_def)
  moreover have "0 < N" using s by (simp add: N_def)
  ultimately show ?thesis
    using strideSweep_from [OF D s, of N 0 "StrideMapping_of m"] D by (simp add: map_of_index_zero)
qed

section \<open>Areas of a sweep\<close>

lemma stride_shift_bij:
  "bij_betw (strideMethods_shift a m) (box (strideMethods_getGridDim a m)) (areaCells (stride_area a) m)"
proof (cases a)
  case StrideAll
  then show ?thesis
    by (simp add: strideMethods_shift_def [abs_def] strideMethods_getGridDim_def StrideAll_shift_def
        StrideAll_getGridDim_def areaCells_def Let_def box_inner bij_betw_def)
next
  case StrideCore
  then show ?thesis
    using shift_inner [of "guardingSuperCells m + borderSuperCells m" "gridSuperCells m" 0]
    by (simp add: strideMethods_shift_def [abs_def] strideMethods_getGridDim_def StrideCore_shift_def
        StrideCore_getGridDim_def areaCells_def Let_def box_inner)
next
  case StrideCoreBorder
  then show ?thesis
    using shift_inner [of "guardingSuperCells m" "gridSuperCells m" 0]
    by (simp add: strideMethods_shift_def [abs_def] strideMethods_getGridDim_def StrideCoreBorder_shift_def
        StrideCoreBorder_getGridDim_def areaCells_def Let_def box_inner)
qed

lemma strideMethods_dims:
  assumes "mapping_wf m"
  shows "length (strideMethods_getGridDim a m) = length (gridSuperCells m)"
    and "\<forall>c \<in> set (strideMethods_getGridDim a m). 0 \<le> c"
proof -
  have "\<forall>c \<in> set (gridSuperCells m). 0 \<le> c \<and> 2 * guardingSuperCells m \<le> c
      \<and> 2 * (guardingSuperCells m + borderSuperCells m) \<le> c"
    using mapping_wf_extents [OF assms] assms by (fastforce simp: mapping_wf_def)
  then show "\<forall>c \<in> set (strideMethods_getGridDim a m). 0 \<le> c"
    by (cases a) (auto simp: strideMethods_getGridDim_def StrideAll_getGridDim_def StrideCore_getGridDim_def
        StrideCoreBorder_getGridDim_def vec_simps)
  show "length (strideMethods_getGridDim a m) = length (gridSuperCells m)"
    by (cases a) (simp_all add: strideMethods_getGridDim_def StrideAll_getGridDim_def StrideCore_getGridDim_def
        StrideCoreBorder_getGridDim_def)
qed

lemma stride_getGridDim_strided:
  "stride_getGridDim a s mp = stridedDim s (strideMethods_getGridDim a (MappingDescription.truncate mp)) (stride_offset mp)"
  by (rule nth_equalityI) (simp_all add: stride_getGridDim_def stridedDim_def vec_simps)

section \<open>Properties\<close>

text \<open>
  C28. A strided sweep covers its area exactly once. Starting from a fresh mapper, the loop over
  \<open>next\<close> ends after \<open>stride ^ DIM\<close> kernel starts, and the supercells of all these kernels together
  are the supercells of the area, each treated once.
\<close>

theorem strideSweep_covers:
  assumes wf: "mapping_wf m" and s: "0 < stride" "stride ^ length (gridSuperCells m) < 2 ^ 31"
  shows "\<exists>mappers. strideSweep (nat stride ^ length (gridSuperCells m)) stride (StrideMapping_of m) = Some mappers
    \<and> length mappers = nat stride ^ length (gridSuperCells m)
    \<and> bij_betw (\<lambda>(k, i). stride_getSuperCellIndex areaType stride (mappers ! k) i)
        (SIGMA k : {0..<length mappers}. box (stride_getGridDim areaType stride (mappers ! k)))
        (areaCells (stride_area areaType) m)"
proof -
  let ?D = "length (gridSuperCells m)" and ?n = "strideMethods_getGridDim areaType m"
  define N where "N = nat stride ^ ?D"
  define h where "h k = map_of_index (replicate ?D stride) (int k)" for k
  have D: "?D = 2 \<or> ?D = 3" using wf by (simp add: mapping_wf_def)
  have NP: "int N = stride ^ ?D" using s by (simp add: N_def)
  have ln: "length ?n = ?D" by (rule strideMethods_dims [OF wf])
  have "bij_betw h {0..<N} (box (replicate ?D stride))"
  proof (rule bij_betwI_inverse [where g = "\<lambda>p. nat (map_to_index (replicate ?D stride) p)"], goal_cases)
    case (1 k)
    then have "int k \<in> {0..<stride ^ ?D}" using NP by auto
    then show ?case using map_to_of_index [of "replicate ?D stride" "int k"] D s by (simp add: h_def)
  next
    case (2 p)
    then have "map_to_index (replicate ?D stride) p \<in> {0..<stride ^ ?D}
        \<and> map_of_index (replicate ?D stride) (map_to_index (replicate ?D stride) p) = p"
      using map_of_to_index [of "replicate ?D stride" p] D s by simp
    then show ?case using NP by (auto simp: h_def)
  qed
  then have "bij_betw (\<lambda>(k, i). map2 (\<lambda>a b. a * stride + b) i (h k)) (SIGMA k : {0..<N}. box (stridedDim stride ?n (h k))) (box ?n)"
    using bij_betw_reindex_Sigma [OF _ strided_partition [OF s(1) strideMethods_dims(2) [OF wf, of areaType]]]
    by (simp add: ln)
  from bij_betw_trans [OF this stride_shift_bij]
  have bij: "bij_betw (\<lambda>(k, i). strideMethods_shift areaType m (map2 (\<lambda>a b. a * stride + b) i (h k)))
      (SIGMA k : {0..<N}. box (stridedDim stride ?n (h k))) (areaCells (stride_area areaType) m)"
    by (simp add: o_def case_prod_unfold)
  let ?ms = "map (\<lambda>j. StrideMapping_of m\<lparr>stride_offset := h j\<rparr>) [0..<N]"
  have "stride_getSuperCellIndex areaType stride (?ms ! k) i = strideMethods_shift areaType m (map2 (\<lambda>a b. a * stride + b) i (h k))"
    if "k < N" for k i
    using that by (simp add: stride_getSuperCellIndex_def vec_simps zip_map1 o_def case_prod_unfold)
  with bij have "bij_betw (\<lambda>(k, i). stride_getSuperCellIndex areaType stride (?ms ! k) i)
      (SIGMA k : {0..<N}. box (stridedDim stride ?n (h k))) (areaCells (stride_area areaType) m)"
    by (subst bij_betw_cong) auto
  moreover have "(SIGMA k : {0..<N}. box (stridedDim stride ?n (h k)))
      = (SIGMA k : {0..<length ?ms}. box (stride_getGridDim areaType stride (?ms ! k)))"
    by (auto simp: stride_getGridDim_strided)
  moreover have "strideSweep N stride (StrideMapping_of m) = Some ?ms"
    using strideSweep_all [OF wf s] by (simp add: N_def h_def)
  ultimately show ?thesis unfolding N_def [symmetric] by (intro exI [where x = ?ms]) simp
qed

theorem strideSweep_covers_witness:
  "\<exists>mappers. strideSweep 27 3 (StrideMapping_of \<lparr>gridSuperCells = [7, 6, 5], guardingSuperCells = 1, borderSuperCells = 1\<rparr>) = Some mappers
    \<and> length mappers = 27
    \<and> bij_betw (\<lambda>(k, i). stride_getSuperCellIndex StrideCoreBorder 3 (mappers ! k) i)
        (SIGMA k : {0..<length mappers}. box (stride_getGridDim StrideCoreBorder 3 (mappers ! k)))
        (inner_box [7, 6, 5] 1)"
  using strideSweep_covers [of "\<lparr>gridSuperCells = [7, 6, 5], guardingSuperCells = 1, borderSuperCells = 1\<rparr>" 3 StrideCoreBorder]
  by (simp add: mapping_wf_def areaCells_def Let_def del: strideSweep.simps)

text \<open>
  Kernels of a strided mapper do not touch each other's neighbourhood: two different blocks
  of one kernel start are mapped to supercells that differ by at least \<open>stride\<close> along some axis,
  so with stride 3 the two 3-wide neighbourhoods are disjoint.
\<close>

theorem stride_blocks_separated:
  assumes "length i = length (stride_offset mapper)" "length j = length (stride_offset mapper)" "i \<noteq> j"
    and "0 \<le> stride"
  shows "\<exists>d < length (stride_offset mapper).
    stride \<le> \<bar>stride_getSuperCellIndex areaType stride mapper i ! d - stride_getSuperCellIndex areaType stride mapper j ! d\<bar>"
proof -
  from assms obtain d where d: "d < length (stride_offset mapper)" "i ! d \<noteq> j ! d"
    using nth_equalityI [of i j] by auto
  have "stride_getSuperCellIndex areaType stride mapper i ! d - stride_getSuperCellIndex areaType stride mapper j ! d
      = (i ! d - j ! d) * stride"
    using d assms by (cases areaType) (simp_all add: stride_getSuperCellIndex_def strideMethods_shift_def Let_def
      StrideAll_shift_def StrideCore_shift_def StrideCoreBorder_shift_def vec_simps algebra_simps)
  moreover have "1 * stride \<le> \<bar>i ! d - j ! d\<bar> * stride" using d assms(4) by (intro mult_right_mono) auto
  ultimately show ?thesis using d assms(4) by (auto simp: abs_mult)
qed

theorem stride_blocks_separated_witness:
  "\<exists>d < 2. 3 \<le> \<bar>stride_getSuperCellIndex StrideAll 3
      (StrideMapping_of \<lparr>gridSuperCells = [9, 9], guardingSuperCells = 0, borderSuperCells = 1\<rparr>) [0, 1] ! d
    - stride_getSuperCellIndex StrideAll 3
      (StrideMapping_of \<lparr>gridSuperCells = [9, 9], guardingSuperCells = 0, borderSuperCells = 1\<rparr>) [0, 2] ! d\<bar>"
  using stride_blocks_separated [of "[0, 1]"
    "StrideMapping_of \<lparr>gridSuperCells = [9, 9], guardingSuperCells = 0, borderSuperCells = 1\<rparr>" "[0, 2]" 3 StrideAll]
  by (simp add: numeral_2_eq_2)

end
