(* ===== verification/Decomposition.thy ===== *)
theory Decomposition
  imports GridControl AreaMaps
begin

text \<open>
  Models the domain decomposition at the start of a simulation: \<open>ParserGridDistribution\<close>
  (src/picongpu/include/initialization/ParserGridDistribution.hpp) after its string has been parsed, and the grid
  setup of \<open>MySimulation::pluginLoad\<close> and \<open>checkGridConfiguration\<close>
  (simulationControl/MySimulation.hpp). The parsing itself is done by regular expressions of
  boost and is not modelled; its result is the list of pairs (cells, repetitions). Reading past the last
  pair and a failed \<open>assert\<close> are errors. Shown: sizes and offsets are the
  prefix sums of the expanded list, and every accepted configuration gives a mapping on which
  the area mappers are bijections.
\<close>

datatype setup_error = PastEnd | AssertionFailed

section \<open>ParserGridDistribution\<close>

type_synonym distribution = "(int \<times> int) list"

text \<open>
  The loop \<open>while (i < gpuPos)\<close>: the current block heads the list, \<open>i\<close> is the last process of the
  block, \<open>acc\<close> (the source's \<open>sum\<close>) the cells of the blocks before.
\<close>

fun walkBlocks :: "distribution \<Rightarrow> int \<Rightarrow> int \<Rightarrow> int \<Rightarrow> setup_error + ((int \<times> int) \<times> int \<times> int)" where
  "walkBlocks [] i acc gpuPos = Inl PastEnd"
| "walkBlocks [(b, n)] i acc gpuPos = (if i < gpuPos then Inl PastEnd else Inr ((b, n), i, acc))"
| "walkBlocks ((b, n) # (b', n') # rest) i acc gpuPos =
     (if i < gpuPos
      then walkBlocks ((b', n') # rest) (i32 (i + n')) (i32 (acc + u32 (b * n))) gpuPos
      else Inr ((b, n), i, acc))"

definition firstIndex :: "distribution \<Rightarrow> int" where
  "firstIndex parsedInput = (case parsedInput of [] \<Rightarrow> 0 | (b, n) # _ \<Rightarrow> i32 (n - 1))"

definition totalCells :: "distribution \<Rightarrow> int" where
  "totalCells parsedInput = foldl (\<lambda>sumTotal (b, n). u32 (sumTotal + b * n)) 0 parsedInput"

definition dist_getOffset :: "distribution \<Rightarrow> int \<Rightarrow> int \<Rightarrow> setup_error + int" where
  "dist_getOffset parsedInput gpuPos maxCells =
     (case walkBlocks parsedInput (firstIndex parsedInput) 0 gpuPos of
        Inl e \<Rightarrow> Inl e
      | Inr ((b, n), i, acc) \<Rightarrow>
          let acc = i32 (acc + b * (gpuPos + n - i - 1))
          in if totalCells parsedInput = maxCells then Inr (u32 acc) else Inl AssertionFailed)"

definition dist_getLocalSize :: "distribution \<Rightarrow> int \<Rightarrow> setup_error + int" where
  "dist_getLocalSize parsedInput gpuPos =
     (case walkBlocks parsedInput (firstIndex parsedInput) 0 gpuPos of
        Inl e \<Rightarrow> Inl e | Inr ((b, n), i, acc) \<Rightarrow> Inr b)"

section \<open>Grid setup of MySimulation\<close>

fun fillTo :: "nat \<Rightarrow> 'a \<Rightarrow> 'a list \<Rightarrow> 'a list" where
  "fillTo 0 v xs = xs"
| "fillTo (Suc n) v xs = (if length xs < Suc n then fillTo n v xs @ [v] else xs)"

text \<open>Local size and offset of one axis: a given distribution, or an equal share.\<close>

definition axisDomain :: "distribution option \<Rightarrow> int \<Rightarrow> int \<Rightarrow> int \<Rightarrow> setup_error + (int \<times> int)" where
  "axisDomain parser globalSize gpus pos =
     (case parser of
        Some parsedInput \<Rightarrow>
          (case dist_getLocalSize parsedInput pos of
             Inl e \<Rightarrow> Inl e
           | Inr sz \<Rightarrow> (case dist_getOffset parsedInput pos (u32 globalSize) of Inl e \<Rightarrow> Inl e | Inr off \<Rightarrow> Inr (i32 sz, i32 off)))
      | None \<Rightarrow> (let sz = globalSize sdiv gpus in Inr (sz, sz * pos)))"

fun localDomains :: "distribution option list \<Rightarrow> DataSpace \<Rightarrow> DataSpace \<Rightarrow> DataSpace \<Rightarrow> setup_error + (DataSpace \<times> DataSpace)" where
  "localDomains (p # ps) (g # gs) (d # ds) (x # xs) =
     (case axisDomain p g d x of
        Inl e \<Rightarrow> Inl e
      | Inr (sz, off) \<Rightarrow>
          (case localDomains ps gs ds xs of Inl e \<Rightarrow> Inl e | Inr (szs, offs) \<Rightarrow> Inr (sz # szs, off # offs)))"
| "localDomains _ _ _ _ = Inr ([], [])"

definition checkGridConfiguration :: "DataSpace \<Rightarrow> int \<Rightarrow> DataSpace \<Rightarrow> DataSpace \<Rightarrow> bool" where
  "checkGridConfiguration SuperCellSize GUARD_SIZE globalGridSize gridSizeLocal =
     list_all (\<lambda>i. globalGridSize ! i smod (SuperCellSize ! i) = 0
         \<and> gridSizeLocal ! i smod (SuperCellSize ! i) = 0
         \<and> u32 (gridSizeLocal ! i) div u32 (SuperCellSize ! i) \<ge> u32 (3 * GUARD_SIZE))
       [0..<length globalGridSize]"

definition absorberFits :: "(nat \<Rightarrow> nat \<Rightarrow> int) \<Rightarrow> DataSpace \<Rightarrow> GridLayout \<Rightarrow> bool" where
  "absorberFits ABSORBER_CELLS isPeriodic layout =
     list_all (\<lambda>i. isPeriodic ! i = 0 \<longrightarrow>
         i32 (ABSORBER_CELLS i 0) \<le> getDataSpaceWithoutGuarding layout ! i
         \<and> i32 (ABSORBER_CELLS i 1) \<le> getDataSpaceWithoutGuarding layout ! i)
       [0..<length isPeriodic]"

text \<open>
  The part of \<open>pluginLoad\<close> that builds the cell description, from the local sizes on: the layout with
  one guard supercell per side, the mapping description with its assertions, the grid checks.
\<close>

definition setupMapping ::
  "DataSpace \<Rightarrow> int \<Rightarrow> (nat \<Rightarrow> nat \<Rightarrow> int) \<Rightarrow> DataSpace \<Rightarrow> DataSpace \<Rightarrow> DataSpace \<Rightarrow> setup_error + MappingDescription" where
  "setupMapping SuperCellSize GUARD_SIZE ABSORBER_CELLS isPeriodic globalGridSize gridSizeLocal =
     (let layout = GridLayout_of gridSizeLocal SuperCellSize
      in case MappingDescription_of SuperCellSize (getDataSpace layout) GUARD_SIZE GUARD_SIZE of
           None \<Rightarrow> Inl AssertionFailed
         | Some m \<Rightarrow>
             if checkGridConfiguration SuperCellSize GUARD_SIZE globalGridSize gridSizeLocal
                \<and> absorberFits ABSORBER_CELLS isPeriodic (getGridLayout SuperCellSize m)
             then Inr m else Inl AssertionFailed)"

section \<open>The expanded distribution\<close>

definition expand :: "distribution \<Rightarrow> int list" where
  "expand parsedInput = concat (map (\<lambda>(b, n). replicate (nat n) b) parsedInput)"

definition dist_ok :: "distribution \<Rightarrow> bool" where
  "dist_ok parsedInput \<longleftrightarrow>
     list_all (\<lambda>(b, n). 0 \<le> b \<and> 0 \<le> n) parsedInput \<and>
     sum_list (expand parsedInput) < 2 ^ 31 \<and> int (length (expand parsedInput)) < 2 ^ 31"

lemma expand_Cons [simp]: "expand ((b, n) # rest) = replicate (nat n) b @ expand rest"
  by (simp add: expand_def)

lemma expand_Nil [simp]: "expand [] = []"
  by (simp add: expand_def)

lemma sum_list_replicate_int [simp]: "sum_list (replicate k (b :: int)) = int k * b"
  by (simp add: sum_list_replicate)

lemma expand_nonneg: "list_all (\<lambda>(b, n). 0 \<le> b \<and> 0 \<le> n) d \<Longrightarrow> 0 \<le> sum_list (expand d)"
  by (induction d) auto

lemma expand_take_nonneg: "list_all (\<lambda>(b, n). 0 \<le> b \<and> 0 \<le> n) d \<Longrightarrow> 0 \<le> sum_list (take k (expand d)) \<and> sum_list (take k (expand d)) \<le> sum_list (expand d)"
proof -
  assume d: "list_all (\<lambda>(b, n). 0 \<le> b \<and> 0 \<le> n) d"
  then have p: "\<forall>x \<in> set (expand d). 0 \<le> x" by (auto simp: expand_def list_all_iff)
  have "0 \<le> sum_list (take k (expand d))" "0 \<le> sum_list (drop k (expand d))"
    using p by (auto intro!: sum_list_nonneg dest: in_set_takeD in_set_dropD)
  moreover have "sum_list (expand d) = sum_list (take k (expand d)) + sum_list (drop k (expand d))"
    by (metis append_take_drop_id sum_list_append)
  ultimately show ?thesis by linarith
qed

lemma totalCells_sum: "dist_ok d \<Longrightarrow> totalCells d = sum_list (expand d)"
proof -
  have "foldl (\<lambda>sumTotal (b, n). u32 (sumTotal + b * n)) s d = s + sum_list (expand d)"
    if "list_all (\<lambda>(b, n). 0 \<le> b \<and> 0 \<le> n) d" "0 \<le> s" "s + sum_list (expand d) < 2 ^ 31" for s
    using that
  proof (induction d arbitrary: s)
    case (Cons p d)
    obtain b n where p: "p = (b, n)" by (cases p)
    have n: "0 \<le> n" "0 \<le> b * n" "0 \<le> sum_list (expand d)" using Cons.prems expand_nonneg by (auto simp: p)
    have e: "sum_list (expand (p # d)) = b * n + sum_list (expand d)" using n by (simp add: p mult.commute)
    have "s + b * n < 2 ^ 31" using Cons.prems(3) n e by linarith
    then have "u32 (s + b * n) = s + b * n" using Cons.prems(2) n by (intro u32_id) simp_all
    moreover have "foldl (\<lambda>sumTotal (b, n). u32 (sumTotal + b * n)) (s + b * n) d = s + b * n + sum_list (expand d)"
      using Cons.prems n e by (intro Cons.IH) (auto simp: p mult.commute)
    ultimately show ?case using e n by (simp add: p)
  qed simp
  then show "dist_ok d \<Longrightarrow> totalCells d = sum_list (expand d)" by (simp add: dist_ok_def totalCells_def)
qed

lemma walkBlocks_prefix:
  assumes "list_all (\<lambda>(b, n). 0 \<le> b \<and> 0 \<le> n) ((b, n) # rest)" "0 \<le> S" "0 \<le> pre"
    and "S + sum_list (expand ((b, n) # rest)) < 2 ^ 31" "pre + int (length (expand ((b, n) # rest))) < 2 ^ 31"
    and "pre \<le> g" "g < pre + int (length (expand ((b, n) # rest)))"
  shows "\<exists>b' n' i' S'. walkBlocks ((b, n) # rest) (pre + n - 1) S g = Inr ((b', n'), i', S')
    \<and> expand ((b, n) # rest) ! nat (g - pre) = b'
    \<and> S' + b' * (g + n' - i' - 1) = S + sum_list (take (nat (g - pre)) (expand ((b, n) # rest)))"
  using assms
proof (induction rest arbitrary: b n S pre)
  case Nil
  then have "nat (g - pre) < nat n" by auto
  then show ?case using Nil by (auto simp: mult.commute)
next
  case (Cons p rest)
  obtain b2 n2 where p: "p = (b2, n2)" by (cases p)
  have nn: "0 \<le> b" "0 \<le> n" "0 \<le> b2" "0 \<le> n2" using Cons.prems(1) by (simp_all add: p)
  have nn': "0 \<le> b * n" "0 \<le> sum_list (expand rest)" "0 \<le> b2 * n2" using nn Cons.prems(1) expand_nonneg by (auto simp: p)
  show ?case
  proof (cases "pre + n - 1 < g")
    case True
    have k: "nat (g - pre) = nat n + nat (g - (pre + n))" using True nn Cons.prems by linarith
    have s: "S + b * n + (b2 * n2 + sum_list (expand rest)) < 2 ^ 31" using Cons.prems(4) nn by (simp add: p mult.commute)
    have l: "pre + n + (n2 + int (length (expand rest))) < 2 ^ 31" using Cons.prems(5) nn by (simp add: p)
    have "S + b * n < 2 ^ 31" "b * n < 2 ^ 31" "pre + n + n2 < 2 ^ 31" using s l nn nn' Cons.prems(2) by linarith+
    then have "u32 (b * n) = b * n" "i32 (S + b * n) = S + b * n" using nn' Cons.prems(2) by (intro u32_id i32_id; simp)+
    moreover have "i32 (pre + n - 1 + n2) = pre + n + n2 - 1"
      using \<open>pre + n + n2 < 2 ^ 31\<close> nn Cons.prems(3) by (simp add: i32_id)
    ultimately have conv: "u32 (b * n) = b * n" "i32 (S + b * n) = S + b * n" "i32 (pre + n - 1 + n2) = pre + n + n2 - 1"
      by simp_all
    have "\<exists>b' n' i' S'. walkBlocks ((b2, n2) # rest) (pre + n + n2 - 1) (S + b * n) g = Inr ((b', n'), i', S')
        \<and> expand ((b2, n2) # rest) ! nat (g - (pre + n)) = b'
        \<and> S' + b' * (g + n' - i' - 1) = S + b * n + sum_list (take (nat (g - (pre + n))) (expand ((b2, n2) # rest)))"
      using Cons.prems True nn nn' s l by (intro Cons.IH) (auto simp: p mult.commute)
    then show ?thesis using True k nn conv
      by (auto simp: p nth_append mult.commute simp del: expand_Cons) (auto simp: nth_append mult.commute)
  next
    case False
    then have "nat (g - pre) < nat n" using Cons.prems nn by linarith
    then show ?thesis using False Cons.prems by (auto simp: p nth_append mult.commute)
  qed
qed

lemma dist_walk:
  assumes ok: "dist_ok d" and g: "0 \<le> g" "g < int (length (expand d))"
  shows "\<exists>n' i' S'. walkBlocks d (firstIndex d) 0 g = Inr ((expand d ! nat g, n'), i', S')
    \<and> S' + expand d ! nat g * (g + n' - i' - 1) = sum_list (take (nat g) (expand d))"
proof (cases d)
  case Nil
  with g show ?thesis by simp
next
  case (Cons p rest)
  obtain b n where p: "p = (b, n)" by (cases p)
  have "0 \<le> n" "n < 2 ^ 31" using ok by (auto simp: dist_ok_def Cons p)
  then have "firstIndex d = 0 + n - 1" by (simp add: firstIndex_def Cons p i32_id)
  with walkBlocks_prefix [of b n rest 0 0 g] ok g show ?thesis by (auto simp: dist_ok_def Cons p)
qed

section \<open>Properties\<close>

text \<open>
  Static load distribution is consistent. For every parsed distribution whose cells add up to
  the global size, the local size of process \<open>g\<close> is entry \<open>g\<close> of the expanded list and its offset is the
  sum of the entries before, so the domains of neighbouring processes join without gap or
  overlap; a distribution that does not add up is rejected.
\<close>

theorem distribution_prefix_sums:
  assumes "dist_ok d" "0 \<le> g" "g < int (length (expand d))"
  shows "dist_getLocalSize d g = Inr (expand d ! nat g)
    \<and> dist_getOffset d g maxCells =
        (if sum_list (expand d) = maxCells then Inr (sum_list (take (nat g) (expand d))) else Inl AssertionFailed)"
proof -
  obtain n' i' S' where w: "walkBlocks d (firstIndex d) 0 g = Inr ((expand d ! nat g, n'), i', S')"
    and s: "S' + expand d ! nat g * (g + n' - i' - 1) = sum_list (take (nat g) (expand d))"
    using dist_walk [OF assms] by blast
  have "0 \<le> sum_list (take (nat g) (expand d))" "sum_list (take (nat g) (expand d)) < 2 ^ 31"
    using assms(1) expand_take_nonneg [of d "nat g"] by (auto simp: dist_ok_def)
  then have "u32 (i32 (sum_list (take (nat g) (expand d)))) = sum_list (take (nat g) (expand d))"
    by (simp add: i32_id u32_id)
  then show ?thesis
    by (simp add: dist_getLocalSize_def dist_getOffset_def w s Let_def totalCells_sum [OF assms(1)])
qed

theorem distribution_prefix_sums_witness:
  "dist_getLocalSize [(64, 1), (32, 3), (128, 2)] 4 = Inr 128
   \<and> dist_getOffset [(64, 1), (32, 3), (128, 2)] 4 416 = Inr 160"
  using distribution_prefix_sums [of "[(64, 1), (32, 3), (128, 2)]" 4 416]
  by (simp add: dist_ok_def eval_nat_numeral)

text \<open>
  C30. Every configuration that passes the setup checks of the simulation is a mapping on
  which kernels work: with one guard supercell the mapping description exists, its assertions hold,
  border layers do not overlap, and the core is not empty.
\<close>

theorem accepted_setup_wf:
  assumes ok: "setupMapping SuperCellSize 1 ABSORBER_CELLS isPeriodic globalGridSize gridSizeLocal = Inr m"
    and len: "length SuperCellSize = DIM" "length globalGridSize = DIM" "length gridSizeLocal = DIM" "DIM = 2 \<or> DIM = 3"
    and pos: "\<forall>s \<in> set SuperCellSize. 0 < s" "\<forall>s \<in> set gridSizeLocal. 0 \<le> s"
    and fits: "\<forall>s \<in> set SuperCellSize. s < 2 ^ 31" "\<forall>s \<in> set gridSizeLocal. s < 2 ^ 31"
      "prod_list (gridSuperCells m) < 2 ^ 31"
  shows "mapping_wf m \<and> gridSuperCells m = map2 (\<lambda>l s. l div s + 2) gridSizeLocal SuperCellSize
    \<and> guardingSuperCells m = 1 \<and> borderSuperCells m = 1 \<and> areaCells CORE m \<noteq> {}"
proof -
  let ?S = SuperCellSize and ?L = gridSizeLocal
  have chk: "checkGridConfiguration ?S 1 globalGridSize ?L"
    and m: "MappingDescription_of ?S (getDataSpace (GridLayout_of ?L ?S)) 1 1 = Some m"
    using ok by (auto simp: setupMapping_def Let_def split: option.splits if_splits)
  have ax: "0 < ?S ! d" "0 \<le> ?L ! d" "3 \<le> ?L ! d div ?S ! d" "(?L ! d + 2 * ?S ! d) sdiv ?S ! d = ?L ! d div ?S ! d + 2"
    if d: "d < DIM" for d
  proof -
    show p: "0 < ?S ! d" "0 \<le> ?L ! d" using pos len d by auto
    have "?S ! d < 2 ^ 31" "?L ! d < 2 ^ 31" using fits len d by auto
    then have "u32 (?L ! d) = ?L ! d" "u32 (?S ! d) = ?S ! d" using p by (simp_all add: u32_id)
    moreover have "3 \<le> u32 (?L ! d) div u32 (?S ! d)"
      using chk d len by (auto simp: checkGridConfiguration_def list_all_iff u32_def)
    ultimately show "3 \<le> ?L ! d div ?S ! d" by simp
    show "(?L ! d + 2 * ?S ! d) sdiv ?S ! d = ?L ! d div ?S ! d + 2" using p by (simp add: sdiv_nonneg)
  qed
  have "getDataSpace (GridLayout_of ?L ?S) = map2 (\<lambda>a b. a + 2 * b) ?L ?S" using getDataSpace_guarded len by simp
  then have cells: "ds_div (getDataSpace (GridLayout_of ?L ?S)) ?S = map2 (\<lambda>l s. l div s + 2) ?L ?S"
    using ax len by (auto simp: vec_simps intro!: nth_equalityI)
  have g: "gridSuperCells m = map2 (\<lambda>l s. l div s + 2) ?L ?S" "guardingSuperCells m = 1" "borderSuperCells m = 1"
    using m unfolding MappingDescription_of_def Let_def cells by (auto split: if_splits)
  have n: "5 \<le> gridSuperCells m ! d" if "d < DIM" for d using ax [OF that] that len g by simp
  have lg: "length (gridSuperCells m) = DIM" using g len by simp
  have "mapping_wf m"
    using n lg len fits g(2,3) unfolding mapping_wf_def list_all_length by force
  moreover have "replicate DIM 2 \<in> areaCells CORE m"
    using n lg g by (force simp: areaCells_def inner_box_def Let_def)
  ultimately show ?thesis using g by blast
qed

theorem accepted_setup_wf_witness:
  "\<exists>m. setupMapping [8, 8, 4] 1 (\<lambda>i j. 32) [0, 1, 0] [64, 512, 96] [64, 128, 96] = Inr m \<and> mapping_wf m
     \<and> gridSuperCells m = [10, 18, 26]"
proof -
  let ?m = "\<lparr>gridSuperCells = [10, 18, 26], guardingSuperCells = 1, borderSuperCells = 1\<rparr>"
  have "setupMapping [8, 8, 4] 1 (\<lambda>i j. 32) [0, 1, 0] [64, 512, 96] [64, 128, 96] = Inr ?m"
    by (simp add: setupMapping_def Let_def MappingDescription_of_def getDataSpace_def GridLayout_of_def vec_simps
        sdiv_nonneg smod_nonneg checkGridConfiguration_def absorberFits_def getGridLayout_def
        getDataSpaceWithoutGuarding_def upt_rec u32_def i32_def)
  with accepted_setup_wf [OF this, of 3] show ?thesis by simp
qed

end
