(* ===== verification/ParticleTasks.thy ===== *)
theory ParticleTasks
  imports Prelude "HOL-Library.Multiset" "HOL-Library.Monad_Syntax"
begin

text \<open>
  Models the two tasks that exchange the particles of one direction between two processes,
  \<open>TaskSendParticlesExchange\<close> and \<open>TaskReceiveParticlesExchange\<close> (particles/tasks). Both are templates over the
  species \<open>ParBase\<close>, whose operations are arguments here: \<open>bash r\<close> is \<open>bashParticles\<close> in round \<open>r\<close> (how
  the blocks of its kernel are scheduled may depend on the round), \<open>stackOf\<close> the send stack, \<open>stackSize\<close> the number
  of particles in a stack and \<open>insert\<close> is \<open>insertParticles\<close> of a received stack.

  The sender repeats bash and send as long as the stack was full, the receiver repeats receive and insert as long as the
  received stack was full; no other signal tells them how many rounds there are. \<open>executeIntern\<close> asks whether an event
  is finished; the answers are arguments. Sent stacks are in flight until they are received, in the order of
  sending, which is what MPI promises for messages with the same source, target and tag. The effect of a kernel is applied
  when it is started: nothing reads its result before the event of its transaction is finished.
\<close>

section \<open>The tasks\<close>

datatype send_state = Send_Constructor | Send_Init | WaitForBash | InitSend | WaitForSend | WaitForSendEnd | Send_Finished

datatype recv_state = Recv_Constructor | Recv_Init | WaitForReceive | InitInsert | WaitForInsert | Recv_Wait | Recv_Finished

record ('s, 'm, 'r) ParticleExchange =
  sendState :: send_state
  sendBase :: 's
  sendRound :: nat
  sendLastSize :: nat
  inFlight :: "'m list"
  recvState :: recv_state
  recvBase :: 'r
  recvLastSize :: nat

definition TaskSend_init ::
  "(nat \<Rightarrow> 's \<Rightarrow> 's option) \<Rightarrow> ('s, 'm, 'r) ParticleExchange \<Rightarrow> ('s, 'm, 'r) ParticleExchange option" where
  "TaskSend_init bash x =
     do {
       s \<leftarrow> bash (sendRound x) (sendBase x);
       Some (x\<lparr>sendBase := s, sendRound := Suc (sendRound x), sendState := WaitForBash\<rparr>)
     }"

text \<open>\<open>tmp\<close> and \<open>lastSend\<close>: whether \<open>tmpEvent\<close> and \<open>lastSendEvent\<close> are finished. A failed assertion is \<open>None\<close>.\<close>

definition TaskSend_executeIntern ::
  "nat \<Rightarrow> (nat \<Rightarrow> 's \<Rightarrow> 's option) \<Rightarrow> ('s \<Rightarrow> 'm) \<Rightarrow> ('m \<Rightarrow> nat) \<Rightarrow> bool \<Rightarrow> bool \<Rightarrow>
   ('s, 'm, 'r) ParticleExchange \<Rightarrow> (('s, 'm, 'r) ParticleExchange \<times> bool) option" where
  "TaskSend_executeIntern maxSize bash stackOf stackSize tmp lastSend x =
     (case sendState x of
        WaitForBash \<Rightarrow>
          if tmp \<and> lastSend
          then Some (x\<lparr>sendLastSize := stackSize (stackOf (sendBase x)), inFlight := inFlight x @ [stackOf (sendBase x)],
                       sendState := WaitForSend\<rparr>, False)
          else Some (x, False)
      | WaitForSend \<Rightarrow>
          if tmp
          then if sendLastSize x \<le> maxSize
               then if sendLastSize x = maxSize
                    then do { x \<leftarrow> TaskSend_init bash x; Some (x, False) }
                    else Some (x\<lparr>sendState := WaitForSendEnd\<rparr>, False)
               else None
          else Some (x, False)
      | WaitForSendEnd \<Rightarrow>
          if lastSend then Some (x\<lparr>sendState := Send_Finished\<rparr>, True) else Some (x, False)
      | Send_Finished \<Rightarrow> Some (x, True)
      | _ \<Rightarrow> Some (x, False))"

definition TaskReceive_init :: "('s, 'm, 'r) ParticleExchange \<Rightarrow> ('s, 'm, 'r) ParticleExchange" where
  "TaskReceive_init x = x\<lparr>recvState := WaitForReceive\<rparr>"

text \<open>
  \<open>lastReceive\<close>: whether the receive is allowed to be finished, which it is only when a message is in flight;
  \<open>tmp\<close>: whether the insertion is finished.
\<close>

definition TaskReceive_executeIntern ::
  "nat \<Rightarrow> ('m \<Rightarrow> nat) \<Rightarrow> ('m \<Rightarrow> 'r \<Rightarrow> 'r option) \<Rightarrow> bool \<Rightarrow> bool \<Rightarrow>
   ('s, 'm, 'r) ParticleExchange \<Rightarrow> (('s, 'm, 'r) ParticleExchange \<times> bool) option" where
  "TaskReceive_executeIntern maxSize stackSize ins lastReceive tmp x =
     (case recvState x of
        WaitForReceive \<Rightarrow>
          (case inFlight x of
             [] \<Rightarrow> Some (x, False)
           | m # ms \<Rightarrow>
               if lastReceive
               then do {
                 r \<leftarrow> ins m (recvBase x);
                 Some (x\<lparr>recvLastSize := stackSize m, inFlight := ms, recvBase := r, recvState := WaitForInsert\<rparr>, False)
               }
               else Some (x, False))
      | WaitForInsert \<Rightarrow>
          if tmp
          then if recvLastSize x \<le> maxSize
               then if recvLastSize x = maxSize then Some (TaskReceive_init x, False)
                    else Some (x\<lparr>recvState := Recv_Finished\<rparr>, True)
               else None
          else Some (x, False)
      | Recv_Finished \<Rightarrow> Some (x, True)
      | _ \<Rightarrow> Some (x, False))"

section \<open>Schedules\<close>

text \<open>The managers of the two processes call the tasks in any order and get any answers about the events.\<close>

datatype turn = SendTurn bool bool | RecvTurn bool bool

definition exchangeTurn ::
  "nat \<Rightarrow> (nat \<Rightarrow> 's \<Rightarrow> 's option) \<Rightarrow> ('s \<Rightarrow> 'm) \<Rightarrow> ('m \<Rightarrow> nat) \<Rightarrow> ('m \<Rightarrow> 'r \<Rightarrow> 'r option) \<Rightarrow> turn \<Rightarrow>
   ('s, 'm, 'r) ParticleExchange \<Rightarrow> ('s, 'm, 'r) ParticleExchange option" where
  "exchangeTurn maxSize bash stackOf stackSize ins t x =
     (case t of
        SendTurn tmp lastSend \<Rightarrow> map_option fst (TaskSend_executeIntern maxSize bash stackOf stackSize tmp lastSend x)
      | RecvTurn lastReceive tmp \<Rightarrow> map_option fst (TaskReceive_executeIntern maxSize stackSize ins lastReceive tmp x))"

definition exchangeStart ::
  "(nat \<Rightarrow> 's \<Rightarrow> 's option) \<Rightarrow> 's \<Rightarrow> 'r \<Rightarrow> ('s, 'm, 'r) ParticleExchange option" where
  "exchangeStart bash s r =
     map_option TaskReceive_init
       (TaskSend_init bash \<lparr>sendState = Send_Constructor, sendBase = s, sendRound = 0, sendLastSize = 0, inFlight = [],
          recvState = Recv_Constructor, recvBase = r, recvLastSize = 0\<rparr>)"

primrec exchangeRun ::
  "nat \<Rightarrow> (nat \<Rightarrow> 's \<Rightarrow> 's option) \<Rightarrow> ('s \<Rightarrow> 'm) \<Rightarrow> ('m \<Rightarrow> nat) \<Rightarrow> ('m \<Rightarrow> 'r \<Rightarrow> 'r option) \<Rightarrow> (nat \<Rightarrow> turn) \<Rightarrow>
   's \<Rightarrow> 'r \<Rightarrow> nat \<Rightarrow> ('s, 'm, 'r) ParticleExchange option" where
  "exchangeRun maxSize bash stackOf stackSize ins turns s r 0 = exchangeStart bash s r"
| "exchangeRun maxSize bash stackOf stackSize ins turns s r (Suc n) =
     do {
       x \<leftarrow> exchangeRun maxSize bash stackOf stackSize ins turns s r n;
       exchangeTurn maxSize bash stackOf stackSize ins (turns n) x
     }"

definition exchange_finished :: "('s, 'm, 'r) ParticleExchange \<Rightarrow> bool" where
  "exchange_finished x \<longleftrightarrow> sendState x = Send_Finished \<and> recvState x = Recv_Finished"

text \<open>Both tasks are called again and again with all their events finished.\<close>

definition fair_turns :: "(nat \<Rightarrow> turn) \<Rightarrow> bool" where
  "fair_turns turns \<longleftrightarrow> (\<forall>i. (\<exists>j \<ge> i. turns j = SendTurn True True) \<and> (\<exists>j \<ge> i. turns j = RecvTurn True True))"

section \<open>Invariant of the exchange\<close>

text \<open>The sender has sent its last message.\<close>

definition closing :: "nat \<Rightarrow> ('s, 'm, 'r) ParticleExchange \<Rightarrow> bool" where
  "closing maxSize x \<longleftrightarrow> sendState x \<noteq> WaitForBash \<and> sendLastSize x < maxSize"

text \<open>The receiver waits for another message, or will do so after the insertion.\<close>

definition receiving :: "nat \<Rightarrow> ('s, 'm, 'r) ParticleExchange \<Rightarrow> bool" where
  "receiving maxSize x \<longleftrightarrow> recvState x = WaitForReceive \<or> recvState x = WaitForInsert \<and> recvLastSize x = maxSize"

text \<open>
  The sizes of the messages in flight tell the receiver when to stop: all are full but the very last one, and the receiver
  is done exactly when it has seen that one.
\<close>

definition in_step :: "nat \<Rightarrow> ('m \<Rightarrow> nat) \<Rightarrow> ('s, 'm, 'r) ParticleExchange \<Rightarrow> bool" where
  "in_step maxSize stackSize x \<longleftrightarrow>
     (if receiving maxSize x
      then \<exists>ms. (\<forall>m \<in> set ms. stackSize m = maxSize)
             \<and> (if closing maxSize x then \<exists>m. stackSize m < maxSize \<and> inFlight x = ms @ [m] else inFlight x = ms)
      else closing maxSize x \<and> inFlight x = []
           \<and> (recvState x = WaitForInsert \<and> recvLastSize x < maxSize \<or> recvState x = Recv_Finished))"

definition exchange_inv ::
  "nat \<Rightarrow> ('s \<Rightarrow> 'm) \<Rightarrow> ('m \<Rightarrow> nat) \<Rightarrow> ('s \<Rightarrow> bool) \<Rightarrow> ('m \<Rightarrow> bool) \<Rightarrow> ('r \<Rightarrow> bool) \<Rightarrow> ('s \<Rightarrow> 'c \<Rightarrow> 'p multiset) \<Rightarrow>
   ('m \<Rightarrow> 'c \<Rightarrow> 'p multiset) \<Rightarrow> ('r \<Rightarrow> 'c \<Rightarrow> 'p multiset) \<Rightarrow> ('s \<Rightarrow> bool) \<Rightarrow> ('c \<Rightarrow> 'p multiset) \<Rightarrow> ('s, 'm, 'r) ParticleExchange \<Rightarrow> bool" where
  "exchange_inv maxSize stackOf stackSize sender message receiver load carry gain cleared load0 x \<longleftrightarrow>
     sender (sendBase x) \<and> receiver (recvBase x) \<and> (\<forall>m \<in> set (inFlight x). message m)
     \<and> (sendState x = WaitForBash \<and> message (stackOf (sendBase x)) \<and> stackSize (stackOf (sendBase x)) \<le> maxSize
          \<and> (stackSize (stackOf (sendBase x)) < maxSize \<longrightarrow> cleared (sendBase x))
        \<or> sendState x = WaitForSend \<and> sendLastSize x \<le> maxSize \<and> (sendLastSize x < maxSize \<longrightarrow> cleared (sendBase x))
        \<or> (sendState x = WaitForSendEnd \<or> sendState x = Send_Finished) \<and> sendLastSize x < maxSize \<and> cleared (sendBase x))
     \<and> in_step maxSize stackSize x
     \<and> (\<forall>c. load (sendBase x) c + (if sendState x = WaitForBash then carry (stackOf (sendBase x)) c else {#})
            + (\<Sum>m \<leftarrow> inFlight x. carry m c) + gain (recvBase x) c = load0 c)"

text \<open>A bound on the number of calls that change the state.\<close>

definition exchange_work :: "nat \<Rightarrow> ('s \<Rightarrow> 'm) \<Rightarrow> ('m \<Rightarrow> nat) \<Rightarrow> ('s \<Rightarrow> nat) \<Rightarrow> ('s, 'm, 'r) ParticleExchange \<Rightarrow> nat" where
  "exchange_work maxSize stackOf stackSize amount x =
     (case sendState x of
        WaitForBash \<Rightarrow> if stackSize (stackOf (sendBase x)) = maxSize then 8 * amount (sendBase x) + 15 else 7
      | WaitForSend \<Rightarrow> if sendLastSize x = maxSize then 8 * amount (sendBase x) + 8 else 3
      | WaitForSendEnd \<Rightarrow> 2
      | _ \<Rightarrow> 1)
     + 3 * length (inFlight x) + (case recvState x of WaitForReceive \<Rightarrow> 1 | WaitForInsert \<Rightarrow> 2 | _ \<Rightarrow> 0)"

section \<open>What a species promises\<close>

text \<open>
  \<open>load\<close>, \<open>carry\<close> and \<open>gain\<close> are the particles of a cell that wait at the sender, travel in a stack and have arrived at the
  receiver; \<open>amount\<close> bounds how often a full stack can still be bashed.
\<close>

locale particle_base =
  fixes maxSize :: nat and bash :: "nat \<Rightarrow> 's \<Rightarrow> 's option" and stackOf :: "'s \<Rightarrow> 'm" and stackSize :: "'m \<Rightarrow> nat"
    and ins :: "'m \<Rightarrow> 'r \<Rightarrow> 'r option" and sender :: "'s \<Rightarrow> bool" and message :: "'m \<Rightarrow> bool" and receiver :: "'r \<Rightarrow> bool"
    and load :: "'s \<Rightarrow> 'c \<Rightarrow> 'p multiset" and carry :: "'m \<Rightarrow> 'c \<Rightarrow> 'p multiset" and gain :: "'r \<Rightarrow> 'c \<Rightarrow> 'p multiset"
    and amount :: "'s \<Rightarrow> nat" and cleared :: "'s \<Rightarrow> bool"
  assumes bash: "sender s \<Longrightarrow> \<exists>s'. bash k s = Some s' \<and> sender s' \<and> message (stackOf s') \<and> stackSize (stackOf s') \<le> maxSize
      \<and> (\<forall>c. load s' c + carry (stackOf s') c = load s c) \<and> (stackSize (stackOf s') = maxSize \<longrightarrow> amount s' < amount s)
      \<and> (stackSize (stackOf s') < maxSize \<longrightarrow> cleared s')"
    and cleared: "sender s \<Longrightarrow> cleared s \<Longrightarrow> load s c = {#}"
    and ins: "receiver r \<Longrightarrow> message m \<Longrightarrow> \<exists>r'. ins m r = Some r' \<and> receiver r' \<and> (\<forall>c. gain r' c = gain r c + carry m c)"

begin

lemma start:
  assumes "sender s" "receiver r"
  shows "\<exists>x. exchangeStart bash s r = Some x
    \<and> exchange_inv maxSize stackOf stackSize sender message receiver load carry gain cleared (\<lambda>c. load s c + gain r c) x"
proof -
  obtain s' where "bash 0 s = Some s'" "sender s'" "message (stackOf s')" "stackSize (stackOf s') \<le> maxSize"
    "\<forall>c. load s' c + carry (stackOf s') c = load s c" "stackSize (stackOf s') < maxSize \<longrightarrow> cleared s'"
    using bash [OF assms(1), of 0] by blast
  then show ?thesis using assms(2)
    by (simp add: exchangeStart_def TaskSend_init_def TaskReceive_init_def exchange_inv_def in_step_def receiving_def closing_def)
qed

lemma in_step_send:
  assumes "in_step maxSize stackSize x" "sendState x = WaitForBash" "stackSize m \<le> maxSize"
  shows "in_step maxSize stackSize (x\<lparr>sendLastSize := stackSize m, inFlight := inFlight x @ [m], sendState := WaitForSend\<rparr>)"
proof -
  let ?x = "x\<lparr>sendLastSize := stackSize m, inFlight := inFlight x @ [m], sendState := WaitForSend\<rparr>"
  have r: "receiving maxSize x" and full: "\<forall>m \<in> set (inFlight x). stackSize m = maxSize"
    using assms(1,2) by (auto simp: in_step_def closing_def split: if_splits)
  have r': "receiving maxSize ?x" using r by (simp add: receiving_def)
  show ?thesis
  proof (cases "stackSize m < maxSize")
    case True
    then show ?thesis using r' full by (auto simp: in_step_def closing_def)
  next
    case False
    then show ?thesis using r' full assms(3) by (auto simp: in_step_def closing_def)
  qed
qed

lemma in_step_sender:
  assumes "in_step maxSize stackSize x" "recvState y = recvState x" "recvLastSize y = recvLastSize x" "inFlight y = inFlight x"
    "closing maxSize y = closing maxSize x"
  shows "in_step maxSize stackSize y"
  using assms unfolding in_step_def receiving_def by (simp only: )

lemma send_turn:
  assumes inv: "exchange_inv maxSize stackOf stackSize sender message receiver load carry gain cleared load0 x"
  shows "\<exists>x'. exchangeTurn maxSize bash stackOf stackSize ins (SendTurn tmp lastSend) x = Some x'
    \<and> exchange_inv maxSize stackOf stackSize sender message receiver load carry gain cleared load0 x'
    \<and> (x' = x \<or> exchange_work maxSize stackOf stackSize amount x' < exchange_work maxSize stackOf stackSize amount x)
    \<and> (tmp \<and> lastSend \<and> sendState x \<noteq> Send_Finished \<longrightarrow> x' \<noteq> x)"
proof -
  note I = inv [unfolded exchange_inv_def]
  let ?m = "stackOf (sendBase x)"
  consider (bash) "sendState x = WaitForBash" "message ?m" "stackSize ?m \<le> maxSize" "stackSize ?m < maxSize \<longrightarrow> cleared (sendBase x)"
    | (send) "sendState x = WaitForSend" "sendLastSize x \<le> maxSize" "sendLastSize x < maxSize \<longrightarrow> cleared (sendBase x)"
    | (last) "sendState x = WaitForSendEnd" "sendLastSize x < maxSize" "cleared (sendBase x)"
    | (over) "sendState x = Send_Finished"
    using I by blast
  then show ?thesis
  proof cases
    case bash
    let ?x = "x\<lparr>sendLastSize := stackSize ?m, inFlight := inFlight x @ [?m], sendState := WaitForSend\<rparr>"
    have "in_step maxSize stackSize ?x" using in_step_send bash I by blast
    then have "exchange_inv maxSize stackOf stackSize sender message receiver load carry gain cleared load0 ?x"
      using I bash by (auto simp: exchange_inv_def add_ac)
    moreover have "exchange_work maxSize stackOf stackSize amount ?x < exchange_work maxSize stackOf stackSize amount x"
      using bash by (simp add: exchange_work_def)
    ultimately show ?thesis using inv bash
      by (cases "tmp \<and> lastSend") (auto simp: exchangeTurn_def TaskSend_executeIntern_def)
  next
    case send
    show ?thesis
    proof (cases "sendLastSize x = maxSize")
      case True
      obtain s' where s': "bash (sendRound x) (sendBase x) = Some s'" "sender s'" "message (stackOf s')" "stackSize (stackOf s') \<le> maxSize"
        "\<forall>c. load s' c + carry (stackOf s') c = load (sendBase x) c" "stackSize (stackOf s') = maxSize \<longrightarrow> amount s' < amount (sendBase x)"
        "stackSize (stackOf s') < maxSize \<longrightarrow> cleared s'"
        using bash [of "sendBase x" "sendRound x"] I by blast
      let ?x = "x\<lparr>sendBase := s', sendRound := Suc (sendRound x), sendState := WaitForBash\<rparr>"
      have "in_step maxSize stackSize ?x"
        by (rule in_step_sender [of x]) (use I True in \<open>auto simp: closing_def\<close>)
      moreover have "load s' c + carry (stackOf s') c + (\<Sum>m \<leftarrow> inFlight x. carry m c) + gain (recvBase x) c = load0 c" for c
        using I s'(5) send(1) by simp
      ultimately have "exchange_inv maxSize stackOf stackSize sender message receiver load carry gain cleared load0 ?x"
        using I s' by (simp add: exchange_inv_def)
      moreover have "exchange_work maxSize stackOf stackSize amount ?x < exchange_work maxSize stackOf stackSize amount x"
        using send s'(6) True by (auto simp: exchange_work_def)
      ultimately show ?thesis using inv send True s'(1)
        by (cases tmp) (auto simp: exchangeTurn_def TaskSend_executeIntern_def TaskSend_init_def)
    next
      case False
      let ?x = "x\<lparr>sendState := WaitForSendEnd\<rparr>"
      have "in_step maxSize stackSize ?x"
        by (rule in_step_sender [of x]) (use I send in \<open>auto simp: closing_def\<close>)
      then have "exchange_inv maxSize stackOf stackSize sender message receiver load carry gain cleared load0 ?x"
        using I send False by (auto simp: exchange_inv_def)
      moreover have "exchange_work maxSize stackOf stackSize amount ?x < exchange_work maxSize stackOf stackSize amount x"
        using send False by (simp add: exchange_work_def)
      ultimately show ?thesis using inv send False
        by (cases tmp) (auto simp: exchangeTurn_def TaskSend_executeIntern_def)
    qed
  next
    case last
    let ?x = "x\<lparr>sendState := Send_Finished\<rparr>"
    have "in_step maxSize stackSize ?x"
      by (rule in_step_sender [of x]) (use I last in \<open>auto simp: closing_def\<close>)
    then have "exchange_inv maxSize stackOf stackSize sender message receiver load carry gain cleared load0 ?x"
      using I last by (auto simp: exchange_inv_def)
    moreover have "exchange_work maxSize stackOf stackSize amount ?x < exchange_work maxSize stackOf stackSize amount x"
      using last by (simp add: exchange_work_def)
    ultimately show ?thesis using inv last
      by (cases lastSend) (auto simp: exchangeTurn_def TaskSend_executeIntern_def)
  next
    case over
    then show ?thesis using inv by (auto simp: exchangeTurn_def TaskSend_executeIntern_def)
  qed
qed

lemma recv_turn:
  assumes inv: "exchange_inv maxSize stackOf stackSize sender message receiver load carry gain cleared load0 x"
  shows "\<exists>x'. exchangeTurn maxSize bash stackOf stackSize ins (RecvTurn lastReceive tmp) x = Some x'
    \<and> exchange_inv maxSize stackOf stackSize sender message receiver load carry gain cleared load0 x'
    \<and> (x' = x \<or> exchange_work maxSize stackOf stackSize amount x' < exchange_work maxSize stackOf stackSize amount x)
    \<and> (lastReceive \<and> tmp \<and> sendState x = Send_Finished \<and> recvState x \<noteq> Recv_Finished \<longrightarrow> x' \<noteq> x)"
proof -
  note I = inv [unfolded exchange_inv_def]
  have step: "in_step maxSize stackSize x" using I by blast
  consider (receive) "recvState x = WaitForReceive" | (insert) "recvState x = WaitForInsert" | (over) "recvState x = Recv_Finished"
    using step by (auto simp: in_step_def receiving_def split: if_splits)
  then show ?thesis
  proof cases
    case receive
    show ?thesis
    proof (cases "inFlight x")
      case Nil
      then have "sendState x \<noteq> Send_Finished" using I step receive by (auto simp: in_step_def receiving_def closing_def)
      then show ?thesis using inv receive Nil by (auto simp: exchangeTurn_def TaskReceive_executeIntern_def)
    next
      case (Cons m ms)
      obtain r' where r': "ins m (recvBase x) = Some r'" "receiver r'" "\<forall>c. gain r' c = gain (recvBase x) c + carry m c"
        using ins [of "recvBase x" m] I Cons by auto
      let ?x = "x\<lparr>recvLastSize := stackSize m, inFlight := ms, recvBase := r', recvState := WaitForInsert\<rparr>"
      have cl: "closing maxSize ?x = closing maxSize x" by (simp add: closing_def)
      have "in_step maxSize stackSize ?x"
      proof (cases "closing maxSize x")
        case True
        obtain ks k where k: "\<forall>m \<in> set ks. stackSize m = maxSize" "stackSize k < maxSize" "m # ms = ks @ [k]"
          using step True receive Cons by (auto simp: in_step_def receiving_def)
        then show ?thesis using True cl by (cases ks) (auto simp: in_step_def receiving_def)
      next
        case False
        then show ?thesis using step receive Cons cl by (auto simp: in_step_def receiving_def)
      qed
      moreover have "load (sendBase ?x) c + (if sendState ?x = WaitForBash then carry (stackOf (sendBase ?x)) c else {#})
            + (\<Sum>m \<leftarrow> inFlight ?x. carry m c) + gain (recvBase ?x) c = load0 c" for c
      proof -
        have "load (sendBase x) c + (if sendState x = WaitForBash then carry (stackOf (sendBase x)) c else {#})
            + (\<Sum>m \<leftarrow> inFlight x. carry m c) + gain (recvBase x) c = load0 c" using I by blast
        then show ?thesis using Cons r'(3) by (cases "sendState x = WaitForBash") (simp_all add: add_ac)
      qed
      ultimately have "exchange_inv maxSize stackOf stackSize sender message receiver load carry gain cleared load0 ?x"
        using I r'(2) Cons by (simp add: exchange_inv_def)
      moreover have "exchange_work maxSize stackOf stackSize amount ?x < exchange_work maxSize stackOf stackSize amount x"
        using receive Cons by (cases "sendState x") (simp_all add: exchange_work_def)
      ultimately show ?thesis using inv receive Cons r'(1)
        by (cases lastReceive) (auto simp: exchangeTurn_def TaskReceive_executeIntern_def)
    qed
  next
    case insert
    have le: "recvLastSize x \<le> maxSize" using step insert by (auto simp: in_step_def receiving_def split: if_splits)
    let ?x = "if recvLastSize x = maxSize then TaskReceive_init x else x\<lparr>recvState := Recv_Finished\<rparr>"
    have "in_step maxSize stackSize ?x"
    proof (cases "recvLastSize x = maxSize")
      case True
      have "receiving maxSize x" "receiving maxSize (TaskReceive_init x)"
        using insert True by (simp_all add: receiving_def TaskReceive_init_def)
      then have "in_step maxSize stackSize (TaskReceive_init x) = in_step maxSize stackSize x"
        by (simp add: in_step_def closing_def TaskReceive_init_def)
      then show ?thesis using step True by simp
    next
      case False
      then show ?thesis using step insert le by (auto simp: in_step_def receiving_def closing_def)
    qed
    then have "exchange_inv maxSize stackOf stackSize sender message receiver load carry gain cleared load0 ?x"
      using I by (auto simp: exchange_inv_def TaskReceive_init_def)
    moreover have "exchange_work maxSize stackOf stackSize amount ?x < exchange_work maxSize stackOf stackSize amount x"
      using insert by (cases "sendState x") (simp_all add: exchange_work_def TaskReceive_init_def)
    ultimately show ?thesis using inv insert le
      by (cases tmp) (auto simp: exchangeTurn_def TaskReceive_executeIntern_def split: if_splits)
  next
    case over
    then show ?thesis using inv by (auto simp: exchangeTurn_def TaskReceive_executeIntern_def)
  qed
qed

lemma any_turn:
  assumes "exchange_inv maxSize stackOf stackSize sender message receiver load carry gain cleared load0 x"
  shows "\<exists>x'. exchangeTurn maxSize bash stackOf stackSize ins t x = Some x'
    \<and> exchange_inv maxSize stackOf stackSize sender message receiver load carry gain cleared load0 x'
    \<and> (x' = x \<or> exchange_work maxSize stackOf stackSize amount x' < exchange_work maxSize stackOf stackSize amount x)"
proof (cases t)
  case (SendTurn a b)
  show ?thesis unfolding SendTurn using send_turn [OF assms, of a b] by (elim exE conjE) (intro exI conjI; assumption)
next
  case (RecvTurn a b)
  show ?thesis unfolding RecvTurn using recv_turn [OF assms, of a b] by (elim exE conjE) (intro exI conjI; assumption)
qed

lemma run:
  assumes "sender s" "receiver r"
  shows "\<exists>x. exchangeRun maxSize bash stackOf stackSize ins turns s r n = Some x
    \<and> exchange_inv maxSize stackOf stackSize sender message receiver load carry gain cleared (\<lambda>c. load s c + gain r c) x"
proof (induction n)
  case 0
  show ?case using start [OF assms] by simp
next
  case (Suc n)
  then obtain x where "exchangeRun maxSize bash stackOf stackSize ins turns s r n = Some x"
    "exchange_inv maxSize stackOf stackSize sender message receiver load carry gain cleared (\<lambda>c. load s c + gain r c) x" by blast
  with any_turn [of _ x "turns n"] show ?case by fastforce
qed

lemma finished:
  assumes "exchange_inv maxSize stackOf stackSize sender message receiver load carry gain cleared load0 x" "exchange_finished x"
  shows "sender (sendBase x) \<and> cleared (sendBase x) \<and> receiver (recvBase x) \<and> inFlight x = [] \<and> (\<forall>c. gain (recvBase x) c = load0 c)"
proof -
  note I = assms(1) [unfolded exchange_inv_def]
  have e: "inFlight x = []" using I assms(2) by (auto simp: exchange_finished_def in_step_def receiving_def)
  have c: "sender (sendBase x)" "cleared (sendBase x)" "receiver (recvBase x)" using I assms(2) by (auto simp: exchange_finished_def)
  have "gain (recvBase x) c = load0 c" for c
  proof -
    have "load (sendBase x) c + (if sendState x = WaitForBash then carry (stackOf (sendBase x)) c else {#})
        + (\<Sum>m \<leftarrow> inFlight x. carry m c) + gain (recvBase x) c = load0 c" using I by blast
    then show ?thesis using assms(2) cleared [OF c(1,2), of c] e by (simp add: exchange_finished_def)
  qed
  with c e show ?thesis by blast
qed

text \<open>From any state that is not final, a fair schedule reaches one with less work to do.\<close>

lemma run_progress:
  assumes s: "sender s" "receiver r" and fair: "fair_turns turns"
    and x: "exchangeRun maxSize bash stackOf stackSize ins turns s r n = Some x" "\<not> exchange_finished x"
  shows "\<exists>k x'. exchangeRun maxSize bash stackOf stackSize ins turns s r k = Some x'
    \<and> exchange_work maxSize stackOf stackSize amount x' < exchange_work maxSize stackOf stackSize amount x"
proof (rule ccontr)
  assume none: "\<not> ?thesis"
  have stay: "exchangeRun maxSize bash stackOf stackSize ins turns s r (n + k) = Some x" for k
  proof (induction k)
    case (Suc k)
    obtain x' where x': "exchangeTurn maxSize bash stackOf stackSize ins (turns (n + k)) x = Some x'"
      "x' = x \<or> exchange_work maxSize stackOf stackSize amount x' < exchange_work maxSize stackOf stackSize amount x"
      using run [OF s, of turns "n + k"] Suc any_turn [of _ x "turns (n + k)"] by fastforce
    have "exchangeRun maxSize bash stackOf stackSize ins turns s r (n + Suc k) = Some x'" using Suc x'(1) by simp
    with none x'(2) show ?case by blast
  qed (use x in simp)
  obtain inv: "exchange_inv maxSize stackOf stackSize sender message receiver load carry gain cleared (\<lambda>c. load s c + gain r c) x"
    using run [OF s, of turns n] x(1) by auto
  have fixed: "exchangeTurn maxSize bash stackOf stackSize ins (turns j) x = Some x" if "n \<le> j" for j
    using stay [of "j - n"] stay [of "Suc (j - n)"] that by simp
  obtain i j where i: "n \<le> i" "turns i = SendTurn True True" and j: "n \<le> j" "turns j = RecvTurn True True"
    using fair unfolding fair_turns_def by blast
  have "sendState x = Send_Finished" using send_turn [OF inv, of True True] fixed [OF i(1)] i(2) by auto
  moreover have "recvState x = Recv_Finished" using recv_turn [OF inv, of True True] fixed [OF j(1)] j(2) calculation by auto
  ultimately show False using x(2) by (simp add: exchange_finished_def)
qed

lemma run_finishes:
  assumes "sender s" "receiver r" "fair_turns turns"
  shows "\<exists>n x. exchangeRun maxSize bash stackOf stackSize ins turns s r n = Some x \<and> exchange_finished x
    \<and> sender (sendBase x) \<and> cleared (sendBase x) \<and> receiver (recvBase x) \<and> inFlight x = []
    \<and> (\<forall>c. gain (recvBase x) c = load s c + gain r c)"
proof -
  have "\<exists>n x. exchangeRun maxSize bash stackOf stackSize ins turns s r n = Some x \<and> exchange_finished x"
    if "exchangeRun maxSize bash stackOf stackSize ins turns s r n = Some x" for n x
    using that
  proof (induction "exchange_work maxSize stackOf stackSize amount x" arbitrary: n x rule: less_induct)
    case less
    show ?case using run_progress [OF assms less.prems] less by blast
  qed
  then obtain n x where x: "exchangeRun maxSize bash stackOf stackSize ins turns s r n = Some x" "exchange_finished x"
    using run [OF assms(1,2), of turns 0] by blast
  moreover obtain "exchange_inv maxSize stackOf stackSize sender message receiver load carry gain cleared (\<lambda>c. load s c + gain r c) x"
    using run [OF assms(1,2), of turns n] x(1) by auto
  ultimately show ?thesis using finished by blast
qed

end

end
