(* ===== verification/FrameLists.thy ===== *)
theory FrameLists
  imports DataSpaces "HOL-Library.Monad_Syntax"
begin

text \<open>
  Models \<open>Pointer\<close> and \<open>SuperCell\<close> (particles/memory/dataTypes) and \<open>ParticlesBox\<close>
  (particles/memory/boxes/ParticlesBox.hpp): every supercell owns a doubly linked list of particle
  frames in a common heap. A pointer is an address, 0 is NULL; the heap maps addresses to frames; to
  dereference an address without a frame is \<open>None\<close>. \<open>mallocMC::malloc\<close> is an argument \<open>malloc\<close> that
  chooses the address for the next allocation, and \<open>garbage\<close> is what the allocated memory holds; on
  the device \<open>mapPtr\<close> is the identity. The contract of the lists is the locale
  \<open>frame_deque\<close>, interpreted on the model: push to both ends and removal of the last frame act on the
  lists of all supercells as on disjoint sequences, and removing until false empties a list.
\<close>

section \<open>Data\<close>

type_synonym addr = nat

text \<open>A frame: the links and, per slot, the \<open>multiMask\<close> and the attributes of a particle.\<close>

record 'p Frame =
  previousFrame :: addr
  nextFrame :: addr
  slots :: "(nat \<times> 'p) list"

record SuperCell =
  firstFramePtr :: addr
  lastFramePtr :: addr
  mustShiftVal :: bool
  sizeLastFrame :: nat

record 'p ParticlesBox =
  frames :: "addr \<rightharpoonup> 'p Frame"
  superCells :: "DataSpace \<Rightarrow> SuperCell"

definition isValid :: "addr \<Rightarrow> bool" where
  "isValid ptr \<longleftrightarrow> ptr \<noteq> 0"

definition SuperCell_init :: SuperCell where
  "SuperCell_init = \<lparr>firstFramePtr = 0, lastFramePtr = 0, mustShiftVal = False, sizeLastFrame = 0\<rparr>"

definition setMustShift :: "bool \<Rightarrow> SuperCell \<Rightarrow> SuperCell" where
  "setMustShift value this = this\<lparr>mustShiftVal := value\<rparr>"

definition setSizeLastFrame :: "nat \<Rightarrow> SuperCell \<Rightarrow> SuperCell" where
  "setSizeLastFrame sz this = this\<lparr>sizeLastFrame := sz\<rparr>"

text \<open>The host view of a device pointer; the null pointer stays null.\<close>

definition mapPtr :: "int \<Rightarrow> int \<Rightarrow> int" where
  "mapPtr hostMemoryOffset devPtr =
     (let useOffset = hostMemoryOffset * (if devPtr \<noteq> 0 then 1 else 0) in devPtr - useOffset)"

definition modifyFrame :: "addr \<Rightarrow> ('p Frame \<Rightarrow> 'p Frame) \<Rightarrow> 'p ParticlesBox \<Rightarrow> 'p ParticlesBox option" where
  "modifyFrame a g pb =
     (case frames pb a of None \<Rightarrow> None | Some f \<Rightarrow> Some (pb\<lparr>frames := (frames pb)(a \<mapsto> g f)\<rparr>))"

definition modifyCell :: "DataSpace \<Rightarrow> (SuperCell \<Rightarrow> SuperCell) \<Rightarrow> 'p ParticlesBox \<Rightarrow> 'p ParticlesBox" where
  "modifyCell idx g pb = pb\<lparr>superCells := (superCells pb)(idx := g (superCells pb idx))\<rparr>"

section \<open>Allocation\<close>

definition disableAll :: "'p Frame \<Rightarrow> 'p Frame" where
  "disableAll f = f\<lparr>slots := map (\<lambda>(m, p). (0, p)) (slots f)\<rparr>"

text \<open>The tries of \<open>getEmptyFrame\<close>; the \<open>break\<close> after a successful try is commented out in the source.\<close>

fun emptyFrameTries ::
  "((addr \<rightharpoonup> 'p Frame) \<Rightarrow> addr) \<Rightarrow> (addr \<Rightarrow> 'p Frame) \<Rightarrow> nat \<Rightarrow> addr \<Rightarrow> 'p ParticlesBox \<Rightarrow> addr \<times> 'p ParticlesBox" where
  "emptyFrameTries malloc garbage 0 tmp pb = (tmp, pb)"
| "emptyFrameTries malloc garbage (Suc n) tmp pb =
     (let tmp = malloc (frames pb)
      in if tmp \<noteq> 0
         then emptyFrameTries malloc garbage n tmp (pb\<lparr>frames := (frames pb)(tmp \<mapsto> disableAll (garbage tmp))\<rparr>)
         else emptyFrameTries malloc garbage n tmp pb)"

definition getEmptyFrame ::
  "((addr \<rightharpoonup> 'p Frame) \<Rightarrow> addr) \<Rightarrow> (addr \<Rightarrow> 'p Frame) \<Rightarrow> 'p ParticlesBox \<Rightarrow> addr \<times> 'p ParticlesBox" where
  "getEmptyFrame malloc garbage pb = emptyFrameTries malloc garbage 13 0 pb"

definition removeFrame :: "addr \<Rightarrow> 'p ParticlesBox \<Rightarrow> 'p ParticlesBox" where
  "removeFrame frame pb = pb\<lparr>frames := (frames pb)(frame := None)\<rparr>"

section \<open>Navigation\<close>

definition getNextFrame :: "addr \<Rightarrow> 'p ParticlesBox \<Rightarrow> (addr \<times> bool) option" where
  "getNextFrame frame pb =
     (case frames pb frame of None \<Rightarrow> None | Some f \<Rightarrow> Some (nextFrame f, isValid (nextFrame f)))"

definition getPreviousFrame :: "addr \<Rightarrow> 'p ParticlesBox \<Rightarrow> (addr \<times> bool) option" where
  "getPreviousFrame frame pb =
     (case frames pb frame of None \<Rightarrow> None | Some f \<Rightarrow> Some (previousFrame f, isValid (previousFrame f)))"

definition getLastFrame :: "DataSpace \<Rightarrow> 'p ParticlesBox \<Rightarrow> addr \<times> bool" where
  "getLastFrame idx pb = (lastFramePtr (superCells pb idx), isValid (lastFramePtr (superCells pb idx)))"

definition getFirstFrame :: "DataSpace \<Rightarrow> 'p ParticlesBox \<Rightarrow> addr \<times> bool" where
  "getFirstFrame idx pb = (firstFramePtr (superCells pb idx), isValid (firstFramePtr (superCells pb idx)))"

section \<open>Linking and unlinking\<close>

definition setAsFirstFrame :: "addr \<Rightarrow> DataSpace \<Rightarrow> 'p ParticlesBox \<Rightarrow> 'p ParticlesBox option" where
  "setAsFirstFrame frame idx pb =
     do {
       pb \<leftarrow> modifyFrame frame (\<lambda>f. f\<lparr>previousFrame := 0, nextFrame := firstFramePtr (superCells pb idx)\<rparr>) pb;
       let oldFirstFrame = firstFramePtr (superCells pb idx);
       let pb = modifyCell idx (\<lambda>c. c\<lparr>firstFramePtr := frame\<rparr>) pb;
       pb \<leftarrow> modifyFrame frame (\<lambda>f. f\<lparr>nextFrame := oldFirstFrame\<rparr>) pb;
       if isValid oldFirstFrame
       then modifyFrame oldFirstFrame (\<lambda>f. f\<lparr>previousFrame := frame\<rparr>) pb
       else Some (modifyCell idx (\<lambda>c. c\<lparr>lastFramePtr := frame\<rparr>) pb)
     }"

definition setAsLastFrame :: "addr \<Rightarrow> DataSpace \<Rightarrow> 'p ParticlesBox \<Rightarrow> 'p ParticlesBox option" where
  "setAsLastFrame frame idx pb =
     do {
       pb \<leftarrow> modifyFrame frame (\<lambda>f. f\<lparr>nextFrame := 0, previousFrame := lastFramePtr (superCells pb idx)\<rparr>) pb;
       let oldLastFrame = lastFramePtr (superCells pb idx);
       let pb = modifyCell idx (\<lambda>c. c\<lparr>lastFramePtr := frame\<rparr>) pb;
       pb \<leftarrow> modifyFrame frame (\<lambda>f. f\<lparr>previousFrame := oldLastFrame\<rparr>) pb;
       if isValid oldLastFrame
       then modifyFrame oldLastFrame (\<lambda>f. f\<lparr>nextFrame := frame\<rparr>) pb
       else Some (modifyCell idx (\<lambda>c. c\<lparr>firstFramePtr := frame\<rparr>) pb)
     }"

definition removeLastFrame :: "DataSpace \<Rightarrow> 'p ParticlesBox \<Rightarrow> ('p ParticlesBox \<times> bool) option" where
  "removeLastFrame idx pb =
     (let last = lastFramePtr (superCells pb idx)
      in if isValid last
         then do {
           (prev, prevValid) \<leftarrow> getPreviousFrame last pb;
           if prevValid
           then do {
             pb \<leftarrow> modifyFrame prev (\<lambda>f. f\<lparr>nextFrame := 0\<rparr>) pb;
             let pb = modifyCell idx (\<lambda>c. c\<lparr>lastFramePtr := prev\<rparr>) pb;
             Some (removeFrame last pb, True)
           }
           else
             let pb = modifyCell idx (\<lambda>c. c\<lparr>firstFramePtr := 0, lastFramePtr := 0\<rparr>) pb
             in Some (removeFrame last pb, False)
         }
         else Some (pb, False))"

section \<open>Linked lists\<close>

definition headOr :: "addr \<Rightarrow> addr list \<Rightarrow> addr" where
  "headOr n xs = (case xs of [] \<Rightarrow> n | x # _ \<Rightarrow> x)"

definition lastOr :: "addr \<Rightarrow> addr list \<Rightarrow> addr" where
  "lastOr p xs = (if xs = [] then p else last xs)"

text \<open>\<open>linked h p xs n\<close>: the frames \<open>xs\<close> form a doubly linked segment between \<open>p\<close> and \<open>n\<close>.\<close>

fun linked :: "(addr \<rightharpoonup> 'p Frame) \<Rightarrow> addr \<Rightarrow> addr list \<Rightarrow> addr \<Rightarrow> bool" where
  "linked h p [] n = True"
| "linked h p (x # xs) n =
     (x \<noteq> 0 \<and> (case h x of None \<Rightarrow> False | Some f \<Rightarrow> previousFrame f = p \<and> nextFrame f = headOr n xs)
      \<and> linked h x xs n)"

definition cell_list :: "(addr \<rightharpoonup> 'p Frame) \<Rightarrow> SuperCell \<Rightarrow> addr list \<Rightarrow> bool" where
  "cell_list h c xs \<longleftrightarrow>
     linked h 0 xs 0 \<and> distinct xs \<and> firstFramePtr c = headOr 0 xs \<and> lastFramePtr c = lastOr 0 xs"

text \<open>The box represents the sequences \<open>L idx\<close> of frames, disjoint for different supercells.\<close>

definition box_rep :: "'p ParticlesBox \<Rightarrow> (DataSpace \<Rightarrow> addr list) \<Rightarrow> bool" where
  "box_rep pb L \<longleftrightarrow>
     (\<forall>idx. cell_list (frames pb) (superCells pb idx) (L idx)) \<and>
     (\<forall>i j. i \<noteq> j \<longrightarrow> set (L i) \<inter> set (L j) = {})"

definition free_frame :: "'p ParticlesBox \<Rightarrow> (DataSpace \<Rightarrow> addr list) \<Rightarrow> addr \<Rightarrow> bool" where
  "free_frame pb L a \<longleftrightarrow> a \<noteq> 0 \<and> a \<in> dom (frames pb) \<and> (\<forall>idx. a \<notin> set (L idx))"

lemma headOr_simps [simp]: "headOr n [] = n" "headOr n (x # xs) = x"
  by (simp_all add: headOr_def)

lemma lastOr_simps [simp]: "lastOr p [] = p" "lastOr p (x # xs) = lastOr x xs"
    "lastOr p (xs @ y # ys) = lastOr y ys"
  by (simp_all add: lastOr_def)

lemma linked_cong: "(\<And>x. x \<in> set xs \<Longrightarrow> h x = h' x) \<Longrightarrow> linked h p xs n = linked h' p xs n"
  by (induction xs arbitrary: p) simp_all

lemma linked_append: "linked h p (xs @ ys) n \<longleftrightarrow> linked h p xs (headOr n ys) \<and> linked h (lastOr p xs) ys n"
proof (induction xs arbitrary: p)
  case (Cons x xs)
  have "headOr n (xs @ ys) = headOr (headOr n ys) xs" by (cases xs) simp_all
  with Cons show ?case by (auto split: option.splits)
qed simp

lemma linked_in_heap: "linked h p xs n \<Longrightarrow> x \<in> set xs \<Longrightarrow> x \<noteq> 0 \<and> x \<in> dom h"
  by (induction xs arbitrary: p) (auto split: option.splits)

lemma linked_fun_upd_other [simp]: "x \<notin> set xs \<Longrightarrow> linked (h(x := v)) p xs n = linked h p xs n"
  by (rule linked_cong) auto

text \<open>Changing the outer links of a segment.\<close>

lemma linked_new_prev:
  assumes "linked h p (x # xs) n" "h x = Some f" "x \<notin> set xs"
  shows "linked (h(x \<mapsto> f\<lparr>previousFrame := q\<rparr>)) q (x # xs) n"
  using assms by simp

lemma linked_new_next:
  assumes "linked h p (xs @ [x]) n" "h x = Some f" "x \<notin> set xs"
  shows "linked (h(x \<mapsto> f\<lparr>nextFrame := m\<rparr>)) p (xs @ [x]) m"
  using assms by (simp add: linked_append)

section \<open>Effect of the operations\<close>

lemma cell_list_other [simp]: "x \<notin> set xs \<Longrightarrow> cell_list (h(x := v)) c xs = cell_list h c xs"
  by (simp add: cell_list_def)

lemma box_rep_update:
  assumes rep: "box_rep pb L"
    and own: "cell_list (frames pb') (superCells pb' idx) xs"
    and cells: "\<And>j. j \<noteq> idx \<Longrightarrow> superCells pb' j = superCells pb j"
    and heap: "\<And>x. x \<notin> A \<Longrightarrow> frames pb' x = frames pb x"
    and A: "\<And>j. j \<noteq> idx \<Longrightarrow> A \<inter> set (L j) = {}" "\<And>j. j \<noteq> idx \<Longrightarrow> set xs \<inter> set (L j) = {}"
  shows "box_rep pb' (L(idx := xs))"
proof -
  have "cell_list (frames pb') (superCells pb' j) (L j)" if j: "j \<noteq> idx" for j
  proof -
    have "linked (frames pb') 0 (L j) 0 = linked (frames pb) 0 (L j) 0"
      by (rule linked_cong) (use heap A(1) [OF j] in blast)
    with rep j cells show ?thesis by (simp add: box_rep_def cell_list_def)
  qed
  with own A(2) rep show ?thesis by (auto simp: box_rep_def)
qed

lemma cell_push_first:
  assumes c: "cell_list h c xs" and a: "a \<noteq> 0" "a \<notin> set xs" and f: "previousFrame f = 0" "nextFrame f = headOr 0 xs"
    and h': "h' = (case xs of [] \<Rightarrow> h(a \<mapsto> f) | y # _ \<Rightarrow> h(a \<mapsto> f, y \<mapsto> (the (h y))\<lparr>previousFrame := a\<rparr>))"
    and c': "firstFramePtr c' = a" "lastFramePtr c' = lastOr a xs"
  shows "cell_list h' c' (a # xs)"
proof (cases xs)
  case Nil
  with assms show ?thesis by (simp add: cell_list_def)
next
  case (Cons y ys)
  then have l: "linked h 0 (y # ys) 0" and d: "y \<notin> set ys" "a \<noteq> y" "a \<notin> set ys" "distinct ys"
    using c a by (auto simp: cell_list_def)
  then obtain fy where fy: "h y = Some fy" by (auto split: option.splits)
  have "linked (h(y \<mapsto> fy\<lparr>previousFrame := a\<rparr>)) a (y # ys) 0" by (rule linked_new_prev [OF l fy d(1)])
  then have "linked (h(a \<mapsto> f, y \<mapsto> fy\<lparr>previousFrame := a\<rparr>)) a (y # ys) 0"
    using d by (subst fun_upd_twist) auto
  with a d f c' show ?thesis by (simp add: cell_list_def Cons h' fy)
qed

lemma cell_push_last:
  assumes c: "cell_list h c xs" and a: "a \<noteq> 0" "a \<notin> set xs" and f: "previousFrame f = lastOr 0 xs" "nextFrame f = 0"
    and h': "h' = (if xs = [] then h(a \<mapsto> f) else h(a \<mapsto> f, last xs \<mapsto> (the (h (last xs)))\<lparr>nextFrame := a\<rparr>))"
    and c': "firstFramePtr c' = headOr a xs" "lastFramePtr c' = a"
  shows "cell_list h' c' (xs @ [a])"
proof (cases xs rule: rev_cases)
  case Nil
  with assms show ?thesis by (simp add: cell_list_def)
next
  case (snoc ys y)
  then have l: "linked h 0 (ys @ [y]) 0" and d: "y \<notin> set ys" "a \<noteq> y" "a \<notin> set ys" "distinct ys"
    using c a by (auto simp: cell_list_def)
  obtain fy where fy: "h y = Some fy" using linked_in_heap [OF l, of y] by auto
  have "linked (h(y \<mapsto> fy\<lparr>nextFrame := a\<rparr>)) 0 (ys @ [y]) a" by (rule linked_new_next [OF l fy d(1)])
  then have "linked (h(a \<mapsto> f, y \<mapsto> fy\<lparr>nextFrame := a\<rparr>)) 0 (ys @ [y]) a"
    using d by (subst fun_upd_twist) auto
  moreover have "headOr 0 (ys @ [y, a]) = headOr a (ys @ [y])" by (cases ys) simp_all
  ultimately show ?thesis using a d f c'
    by (auto simp: cell_list_def snoc h' fy linked_append)
qed

lemma cell_pop_last:
  assumes c: "cell_list h c (ys @ [a])"
    and h': "h' = (if ys = [] then h else h(last ys \<mapsto> (the (h (last ys)))\<lparr>nextFrame := 0\<rparr>))(a := None)"
    and c': "firstFramePtr c' = headOr 0 ys" "lastFramePtr c' = lastOr 0 ys"
  shows "cell_list h' c' ys"
proof (cases ys rule: rev_cases)
  case Nil
  with assms show ?thesis by (simp add: cell_list_def)
next
  case (snoc zs y)
  then have l: "linked h 0 (zs @ [y]) a" and d: "y \<notin> set zs" "a \<noteq> y" "a \<notin> set zs" "distinct zs"
    using c by (auto simp: cell_list_def linked_append split: option.splits)
  obtain fy where fy: "h y = Some fy" using linked_in_heap [OF l, of y] by auto
  have "linked (h(y \<mapsto> fy\<lparr>nextFrame := 0\<rparr>)) 0 (zs @ [y]) 0" by (rule linked_new_next [OF l fy d(1)])
  with d c' show ?thesis by (simp add: cell_list_def snoc h' fy)
qed

lemmas list_ops = modifyFrame_def modifyCell_def isValid_def Let_def

lemma box_rep_cell: "box_rep pb L \<Longrightarrow> cell_list (frames pb) (superCells pb idx) (L idx)"
  by (simp add: box_rep_def)

lemma setAsFirstFrame_rep:
  assumes rep: "box_rep pb L" and a: "free_frame pb L a"
  shows "\<exists>pb'. setAsFirstFrame a idx pb = Some pb' \<and> box_rep pb' (L(idx := a # L idx)) \<and> dom (frames pb') = dom (frames pb)"
proof -
  let ?h = "frames pb" and ?c = "superCells pb idx" and ?xs = "L idx"
  have c: "cell_list ?h ?c ?xs" using rep by (rule box_rep_cell)
  obtain f where f: "?h a = Some f" using a by (auto simp: free_frame_def)
  have a': "a \<noteq> 0" "\<And>j. a \<notin> set (L j)" using a by (simp_all add: free_frame_def)
  define f' where "f' = f\<lparr>previousFrame := 0, nextFrame := headOr 0 ?xs\<rparr>"
  define h' where "h' = (case ?xs of [] \<Rightarrow> ?h(a \<mapsto> f') | y # _ \<Rightarrow> ?h(a \<mapsto> f', y \<mapsto> (the (?h y))\<lparr>previousFrame := a\<rparr>))"
  define pb' where "pb' = pb\<lparr>frames := h', superCells := (superCells pb)(idx := ?c\<lparr>firstFramePtr := a, lastFramePtr := lastOr a ?xs\<rparr>)\<rparr>"
  have y: "y \<noteq> 0 \<and> y \<noteq> a \<and> y \<in> dom ?h" if "y \<in> set ?xs" for y
    using that linked_in_heap [of ?h 0 ?xs 0 y] c a' by (auto simp: cell_list_def)
  have "setAsFirstFrame a idx pb = Some pb'"
  proof (cases ?xs)
    case Nil
    with c f show ?thesis
      by (simp add: setAsFirstFrame_def list_ops cell_list_def pb'_def h'_def f'_def)
  next
    case (Cons y ys)
    then obtain fy where "?h y = Some fy" "y \<noteq> 0" "y \<noteq> a" using y [of y] by auto
    then show ?thesis using c f Cons
      by (cases ?c) (simp add: setAsFirstFrame_def list_ops cell_list_def pb'_def h'_def f'_def)
  qed
  moreover have "box_rep pb' (L(idx := a # ?xs))"
  proof (rule box_rep_update [OF rep, where A = "insert a (set ?xs)"])
    show "cell_list (frames pb') (superCells pb' idx) (a # ?xs)"
      by (rule cell_push_first [OF c, where f = f']) (use a' in \<open>simp_all add: pb'_def h'_def f'_def\<close>)
    show "frames pb' x = frames pb x" if "x \<notin> insert a (set ?xs)" for x
      using that by (auto simp: pb'_def h'_def split: list.splits)
  qed (use a' rep in \<open>auto simp: pb'_def box_rep_def\<close>)
  moreover have "dom (frames pb') = dom ?h"
  proof (cases ?xs)
    case (Cons y ys)
    then have "y \<in> dom ?h" using y by simp
    with f Cons show ?thesis by (auto simp: pb'_def h'_def)
  qed (use f in \<open>auto simp: pb'_def h'_def\<close>)
  ultimately show ?thesis by blast
qed

lemma setAsLastFrame_rep:
  assumes rep: "box_rep pb L" and a: "free_frame pb L a"
  shows "\<exists>pb'. setAsLastFrame a idx pb = Some pb' \<and> box_rep pb' (L(idx := L idx @ [a])) \<and> dom (frames pb') = dom (frames pb)"
proof -
  let ?h = "frames pb" and ?c = "superCells pb idx" and ?xs = "L idx"
  have c: "cell_list ?h ?c ?xs" using rep by (rule box_rep_cell)
  obtain f where f: "?h a = Some f" using a by (auto simp: free_frame_def)
  have a': "a \<noteq> 0" "\<And>j. a \<notin> set (L j)" using a by (simp_all add: free_frame_def)
  define f' where "f' = f\<lparr>nextFrame := 0, previousFrame := lastOr 0 ?xs\<rparr>"
  define h' where "h' = (if ?xs = [] then ?h(a \<mapsto> f') else ?h(a \<mapsto> f', last ?xs \<mapsto> (the (?h (last ?xs)))\<lparr>nextFrame := a\<rparr>))"
  define pb' where "pb' = pb\<lparr>frames := h', superCells := (superCells pb)(idx := ?c\<lparr>lastFramePtr := a, firstFramePtr := headOr a ?xs\<rparr>)\<rparr>"
  have y: "y \<noteq> 0 \<and> y \<noteq> a \<and> y \<in> dom ?h" if "y \<in> set ?xs" for y
    using that linked_in_heap [of ?h 0 ?xs 0 y] c a' by (auto simp: cell_list_def)
  have "setAsLastFrame a idx pb = Some pb'"
  proof (cases "?xs = []")
    case True
    with c f show ?thesis
      by (simp add: setAsLastFrame_def list_ops cell_list_def pb'_def h'_def f'_def)
  next
    case False
    then obtain fy where "?h (last ?xs) = Some fy" "last ?xs \<noteq> 0" "last ?xs \<noteq> a" using y [of "last ?xs"] by auto
    moreover have "headOr 0 ?xs = headOr a ?xs" using False by (cases ?xs) simp_all
    ultimately show ?thesis using c f False
      by (cases ?c) (simp add: setAsLastFrame_def list_ops cell_list_def pb'_def h'_def f'_def lastOr_def)
  qed
  moreover have "box_rep pb' (L(idx := ?xs @ [a]))"
  proof (rule box_rep_update [OF rep, where A = "insert a (set ?xs)"])
    show "cell_list (frames pb') (superCells pb' idx) (?xs @ [a])"
      by (rule cell_push_last [OF c, where f = f']) (use a' in \<open>simp_all add: pb'_def h'_def f'_def\<close>)
    show "frames pb' x = frames pb x" if "x \<notin> insert a (set ?xs)" for x
      using that by (auto simp: pb'_def h'_def)
  qed (use a' rep in \<open>auto simp: pb'_def box_rep_def\<close>)
  moreover have "dom (frames pb') = dom ?h"
    using f y [of "last ?xs"] by (auto simp: pb'_def h'_def)
  ultimately show ?thesis by blast
qed

lemma removeLastFrame_rep:
  assumes rep: "box_rep pb L"
  shows "\<exists>pb'. removeLastFrame idx pb = Some (pb', 1 < length (L idx)) \<and> box_rep pb' (L(idx := butlast (L idx)))
    \<and> dom (frames pb') = dom (frames pb) - set (drop (length (L idx) - 1) (L idx))"
proof -
  let ?h = "frames pb" and ?c = "superCells pb idx"
  have c: "cell_list ?h ?c (L idx)" using rep by (rule box_rep_cell)
  show ?thesis
  proof (cases "L idx" rule: rev_cases)
    case Nil
    have "L(idx := []) = L" using Nil by auto
    with c Nil rep show ?thesis by (simp add: removeLastFrame_def list_ops cell_list_def)
  next
    case (snoc ys a)
    have l: "linked ?h 0 (ys @ [a]) 0" and d: "a \<notin> set ys" and lf: "lastFramePtr ?c = a"
      using c snoc by (simp_all add: cell_list_def)
    obtain f where f: "?h a = Some f" "previousFrame f = lastOr 0 ys" "a \<noteq> 0"
      using l by (auto simp: linked_append split: option.splits)
    define h' where "h' = (if ys = [] then ?h else ?h(last ys \<mapsto> (the (?h (last ys)))\<lparr>nextFrame := 0\<rparr>))(a := None)"
    define pb' where "pb' = pb\<lparr>frames := h', superCells := (superCells pb)(idx := ?c\<lparr>lastFramePtr := lastOr 0 ys, firstFramePtr := headOr 0 ys\<rparr>)\<rparr>"
    have y: "y \<noteq> 0 \<and> y \<noteq> a \<and> y \<in> dom ?h" if "y \<in> set ys" for y
      using that linked_in_heap [OF l, of y] d by auto
    have "removeLastFrame idx pb = Some (pb', 1 < length (L idx))"
    proof (cases "ys = []")
      case True
      with f lf snoc show ?thesis
        by (cases pb, cases ?c) (simp add: removeLastFrame_def getPreviousFrame_def removeFrame_def list_ops pb'_def h'_def)
    next
      case False
      then obtain fy where "?h (last ys) = Some fy" "last ys \<noteq> 0" "last ys \<noteq> a" using y [of "last ys"] by auto
      moreover have "headOr 0 (ys @ [a]) = headOr 0 ys" using False by (cases ys) simp_all
      ultimately show ?thesis using c f lf snoc False
        by (cases ?c) (simp add: cell_list_def removeLastFrame_def getPreviousFrame_def removeFrame_def list_ops pb'_def h'_def lastOr_def)
    qed
    moreover have dj: "set (ys @ [a]) \<inter> set (L j) = {}" if "j \<noteq> idx" for j
      using rep that snoc by (metis box_rep_def)
    have "box_rep pb' (L(idx := ys))"
    proof (rule box_rep_update [OF rep, where A = "set (ys @ [a])"])
      show "cell_list (frames pb') (superCells pb' idx) ys"
        by (rule cell_pop_last [OF c [unfolded snoc]]) (simp_all add: pb'_def h'_def)
      show "frames pb' x = frames pb x" if "x \<notin> set (ys @ [a])" for x
        using that by (auto simp: pb'_def h'_def)
    qed (use dj in \<open>auto simp: pb'_def\<close>)
    moreover have "dom (frames pb') = dom ?h - {a}"
      using f y [of "last ys"] by (auto simp: pb'_def h'_def split: if_splits)
    ultimately show ?thesis by (simp add: snoc)
  qed
qed

section \<open>The contract of the frame lists\<close>

locale frame_deque =
  fixes rep :: "'s \<Rightarrow> ('i \<Rightarrow> 'a list) \<Rightarrow> bool"
    and live :: "'s \<Rightarrow> 'a set"
    and usable :: "'s \<Rightarrow> ('i \<Rightarrow> 'a list) \<Rightarrow> 'a \<Rightarrow> bool"
    and push_first push_last :: "'a \<Rightarrow> 'i \<Rightarrow> 's \<Rightarrow> 's option"
    and pop_last :: "'i \<Rightarrow> 's \<Rightarrow> ('s \<times> bool) option"
  assumes push_first: "rep s L \<Longrightarrow> usable s L a \<Longrightarrow>
      \<exists>s'. push_first a i s = Some s' \<and> rep s' (L(i := a # L i)) \<and> live s' = live s"
    and push_last: "rep s L \<Longrightarrow> usable s L a \<Longrightarrow>
      \<exists>s'. push_last a i s = Some s' \<and> rep s' (L(i := L i @ [a])) \<and> live s' = live s"
    and pop_last: "rep s L \<Longrightarrow>
      \<exists>s'. pop_last i s = Some (s', 1 < length (L i)) \<and> rep s' (L(i := butlast (L i)))
        \<and> live s' = live s - set (drop (length (L i) - 1) (L i))"
begin

lemma pop_snoc:
  assumes "rep s L" "L i = xs @ [a]"
  shows "\<exists>s'. pop_last i s = Some (s', xs \<noteq> []) \<and> rep s' (L(i := xs)) \<and> live s' = live s - {a}"
  using pop_last [OF assms(1), of i] assms(2) by auto

lemma pop_push_last:
  assumes "rep s L" "usable s L a"
  shows "\<exists>s' s''. push_last a i s = Some s' \<and> pop_last i s' = Some (s'', L i \<noteq> []) \<and> rep s'' L \<and> live s'' = live s - {a}"
proof -
  obtain s' where s': "push_last a i s = Some s'" "rep s' (L(i := L i @ [a]))" "live s' = live s"
    using push_last [OF assms] by blast
  from pop_snoc [OF s'(2), of i "L i" a] obtain s'' where
    "pop_last i s' = Some (s'', L i \<noteq> [])" "rep s'' ((L(i := L i @ [a]))(i := L i))" "live s'' = live s' - {a}" by auto
  with s' show ?thesis by (metis fun_upd_triv fun_upd_upd)
qed

end

interpretation box: frame_deque box_rep "\<lambda>pb. dom (frames pb)" free_frame setAsFirstFrame setAsLastFrame removeLastFrame
  by unfold_locales (blast intro: setAsFirstFrame_rep setAsLastFrame_rep removeLastFrame_rep)+

section \<open>Allocation of frames\<close>

text \<open>What the framework relies on: \<open>malloc\<close> returns NULL or an address that is not in use.\<close>

definition fresh_malloc :: "((addr \<rightharpoonup> 'p Frame) \<Rightarrow> addr) \<Rightarrow> bool" where
  "fresh_malloc malloc \<longleftrightarrow> (\<forall>h. malloc h = 0 \<or> h (malloc h) = None)"

definition empty_or_free :: "'p ParticlesBox \<Rightarrow> (DataSpace \<Rightarrow> addr list) \<Rightarrow> addr \<Rightarrow> bool" where
  "empty_or_free pb L a \<longleftrightarrow>
     a = 0 \<or> free_frame pb L a \<and> (\<forall>f. frames pb a = Some f \<longrightarrow> list_all (\<lambda>(m, p). m = 0) (slots f))"

lemma box_rep_allocate:
  fixes f :: "'p Frame"
  assumes "box_rep pb L" "frames pb a = None" "a \<noteq> 0"
  defines "pb1 \<equiv> pb\<lparr>frames := (frames pb)(a \<mapsto> disableAll f)\<rparr>"
  shows "box_rep pb1 L \<and> empty_or_free pb1 L a"
proof -
  have out: "a \<notin> set (L j)" for j
    using assms(1,2) linked_in_heap by (fastforce simp: box_rep_def cell_list_def)
  then show ?thesis
    using assms(1,3) by (auto simp: pb1_def box_rep_def empty_or_free_def free_frame_def disableAll_def list_all_iff)
qed

lemma emptyFrameTries_rep:
  assumes fresh: "fresh_malloc malloc"
  shows "box_rep pb L \<Longrightarrow> empty_or_free pb L tmp \<Longrightarrow> emptyFrameTries malloc garbage n tmp pb = (t, pb') \<Longrightarrow>
    box_rep pb' L \<and> empty_or_free pb' L t \<and> superCells pb' = superCells pb"
proof (induction n arbitrary: tmp pb)
  case (Suc n)
  let ?a = "malloc (frames pb)"
  show ?case
  proof (cases "?a = 0")
    case True
    have "empty_or_free pb L 0" by (simp add: empty_or_free_def)
    from Suc.IH [OF Suc.prems(1) this] Suc.prems(3) True show ?thesis by (simp add: Let_def)
  next
    case False
    then have "frames pb ?a = None" using fresh [unfolded fresh_malloc_def, rule_format, of "frames pb"] by simp
    from box_rep_allocate [OF Suc.prems(1) this False, of "garbage ?a"] Suc.IH Suc.prems(3) False show ?thesis
      by (fastforce simp: Let_def)
  qed
qed simp

lemma emptyFrameTries_count:
  assumes fresh: "fresh_malloc malloc" and success: "\<forall>h. finite (dom h) \<longrightarrow> malloc h \<noteq> 0"
  shows "finite (dom (frames pb)) \<Longrightarrow> emptyFrameTries malloc garbage n tmp pb = (t, pb') \<Longrightarrow>
    finite (dom (frames pb')) \<and> card (dom (frames pb')) = card (dom (frames pb)) + n \<and> (tmp \<noteq> 0 \<or> 0 < n \<longrightarrow> t \<noteq> 0)"
proof (induction n arbitrary: tmp pb)
  case (Suc n)
  let ?a = "malloc (frames pb)"
  have a: "?a \<noteq> 0" "?a \<notin> dom (frames pb)"
    using fresh [unfolded fresh_malloc_def, rule_format, of "frames pb"] success Suc.prems(1) by auto
  let ?pb = "pb\<lparr>frames := (frames pb)(?a \<mapsto> disableAll (garbage ?a))\<rparr>"
  have "finite (dom (frames ?pb))" "card (dom (frames ?pb)) = Suc (card (dom (frames pb)))"
    using Suc.prems(1) a(2) by simp_all
  with Suc.IH [of ?pb ?a] Suc.prems(2) a(1) show ?case by (simp add: Let_def del: fun_upd_apply)
qed simp

section \<open>Deleting all particles of a supercell\<close>

text \<open>
  \<open>getPreviousFrameAndRemoveLastFrame\<close> and \<open>KernelDeleteParticles\<close> (particles/ParticlesBase.kernel) for the
  block of one supercell: all threads clear their particle, then the control thread removes the last frame. The
  loop is bounded by fuel; running out of it is \<open>None\<close>.
\<close>

definition getPreviousFrameAndRemoveLastFrame ::
  "addr \<Rightarrow> DataSpace \<Rightarrow> 'p ParticlesBox \<Rightarrow> ('p ParticlesBox \<times> addr \<times> bool) option" where
  "getPreviousFrameAndRemoveLastFrame frame idx pb =
     do {
       (frame, isFrameValid) \<leftarrow> getPreviousFrame frame pb;
       (pb, hasMoreFrames) \<leftarrow> removeLastFrame idx pb;
       Some (pb, frame, isFrameValid \<and> hasMoreFrames)
     }"

fun deleteLoop :: "nat \<Rightarrow> DataSpace \<Rightarrow> addr \<Rightarrow> bool \<Rightarrow> 'p ParticlesBox \<Rightarrow> 'p ParticlesBox option" where
  "deleteLoop fuel idx frame False pb = Some pb"
| "deleteLoop 0 idx frame True pb = None"
| "deleteLoop (Suc fuel) idx frame True pb =
     do {
       pb \<leftarrow> modifyFrame frame disableAll pb;
       (pb, frame, valid) \<leftarrow> getPreviousFrameAndRemoveLastFrame frame idx pb;
       deleteLoop fuel idx frame valid pb
     }"

definition kernelDeleteParticles :: "nat \<Rightarrow> DataSpace \<Rightarrow> 'p ParticlesBox \<Rightarrow> 'p ParticlesBox option" where
  "kernelDeleteParticles fuel idx pb =
     do {
       let (frame, valid) = getLastFrame idx pb;
       pb \<leftarrow> deleteLoop fuel idx frame valid pb;
       Some (modifyCell idx (setSizeLastFrame 0) pb)
     }"

lemma linked_same_links:
  assumes "linked h p xs n" "h x = Some f" "previousFrame g = previousFrame f" "nextFrame g = nextFrame f"
  shows "linked (h(x \<mapsto> g)) p xs n"
  using assms by (induction xs arbitrary: p) (auto split: option.splits)

lemma modifyFrame_links:
  assumes rep: "box_rep pb L" and x: "x \<in> set (L idx)"
    and g: "\<And>f. previousFrame (g f) = previousFrame f \<and> nextFrame (g f) = nextFrame f"
  shows "\<exists>pb'. modifyFrame x g pb = Some pb' \<and> box_rep pb' L \<and> dom (frames pb') = dom (frames pb)"
proof -
  have "linked (frames pb) 0 (L idx) 0" using rep by (simp add: box_rep_def cell_list_def)
  then obtain f where f: "frames pb x = Some f" using linked_in_heap x by fastforce
  have "box_rep (pb\<lparr>frames := (frames pb)(x \<mapsto> g f)\<rparr>) L"
    using rep g linked_same_links [where h = "frames pb" and x = x and f = f and g = "g f"] f
    by (simp add: box_rep_def cell_list_def)
  with f show ?thesis by (auto simp: modifyFrame_def)
qed

lemma previous_of_last:
  assumes "box_rep pb L" "L idx = xs @ [a]"
  shows "getPreviousFrame a pb = Some (lastOr 0 xs, xs \<noteq> [])"
proof -
  have l: "linked (frames pb) 0 (xs @ [a]) 0" using assms by (metis box_rep_def cell_list_def)
  then obtain f where "frames pb a = Some f" "previousFrame f = lastOr 0 xs"
    by (auto simp: linked_append split: option.splits)
  moreover have "xs \<noteq> [] \<Longrightarrow> last xs \<noteq> 0" using linked_in_heap [OF l, of "last xs"] by auto
  ultimately show ?thesis by (auto simp: getPreviousFrame_def isValid_def lastOr_def)
qed

lemma deleteLoop_empties:
  assumes "box_rep pb L" "length (L idx) \<le> fuel" "L idx \<noteq> []"
  shows "\<exists>pb'. deleteLoop fuel idx (last (L idx)) True pb = Some pb' \<and> box_rep pb' (L(idx := []))
    \<and> dom (frames pb') = dom (frames pb) - set (L idx)"
  using assms
proof (induction fuel arbitrary: pb L)
  case (Suc fuel)
  obtain xs a where xs: "L idx = xs @ [a]" using Suc.prems(3) by (cases "L idx" rule: rev_cases) auto
  obtain pb1 where pb1: "modifyFrame a disableAll pb = Some pb1" "box_rep pb1 L" "dom (frames pb1) = dom (frames pb)"
    using modifyFrame_links [OF Suc.prems(1), of a idx disableAll] xs by (auto simp: disableAll_def)
  obtain pb2 where pb2: "removeLastFrame idx pb1 = Some (pb2, xs \<noteq> [])" "box_rep pb2 (L(idx := xs))"
    "dom (frames pb2) = dom (frames pb1) - {a}"
    using box.pop_snoc [OF pb1(2) xs] by blast
  have step: "deleteLoop (Suc fuel) idx (last (L idx)) True pb = deleteLoop fuel idx (lastOr 0 xs) (xs \<noteq> []) pb2"
    using pb1(1) pb2(1) previous_of_last [OF pb1(2) xs] by (simp add: xs getPreviousFrameAndRemoveLastFrame_def)
  show ?case
  proof (cases "xs = []")
    case True
    then show ?thesis unfolding step using pb2 pb1(3) xs by (intro exI [where x = pb2]) (simp del: fun_upd_apply)
  next
    case False
    let ?L = "L(idx := xs)"
    have L: "?L idx = xs" "?L(idx := []) = L(idx := [])" by simp_all
    have "length (?L idx) \<le> fuel" "?L idx \<noteq> []" using False Suc.prems(2) xs by simp_all
    from Suc.IH [OF pb2(2) this, unfolded L] obtain pb' where
      "deleteLoop fuel idx (last xs) True pb2 = Some pb'" "box_rep pb' (L(idx := []))"
      "dom (frames pb') = dom (frames pb2) - set xs" by blast
    moreover have "dom (frames pb2) - set xs = dom (frames pb) - set (L idx)" using pb2(3) pb1(3) xs by auto
    ultimately show ?thesis unfolding step using False by (simp add: lastOr_def del: fun_upd_apply)
  qed
qed simp

section \<open>Properties\<close>

text \<open>
  C19. The frame lists behave as sequences. For any box whose supercells hold disjoint linked
  lists and any frame that is in none of them, \<open>setAsFirstFrame\<close> and \<open>setAsLastFrame\<close> add it at the
  front or the end of the list of one supercell and \<open>removeLastFrame\<close> drops the last element and frees
  it; all other lists stay as they are and no pointer dangles.
\<close>

theorem frameList_refines_sequence:
  assumes "box_rep pb L" "free_frame pb L a"
  shows "(\<exists>pb'. setAsFirstFrame a idx pb = Some pb' \<and> box_rep pb' (L(idx := a # L idx)))
    \<and> (\<exists>pb'. setAsLastFrame a idx pb = Some pb' \<and> box_rep pb' (L(idx := L idx @ [a])))
    \<and> (\<exists>pb'. removeLastFrame idx pb = Some (pb', 1 < length (L idx)) \<and> box_rep pb' (L(idx := butlast (L idx))))
    \<and> (\<exists>pb' pb''. setAsLastFrame a idx pb = Some pb' \<and> removeLastFrame idx pb' = Some (pb'', L idx \<noteq> [])
         \<and> box_rep pb'' L \<and> dom (frames pb'') = dom (frames pb) - {a})"
proof (intro conjI)
  show "\<exists>pb'. setAsFirstFrame a idx pb = Some pb' \<and> box_rep pb' (L(idx := a # L idx))"
    using box.push_first [OF assms, of idx] by blast
  show "\<exists>pb'. setAsLastFrame a idx pb = Some pb' \<and> box_rep pb' (L(idx := L idx @ [a]))"
    using box.push_last [OF assms, of idx] by blast
  show "\<exists>pb'. removeLastFrame idx pb = Some (pb', 1 < length (L idx)) \<and> box_rep pb' (L(idx := butlast (L idx)))"
    using box.pop_last [OF assms(1), of idx] by blast
qed (rule box.pop_push_last [OF assms])

definition sampleBox :: "nat ParticlesBox" where
  "sampleBox = \<lparr>frames = [1 \<mapsto> \<lparr>previousFrame = 0, nextFrame = 2, slots = [(1, 10), (1, 11)]\<rparr>,
                         2 \<mapsto> \<lparr>previousFrame = 1, nextFrame = 0, slots = [(1, 12), (0, 0)]\<rparr>,
                         3 \<mapsto> \<lparr>previousFrame = 0, nextFrame = 0, slots = [(0, 0), (0, 0)]\<rparr>],
     superCells = (\<lambda>_. SuperCell_init)([4, 5] := \<lparr>firstFramePtr = 1, lastFramePtr = 2, mustShiftVal = False, sizeLastFrame = 1\<rparr>)\<rparr>"

definition sampleLists :: "DataSpace \<Rightarrow> addr list" where
  "sampleLists = (\<lambda>_. [])([4, 5] := [1, 2])"

lemma sampleBox_rep: "box_rep sampleBox sampleLists" "free_frame sampleBox sampleLists 3" "dom (frames sampleBox) = {1, 2, 3}"
  by (auto simp: box_rep_def sampleBox_def sampleLists_def cell_list_def SuperCell_init_def free_frame_def)

theorem frameList_refines_sequence_witness:
  "\<exists>pb'. setAsFirstFrame 3 [4, 5] sampleBox = Some pb' \<and> box_rep pb' (sampleLists([4, 5] := [3, 1, 2]))"
  using frameList_refines_sequence [OF sampleBox_rep(1,2), of "[4, 5]"]
  by (auto simp: sampleLists_def simp del: fun_upd_apply) (auto simp: fun_upd_def)

text \<open>
  C27. Deleting the particles of a supercell ends, empties its list, frees exactly its frames and
  leaves the lists of all other supercells untouched; as many loop iterations as frames suffice.
\<close>

theorem deleteParticles_frees_all:
  assumes "box_rep pb L" "length (L idx) \<le> fuel"
  shows "\<exists>pb'. kernelDeleteParticles fuel idx pb = Some pb' \<and> box_rep pb' (L(idx := []))
    \<and> dom (frames pb') = dom (frames pb) - set (L idx) \<and> sizeLastFrame (superCells pb' idx) = 0"
proof -
  have c: "lastFramePtr (superCells pb idx) = lastOr 0 (L idx)" "linked (frames pb) 0 (L idx) 0"
    using assms(1) by (simp_all add: box_rep_def cell_list_def)
  have valid: "isValid (lastOr 0 (L idx)) \<longleftrightarrow> L idx \<noteq> []"
    using linked_in_heap [OF c(2), of "last (L idx)"] by (auto simp: isValid_def lastOr_def)
  have "\<exists>pb'. deleteLoop fuel idx (lastOr 0 (L idx)) (L idx \<noteq> []) pb = Some pb' \<and> box_rep pb' (L(idx := []))
      \<and> dom (frames pb') = dom (frames pb) - set (L idx)"
  proof (cases "L idx = []")
    case True
    have "L(idx := []) = L" using True by auto
    with True assms(1) show ?thesis by simp
  next
    case False
    with deleteLoop_empties [OF assms] show ?thesis by (simp add: lastOr_def)
  qed
  then obtain pb' where "deleteLoop fuel idx (lastOr 0 (L idx)) (L idx \<noteq> []) pb = Some pb'" "box_rep pb' (L(idx := []))"
      "dom (frames pb') = dom (frames pb) - set (L idx)" by blast
  then show ?thesis
    by (auto simp: kernelDeleteParticles_def getLastFrame_def c valid modifyCell_def setSizeLastFrame_def
        box_rep_def cell_list_def)
qed

theorem deleteParticles_frees_all_witness:
  "\<exists>pb'. kernelDeleteParticles 2 [4, 5] sampleBox = Some pb' \<and> dom (frames pb') = {3}"
proof -
  have "length (sampleLists [4, 5]) \<le> 2" "{1, 2, 3} - set (sampleLists [4, 5]) = {3}" by (auto simp: sampleLists_def)
  with deleteParticles_frees_all [OF sampleBox_rep(1), of "[4, 5]" 2] sampleBox_rep(3) show ?thesis by auto
qed

text \<open>
  C35. An empty frame comes at the price of thirteen. With a working allocator \<open>getEmptyFrame\<close> returns a
  frame that is in no list and has all particles disabled, but it allocates thirteen frames: the
  \<open>break\<close> after the first success is commented out and twelve frames become unreachable.
\<close>

theorem getEmptyFrame_leaks:
  assumes "fresh_malloc malloc" "\<forall>h. finite (dom h) \<longrightarrow> malloc h \<noteq> 0" "box_rep pb L" "finite (dom (frames pb))"
  shows "\<exists>a pb'. getEmptyFrame malloc garbage pb = (a, pb') \<and> box_rep pb' L \<and> free_frame pb' L a
    \<and> (\<forall>f. frames pb' a = Some f \<longrightarrow> list_all (\<lambda>(m, p). m = 0) (slots f))
    \<and> card (dom (frames pb')) = card (dom (frames pb)) + 13"
proof -
  obtain a pb' where g: "emptyFrameTries malloc garbage 13 0 pb = (a, pb')" by fastforce
  have "empty_or_free pb L 0" by (simp add: empty_or_free_def)
  from emptyFrameTries_rep [OF assms(1,3) this g] emptyFrameTries_count [OF assms(1,2,4) g] g show ?thesis
    by (auto simp: getEmptyFrame_def empty_or_free_def)
qed

definition nextFree :: "(addr \<rightharpoonup> nat Frame) \<Rightarrow> addr" where
  "nextFree h = (if finite (dom h) then Suc (Max (insert 0 (dom h))) else 0)"

lemma nextFree_fresh: "fresh_malloc nextFree" "\<forall>h. finite (dom h) \<longrightarrow> nextFree h \<noteq> 0"
proof -
  have "h (nextFree h) = None" if "finite (dom h)" for h
  proof (rule ccontr)
    assume "h (nextFree h) \<noteq> None"
    then have "nextFree h \<in> dom h" by auto
    then have "nextFree h \<le> Max (insert 0 (dom h))" using that by (intro Max_ge) auto
    then show False using that by (simp add: nextFree_def)
  qed
  then show "fresh_malloc nextFree" by (auto simp: fresh_malloc_def nextFree_def)
  show "\<forall>h. finite (dom h) \<longrightarrow> nextFree h \<noteq> 0" by (simp add: nextFree_def)
qed

theorem getEmptyFrame_leaks_witness:
  "card (dom (frames (snd (getEmptyFrame nextFree (\<lambda>a. \<lparr>previousFrame = 7, nextFrame = 7, slots = [(5, a)]\<rparr>) sampleBox)))) = 16"
  using getEmptyFrame_leaks [OF nextFree_fresh sampleBox_rep(1),
      of "\<lambda>a. \<lparr>previousFrame = 7, nextFrame = 7, slots = [(5, a)]\<rparr>"] sampleBox_rep(3)
  by auto

end
