(* ===== verification/FrameContents.thy ===== *)
theory FrameContents
  imports FrameLists "HOL-Library.Multiset"
begin

text \<open>
  What the particle kernels share: the threads of a block that draw numbers from an atomic counter,
  the particles that a frame holds, and the effect of the operations of \<open>ParticlesBox\<close> on the contents of
  the frames.

  A block runs \<open>TileSize\<close> threads between barriers. Between two barriers its threads touch different
  slots, so the model runs them one after the other; only the order in which they reach an atomic
  counter matters, and every kernel takes it as an argument, a permutation of the threads per atomic
  operation.
\<close>

section \<open>Atomic counters\<close>

text \<open>\<open>idx = atomicAdd(&counter, 1)\<close> by every thread that satisfies \<open>P\<close>, in the order of arrival.\<close>

fun atomicInc :: "(nat \<Rightarrow> bool) \<Rightarrow> nat list \<Rightarrow> nat \<times> (nat \<rightharpoonup> nat) \<Rightarrow> nat \<times> (nat \<rightharpoonup> nat)" where
  "atomicInc P [] s = s"
| "atomicInc P (t # ts) (c, r) = atomicInc P ts (if P t then (c + 1, r(t \<mapsto> c)) else (c, r))"

text \<open>\<open>idx = atomicAdd(&counter, 1); indices[idx] = threadIdx\<close>.\<close>

fun atomicCollect :: "(nat \<Rightarrow> bool) \<Rightarrow> nat list \<Rightarrow> nat \<times> (nat \<rightharpoonup> nat) \<Rightarrow> nat \<times> (nat \<rightharpoonup> nat)" where
  "atomicCollect P [] s = s"
| "atomicCollect P (t # ts) (c, a) = atomicCollect P ts (if P t then (c + 1, a(c \<mapsto> t)) else (c, a))"

definition thread_order :: "nat \<Rightarrow> nat list \<Rightarrow> bool" where
  "thread_order TileSize ts \<longleftrightarrow> distinct ts \<and> set ts = {..<TileSize}"

lemma thread_order_upt [simp]: "thread_order n [0..<n]"
  by (auto simp: thread_order_def)

lemma fst_atomicInc [simp]: "fst (atomicInc P ts (c, r)) = c + length (filter P ts)"
  by (induction ts arbitrary: c r) simp_all

lemma fst_atomicCollect [simp]: "fst (atomicCollect P ts (c, a)) = c + length (filter P ts)"
  by (induction ts arbitrary: c a) simp_all

lemma atomicInc_other: "t \<notin> set (filter P ts) \<Longrightarrow> snd (atomicInc P ts (c, r)) t = r t"
  by (induction ts arbitrary: c r) auto

lemma atomicInc_nth:
  "distinct ts \<Longrightarrow> i < length (filter P ts) \<Longrightarrow> snd (atomicInc P ts (c, r)) (filter P ts ! i) = Some (c + i)"
proof (induction ts arbitrary: c r i)
  case (Cons t ts)
  show ?case
  proof (cases "P t \<and> i = 0")
    case True
    with Cons.prems show ?thesis by (simp add: atomicInc_other)
  next
    case False
    show ?thesis
    proof (cases "P t")
      case True
      then obtain j where j: "i = Suc j" using False by (cases i) auto
      with Cons.IH [of j "Suc c" "r(t \<mapsto> c)"] Cons.prems True show ?thesis by (simp del: fun_upd_apply)
    next
      case False
      with Cons show ?thesis by simp
    qed
  qed
qed simp

lemma atomicCollect_below: "i < c \<Longrightarrow> snd (atomicCollect P ts (c, a)) i = a i"
  by (induction ts arbitrary: c a) auto

lemma atomicCollect_nth:
  "i < length (filter P ts) \<Longrightarrow> snd (atomicCollect P ts (c, a)) (c + i) = Some (filter P ts ! i)"
proof (induction ts arbitrary: c a i)
  case (Cons t ts)
  show ?case
  proof (cases "P t \<and> i = 0")
    case True
    then show ?thesis by (simp add: atomicCollect_below)
  next
    case False
    show ?thesis
    proof (cases "P t")
      case True
      then obtain j where j: "i = Suc j" using False by (cases i) auto
      with Cons.IH [of j "Suc c" "a(c \<mapsto> t)"] Cons.prems True show ?thesis by (simp del: fun_upd_apply)
    next
      case False
      with Cons show ?thesis by simp
    qed
  qed
qed simp

text \<open>The threads that passed the counter, numbered in the order of their arrival.\<close>

lemma atomicInc_Some:
  assumes "distinct ts"
  shows "snd (atomicInc P ts (0, Map.empty)) t = Some i \<longleftrightarrow> i < length (filter P ts) \<and> filter P ts ! i = t"
proof
  assume r: "snd (atomicInc P ts (0, Map.empty)) t = Some i"
  then have "t \<in> set (filter P ts)" using atomicInc_other [of t P ts 0 Map.empty] by auto
  then obtain j where j: "j < length (filter P ts)" "filter P ts ! j = t" unfolding in_set_conv_nth by blast
  with atomicInc_nth [OF assms, of j P 0 Map.empty] r show "i < length (filter P ts) \<and> filter P ts ! i = t" by simp
next
  assume "i < length (filter P ts) \<and> filter P ts ! i = t"
  with atomicInc_nth [OF assms, of i P 0 Map.empty] show "snd (atomicInc P ts (0, Map.empty)) t = Some i" by auto
qed

lemma length_filter_order:
  assumes "thread_order n ts"
  shows "length (filter P ts) = card {t. t < n \<and> P t}"
proof -
  have "card (set (filter P ts)) = length (filter P ts)" using assms by (intro distinct_card) (simp add: thread_order_def)
  moreover have "set (filter P ts) = {t. t < n \<and> P t}" using assms by (auto simp: thread_order_def)
  ultimately show ?thesis by simp
qed

text \<open>Threads that drew the numbers \<open>i\<close> and the entries of a table under these numbers.\<close>

definition partners :: "(nat \<rightharpoonup> nat) \<Rightarrow> nat list \<Rightarrow> nat list \<Rightarrow> (nat \<times> nat) list" where
  "partners r Y ts = map (\<lambda>t. (t, Y ! the (r t))) (filter (\<lambda>t. \<exists>i. r t = Some i \<and> i < length Y) ts)"

lemma partners_Cons:
  "partners r Y (t # ts) = (case r t of None \<Rightarrow> partners r Y ts
     | Some i \<Rightarrow> if i < length Y then (t, Y ! i) # partners r Y ts else partners r Y ts)"
  by (auto simp: partners_def split: option.splits)

lemma partners_pairs:
  assumes r: "\<forall>t i. r t = Some i \<longleftrightarrow> i < length X \<and> X ! i = t" and ts: "set X \<subseteq> set ts"
  shows "set (partners r Y ts) = {(X ! i, Y ! i) |i. i < length X \<and> i < length Y}"
proof (intro equalityI subsetI)
  fix m assume "m \<in> set (partners r Y ts)"
  then obtain t i where "m = (t, Y ! the (r t))" "r t = Some i" "i < length Y" by (auto simp: partners_def)
  with r show "m \<in> {(X ! i, Y ! i) |i. i < length X \<and> i < length Y}" by auto
next
  fix m assume "m \<in> {(X ! i, Y ! i) |i. i < length X \<and> i < length Y}"
  then obtain i where i: "m = (X ! i, Y ! i)" "i < length X" "i < length Y" by blast
  then have "X ! i \<in> set ts" "r (X ! i) = Some i" using r ts by auto
  then show "m \<in> set (partners r Y ts)" using i by (force simp: partners_def)
qed

lemma partners_distinct:
  assumes r: "\<forall>t i. r t = Some i \<longleftrightarrow> i < length X \<and> X ! i = t" and ts: "set X \<subseteq> set ts" and d: "distinct ts" "distinct Y"
  shows "distinct (map fst (partners r Y ts))" "distinct (map snd (partners r Y ts))"
proof -
  show f: "distinct (map fst (partners r Y ts))" using d(1) by (simp add: partners_def comp_def)
  have "inj_on snd (set (partners r Y ts))"
    unfolding partners_pairs [OF r ts] by (rule inj_onI) (use d(2) in \<open>auto simp: nth_eq_iff_index_eq\<close>)
  then show "distinct (map snd (partners r Y ts))" using f unfolding distinct_map by blast
qed

lemma partners_images:
  assumes r: "\<forall>t i. r t = Some i \<longleftrightarrow> i < length X \<and> X ! i = t" and ts: "set X \<subseteq> set ts"
  shows "fst ` set (partners r Y ts) = set (take (length Y) X)" "snd ` set (partners r Y ts) = set (take (length X) Y)"
proof -
  show "fst ` set (partners r Y ts) = set (take (length Y) X)"
    unfolding partners_pairs [OF r ts] set_conv_nth [of "take (length Y) X"] by force
  show "snd ` set (partners r Y ts) = set (take (length X) Y)"
    unfolding partners_pairs [OF r ts] set_conv_nth [of "take (length X) Y"] by force
qed

section \<open>Particles of a frame\<close>

type_synonym 'p slot = "nat \<times> 'p"

text \<open>A slot holds a particle when its \<open>multiMask\<close> is not zero.\<close>

definition slotParticle :: "'p slot \<Rightarrow> 'p multiset" where
  "slotParticle s = (if fst s \<noteq> 0 then {#snd s#} else {#})"

definition particles :: "'p slot list \<Rightarrow> 'p multiset" where
  "particles xs = sum_list (map slotParticle xs)"

definition occupied :: "'p slot list \<Rightarrow> nat" where
  "occupied xs = card {i. i < length xs \<and> fst (xs ! i) \<noteq> 0}"

text \<open>Every mask is 0 or 1: no particle waits for a shift.\<close>

definition settled :: "'p slot list \<Rightarrow> bool" where
  "settled xs \<longleftrightarrow> (\<forall>s \<in> set xs. fst s \<le> 1)"

definition full_frame :: "'p slot list \<Rightarrow> bool" where
  "full_frame xs \<longleftrightarrow> (\<forall>s \<in> set xs. fst s = 1)"

definition empty_frame :: "'p slot list \<Rightarrow> bool" where
  "empty_frame xs \<longleftrightarrow> (\<forall>s \<in> set xs. fst s = 0)"

text \<open>The particles are in the first \<open>n\<close> slots.\<close>

definition front_packed :: "nat \<Rightarrow> 'p slot list \<Rightarrow> bool" where
  "front_packed n xs \<longleftrightarrow> n \<le> length xs \<and> (\<forall>i < length xs. fst (xs ! i) = (if i < n then 1 else 0))"

lemma particles_update:
  assumes "i < length xs"
  shows "particles (xs[i := v]) + slotParticle (xs ! i) = particles xs + slotParticle v"
  using assms
proof (induction xs arbitrary: i)
  case (Cons x xs)
  then show ?case by (cases i) (auto simp: particles_def algebra_simps)
qed simp

lemma particles_insert:
  assumes "i < length xs" "fst (xs ! i) = 0"
  shows "particles (xs[i := (1, p)]) = add_mset p (particles xs)"
  using particles_update [OF assms(1), of "(1, p)"] assms(2) by (simp add: slotParticle_def)

lemma particles_remove:
  assumes "i < length xs" "fst (xs ! i) \<noteq> 0"
  shows "add_mset (snd (xs ! i)) (particles (xs[i := (0, p)])) = particles xs"
  using particles_update [OF assms(1), of "(0, p)"] assms(2) by (simp add: slotParticle_def)

lemma particles_empty: "empty_frame xs \<Longrightarrow> particles xs = {#}"
  by (induction xs) (auto simp: particles_def empty_frame_def slotParticle_def)

lemma size_particles: "size (particles xs) = occupied xs"
proof -
  have "size (particles xs) = length (filter (\<lambda>s. fst s \<noteq> 0) xs)"
    by (induction xs) (auto simp: particles_def slotParticle_def)
  also have "\<dots> = occupied xs"
    unfolding occupied_def by (rule length_filter_conv_card)
  finally show ?thesis .
qed

lemma settledD: "settled xs \<Longrightarrow> i < length xs \<Longrightarrow> fst (xs ! i) \<noteq> 0 \<longleftrightarrow> fst (xs ! i) = 1"
  by (metis settled_def nth_mem le_less One_nat_def less_Suc0 zero_neq_one)

lemma settled_nth: "settled xs \<longleftrightarrow> (\<forall>i < length xs. fst (xs ! i) \<le> 1)"
  by (auto simp: settled_def all_set_conv_all_nth)

lemma full_frame_nth: "full_frame xs \<longleftrightarrow> (\<forall>i < length xs. fst (xs ! i) = 1)"
  by (auto simp: full_frame_def all_set_conv_all_nth)

lemma empty_frame_nth: "empty_frame xs \<longleftrightarrow> (\<forall>i < length xs. fst (xs ! i) = 0)"
  by (auto simp: empty_frame_def all_set_conv_all_nth)

lemma front_packed_settled: "front_packed n xs \<Longrightarrow> settled xs"
  by (auto simp: front_packed_def settled_nth)

section \<open>Moving particles between slots\<close>

text \<open>
  \<open>parDest[multiMask] = 1; assign(deselect<multiMask>(parDest), parSrc); parSrc[multiMask] = 0\<close>, between
  two frames and within one frame.
\<close>

definition moveParticle :: "nat \<Rightarrow> nat \<Rightarrow> 'p slot list \<times> 'p slot list \<Rightarrow> 'p slot list \<times> 'p slot list" where
  "moveParticle dst src = (\<lambda>(A, B). (A[dst := (1, snd (B ! src))], B[src := (0, snd (B ! src))]))"

definition moveWithin :: "nat \<Rightarrow> nat \<Rightarrow> 'p slot list \<Rightarrow> 'p slot list" where
  "moveWithin dst src A = (A[dst := (1, snd (A ! src))])[src := (0, snd (A ! src))]"

fun moveParticles :: "(nat \<times> nat) list \<Rightarrow> 'p slot list \<times> 'p slot list \<Rightarrow> 'p slot list \<times> 'p slot list" where
  "moveParticles [] AB = AB"
| "moveParticles ((d, s) # ms) AB = moveParticles ms (moveParticle d s AB)"

fun movesWithin :: "(nat \<times> nat) list \<Rightarrow> 'p slot list \<Rightarrow> 'p slot list" where
  "movesWithin [] A = A"
| "movesWithin ((d, s) # ms) A = movesWithin ms (moveWithin d s A)"

definition move_list :: "(nat \<times> nat) list \<Rightarrow> 'p slot list \<Rightarrow> 'p slot list \<Rightarrow> bool" where
  "move_list ms A B \<longleftrightarrow> distinct (map fst ms) \<and> distinct (map snd ms) \<and>
     (\<forall>(d, s) \<in> set ms. d < length A \<and> fst (A ! d) = 0 \<and> s < length B \<and> fst (B ! s) \<noteq> 0)"

lemma moveParticles_correct:
  assumes "move_list ms A B" "moveParticles ms (A, B) = (A', B')"
  shows "particles A' + particles B' = particles A + particles B
    \<and> length A' = length A \<and> length B' = length B
    \<and> (\<forall>i < length A. fst (A' ! i) = (if i \<in> fst ` set ms then 1 else fst (A ! i)))
    \<and> (\<forall>i < length B. fst (B' ! i) = (if i \<in> snd ` set ms then 0 else fst (B ! i)))"
  using assms
proof (induction ms arbitrary: A B)
  case (Cons m ms)
  obtain d s where m: "m = (d, s)" by fastforce
  have ds: "d < length A" "fst (A ! d) = 0" "s < length B" "fst (B ! s) \<noteq> 0" "d \<notin> fst ` set ms" "s \<notin> snd ` set ms"
    using Cons.prems(1) by (auto simp: move_list_def m)
  let ?A = "A[d := (1, snd (B ! s))]" and ?B = "B[s := (0, snd (B ! s))]"
  have "fst (?A ! e) = 0 \<and> fst (?B ! r) \<noteq> 0 \<and> e < length ?A \<and> r < length ?B" if "(e, r) \<in> set ms" for e r
  proof -
    have "e \<noteq> d" "r \<noteq> s" using that ds by (force simp: image_iff)+
    then show ?thesis using that Cons.prems(1) by (auto simp: move_list_def m)
  qed
  then have ok: "move_list ms ?A ?B" using Cons.prems(1) by (auto simp: move_list_def m)
  have run: "moveParticles ms (?A, ?B) = (A', B')" using Cons.prems(2) by (simp add: m moveParticle_def)
  have "particles ?A + particles ?B = particles A + particles B"
    using particles_insert [OF ds(1,2), of "snd (B ! s)"] particles_remove [OF ds(3,4), of "snd (B ! s)"] by auto
  with Cons.IH [OF ok run] ds show ?case by (auto simp: m nth_list_update)
qed simp

lemma movesWithin_correct:
  assumes "move_list ms A A"
  shows "particles (movesWithin ms A) = particles A \<and> length (movesWithin ms A) = length A
    \<and> (\<forall>i < length A. fst (movesWithin ms A ! i) =
         (if i \<in> fst ` set ms then 1 else if i \<in> snd ` set ms then 0 else fst (A ! i)))"
  using assms
proof (induction ms arbitrary: A)
  case (Cons m ms)
  obtain d s where m: "m = (d, s)" by fastforce
  have ds: "d < length A" "fst (A ! d) = 0" "s < length A" "fst (A ! s) \<noteq> 0" "d \<notin> fst ` set ms" "s \<notin> snd ` set ms"
    using Cons.prems by (auto simp: move_list_def m)
  have ne: "d \<noteq> s" using ds by auto
  have cross: "d \<notin> snd ` set ms" "s \<notin> fst ` set ms" using ds Cons.prems by (auto simp: move_list_def m)
  let ?A = "moveWithin d s A"
  have len: "length ?A = length A" by (simp add: moveWithin_def)
  have nth: "?A ! i = (if i = d then (1, snd (A ! s)) else if i = s then (0, snd (A ! s)) else A ! i)" if "i < length A" for i
    using that ds ne by (auto simp: moveWithin_def nth_list_update)
  have "fst (?A ! e) = 0 \<and> fst (?A ! r) \<noteq> 0 \<and> e < length ?A \<and> r < length ?A" if er: "(e, r) \<in> set ms" for e r
  proof -
    have "e \<noteq> d" "r \<noteq> s" "e \<noteq> s" "r \<noteq> d" using er ds cross by (force simp: image_iff)+
    then show ?thesis using er Cons.prems by (auto simp: move_list_def m len nth)
  qed
  then have ok: "move_list ms ?A ?A" using Cons.prems by (auto simp: move_list_def m)
  have "add_mset (snd (A ! s)) (particles ?A) = particles (A[d := (1, snd (A ! s))])"
    using particles_remove [of s "A[d := (1, snd (A ! s))]" "snd (A ! s)"] ds ne by (simp add: moveWithin_def)
  then have "particles ?A = particles A" using particles_insert [OF ds(1,2), of "snd (A ! s)"] by simp
  with Cons.IH [OF ok] ds cross ne len nth show ?case by (auto simp: m)
qed simp

section \<open>Contents of the frames\<close>

definition content :: "'p ParticlesBox \<Rightarrow> addr \<Rightarrow> 'p slot list option" where
  "content pb a = map_option slots (frames pb a)"

definition setSlots :: "'p slot list \<Rightarrow> 'p Frame \<Rightarrow> 'p Frame" where
  "setSlots xs f = f\<lparr>slots := xs\<rparr>"

definition frameParticles :: "'p ParticlesBox \<Rightarrow> addr \<Rightarrow> 'p multiset" where
  "frameParticles pb a = (case content pb a of None \<Rightarrow> {#} | Some xs \<Rightarrow> particles xs)"

definition listParticles :: "'p ParticlesBox \<Rightarrow> addr list \<Rightarrow> 'p multiset" where
  "listParticles pb xs = sum_list (map (frameParticles pb) xs)"

lemma content_modifyFrame_links:
  assumes "modifyFrame a g pb = Some pb'" "\<And>f. slots (g f) = slots f"
  shows "content pb' = content pb"
  using assms by (auto simp: modifyFrame_def content_def fun_eq_iff split: option.splits)

lemma modifyFrame_cells: "modifyFrame a g pb = Some pb' \<Longrightarrow> superCells pb' = superCells pb"
  by (auto simp: modifyFrame_def split: option.splits)

lemma content_modifyCell [simp]: "content (modifyCell idx g pb) = content pb"
  by (simp add: modifyCell_def content_def fun_eq_iff)

lemma content_removeFrame [simp]: "content (removeFrame a pb) = (content pb)(a := None)"
  by (auto simp: removeFrame_def content_def fun_eq_iff)

lemma superCells_removeFrame [simp]: "superCells (removeFrame a pb) = superCells pb"
  by (simp add: removeFrame_def)

lemma superCells_modifyCell [simp]: "superCells (modifyCell idx g pb) = (superCells pb)(idx := g (superCells pb idx))"
  by (simp add: modifyCell_def)

lemma content_setAsFirstFrame: "setAsFirstFrame a idx pb = Some pb' \<Longrightarrow> content pb' = content pb"
  by (auto simp: setAsFirstFrame_def Let_def bind_eq_Some_conv split: if_splits dest!: content_modifyFrame_links)

lemma content_setAsLastFrame: "setAsLastFrame a idx pb = Some pb' \<Longrightarrow> content pb' = content pb"
  by (auto simp: setAsLastFrame_def Let_def bind_eq_Some_conv split: if_splits dest!: content_modifyFrame_links)


text \<open>What the operations leave alone besides the links.\<close>

definition sameCells :: "'p ParticlesBox \<Rightarrow> 'p ParticlesBox \<Rightarrow> bool" where
  "sameCells pb pb' \<longleftrightarrow> (\<forall>j. sizeLastFrame (superCells pb' j) = sizeLastFrame (superCells pb j)
     \<and> mustShiftVal (superCells pb' j) = mustShiftVal (superCells pb j))"

lemma sameCells_refl [simp]: "sameCells pb pb"
  by (simp add: sameCells_def)

lemma sameCells_trans [trans]: "sameCells a b \<Longrightarrow> sameCells b c \<Longrightarrow> sameCells a c"
  by (simp add: sameCells_def)

lemma sameCells_eq: "superCells pb' = superCells pb \<Longrightarrow> sameCells pb pb'"
  by (simp add: sameCells_def)

lemma sameCells_setAsFirstFrame: "setAsFirstFrame a idx pb = Some pb' \<Longrightarrow> sameCells pb pb'"
  by (auto simp: setAsFirstFrame_def Let_def bind_eq_Some_conv sameCells_def split: if_splits dest!: modifyFrame_cells)

lemma sameCells_setAsLastFrame: "setAsLastFrame a idx pb = Some pb' \<Longrightarrow> sameCells pb pb'"
  by (auto simp: setAsLastFrame_def Let_def bind_eq_Some_conv sameCells_def split: if_splits dest!: modifyFrame_cells)

lemma sameCells_removeLastFrame: "removeLastFrame idx pb = Some (pb', b) \<Longrightarrow> sameCells pb pb'"
  by (auto simp: removeLastFrame_def Let_def bind_eq_Some_conv sameCells_def split: if_splits dest!: modifyFrame_cells)

lemma box_rep_linked: "box_rep pb L \<Longrightarrow> linked (frames pb) 0 (L idx) 0"
  by (simp add: box_rep_def cell_list_def)

lemma box_rep_distinct: "box_rep pb L \<Longrightarrow> distinct (L idx)"
  by (simp add: box_rep_def cell_list_def)

lemma box_rep_disjoint: "box_rep pb L \<Longrightarrow> i \<noteq> j \<Longrightarrow> a \<in> set (L i) \<Longrightarrow> a \<notin> set (L j)"
  by (auto simp: box_rep_def)

lemma content_in_list: "box_rep pb L \<Longrightarrow> a \<in> set (L idx) \<Longrightarrow> \<exists>xs. content pb a = Some xs"
  using linked_in_heap [OF box_rep_linked] by (fastforce simp: content_def)

lemma list_not_null: "box_rep pb L \<Longrightarrow> a \<in> set (L idx) \<Longrightarrow> a \<noteq> 0"
  using linked_in_heap [OF box_rep_linked] by fastforce

lemma getFirstFrame_rep: "box_rep pb L \<Longrightarrow> getFirstFrame idx pb = (headOr 0 (L idx), L idx \<noteq> [])"
  using list_not_null [of pb L "hd (L idx)" idx]
  by (cases "L idx") (auto simp: getFirstFrame_def box_rep_def cell_list_def isValid_def)

lemma getLastFrame_rep: "box_rep pb L \<Longrightarrow> getLastFrame idx pb = (lastOr 0 (L idx), L idx \<noteq> [])"
  using list_not_null [of pb L "last (L idx)" idx]
  by (auto simp: getLastFrame_def box_rep_def cell_list_def isValid_def lastOr_def)

lemma getNextFrame_rep:
  assumes "box_rep pb L" "L idx = xs @ a # ys"
  shows "getNextFrame a pb = Some (headOr 0 ys, ys \<noteq> [])"
proof -
  have "linked (frames pb) 0 (xs @ a # ys) 0" using box_rep_linked [OF assms(1), of idx] assms(2) by simp
  then obtain f where "frames pb a = Some f" "nextFrame f = headOr 0 ys"
    by (auto simp: linked_append split: option.splits)
  moreover have "ys \<noteq> [] \<Longrightarrow> headOr 0 ys \<noteq> 0"
    using list_not_null [OF assms(1), of "hd ys" idx] assms(2) by (cases ys) auto
  ultimately show ?thesis by (auto simp: getNextFrame_def isValid_def)
qed

lemma modifyFrame_setSlots:
  assumes "box_rep pb L" "content pb a = Some xs"
  obtains pb' where "modifyFrame a (setSlots ys) pb = Some pb'" "box_rep pb' L" "content pb' = (content pb)(a \<mapsto> ys)"
    "superCells pb' = superCells pb"
proof -
  obtain f where f: "frames pb a = Some f" using assms(2) by (auto simp: content_def)
  let ?pb = "pb\<lparr>frames := (frames pb)(a \<mapsto> setSlots ys f)\<rparr>"
  have "linked (frames ?pb) 0 (L j) 0" for j
    using linked_same_links [OF box_rep_linked [OF assms(1)] f, of "setSlots ys f"] by (simp add: setSlots_def)
  then have "box_rep ?pb L" using assms(1) by (simp add: box_rep_def cell_list_def)
  moreover have "content ?pb = (content pb)(a \<mapsto> ys)" by (auto simp: content_def setSlots_def fun_eq_iff)
  ultimately show ?thesis using f that [of ?pb] by (simp add: modifyFrame_def)
qed

lemma removeLastFrame_content:
  assumes "box_rep pb L" "L idx = xs @ [a]"
  obtains pb' where "removeLastFrame idx pb = Some (pb', xs \<noteq> [])" "box_rep pb' (L(idx := xs))"
    "content pb' = (content pb)(a := None)" "sameCells pb pb'"
proof -
  obtain pb' where pb': "removeLastFrame idx pb = Some (pb', xs \<noteq> [])" "box_rep pb' (L(idx := xs))"
    using box.pop_snoc [OF assms] by blast
  have "lastFramePtr (superCells pb idx) = a" "isValid a"
    using assms list_not_null [OF assms(1), of a idx]
    by (auto simp: box_rep_def cell_list_def isValid_def lastOr_def)
  then have "content pb' = (content pb)(a := None)"
    using pb'(1) previous_of_last [OF assms]
    by (auto simp: removeLastFrame_def Let_def bind_eq_Some_conv split: if_splits dest!: content_modifyFrame_links)
  with pb' that sameCells_removeLastFrame [OF pb'(1)] show ?thesis by blast
qed

lemma listParticles_append [simp]: "listParticles pb (xs @ ys) = listParticles pb xs + listParticles pb ys"
  by (simp add: listParticles_def)

lemma listParticles_Cons [simp]: "listParticles pb (x # xs) = frameParticles pb x + listParticles pb xs"
  by (simp add: listParticles_def)

lemma listParticles_Nil [simp]: "listParticles pb [] = {#}"
  by (simp add: listParticles_def)

lemma listParticles_cong: "(\<And>a. a \<in> set xs \<Longrightarrow> content pb' a = content pb a) \<Longrightarrow> listParticles pb' xs = listParticles pb xs"
  by (simp add: listParticles_def frameParticles_def cong: map_cong)

lemma frameParticles_content: "content pb a = Some xs \<Longrightarrow> frameParticles pb a = particles xs"
  by (simp add: frameParticles_def)

end
