(* ===== verification/FillGaps.thy ===== *)
theory FillGaps
  imports FrameContents
begin

text \<open>
  Models \<open>KernelFillGaps\<close> and \<open>KernelFillGapsLastFrame\<close> (particles/ParticlesBase.kernel), run by one block
  for one supercell. The first moves particles from the last frames of the list into the gaps of the first
  ones and removes frames that became empty; the second packs the particles of the last frame to its front and
  stores their number. The loop is bounded by fuel, one unit per frame is enough.
\<close>

section \<open>Packing the last frame\<close>

definition INV_LOC_IDX :: nat where
  "INV_LOC_IDX = 65535"

text \<open>Every thread above the particle count that holds a particle draws a gap and moves its particle there.\<close>

fun packThreads :: "(nat \<rightharpoonup> nat) \<Rightarrow> (nat \<rightharpoonup> nat) \<Rightarrow> nat list \<Rightarrow> 'p slot list \<Rightarrow> 'p slot list option" where
  "packThreads srcGap gapIndices [] A = Some A"
| "packThreads srcGap gapIndices (t # ts) A =
     (case srcGap t of
        None \<Rightarrow> packThreads srcGap gapIndices ts A
      | Some srcGapIdx \<Rightarrow> do {
          gapIdx \<leftarrow> gapIndices srcGapIdx;
          packThreads srcGap gapIndices ts (moveWithin gapIdx t A)
        })"

definition kernelFillGapsLastFrame ::
  "nat \<Rightarrow> nat list \<Rightarrow> nat list \<Rightarrow> DataSpace \<Rightarrow> 'p ParticlesBox \<Rightarrow> 'p ParticlesBox option" where
  "kernelFillGapsLastFrame TileSize gapOrder srcOrder idx pb =
     (let (lastFrame, valid) = getLastFrame idx pb
      in if valid
         then do {
           A \<leftarrow> content pb lastFrame;
           let (counterParticles, _) = atomicInc (\<lambda>t. fst (A ! t) \<noteq> 0) [0..<TileSize] (0, Map.empty);
           let (counterGaps, gapIndices) =
             atomicCollect (\<lambda>t. t < counterParticles \<and> fst (A ! t) = 0) gapOrder (0, Map.empty);
           let (srcGap, srcGapIdx) =
             atomicInc (\<lambda>t. counterParticles \<le> t \<and> fst (A ! t) \<noteq> 0) srcOrder (0, Map.empty);
           A \<leftarrow> packThreads srcGapIdx gapIndices [0..<TileSize] A;
           pb \<leftarrow> modifyFrame lastFrame (setSlots A) pb;
           Some (modifyCell idx (setSizeLastFrame counterParticles) pb)
         }
         else Some (modifyCell idx (setSizeLastFrame 0) pb))"

section \<open>Filling the gaps of all frames\<close>

text \<open>Every thread with a gap of its own takes the particle whose number is the number of its gap.\<close>

fun fillThreads ::
  "(nat \<rightharpoonup> nat) \<Rightarrow> nat \<Rightarrow> (nat \<rightharpoonup> nat) \<Rightarrow> nat list \<Rightarrow> 'p slot list \<times> 'p slot list \<Rightarrow> ('p slot list \<times> 'p slot list) option" where
  "fillThreads localGap counterParticles particleIndices [] AB = Some AB"
| "fillThreads localGap counterParticles particleIndices (t # ts) AB =
     (let localGapIdx = (case localGap t of None \<Rightarrow> INV_LOC_IDX | Some i \<Rightarrow> i)
      in if localGapIdx < counterParticles
         then do {
           parIdx \<leftarrow> particleIndices localGapIdx;
           fillThreads localGap counterParticles particleIndices ts (moveParticle t parIdx AB)
         }
         else fillThreads localGap counterParticles particleIndices ts AB)"

text \<open>What the control thread does after the particles were moved; the result is the box, the two frames and \<open>isValid\<close>.\<close>

definition advanceFrames ::
  "nat \<Rightarrow> nat \<Rightarrow> DataSpace \<Rightarrow> addr \<Rightarrow> addr \<Rightarrow> 'p ParticlesBox \<Rightarrow> ('p ParticlesBox \<times> addr \<times> addr \<times> bool) option" where
  "advanceFrames counterGaps counterParticles idx firstFrame lastFrame pb =
     (if counterGaps < counterParticles
      then do {
        (firstFrame, isFrameValid) \<leftarrow> getNextFrame firstFrame pb;
        Some (pb, firstFrame, lastFrame, isFrameValid)
      }
      else if counterGaps > counterParticles
      then do {
        (pb, lastFrame, isFrameValid) \<leftarrow> getPreviousFrameAndRemoveLastFrame lastFrame idx pb;
        Some (pb, firstFrame, lastFrame, isFrameValid)
      }
      else do {
        (pb, lastFrame, isFrameValid) \<leftarrow> getPreviousFrameAndRemoveLastFrame lastFrame idx pb;
        if isFrameValid \<and> lastFrame \<noteq> firstFrame
        then do {
          (firstFrame, isFrameValid) \<leftarrow> getNextFrame firstFrame pb;
          Some (pb, firstFrame, lastFrame, isFrameValid)
        }
        else Some (pb, firstFrame, lastFrame, isFrameValid)
      })"

definition fillGapsStep ::
  "nat \<Rightarrow> nat list \<Rightarrow> nat list \<Rightarrow> DataSpace \<Rightarrow> addr \<Rightarrow> addr \<Rightarrow> 'p ParticlesBox \<Rightarrow> ('p ParticlesBox \<times> addr \<times> addr \<times> bool) option" where
  "fillGapsStep TileSize gapOrder parOrder idx firstFrame lastFrame pb =
     do {
       A \<leftarrow> content pb firstFrame;
       let (counterGaps, localGap) = atomicInc (\<lambda>t. fst (A ! t) = 0) gapOrder (0, Map.empty);
       if counterGaps = 0
       then do {
         (firstFrame, valid) \<leftarrow> getNextFrame firstFrame pb;
         Some (pb, firstFrame, lastFrame, valid)
       }
       else do {
         B \<leftarrow> content pb lastFrame;
         let (counterParticles, particleIndices) = atomicCollect (\<lambda>t. fst (B ! t) = 1) parOrder (0, Map.empty);
         (A, B) \<leftarrow> fillThreads localGap counterParticles particleIndices [0..<TileSize] (A, B);
         pb \<leftarrow> modifyFrame firstFrame (setSlots A) pb;
         pb \<leftarrow> modifyFrame lastFrame (setSlots B) pb;
         advanceFrames counterGaps counterParticles idx firstFrame lastFrame pb
       }
     }"

text \<open>The orders of arrival are given per loop iteration, which the remaining fuel numbers.\<close>

fun fillGapsLoop ::
  "nat \<Rightarrow> (nat \<Rightarrow> nat list) \<Rightarrow> (nat \<Rightarrow> nat list) \<Rightarrow> nat \<Rightarrow> DataSpace \<Rightarrow> addr \<Rightarrow> addr \<Rightarrow> bool \<Rightarrow> 'p ParticlesBox \<Rightarrow> 'p ParticlesBox option" where
  "fillGapsLoop TileSize gapOrder parOrder fuel idx firstFrame lastFrame valid pb =
     (if valid \<and> firstFrame \<noteq> lastFrame
      then case fuel of
          0 \<Rightarrow> None
        | Suc n \<Rightarrow> do {
            (pb, firstFrame, lastFrame, valid) \<leftarrow>
              fillGapsStep TileSize (gapOrder fuel) (parOrder fuel) idx firstFrame lastFrame pb;
            fillGapsLoop TileSize gapOrder parOrder n idx firstFrame lastFrame valid pb
          }
      else Some pb)"

definition kernelFillGaps ::
  "nat \<Rightarrow> (nat \<Rightarrow> nat list) \<Rightarrow> (nat \<Rightarrow> nat list) \<Rightarrow> nat \<Rightarrow> DataSpace \<Rightarrow> 'p ParticlesBox \<Rightarrow> 'p ParticlesBox option" where
  "kernelFillGaps TileSize gapOrder parOrder fuel idx pb =
     (let (firstFrame, tmpValid) = getFirstFrame idx pb;
          (lastFrame, valid) = getLastFrame idx pb
      in fillGapsLoop TileSize gapOrder parOrder fuel idx firstFrame lastFrame (valid \<and> tmpValid) pb)"

text \<open>\<open>ParticlesBase::fillGaps\<close> for one supercell: both kernels, one after the other.\<close>

definition fillGapsCell ::
  "nat \<Rightarrow> (nat \<Rightarrow> nat list) \<Rightarrow> (nat \<Rightarrow> nat list) \<Rightarrow> nat list \<Rightarrow> nat list \<Rightarrow> nat \<Rightarrow> DataSpace \<Rightarrow> 'p ParticlesBox \<Rightarrow> 'p ParticlesBox option" where
  "fillGapsCell TileSize gapOrder parOrder packOrder srcOrder fuel idx pb =
     do {
       pb \<leftarrow> kernelFillGaps TileSize gapOrder parOrder fuel idx pb;
       kernelFillGapsLastFrame TileSize packOrder srcOrder idx pb
     }"

section \<open>Packing is a list of moves\<close>

lemma packThreads_moves:
  assumes "\<forall>t i. srcGap t = Some i \<longrightarrow> i < length G" "\<forall>i < length G. gapIndices i = Some (G ! i)"
  shows "packThreads srcGap gapIndices ts A = Some (movesWithin (map prod.swap (partners srcGap G ts)) A)"
  using assms
proof (induction ts arbitrary: A)
  case (Cons t ts)
  then show ?case by (cases "srcGap t") (auto simp: partners_Cons)
qed (simp add: partners_def)

text \<open>There are as many gaps below the number of particles as particles above it.\<close>

lemma gaps_match_particles:
  fixes A :: "'p slot list"
  defines "n \<equiv> occupied A"
  shows "card {t. t < length A \<and> t < n \<and> fst (A ! t) = 0} = card {t. t < length A \<and> n \<le> t \<and> fst (A ! t) \<noteq> 0}"
proof -
  let ?P = "{t. t < length A \<and> fst (A ! t) \<noteq> 0}"
  have n: "n \<le> length A"
    unfolding n_def occupied_def by (rule order_trans [OF card_mono [of "{..<length A}"]]) auto
  have "card ?P = card {t \<in> ?P. t < n} + card {t \<in> ?P. n \<le> t}"
    by (subst card_Un_disjoint [symmetric]) (auto intro!: arg_cong [where f = card])
  moreover have split: "{..<n} = {t \<in> ?P. t < n} \<union> {t. t < length A \<and> t < n \<and> fst (A ! t) = 0}" using n by auto
  have "card {..<n} = card {t \<in> ?P. t < n} + card {t. t < length A \<and> t < n \<and> fst (A ! t) = 0}"
    unfolding split by (rule card_Un_disjoint) auto
  moreover have "card ?P = n" by (simp add: n_def occupied_def)
  moreover have "{t \<in> ?P. n \<le> t} = {t. t < length A \<and> n \<le> t \<and> fst (A ! t) \<noteq> 0}" by auto
  ultimately show ?thesis by simp
qed

lemma packThreads_correct:
  fixes A :: "'p slot list"
  defines "n \<equiv> occupied A"
  assumes T: "length A = T" and o1: "thread_order T gapOrder" and o2: "thread_order T srcOrder" and s: "settled A"
  defines "gapIndices \<equiv> snd (atomicCollect (\<lambda>t. t < n \<and> fst (A ! t) = 0) gapOrder (0, Map.empty))"
  defines "srcGapIdx \<equiv> snd (atomicInc (\<lambda>t. n \<le> t \<and> fst (A ! t) \<noteq> 0) srcOrder (0, Map.empty))"
  obtains A' where "packThreads srcGapIdx gapIndices [0..<T] A = Some A'" "length A' = T" "particles A' = particles A" "front_packed n A'"
proof -
  let ?G = "filter (\<lambda>t. t < n \<and> fst (A ! t) = 0) gapOrder" and ?S = "filter (\<lambda>t. n \<le> t \<and> fst (A ! t) \<noteq> 0) srcOrder"
  have len: "length ?G = length ?S"
    using gaps_match_particles [of A] length_filter_order [OF o1] length_filter_order [OF o2] by (simp add: T n_def)
  have dG: "distinct ?G" and dS: "distinct ?S" using o1 o2 by (simp_all add: thread_order_def)
  have r: "srcGapIdx t = Some i \<longleftrightarrow> i < length ?S \<and> ?S ! i = t" for t i
    unfolding srcGapIdx_def by (rule atomicInc_Some) (use o2 in \<open>simp add: thread_order_def\<close>)
  have g: "i < length ?G \<Longrightarrow> gapIndices i = Some (?G ! i)" for i
    unfolding gapIndices_def using atomicCollect_nth [of i _ gapOrder 0] by simp
  let ?ms = "map prod.swap (partners srcGapIdx ?G [0..<T])"
  have run: "packThreads srcGapIdx gapIndices [0..<T] A = Some (movesWithin ?ms A)"
    by (rule packThreads_moves) (use r g len in auto)
  have S: "set ?S = {t. t < T \<and> n \<le> t \<and> fst (A ! t) \<noteq> 0}" and G: "set ?G = {t. t < T \<and> t < n \<and> fst (A ! t) = 0}"
    using o1 o2 by (auto simp: thread_order_def)
  have r': "\<forall>t i. srcGapIdx t = Some i \<longleftrightarrow> i < length ?S \<and> ?S ! i = t" and sub: "set ?S \<subseteq> set [0..<T]"
    using r o2 by (auto simp: thread_order_def)
  note im = partners_images [OF r' sub, of ?G] and di = partners_distinct [OF r' sub distinct_upt dG]
  have fsts: "fst ` set ?ms = set ?G" and snds: "snd ` set ?ms = set ?S"
    using im len by (simp_all add: image_image)
  have dist: "distinct (map fst ?ms)" "distinct (map snd ?ms)" using di by (simp_all add: comp_def)
  have "d < T \<and> fst (A ! d) = 0 \<and> t < T \<and> fst (A ! t) \<noteq> 0" if "(d, t) \<in> set ?ms" for d t
  proof -
    have "d \<in> set ?G" unfolding fsts [symmetric] by (rule image_eqI [OF _ that]) simp
    moreover have "t \<in> set ?S" unfolding snds [symmetric] by (rule image_eqI [OF _ that]) simp
    ultimately show ?thesis unfolding S G by simp
  qed
  with dist have ok: "move_list ?ms A A" using T unfolding move_list_def by blast
  note c = movesWithin_correct [OF ok]
  have "fst (movesWithin ?ms A ! i) = (if i < n then 1 else 0)" if i: "i < T" for i
  proof -
    have "fst (movesWithin ?ms A ! i) = (if i \<in> set ?G then 1 else if i \<in> set ?S then 0 else fst (A ! i))"
      using c i T unfolding fsts snds by simp
    then show ?thesis using i settledD [OF s, of i] T unfolding S G by (auto split: if_splits)
  qed
  moreover have "n \<le> T"
    unfolding n_def occupied_def T [symmetric] by (rule order_trans [OF card_mono [of "{..<length A}"]]) auto
  ultimately have "front_packed n (movesWithin ?ms A)" using c T by (simp add: front_packed_def)
  with run c T that show ?thesis by blast
qed

section \<open>Filling is a list of moves\<close>

lemma fillThreads_moves:
  assumes "\<forall>i < length Q. particleIndices i = Some (Q ! i)" "length Q \<le> INV_LOC_IDX"
  shows "fillThreads localGap (length Q) particleIndices ts AB = Some (moveParticles (partners localGap Q ts) AB)"
  using assms
proof (induction ts arbitrary: AB)
  case (Cons t ts)
  then show ?case by (cases "localGap t") (auto simp: partners_Cons Let_def)
qed (simp add: partners_def)

lemma fillThreads_correct:
  fixes A B :: "'p slot list"
  defines "nGaps \<equiv> card {t. t < length A \<and> fst (A ! t) = 0}" and "nPars \<equiv> card {t. t < length B \<and> fst (B ! t) = 1}"
  assumes T: "length A = T" "length B = T" "T \<le> INV_LOC_IDX" and o1: "thread_order T gapOrder" and o2: "thread_order T parOrder"
    and s: "settled A" "settled B"
  defines "localGap \<equiv> snd (atomicInc (\<lambda>t. fst (A ! t) = 0) gapOrder (0, Map.empty))"
  defines "parIdx \<equiv> snd (atomicCollect (\<lambda>t. fst (B ! t) = 1) parOrder (0, Map.empty))"
  obtains A' B' where "fillThreads localGap nPars parIdx [0..<T] (A, B) = Some (A', B')" "length A' = T" "length B' = T"
    "particles A' + particles B' = particles A + particles B" "settled A'" "settled B'"
    "nGaps \<le> nPars \<Longrightarrow> full_frame A'" "nPars \<le> nGaps \<Longrightarrow> empty_frame B'"
proof -
  let ?G = "filter (\<lambda>t. fst (A ! t) = 0) gapOrder" and ?Q = "filter (\<lambda>t. fst (B ! t) = 1) parOrder"
  have len: "length ?G = nGaps" "length ?Q = nPars"
    using length_filter_order [OF o1] length_filter_order [OF o2] by (simp_all add: T nGaps_def nPars_def)
  have "nPars \<le> T" unfolding nPars_def T(2) [symmetric] by (rule order_trans [OF card_mono [of "{..<length B}"]]) auto
  then have Q: "length ?Q \<le> INV_LOC_IDX" using len T(3) by simp
  have r: "\<forall>t i. localGap t = Some i \<longleftrightarrow> i < length ?G \<and> ?G ! i = t"
    unfolding localGap_def by (intro allI, rule atomicInc_Some) (use o1 in \<open>simp add: thread_order_def\<close>)
  have "set [0..<T] = set gapOrder" using o1 unfolding thread_order_def by (simp add: atLeast0LessThan)
  then have sub: "set ?G \<subseteq> set [0..<T]" using filter_is_subset by metis
  have dQ: "distinct ?Q" using o2 by (simp add: thread_order_def)
  have g: "\<forall>i < length ?Q. parIdx i = Some (?Q ! i)"
    unfolding parIdx_def using atomicCollect_nth [of _ "\<lambda>t. fst (B ! t) = 1" parOrder 0] by simp
  let ?ms = "partners localGap ?Q [0..<T]"
  obtain A' B' where AB: "moveParticles ?ms (A, B) = (A', B')" by fastforce
  have run: "fillThreads localGap nPars parIdx [0..<T] (A, B) = Some (A', B')"
    using fillThreads_moves [OF g Q, of localGap "[0..<T]" "(A, B)"] AB len by simp
  note im = partners_images [OF r sub, of ?Q] and di = partners_distinct [OF r sub distinct_upt dQ]
  have GQ: "set ?G = {t. t < T \<and> fst (A ! t) = 0}" "set ?Q = {t. t < T \<and> fst (B ! t) = 1}"
    using o1 o2 by (auto simp: thread_order_def)
  have "d < T \<and> fst (A ! d) = 0 \<and> t < T \<and> fst (B ! t) \<noteq> 0" if m: "(d, t) \<in> set ?ms" for d t
  proof -
    have "d \<in> fst ` set ?ms" "t \<in> snd ` set ?ms" by (rule image_eqI [OF _ m], simp)+
    then have "d \<in> set ?G" "t \<in> set ?Q" unfolding im by (meson in_set_takeD)+
    then show ?thesis unfolding GQ by simp
  qed
  then have "move_list ?ms A B" unfolding move_list_def T(1,2) using di by blast
  note c = moveParticles_correct [OF this AB, unfolded im]
  have "settled A'" "settled B'" using c s by (auto simp: settled_nth)
  moreover have "full_frame A'" if "nGaps \<le> nPars"
  proof -
    have "fst (A' ! i) = 1" if i: "i < T" for i
    proof -
      have "fst (A' ! i) = (if i \<in> set ?G then 1 else fst (A ! i))" using c i T len \<open>nGaps \<le> nPars\<close> by simp
      then show ?thesis using settledD [OF s(1), of i] i T unfolding GQ by (auto split: if_splits)
    qed
    then show ?thesis using c T by (simp add: full_frame_nth)
  qed
  moreover have "empty_frame B'" if "nPars \<le> nGaps"
  proof -
    have "fst (B' ! i) = 0" if i: "i < T" for i
    proof -
      have "fst (B' ! i) = (if i \<in> set ?Q then 0 else fst (B ! i))" using c i T len \<open>nPars \<le> nGaps\<close> by simp
      then show ?thesis using settledD [OF s(2), of i] i T unfolding GQ by (auto split: if_splits)
    qed
    then show ?thesis using c T by (simp add: empty_frame_nth)
  qed
  moreover have "length A' = T" "length B' = T" "particles A' + particles B' = particles A + particles B"
    using c T by simp_all
  ultimately show ?thesis using that [OF run] by blast
qed

section \<open>The loop over the frames\<close>

definition frame_ok :: "nat \<Rightarrow> 'p ParticlesBox \<Rightarrow> addr \<Rightarrow> bool" where
  "frame_ok T pb a \<longleftrightarrow> (\<exists>s. content pb a = Some s \<and> length s = T \<and> settled s)"

definition frame_full :: "'p ParticlesBox \<Rightarrow> addr \<Rightarrow> bool" where
  "frame_full pb a \<longleftrightarrow> (\<exists>s. content pb a = Some s \<and> full_frame s)"

text \<open>
  One state of the loop: the frames of the supercell are \<open>done @ todo\<close>, those in \<open>done\<close> are full; all
  frames outside of the list are as in the box \<open>pb0\<close> the kernel started from, and so are the particles.
\<close>

definition gap_state ::
  "nat \<Rightarrow> 'p ParticlesBox \<Rightarrow> (DataSpace \<Rightarrow> addr list) \<Rightarrow> DataSpace \<Rightarrow> 'p ParticlesBox \<Rightarrow> addr list \<Rightarrow> addr list \<Rightarrow> bool" where
  "gap_state T pb0 L idx pb pre mid \<longleftrightarrow>
     box_rep pb (L(idx := pre @ mid)) \<and> mid \<noteq> [] \<and> (\<exists>rest. L idx = pre @ mid @ rest \<and> (\<forall>a \<in> set rest. content pb a = None))
     \<and> (\<forall>a \<in> set (pre @ mid). frame_ok T pb a) \<and> (\<forall>a \<in> set pre. frame_full pb a)
     \<and> listParticles pb (pre @ mid) = listParticles pb0 (L idx)
     \<and> (\<forall>a. a \<notin> set (L idx) \<longrightarrow> content pb a = content pb0 a) \<and> sameCells pb0 pb"

lemma gap_stateD:
  assumes "gap_state T pb0 L idx pb pre mid"
  shows "box_rep pb (L(idx := pre @ mid))" "mid \<noteq> []" "\<exists>rest. L idx = pre @ mid @ rest \<and> (\<forall>a \<in> set rest. content pb a = None)"
    "\<And>a. a \<in> set (pre @ mid) \<Longrightarrow> frame_ok T pb a" "\<And>a. a \<in> set pre \<Longrightarrow> frame_full pb a"
    "listParticles pb (pre @ mid) = listParticles pb0 (L idx)" "\<And>a. a \<notin> set (L idx) \<Longrightarrow> content pb a = content pb0 a"
    "sameCells pb0 pb" "distinct (pre @ mid)"
  using assms box_rep_distinct [of pb "L(idx := pre @ mid)" idx] by (auto simp: gap_state_def)

lemma no_gap_full: "settled xs \<Longrightarrow> card {t. t < length xs \<and> fst (xs ! t) = 0} = 0 \<Longrightarrow> full_frame xs"
  by (auto simp: full_frame_nth dest: settledD)

text \<open>The frame after the first becomes the first one.\<close>

lemma gap_state_next:
  assumes g: "gap_state T pb0 L idx pb pre (a # mid)" and mid: "mid \<noteq> []" and f: "frame_full pb a"
  shows "getNextFrame a pb = Some (hd mid, True)" "gap_state T pb0 L idx pb (pre @ [a]) mid"
proof -
  have "(L(idx := pre @ a # mid)) idx = pre @ a # mid" by simp
  from getNextFrame_rep [OF gap_stateD(1) [OF g] this] mid show "getNextFrame a pb = Some (hd mid, True)"
    by (cases mid) simp_all
  show "gap_state T pb0 L idx pb (pre @ [a]) mid" using g mid f by (auto simp: gap_state_def)
qed

text \<open>The last frame is empty and is removed.\<close>

lemma gap_state_drop_last:
  assumes g: "gap_state T pb0 L idx pb pre (mid @ [b])" and mid: "mid \<noteq> []" and e: "frameParticles pb b = {#}"
  obtains pb' where "getPreviousFrameAndRemoveLastFrame b idx pb = Some (pb', last mid, True)" "gap_state T pb0 L idx pb' pre mid"
    "\<And>a. a \<noteq> b \<Longrightarrow> content pb' a = content pb a"
proof -
  let ?L = "L(idx := pre @ mid @ [b])"
  have L: "?L idx = (pre @ mid) @ [b]" by simp
  obtain pb' where pb': "removeLastFrame idx pb = Some (pb', pre @ mid \<noteq> [])" "box_rep pb' (?L(idx := pre @ mid))"
    "content pb' = (content pb)(b := None)" "sameCells pb pb'"
    using removeLastFrame_content [OF gap_stateD(1) [OF g] L] by blast
  have run: "getPreviousFrameAndRemoveLastFrame b idx pb = Some (pb', last mid, True)"
    using pb'(1) previous_of_last [OF gap_stateD(1) [OF g] L] mid
    by (simp add: getPreviousFrameAndRemoveLastFrame_def lastOr_def)
  have nb: "b \<notin> set (pre @ mid)" using gap_stateD(9) [OF g] by simp
  then have c: "content pb' a = content pb a" if "a \<in> set (pre @ mid)" for a using that pb'(3) by auto
  obtain rest where rest: "L idx = pre @ (mid @ [b]) @ rest" "\<forall>a \<in> set rest. content pb a = None"
    using gap_stateD(3) [OF g] by blast
  have "gap_state T pb0 L idx pb' pre mid"
    unfolding gap_state_def
  proof (intro conjI)
    show "box_rep pb' (L(idx := pre @ mid))" using pb'(2) by simp
    show "\<exists>rest. L idx = pre @ mid @ rest \<and> (\<forall>a \<in> set rest. content pb' a = None)"
      using rest pb'(3) by (intro exI [where x = "b # rest"]) simp
    show "\<forall>a \<in> set (pre @ mid). frame_ok T pb' a" using gap_stateD(4) [OF g] c by (auto simp: frame_ok_def)
    show "\<forall>a \<in> set pre. frame_full pb' a" using gap_stateD(5) [OF g] c by (auto simp: frame_full_def)
    have "listParticles pb' (pre @ mid) = listParticles pb (pre @ mid)" by (rule listParticles_cong) (rule c)
    then show "listParticles pb' (pre @ mid) = listParticles pb0 (L idx)" using gap_stateD(6) [OF g] e by simp
    show "\<forall>a. a \<notin> set (L idx) \<longrightarrow> content pb' a = content pb0 a" using gap_stateD(7) [OF g] pb'(3) rest(1) by auto
    show "sameCells pb0 pb'" using sameCells_trans [OF gap_stateD(8) [OF g] pb'(4)] .
  qed (rule mid)
  moreover have "\<And>a. a \<noteq> b \<Longrightarrow> content pb' a = content pb a" using pb'(3) by simp
  ultimately show ?thesis using that run by blast
qed

text \<open>Moving particles from the last frame to the first one.\<close>

lemma gap_state_move:
  assumes g: "gap_state T pb0 L idx pb pre (a # mid @ [b])" and c: "content pb a = Some A" "content pb b = Some B"
    and len: "length A' = T" "length B' = T" and par: "particles A' + particles B' = particles A + particles B"
    and s: "settled A'" "settled B'"
  obtains pb1 pb2 where "modifyFrame a (setSlots A') pb = Some pb1" "modifyFrame b (setSlots B') pb1 = Some pb2"
    "gap_state T pb0 L idx pb2 pre (a # mid @ [b])" "content pb2 a = Some A'" "content pb2 b = Some B'"
proof -
  note rep = gap_stateD(1) [OF g]
  have d: "a \<noteq> b" "a \<notin> set pre" "a \<notin> set mid" "b \<notin> set pre" "b \<notin> set mid" using gap_stateD(9) [OF g] by auto
  obtain pb1 where pb1: "modifyFrame a (setSlots A') pb = Some pb1" "box_rep pb1 (L(idx := pre @ a # mid @ [b]))"
    "content pb1 = (content pb)(a \<mapsto> A')" "superCells pb1 = superCells pb"
    using modifyFrame_setSlots [OF rep c(1)] by blast
  have "content pb1 b = Some B" using pb1(3) c(2) d by simp
  then obtain pb2 where pb2: "modifyFrame b (setSlots B') pb1 = Some pb2" "box_rep pb2 (L(idx := pre @ a # mid @ [b]))"
    "content pb2 = (content pb1)(b \<mapsto> B')" "superCells pb2 = superCells pb1"
    using modifyFrame_setSlots [OF pb1(2)] by blast
  have ab: "content pb2 a = Some A'" "content pb2 b = Some B'" and o: "\<And>x. x \<noteq> a \<Longrightarrow> x \<noteq> b \<Longrightarrow> content pb2 x = content pb x"
    using pb2(3) pb1(3) d by auto
  have op: "listParticles pb2 pre = listParticles pb pre" "listParticles pb2 mid = listParticles pb mid"
    by (rule listParticles_cong, rule o, use d in auto)+
  obtain rest where rest: "L idx = pre @ (a # mid @ [b]) @ rest" "\<forall>x \<in> set rest. content pb x = None"
    using gap_stateD(3) [OF g] by blast
  have "gap_state T pb0 L idx pb2 pre (a # mid @ [b])"
    unfolding gap_state_def
  proof (intro conjI)
    show "\<exists>rest. L idx = pre @ (a # mid @ [b]) @ rest \<and> (\<forall>x \<in> set rest. content pb2 x = None)"
    proof (intro exI conjI ballI)
      fix x assume "x \<in> set rest"
      then have "content pb x = None" "x \<noteq> a" "x \<noteq> b" using rest(2) c by auto
      with o show "content pb2 x = None" by simp
    qed (rule rest(1))
    show "\<forall>x \<in> set (pre @ a # mid @ [b]). frame_ok T pb2 x"
    proof
      fix x assume x: "x \<in> set (pre @ a # mid @ [b])"
      show "frame_ok T pb2 x"
        using gap_stateD(4) [OF g x] ab len s o by (cases "x = a \<or> x = b") (auto simp: frame_ok_def)
    qed
    show "\<forall>x \<in> set pre. frame_full pb2 x"
      using gap_stateD(5) [OF g] o d unfolding frame_full_def by metis
    have "listParticles pb2 (pre @ a # mid @ [b]) = listParticles pb (pre @ a # mid @ [b])"
      using op par ab c by (simp add: frameParticles_content add_ac)
    then show "listParticles pb2 (pre @ a # mid @ [b]) = listParticles pb0 (L idx)" using gap_stateD(6) [OF g] by simp
    show "\<forall>x. x \<notin> set (L idx) \<longrightarrow> content pb2 x = content pb0 x" using gap_stateD(7) [OF g] o rest(1) by auto
    show "sameCells pb0 pb2" using gap_stateD(8) [OF g] pb2(4) pb1(4) by (simp add: sameCells_def)
  qed (simp_all add: pb2(2))
  with that pb1(1) pb2(1) ab show ?thesis by blast
qed

lemma advanceFrames_correct:
  assumes g: "gap_state T pb0 L idx pb pre (a # mid @ [b])" and c: "content pb a = Some A" "content pb b = Some B"
    and A: "nGaps \<le> nPars \<Longrightarrow> full_frame A" and B: "nPars \<le> nGaps \<Longrightarrow> empty_frame B"
  shows "\<exists>pb' pre' mid'. advanceFrames nGaps nPars idx a b pb = Some (pb', hd mid', last mid', True)
    \<and> gap_state T pb0 L idx pb' pre' mid' \<and> length mid' \<le> Suc (length mid)"
proof -
  have full: "nGaps \<le> nPars \<Longrightarrow> frame_full pb a" using A c(1) by (simp add: frame_full_def)
  have "\<exists>pb'. getPreviousFrameAndRemoveLastFrame b idx pb = Some (pb', last (a # mid), True)
      \<and> gap_state T pb0 L idx pb' pre (a # mid) \<and> content pb' a = content pb a" if n: "nPars \<le> nGaps"
  proof -
    have e: "frameParticles pb b = {#}" using B [OF n] c(2) by (simp add: frameParticles_def particles_empty)
    have g': "gap_state T pb0 L idx pb pre ((a # mid) @ [b])" and ab: "a \<noteq> b" using g gap_stateD(9) [OF g] by auto
    show ?thesis by (rule gap_state_drop_last [OF g' _ e]) (use ab in auto)
  qed
  then obtain pb' where
    pb': "nPars \<le> nGaps \<Longrightarrow> getPreviousFrameAndRemoveLastFrame b idx pb = Some (pb', last (a # mid), True)"
      "nPars \<le> nGaps \<Longrightarrow> gap_state T pb0 L idx pb' pre (a # mid)" "nPars \<le> nGaps \<Longrightarrow> content pb' a = content pb a"
    by blast
  consider "nGaps < nPars" | "nGaps > nPars" | "nGaps = nPars" "mid = []" | "nGaps = nPars" "mid \<noteq> []" by linarith
  then show ?thesis
  proof cases
    case 1
    have n: "getNextFrame a pb = Some (hd (mid @ [b]), True)" "gap_state T pb0 L idx pb (pre @ [a]) (mid @ [b])"
      using gap_state_next [OF g _ full] 1 by simp_all
    show ?thesis
      by (intro exI [where x = pb] exI [where x = "pre @ [a]"] exI [where x = "mid @ [b]"])
        (use 1 n in \<open>simp add: advanceFrames_def\<close>)
  next
    case 2
    show ?thesis
      by (intro exI [where x = pb'] exI [where x = pre] exI [where x = "a # mid"])
        (use 2 pb' in \<open>simp add: advanceFrames_def\<close>)
  next
    case 3
    show ?thesis
      by (intro exI [where x = pb'] exI [where x = pre] exI [where x = "[a]"])
        (use 3 pb' in \<open>simp add: advanceFrames_def\<close>)
  next
    case 4
    have f: "frame_full pb' a" using full pb'(3) 4 by (simp add: frame_full_def)
    have n: "getNextFrame a pb' = Some (hd mid, True)" "gap_state T pb0 L idx pb' (pre @ [a]) mid"
      using gap_state_next [OF pb'(2) 4(2) f] 4 by simp_all
    have "last mid \<noteq> a" using gap_stateD(9) [OF g] 4(2) by auto
    then show ?thesis
      by (intro exI [where x = pb'] exI [where x = "pre @ [a]"] exI [where x = mid])
        (use 4 n pb' in \<open>simp add: advanceFrames_def\<close>)
  qed
qed

lemma fillGapsStep_correct:
  assumes g: "gap_state T pb0 L idx pb pre (a # mid @ [b])" and T: "T \<le> INV_LOC_IDX"
    and o: "thread_order T gapOrder" "thread_order T parOrder"
  shows "\<exists>pb' pre' mid'. fillGapsStep T gapOrder parOrder idx a b pb = Some (pb', hd mid', last mid', True)
    \<and> gap_state T pb0 L idx pb' pre' mid' \<and> length mid' \<le> Suc (length mid)"
proof -
  obtain A where A: "content pb a = Some A" "length A = T" "settled A"
    using gap_stateD(4) [OF g, of a] by (auto simp: frame_ok_def)
  obtain B where B: "content pb b = Some B" "length B = T" "settled B"
    using gap_stateD(4) [OF g, of b] by (auto simp: frame_ok_def)
  let ?nG = "card {t. t < length A \<and> fst (A ! t) = 0}" and ?nP = "card {t. t < length B \<and> fst (B ! t) = 1}"
  let ?r = "atomicInc (\<lambda>t. fst (A ! t) = 0) gapOrder (0, Map.empty)"
  let ?q = "atomicCollect (\<lambda>t. fst (B ! t) = 1) parOrder (0, Map.empty)"
  have r: "?r = (?nG, snd ?r)" and q: "?q = (?nP, snd ?q)"
    using length_filter_order [OF o(1)] length_filter_order [OF o(2)] A(2) B(2) by (simp_all add: prod_eq_iff)
  show ?thesis
  proof (cases "?nG = 0")
    case True
    have "frame_full pb a" using no_gap_full [OF A(3) True] A(1) by (simp add: frame_full_def)
    then have n: "getNextFrame a pb = Some (hd (mid @ [b]), True)" "gap_state T pb0 L idx pb (pre @ [a]) (mid @ [b])"
      using gap_state_next [OF g] by simp_all
    have "fillGapsStep T gapOrder parOrder idx a b pb = Some (pb, hd (mid @ [b]), last (mid @ [b]), True)"
      unfolding fillGapsStep_def A(1) bind.bind_lunit Let_def by (subst r) (simp add: True n(1))
    with n(2) show ?thesis
      by (intro exI [where x = pb] exI [where x = "pre @ [a]"] exI [where x = "mid @ [b]"]) simp
  next
    case False
    obtain A' B' where f: "fillThreads (snd ?r) ?nP (snd ?q) [0..<T] (A, B) = Some (A', B')" "length A' = T" "length B' = T"
      "particles A' + particles B' = particles A + particles B" "settled A'" "settled B'"
      "?nG \<le> ?nP \<Longrightarrow> full_frame A'" "?nP \<le> ?nG \<Longrightarrow> empty_frame B'"
      by (rule fillThreads_correct [OF A(2) B(2) T o A(3) B(3)]) (use A(2) B(2) in blast)
    obtain pb1 pb2 where p: "modifyFrame a (setSlots A') pb = Some pb1" "modifyFrame b (setSlots B') pb1 = Some pb2"
      "gap_state T pb0 L idx pb2 pre (a # mid @ [b])" "content pb2 a = Some A'" "content pb2 b = Some B'"
      by (rule gap_state_move [OF g A(1) B(1) f(2-6)])
    have "fillGapsStep T gapOrder parOrder idx a b pb = advanceFrames ?nG ?nP idx a b pb2"
      unfolding fillGapsStep_def A(1) B(1) bind.bind_lunit Let_def
      by (subst r, subst q) (use False f(1) p(1,2) in auto)
    with advanceFrames_correct [OF p(3-5) f(7,8)] show ?thesis by simp
  qed
qed

lemma fillGapsLoop_correct:
  assumes T: "T \<le> INV_LOC_IDX" and o: "\<forall>k. thread_order T (gapOrder k) \<and> thread_order T (parOrder k)"
  shows "gap_state T pb0 L idx pb pre mid \<Longrightarrow> length mid \<le> Suc fuel \<Longrightarrow>
    \<exists>pb' pre' x. fillGapsLoop T gapOrder parOrder fuel idx (hd mid) (last mid) True pb = Some pb'
      \<and> gap_state T pb0 L idx pb' pre' [x]"
proof (induction fuel arbitrary: pb pre mid)
  case 0
  then obtain x where "mid = [x]" using gap_stateD(2) [OF 0(1)] by (cases mid) auto
  with 0 show ?case by auto
next
  case (Suc fuel)
  show ?case
  proof (cases "hd mid = last mid")
    case True
    have "mid = [hd mid]"
      using True gap_stateD(2,9) [OF Suc.prems(1)] by (cases mid) (auto split: if_splits)
    with Suc.prems(1) True show ?thesis by (intro exI [where x = pb] exI [where x = pre] exI [where x = "hd mid"]) simp
  next
    case False
    then obtain a ms b where mid: "mid = a # ms @ [b]"
      by (metis append_butlast_last_id gap_stateD(2) [OF Suc.prems(1)] last_ConsL list.collapse list.sel(1))
    obtain pb' pre' mid' where s: "fillGapsStep T (gapOrder (Suc fuel)) (parOrder (Suc fuel)) idx a b pb = Some (pb', hd mid', last mid', True)"
      "gap_state T pb0 L idx pb' pre' mid'" "length mid' \<le> Suc (length ms)"
      using fillGapsStep_correct [OF Suc.prems(1) [unfolded mid] T, of "gapOrder (Suc fuel)" "parOrder (Suc fuel)"] o by blast
    from s(3) Suc.prems(2) mid have "length mid' \<le> Suc fuel" by simp
    from Suc.IH [OF s(2) this] s(1) False show ?thesis by (simp add: mid)
  qed
qed


section \<open>Properties\<close>

text \<open>All frames but the last are full, the last holds its particles in the first \<open>sizeLastFrame\<close> slots.\<close>

definition packed :: "nat \<Rightarrow> 'p ParticlesBox \<Rightarrow> DataSpace \<Rightarrow> addr list \<Rightarrow> bool" where
  "packed T pb idx xs \<longleftrightarrow>
     (\<forall>a \<in> set (butlast xs). frame_ok T pb a \<and> frame_full pb a)
     \<and> (if xs = [] then sizeLastFrame (superCells pb idx) = 0
        else \<exists>s. content pb (last xs) = Some s \<and> length s = T \<and> front_packed (sizeLastFrame (superCells pb idx)) s)"

lemma box_rep_setSize: "box_rep pb L \<Longrightarrow> box_rep (modifyCell idx (setSizeLastFrame n) pb) L"
  by (auto simp: box_rep_def cell_list_def modifyCell_def setSizeLastFrame_def)

lemma kernelFillGapsLastFrame_correct:
  assumes rep: "box_rep pb L" and L: "L idx = xs @ [a]" and ok: "frame_ok T pb a"
    and o: "thread_order T gapOrder" "thread_order T srcOrder"
  obtains pb' s where "kernelFillGapsLastFrame T gapOrder srcOrder idx pb = Some pb'" "box_rep pb' L"
    "content pb' = (content pb)(a \<mapsto> s)" "length s = T" "front_packed (sizeLastFrame (superCells pb' idx)) s"
    "particles s = frameParticles pb a"
proof -
  obtain A where A: "content pb a = Some A" "length A = T" "settled A" using ok by (auto simp: frame_ok_def)
  let ?n = "occupied A"
  let ?c = "atomicInc (\<lambda>t. fst (A ! t) \<noteq> 0) [0..<T] (0, Map.empty)"
  let ?g = "atomicCollect (\<lambda>t. t < ?n \<and> fst (A ! t) = 0) gapOrder (0, Map.empty)"
  let ?r = "atomicInc (\<lambda>t. ?n \<le> t \<and> fst (A ! t) \<noteq> 0) srcOrder (0, Map.empty)"
  obtain A' where A': "packThreads (snd ?r) (snd ?g) [0..<T] A = Some A'" "length A' = T" "particles A' = particles A" "front_packed ?n A'"
    by (rule packThreads_correct [OF A(2) o A(3)])
  have cnt: "?c = (?n, snd ?c)"
    using length_filter_order [OF thread_order_upt, of "\<lambda>t. fst (A ! t) \<noteq> 0"] A(2) by (simp add: prod_eq_iff occupied_def)
  have last: "getLastFrame idx pb = (a, True)" using getLastFrame_rep [OF rep, of idx] L by simp
  obtain pb1 where pb1: "modifyFrame a (setSlots A') pb = Some pb1" "box_rep pb1 L" "content pb1 = (content pb)(a \<mapsto> A')"
    using modifyFrame_setSlots [OF rep A(1)] by blast
  have "kernelFillGapsLastFrame T gapOrder srcOrder idx pb = Some (modifyCell idx (setSizeLastFrame ?n) pb1)"
    unfolding kernelFillGapsLastFrame_def last Let_def prod.case A(1) bind.bind_lunit if_True
    by (subst cnt) (use A'(1) pb1(1) in \<open>simp add: split_beta\<close>)
  then show ?thesis
    by (rule that [of _ A']) (use pb1 A' A(1) box_rep_setSize [OF pb1(2)] in
      \<open>simp_all add: frameParticles_content setSizeLastFrame_def\<close>)
qed

lemma fillGapsCell_correct:
  assumes "box_rep pb L" "\<forall>a \<in> set (L idx). frame_ok T pb a" "length (L idx) \<le> fuel" "T \<le> INV_LOC_IDX"
    "\<forall>k. thread_order T (gapOrder k) \<and> thread_order T (parOrder k)" "thread_order T packOrder" "thread_order T srcOrder"
  shows "\<exists>pb' xs rest. fillGapsCell T gapOrder parOrder packOrder srcOrder fuel idx pb = Some pb'
    \<and> L idx = xs @ rest \<and> box_rep pb' (L(idx := xs)) \<and> packed T pb' idx xs
    \<and> listParticles pb' xs = listParticles pb (L idx)
    \<and> (\<forall>a \<in> set rest. content pb' a = None) \<and> (\<forall>a. a \<notin> set (L idx) \<longrightarrow> content pb' a = content pb a)"
proof (cases "L idx = []")
  case True
  let ?pb = "modifyCell idx (setSizeLastFrame 0) pb"
  have "L(idx := []) = L" using True by auto
  moreover have "fillGapsCell T gapOrder parOrder packOrder srcOrder fuel idx pb = Some ?pb"
    using getLastFrame_rep [OF assms(1), of idx] getFirstFrame_rep [OF assms(1), of idx] True
    by (simp add: fillGapsCell_def kernelFillGaps_def kernelFillGapsLastFrame_def)
  ultimately show ?thesis using True box_rep_setSize [OF assms(1), of idx 0]
    by (intro exI [where x = ?pb] exI [where x = "[]"]) (simp add: packed_def setSizeLastFrame_def)
next
  case False
  have g0: "gap_state T pb L idx pb [] (L idx)"
    using assms(1,2) False by (simp add: gap_state_def)
  obtain pb1 pre x where k: "fillGapsLoop T gapOrder parOrder fuel idx (hd (L idx)) (last (L idx)) True pb = Some pb1"
    "gap_state T pb L idx pb1 pre [x]"
    using fillGapsLoop_correct [OF assms(4,5) g0, of fuel] assms(3) by auto
  have first: "kernelFillGaps T gapOrder parOrder fuel idx pb = Some pb1"
    using k(1) getLastFrame_rep [OF assms(1), of idx] getFirstFrame_rep [OF assms(1), of idx] False
    by (cases "L idx") (simp_all add: kernelFillGaps_def lastOr_def split: if_splits)
  note g = gap_stateD [OF k(2)]
  obtain pb2 s where p: "kernelFillGapsLastFrame T packOrder srcOrder idx pb1 = Some pb2" "box_rep pb2 (L(idx := pre @ [x]))"
    "content pb2 = (content pb1)(x \<mapsto> s)" "length s = T" "front_packed (sizeLastFrame (superCells pb2 idx)) s"
    "particles s = frameParticles pb1 x"
    by (rule kernelFillGapsLastFrame_correct [OF g(1) fun_upd_same g(4) assms(6,7)]) (simp, rule that)
  obtain rest where rest: "L idx = (pre @ [x]) @ rest" "\<forall>a \<in> set rest. content pb1 a = None" using g(3) by auto
  have x: "x \<notin> set pre" "x \<notin> set rest" using g(9) box_rep_distinct [OF assms(1), of idx] rest(1) by auto
  have "listParticles pb2 pre = listParticles pb1 pre" by (rule listParticles_cong) (use p(3) x in auto)
  then have "listParticles pb2 (pre @ [x]) = listParticles pb (L idx)"
    using g(6) p(3,6) by (simp add: frameParticles_def [of pb2])
  moreover have "packed T pb2 idx (pre @ [x])"
    using g(4,5) p(3-5) x by (auto simp: packed_def frame_ok_def frame_full_def)
  moreover have "fillGapsCell T gapOrder parOrder packOrder srcOrder fuel idx pb = Some pb2"
    using first p(1) by (simp add: fillGapsCell_def)
  moreover have "\<forall>a \<in> set rest. content pb2 a = None" "\<forall>a. a \<notin> set (L idx) \<longrightarrow> content pb2 a = content pb a"
    using rest p(3) x g(7) by auto
  ultimately show ?thesis using rest(1) p(2) by blast
qed

text \<open>
  C8. Filling the gaps of a supercell ends and packs its particles. Whatever the order in which the
  threads of the block reach the atomic counters, the two kernels neither lose nor duplicate a particle, leave
  every frame but the last full and the particles of the last frame in its first \<open>sizeLastFrame\<close> slots, free
  exactly the frames they cut off the end of the list, and touch no frame of any other supercell.
\<close>

theorem fillGaps_packs_particles:
  assumes "box_rep pb L" "\<forall>a \<in> set (L idx). frame_ok T pb a" "length (L idx) \<le> fuel" "T \<le> INV_LOC_IDX"
    "\<forall>k. thread_order T (gapOrder k) \<and> thread_order T (parOrder k)" "thread_order T packOrder" "thread_order T srcOrder"
  shows "\<exists>pb' xs rest. fillGapsCell T gapOrder parOrder packOrder srcOrder fuel idx pb = Some pb'
    \<and> L idx = xs @ rest \<and> box_rep pb' (L(idx := xs)) \<and> packed T pb' idx xs
    \<and> listParticles pb' xs = listParticles pb (L idx)
    \<and> (\<forall>a \<in> set rest. content pb' a = None) \<and> (\<forall>a. a \<notin> set (L idx) \<longrightarrow> content pb' a = content pb a)"
  by (rule fillGapsCell_correct [OF assms])

text \<open>Three frames with four slots: gaps in the first two, the last is freed.\<close>

definition gapBox :: "nat ParticlesBox" where
  "gapBox = \<lparr>frames = [1 \<mapsto> \<lparr>previousFrame = 0, nextFrame = 2, slots = [(0, 0), (1, 11), (0, 0), (1, 13)]\<rparr>,
                      2 \<mapsto> \<lparr>previousFrame = 1, nextFrame = 3, slots = [(0, 0), (0, 0), (1, 22), (1, 23)]\<rparr>,
                      3 \<mapsto> \<lparr>previousFrame = 2, nextFrame = 0, slots = [(0, 0), (1, 31), (1, 32), (0, 0)]\<rparr>],
     superCells = (\<lambda>_. SuperCell_init)([4, 5] := \<lparr>firstFramePtr = 1, lastFramePtr = 3, mustShiftVal = False, sizeLastFrame = 9\<rparr>)\<rparr>"

definition gapLists :: "DataSpace \<Rightarrow> addr list" where
  "gapLists = (\<lambda>_. [])([4, 5] := [1, 2, 3])"

theorem fillGaps_packs_particles_witness:
  "\<exists>pb' xs rest. fillGapsCell 4 (\<lambda>_. [2, 0, 3, 1]) (\<lambda>_. [0, 1, 2, 3]) [3, 2, 1, 0] [0, 1, 2, 3] 3 [4, 5] gapBox = Some pb'
     \<and> gapLists [4, 5] = xs @ rest \<and> box_rep pb' (gapLists([4, 5] := xs)) \<and> packed 4 pb' [4, 5] xs
     \<and> listParticles pb' xs = {#11, 13, 22, 23, 31, 32#}"
proof -
  have rep: "box_rep gapBox gapLists"
    by (auto simp: box_rep_def gapBox_def gapLists_def cell_list_def SuperCell_init_def)
  have ok: "\<forall>a \<in> set (gapLists [4, 5]). frame_ok 4 gapBox a"
    by (auto simp: gapLists_def frame_ok_def content_def gapBox_def settled_def)
  have o: "thread_order 4 [2, 0, 3, 1]" "thread_order 4 [0, 1, 2, 3]" "thread_order 4 [3, 2, 1, 0]"
    by (auto simp: thread_order_def)
  have len: "length (gapLists [4, 5]) \<le> 3" "4 \<le> INV_LOC_IDX" by (simp_all add: gapLists_def INV_LOC_IDX_def)
  have o': "\<forall>k::nat. thread_order 4 [2, 0, 3, 1] \<and> thread_order 4 [0, 1, 2, 3]" using o by simp
  have parts: "listParticles gapBox (gapLists [4, 5]) = {#11, 13, 22, 23, 31, 32#}"
    by (simp add: listParticles_def gapLists_def frameParticles_def content_def gapBox_def particles_def slotParticle_def)
  from fillGaps_packs_particles [OF rep ok len o' o(3,2)] show ?thesis unfolding parts by blast
qed

end
