(* ===== verification/ShiftParticles.thy ===== *)
theory ShiftParticles
  imports FillGaps Masks
begin

text \<open>
  Models \<open>KernelShiftParticles\<close> (particles/ParticlesBase.kernel), run by the block of one supercell: every
  particle whose \<open>multiMask\<close> is \<open>direction + 1\<close> is moved to the neighbouring supercell in that exchange direction. The
  block keeps, per direction, the frame it fills, the number of particles in it, and whether the frame is
  already in the list of the neighbour.

  The threads between two barriers run one after the other; the order in which they reach the counters
  is an argument per frame. \<open>None\<close> is undefined behaviour: a null or freed frame is dereferenced, an index is
  out of the range of an array, or the block has fewer threads than there are exchanges. As \<open>Exchanges\<close> counts the supercell
  itself, the last entry of the tables belongs to the own supercell; no particle has this direction.
\<close>

declare NumberOfExchanges.simps [simp del]

section \<open>The kernel\<close>

record 'p ShiftBlock =
  shiftBox :: "'p ParticlesBox"
  destFrames :: "addr list"
  destFramesCounter :: "nat list"
  isNeighborFrame :: "bool list"

definition relativeCell :: "nat \<Rightarrow> DataSpace \<Rightarrow> nat \<Rightarrow> DataSpace" where
  "relativeCell Dim superCellIdx t = vec_add superCellIdx (getRelativeDirections Dim (t + 1))"

text \<open>The frame, the counter and \<open>isNeighborFrame\<close> of a direction before the first frame is read.\<close>

definition initDest :: "nat \<Rightarrow> DataSpace \<Rightarrow> 'p ParticlesBox \<Rightarrow> addr \<times> nat \<times> bool" where
  "initDest TileSize relative pb =
     (let (lastFrame, isNeighborFrame) = getLastFrame relative pb;
          counter = sizeLastFrame (superCells pb relative)
      in if isNeighborFrame
         then if counter = TileSize then (0, 0, False) else (lastFrame, counter, True)
         else (0, 0, False))"

definition initBlock :: "nat \<Rightarrow> nat \<Rightarrow> DataSpace \<Rightarrow> 'p ParticlesBox \<Rightarrow> 'p ShiftBlock" where
  "initBlock TileSize Dim superCellIdx pb =
     (let dest = map (\<lambda>t. initDest TileSize (relativeCell Dim superCellIdx t) pb) [0..<NumberOfExchanges Dim]
      in \<lparr>shiftBox = pb, destFrames = map fst dest, destFramesCounter = map (fst \<circ> snd) dest,
          isNeighborFrame = map (snd \<circ> snd) dest\<rparr>)"

text \<open>\<open>destParticleIdx = atomicAdd(&destFramesCounter[direction], 1)\<close>, an \<open>uint16_t\<close>, and the flag \<open>anyDestFrameFull\<close>.\<close>

definition slotDirection :: "'p slot \<Rightarrow> int" where
  "slotDirection s = int (fst s) - 2"

fun drawNumbers ::
  "nat \<Rightarrow> (nat \<Rightarrow> int) \<Rightarrow> nat list \<Rightarrow> nat list \<times> (nat \<rightharpoonup> nat) \<times> bool \<Rightarrow> (nat list \<times> (nat \<rightharpoonup> nat) \<times> bool) option" where
  "drawNumbers TileSize direction [] s = Some s"
| "drawNumbers TileSize direction (t # ts) (counter, destIdx, anyFull) =
     (if direction t \<ge> 0
      then let d = nat (direction t); i = counter ! d mod 2 ^ 16
           in if d < length counter
              then drawNumbers TileSize direction ts (counter[d := counter ! d + 1], destIdx(t \<mapsto> i), anyFull \<or> i \<ge> TileSize)
              else None
      else drawNumbers TileSize direction ts (counter, destIdx, anyFull))"

text \<open>\<open>multiMask = 0\<close> for the particles that leave.\<close>

definition clearShifted :: "'p slot list \<Rightarrow> 'p slot list" where
  "clearShifted = map (\<lambda>s. if slotDirection s \<ge> 0 then (0, snd s) else s)"

fun allocDest ::
  "((addr \<rightharpoonup> 'p Frame) \<Rightarrow> addr) \<Rightarrow> (addr \<Rightarrow> 'p Frame) \<Rightarrow> nat list \<Rightarrow> 'p ShiftBlock \<Rightarrow> 'p ShiftBlock" where
  "allocDest malloc garbage [] b = b"
| "allocDest malloc garbage (t # ts) b =
     (if destFramesCounter b ! t > 0 \<and> destFrames b ! t = 0
      then let (a, pb) = getEmptyFrame malloc garbage (shiftBox b)
           in allocDest malloc garbage ts (b\<lparr>shiftBox := pb, destFrames := (destFrames b)[t := a]\<rparr>)
      else allocDest malloc garbage ts b)"

text \<open>Every thread whose number satisfies \<open>sel\<close> copies its particle to the slot \<open>number - off\<close> of its destination.\<close>

fun copyThreads ::
  "nat \<Rightarrow> (nat \<Rightarrow> bool) \<Rightarrow> nat \<Rightarrow> addr list \<Rightarrow> (nat \<rightharpoonup> nat) \<Rightarrow> 'p slot list \<Rightarrow> nat list \<Rightarrow> 'p ParticlesBox \<Rightarrow> 'p ParticlesBox option" where
  "copyThreads TileSize sel off dest destIdx A [] pb = Some pb"
| "copyThreads TileSize sel off dest destIdx A (t # ts) pb =
     (case destIdx t of
        None \<Rightarrow> copyThreads TileSize sel off dest destIdx A ts pb
      | Some i \<Rightarrow>
          if sel i
          then if i - off < TileSize
               then do {
                 let f = dest ! nat (slotDirection (A ! t));
                 s \<leftarrow> content pb f;
                 pb \<leftarrow> modifyFrame f (setSlots (s[i - off := (1, snd (A ! t))])) pb;
                 copyThreads TileSize sel off dest destIdx A ts pb
               }
               else None
          else copyThreads TileSize sel off dest destIdx A ts pb)"

text \<open>A full frame is handed to the neighbour and the direction gets a new one if particles are left for it.\<close>

definition flushThread ::
  "nat \<Rightarrow> ((addr \<rightharpoonup> 'p Frame) \<Rightarrow> addr) \<Rightarrow> (addr \<Rightarrow> 'p Frame) \<Rightarrow> DataSpace \<Rightarrow> nat \<Rightarrow> 'p ShiftBlock \<Rightarrow> 'p ShiftBlock option" where
  "flushThread TileSize malloc garbage relative t b =
     (if destFramesCounter b ! t \<ge> TileSize
      then do {
        let counter = destFramesCounter b ! t - TileSize;
        pb \<leftarrow> (if isNeighborFrame b ! t
               then Some (modifyCell relative (setSizeLastFrame TileSize) (shiftBox b))
               else setAsFirstFrame (destFrames b ! t) relative (shiftBox b));
        let (a, pb) = (if counter > 0 then getEmptyFrame malloc garbage pb else (0, pb));
        Some \<lparr>shiftBox = pb, destFrames = (destFrames b)[t := a],
              destFramesCounter = (destFramesCounter b)[t := counter],
              isNeighborFrame = (isNeighborFrame b)[t := False]\<rparr>
      }
      else Some b)"

fun flushThreads ::
  "nat \<Rightarrow> ((addr \<rightharpoonup> 'p Frame) \<Rightarrow> addr) \<Rightarrow> (addr \<Rightarrow> 'p Frame) \<Rightarrow> (nat \<Rightarrow> DataSpace) \<Rightarrow> nat list \<Rightarrow> 'p ShiftBlock \<Rightarrow> 'p ShiftBlock option" where
  "flushThreads TileSize malloc garbage relative [] b = Some b"
| "flushThreads TileSize malloc garbage relative (t # ts) b =
     do {
       b \<leftarrow> flushThread TileSize malloc garbage (relative t) t b;
       flushThreads TileSize malloc garbage relative ts b
     }"

text \<open>One iteration of the loop over the frames.\<close>

definition shiftFrame ::
  "nat \<Rightarrow> nat \<Rightarrow> ((addr \<rightharpoonup> 'p Frame) \<Rightarrow> addr) \<Rightarrow> (addr \<Rightarrow> 'p Frame) \<Rightarrow> DataSpace \<Rightarrow> nat list \<Rightarrow> addr \<Rightarrow> 'p ShiftBlock \<Rightarrow> 'p ShiftBlock option" where
  "shiftFrame TileSize Dim malloc garbage superCellIdx order frame b =
     do {
       A \<leftarrow> content (shiftBox b) frame;
       (counter, destIdx, anyFull) \<leftarrow>
         drawNumbers TileSize (\<lambda>t. slotDirection (A ! t)) order (destFramesCounter b, Map.empty, False);
       pb \<leftarrow> modifyFrame frame (setSlots (clearShifted A)) (shiftBox b);
       let b = allocDest malloc garbage [0..<NumberOfExchanges Dim] (b\<lparr>shiftBox := pb, destFramesCounter := counter\<rparr>);
       if anyFull
       then do {
         pb \<leftarrow> copyThreads TileSize (\<lambda>i. i < TileSize) 0 (destFrames b) destIdx A [0..<TileSize] (shiftBox b);
         b \<leftarrow> flushThreads TileSize malloc garbage (relativeCell Dim superCellIdx) [0..<NumberOfExchanges Dim] (b\<lparr>shiftBox := pb\<rparr>);
         pb \<leftarrow> copyThreads TileSize (\<lambda>i. i \<ge> TileSize) TileSize (destFrames b) destIdx A [0..<TileSize] (shiftBox b);
         Some (b\<lparr>shiftBox := pb\<rparr>)
       }
       else do {
         pb \<leftarrow> copyThreads TileSize (\<lambda>i. True) 0 (destFrames b) destIdx A [0..<TileSize] (shiftBox b);
         Some (b\<lparr>shiftBox := pb\<rparr>)
       }
     }"

fun shiftLoop ::
  "nat \<Rightarrow> nat \<Rightarrow> ((addr \<rightharpoonup> 'p Frame) \<Rightarrow> addr) \<Rightarrow> (addr \<Rightarrow> 'p Frame) \<Rightarrow> DataSpace \<Rightarrow> (nat \<Rightarrow> nat list) \<Rightarrow> nat \<Rightarrow> addr \<Rightarrow> 'p ShiftBlock \<Rightarrow> 'p ShiftBlock option" where
  "shiftLoop TileSize Dim malloc garbage superCellIdx order 0 frame b = None"
| "shiftLoop TileSize Dim malloc garbage superCellIdx order (Suc fuel) frame b =
     do {
       b \<leftarrow> shiftFrame TileSize Dim malloc garbage superCellIdx (order fuel) frame b;
       (frame, valid) \<leftarrow> getNextFrame frame (shiftBox b);
       if valid then shiftLoop TileSize Dim malloc garbage superCellIdx order fuel frame b else Some b
     }"

text \<open>The open frames are handed to the neighbours.\<close>

definition finishThread :: "DataSpace \<Rightarrow> nat \<Rightarrow> 'p ShiftBlock \<Rightarrow> 'p ParticlesBox \<Rightarrow> 'p ParticlesBox option" where
  "finishThread relative t b pb =
     (if destFramesCounter b ! t > 0
      then do {
        pb \<leftarrow> (if \<not> isNeighborFrame b ! t then setAsLastFrame (destFrames b ! t) relative pb else Some pb);
        Some (modifyCell relative (setSizeLastFrame (destFramesCounter b ! t)) pb)
      }
      else if destFrames b ! t \<noteq> 0 \<and> \<not> isNeighborFrame b ! t then Some (removeFrame (destFrames b ! t) pb)
      else Some pb)"

fun finishThreads :: "(nat \<Rightarrow> DataSpace) \<Rightarrow> 'p ShiftBlock \<Rightarrow> nat list \<Rightarrow> 'p ParticlesBox \<Rightarrow> 'p ParticlesBox option" where
  "finishThreads relative b [] pb = Some pb"
| "finishThreads relative b (t # ts) pb =
     do { pb \<leftarrow> finishThread (relative t) t b pb; finishThreads relative b ts pb }"

definition kernelShiftParticles ::
  "nat \<Rightarrow> nat \<Rightarrow> ((addr \<rightharpoonup> 'p Frame) \<Rightarrow> addr) \<Rightarrow> (addr \<Rightarrow> 'p Frame) \<Rightarrow> (nat \<Rightarrow> nat list) \<Rightarrow> nat \<Rightarrow> DataSpace \<Rightarrow> 'p ParticlesBox \<Rightarrow> 'p ParticlesBox option" where
  "kernelShiftParticles TileSize Dim malloc garbage order fuel superCellIdx pb =
     (if \<not> mustShiftVal (superCells pb superCellIdx) then Some pb
      else let pb = modifyCell superCellIdx (setMustShift False) pb;
               (frame, valid) = getFirstFrame superCellIdx pb
           in if \<not> valid then Some pb
              else if TileSize < NumberOfExchanges Dim then None
              else do {
                b \<leftarrow> shiftLoop TileSize Dim malloc garbage superCellIdx order fuel frame
                       (initBlock TileSize Dim superCellIdx pb);
                finishThreads (relativeCell Dim superCellIdx) b [0..<NumberOfExchanges Dim] (shiftBox b)
              })"

section \<open>Drawing numbers\<close>

text \<open>The threads of a direction in the order of their arrival get consecutive numbers.\<close>

definition heading :: "(nat \<Rightarrow> int) \<Rightarrow> nat \<Rightarrow> nat list \<Rightarrow> nat list" where
  "heading direction d ts = filter (\<lambda>t. direction t = int d) ts"

lemma heading_simps [simp]:
  "heading direction d [] = []"
  "heading direction d (t # ts) = (if direction t = int d then t # heading direction d ts else heading direction d ts)"
  by (simp_all add: heading_def)

lemma length_heading: "length (heading direction d ts) \<le> length ts"
  by (simp add: heading_def)

definition drawn ::
  "(nat \<Rightarrow> int) \<Rightarrow> nat list \<Rightarrow> nat list \<Rightarrow> (nat \<rightharpoonup> nat) \<Rightarrow> bool" where
  "drawn direction counter ts r \<longleftrightarrow>
     (\<forall>d < length counter. \<forall>i < length (heading direction d ts). r (heading direction d ts ! i) = Some (counter ! d + i))"

lemma drawNumbers_correct:
  assumes "distinct ts" "\<forall>t \<in> set ts. direction t < int (length counter)"
    "\<forall>d < length counter. counter ! d + length ts \<le> 2 ^ 16" "\<forall>t. (r t \<noteq> None \<longrightarrow> t \<notin> set ts)"
  shows "\<exists>counter' r' full'. drawNumbers T direction ts (counter, r, full) = Some (counter', r', full')
    \<and> length counter' = length counter
    \<and> (\<forall>d < length counter. counter' ! d = counter ! d + length (heading direction d ts))
    \<and> drawn direction counter ts r' \<and> (\<forall>t. t \<notin> set ts \<or> direction t < 0 \<longrightarrow> r' t = r t)
    \<and> (full' \<longleftrightarrow> full \<or> (\<exists>t \<in> set ts. direction t \<ge> 0 \<and> the (r' t) \<ge> T))"
  using assms
proof (induction ts arbitrary: counter r full)
  case Nil
  then show ?case by (simp add: drawn_def)
next
  case (Cons t ts)
  show ?case
  proof (cases "direction t \<ge> 0")
    case False
    have r: "\<forall>t. (r t \<noteq> None \<longrightarrow> t \<notin> set ts)" using Cons.prems(4) by auto
    have c: "\<forall>d < length counter. counter ! d + length ts \<le> 2 ^ 16" using Cons.prems(3) by auto
    have h: "heading direction d (t # ts) = heading direction d ts" for d using False by simp
    have step: "drawNumbers T direction (t # ts) (counter, r, full) = drawNumbers T direction ts (counter, r, full)"
      using False by simp
    have f: "(\<exists>u \<in> set (t # ts). direction u \<ge> 0 \<and> Q u) \<longleftrightarrow> (\<exists>u \<in> set ts. direction u \<ge> 0 \<and> Q u)" for Q
      using False by auto
    have p: "distinct ts" "\<forall>u \<in> set ts. direction u < int (length counter)" using Cons.prems(1,2) by auto
    have o: "(\<forall>u. u \<notin> set (t # ts) \<or> direction u < 0 \<longrightarrow> r' u = r u) \<longleftrightarrow> (\<forall>u. u \<notin> set ts \<or> direction u < 0 \<longrightarrow> r' u = r u)" for r'
      using False by (metis insert_iff list.set(2) not_le)
    from Cons.IH [OF p c r, of full] show ?thesis unfolding drawn_def h step f o .
  next
    case True
    define d where "d = nat (direction t)"
    have d: "d < length counter" "direction t = int d" using Cons.prems(2) True by (auto simp: d_def)
    let ?c = "counter[d := counter ! d + 1]" and ?r = "r(t \<mapsto> counter ! d)"
    have idx: "counter ! d mod 2 ^ 16 = counter ! d" using Cons.prems(3) d(1) by (intro mod_less) fastforce
    have step: "drawNumbers T direction (t # ts) (counter, r, full) = drawNumbers T direction ts (?c, ?r, full \<or> T \<le> counter ! d)"
      using d(1) idx by (simp add: Let_def d(2))
    have c: "\<forall>e < length ?c. ?c ! e + length ts \<le> 2 ^ 16" using Cons.prems(3) d by (auto simp: nth_list_update)
    have p: "distinct ts" "\<forall>u \<in> set ts. direction u < int (length ?c)" using Cons.prems(1,2) by auto
    have r: "\<forall>u. (?r u \<noteq> None \<longrightarrow> u \<notin> set ts)" using Cons.prems(1,4) by auto
    obtain c' r' f' where ih: "drawNumbers T direction ts (?c, ?r, full \<or> T \<le> counter ! d) = Some (c', r', f')"
      "length c' = length counter" "\<forall>e < length counter. c' ! e = ?c ! e + length (heading direction e ts)"
      "drawn direction ?c ts r'" "\<forall>u. u \<notin> set ts \<or> direction u < 0 \<longrightarrow> r' u = ?r u"
      "f' \<longleftrightarrow> (full \<or> T \<le> counter ! d) \<or> (\<exists>u \<in> set ts. direction u \<ge> 0 \<and> the (r' u) \<ge> T)"
      using Cons.IH [OF p c r, of "full \<or> T \<le> counter ! d"] unfolding length_list_update by blast
    have t: "r' t = Some (counter ! d)" using ih(5) Cons.prems(1) by simp
    have "drawn direction counter (t # ts) r'"
      unfolding drawn_def
    proof (intro allI impI)
      fix e i assume e: "e < length counter" and i: "i < length (heading direction e (t # ts))"
      have "i < length (heading direction e ts) \<Longrightarrow> r' (heading direction e ts ! i) = Some (?c ! e + i)" for i
        using ih(4) e by (simp add: drawn_def)
      with i e d t show "r' (heading direction e (t # ts) ! i) = Some (counter ! e + i)"
        by (cases i) (auto simp: nth_list_update split: if_splits)
    qed
    moreover have "\<forall>e < length counter. c' ! e = counter ! e + length (heading direction e (t # ts))"
      using ih(3) d by (auto simp: nth_list_update)
    moreover have "\<forall>u. u \<notin> set (t # ts) \<or> direction u < 0 \<longrightarrow> r' u = r u" using ih(5) True by auto
    moreover have "f' \<longleftrightarrow> full \<or> (\<exists>u \<in> set (t # ts). direction u \<ge> 0 \<and> the (r' u) \<ge> T)" using ih(6) t True by auto
    ultimately show ?thesis using step ih(1,2) by auto
  qed
qed

section \<open>Writing into a frame\<close>

fun writeSlots :: "(nat \<times> 'p) list \<Rightarrow> 'p slot list \<Rightarrow> 'p slot list" where
  "writeSlots [] s = s"
| "writeSlots ((i, p) # ws) s = writeSlots ws (s[i := (1, p)])"

lemma writeSlots_correct:
  assumes "distinct (map fst ws)" "\<forall>(i, p) \<in> set ws. i < length s \<and> fst (s ! i) = 0"
  shows "length (writeSlots ws s) = length s \<and> particles (writeSlots ws s) = particles s + mset (map snd ws)
    \<and> (\<forall>i < length s. fst (writeSlots ws s ! i) = (if i \<in> fst ` set ws then 1 else fst (s ! i)))"
  using assms
proof (induction ws arbitrary: s)
  case (Cons w ws)
  obtain i p where w: "w = (i, p)" by fastforce
  have i: "i < length s" "fst (s ! i) = 0" "i \<notin> fst ` set ws" using Cons.prems by (auto simp: w)
  have "\<forall>(j, q) \<in> set ws. j < length (s[i := (1, p)]) \<and> fst (s[i := (1, p)] ! j) = 0"
    using Cons.prems i(3) by (force simp: w nth_list_update)
  with Cons.IH [of "s[i := (1, p)]"] Cons.prems(1) i particles_insert [OF i(1,2), of p] show ?case
    by (auto simp: w nth_list_update)
qed simp

lemma writeSlots_front:
  assumes "front_packed k s" "distinct (map fst ws)" "fst ` set ws = {k..<m}" "k \<le> m" "m \<le> length s"
  shows "front_packed m (writeSlots ws s) \<and> length (writeSlots ws s) = length s
    \<and> particles (writeSlots ws s) = particles s + mset (map snd ws)"
proof -
  have "i < length s \<and> fst (s ! i) = 0" if "(i, p) \<in> set ws" for i p
  proof -
    have "i \<in> {k..<m}" unfolding assms(3) [symmetric] by (rule image_eqI [OF _ that]) simp
    then show ?thesis using assms(1,5) by (simp add: front_packed_def)
  qed
  then have "\<forall>(i, p) \<in> set ws. i < length s \<and> fst (s ! i) = 0" by blast
  from writeSlots_correct [OF assms(2) this] assms show ?thesis by (auto simp: front_packed_def)
qed

text \<open>What the threads write into the frame of one direction.\<close>

definition writes ::
  "(nat \<Rightarrow> bool) \<Rightarrow> nat \<Rightarrow> (nat \<rightharpoonup> nat) \<Rightarrow> 'p slot list \<Rightarrow> nat \<Rightarrow> nat list \<Rightarrow> (nat \<times> 'p) list" where
  "writes sel off r A d ts =
     map (\<lambda>t. (the (r t) - off, snd (A ! t))) (filter (\<lambda>t. slotDirection (A ! t) = int d \<and> (\<exists>i. r t = Some i \<and> sel i)) ts)"

lemma copyThreads_correct:
  assumes "box_rep pb L" "\<forall>d < E. \<forall>e < E. d \<noteq> e \<longrightarrow> dest ! d \<noteq> 0 \<longrightarrow> dest ! d \<noteq> dest ! e"
    "\<forall>t \<in> set ts. \<forall>i. r t = Some i \<and> sel i \<longrightarrow> i - off < T \<and> 0 \<le> slotDirection (A ! t) \<and> slotDirection (A ! t) < int E
       \<and> dest ! nat (slotDirection (A ! t)) \<noteq> 0 \<and> content pb (dest ! nat (slotDirection (A ! t))) \<noteq> None"
  shows "\<exists>pb'. copyThreads T sel off dest r A ts pb = Some pb' \<and> box_rep pb' L \<and> superCells pb' = superCells pb
    \<and> dom (frames pb') = dom (frames pb)
    \<and> (\<forall>d < E. dest ! d \<noteq> 0 \<longrightarrow> content pb' (dest ! d) = map_option (writeSlots (writes sel off r A d ts)) (content pb (dest ! d)))
    \<and> (\<forall>a. a \<notin> (\<lambda>d. dest ! d) ` {..<E} \<longrightarrow> content pb' a = content pb a)"
  using assms
proof (induction ts arbitrary: pb)
  case Nil
  then show ?case by (simp add: writes_def option.map_ident [unfolded id_def])
next
  case (Cons t ts)
  show ?case
  proof (cases "\<exists>i. r t = Some i \<and> sel i")
    case False
    then have "copyThreads T sel off dest r A (t # ts) pb = copyThreads T sel off dest r A ts pb"
      and "\<And>d. writes sel off r A d (t # ts) = writes sel off r A d ts"
      by (auto simp: writes_def split: option.splits)
    note same = this
    have "\<forall>t \<in> set ts. \<forall>i. r t = Some i \<and> sel i \<longrightarrow> i - off < T \<and> 0 \<le> slotDirection (A ! t) \<and> slotDirection (A ! t) < int E
       \<and> dest ! nat (slotDirection (A ! t)) \<noteq> 0 \<and> content pb (dest ! nat (slotDirection (A ! t))) \<noteq> None"
      using Cons.prems(3) by (meson list.set_intros(2))
    from Cons.IH [OF Cons.prems(1,2) this] show ?thesis unfolding same .
  next
    case True
    then obtain i where i: "r t = Some i" "sel i" by blast
    define d where "d = nat (slotDirection (A ! t))"
    have d: "d < E" "slotDirection (A ! t) = int d" "dest ! d \<noteq> 0" "i - off < T"
      using Cons.prems(3) i by (auto simp: d_def)
    obtain s where s: "content pb (dest ! d) = Some s" using Cons.prems(3) i by (auto simp: d_def)
    obtain pb1 where pb1: "modifyFrame (dest ! d) (setSlots (s[i - off := (1, snd (A ! t))])) pb = Some pb1" "box_rep pb1 L"
      "content pb1 = (content pb)(dest ! d \<mapsto> s[i - off := (1, snd (A ! t))])" "superCells pb1 = superCells pb"
      using modifyFrame_setSlots [OF Cons.prems(1) s] by blast
    have dom: "dom (frames pb1) = dom (frames pb)"
      using pb1(1) by (auto simp: modifyFrame_def split: option.splits if_splits)
    have "\<forall>t \<in> set ts. \<forall>i. r t = Some i \<and> sel i \<longrightarrow> i - off < T \<and> 0 \<le> slotDirection (A ! t) \<and> slotDirection (A ! t) < int E
       \<and> dest ! nat (slotDirection (A ! t)) \<noteq> 0 \<and> content pb1 (dest ! nat (slotDirection (A ! t))) \<noteq> None"
      using Cons.prems(3) pb1(3) by auto
    from Cons.IH [OF pb1(2) Cons.prems(2) this] obtain pb' where ih:
      "copyThreads T sel off dest r A ts pb1 = Some pb'" "box_rep pb' L" "superCells pb' = superCells pb1"
      "dom (frames pb') = dom (frames pb1)"
      "\<forall>e < E. dest ! e \<noteq> 0 \<longrightarrow> content pb' (dest ! e) = map_option (writeSlots (writes sel off r A e ts)) (content pb1 (dest ! e))"
      "\<forall>a. a \<notin> (\<lambda>d. dest ! d) ` {..<E} \<longrightarrow> content pb' a = content pb1 a" by blast
    have w: "writes sel off r A e (t # ts) = (if e = d then [(i - off, snd (A ! t))] else []) @ writes sel off r A e ts" for e
      using i d(2) by (auto simp: writes_def)
    have "content pb' (dest ! e) = map_option (writeSlots (writes sel off r A e (t # ts))) (content pb (dest ! e))"
      if e: "e < E" "dest ! e \<noteq> 0" for e
    proof (cases "e = d")
      case True
      with ih(5) e pb1(3) s show ?thesis by (simp add: w)
    next
      case False
      then have "dest ! e \<noteq> dest ! d" using Cons.prems(2) e d(1) by blast
      with ih(5) e pb1(3) False show ?thesis by (simp add: w)
    qed
    moreover have "\<forall>a. a \<notin> (\<lambda>d. dest ! d) ` {..<E} \<longrightarrow> content pb' a = content pb a"
      using ih(6) pb1(3) d(1) by auto
    moreover have "copyThreads T sel off dest r A (t # ts) pb = Some pb'"
      using i d s pb1(1) ih(1) by (simp add: d_def [symmetric])
    ultimately show ?thesis using ih(2-4) pb1(4) dom by auto
  qed
qed

lemma drawn_bij:
  assumes o: "thread_order T order" and d: "drawn direction counter order r" "d < length counter"
  shows "bij_betw (\<lambda>t. the (r t)) {t. t < T \<and> direction t = int d} {counter ! d..<counter ! d + length (heading direction d order)}"
    "t < T \<Longrightarrow> direction t = int d \<Longrightarrow> r t \<noteq> None"
proof -
  let ?h = "heading direction d order"
  have h: "set ?h = {t. t < T \<and> direction t = int d}" "distinct ?h"
    using o by (auto simp: heading_def thread_order_def)
  have r: "r (?h ! i) = Some (counter ! d + i)" if "i < length ?h" for i using d that by (simp add: drawn_def)
  show "t < T \<Longrightarrow> direction t = int d \<Longrightarrow> r t \<noteq> None"
    using h(1) r by (metis (mono_tags, lifting) in_set_conv_nth mem_Collect_eq option.distinct(1))
  have "inj_on (\<lambda>t. the (r t)) (set ?h)"
    by (rule inj_onI) (metis (no_types, lifting) add_left_imp_eq in_set_conv_nth option.sel r)
  moreover have "(\<lambda>t. the (r t)) ` set ?h = {counter ! d..<counter ! d + length ?h}"
  proof (intro equalityI subsetI)
    fix x assume "x \<in> {counter ! d..<counter ! d + length ?h}"
    then have "x - counter ! d < length ?h" "counter ! d + (x - counter ! d) = x" by auto
    then have "the (r (?h ! (x - counter ! d))) = x" "?h ! (x - counter ! d) \<in> set ?h" using r by auto
    then show "x \<in> (\<lambda>t. the (r t)) ` set ?h" by (metis imageI)
  qed (auto simp: in_set_conv_nth r)
  ultimately show "bij_betw (\<lambda>t. the (r t)) {t. t < T \<and> direction t = int d} {counter ! d..<counter ! d + length ?h}"
    using h(1) by (simp add: bij_betw_def)
qed

text \<open>The slots that are written in one direction, for the two selections of the kernel.\<close>

lemma writes_slots:
  assumes o: "thread_order T order" and d: "drawn (\<lambda>t. slotDirection (A ! t)) counter order r" "d < length counter"
    and off: "\<And>i. sel i \<Longrightarrow> off \<le> i"
  shows "distinct (map fst (writes sel off r A d [0..<T]))"
    "fst ` set (writes sel off r A d [0..<T]) =
       (\<lambda>i. i - off) ` {i. counter ! d \<le> i \<and> i < counter ! d + length (heading (\<lambda>t. slotDirection (A ! t)) d order) \<and> sel i}"
proof -
  let ?D = "{t. t < T \<and> slotDirection (A ! t) = int d}"
  note b = drawn_bij [OF o d]
  let ?S = "{t \<in> ?D. sel (the (r t))}"
  have S: "set (filter (\<lambda>t. slotDirection (A ! t) = int d \<and> (\<exists>i. r t = Some i \<and> sel i)) [0..<T]) = ?S"
    using b(2) by force
  have "inj_on (\<lambda>t. the (r t)) ?D" using b(1) by (rule bij_betw_imp_inj_on)
  then have "inj_on (\<lambda>t. the (r t) - off) ?S"
    by (intro inj_onI) (auto dest!: off simp: inj_on_def eq_diff_iff)
  then have "inj_on (\<lambda>t. the (r t) - off) (set (filter (\<lambda>t. slotDirection (A ! t) = int d \<and> (\<exists>i. r t = Some i \<and> sel i)) [0..<T]))"
    unfolding S .
  then show "distinct (map fst (writes sel off r A d [0..<T]))"
    unfolding writes_def map_map comp_def fst_conv distinct_map by simp
  have "(\<lambda>t. the (r t)) ` ?S = {i \<in> (\<lambda>t. the (r t)) ` ?D. sel i}" by blast
  also have "(\<lambda>t. the (r t)) ` ?D = {counter ! d..<counter ! d + length (heading (\<lambda>t. slotDirection (A ! t)) d order)}"
    using b(1) by (rule bij_betw_imp_surj_on)
  finally have im: "(\<lambda>t. the (r t)) ` ?S =
    {i. counter ! d \<le> i \<and> i < counter ! d + length (heading (\<lambda>t. slotDirection (A ! t)) d order) \<and> sel i}" by auto
  show "fst ` set (writes sel off r A d [0..<T]) =
       (\<lambda>i. i - off) ` {i. counter ! d \<le> i \<and> i < counter ! d + length (heading (\<lambda>t. slotDirection (A ! t)) d order) \<and> sel i}"
    unfolding im [symmetric] writes_def set_map S image_image fst_conv ..
qed

text \<open>The particles of a frame that leave in a direction.\<close>

definition shifted :: "'p slot list \<Rightarrow> nat \<Rightarrow> 'p multiset" where
  "shifted A d = mset (map snd (filter (\<lambda>s. slotDirection s = int d) A))"

lemma shifted_threads:
  assumes "length A = T"
  shows "shifted A d = mset (map (\<lambda>t. snd (A ! t)) (filter (\<lambda>t. slotDirection (A ! t) = int d) [0..<T]))"
proof -
  have "filter (\<lambda>s. slotDirection s = int d) (map ((!) A) [0..<T]) = map ((!) A) (filter (\<lambda>t. slotDirection (A ! t) = int d) [0..<T])"
    by (simp add: filter_map comp_def)
  moreover have "map ((!) A) [0..<T] = A" using assms map_nth [of A] by simp
  ultimately show ?thesis unfolding shifted_def by (simp only: map_map comp_def)
qed

lemma writes_particles:
  assumes o: "thread_order T order" and d: "drawn (\<lambda>t. slotDirection (A ! t)) counter order r" "d < length counter"
    and T: "length A = T" and sel: "\<And>i. sel i \<longleftrightarrow> \<not> sel' i"
  shows "mset (map snd (writes sel off r A d [0..<T])) + mset (map snd (writes sel' off' r A d [0..<T])) = shifted A d"
proof -
  let ?g = "\<lambda>t. snd (A ! t)" and ?D = "filter (\<lambda>t. slotDirection (A ! t) = int d) [0..<T]"
  have some: "\<exists>i. r t = Some i" if "t \<in> set ?D" for t using drawn_bij(2) [OF o d] that by auto
  have eq: "map snd (writes sl f r A d [0..<T]) = map ?g (filter (\<lambda>t. sl (the (r t))) ?D)" for sl f
    unfolding writes_def filter_filter
    by (simp add: comp_def) (rule arg_cong [where f = "map ?g"], rule filter_cong [OF refl], use some in force)
  have "filter (\<lambda>t. sel' (the (r t))) ?D = filter (\<lambda>t. \<not> sel (the (r t))) ?D" using sel by simp
  then show ?thesis
    unfolding eq shifted_threads [OF T] mset_map
    by (metis image_mset_union mset_filter multiset_partition)
qed

section \<open>The state of a block\<close>

definition full_ok :: "nat \<Rightarrow> 'p ParticlesBox \<Rightarrow> addr \<Rightarrow> bool" where
  "full_ok T pb a \<longleftrightarrow> (\<exists>s. content pb a = Some s \<and> length s = T \<and> full_frame s)"

text \<open>
  The entry of direction \<open>t\<close>: the frame in use holds \<open>k\<close> particles at its front; it is the last frame of the
  neighbour \<open>R\<close>, or in no list; all other frames of the neighbour are full. \<open>z\<close> tells that the neighbour
  had frames at the start.
\<close>

definition dest_inv :: "nat \<Rightarrow> DataSpace \<Rightarrow> bool \<Rightarrow> 'p ShiftBlock \<Rightarrow> (DataSpace \<Rightarrow> addr list) \<Rightarrow> nat \<Rightarrow> nat \<Rightarrow> bool" where
  "dest_inv T R z b L k t \<longleftrightarrow>
     (if isNeighborFrame b ! t
      then z \<and> (\<exists>ys. L R = ys @ [destFrames b ! t] \<and> (\<forall>a \<in> set ys. full_ok T (shiftBox b) a)
        \<and> sizeLastFrame (superCells (shiftBox b) R) \<le> k)
      else (\<forall>a \<in> set (L R). full_ok T (shiftBox b) a)
        \<and> (z \<longrightarrow> L R \<noteq> [] \<and> sizeLastFrame (superCells (shiftBox b) R) = T)
        \<and> (\<not> z \<longrightarrow> sizeLastFrame (superCells (shiftBox b) R) = 0)
        \<and> (destFrames b ! t \<noteq> 0 \<longrightarrow> free_frame (shiftBox b) L (destFrames b ! t)))
     \<and> (if destFrames b ! t = 0 then k = 0
        else \<exists>s. content (shiftBox b) (destFrames b ! t) = Some s \<and> length s = T \<and> front_packed k s)"

text \<open>The particles that belong to a neighbour, in its list or in the frame that is not yet in the list.\<close>

definition held :: "'p ShiftBlock \<Rightarrow> (DataSpace \<Rightarrow> addr list) \<Rightarrow> DataSpace \<Rightarrow> nat \<Rightarrow> 'p multiset" where
  "held b L R t = listParticles (shiftBox b) (L R) +
     (if destFrames b ! t \<noteq> 0 \<and> \<not> isNeighborFrame b ! t then frameParticles (shiftBox b) (destFrames b ! t) else {#})"

definition self_inv :: "nat \<Rightarrow> nat \<Rightarrow> addr list \<Rightarrow> 'p ShiftBlock \<Rightarrow> bool" where
  "self_inv T t own b \<longleftrightarrow>
     (if isNeighborFrame b ! t then own \<noteq> [] \<and> destFrames b ! t = last own \<and> destFramesCounter b ! t < T
      else destFrames b ! t = 0 \<and> destFramesCounter b ! t = 0)"

lemma dom_content: "a \<in> dom (frames pb) \<longleftrightarrow> content pb a \<noteq> None"
  by (auto simp: content_def)

lemma list_in_heap: "box_rep pb L \<Longrightarrow> a \<in> set (L idx) \<Longrightarrow> a \<in> dom (frames pb)"
  using content_in_list by (metis dom_content option.distinct(1))

lemma getEmptyFrame_content:
  assumes m: "fresh_malloc malloc" "\<forall>h. finite (dom h) \<longrightarrow> malloc h \<noteq> 0" "\<forall>a. length (slots (garbage a)) = T"
    and rep: "box_rep pb L" and fin: "finite (dom (frames pb))"
  obtains a pb' s where "getEmptyFrame malloc garbage pb = (a, pb')" "box_rep pb' L" "free_frame pb' L a"
    "content pb' a = Some s" "length s = T" "front_packed 0 s" "a \<notin> dom (frames pb)" "finite (dom (frames pb'))"
    "\<forall>x \<in> dom (frames pb). content pb' x = content pb x" "superCells pb' = superCells pb"
proof -
  have new: "finite (dom (frames q)) \<Longrightarrow> dom (frames pb) \<subseteq> dom (frames q) \<Longrightarrow>
      (tmp \<noteq> 0 \<Longrightarrow> tmp \<notin> dom (frames pb) \<and> (\<exists>s. content q tmp = Some s \<and> length s = T)) \<Longrightarrow>
      emptyFrameTries malloc garbage n tmp q = (t, q') \<Longrightarrow>
      (\<forall>x \<in> dom (frames q). content q' x = content q x) \<and> (t \<noteq> 0 \<longrightarrow> t \<notin> dom (frames pb) \<and> (\<exists>s. content q' t = Some s \<and> length s = T))"
    for n q q' tmp t
  proof (induction n arbitrary: q tmp)
    case (Suc n)
    let ?a = "malloc (frames q)" and ?q = "q\<lparr>frames := (frames q)(malloc (frames q) \<mapsto> disableAll (garbage (malloc (frames q))))\<rparr>"
    have a: "?a \<noteq> 0" "?a \<notin> dom (frames q)"
      using m(1) [unfolded fresh_malloc_def, rule_format, of "frames q"] m(2) Suc.prems(1) by auto
    have c: "content ?q ?a = Some (slots (disableAll (garbage ?a)))" "length (slots (disableAll (garbage ?a))) = T"
      using m(3) by (simp_all add: content_def disableAll_def)
    have "finite (dom (frames ?q))" "dom (frames pb) \<subseteq> dom (frames ?q)" using Suc.prems(1,2) by auto
    moreover have "?a \<notin> dom (frames pb)" using a(2) Suc.prems(2) by blast
    moreover have "emptyFrameTries malloc garbage n ?a ?q = (t, q')" using Suc.prems(4) a(1) by (simp add: Let_def)
    ultimately have ih: "(\<forall>x \<in> dom (frames ?q). content q' x = content ?q x)
        \<and> (t \<noteq> 0 \<longrightarrow> t \<notin> dom (frames pb) \<and> (\<exists>s. content q' t = Some s \<and> length s = T))"
      using Suc.IH [of ?q ?a] c by blast
    moreover have "content ?q x = content q x" "x \<in> dom (frames ?q)" if "x \<in> dom (frames q)" for x
      using that a(2) by (auto simp: content_def)
    ultimately show ?case by metis
  qed simp
  obtain a pb' where g: "emptyFrameTries malloc garbage 13 0 pb = (a, pb')" by fastforce
  have "empty_or_free pb L 0" by (simp add: empty_or_free_def)
  note r = emptyFrameTries_rep [OF m(1) rep this g] and cnt = emptyFrameTries_count [OF m(1,2) fin g]
  have a: "a \<noteq> 0" using cnt by simp
  with new [OF fin subset_refl _ g] obtain s where s: "content pb' a = Some s" "length s = T" "a \<notin> dom (frames pb)"
    "\<forall>x \<in> dom (frames pb). content pb' x = content pb x" by auto
  have "front_packed 0 s"
    using r a s(1) by (auto simp: empty_or_free_def content_def front_packed_def list_all_length case_prod_beta)
  then show ?thesis using that [OF _ _ _ s(1,2)] g r a s cnt by (auto simp: getEmptyFrame_def empty_or_free_def)
qed

text \<open>
  The whole state: the entries of the \<open>E - 1\<close> neighbours and of the supercell itself, the frames of the supercell
  with their contents \<open>C\<close>, and all other supercells, which stay as they were in the box \<open>pb0\<close> with the lists \<open>L0\<close>.
\<close>

definition shift_inv ::
  "nat \<Rightarrow> nat \<Rightarrow> (nat \<Rightarrow> DataSpace) \<Rightarrow> 'p ParticlesBox \<Rightarrow> (DataSpace \<Rightarrow> addr list) \<Rightarrow> (addr \<rightharpoonup> 'p slot list) \<Rightarrow>
   'p ShiftBlock \<Rightarrow> (DataSpace \<Rightarrow> addr list) \<Rightarrow> (nat \<Rightarrow> nat) \<Rightarrow> bool" where
  "shift_inv T E rel pb0 L0 C b L k \<longleftrightarrow>
     box_rep (shiftBox b) L \<and> finite (dom (frames (shiftBox b)))
     \<and> length (destFrames b) = E \<and> length (destFramesCounter b) = E \<and> length (isNeighborFrame b) = E
     \<and> (\<forall>t < E - 1. dest_inv T (rel t) (L0 (rel t) \<noteq> []) b L (k t) t)
     \<and> (\<forall>t < E. \<forall>u < E. t \<noteq> u \<longrightarrow> destFrames b ! t \<noteq> 0 \<longrightarrow> destFrames b ! t \<noteq> destFrames b ! u)
     \<and> self_inv T (E - 1) (L (rel (E - 1))) b
     \<and> L (rel (E - 1)) = L0 (rel (E - 1)) \<and> (\<forall>a \<in> set (L0 (rel (E - 1))). content (shiftBox b) a = C a)
     \<and> (\<forall>j. (\<forall>t < E. j \<noteq> rel t) \<longrightarrow> L j = L0 j
          \<and> sizeLastFrame (superCells (shiftBox b) j) = sizeLastFrame (superCells pb0 j)
          \<and> (\<forall>a \<in> set (L0 j). content (shiftBox b) a = content pb0 a))"

lemma shift_invD:
  assumes "shift_inv T E rel pb0 L0 C b L k"
  shows "box_rep (shiftBox b) L" "finite (dom (frames (shiftBox b)))"
    "length (destFrames b) = E" "length (destFramesCounter b) = E" "length (isNeighborFrame b) = E"
    "\<And>t. t < E - 1 \<Longrightarrow> dest_inv T (rel t) (L0 (rel t) \<noteq> []) b L (k t) t"
    "\<And>t u. t < E \<Longrightarrow> u < E \<Longrightarrow> t \<noteq> u \<Longrightarrow> destFrames b ! t \<noteq> 0 \<Longrightarrow> destFrames b ! t \<noteq> destFrames b ! u"
    "self_inv T (E - 1) (L (rel (E - 1))) b" "L (rel (E - 1)) = L0 (rel (E - 1))"
    "\<And>a. a \<in> set (L0 (rel (E - 1))) \<Longrightarrow> content (shiftBox b) a = C a"
    "\<And>j. (\<forall>t < E. j \<noteq> rel t) \<Longrightarrow> L j = L0 j"
    "\<And>j. (\<forall>t < E. j \<noteq> rel t) \<Longrightarrow> sizeLastFrame (superCells (shiftBox b) j) = sizeLastFrame (superCells pb0 j)"
    "\<And>j a. (\<forall>t < E. j \<noteq> rel t) \<Longrightarrow> a \<in> set (L0 j) \<Longrightarrow> content (shiftBox b) a = content pb0 a"
  using assms unfolding shift_inv_def by blast+

lemma dest_inv_content:
  "dest_inv T R z b L k t \<Longrightarrow> destFrames b ! t \<noteq> 0 \<Longrightarrow>
    \<exists>s. content (shiftBox b) (destFrames b ! t) = Some s \<and> length s = T \<and> front_packed k s"
  by (simp add: dest_inv_def)

lemma dest_in_heap: "dest_inv T R z b L k t \<Longrightarrow> destFrames b ! t \<noteq> 0 \<Longrightarrow> destFrames b ! t \<in> dom (frames (shiftBox b))"
  using dest_inv_content by (metis dom_content option.distinct(1))

text \<open>A change that adds frames but keeps the contents of the old ones and the entry of direction \<open>t\<close>.\<close>

lemma dest_inv_extend:
  assumes "dest_inv T R z b L k t" "box_rep (shiftBox b) L"
    and "L' R = L R" "destFrames b' ! t = destFrames b ! t" "isNeighborFrame b' ! t = isNeighborFrame b ! t"
    and "sizeLastFrame (superCells (shiftBox b') R) = sizeLastFrame (superCells (shiftBox b) R)"
    and c: "\<forall>x \<in> dom (frames (shiftBox b)). content (shiftBox b') x = content (shiftBox b) x"
    and free: "\<forall>j. set (L' j) \<subseteq> insert f (set (L j))" "destFrames b ! t \<noteq> 0 \<Longrightarrow> destFrames b ! t \<noteq> f"
  shows "dest_inv T R z b' L' k t" "held b' L' R t = held b L R t"
proof -
  have cl: "content (shiftBox b') a = content (shiftBox b) a" if "a \<in> set (L R)" for a
    using that content_in_list [OF assms(2)] c by (force simp: dom_content)
  then have l: "listParticles (shiftBox b') (L R) = listParticles (shiftBox b) (L R)" by (rule listParticles_cong)
  have cd: "content (shiftBox b') (destFrames b ! t) = content (shiftBox b) (destFrames b ! t)" if "destFrames b ! t \<noteq> 0"
    using dest_in_heap [OF assms(1) that] c by blast
  have fr: "free_frame (shiftBox b') L' (destFrames b ! t)"
    if "destFrames b ! t \<noteq> 0" "free_frame (shiftBox b) L (destFrames b ! t)"
    using that free cd by (fastforce simp: free_frame_def dom_content)
  have ok: "(\<forall>a \<in> set xs. full_ok T (shiftBox b') a) \<longleftrightarrow> (\<forall>a \<in> set xs. full_ok T (shiftBox b) a)" if "set xs \<subseteq> set (L R)" for xs
    using that cl unfolding full_ok_def by (metis subsetD)
  show "dest_inv T R z b' L' k t"
  proof (cases "isNeighborFrame b ! t")
    case True
    then obtain ys where "L R = ys @ [destFrames b ! t]" using assms(1) by (auto simp: dest_inv_def)
    with True assms(1) cd ok [of ys] show ?thesis unfolding dest_inv_def assms(3-6) by auto
  next
    case False
    with assms(1) cd ok [of "L R"] fr show ?thesis unfolding dest_inv_def assms(3-6) by auto
  qed
  show "held b' L' R t = held b L R t" unfolding held_def assms(3-6) l using cd by (auto simp: frameParticles_def)
qed

text \<open>One thread works on its direction: the other directions keep their entries and their particles.\<close>

lemma shift_inv_thread:
  assumes inv: "shift_inv T E rel pb0 L0 C b L k" and t: "t < E - 1" and inj: "inj_on rel {..<E}"
    and rep: "box_rep (shiftBox b') L'" "finite (dom (frames (shiftBox b')))"
    and c: "\<forall>x \<in> dom (frames (shiftBox b)). content (shiftBox b') x = content (shiftBox b) x"
    and L': "L' = L(rel t := xs)" "set xs \<subseteq> insert (destFrames b ! t) (set (L (rel t)))"
    and b': "destFrames b' = (destFrames b)[t := a]" "isNeighborFrame b' = (isNeighborFrame b)[t := n]"
      "destFramesCounter b' = (destFramesCounter b)[t := c']"
    and size: "\<forall>j. j \<noteq> rel t \<longrightarrow> sizeLastFrame (superCells (shiftBox b') j) = sizeLastFrame (superCells (shiftBox b) j)"
    and a: "a = 0 \<or> a = destFrames b ! t \<or> a \<notin> dom (frames (shiftBox b))"
    and d: "dest_inv T (rel t) (L0 (rel t) \<noteq> []) b' L' k' t"
  shows "shift_inv T E rel pb0 L0 C b' L' (k(t := k'))" "\<forall>u < E - 1. u \<noteq> t \<longrightarrow> held b' L' (rel u) u = held b L (rel u) u"
proof -
  note I = shift_invD [OF inv]
  have rel: "rel u \<noteq> rel t" if "u < E" "u \<noteq> t" for u using inj t that by (auto simp: inj_on_def)
  have Lsub: "\<forall>j. set (L' j) \<subseteq> insert (destFrames b ! t) (set (L j))" using L' by auto
  have ext: "dest_inv T (rel u) (L0 (rel u) \<noteq> []) b' L' (k u) u \<and> held b' L' (rel u) u = held b L (rel u) u"
    if u: "u < E - 1" "u \<noteq> t" for u
  proof (intro conjI)
    have "destFrames b ! u \<noteq> 0 \<Longrightarrow> destFrames b ! u \<noteq> destFrames b ! t" using I(7) u t by simp
    note e = dest_inv_extend [OF I(6) [OF u(1)] I(1), of L' b' "destFrames b ! t", OF _ _ _ _ c Lsub this]
    show "dest_inv T (rel u) (L0 (rel u) \<noteq> []) b' L' (k u) u" "held b' L' (rel u) u = held b L (rel u) u"
      using e rel [of u] u L'(1) b' size by simp_all
  qed
  have heap: "destFrames b ! u \<in> dom (frames (shiftBox b))" if "u < E" "destFrames b ! u \<noteq> 0" for u
  proof (cases "u = E - 1")
    case True
    then have "destFrames b ! u \<in> set (L (rel (E - 1)))"
      using I(8) that by (auto simp: self_inv_def split: if_splits)
    then show ?thesis by (rule list_in_heap [OF I(1)])
  next
    case False
    then show ?thesis using dest_in_heap [OF I(6)] that by simp
  qed
  have dist: "destFrames b' ! u \<noteq> destFrames b' ! v"
    if uv: "u < E" "v < E" "u \<noteq> v" "destFrames b' ! u \<noteq> 0" for u v
    using uv I(3) I(7) [of u v] I(7) [of v u] heap [of u] heap [of v] a t unfolding b'(1)
    by (cases "u = t"; cases "v = t") (auto simp: nth_list_update)
  have self: "rel (E - 1) \<noteq> rel t" using rel [of "E - 1"] t by simp
  show "shift_inv T E rel pb0 L0 C b' L' (k(t := k'))"
    unfolding shift_inv_def
  proof (intro conjI allI impI)
    show "length (destFrames b') = E" "length (destFramesCounter b') = E" "length (isNeighborFrame b') = E"
      using I(3-5) b' by simp_all
    show "dest_inv T (rel u) (L0 (rel u) \<noteq> []) b' L' ((k(t := k')) u) u" if "u < E - 1" for u
      using d ext that by (cases "u = t") simp_all
    show "self_inv T (E - 1) (L' (rel (E - 1))) b'"
      using I(8) self t unfolding self_inv_def b' L'(1) by (auto split: if_splits)
    show "L' (rel (E - 1)) = L0 (rel (E - 1))" using I(9) self L'(1) by simp
    show "\<forall>a \<in> set (L0 (rel (E - 1))). content (shiftBox b') a = C a"
      using I(9,10) c content_in_list [OF I(1), of _ "rel (E - 1)"] by (fastforce simp: dom_content)
    fix j assume j: "\<forall>t < E. j \<noteq> rel t"
    then have jt: "j \<noteq> rel t" using t by auto
    show "L' j = L0 j" using I(11) [OF j] jt L'(1) by simp
    show "sizeLastFrame (superCells (shiftBox b') j) = sizeLastFrame (superCells pb0 j)" using I(12) [OF j] size jt by simp
    show "\<forall>a \<in> set (L0 j). content (shiftBox b') a = content pb0 a"
      using I(11,13) [OF j] c content_in_list [OF I(1), of _ j] by (fastforce simp: dom_content)
  qed (use rep dist in blast)+
  show "\<forall>u < E - 1. u \<noteq> t \<longrightarrow> held b' L' (rel u) u = held b L (rel u) u" using ext by blast
qed

section \<open>Allocating and flushing\<close>

text \<open>What the kernel relies on: \<open>malloc\<close> finds unused memory for a frame of \<open>TileSize\<close> slots.\<close>

definition good_allocator :: "nat \<Rightarrow> ((addr \<rightharpoonup> 'p Frame) \<Rightarrow> addr) \<Rightarrow> (addr \<Rightarrow> 'p Frame) \<Rightarrow> bool" where
  "good_allocator T malloc garbage \<longleftrightarrow> fresh_malloc malloc \<and> (\<forall>h. finite (dom h) \<longrightarrow> malloc h \<noteq> 0)
     \<and> (\<forall>a. length (slots (garbage a)) = T)"

lemma good_allocatorD:
  assumes "good_allocator T malloc garbage"
  shows "fresh_malloc malloc" "\<forall>h. finite (dom h) \<longrightarrow> malloc h \<noteq> 0" "\<forall>a. length (slots (garbage a)) = T"
  using assms by (simp_all add: good_allocator_def)

lemma self_inv_idle:
  assumes "shift_inv T E rel pb0 L0 C b L k" "destFramesCounter b ! (E - 1) > 0"
  shows "isNeighborFrame b ! (E - 1)" "destFrames b ! (E - 1) \<noteq> 0"
proof -
  show n: "isNeighborFrame b ! (E - 1)" using shift_invD(8) [OF assms(1)] assms(2) by (auto simp: self_inv_def split: if_splits)
  have "last (L (rel (E - 1))) \<in> set (L (rel (E - 1)))" "destFrames b ! (E - 1) = last (L (rel (E - 1)))"
    using shift_invD(8) [OF assms(1)] n by (auto simp: self_inv_def)
  then show "destFrames b ! (E - 1) \<noteq> 0" using list_not_null [OF shift_invD(1) [OF assms(1)]] by metis
qed

lemma allocDest_correct:
  assumes alloc: "good_allocator T malloc garbage" and inj: "inj_on rel {..<E}"
  shows "shift_inv T E rel pb0 L0 C b L k \<Longrightarrow> set ts \<subseteq> {..<E} \<Longrightarrow> allocDest malloc garbage ts b = b' \<Longrightarrow>
    shift_inv T E rel pb0 L0 C b' L k \<and> destFramesCounter b' = destFramesCounter b \<and> isNeighborFrame b' = isNeighborFrame b
    \<and> (\<forall>t < E - 1. held b' L (rel t) t = held b L (rel t) t)
    \<and> (\<forall>t < E - 1. t \<in> set ts \<and> destFramesCounter b ! t > 0 \<longrightarrow> destFrames b' ! t \<noteq> 0)
    \<and> (\<forall>t < E - 1. destFrames b' ! t \<noteq> destFrames b ! t \<longrightarrow> destFrames b ! t = 0 \<and> destFramesCounter b ! t > 0)"
proof (induction ts arbitrary: b)
  case Nil
  then show ?case by simp
next
  case (Cons t ts)
  note I = shift_invD [OF Cons.prems(1)]
  have ts: "set ts \<subseteq> {..<E}" "t < E" using Cons.prems(2) by auto
  show ?case
  proof (cases "destFramesCounter b ! t > 0 \<and> destFrames b ! t = 0")
    case False
    then have "allocDest malloc garbage ts b = b'" using Cons.prems(3) by auto
    note ih = Cons.IH [OF Cons.prems(1) ts(1) this]
    have "\<forall>u < E - 1. u \<in> set (t # ts) \<and> destFramesCounter b ! u > 0 \<longrightarrow> destFrames b' ! u \<noteq> 0"
      using ih False by (metis set_ConsD)
    with ih show ?thesis by blast
  next
    case True
    have t: "t < E - 1" using True self_inv_idle(2) [OF Cons.prems(1)] ts(2) by (cases "t = E - 1") auto
    obtain a pb' s where g: "getEmptyFrame malloc garbage (shiftBox b) = (a, pb')" "box_rep pb' L" "free_frame pb' L a"
      "content pb' a = Some s" "length s = T" "front_packed 0 s" "a \<notin> dom (frames (shiftBox b))" "finite (dom (frames pb'))"
      "\<forall>x \<in> dom (frames (shiftBox b)). content pb' x = content (shiftBox b) x" "superCells pb' = superCells (shiftBox b)"
      by (rule getEmptyFrame_content [OF good_allocatorD [OF alloc] I(1,2)])
    let ?b = "b\<lparr>shiftBox := pb', destFrames := (destFrames b)[t := a]\<rparr>"
    have run: "allocDest malloc garbage ts ?b = b'" using Cons.prems(3) True g(1) by simp
    have n: "\<not> isNeighborFrame b ! t"
      using I(6) [OF t] True list_not_null [OF I(1), of 0 "rel t"] by (auto simp: dest_inv_def)
    have kt: "k t = 0" using I(6) [OF t] True by (simp add: dest_inv_def)
    have cl: "content pb' x = content (shiftBox b) x" if "x \<in> set (L (rel t))" for x
      using list_in_heap [OF I(1) that] g(9) by blast
    have d: "dest_inv T (rel t) (L0 (rel t) \<noteq> []) ?b L 0 t"
      using I(6) [OF t] n g(3-6) t I(3) cl by (auto simp: dest_inv_def g(10) full_ok_def free_frame_def)
    have p: "box_rep (shiftBox ?b) L" "finite (dom (frames (shiftBox ?b)))"
      "\<forall>x \<in> dom (frames (shiftBox b)). content (shiftBox ?b) x = content (shiftBox b) x" "L = L(rel t := L (rel t))"
      "set (L (rel t)) \<subseteq> insert (destFrames b ! t) (set (L (rel t)))" "destFrames ?b = (destFrames b)[t := a]"
      "isNeighborFrame ?b = (isNeighborFrame b)[t := isNeighborFrame b ! t]"
      "destFramesCounter ?b = (destFramesCounter b)[t := destFramesCounter b ! t]"
      "\<forall>j. j \<noteq> rel t \<longrightarrow> sizeLastFrame (superCells (shiftBox ?b) j) = sizeLastFrame (superCells (shiftBox b) j)"
      "a = 0 \<or> a = destFrames b ! t \<or> a \<notin> dom (frames (shiftBox b))"
      using g by auto
    note shift_inv_thread [OF Cons.prems(1) t inj p d]
    moreover have "k(t := 0) = k" using kt by auto
    moreover have "held ?b L (rel t) t = held b L (rel t) t"
      using True n t I(3) g(4,6) listParticles_cong [of "L (rel t)" pb' "shiftBox b"] cl
      by (auto simp: held_def frameParticles_def front_packed_def empty_frame_nth intro!: particles_empty)
    ultimately have inv: "shift_inv T E rel pb0 L0 C ?b L k" and h: "\<forall>u < E - 1. held ?b L (rel u) u = held b L (rel u) u"
      by auto
    from Cons.IH [OF inv ts(1) run] h True t I(3) free_frame_def [of pb' L a] g(3) show ?thesis
      by (auto simp: nth_list_update split: if_splits)
  qed
qed

lemma front_packed_full: "front_packed T s \<Longrightarrow> length s = T \<Longrightarrow> full_frame s"
  by (auto simp: front_packed_def full_frame_nth)

text \<open>A full frame goes to the neighbour.\<close>

lemma handOver:
  assumes rep: "box_rep (shiftBox b) L" and d: "dest_inv T R z b L T t" and T: "0 < T"
  obtains pb1 xs where
    "(if isNeighborFrame b ! t then Some (modifyCell R (setSizeLastFrame T) (shiftBox b))
      else setAsFirstFrame (destFrames b ! t) R (shiftBox b)) = Some pb1"
    "box_rep pb1 (L(R := xs))" "content pb1 = content (shiftBox b)" "set xs \<subseteq> insert (destFrames b ! t) (set (L R))"
    "\<forall>a \<in> set xs. full_ok T pb1 a" "z \<longrightarrow> xs \<noteq> [] \<and> sizeLastFrame (superCells pb1 R) = T"
    "\<not> z \<longrightarrow> sizeLastFrame (superCells pb1 R) = 0"
    "listParticles pb1 xs = held b L R t"
    "\<forall>j. j \<noteq> R \<longrightarrow> sizeLastFrame (superCells pb1 j) = sizeLastFrame (superCells (shiftBox b) j)"
proof -
  have f: "destFrames b ! t \<noteq> 0" using d T by (auto simp: dest_inv_def split: if_splits)
  then obtain s where s: "content (shiftBox b) (destFrames b ! t) = Some s" "length s = T" "front_packed T s"
    using dest_inv_content [OF d] by blast
  have ok: "full_ok T (shiftBox b) (destFrames b ! t)" using s front_packed_full [OF s(3,2)] by (simp add: full_ok_def)
  show ?thesis
  proof (cases "isNeighborFrame b ! t")
    case True
    let ?pb = "modifyCell R (setSizeLastFrame T) (shiftBox b)"
    obtain ys where ys: "L R = ys @ [destFrames b ! t]" "\<forall>a \<in> set ys. full_ok T (shiftBox b) a" z
      using d True by (auto simp: dest_inv_def)
    have "L(R := L R) = L" by simp
    then show ?thesis using that [of ?pb "L R"] True ys ok box_rep_setSize [OF rep, of R T]
        listParticles_cong [of "L R" ?pb "shiftBox b"]
      by (auto simp: full_ok_def held_def setSizeLastFrame_def)
  next
    case False
    then have fr: "free_frame (shiftBox b) L (destFrames b ! t)" and l: "\<forall>a \<in> set (L R). full_ok T (shiftBox b) a"
      and z: "z \<longrightarrow> sizeLastFrame (superCells (shiftBox b) R) = T" "\<not> z \<longrightarrow> sizeLastFrame (superCells (shiftBox b) R) = 0"
      using d f by (auto simp: dest_inv_def)
    obtain pb1 where pb1: "setAsFirstFrame (destFrames b ! t) R (shiftBox b) = Some pb1" "box_rep pb1 (L(R := destFrames b ! t # L R))"
      using box.push_first [OF rep fr] by blast
    have c: "content pb1 = content (shiftBox b)" and sc: "sameCells (shiftBox b) pb1"
      using pb1(1) content_setAsFirstFrame sameCells_setAsFirstFrame by blast+
    have "listParticles pb1 (L R) = listParticles (shiftBox b) (L R)" by (rule listParticles_cong) (simp add: c)
    then have "listParticles pb1 (destFrames b ! t # L R) = held b L R t"
      using False f c by (simp add: held_def frameParticles_def)
    with that [of pb1 "destFrames b ! t # L R"] False pb1 c sc ok l z show ?thesis
      by (auto simp: full_ok_def sameCells_def)
  qed
qed

lemma flushThread_correct:
  assumes alloc: "good_allocator T malloc garbage" and inj: "inj_on rel {..<E}" and T: "0 < T"
    and inv: "shift_inv T E rel pb0 L0 C b L k" and t: "t < E - 1" and c: "T \<le> destFramesCounter b ! t" and k: "k t = T"
  obtains b' L' where "flushThread T malloc garbage (rel t) t b = Some b'" "shift_inv T E rel pb0 L0 C b' L' (k(t := 0))"
    "destFramesCounter b' = (destFramesCounter b)[t := destFramesCounter b ! t - T]"
    "\<forall>u < E - 1. held b' L' (rel u) u = held b L (rel u) u"
    "\<forall>u. u \<noteq> t \<longrightarrow> destFrames b' ! u = destFrames b ! u \<and> isNeighborFrame b' ! u = isNeighborFrame b ! u"
    "destFrames b' ! t \<noteq> 0 \<longleftrightarrow> destFramesCounter b' ! t > 0" "\<not> isNeighborFrame b' ! t"
proof -
  note I = shift_invD [OF inv]
  let ?n = "destFramesCounter b ! t - T"
  have d0: "dest_inv T (rel t) (L0 (rel t) \<noteq> []) b L T t" using I(6) [OF t] k by simp
  obtain pb1 xs where h:
    "(if isNeighborFrame b ! t then Some (modifyCell (rel t) (setSizeLastFrame T) (shiftBox b))
      else setAsFirstFrame (destFrames b ! t) (rel t) (shiftBox b)) = Some pb1"
    "box_rep pb1 (L(rel t := xs))" "content pb1 = content (shiftBox b)" "set xs \<subseteq> insert (destFrames b ! t) (set (L (rel t)))"
    "\<forall>a \<in> set xs. full_ok T pb1 a" "L0 (rel t) \<noteq> [] \<longrightarrow> xs \<noteq> [] \<and> sizeLastFrame (superCells pb1 (rel t)) = T"
    "L0 (rel t) = [] \<longrightarrow> sizeLastFrame (superCells pb1 (rel t)) = 0"
    "listParticles pb1 xs = held b L (rel t) t"
    "\<forall>j. j \<noteq> rel t \<longrightarrow> sizeLastFrame (superCells pb1 j) = sizeLastFrame (superCells (shiftBox b) j)"
    by (rule handOver [OF I(1) d0 T]) (use that in auto)
  have dom: "dom (frames pb1) = dom (frames (shiftBox b))" using h(3) by (auto simp: dom_content set_eq_iff)
  have "\<exists>a pb2. (if ?n > 0 then getEmptyFrame malloc garbage pb1 else (0, pb1)) = (a, pb2)
      \<and> box_rep pb2 (L(rel t := xs)) \<and> finite (dom (frames pb2)) \<and> superCells pb2 = superCells pb1
      \<and> (\<forall>x \<in> dom (frames pb1). content pb2 x = content pb1 x) \<and> (a = 0 \<or> a \<notin> dom (frames pb1))
      \<and> (a \<noteq> 0 \<longleftrightarrow> ?n > 0) \<and> (a \<noteq> 0 \<longrightarrow> free_frame pb2 (L(rel t := xs)) a
           \<and> (\<exists>s. content pb2 a = Some s \<and> length s = T \<and> front_packed 0 s))"
  proof (cases "?n > 0")
    case True
    obtain a pb2 s where "getEmptyFrame malloc garbage pb1 = (a, pb2)" "box_rep pb2 (L(rel t := xs))"
      "free_frame pb2 (L(rel t := xs)) a" "content pb2 a = Some s" "length s = T" "front_packed 0 s" "a \<notin> dom (frames pb1)"
      "finite (dom (frames pb2))" "\<forall>x \<in> dom (frames pb1). content pb2 x = content pb1 x" "superCells pb2 = superCells pb1"
      by (rule getEmptyFrame_content [OF good_allocatorD [OF alloc] h(2) I(2) [folded dom]])
    with True show ?thesis by (simp add: free_frame_def)
  qed (use h(2) I(2) dom in auto)
  then obtain a pb2 where g: "(if ?n > 0 then getEmptyFrame malloc garbage pb1 else (0, pb1)) = (a, pb2)"
    "box_rep pb2 (L(rel t := xs))" "finite (dom (frames pb2))" "superCells pb2 = superCells pb1"
    "\<forall>x \<in> dom (frames pb1). content pb2 x = content pb1 x" "a = 0 \<or> a \<notin> dom (frames pb1)" "a \<noteq> 0 \<longleftrightarrow> ?n > 0"
    "a \<noteq> 0 \<longrightarrow> free_frame pb2 (L(rel t := xs)) a \<and> (\<exists>s. content pb2 a = Some s \<and> length s = T \<and> front_packed 0 s)"
    by (elim exE conjE) (rule that)
  let ?b = "\<lparr>shiftBox = pb2, destFrames = (destFrames b)[t := a], destFramesCounter = (destFramesCounter b)[t := ?n],
    isNeighborFrame = (isNeighborFrame b)[t := False]\<rparr>"
  have run: "flushThread T malloc garbage (rel t) t b = Some ?b"
    using c h(1) g(1) unfolding flushThread_def Let_def by simp
  have xsc: "content pb2 x = content pb1 x" if "x \<in> set xs" for x
    using g(5) list_in_heap [OF h(2), of x "rel t"] that by simp
  have d: "dest_inv T (rel t) (L0 (rel t) \<noteq> []) ?b (L(rel t := xs)) 0 t"
    using h(5-7) g(4,8) xsc t I(3,5) by (auto simp: dest_inv_def full_ok_def)
  have p: "box_rep (shiftBox ?b) (L(rel t := xs))" "finite (dom (frames (shiftBox ?b)))"
      "\<forall>x \<in> dom (frames (shiftBox b)). content (shiftBox ?b) x = content (shiftBox b) x" "L(rel t := xs) = L(rel t := xs)"
      "set xs \<subseteq> insert (destFrames b ! t) (set (L (rel t)))" "destFrames ?b = (destFrames b)[t := a]"
      "isNeighborFrame ?b = (isNeighborFrame b)[t := False]" "destFramesCounter ?b = (destFramesCounter b)[t := ?n]"
      "\<forall>j. j \<noteq> rel t \<longrightarrow> sizeLastFrame (superCells (shiftBox ?b) j) = sizeLastFrame (superCells (shiftBox b) j)"
      "a = 0 \<or> a = destFrames b ! t \<or> a \<notin> dom (frames (shiftBox b))"
    using g h dom by auto
  note st = shift_inv_thread [OF inv t inj p d]
  have "listParticles pb2 xs = listParticles pb1 xs" by (rule listParticles_cong) (rule xsc)
  moreover have "frameParticles pb2 a = {#}" if "a \<noteq> 0"
    using g(8) that by (auto simp: frameParticles_def front_packed_def empty_frame_nth intro!: particles_empty)
  ultimately have "held ?b (L(rel t := xs)) (rel t) t = held b L (rel t) t"
    using h(8) t I(3,5) by (auto simp: held_def)
  with st(2) have hd: "\<forall>u < E - 1. held ?b (L(rel t := xs)) (rel u) u = held b L (rel u) u" by blast
  show ?thesis
    by (rule that [OF run st(1) _ hd]) (use t I(3-5) g(7) in simp_all)
qed

text \<open>All directions are flushed: full frames are handed over, the counters lose \<open>TileSize\<close>.\<close>

definition flushed :: "nat \<Rightarrow> bool \<Rightarrow> 'p ShiftBlock \<Rightarrow> (nat \<Rightarrow> nat) \<Rightarrow> 'p ShiftBlock \<Rightarrow> (nat \<Rightarrow> nat) \<Rightarrow> nat \<Rightarrow> bool" where
  "flushed T sel b k b' k' t \<longleftrightarrow>
     (if sel \<and> T \<le> destFramesCounter b ! t
      then k' t = 0 \<and> destFramesCounter b' ! t = destFramesCounter b ! t - T
        \<and> (destFrames b' ! t \<noteq> 0 \<longleftrightarrow> destFramesCounter b' ! t > 0) \<and> \<not> isNeighborFrame b' ! t
      else k' t = k t \<and> destFramesCounter b' ! t = destFramesCounter b ! t
        \<and> destFrames b' ! t = destFrames b ! t \<and> isNeighborFrame b' ! t = isNeighborFrame b ! t)"

lemma flushThreads_correct:
  assumes alloc: "good_allocator T malloc garbage" and inj: "inj_on rel {..<E}" and T: "0 < T"
  shows "shift_inv T E rel pb0 L0 C b L k \<Longrightarrow> distinct ts \<Longrightarrow> set ts \<subseteq> {..<E} \<Longrightarrow>
    \<forall>t \<in> set ts. t < E - 1 \<and> T \<le> destFramesCounter b ! t \<longrightarrow> k t = T \<Longrightarrow>
    \<exists>b' L' k'. flushThreads T malloc garbage rel ts b = Some b' \<and> shift_inv T E rel pb0 L0 C b' L' k'
    \<and> (\<forall>u < E - 1. held b' L' (rel u) u = held b L (rel u) u) \<and> (\<forall>t < E - 1. flushed T (t \<in> set ts) b k b' k' t)"
proof (induction ts arbitrary: b L k)
  case Nil
  then show ?case by (intro exI [where x = b] exI [where x = L] exI [where x = k]) (simp add: flushed_def)
next
  case (Cons t ts)
  note I = shift_invD [OF Cons.prems(1)]
  have ts: "distinct ts" "set ts \<subseteq> {..<E}" "t < E" "t \<notin> set ts" using Cons.prems(2,3) by auto
  show ?case
  proof (cases "T \<le> destFramesCounter b ! t")
    case False
    then have run: "flushThreads T malloc garbage rel (t # ts) b = flushThreads T malloc garbage rel ts b"
      by (simp add: flushThread_def)
    have sel: "flushed T (u \<in> set (t # ts)) b k b' k' u \<longleftrightarrow> flushed T (u \<in> set ts) b k b' k' u" for u b' k'
      using False by (auto simp: flushed_def)
    from Cons.prems(4) have "\<forall>t \<in> set ts. t < E - 1 \<and> T \<le> destFramesCounter b ! t \<longrightarrow> k t = T" by simp
    from Cons.IH [OF Cons.prems(1) ts(1,2) this] show ?thesis unfolding run sel .
  next
    case True
    have t: "t < E - 1"
    proof (rule ccontr)
      assume "\<not> t < E - 1"
      then have "t = E - 1" using ts(3) by simp
      then show False using I(8) True T by (auto simp: self_inv_def split: if_splits)
    qed
    obtain b1 L1 where f: "flushThread T malloc garbage (rel t) t b = Some b1" "shift_inv T E rel pb0 L0 C b1 L1 (k(t := 0))"
      "destFramesCounter b1 = (destFramesCounter b)[t := destFramesCounter b ! t - T]"
      "\<forall>u < E - 1. held b1 L1 (rel u) u = held b L (rel u) u"
      "\<forall>u. u \<noteq> t \<longrightarrow> destFrames b1 ! u = destFrames b ! u \<and> isNeighborFrame b1 ! u = isNeighborFrame b ! u"
      "destFrames b1 ! t \<noteq> 0 \<longleftrightarrow> destFramesCounter b1 ! t > 0" "\<not> isNeighborFrame b1 ! t"
      by (rule flushThread_correct [OF alloc inj T Cons.prems(1) t True]) (use Cons.prems(4) t True in auto)
    have run: "flushThreads T malloc garbage rel (t # ts) b = flushThreads T malloc garbage rel ts b1" using f(1) by simp
    have c1: "destFramesCounter b1 ! u = destFramesCounter b ! u" if "u \<noteq> t" for u using f(3) that by simp
    have "\<forall>u \<in> set ts. u < E - 1 \<and> T \<le> destFramesCounter b1 ! u \<longrightarrow> (k(t := 0)) u = T"
      using Cons.prems(4) c1 ts(4) by auto
    from Cons.IH [OF f(2) ts(1,2) this] obtain b' L' k' where ih: "flushThreads T malloc garbage rel ts b1 = Some b'"
      "shift_inv T E rel pb0 L0 C b' L' k'" "\<forall>u < E - 1. held b' L' (rel u) u = held b1 L1 (rel u) u"
      "\<forall>u < E - 1. flushed T (u \<in> set ts) b1 (k(t := 0)) b' k' u" by blast
    have "flushed T (u \<in> set (t # ts)) b k b' k' u" if u: "u < E - 1" for u
    proof (cases "u = t")
      case True
      have "k' t = 0 \<and> destFramesCounter b' ! t = destFramesCounter b1 ! t \<and> destFrames b' ! t = destFrames b1 ! t
          \<and> isNeighborFrame b' ! t = isNeighborFrame b1 ! t"
        using ih(4) [rule_format, OF t] ts(4) by (simp add: flushed_def)
      then show ?thesis using True \<open>T \<le> destFramesCounter b ! t\<close> f(3,6,7) I(4) t by (simp add: flushed_def)
    next
      case False
      then show ?thesis using ih(4) [rule_format, OF u] c1 [OF False] f(5) by (auto simp: flushed_def split: if_splits)
    qed
    then show ?thesis unfolding run using ih(1-3) f(4) by (intro exI [where x = b'] exI [where x = L'] exI [where x = k']) simp
  qed
qed

section \<open>Copying\<close>

text \<open>The frames that are filled belong to different directions and to no other list.\<close>

lemma dest_not_in_list:
  assumes inv: "shift_inv T E rel pb0 L0 C b L k" and inj: "inj_on rel {..<E}" and t: "t < E - 1" and j: "j \<noteq> rel t"
    and n: "destFrames b ! t \<noteq> 0"
  shows "destFrames b ! t \<notin> set (L j)"
proof (cases "isNeighborFrame b ! t")
  case True
  then obtain ys where "L (rel t) = ys @ [destFrames b ! t]" using shift_invD(6) [OF inv t] by (auto simp: dest_inv_def)
  then show ?thesis using box_rep_disjoint [OF shift_invD(1) [OF inv], of "rel t" j] j by auto
next
  case False
  then show ?thesis using shift_invD(6) [OF inv t] n by (auto simp: dest_inv_def free_frame_def)
qed

lemma shift_inv_copy:
  assumes inv: "shift_inv T E rel pb0 L0 C b L k" and inj: "inj_on rel {..<E}"
    and rep: "box_rep pb' L" "superCells pb' = superCells (shiftBox b)" "dom (frames pb') = dom (frames (shiftBox b))"
    and w: "\<forall>d < E - 1. destFrames b ! d \<noteq> 0 \<longrightarrow> content pb' (destFrames b ! d) = map_option (writeSlots (W d)) (content (shiftBox b) (destFrames b ! d))"
    and other: "\<forall>a. a \<notin> (\<lambda>d. destFrames b ! d) ` {..<E - 1} \<longrightarrow> content pb' a = content (shiftBox b) a"
    and W: "\<forall>d < E - 1. distinct (map fst (W d)) \<and> fst ` set (W d) = {k d..<k' d} \<and> k d \<le> k' d \<and> k' d \<le> T"
    and null: "\<forall>d < E - 1. destFrames b ! d = 0 \<longrightarrow> k' d = 0 \<and> W d = []"
  defines "b' \<equiv> b\<lparr>shiftBox := pb'\<rparr>"
  shows "shift_inv T E rel pb0 L0 C b' L k'" "\<forall>d < E - 1. held b' L (rel d) d = held b L (rel d) d + mset (map snd (W d))"
proof -
  note I = shift_invD [OF inv]
  have same: "content pb' a = content (shiftBox b) a" if "a \<in> set (L j)" "\<forall>d < E - 1. j \<noteq> rel d \<or> a \<noteq> destFrames b ! d" for a j
  proof -
    have "a \<noteq> destFrames b ! d" if d: "d < E - 1" for d
      using dest_not_in_list [OF inv inj d, of j] that list_not_null [OF I(1) \<open>a \<in> set (L j)\<close>]
        \<open>\<forall>d < E - 1. j \<noteq> rel d \<or> a \<noteq> destFrames b ! d\<close> \<open>a \<in> set (L j)\<close> by metis
    then show ?thesis using other by auto
  qed
  have rel: "rel d \<noteq> rel u" if "d < E" "u < E" "d \<noteq> u" for d u using inj that by (auto simp: inj_on_def)
  have ls: "content pb' a = content (shiftBox b) a" if "d < E - 1" "a \<in> set (L (rel d))" "a \<noteq> destFrames b ! d" for a d
    by (rule same [OF that(2)]) (metis that rel diff_le_self less_le_trans)
  have step: "dest_inv T (rel d) (L0 (rel d) \<noteq> []) b' L (k' d) d \<and> held b' L (rel d) d = held b L (rel d) d + mset (map snd (W d))"
    if d: "d < E - 1" for d
  proof (cases "destFrames b ! d = 0")
    case True
    have l: "\<And>a. a \<in> set (L (rel d)) \<Longrightarrow> content pb' a = content (shiftBox b) a"
      using ls [OF d] True list_not_null [OF I(1)] by metis
    have "\<not> isNeighborFrame b ! d"
      using I(6) [OF d] True list_not_null [OF I(1), of 0 "rel d"] by (auto simp: dest_inv_def)
    with I(6) [OF d] True null d l listParticles_cong [of "L (rel d)" pb' "shiftBox b", OF l] rep(2) show ?thesis
      by (auto simp: dest_inv_def b'_def held_def full_ok_def)
  next
    case False
    obtain s where s: "content (shiftBox b) (destFrames b ! d) = Some s" "length s = T" "front_packed (k d) s"
      using dest_inv_content [OF I(6) [OF d] False] by blast
    have wf: "front_packed (k' d) (writeSlots (W d) s)" "length (writeSlots (W d) s) = T"
      "particles (writeSlots (W d) s) = particles s + mset (map snd (W d))"
      using writeSlots_front [OF s(3), of "W d" "k' d"] W d s(2) by auto
    have c: "content pb' (destFrames b ! d) = Some (writeSlots (W d) s)" using w d False s(1) by simp
    show ?thesis
    proof (cases "isNeighborFrame b ! d")
      case True
      then obtain ys where ys: "L (rel d) = ys @ [destFrames b ! d]" "\<forall>a \<in> set ys. full_ok T (shiftBox b) a"
        "sizeLastFrame (superCells (shiftBox b) (rel d)) \<le> k d" "L0 (rel d) \<noteq> []" using I(6) [OF d] by (auto simp: dest_inv_def)
      have "destFrames b ! d \<notin> set ys" using box_rep_distinct [OF I(1), of "rel d"] ys(1) by auto
      then have cy: "\<And>a. a \<in> set ys \<Longrightarrow> content pb' a = content (shiftBox b) a" using ls [OF d] ys(1) by auto
      have "dest_inv T (rel d) (L0 (rel d) \<noteq> []) b' L (k' d) d"
        using True False ys cy c wf W d rep(2) by (fastforce simp: dest_inv_def b'_def full_ok_def)
      moreover have "held b' L (rel d) d = held b L (rel d) d + mset (map snd (W d))"
        using True ys(1) c s(1) wf(3) listParticles_cong [of ys pb' "shiftBox b", OF cy]
        by (simp add: held_def b'_def frameParticles_content)
      ultimately show ?thesis ..
    next
      case nn: False
      then have fr: "free_frame (shiftBox b) L (destFrames b ! d)" and l: "\<forall>a \<in> set (L (rel d)). full_ok T (shiftBox b) a"
        "L0 (rel d) \<noteq> [] \<longrightarrow> L (rel d) \<noteq> [] \<and> sizeLastFrame (superCells (shiftBox b) (rel d)) = T"
        "L0 (rel d) = [] \<longrightarrow> sizeLastFrame (superCells (shiftBox b) (rel d)) = 0"
        using I(6) [OF d] False by (auto simp: dest_inv_def)
      have cy: "\<And>a. a \<in> set (L (rel d)) \<Longrightarrow> content pb' a = content (shiftBox b) a"
        using ls [OF d] fr unfolding free_frame_def by metis
      have "dest_inv T (rel d) (L0 (rel d) \<noteq> []) b' L (k' d) d"
        using False nn l cy c wf rep(2,3) fr by (auto simp: dest_inv_def b'_def full_ok_def free_frame_def)
      moreover have "held b' L (rel d) d = held b L (rel d) d + mset (map snd (W d))"
        using False nn c s(1) wf(3) listParticles_cong [of "L (rel d)" pb' "shiftBox b", OF cy]
        by (simp add: held_def b'_def frameParticles_content)
      ultimately show ?thesis ..
    qed
  qed
  show "shift_inv T E rel pb0 L0 C b' L k'"
    unfolding shift_inv_def
  proof (intro conjI allI impI)
    show "box_rep (shiftBox b') L" "finite (dom (frames (shiftBox b')))" using rep I(2) by (simp_all add: b'_def)
    show "length (destFrames b') = E" "length (destFramesCounter b') = E" "length (isNeighborFrame b') = E"
      using I(3-5) by (simp_all add: b'_def)
    show "dest_inv T (rel t) (L0 (rel t) \<noteq> []) b' L (k' t) t" if "t < E - 1" for t using step that by blast
    show "destFrames b' ! t \<noteq> destFrames b' ! u" if "t < E" "u < E" "t \<noteq> u" "destFrames b' ! t \<noteq> 0" for t u
      using I(7) that by (simp add: b'_def)
    show "self_inv T (E - 1) (L (rel (E - 1))) b'" using I(8) by (simp add: b'_def self_inv_def)
    show "L (rel (E - 1)) = L0 (rel (E - 1))" by (rule I(9))
    show "\<forall>a \<in> set (L0 (rel (E - 1))). content (shiftBox b') a = C a"
      using same [of _ "rel (E - 1)"] I(9,10) rel [of "E - 1"] by (simp add: b'_def)
    fix j assume j: "\<forall>t < E. j \<noteq> rel t"
    show "L j = L0 j" by (rule I(11) [OF j])
    show "sizeLastFrame (superCells (shiftBox b') j) = sizeLastFrame (superCells pb0 j)" using I(12) [OF j] rep(2) by (simp add: b'_def)
    show "\<forall>a \<in> set (L0 j). content (shiftBox b') a = content pb0 a"
      using same [of _ j] I(11,13) [OF j] j by (simp add: b'_def)
  qed
  show "\<forall>d < E - 1. held b' L (rel d) d = held b L (rel d) d + mset (map snd (W d))" using step by blast
qed

text \<open>All threads copy: what they wrote is at the front of the frames they wrote to.\<close>

lemma copy_phase:
  fixes A :: "'p slot list"
  defines "dir \<equiv> \<lambda>t. slotDirection (A ! t)"
  assumes inv: "shift_inv T E rel pb0 L0 C b L k" and inj: "inj_on rel {..<E}"
    and o: "thread_order T order" and d: "drawn dir counter order r" "length counter = E"
    and dirs: "\<forall>t < T. dir t < int (E - 1)" "\<forall>t. dir t < 0 \<longrightarrow> r t = None"
    and off: "\<And>i. sel i \<Longrightarrow> off \<le> i"
  defines "nums \<equiv> \<lambda>d. {i. counter ! d \<le> i \<and> i < counter ! d + length (heading dir d order) \<and> sel i}"
  assumes ready: "\<forall>d < E - 1. \<forall>i \<in> nums d. destFrames b ! d \<noteq> 0 \<and> i - off < T"
    and slots: "\<forall>d < E - 1. (\<lambda>i. i - off) ` nums d = {k d..<k' d} \<and> k d \<le> k' d \<and> k' d \<le> T"
  shows "\<exists>pb'. copyThreads T sel off (destFrames b) r A [0..<T] (shiftBox b) = Some pb'
    \<and> shift_inv T E rel pb0 L0 C (b\<lparr>shiftBox := pb'\<rparr>) L k'
    \<and> (\<forall>d < E - 1. held (b\<lparr>shiftBox := pb'\<rparr>) L (rel d) d = held b L (rel d) d + mset (map snd (writes sel off r A d [0..<T])))"
proof -
  note I = shift_invD [OF inv]
  let ?W = "\<lambda>d. writes sel off r A d [0..<T]"
  have w: "distinct (map fst (?W d))" "fst ` set (?W d) = (\<lambda>i. i - off) ` nums d" if "d < E - 1" for d
    using writes_slots [OF o d(1) [unfolded dir_def], of d sel off] off that d(2) unfolding nums_def dir_def by auto
  have num: "i \<in> nums (nat (dir t)) \<and> nat (dir t) < E - 1 \<and> 0 \<le> dir t" if t: "t < T" "r t = Some i" "sel i" for t i
  proof -
    have nn: "0 \<le> dir t" using dirs(2) t(2) by (metis option.distinct(1) not_le)
    have dE: "nat (dir t) < E - 1" using dirs(1) t(1) nn by auto
    have b: "(\<lambda>t. the (r t)) ` {u. u < T \<and> dir u = int (nat (dir t))} = {counter ! nat (dir t)..<counter ! nat (dir t) + length (heading dir (nat (dir t)) order)}"
      by (rule bij_betw_imp_surj_on [OF drawn_bij(1) [OF o d(1)]]) (use dE d(2) in simp)
    have "the (r t) \<in> (\<lambda>t. the (r t)) ` {u. u < T \<and> dir u = int (nat (dir t))}" using t nn by (intro imageI) simp
    then show ?thesis unfolding b using t dE nn by (simp add: nums_def)
  qed
  have pre: "\<forall>t \<in> set [0..<T]. \<forall>i. r t = Some i \<and> sel i \<longrightarrow> i - off < T \<and> 0 \<le> slotDirection (A ! t) \<and> slotDirection (A ! t) < int (E - 1)
       \<and> destFrames b ! nat (slotDirection (A ! t)) \<noteq> 0 \<and> content (shiftBox b) (destFrames b ! nat (slotDirection (A ! t))) \<noteq> None"
  proof (intro ballI allI impI)
    fix t i assume t: "t \<in> set [0..<T]" "r t = Some i \<and> sel i"
    then have n: "i \<in> nums (nat (dir t))" "nat (dir t) < E - 1" "0 \<le> dir t" using num [of t i] by auto
    have "content (shiftBox b) (destFrames b ! nat (dir t)) \<noteq> None"
      using dest_inv_content [OF I(6) [OF n(2)]] ready n by fastforce
    then show "i - off < T \<and> 0 \<le> slotDirection (A ! t) \<and> slotDirection (A ! t) < int (E - 1)
       \<and> destFrames b ! nat (slotDirection (A ! t)) \<noteq> 0 \<and> content (shiftBox b) (destFrames b ! nat (slotDirection (A ! t))) \<noteq> None"
      using ready n dirs(1) t unfolding dir_def by auto
  qed
  have dist: "\<forall>d < E - 1. \<forall>e < E - 1. d \<noteq> e \<longrightarrow> destFrames b ! d \<noteq> 0 \<longrightarrow> destFrames b ! d \<noteq> destFrames b ! e"
    using I(7) by simp
  from copyThreads_correct [OF I(1) dist pre] obtain pb' where c:
    "copyThreads T sel off (destFrames b) r A [0..<T] (shiftBox b) = Some pb'" "box_rep pb' L" "superCells pb' = superCells (shiftBox b)"
    "dom (frames pb') = dom (frames (shiftBox b))"
    "\<forall>d < E - 1. destFrames b ! d \<noteq> 0 \<longrightarrow> content pb' (destFrames b ! d) = map_option (writeSlots (?W d)) (content (shiftBox b) (destFrames b ! d))"
    "\<forall>a. a \<notin> (\<lambda>d. destFrames b ! d) ` {..<E - 1} \<longrightarrow> content pb' a = content (shiftBox b) a" by blast
  have W: "\<forall>d < E - 1. distinct (map fst (?W d)) \<and> fst ` set (?W d) = {k d..<k' d} \<and> k d \<le> k' d \<and> k' d \<le> T"
    using w slots by simp
  have null: "\<forall>d < E - 1. destFrames b ! d = 0 \<longrightarrow> k' d = 0 \<and> ?W d = []"
  proof (intro allI impI)
    fix d assume d: "d < E - 1" "destFrames b ! d = 0"
    then have e: "nums d = {}" using ready by blast
    have "k d = 0" using I(6) [OF d(1)] d(2) by (simp add: dest_inv_def)
    with e slots d(1) w(2) [OF d(1)] show "k' d = 0 \<and> ?W d = []" by auto
  qed
  from shift_inv_copy [OF inv inj c(2-6) W null] c(1) show ?thesis by blast
qed

section \<open>One frame of the source\<close>

text \<open>The counters after the particles of a frame were moved, and after all frames of a list.\<close>

definition stepCounters :: "nat \<Rightarrow> nat \<Rightarrow> 'p slot list \<Rightarrow> (nat \<Rightarrow> nat) \<Rightarrow> nat \<Rightarrow> nat" where
  "stepCounters T n A c d =
     (let c' = c d + size (shifted A d)
      in if (\<exists>e < n. T < c e + size (shifted A e)) \<and> T \<le> c' then c' - T else c')"

fun countersAfter :: "nat \<Rightarrow> nat \<Rightarrow> 'p slot list list \<Rightarrow> (nat \<Rightarrow> nat) \<Rightarrow> nat \<Rightarrow> nat" where
  "countersAfter T n [] c = c"
| "countersAfter T n (A # As) c = countersAfter T n As (stepCounters T n A c)"

lemma stepCounters_cong: "(\<And>d. d < n \<Longrightarrow> c d = c' d) \<Longrightarrow> d < n \<Longrightarrow> stepCounters T n A c d = stepCounters T n A c' d"
  by (auto simp: stepCounters_def Let_def)

lemma countersAfter_cong: "(\<And>d. d < n \<Longrightarrow> c d = c' d) \<Longrightarrow> d < n \<Longrightarrow> countersAfter T n As c d = countersAfter T n As c' d"
proof (induction As arbitrary: c c')
  case (Cons A As)
  show ?case using Cons.IH [of "stepCounters T n A c" "stepCounters T n A c'"] Cons.prems stepCounters_cong [of n c c' _ T A] by simp
qed simp

lemma length_heading_shifted:
  assumes "thread_order T order" "length A = T"
  shows "length (heading (\<lambda>t. slotDirection (A ! t)) d order) = size (shifted A d)"
  unfolding heading_def length_filter_order [OF assms(1)] shifted_threads [OF assms(2)] size_mset length_map
  by (rule length_filter_order [OF thread_order_upt, symmetric])

text \<open>Clearing the masks of a frame of the supercell.\<close>

lemma shift_inv_own:
  assumes inv: "shift_inv T E rel pb0 L0 C b L k" and inj: "inj_on rel {..<E}" and E: "0 < E"
    and f: "f \<in> set (L0 (rel (E - 1)))"
    and pb': "box_rep pb' L" "content pb' = (content (shiftBox b))(f \<mapsto> A)" "superCells pb' = superCells (shiftBox b)"
    and cnt: "length cnt = E" "cnt ! (E - 1) = destFramesCounter b ! (E - 1)"
  defines "b' \<equiv> b\<lparr>shiftBox := pb', destFramesCounter := cnt\<rparr>"
  shows "shift_inv T E rel pb0 L0 (C(f \<mapsto> A)) b' L k" "\<forall>d < E - 1. held b' L (rel d) d = held b L (rel d) d"
proof -
  note I = shift_invD [OF inv]
  have fL: "f \<in> set (L (rel (E - 1)))" using f I(9) by simp
  have fh: "content (shiftBox b) f \<noteq> None" using content_in_list [OF I(1) fL] by auto
  have dom: "dom (frames pb') = dom (frames (shiftBox b))"
    using pb'(2) fh by (auto simp: set_eq_iff dom_content split: if_splits)
  have rel: "rel d \<noteq> rel (E - 1)" if d: "d < E - 1" for d
  proof -
    have "d < E" "E - 1 < E" "d \<noteq> E - 1" using d by simp_all
    then show ?thesis using inj unfolding inj_on_def by blast
  qed
  have cl: "content pb' a = content (shiftBox b) a" if "a \<in> set (L j)" "j \<noteq> rel (E - 1)" for a j
    using box_rep_disjoint [OF I(1) that(2) that(1)] fL pb'(2) by auto
  have cd: "content pb' (destFrames b ! d) = content (shiftBox b) (destFrames b ! d)" if "d < E - 1" "destFrames b ! d \<noteq> 0" for d
    using dest_not_in_list [OF inv inj that(1) _ that(2), of "rel (E - 1)"] rel [OF that(1)] fL pb'(2) by auto
  have fr: "free_frame pb' L a = free_frame (shiftBox b) L a" for a by (simp add: free_frame_def dom)
  have ok: "full_ok T pb' a = full_ok T (shiftBox b) a" if "a \<in> set (L (rel d))" "d < E - 1" for a d
    using cl [OF that(1) rel [OF that(2)]] by (simp add: full_ok_def)
  have step: "dest_inv T (rel d) z b' L (k d) d \<longleftrightarrow> dest_inv T (rel d) z b L (k d) d" if d: "d < E - 1" for d z
    using cd [OF d] ok [OF _ d] fr unfolding dest_inv_def b'_def by (auto simp: pb'(3))
  show "shift_inv T E rel pb0 L0 (C(f \<mapsto> A)) b' L k"
    unfolding shift_inv_def
  proof (intro conjI allI impI)
    show "box_rep (shiftBox b') L" "finite (dom (frames (shiftBox b')))" using pb'(1) dom I(2) by (simp_all add: b'_def)
    show "length (destFrames b') = E" "length (destFramesCounter b') = E" "length (isNeighborFrame b') = E"
      using I(3-5) cnt by (simp_all add: b'_def)
    show "dest_inv T (rel t) (L0 (rel t) \<noteq> []) b' L (k t) t" if "t < E - 1" for t using step I(6) that by simp
    show "destFrames b' ! t \<noteq> destFrames b' ! u" if "t < E" "u < E" "t \<noteq> u" "destFrames b' ! t \<noteq> 0" for t u
      using I(7) that by (simp add: b'_def)
    show "self_inv T (E - 1) (L (rel (E - 1))) b'" using I(8) cnt(2) by (simp add: b'_def self_inv_def)
    show "L (rel (E - 1)) = L0 (rel (E - 1))" by (rule I(9))
    show "\<forall>a \<in> set (L0 (rel (E - 1))). content (shiftBox b') a = (C(f \<mapsto> A)) a" using I(10) pb'(2) by (simp add: b'_def)
    fix j assume j: "\<forall>t < E. j \<noteq> rel t"
    show "L j = L0 j" by (rule I(11) [OF j])
    show "sizeLastFrame (superCells (shiftBox b') j) = sizeLastFrame (superCells pb0 j)" using I(12) [OF j] pb'(3) by (simp add: b'_def)
    have "j \<noteq> rel (E - 1)" using j E by simp
    then show "\<forall>a \<in> set (L0 j). content (shiftBox b') a = content pb0 a"
      using cl [of _ j] I(11,13) [OF j] by (simp add: b'_def)
  qed
  show "\<forall>d < E - 1. held b' L (rel d) d = held b L (rel d) d"
  proof (intro allI impI)
    fix d assume d: "d < E - 1"
    have "listParticles pb' (L (rel d)) = listParticles (shiftBox b) (L (rel d))"
      by (rule listParticles_cong) (rule cl [OF _ rel [OF d]])
    then show "held b' L (rel d) d = held b L (rel d) d" using cd [OF d] by (auto simp: held_def b'_def frameParticles_def)
  qed
qed

text \<open>Between two frames the number of particles in a destination is its counter.\<close>

definition loop_inv ::
  "nat \<Rightarrow> nat \<Rightarrow> (nat \<Rightarrow> DataSpace) \<Rightarrow> 'p ParticlesBox \<Rightarrow> (DataSpace \<Rightarrow> addr list) \<Rightarrow> (addr \<rightharpoonup> 'p slot list) \<Rightarrow>
   'p ShiftBlock \<Rightarrow> (DataSpace \<Rightarrow> addr list) \<Rightarrow> bool" where
  "loop_inv T E rel pb0 L0 C b L \<longleftrightarrow> shift_inv T E rel pb0 L0 C b L (\<lambda>t. destFramesCounter b ! t)
     \<and> (\<forall>t < E - 1. destFrames b ! t \<noteq> 0 \<and> \<not> isNeighborFrame b ! t \<longrightarrow> 0 < destFramesCounter b ! t)"

lemma shift_inv_bound:
  assumes "shift_inv T E rel pb0 L0 C b L k" "t < E - 1"
  shows "k t \<le> T"
  using shift_invD(6) [OF assms] by (cases "destFrames b ! t = 0") (auto simp: dest_inv_def front_packed_def)

text \<open>No destination overflows: all particles of a frame find a slot in the open frames.\<close>

lemma copy_no_flush:
  fixes A :: "'p slot list"
  defines "dir \<equiv> \<lambda>t. slotDirection (A ! t)"
  assumes inv: "shift_inv T E rel pb0 L0 C b L (\<lambda>t. cnt ! t)" and inj: "inj_on rel {..<E}" and o: "thread_order T order" and A: "length A = T"
    and d: "drawn dir cnt order r" "length cnt = E" and dirs: "\<forall>t < T. dir t < int (E - 1)" "\<forall>t. dir t < 0 \<longrightarrow> r t = None"
    and cnt': "\<forall>d < E - 1. destFramesCounter b ! d = cnt ! d + length (heading dir d order) \<and> destFramesCounter b ! d \<le> T"
    and dest: "\<forall>d < E - 1. 0 < destFramesCounter b ! d \<longrightarrow> destFrames b ! d \<noteq> 0"
  shows "\<exists>pb'. copyThreads T (\<lambda>i. True) 0 (destFrames b) r A [0..<T] (shiftBox b) = Some pb'
    \<and> shift_inv T E rel pb0 L0 C (b\<lparr>shiftBox := pb'\<rparr>) L (\<lambda>t. destFramesCounter b ! t)
    \<and> (\<forall>d < E - 1. held (b\<lparr>shiftBox := pb'\<rparr>) L (rel d) d = held b L (rel d) d + shifted A d)"
proof -
  have "\<exists>pb'. copyThreads T (\<lambda>i. True) 0 (destFrames b) r A [0..<T] (shiftBox b) = Some pb'
    \<and> shift_inv T E rel pb0 L0 C (b\<lparr>shiftBox := pb'\<rparr>) L (\<lambda>t. destFramesCounter b ! t)
    \<and> (\<forall>d < E - 1. held (b\<lparr>shiftBox := pb'\<rparr>) L (rel d) d = held b L (rel d) d + mset (map snd (writes (\<lambda>i. True) 0 r A d [0..<T])))"
  proof (rule copy_phase [OF inv inj o d [unfolded dir_def] dirs [unfolded dir_def]])
    show "\<forall>d < E - 1. \<forall>i \<in> {i. cnt ! d \<le> i \<and> i < cnt ! d + length (heading (\<lambda>t. slotDirection (A ! t)) d order) \<and> True}.
        destFrames b ! d \<noteq> 0 \<and> i - 0 < T"
      using cnt' dest unfolding dir_def by fastforce
    show "\<forall>d < E - 1. (\<lambda>i. i - 0) ` {i. cnt ! d \<le> i \<and> i < cnt ! d + length (heading (\<lambda>t. slotDirection (A ! t)) d order) \<and> True}
        = {cnt ! d..<destFramesCounter b ! d} \<and> cnt ! d \<le> destFramesCounter b ! d \<and> destFramesCounter b ! d \<le> T"
      using cnt' unfolding dir_def by auto
  qed simp
  moreover have "mset (map snd (writes (\<lambda>i. True) 0 r A d [0..<T])) = shifted A d" if "d < E - 1" for d
    using writes_particles [OF o d(1) [unfolded dir_def] _ A, of d "\<lambda>i. True" "\<lambda>i. False" 0 0] that d(2)
    by (simp add: writes_def)
  ultimately show ?thesis by auto
qed

text \<open>A destination overflows: first the open frames are filled, then they are flushed, then the rest is copied.\<close>

lemma copy_with_flush:
  fixes A :: "'p slot list"
  defines "dir \<equiv> \<lambda>t. slotDirection (A ! t)"
  assumes alloc: "good_allocator T malloc garbage" and T: "0 < T"
    and inv: "shift_inv T E rel pb0 L0 C b L (\<lambda>t. cnt ! t)" and inj: "inj_on rel {..<E}" and o: "thread_order T order" and A: "length A = T"
    and d: "drawn dir cnt order r" "length cnt = E" and dirs: "\<forall>t < T. dir t < int (E - 1)" "\<forall>t. dir t < 0 \<longrightarrow> r t = None"
    and cnt': "\<forall>d < E - 1. destFramesCounter b ! d = cnt ! d + length (heading dir d order) \<and> destFramesCounter b ! d \<le> 2 * T"
    and dest: "\<forall>d < E - 1. 0 < destFramesCounter b ! d \<longrightarrow> destFrames b ! d \<noteq> 0"
    and opened: "\<forall>t < E - 1. destFrames b ! t \<noteq> 0 \<and> \<not> isNeighborFrame b ! t \<longrightarrow> 0 < destFramesCounter b ! t"
  shows "\<exists>pb1 b2 pb2 L'. copyThreads T (\<lambda>i. i < T) 0 (destFrames b) r A [0..<T] (shiftBox b) = Some pb1
    \<and> flushThreads T malloc garbage rel [0..<E] (b\<lparr>shiftBox := pb1\<rparr>) = Some b2
    \<and> copyThreads T (\<lambda>i. T \<le> i) T (destFrames b2) r A [0..<T] (shiftBox b2) = Some pb2
    \<and> loop_inv T E rel pb0 L0 C (b2\<lparr>shiftBox := pb2\<rparr>) L'
    \<and> (\<forall>d < E - 1. held (b2\<lparr>shiftBox := pb2\<rparr>) L' (rel d) d = held b L (rel d) d + shifted A d)
    \<and> (\<forall>d < E - 1. destFramesCounter b2 ! d = (if T \<le> destFramesCounter b ! d then destFramesCounter b ! d - T else destFramesCounter b ! d))"
proof -
  let ?c = "\<lambda>d. destFramesCounter b ! d"
  have le: "cnt ! d \<le> T" if "d < E - 1" for d using shift_inv_bound [OF inv that] .
  have "\<exists>pb'. copyThreads T (\<lambda>i. i < T) 0 (destFrames b) r A [0..<T] (shiftBox b) = Some pb'
    \<and> shift_inv T E rel pb0 L0 C (b\<lparr>shiftBox := pb'\<rparr>) L (\<lambda>t. min T (?c t))
    \<and> (\<forall>d < E - 1. held (b\<lparr>shiftBox := pb'\<rparr>) L (rel d) d = held b L (rel d) d + mset (map snd (writes (\<lambda>i. i < T) 0 r A d [0..<T])))"
  proof (rule copy_phase [OF inv inj o d [unfolded dir_def] dirs [unfolded dir_def]])
    show "\<forall>d < E - 1. \<forall>i \<in> {i. cnt ! d \<le> i \<and> i < cnt ! d + length (heading (\<lambda>t. slotDirection (A ! t)) d order) \<and> i < T}.
        destFrames b ! d \<noteq> 0 \<and> i - 0 < T"
      using cnt' dest unfolding dir_def by fastforce
    show "\<forall>d < E - 1. (\<lambda>i. i - 0) ` {i. cnt ! d \<le> i \<and> i < cnt ! d + length (heading (\<lambda>t. slotDirection (A ! t)) d order) \<and> i < T}
        = {cnt ! d..<min T (?c d)} \<and> cnt ! d \<le> min T (?c d) \<and> min T (?c d) \<le> T"
      using cnt' le unfolding dir_def by auto
  qed simp
  then obtain pb1 where p1: "copyThreads T (\<lambda>i. i < T) 0 (destFrames b) r A [0..<T] (shiftBox b) = Some pb1"
    "shift_inv T E rel pb0 L0 C (b\<lparr>shiftBox := pb1\<rparr>) L (\<lambda>t. min T (?c t))"
    "\<forall>d < E - 1. held (b\<lparr>shiftBox := pb1\<rparr>) L (rel d) d = held b L (rel d) d + mset (map snd (writes (\<lambda>i. i < T) 0 r A d [0..<T]))"
    by blast
  have "\<forall>t \<in> set [0..<E]. t < E - 1 \<and> T \<le> destFramesCounter (b\<lparr>shiftBox := pb1\<rparr>) ! t \<longrightarrow> min T (?c t) = T" by simp
  moreover have "set [0..<E] \<subseteq> {..<E}" by auto
  ultimately obtain b2 L' k2 where f:
    "flushThreads T malloc garbage rel [0..<E] (b\<lparr>shiftBox := pb1\<rparr>) = Some b2" "shift_inv T E rel pb0 L0 C b2 L' k2"
    "\<forall>u < E - 1. held b2 L' (rel u) u = held (b\<lparr>shiftBox := pb1\<rparr>) L (rel u) u"
    "\<forall>t < E - 1. flushed T (t \<in> set [0..<E]) (b\<lparr>shiftBox := pb1\<rparr>) (\<lambda>t. min T (?c t)) b2 k2 t"
    using flushThreads_correct [OF alloc inj T p1(2) distinct_upt] by blast
  have fl: "if T \<le> ?c t
      then k2 t = 0 \<and> destFramesCounter b2 ! t = ?c t - T \<and> (destFrames b2 ! t \<noteq> 0 \<longleftrightarrow> T < ?c t) \<and> \<not> isNeighborFrame b2 ! t
      else k2 t = ?c t \<and> destFramesCounter b2 ! t = ?c t \<and> destFrames b2 ! t = destFrames b ! t \<and> isNeighborFrame b2 ! t = isNeighborFrame b ! t"
    if "t < E - 1" for t using f(4) [rule_format, OF that] that by (auto simp: flushed_def split: if_splits)
  have "\<exists>pb'. copyThreads T (\<lambda>i. T \<le> i) T (destFrames b2) r A [0..<T] (shiftBox b2) = Some pb'
    \<and> shift_inv T E rel pb0 L0 C (b2\<lparr>shiftBox := pb'\<rparr>) L' (\<lambda>t. destFramesCounter b2 ! t)
    \<and> (\<forall>d < E - 1. held (b2\<lparr>shiftBox := pb'\<rparr>) L' (rel d) d = held b2 L' (rel d) d + mset (map snd (writes (\<lambda>i. T \<le> i) T r A d [0..<T])))"
  proof (rule copy_phase [OF f(2) inj o d [unfolded dir_def] dirs [unfolded dir_def]])
    show "\<forall>d < E - 1. \<forall>i \<in> {i. cnt ! d \<le> i \<and> i < cnt ! d + length (heading (\<lambda>t. slotDirection (A ! t)) d order) \<and> T \<le> i}.
        destFrames b2 ! d \<noteq> 0 \<and> i - T < T"
    proof (intro allI impI ballI)
      fix d i assume d: "d < E - 1" "i \<in> {i. cnt ! d \<le> i \<and> i < cnt ! d + length (heading (\<lambda>t. slotDirection (A ! t)) d order) \<and> T \<le> i}"
      then have "T < ?c d" "i - T < T" using cnt' unfolding dir_def by fastforce+
      with fl [OF d(1)] show "destFrames b2 ! d \<noteq> 0 \<and> i - T < T" by simp
    qed
    show "\<forall>d < E - 1. (\<lambda>i. i - T) ` {i. cnt ! d \<le> i \<and> i < cnt ! d + length (heading (\<lambda>t. slotDirection (A ! t)) d order) \<and> T \<le> i}
        = {k2 d..<destFramesCounter b2 ! d} \<and> k2 d \<le> destFramesCounter b2 ! d \<and> destFramesCounter b2 ! d \<le> T"
    proof (intro allI impI)
      fix d assume d: "d < E - 1"
      let ?S = "{i. cnt ! d \<le> i \<and> i < cnt ! d + length (heading (\<lambda>t. slotDirection (A ! t)) d order) \<and> T \<le> i}"
      have S: "?S = {T..<?c d}" using cnt' [rule_format, OF d] le [OF d] unfolding dir_def by auto
      have "(\<lambda>i. i - T) ` {T..<?c d} = {0..<?c d - T}"
      proof (intro equalityI subsetI)
        fix x assume "x \<in> {0..<?c d - T}"
        then show "x \<in> (\<lambda>i. i - T) ` {T..<?c d}" by (intro image_eqI [where x = "x + T"]) auto
      qed auto
      with fl [OF d] cnt' [rule_format, OF d] show "(\<lambda>i. i - T) ` ?S = {k2 d..<destFramesCounter b2 ! d}
          \<and> k2 d \<le> destFramesCounter b2 ! d \<and> destFramesCounter b2 ! d \<le> T"
        unfolding S by (auto split: if_splits)
    qed
  qed
  then obtain pb2 where p2: "copyThreads T (\<lambda>i. T \<le> i) T (destFrames b2) r A [0..<T] (shiftBox b2) = Some pb2"
    "shift_inv T E rel pb0 L0 C (b2\<lparr>shiftBox := pb2\<rparr>) L' (\<lambda>t. destFramesCounter b2 ! t)"
    "\<forall>d < E - 1. held (b2\<lparr>shiftBox := pb2\<rparr>) L' (rel d) d = held b2 L' (rel d) d + mset (map snd (writes (\<lambda>i. T \<le> i) T r A d [0..<T]))"
    by blast
  have "held (b2\<lparr>shiftBox := pb2\<rparr>) L' (rel d) d = held b L (rel d) d + shifted A d" if dE: "d < E - 1" for d
  proof -
    have "d < length cnt" using dE d(2) by simp
    from writes_particles [OF o d(1) [unfolded dir_def] this A, of "\<lambda>i. i < T" "\<lambda>i. T \<le> i" 0 T, OF not_le [symmetric]]
    show ?thesis using p2(3) f(3) p1(3) dE by (simp add: add.assoc)
  qed
  moreover have "0 < destFramesCounter b2 ! t" if "t < E - 1" "destFrames b2 ! t \<noteq> 0" "\<not> isNeighborFrame b2 ! t" for t
    using fl [OF that(1)] opened that by (auto split: if_splits)
  then have "loop_inv T E rel pb0 L0 C (b2\<lparr>shiftBox := pb2\<rparr>) L'" unfolding loop_inv_def using p2(2) by simp
  moreover have "\<forall>d < E - 1. destFramesCounter b2 ! d = (if T \<le> ?c d then ?c d - T else ?c d)" using fl by (auto split: if_splits)
  ultimately show ?thesis using p1(1) f(1) p2(1) by blast
qed

text \<open>The particles of one frame are moved to the neighbours.\<close>

lemma shiftFrame_correct:
  fixes A :: "'p slot list" and Dim :: nat and idx :: DataSpace
  defines "E \<equiv> NumberOfExchanges Dim" and "rel \<equiv> relativeCell Dim idx"
  assumes alloc: "good_allocator T malloc garbage" and T: "0 < T" "T \<le> 2 ^ 15" and E: "0 < E" and inj: "inj_on rel {..<E}"
    and inv: "loop_inv T E rel pb0 L0 C b L" and f: "f \<in> set (L0 (rel (E - 1)))" "C f = Some A" "length A = T"
    and dirs: "\<forall>s \<in> set A. slotDirection s < int (E - 1)" and o: "thread_order T order"
  obtains b' L' where "shiftFrame T Dim malloc garbage idx order f b = Some b'"
    "loop_inv T E rel pb0 L0 (C(f \<mapsto> clearShifted A)) b' L'"
    "\<forall>d < E - 1. held b' L' (rel d) d = held b L (rel d) d + shifted A d"
    "\<forall>d < E - 1. destFramesCounter b' ! d = stepCounters T (E - 1) A (\<lambda>d. destFramesCounter b ! d) d"
proof -
  let ?dir = "\<lambda>t. slotDirection (A ! t)"
  have inv0: "shift_inv T E rel pb0 L0 C b L (\<lambda>t. destFramesCounter b ! t)"
    and op0: "\<forall>t < E - 1. destFrames b ! t \<noteq> 0 \<and> \<not> isNeighborFrame b ! t \<longrightarrow> 0 < destFramesCounter b ! t"
    using inv by (simp_all add: loop_inv_def)
  note I = shift_invD [OF inv0]
  have cf: "content (shiftBox b) f = Some A" using I(10) [OF f(1)] f(2) by simp
  have dirs': "\<forall>t < T. ?dir t < int (E - 1)" using dirs f(3) by auto
  have ol: "length order = T" "set order = {..<T}" "distinct order"
    using o distinct_card [of order] by (simp_all add: thread_order_def)
  have le: "destFramesCounter b ! d \<le> T" if "d < E" for d
  proof (cases "d = E - 1")
    case True
    then show ?thesis using I(8) by (auto simp: self_inv_def split: if_splits)
  next
    case False
    then show ?thesis using shift_inv_bound [OF inv0, of d] that by simp
  qed
  have q1: "\<forall>t \<in> set order. ?dir t < int (length (destFramesCounter b))" using dirs' ol(2) I(4) by fastforce
  have q2: "\<forall>d < length (destFramesCounter b). destFramesCounter b ! d + length order \<le> 2 ^ 16"
    using le I(4) T(2) ol(1) by fastforce
  obtain cnt r anyFull where dr: "drawNumbers T ?dir order (destFramesCounter b, Map.empty, False) = Some (cnt, r, anyFull)"
    "length cnt = E" "\<forall>d < E. cnt ! d = destFramesCounter b ! d + length (heading ?dir d order)"
    "drawn ?dir (destFramesCounter b) order r" "\<forall>t. t \<notin> set order \<or> ?dir t < 0 \<longrightarrow> r t = None"
    "anyFull \<longleftrightarrow> (\<exists>t \<in> set order. ?dir t \<ge> 0 \<and> the (r t) \<ge> T)"
    using drawNumbers_correct [OF ol(3) q1 q2, of Map.empty T False] I(4) by auto
  have nobody: "heading ?dir (E - 1) order = []"
    using dirs' ol(2) unfolding heading_def by (intro filter_False) fastforce
  obtain pb1 where m: "modifyFrame f (setSlots (clearShifted A)) (shiftBox b) = Some pb1" "box_rep pb1 L"
    "content pb1 = (content (shiftBox b))(f \<mapsto> clearShifted A)" "superCells pb1 = superCells (shiftBox b)"
    using modifyFrame_setSlots [OF I(1) cf] by blast
  let ?b1 = "b\<lparr>shiftBox := pb1, destFramesCounter := cnt\<rparr>"
  have cE: "cnt ! (E - 1) = destFramesCounter b ! (E - 1)" using dr(3) E nobody by simp
  note own = shift_inv_own [OF inv0 inj E f(1) m(2-4) dr(2) cE]
  obtain b2 where b2: "allocDest malloc garbage [0..<E] ?b1 = b2" by simp
  have "set [0..<E] \<subseteq> {..<E}" by auto
  note al = allocDest_correct [OF alloc inj own(1) this b2]
  have inv2: "shift_inv T E rel pb0 L0 (C(f \<mapsto> clearShifted A)) b2 L (\<lambda>t. destFramesCounter b ! t)" and c2: "destFramesCounter b2 = cnt"
    and n2: "isNeighborFrame b2 = isNeighborFrame b" and h2: "\<forall>d < E - 1. held b2 L (rel d) d = held b L (rel d) d"
    and dest2: "\<forall>d < E - 1. 0 < destFramesCounter b2 ! d \<longrightarrow> destFrames b2 ! d \<noteq> 0"
    and new2: "\<forall>d < E - 1. destFrames b2 ! d \<noteq> destFrames b ! d \<longrightarrow> 0 < cnt ! d"
    using al own(2) by auto
  have cnt2: "\<forall>d < E - 1. destFramesCounter b2 ! d = destFramesCounter b ! d + length (heading ?dir d order)"
    using dr(3) c2 by simp
  have op2: "\<forall>t < E - 1. destFrames b2 ! t \<noteq> 0 \<and> \<not> isNeighborFrame b2 ! t \<longrightarrow> 0 < destFramesCounter b2 ! t"
    using op0 new2 n2 cnt2 c2 by (metis trans_less_add1)
  have neg: "\<forall>t. ?dir t < 0 \<longrightarrow> r t = None" using dr(5) by blast
  have head: "length (heading ?dir d order) \<le> T" for d using length_heading [of ?dir d order] ol(1) by simp
  note hs = length_heading_shifted [OF o f(3)]
  have over: "anyFull \<longleftrightarrow> (\<exists>d < E - 1. T < destFramesCounter b ! d + size (shifted A d))"
  proof
    assume anyFull
    then obtain t where t: "t \<in> set order" "?dir t \<ge> 0" "the (r t) \<ge> T" unfolding dr(6) by blast
    define d where "d = nat (?dir t)"
    have d: "d < E - 1" "?dir t = int d" "t < T" using t dirs' ol(2) by (auto simp: d_def)
    then have "the (r t) \<in> (\<lambda>t. the (r t)) ` {t. t < T \<and> ?dir t = int d}" by (intro imageI) simp
    also have "\<dots> = {destFramesCounter b ! d..<destFramesCounter b ! d + length (heading ?dir d order)}"
      by (rule bij_betw_imp_surj_on [OF drawn_bij(1) [OF o dr(4)]]) (use d I(4) in simp)
    finally show "\<exists>d < E - 1. T < destFramesCounter b ! d + size (shifted A d)" using d(1) t(3) unfolding hs by auto
  next
    assume "\<exists>d < E - 1. T < destFramesCounter b ! d + size (shifted A d)"
    then obtain d where d: "d < E - 1" and c: "T < destFramesCounter b ! d + length (heading ?dir d order)" unfolding hs by blast
    let ?n = "length (heading ?dir d order)"
    have "d < E" using d by simp
    from le [OF this] c have n: "0 < ?n" by linarith
    have dl: "d < length (destFramesCounter b)" using d I(4) by simp
    have last: "r (heading ?dir d order ! (?n - 1)) = Some (destFramesCounter b ! d + (?n - 1))"
      using dr(4) dl n by (simp add: drawn_def)
    have "heading ?dir d order ! (?n - 1) \<in> set (heading ?dir d order)" using n by simp
    then have "heading ?dir d order ! (?n - 1) \<in> set order" "?dir (heading ?dir d order ! (?n - 1)) = int d"
      by (auto simp: heading_def)
    with last n c show anyFull unfolding dr(6) by (intro bexI [where x = "heading ?dir d order ! (?n - 1)"]) auto
  qed
  have step: "stepCounters T (E - 1) A (\<lambda>d. destFramesCounter b ! d) d =
      (if anyFull \<and> T \<le> destFramesCounter b2 ! d then destFramesCounter b2 ! d - T else destFramesCounter b2 ! d)" if "d < E - 1" for d
    using cnt2 that unfolding stepCounters_def hs over Let_def by auto
  show ?thesis
  proof (cases anyFull)
    case False
    then have "\<forall>d < E - 1. destFramesCounter b2 ! d \<le> T" using over cnt2 unfolding hs by (metis not_le)
    with cnt2 have "\<forall>d < E - 1. destFramesCounter b2 ! d = destFramesCounter b ! d + length (heading ?dir d order) \<and> destFramesCounter b2 ! d \<le> T"
      by blast
    from copy_no_flush [OF inv2 inj o f(3) dr(4) I(4) dirs' neg this dest2] obtain pb3 where p3:
      "copyThreads T (\<lambda>i. True) 0 (destFrames b2) r A [0..<T] (shiftBox b2) = Some pb3"
      "shift_inv T E rel pb0 L0 (C(f \<mapsto> clearShifted A)) (b2\<lparr>shiftBox := pb3\<rparr>) L (\<lambda>t. destFramesCounter b2 ! t)"
      "\<forall>d < E - 1. held (b2\<lparr>shiftBox := pb3\<rparr>) L (rel d) d = held b2 L (rel d) d + shifted A d" by blast
    have run: "shiftFrame T Dim malloc garbage idx order f b = Some (b2\<lparr>shiftBox := pb3\<rparr>)"
      unfolding shiftFrame_def using cf dr(1) m(1) b2 p3(1) False by (simp add: E_def)
    show ?thesis by (rule that [OF run]) (use p3(2,3) op2 h2 step False in \<open>simp_all add: loop_inv_def\<close>)
  next
    case True
    have c3: "\<forall>d < E - 1. destFramesCounter b2 ! d = destFramesCounter b ! d + length (heading ?dir d order) \<and> destFramesCounter b2 ! d \<le> 2 * T"
      using cnt2 le head by (metis add_le_mono mult_2 less_diff_conv add_lessD1)
    from copy_with_flush [OF alloc T(1) inv2 inj o f(3) dr(4) I(4) dirs' neg c3 dest2 op2] obtain pb3 b4 pb4 L' where p:
      "copyThreads T (\<lambda>i. i < T) 0 (destFrames b2) r A [0..<T] (shiftBox b2) = Some pb3"
      "flushThreads T malloc garbage rel [0..<E] (b2\<lparr>shiftBox := pb3\<rparr>) = Some b4"
      "copyThreads T (\<lambda>i. T \<le> i) T (destFrames b4) r A [0..<T] (shiftBox b4) = Some pb4"
      "loop_inv T E rel pb0 L0 (C(f \<mapsto> clearShifted A)) (b4\<lparr>shiftBox := pb4\<rparr>) L'"
      "\<forall>d < E - 1. held (b4\<lparr>shiftBox := pb4\<rparr>) L' (rel d) d = held b2 L (rel d) d + shifted A d"
      "\<forall>d < E - 1. destFramesCounter b4 ! d = (if T \<le> destFramesCounter b2 ! d then destFramesCounter b2 ! d - T else destFramesCounter b2 ! d)"
      by blast
    have run: "shiftFrame T Dim malloc garbage idx order f b = Some (b4\<lparr>shiftBox := pb4\<rparr>)"
      unfolding shiftFrame_def using cf dr(1) m(1) b2 p(1-3) True by (simp add: E_def rel_def)
    show ?thesis by (rule that [OF run p(4)]) (use p(5,6) h2 step True in simp_all)
  qed
qed

section \<open>The neighbours of a supercell\<close>

text \<open>
  What the kernel needs of the direction codes of \<open>Mask\<close>: the entries of its tables belong to different
  supercells, and the last one to the supercell itself.
\<close>

locale exchange_neighbours =
  fixes Dim :: nat
  assumes relativeCell_inj: "length idx = Dim \<Longrightarrow> inj_on (relativeCell Dim idx) {..<NumberOfExchanges Dim}"
    and relativeCell_self: "length idx = Dim \<Longrightarrow> relativeCell Dim idx (NumberOfExchanges Dim - 1) = idx"
    and exchanges_pos: "0 < NumberOfExchanges Dim"

lemma relativeCell_injI:
  assumes "distinct (map (\<lambda>t. getRelativeDirections Dim (t + 1)) [0..<E])" "length idx = Dim"
  shows "inj_on (relativeCell Dim idx) {..<E}"
proof (rule inj_onI)
  fix t u assume tu: "t \<in> {..<E}" "u \<in> {..<E}" "relativeCell Dim idx t = relativeCell Dim idx u"
  have "getRelativeDirections Dim (t + 1) = getRelativeDirections Dim (u + 1)"
  proof (rule nth_equalityI)
    fix i assume "i < length (getRelativeDirections Dim (t + 1))"
    then show "getRelativeDirections Dim (t + 1) ! i = getRelativeDirections Dim (u + 1) ! i"
      using arg_cong [OF tu(3), of "\<lambda>v. v ! i"] assms(2) by (simp add: relativeCell_def vec_add_def vec_add_assign_def)
  qed simp
  moreover have "inj_on (\<lambda>t. getRelativeDirections Dim (t + 1)) (set [0..<E])" using assms(1) by (simp add: distinct_map)
  ultimately show "t = u" using tu(1,2) by (auto simp: inj_on_def)
qed

lemma relativeCell_zero:
  assumes "getRelativeDirections Dim (t + 1) = replicate Dim 0" "length idx = Dim"
  shows "relativeCell Dim idx t = idx"
  using assms by (simp add: relativeCell_def vec_add_def vec_add_assign_def list_eq_iff_nth_eq)

interpretation neighbours2: exchange_neighbours 2
proof
  have E: "NumberOfExchanges 2 = 9" by (simp add: NumberOfExchanges.simps direction_defs)
  have "distinct (map (\<lambda>t. getRelativeDirections 2 (t + 1)) [0..<9])" by code_simp
  then show "inj_on (relativeCell 2 idx) {..<NumberOfExchanges 2}" if "length idx = 2" for idx
    unfolding E using that by (rule relativeCell_injI)
  show "relativeCell 2 idx (NumberOfExchanges 2 - 1) = idx" if "length idx = 2" for idx
    unfolding E by (rule relativeCell_zero [OF _ that]) code_simp
qed (simp add: NumberOfExchanges.simps direction_defs)

interpretation neighbours3: exchange_neighbours 3
proof
  have E: "NumberOfExchanges 3 = 27" by (simp add: NumberOfExchanges.simps direction_defs)
  have "distinct (map (\<lambda>t. getRelativeDirections 3 (t + 1)) [0..<27])" by code_simp
  then show "inj_on (relativeCell 3 idx) {..<NumberOfExchanges 3}" if "length idx = 3" for idx
    unfolding E using that by (rule relativeCell_injI)
  show "relativeCell 3 idx (NumberOfExchanges 3 - 1) = idx" if "length idx = 3" for idx
    unfolding E by (rule relativeCell_zero [OF _ that]) code_simp
qed (simp add: NumberOfExchanges.simps direction_defs)

section \<open>The start and the end of the kernel\<close>

text \<open>The last frame of a supercell and its \<open>sizeLastFrame\<close>.\<close>

lemma packed_last:
  assumes "packed T pb idx (ys @ [a])"
  shows "\<forall>x \<in> set ys. full_ok T pb x" "\<exists>s. content pb a = Some s \<and> length s = T \<and> front_packed (sizeLastFrame (superCells pb idx)) s"
  using assms by (auto simp: packed_def full_ok_def frame_ok_def frame_full_def)

lemma packed_all_full:
  assumes "packed T pb idx xs" "sizeLastFrame (superCells pb idx) = T" "a \<in> set xs"
  shows "full_ok T pb a"
proof -
  obtain ys b where xs: "xs = ys @ [b]" using assms(3) by (cases xs rule: rev_cases) auto
  show ?thesis using packed_last [OF assms(1) [unfolded xs]] assms(2,3) xs front_packed_full by (auto simp: full_ok_def)
qed

lemma initBlock_nth:
  assumes "t < NumberOfExchanges Dim" "box_rep pb L"
  shows "(destFrames (initBlock T Dim idx pb) ! t, destFramesCounter (initBlock T Dim idx pb) ! t, isNeighborFrame (initBlock T Dim idx pb) ! t) =
    (let xs = L (relativeCell Dim idx t); n = sizeLastFrame (superCells pb (relativeCell Dim idx t))
     in if xs \<noteq> [] \<and> n \<noteq> T then (last xs, n, True) else (0, 0, False))"
  using assms getLastFrame_rep [OF assms(2), of "relativeCell Dim idx t"]
  by (auto simp: initBlock_def Let_def initDest_def lastOr_def)

text \<open>The open frames are appended to the lists of the neighbours.\<close>

lemma finishThread_correct:
  assumes rep: "box_rep pb L" and n: "destFramesCounter b ! t = 0 \<Longrightarrow> destFrames b ! t = 0 \<or> isNeighborFrame b ! t"
    and free: "0 < destFramesCounter b ! t \<Longrightarrow> \<not> isNeighborFrame b ! t \<Longrightarrow> free_frame pb L (destFrames b ! t)"
  obtains pb' where "finishThread R t b pb = Some pb'" "content pb' = content pb"
    "box_rep pb' (L(R := L R @ (if 0 < destFramesCounter b ! t \<and> \<not> isNeighborFrame b ! t then [destFrames b ! t] else [])))"
    "\<forall>j. sizeLastFrame (superCells pb' j) = (if j = R \<and> 0 < destFramesCounter b ! t then destFramesCounter b ! t else sizeLastFrame (superCells pb j))"
proof (cases "0 < destFramesCounter b ! t")
  case True
  obtain pb1 where p: "(if \<not> isNeighborFrame b ! t then setAsLastFrame (destFrames b ! t) R pb else Some pb) = Some pb1"
    "content pb1 = content pb" "sameCells pb pb1"
    "box_rep pb1 (L(R := L R @ (if \<not> isNeighborFrame b ! t then [destFrames b ! t] else [])))"
  proof (cases "isNeighborFrame b ! t")
    case True
    then show ?thesis using that [of pb] rep by simp
  next
    case False
    obtain pb1 where "setAsLastFrame (destFrames b ! t) R pb = Some pb1" "box_rep pb1 (L(R := L R @ [destFrames b ! t]))"
      using box.push_last [OF rep free [OF True False]] by blast
    with False that [of pb1] content_setAsLastFrame sameCells_setAsLastFrame show ?thesis by fastforce
  qed
  let ?pb = "modifyCell R (setSizeLastFrame (destFramesCounter b ! t)) pb1"
  have "finishThread R t b pb = Some ?pb" using True p(1) by (simp add: finishThread_def)
  then show ?thesis
  proof (rule that)
    show "box_rep ?pb (L(R := L R @ (if 0 < destFramesCounter b ! t \<and> \<not> isNeighborFrame b ! t then [destFrames b ! t] else [])))"
      using box_rep_setSize [OF p(4)] True by simp
  qed (use p(2,3) True in \<open>auto simp: sameCells_def setSizeLastFrame_def\<close>)
next
  case False
  then have "finishThread R t b pb = Some pb" using n by (auto simp: finishThread_def)
  then show ?thesis by (rule that) (use rep False in simp_all)
qed

definition openFrame :: "'p ShiftBlock \<Rightarrow> nat \<Rightarrow> addr list" where
  "openFrame b t = (if 0 < destFramesCounter b ! t \<and> \<not> isNeighborFrame b ! t then [destFrames b ! t] else [])"

lemma finishThreads_correct:
  assumes n: "\<forall>t < E. destFramesCounter b ! t = 0 \<longrightarrow> destFrames b ! t = 0 \<or> isNeighborFrame b ! t" and inj: "inj_on rel {..<E}"
    and dist: "\<forall>t < E. \<forall>u < E. t \<noteq> u \<longrightarrow> destFrames b ! t \<noteq> 0 \<longrightarrow> destFrames b ! t \<noteq> destFrames b ! u"
  shows "box_rep pb L \<Longrightarrow> distinct ts \<Longrightarrow> set ts \<subseteq> {..<E} \<Longrightarrow>
    \<forall>t \<in> set ts. 0 < destFramesCounter b ! t \<and> \<not> isNeighborFrame b ! t \<longrightarrow> free_frame pb L (destFrames b ! t) \<Longrightarrow>
    \<exists>pb' L'. finishThreads rel b ts pb = Some pb' \<and> box_rep pb' L' \<and> content pb' = content pb
      \<and> (\<forall>t \<in> set ts. L' (rel t) = L (rel t) @ openFrame b t
           \<and> sizeLastFrame (superCells pb' (rel t)) = (if 0 < destFramesCounter b ! t then destFramesCounter b ! t else sizeLastFrame (superCells pb (rel t))))
      \<and> (\<forall>j. j \<notin> rel ` set ts \<longrightarrow> L' j = L j \<and> sizeLastFrame (superCells pb' j) = sizeLastFrame (superCells pb j))"
proof (induction ts arbitrary: pb L)
  case Nil
  then show ?case by auto
next
  case (Cons t ts)
  have t: "t < E" "t \<notin> set ts" "distinct ts" "set ts \<subseteq> {..<E}" using Cons.prems by auto
  let ?L1 = "L(rel t := L (rel t) @ openFrame b t)"
  obtain pb1 where p: "finishThread (rel t) t b pb = Some pb1" "content pb1 = content pb" "box_rep pb1 ?L1"
    "\<forall>j. sizeLastFrame (superCells pb1 j) = (if j = rel t \<and> 0 < destFramesCounter b ! t then destFramesCounter b ! t else sizeLastFrame (superCells pb j))"
    by (rule finishThread_correct [OF Cons.prems(1), of b t "rel t", folded openFrame_def]) (use n t Cons.prems(4) in auto)
  have "\<forall>u \<in> set ts. 0 < destFramesCounter b ! u \<and> \<not> isNeighborFrame b ! u \<longrightarrow> free_frame pb1 ?L1 (destFrames b ! u)"
  proof (intro ballI impI)
    fix u assume u: "u \<in> set ts" "0 < destFramesCounter b ! u \<and> \<not> isNeighborFrame b ! u"
    then have fr: "free_frame pb L (destFrames b ! u)" using Cons.prems(4) by simp
    then have "destFrames b ! u \<noteq> destFrames b ! t" using dist u t by (auto simp: free_frame_def)
    with fr p(2) show "free_frame pb1 ?L1 (destFrames b ! u)" unfolding free_frame_def dom_content by (auto simp: openFrame_def)
  qed
  from Cons.IH [OF p(3) t(3,4) this] obtain pb' L' where ih: "finishThreads rel b ts pb1 = Some pb'" "box_rep pb' L'" "content pb' = content pb1"
      "\<forall>u \<in> set ts. L' (rel u) = ?L1 (rel u) @ openFrame b u
           \<and> sizeLastFrame (superCells pb' (rel u)) = (if 0 < destFramesCounter b ! u then destFramesCounter b ! u else sizeLastFrame (superCells pb1 (rel u)))"
      "\<forall>j. j \<notin> rel ` set ts \<longrightarrow> L' j = ?L1 j \<and> sizeLastFrame (superCells pb' j) = sizeLastFrame (superCells pb1 j)" by blast
  have ne: "rel u \<noteq> rel t" if "u \<in> set ts" for u using inj t that by (auto simp: inj_on_def)
  then have nt: "rel t \<notin> rel ` set ts" by force
  have run: "finishThreads rel b (t # ts) pb = Some pb'" using p(1) ih(1) by simp
  have "\<forall>u \<in> set (t # ts). L' (rel u) = L (rel u) @ openFrame b u
       \<and> sizeLastFrame (superCells pb' (rel u)) = (if 0 < destFramesCounter b ! u then destFramesCounter b ! u else sizeLastFrame (superCells pb (rel u)))"
    using ih(4,5) nt ne p(4) by auto
  moreover have "\<forall>j. j \<notin> rel ` set (t # ts) \<longrightarrow> L' j = L j \<and> sizeLastFrame (superCells pb' j) = sizeLastFrame (superCells pb j)"
    using ih(5) p(4) by auto
  ultimately show ?case using run ih(2,3) p(2) by auto
qed

lemma final_cell:
  assumes inv: "loop_inv T E rel pb0 L0 C b L" and t: "t < E - 1"
    and L': "L' = L (rel t) @ openFrame b t" "content pb' = content (shiftBox b)"
    and size: "sizeLastFrame (superCells pb' (rel t)) = (if 0 < destFramesCounter b ! t then destFramesCounter b ! t
      else sizeLastFrame (superCells (shiftBox b) (rel t)))"
  shows "listParticles pb' L' = held b L (rel t) t" "L0 (rel t) \<noteq> [] \<Longrightarrow> packed T pb' (rel t) L'"
    "L0 (rel t) = [] \<Longrightarrow> sizeLastFrame (superCells pb' (rel t)) = destFramesCounter b ! t"
    "L0 (rel t) = [] \<Longrightarrow> destFramesCounter b ! t = 0 \<Longrightarrow> \<forall>a \<in> set L'. full_ok T pb' a"
proof -
  have inv0: "shift_inv T E rel pb0 L0 C b L (\<lambda>t. destFramesCounter b ! t)"
    and op: "destFrames b ! t \<noteq> 0 \<Longrightarrow> \<not> isNeighborFrame b ! t \<Longrightarrow> 0 < destFramesCounter b ! t"
    using inv t by (auto simp: loop_inv_def)
  note d = shift_invD(6) [OF inv0 t]
  have lp: "listParticles pb' xs = listParticles (shiftBox b) xs" for xs by (rule listParticles_cong) (simp add: L'(2))
  have zero: "destFrames b ! t = 0 \<Longrightarrow> destFramesCounter b ! t = 0" using d by (simp add: dest_inv_def)
  have fp: "frameParticles pb' a = frameParticles (shiftBox b) a" for a by (simp add: frameParticles_def L'(2))
  show "listParticles pb' L' = held b L (rel t) t"
    using op zero unfolding L'(1) held_def openFrame_def by (auto simp: lp fp)
  show "sizeLastFrame (superCells pb' (rel t)) = destFramesCounter b ! t" if "L0 (rel t) = []"
    using d that size by (auto simp: dest_inv_def split: if_splits)
  show "\<forall>a \<in> set L'. full_ok T pb' a" if "L0 (rel t) = []" "destFramesCounter b ! t = 0"
    using d that unfolding L'(1) openFrame_def by (auto simp: dest_inv_def full_ok_def L'(2) split: if_splits)
  assume z: "L0 (rel t) \<noteq> []"
  have ok: "frame_ok T pb' a \<and> frame_full pb' a" if "full_ok T (shiftBox b) a" for a
    using that by (auto simp: full_ok_def frame_ok_def frame_full_def L'(2) settled_def full_frame_def)
  show "packed T pb' (rel t) L'"
  proof (cases "isNeighborFrame b ! t")
    case True
    then obtain ys where ys: "L (rel t) = ys @ [destFrames b ! t]" "\<forall>a \<in> set ys. full_ok T (shiftBox b) a"
      "sizeLastFrame (superCells (shiftBox b) (rel t)) \<le> destFramesCounter b ! t" using d by (auto simp: dest_inv_def)
    have nz: "destFrames b ! t \<noteq> 0" using list_not_null [OF shift_invD(1) [OF inv0], of _ "rel t"] ys(1) by auto
    have "sizeLastFrame (superCells pb' (rel t)) = destFramesCounter b ! t" using size ys(3) by simp
    with dest_inv_content [OF d nz] True ys ok show ?thesis unfolding packed_def L'(1) openFrame_def by (auto simp: L'(2))
  next
    case False
    then have l: "\<forall>a \<in> set (L (rel t)). full_ok T (shiftBox b) a" "L (rel t) \<noteq> []" "sizeLastFrame (superCells (shiftBox b) (rel t)) = T"
      using d z by (auto simp: dest_inv_def)
    show ?thesis
    proof (cases "0 < destFramesCounter b ! t")
      case True
      then have nz: "destFrames b ! t \<noteq> 0" using zero by auto
      from dest_inv_content [OF d nz] True False l ok size show ?thesis
        unfolding packed_def L'(1) openFrame_def by (auto simp: L'(2))
    next
      case c: False
      obtain s where "content (shiftBox b) (last (L (rel t))) = Some s" "length s = T" "full_frame s"
        using l(1,2) by (meson full_ok_def last_in_set)
      moreover have "sizeLastFrame (superCells pb' (rel t)) = T" using size c l(3) by simp
      ultimately show ?thesis using c l ok unfolding packed_def L'(1) openFrame_def
        by (auto simp: L'(2) front_packed_def full_frame_nth dest: in_set_butlastD)
    qed
  qed
qed

text \<open>The particles that leave the frames \<open>xs\<close> of a supercell in direction \<open>d\<close>.\<close>

abbreviation leaving :: "'p ParticlesBox \<Rightarrow> addr list \<Rightarrow> nat \<Rightarrow> 'p multiset" where
  "leaving pb xs d \<equiv> sum_list (map (\<lambda>a. shifted (the (content pb a)) d) xs)"

text \<open>The counters a block starts with, and what it leaves in a neighbour that had no frames.\<close>

definition initCounter :: "nat \<Rightarrow> 'p ParticlesBox \<Rightarrow> (DataSpace \<Rightarrow> addr list) \<Rightarrow> DataSpace \<Rightarrow> nat" where
  "initCounter T pb L R = (let n = sizeLastFrame (superCells pb R) in if L R \<noteq> [] \<and> n \<noteq> T then n else 0)"

definition shift_into_empty ::
  "nat \<Rightarrow> nat \<Rightarrow> DataSpace \<Rightarrow> 'p ParticlesBox \<Rightarrow> (DataSpace \<Rightarrow> addr list) \<Rightarrow> 'p ParticlesBox \<Rightarrow> addr list \<Rightarrow> nat \<Rightarrow> bool" where
  "shift_into_empty T Dim idx pb L pb' xs d \<longleftrightarrow>
     (let c = countersAfter T (NumberOfExchanges Dim - 1) (map (\<lambda>a. the (content pb a)) (L idx))
                (\<lambda>t. initCounter T pb L (relativeCell Dim idx t)) d
      in sizeLastFrame (superCells pb' (relativeCell Dim idx d)) = c \<and> (c = 0 \<longrightarrow> (\<forall>a \<in> set xs. full_ok T pb' a)))"

context exchange_neighbours
begin

lemma initBlock_correct:
  assumes idx: "length idx = Dim" and rep: "box_rep pb L" "finite (dom (frames pb))"
    and nb: "\<forall>t < NumberOfExchanges Dim - 1. packed T pb (relativeCell Dim idx t) (L (relativeCell Dim idx t))"
    and own: "L idx \<noteq> []" "sizeLastFrame (superCells pb idx) \<le> T"
  shows "loop_inv T (NumberOfExchanges Dim) (relativeCell Dim idx) pb L (content pb) (initBlock T Dim idx pb) L"
    "\<forall>t < NumberOfExchanges Dim - 1. held (initBlock T Dim idx pb) L (relativeCell Dim idx t) t = listParticles pb (L (relativeCell Dim idx t))"
proof -
  let ?E = "NumberOfExchanges Dim" and ?rel = "relativeCell Dim idx" and ?b = "initBlock T Dim idx pb"
  note self = relativeCell_self [OF idx] and inj = relativeCell_inj [OF idx]
  have box: "shiftBox ?b = pb" by (simp add: initBlock_def Let_def)
  have entry: "(L (?rel t) \<noteq> [] \<and> sizeLastFrame (superCells pb (?rel t)) \<noteq> T \<and> isNeighborFrame ?b ! t \<and> destFrames ?b ! t = last (L (?rel t))
        \<and> destFramesCounter ?b ! t = sizeLastFrame (superCells pb (?rel t)))
      \<or> ((L (?rel t) = [] \<or> sizeLastFrame (superCells pb (?rel t)) = T) \<and> \<not> isNeighborFrame ?b ! t \<and> destFrames ?b ! t = 0 \<and> destFramesCounter ?b ! t = 0)"
    if "t < ?E" for t
    using initBlock_nth [OF that rep(1), of T idx] by (auto simp: Let_def split: if_splits)
  have dest: "dest_inv T (?rel t) (L (?rel t) \<noteq> []) ?b L (destFramesCounter ?b ! t) t" if t: "t < ?E - 1" for t
  proof -
    have "t < ?E" using t by simp
    from entry [OF this] show ?thesis
    proof (elim disjE)
    assume e: "L (?rel t) \<noteq> [] \<and> sizeLastFrame (superCells pb (?rel t)) \<noteq> T \<and> isNeighborFrame ?b ! t \<and> destFrames ?b ! t = last (L (?rel t))
        \<and> destFramesCounter ?b ! t = sizeLastFrame (superCells pb (?rel t))"
    then obtain ys a where ys: "L (?rel t) = ys @ [a]" by (cases "L (?rel t)" rule: rev_cases) auto
    have a: "a \<noteq> 0" using list_not_null [OF rep(1), of a "?rel t"] ys by simp
    show ?thesis using packed_last [OF nb [rule_format, OF t, unfolded ys]] e ys a by (auto simp: dest_inv_def box)
    next
    assume e: "(L (?rel t) = [] \<or> sizeLastFrame (superCells pb (?rel t)) = T) \<and> \<not> isNeighborFrame ?b ! t \<and> destFrames ?b ! t = 0 \<and> destFramesCounter ?b ! t = 0"
    have "L (?rel t) = [] \<Longrightarrow> sizeLastFrame (superCells pb (?rel t)) = 0" using nb [rule_format, OF t] by (simp add: packed_def)
    then show ?thesis using e packed_all_full [OF nb [rule_format, OF t]] by (auto simp: dest_inv_def box)
    qed
  qed
  have dist: "destFrames ?b ! t \<noteq> destFrames ?b ! u" if tu: "t < ?E" "u < ?E" "t \<noteq> u" "destFrames ?b ! t \<noteq> 0" for t u
  proof -
    have ne: "?rel t \<noteq> ?rel u" using inj tu by (auto simp: inj_on_def)
    have "destFrames ?b ! t \<in> set (L (?rel t))" using entry [OF tu(1)] tu(4) by auto
    moreover have "destFrames ?b ! u = 0 \<or> destFrames ?b ! u \<in> set (L (?rel u))" using entry [OF tu(2)] by auto
    ultimately show ?thesis using box_rep_disjoint [OF rep(1) ne] tu(4) by metis
  qed
  have "self_inv T (?E - 1) (L (?rel (?E - 1))) ?b"
    using entry [of "?E - 1"] exchanges_pos own unfolding self self_inv_def by auto
  then have inv: "shift_inv T ?E ?rel pb L (content pb) ?b L (\<lambda>t. destFramesCounter ?b ! t)"
    unfolding shift_inv_def using rep dest dist by (auto simp: box initBlock_def Let_def)
  have op: "destFrames ?b ! t = 0 \<or> isNeighborFrame ?b ! t" if "t < ?E - 1" for t
  proof -
    have "t < ?E" using that by simp
    from entry [OF this] show ?thesis by blast
  qed
  show "loop_inv T ?E ?rel pb L (content pb) ?b L"
    unfolding loop_inv_def
  proof (intro conjI allI impI inv)
    fix t assume "t < ?E - 1" "destFrames ?b ! t \<noteq> 0 \<and> \<not> isNeighborFrame ?b ! t"
    then show "0 < destFramesCounter ?b ! t" using op by metis
  qed
  show "\<forall>t < ?E - 1. held ?b L (?rel t) t = listParticles pb (L (?rel t))"
  proof (intro allI impI)
    fix t assume "t < ?E - 1"
    from op [OF this] show "held ?b L (?rel t) t = listParticles pb (L (?rel t))" by (auto simp: held_def box)
  qed
qed

lemma shiftLoop_correct:
  assumes alloc: "good_allocator T malloc garbage" and T: "0 < T" "T \<le> 2 ^ 15" and idx: "length idx = Dim"
    and o: "\<forall>k. thread_order T (order k)"
  shows "loop_inv T (NumberOfExchanges Dim) (relativeCell Dim idx) pb0 L0 C b L \<Longrightarrow> L0 idx = pre @ f # post \<Longrightarrow> length post < fuel \<Longrightarrow>
    \<forall>a \<in> set (f # post). \<exists>A. C a = Some A \<and> length A = T \<and> (\<forall>s \<in> set A. slotDirection s < int (NumberOfExchanges Dim - 1)) \<Longrightarrow>
    \<exists>b' L' C'. shiftLoop T Dim malloc garbage idx order fuel f b = Some b'
      \<and> loop_inv T (NumberOfExchanges Dim) (relativeCell Dim idx) pb0 L0 C' b' L'
      \<and> (\<forall>a. C' a = (if a \<in> set (f # post) then map_option clearShifted (C a) else C a))
      \<and> (\<forall>d < NumberOfExchanges Dim - 1. held b' L' (relativeCell Dim idx d) d =
           held b L (relativeCell Dim idx d) d + sum_list (map (\<lambda>a. shifted (the (C a)) d) (f # post))
         \<and> destFramesCounter b' ! d = countersAfter T (NumberOfExchanges Dim - 1) (map (\<lambda>a. the (C a)) (f # post)) (\<lambda>d. destFramesCounter b ! d) d)"
proof (induction fuel arbitrary: C b L pre f post)
  case (Suc fuel)
  let ?E = "NumberOfExchanges Dim" and ?rel = "relativeCell Dim idx"
  note self = relativeCell_self [OF idx] and inj = relativeCell_inj [OF idx]
  obtain A where A: "C f = Some A" "length A = T" "\<forall>s \<in> set A. slotDirection s < int (?E - 1)" using Suc.prems(4) by auto
  have f: "f \<in> set (L0 (?rel (?E - 1)))" unfolding self Suc.prems(2) by simp
  obtain b1 L1 where s: "shiftFrame T Dim malloc garbage idx (order fuel) f b = Some b1"
    "loop_inv T ?E ?rel pb0 L0 (C(f \<mapsto> clearShifted A)) b1 L1"
    "\<forall>d < ?E - 1. held b1 L1 (?rel d) d = held b L (?rel d) d + shifted A d"
    "\<forall>d < ?E - 1. destFramesCounter b1 ! d = stepCounters T (?E - 1) A (\<lambda>d. destFramesCounter b ! d) d"
    by (rule shiftFrame_correct [OF alloc T exchanges_pos inj Suc.prems(1) f A(1,2,3) o [rule_format]])
  have inv1: "shift_inv T ?E ?rel pb0 L0 (C(f \<mapsto> clearShifted A)) b1 L1 (\<lambda>t. destFramesCounter b1 ! t)"
    using s(2) by (simp add: loop_inv_def)
  have L1: "L1 idx = pre @ f # post" using shift_invD(9) [OF inv1] Suc.prems(2) unfolding self by simp
  note next1 = getNextFrame_rep [OF shift_invD(1) [OF inv1] L1]
  have fp: "f \<notin> set post" using box_rep_distinct [OF shift_invD(1) [OF inv1], of idx] L1 by simp
  show ?case
  proof (cases post)
    case Nil
    have "shiftLoop T Dim malloc garbage idx order (Suc fuel) f b = Some b1" using s(1) next1 Nil by simp
    moreover have "\<forall>a. (C(f \<mapsto> clearShifted A)) a = (if a \<in> set (f # post) then map_option clearShifted (C a) else C a)"
      using Nil A(1) by simp
    moreover have "\<forall>d < ?E - 1. held b1 L1 (?rel d) d = held b L (?rel d) d + sum_list (map (\<lambda>a. shifted (the (C a)) d) (f # post))
        \<and> destFramesCounter b1 ! d = countersAfter T (?E - 1) (map (\<lambda>a. the (C a)) (f # post)) (\<lambda>d. destFramesCounter b ! d) d"
      using s(3,4) Nil A(1) by simp
    ultimately show ?thesis using s(2) by blast
  next
    case (Cons g post')
    have L0': "L0 idx = (pre @ [f]) @ g # post'" using Suc.prems(2) Cons by simp
    have len: "length post' < fuel" using Suc.prems(3) Cons by simp
    have ok: "\<forall>a \<in> set (g # post'). \<exists>A'. (C(f \<mapsto> clearShifted A)) a = Some A' \<and> length A' = T
        \<and> (\<forall>s \<in> set A'. slotDirection s < int (?E - 1))"
      using Suc.prems(4) fp Cons by auto
    from Suc.IH [OF s(2) L0' len ok] obtain b' L' C' where ih: "shiftLoop T Dim malloc garbage idx order fuel g b1 = Some b'"
      "loop_inv T ?E ?rel pb0 L0 C' b' L'"
      "\<forall>a. C' a = (if a \<in> set (g # post') then map_option clearShifted ((C(f \<mapsto> clearShifted A)) a) else (C(f \<mapsto> clearShifted A)) a)"
      "\<forall>d < ?E - 1. held b' L' (?rel d) d = held b1 L1 (?rel d) d + sum_list (map (\<lambda>a. shifted (the ((C(f \<mapsto> clearShifted A)) a)) d) (g # post'))
        \<and> destFramesCounter b' ! d = countersAfter T (?E - 1) (map (\<lambda>a. the ((C(f \<mapsto> clearShifted A)) a)) (g # post')) (\<lambda>d. destFramesCounter b1 ! d) d"
      by blast
    have m': "map (\<lambda>a. the ((C(f \<mapsto> clearShifted A)) a)) (g # post') = map (\<lambda>a. the (C a)) post"
      using fp Cons by (auto intro!: map_cong)
    have m: "map (\<lambda>a. shifted (the ((C(f \<mapsto> clearShifted A)) a)) d) (g # post') = map (\<lambda>a. shifted (the (C a)) d) post" for d
      using fp Cons by (auto intro!: map_cong)
    have "\<forall>a. C' a = (if a \<in> set (f # post) then map_option clearShifted (C a) else C a)"
      using ih(3) fp Cons A(1) by auto
    moreover have "shiftLoop T Dim malloc garbage idx order (Suc fuel) f b = Some b'"
      using s(1) next1 ih(1) Cons by simp
    moreover have "\<forall>d < ?E - 1. held b' L' (?rel d) d = held b L (?rel d) d + sum_list (map (\<lambda>a. shifted (the (C a)) d) (f # post))
        \<and> destFramesCounter b' ! d = countersAfter T (?E - 1) (map (\<lambda>a. the (C a)) (f # post)) (\<lambda>d. destFramesCounter b ! d) d"
    proof (intro allI impI conjI)
      fix d assume d: "d < ?E - 1"
      show "held b' L' (?rel d) d = held b L (?rel d) d + sum_list (map (\<lambda>a. shifted (the (C a)) d) (f # post))"
        using ih(4) s(3) A(1) d unfolding m by (simp add: add.assoc)
      have "destFramesCounter b' ! d = countersAfter T (?E - 1) (map (\<lambda>a. the (C a)) post) (\<lambda>d. destFramesCounter b1 ! d) d"
        using ih(4) d unfolding m' by blast
      also have "\<dots> = countersAfter T (?E - 1) (map (\<lambda>a. the (C a)) post) (stepCounters T (?E - 1) A (\<lambda>d. destFramesCounter b ! d)) d"
        by (rule countersAfter_cong [OF _ d]) (use s(4) in blast)
      finally show "destFramesCounter b' ! d = countersAfter T (?E - 1) (map (\<lambda>a. the (C a)) (f # post)) (\<lambda>d. destFramesCounter b ! d) d"
        using A(1) by simp
    qed
    ultimately show ?thesis using ih(2) by blast
  qed
qed simp

lemma kernelShiftParticles_correct:
  assumes alloc: "good_allocator T malloc garbage" and T: "NumberOfExchanges Dim \<le> T" "T \<le> 2 ^ 15" and idx: "length idx = Dim"
    and o: "\<forall>k. thread_order T (order k)" and rep: "box_rep pb L" "finite (dom (frames pb))"
    and shift: "mustShiftVal (superCells pb idx)"
    and nb: "\<forall>t < NumberOfExchanges Dim - 1. packed T pb (relativeCell Dim idx t) (L (relativeCell Dim idx t))"
    and own: "sizeLastFrame (superCells pb idx) \<le> T" "length (L idx) \<le> fuel"
      "\<forall>a \<in> set (L idx). \<exists>A. content pb a = Some A \<and> length A = T \<and> (\<forall>s \<in> set A. slotDirection s < int (NumberOfExchanges Dim - 1))"
  shows "\<exists>pb' L'. kernelShiftParticles T Dim malloc garbage order fuel idx pb = Some pb' \<and> box_rep pb' L' \<and> L' idx = L idx
    \<and> (\<forall>a \<in> set (L idx). content pb' a = map_option clearShifted (content pb a))
    \<and> (\<forall>d < NumberOfExchanges Dim - 1.
         listParticles pb' (L' (relativeCell Dim idx d)) = listParticles pb (L (relativeCell Dim idx d)) + leaving pb (L idx) d
         \<and> (L (relativeCell Dim idx d) \<noteq> [] \<longrightarrow> packed T pb' (relativeCell Dim idx d) (L' (relativeCell Dim idx d)))
         \<and> (L (relativeCell Dim idx d) = [] \<longrightarrow> shift_into_empty T Dim idx pb L pb' (L' (relativeCell Dim idx d)) d))
    \<and> (\<forall>j. (\<forall>t < NumberOfExchanges Dim. j \<noteq> relativeCell Dim idx t) \<longrightarrow> L' j = L j
         \<and> (\<forall>a \<in> set (L j). content pb' a = content pb a))"
proof -
  let ?E = "NumberOfExchanges Dim" and ?rel = "relativeCell Dim idx"
  note self = relativeCell_self [OF idx] and inj = relativeCell_inj [OF idx]
  let ?pb = "modifyCell idx (setMustShift False) pb"
  have rep1: "box_rep ?pb L" "finite (dom (frames ?pb))"
    using rep by (auto simp: box_rep_def cell_list_def modifyCell_def setMustShift_def)
  have size1: "sizeLastFrame (superCells ?pb j) = sizeLastFrame (superCells pb j)" for j by (simp add: setMustShift_def)
  have pk: "packed T ?pb j xs = packed T pb j xs" for j xs
    unfolding packed_def frame_ok_def frame_full_def size1 content_modifyCell ..
  have lp: "listParticles ?pb xs = listParticles pb xs" for xs by (rule listParticles_cong) simp
  show ?thesis
  proof (cases "L idx")
    case Nil
    then have "kernelShiftParticles T Dim malloc garbage order fuel idx pb = Some ?pb"
      using shift getFirstFrame_rep [OF rep1(1), of idx] by (simp add: kernelShiftParticles_def)
    moreover have "shift_into_empty T Dim idx pb L ?pb [] d" if "d < ?E - 1" "L (?rel d) = []" for d
      using nb that Nil unfolding shift_into_empty_def size1 by (simp add: initCounter_def packed_def)
    ultimately show ?thesis using rep1(1) nb pk lp Nil
      by (intro exI [where x = ?pb] exI [where x = L]) simp
  next
    case (Cons f post)
    have T0: "0 < T" using T exchanges_pos by simp
    have nb1: "\<forall>t < ?E - 1. packed T ?pb (?rel t) (L (?rel t))" using nb pk by simp
    have "L idx \<noteq> []" "sizeLastFrame (superCells ?pb idx) \<le> T" using Cons own(1) unfolding size1 by simp_all
    note i = initBlock_correct [OF idx rep1 nb1 this]
    have ok: "\<forall>a \<in> set (f # post). \<exists>A. content ?pb a = Some A \<and> length A = T \<and> (\<forall>s \<in> set A. slotDirection s < int (?E - 1))"
      using own(3) Cons by simp
    have len: "length post < fuel" using own(2) Cons by simp
    have L: "L idx = [] @ f # post" using Cons by simp
    obtain b L1 C where l: "shiftLoop T Dim malloc garbage idx order fuel f (initBlock T Dim idx ?pb) = Some b" "loop_inv T ?E ?rel ?pb L C b L1"
      "\<forall>a. C a = (if a \<in> set (f # post) then map_option clearShifted (content ?pb a) else content ?pb a)"
      "\<forall>d < ?E - 1. held b L1 (?rel d) d = held (initBlock T Dim idx ?pb) L (?rel d) d + leaving ?pb (f # post) d
        \<and> destFramesCounter b ! d = countersAfter T (?E - 1) (map (\<lambda>a. the (content ?pb a)) (f # post)) (\<lambda>d. destFramesCounter (initBlock T Dim idx ?pb) ! d) d"
      using shiftLoop_correct [OF alloc T0 T(2) idx o i(1) L len ok] by blast
    have inv: "shift_inv T ?E ?rel ?pb L C b L1 (\<lambda>t. destFramesCounter b ! t)"
      and op: "\<forall>t < ?E - 1. destFrames b ! t \<noteq> 0 \<and> \<not> isNeighborFrame b ! t \<longrightarrow> 0 < destFramesCounter b ! t"
      using l(2) by (simp_all add: loop_inv_def)
    note I = shift_invD [OF inv]
    have se: "\<not> isNeighborFrame b ! (?E - 1) \<Longrightarrow> destFrames b ! (?E - 1) = 0 \<and> destFramesCounter b ! (?E - 1) = 0"
      using I(8) by (simp add: self_inv_def)
    have n: "\<forall>t < ?E. destFramesCounter b ! t = 0 \<longrightarrow> destFrames b ! t = 0 \<or> isNeighborFrame b ! t"
      using op se by (metis Suc_pred' exchanges_pos less_Suc_eq less_numeral_extra(3) diff_Suc_1 One_nat_def)
    have free: "\<forall>t \<in> set [0..<?E]. 0 < destFramesCounter b ! t \<and> \<not> isNeighborFrame b ! t \<longrightarrow> free_frame (shiftBox b) L1 (destFrames b ! t)"
    proof (intro ballI impI)
      fix t assume t: "t \<in> set [0..<?E]" "0 < destFramesCounter b ! t \<and> \<not> isNeighborFrame b ! t"
      then have "t \<noteq> ?E - 1" using se by auto
      then have "t < ?E - 1" using t(1) by auto
      from I(6) [OF this] t(2) show "free_frame (shiftBox b) L1 (destFrames b ! t)" by (auto simp: dest_inv_def split: if_splits)
    qed
    have dist: "\<forall>t < ?E. \<forall>u < ?E. t \<noteq> u \<longrightarrow> destFrames b ! t \<noteq> 0 \<longrightarrow> destFrames b ! t \<noteq> destFrames b ! u" using I(7) by blast
    have sub: "set [0..<?E] \<subseteq> {..<?E}" by auto
    from finishThreads_correct [OF n inj dist I(1) distinct_upt sub free] obtain pb' L' where f:
      "finishThreads ?rel b [0..<?E] (shiftBox b) = Some pb'" "box_rep pb' L'" "content pb' = content (shiftBox b)"
      "\<forall>t \<in> set [0..<?E]. L' (?rel t) = L1 (?rel t) @ openFrame b t
         \<and> sizeLastFrame (superCells pb' (?rel t)) = (if 0 < destFramesCounter b ! t then destFramesCounter b ! t else sizeLastFrame (superCells (shiftBox b) (?rel t)))"
      "\<forall>j. j \<notin> ?rel ` set [0..<?E] \<longrightarrow> L' j = L1 j \<and> sizeLastFrame (superCells pb' j) = sizeLastFrame (superCells (shiftBox b) j)"
      by blast
    have run: "kernelShiftParticles T Dim malloc garbage order fuel idx pb = Some pb'"
      using shift getFirstFrame_rep [OF rep1(1), of idx] Cons T l(1) f(1) by (simp add: kernelShiftParticles_def Let_def)
    have "openFrame b (?E - 1) = []" using se by (auto simp: openFrame_def)
    then have own': "L' idx = L idx" using f(4) exchanges_pos I(9) unfolding self by (metis append_Nil2 atLeastLessThan_iff diff_less less_numeral_extra(1) self set_upt zero_le)
    have c: "\<forall>a \<in> set (L idx). content pb' a = map_option clearShifted (content pb a)"
      using I(10) l(3) f(3) Cons unfolding self by simp
    have cells: "listParticles pb' (L' (?rel d)) = listParticles pb (L (?rel d)) + leaving pb (L idx) d
         \<and> (L (?rel d) \<noteq> [] \<longrightarrow> packed T pb' (?rel d) (L' (?rel d)))
         \<and> (L (?rel d) = [] \<longrightarrow> shift_into_empty T Dim idx pb L pb' (L' (?rel d)) d)" if d: "d < ?E - 1" for d
    proof -
      have "d \<in> set [0..<?E]" using d by simp
      with f(4) have fd: "L' (?rel d) = L1 (?rel d) @ openFrame b d"
        "sizeLastFrame (superCells pb' (?rel d)) = (if 0 < destFramesCounter b ! d then destFramesCounter b ! d else sizeLastFrame (superCells (shiftBox b) (?rel d)))"
        by blast+
      note fc = final_cell [OF l(2) d fd(1) f(3) fd(2)]
      have "held b L1 (?rel d) d = listParticles pb (L (?rel d)) + leaving pb (L idx) d"
        using l(4) i(2) d Cons by (simp add: lp)
      moreover have "destFramesCounter b ! d = countersAfter T (?E - 1) (map (\<lambda>a. the (content pb a)) (L idx)) (\<lambda>t. initCounter T pb L (?rel t)) d"
      proof -
        have ini: "destFramesCounter (initBlock T Dim idx ?pb) ! t = initCounter T pb L (?rel t)" if "t < ?E - 1" for t
          using initBlock_nth [of t Dim ?pb L T idx] rep1(1) that unfolding initCounter_def size1 by (auto simp: Let_def split: if_splits)
        have "destFramesCounter b ! d = countersAfter T (?E - 1) (map (\<lambda>a. the (content pb a)) (L idx)) (\<lambda>d. destFramesCounter (initBlock T Dim idx ?pb) ! d) d"
          using l(4) [rule_format, OF d] unfolding content_modifyCell Cons by blast
        also have "\<dots> = countersAfter T (?E - 1) (map (\<lambda>a. the (content pb a)) (L idx)) (\<lambda>t. initCounter T pb L (?rel t)) d"
          by (rule countersAfter_cong [OF _ d]) (rule ini)
        finally show ?thesis .
      qed
      ultimately show ?thesis using fc unfolding shift_into_empty_def Let_def by simp
    qed
    have other: "L' j = L j \<and> (\<forall>a \<in> set (L j). content pb' a = content pb a)" if j: "\<forall>t < ?E. j \<noteq> ?rel t" for j
    proof -
      have "j \<notin> ?rel ` set [0..<?E]" using j by auto
      with f(3,5) I(11,13) [OF j] show ?thesis by simp
    qed
    show ?thesis using run f(2) own' c cells other by blast
  qed
qed

end

section \<open>Properties\<close>

lemma particles_clearShifted:
  assumes "\<forall>s \<in> set A. slotDirection s < int n"
  shows "particles A = particles (clearShifted A) + (\<Sum>d < n. shifted A d)"
  using assms
proof (induction A)
  case (Cons s A)
  have sum: "(\<Sum>d < n. shifted (s # A) d) = (\<Sum>d < n. if slotDirection s = int d then {#snd s#} else {#}) + (\<Sum>d < n. shifted A d)"
    by (simp add: shifted_def sum.distrib [symmetric] if_distrib cong: if_cong) (rule sum.cong, auto simp: shifted_def)
  have "(\<Sum>d < n. if slotDirection s = int d then {#snd s#} else {#}) = (if 0 \<le> slotDirection s then {#snd s#} else {#})"
  proof (cases "0 \<le> slotDirection s")
    case True
    then have "(\<Sum>d < n. if slotDirection s = int d then {#snd s#} else {#}) = (\<Sum>d < n. if d = nat (slotDirection s) then {#snd s#} else {#})"
      by (intro sum.cong) auto
    then show ?thesis using True Cons.prems by auto
  qed (auto intro!: sum.neutral)
  moreover have "slotParticle s = slotParticle (if 0 \<le> slotDirection s then (0, snd s) else s) + (if 0 \<le> slotDirection s then {#snd s#} else {#})"
    by (auto simp: slotParticle_def slotDirection_def)
  ultimately show ?case using Cons sum by (simp add: particles_def clearShifted_def add_ac)
qed (simp add: particles_def shifted_def clearShifted_def)

lemma listParticles_clearShifted:
  assumes "\<forall>a \<in> set xs. \<exists>A. content pb a = Some A \<and> (\<forall>s \<in> set A. slotDirection s < int n)"
    "\<forall>a \<in> set xs. content pb' a = map_option clearShifted (content pb a)"
  shows "listParticles pb xs = listParticles pb' xs + (\<Sum>d < n. leaving pb xs d)"
  using assms
proof (induction xs)
  case (Cons a xs)
  obtain A where A: "content pb a = Some A" "\<forall>s \<in> set A. slotDirection s < int n" using Cons.prems(1) by auto
  have "frameParticles pb a = frameParticles pb' a + (\<Sum>d < n. shifted A d)"
    using particles_clearShifted [OF A(2)] A(1) Cons.prems(2) by (simp add: frameParticles_def)
  with Cons A(1) show ?case by (simp add: sum.distrib add_ac)
qed simp

text \<open>
  What holds before a shift: the neighbours are packed, the supercell is marked, its frames have \<open>TileSize\<close>
  slots and no mask beyond the last direction.
\<close>

definition shift_ready :: "nat \<Rightarrow> nat \<Rightarrow> DataSpace \<Rightarrow> 'p ParticlesBox \<Rightarrow> (DataSpace \<Rightarrow> addr list) \<Rightarrow> bool" where
  "shift_ready T Dim idx pb L \<longleftrightarrow>
     length idx = Dim \<and> NumberOfExchanges Dim \<le> T \<and> T \<le> 2 ^ 15 \<and> box_rep pb L \<and> finite (dom (frames pb))
     \<and> mustShiftVal (superCells pb idx) \<and> sizeLastFrame (superCells pb idx) \<le> T
     \<and> (\<forall>t < NumberOfExchanges Dim - 1. packed T pb (relativeCell Dim idx t) (L (relativeCell Dim idx t)))
     \<and> (\<forall>a \<in> set (L idx). \<exists>A. content pb a = Some A \<and> length A = T \<and> (\<forall>s \<in> set A. fst s \<le> NumberOfExchanges Dim))"

lemma shift_ready_directions:
  assumes "shift_ready T Dim idx pb L" "0 < NumberOfExchanges Dim"
  shows "\<forall>a \<in> set (L idx). \<exists>A. content pb a = Some A \<and> length A = T \<and> (\<forall>s \<in> set A. slotDirection s < int (NumberOfExchanges Dim - 1))"
  using assms by (fastforce simp: shift_ready_def slotDirection_def)

lemma kernelShiftParticles_dims:
  assumes D: "Dim = 2 \<or> Dim = 3" and r: "shift_ready T Dim idx pb L" and "good_allocator T malloc garbage"
    "\<forall>k. thread_order T (order k)" "length (L idx) \<le> fuel"
  shows "\<exists>pb' L'. kernelShiftParticles T Dim malloc garbage order fuel idx pb = Some pb' \<and> box_rep pb' L' \<and> L' idx = L idx
    \<and> (\<forall>a \<in> set (L idx). content pb' a = map_option clearShifted (content pb a))
    \<and> (\<forall>d < NumberOfExchanges Dim - 1.
         listParticles pb' (L' (relativeCell Dim idx d)) = listParticles pb (L (relativeCell Dim idx d)) + leaving pb (L idx) d
         \<and> (L (relativeCell Dim idx d) \<noteq> [] \<longrightarrow> packed T pb' (relativeCell Dim idx d) (L' (relativeCell Dim idx d)))
         \<and> (L (relativeCell Dim idx d) = [] \<longrightarrow> shift_into_empty T Dim idx pb L pb' (L' (relativeCell Dim idx d)) d))
    \<and> (\<forall>j. (\<forall>t < NumberOfExchanges Dim. j \<noteq> relativeCell Dim idx t) \<longrightarrow> L' j = L j
         \<and> (\<forall>a \<in> set (L j). content pb' a = content pb a))"
proof -
  note own = shift_ready_directions [OF r]
  note k2 = neighbours2.kernelShiftParticles_correct and k3 = neighbours3.kernelShiftParticles_correct
  from D show ?thesis
  proof
    assume D: "Dim = 2"
    show ?thesis using k2 [of T malloc garbage idx order pb L fuel] assms(3-5) r own neighbours2.exchanges_pos
      unfolding D shift_ready_def by blast
  next
    assume D: "Dim = 3"
    show ?thesis using k3 [of T malloc garbage idx order pb L fuel] assms(3-5) r own neighbours3.exchanges_pos
      unfolding D shift_ready_def by blast
  qed
qed

text \<open>
  C7. Shifting moves every marked particle to its neighbour. For a supercell in two or three dimensions
  that is ready for a shift, and any order in which the threads reach the counters, the kernel ends without
  touching invalid memory; the supercell keeps its frames with the particles that stay, every
  neighbour gains exactly the particles marked for its direction, the total is conserved, neighbours that had
  frames stay packed, and no other supercell changes.
\<close>

theorem shift_moves_particles:
  assumes "Dim = 2 \<or> Dim = 3" "shift_ready T Dim idx pb L" "good_allocator T malloc garbage"
    "\<forall>k. thread_order T (order k)" "length (L idx) \<le> fuel"
  shows "\<exists>pb' L'. kernelShiftParticles T Dim malloc garbage order fuel idx pb = Some pb' \<and> box_rep pb' L' \<and> L' idx = L idx
    \<and> (\<forall>a \<in> set (L idx). content pb' a = map_option clearShifted (content pb a))
    \<and> (\<forall>d < NumberOfExchanges Dim - 1.
         listParticles pb' (L' (relativeCell Dim idx d)) = listParticles pb (L (relativeCell Dim idx d)) + leaving pb (L idx) d
         \<and> (L (relativeCell Dim idx d) \<noteq> [] \<longrightarrow> packed T pb' (relativeCell Dim idx d) (L' (relativeCell Dim idx d))))
    \<and> (\<forall>j. (\<forall>t < NumberOfExchanges Dim. j \<noteq> relativeCell Dim idx t) \<longrightarrow> L' j = L j
         \<and> (\<forall>a \<in> set (L j). content pb' a = content pb a))
    \<and> listParticles pb' (L' idx) + (\<Sum>d < NumberOfExchanges Dim - 1. listParticles pb' (L' (relativeCell Dim idx d)))
      = listParticles pb (L idx) + (\<Sum>d < NumberOfExchanges Dim - 1. listParticles pb (L (relativeCell Dim idx d)))"
proof -
  let ?E = "NumberOfExchanges Dim" and ?rel = "relativeCell Dim idx"
  obtain pb' L' where k: "kernelShiftParticles T Dim malloc garbage order fuel idx pb = Some pb'" "box_rep pb' L'" "L' idx = L idx"
    "\<forall>a \<in> set (L idx). content pb' a = map_option clearShifted (content pb a)"
    "\<forall>d < ?E - 1. listParticles pb' (L' (?rel d)) = listParticles pb (L (?rel d)) + leaving pb (L idx) d
         \<and> (L (?rel d) \<noteq> [] \<longrightarrow> packed T pb' (?rel d) (L' (?rel d)))"
    "\<forall>j. (\<forall>t < ?E. j \<noteq> ?rel t) \<longrightarrow> L' j = L j \<and> (\<forall>a \<in> set (L j). content pb' a = content pb a)"
    using kernelShiftParticles_dims [OF assms] by blast
  have E: "0 < ?E" using assms(1) by (auto simp: NumberOfExchanges.simps direction_defs)
  have "\<forall>a \<in> set (L idx). \<exists>A. content pb a = Some A \<and> (\<forall>s \<in> set A. slotDirection s < int (?E - 1))"
    using shift_ready_directions [OF assms(2) E] by blast
  from listParticles_clearShifted [OF this k(4)]
  have "listParticles pb (L idx) = listParticles pb' (L' idx) + (\<Sum>d < ?E - 1. leaving pb (L idx) d)" using k(3) by simp
  moreover have "(\<Sum>d < ?E - 1. listParticles pb' (L' (?rel d))) = (\<Sum>d < ?E - 1. listParticles pb (L (?rel d))) + (\<Sum>d < ?E - 1. leaving pb (L idx) d)"
    using k(5) by (simp add: sum.distrib [symmetric])
  ultimately have "listParticles pb' (L' idx) + (\<Sum>d < ?E - 1. listParticles pb' (L' (?rel d)))
      = listParticles pb (L idx) + (\<Sum>d < ?E - 1. listParticles pb (L (?rel d)))" by (simp add: add_ac)
  with k show ?thesis by blast
qed

text \<open>
  C36. A flush that fills a frame exactly loses the size of the last frame. When a neighbour without frames
  receives particles and its counter is zero after the last flush, its frames are all full, but
  \<open>sizeLastFrame\<close> stays 0; the next block that shifts into this supercell takes the full frame for an
  empty one and starts to write at slot 0, over the particles that are there.
\<close>

theorem shift_exact_fill_stale_size:
  assumes "Dim = 2 \<or> Dim = 3" "shift_ready T Dim idx pb L" "good_allocator T malloc garbage"
    "\<forall>k. thread_order T (order k)" "length (L idx) \<le> fuel"
    "d < NumberOfExchanges Dim - 1" "L (relativeCell Dim idx d) = []" "leaving pb (L idx) d \<noteq> {#}"
    "countersAfter T (NumberOfExchanges Dim - 1) (map (\<lambda>a. the (content pb a)) (L idx))
       (\<lambda>t. initCounter T pb L (relativeCell Dim idx t)) d = 0"
  shows "\<exists>pb' xs. kernelShiftParticles T Dim malloc garbage order fuel idx pb = Some pb' \<and> xs \<noteq> []
    \<and> (\<forall>a \<in> set xs. full_ok T pb' a) \<and> listParticles pb' xs = leaving pb (L idx) d
    \<and> sizeLastFrame (superCells pb' (relativeCell Dim idx d)) = 0
    \<and> initDest T (relativeCell Dim idx d) pb' = (last xs, 0, True)"
proof -
  let ?R = "relativeCell Dim idx d"
  obtain pb' L' where k: "kernelShiftParticles T Dim malloc garbage order fuel idx pb = Some pb'" "box_rep pb' L'"
    "listParticles pb' (L' ?R) = listParticles pb (L ?R) + leaving pb (L idx) d" "shift_into_empty T Dim idx pb L pb' (L' ?R) d"
    using kernelShiftParticles_dims [OF assms(1-5)] assms(6,7) by blast
  have ne: "L' ?R \<noteq> []" using k(3) assms(7,8) by auto
  have size: "sizeLastFrame (superCells pb' ?R) = 0" and full: "\<forall>a \<in> set (L' ?R). full_ok T pb' a"
    using k(4) assms(9) by (simp_all add: shift_into_empty_def Let_def)
  have "0 < T" using assms(2,6) by (auto simp: shift_ready_def)
  then have "initDest T ?R pb' = (last (L' ?R), 0, True)"
    using getLastFrame_rep [OF k(2), of ?R] ne size by (simp add: initDest_def Let_def lastOr_def)
  with k ne size full assms(7) show ?thesis by (intro exI [where x = pb'] exI [where x = "L' ?R"]) simp
qed

section \<open>Witnesses\<close>

definition blankFrame :: "addr \<Rightarrow> nat Frame" where
  "blankFrame a = \<lparr>previousFrame = 0, nextFrame = 0, slots = replicate 9 (7, 0)\<rparr>"

text \<open>Nine particles for direction 0, nine for direction 1, and one more for direction 0, in supercells of nine cells.\<close>

definition fillBox :: "nat ParticlesBox" where
  "fillBox = \<lparr>frames = [1 \<mapsto> \<lparr>previousFrame = 0, nextFrame = 2, slots = map (\<lambda>i. (2, i)) [0..<9]\<rparr>,
                       2 \<mapsto> \<lparr>previousFrame = 1, nextFrame = 3, slots = map (\<lambda>i. (3, 10 + i)) [0..<9]\<rparr>,
                       3 \<mapsto> \<lparr>previousFrame = 2, nextFrame = 0, slots = (2, 20) # replicate 8 (0, 0)\<rparr>],
     superCells = (\<lambda>_. SuperCell_init)([4, 5] := \<lparr>firstFramePtr = 1, lastFramePtr = 3, mustShiftVal = True, sizeLastFrame = 1\<rparr>)\<rparr>"

definition fillLists :: "DataSpace \<Rightarrow> addr list" where
  "fillLists = (\<lambda>_. [])([4, 5] := [1, 2, 3])"

lemma blank_allocator: "good_allocator 9 nextFree blankFrame"
  using nextFree_fresh by (simp add: good_allocator_def blankFrame_def)

lemma fillBox_neighbour: "t < 8 \<Longrightarrow> relativeCell 2 [4, 5] t \<noteq> [4, 5]"
proof -
  assume "t < 8"
  then have "t \<in> set [0..<8]" by simp
  moreover have "list_all (\<lambda>t. relativeCell 2 [4, 5] t \<noteq> [4, 5]) [0..<8]" by code_simp
  ultimately show ?thesis by (simp add: list_all_iff)
qed

lemma fillBox_ready: "shift_ready 9 2 [4, 5] fillBox fillLists"
proof -
  have E: "NumberOfExchanges 2 = 9" by (simp add: NumberOfExchanges.simps direction_defs)
  have "box_rep fillBox fillLists"
    by (auto simp: box_rep_def fillBox_def fillLists_def cell_list_def SuperCell_init_def)
  moreover have "packed 9 fillBox (relativeCell 2 [4, 5] t) (fillLists (relativeCell 2 [4, 5] t))" if "t < 8" for t
    using fillBox_neighbour [OF that] by (simp add: packed_def fillLists_def fillBox_def SuperCell_init_def)
  moreover have "\<forall>a \<in> set (fillLists [4, 5]). \<exists>A. content fillBox a = Some A \<and> length A = 9 \<and> (\<forall>s \<in> set A. fst s \<le> 9)"
    by (auto simp: fillLists_def fillBox_def content_def)
  ultimately show ?thesis unfolding shift_ready_def E by (simp add: fillBox_def)
qed

lemma fillBox_contents: "map (\<lambda>a. the (content fillBox a)) (fillLists [4, 5]) =
    [map (\<lambda>i. (2, i)) [0..<9], map (\<lambda>i. (3, 10 + i)) [0..<9], (2, 20) # replicate 8 (0, 0)]"
  by (simp add: fillLists_def fillBox_def content_def)

lemma nine_slots: "[0..<9] = [0, 1, 2, 3, 4, 5, 6, 7, 8 :: nat]"
  by code_simp

lemma size_shifted: "size (shifted A d) = length (filter (\<lambda>s. slotDirection s = int d) A)"
  unfolding shifted_def size_mset length_map ..

lemma fillBox_sizes:
  "size (shifted (map (\<lambda>i. (2, i)) [0..<9]) d) = (if d = 0 then 9 else 0)"
  "size (shifted (map (\<lambda>i. (3, 10 + i)) [0..<9]) d) = (if d = 1 then 9 else 0)"
  "size (shifted ((2, 20) # replicate 8 (0, 0 :: nat)) d) = (if d = 0 then 1 else 0)"
  by (auto simp: size_shifted slotDirection_def comp_def)

lemma fillBox_counters:
  "countersAfter 9 8 (map (\<lambda>a. the (content fillBox a)) (fillLists [4, 5])) (\<lambda>_. 0) 1 = 0"
proof -
  have "stepCounters 9 8 (map (\<lambda>i. (2, i)) [0..<9]) (\<lambda>_. 0) = (\<lambda>d. if d = 0 then 9 else 0)"
    unfolding stepCounters_def fillBox_sizes by auto
  moreover have "stepCounters 9 8 (map (\<lambda>i. (3, 10 + i)) [0..<9]) (\<lambda>d. if d = 0 then 9 else 0) = (\<lambda>d. if d \<le> 1 then 9 else 0)"
    unfolding stepCounters_def fillBox_sizes by (auto simp: fun_eq_iff)
  moreover have "stepCounters 9 8 ((2, 20) # replicate 8 (0, 0 :: nat)) (\<lambda>d. if d \<le> 1 then 9 else 0) 1 = 0"
    unfolding stepCounters_def fillBox_sizes Let_def by (auto intro: exI [where x = 0])
  ultimately show ?thesis unfolding fillBox_contents by simp
qed

theorem shift_moves_particles_witness:
  "\<exists>pb' L'. kernelShiftParticles 9 2 nextFree blankFrame (\<lambda>_. [8, 7, 6, 5, 4, 3, 2, 1, 0]) 3 [4, 5] fillBox = Some pb' \<and> box_rep pb' L'
    \<and> listParticles pb' (L' (relativeCell 2 [4, 5] 0)) = {#0, 1, 2, 3, 4, 5, 6, 7, 8, 20#}"
proof -
  have o: "\<forall>k :: nat. thread_order 9 [8, 7, 6, 5, 4, 3, 2, 1, 0]" by (auto simp: thread_order_def)
  have len: "length (fillLists [4, 5]) \<le> 3" by (simp add: fillLists_def)
  have E: "0 < NumberOfExchanges 2 - 1" by (simp add: NumberOfExchanges.simps direction_defs)
  have old: "listParticles fillBox (fillLists (relativeCell 2 [4, 5] 0)) = {#}"
    using fillBox_neighbour [of 0] by (simp add: fillLists_def)
  have new: "leaving fillBox (fillLists [4, 5]) 0 = {#0, 1, 2, 3, 4, 5, 6, 7, 8, 20#}"
    by (simp add: fillLists_def fillBox_def content_def shifted_def slotDirection_def nine_slots del: mset_filter mset_map)
  from shift_moves_particles [OF _ fillBox_ready blank_allocator o len] E show ?thesis unfolding new [symmetric] using old by fastforce
qed

theorem shift_exact_fill_stale_size_witness:
  "\<exists>pb' xs. kernelShiftParticles 9 2 nextFree blankFrame (\<lambda>_. [0..<9]) 3 [4, 5] fillBox = Some pb' \<and> xs \<noteq> []
    \<and> listParticles pb' xs = {#10, 11, 12, 13, 14, 15, 16, 17, 18#} \<and> initDest 9 [3, 5] pb' = (last xs, 0, True)"
proof -
  have E: "NumberOfExchanges 2 = 9" by (simp add: NumberOfExchanges.simps direction_defs)
  have R: "relativeCell 2 [4, 5] 1 = [3, 5]" by code_simp
  have o: "\<forall>k :: nat. thread_order 9 [0..<9]" by simp
  have len: "length (fillLists [4, 5]) \<le> 3" by (simp add: fillLists_def)
  have new: "leaving fillBox (fillLists [4, 5]) 1 = {#10, 11, 12, 13, 14, 15, 16, 17, 18#}"
    by (simp add: fillLists_def fillBox_def content_def shifted_def slotDirection_def nine_slots del: mset_filter mset_map)
  have e: "fillLists (relativeCell 2 [4, 5] 1) = []" unfolding R by (simp add: fillLists_def)
  have "countersAfter 9 8 (map (\<lambda>a. the (content fillBox a)) (fillLists [4, 5])) (\<lambda>t. initCounter 9 fillBox fillLists (relativeCell 2 [4, 5] t)) 1
      = countersAfter 9 8 (map (\<lambda>a. the (content fillBox a)) (fillLists [4, 5])) (\<lambda>_. 0) 1"
    by (rule countersAfter_cong) (auto simp: initCounter_def fillLists_def dest: fillBox_neighbour)
  with fillBox_counters have c: "countersAfter 9 (NumberOfExchanges 2 - 1) (map (\<lambda>a. the (content fillBox a)) (fillLists [4, 5]))
      (\<lambda>t. initCounter 9 fillBox fillLists (relativeCell 2 [4, 5] t)) 1 = 0" unfolding E by simp
  have "1 < NumberOfExchanges 2 - 1" "leaving fillBox (fillLists [4, 5]) 1 \<noteq> {#}" unfolding E new by simp_all
  from shift_exact_fill_stale_size [OF _ fillBox_ready blank_allocator o len this(1) e this(2) c] show ?thesis
    unfolding new R by blast
qed

end
