(* ===== verification/ExchangeStacks.thy ===== *)
theory ExchangeStacks
  imports DataSpaces
begin

text \<open>
  Models the stacks that carry particles between processes: \<open>TileDataBox\<close>, \<open>PushDataBox\<close>,
  \<open>PopDataBox\<close>, \<open>ExchangePushDataBox\<close>, \<open>ExchangePopDataBox\<close> (particles/memory/boxes) and
  \<open>ExchangeMemoryIndex\<close> (particles/memory/dataTypes). The address type \<open>vint_t\<close> is
  \<open>unsigned int\<close>, so sizes wrap by \<open>u32\<close> and are read as \<open>int32_t\<close> by \<open>i32\<close>. An array is a function of
  the index. The sequential model of \<open>pushN\<close> is complemented by a step relation in which
  the atomic operations of many threads interleave. Shown: batches survive the way through
  push and pop, concurrent pushes reserve disjoint ranges that fill the buffer without gaps, and \<open>PopDataBox::pop\<close>
  returns the wrong element.
\<close>

section \<open>Data\<close>

record Tile =
  tile_null :: bool
  tile_offset :: int
  tile_size :: int

record 'v DataStack =
  stack_data :: "int \<Rightarrow> 'v"
  currentSize :: int

record ExchangeMemoryIndex =
  index_superCell :: DataSpace
  startIdx :: int
  index_count :: int

record 'v ExchangeStack =
  exchange_data :: "int \<Rightarrow> 'v"
  exchange_size :: int
  exchange_max :: int
  virtualMemory :: "ExchangeMemoryIndex DataStack"

definition TileDataBox_of :: "int \<Rightarrow> int \<Rightarrow> Tile" where
  "TileDataBox_of off sz = \<lparr>tile_null = False, tile_offset = off, tile_size = sz\<rparr>"

definition TileDataBox_null :: Tile where
  "TileDataBox_null = \<lparr>tile_null = True, tile_offset = 0, tile_size = 0\<rparr>"

definition tile_getSize :: "Tile \<Rightarrow> int" where
  "tile_getSize t = i32 (tile_size t)"

section \<open>Push and pop\<close>

text \<open>\<open>PushDataBox::pushN\<close> leaves the size of the returned box at its default 0.\<close>

definition PushDataBox_pushN :: "int \<Rightarrow> 'v DataStack \<Rightarrow> 'v DataStack \<times> Tile" where
  "PushDataBox_pushN count this =
     (let old_addr = currentSize this
      in (this\<lparr>currentSize := u32 (old_addr + count)\<rparr>, TileDataBox_of (i32 old_addr) 0))"

definition PushDataBox_push :: "'v \<Rightarrow> 'v DataStack \<Rightarrow> 'v DataStack" where
  "PushDataBox_push val this =
     (let old_addr = currentSize this
      in this\<lparr>currentSize := u32 (old_addr + 1), stack_data := (stack_data this)(i32 old_addr := val)\<rparr>)"

definition PopDataBox_popN :: "int \<Rightarrow> 'v DataStack \<Rightarrow> 'v DataStack \<times> Tile" where
  "PopDataBox_popN count this =
     (let old_addr = i32 (currentSize this);
          this = this\<lparr>currentSize := u32 (currentSize this - count)\<rparr>
      in if old_addr \<le> 0 then (this\<lparr>currentSize := 0\<rparr>, TileDataBox_of 0 0)
         else if old_addr < i32 count then (this\<lparr>currentSize := 0\<rparr>, TileDataBox_of 0 old_addr)
         else (this, TileDataBox_of (i32 (old_addr - count)) count))"

definition PopDataBox_pop :: "'v DataStack \<Rightarrow> 'v DataStack \<times> 'v" where
  "PopDataBox_pop this =
     (let old_addr = i32 (currentSize this);
          this = this\<lparr>currentSize := u32 (currentSize this - 1)\<rparr>
      in (this, stack_data this old_addr))"

definition ExchangePush_pushN :: "int \<Rightarrow> DataSpace \<Rightarrow> 'v ExchangeStack \<Rightarrow> 'v ExchangeStack \<times> Tile" where
  "ExchangePush_pushN count superCell this =
     (let oldSize = exchange_size this;
          this = this\<lparr>exchange_size := u32 (oldSize + count)\<rparr>;
          overflow = (u32 (oldSize + count) > exchange_max this);
          this = (if overflow then this\<lparr>exchange_size := exchange_max this\<rparr> else this)
      in if overflow \<and> oldSize \<ge> exchange_max this then (this, TileDataBox_null)
         else let count = (if overflow then u32 (exchange_max this - oldSize) else count);
                  (vm, tmp) = PushDataBox_pushN 1 (virtualMemory this);
                  entry = \<lparr>index_superCell = superCell, startIdx = oldSize, index_count = count\<rparr>;
                  vm = vm\<lparr>stack_data := (stack_data vm)(tile_offset tmp := entry)\<rparr>
              in (this\<lparr>virtualMemory := vm\<rparr>, TileDataBox_of (i32 oldSize) count))"

definition ExchangePop_pop :: "'v ExchangeStack \<Rightarrow> 'v ExchangeStack \<times> DataSpace option \<times> Tile" where
  "ExchangePop_pop this =
     (let (vm, tmp) = PopDataBox_popN 1 (virtualMemory this);
          this = this\<lparr>virtualMemory := vm\<rparr>
      in if tile_getSize tmp = 0 then (this, None, TileDataBox_null)
         else let entry = stack_data vm (tile_offset tmp)
              in (this, Some (index_superCell entry), TileDataBox_of (i32 (startIdx entry)) (index_count entry)))"

section \<open>Writing and reading a tile\<close>

text \<open>
  The kernels store bashed particles into the tile they pushed and read them from the tile they
  popped; \<open>sendBatch\<close> and \<open>receiveBatches\<close> are this use of the stacks, one batch per supercell.
\<close>

definition tile_read :: "(int \<Rightarrow> 'v) \<Rightarrow> Tile \<Rightarrow> 'v list" where
  "tile_read m t = map (\<lambda>i. m (tile_offset t + int i)) [0..<nat (tile_getSize t)]"

fun tile_write :: "(int \<Rightarrow> 'v) \<Rightarrow> int \<Rightarrow> 'v list \<Rightarrow> (int \<Rightarrow> 'v)" where
  "tile_write m off [] = m"
| "tile_write m off (v # vs) = tile_write (m(off := v)) (off + 1) vs"

definition sendBatch :: "DataSpace \<times> 'v list \<Rightarrow> 'v ExchangeStack \<Rightarrow> 'v ExchangeStack" where
  "sendBatch b this =
     (case ExchangePush_pushN (int (length (snd b))) (fst b) this of
        (this, tile) \<Rightarrow>
          this\<lparr>exchange_data := tile_write (exchange_data this) (tile_offset tile)
                                  (take (nat (tile_getSize tile)) (snd b))\<rparr>)"

fun receiveBatches :: "nat \<Rightarrow> 'v ExchangeStack \<Rightarrow> (DataSpace \<times> 'v list) list" where
  "receiveBatches 0 this = []"
| "receiveBatches (Suc n) this =
     (case ExchangePop_pop this of
        (this, Some superCell, tile) \<Rightarrow> (superCell, tile_read (exchange_data this) tile) # receiveBatches n this
      | (this, None, tile) \<Rightarrow> receiveBatches n this)"

definition emptyStack :: "int \<Rightarrow> (int \<Rightarrow> 'v) \<Rightarrow> (int \<Rightarrow> ExchangeMemoryIndex) \<Rightarrow> 'v ExchangeStack" where
  "emptyStack maxSize d e =
     \<lparr>exchange_data = d, exchange_size = 0, exchange_max = maxSize, virtualMemory = \<lparr>stack_data = e, currentSize = 0\<rparr>\<rparr>"

section \<open>Interleaved pushes\<close>

text \<open>
  A thread that calls \<open>pushN\<close> with \<open>count\<close> first adds to the shared size (\<open>push_add\<close>) and then either
  keeps its range (\<open>push_fits\<close>) or resets the size and takes what is left (\<open>push_resets\<close>). The threads
  interleave between these atomic steps.
\<close>

datatype push_pc = Waiting int | Added int int | Reserved int int | Refused

type_synonym push_state = "int \<times> (nat \<Rightarrow> push_pc)"

inductive push_step :: "int \<Rightarrow> push_state \<Rightarrow> push_state \<Rightarrow> bool" for maxSize where
  push_add: "pc t = Waiting count \<Longrightarrow> push_step maxSize (sz, pc) (u32 (sz + count), pc(t := Added sz count))"
| push_fits: "pc t = Added oldSize count \<Longrightarrow> \<not> u32 (oldSize + count) > maxSize \<Longrightarrow>
    push_step maxSize (sz, pc) (sz, pc(t := Reserved oldSize count))"
| push_resets: "pc t = Added oldSize count \<Longrightarrow> u32 (oldSize + count) > maxSize \<Longrightarrow>
    push_step maxSize (sz, pc)
      (maxSize, pc(t := if oldSize \<ge> maxSize then Refused else Reserved oldSize (maxSize - oldSize)))"

inductive_cases push_stepE: "push_step maxSize s s'"

inductive push_reach :: "int \<Rightarrow> push_state \<Rightarrow> push_state \<Rightarrow> bool" for maxSize where
  push_refl: "push_reach maxSize s s"
| push_trans: "push_reach maxSize s s' \<Longrightarrow> push_step maxSize s' s'' \<Longrightarrow> push_reach maxSize s s''"

section \<open>Invariant of interleaved pushes\<close>

definition pc_range :: "int \<Rightarrow> push_pc \<Rightarrow> int set" where
  "pc_range maxSize p = (case p of
     Added o' c \<Rightarrow> {o'..<min (o' + c) maxSize} | Reserved o' c \<Rightarrow> {o'..<o' + c} | _ \<Rightarrow> {})"

definition pc_waiting :: "push_pc \<Rightarrow> int" where
  "pc_waiting p = (case p of Waiting c \<Rightarrow> c | _ \<Rightarrow> 0)"

definition pc_ok :: "int \<Rightarrow> int \<Rightarrow> int \<Rightarrow> push_pc \<Rightarrow> bool" where
  "pc_ok maxSize tot sz p = (case p of
     Waiting c \<Rightarrow> 0 \<le> c
   | Added o' c \<Rightarrow> 0 \<le> o' \<and> 0 \<le> c \<and> o' + c \<le> tot \<and> min (o' + c) maxSize \<le> sz
   | Reserved o' c \<Rightarrow> 0 \<le> o' \<and> 0 \<le> c \<and> o' + c \<le> maxSize
   | Refused \<Rightarrow> True)"

definition push_inv :: "int \<Rightarrow> nat set \<Rightarrow> int \<Rightarrow> push_state \<Rightarrow> bool" where
  "push_inv maxSize T tot s \<longleftrightarrow>
     (case s of (sz, pc) \<Rightarrow>
        0 \<le> sz \<and> sz + (\<Sum>t \<in> T. pc_waiting (pc t)) \<le> tot \<and> (\<forall>t. t \<notin> T \<longrightarrow> pc t = Refused) \<and>
        (\<forall>t. pc_ok maxSize tot sz (pc t)) \<and>
        (\<forall>t u. t \<noteq> u \<longrightarrow> pc_range maxSize (pc t) \<inter> pc_range maxSize (pc u) = {}) \<and>
        (\<Union>t. pc_range maxSize (pc t)) = {0..<min sz maxSize})"

lemma pc_range_upd_Un: "(\<Union>u. pc_range m ((pc(t := p)) u)) = pc_range m p \<union> (\<Union>u \<in> - {t}. pc_range m (pc u))"
  by (auto split: if_splits)

lemma push_inv_ok: "push_inv maxSize T tot (sz, pc) \<Longrightarrow> pc_ok maxSize tot sz (pc t)"
  by (simp add: push_inv_def)

lemma push_inv_mem: "push_inv maxSize T tot (sz, pc) \<Longrightarrow> pc t \<noteq> Refused \<Longrightarrow> t \<in> T"
  by (auto simp: push_inv_def)

lemma pc_ok_mono: "pc_ok maxSize tot sz p \<Longrightarrow> sz \<le> sz' \<Longrightarrow> pc_ok maxSize tot sz' p"
  by (cases p) (auto simp: pc_ok_def)

lemma push_inv_added:
  assumes "push_inv maxSize T tot (sz, pc)" "pc t = Added oldSize count"
  shows "t \<in> T" "0 \<le> oldSize" "0 \<le> count" "oldSize + count \<le> tot" "min (oldSize + count) maxSize \<le> sz"
  using push_inv_mem [OF assms(1), of t] push_inv_ok [OF assms(1), of t] assms(2) by (simp_all add: pc_ok_def)

lemma push_inv_same_range:
  assumes inv: "push_inv maxSize T tot (sz, pc)" and t: "pc t = Added o' c"
    and r: "pc_range maxSize p = pc_range maxSize (Added o' c)" "pc_waiting p = 0"
    and sz': "sz' \<le> sz" "min sz' maxSize = min sz maxSize" "0 \<le> sz'"
    and ok: "pc_ok maxSize tot sz' p" and T: "t \<in> T"
  shows "push_inv maxSize T tot (sz', pc(t := p))"
proof -
  have rng: "pc_range maxSize ((pc(t := p)) u) = pc_range maxSize (pc u)" for u using t r(1) by simp
  have "(\<Sum>u \<in> T. pc_waiting ((pc(t := p)) u)) = (\<Sum>u \<in> T. pc_waiting (pc u))"
    by (rule sum.cong) (auto simp: t r(2) pc_waiting_def [of "Added _ _"])
  moreover have "pc_ok maxSize tot sz' ((pc(t := p)) u)" for u
  proof (cases "u = t")
    case False
    have "pc_ok maxSize tot sz (pc u)" using inv by (simp add: push_inv_def)
    with False sz' show ?thesis by (auto simp: pc_ok_def split: push_pc.splits)
  qed (use ok in simp)
  ultimately show ?thesis
    using inv T sz' unfolding push_inv_def split_conv rng by auto
qed

lemma push_inv_add:
  assumes inv: "push_inv maxSize T tot (sz, pc)" and t: "pc t = Waiting c"
    and m: "0 \<le> maxSize" "tot < 2 ^ 32" and fin: "finite T"
  shows "push_inv maxSize T tot (u32 (sz + c), pc(t := Added sz c))"
proof -
  have T: "t \<in> T" using push_inv_mem [OF inv] t by simp
  have c: "0 \<le> c" "0 \<le> sz" "\<forall>u. pc_ok maxSize tot sz (pc u)"
    using inv push_inv_ok [OF inv, of t] t by (simp_all add: push_inv_def pc_ok_def)
  have w: "(\<Sum>u \<in> T. pc_waiting (pc u)) = c + (\<Sum>u \<in> T - {t}. pc_waiting (pc u))"
    using fin T t by (simp add: sum.remove pc_waiting_def [of "Waiting _"])
  have w': "(\<Sum>u \<in> T. pc_waiting ((pc(t := Added sz c)) u)) = (\<Sum>u \<in> T - {t}. pc_waiting (pc u))"
    using fin T by (simp add: sum.remove [of T t] pc_waiting_def [of "Added _ _"])
  have nn: "0 \<le> (\<Sum>u \<in> T - {t}. pc_waiting (pc u))"
    using c(3) by (intro sum_nonneg) (auto simp: pc_ok_def pc_waiting_def split: push_pc.splits)
  have tot: "sz + c + (\<Sum>u \<in> T - {t}. pc_waiting (pc u)) \<le> tot" using inv w by (simp add: push_inv_def)
  then have u: "u32 (sz + c) = sz + c" using c m nn by (intro u32_id) auto
  have rest: "(\<Union>u \<in> - {t}. pc_range maxSize (pc u)) = {0..<min sz maxSize}"
  proof -
    have "pc_range maxSize (pc t) = {}" using t by (simp add: pc_range_def)
    then have "(\<Union>u \<in> - {t}. pc_range maxSize (pc u)) = (\<Union>u. pc_range maxSize (pc u))" by auto
    then show ?thesis using inv by (simp add: push_inv_def)
  qed
  have un: "(\<Union>u. pc_range maxSize ((pc(t := Added sz c)) u)) = {0..<min (sz + c) maxSize}"
    unfolding pc_range_upd_Un rest using c m by (auto simp: pc_range_def)
  have dt: "pc_range maxSize (pc u) \<inter> pc_range maxSize (Added sz c) = {}" if "u \<noteq> t" for u
  proof -
    have "pc_range maxSize (pc u) \<subseteq> {0..<min sz maxSize}" using rest that by auto
    then show ?thesis by (auto simp: pc_range_def [of _ "Added _ _"])
  qed
  have dj: "\<forall>a b. a \<noteq> b \<longrightarrow> pc_range maxSize ((pc(t := Added sz c)) a) \<inter> pc_range maxSize ((pc(t := Added sz c)) b) = {}"
    using inv dt by (simp add: push_inv_def Int_commute)
  have ok: "pc_ok maxSize tot (sz + c) ((pc(t := Added sz c)) v)" for v
  proof (cases "v = t")
    case False
    then show ?thesis using c pc_ok_mono [of maxSize tot sz "pc v" "sz + c"] by simp
  qed (use c tot nn in \<open>simp add: pc_ok_def\<close>)
  have "sz + c + (\<Sum>u \<in> T. pc_waiting ((pc(t := Added sz c)) u)) \<le> tot" "0 \<le> sz + c" using tot w' c by simp_all
  moreover have "\<forall>v. v \<notin> T \<longrightarrow> (pc(t := Added sz c)) v = Refused" using inv T by (auto simp: push_inv_def)
  ultimately show ?thesis
    unfolding push_inv_def split_conv u by (intro conjI un dj allI ok) simp_all
qed

lemma push_inv_step:
  assumes "push_step maxSize s s'" "push_inv maxSize T tot s" "0 \<le> maxSize" "tot < 2 ^ 32" "finite T"
  shows "push_inv maxSize T tot s'"
  using assms(1)
proof cases
  case (push_add pc t count sz)
  with assms push_inv_add show ?thesis by simp
next
  case (push_fits pc t oldSize count sz)
  have T: "t \<in> T" and ok: "0 \<le> oldSize" "0 \<le> count" "oldSize + count \<le> tot"
    using push_inv_added [of maxSize T tot sz pc t] assms(2) push_fits by simp_all
  then have "oldSize + count \<le> maxSize" using push_fits(4) assms(4) by (simp add: u32_id)
  then have "push_inv maxSize T tot (sz, pc(t := Reserved oldSize count))"
    using push_fits assms(2) T ok
    by (intro push_inv_same_range [where o' = oldSize and c = count]) (auto simp: pc_range_def pc_waiting_def pc_ok_def push_inv_def)
  with push_fits show ?thesis by simp
next
  case (push_resets pc t oldSize count sz)
  have T: "t \<in> T" and ok: "0 \<le> oldSize" "0 \<le> count" "oldSize + count \<le> tot" "min (oldSize + count) maxSize \<le> sz"
    using push_inv_added [of maxSize T tot sz pc t] assms(2) push_resets by simp_all
  then have "maxSize < oldSize + count" using push_resets(4) assms(4) by (simp add: u32_id)
  with ok have "maxSize \<le> sz" by simp
  then have "push_inv maxSize T tot (maxSize, pc(t := if oldSize \<ge> maxSize then Refused else Reserved oldSize (maxSize - oldSize)))"
    using push_resets assms(2,3) T ok \<open>maxSize < oldSize + count\<close>
    by (intro push_inv_same_range [where o' = oldSize and c = count and sz = sz]) (auto simp: pc_range_def pc_waiting_def pc_ok_def)
  with push_resets show ?thesis by simp
qed

lemma push_inv_reach:
  assumes "push_reach maxSize s s'" "push_inv maxSize T tot s" "0 \<le> maxSize" "tot < 2 ^ 32" "finite T"
  shows "push_inv maxSize T tot s'"
  using assms by induction (auto intro: push_inv_step)

lemma push_inv_init:
  assumes "\<forall>t \<in> T. 0 \<le> counts t" "0 \<le> maxSize"
  shows "push_inv maxSize T (\<Sum>t \<in> T. counts t) (0, \<lambda>t. if t \<in> T then Waiting (counts t) else Refused)"
  using assms by (auto simp: push_inv_def pc_waiting_def pc_ok_def pc_range_def)

definition reserved_range :: "push_pc \<Rightarrow> int set" where
  "reserved_range p = (case p of Reserved o' c \<Rightarrow> {o'..<o' + c} | _ \<Rightarrow> {})"

definition push_done :: "push_pc \<Rightarrow> bool" where
  "push_done p \<longleftrightarrow> (case p of Reserved o' c \<Rightarrow> True | Refused \<Rightarrow> True | _ \<Rightarrow> False)"

lemma reserved_range_sub: "reserved_range p \<subseteq> pc_range maxSize p"
  by (auto simp: reserved_range_def pc_range_def split: push_pc.splits)

lemma reserved_range_done: "push_done p \<Longrightarrow> reserved_range p = pc_range maxSize p"
  by (auto simp: reserved_range_def pc_range_def push_done_def split: push_pc.splits)

text \<open>
  C26. However the atomic operations of finitely many calls of \<open>ExchangePushDataBox::pushN\<close> interleave,
  the ranges that the calls have reserved are disjoint and inside the buffer at every moment, and
  when every call has returned they are exactly the first \<open>min size maxSize\<close> elements, without gaps,
  provided the requested counts together do not wrap the 32 bit size.
\<close>
theorem concurrent_pushes_disjoint:
  assumes "finite T" "\<forall>t \<in> T. 0 \<le> counts t" "(\<Sum>t \<in> T. counts t) < 2 ^ 32" "0 \<le> maxSize"
    and "push_reach maxSize (0, \<lambda>t. if t \<in> T then Waiting (counts t) else Refused) (sz, pc)"
  shows "(\<forall>t u. t \<noteq> u \<longrightarrow> reserved_range (pc t) \<inter> reserved_range (pc u) = {}) \<and>
         (\<forall>t. reserved_range (pc t) \<subseteq> {0..<maxSize}) \<and>
         ((\<forall>t. push_done (pc t)) \<longrightarrow> (\<Union>t. reserved_range (pc t)) = {0..<min sz maxSize})"
proof -
  have inv: "push_inv maxSize T (\<Sum>t \<in> T. counts t) (sz, pc)"
    using push_inv_reach [OF assms(5) push_inv_init] assms by blast
  then have dj: "\<forall>t u. t \<noteq> u \<longrightarrow> pc_range maxSize (pc t) \<inter> pc_range maxSize (pc u) = {}"
    and un: "(\<Union>t. pc_range maxSize (pc t)) = {0..<min sz maxSize}" by (auto simp: push_inv_def)
  have "\<forall>t u. t \<noteq> u \<longrightarrow> reserved_range (pc t) \<inter> reserved_range (pc u) = {}"
    using dj reserved_range_sub by blast
  moreover have "reserved_range (pc t) \<subseteq> {0..<maxSize}" for t
  proof -
    have "reserved_range (pc t) \<subseteq> {0..<min sz maxSize}" using reserved_range_sub un by blast
    then show ?thesis by auto
  qed
  moreover have "(\<Union>t. reserved_range (pc t)) = {0..<min sz maxSize}" if "\<forall>t. push_done (pc t)"
    using un that by (simp add: reserved_range_done [of _ maxSize])
  ultimately show ?thesis by blast
qed

text \<open>A run of two calls in which the second one overflows between the steps of the first.\<close>

definition samplePushStart :: push_state where
  "samplePushStart = (0, \<lambda>t. if t \<in> {0, 1} then Waiting ((\<lambda>t. if t = 0 then 6 else 3) t) else Refused)"

definition samplePushEnd :: push_state where
  "samplePushEnd = (4, (snd samplePushStart)(0 := Added 0 6, 1 := Added 6 3, 1 := Refused, 0 := Reserved 0 4))"

lemma samplePush_run: "push_reach 4 samplePushStart samplePushEnd"
proof -
  let ?p = "snd samplePushStart"
  have "push_step 4 (0, ?p) (u32 (0 + 6), ?p(0 := Added 0 6))"
    by (rule push_add) (simp add: samplePushStart_def)
  then have 1: "push_step 4 samplePushStart (6, ?p(0 := Added 0 6))" by (simp add: u32_def samplePushStart_def)
  have "push_step 4 (6, ?p(0 := Added 0 6)) (u32 (6 + 3), ?p(0 := Added 0 6, 1 := Added 6 3))"
    by (rule push_add) (simp add: samplePushStart_def)
  then have 2: "push_step 4 (6, ?p(0 := Added 0 6)) (9, ?p(0 := Added 0 6, 1 := Added 6 3))" by (simp add: u32_def)
  have 3: "push_step 4 (9, ?p(0 := Added 0 6, 1 := Added 6 3)) (4, ?p(0 := Added 0 6, 1 := Added 6 3, 1 := Refused))"
    using push_resets [of "?p(0 := Added 0 6, 1 := Added 6 3)" 1 6 3 4 9] by (simp add: u32_def)
  have "push_step 4 (4, ?p(0 := Added 0 6, 1 := Added 6 3, 1 := Refused)) samplePushEnd"
    using push_resets [of "?p(0 := Added 0 6, 1 := Added 6 3, 1 := Refused)" 0 0 6 4 4] by (simp add: u32_def samplePushEnd_def)
  with 1 2 3 show ?thesis by (meson push_refl push_trans)
qed

theorem concurrent_pushes_disjoint_witness:
  "reserved_range (snd samplePushEnd 0) \<inter> reserved_range (snd samplePushEnd 1) = {} \<and>
   reserved_range (snd samplePushEnd 0) = {0..<4}"
proof -
  have "reserved_range (snd samplePushEnd 0) \<inter> reserved_range (snd samplePushEnd 1) = {}"
    using concurrent_pushes_disjoint
      [of "{0, 1}" "\<lambda>t. if t = 0 then 6 else 3" 4 "fst samplePushEnd" "snd samplePushEnd"] samplePush_run
    by (simp add: samplePushStart_def)
  then show ?thesis by (simp add: samplePushEnd_def reserved_range_def)
qed

text \<open>
  The sequential \<open>pushN\<close> is a run of the interleaved one: a call that is not interrupted takes its
  two atomic steps, its thread ends with the range of the returned tile, refused exactly when the tile is null, and
  the shared size is the one that the steps leave.
\<close>
theorem pushN_refines_steps:
  assumes "pc t = Waiting count" "0 \<le> exchange_size st" "0 \<le> exchange_max st" "exchange_max st < 2 ^ 32"
  shows "\<exists>st' tile. ExchangePush_pushN count superCell st = (st', tile) \<and>
    push_reach (exchange_max st) (exchange_size st, pc)
      (exchange_size st', pc(t := if tile_null tile then Refused else Reserved (exchange_size st) (tile_size tile)))"
proof -
  let ?old = "exchange_size st" and ?max = "exchange_max st"
  obtain st' tile where p: "ExchangePush_pushN count superCell st = (st', tile)" by fastforce
  let ?final = "pc(t := if tile_null tile then Refused else Reserved ?old (tile_size tile))"
  have 1: "push_step ?max (?old, pc) (u32 (?old + count), pc(t := Added ?old count))" using assms(1) by (rule push_add)
  have 2: "push_step ?max (u32 (?old + count), pc(t := Added ?old count)) (exchange_size st', ?final)"
  proof (cases "u32 (?old + count) > ?max")
    case True
    have "u32 (?max - ?old) = ?max - ?old" if "?old < ?max" using that assms by (intro u32_id) auto
    then have "exchange_size st' = ?max" "?final = pc(t := if ?old \<ge> ?max then Refused else Reserved ?old (?max - ?old))"
      using p True by (auto simp: ExchangePush_pushN_def PushDataBox_pushN_def TileDataBox_of_def TileDataBox_null_def Let_def split: if_splits)
    with push_resets [of "pc(t := Added ?old count)" t ?old count ?max] True show ?thesis by simp
  next
    case False
    then have "exchange_size st' = u32 (?old + count)" "?final = pc(t := Reserved ?old count)"
      using p by (auto simp: ExchangePush_pushN_def PushDataBox_pushN_def TileDataBox_of_def Let_def)
    with push_fits [of "pc(t := Added ?old count)" t ?old count ?max] False show ?thesis by simp
  qed
  from push_trans [OF push_trans [OF push_refl 1] 2] p show ?thesis by blast
qed

theorem pushN_refines_steps_witness:
  "\<exists>st' tile. ExchangePush_pushN 6 [1, 2] (emptyStack 4 (\<lambda>_. 0 :: int) (\<lambda>_. undefined)) = (st', tile) \<and>
    push_reach 4 (0, \<lambda>_. Waiting 6) (exchange_size st', (\<lambda>_. Waiting 6)(0 := if tile_null tile then Refused else Reserved 0 (tile_size tile)))"
  using pushN_refines_steps [of "\<lambda>_. Waiting 6" 0 6 "emptyStack 4 (\<lambda>_. 0 :: int) (\<lambda>_. undefined)" "[1, 2]"]
  by (simp add: emptyStack_def cong: if_cong split del: if_split)

section \<open>Round trip\<close>

definition batchOffset :: "(DataSpace \<times> 'v list) list \<Rightarrow> nat \<Rightarrow> nat" where
  "batchOffset bs i = sum_list (map (\<lambda>b. length (snd b)) (take i bs))"

definition stack_holds :: "'v ExchangeStack \<Rightarrow> (DataSpace \<times> 'v list) list \<Rightarrow> bool" where
  "stack_holds st bs \<longleftrightarrow>
     currentSize (virtualMemory st) = int (length bs) \<and>
     (\<forall>i < length bs.
        stack_data (virtualMemory st) (int i) =
          \<lparr>index_superCell = fst (bs ! i), startIdx = int (batchOffset bs i), index_count = int (length (snd (bs ! i)))\<rparr> \<and>
        (\<forall>j < length (snd (bs ! i)). exchange_data st (int (batchOffset bs i + j)) = snd (bs ! i) ! j))"

lemma tile_write_at:
  "tile_write m off vs a = (if off \<le> a \<and> a < off + int (length vs) then vs ! nat (a - off) else m a)"
proof (induction vs arbitrary: m off)
  case (Cons v vs)
  have "nat (a - off) = Suc (nat (a - (off + 1)))" if "off + 1 \<le> a" using that by simp
  then show ?case using Cons by (auto simp: nth_Cons')
qed auto

lemma batchOffset_append: "i \<le> length bs \<Longrightarrow> batchOffset (bs @ cs) i = batchOffset bs i"
  by (simp add: batchOffset_def)

lemma batchOffset_full: "batchOffset bs (length bs) = sum_list (map (\<lambda>b. length (snd b)) bs)"
  by (simp add: batchOffset_def)

lemma batchOffset_snoc: "batchOffset (bs @ [b]) (Suc (length bs)) = batchOffset bs (length bs) + length (snd b)"
  by (simp add: batchOffset_def)

lemma batchOffset_end:
  assumes "i < length bs"
  shows "batchOffset bs i + length (snd (bs ! i)) \<le> batchOffset bs (length bs)"
proof -
  have "batchOffset bs i + length (snd (bs ! i)) = batchOffset bs (Suc i)"
    using assms by (simp add: batchOffset_def take_Suc_conv_app_nth)
  also have "\<dots> \<le> batchOffset bs (length bs)"
  proof -
    have "sum_list (map (\<lambda>b. length (snd b)) bs) =
      sum_list (map (\<lambda>b. length (snd b)) (take (Suc i) bs)) + sum_list (map (\<lambda>b. length (snd b)) (drop (Suc i) bs))"
      by (metis append_take_drop_id map_append sum_list_append)
    then show ?thesis by (simp add: batchOffset_def)
  qed
  finally show ?thesis .
qed

lemma sendBatch_effect:
  assumes sz: "exchange_size st = int n" "int (n + length (snd b)) \<le> exchange_max st" "exchange_max st < 2 ^ 31"
    and vm: "currentSize (virtualMemory st) = int k" "int k < 2 ^ 31 - 1"
  shows "sendBatch b st =
    st\<lparr>exchange_size := int (n + length (snd b)),
       virtualMemory := \<lparr>stack_data = (stack_data (virtualMemory st))(int k :=
           \<lparr>index_superCell = fst b, startIdx = int n, index_count = int (length (snd b))\<rparr>), currentSize = int (Suc k)\<rparr>,
       exchange_data := tile_write (exchange_data st) (int n) (snd b)\<rparr>"
proof -
  have "u32 (int n + int (length (snd b))) = int n + int (length (snd b))" using sz by (intro u32_id) auto
  moreover have "i32 (int n) = int n" "i32 (int (length (snd b))) = int (length (snd b))"
    using sz by (auto intro!: i32_id)
  moreover have "u32 (int k + 1) = int k + 1" "i32 (int k) = int k" using vm by (auto intro: u32_id i32_id)
  ultimately show ?thesis using sz vm
    by (cases "virtualMemory st")
      (auto simp: sendBatch_def ExchangePush_pushN_def PushDataBox_pushN_def TileDataBox_of_def tile_getSize_def Let_def)
qed

lemma sendBatch_holds:
  assumes h: "stack_holds st bs" and sz: "exchange_size st = int (batchOffset bs (length bs))"
    and m: "int (batchOffset bs (length bs) + length (snd b)) \<le> exchange_max st" "exchange_max st < 2 ^ 31"
    and k: "int (length bs) < 2 ^ 31 - 1"
  shows "stack_holds (sendBatch b st) (bs @ [b]) \<and> exchange_max (sendBatch b st) = exchange_max st \<and>
    exchange_size (sendBatch b st) = int (batchOffset (bs @ [b]) (length (bs @ [b])))"
proof -
  note eff = sendBatch_effect [OF sz m _ k] h [unfolded stack_holds_def]
  have "exchange_data (sendBatch b st) (int (batchOffset bs i + j)) = snd (bs ! i) ! j"
    if "i < length bs" "j < length (snd (bs ! i))" for i j
    using batchOffset_end [OF that(1)] that eff by (simp add: tile_write_at)
  moreover have "exchange_data (sendBatch b st) (int (batchOffset bs (length bs) + j)) = snd b ! j"
    if "j < length (snd b)" for j using that eff by (simp add: tile_write_at)
  ultimately show ?thesis
    using eff by (auto simp: stack_holds_def nth_append batchOffset_append less_Suc_eq batchOffset_snoc)
qed

lemma sendBatches_holds:
  assumes "int (batchOffset bs (length bs)) \<le> maxSize" "maxSize < 2 ^ 31" "int (length bs) < 2 ^ 31"
  shows "stack_holds (foldl (\<lambda>st b. sendBatch b st) (emptyStack maxSize d e) bs) bs \<and>
    exchange_max (foldl (\<lambda>st b. sendBatch b st) (emptyStack maxSize d e) bs) = maxSize \<and>
    exchange_size (foldl (\<lambda>st b. sendBatch b st) (emptyStack maxSize d e) bs) = int (batchOffset bs (length bs))"
  using assms
proof (induction bs rule: rev_induct)
  case Nil
  then show ?case by (simp add: stack_holds_def emptyStack_def batchOffset_def)
next
  case (snoc b bs)
  then have "int (batchOffset bs (length bs) + length (snd b)) \<le> maxSize" by (simp add: batchOffset_snoc)
  with snoc sendBatch_holds [of "foldl (\<lambda>st b. sendBatch b st) (emptyStack maxSize d e) bs" bs b] show ?case by simp
qed

lemma ExchangePop_effect:
  assumes h: "stack_holds st (bs @ [b])" and k: "int (length bs) < 2 ^ 31 - 1"
    and m: "batchOffset (bs @ [b]) (Suc (length bs)) < 2 ^ 31"
  obtains st' tile where "ExchangePop_pop st = (st', Some (fst b), tile)" "stack_holds st' bs"
    "exchange_data st' = exchange_data st" "tile_read (exchange_data st) tile = snd b"
proof -
  let ?n = "length bs"
  have cur: "currentSize (virtualMemory st) = int ?n + 1" using h by (simp add: stack_holds_def)
  have e: "stack_data (virtualMemory st) (int ?n) =
      \<lparr>index_superCell = fst b, startIdx = int (batchOffset bs ?n), index_count = int (length (snd b))\<rparr>"
    and d: "\<forall>j < length (snd b). exchange_data st (int (batchOffset bs ?n + j)) = snd b ! j"
    using h by (auto simp: stack_holds_def batchOffset_append dest: spec [of _ ?n])
  have n: "i32 (int ?n + 1) = int ?n + 1" "i32 (int ?n) = int ?n" "u32 (int ?n) = int ?n" "i32 1 = 1"
    using k by (auto intro: u32_id i32_id)
  have le: "batchOffset bs ?n + length (snd b) < 2 ^ 31" using m by (simp add: batchOffset_snoc)
  then have c: "i32 (int (length (snd b))) = int (length (snd b))" "i32 (int (batchOffset bs ?n)) = int (batchOffset bs ?n)"
    by (auto intro!: i32_id)
  define st' where "st' = st\<lparr>virtualMemory := (virtualMemory st)\<lparr>currentSize := int ?n\<rparr>\<rparr>"
  have "ExchangePop_pop st = (st', Some (fst b), TileDataBox_of (int (batchOffset bs ?n)) (int (length (snd b))))"
    using cur e n c by (simp add: ExchangePop_pop_def PopDataBox_popN_def tile_getSize_def TileDataBox_of_def st'_def Let_def)
  moreover have "stack_holds st' bs"
    using h by (auto simp: stack_holds_def st'_def batchOffset_append nth_append)
  moreover have "tile_read (exchange_data st) (TileDataBox_of (int (batchOffset bs ?n)) (int (length (snd b)))) = snd b"
    using d c by (intro nth_equalityI) (simp_all add: tile_read_def tile_getSize_def TileDataBox_of_def)
  ultimately show ?thesis using that [of st'] by (simp add: st'_def)
qed

lemma receiveBatches_holds:
  assumes "stack_holds st bs" "int (length bs) < 2 ^ 31" "batchOffset bs (length bs) < 2 ^ 31"
  shows "receiveBatches (length bs) st = rev bs"
  using assms
proof (induction bs arbitrary: st rule: rev_induct)
  case (snoc b bs)
  have lim: "int (length bs) < 2 ^ 31 - 1" "batchOffset (bs @ [b]) (Suc (length bs)) < 2 ^ 31"
    using snoc.prems(2,3) by simp_all
  obtain st' tile where p: "ExchangePop_pop st = (st', Some (fst b), tile)" "stack_holds st' bs"
    "exchange_data st' = exchange_data st" "tile_read (exchange_data st) tile = snd b"
    by (rule ExchangePop_effect [OF snoc.prems(1) lim])
  have "batchOffset bs (length bs) < 2 ^ 31" using lim by (simp add: batchOffset_snoc)
  with snoc.IH [OF p(2)] snoc.prems(2) p show ?case by simp
qed simp

text \<open>
  C29. Round trip of the particle exchange: batches that are pushed one per supercell into a stack
  they fit are popped with their supercells and contents unchanged, in reverse order of pushing.
\<close>
theorem exchange_stack_roundtrip:
  assumes "int (sum_list (map (\<lambda>b. length (snd b)) bs)) \<le> maxSize" "maxSize < 2 ^ 31" "int (length bs) < 2 ^ 31"
  shows "receiveBatches (length bs) (foldl (\<lambda>st b. sendBatch b st) (emptyStack maxSize d e) bs) = rev bs"
proof -
  have "stack_holds (foldl (\<lambda>st b. sendBatch b st) (emptyStack maxSize d e) bs) bs"
    using sendBatches_holds [of bs maxSize d e] assms unfolding batchOffset_full by blast
  moreover have "batchOffset bs (length bs) < 2 ^ 31" using assms by (simp add: batchOffset_full)
  ultimately show ?thesis using assms by (intro receiveBatches_holds) auto
qed

theorem exchange_stack_roundtrip_witness:
  "receiveBatches 2 (foldl (\<lambda>st b. sendBatch b st) (emptyStack 4 (\<lambda>_. 0) (\<lambda>_. undefined))
     [([1, 2, 3], [10, 20, 30 :: int]), ([0, 5, 1], [40])]) = [([0, 5, 1], [40]), ([1, 2, 3], [10, 20, 30])]"
  using exchange_stack_roundtrip
    [of "[([1, 2, 3], [10, 20, 30 :: int]), ([0, 5, 1], [40])]" 4 "\<lambda>_. 0" "\<lambda>_. undefined"]
  by (simp add: numeral_2_eq_2)

text \<open>
  \<open>PopDataBox::pop\<close> decrements the size but reads the element at the old size, one past the top:
  after pushing a value onto any stack, \<open>pop\<close> returns what was in the array above that value, not
  the value itself, whereas \<open>popN\<close> with count 1 returns the tile that holds it.
\<close>
theorem pop_reads_above_top:
  assumes "0 \<le> currentSize st" "currentSize st < 2 ^ 31 - 1"
  shows "snd (PopDataBox_pop (PushDataBox_push v st)) = stack_data st (currentSize st + 1) \<and>
         tile_read (stack_data (PushDataBox_push v st)) (snd (PopDataBox_popN 1 (PushDataBox_push v st))) = [v]"
proof -
  have "i32 (currentSize st) = currentSize st" "u32 (currentSize st + 1) = currentSize st + 1"
    "i32 (currentSize st + 1) = currentSize st + 1" "i32 1 = 1"
    using assms by (auto intro: u32_id i32_id)
  then show ?thesis using assms
    by (simp add: PopDataBox_pop_def PushDataBox_push_def PopDataBox_popN_def tile_read_def tile_getSize_def TileDataBox_of_def Let_def)
qed

theorem pop_reads_above_top_witness:
  "snd (PopDataBox_pop (PushDataBox_push (7 :: int) \<lparr>stack_data = (\<lambda>i. i), currentSize = 3\<rparr>)) = 4"
  using pop_reads_above_top [of "\<lparr>stack_data = (\<lambda>i. i), currentSize = 3\<rparr>" 7] by simp

end
