(* ===== verification/ExchangeParticles.thy ===== *)
theory ExchangeParticles
  imports ShiftParticles ExchangeStacks ExchangeMaps
begin

text \<open>
  Models how particles leave a process: \<open>KernelBashParticles\<close> and \<open>KernelInsertParticles\<close>
  (particles/ParticlesBase.kernel), \<open>bashParticles\<close> and \<open>insertParticles\<close> (particles/ParticlesBase.tpp) and
  \<open>setCurrentSize\<close> (particles/memory/buffers/StackExchangeBuffer.hpp).

  A block takes the particles out of the guard supercell it works on and pushes them onto the exchange stack of
  its direction, frame by frame from the end of the list, until the supercell is empty or the stack is full. On the
  other side every block pops one batch and appends it as a new frame to the supercell it is meant for. The
  blocks of a kernel run one after the other, in an order that is an argument; how the atomic operations of
  concurrent pushes interleave is the subject of ExchangeStacks. \<open>None\<close> is undefined behaviour or lack of fuel, one
  unit of fuel per frame is enough.
\<close>

section \<open>Taking particles out of the guard\<close>

definition reduceCell :: "nat \<Rightarrow> DataSpace \<Rightarrow> nat \<Rightarrow> DataSpace" where
  "reduceCell Dim idx ex = (if Dim = 2 then reduce2 idx ex else reduce3 idx ex)"

definition extendCell :: "nat \<Rightarrow> DataSpace \<Rightarrow> nat \<Rightarrow> DataSpace \<Rightarrow> int \<Rightarrow> DataSpace" where
  "extendCell Dim cell ex gridSC guardSC =
     (if Dim = 2 then extend1 cell ex gridSC (DataSpace_create 2 guardSC)
      else extend2 cell ex gridSC (DataSpace_create 3 guardSC))"

text \<open>Every thread with a number below the size of the tile stores its particle there; \<open>bashIdx\<close> is an \<open>uint16_t\<close>.\<close>

fun bashThreads ::
  "(nat \<rightharpoonup> nat) \<Rightarrow> Tile \<Rightarrow> nat list \<Rightarrow> (int \<Rightarrow> 'p) \<times> 'p slot list \<Rightarrow> (int \<Rightarrow> 'p) \<times> 'p slot list" where
  "bashThreads numbers tmpBorder [] s = s"
| "bashThreads numbers tmpBorder (t # ts) (m, A) =
     (let bashIdx = (case numbers t of None \<Rightarrow> INV_LOC_IDX | Some i \<Rightarrow> i mod 2 ^ 16)
      in if bashIdx \<noteq> INV_LOC_IDX \<and> int bashIdx < tile_getSize tmpBorder
         then bashThreads numbers tmpBorder ts
                (m(tile_offset tmpBorder + int bashIdx := snd (A ! t)), A[t := (0, snd (A ! t))])
         else bashThreads numbers tmpBorder ts (m, A))"

text \<open>One iteration over a frame; the result is the frame, the stack and \<open>hasMemory\<close>.\<close>

definition bashFrame ::
  "nat \<Rightarrow> nat list \<Rightarrow> DataSpace \<Rightarrow> 'p slot list \<Rightarrow> 'p ExchangeStack \<Rightarrow> 'p slot list \<times> 'p ExchangeStack \<times> bool" where
  "bashFrame TileSize order cell A border =
     (let (numBashedParticles, numbers) = atomicInc (\<lambda>t. fst (A ! t) = 1) order (0, Map.empty)
      in if numBashedParticles > 0
         then let (border, tmpBorder) = ExchangePush_pushN (int numBashedParticles) cell border;
                  hasMemory = (\<not> u32 (tile_getSize tmpBorder) < int numBashedParticles);
                  (m, A) = bashThreads numbers tmpBorder [0..<TileSize] (exchange_data border, A)
              in (A, border\<lparr>exchange_data := m\<rparr>, hasMemory)
         else (A, border, True))"

fun bashLoop ::
  "nat \<Rightarrow> (nat \<Rightarrow> nat list) \<Rightarrow> DataSpace \<Rightarrow> nat \<Rightarrow> DataSpace \<Rightarrow> addr \<Rightarrow> bool \<Rightarrow> bool \<Rightarrow>
   'p ParticlesBox \<times> 'p ExchangeStack \<Rightarrow> ('p ParticlesBox \<times> 'p ExchangeStack) option" where
  "bashLoop TileSize order cell fuel idx frame valid hasMemory (pb, border) =
     (if valid \<and> hasMemory
      then case fuel of
          0 \<Rightarrow> None
        | Suc n \<Rightarrow> do {
            A \<leftarrow> content pb frame;
            let (A, border, hasMemory) = bashFrame TileSize (order fuel) cell A border;
            pb \<leftarrow> modifyFrame frame (setSlots A) pb;
            (pb, frame, valid) \<leftarrow>
              (if hasMemory then getPreviousFrameAndRemoveLastFrame frame idx pb else Some (pb, frame, valid));
            bashLoop TileSize order cell n idx frame valid hasMemory (pb, border)
          }
      else Some (pb, border))"

definition kernelBashParticles ::
  "nat \<Rightarrow> nat \<Rightarrow> nat \<Rightarrow> (nat \<Rightarrow> nat list) \<Rightarrow> nat \<Rightarrow> DataSpace \<Rightarrow>
   'p ParticlesBox \<times> 'p ExchangeStack \<Rightarrow> ('p ParticlesBox \<times> 'p ExchangeStack) option" where
  "kernelBashParticles TileSize Dim ex order fuel idx = (\<lambda>(pb, border). do {
     let (frame, valid) = getLastFrame idx pb;
     (pb, border) \<leftarrow> bashLoop TileSize order (reduceCell Dim idx ex) fuel idx frame valid True (pb, border);
     Some (modifyCell idx (setSizeLastFrame 0) pb, border)
   })"

definition setCurrentSize :: "int \<Rightarrow> 'p ExchangeStack \<Rightarrow> 'p ExchangeStack" where
  "setCurrentSize sz border =
     border\<lparr>exchange_size := sz, virtualMemory := (virtualMemory border)\<lparr>currentSize := sz\<rparr>\<rparr>"

fun bashBlocks ::
  "nat \<Rightarrow> nat \<Rightarrow> nat \<Rightarrow> (DataSpace \<Rightarrow> nat \<Rightarrow> nat list) \<Rightarrow> nat \<Rightarrow> DataSpace list \<Rightarrow>
   'p ParticlesBox \<times> 'p ExchangeStack \<Rightarrow> ('p ParticlesBox \<times> 'p ExchangeStack) option" where
  "bashBlocks TileSize Dim ex order fuel [] s = Some s"
| "bashBlocks TileSize Dim ex order fuel (idx # blocks) s =
     do {
       s \<leftarrow> kernelBashParticles TileSize Dim ex (order idx) fuel idx s;
       bashBlocks TileSize Dim ex order fuel blocks s
     }"

text \<open>The supercells of the mapper in the order in which the blocks run.\<close>

definition bashParticles ::
  "nat \<Rightarrow> MappingDescription \<Rightarrow> nat \<Rightarrow> (DataSpace \<Rightarrow> nat \<Rightarrow> nat list) \<Rightarrow> nat \<Rightarrow> DataSpace list \<Rightarrow>
   'p ParticlesBox \<times> 'p ExchangeStack \<Rightarrow> ('p ParticlesBox \<times> 'p ExchangeStack) option" where
  "bashParticles TileSize cellDescription ex order fuel blocks = (\<lambda>(pb, border).
     bashBlocks TileSize (length (gridSuperCells cellDescription)) ex order fuel
       (map (exchange_getSuperCellIndex GUARD (ExchangeMapping_of cellDescription ex)) blocks)
       (pb, setCurrentSize 0 border))"

section \<open>Inserting received particles\<close>

text \<open>Every thread below the number of elements copies one particle of the tile into its slot.\<close>

fun insertThreads :: "int \<Rightarrow> (int \<Rightarrow> 'p) \<Rightarrow> Tile \<Rightarrow> nat list \<Rightarrow> 'p slot list \<Rightarrow> 'p slot list" where
  "insertThreads elementCount m tmpBorder [] A = A"
| "insertThreads elementCount m tmpBorder (t # ts) A =
     insertThreads elementCount m tmpBorder ts
       (if int t < elementCount then A[t := (1, m (tile_offset tmpBorder + int t))] else A)"

definition kernelInsertParticles ::
  "nat \<Rightarrow> MappingDescription \<Rightarrow> nat \<Rightarrow> ((addr \<rightharpoonup> 'p Frame) \<Rightarrow> addr) \<Rightarrow> (addr \<Rightarrow> 'p Frame) \<Rightarrow>
   'p ParticlesBox \<times> 'p ExchangeStack \<Rightarrow> ('p ParticlesBox \<times> 'p ExchangeStack) option" where
  "kernelInsertParticles TileSize cellDescription ex malloc garbage = (\<lambda>(pb, border).
     case ExchangePop_pop border of (border, superCell, tmpBorder) \<Rightarrow>
       let elementCount = tile_getSize tmpBorder
       in if elementCount > 0
          then do {
            superCell \<leftarrow> superCell;
            let (frame, pb) = getEmptyFrame malloc garbage pb;
            A \<leftarrow> content pb frame;
            pb \<leftarrow> modifyFrame frame (setSlots (insertThreads elementCount (exchange_data border) tmpBorder [0..<TileSize] A)) pb;
            let dstSuperCell = extendCell (length (gridSuperCells cellDescription)) superCell ex
                                 (gridSuperCells cellDescription) (guardingSuperCells cellDescription);
            pb \<leftarrow> setAsLastFrame frame dstSuperCell pb;
            Some (pb, border)
          }
          else Some (pb, border))"

fun insertBlocks ::
  "nat \<Rightarrow> MappingDescription \<Rightarrow> nat \<Rightarrow> ((addr \<rightharpoonup> 'p Frame) \<Rightarrow> addr) \<Rightarrow> (addr \<Rightarrow> 'p Frame) \<Rightarrow> nat \<Rightarrow>
   'p ParticlesBox \<times> 'p ExchangeStack \<Rightarrow> ('p ParticlesBox \<times> 'p ExchangeStack) option" where
  "insertBlocks TileSize cellDescription ex malloc garbage 0 s = Some s"
| "insertBlocks TileSize cellDescription ex malloc garbage (Suc n) s =
     do {
       s \<leftarrow> kernelInsertParticles TileSize cellDescription ex malloc garbage s;
       insertBlocks TileSize cellDescription ex malloc garbage n s
     }"

text \<open>One block per entry of the index stack.\<close>

definition insertParticles ::
  "nat \<Rightarrow> MappingDescription \<Rightarrow> nat \<Rightarrow> ((addr \<rightharpoonup> 'p Frame) \<Rightarrow> addr) \<Rightarrow> (addr \<Rightarrow> 'p Frame) \<Rightarrow>
   'p ParticlesBox \<times> 'p ExchangeStack \<Rightarrow> ('p ParticlesBox \<times> 'p ExchangeStack) option" where
  "insertParticles TileSize cellDescription ex malloc garbage = (\<lambda>(pb, border).
     insertBlocks TileSize cellDescription ex malloc garbage (nat (currentSize (virtualMemory border))) (pb, border))"

section \<open>One frame\<close>

lemma bashThreads_effect:
  assumes "distinct ts" "\<forall>t \<in> set ts. t < length A" "\<forall>t i. r t = Some i \<longrightarrow> i < INV_LOC_IDX"
    "\<forall>t \<in> set ts. \<forall>u \<in> set ts. r t = r u \<and> r t \<noteq> None \<longrightarrow> t = u" "bashThreads r tile ts (m, A) = (m', A')"
  shows "length A' = length A
    \<and> (\<forall>t < length A. A' ! t = (if t \<in> set ts \<and> (\<exists>i. r t = Some i \<and> int i < tile_getSize tile) then (0, snd (A ! t)) else A ! t))
    \<and> (\<forall>t \<in> set ts. \<forall>i. r t = Some i \<and> int i < tile_getSize tile \<longrightarrow> m' (tile_offset tile + int i) = snd (A ! t))
    \<and> (\<forall>x. (\<forall>t \<in> set ts. \<forall>i. r t = Some i \<and> int i < tile_getSize tile \<longrightarrow> x \<noteq> tile_offset tile + int i) \<longrightarrow> m' x = m x)"
  using assms
proof (induction ts arbitrary: m A)
  case (Cons t ts)
  have ts: "distinct ts" "\<forall>u \<in> set ts. r t = r u \<longrightarrow> r t = None" "t \<notin> set ts" "t < length A"
    using Cons.prems(1,2,4) by auto
  have inj: "\<forall>t \<in> set ts. \<forall>u \<in> set ts. r t = r u \<and> r t \<noteq> None \<longrightarrow> t = u"
    using Cons.prems(4) by (metis list.set_intros(2))
  show ?case
  proof (cases "\<exists>i. r t = Some i \<and> int i < tile_getSize tile")
    case True
    then obtain i where i: "r t = Some i" "int i < tile_getSize tile" by blast
    have "i < 2 ^ 16" "i \<noteq> INV_LOC_IDX" using Cons.prems(3) i(1) by (force simp: INV_LOC_IDX_def)+
    then have run: "bashThreads r tile ts (m(tile_offset tile + int i := snd (A ! t)), A[t := (0, snd (A ! t))]) = (m', A')"
      using Cons.prems(5) i by (simp add: Let_def)
    have l: "\<forall>u \<in> set ts. u < length (A[t := (0, snd (A ! t))])" using Cons.prems(2) by simp
    note ih = Cons.IH [OF ts(1) l Cons.prems(3) inj run]
    have "\<forall>u \<in> set ts. \<forall>j. r u = Some j \<and> int j < tile_getSize tile \<longrightarrow> tile_offset tile + int i \<noteq> tile_offset tile + int j"
      using ts(2) i(1) by auto
    have same: "snd (A[t := (0, snd (A ! t))] ! u) = snd (A ! u)" for u using ts(4) by (cases "u = t") auto
    have own: "m' (tile_offset tile + int i) = snd (A ! t)"
      using ih \<open>\<forall>u \<in> set ts. \<forall>j. _ \<longrightarrow> tile_offset tile + int i \<noteq> _\<close> by (metis fun_upd_same)
    have "\<forall>u \<in> set (t # ts). \<forall>j. r u = Some j \<and> int j < tile_getSize tile \<longrightarrow> m' (tile_offset tile + int j) = snd (A ! u)"
      using ih own i(1) same by auto
    moreover have "m' x = m x" if "\<forall>u \<in> set (t # ts). \<forall>j. r u = Some j \<and> int j < tile_getSize tile \<longrightarrow> x \<noteq> tile_offset tile + int j" for x
      using ih that i by (metis fun_upd_other list.set_intros)
    ultimately show ?thesis using ih ts i by (auto simp: nth_list_update)
  next
    case False
    have "i mod 2 ^ 16 = i" if "r t = Some i" for i using Cons.prems(3) that by (force simp: INV_LOC_IDX_def)
    then have "bashThreads r tile ts (m, A) = (m', A')"
      using Cons.prems(5) False by (auto simp: Let_def split: option.splits)
    from Cons.IH [OF ts(1) _ Cons.prems(3) inj this] Cons.prems(2) False ts(3) show ?thesis by auto
  qed
qed auto

lemma particles_sum: "particles xs = (\<Sum>i < length xs. slotParticle (xs ! i))"
  unfolding particles_def by (simp add: sum_list_sum_nth atLeast0LessThan)

lemma particles_clear:
  assumes "length A' = length A" "\<forall>t < length A. A' ! t = (if t \<in> set ts then (0, snd (A ! t)) else A ! t)"
    and ts: "distinct ts" "\<forall>t \<in> set ts. t < length A \<and> fst (A ! t) \<noteq> 0"
  shows "particles A' + mset (map (\<lambda>t. snd (A ! t)) ts) = particles A"
proof -
  let ?f = "\<lambda>t. if t \<in> set ts then {#snd (A ! t)#} else {#}"
  have "mset (map (\<lambda>t. snd (A ! t)) us) = (\<Sum>t \<in> set us. {#snd (A ! t)#})" if "distinct us" for us
    using that by (induction us) auto
  then have "mset (map (\<lambda>t. snd (A ! t)) ts) = (\<Sum>t \<in> set ts. {#snd (A ! t)#})" using ts(1) .
  also have "\<dots> = (\<Sum>t < length A. ?f t)"
    using ts(2) by (intro sum.mono_neutral_cong_left) auto
  finally have "particles A' + mset (map (\<lambda>t. snd (A ! t)) ts) = (\<Sum>t < length A. slotParticle (A' ! t) + ?f t)"
    by (simp add: particles_sum assms(1) sum.distrib)
  also have "\<dots> = particles A"
    unfolding particles_sum using assms(2) ts(2) by (intro sum.cong) (auto simp: slotParticle_def)
  finally show ?thesis .
qed

lemma pushN_effect:
  assumes st: "exchange_size st = int n" "exchange_max st = int M" "n \<le> M" "int M < 2 ^ 31"
    and k: "currentSize (virtualMemory st) = int k" "int k < 2 ^ 31 - 1" and p: "0 < p" "int p < 2 ^ 31"
  shows "ExchangePush_pushN (int p) cell st = (if n = M then (st, TileDataBox_null)
    else (st\<lparr>exchange_size := int (n + min p (M - n)),
       virtualMemory := \<lparr>stack_data = (stack_data (virtualMemory st))(int k :=
         \<lparr>index_superCell = cell, startIdx = int n, index_count = int (min p (M - n))\<rparr>), currentSize = int (Suc k)\<rparr>\<rparr>,
       TileDataBox_of (int n) (int (min p (M - n)))))"
proof -
  have u: "u32 (int n + int p) = int n + int p" using assms by (intro u32_id) auto
  have i: "i32 (int n) = int n" using assms by (intro i32_id) auto
  have m: "u32 (int M - int n) = int M - int n" using assms by (intro u32_id) auto
  have k': "u32 (int k + 1) = int k + 1" "i32 (int k) = int k" using k by (auto intro: u32_id i32_id)
  show ?thesis
  proof (cases "n = M")
    case True
    then have "st\<lparr>exchange_size := int M\<rparr> = st" using st(1) by (cases st) simp
    then show ?thesis using assms u True by (simp add: ExchangePush_pushN_def Let_def)
  next
    case False
    then have "int (min p (M - n)) = (if int n + int p > int M then int M - int n else int p)" using st(3) by auto
    then show ?thesis using assms u i m k' False
      by (cases "virtualMemory st") (auto simp: ExchangePush_pushN_def PushDataBox_pushN_def TileDataBox_of_def Let_def)
  qed
qed

text \<open>
  The stack accepts the particles \<open>take c ps\<close> of a frame, as many as fit, as one batch; the frame keeps the
  others, and \<open>hasMemory\<close> tells whether any are left.
\<close>

lemma bashFrame_effect:
  assumes order: "thread_order T order" and A: "length A = T" "settled A" "T < 2 ^ 15"
    and st: "exchange_size st = int n" "exchange_max st = int M" "n \<le> M" "int M < 2 ^ 31"
    and k: "currentSize (virtualMemory st) = int k" "int k < 2 ^ 31 - 1"
  obtains A' ps where "bashFrame T order cell A st =
      (A', if min (length ps) (M - n) = 0 then st else sendBatch (cell, take (M - n) ps) st, length ps \<le> M - n)"
    "mset ps = particles A" "particles A' + mset (take (M - n) ps) = particles A" "length A' = T" "settled A'"
proof -
  let ?P = "\<lambda>t. fst (A ! t) = 1"
  define X where "X = filter ?P order"
  define ps where "ps = map (\<lambda>t. snd (A ! t)) X"
  define r where "r = snd (atomicInc ?P order (0, Map.empty))"
  have dX: "distinct X" "\<forall>t \<in> set X. t < length A \<and> fst (A ! t) \<noteq> 0" "length X \<le> T"
  proof -
    show "distinct X" "\<forall>t \<in> set X. t < length A \<and> fst (A ! t) \<noteq> 0" using order A(1) by (auto simp: X_def thread_order_def)
    have "length X = card (set X)" using \<open>distinct X\<close> by (simp add: distinct_card)
    also have "\<dots> \<le> card {..<T}" by (rule card_mono) (use order in \<open>auto simp: X_def thread_order_def\<close>)
    finally show "length X \<le> T" by simp
  qed
  have r: "r t = Some i \<longleftrightarrow> i < length X \<and> X ! i = t" for t i
    using atomicInc_Some [of order ?P t i] order by (simp add: r_def X_def thread_order_def)
  have cnt: "atomicInc ?P order (0, Map.empty) = (length X, r)" by (simp add: prod_eq_iff r_def X_def)
  have all: "\<forall>t < length A. t \<in> set X \<longleftrightarrow> fst (A ! t) \<noteq> 0"
    using order A settledD by (auto simp: X_def thread_order_def)
  have mps: "mset ps = particles A"
  proof -
    let ?A = "map (\<lambda>s. (0, snd s)) A"
    have "\<forall>t < length A. ?A ! t = (if t \<in> set X then (0, snd (A ! t)) else A ! t)"
      using all by (auto simp: prod_eq_iff)
    from particles_clear [OF _ this dX(1,2)] have "particles ?A + mset ps = particles A" by (simp add: ps_def)
    moreover have "particles ?A = {#}" by (rule particles_empty) (auto simp: empty_frame_def)
    ultimately show ?thesis by simp
  qed
  show ?thesis
  proof (cases "length X = 0")
    case True
    have "bashFrame T order cell A st = (A, st, True)" unfolding bashFrame_def cnt Let_def prod.case by (simp add: True)
    then show ?thesis using True mps A that [of A ps] by (simp add: ps_def)
  next
    case False
    define tile where "tile = snd (ExchangePush_pushN (int (length X)) cell st)"
    define border where "border = fst (ExchangePush_pushN (int (length X)) cell st)"
    define m' where "m' = fst (bashThreads r tile [0..<T] (exchange_data border, A))"
    define A' where "A' = snd (bashThreads r tile [0..<T] (exchange_data border, A))"
    have len: "0 < length X" "int (length X) < 2 ^ 31" using False dX(3) A(3) by auto
    note push = pushN_effect [OF st k len, of cell]
    have size: "tile_getSize tile = int (min (length X) (M - n))"
    proof -
      have "i32 (int (min (length X) (M - n))) = int (min (length X) (M - n))" using len(2) by (intro i32_id) auto
      then show ?thesis using push st(3) by (auto simp: tile_def tile_getSize_def TileDataBox_of_def TileDataBox_null_def split: if_splits)
    qed
    have inj: "\<forall>t \<in> set [0..<T]. \<forall>u \<in> set [0..<T]. r t = r u \<and> r t \<noteq> None \<longrightarrow> t = u" using r by (metis option.exhaust)
    have small: "\<forall>t i. r t = Some i \<longrightarrow> i < INV_LOC_IDX" using r dX(3) A(3) by (force simp: INV_LOC_IDX_def)
    have eff: "length A' = length A"
      "\<forall>t < length A. A' ! t = (if t \<in> set [0..<T] \<and> (\<exists>i. r t = Some i \<and> int i < tile_getSize tile) then (0, snd (A ! t)) else A ! t)"
      "\<forall>t \<in> set [0..<T]. \<forall>i. r t = Some i \<and> int i < tile_getSize tile \<longrightarrow> m' (tile_offset tile + int i) = snd (A ! t)"
      "\<forall>x. (\<forall>t \<in> set [0..<T]. \<forall>i. r t = Some i \<and> int i < tile_getSize tile \<longrightarrow> x \<noteq> tile_offset tile + int i) \<longrightarrow> m' x = exchange_data border x"
      using bashThreads_effect [OF _ _ small inj, where tile = tile and m = "exchange_data border" and m' = m' and A' = A' and A = A] A(1)
      by (simp_all add: m'_def A'_def)
    let ?c = "min (length X) (M - n)"
    have taken: "t \<in> set (take (M - n) X) \<longleftrightarrow> (\<exists>i. r t = Some i \<and> int i < tile_getSize tile)" for t
      unfolding size r by (auto simp: in_set_conv_nth)
    have nths: "\<forall>t < length A. A' ! t = (if t \<in> set (take (M - n) X) then (0, snd (A ! t)) else A ! t)"
      using eff(2) A(1) by (simp add: taken)
    have clear: "particles A' + mset (take (M - n) ps) = particles A"
      using particles_clear [OF eff(1) nths] dX(1,2) by (auto simp: ps_def take_map dest: in_set_takeD)
    have set': "settled A'" using nths eff(1) A(2) by (auto simp: settled_nth)
    have mem: "(\<not> u32 (tile_getSize tile) < int (length X)) = (length ps \<le> M - n)"
    proof -
      have "u32 (int ?c) = int ?c" using len(2) by (intro u32_id) auto
      then show ?thesis by (auto simp: size ps_def)
    qed
    have stack: "border\<lparr>exchange_data := m'\<rparr> = (if min (length ps) (M - n) = 0 then st else sendBatch (cell, take (M - n) ps) st)"
    proof (cases "n = M")
      case True
      then have "border = st" using push by (simp add: border_def)
      moreover have "m' = exchange_data border" using eff(4) size True by auto
      ultimately show ?thesis using True by (cases st) simp
    next
      case False
      have off: "tile_offset tile = int n" using push False by (simp add: tile_def TileDataBox_of_def)
      have "m' x = tile_write (exchange_data border) (int n) (take (M - n) ps) x" for x
      proof (cases "int n \<le> x \<and> x < int (n + ?c)")
        case True
        then obtain i where i: "x = int n + int i" "i < ?c" by (metis add.commute add_less_cancel_left int_ops(5) le_iff_add nat_int_comparison(2) zle_iff_zadd)
        have "r (X ! i) = Some i" "X ! i \<in> set [0..<T]" using i(2) r dX(2) A(1) by auto
        then have "m' x = snd (A ! (X ! i))" using eff(3) i size off by auto
        then show ?thesis using i True by (simp add: tile_write_at ps_def)
      next
        case False
        then have "\<forall>t \<in> set [0..<T]. \<forall>i. r t = Some i \<and> int i < tile_getSize tile \<longrightarrow> x \<noteq> tile_offset tile + int i"
          unfolding size off by auto
        with eff(4) have "m' x = exchange_data border x" by blast
        then show ?thesis using False by (auto simp: tile_write_at ps_def)
      qed
      then have m': "m' = tile_write (exchange_data border) (int n) (take (M - n) ps)" by auto
      have fit: "int (n + length (snd (cell, take (M - n) ps))) \<le> exchange_max st" "exchange_max st < 2 ^ 31" using st by auto
      have c: "min (length ps) (M - n) \<noteq> 0" using len st(3) False by (auto simp: ps_def)
      show ?thesis unfolding if_not_P [OF c]
        using push False sendBatch_effect [OF st(1) fit k] by (cases st) (simp add: border_def m' ps_def)
    qed
    have "bashFrame T order cell A st = (A', border\<lparr>exchange_data := m'\<rparr>, \<not> u32 (tile_getSize tile) < int (length X))"
      unfolding bashFrame_def cnt prod.case Let_def if_P [OF len(1)]
      by (simp add: border_def tile_def m'_def A'_def split_beta)
    then show ?thesis using that [of A' ps] mps clear eff(1) A(1) set' by (simp add: mem stack)
  qed
qed

section \<open>One supercell\<close>

text \<open>The particles that the batches of a stack carry for a cell.\<close>

definition cellParticles :: "(DataSpace \<times> 'p list) list \<Rightarrow> DataSpace \<Rightarrow> 'p multiset" where
  "cellParticles bs c = sum_list (map (\<lambda>b. mset (snd b)) (filter (\<lambda>b. fst b = c) bs))"

definition batchSize :: "(DataSpace \<times> 'p list) list \<Rightarrow> nat" where
  "batchSize bs = sum_list (map (\<lambda>b. length (snd b)) bs)"

definition stack_state :: "nat \<Rightarrow> nat \<Rightarrow> 'p ExchangeStack \<Rightarrow> (DataSpace \<times> 'p list) list \<Rightarrow> bool" where
  "stack_state T M st bs \<longleftrightarrow> stack_holds st bs \<and> exchange_size st = int (batchSize bs) \<and> exchange_max st = int M
     \<and> batchSize bs \<le> M \<and> (\<forall>b \<in> set bs. 0 < length (snd b) \<and> length (snd b) \<le> T)"

lemma cellParticles_simps [simp]:
  "cellParticles [] c = {#}" "cellParticles (b # bs) c = (if fst b = c then mset (snd b) else {#}) + cellParticles bs c"
  "cellParticles (bs @ cs) c = cellParticles bs c + cellParticles cs c"
  by (simp_all add: cellParticles_def)

lemma batchSize_simps [simp]:
  "batchSize [] = 0" "batchSize (b # bs) = length (snd b) + batchSize bs" "batchSize (bs @ cs) = batchSize bs + batchSize cs"
  by (simp_all add: batchSize_def)

lemma batchOffset_batchSize: "batchOffset bs (length bs) = batchSize bs"
  by (simp add: batchOffset_full batchSize_def)

lemma cellParticles_none: "c \<notin> fst ` set bs \<Longrightarrow> cellParticles bs c = {#}"
  by (induction bs) auto

lemma stack_state_count:
  assumes "stack_state T M st bs"
  shows "length bs \<le> batchSize bs" "currentSize (virtualMemory st) = int (length bs)"
proof -
  have "\<forall>b \<in> set bs. 0 < length (snd b)" using assms by (simp add: stack_state_def)
  then show "length bs \<le> batchSize bs" by (induction bs) (auto simp: Suc_le_eq simp del: length_greater_0_conv)
  show "currentSize (virtualMemory st) = int (length bs)" using assms by (simp add: stack_state_def stack_holds_def)
qed

lemma occupied_le: "occupied xs \<le> length xs"
  unfolding occupied_def by (rule order_trans [OF card_mono [of "{..<length xs}"]]) auto

lemma bashFrame_state:
  assumes order: "thread_order T order" and A: "length A = T" "settled A" "T < 2 ^ 15"
    and st: "stack_state T M st bs" "int M < 2 ^ 31 - 1"
  obtains A' st' mem cs where "bashFrame T order cell A st = (A', st', mem)" "stack_state T M st' (bs @ cs)"
    "\<forall>b \<in> set cs. fst b = cell" "particles A' + cellParticles cs cell = particles A" "length A' = T" "settled A'"
    "mem \<Longrightarrow> particles A' = {#}" "\<not> mem \<Longrightarrow> batchSize (bs @ cs) = M"
proof -
  let ?n = "batchSize bs"
  have s: "exchange_size st = int ?n" "exchange_max st = int M" "?n \<le> M" "stack_holds st bs" "int M < 2 ^ 31"
    using st by (simp_all add: stack_state_def)
  have k: "currentSize (virtualMemory st) = int (length bs)" "int (length bs) < 2 ^ 31 - 1"
    using stack_state_count [OF st(1)] s(3) st(2) by simp_all
  obtain A' ps where run: "bashFrame T order cell A st =
      (A', if min (length ps) (M - ?n) = 0 then st else sendBatch (cell, take (M - ?n) ps) st, length ps \<le> M - ?n)"
    and ps: "mset ps = particles A" "particles A' + mset (take (M - ?n) ps) = particles A" "length A' = T" "settled A'"
    by (rule bashFrame_effect [OF order A s(1-3,5) k])
  have len: "length ps \<le> T" using ps(1) size_particles [of A] occupied_le [of A] A(1) by (metis size_mset)
  have last: "particles A' = {#}" if "length ps \<le> M - ?n" using ps(1,2) that by simp
  show ?thesis
  proof (cases "min (length ps) (M - ?n) = 0")
    case True
    then have "ps = [] \<or> M = ?n" using s(3) by (auto simp: min_def split: if_splits)
    then show ?thesis
      using that [of A' st _ "[]"] run True st(1) ps last s(3) by auto
  next
    case False
    let ?b = "(cell, take (M - ?n) ps)" and ?st = "sendBatch (cell, take (M - ?n) ps) st"
    have "stack_holds ?st (bs @ [?b]) \<and> exchange_max ?st = exchange_max st \<and> exchange_size ?st = int (batchOffset (bs @ [?b]) (length (bs @ [?b])))"
      by (rule sendBatch_holds) (use s k in \<open>auto simp: batchOffset_batchSize\<close>)
    then have "stack_state T M ?st (bs @ [?b])"
      unfolding batchOffset_batchSize using st(1) False len s(2,3) by (auto simp: stack_state_def)
    then show ?thesis
      using that [of A' ?st _ "[?b]"] run False ps last s(3) by auto
  qed
qed

definition frames_ok :: "nat \<Rightarrow> 'p ParticlesBox \<Rightarrow> addr list \<Rightarrow> bool" where
  "frames_ok T pb xs \<longleftrightarrow> (\<forall>a \<in> set xs. frame_ok T pb a)"

lemma dom_frames: "dom (frames pb) = dom (content pb)"
  by (auto simp: content_def)

lemma bashLoop_stop: "\<not> (valid \<and> hasMemory) \<Longrightarrow> bashLoop T order cell fuel idx frame valid hasMemory (pb, st) = Some (pb, st)"
  by (subst bashLoop.simps, subst if_not_P) simp_all

declare bashLoop.simps [simp del]

lemma bashLoop_correct:
  assumes T: "T < 2 ^ 15" "int M < 2 ^ 31 - 1" and order: "\<forall>k. thread_order T (order k)"
  shows "box_rep pb L \<Longrightarrow> frames_ok T pb (L idx) \<Longrightarrow> length (L idx) \<le> fuel \<Longrightarrow> stack_state T M st bs \<Longrightarrow>
    \<exists>pb' st' xs rest cs. bashLoop T order cell fuel idx (lastOr 0 (L idx)) (L idx \<noteq> []) True (pb, st) = Some (pb', st')
      \<and> L idx = xs @ rest \<and> box_rep pb' (L(idx := xs)) \<and> frames_ok T pb' xs \<and> stack_state T M st' (bs @ cs)
      \<and> (\<forall>b \<in> set cs. fst b = cell) \<and> listParticles pb' xs + cellParticles cs cell = listParticles pb (L idx)
      \<and> (xs \<noteq> [] \<longrightarrow> batchSize (bs @ cs) = M) \<and> sameCells pb pb' \<and> dom (frames pb') \<subseteq> dom (frames pb)
      \<and> (\<forall>a. a \<notin> set (L idx) \<longrightarrow> content pb' a = content pb a)"
proof (induction fuel arbitrary: pb L st bs)
  case 0
  then show ?case
    by (intro exI [of _ pb] exI [of _ st] exI [of _ "[]"]) (auto simp: fun_upd_idem frames_ok_def bashLoop_stop)
next
  case (Suc fuel)
  show ?case
  proof (cases "L idx = []")
    case True
    with Suc.prems show ?thesis
      by (intro exI [of _ pb] exI [of _ st] exI [of _ "[]"]) (auto simp: fun_upd_idem frames_ok_def bashLoop_stop)
  next
    case False
    then obtain xs a where L: "L idx = xs @ [a]" by (cases "L idx" rule: rev_cases) auto
    obtain A where A: "content pb a = Some A" "length A = T" "settled A"
      using Suc.prems(2) L by (auto simp: frames_ok_def frame_ok_def)
    obtain A' st1 mem cs1 where f: "bashFrame T (order (Suc fuel)) cell A st = (A', st1, mem)" "stack_state T M st1 (bs @ cs1)"
      "\<forall>b \<in> set cs1. fst b = cell" "particles A' + cellParticles cs1 cell = particles A" "length A' = T" "settled A'"
      "mem \<Longrightarrow> particles A' = {#}" "\<not> mem \<Longrightarrow> batchSize (bs @ cs1) = M"
      using bashFrame_state [OF order [rule_format] A(2,3) T(1) Suc.prems(4) T(2)] by metis
    obtain pb1 where m: "modifyFrame a (setSlots A') pb = Some pb1" "box_rep pb1 L" "content pb1 = (content pb)(a \<mapsto> A')"
      "superCells pb1 = superCells pb"
      by (rule modifyFrame_setSlots [OF Suc.prems(1) A(1)])
    have a: "a \<notin> set xs" using box_rep_distinct [OF Suc.prems(1), of idx] L by simp
    have frames1: "dom (frames pb1) = dom (frames pb)"
      using m(3) A(1) by (auto simp: dom_frames)
    show ?thesis
    proof (cases mem)
      case False
      have run: "bashLoop T order cell (Suc fuel) idx (lastOr 0 (L idx)) (L idx \<noteq> []) True (pb, st) = Some (pb1, st1)"
        using m(1) A(1) f(1) False by (subst bashLoop.simps) (simp add: L lastOr_def bashLoop_stop)
      have ok: "frames_ok T pb1 (L idx)"
        using Suc.prems(2) f(5,6) unfolding frames_ok_def frame_ok_def m(3) by simp
      have "listParticles pb1 xs = listParticles pb xs" using a m(3) by (intro listParticles_cong) auto
      then have sum: "listParticles pb1 (L idx) + cellParticles cs1 cell = listParticles pb (L idx)"
        using f(4) A(1) m(3) by (simp add: L frameParticles_content [of pb1 a A'] frameParticles_content [of pb a A] add.assoc)
      have L': "L(idx := L idx) = L" by simp
      have "content pb1 x = content pb x" if "x \<notin> set (L idx)" for x using that m(3) L by auto
      then show ?thesis
        using run ok sum f(2,3) f(8) [OF False] m(2) frames1 sameCells_eq [OF m(4)]
        by (intro exI [of _ pb1] exI [of _ st1] exI [of _ "L idx"] exI [of _ "[]"] exI [of _ cs1]) (simp add: L')
    next
      case True
      obtain pb2 where p2: "removeLastFrame idx pb1 = Some (pb2, xs \<noteq> [])" "box_rep pb2 (L(idx := xs))"
        "content pb2 = (content pb1)(a := None)" "sameCells pb1 pb2"
        by (rule removeLastFrame_content [OF m(2) L])
      let ?L = "L(idx := xs)"
      have run: "bashLoop T order cell (Suc fuel) idx (lastOr 0 (L idx)) (L idx \<noteq> []) True (pb, st)
          = bashLoop T order cell fuel idx (lastOr 0 (?L idx)) (?L idx \<noteq> []) True (pb2, st1)"
        using m(1) A(1) f(1) True p2(1) previous_of_last [OF m(2) L]
        by (subst bashLoop.simps) (simp add: L lastOr_def getPreviousFrameAndRemoveLastFrame_def)
      have c2: "content pb2 x = content pb x" if "x \<noteq> a" for x using that p2(3) m(3) by auto
      have ok: "frames_ok T pb2 (?L idx)"
        unfolding frames_ok_def frame_ok_def
      proof
        fix x assume "x \<in> set (?L idx)"
        then have "content pb2 x = content pb x" "x \<in> set (L idx)" using c2 [of x] a L by auto
        with Suc.prems(2) show "\<exists>s. content pb2 x = Some s \<and> length s = T \<and> settled s" by (simp add: frames_ok_def frame_ok_def)
      qed
      have len: "length (?L idx) \<le> fuel" using Suc.prems(3) by (simp add: L)
      obtain pb' st' ys rest cs where ih: "bashLoop T order cell fuel idx (lastOr 0 (?L idx)) (?L idx \<noteq> []) True (pb2, st1) = Some (pb', st')"
        "?L idx = ys @ rest" "box_rep pb' (?L(idx := ys))" "frames_ok T pb' ys" "stack_state T M st' ((bs @ cs1) @ cs)"
        "\<forall>b \<in> set cs. fst b = cell" "listParticles pb' ys + cellParticles cs cell = listParticles pb2 (?L idx)"
        "ys \<noteq> [] \<longrightarrow> batchSize ((bs @ cs1) @ cs) = M" "sameCells pb2 pb'" "dom (frames pb') \<subseteq> dom (frames pb2)"
        "\<forall>x. x \<notin> set (?L idx) \<longrightarrow> content pb' x = content pb2 x"
        using Suc.IH [OF p2(2) ok len f(2)] by blast
      have "dom (frames pb2) \<subseteq> dom (frames pb1)"
        using p2(3) by (auto simp: dom_frames)
      then have d: "dom (frames pb') \<subseteq> dom (frames pb)" using ih(10) frames1 by blast
      have sc: "sameCells pb pb'"
        using sameCells_trans [OF sameCells_eq [OF m(4)] sameCells_trans [OF p2(4) ih(9)]] .
      have "listParticles pb2 xs = listParticles pb xs" using a by (intro listParticles_cong c2) auto
      then have "listParticles pb' ys + cellParticles (cs1 @ cs) cell = listParticles pb (L idx)"
        using ih(7) f(4) f(7) [OF True] A(1) by (simp add: L frameParticles_content add.assoc add.commute)
      moreover have "content pb' x = content pb x" if "x \<notin> set (L idx)" for x
        using that ih(11) c2 [of x] L by auto
      ultimately show ?thesis
        unfolding run using ih(1,2,4,5,6,8) ih(3) [unfolded fun_upd_upd] f(3) d sc
        by - (rule exI [of _ pb'], rule exI [of _ st'], rule exI [of _ ys], rule exI [of _ "rest @ [a]"], rule exI [of _ "cs1 @ cs"],
          auto simp: L fun_upd_same simp del: fun_upd_apply)
    qed
  qed
qed

lemma kernelBash_correct:
  assumes T: "T < 2 ^ 15" "int M < 2 ^ 31 - 1" "\<forall>k. thread_order T (order k)"
    and rep: "box_rep pb L" "frames_ok T pb (L idx)" "length (L idx) \<le> fuel" and st: "stack_state T M st bs"
  obtains pb' st' xs rest cs where "kernelBashParticles T Dim ex order fuel idx (pb, st) = Some (pb', st')"
    "L idx = xs @ rest" "box_rep pb' (L(idx := xs))" "frames_ok T pb' xs" "stack_state T M st' (bs @ cs)"
    "\<forall>b \<in> set cs. fst b = reduceCell Dim idx ex"
    "listParticles pb' xs + cellParticles cs (reduceCell Dim idx ex) = listParticles pb (L idx)"
    "xs \<noteq> [] \<longrightarrow> batchSize (bs @ cs) = M" "dom (frames pb') \<subseteq> dom (frames pb)"
    "\<forall>a. a \<notin> set (L idx) \<longrightarrow> content pb' a = content pb a"
proof -
  obtain pb1 st' xs rest cs where l: "bashLoop T order (reduceCell Dim idx ex) fuel idx (lastOr 0 (L idx)) (L idx \<noteq> []) True (pb, st) = Some (pb1, st')"
    and r: "L idx = xs @ rest" "box_rep pb1 (L(idx := xs))" "frames_ok T pb1 xs" "stack_state T M st' (bs @ cs)"
    "\<forall>b \<in> set cs. fst b = reduceCell Dim idx ex"
    "listParticles pb1 xs + cellParticles cs (reduceCell Dim idx ex) = listParticles pb (L idx)"
    "xs \<noteq> [] \<longrightarrow> batchSize (bs @ cs) = M" "dom (frames pb1) \<subseteq> dom (frames pb)"
    "\<forall>a. a \<notin> set (L idx) \<longrightarrow> content pb1 a = content pb a"
    using bashLoop_correct [OF T rep st] by blast
  let ?pb = "modifyCell idx (setSizeLastFrame 0) pb1"
  have run: "kernelBashParticles T Dim ex order fuel idx (pb, st) = Some (?pb, st')"
    using l getLastFrame_rep [OF rep(1), of idx] by (simp add: kernelBashParticles_def)
  have same: "content ?pb = content pb1" by simp
  have parts: "listParticles ?pb xs = listParticles pb1 xs" by (rule listParticles_cong) simp
  show ?thesis
    by (rule that [OF run r(1) box_rep_setSize [OF r(2)] _ r(4,5) _ r(7)])
      (use r(3,6,8,9) in \<open>simp_all add: frames_ok_def frame_ok_def parts dom_frames\<close>)
qed

section \<open>All supercells of a direction\<close>

lemma bashBlocks_correct:
  assumes T: "T < 2 ^ 15" "int M < 2 ^ 31 - 1" "\<forall>idx k. thread_order T (order idx k)"
  shows "distinct cells \<Longrightarrow> inj_on (\<lambda>idx. reduceCell Dim idx ex) (set cells) \<Longrightarrow> box_rep pb L \<Longrightarrow>
    \<forall>idx \<in> set cells. frames_ok T pb (L idx) \<and> length (L idx) \<le> fuel \<Longrightarrow> stack_state T M st bs \<Longrightarrow>
    \<exists>pb' st' L' cs. bashBlocks T Dim ex order fuel cells (pb, st) = Some (pb', st') \<and> box_rep pb' L'
      \<and> (\<forall>j. j \<notin> set cells \<longrightarrow> L' j = L j \<and> (\<forall>a \<in> set (L j). content pb' a = content pb a))
      \<and> (\<forall>idx \<in> set cells. frames_ok T pb' (L' idx) \<and> length (L' idx) \<le> length (L idx)
           \<and> listParticles pb' (L' idx) + cellParticles cs (reduceCell Dim idx ex) = listParticles pb (L idx))
      \<and> stack_state T M st' (bs @ cs) \<and> fst ` set cs \<subseteq> (\<lambda>idx. reduceCell Dim idx ex) ` set cells
      \<and> (batchSize (bs @ cs) < M \<longrightarrow> (\<forall>idx \<in> set cells. L' idx = [])) \<and> dom (frames pb') \<subseteq> dom (frames pb)"
proof (induction cells arbitrary: pb L st bs)
  case Nil
  then show ?case by (intro exI [of _ pb] exI [of _ st] exI [of _ L] exI [of _ "[]"]) simp
next
  case (Cons idx cells)
  let ?red = "\<lambda>idx. reduceCell Dim idx ex"
  have own: "frames_ok T pb (L idx)" "length (L idx) \<le> fuel" using Cons.prems(4) by auto
  obtain pb1 st1 xs rest cs1 where k: "kernelBashParticles T Dim ex (order idx) fuel idx (pb, st) = Some (pb1, st1)"
    "L idx = xs @ rest" "box_rep pb1 (L(idx := xs))" "frames_ok T pb1 xs" "stack_state T M st1 (bs @ cs1)"
    "\<forall>b \<in> set cs1. fst b = ?red idx" "listParticles pb1 xs + cellParticles cs1 (?red idx) = listParticles pb (L idx)"
    "xs \<noteq> [] \<longrightarrow> batchSize (bs @ cs1) = M" "dom (frames pb1) \<subseteq> dom (frames pb)"
    "\<forall>a. a \<notin> set (L idx) \<longrightarrow> content pb1 a = content pb a"
    by (rule kernelBash_correct [OF T(1,2) T(3) [THEN spec] Cons.prems(3) own Cons.prems(5)])
  let ?L = "L(idx := xs)"
  have ne: "idx \<notin> set cells" and red: "?red idx \<notin> ?red ` set cells" "inj_on ?red (set cells)" "distinct cells"
    using Cons.prems(1,2) by auto
  have c1: "\<forall>a \<in> set (L j). content pb1 a = content pb a" if "j \<noteq> idx" for j
    using k(10) box_rep_disjoint [OF Cons.prems(3) that] by blast
  have "frames_ok T pb1 (?L j) \<and> length (?L j) \<le> fuel" if "j \<in> set cells" for j
  proof -
    have "j \<noteq> idx" using that ne by blast
    then show ?thesis using that Cons.prems(4) c1 [of j] by (simp add: frames_ok_def frame_ok_def)
  qed
  then have ready: "\<forall>j \<in> set cells. frames_ok T pb1 (?L j) \<and> length (?L j) \<le> fuel" by blast
  obtain pb' st' L' cs where ih: "bashBlocks T Dim ex order fuel cells (pb1, st1) = Some (pb', st')" "box_rep pb' L'"
    "\<forall>j. j \<notin> set cells \<longrightarrow> L' j = ?L j \<and> (\<forall>a \<in> set (?L j). content pb' a = content pb1 a)"
    "\<forall>j \<in> set cells. frames_ok T pb' (L' j) \<and> length (L' j) \<le> length (?L j)
       \<and> listParticles pb' (L' j) + cellParticles cs (?red j) = listParticles pb1 (?L j)"
    "stack_state T M st' ((bs @ cs1) @ cs)" "fst ` set cs \<subseteq> ?red ` set cells"
    "batchSize ((bs @ cs1) @ cs) < M \<longrightarrow> (\<forall>j \<in> set cells. L' j = [])" "dom (frames pb') \<subseteq> dom (frames pb1)"
    using Cons.IH [OF red(3,2) k(3) ready k(5)] by (elim exE conjE) (rule that)
  have L': "L' idx = xs" "\<forall>a \<in> set xs. content pb' a = content pb1 a" using ih(3) ne by auto
  have ok: "frames_ok T pb' xs" using k(4) L'(2) by (simp add: frames_ok_def frame_ok_def)
  have own: "listParticles pb' (L' idx) + cellParticles (cs1 @ cs) (?red idx) = listParticles pb (L idx)"
  proof -
    have "?red idx \<notin> fst ` set cs" using ih(6) red(1) by blast
    moreover have "listParticles pb' xs = listParticles pb1 xs" using L'(2) by (intro listParticles_cong) simp
    ultimately show ?thesis using k(7) by (simp add: L' cellParticles_none)
  qed
  have others: "listParticles pb' (L' j) + cellParticles (cs1 @ cs) (?red j) = listParticles pb (L j)" if "j \<in> set cells" for j
  proof -
    have j: "j \<noteq> idx" using that ne by blast
    have "?red j \<notin> fst ` set cs1" using k(6) red(1) that by (auto simp: image_iff)
    moreover have "listParticles pb1 (L j) = listParticles pb (L j)" using c1 [OF j] by (intro listParticles_cong) simp
    ultimately show ?thesis using ih(4) that j by (simp add: cellParticles_none)
  qed
  have out: "L' j = L j \<and> (\<forall>a \<in> set (L j). content pb' a = content pb a)" if "j \<notin> set (idx # cells)" for j
    using ih(3) [THEN spec, of j] c1 [of j] that by auto
  have "batchSize (bs @ cs1 @ cs) < M \<longrightarrow> (\<forall>j \<in> set (idx # cells). L' j = [])"
    using ih(7) k(8) L'(1) by auto
  moreover have "fst ` set (cs1 @ cs) \<subseteq> ?red ` set (idx # cells)" using ih(6) k(6) by auto
  moreover have "\<forall>j \<in> set (idx # cells). frames_ok T pb' (L' j) \<and> length (L' j) \<le> length (L j)
      \<and> listParticles pb' (L' j) + cellParticles (cs1 @ cs) (?red j) = listParticles pb (L j)"
    using ih(4) ne ok own others L'(1) k(2) by (auto split: if_splits)
  moreover have "bashBlocks T Dim ex order fuel (idx # cells) (pb, st) = Some (pb', st')" using k(1) ih(1) by simp
  moreover have "stack_state T M st' (bs @ cs1 @ cs)" "dom (frames pb') \<subseteq> dom (frames pb)" using ih(5,8) k(9) by auto
  ultimately show ?case using ih(2) out
    by - (rule exI [of _ pb'], rule exI [of _ st'], rule exI [of _ L'], rule exI [of _ "cs1 @ cs"], blast)
qed

section \<open>Inserting batches\<close>

lemma insertThreads_effect:
  "distinct ts \<Longrightarrow> length (insertThreads c m tile ts A) = length A
   \<and> (\<forall>t < length A. insertThreads c m tile ts A ! t =
        (if t \<in> set ts \<and> int t < c then (1, m (tile_offset tile + int t)) else A ! t))"
  by (induction ts arbitrary: A) (auto simp: nth_list_update)

lemma particles_front:
  assumes "front_packed n xs"
  shows "particles xs = mset (map snd (take n xs))"
proof -
  have "particles (take n xs) = mset (map snd (take n xs))"
  proof -
    have "particles ys = mset (map snd ys)" if "\<forall>s \<in> set ys. fst s = 1" for ys :: "'a slot list"
      using that by (induction ys) (auto simp: particles_def slotParticle_def)
    moreover have "\<forall>s \<in> set (take n xs). fst s = 1"
      using assms unfolding front_packed_def all_set_conv_all_nth by simp
    ultimately show ?thesis by blast
  qed
  moreover have "particles (drop n xs) = {#}"
    using assms by (intro particles_empty) (auto simp: front_packed_def empty_frame_nth)
  moreover have "particles (take n xs @ drop n xs) = particles (take n xs) + particles (drop n xs)"
    by (simp add: particles_def del: append_take_drop_id)
  ultimately show ?thesis by simp
qed

lemma inserted_frame:
  assumes A: "length A = T" "front_packed 0 A" and c: "tile_getSize tile = int c" "c \<le> T"
  shows "front_packed c (insertThreads (int c) m tile [0..<T] A)" "length (insertThreads (int c) m tile [0..<T] A) = T"
    "particles (insertThreads (int c) m tile [0..<T] A) = mset (tile_read m tile)"
proof -
  let ?A = "insertThreads (int c) m tile [0..<T] A"
  note e = insertThreads_effect [of "[0..<T]" "int c" m tile A, simplified]
  show len: "length ?A = T" using e A by simp
  show fp: "front_packed c ?A" using e A c(2) by (auto simp: front_packed_def)
  have "map snd (take c ?A) = tile_read m tile"
    using e A c by (intro nth_equalityI) (auto simp: tile_read_def)
  then show "particles ?A = mset (tile_read m tile)" using particles_front [OF fp] by simp
qed

definition target :: "MappingDescription \<Rightarrow> nat \<Rightarrow> DataSpace \<Rightarrow> DataSpace" where
  "target m ex c = extendCell (length (gridSuperCells m)) c ex (gridSuperCells m) (guardingSuperCells m)"

lemma kernelInsert_correct:
  assumes alloc: "good_allocator T malloc garbage" and rep: "box_rep pb L" "finite (dom (frames pb))"
    and st: "stack_holds st (bs @ [b])" "0 < length (snd b)" "length (snd b) \<le> T" "batchSize (bs @ [b]) < 2 ^ 31"
      "int (length bs) < 2 ^ 31 - 1"
  obtains pb' st' a where "kernelInsertParticles T m ex malloc garbage (pb, st) = Some (pb', st')" "stack_holds st' bs"
    "box_rep pb' (L(target m ex (fst b) := L (target m ex (fst b)) @ [a]))" "a \<notin> dom (frames pb)" "finite (dom (frames pb'))"
    "frame_ok T pb' a" "frameParticles pb' a = mset (snd b)" "\<forall>x \<in> dom (frames pb). content pb' x = content pb x" "sameCells pb pb'"
proof -
  have off: "batchOffset (bs @ [b]) (Suc (length bs)) < 2 ^ 31" using st(4) batchOffset_batchSize [of "bs @ [b]"] by simp
  obtain st' tile where pop: "ExchangePop_pop st = (st', Some (fst b), tile)" "stack_holds st' bs"
    "exchange_data st' = exchange_data st" "tile_read (exchange_data st) tile = snd b"
    by (rule ExchangePop_effect [OF st(1,5) off])
  have "length (snd b) = nat (tile_getSize tile)" unfolding pop(4) [symmetric] by (simp add: tile_read_def)
  with st(2) have cnt: "tile_getSize tile = int (length (snd b))" by linarith
  obtain a pb1 s where g: "getEmptyFrame malloc garbage pb = (a, pb1)" "box_rep pb1 L" "free_frame pb1 L a"
    "content pb1 a = Some s" "length s = T" "front_packed 0 s" "a \<notin> dom (frames pb)" "finite (dom (frames pb1))"
    "\<forall>x \<in> dom (frames pb). content pb1 x = content pb x" "superCells pb1 = superCells pb"
    by (rule getEmptyFrame_content [OF good_allocatorD [OF alloc] rep])
  let ?A = "insertThreads (tile_getSize tile) (exchange_data st') tile [0..<T] s" and ?dst = "target m ex (fst b)"
  obtain pb2 where p2: "modifyFrame a (setSlots ?A) pb1 = Some pb2" "box_rep pb2 L" "content pb2 = (content pb1)(a \<mapsto> ?A)"
    "superCells pb2 = superCells pb1"
    by (rule modifyFrame_setSlots [OF g(2,4)])
  have free: "free_frame pb2 L a"
    using g(3) p2(3) g(4) by (auto simp: free_frame_def dom_content)
  obtain pb' where p: "setAsLastFrame a ?dst pb2 = Some pb'" "box_rep pb' (L(?dst := L ?dst @ [a]))" "dom (frames pb') = dom (frames pb2)"
    using setAsLastFrame_rep [OF p2(2) free, of ?dst] by blast
  have c: "content pb' = content pb2" by (rule content_setAsLastFrame [OF p(1)])
  note fr = inserted_frame [OF g(5,6) cnt st(3), of "exchange_data st'", folded cnt]
  show ?thesis
  proof (rule that [OF _ pop(2) p(2) g(7)])
    show "kernelInsertParticles T m ex malloc garbage (pb, st) = Some (pb', st')"
      using pop(1) cnt st(2) g(1,4) p2(1) p(1) by (simp add: kernelInsertParticles_def target_def)
    show "finite (dom (frames pb'))" using g(8) by (simp add: dom_frames c p2(3))
    show "frame_ok T pb' a" using fr(1,2) front_packed_settled by (auto simp: frame_ok_def c p2(3))
    show "frameParticles pb' a = mset (snd b)" using fr(3) pop(3,4) by (simp add: frameParticles_def c p2(3))
    show "\<forall>x \<in> dom (frames pb). content pb' x = content pb x" using g(7,9) by (auto simp: c p2(3))
    show "sameCells pb pb'"
      using sameCells_trans [OF sameCells_eq sameCells_setAsLastFrame [OF p(1)]] g(10) p2(4) by simp
  qed
qed

lemma insertBlocks_correct:
  assumes alloc: "good_allocator T malloc garbage"
  shows "box_rep pb L \<Longrightarrow> finite (dom (frames pb)) \<Longrightarrow> stack_holds st bs \<Longrightarrow> batchSize bs < 2 ^ 31 \<Longrightarrow> int (length bs) < 2 ^ 31 \<Longrightarrow>
    \<forall>b \<in> set bs. 0 < length (snd b) \<and> length (snd b) \<le> T \<Longrightarrow>
    \<exists>pb' st' L'. insertBlocks T m ex malloc garbage (length bs) (pb, st) = Some (pb', st') \<and> box_rep pb' L' \<and> finite (dom (frames pb'))
      \<and> (\<forall>j. \<exists>new. L' j = L j @ new \<and> frames_ok T pb' new
           \<and> listParticles pb' new = cellParticles (map (\<lambda>b. (target m ex (fst b), snd b)) bs) j
           \<and> (j \<notin> (\<lambda>b. target m ex (fst b)) ` set bs \<longrightarrow> new = []))
      \<and> (\<forall>x \<in> dom (frames pb). content pb' x = content pb x) \<and> sameCells pb pb'"
proof (induction bs arbitrary: pb L st rule: rev_induct)
  case Nil
  then show ?case by (intro exI [of _ pb] exI [of _ st] exI [of _ L]) (simp add: frames_ok_def)
next
  case (snoc b bs)
  let ?t = "target m ex (fst b)" and ?map = "map (\<lambda>b. (target m ex (fst b), snd b))"
  have b: "0 < length (snd b)" "length (snd b) \<le> T" "int (length bs) < 2 ^ 31 - 1" using snoc.prems(5,6) by auto
  obtain pb1 st1 a where k: "kernelInsertParticles T m ex malloc garbage (pb, st) = Some (pb1, st1)" "stack_holds st1 bs"
    "box_rep pb1 (L(?t := L ?t @ [a]))" "a \<notin> dom (frames pb)" "finite (dom (frames pb1))"
    "frame_ok T pb1 a" "frameParticles pb1 a = mset (snd b)" "\<forall>x \<in> dom (frames pb). content pb1 x = content pb x" "sameCells pb pb1"
    by (rule kernelInsert_correct [OF alloc snoc.prems(1-3) b(1,2) snoc.prems(4) b(3)])
  let ?L = "L(?t := L ?t @ [a])"
  have lim: "batchSize bs < 2 ^ 31" "int (length bs) < 2 ^ 31" "\<forall>b \<in> set bs. 0 < length (snd b) \<and> length (snd b) \<le> T"
    using snoc.prems(4-6) by auto
  obtain pb' st' L' where ih: "insertBlocks T m ex malloc garbage (length bs) (pb1, st1) = Some (pb', st')" "box_rep pb' L'"
    "finite (dom (frames pb'))"
    "\<forall>j. \<exists>new. L' j = ?L j @ new \<and> frames_ok T pb' new \<and> listParticles pb' new = cellParticles (?map bs) j
       \<and> (j \<notin> (\<lambda>b. target m ex (fst b)) ` set bs \<longrightarrow> new = [])"
    "\<forall>x \<in> dom (frames pb1). content pb' x = content pb1 x" "sameCells pb1 pb'"
    using snoc.IH [OF k(3,5,2) lim] by (elim exE conjE) (rule that)
  have sub: "dom (frames pb) \<subseteq> dom (frames pb1)"
    using k(8) unfolding dom_frames by (metis domIff subsetI)
  have a: "content pb' a = content pb1 a" using ih(5) k(6) by (auto simp: frame_ok_def dom_content)
  have "\<exists>new. L' j = L j @ new \<and> frames_ok T pb' new \<and> listParticles pb' new = cellParticles (?map (bs @ [b])) j
      \<and> (j \<notin> (\<lambda>b. target m ex (fst b)) ` set (bs @ [b]) \<longrightarrow> new = [])" for j
  proof -
    obtain new where new: "L' j = ?L j @ new" "frames_ok T pb' new" "listParticles pb' new = cellParticles (?map bs) j"
      "j \<notin> (\<lambda>b. target m ex (fst b)) ` set bs \<longrightarrow> new = []"
      using ih(4) by blast
    show ?thesis
    proof (cases "j = ?t")
      case True
      have "frame_ok T pb' a" "frameParticles pb' a = mset (snd b)" using k(6,7) a by (simp_all add: frame_ok_def frameParticles_def)
      with new True show ?thesis by (intro exI [of _ "a # new"]) (auto simp: frames_ok_def)
    next
      case False
      with new show ?thesis by (intro exI [of _ new]) auto
    qed
  qed
  moreover have "\<forall>x \<in> dom (frames pb). content pb' x = content pb x" using ih(5) k(8) sub by (metis subsetD)
  ultimately show ?case
    using k(1) ih(1-3) sameCells_trans [OF k(9) ih(6)]
    by - (rule exI [of _ pb'], rule exI [of _ st'], rule exI [of _ L'], auto)
qed

end
