(* ===== verification/SpeciesExchange.thy ===== *)
theory SpeciesExchange
  imports ParticleTasks ExchangeParticles
begin

text \<open>
  The tasks of ParticleTasks run on the particle kernels of ExchangeParticles: the particles in the guard supercells of one
  direction of a process move to the neighbour in that direction, whatever the number of particles and the size of the
  exchange buffers. The contract of the tasks is interpreted here by the model of \<open>bashParticles\<close> and
  \<open>insertParticles\<close>.
\<close>

section \<open>Cells of a direction\<close>

definition guardCells :: "MappingDescription \<Rightarrow> nat \<Rightarrow> DataSpace set" where
  "guardCells m ex = exchange_getSuperCellIndex GUARD (ExchangeMapping_of m ex) ` box (exchange_getGridDim GUARD (ExchangeMapping_of m ex))"

text \<open>Where the particles of a guard supercell belong in the neighbouring process.\<close>

definition imageCell :: "MappingDescription \<Rightarrow> nat \<Rightarrow> DataSpace \<Rightarrow> DataSpace" where
  "imageCell m ex p = moved_against (gridSuperCells m) (getRelativeDirections (length (gridSuperCells m)) ex) p"

lemma guardCells_index:
  assumes "mapping_wf m" "0 < ex" "ex < 3 ^ length (gridSuperCells m)"
  shows "inj_on (exchange_getSuperCellIndex GUARD (ExchangeMapping_of m ex)) (box (exchange_getGridDim GUARD (ExchangeMapping_of m ex)))"
    and "i \<in> box (exchange_getGridDim GUARD (ExchangeMapping_of m ex)) \<Longrightarrow>
      exchange_getSuperCellIndex GUARD (ExchangeMapping_of m ex) i
        = layersPos 0 (guardingSuperCells m) (gridSuperCells m) (relativeDigits (length (gridSuperCells m)) ex) i"
proof -
  let ?n = "gridSuperCells m" and ?g = "guardingSuperCells m"
  note sch = exchange_scheme [OF assms(1), of GUARD 0 ?g, simplified]
  show eq: "exchange_getSuperCellIndex GUARD (ExchangeMapping_of m ex) i = layersPos 0 ?g ?n (relativeDigits (length ?n) ex) i"
    if "i \<in> box (exchange_getGridDim GUARD (ExchangeMapping_of m ex))" for i
    using sch(2) [OF assms(2,3)] that by (simp add: sch(1))
  have "inj_on (\<lambda>(ex, i). layersPos 0 ?g ?n (relativeDigits (length ?n) ex) i)
      (SIGMA ex : {1..<3 ^ length ?n}. box (layersDim 0 ?g ?n (relativeDigits (length ?n) ex)))"
    using bij_betw_imp_inj_on [OF layers_partition [of 0 ?g ?n]] sch by simp
  then have "inj_on (layersPos 0 ?g ?n (relativeDigits (length ?n) ex)) (box (layersDim 0 ?g ?n (relativeDigits (length ?n) ex)))"
    using assms(2,3) by (force simp: inj_on_def)
  then show "inj_on (exchange_getSuperCellIndex GUARD (ExchangeMapping_of m ex)) (box (exchange_getGridDim GUARD (ExchangeMapping_of m ex)))"
    using eq by (simp add: inj_on_def sch(1))
qed

lemma guardCells_pos:
  assumes wf: "mapping_wf m" "0 < ex" "ex < 3 ^ length (gridSuperCells m)" and g: "guardingSuperCells m = 1" and p: "p \<in> guardCells m ex"
  shows "guard_pos (gridSuperCells m) (getRelativeDirections (length (gridSuperCells m)) ex) p"
proof -
  let ?n = "gridSuperCells m"
  let ?v = "relativeDigits (length ?n) ex"
  obtain i where i: "i \<in> box (exchange_getGridDim GUARD (ExchangeMapping_of m ex))" "p = layersPos 0 1 ?n ?v i"
    using p guardCells_index(2) [OF wf] g by (auto simp: guardCells_def)
  have dir: "getRelativeDirections (length ?n) ex = ?v" using wf(1) by (auto simp: getRelativeDirections_def mapping_wf_def)
  have lv: "length ?v = length ?n" using relativeDigits_unit [of "length ?n" ex] by (simp add: unit_offsets_def)
  have "exchange_getGridDim GUARD (ExchangeMapping_of m ex) = layersDim 0 1 ?n ?v"
    using exchange_scheme(1) [OF wf(1), of GUARD 0 "guardingSuperCells m"] g by simp
  then have ib: "length i = length ?n" "\<forall>d < length ?n. 0 \<le> i ! d \<and> i ! d < layerDim 0 1 (?n ! d) (?v ! d)"
    using i(1) lv by (auto simp: box_def layersDim_def)
  have "layerPos 0 1 (?n ! d) (?v ! d) (i ! d) = 0" if "d < length ?n" "?v ! d = -1" for d
    using ib(2) that by (auto simp: layerPos_def layerDim_def)
  moreover have "layerPos 0 1 (?n ! d) (?v ! d) (i ! d) = ?n ! d - 1" if "d < length ?n" "?v ! d = 1" for d
    using ib(2) that by (auto simp: layerPos_def layerDim_def)
  ultimately show ?thesis
    unfolding dir using lv by (simp add: guard_pos_def i(2) layersPos_def)
qed

lemma target_reduceCell:
  assumes "mapping_wf m" "0 < ex" "ex < 3 ^ length (gridSuperCells m)" "guardingSuperCells m = 1"
    "getMirroredExchangeType ex = Inr ex'" "p \<in> guardCells m ex"
  shows "target m ex' (reduceCell (length (gridSuperCells m)) p ex) = imageCell m ex p"
proof -
  have gp: "guard_pos (gridSuperCells m) (getRelativeDirections (length (gridSuperCells m)) ex) p"
    by (rule guardCells_pos [OF assms(1-4,6)])
  have "length (gridSuperCells m) = 2 \<or> length (gridSuperCells m) = 3" using assms(1) by (simp add: mapping_wf_def)
  then show ?thesis
  proof
    assume n: "length (gridSuperCells m) = 2"
    show ?thesis using extend_reduce_exchange2 [OF assms(2) _ n _ assms(5)] gp assms(3)
      by (simp add: target_def extendCell_def reduceCell_def imageCell_def n assms(4))
  next
    assume n: "length (gridSuperCells m) = 3"
    show ?thesis using extend_reduce_exchange3 [OF assms(2) _ n _ assms(5)] gp assms(3)
      by (simp add: target_def extendCell_def reduceCell_def imageCell_def n assms(4))
  qed
qed

lemma imageCell_inj:
  assumes "mapping_wf m" "0 < ex" "ex < 3 ^ length (gridSuperCells m)" "guardingSuperCells m = 1"
  shows "inj_on (imageCell m ex) (guardCells m ex)"
proof (rule inj_onI)
  fix p q assume pq: "p \<in> guardCells m ex" "q \<in> guardCells m ex" "imageCell m ex p = imageCell m ex q"
  have "length p = length (gridSuperCells m)" "length q = length (gridSuperCells m)"
    using guardCells_pos [OF assms] pq by (auto simp: guard_pos_def)
  then show "p = q" using pq(3)
    by (intro nth_equalityI) (auto simp: imageCell_def moved_against_def map_eq_conv)
qed

section \<open>The species as argument of the tasks\<close>

text \<open>
  What is fixed for one direction: the size of a frame, the cell description, the direction and its mirror, the size of
  the exchange buffers, the scheduling of the blocks and threads of the kernels per round, and the allocator of the
  receiver.
\<close>

record 'p ExchangeSetup =
  tileSize :: nat
  cellDescription :: MappingDescription
  sendDirection :: nat
  recvDirection :: nat
  maxParticles :: nat
  arrival :: "nat \<Rightarrow> DataSpace \<Rightarrow> nat \<Rightarrow> nat list"
  blockOrder :: "nat \<Rightarrow> DataSpace list"
  frameFuel :: nat
  mallocFrame :: "(addr \<rightharpoonup> 'p Frame) \<Rightarrow> addr"
  garbageFrame :: "addr \<Rightarrow> 'p Frame"

definition speciesBash :: "'p ExchangeSetup \<Rightarrow> nat \<Rightarrow> 'p ParticlesBox \<times> 'p ExchangeStack \<Rightarrow> ('p ParticlesBox \<times> 'p ExchangeStack) option" where
  "speciesBash e r = bashParticles (tileSize e) (cellDescription e) (sendDirection e) (arrival e r) (frameFuel e) (blockOrder e r)"

definition speciesInsert :: "'p ExchangeSetup \<Rightarrow> 'p ExchangeStack \<Rightarrow> 'p ParticlesBox \<Rightarrow> 'p ParticlesBox option" where
  "speciesInsert e border pb =
     map_option fst (insertParticles (tileSize e) (cellDescription e) (recvDirection e) (mallocFrame e) (garbageFrame e) (pb, border))"

definition particlesCurrentSize :: "'p ExchangeStack \<Rightarrow> nat" where
  "particlesCurrentSize border = nat (exchange_size border)"

definition setup_ok :: "'p ExchangeSetup \<Rightarrow> bool" where
  "setup_ok e \<longleftrightarrow>
     tileSize e < 2 ^ 15 \<and> 0 < maxParticles e \<and> int (maxParticles e) < 2 ^ 31 - 1
     \<and> (\<forall>r idx k. thread_order (tileSize e) (arrival e r idx k))
     \<and> (\<forall>r. distinct (blockOrder e r) \<and>
          set (blockOrder e r) = box (exchange_getGridDim GUARD (ExchangeMapping_of (cellDescription e) (sendDirection e))))
     \<and> mapping_wf (cellDescription e) \<and> guardingSuperCells (cellDescription e) = 1
     \<and> 0 < sendDirection e \<and> sendDirection e < 3 ^ length (gridSuperCells (cellDescription e))
     \<and> getMirroredExchangeType (sendDirection e) = Inr (recvDirection e)
     \<and> good_allocator (tileSize e) (mallocFrame e) (garbageFrame e)"

lemma setup_okD:
  assumes "setup_ok e"
  shows "tileSize e < 2 ^ 15" "0 < maxParticles e" "int (maxParticles e) < 2 ^ 31 - 1"
    "\<forall>r idx k. thread_order (tileSize e) (arrival e r idx k)"
    "\<forall>r. distinct (blockOrder e r)"
    "\<forall>r. set (blockOrder e r) = box (exchange_getGridDim GUARD (ExchangeMapping_of (cellDescription e) (sendDirection e)))"
    "mapping_wf (cellDescription e)" "0 < sendDirection e" "sendDirection e < 3 ^ length (gridSuperCells (cellDescription e))"
    "guardingSuperCells (cellDescription e) = 1" "getMirroredExchangeType (sendDirection e) = Inr (recvDirection e)"
    "good_allocator (tileSize e) (mallocFrame e) (garbageFrame e)"
  using assms by (auto simp: setup_ok_def)

definition sendCells :: "'p ExchangeSetup \<Rightarrow> DataSpace set" where
  "sendCells e = guardCells (cellDescription e) (sendDirection e)"

definition sentAs :: "'p ExchangeSetup \<Rightarrow> DataSpace \<Rightarrow> DataSpace" where
  "sentAs e p = reduceCell (length (gridSuperCells (cellDescription e))) p (sendDirection e)"

definition arrivesAt :: "'p ExchangeSetup \<Rightarrow> DataSpace \<Rightarrow> DataSpace" where
  "arrivesAt e p = imageCell (cellDescription e) (sendDirection e) p"

lemma target_sentAs:
  assumes "setup_ok e" "p \<in> sendCells e"
  shows "target (cellDescription e) (recvDirection e) (sentAs e p) = arrivesAt e p"
  using target_reduceCell setup_okD(7-11) [OF assms(1)] assms(2) by (simp add: sentAs_def arrivesAt_def sendCells_def)

lemma arrivesAt_inj: "setup_ok e \<Longrightarrow> inj_on (arrivesAt e) (sendCells e)"
  using imageCell_inj [OF setup_okD(7-10)] by (simp add: arrivesAt_def [abs_def] sendCells_def inj_on_def)

lemma sentAs_inj:
  assumes "setup_ok e"
  shows "inj_on (sentAs e) (sendCells e)"
proof (rule inj_onI)
  fix p q assume "p \<in> sendCells e" "q \<in> sendCells e" "sentAs e p = sentAs e q"
  then show "p = q" using target_sentAs [OF assms] arrivesAt_inj [OF assms] by (metis inj_onD)
qed

text \<open>The blocks of a round work on the cells of the direction, one block per cell.\<close>

lemma blockCells:
  fixes e :: "'p ExchangeSetup" and r :: nat
  assumes "setup_ok e"
  defines "cs \<equiv> map (exchange_getSuperCellIndex GUARD (ExchangeMapping_of (cellDescription e) (sendDirection e))) (blockOrder e r)"
  shows "distinct cs" "set cs = sendCells e" "finite (sendCells e)"
proof -
  note d = setup_okD [OF assms(1)]
  show s: "set cs = sendCells e" using d(6) by (simp add: cs_def sendCells_def guardCells_def)
  show "distinct cs" unfolding cs_def distinct_map using d(5,6) guardCells_index(1) [OF d(7-9)] by simp
  show "finite (sendCells e)" using s by (metis finite_set)
qed

section \<open>Lists and batches as functions of the state\<close>

lemma linked_unique:
  "linked h p xs 0 \<Longrightarrow> linked h p ys 0 \<Longrightarrow> headOr 0 xs = headOr 0 ys \<Longrightarrow> xs = ys"
proof (induction xs arbitrary: p ys)
  case Nil
  then show ?case using linked_in_heap [of h p ys 0] by (cases ys) auto
next
  case (Cons x xs)
  then obtain y ys' where ys: "ys = x # ys'" using linked_in_heap [of h p "x # xs" 0 x] by (cases ys) auto
  from Cons.prems show ?case unfolding ys by (auto split: option.splits intro: Cons.IH)
qed

lemma box_rep_unique: "box_rep pb L \<Longrightarrow> box_rep pb L' \<Longrightarrow> L = L'"
  by (rule ext, rule linked_unique) (auto simp: box_rep_def cell_list_def)

definition framesOf :: "'p ParticlesBox \<Rightarrow> DataSpace \<Rightarrow> addr list" where
  "framesOf pb = (THE L. box_rep pb L)"

lemma framesOf: "box_rep pb L \<Longrightarrow> framesOf pb = L"
  unfolding framesOf_def using box_rep_unique by blast

definition batchesOf :: "'p ExchangeStack \<Rightarrow> (DataSpace \<times> 'p list) list" where
  "batchesOf border = rev (receiveBatches (nat (currentSize (virtualMemory border))) border)"

lemma batchesOf:
  assumes "stack_state T M border bs" "int M < 2 ^ 31 - 1"
  shows "batchesOf border = bs"
proof -
  have "stack_holds border bs" "batchSize bs \<le> M" using assms(1) by (simp_all add: stack_state_def)
  with receiveBatches_holds [of border bs] stack_state_count [OF assms(1)] assms(2) show ?thesis
    by (simp add: batchesOf_def batchOffset_batchSize)
qed

lemma cellParticles_image:
  "inj_on f (insert c (fst ` set bs)) \<Longrightarrow> cellParticles (map (\<lambda>b. (f (fst b), snd b)) bs) (f c) = cellParticles bs c"
  by (induction bs) (auto simp: inj_on_def)

section \<open>The species fulfils the contract of the tasks\<close>

text \<open>The guard cells of the direction can be bashed, all other cells are as they were in the box \<open>pb0\<close>.\<close>

definition senderOk :: "'p ExchangeSetup \<Rightarrow> 'p ParticlesBox \<Rightarrow> 'p ParticlesBox \<times> 'p ExchangeStack \<Rightarrow> bool" where
  "senderOk e pb0 s \<longleftrightarrow> setup_ok e \<and> (case s of (pb, border) \<Rightarrow>
     exchange_max border = int (maxParticles e) \<and> (\<exists>L. box_rep pb L
       \<and> (\<forall>p \<in> sendCells e. frames_ok (tileSize e) pb (L p) \<and> length (L p) \<le> frameFuel e)
       \<and> (\<forall>j. j \<notin> sendCells e \<longrightarrow> L j = framesOf pb0 j \<and> (\<forall>a \<in> set (L j). content pb a = content pb0 a))))"

definition messageOk :: "'p ExchangeSetup \<Rightarrow> 'p ExchangeStack \<Rightarrow> bool" where
  "messageOk e border \<longleftrightarrow> stack_state (tileSize e) (maxParticles e) border (batchesOf border)
     \<and> fst ` set (batchesOf border) \<subseteq> sentAs e ` sendCells e"

text \<open>Cells that expect particles get new frames at the end, all other cells are as they were in the box \<open>pb0\<close>.\<close>

definition receiverOk :: "'p ExchangeSetup \<Rightarrow> 'p ParticlesBox \<Rightarrow> 'p ParticlesBox \<Rightarrow> bool" where
  "receiverOk e pb0 pb \<longleftrightarrow> setup_ok e \<and> finite (dom (frames pb)) \<and> (\<exists>L. box_rep pb L
     \<and> (\<forall>j. \<exists>new. L j = framesOf pb0 j @ new \<and> frames_ok (tileSize e) pb new \<and> (j \<notin> arrivesAt e ` sendCells e \<longrightarrow> new = []))
     \<and> (\<forall>j. \<forall>a \<in> set (framesOf pb0 j). content pb a = content pb0 a))"

definition waiting :: "'p ExchangeSetup \<Rightarrow> 'p ParticlesBox \<times> 'p ExchangeStack \<Rightarrow> DataSpace \<Rightarrow> 'p multiset" where
  "waiting e s p = (if p \<in> sendCells e then listParticles (fst s) (framesOf (fst s) p) else {#})"

definition travelling :: "'p ExchangeSetup \<Rightarrow> 'p ExchangeStack \<Rightarrow> DataSpace \<Rightarrow> 'p multiset" where
  "travelling e border p = (if p \<in> sendCells e then cellParticles (batchesOf border) (sentAs e p) else {#})"

definition arrived :: "'p ExchangeSetup \<Rightarrow> 'p ParticlesBox \<Rightarrow> DataSpace \<Rightarrow> 'p multiset" where
  "arrived e pb p = (if p \<in> sendCells e then listParticles pb (framesOf pb (arrivesAt e p)) else {#})"

definition waitingCount :: "'p ExchangeSetup \<Rightarrow> 'p ParticlesBox \<times> 'p ExchangeStack \<Rightarrow> nat" where
  "waitingCount e s = (\<Sum>p \<in> sendCells e. size (waiting e s p))"

definition allSent :: "'p ExchangeSetup \<Rightarrow> 'p ParticlesBox \<times> 'p ExchangeStack \<Rightarrow> bool" where
  "allSent e s \<longleftrightarrow> (\<forall>p \<in> sendCells e. framesOf (fst s) p = [])"

lemma stack_state_reset: "exchange_max border = int M \<Longrightarrow> stack_state T M (setCurrentSize 0 border) []"
  by (simp add: stack_state_def stack_holds_def setCurrentSize_def)

lemma stack_state_max: "stack_state T M border bs \<Longrightarrow> exchange_max border = int M"
  by (simp add: stack_state_def)

lemma species_bash:
  assumes ok: "senderOk e pb0 s"
  shows "\<exists>s'. speciesBash e k s = Some s' \<and> senderOk e pb0 s' \<and> messageOk e (snd s') \<and> particlesCurrentSize (snd s') \<le> maxParticles e
    \<and> (\<forall>p. waiting e s' p + travelling e (snd s') p = waiting e s p)
    \<and> (particlesCurrentSize (snd s') = maxParticles e \<longrightarrow> waitingCount e s' < waitingCount e s)
    \<and> (particlesCurrentSize (snd s') < maxParticles e \<longrightarrow> allSent e s')"
proof -
  obtain pb border where s: "s = (pb, border)" by fastforce
  obtain L where e: "setup_ok e" and mx: "exchange_max border = int (maxParticles e)" and L: "box_rep pb L"
    "\<forall>p \<in> sendCells e. frames_ok (tileSize e) pb (L p) \<and> length (L p) \<le> frameFuel e"
    "\<forall>j. j \<notin> sendCells e \<longrightarrow> L j = framesOf pb0 j \<and> (\<forall>a \<in> set (L j). content pb a = content pb0 a)"
    using ok by (auto simp: senderOk_def s)
  note d = setup_okD [OF e]
  let ?cells = "map (exchange_getSuperCellIndex GUARD (ExchangeMapping_of (cellDescription e) (sendDirection e))) (blockOrder e k)"
  note cells = blockCells(1,2) [OF e, where r = k] blockCells(3) [OF e]
  have inj: "inj_on (\<lambda>idx. reduceCell (length (gridSuperCells (cellDescription e))) idx (sendDirection e)) (set ?cells)"
    using sentAs_inj [OF e] unfolding cells(2) sentAs_def [abs_def] .
  have ready: "\<forall>idx \<in> set ?cells. frames_ok (tileSize e) pb (L idx) \<and> length (L idx) \<le> frameFuel e" using L(2) cells(2) by simp
  obtain pb' border' L' cs where run: "bashBlocks (tileSize e) (length (gridSuperCells (cellDescription e))) (sendDirection e) (arrival e k)
      (frameFuel e) ?cells (pb, setCurrentSize 0 border) = Some (pb', border')"
    and r: "box_rep pb' L'" "\<forall>j. j \<notin> set ?cells \<longrightarrow> L' j = L j \<and> (\<forall>a \<in> set (L j). content pb' a = content pb a)"
    "\<forall>idx \<in> set ?cells. frames_ok (tileSize e) pb' (L' idx) \<and> length (L' idx) \<le> length (L idx)
       \<and> listParticles pb' (L' idx) + cellParticles cs (reduceCell (length (gridSuperCells (cellDescription e))) idx (sendDirection e)) = listParticles pb (L idx)"
    "stack_state (tileSize e) (maxParticles e) border' ([] @ cs)"
    "fst ` set cs \<subseteq> (\<lambda>idx. reduceCell (length (gridSuperCells (cellDescription e))) idx (sendDirection e)) ` set ?cells"
    "batchSize ([] @ cs) < maxParticles e \<longrightarrow> (\<forall>idx \<in> set ?cells. L' idx = [])"
    using bashBlocks_correct [OF d(1,3) d(4) [THEN spec, of k] cells(1) inj L(1) ready stack_state_reset [OF mx]] by (elim exE conjE) (rule that)
  note r' = r(2-6) [unfolded cells(2) sentAs_def [symmetric] append_Nil]
  have bs: "batchesOf border' = cs" by (rule batchesOf [OF r'(3) d(3)])
  have size: "particlesCurrentSize border' = batchSize cs" "batchSize cs \<le> maxParticles e"
    using r'(3) by (simp_all add: stack_state_def particlesCurrentSize_def)
  have "\<forall>p \<in> sendCells e. frames_ok (tileSize e) pb' (L' p) \<and> length (L' p) \<le> frameFuel e"
    using r'(2) L(2) le_trans by blast
  moreover have "L' j = framesOf pb0 j \<and> (\<forall>a \<in> set (L' j). content pb' a = content pb0 a)" if "j \<notin> sendCells e" for j
    using r'(1) [THEN spec, of j] L(3) [THEN spec, of j] that by simp
  ultimately have sok: "senderOk e pb0 (pb', border')"
    unfolding senderOk_def prod.case using e stack_state_max [OF r'(3)] r(1) by blast
  have mok: "messageOk e border'" using r'(3,4) by (simp add: messageOk_def bs)
  have cons: "waiting e (pb', border') p + travelling e border' p = waiting e s p" for p
    using r'(2) by (simp add: waiting_def travelling_def s bs framesOf [OF L(1)] framesOf [OF r(1)])
  have less: "waitingCount e (pb', border') < waitingCount e s" if full: "batchSize cs = maxParticles e"
  proof -
    obtain b where b: "b \<in> set cs" using full d(2) by (cases cs) auto
    then obtain p where p: "p \<in> sendCells e" "fst b = sentAs e p" using r'(4) by blast
    have "snd b \<noteq> []" using r'(3) b by (auto simp: stack_state_def)
    moreover have "mset (snd b) \<subseteq># cellParticles cs (fst b)" using b by (induction cs) (auto intro: subset_mset.add_increasing)
    ultimately have "travelling e border' p \<noteq> {#}" using p by (auto simp: travelling_def bs)
    then have "size (waiting e (pb', border') p) < size (waiting e s p)" using cons [of p] by (metis less_add_same_cancel1 nonempty_has_size size_union)
    moreover have "size (waiting e (pb', border') q) \<le> size (waiting e s q)" for q using cons [of q] by (metis le_add1 size_union)
    ultimately show ?thesis unfolding waitingCount_def using p(1) cells(3) by (intro sum_strict_mono_ex1) auto
  qed
  have sent: "allSent e (pb', border')" if "batchSize cs < maxParticles e"
    using r'(5) that by (simp add: allSent_def framesOf [OF r(1)])
  have "speciesBash e k s = Some (pb', border')" using run by (simp add: speciesBash_def bashParticles_def s)
  with sok mok cons less sent size show ?thesis by (intro exI [of _ "(pb', border')"]) simp
qed

lemma species_insert:
  assumes ok: "receiverOk e pb0 pb" and msg: "messageOk e border"
  shows "\<exists>pb'. speciesInsert e border pb = Some pb' \<and> receiverOk e pb0 pb' \<and> (\<forall>p. arrived e pb' p = arrived e pb p + travelling e border p)"
proof -
  obtain L where e: "setup_ok e" and L: "finite (dom (frames pb))" "box_rep pb L"
    "\<forall>j. \<exists>new. L j = framesOf pb0 j @ new \<and> frames_ok (tileSize e) pb new \<and> (j \<notin> arrivesAt e ` sendCells e \<longrightarrow> new = [])"
    "\<forall>j. \<forall>a \<in> set (framesOf pb0 j). content pb a = content pb0 a"
    using ok by (auto simp: receiverOk_def)
  note d = setup_okD [OF e]
  let ?bs = "batchesOf border" and ?t = "target (cellDescription e) (recvDirection e)"
  have st: "stack_state (tileSize e) (maxParticles e) border ?bs" and cells: "fst ` set ?bs \<subseteq> sentAs e ` sendCells e"
    using msg by (simp_all add: messageOk_def)
  note cnt = stack_state_count [OF st]
  have lim: "stack_holds border ?bs" "batchSize ?bs < 2 ^ 31" "int (length ?bs) < 2 ^ 31"
    "\<forall>b \<in> set ?bs. 0 < length (snd b) \<and> length (snd b) \<le> tileSize e"
    using st d(3) cnt(1) by (auto simp: stack_state_def)
  obtain pb' border' L' where run: "insertBlocks (tileSize e) (cellDescription e) (recvDirection e) (mallocFrame e) (garbageFrame e)
      (length ?bs) (pb, border) = Some (pb', border')"
    and r: "box_rep pb' L'" "finite (dom (frames pb'))"
    "\<forall>j. \<exists>new. L' j = L j @ new \<and> frames_ok (tileSize e) pb' new \<and> listParticles pb' new = cellParticles (map (\<lambda>b. (?t (fst b), snd b)) ?bs) j
       \<and> (j \<notin> (\<lambda>b. ?t (fst b)) ` set ?bs \<longrightarrow> new = [])"
    "\<forall>x \<in> dom (frames pb). content pb' x = content pb x"
    using insertBlocks_correct [OF d(12) L(2,1) lim, of "cellDescription e" "recvDirection e"] by (elim exE conjE) (rule that)
  have keep: "content pb' a = content pb a" if "a \<in> set (L j)" for a j using r(4) list_in_heap [OF L(2) that] by blast
  have targets: "(\<lambda>b. ?t (fst b)) ` set ?bs \<subseteq> arrivesAt e ` sendCells e" using cells target_sentAs [OF e] by force
  have grow: "\<exists>new. L' j = framesOf pb0 j @ new \<and> frames_ok (tileSize e) pb' new \<and> (j \<notin> arrivesAt e ` sendCells e \<longrightarrow> new = [])" for j
  proof -
    obtain n1 where n1: "L j = framesOf pb0 j @ n1" "frames_ok (tileSize e) pb n1" "j \<notin> arrivesAt e ` sendCells e \<longrightarrow> n1 = []"
      using L(3) by blast
    obtain n2 where n2: "L' j = L j @ n2" "frames_ok (tileSize e) pb' n2" "j \<notin> (\<lambda>b. ?t (fst b)) ` set ?bs \<longrightarrow> n2 = []"
      using r(3) by blast
    have "frames_ok (tileSize e) pb' n1" using n1 keep [of _ j] by (simp add: frames_ok_def frame_ok_def)
    with n1 n2 targets show ?thesis by (intro exI [of _ "n1 @ n2"]) (auto simp: frames_ok_def)
  qed
  have old: "content pb' a = content pb0 a" if a: "a \<in> set (framesOf pb0 j)" for a j
  proof -
    have "a \<in> set (L j)" using L(3) [THEN spec, of j] a by auto
    then show ?thesis using keep [of a j] L(4) a by simp
  qed
  have gain: "arrived e pb' p = arrived e pb p + travelling e border p" for p
  proof (cases "p \<in> sendCells e")
    case True
    let ?j = "arrivesAt e p"
    obtain n2 where n2: "L' ?j = L ?j @ n2" "listParticles pb' n2 = cellParticles (map (\<lambda>b. (?t (fst b), snd b)) ?bs) ?j"
      using r(3) by blast
    have "inj_on ?t (sentAs e ` sendCells e)"
      using arrivesAt_inj [OF e] target_sentAs [OF e] by (auto simp: inj_on_def)
    then have "inj_on ?t (insert (sentAs e p) (fst ` set ?bs))"
      by (rule inj_on_subset) (use cells True in auto)
    from cellParticles_image [OF this] have "listParticles pb' n2 = cellParticles ?bs (sentAs e p)"
      using n2(2) target_sentAs [OF e True] by simp
    moreover have "listParticles pb' (L ?j) = listParticles pb (L ?j)" using keep by (intro listParticles_cong) blast
    ultimately show ?thesis using True n2(1)
      by (simp add: arrived_def travelling_def framesOf [OF L(2)] framesOf [OF r(1)])
  qed (simp add: arrived_def travelling_def)
  have rok: "receiverOk e pb0 pb'" unfolding receiverOk_def using e r(1,2) grow old by blast
  have "nat (currentSize (virtualMemory border)) = length ?bs" using cnt(2) by simp
  then have "speciesInsert e border pb = Some pb'" using run by (simp add: speciesInsert_def insertParticles_def)
  with rok gain show ?thesis by blast
qed

interpretation species: particle_base "maxParticles e" "speciesBash e" snd particlesCurrentSize "speciesInsert e"
  "senderOk e pbS" "messageOk e" "receiverOk e pbR" "waiting e" "travelling e" "arrived e" "waitingCount e" "allSent e"
  for e :: "'p ExchangeSetup" and pbS pbR
proof
  fix s k assume "senderOk e pbS s"
  then show "\<exists>s'. speciesBash e k s = Some s' \<and> senderOk e pbS s' \<and> messageOk e (snd s') \<and> particlesCurrentSize (snd s') \<le> maxParticles e
      \<and> (\<forall>p. waiting e s' p + travelling e (snd s') p = waiting e s p)
      \<and> (particlesCurrentSize (snd s') = maxParticles e \<longrightarrow> waitingCount e s' < waitingCount e s)
      \<and> (particlesCurrentSize (snd s') < maxParticles e \<longrightarrow> allSent e s')"
    by (rule species_bash)
next
  fix s p assume "senderOk e pbS s" "allSent e s"
  then show "waiting e s p = {#}" by (simp add: waiting_def allSent_def)
next
  fix r m assume "receiverOk e pbR r" "messageOk e m"
  then show "\<exists>r'. speciesInsert e m r = Some r' \<and> receiverOk e pbR r' \<and> (\<forall>p. arrived e r' p = arrived e r p + travelling e m p)"
    by (rule species_insert)
qed

section \<open>Properties\<close>

lemma exchange_start_ok:
  assumes "setup_ok e" "box_rep pbS LS" "\<forall>p \<in> sendCells e. frames_ok (tileSize e) pbS (LS p) \<and> length (LS p) \<le> frameFuel e"
    "exchange_max border = int (maxParticles e)" "box_rep pbR LR" "finite (dom (frames pbR))"
  shows "senderOk e pbS (pbS, border)" "receiverOk e pbR pbR"
  using assms by (auto simp: senderOk_def receiverOk_def framesOf frames_ok_def)

text \<open>
  C6. Every particle of the guard reaches the neighbour. Whatever the number of particles, the size of the exchange
  buffers, the scheduling of blocks and threads and the order in which the two processes run their tasks: if both tasks
  are run again and again, the exchange of a direction ends; then the guard supercells of the sender are empty, each
  supercell of the receiver has gained exactly the particles of the guard supercell it is the image of, no
  message is left over, and no other supercell of either process has changed.
\<close>

theorem particle_exchange_completes:
  assumes "setup_ok e" "fair_turns turns" "box_rep pbS LS" "box_rep pbR LR" "finite (dom (frames pbR))"
    "\<forall>p \<in> sendCells e. frames_ok (tileSize e) pbS (LS p) \<and> length (LS p) \<le> frameFuel e"
    "exchange_max border = int (maxParticles e)"
  shows "\<exists>n x L R. exchangeRun (maxParticles e) (speciesBash e) snd particlesCurrentSize (speciesInsert e) turns (pbS, border) pbR n = Some x
    \<and> exchange_finished x \<and> inFlight x = []
    \<and> box_rep (fst (sendBase x)) L \<and> (\<forall>p \<in> sendCells e. L p = [])
    \<and> (\<forall>j. j \<notin> sendCells e \<longrightarrow> L j = LS j \<and> (\<forall>a \<in> set (LS j). content (fst (sendBase x)) a = content pbS a))
    \<and> box_rep (recvBase x) R
    \<and> (\<forall>p \<in> sendCells e. listParticles (recvBase x) (R (arrivesAt e p)) = listParticles pbR (LR (arrivesAt e p)) + listParticles pbS (LS p))
    \<and> (\<forall>j. j \<notin> arrivesAt e ` sendCells e \<longrightarrow> R j = LR j \<and> (\<forall>a \<in> set (LR j). content (recvBase x) a = content pbR a))"
proof -
  note ok = exchange_start_ok [OF assms(1,3,6,7,4,5)]
  obtain n x where x: "exchangeRun (maxParticles e) (speciesBash e) snd particlesCurrentSize (speciesInsert e) turns (pbS, border) pbR n = Some x"
    "exchange_finished x" "senderOk e pbS (sendBase x)" "allSent e (sendBase x)" "receiverOk e pbR (recvBase x)" "inFlight x = []"
    "\<forall>p. arrived e (recvBase x) p = waiting e (pbS, border) p + arrived e pbR p"
    using species.run_finishes [OF ok assms(2)] by blast
  obtain L where L: "box_rep (fst (sendBase x)) L"
    "\<forall>j. j \<notin> sendCells e \<longrightarrow> L j = LS j \<and> (\<forall>a \<in> set (L j). content (fst (sendBase x)) a = content pbS a)"
    using x(3) by (auto simp: senderOk_def framesOf [OF assms(3)] split: prod.splits)
  obtain R where R: "box_rep (recvBase x) R" "\<forall>j. \<exists>new. R j = LR j @ new \<and> frames_ok (tileSize e) (recvBase x) new \<and> (j \<notin> arrivesAt e ` sendCells e \<longrightarrow> new = [])"
    "\<forall>j. \<forall>a \<in> set (LR j). content (recvBase x) a = content pbR a"
    using x(5) by (auto simp: receiverOk_def framesOf [OF assms(4)])
  have empty: "\<forall>p \<in> sendCells e. L p = []" using x(4) by (simp add: allSent_def framesOf [OF L(1)])
  have parts: "listParticles (recvBase x) (R (arrivesAt e p)) = listParticles pbR (LR (arrivesAt e p)) + listParticles pbS (LS p)"
    if "p \<in> sendCells e" for p
    using x(7) [THEN spec, of p] that
    by (simp add: arrived_def waiting_def framesOf [OF R(1)] framesOf [OF assms(3)] framesOf [OF assms(4)] add.commute)
  have "\<forall>j. j \<notin> arrivesAt e ` sendCells e \<longrightarrow> R j = LR j \<and> (\<forall>a \<in> set (LR j). content (recvBase x) a = content pbR a)"
    using R(2,3) by (metis append_Nil2)
  moreover have "\<forall>j. j \<notin> sendCells e \<longrightarrow> L j = LS j \<and> (\<forall>a \<in> set (LS j). content (fst (sendBase x)) a = content pbS a)"
    using L(2) by simp
  ultimately show ?thesis using x(1,2,6) L(1) empty R(1) parts
    by - (rule exI [of _ n], rule exI [of _ x], rule exI [of _ L], rule exI [of _ R], simp)
qed

text \<open>
  C9. No particle is lost or duplicated on the way. In every state that any schedule of the two tasks reaches, no kernel
  has touched invalid memory and no assertion has failed, and for each guard supercell the particles that wait in it, are in the
  stack that is not sent yet, travel in messages, or were added to its image in the receiver are the particles it had at
  the beginning.
\<close>

theorem particle_exchange_conserves:
  assumes "setup_ok e" "box_rep pbS LS" "box_rep pbR LR" "finite (dom (frames pbR))"
    "\<forall>p \<in> sendCells e. frames_ok (tileSize e) pbS (LS p) \<and> length (LS p) \<le> frameFuel e"
    "exchange_max border = int (maxParticles e)"
  shows "\<exists>x L R. exchangeRun (maxParticles e) (speciesBash e) snd particlesCurrentSize (speciesInsert e) turns (pbS, border) pbR n = Some x
    \<and> box_rep (fst (sendBase x)) L \<and> box_rep (recvBase x) R
    \<and> (\<forall>p \<in> sendCells e. listParticles (fst (sendBase x)) (L p)
         + (if sendState x = WaitForBash then cellParticles (batchesOf (snd (sendBase x))) (sentAs e p) else {#})
         + (\<Sum>m \<leftarrow> inFlight x. cellParticles (batchesOf m) (sentAs e p)) + listParticles (recvBase x) (R (arrivesAt e p))
       = listParticles pbS (LS p) + listParticles pbR (LR (arrivesAt e p)))"
proof -
  note ok = exchange_start_ok [OF assms(1,2,5,6,3,4)]
  obtain x where x: "exchangeRun (maxParticles e) (speciesBash e) snd particlesCurrentSize (speciesInsert e) turns (pbS, border) pbR n = Some x"
    "senderOk e pbS (sendBase x)" "receiverOk e pbR (recvBase x)"
    "\<forall>p. waiting e (sendBase x) p + (if sendState x = WaitForBash then travelling e (snd (sendBase x)) p else {#})
       + (\<Sum>m \<leftarrow> inFlight x. travelling e m p) + arrived e (recvBase x) p = waiting e (pbS, border) p + arrived e pbR p"
    using species.run [OF ok, of turns n] unfolding exchange_inv_def by blast
  obtain L where L: "box_rep (fst (sendBase x)) L" using x(2) by (auto simp: senderOk_def split: prod.splits)
  obtain R where R: "box_rep (recvBase x) R" using x(3) by (auto simp: receiverOk_def)
  have "listParticles (fst (sendBase x)) (L p)
         + (if sendState x = WaitForBash then cellParticles (batchesOf (snd (sendBase x))) (sentAs e p) else {#})
         + (\<Sum>m \<leftarrow> inFlight x. cellParticles (batchesOf m) (sentAs e p)) + listParticles (recvBase x) (R (arrivesAt e p))
       = listParticles pbS (LS p) + listParticles pbR (LR (arrivesAt e p))" if "p \<in> sendCells e" for p
    using x(4) [THEN spec, of p] that
    by (simp only: waiting_def travelling_def arrived_def if_True fst_conv framesOf [OF L] framesOf [OF R] framesOf [OF assms(2)] framesOf [OF assms(3)])
  with x(1) L R show ?thesis by blast
qed

section \<open>Witnesses\<close>

text \<open>Ten particles to the right in buffers for four, on a grid of four by four supercells.\<close>

definition rightSetup :: "nat ExchangeSetup" where
  "rightSetup = \<lparr>tileSize = 9, cellDescription = \<lparr>gridSuperCells = [4, 4], guardingSuperCells = 1, borderSuperCells = 1\<rparr>,
     sendDirection = 1, recvDirection = 2, maxParticles = 4, arrival = (\<lambda>_ _ _. [8, 7, 6, 5, 4, 3, 2, 1, 0]),
     blockOrder = (\<lambda>_. [[0, 1], [0, 0]]), frameFuel = 2, mallocFrame = nextFree, garbageFrame = blankFrame\<rparr>"

definition rightBox :: "nat ParticlesBox" where
  "rightBox = \<lparr>frames = [1 \<mapsto> \<lparr>previousFrame = 0, nextFrame = 2, slots = map (\<lambda>i. (1, i)) [0..<9]\<rparr>,
                        2 \<mapsto> \<lparr>previousFrame = 1, nextFrame = 0, slots = (1, 20) # replicate 8 (0, 0)\<rparr>],
     superCells = (\<lambda>_. SuperCell_init)([3, 1] := \<lparr>firstFramePtr = 1, lastFramePtr = 2, mustShiftVal = False, sizeLastFrame = 1\<rparr>)\<rparr>"

definition rightLists :: "DataSpace \<Rightarrow> addr list" where
  "rightLists = (\<lambda>_. [])([3, 1] := [1, 2])"

definition rightStack :: "nat ExchangeStack" where
  "rightStack = emptyStack 4 (\<lambda>_. 0) (\<lambda>_. \<lparr>index_superCell = [], startIdx = 0, index_count = 0\<rparr>)"

definition vacantBox :: "nat ParticlesBox" where
  "vacantBox = \<lparr>frames = Map.empty, superCells = (\<lambda>_. SuperCell_init)\<rparr>"

definition alternate :: "nat \<Rightarrow> turn" where
  "alternate i = (if even i then SendTurn True True else RecvTurn True True)"

lemma rightSetup_ok: "setup_ok rightSetup"
proof -
  have d: "relativeDigits 2 1 = [1, 0]" by code_simp
  have g: "exchange_getGridDim GUARD (ExchangeMapping_of \<lparr>gridSuperCells = [4, 4], guardingSuperCells = 1, borderSuperCells = 1\<rparr> 1) = [1, 2]"
    by code_simp
  have b: "{[0, 1], [0, 0]} = box [1, 2]"
  proof (intro equalityI subsetI)
    fix p :: DataSpace assume "p \<in> box [1, 2]"
    then show "p \<in> {[0, 1], [0, 0]}"
    proof (rule box2E)
      fix x y :: int assume "p = [x, y]" "0 \<le> x" "x < 1" "0 \<le> y" "y < 2"
      moreover have "y = 0 \<or> y = 1" using calculation by linarith
      ultimately show ?thesis by auto
    qed
  qed (auto simp: box_def less_Suc_eq)
  have m: "getMirroredExchangeType 1 = Inr 2" by code_simp
  have o: "thread_order 9 [8, 7, 6, 5, 4, 3, 2, 1, 0]" by (auto simp: thread_order_def)
  have w: "mapping_wf \<lparr>gridSuperCells = [4, 4], guardingSuperCells = 1, borderSuperCells = 1\<rparr>" by (simp add: mapping_wf_def)
  have l: "set [[0, 1], [0, 0]] = box [1, 2]" "distinct [[0, 1], [0 :: int, 0]]" using b by simp_all
  show ?thesis
    unfolding setup_ok_def rightSetup_def ExchangeSetup.simps MappingDescription.simps g
    by (intro conjI allI o w m l blank_allocator) simp_all
qed

lemma rightBox_rep: "box_rep rightBox rightLists"
  by (auto simp: box_rep_def rightBox_def rightLists_def cell_list_def SuperCell_init_def)

lemma vacantBox_rep: "box_rep vacantBox (\<lambda>_. [])"
  by (auto simp: box_rep_def vacantBox_def cell_list_def SuperCell_init_def)

lemma rightBox_ready: "frames_ok 9 rightBox (rightLists p) \<and> length (rightLists p) \<le> 2"
  by (auto simp: rightLists_def rightBox_def frames_ok_def frame_ok_def content_def settled_def)

lemma rightBox_particles: "listParticles rightBox (rightLists [3, 1]) = {#0, 1, 2, 3, 4, 5, 6, 7, 8, 20#}"
proof -
  have "sum_list (replicate n {#}) = ({#} :: nat multiset)" for n by (induction n) simp_all
  then show ?thesis
    by (simp add: rightLists_def rightBox_def frameParticles_def content_def particles_def slotParticle_def nine_slots)
qed

lemma rightCell: "[3, 1] \<in> sendCells rightSetup" "arrivesAt rightSetup [3, 1] = [1, 1]"
proof -
  have "exchange_getSuperCellIndex GUARD (ExchangeMapping_of \<lparr>gridSuperCells = [4, 4], guardingSuperCells = 1, borderSuperCells = 1\<rparr> 1) [0, 0] = [3, 1]"
    by code_simp
  moreover have "[0, 0] \<in> box (exchange_getGridDim GUARD (ExchangeMapping_of \<lparr>gridSuperCells = [4, 4], guardingSuperCells = 1, borderSuperCells = 1\<rparr> 1))"
    using setup_okD(6) [OF rightSetup_ok, THEN spec, of 0] by (auto simp: rightSetup_def)
  ultimately show "[3, 1] \<in> sendCells rightSetup" by (force simp: sendCells_def guardCells_def rightSetup_def)
  have "moved_against [4, 4] (getRelativeDirections 2 1) [3, 1] = [1, 1]" by code_simp
  then show "arrivesAt rightSetup [3, 1] = [1, 1]" by (simp add: arrivesAt_def imageCell_def rightSetup_def numeral_2_eq_2)
qed

lemma alternate_fair: "fair_turns alternate"
proof -
  have "\<exists>j \<ge> i. alternate j = SendTurn True True" "\<exists>j \<ge> i. alternate j = RecvTurn True True" for i
    by (rule exI [of _ "2 * i"], simp add: alternate_def) (rule exI [of _ "2 * i + 1"], simp add: alternate_def)
  then show ?thesis by (simp add: fair_turns_def)
qed

lemma rightSetup_fields: "tileSize rightSetup = 9" "frameFuel rightSetup = 2" "maxParticles rightSetup = 4"
  "exchange_max rightStack = int (maxParticles rightSetup)" "finite (dom (frames vacantBox))"
  by (simp_all add: rightSetup_def rightStack_def emptyStack_def vacantBox_def)

theorem particle_exchange_completes_witness:
  "\<exists>n x R. exchangeRun 4 (speciesBash rightSetup) snd particlesCurrentSize (speciesInsert rightSetup) alternate (rightBox, rightStack) vacantBox n = Some x
     \<and> exchange_finished x \<and> box_rep (recvBase x) R \<and> listParticles (recvBase x) (R [1, 1]) = {#0, 1, 2, 3, 4, 5, 6, 7, 8, 20#}"
proof -
  have ready: "\<forall>p \<in> sendCells rightSetup. frames_ok (tileSize rightSetup) rightBox (rightLists p) \<and> length (rightLists p) \<le> frameFuel rightSetup"
    using rightBox_ready by (simp add: rightSetup_fields)
  obtain n x R where x: "exchangeRun 4 (speciesBash rightSetup) snd particlesCurrentSize (speciesInsert rightSetup) alternate (rightBox, rightStack) vacantBox n = Some x"
    "exchange_finished x" "box_rep (recvBase x) R"
    "\<forall>p \<in> sendCells rightSetup. listParticles (recvBase x) (R (arrivesAt rightSetup p)) = listParticles vacantBox [] + listParticles rightBox (rightLists p)"
    using particle_exchange_completes [OF rightSetup_ok alternate_fair rightBox_rep vacantBox_rep rightSetup_fields(5) ready rightSetup_fields(4)]
    unfolding rightSetup_fields(3) by blast
  have "listParticles (recvBase x) (R [1, 1]) = {#0, 1, 2, 3, 4, 5, 6, 7, 8, 20#}"
    using bspec [OF x(4) rightCell(1)] unfolding rightCell(2) rightBox_particles by simp
  with x(1-3) show ?thesis by blast
qed

theorem particle_exchange_conserves_witness:
  "\<exists>x L R. exchangeRun 4 (speciesBash rightSetup) snd particlesCurrentSize (speciesInsert rightSetup) (\<lambda>_. SendTurn True True)
       (rightBox, rightStack) vacantBox 3 = Some x
     \<and> box_rep (fst (sendBase x)) L \<and> box_rep (recvBase x) R
     \<and> listParticles (fst (sendBase x)) (L [3, 1])
       + (if sendState x = WaitForBash then cellParticles (batchesOf (snd (sendBase x))) (sentAs rightSetup [3, 1]) else {#})
       + (\<Sum>m \<leftarrow> inFlight x. cellParticles (batchesOf m) (sentAs rightSetup [3, 1])) + listParticles (recvBase x) (R [1, 1])
       = {#0, 1, 2, 3, 4, 5, 6, 7, 8, 20#}"
proof -
  have ready: "\<forall>p \<in> sendCells rightSetup. frames_ok (tileSize rightSetup) rightBox (rightLists p) \<and> length (rightLists p) \<le> frameFuel rightSetup"
    using rightBox_ready by (simp add: rightSetup_fields)
  obtain x L R where x: "exchangeRun 4 (speciesBash rightSetup) snd particlesCurrentSize (speciesInsert rightSetup) (\<lambda>_. SendTurn True True)
       (rightBox, rightStack) vacantBox 3 = Some x" "box_rep (fst (sendBase x)) L" "box_rep (recvBase x) R"
    "\<forall>p \<in> sendCells rightSetup. listParticles (fst (sendBase x)) (L p)
       + (if sendState x = WaitForBash then cellParticles (batchesOf (snd (sendBase x))) (sentAs rightSetup p) else {#})
       + (\<Sum>m \<leftarrow> inFlight x. cellParticles (batchesOf m) (sentAs rightSetup p)) + listParticles (recvBase x) (R (arrivesAt rightSetup p))
       = listParticles rightBox (rightLists p) + listParticles vacantBox []"
    using particle_exchange_conserves [OF rightSetup_ok rightBox_rep vacantBox_rep rightSetup_fields(5) ready rightSetup_fields(4),
        where turns = "\<lambda>_. SendTurn True True" and n = 3]
    unfolding rightSetup_fields(3) by blast
  from bspec [OF x(4) rightCell(1)] x(1-3) show ?thesis
    unfolding rightCell(2) rightBox_particles listParticles_Nil add_0_right by blast
qed

end
