(* ===== verification/PluginSystem.thy ===== *)
theory PluginSystem
  imports Prelude
begin

text \<open>
  Models the plugin system of libPMacc: \<open>INotify\<close> and \<open>IPlugin\<close> (src/libPMacc/include/pluginSystem/INotify.hpp,
  IPlugin.hpp) and the \<open>PluginConnector\<close> (PluginConnector.hpp). A plugin object is a pointer
  (a number; NULL is \<open>None\<close>) into a store of its flags. The virtual functions a plugin overrides are a
  record of functions on the rest of the program's state, which the connector calls; loading a plugin
  also yields the notification periods it asks for. Shown: after any sequence of operations a
  notification never divides by zero and calls exactly the objects whose period divides the step, in
  the order they asked; loading calls every plugin once in reverse order, is idempotent, and
  unloading undoes it.
\<close>

section \<open>State\<close>

datatype PluginError = PluginException string | DivisionByZero

record PluginFlags =
  loaded :: bool
  lastNotify :: int
  lastCheckpoint :: int

record 'w PluginCode =
  code_load :: "nat \<Rightarrow> 'w \<Rightarrow> 'w \<times> (nat option \<times> int) list"
  code_unload :: "nat \<Rightarrow> 'w \<Rightarrow> 'w"
  code_notify :: "nat \<Rightarrow> int \<Rightarrow> 'w \<Rightarrow> 'w"
  code_checkpoint :: "nat \<Rightarrow> int \<Rightarrow> string \<Rightarrow> 'w \<Rightarrow> 'w"
  code_restart :: "nat \<Rightarrow> int \<Rightarrow> string \<Rightarrow> 'w \<Rightarrow> 'w"

record 'w PluginConnector =
  plugins :: "nat list"
  notificationList :: "(nat \<times> int) list"
  objects :: "nat \<Rightarrow> PluginFlags"
  world :: 'w

definition IPlugin_new :: PluginFlags where
  "IPlugin_new = \<lparr>loaded = False, lastNotify = 0, lastCheckpoint = 0\<rparr>"

definition PluginConnector_new :: "'w \<Rightarrow> 'w PluginConnector" where
  "PluginConnector_new w = \<lparr>plugins = [], notificationList = [], objects = (\<lambda>p. IPlugin_new), world = w\<rparr>"

section \<open>Operations\<close>

definition setLastNotify :: "nat \<Rightarrow> int \<Rightarrow> 'w PluginConnector \<Rightarrow> 'w PluginConnector" where
  "setLastNotify p currentStep this =
     this\<lparr>objects := (objects this)(p := (objects this p)\<lparr>lastNotify := currentStep\<rparr>)\<rparr>"

definition setLastCheckpoint :: "nat \<Rightarrow> int \<Rightarrow> 'w PluginConnector \<Rightarrow> 'w PluginConnector" where
  "setLastCheckpoint p currentStep this =
     this\<lparr>objects := (objects this)(p := (objects this p)\<lparr>lastCheckpoint := currentStep\<rparr>)\<rparr>"

definition setLoaded :: "nat \<Rightarrow> bool \<Rightarrow> 'w PluginConnector \<Rightarrow> 'w PluginConnector" where
  "setLoaded p b this = this\<lparr>objects := (objects this)(p := (objects this p)\<lparr>loaded := b\<rparr>)\<rparr>"

definition registerPlugin :: "nat option \<Rightarrow> 'w PluginConnector \<Rightarrow> PluginError + 'w PluginConnector" where
  "registerPlugin plugin this =
     (case plugin of
        Some p \<Rightarrow> Inr (this\<lparr>plugins := plugins this @ [p]\<rparr>)
      | None \<Rightarrow> Inl (PluginException ''Registering NULL as a plugin is not allowed.''))"

definition setNotificationPeriod :: "nat option \<Rightarrow> int \<Rightarrow> 'w PluginConnector \<Rightarrow> PluginError + 'w PluginConnector" where
  "setNotificationPeriod notifiedObj period this =
     (case notifiedObj of
        Some p \<Rightarrow> Inr (if period > 0 then this\<lparr>notificationList := notificationList this @ [(p, period)]\<rparr> else this)
      | None \<Rightarrow> Inl (PluginException ''Notifications for a NULL object are not allowed.''))"

fun setNotificationPeriods :: "(nat option \<times> int) list \<Rightarrow> 'w PluginConnector \<Rightarrow> PluginError + 'w PluginConnector" where
  "setNotificationPeriods [] this = Inr this"
| "setNotificationPeriods ((notifiedObj, period) # rest) this =
     (case setNotificationPeriod notifiedObj period this of
        Inl e \<Rightarrow> Inl e
      | Inr this \<Rightarrow> setNotificationPeriods rest this)"

definition load :: "'w PluginCode \<Rightarrow> nat \<Rightarrow> 'w PluginConnector \<Rightarrow> PluginError + 'w PluginConnector" where
  "load code p this =
     (case code_load code p (world this) of
        (w, requests) \<Rightarrow>
          (case setNotificationPeriods requests (this\<lparr>world := w\<rparr>) of
             Inl e \<Rightarrow> Inl e
           | Inr this \<Rightarrow> Inr (setLoaded p True this)))"

definition unload :: "'w PluginCode \<Rightarrow> nat \<Rightarrow> 'w PluginConnector \<Rightarrow> 'w PluginConnector" where
  "unload code p this = setLoaded p False (this\<lparr>world := code_unload code p (world this)\<rparr>)"

fun loadLoop :: "'w PluginCode \<Rightarrow> nat list \<Rightarrow> 'w PluginConnector \<Rightarrow> PluginError + 'w PluginConnector" where
  "loadLoop code [] this = Inr this"
| "loadLoop code (p # iter) this =
     (if \<not> loaded (objects this p)
      then (case load code p this of Inl e \<Rightarrow> Inl e | Inr this \<Rightarrow> loadLoop code iter this)
      else loadLoop code iter this)"

definition loadPlugins :: "'w PluginCode \<Rightarrow> 'w PluginConnector \<Rightarrow> PluginError + 'w PluginConnector" where
  "loadPlugins code this = loadLoop code (rev (plugins this)) this"

fun unloadLoop :: "'w PluginCode \<Rightarrow> nat list \<Rightarrow> 'w PluginConnector \<Rightarrow> 'w PluginConnector" where
  "unloadLoop code [] this = this"
| "unloadLoop code (p # iter) this =
     unloadLoop code iter (if loaded (objects this p) then unload code p this else this)"

definition unloadPlugins :: "'w PluginCode \<Rightarrow> 'w PluginConnector \<Rightarrow> 'w PluginConnector" where
  "unloadPlugins code this = unloadLoop code (rev (plugins this)) this"

fun notifyLoop :: "'w PluginCode \<Rightarrow> int \<Rightarrow> (nat \<times> int) list \<Rightarrow> 'w PluginConnector \<Rightarrow> PluginError + 'w PluginConnector" where
  "notifyLoop code currentStep [] this = Inr this"
| "notifyLoop code currentStep ((notifiedObj, period) # iter) this =
     (if period = 0 then Inl DivisionByZero
      else if currentStep mod period = 0
      then notifyLoop code currentStep iter
             (setLastNotify notifiedObj currentStep
               (this\<lparr>world := code_notify code notifiedObj currentStep (world this)\<rparr>))
      else notifyLoop code currentStep iter this)"

definition notifyPlugins :: "'w PluginCode \<Rightarrow> int \<Rightarrow> 'w PluginConnector \<Rightarrow> PluginError + 'w PluginConnector" where
  "notifyPlugins code currentStep this = notifyLoop code currentStep (notificationList this) this"

definition checkpointPlugins :: "'w PluginCode \<Rightarrow> int \<Rightarrow> string \<Rightarrow> 'w PluginConnector \<Rightarrow> 'w PluginConnector" where
  "checkpointPlugins code currentStep checkpointDirectory this =
     fold (\<lambda>p this. setLastCheckpoint p currentStep
                      (this\<lparr>world := code_checkpoint code p currentStep checkpointDirectory (world this)\<rparr>))
       (plugins this) this"

definition restartPlugins :: "'w PluginCode \<Rightarrow> int \<Rightarrow> string \<Rightarrow> 'w PluginConnector \<Rightarrow> 'w PluginConnector" where
  "restartPlugins code restartStep restartDirectory this =
     fold (\<lambda>p this. this\<lparr>world := code_restart code p restartStep restartDirectory (world this)\<rparr>) (plugins this) this"

section \<open>Reachable connectors\<close>

inductive plugged :: "'w PluginCode \<Rightarrow> 'w PluginConnector \<Rightarrow> bool" for code where
  plugged_new: "plugged code (PluginConnector_new w)"
| plugged_register: "plugged code pc \<Longrightarrow> registerPlugin plugin pc = Inr pc' \<Longrightarrow> plugged code pc'"
| plugged_period: "plugged code pc \<Longrightarrow> setNotificationPeriod obj period pc = Inr pc' \<Longrightarrow> plugged code pc'"
| plugged_load: "plugged code pc \<Longrightarrow> loadPlugins code pc = Inr pc' \<Longrightarrow> plugged code pc'"
| plugged_unload: "plugged code pc \<Longrightarrow> plugged code (unloadPlugins code pc)"
| plugged_notify: "plugged code pc \<Longrightarrow> notifyPlugins code t pc = Inr pc' \<Longrightarrow> plugged code pc'"
| plugged_checkpoint: "plugged code pc \<Longrightarrow> plugged code (checkpointPlugins code t dir pc)"
| plugged_restart: "plugged code pc \<Longrightarrow> plugged code (restartPlugins code t dir pc)"
| plugged_world: "plugged code pc \<Longrightarrow> plugged code (pc\<lparr>world := w\<rparr>)"

definition periods_positive :: "'w PluginConnector \<Rightarrow> bool" where
  "periods_positive pc \<longleftrightarrow> list_all (\<lambda>(p, period). 0 < period) (notificationList pc)"

lemma flag_fields [simp]:
  "notificationList (setLastNotify p t pc) = notificationList pc" "plugins (setLastNotify p t pc) = plugins pc"
  "notificationList (setLastCheckpoint p t pc) = notificationList pc" "plugins (setLastCheckpoint p t pc) = plugins pc"
  "notificationList (setLoaded p b pc) = notificationList pc" "plugins (setLoaded p b pc) = plugins pc"
  "world (setLastNotify p t pc) = world pc" "world (setLastCheckpoint p t pc) = world pc" "world (setLoaded p b pc) = world pc"
  "objects (setLastNotify p t pc) q = (if q = p then (objects pc p)\<lparr>lastNotify := t\<rparr> else objects pc q)"
  "objects (setLastCheckpoint p t pc) q = (if q = p then (objects pc p)\<lparr>lastCheckpoint := t\<rparr> else objects pc q)"
  "objects (setLoaded p b pc) q = (if q = p then (objects pc p)\<lparr>loaded := b\<rparr> else objects pc q)"
  by (simp_all add: setLastNotify_def setLastCheckpoint_def setLoaded_def)

lemma setNotificationPeriods_fields:
  "setNotificationPeriods requests pc = Inr pc' \<Longrightarrow>
     plugins pc' = plugins pc \<and> objects pc' = objects pc \<and> world pc' = world pc
     \<and> (periods_positive pc \<longrightarrow> periods_positive pc')"
  by (induction requests pc rule: setNotificationPeriods.induct)
    (auto simp: setNotificationPeriod_def periods_positive_def split: option.splits if_splits)

lemma load_fields:
  assumes "load code p pc = Inr pc'"
  shows "plugins pc' = plugins pc" "objects pc' = (objects pc)(p := (objects pc p)\<lparr>loaded := True\<rparr>)"
    "world pc' = fst (code_load code p (world pc))" "periods_positive pc \<Longrightarrow> periods_positive pc'"
proof -
  obtain w requests where c: "code_load code p (world pc) = (w, requests)" by fastforce
  then obtain q where q: "setNotificationPeriods requests (pc\<lparr>world := w\<rparr>) = Inr q" "pc' = setLoaded p True q"
    using assms by (auto simp: load_def split: sum.splits)
  show "plugins pc' = plugins pc" "objects pc' = (objects pc)(p := (objects pc p)\<lparr>loaded := True\<rparr>)"
    "world pc' = fst (code_load code p (world pc))" "periods_positive pc \<Longrightarrow> periods_positive pc'"
    using setNotificationPeriods_fields [OF q(1)] c q(2) by (auto simp: periods_positive_def fun_eq_iff)
qed

lemma loadLoop_periods: "loadLoop code iter pc = Inr pc' \<Longrightarrow> periods_positive pc \<Longrightarrow> periods_positive pc'"
  by (induction code iter pc rule: loadLoop.induct) (auto split: if_splits sum.splits intro: load_fields(4))

lemma unloadLoop_fields [simp]:
  "notificationList (unloadLoop code iter pc) = notificationList pc" "plugins (unloadLoop code iter pc) = plugins pc"
  by (induction code iter pc rule: unloadLoop.induct) (simp_all add: unload_def)

lemma notifyLoop_fields:
  "notifyLoop code t iter pc = Inr pc' \<Longrightarrow> notificationList pc' = notificationList pc \<and> plugins pc' = plugins pc"
  by (induction code t iter pc rule: notifyLoop.induct) (auto split: if_splits)

lemma fold_keeps:
  assumes "\<And>p pc. notificationList (f p pc) = notificationList pc"
  shows "notificationList (fold f ps pc) = notificationList pc"
  using assms by (induction ps arbitrary: pc) auto

lemma checkpoint_restart_fields [simp]:
  "notificationList (checkpointPlugins code t dir pc) = notificationList pc"
  "notificationList (restartPlugins code t dir pc) = notificationList pc"
  by (simp_all add: checkpointPlugins_def restartPlugins_def fold_keeps)

lemma plugged_periods: "plugged code pc \<Longrightarrow> periods_positive pc"
proof (induction rule: plugged.induct)
  case (plugged_period pc obj period pc')
  then show ?case by (auto simp: setNotificationPeriod_def periods_positive_def split: option.splits if_splits)
next
  case (plugged_load pc pc')
  then show ?case using loadLoop_periods by (auto simp: loadPlugins_def)
next
  case (plugged_notify pc t pc')
  then show ?case using notifyLoop_fields by (fastforce simp: notifyPlugins_def periods_positive_def)
qed (auto simp: periods_positive_def PluginConnector_new_def registerPlugin_def unloadPlugins_def split: option.splits)

section \<open>Notification\<close>

definition due :: "int \<Rightarrow> (nat \<times> int) list \<Rightarrow> nat list" where
  "due t entries = map fst (filter (\<lambda>(p, period). period dvd t) entries)"

lemma due_simps [simp]:
  "due t [] = []" "due t ((p, period) # entries) = (if period dvd t then p # due t entries else due t entries)"
  by (simp_all add: due_def)

lemma notifyLoop_due:
  assumes "list_all (\<lambda>(p, period). 0 < period) iter"
  shows "\<exists>pc'. notifyLoop code t iter pc = Inr pc' \<and> world pc' = fold (\<lambda>p. code_notify code p t) (due t iter) (world pc)
    \<and> (\<forall>p. objects pc' p = (if p \<in> set (due t iter) then (objects pc p)\<lparr>lastNotify := t\<rparr> else objects pc p))"
  using assms
proof (induction code t iter pc rule: notifyLoop.induct)
  case (2 code t p period iter pc)
  then have pos: "period \<noteq> 0" and iter: "list_all (\<lambda>(p, period). 0 < period) iter" by auto
  show ?case
  proof (cases "period dvd t")
    case True
    with "2.IH"(1) [OF pos] iter pos show ?thesis by (force simp: mod_eq_0_iff_dvd)
  next
    case False
    with "2.IH"(2) [OF pos] iter pos show ?thesis by (force simp: mod_eq_0_iff_dvd)
  qed
qed simp

text \<open>
  C25. The notification schedule. For every plugin connector the program can reach by registering,
  loading, unloading, notifying, checkpointing and restarting, in any order and whatever the plugins'
  own code does, \<open>notifyPlugins\<close> at step t completes (the period it divides by is never
  zero), runs \<open>notify\<close> of exactly the objects whose period divides t, in the order in which the
  periods were set, sets their last notification step to t, and leaves all other flags alone.
\<close>

theorem notifications_follow_periods:
  assumes "plugged code pc"
  shows "\<exists>pc'. notifyPlugins code t pc = Inr pc'
    \<and> world pc' = fold (\<lambda>p. code_notify code p t) (due t (notificationList pc)) (world pc)
    \<and> (\<forall>p. objects pc' p = (if p \<in> set (due t (notificationList pc)) then (objects pc p)\<lparr>lastNotify := t\<rparr> else objects pc p))"
  using notifyLoop_due [of "notificationList pc" code t pc] plugged_periods [OF assms]
  by (simp add: notifyPlugins_def periods_positive_def)

section \<open>Loading and unloading\<close>

definition unloaded :: "'w PluginConnector \<Rightarrow> nat list \<Rightarrow> nat list" where
  "unloaded pc ps = remdups (filter (\<lambda>p. \<not> loaded (objects pc p)) ps)"

lemma remdups_snoc: "remdups (xs @ [x]) = remdups (filter (\<lambda>y. y \<noteq> x) xs) @ [x]"
  by (induction xs) auto

lemma loadLoop_loads:
  assumes "loadLoop code (rev ps) pc = Inr pc'"
  shows "world pc' = fold (\<lambda>p w. fst (code_load code p w)) (rev (unloaded pc ps)) (world pc)
    \<and> plugins pc' = plugins pc
    \<and> (\<forall>p. objects pc' p = (if p \<in> set ps then (objects pc p)\<lparr>loaded := True\<rparr> else objects pc p))"
  using assms
proof (induction ps arbitrary: pc rule: rev_induct)
  case (snoc p ps)
  show ?case
  proof (cases "loaded (objects pc p)")
    case True
    then have "unloaded pc (ps @ [p]) = unloaded pc ps" by (simp add: unloaded_def)
    moreover have "(objects pc p)\<lparr>loaded := True\<rparr> = objects pc p" using True by (cases "objects pc p") simp
    ultimately show ?thesis using snoc.IH [of pc] snoc.prems True by auto
  next
    case False
    then obtain q where q: "load code p pc = Inr q" "loadLoop code (rev ps) q = Inr pc'"
      using snoc.prems by (auto split: sum.splits)
    note f = load_fields [OF q(1)]
    have "filter (\<lambda>r. \<not> loaded (objects q r)) ps = filter (\<lambda>r. r \<noteq> p) (filter (\<lambda>r. \<not> loaded (objects pc r)) ps)"
      by (auto simp: f(2) intro!: filter_cong)
    then have "unloaded pc (ps @ [p]) = unloaded q ps @ [p]"
      using False by (simp add: unloaded_def remdups_snoc)
    moreover note snoc.IH [OF q(2)]
    ultimately show ?thesis using f by (simp add: fun_eq_iff)
  qed
qed (simp add: unloaded_def)

lemma loadLoop_idle: "\<forall>p \<in> set ps. loaded (objects pc p) \<Longrightarrow> loadLoop code ps pc = Inr pc"
  by (induction ps) auto

lemma unloadLoop_unloads:
  "world (unloadLoop code (rev ps) pc) = fold (code_unload code) (rev (remdups (filter (\<lambda>p. loaded (objects pc p)) ps))) (world pc)
    \<and> (\<forall>p. objects (unloadLoop code (rev ps) pc) p = (if p \<in> set ps then (objects pc p)\<lparr>loaded := False\<rparr> else objects pc p))"
proof (induction ps arbitrary: pc rule: rev_induct)
  case (snoc p ps)
  show ?case
  proof (cases "loaded (objects pc p)")
    case True
    have o: "objects (unload code p pc) r = (if r = p then (objects pc p)\<lparr>loaded := False\<rparr> else objects pc r)" for r
      by (simp add: unload_def)
    have "filter (\<lambda>r. loaded (objects (unload code p pc) r)) ps
        = filter (\<lambda>r. r \<noteq> p) (filter (\<lambda>r. loaded (objects pc r)) ps)"
      by (auto simp: o intro!: filter_cong)
    then show ?thesis using snoc.IH [of "unload code p pc"] True
      by (simp add: o remdups_snoc) (simp add: unload_def)
  next
    case False
    then have "(objects pc p)\<lparr>loaded := False\<rparr> = objects pc p" by (cases "objects pc p") simp
    then show ?thesis using snoc.IH [of pc] False by auto
  qed
qed simp

text \<open>
  Loading and unloading. When \<open>loadPlugins\<close> succeeds, it has run \<open>pluginLoad\<close> exactly once on
  each registered plugin that was not loaded, in the reverse order of registration, and every
  registered plugin is loaded; a second call does nothing; and \<open>unloadPlugins\<close> then runs
  \<open>pluginUnload\<close> exactly once on every registered plugin, again in reverse order, and leaves all of
  them unloaded. A plugin that was registered twice is still loaded and unloaded once.
\<close>

theorem plugins_load_and_unload_once:
  assumes "loadPlugins code pc = Inr pc'"
  shows "world pc' = fold (\<lambda>p w. fst (code_load code p w)) (rev (unloaded pc (plugins pc))) (world pc)
    \<and> (\<forall>p \<in> set (plugins pc). loaded (objects pc' p))
    \<and> loadPlugins code pc' = Inr pc'
    \<and> world (unloadPlugins code pc') = fold (code_unload code) (rev (remdups (plugins pc))) (world pc')
    \<and> (\<forall>p \<in> set (plugins pc). \<not> loaded (objects (unloadPlugins code pc') p))"
proof -
  note l = loadLoop_loads [OF assms [unfolded loadPlugins_def]]
  then have all: "\<forall>p \<in> set (plugins pc). loaded (objects pc' p)" by simp
  then have again: "loadPlugins code pc' = Inr pc'" using l by (simp add: loadPlugins_def loadLoop_idle)
  have "filter (\<lambda>p. loaded (objects pc' p)) (plugins pc') = plugins pc" using all l by simp
  then show ?thesis using all again l unloadLoop_unloads [of code "plugins pc'" pc'] by (simp add: unloadPlugins_def)
qed

section \<open>A sample program\<close>

definition sampleCode :: "(string \<times> nat) list PluginCode" where
  "sampleCode = \<lparr>code_load = (\<lambda>p w. (w @ [(''load'', p)], [(Some p, int p)])),
     code_unload = (\<lambda>p w. w @ [(''unload'', p)]), code_notify = (\<lambda>p t w. w @ [(''notify'', p)]),
     code_checkpoint = (\<lambda>p t d w. w), code_restart = (\<lambda>p t d w. w)\<rparr>"

definition samplePlugins :: "(string \<times> nat) list PluginConnector" where
  "samplePlugins = (PluginConnector_new [])\<lparr>plugins := [3, 2, 0, 2]\<rparr>"

lemma samplePlugins_plugged: "plugged sampleCode samplePlugins"
proof -
  have "plugged sampleCode (PluginConnector_new [])" by (rule plugged_new)
  then have "plugged sampleCode ((PluginConnector_new [])\<lparr>plugins := [3]\<rparr>)"
    by (rule plugged_register [where plugin = "Some 3"]) (simp add: registerPlugin_def PluginConnector_new_def)
  then have "plugged sampleCode ((PluginConnector_new [])\<lparr>plugins := [3, 2]\<rparr>)"
    by (rule plugged_register [where plugin = "Some 2"]) (simp add: registerPlugin_def PluginConnector_new_def)
  then have "plugged sampleCode ((PluginConnector_new [])\<lparr>plugins := [3, 2, 0]\<rparr>)"
    by (rule plugged_register [where plugin = "Some 0"]) (simp add: registerPlugin_def PluginConnector_new_def)
  then show ?thesis unfolding samplePlugins_def
    by (rule plugged_register [where plugin = "Some 2"]) (simp add: registerPlugin_def PluginConnector_new_def)
qed

lemma samplePlugins_load:
  "\<exists>pc. loadPlugins sampleCode samplePlugins = Inr pc \<and> notificationList pc = [(2, 2), (3, 3)]
     \<and> world pc = [(''load'', 2), (''load'', 0), (''load'', 3)]"
  by (simp add: loadPlugins_def samplePlugins_def PluginConnector_new_def load_def sampleCode_def setLoaded_def
      setNotificationPeriod_def IPlugin_new_def)

text \<open>C1, witness: four registrations (one plugin twice, one with period 0) are loaded and notified at step 4.\<close>

theorem notifications_follow_periods_witness:
  "\<exists>pc pc'. loadPlugins sampleCode samplePlugins = Inr pc \<and> notifyPlugins sampleCode 4 pc = Inr pc'
     \<and> world pc' = [(''load'', 2), (''load'', 0), (''load'', 3), (''notify'', 2)]"
proof -
  obtain pc where pc: "loadPlugins sampleCode samplePlugins = Inr pc" "notificationList pc = [(2, 2), (3, 3)]"
      "world pc = [(''load'', 2), (''load'', 0), (''load'', 3)]" using samplePlugins_load by blast
  have "plugged sampleCode pc" by (rule plugged_load [OF samplePlugins_plugged pc(1)])
  from notifications_follow_periods [OF this, of 4] pc show ?thesis
    by (auto simp: sampleCode_def due_def)
qed

text \<open>The same four registrations, loaded and unloaded.\<close>

theorem plugins_load_and_unload_once_witness:
  "\<exists>pc. loadPlugins sampleCode samplePlugins = Inr pc \<and> loadPlugins sampleCode pc = Inr pc
     \<and> world (unloadPlugins sampleCode pc)
         = [(''load'', 2), (''load'', 0), (''load'', 3), (''unload'', 2), (''unload'', 0), (''unload'', 3)]"
proof -
  obtain pc where pc: "loadPlugins sampleCode samplePlugins = Inr pc"
      "world pc = [(''load'', 2), (''load'', 0), (''load'', 3)]" using samplePlugins_load by blast
  from plugins_load_and_unload_once [OF pc(1)] pc show ?thesis
    by (simp add: sampleCode_def samplePlugins_def)
qed

end
