(* ===== verification/DataManagement.thy ===== *)
theory DataManagement
  imports Prelude
begin

text \<open>
  Models the data management of libPMacc (src/libPMacc/include/dataManagement): \<open>Dataset\<close>
  (Dataset.hpp), \<open>ListSorter\<close> (ListSorter.hpp), \<open>AbstractInitialiser\<close> (AbstractInitialiser.hpp) and
  the \<open>DataConnector\<close> (DataConnector.hpp). The simulation data itself is behind
  virtual functions: an identifier, a function that copies it to the host
  (\<open>synchronize\<close>) and the initialiser's functions are arguments. The sorter's list iterator is an
  index, \<open>length ids\<close> standing for the end iterator; stepping or reading past the end has no
  defined result and is an error value. Shown: initialising visits every registered data set
  once, in the order of registration; between two invalidations a data set is copied to the host
  at most once, when it is first asked for.
\<close>

section \<open>Data sets\<close>

datatype DatasetStatus = AUTO_OK | AUTO_INVALID

record 'd Dataset =
  ds_data :: 'd
  ds_status :: DatasetStatus

definition ds_synchronize :: "('d \<Rightarrow> 'w \<Rightarrow> 'w) \<Rightarrow> 'd Dataset \<Rightarrow> 'w \<Rightarrow> 'd Dataset \<times> 'w" where
  "ds_synchronize sync this w =
     (if ds_status this = AUTO_INVALID
      then (this\<lparr>ds_status := AUTO_OK\<rparr>, sync (ds_data this) w) else (this, w))"

definition ds_invalidate :: "'d Dataset \<Rightarrow> 'd Dataset" where
  "ds_invalidate this = (if ds_status this = AUTO_OK then this\<lparr>ds_status := AUTO_INVALID\<rparr> else this)"

section \<open>The sorter\<close>

record 'k ListSorter =
  ids :: "'k list"
  iter :: nat

definition ListSorter_new :: "'k ListSorter" where
  "ListSorter_new = \<lparr>ids = [], iter = 0\<rparr>"

definition sorter_add :: "'k \<Rightarrow> 'k ListSorter \<Rightarrow> 'k ListSorter" where
  "sorter_add i this =
     \<lparr>ids = ids this @ [i], iter = (if iter this = length (ids this) then 0 else iter this)\<rparr>"

definition sorter_begin :: "'k ListSorter \<Rightarrow> ('k ListSorter \<times> 'k) option" where
  "sorter_begin this = (case ids this of [] \<Rightarrow> None | i # _ \<Rightarrow> Some (this\<lparr>iter := 0\<rparr>, i))"

definition sorter_isValid :: "'k ListSorter \<Rightarrow> bool" where
  "sorter_isValid this \<longleftrightarrow> iter this \<noteq> length (ids this)"

definition sorter_hasNext :: "'k ListSorter \<Rightarrow> bool option" where
  "sorter_hasNext this =
     (if iter this < length (ids this) then Some (Suc (iter this) \<noteq> length (ids this)) else None)"

definition sorter_getNext :: "'k ListSorter \<Rightarrow> ('k ListSorter \<times> 'k) option" where
  "sorter_getNext this =
     (if Suc (iter this) < length (ids this)
      then Some (this\<lparr>iter := Suc (iter this)\<rparr>, ids this ! Suc (iter this)) else None)"

section \<open>The data connector\<close>

datatype DataError = Runtime_error string string | Undefined

record ('k, 'd) DataConnector =
  mapping_of :: "'k \<rightharpoonup> 'd Dataset"
  sorter :: "'k ListSorter"

type_synonym ('d) dconn = "(string, 'd) DataConnector"

definition DataConnector_new :: "'d dconn" where
  "DataConnector_new = \<lparr>mapping_of = Map.empty, sorter = ListSorter_new\<rparr>"

definition hasData :: "string \<Rightarrow> 'd dconn \<Rightarrow> bool" where
  "hasData i this \<longleftrightarrow> mapping_of this i \<noteq> None"

definition dc_invalidate :: "'d dconn \<Rightarrow> 'd dconn" where
  "dc_invalidate this = this\<lparr>mapping_of := (\<lambda>i. map_option ds_invalidate (mapping_of this i))\<rparr>"

definition registerData :: "('d \<Rightarrow> string) \<Rightarrow> 'd \<Rightarrow> 'd dconn \<Rightarrow> DataError + 'd dconn" where
  "registerData getUniqueId d this =
     (let i = getUniqueId d in
      if hasData i this then Inl (Runtime_error ''DataConnector dataset ID already exists'' i)
      else Inr (this\<lparr>mapping_of := (mapping_of this)(i \<mapsto> \<lparr>ds_data = d, ds_status = AUTO_INVALID\<rparr>),
                     sorter := sorter_add i (sorter this)\<rparr>))"

definition getData :: "('d \<Rightarrow> 'w \<Rightarrow> 'w) \<Rightarrow> string \<Rightarrow> bool \<Rightarrow> 'd dconn \<Rightarrow> 'w \<Rightarrow> DataError + ('d dconn \<times> 'w \<times> 'd)" where
  "getData sync i noSync this w =
     (case mapping_of this i of
        None \<Rightarrow> Inl (Runtime_error ''Invalid DataConnector dataset ID'' i)
      | Some dataset \<Rightarrow>
          (let (dataset, w) = (if \<not> noSync then ds_synchronize sync dataset w else (dataset, w))
           in Inr (this\<lparr>mapping_of := (mapping_of this)(i \<mapsto> dataset)\<rparr>, w, ds_data dataset)))"

definition releaseData :: "string \<Rightarrow> 'd dconn \<Rightarrow> 'd dconn" where
  "releaseData i this = this"

record ('d, 'w) Initialiser =
  init_setup :: "'w \<Rightarrow> int \<times> 'w"
  init_data :: "'d \<Rightarrow> int \<Rightarrow> 'w \<Rightarrow> 'w"
  init_teardown :: "'w \<Rightarrow> 'w"

definition AbstractInitialiser_of :: "('d \<Rightarrow> int \<Rightarrow> 'w \<Rightarrow> 'w) \<Rightarrow> ('d, 'w) Initialiser" where
  "AbstractInitialiser_of f = \<lparr>init_setup = (\<lambda>w. (0, w)), init_data = f, init_teardown = (\<lambda>w. w)\<rparr>"

definition SimStartInitialiser :: "('d, 'w) Initialiser" where
  "SimStartInitialiser = AbstractInitialiser_of (\<lambda>d currentStep w. w)"

function (sequential) initLoop ::
    "('d, 'w) Initialiser \<Rightarrow> int \<Rightarrow> (string \<rightharpoonup> 'd Dataset) \<Rightarrow> string \<Rightarrow> string ListSorter \<Rightarrow> 'w \<Rightarrow> DataError + (string ListSorter \<times> 'w)" where
  "initLoop initialiser currentStep m i s w =
     (if sorter_isValid s then
        (case m i of
           None \<Rightarrow> Inl Undefined
         | Some dataset \<Rightarrow>
             (let w = init_data initialiser (ds_data dataset) currentStep w
              in case sorter_hasNext s of
                   None \<Rightarrow> Inl Undefined
                 | Some False \<Rightarrow> Inr (s, w)
                 | Some True \<Rightarrow>
                     (case sorter_getNext s of
                        None \<Rightarrow> Inl Undefined
                      | Some (s', i) \<Rightarrow> initLoop initialiser currentStep m i s' w)))
      else Inr (s, w))"
  by pat_completeness auto
termination
  by (relation "measure (\<lambda>(initialiser, currentStep, m, i, s, w). length (ids s) - iter s)")
    (auto simp: sorter_getNext_def split: if_splits)

declare initLoop.simps [simp del]

definition dc_initialise :: "('d, 'w) Initialiser \<Rightarrow> int \<Rightarrow> 'd dconn \<Rightarrow> 'w \<Rightarrow> DataError + ('d dconn \<times> 'w)" where
  "dc_initialise initialiser currentStep this w =
     (case init_setup initialiser w of
        (currentStep, w) \<Rightarrow>
          (if sorter_isValid (sorter this) then
             (case sorter_begin (sorter this) of
                None \<Rightarrow> Inl Undefined
              | Some (s, i) \<Rightarrow>
                  (case initLoop initialiser currentStep (mapping_of this) i s w of
                     Inl e \<Rightarrow> Inl e
                   | Inr (s, w) \<Rightarrow> Inr (this\<lparr>sorter := s\<rparr>, init_teardown initialiser w)))
           else Inr (this, init_teardown initialiser w)))"

section \<open>Reachable connectors\<close>

text \<open>What every operation keeps: the sorter lists the registered identifiers once each, and its
  iterator is at an element unless nothing is registered.\<close>

definition dc_inv :: "('d \<Rightarrow> string) \<Rightarrow> 'd list \<Rightarrow> 'd dconn \<Rightarrow> bool" where
  "dc_inv getUniqueId ds dc \<longleftrightarrow>
     distinct (map getUniqueId ds) \<and> ids (sorter dc) = map getUniqueId ds
     \<and> dom (mapping_of dc) = getUniqueId ` set ds
     \<and> (\<forall>d \<in> set ds. \<forall>x. mapping_of dc (getUniqueId d) = Some x \<longrightarrow> ds_data x = d)
     \<and> (if ds = [] then iter (sorter dc) = 0 else iter (sorter dc) < length ds)"

lemma dc_invD:
  assumes "dc_inv uid ds dc" "d \<in> set ds"
  shows "\<exists>x. mapping_of dc (uid d) = Some x \<and> ds_data x = d"
  using assms by (metis (no_types, lifting) dc_inv_def domD image_eqI)

lemma dc_inv_new: "dc_inv uid [] DataConnector_new"
  by (simp add: dc_inv_def DataConnector_new_def ListSorter_new_def)

lemma registerData_cases:
  assumes "dc_inv uid ds dc"
  shows "if uid d \<in> uid ` set ds then registerData uid d dc = Inl (Runtime_error ''DataConnector dataset ID already exists'' (uid d))
    else (\<exists>dc'. registerData uid d dc = Inr dc' \<and> dc_inv uid (ds @ [d]) dc')"
proof -
  have "hasData (uid d) dc \<longleftrightarrow> uid d \<in> uid ` set ds" using assms by (auto simp: hasData_def dc_inv_def)
  then show ?thesis using assms by (auto simp: registerData_def Let_def dc_inv_def sorter_add_def split: if_splits) (metis image_eqI)
qed

lemma dc_inv_getData:
  assumes "dc_inv uid ds dc" "getData sync i noSync dc w = Inr (dc', w', d)"
  shows "dc_inv uid ds dc'"
proof -
  obtain x where x: "mapping_of dc i = Some x" using assms(2) by (auto simp: getData_def split: option.splits)
  obtain y where y: "dc' = dc\<lparr>mapping_of := (mapping_of dc)(i \<mapsto> y)\<rparr>" "ds_data y = ds_data x"
    using assms(2) x by (auto simp: getData_def ds_synchronize_def split: if_splits)
  show ?thesis using assms(1) x y by (auto simp: dc_inv_def)
qed

lemma dc_inv_invalidate: "dc_inv uid ds dc \<Longrightarrow> dc_inv uid ds (dc_invalidate dc)"
  by (fastforce simp: dc_inv_def dc_invalidate_def ds_invalidate_def dom_def)

section \<open>Initialising\<close>

lemma initLoop_visits:
  assumes "ids s = map uid ds" "iter s < length ds" "\<forall>d \<in> set ds. \<exists>x. m (uid d) = Some x \<and> ds_data x = d"
  shows "initLoop ini t m (ids s ! iter s) s w
    = Inr (s\<lparr>iter := length ds - 1\<rparr>, fold (\<lambda>d. init_data ini d t) (drop (iter s) ds) w)"
  using assms
proof (induction "length ds - iter s" arbitrary: s w)
  case (Suc k)
  let ?d = "ds ! iter s"
  obtain x where x: "m (uid ?d) = Some x" "ds_data x = ?d" using Suc.prems(2,3) by fastforce
  have d: "drop (iter s) ds = ?d # drop (Suc (iter s)) ds" using Suc.prems(2) by (simp add: Cons_nth_drop_Suc)
  show ?case
  proof (cases "Suc (iter s) = length ds")
    case True
    then have "iter s = length ds - 1" by simp
    then have "s = s\<lparr>iter := length ds - 1\<rparr>" by (cases s) simp
    then show ?thesis using True Suc.prems x d
      by (subst initLoop.simps) (simp add: sorter_isValid_def sorter_hasNext_def)
  next
    case False
    then have lt: "Suc (iter s) < length ds" using Suc.prems(2) by simp
    let ?s = "s\<lparr>iter := Suc (iter s)\<rparr>"
    have "initLoop ini t m (ids ?s ! iter ?s) ?s (init_data ini ?d t w)
        = Inr (?s\<lparr>iter := length ds - 1\<rparr>, fold (\<lambda>d. init_data ini d t) (drop (iter ?s) ds) (init_data ini ?d t w))"
      using Suc.hyps(2) Suc.prems lt by (intro Suc.hyps(1)) auto
    then show ?thesis using Suc.prems x d lt
      by (subst initLoop.simps) (simp add: sorter_isValid_def sorter_hasNext_def sorter_getNext_def Let_def)
  qed
qed simp

lemma dc_initialise_ok:
  assumes "dc_inv getUniqueId ds dc"
  shows "\<exists>dc'. dc_initialise ini currentStep dc w
      = Inr (dc', init_teardown ini (fold (\<lambda>d. init_data ini d (fst (init_setup ini w))) ds (snd (init_setup ini w))))
    \<and> dc_inv getUniqueId ds dc' \<and> mapping_of dc' = mapping_of dc"
proof (cases "ds = []")
  case True
  then show ?thesis using assms by (auto simp: dc_initialise_def dc_inv_def sorter_isValid_def split: prod.splits)
next
  case False
  let ?s = "(sorter dc)\<lparr>iter := 0\<rparr>"
  have inv: "ids (sorter dc) = map getUniqueId ds" "iter (sorter dc) < length ds"
    using assms False by (simp_all add: dc_inv_def)
  have b: "sorter_begin (sorter dc) = Some (?s, ids ?s ! iter ?s)"
    using False inv by (cases ds) (simp_all add: sorter_begin_def)
  have "initLoop ini t (mapping_of dc) (ids ?s ! iter ?s) ?s v
      = Inr (?s\<lparr>iter := length ds - 1\<rparr>, fold (\<lambda>d. init_data ini d t) (drop (iter ?s) ds) v)" for t v
    using False inv dc_invD [OF assms] by (intro initLoop_visits [where uid = getUniqueId]) auto
  then have "dc_initialise ini currentStep dc w
      = Inr (dc\<lparr>sorter := ?s\<lparr>iter := length ds - 1\<rparr>\<rparr>,
          init_teardown ini (fold (\<lambda>d. init_data ini d (fst (init_setup ini w))) ds (snd (init_setup ini w))))"
    using b inv by (simp add: dc_initialise_def sorter_isValid_def split: prod.splits)
  then show ?thesis using assms False by (auto simp: dc_inv_def)
qed

text \<open>
  Initialising data sets. For a connector in which the data sets ds have been registered (whatever
  has been read or invalidated since, and also after earlier initialisations), \<open>initialise\<close> completes:
  it sets the initialiser up, initialises every data set exactly once in the order of registration,
  at the step that \<open>setup\<close> returned and not at the step passed to it, and
  tears the initialiser down. The connector keeps its invariant and no data set changes its
  synchronisation status.
\<close>

theorem initialise_visits_in_order:
  assumes "dc_inv getUniqueId ds dc"
  shows "\<exists>dc'. dc_initialise ini currentStep dc w
      = Inr (dc', init_teardown ini (fold (\<lambda>d. init_data ini d (fst (init_setup ini w))) ds (snd (init_setup ini w))))
    \<and> dc_inv getUniqueId ds dc' \<and> mapping_of dc' = mapping_of dc"
  by (rule dc_initialise_ok [OF assms])

section \<open>Reading\<close>

fun getAll :: "('d \<Rightarrow> 'w \<Rightarrow> 'w) \<Rightarrow> (string \<times> bool) list \<Rightarrow> 'd dconn \<Rightarrow> 'w \<Rightarrow> DataError + ('d dconn \<times> 'w \<times> 'd list)" where
  "getAll sync [] this w = Inr (this, w, [])"
| "getAll sync ((i, noSync) # calls) this w =
     (case getData sync i noSync this w of
        Inl e \<Rightarrow> Inl e
      | Inr (this, w, d) \<Rightarrow>
          (case getAll sync calls this w of Inl e \<Rightarrow> Inl e | Inr (this, w, ds) \<Rightarrow> Inr (this, w, d # ds)))"

definition synchronised :: "string \<Rightarrow> 'd dconn \<Rightarrow> bool" where
  "synchronised i dc \<longleftrightarrow> (\<exists>x. mapping_of dc i = Some x \<and> ds_status x = AUTO_OK)"

fun firstReads :: "string set \<Rightarrow> (string \<times> bool) list \<Rightarrow> string list" where
  "firstReads seen [] = []"
| "firstReads seen ((i, noSync) # calls) =
     (if noSync \<or> i \<in> seen then firstReads seen calls else i # firstReads (insert i seen) calls)"

lemma firstReads_distinct: "distinct (firstReads seen calls) \<and> set (firstReads seen calls) \<inter> seen = {}"
  by (induction seen calls rule: firstReads.induct) auto

lemma firstReads_set: "set (firstReads seen calls) = {i. (i, False) \<in> set calls} - seen"
  by (induction seen calls rule: firstReads.induct) auto

lemma getData_registered:
  assumes "dc_inv uid ds dc" "d \<in> set ds"
  shows "\<exists>dc'. getData sync (uid d) noSync dc w
      = Inr (dc', if noSync \<or> synchronised (uid d) dc then w else sync d w, d)
    \<and> dc_inv uid ds dc' \<and> (\<forall>i. synchronised i dc' \<longleftrightarrow> synchronised i dc \<or> (i = uid d \<and> \<not> noSync))"
proof -
  obtain x where x: "mapping_of dc (uid d) = Some x" "ds_data x = d" using dc_invD [OF assms] by blast
  have st: "ds_status x = AUTO_OK \<longleftrightarrow> ds_status x \<noteq> AUTO_INVALID" by (cases "ds_status x") auto
  define y where "y = (if noSync then x else x\<lparr>ds_status := AUTO_OK\<rparr>)"
  let ?dc = "dc\<lparr>mapping_of := (mapping_of dc)(uid d \<mapsto> y)\<rparr>"
  have "synchronised (uid d) dc \<Longrightarrow> x\<lparr>ds_status := AUTO_OK\<rparr> = x" using x by (cases x) (auto simp: synchronised_def)
  then have g: "getData sync (uid d) noSync dc w = Inr (?dc, if noSync \<or> synchronised (uid d) dc then w else sync d w, d)"
    using x st by (auto simp: getData_def ds_synchronize_def synchronised_def y_def)
  have "\<forall>i. synchronised i ?dc \<longleftrightarrow> synchronised i dc \<or> (i = uid d \<and> \<not> noSync)"
    using x by (auto simp: synchronised_def y_def)
  with g dc_inv_getData [OF assms(1) g] show ?thesis by blast
qed

lemma getAll_reads:
  assumes "dc_inv uid ds dc" "\<forall>(d, noSync) \<in> set calls. d \<in> set ds"
  shows "\<exists>dc'. getAll sync (map (\<lambda>(d, b). (uid d, b)) calls) dc w
      = Inr (dc', fold sync (map (\<lambda>i. the (find (\<lambda>d. uid d = i) ds))
            (firstReads {i. synchronised i dc} (map (\<lambda>(d, b). (uid d, b)) calls))) w, map fst calls)
    \<and> dc_inv uid ds dc'"
  using assms
proof (induction calls arbitrary: dc w)
  case (Cons c calls)
  obtain d b where c: "c = (d, b)" and d: "d \<in> set ds" using Cons.prems(2) by (cases c) auto
  obtain dc1 where g: "getData sync (uid d) b dc w = Inr (dc1, if b \<or> synchronised (uid d) dc then w else sync d w, d)"
      "dc_inv uid ds dc1" "\<forall>i. synchronised i dc1 \<longleftrightarrow> synchronised i dc \<or> (i = uid d \<and> \<not> b)"
    using getData_registered [OF Cons.prems(1) d] by metis
  have "find (\<lambda>e. uid e = uid d) ds = Some d"
  proof -
    have "inj_on uid (set ds)" using Cons.prems(1) by (simp add: dc_inv_def distinct_map)
    then show ?thesis using d by (induction ds) (auto simp: inj_on_def)
  qed
  moreover have "{i. synchronised i dc1} = (if b then {i. synchronised i dc} else insert (uid d) {i. synchronised i dc})"
    using g(3) by auto
  moreover have "synchronised (uid d) dc \<Longrightarrow> insert (uid d) {i. synchronised i dc} = {i. synchronised i dc}" by auto
  ultimately show ?case
    using Cons.IH [OF g(2), of "if b \<or> synchronised (uid d) dc then w else sync d w"] Cons.prems(2) g(1) c
    by (auto split: if_splits)
qed simp

text \<open>
  Host copies are made once. Right after \<open>invalidate\<close>, any sequence of \<open>getData\<close> calls on registered
  data returns the data that was registered under each identifier and copies to the host exactly the
  data sets that some call asked for without \<open>noSync\<close>: each one once, at its first such call, however often
  it is read.
\<close>

theorem getData_synchronises_once:
  assumes "dc_inv getUniqueId ds dc" "\<forall>(d, noSync) \<in> set calls. d \<in> set ds"
  defines "keys \<equiv> map (\<lambda>(d, noSync). (getUniqueId d, noSync)) calls"
  shows "\<exists>dc' copied. getAll sync keys (dc_invalidate dc) w = Inr (dc', fold sync copied w, map fst calls)
    \<and> distinct copied \<and> set copied = {d. (d, False) \<in> set calls} \<and> dc_inv getUniqueId ds dc'
    \<and> map getUniqueId copied = firstReads {} keys"
proof -
  let ?pick = "\<lambda>i. the (find (\<lambda>d. getUniqueId d = i) ds)"
  have none: "{i. synchronised i (dc_invalidate dc)} = {}"
    by (auto simp: synchronised_def dc_invalidate_def ds_invalidate_def split: if_splits)
  have inj: "inj_on getUniqueId (set ds)" using assms(1) by (simp add: dc_inv_def distinct_map)
  have pick: "?pick (getUniqueId d) = d" if "d \<in> set ds" for d
  proof -
    have "find (\<lambda>e. getUniqueId e = getUniqueId d) ds = Some d"
      using that inj by (induction ds) (auto simp: inj_on_def)
    then show ?thesis by simp
  qed
  let ?copied = "map ?pick (firstReads {} keys)"
  have ks: "set (firstReads {} keys) = getUniqueId ` {d. (d, False) \<in> set calls}"
    by (force simp: firstReads_set keys_def)
  have sub: "{d. (d, False) \<in> set calls} \<subseteq> set ds" using assms(2) by auto
  have uid: "map getUniqueId ?copied = firstReads {} keys"
    using sub by (auto simp: ks pick subset_iff intro!: map_idI)
  moreover have "distinct ?copied" using firstReads_distinct uid by (metis distinct_map)
  moreover have "set ?copied = {d. (d, False) \<in> set calls}" using ks sub pick by (force simp: image_image)
  moreover obtain dc' where "getAll sync keys (dc_invalidate dc) w = Inr (dc', fold sync ?copied w, map fst calls)"
      "dc_inv getUniqueId ds dc'"
    using getAll_reads [OF dc_inv_invalidate [OF assms(1)] assms(2), of sync w] none by (auto simp: keys_def)
  ultimately show ?thesis by - (rule exI [of _ dc'], rule exI [of _ ?copied], simp)
qed

section \<open>Witnesses\<close>

definition sampleData :: "string dconn" where
  "sampleData = \<lparr>mapping_of = [''FieldE'' \<mapsto> \<lparr>ds_data = ''FieldE'', ds_status = AUTO_OK\<rparr>,
       ''FieldB'' \<mapsto> \<lparr>ds_data = ''FieldB'', ds_status = AUTO_INVALID\<rparr>],
     sorter = \<lparr>ids = [''FieldB'', ''FieldE''], iter = 1\<rparr>\<rparr>"

lemma sampleData_inv: "dc_inv (\<lambda>d. d) [''FieldB'', ''FieldE''] sampleData"
  by (auto simp: dc_inv_def sampleData_def)

text \<open>C1, witness: two fields, one already synchronised, are initialised at the step \<open>setup\<close> chooses.\<close>

theorem initialise_visits_in_order_witness:
  "\<exists>dc'. dc_initialise \<lparr>init_setup = (\<lambda>w. (7, w @ [(''setup'', 0)])), init_data = (\<lambda>d t w. w @ [(d, t)]),
        init_teardown = (\<lambda>w. w @ [(''teardown'', 0)])\<rparr> 3 sampleData []
     = Inr (dc', [(''setup'', 0), (''FieldB'', 7), (''FieldE'', 7), (''teardown'', 0)])
     \<and> mapping_of dc' = mapping_of sampleData"
  using initialise_visits_in_order [OF sampleData_inv, of "\<lparr>init_setup = (\<lambda>w. (7, w @ [(''setup'', 0)])),
      init_data = (\<lambda>d t w. w @ [(d, t)]), init_teardown = (\<lambda>w. w @ [(''teardown'', 0)])\<rparr>" 3 "[]"]
  by auto

text \<open>C2, witness: four reads of two fields make two copies.\<close>

theorem getData_synchronises_once_witness:
  "\<exists>dc' copied. getAll (\<lambda>d w. w @ [d]) [(''FieldE'', True), (''FieldB'', False), (''FieldE'', False), (''FieldB'', False)]
        (dc_invalidate sampleData) []
      = Inr (dc', fold (\<lambda>d w. w @ [d]) copied [], [''FieldE'', ''FieldB'', ''FieldE'', ''FieldB''])
     \<and> copied = [''FieldB'', ''FieldE'']"
  using getData_synchronises_once [OF sampleData_inv,
      of "[(''FieldE'', True), (''FieldB'', False), (''FieldE'', False), (''FieldB'', False)]" "\<lambda>d w. w @ [d]" "[]"]
  by auto

end
