(* ===== verification/SimulationControl.thy ===== *)
theory SimulationControl
  imports Complex_Main PluginSystem DataManagement "HOL-Library.Word"
begin

text \<open>
  Models \<open>SimulationHelper\<close> (src/libPMacc/include/simulationControl/SimulationHelper.hpp): the progress
  settings, the main loop \<open>startSimulation\<close>, the output phase \<open>dumpOneStep\<close> with its checkpoints, and the
  master file that lists the checkpoints, with its reader \<open>readCheckpointMasterFile\<close>
  (src/picongpu/include/simulationControl/MySimulation.hpp). The functions a simulation overrides are a record of
  functions that may fail. The step counter is a 32 bit word. The file system is a map from paths to
  contents; whether a file can be opened, and boost's \<open>lexical_cast\<close>, are arguments. Shown: the
  loop ends and performs its phases in the documented order, and the restart step read from the master file is
  the last step at which a checkpoint was due.
\<close>

section \<open>Errors\<close>

datatype SimError = Std_runtime_error string | PluginFault PluginError | DataFault DataError | ZeroDivision

definition andThen :: "'e + 'a \<Rightarrow> ('a \<Rightarrow> 'e + 'b) \<Rightarrow> 'e + 'b" where
  "andThen r f = (case r of Inl e \<Rightarrow> Inl e | Inr x \<Rightarrow> f x)"

lemma andThen_simps [simp]:
  "andThen (Inl e) f = Inl e" "andThen (Inr x) f = f x" "andThen r Inr = r"
  "andThen (andThen r f) g = andThen r (\<lambda>x. andThen (f x) g)"
  by (simp_all add: andThen_def split: sum.splits)

lemma andThen_if: "andThen (if b then r else s) f = (if b then andThen r f else andThen s f)"
  by simp

section \<open>State\<close>

record SimulationHelper =
  runSteps :: "32 word"
  checkpointPeriod :: int
  checkpointDirectory :: string
  numCheckpoints :: int
  restartStep :: int
  restartDirectory :: string
  restartRequested :: bool
  doOutput :: bool
  progress :: int
  showProgressAnyStep :: int

definition SimulationHelper_new :: SimulationHelper where
  "SimulationHelper_new = \<lparr>runSteps = 0, checkpointPeriod = 0, checkpointDirectory = ''checkpoints'', numCheckpoints = 0,
     restartStep = - 1, restartDirectory = ''checkpoints'', restartRequested = False, doOutput = False, progress = 5,
     showProgressAnyStep = 0\<rparr>"

definition CHECKPOINT_MASTER_FILE :: string where
  "CHECKPOINT_MASTER_FILE = ''checkpoints.txt''"

record FileSystem =
  fs_files :: "string \<rightharpoonup> string"
  fs_directories :: "string list"

record ('d, 'x) SimWorld =
  helper :: SimulationHelper
  dataConnector :: "'d dconn"
  fileSystem :: FileSystem
  sim :: 'x

section \<open>Progress\<close>

definition calcProgress :: "SimulationHelper \<Rightarrow> SimulationHelper" where
  "calcProgress this =
     (let percent = (if progress this = 0 \<or> 100 < progress this then 100 else progress this);
          any = u32 \<lfloor>real_of_int (uint (runSteps this)) / 100 * real_of_int percent\<rfloor>
      in this\<lparr>progress := percent, showProgressAnyStep := (if any = 0 then 1 else any)\<rparr>)"

definition helper_pluginLoad :: "int \<Rightarrow> SimulationHelper \<Rightarrow> SimulationHelper" where
  "helper_pluginLoad globalRank this = (calcProgress this)\<lparr>doOutput := (globalRank = 0)\<rparr>"

definition dumpTimes :: "SimulationHelper \<Rightarrow> int list \<Rightarrow> 32 word \<Rightarrow> SimError + int list" where
  "dumpTimes this printed currentStep =
     (if doOutput this \<and> progress this \<noteq> 0
      then if showProgressAnyStep this = 0 then Inl ZeroDivision
           else Inr (if uint currentStep mod showProgressAnyStep this = 0 then printed @ [uint currentStep] else printed)
      else Inr printed)"

section \<open>The main loop\<close>

record 'w Simulation =
  sim_init :: "'w \<Rightarrow> SimError + (32 word \<times> 'w)"
  sim_runOneStep :: "int \<Rightarrow> 'w \<Rightarrow> SimError + 'w"
  sim_movingWindowCheck :: "int \<Rightarrow> 'w \<Rightarrow> SimError + 'w"
  sim_dumpOneStep :: "int \<Rightarrow> 'w \<Rightarrow> SimError + 'w"

lemma step_no_wrap: "currentStep < n \<Longrightarrow> uint (currentStep + 1) = uint currentStep + 1" for currentStep n :: "32 word"
proof -
  assume "currentStep < n"
  then have "uint currentStep + 1 < 2 ^ 32" using uint_lt2p [of n] by (simp add: word_less_def)
  then show ?thesis by (simp add: uint_word_ariths)
qed

function (sequential) simLoop ::
    "SimulationHelper \<Rightarrow> 'w Simulation \<Rightarrow> 32 word \<Rightarrow> int list \<Rightarrow> 'w \<Rightarrow> SimError + (int list \<times> 'w)" where
  "simLoop this S currentStep printed w =
     (if currentStep < runSteps this then
        case sim_runOneStep S (uint currentStep) w of
          Inl e \<Rightarrow> Inl e
        | Inr w \<Rightarrow>
            (case dumpTimes this printed (currentStep + 1) of
               Inl e \<Rightarrow> Inl e
             | Inr printed \<Rightarrow>
                 (case sim_movingWindowCheck S (uint (currentStep + 1)) w of
                    Inl e \<Rightarrow> Inl e
                  | Inr w \<Rightarrow>
                      (case sim_dumpOneStep S (uint (currentStep + 1)) w of
                         Inl e \<Rightarrow> Inl e
                       | Inr w \<Rightarrow> simLoop this S (currentStep + 1) printed w)))
      else Inr (printed, w))"
  by pat_completeness auto
termination
  by (relation "measure (\<lambda>(this, S, currentStep, printed, w). nat (uint (runSteps this) - uint currentStep))")
    (auto simp: step_no_wrap word_less_def)

declare simLoop.simps [simp del]

definition startSimulation :: "SimulationHelper \<Rightarrow> 'w Simulation \<Rightarrow> 'w \<Rightarrow> SimError + (int list \<times> 'w)" where
  "startSimulation this S w =
     andThen (sim_init S w) (\<lambda>(currentStep, w).
     andThen (if currentStep = 0
              then andThen (sim_movingWindowCheck S (uint currentStep) w) (\<lambda>w.
                   andThen (sim_dumpOneStep S (uint currentStep) w) (\<lambda>w. Inr (currentStep, w)))
              else let currentStep = currentStep - 1
                   in andThen (sim_movingWindowCheck S (uint currentStep) w) (\<lambda>w. Inr (currentStep, w)))
       (\<lambda>(currentStep, w).
     andThen (dumpTimes this [] currentStep) (\<lambda>printed. simLoop this S currentStep printed w)))"

section \<open>The order of the phases\<close>

datatype Phase = RunOneStep int | MovingWindowCheck int | DumpOneStep int

fun perform :: "'w Simulation \<Rightarrow> Phase \<Rightarrow> 'w \<Rightarrow> SimError + 'w" where
  "perform S (RunOneStep t) w = sim_runOneStep S t w"
| "perform S (MovingWindowCheck t) w = sim_movingWindowCheck S t w"
| "perform S (DumpOneStep t) w = sim_dumpOneStep S t w"

fun performAll :: "'w Simulation \<Rightarrow> Phase list \<Rightarrow> 'w \<Rightarrow> SimError + 'w" where
  "performAll S [] w = Inr w"
| "performAll S (p # ps) w = andThen (perform S p w) (performAll S ps)"

lemma performAll_append: "performAll S (ps @ qs) w = andThen (performAll S ps w) (performAll S qs)"
  by (induction ps arbitrary: w) (simp_all add: andThen_def split: sum.splits)

definition rounds :: "int \<Rightarrow> int \<Rightarrow> Phase list" where
  "rounds first final = concat (map (\<lambda>t. [RunOneStep t, MovingWindowCheck (t + 1), DumpOneStep (t + 1)]) [first..final - 1])"

definition firstPhases :: "int \<Rightarrow> Phase list" where
  "firstPhases s = (if s = 0 then [MovingWindowCheck 0, DumpOneStep 0] else [MovingWindowCheck (s - 1)])"

definition progressLines :: "SimulationHelper \<Rightarrow> int list \<Rightarrow> int list" where
  "progressLines this ts =
     (if doOutput this \<and> progress this \<noteq> 0 then filter (\<lambda>t. t mod showProgressAnyStep this = 0) ts else [])"

lemma dumpTimes_lines:
  "showProgressAnyStep this \<noteq> 0 \<Longrightarrow> dumpTimes this printed t = Inr (printed @ progressLines this [uint t])"
  by (simp add: dumpTimes_def progressLines_def)

lemma simLoop_rounds:
  assumes "showProgressAnyStep this \<noteq> 0"
  shows "simLoop this S t printed w
    = andThen (performAll S (rounds (uint t) (uint (runSteps this))) w)
        (\<lambda>w. Inr (printed @ progressLines this [uint t + 1..uint (runSteps this)], w))"
  using assms
proof (induction this S t printed w rule: simLoop.induct)
  case (1 this S t printed w)
  show ?case
  proof (cases "t < runSteps this")
    case True
    let ?n = "uint (runSteps this)"
    have lt: "uint t \<le> ?n - 1" "uint (t + 1) = uint t + 1" using True step_no_wrap by (auto simp: word_less_def)
    have up: "[uint t..?n - 1] = uint t # [uint t + 1..?n - 1]"
      "progressLines this [uint t + 1..?n] = progressLines this [uint t + 1] @ progressLines this [uint t + 1 + 1..?n]"
      using lt by (simp_all add: upto_rec1 progressLines_def)
    have d: "dumpTimes this printed (t + 1) = Inr (printed @ progressLines this [uint t + 1])"
      using dumpTimes_lines [OF "1.prems"] lt by simp
    note IH = "1.IH" [OF True _ d _ _ "1.prems"]
    show ?thesis
      using IH True d lt by (subst simLoop.simps)
        (auto simp: rounds_def up add.commute [of 1] split: sum.splits)
  next
    case False
    then have "[uint t..uint (runSteps this) - 1] = []" "[uint t + 1..uint (runSteps this)] = []"
      by (simp_all add: word_less_def)
    then show ?thesis using False by (subst simLoop.simps) (simp add: rounds_def progressLines_def)
  qed
qed

lemma calcProgress_positive: "showProgressAnyStep (calcProgress this) \<noteq> 0"
  by (simp add: calcProgress_def Let_def)

lemma startSimulation_phases:
  "startSimulation (helper_pluginLoad rank this) S w =
     andThen (sim_init S w) (\<lambda>(s, w).
       let first = (if s = 0 then 0 else uint s - 1); final = uint (runSteps this)
       in andThen (performAll S (firstPhases (uint s) @ rounds first final) w)
            (\<lambda>w. Inr (progressLines (helper_pluginLoad rank this) [first..max first final], w)))"
proof -
  let ?h = "helper_pluginLoad rank this"
  have h: "showProgressAnyStep ?h \<noteq> 0" "runSteps ?h = runSteps this"
    using calcProgress_positive by (simp_all add: helper_pluginLoad_def calcProgress_def Let_def)
  have m: "uint (s - 1) = uint s - 1" if "s \<noteq> 0" for s :: "32 word"
  proof -
    have "0 < uint s" using that by (simp add: word_neq_0_conv word_less_def)
    then show ?thesis using uint_lt2p [of s] by (simp add: uint_word_ariths)
  qed
  have up: "progressLines ?h [t..max t n] = progressLines ?h [t] @ progressLines ?h [t + 1..n]" for t n
  proof (cases "t < n")
    case True
    then show ?thesis by (simp add: upto_rec1 [of t] progressLines_def)
  next
    case False
    then show ?thesis by (simp add: progressLines_def max_def)
  qed
  have tail: "andThen (dumpTimes ?h [] t) (\<lambda>printed. simLoop ?h S t printed v)
      = andThen (performAll S (rounds (uint t) (uint (runSteps this))) v)
          (\<lambda>w. Inr (progressLines ?h [uint t..max (uint t) (uint (runSteps this))], w))" for t v
    using simLoop_rounds [OF h(1)] by (simp add: dumpTimes_lines [OF h(1)] up h(2))
  show ?thesis
    unfolding startSimulation_def
    by (rule arg_cong [where f = "andThen (sim_init S w)"], rule ext)
      (auto simp: Let_def tail firstPhases_def performAll_append m andThen_if unsigned_eq_0_iff split: prod.splits)
qed

text \<open>
  What the main loop relies on: from a state that satisfies \<open>ready\<close>, \<open>init\<close> succeeds and establishes an
  invariant, and every phase succeeds and keeps it. Then the whole run succeeds.
\<close>

locale total_simulation =
  fixes S :: "'w Simulation" and ready :: "'w \<Rightarrow> bool" and inv :: "'w \<Rightarrow> bool"
  assumes init_ok: "ready w \<Longrightarrow> \<exists>s w'. sim_init S w = Inr (s, w') \<and> inv w'"
    and phase_ok: "inv w \<Longrightarrow> \<exists>w'. perform S phase w = Inr w' \<and> inv w'"
begin

lemma phases_ok: "inv w \<Longrightarrow> \<exists>w'. performAll S phases w = Inr w' \<and> inv w'"
proof (induction phases arbitrary: w)
  case (Cons p phases)
  then obtain v where "perform S p w = Inr v" "inv v" using phase_ok by blast
  with Cons.IH show ?case by simp
qed simp

lemma run_completes:
  assumes "ready w"
  shows "\<exists>printed w'. startSimulation (helper_pluginLoad rank h) S w = Inr (printed, w') \<and> inv w'"
proof -
  obtain s v where v: "sim_init S w = Inr (s, v)" "inv v" using init_ok [OF assms] by blast
  let ?first = "if s = 0 then 0 else uint s - 1"
  obtain w' where "performAll S (firstPhases (uint s) @ rounds ?first (uint (runSteps h))) v = Inr w'" "inv w'"
    using phases_ok [OF v(2)] by blast
  then show ?thesis using v(1) by (simp add: startSimulation_phases Let_def)
qed

end

text \<open>
  C23. The main loop. For every simulation, whatever its four virtual functions do and whether or not they fail,
  \<open>startSimulation\<close> on a loaded helper ends and equals the run of a fixed schedule: after
  \<open>init\<close> returned step 0, the window check and the output of step 0; after it returned s + 1, only the window
  check of step s; then for every step t from there up to the number of steps exclusively, in order, one simulation
  step t followed by the window check and the output of step t + 1. The first failing phase ends the run
  with its error. The progress lines are those of the multiples of the progress interval, which is never zero.
\<close>

theorem startSimulation_schedule:
  "startSimulation (helper_pluginLoad rank this) S w =
     andThen (sim_init S w) (\<lambda>(s, w).
       let first = (if s = 0 then 0 else uint s - 1); final = uint (runSteps this)
       in andThen (performAll S (firstPhases (uint s) @ rounds first final) w)
            (\<lambda>w. Inr (progressLines (helper_pluginLoad rank this) [first..max first final], w)))"
  by (rule startSimulation_phases)

section \<open>The checkpoint master file\<close>

definition newline :: char where
  "newline = CHR 0x0A"

fun decimal :: "nat \<Rightarrow> string" where
  "decimal n = (if n < 10 then [char_of (48 + n)] else decimal (n div 10) @ [char_of (48 + n mod 10)])"

declare decimal.simps [simp del]

definition masterFile :: "string \<Rightarrow> string" where
  "masterFile directory = directory @ ''/'' @ CHECKPOINT_MASTER_FILE"

definition writeCheckpointStep :: "(string \<Rightarrow> bool) \<Rightarrow> string \<Rightarrow> int \<Rightarrow> FileSystem \<Rightarrow> SimError + FileSystem" where
  "writeCheckpointStep canOpen directory checkpointStep fs =
     (let checkpointMasterFile = masterFile directory in
      if \<not> canOpen checkpointMasterFile then Inl (Std_runtime_error ''Failed to write checkpoint master file'')
      else Inr (fs\<lparr>fs_files := (fs_files fs)(checkpointMasterFile \<mapsto>
             (case fs_files fs checkpointMasterFile of None \<Rightarrow> [] | Some c \<Rightarrow> c)
             @ decimal (nat checkpointStep) @ [newline])\<rparr>))"

record ifstream =
  unread :: string
  eofbit :: bool
  failbit :: bool

definition getline :: "ifstream \<Rightarrow> string \<Rightarrow> ifstream \<times> string" where
  "getline file line =
     (if eofbit file \<or> failbit file then (file\<lparr>failbit := True\<rparr>, line)
      else let l = takeWhile (\<lambda>c. c \<noteq> newline) (unread file)
           in case dropWhile (\<lambda>c. c \<noteq> newline) (unread file) of
                [] \<Rightarrow> (file\<lparr>unread := [], eofbit := True, failbit := (l = [])\<rparr>, l)
              | _ # r \<Rightarrow> (file\<lparr>unread := r\<rparr>, l))"

lemma dropWhile_shorter: "dropWhile P xs = y # ys \<Longrightarrow> length ys < length xs"
  by (metis length_dropWhile_le length_Cons Suc_le_lessD)

function (sequential) readLines :: "(string \<Rightarrow> int option) \<Rightarrow> ifstream \<Rightarrow> string \<Rightarrow> int \<Rightarrow> int" where
  "readLines lexical_cast file line lastCheckpointStep =
     (if \<not> failbit file then
        case getline file line of
          (file, line) \<Rightarrow>
            readLines lexical_cast file line
              (if 0 < length line then (case lexical_cast line of Some v \<Rightarrow> v | None \<Rightarrow> - 1) else lastCheckpointStep)
      else lastCheckpointStep)"
  by pat_completeness auto
termination
  by (relation "measure (\<lambda>(lexical_cast, file, line, lastCheckpointStep).
        length (unread file) + (if eofbit file then 0 else 1) + (if failbit file then 0 else 1))")
    (auto simp: getline_def Let_def split: if_splits list.splits dest: dropWhile_shorter)

declare readLines.simps [simp del]

definition readCheckpointMasterFile :: "(string \<Rightarrow> bool) \<Rightarrow> (string \<Rightarrow> int option) \<Rightarrow> string \<Rightarrow> FileSystem \<Rightarrow> int" where
  "readCheckpointMasterFile canOpen lexical_cast directory fs =
     (case fs_files fs (masterFile directory) of
        None \<Rightarrow> - 1
      | Some c \<Rightarrow> readLines lexical_cast \<lparr>unread = c, eofbit = False, failbit = \<not> canOpen (masterFile directory)\<rparr> [] (- 1))"

section \<open>The output phase\<close>

type_synonym ('d, 'x) SimProgram = "('d, 'x) SimWorld PluginConnector"

definition on_world :: "('w \<Rightarrow> 'w) \<Rightarrow> 'w PluginConnector \<Rightarrow> 'w PluginConnector" where
  "on_world f st = st\<lparr>world := f (world st)\<rparr>"

definition writeCheckpoint :: "('d, 'x) SimWorld PluginCode \<Rightarrow> (string \<Rightarrow> bool) \<Rightarrow> int \<Rightarrow> int \<Rightarrow> ('d, 'x) SimProgram \<Rightarrow> SimError + ('d, 'x) SimProgram" where
  "writeCheckpoint code canOpen globalRank currentStep st =
     (let directory = checkpointDirectory (helper (world st));
          st = (if numCheckpoints (helper (world st)) = 0
                then on_world (\<lambda>w. w\<lparr>fileSystem := (fileSystem w)\<lparr>fs_directories := fs_directories (fileSystem w) @ [directory]\<rparr>\<rparr>) st
                else st);
          st = checkpointPlugins code currentStep directory st
      in andThen
           (if globalRank = 0
            then andThen (writeCheckpointStep canOpen (checkpointDirectory (helper (world st))) currentStep (fileSystem (world st)))
                   (\<lambda>fs. Inr (on_world (\<lambda>w. w\<lparr>fileSystem := fs\<rparr>) st))
            else Inr st)
           (\<lambda>st. Inr (on_world (\<lambda>w. w\<lparr>helper := (helper w)\<lparr>numCheckpoints := u32 (numCheckpoints (helper w) + 1)\<rparr>\<rparr>) st)))"

definition dumpOneStep :: "('d, 'x) SimWorld PluginCode \<Rightarrow> (string \<Rightarrow> bool) \<Rightarrow> int \<Rightarrow> int \<Rightarrow> ('d, 'x) SimProgram \<Rightarrow> SimError + ('d, 'x) SimProgram" where
  "dumpOneStep code canOpen globalRank currentStep st =
     (case notifyPlugins code currentStep (on_world (\<lambda>w. w\<lparr>dataConnector := dc_invalidate (dataConnector w)\<rparr>) st) of
        Inl e \<Rightarrow> Inl (PluginFault e)
      | Inr st \<Rightarrow>
          (if checkpointPeriod (helper (world st)) \<noteq> 0 \<and> currentStep mod checkpointPeriod (helper (world st)) = 0
           then writeCheckpoint code canOpen globalRank currentStep st
           else Inr st))"

section \<open>Reading back what was written\<close>

lemma decimal_no_newline: "newline \<notin> set (decimal n)"
proof (induction n rule: decimal.induct)
  case (1 n)
  have "newline \<noteq> char_of (48 + k)" if "k < 10" for k :: nat
  proof
    assume "newline = char_of (48 + k)"
    then have "(of_char newline :: nat) = of_char (char_of (48 + k) :: char)" by simp
    then show False using that by (simp add: newline_def)
  qed
  then show ?case using 1 by (subst decimal.simps) auto
qed

lemma decimal_nonempty [simp]: "decimal n \<noteq> []"
  by (subst decimal.simps) simp

definition readLine :: "(string \<Rightarrow> int option) \<Rightarrow> int \<Rightarrow> string \<Rightarrow> int" where
  "readLine cast before l = (if l \<noteq> [] then (case cast l of Some v \<Rightarrow> v | None \<Rightarrow> - 1) else before)"

lemma readLines_text:
  assumes "\<forall>l \<in> set ls. newline \<notin> set l"
  shows "readLines cast \<lparr>unread = concat (map (\<lambda>l. l @ [newline]) ls), eofbit = False, failbit = False\<rparr> line before
    = foldl (readLine cast) before ls"
  using assms
proof (induction ls arbitrary: line before)
  case Nil
  then show ?case
    by (subst readLines.simps, simp add: getline_def Let_def) (subst readLines.simps, simp)
next
  case (Cons l ls)
  then have "newline \<notin> set l" by simp
  then have "takeWhile (\<lambda>c. c \<noteq> newline) (l @ newline # r) = l" "dropWhile (\<lambda>c. c \<noteq> newline) (l @ newline # r) = newline # r" for r
    by (auto simp: takeWhile_append dropWhile_append)
  with Cons show ?case
    by (subst readLines.simps) (simp add: getline_def Let_def readLine_def [of cast before l])
qed

definition text_lines :: "string list \<Rightarrow> string" where
  "text_lines ls = concat (map (\<lambda>l. l @ [newline]) ls)"

lemma text_lines_simps [simp]: "text_lines [] = []" "text_lines (ls @ ks) = text_lines ls @ text_lines ks"
  by (simp_all add: text_lines_def)

lemma plugged_on_world: "plugged code st \<Longrightarrow> plugged code (on_world f st)"
  unfolding on_world_def by (rule plugged_world)

text \<open>What is asked of plugins: their output functions leave the settings and the master file alone.\<close>

definition keeps_master :: "string \<Rightarrow> (('d, 'x) SimWorld \<Rightarrow> ('d, 'x) SimWorld) \<Rightarrow> bool" where
  "keeps_master dir f \<longleftrightarrow>
     (\<forall>w. helper (f w) = helper w \<and> fs_files (fileSystem (f w)) (masterFile dir) = fs_files (fileSystem w) (masterFile dir))"

definition master :: "string \<Rightarrow> ('d, 'x) SimProgram \<Rightarrow> string option" where
  "master dir st = fs_files (fileSystem (world st)) (masterFile dir)"

lemma keeps_master_fold:
  assumes "\<And>p. p \<in> set ps \<Longrightarrow> keeps_master dir (f p)"
  shows "helper (fold f ps w) = helper w \<and> fs_files (fileSystem (fold f ps w)) (masterFile dir) = fs_files (fileSystem w) (masterFile dir)"
  using assms by (induction ps arbitrary: w) (auto simp: keeps_master_def)

lemma checkpointPlugins_world:
  "world (checkpointPlugins code t dir st) = fold (\<lambda>p. code_checkpoint code p t dir) (plugins st) (world st)"
proof -
  have "world (fold (\<lambda>p st. setLastCheckpoint p t (st\<lparr>world := code_checkpoint code p t dir (world st)\<rparr>)) ps st)
      = fold (\<lambda>p. code_checkpoint code p t dir) ps (world st)" for ps and st :: "'a PluginConnector"
    by (induction ps arbitrary: st) simp_all
  then show ?thesis by (simp add: checkpointPlugins_def)
qed

lemma writeCheckpoint_master:
  assumes "plugged code st" "\<And>p t. keeps_master dir (code_checkpoint code p t dir)"
    and "canOpen (masterFile dir)" "checkpointDirectory (helper (world st)) = dir"
  shows "\<exists>st'. writeCheckpoint code canOpen 0 t st = Inr st' \<and> plugged code st'
    \<and> helper (world st') = (helper (world st))\<lparr>numCheckpoints := u32 (numCheckpoints (helper (world st)) + 1)\<rparr>
    \<and> master dir st' = Some ((case master dir st of None \<Rightarrow> [] | Some c \<Rightarrow> c) @ decimal (nat t) @ [newline])"
proof -
  define s1 where "s1 = (if numCheckpoints (helper (world st)) = 0
      then on_world (\<lambda>w. w\<lparr>fileSystem := (fileSystem w)\<lparr>fs_directories := fs_directories (fileSystem w) @ [dir]\<rparr>\<rparr>) st else st)"
  define s2 where "s2 = checkpointPlugins code t dir s1"
  have s1: "plugged code s1" "helper (world s1) = helper (world st)" "master dir s1 = master dir st"
    using plugged_on_world [OF assms(1)] assms(1) by (simp_all add: s1_def master_def) (simp_all add: on_world_def)
  have "plugged code s2" unfolding s2_def by (rule plugged_checkpoint [OF s1(1)])
  moreover have "helper (world s2) = helper (world st)" "master dir s2 = master dir st"
    using keeps_master_fold [of "plugins s1" dir "\<lambda>p. code_checkpoint code p t dir" "world s1"] assms(2) s1
    by (simp_all add: s2_def checkpointPlugins_world master_def)
  moreover have "writeCheckpoint code canOpen 0 t st
      = andThen (writeCheckpointStep canOpen (checkpointDirectory (helper (world s2))) t (fileSystem (world s2)))
          (\<lambda>fs. Inr (on_world (\<lambda>w. w\<lparr>helper := (helper w)\<lparr>numCheckpoints := u32 (numCheckpoints (helper w) + 1)\<rparr>\<rparr>)
             (on_world (\<lambda>w. w\<lparr>fileSystem := fs\<rparr>) s2)))"
    by (simp add: writeCheckpoint_def assms(4) Let_def s1_def s2_def)
  ultimately show ?thesis
    using assms(3,4) by (auto simp: writeCheckpointStep_def master_def Let_def intro!: plugged_on_world) (simp_all add: on_world_def)
qed

lemma notify_keeps_master:
  assumes "plugged code st" "\<And>p. keeps_master dir (code_notify code p t)"
  shows "\<exists>st'. notifyPlugins code t (on_world (\<lambda>w. w\<lparr>dataConnector := dc_invalidate (dataConnector w)\<rparr>) st) = Inr st'
    \<and> plugged code st' \<and> helper (world st') = helper (world st) \<and> master dir st' = master dir st"
proof -
  let ?s = "on_world (\<lambda>w. w\<lparr>dataConnector := dc_invalidate (dataConnector w)\<rparr>) st"
  have c: "plugged code ?s" by (rule plugged_on_world [OF assms(1)])
  then obtain st' where n: "notifyPlugins code t ?s = Inr st'"
      "world st' = fold (\<lambda>p. code_notify code p t) (due t (notificationList ?s)) (world ?s)"
    using notifyLoop_due [of "notificationList ?s" code t ?s] plugged_periods [OF c]
    by (auto simp: notifyPlugins_def periods_positive_def)
  have "helper (world st') = helper (world st) \<and> master dir st' = master dir st"
    using keeps_master_fold [of "due t (notificationList ?s)" dir "\<lambda>p. code_notify code p t" "world ?s"] assms(2) n(2)
    by (simp add: master_def) (simp add: on_world_def)
  with n(1) plugged_notify [OF c n(1)] show ?thesis by blast
qed

lemma dumpOneStep_invariant:
  assumes "plugged code st" "\<And>path. canOpen path" "I (world st)"
    and "\<And>w. I w \<Longrightarrow> I (w\<lparr>dataConnector := dc_invalidate (dataConnector w)\<rparr>)"
    and "\<And>w fs. I w \<Longrightarrow> I (w\<lparr>fileSystem := fs\<rparr>)" "\<And>w h. I w \<Longrightarrow> I (w\<lparr>helper := h\<rparr>)"
    and "\<And>p t w. I w \<Longrightarrow> I (code_notify code p t w)" "\<And>p t d w. I w \<Longrightarrow> I (code_checkpoint code p t d w)"
  shows "\<exists>st'. dumpOneStep code canOpen rank t st = Inr st' \<and> plugged code st' \<and> I (world st')"
proof -
  have keep: "I (fold f ps w)" if "\<And>p w. I w \<Longrightarrow> I (f p w)" "I w" for f ps w
    using that by (induction ps arbitrary: w) auto
  let ?s = "on_world (\<lambda>w. w\<lparr>dataConnector := dc_invalidate (dataConnector w)\<rparr>) st"
  have c: "plugged code ?s" by (rule plugged_on_world [OF assms(1)])
  then obtain s1 where n: "notifyPlugins code t ?s = Inr s1"
      "world s1 = fold (\<lambda>p. code_notify code p t) (due t (notificationList ?s)) (world ?s)"
    using notifyLoop_due [of "notificationList ?s" code t ?s] plugged_periods [OF c]
    by (auto simp: notifyPlugins_def periods_positive_def)
  have s1: "plugged code s1" "I (world s1)"
    using plugged_notify [OF c n(1)] n(2) assms(3,4,7) by (auto intro!: keep) (simp add: on_world_def)
  define s2 where "s2 = (if numCheckpoints (helper (world s1)) = 0
      then on_world (\<lambda>w. w\<lparr>fileSystem := (fileSystem w)\<lparr>fs_directories := fs_directories (fileSystem w) @ [checkpointDirectory (helper (world s1))]\<rparr>\<rparr>) s1 else s1)"
  define s3 where "s3 = checkpointPlugins code t (checkpointDirectory (helper (world s1))) s2"
  have s2: "plugged code s2" "I (world s2)"
    using plugged_on_world [OF s1(1)] s1 assms(5) by (simp_all add: s2_def) (simp add: on_world_def)
  have s3: "plugged code s3" "I (world s3)"
    using plugged_checkpoint [OF s2(1)] s2(2) assms(8) by (auto simp: s3_def checkpointPlugins_world intro!: keep)
  have "\<exists>st'. writeCheckpoint code canOpen rank t s1 = Inr st' \<and> plugged code st' \<and> I (world st')"
    using s3 assms(2,5,6)
    by (auto simp: writeCheckpoint_def writeCheckpointStep_def Let_def simp flip: s2_def s3_def intro!: plugged_on_world)
      (simp_all add: on_world_def)
  then show ?thesis using n(1) s1 by (simp add: dumpOneStep_def)
qed

fun dumpSteps :: "('d, 'x) SimWorld PluginCode \<Rightarrow> (string \<Rightarrow> bool) \<Rightarrow> int \<Rightarrow> int list \<Rightarrow> ('d, 'x) SimProgram \<Rightarrow> SimError + ('d, 'x) SimProgram" where
  "dumpSteps code canOpen globalRank [] st = Inr st"
| "dumpSteps code canOpen globalRank (t # ts) st =
     andThen (dumpOneStep code canOpen globalRank t st) (dumpSteps code canOpen globalRank ts)"

definition checkpointDue :: "int \<Rightarrow> int \<Rightarrow> bool" where
  "checkpointDue period t \<longleftrightarrow> period \<noteq> 0 \<and> period dvd t"

definition masterText :: "string \<Rightarrow> string list \<Rightarrow> ('d, 'x) SimProgram \<Rightarrow> bool" where
  "masterText dir ls st \<longleftrightarrow> master dir st = (if ls = [] then None else Some (text_lines ls))"

lemma dumpSteps_master:
  assumes "plugged code st" "\<And>p t. keeps_master dir (code_notify code p t)" "\<And>p t. keeps_master dir (code_checkpoint code p t dir)"
    and "canOpen (masterFile dir)" "checkpointDirectory (helper (world st)) = dir" "masterText dir ls st"
  shows "\<exists>st'. dumpSteps code canOpen 0 ts st = Inr st' \<and> plugged code st'
    \<and> masterText dir (ls @ map (\<lambda>t. decimal (nat t)) (filter (checkpointDue (checkpointPeriod (helper (world st)))) ts)) st'"
  using assms(1,5,6)
proof (induction ts arbitrary: st ls)
  case (Cons t ts)
  obtain s1 where s1: "notifyPlugins code t (on_world (\<lambda>w. w\<lparr>dataConnector := dc_invalidate (dataConnector w)\<rparr>) st) = Inr s1"
      "plugged code s1" "helper (world s1) = helper (world st)" "master dir s1 = master dir st"
    using notify_keeps_master [OF Cons.prems(1) assms(2)] by blast
  let ?P = "checkpointPeriod (helper (world st))"
  let ?ls = "ls @ (if checkpointDue ?P t then [decimal (nat t)] else [])"
  obtain s2 where s2: "dumpOneStep code canOpen 0 t st = Inr s2" "plugged code s2"
      "checkpointDirectory (helper (world s2)) = dir" "checkpointPeriod (helper (world s2)) = ?P" "masterText dir ?ls s2"
  proof (cases "checkpointDue ?P t")
    case True
    have "checkpointDirectory (helper (world s1)) = dir" using s1(3) Cons.prems(2) by simp
    from writeCheckpoint_master [where canOpen = canOpen and t = t, OF s1(2) assms(3,4) this]
    obtain s2 where w: "writeCheckpoint code canOpen 0 t s1 = Inr s2" "plugged code s2"
        "helper (world s2) = (helper (world s1))\<lparr>numCheckpoints := u32 (numCheckpoints (helper (world s1)) + 1)\<rparr>"
        "master dir s2 = Some ((case master dir s1 of None \<Rightarrow> [] | Some c \<Rightarrow> c) @ decimal (nat t) @ [newline])" by blast
    show ?thesis
      by (rule that [of s2])
        (use True s1 w Cons.prems in \<open>auto simp: dumpOneStep_def checkpointDue_def mod_eq_0_iff_dvd masterText_def text_lines_def\<close>)
  next
    case False
    show ?thesis
      by (rule that [of s1])
        (use False s1 Cons.prems in \<open>auto simp: dumpOneStep_def checkpointDue_def mod_eq_0_iff_dvd masterText_def\<close>)
  qed
  show ?case using Cons.IH [OF s2(2,3,5)] s2(1,4) by (auto split: if_splits)
qed simp

text \<open>
  C24. Checkpoints and the restart step. Let the first process dump the steps ts one after the other,
  whatever other output the plugins make. Every dump succeeds, the master file gains one line for each step
  that the checkpoint period divides, in order, and a restart without \<open>--restart-step\<close> reads back exactly
  the last of these steps. A step of \<open>2 ^ 31\<close> or more is written but cannot be read back as an \<open>int32_t\<close>, and the
  restart is refused.
\<close>

theorem restart_finds_last_checkpoint:
  assumes "plugged code st" "\<And>p t. keeps_master dir (code_notify code p t)" "\<And>p t. keeps_master dir (code_checkpoint code p t dir)"
    and "canOpen (masterFile dir)" "checkpointDirectory (helper (world st)) = dir"
    and "masterText dir ls st" "\<forall>l \<in> set ls. newline \<notin> set l"
    and "\<forall>n. lexical_cast (decimal n) = (if n < 2 ^ 31 then Some (int n) else None)" "\<forall>t \<in> set ts. 0 \<le> t"
  defines "written \<equiv> filter (checkpointDue (checkpointPeriod (helper (world st)))) ts"
  shows "\<exists>st'. dumpSteps code canOpen 0 ts st = Inr st'
    \<and> masterText dir (ls @ map (\<lambda>t. decimal (nat t)) written) st'
    \<and> (written \<noteq> [] \<longrightarrow> readCheckpointMasterFile canOpen lexical_cast dir (fileSystem (world st'))
          = (if last written < 2 ^ 31 then last written else - 1))"
proof -
  obtain st' where st': "dumpSteps code canOpen 0 ts st = Inr st'"
      "masterText dir (ls @ map (\<lambda>t. decimal (nat t)) written) st'"
    using dumpSteps_master [where canOpen = canOpen and ts = ts, OF assms(1-6)] unfolding written_def by blast
  moreover have "readCheckpointMasterFile canOpen lexical_cast dir (fileSystem (world st'))
      = (if last written < 2 ^ 31 then last written else - 1)" if "written \<noteq> []"
  proof -
    let ?all = "ls @ map (\<lambda>t. decimal (nat t)) written"
    have "\<forall>l \<in> set ?all. newline \<notin> set l" using assms(7) decimal_no_newline by auto
    note r = readLines_text [OF this, of lexical_cast "[]" "- 1"]
    have nn: "0 \<le> last written" using that assms(9) last_in_set [OF that] unfolding written_def by auto
    have "last ?all = decimal (nat (last written))" "?all \<noteq> []" using that by (simp_all add: last_map)
    then have "?all = butlast ?all @ [decimal (nat (last written))]" by (metis append_butlast_last_id)
    then have "foldl (readLine lexical_cast) (- 1) ?all
        = readLine lexical_cast (foldl (readLine lexical_cast) (- 1) (butlast ?all)) (decimal (nat (last written)))"
      by (metis foldl_append foldl_Cons foldl_Nil)
    also have "\<dots> = (if last written < 2 ^ 31 then last written else - 1)"
      using assms(8) nn by (simp add: readLine_def nat_less_iff)
    finally show ?thesis
      using r st'(2) that assms(4) by (simp add: readCheckpointMasterFile_def masterText_def master_def text_lines_def)
  qed
  ultimately show ?thesis by blast
qed

section \<open>Witness\<close>

definition castDecimal :: "string \<Rightarrow> int option" where
  "castDecimal l =
     (let v = foldl (\<lambda>a c. 10 * a + (of_char c - 48)) (0 :: nat) l
      in if l \<noteq> [] \<and> list_all (\<lambda>c. 48 \<le> (of_char c :: nat) \<and> (of_char c :: nat) < 58) l \<and> v < 2 ^ 31 then Some (int v) else None)"

lemma decimal_value:
  "foldl (\<lambda>a c. 10 * a + (of_char c - 48)) (0 :: nat) (decimal n) = n
    \<and> list_all (\<lambda>c. 48 \<le> (of_char c :: nat) \<and> (of_char c :: nat) < 58) (decimal n)"
proof (induction n rule: decimal.induct)
  case (1 n)
  have d: "of_char (char_of (48 + k) :: char) = 48 + k" if "k < 10" for k :: nat using that by simp
  show ?case
  proof (cases "n < 10")
    case True
    then show ?thesis by (subst (1 2) decimal.simps) (simp add: d)
  next
    case False
    then show ?thesis using 1 by (subst (1 2) decimal.simps) (simp add: d)
  qed
qed

lemma castDecimal_decimal: "castDecimal (decimal n) = (if n < 2 ^ 31 then Some (int n) else None)"
  using decimal_value [of n] by (simp add: castDecimal_def Let_def)

definition sampleOutput :: "(string, unit) SimWorld PluginCode" where
  "sampleOutput = \<lparr>code_load = (\<lambda>p w. (w, [])), code_unload = (\<lambda>p w. w), code_notify = (\<lambda>p t w. w),
     code_checkpoint = (\<lambda>p t d w. w), code_restart = (\<lambda>p t d w. w)\<rparr>"

definition sampleProgram :: "(string, unit) SimProgram" where
  "sampleProgram = PluginConnector_new \<lparr>helper = SimulationHelper_new\<lparr>checkpointPeriod := 5\<rparr>, dataConnector = DataConnector_new,
     fileSystem = \<lparr>fs_files = Map.empty, fs_directories = []\<rparr>, sim = ()\<rparr>"

lemma sampleProgram_plugged: "plugged sampleOutput sampleProgram"
  unfolding sampleProgram_def by (rule plugged_new)

lemma sampleProgram_facts:
  "keeps_master ''checkpoints'' (code_notify sampleOutput p t)"
  "keeps_master ''checkpoints'' (code_checkpoint sampleOutput p t ''checkpoints'')"
  "checkpointDirectory (helper (world sampleProgram)) = ''checkpoints''" "masterText ''checkpoints'' [] sampleProgram"
  "checkpointPeriod (helper (world sampleProgram)) = 5"
  by (simp_all add: sampleProgram_def sampleOutput_def keeps_master_def SimulationHelper_new_def masterText_def
      master_def PluginConnector_new_def)

text \<open>C2, witness: with period 5, dumping the steps 0 to 12 leaves the restart step 10.\<close>

theorem restart_finds_last_checkpoint_witness:
  "\<exists>st. dumpSteps sampleOutput (\<lambda>path. True) 0 [0, 1, 2, 3, 4, 5, 6, 7, 8, 9, 10, 11, 12] sampleProgram = Inr st
     \<and> readCheckpointMasterFile (\<lambda>path. True) castDecimal ''checkpoints'' (fileSystem (world st)) = 10"
proof -
  have w: "filter (checkpointDue 5) [0, 1, 2, 3, 4, 5, 6, 7, 8, 9, 10, 11, 12] = [0, 5, 10 :: int]"
    by (simp add: checkpointDue_def)
  have "\<forall>n. castDecimal (decimal n) = (if n < 2 ^ 31 then Some (int n) else None)" using castDecimal_decimal by blast
  note t = restart_finds_last_checkpoint [where canOpen = "\<lambda>path. True" and ls = "[]" and lexical_cast = castDecimal
      and ts = "[0, 1, 2, 3, 4, 5, 6, 7, 8, 9, 10, 11, 12]",
      OF sampleProgram_plugged sampleProgram_facts(1,2) TrueI sampleProgram_facts(3,4) _ this, unfolded sampleProgram_facts(5) w]
  show ?thesis using t by fastforce
qed

end
