(* ===== verification/PicSimulation.thy ===== *)
theory PicSimulation
  imports BackgroundFields SimulationControl
begin

text \<open>
  Models \<open>MySimulation\<close> (src/picongpu/include/simulationControl/MySimulation.hpp) on top of the main loop: \<open>init\<close> with
  its two ways to start, \<open>runOneStep\<close>, \<open>movingWindowCheck\<close>, \<open>slide\<close> and \<open>resetAll\<close>, the
  \<open>InitialiserController\<close> (initialization/InitialiserController.hpp) and what a restart from an HDF5
  checkpoint does to the simulation (plugins/hdf5/HDF5Writer.hpp, restart/RestartFieldLoader.hpp). The species, the field
  solver and the exchange of guard cells, which other theories model, are functions in the record \<open>PicCode\<close>. Shown: the
  background fields that are added for the particles and the output never reach the field solver; a restart subtracts
  the background of the wrong step; a restart in a slide step slides a second time.
\<close>

section \<open>State\<close>

record 'p Pic =
  simFieldE :: vectorField
  simFieldB :: vectorField
  simFieldJ :: vectorField
  simSpecies :: 'p
  pic_window :: MovingWindow
  pic_env :: Env

record PicConfig =
  cfg_par :: SimParams
  cellDescription :: MappingDescription
  superCellSize :: DataSpace
  FieldBackgroundE :: "DataSpace \<Rightarrow> int \<Rightarrow> real vec"
  FieldBackgroundB :: "DataSpace \<Rightarrow> int \<Rightarrow> real vec"
  FieldBackgroundJ :: "DataSpace \<Rightarrow> int \<Rightarrow> real vec"
  InfluenceE :: bool
  InfluenceB :: bool
  activatedJ :: bool
  ENABLE_CURRENT :: bool
  hasSpecies :: bool
  currentMargins :: bool
  simDim :: nat
  globalRank :: int
  mpi_coords :: "int \<Rightarrow> DataSpace"
  mpi_rank :: "DataSpace \<Rightarrow> int"

record 'p PicCode =
  particleIonization :: "int \<Rightarrow> vectorField \<Rightarrow> vectorField \<Rightarrow> 'p \<Rightarrow> 'p"
  particleUpdate :: "int \<Rightarrow> vectorField \<Rightarrow> vectorField \<Rightarrow> 'p \<Rightarrow> 'p"
  update_beforeCurrent :: "int \<Rightarrow> vectorField \<times> vectorField \<Rightarrow> vectorField \<times> vectorField"
  update_afterCurrent :: "int \<Rightarrow> vectorField \<times> vectorField \<Rightarrow> vectorField \<times> vectorField"
  computeSpeciesCurrent :: "int \<Rightarrow> 'p \<Rightarrow> vectorField \<Rightarrow> vectorField"
  addCurrentArea :: "AreaType \<Rightarrow> vectorField \<Rightarrow> vectorField \<Rightarrow> vectorField"
  communicateJ :: "vectorField \<Rightarrow> vectorField"
  communicateE :: "vectorField \<Rightarrow> vectorField"
  communicateB :: "vectorField \<Rightarrow> vectorField"
  callReset :: "int \<Rightarrow> 'p \<Rightarrow> 'p"
  initPipeline :: "int \<Rightarrow> 'p \<Rightarrow> 'p"

section \<open>One simulation step\<close>

definition cellwise ::
    "PicConfig \<Rightarrow> Env \<Rightarrow> (real vec \<Rightarrow> real vec \<Rightarrow> real vec) \<Rightarrow> (DataSpace \<Rightarrow> int \<Rightarrow> real vec) \<Rightarrow> int \<Rightarrow> bool
     \<Rightarrow> MovingWindow \<times> vectorField \<Rightarrow> MovingWindow \<times> vectorField" where
  "cellwise cfg e = CellwiseOperation (cfg_par cfg) e CORE_BORDER_GUARD (cellDescription cfg) (superCellSize cfg)"

definition pushBGField :: "PicConfig \<Rightarrow> (real vec \<Rightarrow> real vec \<Rightarrow> real vec) \<Rightarrow> int \<Rightarrow> 'p Pic \<Rightarrow> 'p Pic" where
  "pushBGField cfg opFunctor currentStep this =
     (let (w, E) = cellwise cfg (pic_env this) opFunctor (FieldBackgroundE cfg) currentStep (InfluenceE cfg) (pic_window this, simFieldE this);
          (w, B) = cellwise cfg (pic_env this) opFunctor (FieldBackgroundB cfg) currentStep (InfluenceB cfg) (w, simFieldB this)
      in this\<lparr>simFieldE := E, simFieldB := B, pic_window := w\<rparr>)"

definition addCurrent :: "PicConfig \<Rightarrow> 'p PicCode \<Rightarrow> 'p Pic \<Rightarrow> 'p Pic" where
  "addCurrent cfg code this =
     (if ENABLE_CURRENT cfg \<and> hasSpecies cfg then
        let received = communicateJ code (simFieldJ this)
        in if \<not> currentMargins cfg
           then this\<lparr>simFieldE := addCurrentArea code BORDER received (addCurrentArea code CORE (simFieldJ this) (simFieldE this)), simFieldJ := received\<rparr>
           else this\<lparr>simFieldE := addCurrentArea code CORE_BORDER received (simFieldE this), simFieldJ := received\<rparr>
      else this)"

definition fieldStep :: "PicConfig \<Rightarrow> 'p PicCode \<Rightarrow> int \<Rightarrow> 'p Pic \<Rightarrow> 'p Pic" where
  "fieldStep cfg code currentStep this =
     (let (E, B) = update_beforeCurrent code currentStep (simFieldE this, simFieldB this);
          (w, J) = cellwise cfg (pic_env this) functor_Add (FieldBackgroundJ cfg) currentStep (activatedJ cfg) (pic_window this, \<lambda>r. 0);
          J = (if ENABLE_CURRENT cfg then computeSpeciesCurrent code currentStep (simSpecies this) J else J);
          this = addCurrent cfg code (this\<lparr>simFieldE := E, simFieldB := B, simFieldJ := J, pic_window := w\<rparr>);
          (E, B) = update_afterCurrent code currentStep (simFieldE this, simFieldB this)
      in this\<lparr>simFieldE := E, simFieldB := B\<rparr>)"

definition runOneStep :: "PicConfig \<Rightarrow> 'p PicCode \<Rightarrow> int \<Rightarrow> 'p Pic \<Rightarrow> 'p Pic" where
  "runOneStep cfg code currentStep this =
     (let this = this\<lparr>simSpecies := particleIonization code currentStep (simFieldE this) (simFieldB this) (simSpecies this)\<rparr>;
          this = this\<lparr>simSpecies := particleUpdate code currentStep (simFieldE this) (simFieldB this) (simSpecies this)\<rparr>;
          this = pushBGField cfg functor_Sub currentStep this
      in fieldStep cfg code currentStep this)"

section \<open>The moving window\<close>

definition resetAll :: "'p PicCode \<Rightarrow> int \<Rightarrow> 'p Pic \<Rightarrow> 'p Pic" where
  "resetAll code currentStep this =
     this\<lparr>simFieldB := (\<lambda>r. 0), simFieldE := (\<lambda>r. 0), simSpecies := callReset code currentStep (simSpecies this)\<rparr>"

definition ic_slide :: "int \<Rightarrow> ('d, 'x) SimWorld \<Rightarrow> SimError + ('d, 'x) SimWorld" where
  "ic_slide currentStep w =
     (case dc_initialise SimStartInitialiser currentStep (dataConnector w) () of
        Inl e \<Rightarrow> Inl (DataFault e)
      | Inr (dc, _) \<Rightarrow> Inr (w\<lparr>dataConnector := dc\<rparr>))"

definition slide :: "PicConfig \<Rightarrow> 'p PicCode \<Rightarrow> int \<Rightarrow> ('d, 'p Pic) SimWorld \<Rightarrow> SimError + ('d, 'p Pic) SimWorld" where
  "slide cfg code currentStep w =
     (case gc_slide (mpi_coords cfg) (mpi_rank cfg) (simDim cfg) (globalRank cfg) (pic_env (sim w)) of
        (e, switched) \<Rightarrow>
          (let w = w\<lparr>sim := (sim w)\<lparr>pic_env := e\<rparr>\<rparr>
           in if switched
              then andThen (ic_slide currentStep (w\<lparr>sim := resetAll code currentStep (sim w)\<rparr>)) (\<lambda>w.
                   Inr (w\<lparr>sim := (sim w)\<lparr>simSpecies := initPipeline code currentStep (simSpecies (sim w))\<rparr>\<rparr>))
              else Inr w))"

definition movingWindowCheck :: "PicConfig \<Rightarrow> 'p PicCode \<Rightarrow> int \<Rightarrow> ('d, 'p Pic) SimWorld \<Rightarrow> SimError + ('d, 'p Pic) SimWorld" where
  "movingWindowCheck cfg code currentStep w =
     (case slideInCurrentStep (cfg_par cfg) (pic_env (sim w)) currentStep (pic_window (sim w)) of
        (mw, doSlide) \<Rightarrow>
          (let w = w\<lparr>sim := (sim w)\<lparr>pic_window := mw\<rparr>\<rparr>
           in andThen (if doSlide then slide cfg code currentStep w else Inr w) (\<lambda>w.
              Inr (w\<lparr>sim := pushBGField cfg functor_Add currentStep (sim w)\<rparr>))))"

section \<open>Starting\<close>

definition ic_init :: "('d, 'x) SimWorld \<Rightarrow> SimError + ('d, 'x) SimWorld" where
  "ic_init w =
     (case dc_initialise SimStartInitialiser 0 (dataConnector w) () of
        Inl e \<Rightarrow> Inl (DataFault e)
      | Inr (dc, _) \<Rightarrow> Inr (w\<lparr>dataConnector := dc\<rparr>))"

definition ic_restart :: "('d, 'x) SimWorld PluginCode \<Rightarrow> int \<Rightarrow> string \<Rightarrow> ('d, 'x) SimProgram \<Rightarrow> ('d, 'x) SimProgram" where
  "ic_restart plugs atStep directory st = restartPlugins plugs (u32 atStep) directory st"

definition mySim_init ::
    "PicConfig \<Rightarrow> 'p PicCode \<Rightarrow> ('d, 'p Pic) SimWorld PluginCode \<Rightarrow> (string \<Rightarrow> bool) \<Rightarrow> (string \<Rightarrow> int option)
     \<Rightarrow> ('d, 'p Pic) SimProgram \<Rightarrow> SimError + (32 word \<times> ('d, 'p Pic) SimProgram)" where
  "mySim_init cfg code plugs canOpen lexical_cast st =
     andThen
       (if restartRequested (helper (world st)) then
          let h = helper (world st);
              r = (if restartStep h < 0
                   then readCheckpointMasterFile canOpen lexical_cast (restartDirectory h) (fileSystem (world st)) else restartStep h);
              st = on_world (\<lambda>w. w\<lparr>helper := h\<lparr>restartStep := r\<rparr>\<rparr>) st
          in if r < 0
             then Inl (Std_runtime_error ''Restart failed. You must provide the '--restart-step' argument. See picongpu --help.'')
             else Inr (word_of_int (r + 1), ic_restart plugs r (restartDirectory h) st)
        else andThen (ic_init (world st)) (\<lambda>w.
             Inr (0, st\<lparr>world := w\<lparr>sim := (sim w)\<lparr>simSpecies := initPipeline code 0 (simSpecies (sim w))\<rparr>\<rparr>\<rparr>)))
       (\<lambda>(step, st).
          let st = (if step \<noteq> 0 then on_world (\<lambda>w. w\<lparr>sim := pushBGField cfg functor_Sub (uint step) (sim w)\<rparr>) st else st)
          in Inr (step, on_world (\<lambda>w. w\<lparr>sim := (sim w)\<lparr>simFieldE := communicateE code (simFieldE (sim w)),
                                                       simFieldB := communicateB code (simFieldB (sim w))\<rparr>\<rparr>) st))"

definition lift_world :: "('w \<Rightarrow> 'e + 'w) \<Rightarrow> 'w PluginConnector \<Rightarrow> 'e + 'w PluginConnector" where
  "lift_world f st = andThen (f (world st)) (\<lambda>w. Inr (st\<lparr>world := w\<rparr>))"

definition MySimulation ::
    "PicConfig \<Rightarrow> 'p PicCode \<Rightarrow> ('d, 'p Pic) SimWorld PluginCode \<Rightarrow> (string \<Rightarrow> bool) \<Rightarrow> (string \<Rightarrow> int option)
     \<Rightarrow> ('d, 'p Pic) SimProgram Simulation" where
  "MySimulation cfg code plugs canOpen lexical_cast =
     \<lparr>sim_init = mySim_init cfg code plugs canOpen lexical_cast,
      sim_runOneStep = (\<lambda>t. lift_world (\<lambda>w. Inr (w\<lparr>sim := runOneStep cfg code t (sim w)\<rparr>))),
      sim_movingWindowCheck = (\<lambda>t. lift_world (movingWindowCheck cfg code t)),
      sim_dumpOneStep = dumpOneStep plugs canOpen (globalRank cfg)\<rparr>"

section \<open>Checkpoints\<close>

record 'p Checkpoint =
  cp_fieldE :: vectorField
  cp_fieldB :: vectorField
  cp_species :: 'p
  cp_slides :: int

definition guardCells_of :: "PicConfig \<Rightarrow> DataSpace" where
  "guardCells_of cfg = vec_mul_s (superCellSize cfg) (guardingSuperCells (cellDescription cfg))"

definition interior :: "PicConfig \<Rightarrow> Env \<Rightarrow> DataSpace \<Rightarrow> bool" where
  "interior cfg e g \<longleftrightarrow> in_box (sel_size (localDomain (subGrid e))) (vec_sub g (guardCells_of cfg))"

definition loadField :: "PicConfig \<Rightarrow> Env \<Rightarrow> vectorField \<Rightarrow> vectorField" where
  "loadField cfg e stored = (\<lambda>(g, c). if interior cfg e g \<and> c < 3 then stored (g, c) else 0)"

definition hdf5_checkpoint :: "PicConfig \<Rightarrow> int \<Rightarrow> 'p Pic \<Rightarrow> 'p Pic \<times> 'p Checkpoint" where
  "hdf5_checkpoint cfg currentStep this =
     (case getSlideCounter (cfg_par cfg) (pic_env this) currentStep (pic_window this) of
        (w, slides) \<Rightarrow>
          (this\<lparr>pic_window := w\<rparr>,
           \<lparr>cp_fieldE = simFieldE this, cp_fieldB = simFieldB this, cp_species = simSpecies this, cp_slides = slides\<rparr>))"

definition hdf5_restart :: "PicConfig \<Rightarrow> int \<Rightarrow> 'p Checkpoint \<Rightarrow> 'p Pic \<Rightarrow> 'p Pic" where
  "hdf5_restart cfg atStep cp this =
     (let w = setSlideCounter (cp_slides cp) atStep (pic_window this);
          e = (if slidingWindowActive w
               then fst (gc_setStateAfterSlides (mpi_coords cfg) (mpi_rank cfg) (simDim cfg) (globalRank cfg) (nat (cp_slides cp)) (pic_env this))
               else pic_env this);
          w = fst (getSlideCounter (cfg_par cfg) e atStep w)
      in this\<lparr>pic_window := w, pic_env := e, simFieldE := loadField cfg e (cp_fieldE cp), simFieldB := loadField cfg e (cp_fieldB cp),
              simSpecies := cp_species cp\<rparr>)"

section \<open>Adding and removing the background\<close>

definition cfg_wf :: "PicConfig \<Rightarrow> bool" where
  "cfg_wf cfg \<longleftrightarrow> length (gridSuperCells (cellDescription cfg)) = length (superCellSize cfg) \<and> (\<forall>s \<in> set (superCellSize cfg). 0 < s)
     \<and> (\<forall>p t. length (FieldBackgroundE cfg p t) = 3 \<and> length (FieldBackgroundB cfg p t) = 3)"

definition bgE :: "PicConfig \<Rightarrow> int \<Rightarrow> 'p Pic \<Rightarrow> vectorField" where
  "bgE cfg t p = background (cfg_par cfg) (pic_env p) (cellDescription cfg) (superCellSize cfg) (FieldBackgroundE cfg) t (InfluenceE cfg) (pic_window p)"

definition bgB :: "PicConfig \<Rightarrow> int \<Rightarrow> 'p Pic \<Rightarrow> vectorField" where
  "bgB cfg t p = background (cfg_par cfg) (pic_env p) (cellDescription cfg) (superCellSize cfg) (FieldBackgroundB cfg) t (InfluenceB cfg) (pic_window p)"

definition pushWindow :: "PicConfig \<Rightarrow> int \<Rightarrow> 'p Pic \<Rightarrow> MovingWindow" where
  "pushWindow cfg t p = observed (cfg_par cfg) (pic_env p) t (InfluenceE cfg \<or> InfluenceB cfg) (pic_window p)"

lemma observed_both [simp]:
  "observed par e t b (observed par e t a w) = observed par e t (a \<or> b) w"
  using observed_stable [of par e t] by (cases a; cases b) (auto simp: observed_def)

lemma pushBGField_eq:
  assumes "cfg_wf cfg"
  shows "pushBGField cfg functor_Add t p
      = p\<lparr>simFieldE := \<lambda>r. simFieldE p r + bgE cfg t p r, simFieldB := \<lambda>r. simFieldB p r + bgB cfg t p r, pic_window := pushWindow cfg t p\<rparr>"
    and "pushBGField cfg functor_Sub t p
      = p\<lparr>simFieldE := \<lambda>r. simFieldE p r - bgE cfg t p r, simFieldB := \<lambda>r. simFieldB p r - bgB cfg t p r, pic_window := pushWindow cfg t p\<rparr>"
  using assms
  by (simp_all add: pushBGField_def cellwise_def CellwiseOperation_background cfg_wf_def bgE_def bgB_def pushWindow_def)

lemma pushBGField_off: "\<not> InfluenceE cfg \<Longrightarrow> \<not> InfluenceB cfg \<Longrightarrow> pushBGField cfg f t p = p"
  by (simp add: pushBGField_def cellwise_def CellwiseOperation_def)

section \<open>A reference without background\<close>

text \<open>
  In the reference the fields never contain a background: the particle functions are given the sum of
  field and background as an argument, and the field solver works on the fields alone.
\<close>

definition bareStep :: "PicConfig \<Rightarrow> 'p PicCode \<Rightarrow> int \<Rightarrow> 'p Pic \<Rightarrow> 'p Pic" where
  "bareStep cfg code t p =
     (let E = (\<lambda>r. simFieldE p r + bgE cfg t p r); B = (\<lambda>r. simFieldB p r + bgB cfg t p r)
      in fieldStep cfg code t
           (p\<lparr>simSpecies := particleUpdate code t E B (particleIonization code t E B (simSpecies p)), pic_window := pushWindow cfg t p\<rparr>))"

definition picSlide :: "PicConfig \<Rightarrow> 'p PicCode \<Rightarrow> int \<Rightarrow> 'p Pic \<Rightarrow> 'p Pic" where
  "picSlide cfg code t p =
     (case gc_slide (mpi_coords cfg) (mpi_rank cfg) (simDim cfg) (globalRank cfg) (pic_env p) of
        (e, switched) \<Rightarrow>
          (if switched
           then (resetAll code t (p\<lparr>pic_env := e\<rparr>))\<lparr>simSpecies := initPipeline code t (callReset code t (simSpecies p))\<rparr>
           else p\<lparr>pic_env := e\<rparr>))"

definition picWindow :: "PicConfig \<Rightarrow> 'p PicCode \<Rightarrow> int \<Rightarrow> 'p Pic \<Rightarrow> 'p Pic" where
  "picWindow cfg code t p =
     (case slideInCurrentStep (cfg_par cfg) (pic_env p) t (pic_window p) of
        (mw, doSlide) \<Rightarrow> (if doSlide then picSlide cfg code t (p\<lparr>pic_window := mw\<rparr>) else p\<lparr>pic_window := mw\<rparr>))"

primrec bareRun :: "PicConfig \<Rightarrow> 'p PicCode \<Rightarrow> 'p Pic \<Rightarrow> nat \<Rightarrow> 'p Pic" where
  "bareRun cfg code p 0 = picWindow cfg code 0 p"
| "bareRun cfg code p (Suc n) = picWindow cfg code (int n + 1) (bareStep cfg code (int n) (bareRun cfg code p n))"

lemma runOneStep_bare:
  assumes "cfg_wf cfg"
  shows "runOneStep cfg code t (pushBGField cfg functor_Add t p) = bareStep cfg code t p"
  by (cases p) (simp add: runOneStep_def pushBGField_eq [OF assms] bareStep_def Let_def bgE_def bgB_def pushWindow_def)

lemma ic_slide_ok:
  assumes "dc_inv uid ds (dataConnector w)"
  shows "\<exists>dc. ic_slide t w = Inr (w\<lparr>dataConnector := dc\<rparr>) \<and> dc_inv uid ds dc"
    and "\<exists>dc. ic_init w = Inr (w\<lparr>dataConnector := dc\<rparr>) \<and> dc_inv uid ds dc"
  using dc_initialise_ok [OF assms, of SimStartInitialiser t "()"] dc_initialise_ok [OF assms, of SimStartInitialiser 0 "()"]
  by (auto simp: ic_slide_def ic_init_def)

lemma movingWindowCheck_pure:
  assumes "dc_inv uid ds (dataConnector w)"
  shows "\<exists>dc. movingWindowCheck cfg code t w
      = Inr (w\<lparr>dataConnector := dc, sim := pushBGField cfg functor_Add t (picWindow cfg code t (sim w))\<rparr>) \<and> dc_inv uid ds dc"
proof -
  obtain mw doSlide where s: "slideInCurrentStep (cfg_par cfg) (pic_env (sim w)) t (pic_window (sim w)) = (mw, doSlide)" by fastforce
  let ?w = "w\<lparr>sim := (sim w)\<lparr>pic_window := mw\<rparr>\<rparr>"
  obtain e switched where g: "gc_slide (mpi_coords cfg) (mpi_rank cfg) (simDim cfg) (globalRank cfg) (pic_env (sim w)) = (e, switched)" by fastforce
  have "\<exists>dc. slide cfg code t ?w = Inr (?w\<lparr>dataConnector := dc, sim := picSlide cfg code t (sim ?w)\<rparr>) \<and> dc_inv uid ds dc"
  proof (cases switched)
    case True
    let ?v = "?w\<lparr>sim := resetAll code t ((sim ?w)\<lparr>pic_env := e\<rparr>)\<rparr>"
    have "dc_inv uid ds (dataConnector ?v)" using assms by simp
    then obtain dc where "ic_slide t ?v = Inr (?v\<lparr>dataConnector := dc\<rparr>)" "dc_inv uid ds dc" using ic_slide_ok(1) by blast
    then show ?thesis using True g
      by (intro exI [of _ dc], cases w) (simp add: slide_def picSlide_def Let_def resetAll_def)
  next
    case False
    then show ?thesis using g assms by (intro exI [of _ "dataConnector w"]) (simp add: slide_def picSlide_def Let_def)
  qed
  then obtain dc where dc: "slide cfg code t ?w = Inr (?w\<lparr>dataConnector := dc, sim := picSlide cfg code t (sim ?w)\<rparr>)" "dc_inv uid ds dc"
    by blast
  show ?thesis
  proof (cases doSlide)
    case True
    then show ?thesis using s dc by (intro exI [of _ dc]) (simp add: movingWindowCheck_def picWindow_def Let_def)
  next
    case False
    then show ?thesis using s assms
      by (intro exI [of _ "dataConnector w"]) (simp add: movingWindowCheck_def picWindow_def Let_def)
  qed
qed

section \<open>The whole simulation\<close>

text \<open>Output plugins read the simulation; they may ask the data connector for host copies.\<close>

definition outputOnly :: "('d \<Rightarrow> string) \<Rightarrow> 'd list \<Rightarrow> ('d, 'x) SimWorld PluginCode \<Rightarrow> bool" where
  "outputOnly uid ds plugs \<longleftrightarrow>
     (\<forall>p t d w. sim (code_notify plugs p t w) = sim w \<and> sim (code_checkpoint plugs p t d w) = sim w
        \<and> (dc_inv uid ds (dataConnector w) \<longrightarrow> dc_inv uid ds (dataConnector (code_notify plugs p t w))
              \<and> dc_inv uid ds (dataConnector (code_checkpoint plugs p t d w))))"

definition runs_with :: "('d, 'p Pic) SimWorld PluginCode \<Rightarrow> ('d \<Rightarrow> string) \<Rightarrow> 'd list \<Rightarrow> 'p Pic \<Rightarrow> ('d, 'p Pic) SimProgram \<Rightarrow> bool" where
  "runs_with plugs uid ds p st \<longleftrightarrow> plugged plugs st \<and> dc_inv uid ds (dataConnector (world st)) \<and> sim (world st) = p"

lemma window_phase:
  assumes "runs_with plugs uid ds p st"
  shows "\<exists>st'. perform (MySimulation cfg code plugs canOpen cast) (MovingWindowCheck t) st = Inr st'
    \<and> runs_with plugs uid ds (pushBGField cfg functor_Add t (picWindow cfg code t p)) st'"
proof -
  obtain dc where "movingWindowCheck cfg code t (world st)
      = Inr ((world st)\<lparr>dataConnector := dc, sim := pushBGField cfg functor_Add t (picWindow cfg code t (sim (world st)))\<rparr>)" "dc_inv uid ds dc"
    using assms movingWindowCheck_pure by (metis runs_with_def)
  then show ?thesis using assms
    by (auto simp: MySimulation_def lift_world_def runs_with_def intro!: plugged_world)
qed

lemma step_phase:
  assumes "runs_with plugs uid ds p st"
  shows "\<exists>st'. perform (MySimulation cfg code plugs canOpen cast) (RunOneStep t) st = Inr st'
    \<and> runs_with plugs uid ds (runOneStep cfg code t p) st'"
  using assms by (auto simp: MySimulation_def lift_world_def runs_with_def intro!: plugged_world)

lemma dump_phase:
  assumes "runs_with plugs uid ds p st" "outputOnly uid ds plugs" "\<forall>path. canOpen path"
  shows "\<exists>st'. perform (MySimulation cfg code plugs canOpen cast) (DumpOneStep t) st = Inr st' \<and> runs_with plugs uid ds p st'"
  using dumpOneStep_invariant [of plugs st canOpen "\<lambda>w. dc_inv uid ds (dataConnector w) \<and> sim w = p" "globalRank cfg" t] assms
  by (auto simp: runs_with_def MySimulation_def outputOnly_def dc_inv_invalidate)

lemma rounds_bare:
  assumes "cfg_wf cfg" "outputOnly uid ds plugs" "\<forall>path. canOpen path"
    and "runs_with plugs uid ds (pushBGField cfg functor_Add (int k) (bareRun cfg code p k)) st"
  shows "\<exists>st'. performAll (MySimulation cfg code plugs canOpen cast) (rounds (int k) (int k + int n)) st = Inr st'
    \<and> runs_with plugs uid ds (pushBGField cfg functor_Add (int (k + n)) (bareRun cfg code p (k + n))) st'"
  using assms(4)
proof (induction n arbitrary: k st)
  case (Suc n)
  let ?S = "MySimulation cfg code plugs canOpen cast"
  obtain s1 where s1: "perform ?S (RunOneStep (int k)) st = Inr s1"
      "runs_with plugs uid ds (bareStep cfg code (int k) (bareRun cfg code p k)) s1"
    using step_phase [OF Suc.prems, of cfg code canOpen cast "int k"] by (auto simp: runOneStep_bare [OF assms(1)])
  obtain s2 where s2: "perform ?S (MovingWindowCheck (int k + 1)) s1 = Inr s2"
      "runs_with plugs uid ds (pushBGField cfg functor_Add (int k + 1) (bareRun cfg code p (Suc k))) s2"
    using window_phase [OF s1(2), of cfg code canOpen cast "int k + 1"] by auto
  obtain s3 where s3: "perform ?S (DumpOneStep (int k + 1)) s2 = Inr s3"
      "runs_with plugs uid ds (pushBGField cfg functor_Add (int (Suc k)) (bareRun cfg code p (Suc k))) s3"
    using dump_phase [OF s2(2) assms(2,3), of cfg code cast "int k + 1"] by (auto simp: add.commute)
  have "rounds (int k) (int k + int (Suc n))
      = [RunOneStep (int k), MovingWindowCheck (int k + 1), DumpOneStep (int k + 1)] @ rounds (int (Suc k)) (int (Suc k) + int n)"
    by (simp add: rounds_def upto_rec1 [of "int k"] add.commute)
  then show ?case using Suc.IH [OF s3(2)] s1(1) s2(1) s3(1) by (auto simp: add.commute)
qed (simp add: rounds_def)

definition freshStart :: "'p PicCode \<Rightarrow> 'p Pic \<Rightarrow> 'p Pic" where
  "freshStart code p = p\<lparr>simSpecies := initPipeline code 0 (simSpecies p), simFieldE := communicateE code (simFieldE p), simFieldB := communicateB code (simFieldB p)\<rparr>"

lemma init_fresh:
  assumes "runs_with plugs uid ds p st" "\<not> restartRequested (helper (world st))"
  shows "\<exists>st'. mySim_init cfg code plugs canOpen cast st = Inr (0, st') \<and> runs_with plugs uid ds (freshStart code p) st'"
proof -
  obtain dc where "ic_init (world st) = Inr ((world st)\<lparr>dataConnector := dc\<rparr>)" "dc_inv uid ds dc"
    using ic_slide_ok(2) assms(1) by (metis runs_with_def)
  then show ?thesis using assms
    by (auto simp: mySim_init_def runs_with_def freshStart_def on_world_def Let_def intro!: plugged_world)
qed

definition outputSetup :: "('d \<Rightarrow> string) \<Rightarrow> 'd list \<Rightarrow> ('d, 'x) SimWorld PluginCode \<Rightarrow> (string \<Rightarrow> bool) \<Rightarrow> bool" where
  "outputSetup uid ds plugs canOpen \<longleftrightarrow> outputOnly uid ds plugs \<and> (\<forall>path. canOpen path)"

interpretation mySim: total_simulation "MySimulation cfg code plugs canOpen cast"
  "\<lambda>st. outputSetup uid ds plugs canOpen \<and> runs_with plugs uid ds (sim (world st)) st \<and> \<not> restartRequested (helper (world st))"
  "\<lambda>st. outputSetup uid ds plugs canOpen \<and> runs_with plugs uid ds (sim (world st)) st"
  for cfg and code :: "'p PicCode" and plugs :: "('d, 'p Pic) SimWorld PluginCode" and canOpen cast uid ds
proof
  fix st :: "('d, 'p Pic) SimProgram"
  assume "outputSetup uid ds plugs canOpen \<and> runs_with plugs uid ds (sim (world st)) st \<and> \<not> restartRequested (helper (world st))"
  then show "\<exists>s st'. sim_init (MySimulation cfg code plugs canOpen cast) st = Inr (s, st')
      \<and> outputSetup uid ds plugs canOpen \<and> runs_with plugs uid ds (sim (world st')) st'"
    using init_fresh [of plugs uid ds "sim (world st)" st cfg code canOpen cast] by (auto simp: MySimulation_def runs_with_def)
next
  fix st :: "('d, 'p Pic) SimProgram" and phase
  assume a: "outputSetup uid ds plugs canOpen \<and> runs_with plugs uid ds (sim (world st)) st"
  then show "\<exists>st'. perform (MySimulation cfg code plugs canOpen cast) phase st = Inr st'
      \<and> outputSetup uid ds plugs canOpen \<and> runs_with plugs uid ds (sim (world st')) st'"
    using window_phase [of plugs uid ds "sim (world st)" st cfg code canOpen cast]
      step_phase [of plugs uid ds "sim (world st)" st cfg code canOpen cast]
      dump_phase [of plugs uid ds "sim (world st)" st canOpen cfg code cast]
    by (cases phase) (fastforce simp: runs_with_def outputSetup_def simp del: perform.simps)+
qed

lemma simulation_completes:
  assumes "outputSetup uid ds plugs canOpen" "runs_with plugs uid ds p st" "\<not> restartRequested (helper (world st))"
  shows "\<exists>printed st'. startSimulation (helper_pluginLoad rank h) (MySimulation cfg code plugs canOpen cast) st = Inr (printed, st')
    \<and> plugged plugs st'"
  using mySim.run_completes [of uid ds plugs canOpen st] assms by (fastforce simp: runs_with_def)

text \<open>
  C4. The background never reaches the field solver. A whole simulation that is started without a restart, with plugins
  that only write output, runs to its end, and the fields, currents, particles, process grid and window state at its
  end are those of a reference simulation, in which the electric and magnetic fields never contain the background:
  there the background of step t is only added to what the particle functions of step t are given, and
  the solver steps the fields alone. At the end of the program the fields are the reference fields with
  the background of the last step added, as the plugins see them.
\<close>

theorem background_never_reaches_solver:
  assumes "cfg_wf cfg" "outputOnly getUniqueId ds plugs" "\<forall>path. canOpen path"
    and "plugged plugs st" "dc_inv getUniqueId ds (dataConnector (world st))" "\<not> restartRequested (helper (world st))"
  shows "\<exists>printed st'. startSimulation (helper_pluginLoad rank h) (MySimulation cfg code plugs canOpen lexical_cast) st = Inr (printed, st')
    \<and> sim (world st') = pushBGField cfg functor_Add (uint (runSteps h))
          (bareRun cfg code (freshStart code (sim (world st))) (nat (uint (runSteps h))))"
proof -
  let ?S = "MySimulation cfg code plugs canOpen lexical_cast"
  let ?p = "freshStart code (sim (world st))"
  have "runs_with plugs getUniqueId ds (sim (world st)) st" using assms(4,5) by (simp add: runs_with_def)
  then obtain s0 where s0: "sim_init ?S st = Inr (0, s0)" "runs_with plugs getUniqueId ds ?p s0"
    using init_fresh assms(6) by (fastforce simp: MySimulation_def)
  obtain s1 where s1: "perform ?S (MovingWindowCheck 0) s0 = Inr s1"
      "runs_with plugs getUniqueId ds (pushBGField cfg functor_Add (int 0) (bareRun cfg code ?p 0)) s1"
    using window_phase [OF s0(2), of cfg code canOpen lexical_cast 0] by auto
  obtain s2 where s2: "perform ?S (DumpOneStep 0) s1 = Inr s2"
      "runs_with plugs getUniqueId ds (pushBGField cfg functor_Add (int 0) (bareRun cfg code ?p 0)) s2"
    using dump_phase [OF s1(2) assms(2,3)] by blast
  obtain s3 where s3: "performAll ?S (rounds 0 (uint (runSteps h))) s2 = Inr s3"
      "runs_with plugs getUniqueId ds (pushBGField cfg functor_Add (uint (runSteps h)) (bareRun cfg code ?p (nat (uint (runSteps h))))) s3"
    using rounds_bare [OF assms(1-3) s2(2), where n = "nat (uint (runSteps h))" and cast = lexical_cast] by auto
  have "performAll ?S (firstPhases 0 @ rounds 0 (uint (runSteps h))) s0 = Inr s3"
    using s1(1) s2(1) s3(1) by (simp add: firstPhases_def)
  then show ?thesis
    using s3(2) s0(1) startSimulation_phases [of rank h ?S st] by (simp add: Let_def runs_with_def)
qed

section \<open>Restarting\<close>

text \<open>The restart functions of the registered plugins together load the checkpoint.\<close>

definition restores :: "('d, 'p Pic) SimWorld PluginCode \<Rightarrow> ('d \<Rightarrow> string) \<Rightarrow> 'd list \<Rightarrow> PicConfig \<Rightarrow> int \<Rightarrow> 'p Checkpoint
    \<Rightarrow> ('d, 'p Pic) SimProgram \<Rightarrow> bool" where
  "restores plugs uid ds cfg r cp st \<longleftrightarrow>
     (\<forall>h dir. let st' = restartPlugins plugs r dir (on_world (\<lambda>w. w\<lparr>helper := h\<rparr>) st)
             in sim (world st') = hdf5_restart cfg r cp (sim (world st)) \<and> dc_inv uid ds (dataConnector (world st')))"

definition restarted :: "PicConfig \<Rightarrow> 'p PicCode \<Rightarrow> int \<Rightarrow> 'p Checkpoint \<Rightarrow> 'p Pic \<Rightarrow> 'p Pic" where
  "restarted cfg code r cp p =
     (let q = pushBGField cfg functor_Sub (r + 1) (hdf5_restart cfg r cp p)
      in q\<lparr>simFieldE := communicateE code (simFieldE q), simFieldB := communicateB code (simFieldB q)\<rparr>)"

lemma init_restart:
  assumes "restartRequested (helper (world st))" "restartStep (helper (world st)) = r" "0 \<le> r" "r < 2 ^ 31"
    and "restores plugs uid ds cfg r cp st"
  shows "\<exists>st'. mySim_init cfg code plugs canOpen cast st = Inr (word_of_int (r + 1), st')
    \<and> sim (world st') = restarted cfg code r cp (sim (world st)) \<and> dc_inv uid ds (dataConnector (world st'))"
proof -
  let ?n = "word_of_int (r + 1) :: 32 word"
  have n: "uint ?n = r + 1" by (subst uint_word_of_int) (use assms(3,4) in simp)
  have n0: "?n \<noteq> 0"
  proof
    assume "?n = 0"
    then have "uint ?n = 0" by (metis unsigned_0)
    with n assms(3) show False by linarith
  qed
  have u: "u32 r = r" using assms(3,4) by (simp add: u32_def)
  let ?s = "on_world (\<lambda>w. w\<lparr>helper := (helper (world st))\<lparr>restartStep := r\<rparr>\<rparr>) st"
  let ?t = "restartPlugins plugs r (restartDirectory (helper (world st))) ?s"
  have "sim (world ?t) = hdf5_restart cfg r cp (sim (world st))" "dc_inv uid ds (dataConnector (world ?t))"
    using assms(5) by (simp_all add: restores_def Let_def)
  then show ?thesis using assms(1-3) n n0
    by (simp add: mySim_init_def ic_restart_def Let_def u restarted_def on_world_def)
qed

lemma restart_window:
  assumes "restartRequested (helper (world st))" "restartStep (helper (world st)) = r" "0 \<le> r" "r < 2 ^ 31"
    and "restores plugs uid ds cfg r cp st"
  shows "\<exists>st1 w. mySim_init cfg code plugs canOpen cast st = Inr (word_of_int (r + 1), st1)
    \<and> movingWindowCheck cfg code r (world st1) = Inr w
    \<and> sim w = pushBGField cfg functor_Add r (picWindow cfg code r (restarted cfg code r cp (sim (world st))))"
proof -
  obtain st1 where st1: "mySim_init cfg code plugs canOpen cast st = Inr (word_of_int (r + 1), st1)"
      "sim (world st1) = restarted cfg code r cp (sim (world st))" "dc_inv uid ds (dataConnector (world st1))"
    using init_restart [OF assms] by blast
  then show ?thesis using movingWindowCheck_pure [OF st1(3)] by fastforce
qed

lemma inactive_window:
  assumes "\<not> slidingWindowActive w"
  shows "getSlideCounter par e t w = (w, slideCounter w)" "slideInCurrentStep par e t w = (w, False)" "observed par e t b w = w"
  using assms by (simp_all add: getSlideCounter_def getCurrentSlideInfo_def slideInCurrentStep_def observed_def Let_def)

lemma bg_inactive:
  assumes "\<not> slidingWindowActive (pic_window p)" "\<not> slidingWindowActive (pic_window q)"
    and "slideCounter (pic_window p) = slideCounter (pic_window q)" "pic_env p = pic_env q"
  shows "bgE cfg t p = bgE cfg t q" "bgB cfg t p = bgB cfg t q"
  using assms by (simp_all add: bgE_def bgB_def background_def inactive_window fun_eq_iff)

text \<open>
  C37. A restart subtracts the background of the wrong step. Take a simulation without moving window that writes a checkpoint in step r,
  when the fields contain the background of step r. Restarting from it, \<open>init\<close> subtracts the background of step r + 1
  from the loaded fields and the window check of step r adds the background of step r again. The particles are restored
  exactly, but every field value of the local domain differs from the value in the uninterrupted run at the same point by the background of
  step r minus the background of step r + 1. Only a background that does not change between the two
  steps is handled correctly.
\<close>

theorem restart_subtracts_wrong_background:
  fixes Q :: "'p Pic"
  assumes "cfg_wf cfg" "0 \<le> r" "r < 2 ^ 31"
    and "\<not> slidingWindowActive (pic_window Q)" "\<not> slidingWindowActive (pic_window (sim (world st)))" "pic_env (sim (world st)) = pic_env Q"
    and "\<forall>F g c. interior cfg (pic_env Q) g \<longrightarrow> communicateE code F (g, c) = F (g, c) \<and> communicateB code F (g, c) = F (g, c)"
    and "restartRequested (helper (world st))" "restartStep (helper (world st)) = r"
    and "restores plugs getUniqueId ds cfg r (snd (hdf5_checkpoint cfg r (pushBGField cfg functor_Add r Q))) st"
  defines "P \<equiv> pushBGField cfg functor_Add r Q"
  shows "\<exists>st1 w. mySim_init cfg code plugs canOpen lexical_cast st = Inr (word_of_int (r + 1), st1)
    \<and> movingWindowCheck cfg code r (world st1) = Inr w
    \<and> simSpecies (sim w) = simSpecies P
    \<and> (\<forall>g c. interior cfg (pic_env Q) g \<and> c < 3 \<longrightarrow>
         simFieldE (sim w) (g, c) = simFieldE P (g, c) + (bgE cfg r Q (g, c) - bgE cfg (r + 1) Q (g, c))
       \<and> simFieldB (sim w) (g, c) = simFieldB P (g, c) + (bgB cfg r Q (g, c) - bgB cfg (r + 1) Q (g, c)))"
proof -
  let ?cp = "snd (hdf5_checkpoint cfg r P)" and ?p = "sim (world st)"
  have P: "simFieldE P = (\<lambda>x. simFieldE Q x + bgE cfg r Q x)" "simFieldB P = (\<lambda>x. simFieldB Q x + bgB cfg r Q x)"
      "simSpecies P = simSpecies Q" "pic_window P = pic_window Q" "pic_env P = pic_env Q"
    using assms(4) by (simp_all add: P_def pushBGField_eq [OF assms(1)] pushWindow_def inactive_window)
  have cp: "cp_fieldE ?cp = simFieldE P" "cp_fieldB ?cp = simFieldB P" "cp_species ?cp = simSpecies P" "cp_slides ?cp = slideCounter (pic_window Q)"
    using assms(4) P by (simp_all add: hdf5_checkpoint_def inactive_window)
  define H where "H = hdf5_restart cfg r ?cp ?p"
  have H: "pic_env H = pic_env Q" "slideCounter (pic_window H) = slideCounter (pic_window Q)" "\<not> slidingWindowActive (pic_window H)"
      "simSpecies H = simSpecies P" "simFieldE H = loadField cfg (pic_env Q) (simFieldE P)" "simFieldB H = loadField cfg (pic_env Q) (simFieldB P)"
    using assms(5,6) cp by (simp_all add: H_def hdf5_restart_def Let_def setSlideCounter_def inactive_window)
  have bH: "bgE cfg t H = bgE cfg t Q" "bgB cfg t H = bgB cfg t Q" for t
    using bg_inactive [OF H(3) assms(4) H(2,1)] by simp_all
  define R where "R = restarted cfg code r ?cp ?p"
  have R: "R = H\<lparr>simFieldE := communicateE code (\<lambda>x. simFieldE H x - bgE cfg (r + 1) Q x),
                simFieldB := communicateB code (\<lambda>x. simFieldB H x - bgB cfg (r + 1) Q x)\<rparr>"
  proof -
    have "pushBGField cfg functor_Sub (r + 1) H
        = H\<lparr>simFieldE := \<lambda>x. simFieldE H x - bgE cfg (r + 1) Q x, simFieldB := \<lambda>x. simFieldB H x - bgB cfg (r + 1) Q x\<rparr>"
      using H(3) by (intro Pic.equality) (simp_all add: pushBGField_eq [OF assms(1)] bH pushWindow_def inactive_window)
    then show ?thesis by (simp add: R_def restarted_def Let_def flip: H_def)
  qed
  have w: "picWindow cfg code r R = R" using H(3) R by (cases R) (simp add: picWindow_def inactive_window)
  have bR: "bgE cfg r R = bgE cfg r Q" "bgB cfg r R = bgB cfg r Q"
    using bg_inactive [of R H cfg r] H(3) bH by (simp_all add: R)
  obtain st1 v where "mySim_init cfg code plugs canOpen lexical_cast st = Inr (word_of_int (r + 1), st1)"
      "movingWindowCheck cfg code r (world st1) = Inr v" and v: "sim v = pushBGField cfg functor_Add r R"
    using restart_window [OF assms(8,9,2,3) assms(10) [folded P_def]] w unfolding R_def by metis
  moreover have "simSpecies (sim v) = simSpecies P" using H(4) by (simp add: v pushBGField_eq [OF assms(1)] R)
  moreover have "simFieldE (sim v) (g, c) = simFieldE P (g, c) + (bgE cfg r Q (g, c) - bgE cfg (r + 1) Q (g, c))
      \<and> simFieldB (sim v) (g, c) = simFieldB P (g, c) + (bgB cfg r Q (g, c) - bgB cfg (r + 1) Q (g, c))"
    if "interior cfg (pic_env Q) g \<and> c < 3" for g c
    using that assms(7) H(5,6) by (simp add: v pushBGField_eq [OF assms(1)] bR) (simp add: R loadField_def)
  ultimately show ?thesis by blast
qed

text \<open>
  A restart in a slide step slides again. Let the moving window be active and let the checkpoint be written in a step r in which the window
  slides; the program had slid before it wrote the checkpoint, and the checkpoint counts this slide. On restart, the process grid is
  restored with all counted slides, but the window check of step r slides the grid once more without counting it. The
  process that this extra slide moves to the other end loses the electric and magnetic field that it has just loaded.
\<close>

theorem restart_slides_again:
  assumes "cfg_wf cfg" "\<not> InfluenceE cfg" "\<not> InfluenceB cfg" "0 \<le> r" "r < 2 ^ 31"
    and "slidingWindowActive (pic_window (sim (world st)))"
    and "slideStep (cfg_par cfg) (pic_env (sim (world st))) (pic_window (sim (world st))) r"
    and "restartRequested (helper (world st))" "restartStep (helper (world st)) = r"
    and "restores plugs getUniqueId ds cfg r cp st"
  defines "e \<equiv> fst (gc_setStateAfterSlides (mpi_coords cfg) (mpi_rank cfg) (simDim cfg) (globalRank cfg) (nat (cp_slides cp)) (pic_env (sim (world st))))"
  shows "\<exists>st1 w. mySim_init cfg code plugs canOpen lexical_cast st = Inr (word_of_int (r + 1), st1)
    \<and> movingWindowCheck cfg code r (world st1) = Inr w
    \<and> slideCounter (pic_window (sim w)) = cp_slides cp
    \<and> pic_env (sim w) = fst (gc_slide (mpi_coords cfg) (mpi_rank cfg) (simDim cfg) (globalRank cfg) e)
    \<and> (snd (gc_slide (mpi_coords cfg) (mpi_rank cfg) (simDim cfg) (globalRank cfg) e) \<longrightarrow>
         simFieldE (sim w) = (\<lambda>r. 0) \<and> simFieldB (sim w) = (\<lambda>r. 0))"
proof -
  let ?p = "sim (world st)"
  note off = pushBGField_off [OF assms(2,3)]
  have ss: "slideStep (cfg_par cfg) e w r = slideStep (cfg_par cfg) (pic_env ?p) (pic_window ?p) r"
    if "slidingWindowActive w" for w
    using that assms(6) unfolding e_def gc_setStateAfterSlides_def
    by (simp add: slideStep_def getCurrentSlideInfo_def stepsInFuture_tmp_def stepsPerGPU_def updateLocalDomainOffset_def
        setLocalDomainOffset_def Selection_of_def Let_def case_prod_beta)
  let ?w = "setSlideCounter (cp_slides cp) r (pic_window ?p)"
  have w: "slidingWindowActive ?w" "lastSlideStep ?w = r" "slideCounter ?w = cp_slides cp"
    using assms(6) by (simp_all add: setSlideCounter_def)
  have stay: "fst (getCurrentSlideInfo (cfg_par cfg) e r ?w) = ?w"
    using w by (simp add: info_state incrementSlideCounter_def)
  have true: "fst (snd (getCurrentSlideInfo (cfg_par cfg) e r ?w))"
    using ss [OF w(1)] assms(7) by (simp add: slideStep_def)
  define H where "H = hdf5_restart cfg r cp ?p"
  have H: "pic_env H = e" "pic_window H = ?w"
    using assms(6) stay by (simp_all add: H_def hdf5_restart_def Let_def e_def setSlideCounter_def getSlideCounter_def case_prod_beta)
  define R where "R = restarted cfg code r cp ?p"
  have R: "pic_env R = e" "pic_window R = ?w"
    using H by (simp_all add: R_def restarted_def off Let_def flip: H_def)
  have sl: "slideInCurrentStep (cfg_par cfg) e r ?w = (?w, True)"
    using w(1) stay true by (simp add: slideInCurrentStep_def case_prod_beta prod_eq_iff)
  have pw: "picWindow cfg code r R = picSlide cfg code r R"
    using sl R by (cases R) (simp add: picWindow_def)
  obtain st1 v where "mySim_init cfg code plugs canOpen lexical_cast st = Inr (word_of_int (r + 1), st1)"
      "movingWindowCheck cfg code r (world st1) = Inr v" and v: "sim v = picSlide cfg code r R"
    using restart_window [OF assms(8,9,4,5,10)] pw unfolding R_def off by metis
  moreover have "slideCounter (pic_window (sim v)) = cp_slides cp"
      "pic_env (sim v) = fst (gc_slide (mpi_coords cfg) (mpi_rank cfg) (simDim cfg) (globalRank cfg) e)"
      "snd (gc_slide (mpi_coords cfg) (mpi_rank cfg) (simDim cfg) (globalRank cfg) e) \<Longrightarrow> simFieldE (sim v) = (\<lambda>r. 0) \<and> simFieldB (sim v) = (\<lambda>r. 0)"
    using R w(3) by (simp_all add: v picSlide_def resetAll_def case_prod_beta)
  ultimately show ?thesis by blast
qed

section \<open>Witnesses\<close>

text \<open>
  A sample program: the process grid of the grid controller's sample, a homogeneous electric background that grows
  with the step, and a single macro particle whose momentum follows the field of one cell.
\<close>

definition samplePic :: "bool \<Rightarrow> PicConfig" where
  "samplePic influence = \<lparr>cfg_par = \<lparr>CELL_HEIGHT = 1, SPEED_OF_LIGHT = 1, DELTA_T = 1, slide_point = 1\<rparr>,
     cellDescription = \<lparr>gridSuperCells = [4, 4, 5], guardingSuperCells = 1, borderSuperCells = 1\<rparr>, superCellSize = [5, 10, 10],
     FieldBackgroundE = (\<lambda>p t. [real_of_int t, 0, 0]), FieldBackgroundB = (\<lambda>p t. [0, 0, 0]), FieldBackgroundJ = (\<lambda>p t. [0, 0, 0]),
     InfluenceE = influence, InfluenceB = influence, activatedJ = False, ENABLE_CURRENT = False, hasSpecies = True, currentMargins = False,
     simDim = 3, globalRank = 2, mpi_coords = rowMajor_coords [3, 4, 2], mpi_rank = rowMajor_rank [3, 4, 2]\<rparr>"

definition samplePicCode :: "real PicCode" where
  "samplePicCode = \<lparr>particleIonization = (\<lambda>t E B p. p), particleUpdate = (\<lambda>t E B p. p + E ([5, 10, 10], 0)),
     update_beforeCurrent = (\<lambda>t EB. EB), update_afterCurrent = (\<lambda>t EB. EB), computeSpeciesCurrent = (\<lambda>t p J. J),
     addCurrentArea = (\<lambda>a J E. E), communicateJ = (\<lambda>J. J), communicateE = (\<lambda>E. E), communicateB = (\<lambda>B. B),
     callReset = (\<lambda>t p. 0), initPipeline = (\<lambda>t p. p)\<rparr>"

definition sampleState :: "bool \<Rightarrow> real Pic" where
  "sampleState active = \<lparr>simFieldE = (\<lambda>r. 0), simFieldB = (\<lambda>r. 0), simFieldJ = (\<lambda>r. 0), simSpecies = 0,
     pic_window = MovingWindow_init\<lparr>slidingWindowActive := active\<rparr>, pic_env = sampleEnv\<rparr>"

definition samplePlugs :: "PicConfig \<Rightarrow> real Checkpoint \<Rightarrow> (string, real Pic) SimWorld PluginCode" where
  "samplePlugs cfg cp = \<lparr>code_load = (\<lambda>p w. (w, [])), code_unload = (\<lambda>p w. w), code_notify = (\<lambda>p t w. w),
     code_checkpoint = (\<lambda>p t d w. w), code_restart = (\<lambda>p r d w. w\<lparr>sim := hdf5_restart cfg r cp (sim w)\<rparr>)\<rparr>"

definition sampleSim :: "bool \<Rightarrow> bool \<Rightarrow> (string, real Pic) SimProgram" where
  "sampleSim active restart = (PluginConnector_new \<lparr>helper = SimulationHelper_new\<lparr>restartRequested := restart, restartStep := 80\<rparr>,
     dataConnector = DataConnector_new, fileSystem = \<lparr>fs_files = Map.empty, fs_directories = []\<rparr>, sim = sampleState active\<rparr>)\<lparr>plugins := [0]\<rparr>"

lemma sampleSim_fields [simp]:
  "sim (world (sampleSim a b)) = sampleState a" "restartRequested (helper (world (sampleSim a b))) = b"
  "restartStep (helper (world (sampleSim a b))) = 80" "dataConnector (world (sampleSim a b)) = DataConnector_new"
  "plugins (sampleSim a b) = [0]"
  by (simp_all add: sampleSim_def PluginConnector_new_def)

lemma samplePic_wf: "cfg_wf (samplePic b)"
  by (simp add: cfg_wf_def samplePic_def)

lemma sampleSim_plugged: "plugged plugs (sampleSim a b)"
  unfolding sampleSim_def by (rule plugged_register [where plugin = "Some 0", OF plugged_new]) (simp add: registerPlugin_def PluginConnector_new_def)

lemma samplePlugs_output: "outputOnly uid ds (samplePlugs cfg cp)"
  by (simp add: outputOnly_def samplePlugs_def)

lemma samplePlugs_restores: "restores (samplePlugs cfg cp) (\<lambda>d. d) [] cfg r cp (sampleSim a b)"
proof -
  have "world (restartPlugins (samplePlugs cfg cp) r dir (on_world (\<lambda>w. w\<lparr>helper := h\<rparr>) (sampleSim a b)))
      = (world (sampleSim a b))\<lparr>helper := h, sim := hdf5_restart cfg r cp (sampleState a)\<rparr>" for h dir
    by (simp add: restartPlugins_def on_world_def) (simp add: samplePlugs_def)
  then show ?thesis by (simp add: restores_def dc_inv_new)
qed

definition sampleCheckpoint :: "real Checkpoint" where
  "sampleCheckpoint = \<lparr>cp_fieldE = (\<lambda>r. 1), cp_fieldB = (\<lambda>r. 0), cp_species = 0, cp_slides = 1\<rparr>"

text \<open>C1, witness: two steps of the sample program with the background switched on.\<close>

theorem background_never_reaches_solver_witness:
  "\<exists>printed st'. startSimulation (helper_pluginLoad 0 (SimulationHelper_new\<lparr>runSteps := 2\<rparr>))
       (MySimulation (samplePic True) samplePicCode (samplePlugs (samplePic True) sampleCheckpoint) (\<lambda>path. True) castDecimal) (sampleSim False False)
     = Inr (printed, st')
     \<and> sim (world st') = pushBGField (samplePic True) functor_Add 2
         (bareRun (samplePic True) samplePicCode (freshStart samplePicCode (sampleState False)) 2)"
  using background_never_reaches_solver [where getUniqueId = "\<lambda>d. d" and ds = "[]" and plugs = "samplePlugs (samplePic True) sampleCheckpoint"
      and canOpen = "\<lambda>path. True" and st = "sampleSim False False" and h = "SimulationHelper_new\<lparr>runSteps := 2\<rparr>" and rank = 0
      and code = samplePicCode and lexical_cast = castDecimal, OF samplePic_wf samplePlugs_output _ sampleSim_plugged]
  by (simp add: dc_inv_new)

text \<open>C2, witness: a restart at step 80 leaves the electric field of the first interior cell too small by one.\<close>

theorem restart_subtracts_wrong_background_witness:
  "\<exists>st1 w. mySim_init (samplePic True) samplePicCode
       (samplePlugs (samplePic True) (snd (hdf5_checkpoint (samplePic True) 80 (pushBGField (samplePic True) functor_Add 80 (sampleState False)))))
       (\<lambda>path. True) castDecimal (sampleSim False True) = Inr (81, st1)
     \<and> movingWindowCheck (samplePic True) samplePicCode 80 (world st1) = Inr w
     \<and> simFieldE (sim w) ([5, 10, 10], 0) = simFieldE (pushBGField (samplePic True) functor_Add 80 (sampleState False)) ([5, 10, 10], 0) - 1"
proof -
  have q: "\<not> slidingWindowActive (pic_window (sampleState False))" "pic_env (sampleState False) = sampleEnv"
    by (simp_all add: sampleState_def MovingWindow_init_def)
  have i: "interior (samplePic True) sampleEnv [5, 10, 10]"
    by (simp add: interior_def guardCells_of_def samplePic_def sampleEnv_def SubGrid_init_def Selection_of_def in_box_def
        vec_mul_s_def scalar_mul_assign_def vec_sub_def vec_sub_assign_def)
  have bg: "bgE (samplePic True) t (sampleState False) ([5, 10, 10], 0) = real_of_int t" for t
    by (simp add: bgE_def background_def samplePic_def vec_mul_def vec_mul_assign_def)
  have c: "communicateE samplePicCode = (\<lambda>E. E)" "communicateB samplePicCode = (\<lambda>B. B)" by (simp_all add: samplePicCode_def)
  note t = restart_subtracts_wrong_background [where Q = "sampleState False" and st = "sampleSim False True" and r = 80
      and code = samplePicCode and canOpen = "\<lambda>path. True" and lexical_cast = castDecimal and getUniqueId = "\<lambda>d. d" and ds = "[]",
      OF samplePic_wf _ _ q(1) _ _ _ _ _ samplePlugs_restores]
  show ?thesis using t i bg by (simp add: q c) fastforce
qed

text \<open>C3, witness: a restart at the slide step 80 of the sample program.\<close>

theorem restart_slides_again_witness:
  "\<exists>st1 w. mySim_init (samplePic False) samplePicCode (samplePlugs (samplePic False) sampleCheckpoint) (\<lambda>path. True) castDecimal (sampleSim True True)
       = Inr (81, st1)
     \<and> movingWindowCheck (samplePic False) samplePicCode 80 (world st1) = Inr w
     \<and> slideCounter (pic_window (sim w)) = 1
     \<and> pic_env (sim w) = fst (gc_slide (rowMajor_coords [3, 4, 2]) (rowMajor_rank [3, 4, 2]) 3 2
          (fst (gc_setStateAfterSlides (rowMajor_coords [3, 4, 2]) (rowMajor_rank [3, 4, 2]) 3 2 1 sampleEnv)))"
proof -
  have q: "slidingWindowActive (pic_window (sampleState True))" "pic_env (sampleState True) = sampleEnv"
    by (simp_all add: sampleState_def)
  have ss: "slideStep (cfg_par (samplePic False)) sampleEnv (pic_window (sampleState True)) 80"
    by (simp add: slideStep_def getCurrentSlideInfo_def stepsInFuture_tmp_def stepsPerGPU_def sampleState_def samplePic_def
        sampleEnv_def SubGrid_init_def Selection_of_def Selection_size_def u32_def Let_def floor_eq_iff)
  have c: "mpi_coords (samplePic False) = rowMajor_coords [3, 4, 2]" "mpi_rank (samplePic False) = rowMajor_rank [3, 4, 2]"
      "simDim (samplePic False) = 3" "globalRank (samplePic False) = 2" "\<not> InfluenceE (samplePic False)" "\<not> InfluenceB (samplePic False)"
      "cp_slides sampleCheckpoint = 1"
    by (simp_all add: samplePic_def sampleCheckpoint_def)
  note t = restart_slides_again [where st = "sampleSim True True" and r = 80 and cp = sampleCheckpoint
      and code = samplePicCode and canOpen = "\<lambda>path. True" and lexical_cast = castDecimal and getUniqueId = "\<lambda>d. d" and ds = "[]",
      OF samplePic_wf c(5,6) _ _ _ _ _ _ samplePlugs_restores]
  show ?thesis using t ss q by (simp add: c) fastforce
qed

end
