(* ===== verification/Shapes.thy ===== *)
theory Shapes
  imports Vectors
begin

text \<open>
  Models the particle shapes of particles/shapes (\<open>Counter\<close>, \<open>NGP\<close>, \<open>CIC\<close>, \<open>TSC\<close>, \<open>PCS\<close>, \<open>P4S\<close>).
  \<open>float_X\<close> is the type of real numbers: rounding is not modelled. A shape class is a record
  of its \<open>support\<close> and its two form factors; a conversion of a condition to \<open>float_X\<close> is \<open>of_bool\<close>.
  The locale \<open>assignment_shape\<close> states what the current deposition relies on (no charge outside of
  the support, total charge one) and is interpreted on the four continuous shapes.
\<close>

section \<open>Form factors\<close>

record Shape =
  support :: int
  ChargeAssignment :: "real \<Rightarrow> real"
  ChargeAssignmentOnSupport :: "real \<Rightarrow> real"

definition Counter_ChargeAssignment :: "real \<Rightarrow> real" where
  "Counter_ChargeAssignment x = of_bool (- 1 < x \<and> x \<le> 0)"

definition Counter_OnSupport :: "real \<Rightarrow> real" where
  "Counter_OnSupport x = of_bool (0 \<le> x \<and> x < 1)"

definition NGP_ChargeAssignment :: "real \<Rightarrow> real" where
  "NGP_ChargeAssignment x = of_bool (- 0.5 \<le> x \<and> x < 0.5)"

definition NGP_OnSupport :: "real \<Rightarrow> real" where
  "NGP_OnSupport x = 1"

definition CIC_ChargeAssignment :: "real \<Rightarrow> real" where
  "CIC_ChargeAssignment x = (let abs_x = \<bar>x\<bar> in of_bool (abs_x < 1) * (1 - abs_x))"

definition CIC_OnSupport :: "real \<Rightarrow> real" where
  "CIC_OnSupport x = 1 - \<bar>x\<bar>"

definition TSC_ff_1st_radius :: "real \<Rightarrow> real" where
  "TSC_ff_1st_radius x = (let square_x = x * x in 0.75 - square_x)"

definition TSC_ff_2nd_radius :: "real \<Rightarrow> real" where
  "TSC_ff_2nd_radius x = (let tmp = 3 / 2 - x; square_tmp = tmp * tmp in 0.5 * square_tmp)"

definition TSC_ChargeAssignment :: "real \<Rightarrow> real" where
  "TSC_ChargeAssignment x =
     (let abs_x = \<bar>x\<bar>; below_05 = abs_x < 0.5
      in of_bool below_05 * TSC_ff_1st_radius abs_x + of_bool (abs_x < 1.5 \<and> \<not> below_05) * TSC_ff_2nd_radius abs_x)"

definition TSC_OnSupport :: "real \<Rightarrow> real" where
  "TSC_OnSupport x =
     (let abs_x = \<bar>x\<bar>; below_05 = abs_x < 0.5
      in of_bool below_05 * TSC_ff_1st_radius abs_x + of_bool (\<not> below_05) * TSC_ff_2nd_radius abs_x)"

definition PCS_ff_1st_radius :: "real \<Rightarrow> real" where
  "PCS_ff_1st_radius x = (let square_x = x * x; triple_x = square_x * x in 1 / 6 * (4 - 6 * square_x + 3 * triple_x))"

definition PCS_ff_2nd_radius :: "real \<Rightarrow> real" where
  "PCS_ff_2nd_radius x = (let tmp = 2 - x; triple_tmp = tmp * tmp * tmp in 1 / 6 * triple_tmp)"

definition PCS_ChargeAssignment :: "real \<Rightarrow> real" where
  "PCS_ChargeAssignment x =
     (let abs_x = \<bar>x\<bar>; below_1 = abs_x < 1; below_2 = abs_x < 2
      in of_bool below_1 * PCS_ff_1st_radius abs_x + of_bool (below_2 \<and> \<not> below_1) * PCS_ff_2nd_radius abs_x)"

definition PCS_OnSupport :: "real \<Rightarrow> real" where
  "PCS_OnSupport x =
     (let abs_x = \<bar>x\<bar>; below_1 = abs_x < 1
      in of_bool below_1 * PCS_ff_1st_radius abs_x + of_bool (\<not> below_1) * PCS_ff_2nd_radius abs_x)"

definition P4S_ff_1st_radius :: "real \<Rightarrow> real" where
  "P4S_ff_1st_radius x = (let square_x = x * x in 115 / 192 + square_x * (- 5 / 8 + 1 / 4 * square_x))"

definition P4S_ff_2nd_radius :: "real \<Rightarrow> real" where
  "P4S_ff_2nd_radius x = 1 / 96 * (55 + 4 * x * (5 - 2 * x * (15 + 2 * x * (- 5 + x))))"

definition P4S_ff_3rd_radius :: "real \<Rightarrow> real" where
  "P4S_ff_3rd_radius x =
     (let tmp = 5 - 2 * x; square_tmp = tmp * tmp; biquadratic_tmp = square_tmp * square_tmp
      in 1 / 384 * biquadratic_tmp)"

definition P4S_OnSupport :: "real \<Rightarrow> real" where
  "P4S_OnSupport x =
     (let abs_x = \<bar>x\<bar>
      in if abs_x < 1.5 then if abs_x < 0.5 then P4S_ff_1st_radius abs_x else P4S_ff_2nd_radius abs_x
         else P4S_ff_3rd_radius abs_x)"

definition P4S_ChargeAssignment :: "real \<Rightarrow> real" where
  "P4S_ChargeAssignment x = (let abs_x = \<bar>x\<bar> in if abs_x < 2.5 then P4S_OnSupport abs_x else 0)"

definition Counter :: Shape where
  "Counter = \<lparr>support = 0, ChargeAssignment = Counter_ChargeAssignment, ChargeAssignmentOnSupport = Counter_OnSupport\<rparr>"

definition NGP :: Shape where
  "NGP = \<lparr>support = 1, ChargeAssignment = NGP_ChargeAssignment, ChargeAssignmentOnSupport = NGP_OnSupport\<rparr>"

definition CIC :: Shape where
  "CIC = \<lparr>support = 2, ChargeAssignment = CIC_ChargeAssignment, ChargeAssignmentOnSupport = CIC_OnSupport\<rparr>"

definition TSC :: Shape where
  "TSC = \<lparr>support = 3, ChargeAssignment = TSC_ChargeAssignment, ChargeAssignmentOnSupport = TSC_OnSupport\<rparr>"

definition PCS :: Shape where
  "PCS = \<lparr>support = 4, ChargeAssignment = PCS_ChargeAssignment, ChargeAssignmentOnSupport = PCS_OnSupport\<rparr>"

definition P4S :: Shape where
  "P4S = \<lparr>support = 5, ChargeAssignment = P4S_ChargeAssignment, ChargeAssignmentOnSupport = P4S_OnSupport\<rparr>"

lemmas shape_records = NGP_def CIC_def TSC_def PCS_def P4S_def

lemmas form_factors = NGP_ChargeAssignment_def NGP_OnSupport_def CIC_ChargeAssignment_def CIC_OnSupport_def
  TSC_ChargeAssignment_def TSC_OnSupport_def TSC_ff_1st_radius_def TSC_ff_2nd_radius_def
  PCS_ChargeAssignment_def PCS_OnSupport_def PCS_ff_1st_radius_def PCS_ff_2nd_radius_def
  P4S_ChargeAssignment_def P4S_OnSupport_def P4S_ff_1st_radius_def P4S_ff_2nd_radius_def P4S_ff_3rd_radius_def Let_def

section \<open>Total charge one\<close>

lemma sum_window: "(\<Sum>g \<in> {- 2..3 :: int}. F g) = F (- 2) + F (- 1) + F 0 + F 1 + F 2 + (F 3 :: real)"
proof -
  have "{- 2..3 :: int} = {- 2, - 1, 0, 1, 2, 3}" by auto
  then show ?thesis by simp
qed

lemma NGP_unity: "0 \<le> f \<Longrightarrow> f < 1 \<Longrightarrow> (\<Sum>g \<in> {- 2..3 :: int}. NGP_ChargeAssignment (of_int g - f)) = 1"
  unfolding sum_window by (simp add: form_factors)

lemma CIC_unity: "0 \<le> f \<Longrightarrow> f < 1 \<Longrightarrow> (\<Sum>g \<in> {- 2..3 :: int}. CIC_ChargeAssignment (of_int g - f)) = 1"
  unfolding sum_window by (cases "f = 0") (simp_all add: form_factors)

lemma TSC_unity: "0 \<le> f \<Longrightarrow> f < 1 \<Longrightarrow> (\<Sum>g \<in> {- 2..3 :: int}. TSC_ChargeAssignment (of_int g - f)) = 1"
  unfolding sum_window by (cases "f = 1 / 2", simp add: form_factors, cases "f < 1 / 2") (simp_all add: form_factors field_simps)

lemma PCS_unity: "0 \<le> f \<Longrightarrow> f < 1 \<Longrightarrow> (\<Sum>g \<in> {- 2..3 :: int}. PCS_ChargeAssignment (of_int g - f)) = 1"
  unfolding sum_window by (cases "f = 0") (simp_all add: form_factors field_simps)

lemma P4S_unity:
  assumes "0 \<le> f" "f < 1"
  shows "(\<Sum>g \<in> {- 2..3 :: int}. P4S_ChargeAssignment (of_int g - f)) = 1"
proof -
  consider "f < 1 / 2" | "f = 1 / 2" | "1 / 2 < f" by linarith
  then show ?thesis
  proof cases
    case 2
    then show ?thesis unfolding sum_window 2 by (simp add: form_factors)
  qed (use assms in \<open>simp_all add: sum_window form_factors field_simps\<close>)
qed

section \<open>Sign and support\<close>

definition shape_ok :: "Shape \<Rightarrow> bool" where
  "shape_ok s \<longleftrightarrow>
     (\<forall>x. 0 \<le> ChargeAssignment s x) \<and>
     (\<forall>x. of_int (support s) / 2 < \<bar>x\<bar> \<longrightarrow> ChargeAssignment s x = 0) \<and>
     (\<forall>x. - of_int (support s) / 2 \<le> x \<and> x < of_int (support s) / 2 \<longrightarrow>
        ChargeAssignmentOnSupport s x = ChargeAssignment s x)"

lemma NGP_ok: "shape_ok NGP"
  by (auto simp: shape_ok_def NGP_def form_factors)

lemma CIC_ok: "shape_ok CIC"
  by (auto simp: shape_ok_def CIC_def form_factors abs_if)

lemma TSC_ok: "shape_ok TSC"
proof -
  have "0 \<le> TSC_ff_1st_radius x" if "0 \<le> x" "x < 1 / 2" for x
    using that mult_mono [of x "1 / 2" x "1 / 2"] by (simp add: TSC_ff_1st_radius_def)
  then have "0 \<le> TSC_ChargeAssignment x" for x by (auto simp: TSC_ChargeAssignment_def TSC_ff_2nd_radius_def Let_def)
  moreover have "TSC_OnSupport x = TSC_ChargeAssignment x" if "\<bar>x\<bar> \<le> 3 / 2" for x
    using that by (cases "\<bar>x\<bar> = 3 / 2") (simp_all add: form_factors)
  ultimately show ?thesis by (simp add: shape_ok_def TSC_def) (simp add: form_factors abs_if)
qed

lemma PCS_ok: "shape_ok PCS"
proof -
  have "0 \<le> PCS_ff_1st_radius x" if "0 \<le> x" "x < 1" for x
  proof -
    have "PCS_ff_1st_radius x = 1 / 6 * (1 + 3 * (1 - x) + 3 * ((1 - x) * (1 - x)) * x)"
      by (simp add: PCS_ff_1st_radius_def Let_def field_simps)
    also have "0 \<le> \<dots>" using that by (intro mult_nonneg_nonneg add_nonneg_nonneg) simp_all
    finally show ?thesis .
  qed
  then have "0 \<le> PCS_ChargeAssignment x" for x
    by (auto simp: PCS_ChargeAssignment_def PCS_ff_2nd_radius_def Let_def)
  moreover have "PCS_OnSupport x = PCS_ChargeAssignment x" if "\<bar>x\<bar> \<le> 2" for x
    using that by (cases "\<bar>x\<bar> = 2") (simp_all add: form_factors)
  ultimately show ?thesis by (simp add: shape_ok_def PCS_def) (simp add: form_factors abs_if)
qed

lemma P4S_ff_nonneg: "0 \<le> x \<Longrightarrow> x < 1 / 2 \<Longrightarrow> 0 \<le> P4S_ff_1st_radius x" "1 / 2 \<le> x \<Longrightarrow> x < 3 / 2 \<Longrightarrow> 0 \<le> P4S_ff_2nd_radius x"
proof -
  assume "0 \<le> x" "x < 1 / 2"
  then have "x * x \<le> 1 / 4" using mult_mono [of x "1 / 2" x "1 / 2"] by simp
  moreover have "P4S_ff_1st_radius x = 115 / 192 - 5 / 8 * (x * x) + 1 / 4 * ((x * x) * (x * x))"
    by (simp add: P4S_ff_1st_radius_def Let_def field_simps)
  moreover have "0 \<le> (x * x) * (x * x)" by simp
  ultimately show "0 \<le> P4S_ff_1st_radius x" by linarith
next
  assume x: "1 / 2 \<le> x" "x < 3 / 2"
  let ?t = "3 / 2 - x"
  have "P4S_ff_2nd_radius x = 1 / 24 * (1 + 4 * ?t + 6 * (?t * ?t) + 4 * (?t * ?t * ?t) * (x - 1 / 2))"
    by (simp add: P4S_ff_2nd_radius_def field_simps)
  also have "0 \<le> \<dots>" using x by (intro mult_nonneg_nonneg add_nonneg_nonneg) simp_all
  finally show "0 \<le> P4S_ff_2nd_radius x" .
qed

lemma P4S_ok: "shape_ok P4S"
proof -
  have "0 \<le> P4S_ChargeAssignment x" for x
    using P4S_ff_nonneg [of "\<bar>x\<bar>"] by (simp add: P4S_ChargeAssignment_def P4S_OnSupport_def P4S_ff_3rd_radius_def Let_def)
  moreover have "P4S_OnSupport x = P4S_ChargeAssignment x" if "\<bar>x\<bar> \<le> 5 / 2" for x
    using that by (cases "\<bar>x\<bar> = 5 / 2") (simp_all add: P4S_ChargeAssignment_def P4S_OnSupport_def P4S_ff_3rd_radius_def Let_def)
  ultimately show ?thesis by (simp add: shape_ok_def P4S_def) (simp add: P4S_ChargeAssignment_def abs_if)
qed

section \<open>What the deposition relies on\<close>

locale assignment_shape =
  fixes W :: "real \<Rightarrow> real" and supp :: int
  assumes supp_range: "1 \<le> supp" "supp \<le> 5"
    and vanish: "of_int supp / 2 \<le> \<bar>x\<bar> \<Longrightarrow> W x = 0"
    and unity: "0 \<le> f \<Longrightarrow> f < 1 \<Longrightarrow> (\<Sum>g \<in> {- 2..3 :: int}. W (of_int g - f)) = 1"
begin

lemma unity_at: "(\<Sum>g \<in> {\<lfloor>p\<rfloor> - 2..\<lfloor>p\<rfloor> + 3}. W (of_int g - p)) = 1"
proof -
  have "(\<Sum>g \<in> {\<lfloor>p\<rfloor> - 2..\<lfloor>p\<rfloor> + 3}. W (of_int g - p)) = (\<Sum>g \<in> {- 2..3 :: int}. W (of_int g - frac p))"
    by (rule sum.reindex_bij_witness [of _ "\<lambda>g. g + \<lfloor>p\<rfloor>" "\<lambda>g. g - \<lfloor>p\<rfloor>"]) (auto simp: frac_def)
  then show ?thesis using unity [of "frac p"] by (simp add: frac_lt_1)
qed

lemma unity_window:
  assumes "of_int supp / 2 \<le> p - of_int a + 1" "of_int supp / 2 \<le> of_int b - p"
  shows "(\<Sum>g \<in> {a..<b}. W (of_int g - p)) = 1"
proof -
  let ?M = "{\<lfloor>p\<rfloor> - 2..\<lfloor>p\<rfloor> + 3}"
  have "W (of_int g - p) = 0" if "g \<notin> {a..<b}" for g :: int
  proof (rule vanish)
    have "of_int g \<le> (of_int a :: real) - 1 \<or> (of_int b :: real) \<le> of_int g" using that by force
    then show "of_int supp / 2 \<le> \<bar>of_int g - p\<bar>" using assms by linarith
  qed
  moreover have "W (of_int g - p) = 0" if "g \<notin> ?M" for g :: int
  proof (rule vanish)
    have "of_int g \<le> (of_int \<lfloor>p\<rfloor> :: real) - 3 \<or> (of_int \<lfloor>p\<rfloor> :: real) + 4 \<le> of_int g" using that by force
    then show "of_int supp / 2 \<le> \<bar>of_int g - p\<bar>" using supp_range(2) floor_correct [of p] by linarith
  qed
  ultimately have "(\<Sum>g \<in> {a..<b}. W (of_int g - p)) = (\<Sum>g \<in> {a..<b} \<union> ?M. W (of_int g - p))"
    "(\<Sum>g \<in> ?M. W (of_int g - p)) = (\<Sum>g \<in> {a..<b} \<union> ?M. W (of_int g - p))"
    by (auto intro!: sum.mono_neutral_left)
  then show ?thesis using unity_at [of p] by simp
qed

end

interpretation CIC_shape: assignment_shape CIC_ChargeAssignment 2
  by unfold_locales (simp_all add: CIC_unity, simp add: form_factors)

interpretation TSC_shape: assignment_shape TSC_ChargeAssignment 3
  by unfold_locales (simp_all add: TSC_unity, simp add: form_factors)

interpretation PCS_shape: assignment_shape PCS_ChargeAssignment 4
  by unfold_locales (simp_all add: PCS_unity, simp add: form_factors)

interpretation P4S_shape: assignment_shape P4S_ChargeAssignment 5
  by unfold_locales (simp_all add: P4S_unity, simp add: P4S_ChargeAssignment_def)

section \<open>Property\<close>

text \<open>
  Every particle shape assigns a total charge of one to the grid points for every position of the
  particle, never assigns negative charge, assigns nothing beyond its support, and its variant for
  arguments on the support agrees there with the general one.
\<close>
theorem shapes_assign_unit_charge:
  "list_all (\<lambda>s. shape_ok s \<and> (\<forall>p. (\<Sum>g \<in> {\<lfloor>p\<rfloor> - 2..\<lfloor>p\<rfloor> + 3}. ChargeAssignment s (of_int g - p)) = 1))
     [NGP, CIC, TSC, PCS, P4S]"
proof -
  have ngp: "(\<Sum>g \<in> {\<lfloor>p\<rfloor> - 2..\<lfloor>p\<rfloor> + 3}. NGP_ChargeAssignment (of_int g - p)) = 1" for p
  proof -
    have "(\<Sum>g \<in> {\<lfloor>p\<rfloor> - 2..\<lfloor>p\<rfloor> + 3}. NGP_ChargeAssignment (of_int g - p)) = (\<Sum>g \<in> {- 2..3 :: int}. NGP_ChargeAssignment (of_int g - frac p))"
      by (rule sum.reindex_bij_witness [of _ "\<lambda>g. g + \<lfloor>p\<rfloor>" "\<lambda>g. g - \<lfloor>p\<rfloor>"]) (auto simp: frac_def)
    then show ?thesis using NGP_unity [of "frac p"] by (simp add: frac_lt_1)
  qed
  show ?thesis
    using NGP_ok CIC_ok TSC_ok PCS_ok P4S_ok ngp CIC_shape.unity_at TSC_shape.unity_at PCS_shape.unity_at P4S_shape.unity_at
    by (simp add: shape_records)
qed

end
