(* ===== verification/Esirkepov.thy ===== *)
theory Esirkepov
  imports Shapes Cursors
begin

text \<open>
  Models the current deposition of Esirkepov in two and three dimensions
  (fields/currentDeposition/Esirkepov: Line.hpp, Esirkepov.hpp, Esirkepov2D.hpp) over
  real numbers. The shape is a parameter like the template parameter \<open>T_ParticleShape\<close>. The loops are
  folds over the integer ranges of the code, the atomic additions are additions to the field.
  Shown, for each shape that satisfies \<open>assignment_shape\<close>: the deposited current fulfils the discrete continuity
  equation at every grid point.
\<close>

section \<open>Lines\<close>

record Line =
  pos0 :: "real vec"
  pos1 :: "real vec"

definition line_minus :: "Line \<Rightarrow> real vec \<Rightarrow> Line" where
  "line_minus l rhs = \<lparr>pos0 = vec_sub (pos0 l) rhs, pos1 = vec_sub (pos1 l) rhs\<rparr>"

definition rotateOrigin :: "nat list \<Rightarrow> real vec \<Rightarrow> real vec" where
  "rotateOrigin axes v = map (\<lambda>a. v ! a) axes"

definition rotateLine :: "nat list \<Rightarrow> Line \<Rightarrow> Line" where
  "rotateLine axes l = \<lparr>pos0 = rotateOrigin axes (pos0 l), pos1 = rotateOrigin axes (pos1 l)\<rparr>"

section \<open>Loop bounds and weights\<close>

definition currentLowerMargin :: "int \<Rightarrow> int" where
  "currentLowerMargin supp = supp div 2 + 1 - (supp + 1) mod 2"

definition currentUpperMargin :: "int \<Rightarrow> int" where
  "currentUpperMargin supp = (supp + 1) div 2 + 1"

definition loopBegin :: "int \<Rightarrow> int" where
  "loopBegin supp = - currentLowerMargin supp"

definition loopEnd :: "int \<Rightarrow> int" where
  "loopEnd supp = loopBegin supp + supp + 1"

definition S0 :: "(real \<Rightarrow> real) \<Rightarrow> Line \<Rightarrow> int \<Rightarrow> nat \<Rightarrow> real" where
  "S0 ParticleAssign l gridPoint d = ParticleAssign (of_int gridPoint - pos0 l ! d)"

definition DS :: "(real \<Rightarrow> real) \<Rightarrow> Line \<Rightarrow> int \<Rightarrow> nat \<Rightarrow> real" where
  "DS ParticleAssign l gridPoint d =
     ParticleAssign (of_int gridPoint - pos1 l ! d) - ParticleAssign (of_int gridPoint - pos0 l ! d)"

definition lineOffset :: "Line \<Rightarrow> nat \<Rightarrow> int" where
  "lineOffset l d = (if pos0 l ! d > pos1 l ! d then 1 else 0)"

definition loopRange :: "int \<Rightarrow> Line \<Rightarrow> nat \<Rightarrow> int list" where
  "loopRange supp l d = [loopBegin supp + lineOffset l d..loopEnd supp + lineOffset l d - 1]"

section \<open>Deposition in three dimensions\<close>

definition weightXY :: "(real \<Rightarrow> real) \<Rightarrow> Line \<Rightarrow> int \<Rightarrow> int \<Rightarrow> real" where
  "weightXY P l i j =
     S0 P l i 0 * S0 P l j 1 + 0.5 * DS P l i 0 * S0 P l j 1 + 0.5 * S0 P l i 0 * DS P l j 1
     + (1 / 3) * DS P l i 0 * DS P l j 1"

fun depositColumn ::
    "(int \<Rightarrow> fieldRef) \<Rightarrow> (int \<Rightarrow> real) \<Rightarrow> real \<Rightarrow> int list \<Rightarrow> vectorField \<Rightarrow> vectorField" where
  "depositColumn ref increment accumulated_J [] J = J"
| "depositColumn ref increment accumulated_J (k # ks) J =
     (let accumulated_J = accumulated_J + increment k;
          J = (if accumulated_J \<noteq> 0 then atomicAdd (ref k) accumulated_J J else J)
      in depositColumn ref increment accumulated_J ks J)"

definition cptCurrent1D ::
    "Shape \<Rightarrow> 'u GridUnits_scheme \<Rightarrow> real \<Rightarrow> Cursor \<Rightarrow> Line \<Rightarrow> real \<Rightarrow> vectorField \<Rightarrow> vectorField" where
  "cptCurrent1D s u charge cursorJ l cellEdgeLength J =
     foldl (\<lambda>J i. foldl (\<lambda>J j.
         let tmp = weightXY (ChargeAssignment s) l i j
         in depositColumn (\<lambda>k. cursor_ref (cursor_jump cursorJ [i, j, k]) 2)
              (\<lambda>k. - charge * (1 / (CELL_VOLUME u * DELTA_T u)) * (DS (ChargeAssignment s) l k 2 * tmp) * cellEdgeLength)
              0 (loopRange (support s) l 2) J)
       J (loopRange (support s) l 1)) J (loopRange (support s) l 0)"

definition deposit3 :: "Shape \<Rightarrow> 'u GridUnits_scheme \<Rightarrow> real \<Rightarrow> Cursor \<Rightarrow> Line \<Rightarrow> vectorField \<Rightarrow> vectorField" where
  "deposit3 s u charge cursorJ l J =
     (let J = cptCurrent1D s u charge (twistVectorFieldAxes [1, 2, 0] cursorJ) (rotateLine [1, 2, 0] l) (cellSize u ! 0) J;
          J = cptCurrent1D s u charge (twistVectorFieldAxes [2, 0, 1] cursorJ) (rotateLine [2, 0, 1] l) (cellSize u ! 1) J
      in cptCurrent1D s u charge cursorJ l (cellSize u ! 2) J)"

definition coordinateShift :: "real vec \<Rightarrow> int vec" where
  "coordinateShift pos = map (\<lambda>p. \<lfloor>p * 2\<rfloor>) pos"

definition deltaPosition :: "'u GridUnits_scheme \<Rightarrow> real vec \<Rightarrow> real \<Rightarrow> nat \<Rightarrow> real vec" where
  "deltaPosition u velocity deltaTime n = map (\<lambda>d. velocity ! d * deltaTime / cellSize u ! d) [0..<n]"

definition Esirkepov3 ::
    "Shape \<Rightarrow> 'u GridUnits_scheme \<Rightarrow> DataSpace \<Rightarrow> real vec \<Rightarrow> real vec \<Rightarrow> real \<Rightarrow> real \<Rightarrow> vectorField \<Rightarrow> vectorField" where
  "Esirkepov3 s u cell pos velocity charge deltaTime J =
     (let oldPos = vec_sub pos (deltaPosition u velocity deltaTime 3);
          l = \<lparr>pos0 = oldPos, pos1 = pos\<rparr>;
          cursorJ = BufferCursor cell;
          odd = (support s mod 2 = 1);
          cursorJ = (if odd then cursor_jump cursorJ (coordinateShift pos) else cursorJ);
          l = (if odd then line_minus l (map of_int (coordinateShift pos)) else l)
      in deposit3 s u charge cursorJ l J)"

section \<open>Deposition in two dimensions\<close>

definition cptCurrent1D_2 ::
    "Shape \<Rightarrow> 'u GridUnits_scheme \<Rightarrow> real \<Rightarrow> Cursor \<Rightarrow> Line \<Rightarrow> real \<Rightarrow> vectorField \<Rightarrow> vectorField" where
  "cptCurrent1D_2 s u charge cursorJ l cellEdgeLength J =
     foldl (\<lambda>J j.
         let tmp = S0 (ChargeAssignment s) l j 1 + 0.5 * DS (ChargeAssignment s) l j 1
         in depositColumn (\<lambda>i. cursor_ref (cursor_jump cursorJ [i, j]) 0)
              (\<lambda>i. - charge * (1 / (CELL_VOLUME u * DELTA_T u)) * (DS (ChargeAssignment s) l i 0 * tmp) * cellEdgeLength)
              0 (loopRange (support s) l 0) J)
       J (loopRange (support s) l 1)"

definition cptCurrentZ ::
    "Shape \<Rightarrow> 'u GridUnits_scheme \<Rightarrow> real \<Rightarrow> Cursor \<Rightarrow> Line \<Rightarrow> real \<Rightarrow> vectorField \<Rightarrow> vectorField" where
  "cptCurrentZ s u charge cursorJ l v_z J =
     foldl (\<lambda>J j. foldl (\<lambda>J i.
         let j_z = charge * (1 / CELL_VOLUME u) * weightXY (ChargeAssignment s) l i j * v_z
         in if j_z \<noteq> 0 then atomicAdd (cursor_ref (cursor_jump cursorJ [i, j]) 2) j_z J else J)
       J (loopRange (support s) l 0)) J (loopRange (support s) l 1)"

definition deposit2 :: "Shape \<Rightarrow> 'u GridUnits_scheme \<Rightarrow> real \<Rightarrow> Cursor \<Rightarrow> Line \<Rightarrow> real \<Rightarrow> vectorField \<Rightarrow> vectorField" where
  "deposit2 s u charge cursorJ l v_z J =
     (let J = cptCurrent1D_2 s u charge cursorJ l (cellSize u ! 0) J;
          J = cptCurrent1D_2 s u charge (twistVectorFieldAxes [1, 0] cursorJ) (rotateLine [1, 0] l) (cellSize u ! 1) J
      in cptCurrentZ s u charge cursorJ l v_z J)"

definition Esirkepov2 ::
    "Shape \<Rightarrow> 'u GridUnits_scheme \<Rightarrow> DataSpace \<Rightarrow> real vec \<Rightarrow> real vec \<Rightarrow> real \<Rightarrow> real \<Rightarrow> vectorField \<Rightarrow> vectorField" where
  "Esirkepov2 s u cell pos velocity charge deltaTime J =
     (let oldPos = vec_sub pos (deltaPosition u velocity deltaTime 2);
          l = \<lparr>pos0 = oldPos, pos1 = pos\<rparr>;
          cursorJ = BufferCursor cell;
          odd = (support s mod 2 = 1);
          cursorJ = (if odd then cursor_jump cursorJ (coordinateShift pos) else cursorJ);
          l = (if odd then line_minus l (map of_int (coordinateShift pos)) else l)
      in deposit2 s u charge cursorJ l (velocity ! 2) J)"

section \<open>Folds as sums\<close>

lemma depositColumn_sum:
  "depositColumn ref inc acc ks J r =
     J r + sum_list (map (\<lambda>n. of_bool (ref (ks ! n) = r) * (acc + sum_list (map inc (take (Suc n) ks)))) [0..<length ks])"
proof (induction ks arbitrary: acc J)
  case (Cons k ks)
  have "sum_list (map (\<lambda>n. of_bool (ref ((k # ks) ! n) = r) * (acc + sum_list (map inc (take (Suc n) (k # ks))))) [0..<length (k # ks)])
    = of_bool (ref k = r) * (acc + inc k)
      + sum_list (map (\<lambda>n. of_bool (ref (ks ! n) = r) * (acc + inc k + sum_list (map inc (take (Suc n) ks)))) [0..<length ks])"
    unfolding length_Cons upt_conv_Cons [OF zero_less_Suc] map_Suc_upt [symmetric] by (simp add: o_def add.assoc)
  then show ?case by (simp add: Cons Let_def atomicAdd_def)
qed simp

lemma depositColumn_range:
  "depositColumn ref inc 0 [a..b] J r = J r + (\<Sum>k \<in> {a..b}. of_bool (ref k = r) * (\<Sum>k' \<in> {a..k}. inc k'))"
proof -
  have 1: "take (Suc n) [a..b] = [a..a + int n]" if "n < nat (b - a + 1)" for n
  proof (rule nth_equalityI)
    fix i assume "i < length (take (Suc n) [a..b])"
    then show "take (Suc n) [a..b] ! i = [a..a + int n] ! i" using that by (simp add: nth_upto)
  qed (use that in simp)
  have "sum_list (map (\<lambda>n. of_bool (ref ([a..b] ! n) = r) * (0 + sum_list (map inc (take (Suc n) [a..b])))) [0..<length [a..b]])
    = (\<Sum>n \<in> {0..<nat (b - a + 1)}. of_bool (ref (a + int n) = r) * (\<Sum>k' \<in> {a..a + int n}. inc k'))"
    unfolding interv_sum_list_conv_sum_set_nat set_upt length_upto
    by (rule sum.cong) (simp_all add: 1 nth_upto sum_list_upto)
  also have "\<dots> = (\<Sum>k \<in> {a..b}. of_bool (ref k = r) * (\<Sum>k' \<in> {a..k}. inc k'))"
    by (rule sum.reindex_bij_witness [of _ "\<lambda>k. nat (k - a)" "\<lambda>n. a + int n"]) auto
  finally show ?thesis unfolding depositColumn_sum by simp
qed

section \<open>Coverage of the loops\<close>

text \<open>
  \<open>axis_ok\<close>: along axis \<open>d\<close> the particle ends in its cell (for an odd support: next to the shifted
  origin) and moved by at most one cell. The loop then visits every grid point that the shape reaches at both ends.
\<close>

definition axis_ok :: "int \<Rightarrow> Line \<Rightarrow> nat \<Rightarrow> bool" where
  "axis_ok supp l d \<longleftrightarrow> \<bar>pos0 l ! d - pos1 l ! d\<bar> \<le> 1 \<and>
     (if supp mod 2 = 1 then - 1 / 2 \<le> pos1 l ! d \<and> pos1 l ! d < 1 / 2 else 0 \<le> pos1 l ! d \<and> pos1 l ! d < 1)"

definition loopFirst :: "int \<Rightarrow> Line \<Rightarrow> nat \<Rightarrow> int" where
  "loopFirst supp l d = loopBegin supp + lineOffset l d"

definition columnSum :: "(real \<Rightarrow> real) \<Rightarrow> int \<Rightarrow> Line \<Rightarrow> nat \<Rightarrow> int \<Rightarrow> real" where
  "columnSum P supp l d k = (\<Sum>k' \<in> {loopFirst supp l d..k}. DS P l k' d)"

lemma loopRange_alt: "loopRange supp l d = [loopFirst supp l d..loopFirst supp l d + supp]"
  by (simp add: loopRange_def loopFirst_def loopEnd_def algebra_simps)

lemma rotate_simps [simp]:
  assumes "d < length axes"
  shows "S0 P (rotateLine axes l) g d = S0 P l g (axes ! d)" "DS P (rotateLine axes l) g d = DS P l g (axes ! d)"
    "loopFirst supp (rotateLine axes l) d = loopFirst supp l (axes ! d)"
    "columnSum P supp (rotateLine axes l) d k = columnSum P supp l (axes ! d) k"
    "axis_ok supp (rotateLine axes l) d = axis_ok supp l (axes ! d)"
  using assms by (simp_all add: S0_def DS_def loopFirst_def lineOffset_def columnSum_def axis_ok_def rotateLine_def rotateOrigin_def)

lemma loop_covers:
  assumes "axis_ok supp l d" "q = pos0 l ! d \<or> q = pos1 l ! d"
  shows "of_int supp / 2 \<le> q - of_int (loopFirst supp l d) + 1"
    "of_int supp / 2 \<le> of_int (loopFirst supp l d + supp + 1) - q"
proof -
  have e: "loopFirst supp l d = (if supp mod 2 = 1 then - (supp div 2) - 1 else - (supp div 2)) + lineOffset l d"
    by (simp add: loopFirst_def loopBegin_def currentLowerMargin_def mod_add_eq) presburger
  have "of_int supp = 2 * (of_int (supp div 2) :: real) + of_int (supp mod 2)"
    by (metis div_mult_mod_eq mult.commute of_int_add of_int_mult of_int_numeral)
  moreover have "supp mod 2 = 0 \<or> supp mod 2 = 1" by auto
  ultimately show "of_int supp / 2 \<le> q - of_int (loopFirst supp l d) + 1"
    "of_int supp / 2 \<le> of_int (loopFirst supp l d + supp + 1) - q"
    using assms unfolding e axis_ok_def lineOffset_def by (auto simp: abs_le_iff)
qed

section \<open>Effect of one deposition\<close>

text \<open>The charge density that a particle contributes to a grid point.\<close>

definition chargeDensity :: "nat \<Rightarrow> Shape \<Rightarrow> 'u GridUnits_scheme \<Rightarrow> real \<Rightarrow> DataSpace \<Rightarrow> real vec \<Rightarrow> DataSpace \<Rightarrow> real" where
  "chargeDensity n s u charge cell pos g =
     charge / CELL_VOLUME u * (\<Prod>d \<in> {..<n}. ChargeAssignment s (of_int (g ! d - cell ! d) - pos ! d))"

text \<open>The decomposition of the change of a product into three parts.\<close>

lemma esirkepov_decomposition:
  fixes a b c da db dc :: real
  shows "da * (b * c + 0.5 * db * c + 0.5 * b * dc + 1 / 3 * db * dc) + db * (c * a + 0.5 * dc * a + 0.5 * c * da + 1 / 3 * dc * da)
    + dc * (a * b + 0.5 * da * b + 0.5 * a * db + 1 / 3 * da * db) = (a + da) * (b + db) * (c + dc) - a * b * c"
  by (simp add: field_simps)

lemmas cursor_simps = twistVectorFieldAxes_def vec_add_def vec_add_assign_def

locale deposit_shape = assignment_shape "ChargeAssignment s" "support s" for s :: Shape
begin

abbreviation P :: "real \<Rightarrow> real" where "P \<equiv> ChargeAssignment s"

abbreviation first :: "Line \<Rightarrow> nat \<Rightarrow> int" where "first \<equiv> loopFirst (support s)"

lemma outside:
  assumes "axis_ok (support s) l d" "g \<notin> {first l d..first l d + support s}"
  shows "S0 P l g d = 0" "DS P l g d = 0"
proof -
  have "P (of_int g - q) = 0" if q: "q = pos0 l ! d \<or> q = pos1 l ! d" for q
  proof (rule vanish)
    have "of_int g \<le> (of_int (first l d) :: real) - 1 \<or> (of_int (first l d + support s + 1) :: real) \<le> of_int g"
      using assms(2) by force
    then show "of_int (support s) / 2 \<le> \<bar>of_int g - q\<bar>" using loop_covers [OF assms(1) q] by linarith
  qed
  then show "S0 P l g d = 0" "DS P l g d = 0" by (simp_all add: S0_def DS_def)
qed

lemma column_total:
  assumes "axis_ok (support s) l d"
  shows "(\<Sum>g \<in> {first l d..first l d + support s}. S0 P l g d) = 1" "columnSum P (support s) l d (first l d + support s) = 0"
proof -
  have e: "{first l d..first l d + support s} = {first l d..<first l d + support s + 1}" by auto
  have "(\<Sum>g \<in> {first l d..first l d + support s}. P (of_int g - q)) = 1" if "q = pos0 l ! d \<or> q = pos1 l ! d" for q
    unfolding e using loop_covers [OF assms that] by (intro unity_window) auto
  then show "(\<Sum>g \<in> {first l d..first l d + support s}. S0 P l g d) = 1" "columnSum P (support s) l d (first l d + support s) = 0"
    by (simp_all add: S0_def DS_def columnSum_def sum_subtractf)
qed

lemma columnSum_outside:
  assumes "axis_ok (support s) l d" "k \<notin> {first l d..first l d + support s}"
  shows "columnSum P (support s) l d k = 0"
proof (cases "k < first l d")
  case False
  then have "{first l d..first l d + support s} \<subseteq> {first l d..k}" using assms(2) by auto
  then have "columnSum P (support s) l d k = columnSum P (support s) l d (first l d + support s)"
    unfolding columnSum_def using outside(2) [OF assms(1)] by (intro sum.mono_neutral_right) auto
  then show ?thesis using column_total [OF assms(1)] by simp
qed (simp add: columnSum_def)

lemma columnSum_step:
  assumes "axis_ok (support s) l d"
  shows "columnSum P (support s) l d k - columnSum P (support s) l d (k - 1) = DS P l k d"
proof (cases "k < first l d")
  case True
  then show ?thesis using outside(2) [OF assms, of k] by (simp add: columnSum_def)
next
  case False
  then have "{first l d..k} = insert k {first l d..k - 1}" by auto
  then show ?thesis by (simp add: columnSum_def)
qed

lemma weightXY_outside:
  assumes "axis_ok (support s) l 0" "axis_ok (support s) l 1"
    and "i \<notin> {first l 0..first l 0 + support s} \<or> j \<notin> {first l 1..first l 1 + support s}"
  shows "weightXY P l i j = 0"
  using assms(3) outside [OF assms(1)] outside [OF assms(2)] by (auto simp: weightXY_def)

lemma cptCurrent1D_sum:
  "cptCurrent1D s u q c l e J r = J r + (\<Sum>i \<in> {first l 0..first l 0 + support s}. \<Sum>j \<in> {first l 1..first l 1 + support s}.
     \<Sum>k \<in> {first l 2..first l 2 + support s}. of_bool (cursor_ref (cursor_jump c [i, j, k]) 2 = r) *
       (- q * (1 / (CELL_VOLUME u * DELTA_T u)) * (columnSum P (support s) l 2 k * weightXY P l i j) * e))"
proof -
  have *: "(\<Sum>k' \<in> {a..k}. A * (DS P l k' 2 * w) * e) = A * ((\<Sum>k' \<in> {a..k}. DS P l k' 2) * w) * e" for A w a k
    by (simp add: sum_distrib_left sum_distrib_right)
  show ?thesis unfolding cptCurrent1D_def loopRange_alt Let_def
    by (subst foldl_additive, rule foldl_additive, rule depositColumn_range)
      (simp only: sum_list_upto * columnSum_def)
qed

lemma sum_triple_delta:
  assumes "finite A" "finite B" "finite C"
  shows "(\<Sum>i \<in> A. \<Sum>j \<in> B. \<Sum>k \<in> C. of_bool (i = i0 \<and> j = j0 \<and> k = k0) * X i j k) =
    (of_bool (i0 \<in> A \<and> j0 \<in> B \<and> k0 \<in> C) * X i0 j0 k0 :: real)"
proof -
  have k: "(\<Sum>k \<in> C. of_bool (i = i0 \<and> j = j0 \<and> k = k0) * X i j k) =
      (if j = j0 then if i = i0 then of_bool (k0 \<in> C) * X i j k0 else 0 else 0)" for i j
  proof -
    have "(\<Sum>k \<in> C. of_bool (i = i0 \<and> j = j0 \<and> k = k0) * X i j k) =
      (\<Sum>k \<in> C. if k = k0 then of_bool (i = i0 \<and> j = j0) * X i j k else 0)" by (rule sum.cong) auto
    then show ?thesis using assms(3) by simp
  qed
  show ?thesis unfolding k using assms(1,2) by (cases "j0 \<in> B"; cases "k0 \<in> C") simp_all
qed

lemma cptCurrent1D_at:
  assumes ok: "axis_ok (support s) l 0" "axis_ok (support s) l 1" "axis_ok (support s) l 2"
    and inj: "\<And>i j k. (cursor_ref (cursor_jump c [i, j, k]) 2 = r) = (i = i0 \<and> j = j0 \<and> k = k0)"
  shows "cptCurrent1D s u q c l e J r =
    J r + - q * (1 / (CELL_VOLUME u * DELTA_T u)) * (columnSum P (support s) l 2 k0 * weightXY P l i0 j0) * e"
  using weightXY_outside [OF ok(1,2)] columnSum_outside [OF ok(3)]
  unfolding cptCurrent1D_sum inj by (subst sum_triple_delta) auto

lemma cptCurrent1D_other:
  assumes "\<And>i j k. cursor_ref (cursor_jump c [i, j, k]) 2 \<noteq> r"
  shows "cptCurrent1D s u q c l e J r = J r"
  unfolding cptCurrent1D_sum using assms by simp

lemma cptCurrent1D_components:
  "d \<noteq> 2 \<Longrightarrow> cptCurrent1D s u q (BufferCursor p) l e J (g, d) = J (g, d)"
  "d \<noteq> 0 \<Longrightarrow> cptCurrent1D s u q (twistVectorFieldAxes [1, 2, 0] (BufferCursor p)) l e J (g, d) = J (g, d)"
  "d \<noteq> 1 \<Longrightarrow> cptCurrent1D s u q (twistVectorFieldAxes [2, 0, 1] (BufferCursor p)) l e J (g, d) = J (g, d)"
  by (rule cptCurrent1D_other, simp add: cursor_simps)+

lemma deposit3_x:
  assumes ok: "axis_ok (support s) l 0" "axis_ok (support s) l 1" "axis_ok (support s) l 2"
  shows "deposit3 s u q (BufferCursor [a, b, c]) l J ([x, y, z], 0) = J ([x, y, z], 0) - q / (CELL_VOLUME u * DELTA_T u) *
    (columnSum P (support s) l 0 (x - a) * weightXY P (rotateLine [1, 2, 0] l) (y - b) (z - c)) * cellSize u ! 0"
proof -
  let ?t = "twistVectorFieldAxes [1, 2, 0] (BufferCursor [a, b, c])"
  have "cptCurrent1D s u q ?t (rotateLine [1, 2, 0] l) e J ([x, y, z], 0) = J ([x, y, z], 0) +
    - q * (1 / (CELL_VOLUME u * DELTA_T u)) * (columnSum P (support s) (rotateLine [1, 2, 0] l) 2 (x - a) *
      weightXY P (rotateLine [1, 2, 0] l) (y - b) (z - c)) * e" for e
    by (rule cptCurrent1D_at) (use ok in \<open>auto simp: cursor_simps\<close>)
  then show ?thesis unfolding deposit3_def Let_def by (simp add: cptCurrent1D_components del: One_nat_def)
qed

lemma deposit3_y:
  assumes ok: "axis_ok (support s) l 0" "axis_ok (support s) l 1" "axis_ok (support s) l 2"
  shows "deposit3 s u q (BufferCursor [a, b, c]) l J ([x, y, z], 1) = J ([x, y, z], 1) - q / (CELL_VOLUME u * DELTA_T u) *
    (columnSum P (support s) l 1 (y - b) * weightXY P (rotateLine [2, 0, 1] l) (z - c) (x - a)) * cellSize u ! 1"
proof -
  let ?t = "twistVectorFieldAxes [2, 0, 1] (BufferCursor [a, b, c])"
  have "cptCurrent1D s u q ?t (rotateLine [2, 0, 1] l) e K ([x, y, z], 1) = K ([x, y, z], 1) +
    - q * (1 / (CELL_VOLUME u * DELTA_T u)) * (columnSum P (support s) (rotateLine [2, 0, 1] l) 2 (y - b) *
      weightXY P (rotateLine [2, 0, 1] l) (z - c) (x - a)) * e" for e K
    by (rule cptCurrent1D_at) (use ok in \<open>auto simp: cursor_simps\<close>)
  then show ?thesis unfolding deposit3_def Let_def by (simp add: cptCurrent1D_components del: One_nat_def)
qed

lemma deposit3_z:
  assumes ok: "axis_ok (support s) l 0" "axis_ok (support s) l 1" "axis_ok (support s) l 2"
  shows "deposit3 s u q (BufferCursor [a, b, c]) l J ([x, y, z], 2) = J ([x, y, z], 2) - q / (CELL_VOLUME u * DELTA_T u) *
    (columnSum P (support s) l 2 (z - c) * weightXY P l (x - a) (y - b)) * cellSize u ! 2"
proof -
  have "cptCurrent1D s u q (BufferCursor [a, b, c]) l e K ([x, y, z], 2) = K ([x, y, z], 2) +
    - q * (1 / (CELL_VOLUME u * DELTA_T u)) * (columnSum P (support s) l 2 (z - c) * weightXY P l (x - a) (y - b)) * e" for e K
    by (rule cptCurrent1D_at) (use ok in \<open>auto simp: cursor_simps\<close>)
  then show ?thesis unfolding deposit3_def Let_def by (simp add: cptCurrent1D_components del: One_nat_def)
qed

lemma deposit3_divergence:
  assumes ok: "axis_ok (support s) l 0" "axis_ok (support s) l 1" "axis_ok (support s) l 2"
    and u: "cellSize u ! 0 \<noteq> 0" "cellSize u ! 1 \<noteq> 0" "cellSize u ! 2 \<noteq> 0"
  shows "divergence 3 u (\<lambda>r. deposit3 s u q (BufferCursor [a, b, c]) l J r - J r) [x, y, z] =
    - q / (CELL_VOLUME u * DELTA_T u) *
      ((S0 P l (x - a) 0 + DS P l (x - a) 0) * (S0 P l (y - b) 1 + DS P l (y - b) 1) * (S0 P l (z - c) 2 + DS P l (z - c) 2)
       - S0 P l (x - a) 0 * S0 P l (y - b) 1 * S0 P l (z - c) 2)"
proof -
  let ?C = "q / (CELL_VOLUME u * DELTA_T u)"
  have dx: "((A - C * (c1 * w) * e) - A - ((B - C * (c0 * w) * e) - B)) / e = - C * ((c1 - c0) * w)" if "e \<noteq> 0" for A B C c1 c0 w e :: real
    using that by (simp add: field_simps)
  have st: "columnSum P (support s) l d (k - m) - columnSum P (support s) l d (k - 1 - m) = DS P l (k - m) d" if "d \<in> {0, 1, 2}" for d k m
  proof -
    have e: "k - 1 - m = k - m - 1" by simp
    show ?thesis unfolding e using columnSum_step [of l d "k - m"] ok that by auto
  qed
  have "divergence 3 u (\<lambda>r. deposit3 s u q (BufferCursor [a, b, c]) l J r - J r) [x, y, z] =
      - ?C * (DS P l (x - a) 0 * weightXY P (rotateLine [1, 2, 0] l) (y - b) (z - c)
      + DS P l (y - b) 1 * weightXY P (rotateLine [2, 0, 1] l) (z - c) (x - a) + DS P l (z - c) 2 * weightXY P l (x - a) (y - b))"
    unfolding divergence3 deposit3_x [OF ok] deposit3_y [OF ok] deposit3_z [OF ok] dx [OF u(1)] dx [OF u(2)] dx [OF u(3)]
    by (simp only: st insert_iff distrib_left refl simp_thms)
  then show ?thesis
    by (simp add: weightXY_def esirkepov_decomposition [simplified] del: One_nat_def)
qed

lemma shifted_axis:
  assumes "d < length pos" "length old = length pos" "\<bar>old ! d - pos ! d\<bar> \<le> 1" "0 \<le> pos ! d" "pos ! d < 1"
  shows "axis_ok (support s) (if support s mod 2 = 1 then line_minus \<lparr>pos0 = old, pos1 = pos\<rparr> (map of_int (coordinateShift pos)) else \<lparr>pos0 = old, pos1 = pos\<rparr>) d"
proof -
  consider "\<lfloor>pos ! d * 2\<rfloor> = 0" "pos ! d * 2 < 1" | "\<lfloor>pos ! d * 2\<rfloor> = 1" "1 \<le> pos ! d * 2"
    using assms(4,5) by linarith
  then show ?thesis using assms
    by cases (auto simp: axis_ok_def line_minus_def vec_sub_def vec_sub_assign_def coordinateShift_def)
qed

lemma moved_at_most_one_cell:
  assumes "0 < c" "\<bar>v * t\<bar> \<le> c"
  shows "\<bar>p - v * t / c - p\<bar> \<le> (1 :: real)"
  using assms by (simp add: divide_le_eq)

lemma Esirkepov3_div:
  assumes u: "\<forall>d < 3. 0 < cellSize u ! d" and len: "length pos = 3" "length cell = 3" "length g = 3"
    and pos: "\<forall>d < 3. 0 \<le> pos ! d \<and> pos ! d < 1"
    and v: "\<forall>d < 3. \<bar>velocity ! d * deltaTime\<bar> \<le> cellSize u ! d"
  shows "divergence 3 u (\<lambda>r. Esirkepov3 s u cell pos velocity q deltaTime J r - J r) g =
    - (chargeDensity 3 s u q cell pos g
       - chargeDensity 3 s u q cell (vec_sub pos (deltaPosition u velocity deltaTime 3)) g) / DELTA_T u"
proof -
  define old where "old = vec_sub pos (deltaPosition u velocity deltaTime 3)"
  have old: "length old = 3" "\<bar>old ! d - pos ! d\<bar> \<le> 1" if "d < 3" for d
    using that len v u moved_at_most_one_cell [of "cellSize u ! d" "velocity ! d" deltaTime "pos ! d"]
    by (simp_all add: old_def vec_sub_def vec_sub_assign_def deltaPosition_def)
  define l where "l = (if support s mod 2 = 1 then line_minus \<lparr>pos0 = old, pos1 = pos\<rparr> (map of_int (coordinateShift pos)) else \<lparr>pos0 = old, pos1 = pos\<rparr>)"
  define p where "p = (if support s mod 2 = 1 then vec_add cell (coordinateShift pos) else cell)"
  have E: "Esirkepov3 s u cell pos velocity q deltaTime J = deposit3 s u q (BufferCursor p) l J"
    unfolding Esirkepov3_def Let_def old_def [symmetric] l_def p_def by (cases "support s mod 2 = 1") simp_all
  have ok: "axis_ok (support s) l d" if "d < 3" for d
    unfolding l_def using shifted_axis [of d pos old] that len old pos by simp
  have lp: "length p = 3" using len by (simp add: p_def vec_add_def vec_add_assign_def coordinateShift_def)
  have S: "S0 P l (g ! d - p ! d) d = P (of_int (g ! d - cell ! d) - old ! d)"
    "S0 P l (g ! d - p ! d) d + DS P l (g ! d - p ! d) d = P (of_int (g ! d - cell ! d) - pos ! d)" if "d < 3" for d
    using that len old by (simp_all add: S0_def DS_def l_def p_def line_minus_def vec_sub_def vec_sub_assign_def
        vec_add_def vec_add_assign_def coordinateShift_def algebra_simps)
  obtain a b c where pe: "p = [a, b, c]" using lp by (auto simp: numeral_3_eq_3 length_Suc_conv)
  obtain x y z where ge: "g = [x, y, z]" using len(3) by (auto simp: numeral_3_eq_3 length_Suc_conv)
  have u': "cellSize u ! 0 \<noteq> 0" "cellSize u ! 1 \<noteq> 0" "cellSize u ! 2 \<noteq> 0" using u [rule_format, of 0] u [rule_format, of 1] u [rule_format, of 2] by auto
  have pr: "(\<Prod>d \<in> {..<3 :: nat}. F d) = F 0 * F 1 * F 2" for F :: "nat \<Rightarrow> real"
    by (simp add: numeral_3_eq_3 numeral_2_eq_2)
  have "divergence 3 u (\<lambda>r. deposit3 s u q (BufferCursor p) l J r - J r) g = - q / (CELL_VOLUME u * DELTA_T u) *
      ((\<Prod>d \<in> {..<3}. P (of_int (g ! d - cell ! d) - pos ! d)) - (\<Prod>d \<in> {..<3}. P (of_int (g ! d - cell ! d) - old ! d)))"
    using deposit3_divergence [OF ok ok ok u', of q a b c J x y z] S [of 0] S [of 1] S [of 2]
    unfolding pr by (simp add: pe ge)
  then show ?thesis
    unfolding E chargeDensity_def old_def [symmetric] by (simp add: diff_divide_distrib right_diff_distrib)
qed

lemma cptCurrent1D_2_sum:
  "cptCurrent1D_2 s u q c l e J r = J r + (\<Sum>j \<in> {first l 1..first l 1 + support s}.
     \<Sum>k \<in> {first l 0..first l 0 + support s}. of_bool (cursor_ref (cursor_jump c [k, j]) 0 = r) *
       (- q * (1 / (CELL_VOLUME u * DELTA_T u)) * (columnSum P (support s) l 0 k * (S0 P l j 1 + 0.5 * DS P l j 1)) * e))"
proof -
  have *: "(\<Sum>k' \<in> {a..k}. A * (DS P l k' 0 * w) * e) = A * ((\<Sum>k' \<in> {a..k}. DS P l k' 0) * w) * e" for A w a k
    by (simp add: sum_distrib_left sum_distrib_right)
  show ?thesis unfolding cptCurrent1D_2_def loopRange_alt Let_def
    by (subst foldl_additive, rule depositColumn_range) (simp only: sum_list_upto * columnSum_def)
qed

lemma cptCurrentZ_sum:
  "cptCurrentZ s u q c l v J r = J r + (\<Sum>j \<in> {first l 1..first l 1 + support s}. \<Sum>i \<in> {first l 0..first l 0 + support s}.
     of_bool (cursor_ref (cursor_jump c [i, j]) 2 = r) * (q * (1 / CELL_VOLUME u) * weightXY P l i j * v))"
proof -
  have *: "(if w \<noteq> 0 then atomicAdd r' w J else J) r = J r + of_bool (r' = r) * w" for w J r'
    by (simp add: atomicAdd_def)
  show ?thesis unfolding cptCurrentZ_def loopRange_alt Let_def
    by (subst foldl_additive, rule foldl_additive, rule *) (simp only: sum_list_upto)
qed

lemma sum_pair_delta:
  assumes "finite A" "finite B"
  shows "(\<Sum>j \<in> A. \<Sum>k \<in> B. of_bool (k = k0 \<and> j = j0) * X j k) = (of_bool (j0 \<in> A \<and> k0 \<in> B) * X j0 k0 :: real)"
proof -
  have k: "(\<Sum>k \<in> B. of_bool (k = k0 \<and> j = j0) * X j k) = (if j = j0 then of_bool (k0 \<in> B) * X j k0 else 0)" for j
  proof -
    have "(\<Sum>k \<in> B. of_bool (k = k0 \<and> j = j0) * X j k) = (\<Sum>k \<in> B. if k = k0 then of_bool (j = j0) * X j k else 0)"
      by (rule sum.cong) auto
    then show ?thesis using assms(2) by simp
  qed
  show ?thesis unfolding k using assms(1) by (cases "k0 \<in> B") simp_all
qed

lemma cptCurrent1D_2_at:
  assumes ok: "axis_ok (support s) l 0" "axis_ok (support s) l 1"
    and inj: "\<And>j k. (cursor_ref (cursor_jump c [k, j]) 0 = r) = (k = k0 \<and> j = j0)"
  shows "cptCurrent1D_2 s u q c l e J r = J r - q / (CELL_VOLUME u * DELTA_T u) *
    (columnSum P (support s) l 0 k0 * (S0 P l j0 1 + 0.5 * DS P l j0 1)) * e"
proof (cases "j0 \<in> {first l 1..first l 1 + support s}")
  case True
  then show ?thesis using columnSum_outside [OF ok(1)] unfolding cptCurrent1D_2_sum inj by (subst sum_pair_delta) auto
next
  case False
  then show ?thesis using outside [OF ok(2)] unfolding cptCurrent1D_2_sum inj by (subst sum_pair_delta) auto
qed

lemma deposit2_xy:
  assumes ok: "axis_ok (support s) l 0" "axis_ok (support s) l 1"
  shows "deposit2 s u q (BufferCursor [a, b]) l v J ([x, y], 0) = J ([x, y], 0) - q / (CELL_VOLUME u * DELTA_T u) *
      (columnSum P (support s) l 0 (x - a) * (S0 P l (y - b) 1 + 0.5 * DS P l (y - b) 1)) * cellSize u ! 0"
    "deposit2 s u q (BufferCursor [a, b]) l v J ([x, y], 1) = J ([x, y], 1) - q / (CELL_VOLUME u * DELTA_T u) *
      (columnSum P (support s) l 1 (y - b) * (S0 P l (x - a) 0 + 0.5 * DS P l (x - a) 0)) * cellSize u ! 1"
proof -
  have z: "cptCurrentZ s u q (BufferCursor [a, b]) l v K ([x, y], d) = K ([x, y], d)" if "d \<noteq> 2" for K d
    unfolding cptCurrentZ_sum using that by (simp add: cursor_simps)
  have o: "cptCurrent1D_2 s u q (BufferCursor [a, b]) l e K ([x, y], 1) = K ([x, y], 1)"
    "cptCurrent1D_2 s u q (twistVectorFieldAxes [1, 0] (BufferCursor [a, b])) (rotateLine [1, 0] l) e K ([x, y], 0) = K ([x, y], 0)" for e K
    unfolding cptCurrent1D_2_sum by (simp_all add: cursor_simps)
  have "cptCurrent1D_2 s u q (BufferCursor [a, b]) l e K ([x, y], 0) = K ([x, y], 0) - q / (CELL_VOLUME u * DELTA_T u) *
      (columnSum P (support s) l 0 (x - a) * (S0 P l (y - b) 1 + 0.5 * DS P l (y - b) 1)) * e" for e K
    by (rule cptCurrent1D_2_at) (use ok in \<open>auto simp: cursor_simps\<close>)
  moreover have "cptCurrent1D_2 s u q (twistVectorFieldAxes [1, 0] (BufferCursor [a, b])) (rotateLine [1, 0] l) e K ([x, y], 1) =
      K ([x, y], 1) - q / (CELL_VOLUME u * DELTA_T u) * (columnSum P (support s) (rotateLine [1, 0] l) 0 (y - b) *
      (S0 P (rotateLine [1, 0] l) (x - a) 1 + 0.5 * DS P (rotateLine [1, 0] l) (x - a) 1)) * e" for e K
    by (rule cptCurrent1D_2_at) (use ok in \<open>auto simp: cursor_simps\<close>)
  ultimately show "deposit2 s u q (BufferCursor [a, b]) l v J ([x, y], 0) = J ([x, y], 0) - q / (CELL_VOLUME u * DELTA_T u) *
      (columnSum P (support s) l 0 (x - a) * (S0 P l (y - b) 1 + 0.5 * DS P l (y - b) 1)) * cellSize u ! 0"
    "deposit2 s u q (BufferCursor [a, b]) l v J ([x, y], 1) = J ([x, y], 1) - q / (CELL_VOLUME u * DELTA_T u) *
      (columnSum P (support s) l 1 (y - b) * (S0 P l (x - a) 0 + 0.5 * DS P l (x - a) 0)) * cellSize u ! 1"
    unfolding deposit2_def Let_def by (simp_all add: z o del: One_nat_def)
qed

lemma deposit2_divergence:
  assumes ok: "axis_ok (support s) l 0" "axis_ok (support s) l 1" and u: "cellSize u ! 0 \<noteq> 0" "cellSize u ! 1 \<noteq> 0"
  shows "divergence 2 u (\<lambda>r. deposit2 s u q (BufferCursor [a, b]) l v J r - J r) [x, y] =
    - q / (CELL_VOLUME u * DELTA_T u) *
      ((S0 P l (x - a) 0 + DS P l (x - a) 0) * (S0 P l (y - b) 1 + DS P l (y - b) 1) - S0 P l (x - a) 0 * S0 P l (y - b) 1)"
proof -
  let ?C = "q / (CELL_VOLUME u * DELTA_T u)"
  have dx: "((A - C * (c1 * w) * e) - A - ((B - C * (c0 * w) * e) - B)) / e = - C * ((c1 - c0) * w)" if "e \<noteq> 0" for A B C c1 c0 w e :: real
    using that by (simp add: field_simps)
  have st: "columnSum P (support s) l d (k - m) - columnSum P (support s) l d (k - 1 - m) = DS P l (k - m) d" if "d \<in> {0, 1}" for d k m
  proof -
    have e: "k - 1 - m = k - m - 1" by simp
    show ?thesis unfolding e using columnSum_step [of l d "k - m"] ok that by auto
  qed
  have "divergence 2 u (\<lambda>r. deposit2 s u q (BufferCursor [a, b]) l v J r - J r) [x, y] =
      - ?C * (DS P l (x - a) 0 * (S0 P l (y - b) 1 + 0.5 * DS P l (y - b) 1) + DS P l (y - b) 1 * (S0 P l (x - a) 0 + 0.5 * DS P l (x - a) 0))"
    unfolding divergence2 deposit2_xy [OF ok] dx [OF u(1)] dx [OF u(2)] by (simp only: st insert_iff distrib_left refl simp_thms)
  also have "\<dots> = - ?C * ((S0 P l (x - a) 0 + DS P l (x - a) 0) * (S0 P l (y - b) 1 + DS P l (y - b) 1) - S0 P l (x - a) 0 * S0 P l (y - b) 1)"
    by (rule arg_cong [where f = "\<lambda>w. - ?C * w"]) (simp add: field_simps)
  finally show ?thesis by simp
qed

lemma Esirkepov2_div:
  assumes u: "\<forall>d < 2. 0 < cellSize u ! d" and len: "length pos = 2" "length cell = 2" "length g = 2"
    and pos: "\<forall>d < 2. 0 \<le> pos ! d \<and> pos ! d < 1"
    and v: "\<forall>d < 2. \<bar>velocity ! d * deltaTime\<bar> \<le> cellSize u ! d"
  shows "divergence 2 u (\<lambda>r. Esirkepov2 s u cell pos velocity q deltaTime J r - J r) g =
    - (chargeDensity 2 s u q cell pos g
       - chargeDensity 2 s u q cell (vec_sub pos (deltaPosition u velocity deltaTime 2)) g) / DELTA_T u"
proof -
  define old where "old = vec_sub pos (deltaPosition u velocity deltaTime 2)"
  have old: "length old = 2" "\<bar>old ! d - pos ! d\<bar> \<le> 1" if "d < 2" for d
    using that len v u moved_at_most_one_cell [of "cellSize u ! d" "velocity ! d" deltaTime "pos ! d"]
    by (simp_all add: old_def vec_sub_def vec_sub_assign_def deltaPosition_def)
  define l where "l = (if support s mod 2 = 1 then line_minus \<lparr>pos0 = old, pos1 = pos\<rparr> (map of_int (coordinateShift pos)) else \<lparr>pos0 = old, pos1 = pos\<rparr>)"
  define p where "p = (if support s mod 2 = 1 then vec_add cell (coordinateShift pos) else cell)"
  have E: "Esirkepov2 s u cell pos velocity q deltaTime J = deposit2 s u q (BufferCursor p) l (velocity ! 2) J"
    unfolding Esirkepov2_def Let_def old_def [symmetric] l_def p_def by (cases "support s mod 2 = 1") simp_all
  have ok: "axis_ok (support s) l d" if "d < 2" for d
    unfolding l_def using shifted_axis [of d pos old] that len old pos by simp
  have lp: "length p = 2" using len by (simp add: p_def vec_add_def vec_add_assign_def coordinateShift_def)
  have S: "S0 P l (g ! d - p ! d) d = P (of_int (g ! d - cell ! d) - old ! d)"
    "S0 P l (g ! d - p ! d) d + DS P l (g ! d - p ! d) d = P (of_int (g ! d - cell ! d) - pos ! d)" if "d < 2" for d
    using that len old by (simp_all add: S0_def DS_def l_def p_def line_minus_def vec_sub_def vec_sub_assign_def
        vec_add_def vec_add_assign_def coordinateShift_def algebra_simps)
  obtain a b where pe: "p = [a, b]" using lp by (auto simp: numeral_2_eq_2 length_Suc_conv)
  obtain x y where ge: "g = [x, y]" using len(3) by (auto simp: numeral_2_eq_2 length_Suc_conv)
  have u': "cellSize u ! 0 \<noteq> 0" "cellSize u ! 1 \<noteq> 0" using u [rule_format, of 0] u [rule_format, of 1] by auto
  have pr: "(\<Prod>d \<in> {..<2 :: nat}. F d) = F 0 * F 1" for F :: "nat \<Rightarrow> real" by (simp add: numeral_2_eq_2)
  have "divergence 2 u (\<lambda>r. deposit2 s u q (BufferCursor p) l (velocity ! 2) J r - J r) g = - q / (CELL_VOLUME u * DELTA_T u) *
      ((\<Prod>d \<in> {..<2}. P (of_int (g ! d - cell ! d) - pos ! d)) - (\<Prod>d \<in> {..<2}. P (of_int (g ! d - cell ! d) - old ! d)))"
    using deposit2_divergence [OF ok ok u', of q a b "velocity ! 2" J x y] S [of 0] S [of 1]
    unfolding pr by (simp add: pe ge)
  then show ?thesis
    unfolding E chargeDensity_def old_def [symmetric] by (simp add: diff_divide_distrib right_diff_distrib)
qed

end

interpretation CIC_deposit: deposit_shape CIC
  unfolding deposit_shape_def CIC_def by (simp add: CIC_shape.assignment_shape_axioms)

interpretation TSC_deposit: deposit_shape TSC
  unfolding deposit_shape_def TSC_def by (simp add: TSC_shape.assignment_shape_axioms)

interpretation PCS_deposit: deposit_shape PCS
  unfolding deposit_shape_def PCS_def by (simp add: PCS_shape.assignment_shape_axioms)

interpretation P4S_deposit: deposit_shape P4S
  unfolding deposit_shape_def P4S_def by (simp add: P4S_shape.assignment_shape_axioms)

lemma Esirkepov3_div_shapes:
  assumes "s \<in> {CIC, TSC, PCS, P4S}" "\<forall>d < 3. 0 < cellSize u ! d"
    and "length pos = 3" "length cell = 3" "length g = 3" "\<forall>d < 3. 0 \<le> pos ! d \<and> pos ! d < 1"
    and "\<forall>d < 3. \<bar>velocity ! d * deltaTime\<bar> \<le> cellSize u ! d"
  shows "divergence 3 u (\<lambda>r. Esirkepov3 s u cell pos velocity q deltaTime J r - J r) g =
    - (chargeDensity 3 s u q cell pos g
       - chargeDensity 3 s u q cell (vec_sub pos (deltaPosition u velocity deltaTime 3)) g) / DELTA_T u"
proof -
  from assms(1) consider "s = CIC" | "s = TSC" | "s = PCS" | "s = P4S" by blast
  then show ?thesis
  proof cases
    case 1 show ?thesis unfolding 1 by (rule CIC_deposit.Esirkepov3_div [OF assms(2-)])
  next
    case 2 show ?thesis unfolding 2 by (rule TSC_deposit.Esirkepov3_div [OF assms(2-)])
  next
    case 3 show ?thesis unfolding 3 by (rule PCS_deposit.Esirkepov3_div [OF assms(2-)])
  next
    case 4 show ?thesis unfolding 4 by (rule P4S_deposit.Esirkepov3_div [OF assms(2-)])
  qed
qed

section \<open>Properties\<close>

text \<open>
  C14. Charge conservation in three dimensions. For each of the continuous shapes, a particle that
  ends inside of its cell and moved by at most one cell along each axis deposits a current whose discrete divergence
  at every grid point is the negative rate of change of the charge density that the shape assigns
  to that point before and after the move. The deposited current is what the code adds to any
  previous field.
\<close>
theorem Esirkepov3_conserves_charge:
  assumes "s \<in> {CIC, TSC, PCS, P4S}" "\<forall>d < 3. 0 < cellSize u ! d"
    and "length pos = 3" "length cell = 3" "length g = 3" "\<forall>d < 3. 0 \<le> pos ! d \<and> pos ! d < 1"
    and "\<forall>d < 3. \<bar>velocity ! d * deltaTime\<bar> \<le> cellSize u ! d"
  shows "divergence 3 u (\<lambda>r. Esirkepov3 s u cell pos velocity q deltaTime J r - J r) g =
    - (chargeDensity 3 s u q cell pos g
       - chargeDensity 3 s u q cell (vec_sub pos (deltaPosition u velocity deltaTime 3)) g) / DELTA_T u"
  using assms by (rule Esirkepov3_div_shapes)

definition sampleUnits :: GridUnits where
  "sampleUnits = \<lparr>cellSize = [2, 1, 4], DELTA_T = 1 / 2\<rparr>"

theorem Esirkepov3_conserves_charge_witness:
  "divergence 3 sampleUnits (\<lambda>r. Esirkepov3 CIC sampleUnits [5, 6, 7] [1 / 2, 1 / 4, 0] [1, 0, 2] 3 (1 / 2) (\<lambda>_. 0) r - 0) [5, 6, 7] =
    - (chargeDensity 3 CIC sampleUnits 3 [5, 6, 7] [1 / 2, 1 / 4, 0] [5, 6, 7]
       - chargeDensity 3 CIC sampleUnits 3 [5, 6, 7] [1 / 4, 1 / 4, - 1 / 4] [5, 6, 7]) / (1 / 2)"
proof -
  have all3: "(\<forall>d < 3. Q d) = (Q 0 \<and> Q 1 \<and> Q (2 :: nat))" for Q by (auto simp: numeral_3_eq_3 numeral_2_eq_2 less_Suc_eq)
  have "vec_sub [1 / 2, 1 / 4, 0] (deltaPosition sampleUnits [1, 0, 2] (1 / 2) 3) = [1 / 4, 1 / 4, - 1 / 4]"
    by (simp add: vec_sub_def vec_sub_assign_def deltaPosition_def sampleUnits_def numeral_3_eq_3)
  then show ?thesis
    using Esirkepov3_conserves_charge [of CIC sampleUnits "[1 / 2, 1 / 4, 0]" "[5, 6, 7]" "[5, 6, 7]" "[1, 0, 2]" "1 / 2" 3 "\<lambda>_. 0"]
    by (simp add: all3 sampleUnits_def)
qed

text \<open>
  Charge conservation in two dimensions: the same for the current components in the plane.
\<close>
theorem Esirkepov2_conserves_charge:
  assumes "s \<in> {CIC, TSC, PCS, P4S}" "\<forall>d < 2. 0 < cellSize u ! d"
    and "length pos = 2" "length cell = 2" "length g = 2" "\<forall>d < 2. 0 \<le> pos ! d \<and> pos ! d < 1"
    and "\<forall>d < 2. \<bar>velocity ! d * deltaTime\<bar> \<le> cellSize u ! d"
  shows "divergence 2 u (\<lambda>r. Esirkepov2 s u cell pos velocity q deltaTime J r - J r) g =
    - (chargeDensity 2 s u q cell pos g
       - chargeDensity 2 s u q cell (vec_sub pos (deltaPosition u velocity deltaTime 2)) g) / DELTA_T u"
proof -
  from assms(1) consider "s = CIC" | "s = TSC" | "s = PCS" | "s = P4S" by blast
  then show ?thesis
  proof cases
    case 1 show ?thesis unfolding 1 by (rule CIC_deposit.Esirkepov2_div [OF assms(2-)])
  next
    case 2 show ?thesis unfolding 2 by (rule TSC_deposit.Esirkepov2_div [OF assms(2-)])
  next
    case 3 show ?thesis unfolding 3 by (rule PCS_deposit.Esirkepov2_div [OF assms(2-)])
  next
    case 4 show ?thesis unfolding 4 by (rule P4S_deposit.Esirkepov2_div [OF assms(2-)])
  qed
qed

theorem Esirkepov2_conserves_charge_witness:
  "divergence 2 \<lparr>cellSize = [2, 1], DELTA_T = 1\<rparr>
     (\<lambda>r. Esirkepov2 TSC \<lparr>cellSize = [2, 1], DELTA_T = 1\<rparr> [5, 6] [3 / 4, 1 / 4] [1, 0, 2] 3 1 (\<lambda>_. 0) r - 0) [6, 6] =
    - (chargeDensity 2 TSC \<lparr>cellSize = [2, 1], DELTA_T = 1\<rparr> 3 [5, 6] [3 / 4, 1 / 4] [6, 6]
       - chargeDensity 2 TSC \<lparr>cellSize = [2, 1], DELTA_T = 1\<rparr> 3 [5, 6] [1 / 4, 1 / 4] [6, 6]) / 1"
proof -
  have all2: "(\<forall>d < 2. Q d) = (Q 0 \<and> Q (1 :: nat))" for Q by (auto simp: numeral_2_eq_2 less_Suc_eq)
  have "vec_sub [3 / 4, 1 / 4] (deltaPosition \<lparr>cellSize = [2, 1], DELTA_T = 1\<rparr> [1, 0, 2] 1 2) = [1 / 4, 1 / 4]"
    by (simp add: vec_sub_def vec_sub_assign_def deltaPosition_def numeral_2_eq_2)
  then show ?thesis
    using Esirkepov2_conserves_charge [of TSC "\<lparr>cellSize = [2, 1], DELTA_T = 1\<rparr>" "[3 / 4, 1 / 4]" "[5, 6]" "[6, 6]" "[1, 0, 2]" 1 3 "\<lambda>_. 0"]
    by (simp add: all2)
qed

text \<open>
  The shift by \<open>floor(pos * 2)\<close> is not \<open>pos > 0.5\<close> as the comment says. With the shape \<open>NGP\<close>, a particle that moves from
  \<open>0.75\<close> to exactly \<open>0.5\<close> is shifted by one, the loop misses the grid point that holds its charge, and current flows
  out of a point (here \<open>[3, 0]\<close>) at which the charge density never changes.
\<close>
theorem Esirkepov_NGP_violates_continuity:
  "divergence 2 \<lparr>cellSize = [1, 1], DELTA_T = 1\<rparr>
     (Esirkepov2 NGP \<lparr>cellSize = [1, 1], DELTA_T = 1\<rparr> [0, 0] [1 / 2, 1 / 4] [- 1 / 4, 0, 0] 1 1 (\<lambda>_. 0)) [3, 0] = - 1 \<and>
   chargeDensity 2 NGP \<lparr>cellSize = [1, 1], DELTA_T = 1\<rparr> 1 [0, 0] [3 / 4, 1 / 4] [3, 0] = 0 \<and>
   chargeDensity 2 NGP \<lparr>cellSize = [1, 1], DELTA_T = 1\<rparr> 1 [0, 0] [1 / 2, 1 / 4] [3, 0] = 0"
proof -
  have up: "[- 1..0 :: int] = [- 1, 0]" "[0..1 :: int] = [0, 1]" by (simp_all add: upto.simps)
  have l: "vec_sub [1 / 2, 1 / 4] (deltaPosition \<lparr>cellSize = [1, 1], DELTA_T = 1\<rparr> [- 1 / 4, 0, 0] 1 2) = [3 / 4, 1 / 4]"
    by (simp add: vec_sub_def vec_sub_assign_def deltaPosition_def numeral_2_eq_2)
  have fl: "coordinateShift [1 / 2, 1 / 4] = [1, 0]" by (simp add: coordinateShift_def)
  have sh: "line_minus \<lparr>pos0 = [3 / 4, 1 / 4], pos1 = [1 / 2, 1 / 4]\<rparr> [1, 0] = \<lparr>pos0 = [- 1 / 4, 1 / 4], pos1 = [- 1 / 2, 1 / 4]\<rparr>"
    by (simp add: line_minus_def vec_sub_def vec_sub_assign_def)
  let ?u = "\<lparr>cellSize = [1, 1], DELTA_T = 1\<rparr>" and ?l = "\<lparr>pos0 = [- 1 / 4, 1 / 4], pos1 = [- 1 / 2, 1 / 4]\<rparr>"
  have r: "loopRange 1 ?l 0 = [0, 1]" "loopRange 1 ?l 1 = [- 1, 0]"
    by (simp_all add: loopRange_def loopBegin_def loopEnd_def currentLowerMargin_def lineOffset_def up)
  have r': "loopRange 1 (rotateLine [1, 0] ?l) 0 = [- 1, 0]" "loopRange 1 (rotateLine [1, 0] ?l) 1 = [0, 1]"
    by (simp_all add: loopRange_def loopBegin_def loopEnd_def currentLowerMargin_def lineOffset_def up rotateLine_def rotateOrigin_def)
  have w: "DS NGP_ChargeAssignment ?l g 1 = 0" "S0 NGP_ChargeAssignment ?l (- 1) 1 = 0" "S0 NGP_ChargeAssignment ?l 0 1 = 1"
    "DS NGP_ChargeAssignment ?l 0 0 = - 1" "DS NGP_ChargeAssignment ?l 1 0 = 0" for g
    by (simp_all add: S0_def DS_def NGP_ChargeAssignment_def)
  have n: "support NGP = 1" "ChargeAssignment NGP = NGP_ChargeAssignment" "CELL_VOLUME ?u = 1"
    by (simp_all add: NGP_def CELL_VOLUME_def)
  have x: "cptCurrent1D_2 NGP ?u 1 (BufferCursor [1, 0]) ?l 1 J = atomicAdd ([2, 0], 0) 1 (atomicAdd ([1, 0], 0) 1 J)" for J
    unfolding cptCurrent1D_2_def n r by (simp add: w [simplified] Let_def cursor_simps)
  have y: "cptCurrent1D_2 NGP ?u 1 (twistVectorFieldAxes [1, 0] (BufferCursor [1, 0])) (rotateLine [1, 0] ?l) 1 J = J" for J
    unfolding cptCurrent1D_2_def n r' by (simp add: w [simplified] Let_def)
  have z: "cptCurrentZ NGP ?u 1 (BufferCursor [1, 0]) ?l 0 J = J" for J
    unfolding cptCurrentZ_def n r by (simp add: Let_def)
  have "Esirkepov2 NGP ?u [0, 0] [1 / 2, 1 / 4] [- 1 / 4, 0, 0] 1 1 (\<lambda>_. 0) = atomicAdd ([2, 0], 0) 1 (atomicAdd ([1, 0], 0) 1 (\<lambda>_. 0))"
    unfolding Esirkepov2_def Let_def l fl n deposit2_def using x y z sh by (simp add: cursor_simps)
  then have "divergence 2 ?u (Esirkepov2 NGP ?u [0, 0] [1 / 2, 1 / 4] [- 1 / 4, 0, 0] 1 1 (\<lambda>_. 0)) [3, 0] = - 1"
    by (simp add: divergence2 atomicAdd_def)
  then show ?thesis by (simp add: chargeDensity_def n lessThan_nat_numeral NGP_ChargeAssignment_def)
qed

end
