(* ===== verification/EsirkepovNative.thy ===== *)
theory EsirkepovNative
  imports Esirkepov
begin

text \<open>
  Models \<open>currentSolver::EsirkepovNative\<close> (fields/currentDeposition/Esirkepov/EsirkepovNative.hpp), the
  variant of the Esirkepov deposition that neither shifts the coordinate system nor narrows its loops, and
  shows that it deposits the same current as \<open>Esirkepov\<close> for every continuous shape.
\<close>

section \<open>Deposition over the whole margin\<close>

definition nativeLowerMargin :: "int \<Rightarrow> int" where
  "nativeLowerMargin supp = supp div 2 + 1"

definition nativeUpperMargin :: "int \<Rightarrow> int" where
  "nativeUpperMargin supp = (supp + 1) div 2 + 1"

definition nativeRange :: "int \<Rightarrow> int list" where
  "nativeRange supp = [- nativeLowerMargin supp..(nativeUpperMargin supp + 1) - 1]"

fun depositColumnNative ::
    "(int \<Rightarrow> fieldRef) \<Rightarrow> (int \<Rightarrow> real) \<Rightarrow> real \<Rightarrow> int list \<Rightarrow> vectorField \<Rightarrow> vectorField" where
  "depositColumnNative ref increment accumulated_J [] J = J"
| "depositColumnNative ref increment accumulated_J (k # ks) J =
     (let accumulated_J = accumulated_J + increment k
      in depositColumnNative ref increment accumulated_J ks (atomicAdd (ref k) accumulated_J J))"

definition cptCurrent1DNative ::
    "Shape \<Rightarrow> 'u GridUnits_scheme \<Rightarrow> real \<Rightarrow> Cursor \<Rightarrow> Line \<Rightarrow> real \<Rightarrow> vectorField \<Rightarrow> vectorField" where
  "cptCurrent1DNative s u charge cursorJ l cellEdgeLength J =
     foldl (\<lambda>J i. foldl (\<lambda>J j.
         let tmp = weightXY (ChargeAssignment s) l i j
         in depositColumnNative (\<lambda>k. cursor_ref (cursor_jump cursorJ [i, j, k]) 2)
              (\<lambda>k. - charge * (1 / (CELL_VOLUME u * DELTA_T u)) * (DS (ChargeAssignment s) l k 2 * tmp) * cellEdgeLength)
              0 (nativeRange (support s)) J)
       J (nativeRange (support s))) J (nativeRange (support s))"

definition depositNative :: "Shape \<Rightarrow> 'u GridUnits_scheme \<Rightarrow> real \<Rightarrow> Cursor \<Rightarrow> Line \<Rightarrow> vectorField \<Rightarrow> vectorField" where
  "depositNative s u charge cursorJ l J =
     (let J = cptCurrent1DNative s u charge (twistVectorFieldAxes [1, 2, 0] cursorJ) (rotateLine [1, 2, 0] l) (cellSize u ! 0) J;
          J = cptCurrent1DNative s u charge (twistVectorFieldAxes [2, 0, 1] cursorJ) (rotateLine [2, 0, 1] l) (cellSize u ! 1) J
      in cptCurrent1DNative s u charge cursorJ l (cellSize u ! 2) J)"

definition EsirkepovNative3 ::
    "Shape \<Rightarrow> 'u GridUnits_scheme \<Rightarrow> DataSpace \<Rightarrow> real vec \<Rightarrow> real vec \<Rightarrow> real \<Rightarrow> real \<Rightarrow> vectorField \<Rightarrow> vectorField" where
  "EsirkepovNative3 s u cell pos velocity charge deltaTime J =
     (let oldPos = vec_sub pos (deltaPosition u velocity deltaTime 3);
          l = \<lparr>pos0 = oldPos, pos1 = pos\<rparr>;
          cursorJ = BufferCursor cell
      in depositNative s u charge cursorJ l J)"

section \<open>Effect of the native loops\<close>

text \<open>Skipping a zero in the column loop of \<open>Esirkepov\<close> changes nothing over the reals.\<close>

lemma depositColumnNative_eq: "depositColumnNative ref inc acc ks J = depositColumn ref inc acc ks J"
  by (induction ks arbitrary: acc J) (simp_all add: Let_def atomicAdd_def fun_upd_idem)

definition in_reach :: "Line \<Rightarrow> nat \<Rightarrow> bool" where
  "in_reach l d \<longleftrightarrow> \<bar>pos0 l ! d - pos1 l ! d\<bar> \<le> 1 \<and> 0 \<le> pos1 l ! d \<and> pos1 l ! d < 1"

definition prefixSum :: "(real \<Rightarrow> real) \<Rightarrow> int \<Rightarrow> Line \<Rightarrow> nat \<Rightarrow> int \<Rightarrow> real" where
  "prefixSum P supp l d k = (\<Sum>k' \<in> {- nativeLowerMargin supp..k}. DS P l k' d)"

lemma rotate_native [simp]:
  assumes "d < length axes"
  shows "in_reach (rotateLine axes l) d = in_reach l (axes ! d)"
    "prefixSum P supp (rotateLine axes l) d k = prefixSum P supp l (axes ! d) k"
  using assms by (simp_all add: in_reach_def prefixSum_def rotateLine_def rotateOrigin_def DS_def)

lemma half_bounds:
  "of_int n / 2 \<le> (of_int (n div 2) :: real) + 1" "of_int n / 2 \<le> (of_int ((n + 1) div 2) :: real)"
proof -
  have "n \<le> 2 * (n div 2) + 2" "n \<le> 2 * ((n + 1) div 2)" by presburger+
  then have "real_of_int n \<le> real_of_int (2 * (n div 2) + 2)" "real_of_int n \<le> real_of_int (2 * ((n + 1) div 2))"
    by (simp_all only: of_int_le_iff)
  then show "of_int n / 2 \<le> (of_int (n div 2) :: real) + 1" "of_int n / 2 \<le> (of_int ((n + 1) div 2) :: real)"
    by simp_all
qed

context deposit_shape
begin

lemma native_outside:
  assumes "in_reach l d" "g \<notin> {- nativeLowerMargin (support s)..nativeUpperMargin (support s)}"
  shows "S0 P l g d = 0" "DS P l g d = 0"
proof -
  have "P (of_int g - q) = 0" if q: "q = pos0 l ! d \<or> q = pos1 l ! d" for q
  proof (rule vanish)
    have qr: "- 1 \<le> q" "q < 2" using assms(1) q by (auto simp: in_reach_def)
    have "g \<le> - (support s div 2) - 2 \<or> (support s + 1) div 2 + 2 \<le> g"
      using assms(2) by (auto simp: nativeLowerMargin_def nativeUpperMargin_def)
    then have "of_int g \<le> - (of_int (support s div 2) :: real) - 2 \<or> (of_int ((support s + 1) div 2) :: real) + 2 \<le> of_int g"
      by linarith
    then show "of_int (support s) / 2 \<le> \<bar>of_int g - q\<bar>" using half_bounds [of "support s"] qr by linarith
  qed
  then show "S0 P l g d = 0" "DS P l g d = 0" by (simp_all add: S0_def DS_def)
qed

text \<open>The prefix sum of the native column is the column sum of the narrowed loop.\<close>

lemma prefix_eq_column:
  assumes l: "in_reach l d" and l': "axis_ok (support s) l' d"
    and sh: "\<And>k. DS P l' (k - m) d = DS P l k d"
  shows "prefixSum P (support s) l d k = columnSum P (support s) l' d (k - m)"
proof -
  let ?a = "- nativeLowerMargin (support s)" and ?b = "loopFirst (support s) l' d + m"
  have out: "DS P l k' d = 0" if "k' < ?b" for k'
    using outside(2) [OF l', of "k' - m"] sh [of k'] that by simp
  have "columnSum P (support s) l' d (k - m) = (\<Sum>k' \<in> {?b..k}. DS P l k' d)"
    unfolding columnSum_def
    by (rule sum.reindex_bij_witness [of _ "\<lambda>k. k - m" "\<lambda>k. k + m"]) (auto simp: sh [symmetric])
  also have "\<dots> = (\<Sum>k' \<in> {min ?a ?b..k}. DS P l k' d)"
    by (rule sum.mono_neutral_left) (auto intro!: out)
  also have "\<dots> = (\<Sum>k' \<in> {?a..k}. DS P l k' d)"
    by (rule sum.mono_neutral_right) (auto intro!: native_outside(2) [OF l])
  finally show ?thesis by (simp add: prefixSum_def)
qed

lemma cptCurrent1DNative_at:
  assumes ok: "in_reach l 0" "in_reach l 1" "in_reach l 2"
    and zero: "k0 > nativeUpperMargin (support s) \<Longrightarrow> prefixSum P (support s) l 2 k0 = 0"
    and inj: "\<And>i j k. (cursor_ref (cursor_jump c [i, j, k]) 2 = r) = (i = i0 \<and> j = j0 \<and> k = k0)"
  shows "cptCurrent1DNative s u q c l e J r =
    J r + - q * (1 / (CELL_VOLUME u * DELTA_T u)) * (prefixSum P (support s) l 2 k0 * weightXY P l i0 j0) * e"
proof -
  let ?R = "{- nativeLowerMargin (support s)..nativeUpperMargin (support s)}"
  have *: "(\<Sum>k' \<in> {a..k}. A * (DS P l k' 2 * w) * e) = A * ((\<Sum>k' \<in> {a..k}. DS P l k' 2) * w) * e" for A w a k
    by (simp add: sum_distrib_left sum_distrib_right)
  have "cptCurrent1DNative s u q c l e J r = J r + (\<Sum>i \<in> ?R. \<Sum>j \<in> ?R. \<Sum>k \<in> ?R.
      of_bool (cursor_ref (cursor_jump c [i, j, k]) 2 = r) *
       (- q * (1 / (CELL_VOLUME u * DELTA_T u)) * (prefixSum P (support s) l 2 k * weightXY P l i j) * e))"
    unfolding cptCurrent1DNative_def nativeRange_def Let_def depositColumnNative_eq add_diff_cancel_right'
    by (subst foldl_additive, rule foldl_additive, rule depositColumn_range)
      (simp only: sum_list_upto * prefixSum_def)
  moreover have "weightXY P l i0 j0 = 0" if "i0 \<notin> ?R \<or> j0 \<notin> ?R"
    using that native_outside [OF ok(1)] native_outside [OF ok(2)] by (auto simp: weightXY_def)
  moreover have "prefixSum P (support s) l 2 k0 = 0" if "k0 \<notin> ?R"
    using that zero by (cases "k0 > nativeUpperMargin (support s)") (auto simp: prefixSum_def)
  ultimately show ?thesis unfolding inj by (subst (asm) sum_triple_delta) auto
qed

lemma native_total:
  assumes "in_reach l d" "nativeUpperMargin (support s) < k"
  shows "prefixSum P (support s) l d k = 0"
proof -
  let ?a = "- nativeLowerMargin (support s)" and ?b = "nativeUpperMargin (support s) + 1"
  have "(\<Sum>g \<in> {?a..<?b}. P (of_int g - q)) = 1" if q: "q = pos0 l ! d \<or> q = pos1 l ! d" for q
  proof (rule unity_window)
    have qr: "- 1 \<le> q" "q < 2" using assms(1) q by (auto simp: in_reach_def)
    then show "of_int (support s) / 2 \<le> q - of_int ?a + 1" "of_int (support s) / 2 \<le> of_int ?b - q"
      using half_bounds [of "support s"] by (simp_all add: nativeLowerMargin_def nativeUpperMargin_def)
  qed
  then have "(\<Sum>g \<in> {?a..<?b}. DS P l g d) = 0" by (simp add: DS_def sum_subtractf)
  moreover have "prefixSum P (support s) l d k = (\<Sum>g \<in> {?a..<?b}. DS P l g d)"
    unfolding prefixSum_def using assms(2)
    by (intro sum.mono_neutral_right) (auto intro!: native_outside(2) [OF assms(1)])
  ultimately show ?thesis by simp
qed

lemma cptCurrent1DNative_components:
  "d \<noteq> 2 \<Longrightarrow> cptCurrent1DNative s u q (BufferCursor p) l e J (g, d) = J (g, d)"
  "d \<noteq> 0 \<Longrightarrow> cptCurrent1DNative s u q (twistVectorFieldAxes [1, 2, 0] (BufferCursor p)) l e J (g, d) = J (g, d)"
  "d \<noteq> 1 \<Longrightarrow> cptCurrent1DNative s u q (twistVectorFieldAxes [2, 0, 1] (BufferCursor p)) l e J (g, d) = J (g, d)"
  unfolding cptCurrent1DNative_def nativeRange_def Let_def depositColumnNative_eq
  by (subst foldl_additive, rule foldl_additive, rule depositColumn_range, simp add: cursor_simps)+

text \<open>The current that \<open>EsirkepovNative\<close> adds to each component.\<close>

lemma native_deposit:
  assumes ok: "in_reach l 0" "in_reach l 1" "in_reach l 2"
  shows "depositNative s u q (BufferCursor [a, b, c]) l J ([x, y, z], 0) = J ([x, y, z], 0) - q / (CELL_VOLUME u * DELTA_T u) *
      (prefixSum P (support s) l 0 (x - a) * weightXY P (rotateLine [1, 2, 0] l) (y - b) (z - c)) * cellSize u ! 0"
    "depositNative s u q (BufferCursor [a, b, c]) l J ([x, y, z], 1) = J ([x, y, z], 1) - q / (CELL_VOLUME u * DELTA_T u) *
      (prefixSum P (support s) l 1 (y - b) * weightXY P (rotateLine [2, 0, 1] l) (z - c) (x - a)) * cellSize u ! 1"
    "depositNative s u q (BufferCursor [a, b, c]) l J ([x, y, z], 2) = J ([x, y, z], 2) - q / (CELL_VOLUME u * DELTA_T u) *
      (prefixSum P (support s) l 2 (z - c) * weightXY P l (x - a) (y - b)) * cellSize u ! 2"
proof -
  have "cptCurrent1DNative s u q (twistVectorFieldAxes [1, 2, 0] (BufferCursor [a, b, c])) (rotateLine [1, 2, 0] l) e K ([x, y, z], 0) =
      K ([x, y, z], 0) + - q * (1 / (CELL_VOLUME u * DELTA_T u)) * (prefixSum P (support s) (rotateLine [1, 2, 0] l) 2 (x - a) *
      weightXY P (rotateLine [1, 2, 0] l) (y - b) (z - c)) * e" for e K
    by (rule cptCurrent1DNative_at) (use ok in \<open>auto simp: cursor_simps intro!: native_total\<close>)
  moreover have "cptCurrent1DNative s u q (twistVectorFieldAxes [2, 0, 1] (BufferCursor [a, b, c])) (rotateLine [2, 0, 1] l) e K ([x, y, z], 1) =
      K ([x, y, z], 1) + - q * (1 / (CELL_VOLUME u * DELTA_T u)) * (prefixSum P (support s) (rotateLine [2, 0, 1] l) 2 (y - b) *
      weightXY P (rotateLine [2, 0, 1] l) (z - c) (x - a)) * e" for e K
    by (rule cptCurrent1DNative_at) (use ok in \<open>auto simp: cursor_simps intro!: native_total\<close>)
  moreover have "cptCurrent1DNative s u q (BufferCursor [a, b, c]) l e K ([x, y, z], 2) =
      K ([x, y, z], 2) + - q * (1 / (CELL_VOLUME u * DELTA_T u)) * (prefixSum P (support s) l 2 (z - c) *
      weightXY P l (x - a) (y - b)) * e" for e K
    by (rule cptCurrent1DNative_at) (use ok in \<open>auto simp: cursor_simps intro!: native_total\<close>)
  ultimately show "depositNative s u q (BufferCursor [a, b, c]) l J ([x, y, z], 0) = J ([x, y, z], 0) - q / (CELL_VOLUME u * DELTA_T u) *
      (prefixSum P (support s) l 0 (x - a) * weightXY P (rotateLine [1, 2, 0] l) (y - b) (z - c)) * cellSize u ! 0"
    "depositNative s u q (BufferCursor [a, b, c]) l J ([x, y, z], 1) = J ([x, y, z], 1) - q / (CELL_VOLUME u * DELTA_T u) *
      (prefixSum P (support s) l 1 (y - b) * weightXY P (rotateLine [2, 0, 1] l) (z - c) (x - a)) * cellSize u ! 1"
    "depositNative s u q (BufferCursor [a, b, c]) l J ([x, y, z], 2) = J ([x, y, z], 2) - q / (CELL_VOLUME u * DELTA_T u) *
      (prefixSum P (support s) l 2 (z - c) * weightXY P l (x - a) (y - b)) * cellSize u ! 2"
    unfolding depositNative_def Let_def by (simp_all add: cptCurrent1DNative_components del: One_nat_def)
qed

lemma Esirkepov3_native:
  assumes u: "\<forall>d < 3. 0 < cellSize u ! d" and len: "length pos = 3" "length cell = 3" "length g = 3"
    and pos: "\<forall>d < 3. 0 \<le> pos ! d \<and> pos ! d < 1"
    and v: "\<forall>d < 3. \<bar>velocity ! d * deltaTime\<bar> \<le> cellSize u ! d"
    and k: "k < 3"
  shows "EsirkepovNative3 s u cell pos velocity q deltaTime J (g, k) = Esirkepov3 s u cell pos velocity q deltaTime J (g, k)"
proof -
  define old where "old = vec_sub pos (deltaPosition u velocity deltaTime 3)"
  have old: "length old = 3" "\<bar>old ! d - pos ! d\<bar> \<le> 1" if "d < 3" for d
    using that len v u moved_at_most_one_cell [of "cellSize u ! d" "velocity ! d" deltaTime "pos ! d"]
    by (simp_all add: old_def vec_sub_def vec_sub_assign_def deltaPosition_def)
  let ?l = "\<lparr>pos0 = old, pos1 = pos\<rparr>"
  define sh where "sh = (if support s mod 2 = 1 then coordinateShift pos else [0, 0, 0])"
  define l where "l = (if support s mod 2 = 1 then line_minus ?l (map of_int (coordinateShift pos)) else ?l)"
  define p where "p = (if support s mod 2 = 1 then vec_add cell (coordinateShift pos) else cell)"
  have E: "Esirkepov3 s u cell pos velocity q deltaTime J = deposit3 s u q (BufferCursor p) l J"
    unfolding Esirkepov3_def Let_def old_def [symmetric] l_def p_def by (cases "support s mod 2 = 1") simp_all
  have ok: "axis_ok (support s) l d" if "d < 3" for d
    unfolding l_def using shifted_axis [of d pos old] that len old pos by simp
  have rch: "in_reach ?l d" if "d < 3" for d
    using that old pos by (auto simp: in_reach_def abs_minus_commute)
  have "length sh = 3" using len by (simp add: sh_def coordinateShift_def)
  then obtain m0 m1 m2 where m: "sh = [m0, m1, m2]" by (auto simp: numeral_3_eq_3 length_Suc_conv)
  obtain a b c where ce: "cell = [a, b, c]" using len(2) by (auto simp: numeral_3_eq_3 length_Suc_conv)
  obtain x y z where ge: "g = [x, y, z]" using len(3) by (auto simp: numeral_3_eq_3 length_Suc_conv)
  have pe: "p = [a + m0, b + m1, c + m2]"
    using m len ce by (auto simp: p_def sh_def cursor_simps coordinateShift_def split: if_splits)
  have S: "S0 P l (i - sh ! d) d = S0 P ?l i d" "DS P l (i - sh ! d) d = DS P ?l i d" if "d < 3" for d i
    using that len old by (auto simp: S0_def DS_def l_def sh_def line_minus_def vec_sub_def vec_sub_assign_def
        coordinateShift_def nth_Cons')
  have Sx: "S0 P l (i - m0) 0 = S0 P ?l i 0" "DS P l (i - m0) 0 = DS P ?l i 0"
    "S0 P l (i - m1) 1 = S0 P ?l i 1" "DS P l (i - m1) 1 = DS P ?l i 1"
    "S0 P l (i - m2) 2 = S0 P ?l i 2" "DS P l (i - m2) 2 = DS P ?l i 2" for i
    using S [of 0 i] S [of 1 i] S [of 2 i] by (simp_all add: m)
  have C: "columnSum P (support s) l 0 (i - m0) = prefixSum P (support s) ?l 0 i"
    "columnSum P (support s) l 1 (i - m1) = prefixSum P (support s) ?l 1 i"
    "columnSum P (support s) l 2 (i - m2) = prefixSum P (support s) ?l 2 i" for i
    by (rule prefix_eq_column [symmetric]; simp add: rch ok Sx del: One_nat_def)+
  have e: "w - (r + t) = w - r - t" for w r t :: int by simp
  have N: "EsirkepovNative3 s u cell pos velocity q deltaTime J = depositNative s u q (BufferCursor [a, b, c]) ?l J"
    by (simp only: EsirkepovNative3_def Let_def old_def [symmetric] ce)
  have k3: "k = 0 \<or> k = 1 \<or> k = 2" using k by auto
  have w: "weightXY P (rotateLine [1, 2, 0] l) (y - b - m1) (z - c - m2) = weightXY P (rotateLine [1, 2, 0] ?l) (y - b) (z - c)"
    "weightXY P (rotateLine [2, 0, 1] l) (z - c - m2) (x - a - m0) = weightXY P (rotateLine [2, 0, 1] ?l) (z - c) (x - a)"
    "weightXY P l (x - a - m0) (y - b - m1) = weightXY P ?l (x - a) (y - b)"
    by (simp_all add: weightXY_def Sx del: One_nat_def)
  have o: "axis_ok (support s) l 0" "axis_ok (support s) l 1" "axis_ok (support s) l 2"
    and r: "in_reach ?l 0" "in_reach ?l 1" "in_reach ?l 2" by (simp_all add: ok rch)
  show ?thesis
    unfolding E N pe ge using k3
    by (elim disjE) (simp_all only: deposit3_x [OF o] deposit3_y [OF o] deposit3_z [OF o] native_deposit [OF r] e C w)
qed

end

section \<open>Property\<close>

text \<open>
  C31. \<open>EsirkepovNative\<close> deposits exactly the current of \<open>Esirkepov\<close>: for every continuous shape, every
  particle in its cell that moved by at most one cell along each axis, every grid point and every
  component, the shifted coordinate system and the narrowed loops of the optimised routine lose nothing.
\<close>

theorem EsirkepovNative_equivalent:
  assumes "s \<in> set [CIC, TSC, PCS, P4S]" "\<forall>d < 3. 0 < cellSize u ! d"
    and "length pos = 3" "length cell = 3" "length g = 3" "k < 3"
    and "\<forall>d < 3. 0 \<le> pos ! d \<and> pos ! d < 1"
    and "\<forall>d < 3. \<bar>velocity ! d * deltaTime\<bar> \<le> cellSize u ! d"
  shows "EsirkepovNative3 s u cell pos velocity q deltaTime J (g, k) =
    Esirkepov3 s u cell pos velocity q deltaTime J (g, k)"
  using assms CIC_deposit.Esirkepov3_native TSC_deposit.Esirkepov3_native PCS_deposit.Esirkepov3_native
    P4S_deposit.Esirkepov3_native by auto

theorem EsirkepovNative_equivalent_witness:
  "EsirkepovNative3 TSC \<lparr>cellSize = [2, 2, 2], DELTA_T = 1\<rparr> [4, 5, 6] [1/4, 0, 3/4] [1, -2, 1/2] 3 1 (\<lambda>r. 0) ([4, 5, 7], 1) =
   Esirkepov3 TSC \<lparr>cellSize = [2, 2, 2], DELTA_T = 1\<rparr> [4, 5, 6] [1/4, 0, 3/4] [1, -2, 1/2] 3 1 (\<lambda>r. 0) ([4, 5, 7], 1)"
  by (rule EsirkepovNative_equivalent) (simp_all add: numeral_3_eq_3 less_Suc_eq)

end
