(* ===== verification/VillaBune.thy ===== *)
theory VillaBune
  imports Esirkepov
begin

text \<open>
  Models \<open>currentSolver::VillaBune\<close> (fields/currentDeposition/VillaBune/CurrentVillaBune.hpp), the current
  deposition of Villasenor and Buneman for the CIC shape, over real numbers. Shown: the deposition
  conserves charge for a particle that stays in one cell; the tests that should split a trajectory at a
  cell boundary compare the old position with itself, so no trajectory is ever split, and a particle that
  crosses a boundary violates the continuity equation.
\<close>

section \<open>Deposition in one cell\<close>

text \<open>\<open>mem[z][y][x]\<close> of the box shifted to the cell \<open>base\<close>.\<close>

definition boxCell :: "DataSpace \<Rightarrow> int \<Rightarrow> int \<Rightarrow> int \<Rightarrow> DataSpace" where
  "boxCell base z y x = [base ! 0 + x, base ! 1 + y, base ! 2 + z]"

definition addCurrentToSingleCell ::
    "'u GridUnits_scheme \<Rightarrow> real vec \<Rightarrow> real vec \<Rightarrow> real \<Rightarrow> DataSpace \<Rightarrow> real \<Rightarrow> vectorField \<Rightarrow> vectorField" where
  "addCurrentToSingleCell u meanPos deltaPos charge cell deltaTime J =
     (let off = map floor meanPos;
          mem = vec_add cell off;
          x = meanPos ! 0 - of_int \<lfloor>meanPos ! 0\<rfloor>;
          y = meanPos ! 1 - of_int \<lfloor>meanPos ! 1\<rfloor>;
          z = meanPos ! 2 - of_int \<lfloor>meanPos ! 2\<rfloor>;
          dx = deltaPos ! 0; dy = deltaPos ! 1; dz = deltaPos ! 2;
          tmp = dx * dy * dz * (1 / 12);
          CELL_WIDTH = cellSize u ! 0; CELL_HEIGHT = cellSize u ! 1; CELL_DEPTH = cellSize u ! 2;
          rho_dtX = charge * (1 / (CELL_HEIGHT * CELL_DEPTH * deltaTime));
          rho_dtY = charge * (1 / (CELL_WIDTH * CELL_DEPTH * deltaTime));
          rho_dtZ = charge * (1 / (CELL_WIDTH * CELL_HEIGHT * deltaTime));
          J = atomicAdd (boxCell mem 1 1 0, 0) (rho_dtX * (dx * y * z + tmp)) J;
          J = atomicAdd (boxCell mem 1 0 0, 0) (rho_dtX * (dx * (1 - y) * z - tmp)) J;
          J = atomicAdd (boxCell mem 0 1 0, 0) (rho_dtX * (dx * y * (1 - z) - tmp)) J;
          J = atomicAdd (boxCell mem 0 0 0, 0) (rho_dtX * (dx * (1 - y) * (1 - z) + tmp)) J;
          J = atomicAdd (boxCell mem 1 0 1, 1) (rho_dtY * (dy * z * x + tmp)) J;
          J = atomicAdd (boxCell mem 0 0 1, 1) (rho_dtY * (dy * (1 - z) * x - tmp)) J;
          J = atomicAdd (boxCell mem 1 0 0, 1) (rho_dtY * (dy * z * (1 - x) - tmp)) J;
          J = atomicAdd (boxCell mem 0 0 0, 1) (rho_dtY * (dy * (1 - z) * (1 - x) + tmp)) J;
          J = atomicAdd (boxCell mem 0 1 1, 2) (rho_dtZ * (dz * x * y + tmp)) J;
          J = atomicAdd (boxCell mem 0 1 0, 2) (rho_dtZ * (dz * (1 - x) * y - tmp)) J;
          J = atomicAdd (boxCell mem 0 0 1, 2) (rho_dtZ * (dz * x * (1 - y) - tmp)) J
      in atomicAdd (boxCell mem 0 0 0, 2) (rho_dtZ * (dz * (1 - x) * (1 - y) + tmp)) J)"

section \<open>Splitting of the trajectory\<close>

definition intersectXPlane :: "real vec \<Rightarrow> real vec \<Rightarrow> real \<Rightarrow> real vec" where
  "intersectXPlane p1 p2 x0 =
     (let t = (x0 - p1 ! 0) / (p2 ! 0 - p1 ! 0)
      in [x0, p1 ! 1 + t * (p2 ! 1 - p1 ! 1), p1 ! 2 + t * (p2 ! 2 - p1 ! 2)])"

definition intersectYPlane :: "real vec \<Rightarrow> real vec \<Rightarrow> real \<Rightarrow> real vec" where
  "intersectYPlane p1 p2 y0 =
     (let t = (y0 - p1 ! 1) / (p2 ! 1 - p1 ! 1)
      in [p1 ! 0 + t * (p2 ! 0 - p1 ! 0), y0, p1 ! 2 + t * (p2 ! 2 - p1 ! 2)])"

definition intersectZPlane :: "real vec \<Rightarrow> real vec \<Rightarrow> real \<Rightarrow> real vec" where
  "intersectZPlane p1 p2 z0 =
     (let t = (z0 - p1 ! 2) / (p2 ! 2 - p1 ! 2)
      in [p1 ! 0 + t * (p2 ! 0 - p1 ! 0), p1 ! 1 + t * (p2 ! 1 - p1 ! 1), z0])"

definition depositSegment ::
    "'u GridUnits_scheme \<Rightarrow> real vec \<Rightarrow> real vec \<Rightarrow> real \<Rightarrow> DataSpace \<Rightarrow> real \<Rightarrow> vectorField \<Rightarrow> vectorField" where
  "depositSegment u start to charge cell deltaTime J =
     (let deltaPos = vec_sub to start;
          meanPos = vec_add start (map (\<lambda>d. 0.5 * d) deltaPos)
      in addCurrentToSingleCell u meanPos deltaPos charge cell deltaTime J)"

text \<open>In the code both floors are taken of \<open>oldPos\<close>.\<close>

definition addCurrentSplitZ ::
    "'u GridUnits_scheme \<Rightarrow> real vec \<Rightarrow> real vec \<Rightarrow> real \<Rightarrow> DataSpace \<Rightarrow> real \<Rightarrow> vectorField \<Rightarrow> vectorField" where
  "addCurrentSplitZ u oldPos newPos charge cell deltaTime J =
     (let oldZ = \<lfloor>oldPos ! 2\<rfloor>; newZ = \<lfloor>oldPos ! 2\<rfloor>
      in if oldZ \<noteq> newZ
         then let interPos = intersectZPlane oldPos newPos (of_int (max oldZ newZ));
                  J = depositSegment u oldPos interPos charge cell deltaTime J
              in depositSegment u interPos newPos charge cell deltaTime J
         else depositSegment u oldPos newPos charge cell deltaTime J)"

definition addCurrentSplitY ::
    "'u GridUnits_scheme \<Rightarrow> real vec \<Rightarrow> real vec \<Rightarrow> real \<Rightarrow> DataSpace \<Rightarrow> real \<Rightarrow> vectorField \<Rightarrow> vectorField" where
  "addCurrentSplitY u oldPos newPos charge cell deltaTime J =
     (let oldY = \<lfloor>oldPos ! 1\<rfloor>; newY = \<lfloor>oldPos ! 1\<rfloor>
      in if oldY \<noteq> newY
         then let interPos = intersectYPlane oldPos newPos (of_int (max oldY newY));
                  J = addCurrentSplitZ u oldPos interPos charge cell deltaTime J
              in addCurrentSplitZ u interPos newPos charge cell deltaTime J
         else addCurrentSplitZ u oldPos newPos charge cell deltaTime J)"

definition addCurrentSplitX ::
    "'u GridUnits_scheme \<Rightarrow> real vec \<Rightarrow> real vec \<Rightarrow> real \<Rightarrow> DataSpace \<Rightarrow> real \<Rightarrow> vectorField \<Rightarrow> vectorField" where
  "addCurrentSplitX u oldPos newPos charge cell deltaTime J =
     (let oldX = \<lfloor>oldPos ! 0\<rfloor>; newX = \<lfloor>oldPos ! 0\<rfloor>
      in if oldX \<noteq> newX
         then let interPos = intersectXPlane oldPos newPos (of_int (max oldX newX));
                  J = addCurrentSplitY u oldPos interPos charge cell deltaTime J
              in addCurrentSplitY u interPos newPos charge cell deltaTime J
         else addCurrentSplitY u oldPos newPos charge cell deltaTime J)"

definition VillaBune ::
    "'u GridUnits_scheme \<Rightarrow> DataSpace \<Rightarrow> real vec \<Rightarrow> real vec \<Rightarrow> real \<Rightarrow> real \<Rightarrow> vectorField \<Rightarrow> vectorField" where
  "VillaBune u cell pos velocity charge deltaTime J =
     (let deltaPos = deltaPosition u velocity deltaTime 3;
          oldPos = vec_sub pos deltaPos
      in addCurrentSplitX u oldPos pos charge cell deltaTime J)"

section \<open>Effect of the deposition\<close>

text \<open>The split never happens.\<close>

lemma no_split: "addCurrentSplitX u oldPos newPos q cell t J = depositSegment u oldPos newPos q cell t J"
  by (simp add: addCurrentSplitX_def addCurrentSplitY_def addCurrentSplitZ_def)

text \<open>Weights of the two grid points of a cell along an axis, and the sign of the change.\<close>

definition wt :: "int \<Rightarrow> real \<Rightarrow> real" where
  "wt i m = (if i = 0 then 1 - m else if i = 1 then m else 0)"

definition sg :: "int \<Rightarrow> real" where
  "sg i = (if i = 0 then - 1 else if i = 1 then 1 else 0)"

lemma CIC_wt: "0 \<le> p \<Longrightarrow> p < 1 \<Longrightarrow> CIC_ChargeAssignment (of_int i - p) = wt i p"
proof -
  assume p: "0 \<le> p" "p < 1"
  show ?thesis
  proof (cases "i = 0 \<or> i = 1")
    case True
    then show ?thesis using p by (auto simp: wt_def CIC_ChargeAssignment_def Let_def)
  next
    case False
    then have "real_of_int i \<le> - 1 \<or> 2 \<le> real_of_int i" by linarith
    then have "1 \<le> \<bar>real_of_int i - p\<bar>" using p by linarith
    then show ?thesis using False by (auto simp: wt_def CIC_ChargeAssignment_def Let_def)
  qed
qed

lemma wt_shift: "wt i (m + d) = wt i m + sg i * d" "wt i (m - d) = wt i m - sg i * d"
  by (auto simp: wt_def sg_def)

lemma sg_step: "of_bool (i = 0) - of_bool (i = 1) = - sg i"
  by (auto simp: sg_def)

lemma atomicAdd_at: "atomicAdd r v J r' = J r' + of_bool (r' = r) * v"
  by (simp add: atomicAdd_def)

lemma single_cell_at:
  assumes m: "0 \<le> mx" "mx < 1" "0 \<le> my" "my < 1" "0 \<le> mz" "mz < 1"
  shows "addCurrentToSingleCell u [mx, my, mz] [dx, dy, dz] q [a, b, c] t J ([a + i, b + j, c + k], 0) =
      J ([a + i, b + j, c + k], 0) + of_bool (i = 0) *
        (q * (1 / (cellSize u ! 1 * cellSize u ! 2 * t)) * (dx * wt j my * wt k mz + sg j * sg k * (dx * dy * dz * (1 / 12))))"
    "addCurrentToSingleCell u [mx, my, mz] [dx, dy, dz] q [a, b, c] t J ([a + i, b + j, c + k], 1) =
      J ([a + i, b + j, c + k], 1) + of_bool (j = 0) *
        (q * (1 / (cellSize u ! 0 * cellSize u ! 2 * t)) * (dy * wt k mz * wt i mx + sg k * sg i * (dx * dy * dz * (1 / 12))))"
    "addCurrentToSingleCell u [mx, my, mz] [dx, dy, dz] q [a, b, c] t J ([a + i, b + j, c + k], 2) =
      J ([a + i, b + j, c + k], 2) + of_bool (k = 0) *
        (q * (1 / (cellSize u ! 0 * cellSize u ! 1 * t)) * (dz * wt i mx * wt j my + sg i * sg j * (dx * dy * dz * (1 / 12))))"
proof -
  have f: "\<lfloor>mx\<rfloor> = 0" "\<lfloor>my\<rfloor> = 0" "\<lfloor>mz\<rfloor> = 0" using m by (auto simp: floor_eq_iff)
  have z: "vec_add [a, b, c] [0, 0, 0] = [a, b, c]" by (simp add: vec_simps)
  note defs = addCurrentToSingleCell_def boxCell_def Let_def f z atomicAdd_at
  show "addCurrentToSingleCell u [mx, my, mz] [dx, dy, dz] q [a, b, c] t J ([a + i, b + j, c + k], 0) =
      J ([a + i, b + j, c + k], 0) + of_bool (i = 0) *
        (q * (1 / (cellSize u ! 1 * cellSize u ! 2 * t)) * (dx * wt j my * wt k mz + sg j * sg k * (dx * dy * dz * (1 / 12))))"
    by (simp add: defs) (cases "i = 0"; cases "j = 0"; cases "j = 1"; cases "k = 0"; cases "k = 1"; simp add: wt_def sg_def)
  show "addCurrentToSingleCell u [mx, my, mz] [dx, dy, dz] q [a, b, c] t J ([a + i, b + j, c + k], 1) =
      J ([a + i, b + j, c + k], 1) + of_bool (j = 0) *
        (q * (1 / (cellSize u ! 0 * cellSize u ! 2 * t)) * (dy * wt k mz * wt i mx + sg k * sg i * (dx * dy * dz * (1 / 12))))"
    by (simp add: defs) (cases "j = 0"; cases "i = 0"; cases "i = 1"; cases "k = 0"; cases "k = 1"; simp add: wt_def sg_def)
  show "addCurrentToSingleCell u [mx, my, mz] [dx, dy, dz] q [a, b, c] t J ([a + i, b + j, c + k], 2) =
      J ([a + i, b + j, c + k], 2) + of_bool (k = 0) *
        (q * (1 / (cellSize u ! 0 * cellSize u ! 1 * t)) * (dz * wt i mx * wt j my + sg i * sg j * (dx * dy * dz * (1 / 12))))"
    by (simp add: defs) (cases "k = 0"; cases "i = 0"; cases "i = 1"; cases "j = 0"; cases "j = 1"; simp add: wt_def sg_def)
qed

lemma villa_identity:
  fixes dx dy dz :: real
  shows "(px + a * (dx / 2)) * (py + b * (dy / 2)) * (pz + c * (dz / 2)) - (px - a * (dx / 2)) * (py - b * (dy / 2)) * (pz - c * (dz / 2)) =
    a * (dx * py * pz + b * c * (dx * dy * dz * (1 / 12))) + b * (dy * pz * px + c * a * (dx * dy * dz * (1 / 12))) +
    c * (dz * px * py + a * b * (dx * dy * dz * (1 / 12)))"
  by (simp add: field_simps)

text \<open>The trajectory stays in the cell of the particle.\<close>

definition stays_in_cell :: "real vec \<Rightarrow> real vec \<Rightarrow> bool" where
  "stays_in_cell oldPos newPos \<longleftrightarrow> list_all (\<lambda>p. 0 \<le> p \<and> p < 1) oldPos \<and> list_all (\<lambda>p. 0 \<le> p \<and> p < 1) newPos"

lemma segment_divergence:
  fixes u :: "'u GridUnits_scheme"
  assumes st: "stays_in_cell [ox, oy, oz] [nx, ny, nz]"
    and u: "cellSize u = [wx, wy, wz]" "wx \<noteq> 0" "wy \<noteq> 0" "wz \<noteq> 0"
  shows "divergence 3 u (\<lambda>r. depositSegment u [ox, oy, oz] [nx, ny, nz] q [a, b, c] t J r - J r) [a + i, b + j, c + k] =
    - q / (wx * wy * wz * t) * (wt i nx * wt j ny * wt k nz - wt i ox * wt j oy * wt k oz)"
proof -
  define mx my mz where "mx = ox + (nx - ox) / 2" and "my = oy + (ny - oy) / 2" and "mz = oz + (nz - oz) / 2"
  define dx dy dz where "dx = nx - ox" and "dy = ny - oy" and "dz = nz - oz"
  have m: "0 \<le> mx" "mx < 1" "0 \<le> my" "my < 1" "0 \<le> mz" "mz < 1"
    using st by (auto simp: stays_in_cell_def mx_def my_def mz_def field_simps)
  have S: "depositSegment u [ox, oy, oz] [nx, ny, nz] q [a, b, c] t J =
      addCurrentToSingleCell u [mx, my, mz] [dx, dy, dz] q [a, b, c] t J"
    by (simp add: depositSegment_def vec_simps Let_def mx_def my_def mz_def dx_def dy_def dz_def)
  let ?X = "dx * wt j my * wt k mz + sg j * sg k * (dx * dy * dz * (1 / 12))"
  let ?Y = "dy * wt k mz * wt i mx + sg k * sg i * (dx * dy * dz * (1 / 12))"
  let ?Z = "dz * wt i mx * wt j my + sg i * sg j * (dx * dy * dz * (1 / 12))"
  have e: "[a + i - 1, b + j, c + k] = [a + (i - 1), b + j, c + k]" "[a + i, b + j - 1, c + k] = [a + i, b + (j - 1), c + k]"
    "[a + i, b + j, c + k - 1] = [a + i, b + j, c + (k - 1)]" by simp_all
  have sgn: "of_bool (i = 0) - of_bool (i - 1 = 0) = - sg i" for i by (simp add: sg_def)
  have one: "((x + of_bool (i = 0) * (q * (1 / (w1 * w2 * t)) * X)) - x - ((y + of_bool (i - 1 = 0) * (q * (1 / (w1 * w2 * t)) * X)) - y)) / w =
      - (q / (w * w1 * w2 * t)) * (sg i * X)" if "w \<noteq> 0" for x y w w1 w2 X and i :: int
  proof -
    have "((x + of_bool (i = 0) * (q * (1 / (w1 * w2 * t)) * X)) - x - ((y + of_bool (i - 1 = 0) * (q * (1 / (w1 * w2 * t)) * X)) - y)) / w =
      (of_bool (i = 0) - of_bool (i - 1 = 0)) * (q * (1 / (w1 * w2 * t)) * X) / w" by (simp add: algebra_simps)
    also have "\<dots> = - (q / (w * w1 * w2 * t)) * (sg i * X)" unfolding sgn using that by (simp add: field_simps)
    finally show ?thesis .
  qed
  have "divergence 3 u (\<lambda>r. depositSegment u [ox, oy, oz] [nx, ny, nz] q [a, b, c] t J r - J r) [a + i, b + j, c + k] =
      - (q / (wx * wy * wz * t)) * (sg i * ?X) + - (q / (wy * wx * wz * t)) * (sg j * ?Y) + - (q / (wz * wx * wy * t)) * (sg k * ?Z)"
    unfolding divergence3 S e single_cell_at [OF m] u(1)
    by (simp only: nth_Cons_0 one u(2-4) nth_Cons_numeral One_nat_def nth_Cons_Suc numeral_2_eq_2 not_False_eq_True)
  also have "\<dots> = - (q / (wx * wy * wz * t)) * (sg i * ?X + sg j * ?Y + sg k * ?Z)"
    by (simp add: distrib_left mult.commute mult.left_commute)
  also have "sg i * ?X + sg j * ?Y + sg k * ?Z =
      wt i (mx + dx / 2) * wt j (my + dy / 2) * wt k (mz + dz / 2) - wt i (mx - dx / 2) * wt j (my - dy / 2) * wt k (mz - dz / 2)"
    unfolding wt_shift by (rule villa_identity [symmetric])
  also have "\<dots> = wt i nx * wt j ny * wt k nz - wt i ox * wt j oy * wt k oz"
    by (simp add: mx_def my_def mz_def dx_def dy_def dz_def)
  finally show ?thesis by simp
qed

section \<open>Properties\<close>

text \<open>
  The deposition of Villasenor and Buneman conserves charge for a particle that stays in its cell
  during the step: the divergence of the added current at every grid point is the negative change of the
  CIC charge density.
\<close>

theorem VillaBune_conserves_charge_in_cell:
  assumes "length (cellSize u) = 3" "list_all (\<lambda>w. 0 < w) (cellSize u)"
    and "length pos = 3" "length cell = 3" "length g = 3"
    and "stays_in_cell (vec_sub pos (deltaPosition u velocity deltaTime 3)) pos"
  shows "divergence 3 u (\<lambda>r. VillaBune u cell pos velocity q deltaTime J r - J r) g =
    - (chargeDensity 3 CIC u q cell pos g
       - chargeDensity 3 CIC u q cell (vec_sub pos (deltaPosition u velocity deltaTime 3)) g) / deltaTime"
proof -
  define old where "old = vec_sub pos (deltaPosition u velocity deltaTime 3)"
  have "length old = 3" using assms(3) by (simp add: old_def vec_simps deltaPosition_def)
  then obtain ox oy oz nx ny nz a b c x y z wx wy wz where e: "old = [ox, oy, oz]" "pos = [nx, ny, nz]"
    "cell = [a, b, c]" "g = [x, y, z]" "cellSize u = [wx, wy, wz]"
    using assms(1,3,4,5) by (auto simp: numeral_3_eq_3 length_Suc_conv)
  have "stays_in_cell old pos" using assms(6) by (simp only: old_def)
  then have st: "stays_in_cell [ox, oy, oz] [nx, ny, nz]" by (simp only: e)
  have w: "wx \<noteq> 0" "wy \<noteq> 0" "wz \<noteq> 0" using assms(2) e by auto
  have "VillaBune u cell pos velocity q deltaTime J = depositSegment u old pos q cell deltaTime J"
    by (simp only: VillaBune_def Let_def old_def no_split)
  then have V: "VillaBune u cell pos velocity q deltaTime J = depositSegment u [ox, oy, oz] [nx, ny, nz] q [a, b, c] deltaTime J"
    by (simp only: e)
  have pr: "(\<Prod>d \<in> {..<3 :: nat}. F d) = F 0 * F 1 * F 2" for F :: "nat \<Rightarrow> real"
    by (simp add: numeral_3_eq_3 numeral_2_eq_2)
  have cd: "chargeDensity 3 CIC u q cell p g = q / (wx * wy * wz) * (wt (x - a) (p ! 0) * wt (y - b) (p ! 1) * wt (z - c) (p ! 2))"
    if "p \<in> {old, pos}" for p
    using that st e CIC_wt [of "p ! 0" "x - a"] CIC_wt [of "p ! 1" "y - b"] CIC_wt [of "p ! 2" "z - c"]
    unfolding chargeDensity_def pr by (auto simp: CIC_def CELL_VOLUME_def stays_in_cell_def)
  show ?thesis
    using segment_divergence [OF st e(5) w, of q a b c deltaTime J "x - a" "y - b" "z - c"]
    unfolding V old_def [symmetric] cd [OF insertI1] cd [OF insertI2 [OF singletonI]]
    by (simp add: e right_diff_distrib diff_divide_distrib)
qed

text \<open>
  A particle that crosses a cell boundary is deposited as if its whole path lay in one cell: it enters
  the cell from below along x, the charge that was on the grid points of the lower cell disappears
  without any current there, and the continuity equation is violated.
\<close>

theorem VillaBune_violates_continuity_at_boundary:
  "divergence 3 \<lparr>cellSize = [1, 1, 1], DELTA_T = 1\<rparr>
     (\<lambda>r. VillaBune \<lparr>cellSize = [1, 1, 1], DELTA_T = 1\<rparr> [0, 0, 0] [1/4, 1/4, 1/4] [1/2, 0, 0] 1 1 (\<lambda>r. 0) r - 0) [-1, 0, 0] = 0 \<and>
   - (chargeDensity 3 CIC \<lparr>cellSize = [1, 1, 1], DELTA_T = 1\<rparr> 1 [0, 0, 0] [1/4, 1/4, 1/4] [-1, 0, 0]
       - chargeDensity 3 CIC \<lparr>cellSize = [1, 1, 1], DELTA_T = 1\<rparr> 1 [0, 0, 0]
           (vec_sub [1/4, 1/4, 1/4] (deltaPosition \<lparr>cellSize = [1, 1, 1], DELTA_T = 1\<rparr> [1/2, 0, 0] 1 3)) [-1, 0, 0]) / 1 = 9 / 64"
proof -
  let ?u = "\<lparr>cellSize = [1, 1, 1], DELTA_T = 1\<rparr> :: GridUnits"
  have old: "vec_sub [1/4, 1/4, 1/4] (deltaPosition ?u [1/2, 0, 0] 1 3) = [- 1/4, 1/4, 1/4]"
    by (simp add: vec_simps deltaPosition_def numeral_3_eq_3)
  have V: "VillaBune ?u [0, 0, 0] [1/4, 1/4, 1/4] [1/2, 0, 0] 1 1 (\<lambda>r. 0) =
      addCurrentToSingleCell ?u [0, 1/4, 1/4] [1/2, 0, 0] 1 [0, 0, 0] 1 (\<lambda>r. 0)"
    unfolding VillaBune_def Let_def old no_split depositSegment_def by (simp add: vec_simps)
  have div: "divergence 3 ?u (\<lambda>r. VillaBune ?u [0, 0, 0] [1/4, 1/4, 1/4] [1/2, 0, 0] 1 1 (\<lambda>r. 0) r - 0) [-1, 0, 0] = 0"
    unfolding V divergence3
    using single_cell_at [of 0 "1/4" "1/4" ?u "1/2" 0 0 1 0 0 0 1 "\<lambda>r. 0" "- 1" 0 0]
      single_cell_at [of 0 "1/4" "1/4" ?u "1/2" 0 0 1 0 0 0 1 "\<lambda>r. 0" "- 2" 0 0]
      single_cell_at [of 0 "1/4" "1/4" ?u "1/2" 0 0 1 0 0 0 1 "\<lambda>r. 0" "- 1" "- 1" 0]
      single_cell_at [of 0 "1/4" "1/4" ?u "1/2" 0 0 1 0 0 0 1 "\<lambda>r. 0" "- 1" 0 "- 1"]
    by (simp add: wt_def sg_def)
  have "- (chargeDensity 3 CIC ?u 1 [0, 0, 0] [1/4, 1/4, 1/4] [-1, 0, 0]
       - chargeDensity 3 CIC ?u 1 [0, 0, 0] (vec_sub [1/4, 1/4, 1/4] (deltaPosition ?u [1/2, 0, 0] 1 3)) [-1, 0, 0]) / 1 = 9 / 64"
    unfolding old chargeDensity_def
    by (simp add: CELL_VOLUME_def numeral_3_eq_3 numeral_2_eq_2 CIC_def CIC_ChargeAssignment_def Let_def)
  with div show ?thesis by simp
qed

section \<open>Witness\<close>

theorem VillaBune_conserves_charge_in_cell_witness:
  "divergence 3 \<lparr>cellSize = [2, 2, 2], DELTA_T = 1\<rparr>
     (\<lambda>r. VillaBune \<lparr>cellSize = [2, 2, 2], DELTA_T = 1\<rparr> [4, 5, 6] [1/2, 1/4, 3/4] [1/2, -1/2, 1] 3 1 (\<lambda>r. 0) r - 0) [5, 5, 7] =
    - (chargeDensity 3 CIC \<lparr>cellSize = [2, 2, 2], DELTA_T = 1\<rparr> 3 [4, 5, 6] [1/2, 1/4, 3/4] [5, 5, 7]
       - chargeDensity 3 CIC \<lparr>cellSize = [2, 2, 2], DELTA_T = 1\<rparr> 3 [4, 5, 6]
          (vec_sub [1/2, 1/4, 3/4] (deltaPosition \<lparr>cellSize = [2, 2, 2], DELTA_T = 1\<rparr> [1/2, -1/2, 1] 1 3)) [5, 5, 7]) / 1"
  using VillaBune_conserves_charge_in_cell [of "\<lparr>cellSize = [2, 2, 2], DELTA_T = 1\<rparr>" "[1/2, 1/4, 3/4]" "[4, 5, 6]" "[5, 5, 7]"
      "[1/2, -1/2, 1]" 1 3 "\<lambda>r. 0"]
  by (simp add: stays_in_cell_def vec_simps deltaPosition_def numeral_3_eq_3)

end
