(* ===== verification/Interpolation.thy ===== *)
theory Interpolation
  imports Shapes Cursors
begin

text \<open>
  Models the interpolation of a field to the position of a particle: \<open>ShiftCoordinateSystem\<close>,
  \<open>AssignedTrilinearInterpolation\<close>, \<open>FieldToParticleInterpolation\<close>, their \<open>Native\<close> variants
  (algorithms) and the positions of the field components in a Yee cell (numericalCellTypes/YeeCell).
  \<open>float_X\<close> is the type of real numbers. The locale \<open>interpolation_shape\<close> states what the
  interpolation needs of a shape and is interpreted on the four continuous shapes.
\<close>

section \<open>Cursors that read one component\<close>

datatype FunctorCursor = FunctorCursor Cursor nat

fun functor_jump :: "FunctorCursor \<Rightarrow> DataSpace \<Rightarrow> FunctorCursor" where
  "functor_jump (FunctorCursor c k) jump = FunctorCursor (cursor_jump c jump) k"

fun functor_read :: "vectorField \<Rightarrow> FunctorCursor \<Rightarrow> real" where
  "functor_read F (FunctorCursor c k) = F (cursor_ref c k)"

section \<open>Shift of the coordinate system\<close>

definition GetOffsetToStaticShapeSystem :: "bool \<Rightarrow> real \<Rightarrow> int" where
  "GetOffsetToStaticShapeSystem isEvenShape pos =
     (if isEvenShape then \<lfloor>pos\<rfloor> else if pos \<ge> 0.5 then 1 else 0)"

definition AssignToDim :: "int list \<Rightarrow> real vec \<Rightarrow> nat \<Rightarrow> FunctorCursor \<times> real vec \<Rightarrow> FunctorCursor \<times> real vec" where
  "AssignToDim supports fieldPos component cp =
     (case cp of (cursor, pos) \<Rightarrow>
        let isEven = (supports ! component) mod 2 = 0;
            v_pos = pos ! component - fieldPos ! component;
            intShift = (replicate (length pos) 0)[component := GetOffsetToStaticShapeSystem isEven v_pos]
        in (functor_jump cursor intShift, pos[component := v_pos - of_int (intShift ! component)]))"

definition ShiftCoordinateSystem :: "int list \<Rightarrow> FunctorCursor \<Rightarrow> real vec \<Rightarrow> real vec \<Rightarrow> FunctorCursor \<times> real vec" where
  "ShiftCoordinateSystem supports cursor vector fieldPos =
     foldl (\<lambda>cp d. AssignToDim supports fieldPos d cp) (cursor, vector) [0..<length vector]"

definition ShiftCoordinateSystemNative :: "FunctorCursor \<Rightarrow> real vec \<Rightarrow> real vec \<Rightarrow> FunctorCursor \<times> real vec" where
  "ShiftCoordinateSystemNative cursor vector fieldPos =
     (cursor, foldl (\<lambda>v i. v[i := v ! i - fieldPos ! i]) vector [0..<length vector])"

section \<open>Interpolation\<close>

definition interpolate3 :: "(real \<Rightarrow> real) \<Rightarrow> int \<Rightarrow> int \<Rightarrow> vectorField \<Rightarrow> FunctorCursor \<Rightarrow> real vec \<Rightarrow> real" where
  "interpolate3 assignment lo hi F cursor pos =
     foldl (\<lambda>result_z z. result_z +
       foldl (\<lambda>result_y y. result_y +
         foldl (\<lambda>result_x x. result_x +
             functor_read F (functor_jump cursor [x, y, z]) * assignment (of_int x - pos ! 0))
           0 [lo..hi] * assignment (of_int y - pos ! 1))
         0 [lo..hi] * assignment (of_int z - pos ! 2))
       0 [lo..hi]"

definition interpolate2 :: "(real \<Rightarrow> real) \<Rightarrow> int \<Rightarrow> int \<Rightarrow> vectorField \<Rightarrow> FunctorCursor \<Rightarrow> real vec \<Rightarrow> real" where
  "interpolate2 assignment lo hi F cursor pos =
     foldl (\<lambda>result_y y. result_y +
       foldl (\<lambda>result_x x. result_x +
           functor_read F (functor_jump cursor [x, y]) * assignment (of_int x - pos ! 0))
         0 [lo..hi] * assignment (of_int y - pos ! 1))
       0 [lo..hi]"

text \<open>The overload of \<open>interpolate\<close> is chosen by the dimension of the position.\<close>

definition interpolate :: "(real \<Rightarrow> real) \<Rightarrow> int \<Rightarrow> int \<Rightarrow> vectorField \<Rightarrow> FunctorCursor \<Rightarrow> real vec \<Rightarrow> real" where
  "interpolate assignment lo hi F cursor pos =
     (if length pos = 3 then interpolate3 assignment lo hi F cursor pos
      else interpolate2 assignment lo hi F cursor pos)"

definition lowerMargin :: "Shape \<Rightarrow> int" where
  "lowerMargin s = support s sdiv 2"

definition upperMargin :: "Shape \<Rightarrow> int" where
  "upperMargin s = (support s + 1) sdiv 2"

definition interpolationBegin :: "Shape \<Rightarrow> int" where
  "interpolationBegin s = (- support s) sdiv 2 + (support s + 1) smod 2"

definition interpolationEnd :: "Shape \<Rightarrow> int" where
  "interpolationEnd s = interpolationBegin s + support s - 1"

definition FieldToParticleInterpolation ::
    "Shape \<Rightarrow> vectorField \<Rightarrow> Cursor \<Rightarrow> real vec \<Rightarrow> real vec list \<Rightarrow> real vec" where
  "FieldToParticleInterpolation s F field particlePos fieldPos =
     (let lo = interpolationBegin s; hi = interpolationEnd s;
          supports = replicate (length particlePos) (support s);
          (field_x, pos_x) = ShiftCoordinateSystem supports (FunctorCursor field 0) particlePos (fieldPos ! 0);
          result_x = interpolate (ChargeAssignmentOnSupport s) lo hi F field_x pos_x;
          (field_y, pos_y) = ShiftCoordinateSystem supports (FunctorCursor field 1) particlePos (fieldPos ! 1);
          result_y = interpolate (ChargeAssignmentOnSupport s) lo hi F field_y pos_y;
          (field_z, pos_z) = ShiftCoordinateSystem supports (FunctorCursor field 2) particlePos (fieldPos ! 2);
          result_z = interpolate (ChargeAssignmentOnSupport s) lo hi F field_z pos_z
      in [result_x, result_y, result_z])"

definition FieldToParticleInterpolationNative ::
    "Shape \<Rightarrow> vectorField \<Rightarrow> Cursor \<Rightarrow> real vec \<Rightarrow> real vec list \<Rightarrow> real vec" where
  "FieldToParticleInterpolationNative s F field particlePos fieldPos =
     (let lo = - lowerMargin s; hi = upperMargin s;
          (field_x, pos_x) = ShiftCoordinateSystemNative (FunctorCursor field 0) particlePos (fieldPos ! 0);
          result_x = interpolate (ChargeAssignment s) lo hi F field_x pos_x;
          (field_y, pos_y) = ShiftCoordinateSystemNative (FunctorCursor field 1) particlePos (fieldPos ! 1);
          result_y = interpolate (ChargeAssignment s) lo hi F field_y pos_y;
          (field_z, pos_z) = ShiftCoordinateSystemNative (FunctorCursor field 2) particlePos (fieldPos ! 2);
          result_z = interpolate (ChargeAssignment s) lo hi F field_z pos_z
      in [result_x, result_y, result_z])"

section \<open>Positions of the field components in a Yee cell\<close>

definition getEFieldPosition :: "nat \<Rightarrow> real vec list" where
  "getEFieldPosition simDim =
     (if simDim = 3 then [[1/2, 0, 0], [0, 1/2, 0], [0, 0, 1/2]] else [[1/2, 0], [0, 1/2], [0, 0]])"

definition getBFieldPosition :: "nat \<Rightarrow> real vec list" where
  "getBFieldPosition simDim =
     (if simDim = 3 then [[0, 1/2, 1/2], [1/2, 0, 1/2], [1/2, 1/2, 0]] else [[0, 1/2], [1/2, 0], [1/2, 1/2]])"

definition getJFieldPosition :: "nat \<Rightarrow> real vec list" where
  "getJFieldPosition simDim =
     (if simDim = 3 then [[1/2, 0, 0], [0, 1/2, 0], [0, 0, 1/2]] else [[1/2, 0], [0, 1/2], [0, 0]])"

section \<open>One-dimensional sums\<close>

text \<open>
  What the interpolation needs of a shape: beyond an assignment of total charge one, the
  variant for arguments on the support agrees with the general one, and the centre of charge is the
  position of the particle.
\<close>

locale interpolation_shape = assignment_shape W supp for W :: "real \<Rightarrow> real" and supp :: int +
  fixes WS :: "real \<Rightarrow> real"
  assumes agree: "\<bar>x\<bar> \<le> of_int supp / 2 \<Longrightarrow> WS x = W x"
    and moment: "0 \<le> f \<Longrightarrow> f < 1 \<Longrightarrow> (\<Sum>g \<in> {- 2..3 :: int}. of_int g * W (of_int g - f)) = f"
begin

definition full :: "(int \<Rightarrow> real) \<Rightarrow> real \<Rightarrow> real" where
  "full G v = (\<Sum>g \<in> {\<lfloor>v\<rfloor> - 2..\<lfloor>v\<rfloor> + 3}. G g * W (of_int g - v))"

lemma full_window:
  assumes "\<And>g. \<bar>of_int g - v\<bar> < of_int supp / 2 \<Longrightarrow> a \<le> g \<and> g \<le> b"
  shows "(\<Sum>g \<in> {a..b}. G g * W (of_int g - v)) = full G v"
proof -
  let ?M = "{\<lfloor>v\<rfloor> - 2..\<lfloor>v\<rfloor> + 3}"
  have "W (of_int g - v) = 0" if "g \<notin> {a..b}" for g :: int
    using assms [of g] that by (intro vanish) force
  moreover have "W (of_int g - v) = 0" if "g \<notin> ?M" for g :: int
  proof (rule vanish)
    have "of_int g \<le> (of_int \<lfloor>v\<rfloor> :: real) - 3 \<or> (of_int \<lfloor>v\<rfloor> :: real) + 4 \<le> of_int g" using that by force
    then show "of_int supp / 2 \<le> \<bar>of_int g - v\<bar>" using supp_range(2) floor_correct [of v] by linarith
  qed
  ultimately have "(\<Sum>g \<in> {a..b}. G g * W (of_int g - v)) = (\<Sum>g \<in> {a..b} \<union> ?M. G g * W (of_int g - v))"
    "(\<Sum>g \<in> ?M. G g * W (of_int g - v)) = (\<Sum>g \<in> {a..b} \<union> ?M. G g * W (of_int g - v))"
    by (auto intro!: sum.mono_neutral_left)
  then show ?thesis by (simp add: full_def)
qed

lemma full_affine: "full (\<lambda>g. c + k * of_int g) v = c + k * v"
proof -
  have fr: "v = of_int \<lfloor>v\<rfloor> + frac v" by (simp add: frac_def)
  have m: "(\<Sum>g \<in> {\<lfloor>v\<rfloor> - 2..\<lfloor>v\<rfloor> + 3}. of_int g * W (of_int g - v)) =
      (\<Sum>g \<in> {- 2..3 :: int}. (of_int g + of_int \<lfloor>v\<rfloor>) * W (of_int g - frac v))"
    by (rule sum.reindex_bij_witness [of _ "\<lambda>g. g + \<lfloor>v\<rfloor>" "\<lambda>g. g - \<lfloor>v\<rfloor>"]) (auto simp: frac_def)
  have "(\<Sum>g \<in> {- 2..3 :: int}. (of_int g + of_int \<lfloor>v\<rfloor>) * W (of_int g - frac v)) =
      (\<Sum>g \<in> {- 2..3 :: int}. of_int g * W (of_int g - frac v)) +
      of_int \<lfloor>v\<rfloor> * (\<Sum>g \<in> {- 2..3 :: int}. W (of_int g - frac v))"
    by (simp add: distrib_right sum.distrib sum_distrib_left)
  also have "\<dots> = frac v + of_int \<lfloor>v\<rfloor>" using moment [of "frac v"] unity [of "frac v"] by (simp add: frac_lt_1)
  finally have "(\<Sum>g \<in> {\<lfloor>v\<rfloor> - 2..\<lfloor>v\<rfloor> + 3}. of_int g * W (of_int g - v)) = v" using m fr by linarith
  then show ?thesis
    unfolding full_def using unity_at [of v]
    by (simp add: distrib_right sum.distrib sum_distrib_left [symmetric] mult.assoc)
qed

lemma supp_cases: "supp = 1 \<or> supp = 2 \<or> supp = 3 \<or> supp = 4 \<or> supp = 5"
  using supp_range by linarith

text \<open>The sum over the shifted system and the sum over the margins of the native variant.\<close>

lemma shifted_sum:
  assumes v: "- 1 / 2 \<le> v" "v < 3 / 2"
    and off: "off = GetOffsetToStaticShapeSystem (supp mod 2 = 0) v"
    and lo: "lo = (- supp) sdiv 2 + (supp + 1) smod 2"
  shows "(\<Sum>g \<in> {lo..lo + supp - 1}. G (g + off) * WS (of_int g - (v - of_int off))) = full G v"
proof -
  have pos: "if supp mod 2 = 0 then 0 \<le> v - of_int off \<and> v - of_int off < 1
      else - 1 / 2 \<le> v - of_int off \<and> v - of_int off < 1 / 2"
    using v off by (auto simp: GetOffsetToStaticShapeSystem_def floor_correct, linarith+)
  have bounds: "if supp mod 2 = 0 then 2 * lo = 2 - supp else 2 * lo = 1 - supp"
    using supp_cases lo by (auto simp: signed_divide_int_def signed_modulo_int_def)
  have lor: "if supp mod 2 = 0 then 2 * of_int lo = 2 - (of_int supp :: real)
      else 2 * of_int lo = 1 - (of_int supp :: real)"
  proof (cases "supp mod 2 = 0")
    case True
    with bounds have "real_of_int (2 * lo) = real_of_int (2 - supp)" by simp
    with True show ?thesis by simp
  next
    case False
    with bounds have "real_of_int (2 * lo) = real_of_int (1 - supp)" by simp
    with False show ?thesis by simp
  qed
  have "WS (of_int g - (v - of_int off)) = W (of_int (g + off) - v)" if "g \<in> {lo..lo + supp - 1}" for g
  proof -
    have "lo \<le> g" "g \<le> lo + supp - 1" using that by auto
    then have "of_int lo \<le> (of_int g :: real)" "of_int g \<le> of_int lo + of_int supp - (1 :: real)"
      by linarith+
    then have "of_int g - (v - of_int off) \<le> of_int supp / 2" "- (of_int g - (v - of_int off)) \<le> of_int supp / 2"
      using pos lor by (auto split: if_splits)
    then have "\<bar>of_int g - (v - of_int off)\<bar> \<le> of_int supp / 2" by (rule abs_leI)
    then show ?thesis by (simp add: agree algebra_simps)
  qed
  then have "(\<Sum>g \<in> {lo..lo + supp - 1}. G (g + off) * WS (of_int g - (v - of_int off))) =
      (\<Sum>g \<in> {lo..lo + supp - 1}. G (g + off) * W (of_int (g + off) - v))"
    by (intro sum.cong) auto
  also have "\<dots> = (\<Sum>g \<in> {lo + off..lo + supp - 1 + off}. G g * W (of_int g - v))"
    by (rule sum.reindex_bij_witness [of _ "\<lambda>g. g - off" "\<lambda>g. g + off"]) auto
  also have "\<dots> = full G v"
  proof (rule full_window)
    fix g :: int
    assume g: "\<bar>of_int g - v\<bar> < of_int supp / 2"
    have "of_int g - v < of_int supp / 2" "v - of_int g < of_int supp / 2"
      using g by (simp_all only: abs_less_iff) simp_all
    then have "of_int lo + of_int off - 1 < (of_int g :: real)" "of_int g < (of_int lo + of_int supp + of_int off :: real)"
      using pos lor by (auto split: if_splits)
    then have "real_of_int (lo + off - 1) < real_of_int g" "real_of_int g < real_of_int (lo + supp + off)"
      by simp_all
    then have "lo + off - 1 < g" "g < lo + supp + off" by (simp_all only: of_int_less_iff)
    then show "lo + off \<le> g \<and> g \<le> lo + supp - 1 + off" by linarith
  qed
  finally show ?thesis .
qed

lemma native_sum:
  assumes v: "- 1 / 2 \<le> v" "v < 1"
  shows "(\<Sum>g \<in> {- (supp sdiv 2)..(supp + 1) sdiv 2}. G g * W (of_int g - v)) = full G v"
proof (rule full_window)
  fix g :: int
  assume g: "\<bar>of_int g - v\<bar> < of_int supp / 2"
  have "of_int g - v < of_int supp / 2" "v - of_int g < of_int supp / 2"
    using g by (simp_all only: abs_less_iff) simp_all
  then have "real_of_int (- supp - 1) < real_of_int (2 * g)" "real_of_int (2 * g) < real_of_int (supp + 2)"
    using v by simp_all
  then have "- supp - 1 < 2 * g" "2 * g < supp + 2" by (simp_all only: of_int_less_iff)
  then show "- (supp sdiv 2) \<le> g \<and> g \<le> (supp + 1) sdiv 2"
    using supp_cases by (auto simp: signed_divide_int_def)
qed

end

lemma CIC_moment: "0 \<le> f \<Longrightarrow> f < 1 \<Longrightarrow> (\<Sum>g \<in> {- 2..3 :: int}. of_int g * CIC_ChargeAssignment (of_int g - f)) = f"
  unfolding sum_window by (cases "f = 0") (simp_all add: form_factors)

lemma TSC_moment: "0 \<le> f \<Longrightarrow> f < 1 \<Longrightarrow> (\<Sum>g \<in> {- 2..3 :: int}. of_int g * TSC_ChargeAssignment (of_int g - f)) = f"
  unfolding sum_window by (cases "f = 1 / 2", simp add: form_factors, cases "f < 1 / 2") (simp_all add: form_factors field_simps)

lemma PCS_moment: "0 \<le> f \<Longrightarrow> f < 1 \<Longrightarrow> (\<Sum>g \<in> {- 2..3 :: int}. of_int g * PCS_ChargeAssignment (of_int g - f)) = f"
  unfolding sum_window by (cases "f = 0") (simp_all add: form_factors field_simps)

lemma P4S_moment:
  assumes "0 \<le> f" "f < 1"
  shows "(\<Sum>g \<in> {- 2..3 :: int}. of_int g * P4S_ChargeAssignment (of_int g - f)) = f"
proof -
  consider "f < 1 / 2" | "f = 1 / 2" | "1 / 2 < f" by linarith
  then show ?thesis
  proof cases
    case 2
    then show ?thesis unfolding sum_window 2 by (simp add: form_factors)
  qed (use assms in \<open>simp_all add: sum_window form_factors field_simps\<close>)
qed

interpretation CIC_interp: interpolation_shape CIC_ChargeAssignment 2 CIC_OnSupport
  by unfold_locales (simp_all add: CIC_moment, auto simp: form_factors)

interpretation TSC_interp: interpolation_shape TSC_ChargeAssignment 3 TSC_OnSupport
  by unfold_locales (simp_all add: TSC_moment, simp add: form_factors)

interpretation PCS_interp: interpolation_shape PCS_ChargeAssignment 4 PCS_OnSupport
  by unfold_locales (simp_all add: PCS_moment, simp add: form_factors)

interpretation P4S_interp: interpolation_shape P4S_ChargeAssignment 5 P4S_OnSupport
  by unfold_locales (simp_all add: P4S_moment, simp add: form_factors)

section \<open>Sums over two and three dimensions\<close>

lemma foldl_sum: "foldl (\<lambda>r x. r + (F x :: real)) 0 [a..b] = (\<Sum>x \<in> {a..b}. F x)"
proof -
  have "foldl (\<lambda>r x. r + F x) c xs = c + sum_list (map F xs)" for c and xs :: "int list"
    by (induction xs arbitrary: c) simp_all
  then show ?thesis by (simp add: sum_list_upto)
qed

lemma interpolate3_sum:
  "interpolate3 A lo hi F (FunctorCursor (BufferCursor [cx, cy, cz]) k) [px, py, pz] =
     (\<Sum>z \<in> {lo..hi}. (\<Sum>y \<in> {lo..hi}. (\<Sum>x \<in> {lo..hi}.
        F ([cx + x, cy + y, cz + z], k) * A (of_int x - px)) * A (of_int y - py)) * A (of_int z - pz))"
  by (simp add: interpolate3_def foldl_sum vec_simps)

lemma interpolate2_sum:
  "interpolate2 A lo hi F (FunctorCursor (BufferCursor [cx, cy]) k) [px, py] =
     (\<Sum>y \<in> {lo..hi}. (\<Sum>x \<in> {lo..hi}.
        F ([cx + x, cy + y], k) * A (of_int x - px)) * A (of_int y - py))"
  by (simp add: interpolate2_def foldl_sum vec_simps)

lemma Shift3:
  "ShiftCoordinateSystem [sp, sp, sp] (FunctorCursor (BufferCursor [cx, cy, cz]) k) [px, py, pz] [fx, fy, fz] =
     (let off = GetOffsetToStaticShapeSystem (sp mod 2 = 0)
      in (FunctorCursor (BufferCursor [cx + off (px - fx), cy + off (py - fy), cz + off (pz - fz)]) k,
          [px - fx - of_int (off (px - fx)), py - fy - of_int (off (py - fy)), pz - fz - of_int (off (pz - fz))]))"
  by (simp add: ShiftCoordinateSystem_def AssignToDim_def Let_def vec_simps upt_rec numeral_3_eq_3)

lemma Shift2:
  "ShiftCoordinateSystem [sp, sp] (FunctorCursor (BufferCursor [cx, cy]) k) [px, py] [fx, fy] =
     (let off = GetOffsetToStaticShapeSystem (sp mod 2 = 0)
      in (FunctorCursor (BufferCursor [cx + off (px - fx), cy + off (py - fy)]) k,
          [px - fx - of_int (off (px - fx)), py - fy - of_int (off (py - fy))]))"
  by (simp add: ShiftCoordinateSystem_def AssignToDim_def Let_def vec_simps upt_rec numeral_2_eq_2)

lemma ShiftNative3:
  "ShiftCoordinateSystemNative c [px, py, pz] [fx, fy, fz] = (c, [px - fx, py - fy, pz - fz])"
  by (simp add: ShiftCoordinateSystemNative_def upt_rec)

lemma ShiftNative2: "ShiftCoordinateSystemNative c [px, py] [fx, fy] = (c, [px - fx, py - fy])"
  by (simp add: ShiftCoordinateSystemNative_def upt_rec)

text \<open>A shape as the interpolation uses it, and the interpolation as a product of full sums.\<close>

definition interp_ok :: "Shape \<Rightarrow> bool" where
  "interp_ok s \<longleftrightarrow> interpolation_shape (ChargeAssignment s) (support s) (ChargeAssignmentOnSupport s)"

lemma continuous_shapes_interp: "list_all interp_ok [CIC, TSC, PCS, P4S]"
  using CIC_interp.interpolation_shape_axioms TSC_interp.interpolation_shape_axioms
    PCS_interp.interpolation_shape_axioms P4S_interp.interpolation_shape_axioms
  by (simp add: interp_ok_def shape_records)

definition fullSum :: "Shape \<Rightarrow> (int \<Rightarrow> real) \<Rightarrow> real \<Rightarrow> real" where
  "fullSum s G v = (\<Sum>g \<in> {\<lfloor>v\<rfloor> - 2..\<lfloor>v\<rfloor> + 3}. G g * ChargeAssignment s (of_int g - v))"

definition in_cell :: "real \<Rightarrow> real \<Rightarrow> bool" where
  "in_cell p f \<longleftrightarrow> 0 \<le> p \<and> p < 1 \<and> 0 \<le> f \<and> f \<le> 1 / 2"

lemma interp_shifted:
  assumes "interp_ok s" "- 1 / 2 \<le> v" "v < 1"
  shows "(\<Sum>g \<in> {interpolationBegin s..interpolationEnd s}.
      G (g + GetOffsetToStaticShapeSystem (support s mod 2 = 0) v) *
      ChargeAssignmentOnSupport s (of_int g - (v - of_int (GetOffsetToStaticShapeSystem (support s mod 2 = 0) v)))) =
    fullSum s G v"
  using interpolation_shape.shifted_sum [OF assms(1) [unfolded interp_ok_def], of v _ "interpolationBegin s" G]
    assms(2,3) interpolation_shape.full_def [OF assms(1) [unfolded interp_ok_def], of G v]
  by (simp add: interpolationBegin_def interpolationEnd_def fullSum_def)

lemma interp_shifted_at:
  assumes "interp_ok s" "in_cell p f"
  shows "(\<Sum>g \<in> {interpolationBegin s..interpolationEnd s}.
      G (c + GetOffsetToStaticShapeSystem (support s mod 2 = 0) (p - f) + g) *
      ChargeAssignmentOnSupport s
        (of_int g - (p - f - of_int (GetOffsetToStaticShapeSystem (support s mod 2 = 0) (p - f))))) =
    fullSum s (\<lambda>g. G (c + g)) (p - f)"
  using interp_shifted [OF assms(1), of "p - f" "\<lambda>g. G (c + g)"] assms(2)
  by (simp add: in_cell_def add_ac)

lemma interp_native:
  assumes "interp_ok s" "- 1 / 2 \<le> v" "v < 1"
  shows "(\<Sum>g \<in> {- lowerMargin s..upperMargin s}. G g * ChargeAssignment s (of_int g - v)) = fullSum s G v"
  using interpolation_shape.native_sum [OF assms(1) [unfolded interp_ok_def] assms(2,3), of G]
    interpolation_shape.full_def [OF assms(1) [unfolded interp_ok_def], of G v]
  by (simp add: lowerMargin_def upperMargin_def fullSum_def)

lemma interp_affine:
  assumes "interp_ok s"
  shows "fullSum s (\<lambda>g. c + k * of_int g) v = c + k * v"
  using interpolation_shape.full_affine [OF assms [unfolded interp_ok_def], of c k v]
    interpolation_shape.full_def [OF assms [unfolded interp_ok_def], of "\<lambda>g. c + k * of_int g" v]
  by (simp add: fullSum_def)

definition fieldValue :: "Shape \<Rightarrow> vectorField \<Rightarrow> DataSpace \<Rightarrow> nat \<Rightarrow> real vec \<Rightarrow> real" where
  "fieldValue s F cell k v =
     (if length v = 3
      then fullSum s (\<lambda>z. fullSum s (\<lambda>y. fullSum s (\<lambda>x.
             F ([cell ! 0 + x, cell ! 1 + y, cell ! 2 + z], k)) (v ! 0)) (v ! 1)) (v ! 2)
      else fullSum s (\<lambda>y. fullSum s (\<lambda>x. F ([cell ! 0 + x, cell ! 1 + y], k)) (v ! 0)) (v ! 1))"

lemma interp_native_at:
  assumes "interp_ok s" "in_cell p f"
  shows "(\<Sum>g \<in> {- lowerMargin s..upperMargin s}. G g * ChargeAssignment s (of_int g - (p - f))) = fullSum s G (p - f)"
  using assms by (intro interp_native) (auto simp: in_cell_def)

text \<open>One component of the interpolated field, for both variants and both dimensions.\<close>

lemma component3:
  assumes s: "interp_ok s" and p: "in_cell px fx" "in_cell py fy" "in_cell pz fz"
  shows "(let (c, q) = ShiftCoordinateSystem [support s, support s, support s]
             (FunctorCursor (BufferCursor [cx, cy, cz]) k) [px, py, pz] [fx, fy, fz]
          in interpolate (ChargeAssignmentOnSupport s) (interpolationBegin s) (interpolationEnd s) F c q) =
        fieldValue s F [cx, cy, cz] k [px - fx, py - fy, pz - fz]"
    and "(let (c, q) = ShiftCoordinateSystemNative
             (FunctorCursor (BufferCursor [cx, cy, cz]) k) [px, py, pz] [fx, fy, fz]
          in interpolate (ChargeAssignment s) (- lowerMargin s) (upperMargin s) F c q) =
        fieldValue s F [cx, cy, cz] k [px - fx, py - fy, pz - fz]"
  unfolding Shift3 ShiftNative3 Let_def prod.case interpolate_def
  by (simp_all add: interpolate3_sum fieldValue_def interp_native_at [OF s] p
      interp_shifted_at [OF s p(1), of "\<lambda>x. F ([x, b, c], k)" for b c]
      interp_shifted_at [OF s p(2), of "\<lambda>y. fullSum s (\<lambda>x. F ([cx + x, y, c], k)) (px - fx)" for c]
      interp_shifted_at [OF s p(3), of "\<lambda>z. fullSum s (\<lambda>y. fullSum s (\<lambda>x. F ([cx + x, cy + y, z], k)) (px - fx)) (py - fy)"])

lemma component2:
  assumes s: "interp_ok s" and p: "in_cell px fx" "in_cell py fy"
  shows "(let (c, q) = ShiftCoordinateSystem [support s, support s]
             (FunctorCursor (BufferCursor [cx, cy]) k) [px, py] [fx, fy]
          in interpolate (ChargeAssignmentOnSupport s) (interpolationBegin s) (interpolationEnd s) F c q) =
        fieldValue s F [cx, cy] k [px - fx, py - fy]"
    and "(let (c, q) = ShiftCoordinateSystemNative (FunctorCursor (BufferCursor [cx, cy]) k) [px, py] [fx, fy]
          in interpolate (ChargeAssignment s) (- lowerMargin s) (upperMargin s) F c q) =
        fieldValue s F [cx, cy] k [px - fx, py - fy]"
  unfolding Shift2 ShiftNative2 Let_def prod.case interpolate_def
  by (simp_all add: interpolate2_sum fieldValue_def interp_native_at [OF s] p
      interp_shifted_at [OF s p(1), of "\<lambda>x. F ([x, b], k)" for b]
      interp_shifted_at [OF s p(2), of "\<lambda>y. fullSum s (\<lambda>x. F ([cx + x, y], k)) (px - fx)"])

section \<open>Properties\<close>

text \<open>A particle in its cell, and offsets of the field components in \<open>[0, 1/2]\<close>, in two or three
  dimensions.\<close>

definition pos_ok :: "DataSpace \<Rightarrow> real vec \<Rightarrow> real vec list \<Rightarrow> bool" where
  "pos_ok cell pos fieldPos \<longleftrightarrow>
     (length pos = 2 \<or> length pos = 3) \<and> length cell = length pos \<and> length fieldPos = 3 \<and>
     list_all (\<lambda>f. length f = length pos \<and> list_all2 in_cell pos f) fieldPos"

lemma length3_cases: "length v = 3 \<Longrightarrow> \<exists>x y z. v = [x, y, z]"
  by (simp add: numeral_3_eq_3 length_Suc_conv) blast

lemma length2_cases: "length v = 2 \<Longrightarrow> \<exists>x y. v = [x, y]"
  by (simp add: numeral_2_eq_2 length_Suc_conv) blast

lemma interpolation_components:
  assumes s: "interp_ok s" and p: "pos_ok cell pos fieldPos"
  shows "FieldToParticleInterpolation s F (BufferCursor cell) pos fieldPos =
      map (\<lambda>k. fieldValue s F cell k (map2 (-) pos (fieldPos ! k))) [0, 1, 2]"
    and "FieldToParticleInterpolationNative s F (BufferCursor cell) pos fieldPos =
      map (\<lambda>k. fieldValue s F cell k (map2 (-) pos (fieldPos ! k))) [0, 1, 2]"
proof -
  obtain f0 f1 f2 where f: "fieldPos = [f0, f1, f2]" using p length3_cases [of fieldPos] unfolding pos_ok_def by blast
  consider "length pos = 3" | "length pos = 2" using p by (auto simp: pos_ok_def)
  then have "FieldToParticleInterpolation s F (BufferCursor cell) pos fieldPos =
      map (\<lambda>k. fieldValue s F cell k (map2 (-) pos (fieldPos ! k))) [0, 1, 2] \<and>
    FieldToParticleInterpolationNative s F (BufferCursor cell) pos fieldPos =
      map (\<lambda>k. fieldValue s F cell k (map2 (-) pos (fieldPos ! k))) [0, 1, 2]"
  proof cases
    case 1
    then have "length cell = 3" "length f0 = 3" "length f1 = 3" "length f2 = 3" using p f by (auto simp: pos_ok_def)
    with 1 obtain cx cy cz px py pz x0 y0 z0 x1 y1 z1 x2 y2 z2 where
      "cell = [cx, cy, cz]" "pos = [px, py, pz]" "f0 = [x0, y0, z0]" "f1 = [x1, y1, z1]" "f2 = [x2, y2, z2]"
      using length3_cases by metis
    then show ?thesis using p f
      by (auto simp: pos_ok_def FieldToParticleInterpolation_def FieldToParticleInterpolationNative_def
          Let_def numeral_3_eq_3 split_def component3 [OF s, unfolded Let_def split_def])
  next
    case 2
    then have "length cell = 2" "length f0 = 2" "length f1 = 2" "length f2 = 2" using p f by (auto simp: pos_ok_def)
    with 2 obtain cx cy px py x0 y0 x1 y1 x2 y2 where
      "cell = [cx, cy]" "pos = [px, py]" "f0 = [x0, y0]" "f1 = [x1, y1]" "f2 = [x2, y2]"
      using length2_cases by metis
    then show ?thesis using p f
      by (auto simp: pos_ok_def FieldToParticleInterpolation_def FieldToParticleInterpolationNative_def
          Let_def numeral_2_eq_2 split_def component2 [OF s, unfolded Let_def split_def])
  qed
  then show "FieldToParticleInterpolation s F (BufferCursor cell) pos fieldPos =
      map (\<lambda>k. fieldValue s F cell k (map2 (-) pos (fieldPos ! k))) [0, 1, 2]"
    "FieldToParticleInterpolationNative s F (BufferCursor cell) pos fieldPos =
      map (\<lambda>k. fieldValue s F cell k (map2 (-) pos (fieldPos ! k))) [0, 1, 2]"
    by simp_all
qed

lemma fieldValue_affine:
  assumes s: "interp_ok s" and n: "length pos = 2 \<or> length pos = 3" "length cell = length pos" "length f = length pos"
    and F: "\<And>g. length g = length pos \<Longrightarrow> F (g, k) = c + (\<Sum>d < length pos. a d * (of_int (g ! d) + f ! d))"
  shows "fieldValue s F cell k (map2 (-) pos f) = c + (\<Sum>d < length pos. a d * (of_int (cell ! d) + pos ! d))"
  using n(1)
proof
  assume l: "length pos = 2"
  then obtain px py cx cy fx fy where e: "pos = [px, py]" "cell = [cx, cy]" "f = [fx, fy]"
    using n length2_cases by metis
  have F': "F ([cx + x, cy + y], k) =
      (c + a 0 * (of_int cx + fx) + a 1 * (of_int cy + of_int y + fy)) + a 0 * of_int x" for x y
    using F [of "[cx + x, cy + y]"] e by (simp add: numeral_2_eq_2 algebra_simps)
  have y: "c + a 0 * (of_int cx + fx) + a 1 * (of_int cy + of_int y + fy) + a 0 * (px - fx) =
      (c + a 0 * (of_int cx + px) + a 1 * (of_int cy + fy)) + a 1 * of_int y" for y
    by (simp add: algebra_simps)
  have "fieldValue s F cell k (map2 (-) pos f) = fullSum s (\<lambda>y. fullSum s (\<lambda>x. F ([cx + x, cy + y], k)) (px - fx)) (py - fy)"
    by (simp add: fieldValue_def e)
  then show ?thesis
    unfolding F' interp_affine [OF s] y by (simp add: e numeral_2_eq_2 algebra_simps)
next
  assume l: "length pos = 3"
  then obtain px py pz cx cy cz fx fy fz where e: "pos = [px, py, pz]" "cell = [cx, cy, cz]" "f = [fx, fy, fz]"
    using n length3_cases by metis
  have F': "F ([cx + x, cy + y, cz + z], k) =
      (c + a 0 * (of_int cx + fx) + a 1 * (of_int cy + of_int y + fy) + a 2 * (of_int cz + of_int z + fz)) + a 0 * of_int x" for x y z
    using F [of "[cx + x, cy + y, cz + z]"] e by (simp add: numeral_3_eq_3 numeral_2_eq_2 algebra_simps)
  have y: "c + a 0 * (of_int cx + fx) + a 1 * (of_int cy + of_int y + fy) + a 2 * (of_int cz + of_int z + fz) + a 0 * (px - fx) =
      (c + a 0 * (of_int cx + px) + a 1 * (of_int cy + fy) + a 2 * (of_int cz + of_int z + fz)) + a 1 * of_int y" for y z
    by (simp add: algebra_simps)
  have z: "c + a 0 * (of_int cx + px) + a 1 * (of_int cy + fy) + a 2 * (of_int cz + of_int z + fz) + a 1 * (py - fy) =
      (c + a 0 * (of_int cx + px) + a 1 * (of_int cy + py) + a 2 * (of_int cz + fz)) + a 2 * of_int z" for z
    by (simp add: algebra_simps)
  have "fieldValue s F cell k (map2 (-) pos f) = fullSum s (\<lambda>z. fullSum s (\<lambda>y. fullSum s (\<lambda>x.
      F ([cx + x, cy + y, cz + z], k)) (px - fx)) (py - fy)) (pz - fz)"
    by (simp add: fieldValue_def e)
  then show ?thesis
    unfolding F' interp_affine [OF s] y z by (simp add: e numeral_3_eq_3 numeral_2_eq_2 algebra_simps)
qed

text \<open>
  \<open>FieldToParticleInterpolation\<close>, which moves the coordinate system so that only the grid points
  on the support of the shape are summed and no range check is needed, gives the same field as
  \<open>FieldToParticleInterpolationNative\<close>, which sums over the whole margin with the general shape
  function, for every continuous shape, every field and every position of a particle in its cell.
\<close>

theorem interpolation_native_equivalent:
  assumes "s \<in> set [CIC, TSC, PCS, P4S]" "pos_ok cell pos fieldPos"
  shows "FieldToParticleInterpolation s F (BufferCursor cell) pos fieldPos =
    FieldToParticleInterpolationNative s F (BufferCursor cell) pos fieldPos"
  using assms interpolation_components continuous_shapes_interp by (auto simp: list_all_iff)

text \<open>
  C32. The interpolation is exact for fields that are affine in space: when every component of the
  field, taken at its position in the cell, is an affine function of the position, the particle
  sees the value of that function at its own position.
\<close>

theorem interpolation_exact_on_affine:
  assumes "s \<in> set [CIC, TSC, PCS, P4S]" "pos_ok cell pos fieldPos"
    and "\<And>g k. length g = length pos \<Longrightarrow> k < 3 \<Longrightarrow>
      F (g, k) = c k + (\<Sum>d < length pos. a k d * (of_int (g ! d) + fieldPos ! k ! d))"
  shows "FieldToParticleInterpolation s F (BufferCursor cell) pos fieldPos =
    map (\<lambda>k. c k + (\<Sum>d < length pos. a k d * (of_int (cell ! d) + pos ! d))) [0, 1, 2]"
proof -
  have s: "interp_ok s" using assms(1) continuous_shapes_interp by (auto simp: list_all_iff)
  have "length (fieldPos ! k) = length pos" if "k < 3" for k
    using assms(2) that by (simp add: pos_ok_def list_all_length)
  then have "fieldValue s F cell k (map2 (-) pos (fieldPos ! k)) =
      c k + (\<Sum>d < length pos. a k d * (of_int (cell ! d) + pos ! d))" if "k < 3" for k
    using assms(2,3) that by (intro fieldValue_affine [OF s]) (auto simp: pos_ok_def)
  then show ?thesis using interpolation_components(1) [OF s assms(2)] by simp
qed

text \<open>With the nearest grid point shape the native variant misses the grid point below a particle
  that sits on the lower face of its cell and sees no field at all.\<close>

lemma interpolation_native_NGP_loses_field:
  "FieldToParticleInterpolationNative NGP (\<lambda>r. 1) (BufferCursor [4, 5]) [0, 1/4] (getEFieldPosition 2) ! 0 = 0"
  "FieldToParticleInterpolation NGP (\<lambda>r. 1) (BufferCursor [4, 5]) [0, 1/4] (getEFieldPosition 2) ! 0 = 1"
  by (simp_all add: FieldToParticleInterpolationNative_def FieldToParticleInterpolation_def split_def Let_def
      getEFieldPosition_def ShiftNative2 Shift2 numeral_2_eq_2 interpolate_def interpolate2_sum NGP_def lowerMargin_def
      upperMargin_def interpolationBegin_def interpolationEnd_def signed_divide_int_def signed_modulo_int_def
      GetOffsetToStaticShapeSystem_def form_factors) (intro disjI2, auto)

section \<open>Witnesses\<close>

lemma yee_positions_ok: "pos_ok [4, 5, 6] [1/4, 0, 7/8] (getEFieldPosition 3)" "pos_ok [4, 5] [0, 1/2] (getBFieldPosition 2)"
  by (simp_all add: pos_ok_def getEFieldPosition_def getBFieldPosition_def in_cell_def)

theorem interpolation_native_equivalent_witness:
  "FieldToParticleInterpolation TSC (\<lambda>(g, k). real_of_int (g ! 0) ^ 2) (BufferCursor [4, 5, 6]) [1/4, 0, 7/8] (getEFieldPosition 3) =
    FieldToParticleInterpolationNative TSC (\<lambda>(g, k). real_of_int (g ! 0) ^ 2) (BufferCursor [4, 5, 6]) [1/4, 0, 7/8] (getEFieldPosition 3)"
  by (rule interpolation_native_equivalent [OF _ yee_positions_ok(1)]) simp

theorem interpolation_exact_on_affine_witness:
  "FieldToParticleInterpolation CIC
     (\<lambda>(g, k). 2 + (\<Sum>d < 2. 3 * (of_int (g ! d) + getBFieldPosition 2 ! k ! d)))
     (BufferCursor [4, 5]) [0, 1/2] (getBFieldPosition 2) = [2 + 57/2, 2 + 57/2, 2 + 57/2]"
proof -
  have "FieldToParticleInterpolation CIC
     (\<lambda>(g, k). 2 + (\<Sum>d < 2. 3 * (of_int (g ! d) + getBFieldPosition 2 ! k ! d)))
     (BufferCursor [4, 5]) [0, 1/2] (getBFieldPosition 2) =
    map (\<lambda>k. 2 + (\<Sum>d < length [0, 1/2 :: real]. 3 * (of_int ([4, 5] ! d) + [0, 1/2] ! d))) [0, 1, 2 :: nat]"
    by (rule interpolation_exact_on_affine [where c = "\<lambda>k. 2" and a = "\<lambda>k d. 3", OF _ yee_positions_ok(2)])
      (simp_all add: numeral_2_eq_2)
  then show ?thesis by (simp add: numeral_2_eq_2)
qed

end
