(* ===== verification/LeheSolver.thy ===== *)
theory LeheSolver
  imports Maxwell
begin

text \<open>
  Models the curl of the field solver after Lehe (fields/MaxwellSolver/Lehe/LeheCurl.hpp) over real numbers, for the
  distinguished directions x and y, with which \<open>YeeSolver\<close> advances the magnetic field. The curl for y is built from
  differences that are weighted stencils; any two stencils commute, so the scheme is an instance of
  \<open>difference_scheme\<close> and keeps the divergence that belongs to its differences. The curl for x indexes the box in
  the wrong order.
\<close>

section \<open>Coefficients\<close>

record LeheCoefficients =
  beta_xy :: real
  beta_xz :: real
  beta_yx :: real
  beta_yz :: real
  beta_zx :: real
  beta_zy :: real
  delta_dir0 :: real
  alpha_x :: real
  alpha_y :: real
  alpha_z :: real

definition leheCoefficients :: "PhysUnits \<Rightarrow> real \<Rightarrow> real \<Rightarrow> real \<Rightarrow> LeheCoefficients" where
  "leheCoefficients u isDir_x isDir_y isDir_z =
     (let isNotDir_x = 1 - isDir_x; isNotDir_y = 1 - isDir_y; isNotDir_z = 1 - isDir_z;
          dx2 = cellSize u ! 0 * cellSize u ! 0; dy2 = cellSize u ! 1 * cellSize u ! 1; dz2 = cellSize u ! 2 * cellSize u ! 2;
          dt2 = DELTA_T u * DELTA_T u; c2 = SPEED_OF_LIGHT u * SPEED_OF_LIGHT u;
          bxy = 0.125 * dx2 / dy2 * isDir_x + 0.125 * isNotDir_x * isDir_y;
          bxz = 0.125 * dx2 / dz2 * isDir_x + 0.125 * isNotDir_x * isDir_z;
          byx = 0.125 * dy2 / dx2 * isDir_y + 0.125 * isNotDir_y * isDir_x;
          byz = 0.125 * dy2 / dz2 * isDir_y + 0.125 * isNotDir_y * isDir_z;
          bzx = 0.125 * dz2 / dx2 * isDir_z + 0.125 * isNotDir_z * isDir_x;
          bzy = 0.125 * dz2 / dy2 * isDir_z + 0.125 * isNotDir_z * isDir_y;
          d_dir = cellSize u ! 0 * isDir_x + cellSize u ! 1 * isDir_y + cellSize u ! 2 * isDir_z;
          d_dir2 = d_dir * d_dir;
          mySin = sin (0.5 * pi * SPEED_OF_LIGHT u * DELTA_T u / d_dir);
          delta = 0.25 * (1 - d_dir2 / (c2 * dt2) * mySin * mySin)
      in \<lparr>beta_xy = bxy, beta_xz = bxz, beta_yx = byx, beta_yz = byz, beta_zx = bzx, beta_zy = bzy, delta_dir0 = delta,
          alpha_x = 1 - 2 * bxy * isNotDir_x * isDir_y - 2 * bxz * isNotDir_x * isDir_z - 2 * bxy * isDir_x - 2 * bxz * isDir_x
            - 3 * delta * isDir_x,
          alpha_y = 1 - 2 * byx * isNotDir_y * isDir_x - 2 * byz * isNotDir_y * isDir_z - 2 * byx * isDir_y - 2 * byz * isDir_y
            - 3 * delta * isDir_y,
          alpha_z = 1 - 2 * bzx * isNotDir_z * isDir_x - 2 * bzy * isNotDir_z * isDir_y - 2 * bzx * isDir_z - 2 * bzy * isDir_z
            - 3 * delta * isDir_z\<rparr>)"

section \<open>Curls\<close>

text \<open>\<open>mem[a][b][c]\<close> of a three-dimensional box is the value at \<open>z = a\<close>, \<open>y = b\<close>, \<open>x = c\<close>.\<close>

definition CurlELehe_X :: "PhysUnits \<Rightarrow> (DataSpace \<Rightarrow> real vec) \<Rightarrow> real vec" where
  "CurlELehe_X u mem =
     (let k = leheCoefficients u 1 0 0; m = (\<lambda>a b c. mem [c, b, a]);
          reci_dx = 1 / cellSize u ! 0; reci_dy = 1 / cellSize u ! 1; reci_dz = 1 / cellSize u ! 2;
          curl_x = (alpha_y k * (zc (m 0 0 0) - zc (m 0 (-1) 0)) + beta_yx k * (zc (m 1 0 0) - zc (m 1 (-1) 0))
                      + beta_yx k * (zc (m (-1) 0 0) - zc (m (-1) (-1) 0))) * reci_dy
                   - (alpha_z k * (yc (m 0 0 0) - yc (m 0 0 (-1))) + beta_zx k * (yc (m 1 0 0) - yc (m 1 0 (-1)))
                      + beta_zx k * (yc (m (-1) 0 0) - yc (m (-1) 0 (-1)))) * reci_dz;
          curl_y = (alpha_z k * (xc (m 0 0 0) - xc (m 0 0 (-1))) + beta_zx k * (xc (m 1 0 0) - xc (m 1 0 (-1)))
                      + beta_zx k * (xc (m (-1) 0 0) - xc (m (-1) 0 (-1)))) * reci_dz
                   - (alpha_x k * (zc (m 0 0 0) - zc (m (-1) 0 0)) + delta_dir0 k * (zc (m 1 0 0) - zc (m (-2) 0 0))
                      + beta_xy k * (zc (m 0 1 0) - zc (m (-1) 1 0)) + beta_xy k * (zc (m 0 (-1) 0) - zc (m (-1) (-1) 0))
                      + beta_xz k * (zc (m 0 0 1) - zc (m (-1) 0 1)) + beta_xz k * (zc (m 0 0 (-1)) - zc (m (-1) 0 (-1)))) * reci_dx;
          curl_z = (alpha_x k * (yc (m 0 0 0) - yc (m (-1) 0 0)) + delta_dir0 k * (yc (m 1 0 0) - yc (m (-2) 0 0))
                      + beta_xy k * (yc (m 0 1 0) - yc (m (-1) 1 0)) + beta_xy k * (yc (m 0 (-1) 0) - yc (m (-1) (-1) 0))
                      + beta_xz k * (yc (m 0 0 1) - yc (m (-1) 0 1)) + beta_xz k * (yc (m 0 0 (-1)) - yc (m (-1) 0 (-1)))) * reci_dx
                   - (alpha_y k * (xc (m 0 0 0) - xc (m 0 (-1) 0)) + beta_yx k * (xc (m 1 0 0) - xc (m 1 (-1) 0))
                      + beta_yx k * (xc (m (-1) 0 0) - xc (m (-1) (-1) 0))) * reci_dy
      in [curl_x, curl_y, curl_z])"

definition CurlELehe_Y :: "PhysUnits \<Rightarrow> (DataSpace \<Rightarrow> real vec) \<Rightarrow> real vec" where
  "CurlELehe_Y u mem =
     (let k = leheCoefficients u 0 1 0; m = (\<lambda>x y z. mem [x * -1, y * -1, z * -1]);
          reci_dx = 1 / cellSize u ! 0; reci_dy = 1 / cellSize u ! 1; reci_dz = 1 / cellSize u ! 2;
          curl_x = (alpha_y k * (zc (m 0 0 0) - zc (m 0 (-1) 0)) + beta_yz k * (zc (m 0 0 1) - zc (m 0 (-1) 1))
                      + beta_yz k * (zc (m 0 0 (-1)) - zc (m 0 (-1) (-1))) + beta_yx k * (zc (m 1 0 0) - zc (m 1 (-1) 0))
                      + beta_yx k * (zc (m (-1) 0 0) - zc (m (-1) (-1) 0)) + delta_dir0 k * (zc (m 0 1 0) - zc (m 0 (-2) 0))) * reci_dy
                   - (alpha_z k * (yc (m 0 0 0) - yc (m 0 0 (-1))) + beta_zx k * (yc (m 1 0 0) - yc (m 1 0 (-1)))
                      + beta_zx k * (yc (m (-1) 0 0) - yc (m (-1) 0 (-1))) + beta_zy k * (yc (m 0 1 0) - yc (m 0 1 (-1)))
                      + beta_zy k * (yc (m 0 (-1) 0) - yc (m 0 (-1) (-1)))) * reci_dz;
          curl_y = (alpha_z k * (xc (m 0 0 0) - xc (m 0 0 (-1))) + beta_zx k * (xc (m 1 0 0) - xc (m 1 0 (-1)))
                      + beta_zx k * (xc (m (-1) 0 0) - xc (m (-1) 0 (-1))) + beta_zy k * (xc (m 0 1 0) - xc (m 0 1 (-1)))
                      + beta_zy k * (xc (m 0 (-1) 0) - xc (m 0 (-1) (-1)))) * reci_dz
                   - (alpha_x k * (zc (m 0 0 0) - zc (m (-1) 0 0)) + beta_xy k * (zc (m 0 1 0) - zc (m (-1) 1 0))
                      + beta_xy k * (zc (m 0 (-1) 0) - zc (m (-1) (-1) 0)) + beta_xz k * (zc (m 0 0 1) - zc (m (-1) 0 1))
                      + beta_xz k * (zc (m 0 0 (-1)) - zc (m (-1) 0 (-1)))) * reci_dx;
          curl_z = (alpha_x k * (yc (m 0 0 0) - yc (m (-1) 0 0)) + beta_xy k * (yc (m 0 1 0) - yc (m (-1) 1 0))
                      + beta_xy k * (yc (m 0 (-1) 0) - yc (m (-1) (-1) 0)) + beta_xz k * (yc (m 0 0 1) - yc (m (-1) 0 1))
                      + beta_xz k * (yc (m 0 0 (-1)) - yc (m (-1) 0 (-1)))) * reci_dx
                   - (alpha_y k * (xc (m 0 0 0) - xc (m 0 (-1) 0)) + beta_yz k * (xc (m 0 0 1) - xc (m 0 (-1) 1))
                      + beta_yz k * (xc (m 0 0 (-1)) - xc (m 0 (-1) (-1))) + beta_yx k * (xc (m 1 0 0) - xc (m 1 (-1) 0))
                      + beta_yx k * (xc (m (-1) 0 0) - xc (m (-1) (-1) 0)) + delta_dir0 k * (xc (m 0 1 0) - xc (m 0 (-2) 0))) * reci_dy
      in [- curl_x, - curl_y, - curl_z])"

definition leheUpdateBHalf :: "PhysUnits \<Rightarrow> DataSpace list \<Rightarrow> vectorField \<Rightarrow> vectorField \<Rightarrow> vectorField" where
  "leheUpdateBHalf u area fieldB fieldE =
     foldl (\<lambda>fieldB cell. KernelUpdateBHalf u (CurlELehe_Y u) fieldB fieldE cell) fieldB area"

section \<open>Stencils\<close>

definition stencil :: "(DataSpace \<times> real) list \<Rightarrow> (DataSpace \<Rightarrow> real) \<Rightarrow> DataSpace \<Rightarrow> real" where
  "stencil ws f g = (\<Sum>(p, w) \<leftarrow> ws. w * f (vec_add g p))"

lemma vec_add_left_commute: "vec_add (vec_add g p) q = vec_add (vec_add g q) p" for g p q :: "int list"
  by (simp add: vec_add_def vec_add_assign_def list_eq_iff_nth_eq)

lemma sum_list_exchange: "(\<Sum>x \<leftarrow> xs. \<Sum>y \<leftarrow> ys. f x y) = (\<Sum>y \<leftarrow> ys. \<Sum>x \<leftarrow> xs. f x y)" for f :: "'a \<Rightarrow> 'b \<Rightarrow> real"
  by (induction xs) (simp_all add: sum_list_addf)

lemma stencil_commute: "stencil ws (stencil vs f) g = stencil vs (stencil ws f) g"
proof -
  have "stencil ws (stencil vs f) g = (\<Sum>(p, w) \<leftarrow> ws. \<Sum>(q, v) \<leftarrow> vs. w * v * f (vec_add (vec_add g p) q))"
    by (simp add: stencil_def case_prod_unfold sum_list_const_mult [symmetric] mult.assoc)
  also have "\<dots> = (\<Sum>(q, v) \<leftarrow> vs. \<Sum>(p, w) \<leftarrow> ws. v * w * f (vec_add (vec_add g q) p))"
    unfolding case_prod_unfold by (subst sum_list_exchange) (simp add: mult.commute vec_add_left_commute)
  also have "\<dots> = stencil vs (stencil ws f) g"
    by (simp add: stencil_def case_prod_unfold sum_list_const_mult [symmetric] mult.assoc)
  finally show ?thesis .
qed

interpretation stencils: difference_scheme "\<lambda>d. stencil (W d)" for W
proof
  show "stencil (W d) (\<lambda>g. f g - h g) g = stencil (W d) f g - stencil (W d) h g" for d f h g
    by (simp add: stencil_def case_prod_unfold right_diff_distrib sum_list_subtractf)
qed (rule stencil_commute)

text \<open>The differences of the curl for the distinguished direction y.\<close>

definition pairTerm :: "real \<Rightarrow> DataSpace \<Rightarrow> DataSpace \<Rightarrow> (DataSpace \<times> real) list" where
  "pairTerm w a b = [(a, w), (b, - w)]"

definition leheStencil :: "PhysUnits \<Rightarrow> nat \<Rightarrow> (DataSpace \<times> real) list" where
  "leheStencil u d =
     (let k = leheCoefficients u 0 1 0; r = 1 / cellSize u ! d
      in if d = 0 then pairTerm (alpha_x k * r) [1, 0, 0] [0, 0, 0] @ pairTerm (beta_xy k * r) [1, -1, 0] [0, -1, 0]
             @ pairTerm (beta_xy k * r) [1, 1, 0] [0, 1, 0] @ pairTerm (beta_xz k * r) [1, 0, -1] [0, 0, -1] @ pairTerm (beta_xz k * r) [1, 0, 1] [0, 0, 1]
         else if d = 1 then pairTerm (alpha_y k * r) [0, 1, 0] [0, 0, 0] @ pairTerm (beta_yz k * r) [0, 1, -1] [0, 0, -1]
             @ pairTerm (beta_yz k * r) [0, 1, 1] [0, 0, 1] @ pairTerm (beta_yx k * r) [-1, 1, 0] [-1, 0, 0] @ pairTerm (beta_yx k * r) [1, 1, 0] [1, 0, 0]
             @ pairTerm (delta_dir0 k * r) [0, 2, 0] [0, -1, 0]
         else pairTerm (alpha_z k * r) [0, 0, 1] [0, 0, 0] @ pairTerm (beta_zx k * r) [-1, 0, 1] [-1, 0, 0]
             @ pairTerm (beta_zx k * r) [1, 0, 1] [1, 0, 0] @ pairTerm (beta_zy k * r) [0, -1, 1] [0, -1, 0] @ pairTerm (beta_zy k * r) [0, 1, 1] [0, 1, 0])"

lemma stencil_append: "stencil (ws @ vs) f g = stencil ws f g + stencil vs f g"
  by (simp add: stencil_def)

lemma stencil_pair: "stencil (pairTerm w a b) f g = w * (f (vec_add g a) - f (vec_add g b))"
  by (simp add: stencil_def pairTerm_def algebra_simps)

lemmas lehe_stencil = leheStencil_def Let_def stencil_append stencil_pair

lemma vec_add3: "vec_add [x, y, z] [a, b, c] = [x + a, y + b, z + c]" for x y z :: int
  by (simp add: vec_add_def vec_add_assign_def)

lemma boxShift_components: "boxShift F g i ! 0 = F (vec_add g i, 0)" "boxShift F g i ! Suc 0 = F (vec_add g i, Suc 0)" "boxShift F g i ! 2 = F (vec_add g i, 2)"
  by (simp_all add: boxShift_def numeral_2_eq_2)

lemma CurlELehe_Y_scheme:
  assumes "length g = 3" "c < 3"
  shows "CurlELehe_Y u (boxShift F g) ! c = stencils.schemeCurl (leheStencil u) (\<lambda>c g. F (g, c)) c g"
proof -
  obtain x y z where g: "g = [x, y, z]" using assms(1) by (rule length3E)
  consider "c = 0" | "c = 1" | "c = 2" using assms(2) by linarith
  then show ?thesis
    by cases (simp_all add: CurlELehe_Y_def stencils.schemeCurl_def lehe_stencil boxShift_components g vec_add3 algebra_simps)
qed

text \<open>Weights of the differences: their sum vanishes, and the first moment is one along their own axis only.\<close>

definition affineField :: "PhysUnits \<Rightarrow> (nat \<Rightarrow> real) \<Rightarrow> (nat \<Rightarrow> nat \<Rightarrow> real) \<Rightarrow> vectorField" where
  "affineField u a G = (\<lambda>(g, c). a c + (\<Sum>d < 3. G c d * (cellSize u ! d * real_of_int (g ! d))))"

lemma affineField3: "affineField u a G ([x, y, z], c) =
    a c + (G c 0 * (cellSize u ! 0 * x) + G c 1 * (cellSize u ! 1 * y) + G c 2 * (cellSize u ! 2 * z))"
  by (simp add: affineField_def lessThan_nat_numeral)

lemma coefficients_Y:
  "alpha_x (leheCoefficients u 0 1 0) = 1 - 2 * beta_xy (leheCoefficients u 0 1 0)" "beta_xz (leheCoefficients u 0 1 0) = 0"
  "alpha_y (leheCoefficients u 0 1 0) = 1 - 2 * beta_yx (leheCoefficients u 0 1 0) - 2 * beta_yz (leheCoefficients u 0 1 0) - 3 * delta_dir0 (leheCoefficients u 0 1 0)"
  "alpha_z (leheCoefficients u 0 1 0) = 1 - 2 * beta_zy (leheCoefficients u 0 1 0)" "beta_zx (leheCoefficients u 0 1 0) = 0"
  by (simp_all add: leheCoefficients_def Let_def)

lemma coefficients_X:
  "alpha_y (leheCoefficients u 1 0 0) = 1 - 2 * beta_yx (leheCoefficients u 1 0 0)" "beta_yz (leheCoefficients u 1 0 0) = 0"
  "alpha_x (leheCoefficients u 1 0 0) = 1 - 2 * beta_xy (leheCoefficients u 1 0 0) - 2 * beta_xz (leheCoefficients u 1 0 0) - 3 * delta_dir0 (leheCoefficients u 1 0 0)"
  "alpha_z (leheCoefficients u 1 0 0) = 1 - 2 * beta_zx (leheCoefficients u 1 0 0)" "beta_zy (leheCoefficients u 1 0 0) = 0"
  by (simp_all add: leheCoefficients_def Let_def)

lemma leheStencil_affine:
  assumes "cellSize u ! d \<noteq> 0" "d < 3"
  shows "stencil (leheStencil u d) (\<lambda>g. affineField u a G (g, c)) [x, y, z] = G c d"
proof -
  consider "d = 0" | "d = 1" | "d = 2" using assms(2) by linarith
  then show ?thesis using assms(1)
    by cases (simp_all add: lehe_stencil vec_add3 affineField3 coefficients_Y field_simps)
qed

lemma leheUpdateBHalf_at:
  assumes "distinct area"
  shows "leheUpdateBHalf u area B E (g, c) = B (g, c) +
    (if g \<in> set area \<and> c < 3 then - (CurlELehe_Y u (boxShift E g) ! c * 0.5 * DELTA_T u) else 0)"
  unfolding leheUpdateBHalf_def
  by (rule fold_cells [OF assms])
    (auto simp: KernelUpdateBHalf_def writeVec_def readVec_def vec_sub_assign_def vec_mul_s_def scalar_mul_assign_def Let_def CurlELehe_Y_def
      less_Suc_eq numeral_3_eq_3 numeral_2_eq_2)

definition leheDivergence :: "PhysUnits \<Rightarrow> vectorField \<Rightarrow> DataSpace \<Rightarrow> real" where
  "leheDivergence u F g = (\<Sum>d \<in> {..<3}. stencil (leheStencil u d) (\<lambda>g. F (g, d)) g)"

section \<open>Properties\<close>

text \<open>
  C22. A half step of the solver with distinguished direction y does not change the divergence of the magnetic field
  that belongs to its differences, at any cell that is updated together with the cells its stencils reach.
\<close>

theorem lehe_keeps_divB:
  assumes area: "distinct area" "\<forall>d < 3. \<forall>(p, w) \<in> set (leheStencil u d). vec_add g p \<in> set area \<and> length (vec_add g p) = 3"
  shows "leheDivergence u (leheUpdateBHalf u area B E) g = leheDivergence u B g"
proof -
  let ?H = "\<lambda>d h. stencils.schemeCurl (leheStencil u) (\<lambda>c g. E (g, c)) d h" and ?k = "- (0.5 * DELTA_T u)"
  have at: "stencil (leheStencil u d) (\<lambda>g. leheUpdateBHalf u area B E (g, d)) g
      = stencil (leheStencil u d) (\<lambda>g. B (g, d)) g + ?k * stencil (leheStencil u d) (?H d) g" if "d < 3" for d
  proof -
    have "w * leheUpdateBHalf u area B E (vec_add g p, d) = w * B (vec_add g p, d) + ?k * (w * ?H d (vec_add g p))" if "(p, w) \<in> set (leheStencil u d)" for p w
      using area that \<open>d < 3\<close> CurlELehe_Y_scheme [of "vec_add g p" d u E] by (fastforce simp: leheUpdateBHalf_at algebra_simps)
    then have "stencil (leheStencil u d) (\<lambda>g. leheUpdateBHalf u area B E (g, d)) g
        = (\<Sum>(p, w) \<leftarrow> leheStencil u d. w * B (vec_add g p, d) + ?k * (w * ?H d (vec_add g p)))"
      unfolding stencil_def by (intro arg_cong [of _ _ sum_list] map_cong) auto
    then show ?thesis unfolding stencil_def case_prod_unfold sum_list_addf sum_list_const_mult .
  qed
  have "leheDivergence u (leheUpdateBHalf u area B E) g
      = leheDivergence u B g + ?k * (\<Sum>d \<in> {..<3}. stencil (leheStencil u d) (?H d) g)"
    unfolding leheDivergence_def sum_distrib_left sum.distrib [symmetric] by (intro sum.cong refl) (simp add: at)
  then show ?thesis using stencils.div_schemeCurl [of "leheStencil u"] by simp
qed

text \<open>
  The solver with distinguished direction y is consistent: on every affine field its curl is the exact curl,
  for every cell size and time step, since the weights of the wide stencils sum up to those of the plain difference.
\<close>

theorem lehe_exact_on_affine:
  assumes "cellSize u ! 0 \<noteq> 0" "cellSize u ! 1 \<noteq> 0" "cellSize u ! 2 \<noteq> 0" "length g = 3"
  shows "CurlELehe_Y u (boxShift (affineField u a G) g) = [G 2 1 - G 1 2, G 0 2 - G 2 0, G 1 0 - G 0 1]"
proof (rule nth_equalityI)
  show "length (CurlELehe_Y u (boxShift (affineField u a G) g)) = length [G 2 1 - G 1 2, G 0 2 - G 2 0, G 1 0 - G 0 1]"
    by (simp add: CurlELehe_Y_def Let_def)
  fix c assume "c < length (CurlELehe_Y u (boxShift (affineField u a G) g))"
  then have c: "c < 3" by (simp add: CurlELehe_Y_def Let_def)
  obtain x y z where g: "g = [x, y, z]" using assms(4) by (rule length3E)
  consider "c = 0" | "c = 1" | "c = 2" using c by linarith
  then show "CurlELehe_Y u (boxShift (affineField u a G) g) ! c = [G 2 1 - G 1 2, G 0 2 - G 2 0, G 1 0 - G 0 1] ! c"
    using assms(1-3) CurlELehe_Y_scheme [OF assms(4) c, of u "affineField u a G"]
    by cases (simp_all add: stencils.schemeCurl_def leheStencil_affine g)
qed

text \<open>
  C40. The solver with distinguished direction x exchanges the axes. It writes the offsets in the order x, y, z, but the first
  index of a box is z: on an affine field it takes derivatives along x where those along z are meant and the
  other way round, scaled with the wrong cell size. The curl of a field whose x component is proportional to x, which has
  none, does not vanish.
\<close>

theorem lehe_X_exchanges_axes:
  assumes "cellSize u ! 0 \<noteq> 0" "cellSize u ! 1 \<noteq> 0" "cellSize u ! 2 \<noteq> 0" "length g = 3"
  shows "CurlELehe_X u (boxShift (affineField u a G) g)
    = [G 2 1 - G 1 0 * (cellSize u ! 0 / cellSize u ! 2),
       G 0 0 * (cellSize u ! 0 / cellSize u ! 2) - G 2 2 * (cellSize u ! 2 / cellSize u ! 0),
       G 1 2 * (cellSize u ! 2 / cellSize u ! 0) - G 0 1]"
proof -
  obtain x y z where g: "g = [x, y, z]" using assms(4) by (rule length3E)
  show ?thesis using assms(1-3)
    by (simp add: CurlELehe_X_def Let_def boxShift_components g vec_add3 affineField3 coefficients_X field_simps)
qed

definition sampleSlope :: "nat \<Rightarrow> nat \<Rightarrow> real" where
  "sampleSlope c d = (if c = 0 \<and> d = 0 then 2 else 0)"

definition sampleUnits :: PhysUnits where
  "sampleUnits = \<lparr>cellSize = [1, 1, 2], DELTA_T = 1 / 2, SPEED_OF_LIGHT = 1, EPS0 = 1\<rparr>"

theorem lehe_exact_on_affine_witness:
  "CurlELehe_Y sampleUnits (boxShift (affineField sampleUnits (\<lambda>c. 0) sampleSlope) [3, 4, 5]) = [0, 0, 0]"
  using lehe_exact_on_affine [of sampleUnits "[3, 4, 5]" "\<lambda>c. 0" sampleSlope] by (simp add: sampleUnits_def sampleSlope_def)

theorem lehe_X_exchanges_axes_witness:
  "CurlELehe_X sampleUnits (boxShift (affineField sampleUnits (\<lambda>c. 0) sampleSlope) [3, 4, 5]) = [0, 1, 0]"
  using lehe_X_exchanges_axes [of sampleUnits "[3, 4, 5]" "\<lambda>c. 0" sampleSlope] by (simp add: sampleUnits_def sampleSlope_def)

theorem lehe_keeps_divB_witness:
  "leheDivergence sampleUnits (leheUpdateBHalf sampleUnits (map (\<lambda>p. vec_add [1, 1, 1] p) (boxList [4, 4, 4]))
      (affineField sampleUnits (\<lambda>c. 0) sampleSlope) (\<lambda>(g, c). real_of_int (g ! 0 * g ! 1 * g ! 2))) [2, 2, 2] = 2"
proof -
  let ?area = "map (\<lambda>p. vec_add [1, 1, 1] p) (boxList [4, 4, 4])"
  have "distinct ?area" by code_simp
  moreover have "\<forall>d < 3. \<forall>(p, w) \<in> set (leheStencil sampleUnits d). vec_add [2, 2, 2] p \<in> set ?area \<and> length (vec_add [2, 2, 2] p) = 3"
  proof -
    have mem: "[a, b, c] \<in> set ?area" if "1 \<le> a" "a < 5" "1 \<le> b" "b < 5" "1 \<le> c" "c < 5" for a b c
    proof -
      have "[a, b, c] = vec_add [1, 1, 1] [a - 1, b - 1, c - 1]" by (simp add: vec_add3)
      moreover have "[a - 1, b - 1, c - 1] \<in> box [4, 4, 4]" using that by simp
      ultimately show ?thesis by (simp add: set_boxList del: boxList.simps)
    qed
    show ?thesis using mem by (auto simp: less_Suc_eq numeral_3_eq_3 leheStencil_def pairTerm_def Let_def vec_add3 simp del: boxList.simps)
  qed
  ultimately have "leheDivergence sampleUnits (leheUpdateBHalf sampleUnits ?area (affineField sampleUnits (\<lambda>c. 0) sampleSlope)
      (\<lambda>(g, c). real_of_int (g ! 0 * g ! 1 * g ! 2))) [2, 2, 2] = leheDivergence sampleUnits (affineField sampleUnits (\<lambda>c. 0) sampleSlope) [2, 2, 2]"
    by (rule lehe_keeps_divB)
  then show ?thesis
    by (simp add: leheDivergence_def leheStencil_affine sampleUnits_def sampleSlope_def lessThan_nat_numeral del: boxList.simps)
qed

end
