(* ===== verification/Ionization.thy ===== *)
theory Ionization
  imports ShiftParticles Interpolation Pushers SpaceOps
begin

text \<open>
  Models field ionization (src/picongpu/include/particles/ionization): the barrier suppression model (byField/BSI), the functor that
  writes an electron into a frame (ionizationMethods.hpp), \<open>KernelIonizeParticles\<close> (ionization.hpp) by the block of one
  supercell, and \<open>CallIonization\<close> (particles/ParticlesFunctors.hpp) over all supercells, which packs the electrons at the end.

  The kernel is a template over the ionizer; so is the model. An ionizer gets an ion and the counter of its thread
  and returns both. Ions and electrons live in two boxes. The order in which the threads reach the fill level of the electron frame
  is an argument per round; between two barriers the threads touch different slots, and the model runs them in
  this order. Both loops carry fuel, and \<open>None\<close> is undefined behaviour or a loop that has not ended. The kernel of the source
  does not pass \<open>acc\<close> to \<open>BSI_Impl::init\<close>, as the declaration of \<open>init\<close> asks; the model reads the fields the way
  \<open>init\<close> caches them.
\<close>

section \<open>Ions, electrons and the ionization models\<close>

record MacroParticle =
  attr_position :: "real vec"
  attr_localCellIdx :: int
  attr_weighting :: real
  attr_momentum :: "real vec"

record Ion = MacroParticle +
  boundElectrons :: real

text \<open>
  The constants of the two species. \<open>IONIZATION_EFIELD\<close> has one entry per proton; an index past its end reads what the
  memory holds there.
\<close>

record IonSpecies =
  numberOfProtons :: real
  ionMass :: real
  electronMass :: real
  IONIZATION_EFIELD :: "int \<Rightarrow> real"
  UNIT_EFIELD :: real

definition getChargeState :: "IonSpecies \<Rightarrow> Ion \<Rightarrow> real" where
  "getChargeState sp particle = (let protonNumber = numberOfProtons sp in protonNumber - boundElectrons particle)"

definition AlgorithmBSI :: "IonSpecies \<Rightarrow> real vec \<Rightarrow> real vec \<Rightarrow> Ion \<Rightarrow> Ion" where
  "AlgorithmBSI sp bField eField parentIon =
     (let protonNumber = numberOfProtons sp;
          chargeState = getChargeState sp parentIon;
          cs = u32 \<lfloor>chargeState\<rfloor>
      in if vec_abs eField * UNIT_EFIELD sp \<ge> IONIZATION_EFIELD sp cs \<and> chargeState < protonNumber
         then parentIon\<lparr>boundElectrons := boundElectrons parentIon - 1\<rparr>
         else parentIon)"

text \<open>The functor of \<open>BSI_Impl\<close>: the fields at the ion, then the algorithm; the counter is the number of electrons that the ion lost.\<close>

definition BSI_Impl ::
  "IonSpecies \<Rightarrow> Shape \<Rightarrow> int vec \<Rightarrow> vectorField \<Rightarrow> vectorField \<Rightarrow> DataSpace \<Rightarrow> Ion \<Rightarrow> nat \<Rightarrow> Ion \<times> nat" where
  "BSI_Impl sp s TVec fieldE fieldB blockCell particle newMacroElectrons =
     (let pos = attr_position particle;
          particleCellIdx = attr_localCellIdx particle;
          localCell = (if length TVec = 2 then map2_of_index_ct TVec particleCellIdx else map3_of_index_ct TVec particleCellIdx);
          cell = BufferCursor (vec_add blockCell localCell);
          eField = FieldToParticleInterpolation s fieldE cell pos (getEFieldPosition (length TVec));
          bField = FieldToParticleInterpolation s fieldB cell pos (getBFieldPosition (length TVec));
          prevBoundElectrons = boundElectrons particle;
          particle = AlgorithmBSI sp bField eField particle
      in (particle, nat \<lfloor>prevBoundElectrons - boundElectrons particle\<rfloor>))"

definition None_Impl :: "'i \<Rightarrow> nat \<Rightarrow> 'i \<times> nat" where
  "None_Impl particle newMacroElectrons = (particle, newMacroElectrons)"

definition getMass :: "real \<Rightarrow> real \<Rightarrow> real" where
  "getMass weighting frameMass = frameMass * weighting"

text \<open>
  \<open>WriteElectronIntoFrame\<close>: the ion that is left and the electron. The weighting is read into an \<open>uint32_t\<close>; a weighting below one makes
  both masses zero and their ratio NaN, which is outside of the model.
\<close>

definition WriteElectronIntoFrame :: "IonSpecies \<Rightarrow> Ion \<Rightarrow> Ion \<times> MacroParticle" where
  "WriteElectronIntoFrame sp parentIon =
     (let weighting = of_int (u32 \<lfloor>attr_weighting parentIon\<rfloor>);
          massIon = getMass weighting (ionMass sp);
          massElectron = getMass weighting (electronMass sp);
          electronMomentum = vec_mul_s (attr_momentum parentIon) (massElectron / massIon);
          childElectron = \<lparr>attr_position = attr_position parentIon, attr_localCellIdx = attr_localCellIdx parentIon,
            attr_weighting = attr_weighting parentIon, attr_momentum = electronMomentum\<rparr>
      in (parentIon\<lparr>attr_momentum := vec_sub (attr_momentum parentIon) electronMomentum\<rparr>, childElectron))"

section \<open>The kernel\<close>

record ('i, 'e) IonizeBlock =
  ionBox :: "'i ParticlesBox"
  electronBox :: "'e ParticlesBox"
  electronFrame :: addr
  newFrameFillLvl :: nat
  newMacroElectrons :: "nat \<Rightarrow> nat"

text \<open>The ionizer runs on every slot of the frame that holds an ion.\<close>

definition ionizeFrame ::
  "nat \<Rightarrow> ('i \<Rightarrow> nat \<Rightarrow> 'i \<times> nat) \<Rightarrow> addr \<Rightarrow> ('i, 'e) IonizeBlock \<Rightarrow> ('i, 'e) IonizeBlock option" where
  "ionizeFrame T frameIonizer ionFrame b =
     do {
       A \<leftarrow> content (ionBox b) ionFrame;
       let isParticle = (\<lambda>t. t < T \<and> fst (A ! t) \<noteq> 0);
       let result = (\<lambda>t. frameIonizer (snd (A ! t)) (newMacroElectrons b t));
       let A' = map (\<lambda>t. if isParticle t then (fst (A ! t), fst (result t)) else A ! t) [0..<T];
       pb \<leftarrow> modifyFrame ionFrame (setSlots A') (ionBox b);
       Some (b\<lparr>ionBox := pb,
               newMacroElectrons := (\<lambda>t. if isParticle t then snd (result t) else newMacroElectrons b t)\<rparr>)
     }"

definition appendElectronFrame ::
  "((addr \<rightharpoonup> 'e Frame) \<Rightarrow> addr) \<Rightarrow> (addr \<Rightarrow> 'e Frame) \<Rightarrow> DataSpace \<Rightarrow> ('i, 'e) IonizeBlock \<Rightarrow> ('i, 'e) IonizeBlock option" where
  "appendElectronFrame malloc garbage idx b =
     do {
       let (frame, pb) = getEmptyFrame malloc garbage (electronBox b);
       pb \<leftarrow> setAsLastFrame frame idx pb;
       Some (b\<lparr>electronBox := pb, electronFrame := frame\<rparr>)
     }"

text \<open>
  Every thread whose \<open>electronId\<close> satisfies \<open>sel\<close> writes an electron to the slot \<open>electronId - off\<close> of the current
  frame and counts down.
\<close>

fun createThreads ::
  "nat \<Rightarrow> ('i \<Rightarrow> 'i \<times> 'e) \<Rightarrow> addr \<Rightarrow> (nat \<Rightarrow> bool) \<Rightarrow> nat \<Rightarrow> (nat \<rightharpoonup> nat) \<Rightarrow> nat list \<Rightarrow> ('i, 'e) IonizeBlock \<Rightarrow> ('i, 'e) IonizeBlock option" where
  "createThreads T writeElectron ionFrame sel off electronId [] b = Some b"
| "createThreads T writeElectron ionFrame sel off electronId (t # ts) b =
     (case electronId t of
        None \<Rightarrow> createThreads T writeElectron ionFrame sel off electronId ts b
      | Some i \<Rightarrow>
          if sel i
          then if i - off < T
               then do {
                 A \<leftarrow> content (ionBox b) ionFrame;
                 s \<leftarrow> content (electronBox b) (electronFrame b);
                 let (ion, electron) = writeElectron (snd (A ! t));
                 ions \<leftarrow> modifyFrame ionFrame (setSlots (A[t := (fst (A ! t), ion)])) (ionBox b);
                 electrons \<leftarrow> modifyFrame (electronFrame b) (setSlots (s[i - off := (1, electron)])) (electronBox b);
                 createThreads T writeElectron ionFrame sel off electronId ts
                   (b\<lparr>ionBox := ions, electronBox := electrons,
                      newMacroElectrons := (newMacroElectrons b)(t := newMacroElectrons b t - 1)\<rparr>)
               }
               else None
          else createThreads T writeElectron ionFrame sel off electronId ts b)"

text \<open>One round of the inner loop; the flag tells whether the loop goes on.\<close>

definition createRound ::
  "nat \<Rightarrow> ('i \<Rightarrow> 'i \<times> 'e) \<Rightarrow> ((addr \<rightharpoonup> 'e Frame) \<Rightarrow> addr) \<Rightarrow> (addr \<Rightarrow> 'e Frame) \<Rightarrow> DataSpace \<Rightarrow> nat list \<Rightarrow> addr
    \<Rightarrow> ('i, 'e) IonizeBlock \<Rightarrow> (bool \<times> ('i, 'e) IonizeBlock) option" where
  "createRound T writeElectron malloc garbage idx order ionFrame b =
     (let oldFrameFillLvl = newFrameFillLvl b;
          (fillLvl, electronId) = atomicInc (\<lambda>t. newMacroElectrons b t > 0) order (oldFrameFillLvl, Map.empty);
          b = b\<lparr>newFrameFillLvl := fillLvl\<rparr>
      in if oldFrameFillLvl = fillLvl then Some (False, b)
         else do {
           b \<leftarrow> (if electronFrame b = 0 then appendElectronFrame malloc garbage idx b else Some b);
           b \<leftarrow> createThreads T writeElectron ionFrame (\<lambda>i. i < T) 0 electronId order b;
           b \<leftarrow> (if newFrameFillLvl b \<ge> T
                  then do {
                    b \<leftarrow> appendElectronFrame malloc garbage idx b;
                    Some (b\<lparr>newFrameFillLvl := newFrameFillLvl b - T\<rparr>)
                  }
                  else Some b);
           b \<leftarrow> createThreads T writeElectron ionFrame (\<lambda>i. i \<ge> T) T electronId order b;
           Some (True, b)
         })"

fun createLoop ::
  "nat \<Rightarrow> ('i \<Rightarrow> 'i \<times> 'e) \<Rightarrow> ((addr \<rightharpoonup> 'e Frame) \<Rightarrow> addr) \<Rightarrow> (addr \<Rightarrow> 'e Frame) \<Rightarrow> DataSpace \<Rightarrow> (nat \<Rightarrow> nat list) \<Rightarrow> addr
    \<Rightarrow> nat \<Rightarrow> ('i, 'e) IonizeBlock \<Rightarrow> ('i, 'e) IonizeBlock option" where
  "createLoop T writeElectron malloc garbage idx order ionFrame 0 b = None"
| "createLoop T writeElectron malloc garbage idx order ionFrame (Suc rounds) b =
     do {
       (again, b) \<leftarrow> createRound T writeElectron malloc garbage idx (order rounds) ionFrame b;
       if again then createLoop T writeElectron malloc garbage idx order ionFrame rounds b else Some b
     }"

fun ionizeLoop ::
  "nat \<Rightarrow> ('i \<Rightarrow> nat \<Rightarrow> 'i \<times> nat) \<Rightarrow> ('i \<Rightarrow> 'i \<times> 'e) \<Rightarrow> ((addr \<rightharpoonup> 'e Frame) \<Rightarrow> addr) \<Rightarrow> (addr \<Rightarrow> 'e Frame) \<Rightarrow> DataSpace
    \<Rightarrow> (nat \<Rightarrow> nat \<Rightarrow> nat list) \<Rightarrow> nat \<Rightarrow> nat \<Rightarrow> addr \<Rightarrow> ('i, 'e) IonizeBlock \<Rightarrow> ('i, 'e) IonizeBlock option" where
  "ionizeLoop T frameIonizer writeElectron malloc garbage idx order rounds 0 ionFrame b = None"
| "ionizeLoop T frameIonizer writeElectron malloc garbage idx order rounds (Suc fuel) ionFrame b =
     do {
       b \<leftarrow> ionizeFrame T frameIonizer ionFrame b;
       b \<leftarrow> createLoop T writeElectron malloc garbage idx (order fuel) ionFrame rounds b;
       (ionFrame, valid) \<leftarrow> getPreviousFrame ionFrame (ionBox b);
       if valid then ionizeLoop T frameIonizer writeElectron malloc garbage idx order rounds fuel ionFrame b else Some b
     }"

definition kernelIonizeParticles ::
  "nat \<Rightarrow> ('i \<Rightarrow> nat \<Rightarrow> 'i \<times> nat) \<Rightarrow> ('i \<Rightarrow> 'i \<times> 'e) \<Rightarrow> ((addr \<rightharpoonup> 'e Frame) \<Rightarrow> addr) \<Rightarrow> (addr \<Rightarrow> 'e Frame)
    \<Rightarrow> (nat \<Rightarrow> nat \<Rightarrow> nat list) \<Rightarrow> nat \<Rightarrow> nat \<Rightarrow> DataSpace \<Rightarrow> 'i ParticlesBox \<times> 'e ParticlesBox \<Rightarrow> ('i ParticlesBox \<times> 'e ParticlesBox) option" where
  "kernelIonizeParticles T frameIonizer writeElectron malloc garbage order rounds fuel idx = (\<lambda>(ions, electrons).
     let (ionFrame, valid) = getLastFrame idx ions
     in if \<not> valid then Some (ions, electrons)
        else do {
          b \<leftarrow> ionizeLoop T frameIonizer writeElectron malloc garbage idx order rounds fuel ionFrame
            \<lparr>ionBox = ions, electronBox = electrons, electronFrame = 0, newFrameFillLvl = 0, newMacroElectrons = (\<lambda>t. 0)\<rparr>;
          Some (ionBox b, electronBox b)
        })"

section \<open>What the kernel is for\<close>

text \<open>An ion that emits \<open>n\<close> electrons one after the other, and the fate of an ion in a step: what is left of it, and its electrons.\<close>

fun emit :: "('i \<Rightarrow> 'i \<times> 'e) \<Rightarrow> nat \<Rightarrow> 'i \<Rightarrow> 'i \<times> 'e list" where
  "emit writeElectron 0 ion = (ion, [])"
| "emit writeElectron (Suc n) ion =
     (let (ion', electron) = writeElectron ion; (ion'', electrons) = emit writeElectron n ion' in (ion'', electron # electrons))"

definition ionized :: "('i \<Rightarrow> nat \<Rightarrow> 'i \<times> nat) \<Rightarrow> ('i \<Rightarrow> 'i \<times> 'e) \<Rightarrow> 'i \<Rightarrow> 'i \<times> 'e list" where
  "ionized frameIonizer writeElectron ion = (let (ion', n) = frameIonizer ion 0 in emit writeElectron n ion')"

definition ionAfter :: "('i \<Rightarrow> nat \<Rightarrow> 'i \<times> nat) \<Rightarrow> ('i \<Rightarrow> 'i \<times> 'e) \<Rightarrow> 'i \<Rightarrow> 'i" where
  "ionAfter frameIonizer writeElectron ion = fst (ionized frameIonizer writeElectron ion)"

definition ionizedSlots :: "('i \<Rightarrow> 'i) \<Rightarrow> 'i slot list \<Rightarrow> 'i slot list" where
  "ionizedSlots f A = map (\<lambda>s. if fst s \<noteq> 0 then (fst s, f (snd s)) else s) A"

text \<open>The electrons that are still to be written while a frame is processed.\<close>

definition pending :: "('i \<Rightarrow> 'i \<times> 'e) \<Rightarrow> 'i slot list \<Rightarrow> (nat \<Rightarrow> nat) \<Rightarrow> 'e multiset" where
  "pending writeElectron A n = (\<Sum>t < length A. mset (snd (emit writeElectron (n t) (snd (A ! t)))))"

definition finalIon :: "('i \<Rightarrow> 'i \<times> 'e) \<Rightarrow> 'i slot list \<Rightarrow> (nat \<Rightarrow> nat) \<Rightarrow> nat \<Rightarrow> 'i slot" where
  "finalIon writeElectron A n t = (fst (A ! t), fst (emit writeElectron (n t) (snd (A ! t))))"

lemma emit_step:
  assumes "n > 0" "writeElectron ion = (ion', electron)"
  shows "fst (emit writeElectron n ion) = fst (emit writeElectron (n - 1) ion')" "snd (emit writeElectron n ion) = electron # snd (emit writeElectron (n - 1) ion')"
  using assms by (cases n; simp add: case_prod_beta)+

lemma pending_step:
  assumes "t < length A" "n t > 0" "writeElectron (snd (A ! t)) = (ion, electron)"
  shows "pending writeElectron A n = add_mset electron (pending writeElectron (A[t := (m, ion)]) (n(t := n t - 1)))"
proof -
  let ?A = "A[t := (m, ion)]" and ?n = "n(t := n t - 1)"
  have t: "finite {..<length A}" "t \<in> {..<length A}" using assms(1) by auto
  have "(\<Sum>k \<in> {..<length A} - {t}. mset (snd (emit writeElectron (?n k) (snd (?A ! k)))))
      = (\<Sum>k \<in> {..<length A} - {t}. mset (snd (emit writeElectron (n k) (snd (A ! k)))))"
    by (rule sum.cong) auto
  then show ?thesis unfolding pending_def length_list_update sum.remove [OF t]
    by (simp add: emit_step [where n = "n t" and writeElectron = writeElectron, OF assms(2,3)] assms(1))
qed

lemma finalIon_step:
  assumes "t < length A" "n t > 0" "writeElectron (snd (A ! t)) = (ion, electron)"
  shows "finalIon writeElectron (A[t := (fst (A ! t), ion)]) (n(t := n t - 1)) = finalIon writeElectron A n"
  using assms emit_step [where n = "n t" and writeElectron = writeElectron, OF assms(2,3)] by (auto simp: finalIon_def fun_eq_iff nth_list_update)

lemma pending_none: "\<forall>t < length A. n t = 0 \<Longrightarrow> pending writeElectron A n = {#}"
  by (simp add: pending_def)

section \<open>Creating electrons\<close>

text \<open>
  The threads that draw numbers get consecutive ones, so the slots of a frame are filled from the front. What has been written
  and what is pending add up to the same electrons, and the final state of every ion stays the same.
\<close>

definition ion_state :: "nat \<Rightarrow> (DataSpace \<Rightarrow> addr list) \<Rightarrow> addr \<Rightarrow> ('i, 'e) IonizeBlock \<Rightarrow> 'i slot list \<Rightarrow> bool" where
  "ion_state T L ionFrame b A \<longleftrightarrow> box_rep (ionBox b) L \<and> content (ionBox b) ionFrame = Some A \<and> length A = T"

definition electron_state :: "nat \<Rightarrow> (DataSpace \<Rightarrow> addr list) \<Rightarrow> nat \<Rightarrow> ('i, 'e) IonizeBlock \<Rightarrow> 'e slot list \<Rightarrow> bool" where
  "electron_state T L n b s \<longleftrightarrow> box_rep (electronBox b) L \<and> content (electronBox b) (electronFrame b) = Some s
     \<and> length s = T \<and> front_packed n s"

lemma ion_stateD:
  assumes "ion_state T L ionFrame b A"
  shows "box_rep (ionBox b) L" "content (ionBox b) ionFrame = Some A" "length A = T"
  using assms by (simp_all add: ion_state_def)

lemma electron_stateD:
  assumes "electron_state T L n b s"
  shows "box_rep (electronBox b) L" "content (electronBox b) (electronFrame b) = Some s" "length s = T" "front_packed n s"
  using assms by (simp_all add: electron_state_def)

text \<open>What a phase of writing changes: the two frames and the counters.\<close>

definition wrote ::
  "('i \<Rightarrow> 'i \<times> 'e) \<Rightarrow> addr \<Rightarrow> ('i, 'e) IonizeBlock \<Rightarrow> 'i slot list \<Rightarrow> 'e slot list \<Rightarrow> ('i, 'e) IonizeBlock \<Rightarrow> 'i slot list \<Rightarrow> 'e slot list \<Rightarrow> bool" where
  "wrote writeElectron ionFrame b A s b' A' s' \<longleftrightarrow>
     electronFrame b' = electronFrame b \<and> newFrameFillLvl b' = newFrameFillLvl b
     \<and> content (ionBox b') = (content (ionBox b))(ionFrame \<mapsto> A') \<and> superCells (ionBox b') = superCells (ionBox b)
     \<and> content (electronBox b') = (content (electronBox b))(electronFrame b \<mapsto> s') \<and> superCells (electronBox b') = superCells (electronBox b)
     \<and> particles s' + pending writeElectron A' (newMacroElectrons b') = particles s + pending writeElectron A (newMacroElectrons b)
     \<and> finalIon writeElectron A' (newMacroElectrons b') = finalIon writeElectron A (newMacroElectrons b)"

lemma wrote_trans:
  "wrote writeElectron f b A s b1 A1 s1 \<Longrightarrow> wrote writeElectron f b1 A1 s1 b2 A2 s2 \<Longrightarrow> wrote writeElectron f b A s b2 A2 s2"
  by (simp add: wrote_def)

lemma wrote_refl:
  "content (ionBox b) f = Some A \<Longrightarrow> content (electronBox b) (electronFrame b) = Some s \<Longrightarrow> wrote writeElectron f b A s b A s"
  by (simp add: wrote_def fun_upd_idem)

text \<open>One electron.\<close>

lemma write_one:
  assumes ions: "ion_state T LI ionFrame b A" and electrons: "electron_state T L n b s"
    and t: "t < T" "newMacroElectrons b t > 0" and n: "n < T" and w: "writeElectron (snd (A ! t)) = (ion, electron)"
  obtains ionB electronB b' where
    "modifyFrame ionFrame (setSlots (A[t := (fst (A ! t), ion)])) (ionBox b) = Some ionB"
    "modifyFrame (electronFrame b) (setSlots (s[n := (1, electron)])) (electronBox b) = Some electronB"
    "b' = b\<lparr>ionBox := ionB, electronBox := electronB, newMacroElectrons := (newMacroElectrons b)(t := newMacroElectrons b t - 1)\<rparr>"
    "ion_state T LI ionFrame b' (A[t := (fst (A ! t), ion)])" "electron_state T L (Suc n) b' (s[n := (1, electron)])"
    "wrote writeElectron ionFrame b A s b' (A[t := (fst (A ! t), ion)]) (s[n := (1, electron)])"
proof -
  note i = ion_stateD [OF ions] and e = electron_stateD [OF electrons]
  let ?A = "A[t := (fst (A ! t), ion)]" and ?s = "s[n := (1, electron)]"
  obtain ionB where ib: "modifyFrame ionFrame (setSlots ?A) (ionBox b) = Some ionB" "box_rep ionB LI"
    "content ionB = (content (ionBox b))(ionFrame \<mapsto> ?A)" "superCells ionB = superCells (ionBox b)"
    by (rule modifyFrame_setSlots [OF i(1,2)])
  obtain electronB where eb: "modifyFrame (electronFrame b) (setSlots ?s) (electronBox b) = Some electronB" "box_rep electronB L"
    "content electronB = (content (electronBox b))(electronFrame b \<mapsto> ?s)" "superCells electronB = superCells (electronBox b)"
    by (rule modifyFrame_setSlots [OF e(1,2)])
  let ?b = "b\<lparr>ionBox := ionB, electronBox := electronB, newMacroElectrons := (newMacroElectrons b)(t := newMacroElectrons b t - 1)\<rparr>"
  have "fst (s ! n) = 0" using e(3,4) n by (simp add: front_packed_def)
  then have "particles ?s = add_mset electron (particles s)" using particles_insert [of n s electron] n e(3) by simp
  moreover have "t < length A" using t(1) i(3) by simp
  note pending_step [where n = "newMacroElectrons b" and writeElectron = writeElectron, OF this t(2) w]
    finalIon_step [where n = "newMacroElectrons b" and writeElectron = writeElectron, OF this t(2) w]
  ultimately have "wrote writeElectron ionFrame b A s ?b ?A ?s"
    unfolding wrote_def using ib(3,4) eb(3,4) by (simp del: fun_upd_apply)
  moreover have "ion_state T LI ionFrame ?b ?A" using ib i(3) by (simp add: ion_state_def)
  moreover have "front_packed (Suc n) ?s" using e(3,4) n by (auto simp: front_packed_def nth_list_update less_Suc_eq)
  then have "electron_state T L (Suc n) ?b ?s" using eb e(3) by (simp add: electron_state_def)
  ultimately show ?thesis using that ib(1) eb(1) by blast
qed

definition drew :: "(nat \<Rightarrow> bool) \<Rightarrow> (nat \<rightharpoonup> nat) \<Rightarrow> nat \<Rightarrow> nat list \<Rightarrow> bool" where
  "drew P r c ts \<longleftrightarrow> (\<forall>i < length (filter P ts). r (filter P ts ! i) = Some (c + i)) \<and> (\<forall>t \<in> set ts. \<not> P t \<longrightarrow> r t = None)"

lemma drew_Cons:
  assumes "drew P r c (t # ts)"
  shows "r t = (if P t then Some c else None)" "drew P r (if P t then Suc c else c) ts"
proof -
  show "r t = (if P t then Some c else None)" using assms by (fastforce simp: drew_def)
  show "drew P r (if P t then Suc c else c) ts"
  proof (cases "P t")
    case True
    then have "r (filter P ts ! i) = Some (Suc c + i)" if "i < length (filter P ts)" for i
      using assms that unfolding drew_def by (auto dest!: spec [of _ "Suc i"])
    then show ?thesis using True assms by (simp add: drew_def)
  qed (use assms in \<open>simp add: drew_def\<close>)
qed

lemma atomicInc_drew:
  assumes "distinct ts"
  shows "drew P (snd (atomicInc P ts (c, Map.empty))) c ts"
  using atomicInc_nth [OF assms, of _ P c Map.empty] atomicInc_other [of _ P ts c Map.empty] by (auto simp: drew_def)

definition countDown :: "(nat \<rightharpoonup> nat) \<Rightarrow> (nat \<Rightarrow> bool) \<Rightarrow> nat list \<Rightarrow> (nat \<Rightarrow> nat) \<Rightarrow> nat \<Rightarrow> nat" where
  "countDown r sel ts n t = (if t \<in> set ts \<and> (\<exists>i. r t = Some i \<and> sel i) then n t - 1 else n t)"

lemma createThreads_run:
  assumes "ion_state T LI ionFrame b A" "electron_state T L (min T (c - lo)) b s"
    and "distinct ts" "set ts \<subseteq> {..<T}" "drew P r c ts"
    and "\<forall>i < c + length (filter P ts). sel i \<longleftrightarrow> lo \<le> i \<and> i < lo + T"
    and "\<forall>t \<in> set ts. \<forall>i. r t = Some i \<and> sel i \<longrightarrow> newMacroElectrons b t > 0"
  shows "\<exists>b' A' s'. createThreads T writeElectron ionFrame sel lo r ts b = Some b' \<and> ion_state T LI ionFrame b' A'
    \<and> electron_state T L (min T (c + length (filter P ts) - lo)) b' s' \<and> wrote writeElectron ionFrame b A s b' A' s'
    \<and> newMacroElectrons b' = countDown r sel ts (newMacroElectrons b)"
  using assms
proof (induction ts arbitrary: b A s c)
  case Nil
  then show ?case using wrote_refl [OF ion_stateD(2) electron_stateD(2)]
    by (intro exI [of _ b] exI [of _ A] exI [of _ s]) (auto simp: countDown_def fun_eq_iff)
next
  case (Cons t ts)
  note d = drew_Cons [OF Cons.prems(5)]
  have ts: "distinct ts" "set ts \<subseteq> {..<T}" "t \<notin> set ts" "t < T" using Cons.prems(3,4) by auto
  show ?case
  proof (cases "P t \<and> sel c")
    case False
    have "\<exists>b' A' s'. createThreads T writeElectron ionFrame sel lo r ts b = Some b' \<and> ion_state T LI ionFrame b' A'
        \<and> electron_state T L (min T ((if P t then Suc c else c) + length (filter P ts) - lo)) b' s' \<and> wrote writeElectron ionFrame b A s b' A' s'
        \<and> newMacroElectrons b' = countDown r sel ts (newMacroElectrons b)"
    proof (rule Cons.IH [OF Cons.prems(1) _ ts(1,2) d(2)])
      have "P t \<longrightarrow> c < lo \<or> lo + T \<le> c" using False Cons.prems(6) [rule_format, of c] by auto
      then have "min T ((if P t then Suc c else c) - lo) = min T (c - lo)" by auto
      then show "electron_state T L (min T ((if P t then Suc c else c) - lo)) b s" using Cons.prems(2) by simp
    qed (use Cons.prems(6,7) in auto)
    moreover have "createThreads T writeElectron ionFrame sel lo r (t # ts) b = createThreads T writeElectron ionFrame sel lo r ts b"
      using d(1) False by (auto split: if_splits)
    moreover have "countDown r sel (t # ts) (newMacroElectrons b) = countDown r sel ts (newMacroElectrons b)"
      using d(1) False by (auto simp: countDown_def fun_eq_iff split: if_splits)
    ultimately show ?thesis by (auto split: if_splits)
  next
    case True
    then have c: "lo \<le> c" "c < lo + T" "r t = Some c" using Cons.prems(6) [rule_format, of c] d(1) by auto
    have n: "newMacroElectrons b t > 0" using Cons.prems(7) c(3) True by auto
    obtain ion electron where w: "writeElectron (snd (A ! t)) = (ion, electron)" by fastforce
    have lvl: "min T (c - lo) = c - lo" "c - lo < T" "min T (Suc c - lo) = Suc (c - lo)" using c by auto
    let ?A = "A[t := (fst (A ! t), ion)]" and ?s = "s[c - lo := (1, electron)]"
    obtain ionB electronB b1 where b1: "modifyFrame ionFrame (setSlots ?A) (ionBox b) = Some ionB"
      "modifyFrame (electronFrame b) (setSlots ?s) (electronBox b) = Some electronB"
      "b1 = b\<lparr>ionBox := ionB, electronBox := electronB, newMacroElectrons := (newMacroElectrons b)(t := newMacroElectrons b t - 1)\<rparr>"
      "ion_state T LI ionFrame b1 ?A" "electron_state T L (Suc (c - lo)) b1 ?s" "wrote writeElectron ionFrame b A s b1 ?A ?s"
      by (rule write_one [where writeElectron = writeElectron, OF Cons.prems(1) Cons.prems(2) [unfolded lvl(1)] ts(4) n lvl(2) w])
    have step: "createThreads T writeElectron ionFrame sel lo r (t # ts) b = createThreads T writeElectron ionFrame sel lo r ts b1"
      using b1(1-3) c(3) True w lvl(2) ion_stateD(2) [OF Cons.prems(1)] electron_stateD(2) [OF Cons.prems(2)] by simp
    have "\<exists>b' A' s'. createThreads T writeElectron ionFrame sel lo r ts b1 = Some b' \<and> ion_state T LI ionFrame b' A'
        \<and> electron_state T L (min T (Suc c + length (filter P ts) - lo)) b' s' \<and> wrote writeElectron ionFrame b1 ?A ?s b' A' s'
        \<and> newMacroElectrons b' = countDown r sel ts (newMacroElectrons b1)"
    proof (rule Cons.IH [OF b1(4) _ ts(1,2)])
      show "drew P r (Suc c) ts" using d(2) True by simp
      show "electron_state T L (min T (Suc c - lo)) b1 ?s" using b1(5) lvl(3) by simp
    qed (use Cons.prems(6,7) True ts(3) b1(3) in auto)
    moreover have "countDown r sel (t # ts) (newMacroElectrons b) = countDown r sel ts (newMacroElectrons b1)"
      using b1(3) ts(3) c(3) True by (auto simp: countDown_def fun_eq_iff)
    ultimately show ?thesis using step True wrote_trans [OF b1(6)] by fastforce
  qed
qed

section \<open>Rounds\<close>

text \<open>
  The electron box compared to the box \<open>eb0\<close> with the lists \<open>L0\<close> before the kernel: frames \<open>new\<close> are appended to the supercell, and
  nothing else has changed. \<open>open_frame\<close> is the frame that is being filled.
\<close>

definition extended :: "nat \<Rightarrow> DataSpace \<Rightarrow> 'e ParticlesBox \<Rightarrow> (DataSpace \<Rightarrow> addr list) \<Rightarrow> addr list \<Rightarrow> 'e ParticlesBox \<Rightarrow> bool" where
  "extended T idx eb0 L0 new eb \<longleftrightarrow> box_rep eb (L0(idx := L0 idx @ new)) \<and> finite (dom (frames eb))
     \<and> (\<forall>a \<in> set new. a \<notin> dom (frames eb0) \<and> frame_ok T eb a)
     \<and> (\<forall>a \<in> dom (frames eb0). content eb a = content eb0 a) \<and> sameCells eb0 eb"

definition open_frame :: "nat \<Rightarrow> addr list \<Rightarrow> ('i, 'e) IonizeBlock \<Rightarrow> bool" where
  "open_frame T new b \<longleftrightarrow>
     (if electronFrame b = 0 then new = [] \<and> newFrameFillLvl b = 0
      else new \<noteq> [] \<and> electronFrame b = last new \<and> newFrameFillLvl b < T
        \<and> (\<exists>s. content (electronBox b) (electronFrame b) = Some s \<and> length s = T \<and> front_packed (newFrameFillLvl b) s))"

lemma extendedD:
  assumes "extended T idx eb0 L0 new eb"
  shows "box_rep eb (L0(idx := L0 idx @ new))" "finite (dom (frames eb))" "\<And>a. a \<in> set new \<Longrightarrow> a \<notin> dom (frames eb0) \<and> frame_ok T eb a"
    "\<And>a. a \<in> dom (frames eb0) \<Longrightarrow> content eb a = content eb0 a" "sameCells eb0 eb"
  using assms by (simp_all add: extended_def)

lemma front_packed_0: "front_packed 0 s \<Longrightarrow> particles s = {#}"
  by (rule particles_empty) (simp add: front_packed_def empty_frame_nth)

lemma finite_dom_content: "dom (content pb) = dom (frames pb)"
  by (auto simp: content_def)

lemma appendElectronFrame_correct:
  assumes alloc: "good_allocator T malloc garbage" and ext: "extended T idx eb0 L0 new (electronBox b)"
  obtains a eb s where "appendElectronFrame malloc garbage idx b = Some (b\<lparr>electronBox := eb, electronFrame := a\<rparr>)"
    "extended T idx eb0 L0 (new @ [a]) eb" "a \<noteq> 0" "content eb a = Some s" "length s = T" "front_packed 0 s"
    "listParticles eb (L0 idx @ new @ [a]) = listParticles (electronBox b) (L0 idx @ new)"
proof -
  note e = extendedD [OF ext]
  let ?L = "L0(idx := L0 idx @ new)"
  obtain a pb s where g: "getEmptyFrame malloc garbage (electronBox b) = (a, pb)" "box_rep pb ?L" "free_frame pb ?L a"
    "content pb a = Some s" "length s = T" "front_packed 0 s" "a \<notin> dom (frames (electronBox b))" "finite (dom (frames pb))"
    "\<forall>x \<in> dom (frames (electronBox b)). content pb x = content (electronBox b) x" "superCells pb = superCells (electronBox b)"
    by (rule getEmptyFrame_content [OF good_allocatorD [OF alloc] e(1,2)])
  obtain eb where eb: "setAsLastFrame a idx pb = Some eb" "box_rep eb (?L(idx := ?L idx @ [a]))"
    using setAsLastFrame_rep [OF g(2,3)] by blast
  have c: "content eb = content pb" by (rule content_setAsLastFrame [OF eb(1)])
  have old: "x \<in> dom (frames (electronBox b))" if "x \<in> dom (frames eb0)" for x
    using e(4) [OF that] that by (metis dom_content)
  have mem: "x \<in> dom (frames (electronBox b))" if "x \<in> set (L0 idx @ new)" for x
    using list_in_heap [OF e(1), of x idx] that by simp
  have new: "a \<notin> dom (frames eb0)" using g(7) old by blast
  have "frame_ok T eb x" if "x \<in> set new" for x
    using e(3) [OF that] g(9) mem [of x] that by (simp add: frame_ok_def c)
  moreover have "frame_ok T eb a" using g(4-6) front_packed_settled by (auto simp: frame_ok_def c)
  moreover have "content eb x = content eb0 x" if "x \<in> dom (frames eb0)" for x using e(4) g(9) old that c by simp
  moreover have "sameCells eb0 eb"
    using e(5) sameCells_eq [OF g(10)] sameCells_setAsLastFrame [OF eb(1)] by (blast intro: sameCells_trans)
  moreover have "finite (dom (frames eb))" using g(8) c finite_dom_content by metis
  ultimately have "extended T idx eb0 L0 (new @ [a]) eb"
    using eb(2) e(3) new by (auto simp: extended_def)
  moreover have "listParticles eb (L0 idx @ new) = listParticles (electronBox b) (L0 idx @ new)"
    using g(9) mem c by (intro listParticles_cong) simp
  then have "listParticles eb (L0 idx @ new @ [a]) = listParticles (electronBox b) (L0 idx @ new)"
    using g(4) front_packed_0 [OF g(6)] c by (simp add: frameParticles_content)
  ultimately show ?thesis
    using that [of a eb s] g eb(1) c list_not_null [OF eb(2), of a idx] by (simp add: appendElectronFrame_def)
qed

lemma wrote_extended:
  assumes ext: "extended T idx eb0 L0 new (electronBox b)" and f: "electronFrame b \<in> set new"
    and s: "content (electronBox b) (electronFrame b) = Some s" and w: "wrote writeElectron ionFrame b A s b' A' s'"
    and s': "electron_state T (L0(idx := L0 idx @ new)) n b' s'"
  shows "extended T idx eb0 L0 new (electronBox b')"
    "listParticles (electronBox b') (L0 idx @ new) + pending writeElectron A' (newMacroElectrons b')
      = listParticles (electronBox b) (L0 idx @ new) + pending writeElectron A (newMacroElectrons b)"
proof -
  note e = extendedD [OF ext] and st = electron_stateD [OF s']
  let ?f = "electronFrame b"
  have c: "content (electronBox b') = (content (electronBox b))(?f \<mapsto> s')"
    and cells: "superCells (electronBox b') = superCells (electronBox b)"
    and bal: "particles s' + pending writeElectron A' (newMacroElectrons b') = particles s + pending writeElectron A (newMacroElectrons b)"
    using w by (simp_all add: wrote_def)
  have "frame_ok T (electronBox b') a" if "a \<in> set new" for a
    using e(3) [OF that] st(3) front_packed_settled [OF st(4)] c by (auto simp: frame_ok_def)
  moreover have "finite (dom (frames (electronBox b')))" using e(2) c
    by (simp add: finite_dom_content [symmetric])
  moreover have "sameCells eb0 (electronBox b')" using e(5) sameCells_eq [OF cells] by (blast intro: sameCells_trans)
  moreover have "?f \<notin> dom (frames eb0)" using e(3) f by blast
  ultimately show "extended T idx eb0 L0 new (electronBox b')"
    using st(1) e(3,4) c by (auto simp: extended_def)
  obtain xs ys where split: "L0 idx @ new = xs @ ?f # ys" "?f \<notin> set xs" "?f \<notin> set ys"
    using box_rep_distinct [OF e(1), of idx] f by (metis Un_iff distinct.simps(2) distinct_append fun_upd_same in_set_conv_decomp not_distinct_conv_prefix set_append split_list)
  have "listParticles (electronBox b') xs = listParticles (electronBox b) xs" "listParticles (electronBox b') ys = listParticles (electronBox b) ys"
    using split(2,3) c by (auto intro!: listParticles_cong)
  moreover have "frameParticles (electronBox b) ?f = particles s" "frameParticles (electronBox b') ?f = particles s'"
    using s c by (simp_all add: frameParticles_content)
  ultimately show "listParticles (electronBox b') (L0 idx @ new) + pending writeElectron A' (newMacroElectrons b')
      = listParticles (electronBox b) (L0 idx @ new) + pending writeElectron A (newMacroElectrons b)"
    using bal unfolding split(1) by (simp add: ac_simps)
qed

text \<open>What a round keeps: the electrons written and pending, the final ions, and the other frames of ions.\<close>

definition kept ::
  "('i \<Rightarrow> 'i \<times> 'e) \<Rightarrow> addr list \<Rightarrow> addr \<Rightarrow> ('i, 'e) IonizeBlock \<Rightarrow> 'i slot list \<Rightarrow> addr list
    \<Rightarrow> ('i, 'e) IonizeBlock \<Rightarrow> 'i slot list \<Rightarrow> addr list \<Rightarrow> bool" where
  "kept writeElectron old ionFrame b A new b' A' new' \<longleftrightarrow>
     listParticles (electronBox b') (old @ new') + pending writeElectron A' (newMacroElectrons b')
       = listParticles (electronBox b) (old @ new) + pending writeElectron A (newMacroElectrons b)
     \<and> finalIon writeElectron A' (newMacroElectrons b') = finalIon writeElectron A (newMacroElectrons b)
     \<and> (\<forall>a. a \<noteq> ionFrame \<longrightarrow> content (ionBox b') a = content (ionBox b) a) \<and> superCells (ionBox b') = superCells (ionBox b)"

lemma kept_trans:
  "kept w old f b A n b1 A1 n1 \<Longrightarrow> kept w old f b1 A1 n1 b2 A2 n2 \<Longrightarrow> kept w old f b A n b2 A2 n2"
  by (simp add: kept_def)

lemma kept_refl: "kept w old f b A n b A n"
  by (simp add: kept_def)

lemma wrote_kept:
  assumes "extended T idx eb0 L0 new (electronBox b)" "electronFrame b \<in> set new"
    and "content (electronBox b) (electronFrame b) = Some s" and w: "wrote writeElectron ionFrame b A s b' A' s'"
    and "electron_state T (L0(idx := L0 idx @ new)) n b' s'"
  shows "kept writeElectron (L0 idx) ionFrame b A new b' A' new"
  using wrote_extended(2) [OF assms] w by (simp add: kept_def wrote_def)

lemma drew_Some: "drew P r c ts \<Longrightarrow> t \<in> set ts \<Longrightarrow> (\<exists>i. r t = Some i) \<longleftrightarrow> P t"
proof
  assume d: "drew P r c ts" and t: "t \<in> set ts" and "P t"
  then obtain i where "i < length (filter P ts)" "filter P ts ! i = t" using in_set_conv_nth [of t "filter P ts"] by auto
  with d show "\<exists>i. r t = Some i" by (auto simp: drew_def)
qed (auto simp: drew_def)

lemma drew_bounds: "drew P r c ts \<Longrightarrow> t \<in> set ts \<Longrightarrow> r t = Some i \<Longrightarrow> c \<le> i \<and> i < c + length (filter P ts)"
proof -
  assume d: "drew P r c ts" "t \<in> set ts" and i: "r t = Some i"
  then have "P t" using drew_Some by fastforce
  then obtain k where "k < length (filter P ts)" "filter P ts ! k = t" 
    using d(2) in_set_conv_nth [of t "filter P ts"] by auto
  with d(1) i show ?thesis by (auto simp: drew_def)
qed

lemma createThreads_none:
  "\<forall>t \<in> set ts. \<forall>i. r t = Some i \<longrightarrow> \<not> sel i \<Longrightarrow> createThreads T writeElectron ionFrame sel off r ts b = Some b"
  by (induction ts) (auto split: option.split)

text \<open>The first frame.\<close>

lemma open_first:
  assumes alloc: "good_allocator T malloc garbage" and ext: "extended T idx eb0 L0 new (electronBox b)" and o: "open_frame T new b" and T: "0 < T"
  obtains b1 new1 s where
    "(if electronFrame b = 0 then appendElectronFrame malloc garbage idx (b\<lparr>newFrameFillLvl := n\<rparr>) else Some (b\<lparr>newFrameFillLvl := n\<rparr>)) = Some b1"
    "extended T idx eb0 L0 (new @ new1) (electronBox b1)" "electronFrame b1 = last (new @ new1)" "new @ new1 \<noteq> []" "newFrameFillLvl b < T"
    "electron_state T (L0(idx := L0 idx @ new @ new1)) (newFrameFillLvl b) b1 s"
    "listParticles (electronBox b1) (L0 idx @ new @ new1) = listParticles (electronBox b) (L0 idx @ new)"
    "ionBox b1 = ionBox b" "newMacroElectrons b1 = newMacroElectrons b" "newFrameFillLvl b1 = n" "electronFrame b1 \<noteq> 0"
proof (cases "electronFrame b = 0")
  case True
  have ext': "extended T idx eb0 L0 new (electronBox (b\<lparr>newFrameFillLvl := n\<rparr>))" using ext by simp
  obtain a eb s where a: "appendElectronFrame malloc garbage idx (b\<lparr>newFrameFillLvl := n\<rparr>)
      = Some (b\<lparr>newFrameFillLvl := n, electronBox := eb, electronFrame := a\<rparr>)"
    "extended T idx eb0 L0 (new @ [a]) eb" "a \<noteq> 0" "content eb a = Some s" "length s = T" "front_packed 0 s"
    "listParticles eb (L0 idx @ new @ [a]) = listParticles (electronBox b) (L0 idx @ new)"
    by (rule appendElectronFrame_correct [OF alloc ext']) simp
  with True o T extendedD(1) [OF a(2)] show ?thesis
    by (intro that [of "b\<lparr>newFrameFillLvl := n, electronBox := eb, electronFrame := a\<rparr>" "[a]" s])
      (simp_all add: open_frame_def electron_state_def)
next
  case False
  with o obtain s where "new \<noteq> []" "electronFrame b = last new" "newFrameFillLvl b < T"
    "content (electronBox b) (electronFrame b) = Some s" "length s = T" "front_packed (newFrameFillLvl b) s"
    by (auto simp: open_frame_def)
  with False ext extendedD(1) [OF ext] show ?thesis
    by (intro that [of "b\<lparr>newFrameFillLvl := n\<rparr>" "[]" s]) (simp_all add: electron_state_def)
qed

text \<open>The second frame and the electrons that did not fit into the first.\<close>

lemma create_second:
  assumes alloc: "good_allocator T malloc garbage" and ions: "ion_state T LI ionFrame b A"
    and ext: "extended T idx eb0 L0 new (electronBox b)" and f: "electronFrame b = last new" "new \<noteq> []" "electronFrame b \<noteq> 0"
    and s: "electron_state T (L0(idx := L0 idx @ new)) (min T (c + k)) b s" and c: "c < T" "k \<le> T" and lvl: "newFrameFillLvl b = c + k"
    and ts: "distinct ts" "set ts \<subseteq> {..<T}" "drew P r c ts" "length (filter P ts) = k"
    and n: "\<forall>t \<in> set ts. \<forall>i. r t = Some i \<and> T \<le> i \<longrightarrow> newMacroElectrons b t > 0"
  shows "\<exists>b2 b' A' new'. (if newFrameFillLvl b \<ge> T
        then appendElectronFrame malloc garbage idx b \<bind> (\<lambda>b. Some (b\<lparr>newFrameFillLvl := newFrameFillLvl b - T\<rparr>)) else Some b) = Some b2
    \<and> createThreads T writeElectron ionFrame (\<lambda>i. i \<ge> T) T r ts b2 = Some b' \<and> ion_state T LI ionFrame b' A'
    \<and> extended T idx eb0 L0 (new @ new') (electronBox b') \<and> open_frame T (new @ new') b'
    \<and> kept writeElectron (L0 idx) ionFrame b A new b' A' (new @ new')
    \<and> newMacroElectrons b' = countDown r (\<lambda>i. i \<ge> T) ts (newMacroElectrons b)"
proof (cases "T \<le> c + k")
  case False
  have below: "\<forall>t \<in> set ts. \<forall>i. r t = Some i \<longrightarrow> \<not> T \<le> i" using drew_bounds [OF ts(3)] ts(4) False by fastforce
  then have "countDown r (\<lambda>i. i \<ge> T) ts (newMacroElectrons b) = newMacroElectrons b" by (auto simp: countDown_def fun_eq_iff)
  moreover have "open_frame T (new @ []) b" using f s lvl False electron_stateD [OF s] by (simp add: open_frame_def min_def)
  ultimately show ?thesis using False lvl ions ext
    by (intro exI [of _ b] exI [of _ A] exI [of _ "[]"]) (simp add: kept_refl createThreads_none [OF below])
next
  case True
  obtain a eb s1 where a: "appendElectronFrame malloc garbage idx b = Some (b\<lparr>electronBox := eb, electronFrame := a\<rparr>)"
    "extended T idx eb0 L0 (new @ [a]) eb" "a \<noteq> 0" "content eb a = Some s1" "length s1 = T" "front_packed 0 s1"
    "listParticles eb (L0 idx @ new @ [a]) = listParticles (electronBox b) (L0 idx @ new)"
    by (rule appendElectronFrame_correct [OF alloc ext])
  let ?b = "b\<lparr>electronBox := eb, electronFrame := a, newFrameFillLvl := c + k - T\<rparr>"
  have ext1: "extended T idx eb0 L0 (new @ [a]) (electronBox ?b)" using a(2) by simp
  have "\<exists>b' A' s'. createThreads T writeElectron ionFrame (\<lambda>i. i \<ge> T) T r ts ?b = Some b' \<and> ion_state T LI ionFrame b' A'
    \<and> electron_state T (L0(idx := L0 idx @ new @ [a])) (min T (c + length (filter P ts) - T)) b' s' \<and> wrote writeElectron ionFrame ?b A s1 b' A' s'
    \<and> newMacroElectrons b' = countDown r (\<lambda>i. i \<ge> T) ts (newMacroElectrons ?b)"
  proof (rule createThreads_run [OF _ _ ts(1-3)])
    show "electron_state T (L0(idx := L0 idx @ new @ [a])) (min T (c - T)) ?b s1"
      using extendedD(1) [OF a(2)] a(4-6) c(1) by (simp add: electron_state_def)
    show "ion_state T LI ionFrame ?b A" using ions by (simp add: ion_state_def)
  qed (use c ts(4) n in auto)
  then obtain b' A' s' where b': "createThreads T writeElectron ionFrame (\<lambda>i. i \<ge> T) T r ts ?b = Some b'" "ion_state T LI ionFrame b' A'"
    "electron_state T (L0(idx := L0 idx @ new @ [a])) (c + k - T) b' s'" "wrote writeElectron ionFrame ?b A s1 b' A' s'"
    "newMacroElectrons b' = countDown r (\<lambda>i. i \<ge> T) ts (newMacroElectrons b)"
    using c ts(4) by (auto simp: min_def split: if_splits)
  have mem: "electronFrame ?b \<in> set (new @ [a])" "content (electronBox ?b) (electronFrame ?b) = Some s1" using a(4) by simp_all
  have "kept writeElectron (L0 idx) ionFrame b A new ?b A (new @ [a])" using a(7) by (simp add: kept_def)
  then have "kept writeElectron (L0 idx) ionFrame b A new b' A' (new @ [a])"
    using wrote_kept [OF ext1 mem b'(4) b'(3)] by (rule kept_trans)
  moreover have "electronFrame b' = a" "newFrameFillLvl b' = c + k - T" using b'(4) by (simp_all add: wrote_def)
  then have "open_frame T (new @ [a]) b'" using a(3) c electron_stateD [OF b'(3)] by (auto simp: open_frame_def)
  ultimately show ?thesis using True lvl a(1) b'(1,2,5) wrote_extended(1) [OF ext1 mem b'(4) b'(3)]
    by (intro exI [of _ ?b] exI [of _ b'] exI [of _ A'] exI [of _ "[a]"]) simp
qed

lemma countDown_twice:
  assumes "drew (\<lambda>t. n t > 0) r c ts" "t \<in> set ts"
  shows "countDown r (\<lambda>i. i \<ge> T) ts (countDown r (\<lambda>i. i < T) ts n) t = n t - 1"
  using drew_Some [OF assms] assms(2) by (cases "r t") (auto simp: countDown_def not_le)

lemma createRound_correct:
  assumes alloc: "good_allocator T malloc garbage" and order: "thread_order T order" and ions: "ion_state T LI ionFrame b A"
    and ext: "extended T idx eb0 L0 new (electronBox b)" and o: "open_frame T new b" and some: "t0 < T" "newMacroElectrons b t0 > 0"
  shows "\<exists>b' A' new'. createRound T writeElectron malloc garbage idx order ionFrame b = Some (True, b') \<and> ion_state T LI ionFrame b' A'
    \<and> extended T idx eb0 L0 (new @ new') (electronBox b') \<and> open_frame T (new @ new') b'
    \<and> kept writeElectron (L0 idx) ionFrame b A new b' A' (new @ new')
    \<and> (\<forall>t < T. newMacroElectrons b' t = newMacroElectrons b t - 1)"
proof -
  let ?P = "\<lambda>t. newMacroElectrons b t > 0"
  define c k r where "c = newFrameFillLvl b" and "k = length (filter ?P order)" and "r = snd (atomicInc ?P order (c, Map.empty))"
  have ord: "distinct order" "set order = {..<T}" using order by (simp_all add: thread_order_def)
  have T: "0 < T" using some(1) by simp
  have dr: "drew ?P r c order" unfolding r_def by (rule atomicInc_drew [OF ord(1)])
  have "t0 \<in> set (filter ?P order)" using some ord(2) by simp
  then have k0: "0 < k" unfolding k_def by (rule length_pos_if_in_set)
  have "length order = T" using ord distinct_card [OF ord(1)] by simp
  then have k: "k \<le> T" unfolding k_def by (metis length_filter_le)
  have at: "atomicInc ?P order (c, Map.empty) = (c + k, r)" by (simp add: r_def k_def prod_eq_iff)
  obtain b1 new1 s1 where b1: "(if electronFrame b = 0 then appendElectronFrame malloc garbage idx (b\<lparr>newFrameFillLvl := c + k\<rparr>)
      else Some (b\<lparr>newFrameFillLvl := c + k\<rparr>)) = Some b1"
    "extended T idx eb0 L0 (new @ new1) (electronBox b1)" "electronFrame b1 = last (new @ new1)" "new @ new1 \<noteq> []" "c < T"
    "electron_state T (L0(idx := L0 idx @ new @ new1)) c b1 s1"
    "listParticles (electronBox b1) (L0 idx @ new @ new1) = listParticles (electronBox b) (L0 idx @ new)"
    "ionBox b1 = ionBox b" "newMacroElectrons b1 = newMacroElectrons b" "newFrameFillLvl b1 = c + k" "electronFrame b1 \<noteq> 0"
    by (rule open_first [OF alloc ext o T, of "c + k", folded c_def])
  have mem: "electronFrame b1 \<in> set (new @ new1)" using b1(3,4) last_in_set by metis
  note s1 = electron_stateD(2) [OF b1(6)]
  have "\<exists>b2 A2 s2. createThreads T writeElectron ionFrame (\<lambda>i. i < T) 0 r order b1 = Some b2 \<and> ion_state T LI ionFrame b2 A2
    \<and> electron_state T (L0(idx := L0 idx @ new @ new1)) (min T (c + length (filter ?P order) - 0)) b2 s2 \<and> wrote writeElectron ionFrame b1 A s1 b2 A2 s2
    \<and> newMacroElectrons b2 = countDown r (\<lambda>i. i < T) order (newMacroElectrons b1)"
    by (rule createThreads_run [OF _ _ ord(1) _ dr])
      (use ions b1(5,6,8,9) ord(2) drew_Some [OF dr] in \<open>auto simp: ion_state_def min_def\<close>)
  then obtain b2 A2 s2 where b2: "createThreads T writeElectron ionFrame (\<lambda>i. i < T) 0 r order b1 = Some b2" "ion_state T LI ionFrame b2 A2"
    "electron_state T (L0(idx := L0 idx @ new @ new1)) (min T (c + k)) b2 s2" "wrote writeElectron ionFrame b1 A s1 b2 A2 s2"
    "newMacroElectrons b2 = countDown r (\<lambda>i. i < T) order (newMacroElectrons b)"
    using b1(9) by (auto simp: k_def)
  have f2: "electronFrame b2 = last (new @ new1)" "electronFrame b2 \<noteq> 0" "newFrameFillLvl b2 = c + k"
    using b2(4) b1(3,10,11) by (simp_all add: wrote_def)
  have n2: "\<forall>t \<in> set order. \<forall>i. r t = Some i \<and> T \<le> i \<longrightarrow> newMacroElectrons b2 t > 0"
    using drew_Some [OF dr] unfolding b2(5) by (auto simp: countDown_def)
  note ext2 = wrote_extended(1) [OF b1(2) mem s1 b2(4) b2(3)]
  obtain b3 b' A' new' where b': "(if newFrameFillLvl b2 \<ge> T
      then appendElectronFrame malloc garbage idx b2 \<bind> (\<lambda>b. Some (b\<lparr>newFrameFillLvl := newFrameFillLvl b - T\<rparr>)) else Some b2) = Some b3"
    "createThreads T writeElectron ionFrame (\<lambda>i. i \<ge> T) T r order b3 = Some b'" "ion_state T LI ionFrame b' A'"
    "extended T idx eb0 L0 ((new @ new1) @ new') (electronBox b')" "open_frame T ((new @ new1) @ new') b'"
    "kept writeElectron (L0 idx) ionFrame b2 A2 (new @ new1) b' A' ((new @ new1) @ new')"
    "newMacroElectrons b' = countDown r (\<lambda>i. i \<ge> T) order (newMacroElectrons b2)"
    using create_second [where writeElectron = writeElectron, OF alloc b2(2) ext2 f2(1) b1(4) f2(2) b2(3) b1(5) k f2(3) ord(1) eq_refl [OF ord(2)] dr k_def [symmetric] n2]
    by blast
  have "createRound T writeElectron malloc garbage idx order ionFrame b = Some (True, b')"
    unfolding createRound_def c_def [symmetric] at Let_def prod.case using k0 b1(1) b2(1) b'(1,2) by simp
  moreover have "kept writeElectron (L0 idx) ionFrame b A new b1 A (new @ new1)" using b1(7,8,9) by (simp add: kept_def)
  note kept_trans [OF kept_trans [OF this wrote_kept [OF b1(2) mem s1 b2(4) b2(3)]] b'(6)]
  moreover have "\<forall>t < T. newMacroElectrons b' t = newMacroElectrons b t - 1"
    using countDown_twice [OF dr] ord(2) unfolding b'(7) b2(5) by simp
  ultimately show ?thesis using b'(3-5) by (intro exI [of _ b'] exI [of _ A'] exI [of _ "new1 @ new'"]) simp
qed

section \<open>The loops\<close>

text \<open>A round that finds no thread with an electron ends the inner loop; each other round takes one electron from every thread that has one.\<close>

lemma createRound_ends:
  assumes "\<forall>t \<in> set order. newMacroElectrons b t = 0"
  shows "createRound T writeElectron malloc garbage idx order ionFrame b = Some (False, b)"
proof -
  have "filter (\<lambda>t. newMacroElectrons b t > 0) order = []" using assms by (simp add: filter_empty_conv)
  then have "fst (atomicInc (\<lambda>t. newMacroElectrons b t > 0) order (newFrameFillLvl b, Map.empty)) = newFrameFillLvl b"
    by simp
  then show ?thesis by (simp add: createRound_def Let_def case_prod_beta)
qed

lemma createLoop_correct:
  assumes alloc: "good_allocator T malloc garbage" and order: "\<forall>k. thread_order T (order k)"
  shows "ion_state T LI ionFrame b A \<Longrightarrow> extended T idx eb0 L0 new (electronBox b) \<Longrightarrow> open_frame T new b \<Longrightarrow>
    \<forall>t < T. newMacroElectrons b t < rounds \<Longrightarrow> 0 < rounds \<Longrightarrow>
    \<exists>b' A' new'. createLoop T writeElectron malloc garbage idx order ionFrame rounds b = Some b' \<and> ion_state T LI ionFrame b' A'
      \<and> extended T idx eb0 L0 (new @ new') (electronBox b') \<and> open_frame T (new @ new') b'
      \<and> kept writeElectron (L0 idx) ionFrame b A new b' A' (new @ new') \<and> (\<forall>t < T. newMacroElectrons b' t = 0)"
proof (induction rounds arbitrary: b A new)
  case (Suc rounds)
  have ord: "thread_order T (order rounds)" using order by simp
  show ?case
  proof (cases "\<forall>t < T. newMacroElectrons b t = 0")
    case True
    then have "\<forall>t \<in> set (order rounds). newMacroElectrons b t = 0" using ord by (simp add: thread_order_def)
    then have "createLoop T writeElectron malloc garbage idx order ionFrame (Suc rounds) b = Some b" by (simp add: createRound_ends)
    then show ?thesis using Suc.prems True by (intro exI [of _ b] exI [of _ A] exI [of _ "[]"]) (simp add: kept_refl)
  next
    case False
    then obtain t0 where t0: "t0 < T" "newMacroElectrons b t0 > 0" by auto
    obtain b1 A1 new1 where r: "createRound T writeElectron malloc garbage idx (order rounds) ionFrame b = Some (True, b1)" "ion_state T LI ionFrame b1 A1"
      "extended T idx eb0 L0 (new @ new1) (electronBox b1)" "open_frame T (new @ new1) b1"
      "kept writeElectron (L0 idx) ionFrame b A new b1 A1 (new @ new1)" "\<forall>t < T. newMacroElectrons b1 t = newMacroElectrons b t - 1"
      using createRound_correct [OF alloc ord Suc.prems(1-3) t0] by blast
    have pos: "0 < rounds" using t0 Suc.prems(4) by fastforce
    have "\<forall>t < T. newMacroElectrons b1 t < rounds" using r(6) Suc.prems(4) pos by fastforce
    from Suc.IH [OF r(2-4) this pos] obtain b' A' new' where
      b': "createLoop T writeElectron malloc garbage idx order ionFrame rounds b1 = Some b'" "ion_state T LI ionFrame b' A'"
      "extended T idx eb0 L0 ((new @ new1) @ new') (electronBox b')" "open_frame T ((new @ new1) @ new') b'"
      "kept writeElectron (L0 idx) ionFrame b1 A1 (new @ new1) b' A' ((new @ new1) @ new')" "\<forall>t < T. newMacroElectrons b' t = 0"
      by blast
    show ?thesis using r(1) b' kept_trans [OF r(5) b'(5)]
      by (intro exI [of _ b'] exI [of _ A'] exI [of _ "new1 @ new'"]) simp
  qed
qed simp

text \<open>The electrons of a multiset of ions.\<close>

definition newElectrons :: "('i \<Rightarrow> nat \<Rightarrow> 'i \<times> nat) \<Rightarrow> ('i \<Rightarrow> 'i \<times> 'e) \<Rightarrow> 'i multiset \<Rightarrow> 'e multiset" where
  "newElectrons frameIonizer writeElectron M = sum_mset (image_mset (\<lambda>p. mset (snd (ionized frameIonizer writeElectron p))) M)"

lemma newElectrons_simps [simp]:
  "newElectrons fi w {#} = {#}" "newElectrons fi w (M + N) = newElectrons fi w M + newElectrons fi w N"
  "newElectrons fi w (add_mset p M) = mset (snd (ionized fi w p)) + newElectrons fi w M"
  by (simp_all add: newElectrons_def)

lemma newElectrons_slots:
  "newElectrons fi w (particles A) = (\<Sum>t < length A. newElectrons fi w (slotParticle (A ! t)))"
proof (induction A)
  case (Cons s A)
  have "particles (s # A) = slotParticle s + particles A" by (simp add: particles_def)
  then show ?case by (simp add: Cons.IH sum.lessThan_Suc_shift del: sum.lessThan_Suc)
qed (simp add: particles_def)

lemma ionizeFrame_correct:
  assumes ions: "ion_state T LI ionFrame b A" and zero: "\<forall>t < T. newMacroElectrons b t = 0"
  obtains b1 A1 where "ionizeFrame T fi ionFrame b = Some b1" "ion_state T LI ionFrame b1 A1"
    "electronBox b1 = electronBox b" "electronFrame b1 = electronFrame b" "newFrameFillLvl b1 = newFrameFillLvl b"
    "\<forall>a. a \<noteq> ionFrame \<longrightarrow> content (ionBox b1) a = content (ionBox b) a" "superCells (ionBox b1) = superCells (ionBox b)"
    "pending w A1 (newMacroElectrons b1) = newElectrons fi w (particles A)"
    "\<forall>t < T. finalIon w A1 (newMacroElectrons b1) t = ionizedSlots (ionAfter fi w) A ! t"
    "\<forall>t < T. newMacroElectrons b1 t = (if fst (A ! t) \<noteq> 0 then snd (fi (snd (A ! t)) 0) else 0)"
proof -
  note i = ion_stateD [OF ions]
  let ?A = "map (\<lambda>t. if t < T \<and> fst (A ! t) \<noteq> 0 then (fst (A ! t), fst (fi (snd (A ! t)) (newMacroElectrons b t))) else A ! t) [0..<T]"
  let ?n = "\<lambda>t. if t < T \<and> fst (A ! t) \<noteq> 0 then snd (fi (snd (A ! t)) (newMacroElectrons b t)) else newMacroElectrons b t"
  obtain ib where ib: "modifyFrame ionFrame (setSlots ?A) (ionBox b) = Some ib" "box_rep ib LI"
    "content ib = (content (ionBox b))(ionFrame \<mapsto> ?A)" "superCells ib = superCells (ionBox b)"
    by (rule modifyFrame_setSlots [OF i(1,2)])
  let ?b = "b\<lparr>ionBox := ib, newMacroElectrons := ?n\<rparr>"
  have run: "ionizeFrame T fi ionFrame b = Some ?b" using ib(1) i(2) by (simp add: ionizeFrame_def Let_def)
  have st: "ion_state T LI ionFrame ?b ?A" using ib by (simp add: ion_state_def)
  have "mset (snd (emit w (?n t) (snd (?A ! t)))) = newElectrons fi w (slotParticle (A ! t))" if "t < T" for t
    using that zero by (simp add: slotParticle_def ionized_def case_prod_beta)
  then have "pending w ?A ?n = newElectrons fi w (particles A)"
    unfolding pending_def newElectrons_slots using i(3) by simp
  moreover have "finalIon w ?A ?n t = ionizedSlots (ionAfter fi w) A ! t" if "t < T" for t
    using that zero i(3) by (simp add: finalIon_def ionizedSlots_def ionAfter_def ionized_def case_prod_beta prod_eq_iff)
  ultimately show ?thesis using that [OF run st] ib(3,4) zero by simp
qed

lemma frame_ionized:
  assumes alloc: "good_allocator T malloc garbage" and order: "\<forall>k. thread_order T (order k)"
    and ions: "ion_state T LI ionFrame b A" and ext: "extended T idx eb0 L0 new (electronBox b)" and o: "open_frame T new b"
    and zero: "\<forall>t < T. newMacroElectrons b t = 0" and bound: "\<forall>p \<in># particles A. snd (fi p 0) < rounds" and pos: "0 < rounds"
  shows "\<exists>b' new'. (ionizeFrame T fi ionFrame b \<bind> createLoop T w malloc garbage idx order ionFrame rounds) = Some b'
    \<and> ion_state T LI ionFrame b' (ionizedSlots (ionAfter fi w) A)
    \<and> extended T idx eb0 L0 (new @ new') (electronBox b') \<and> open_frame T (new @ new') b' \<and> (\<forall>t < T. newMacroElectrons b' t = 0)
    \<and> listParticles (electronBox b') (L0 idx @ new @ new') = listParticles (electronBox b) (L0 idx @ new) + newElectrons fi w (particles A)
    \<and> (\<forall>a. a \<noteq> ionFrame \<longrightarrow> content (ionBox b') a = content (ionBox b) a) \<and> superCells (ionBox b') = superCells (ionBox b)"
proof -
  obtain b1 A1 where b1: "ionizeFrame T fi ionFrame b = Some b1" "ion_state T LI ionFrame b1 A1"
    "electronBox b1 = electronBox b" "electronFrame b1 = electronFrame b" "newFrameFillLvl b1 = newFrameFillLvl b"
    "\<forall>a. a \<noteq> ionFrame \<longrightarrow> content (ionBox b1) a = content (ionBox b) a" "superCells (ionBox b1) = superCells (ionBox b)"
    "pending w A1 (newMacroElectrons b1) = newElectrons fi w (particles A)"
    "\<forall>t < T. finalIon w A1 (newMacroElectrons b1) t = ionizedSlots (ionAfter fi w) A ! t"
    "\<forall>t < T. newMacroElectrons b1 t = (if fst (A ! t) \<noteq> 0 then snd (fi (snd (A ! t)) 0) else 0)"
    by (rule ionizeFrame_correct [OF ions zero])
  have "snd (A ! t) \<in># particles A" if "t < T" "fst (A ! t) \<noteq> 0" for t
    using particles_remove [of t A "snd (A ! t)"] that ion_stateD(3) [OF ions] by (metis union_single_eq_member)
  then have n: "\<forall>t < T. newMacroElectrons b1 t < rounds" using b1(10) bound pos by simp
  have o1: "open_frame T new b1" using o b1(3-5) by (simp add: open_frame_def)
  obtain b' A' new' where b': "createLoop T w malloc garbage idx order ionFrame rounds b1 = Some b'" "ion_state T LI ionFrame b' A'"
    "extended T idx eb0 L0 (new @ new') (electronBox b')" "open_frame T (new @ new') b'"
    "kept w (L0 idx) ionFrame b1 A1 new b' A' (new @ new')" "\<forall>t < T. newMacroElectrons b' t = 0"
    using createLoop_correct [OF alloc order b1(2) _ o1 n pos] ext b1(3) by metis
  have len: "length A' = T" "length A = T" using ion_stateD(3) b'(2) ions by blast+
  have "finalIon w A' (newMacroElectrons b') t = A' ! t" if "t < T" for t using b'(6) that by (simp add: finalIon_def)
  then have "A' = ionizedSlots (ionAfter fi w) A"
    using b'(5) b1(9) len by (intro nth_equalityI) (auto simp: kept_def ionizedSlots_def)
  moreover have "pending w A' (newMacroElectrons b') = {#}" using b'(6) len(1) by (simp add: pending_none)
  ultimately show ?thesis using b1(1,3,6,7,8) b' by (intro exI [of _ b'] exI [of _ new']) (simp add: kept_def)
qed

lemma getPreviousFrame_rep:
  assumes "box_rep pb L" "L idx = xs @ a # ys"
  shows "getPreviousFrame a pb = Some (lastOr 0 xs, xs \<noteq> [])"
proof -
  have "linked (frames pb) 0 (xs @ a # ys) 0" using box_rep_linked [OF assms(1), of idx] assms(2) by simp
  then obtain f where "frames pb a = Some f" "previousFrame f = lastOr 0 xs"
    by (auto simp: linked_append split: option.splits)
  moreover have "xs \<noteq> [] \<Longrightarrow> lastOr 0 xs \<noteq> 0"
    using list_not_null [OF assms(1), of "last xs" idx] assms(2) by (simp add: lastOr_def)
  ultimately show ?thesis by (auto simp: getPreviousFrame_def isValid_def)
qed

text \<open>The frames \<open>xs\<close> of the supercell have been ionized.\<close>

definition framesIonized :: "('i \<Rightarrow> 'i) \<Rightarrow> addr list \<Rightarrow> 'i ParticlesBox \<Rightarrow> 'i ParticlesBox \<Rightarrow> bool" where
  "framesIonized f xs pb pb' \<longleftrightarrow> superCells pb' = superCells pb
     \<and> (\<forall>a. content pb' a = (if a \<in> set xs then map_option (ionizedSlots f) (content pb a) else content pb a))"

lemma ionizeLoop_correct:
  assumes alloc: "good_allocator T malloc garbage" and order: "\<forall>k j. thread_order T (order k j)" and pos: "0 < rounds"
  shows "box_rep (ionBox b) LI \<Longrightarrow> LI idx = xs @ a # ys \<Longrightarrow> \<forall>x \<in> set (xs @ [a]). frame_ok T (ionBox b) x \<Longrightarrow>
    extended T idx eb0 L0 new (electronBox b) \<Longrightarrow> open_frame T new b \<Longrightarrow> \<forall>t < T. newMacroElectrons b t = 0 \<Longrightarrow>
    \<forall>p \<in># listParticles (ionBox b) (xs @ [a]). snd (fi p 0) < rounds \<Longrightarrow> length xs < fuel \<Longrightarrow>
    \<exists>b' new'. ionizeLoop T fi w malloc garbage idx order rounds fuel a b = Some b' \<and> box_rep (ionBox b') LI
      \<and> framesIonized (ionAfter fi w) (xs @ [a]) (ionBox b) (ionBox b') \<and> extended T idx eb0 L0 (new @ new') (electronBox b')
      \<and> listParticles (electronBox b') (L0 idx @ new @ new')
        = listParticles (electronBox b) (L0 idx @ new) + newElectrons fi w (listParticles (ionBox b) (xs @ [a]))"
proof (induction fuel arbitrary: xs a ys b new)
  case (Suc fuel)
  let ?f = "ionAfter fi w"
  obtain A where A: "content (ionBox b) a = Some A" "length A = T" using Suc.prems(3) by (auto simp: frame_ok_def)
  have st: "ion_state T LI a b A" using Suc.prems(1) A by (simp add: ion_state_def)
  have ord: "\<forall>j. thread_order T (order fuel j)" using order by simp
  have bound: "\<forall>p \<in># particles A. snd (fi p 0) < rounds" using Suc.prems(7) frameParticles_content [OF A(1)] by simp
  obtain b1 new1 where b1: "(ionizeFrame T fi a b \<bind> createLoop T w malloc garbage idx (order fuel) a rounds) = Some b1"
    "ion_state T LI a b1 (ionizedSlots ?f A)" "extended T idx eb0 L0 (new @ new1) (electronBox b1)" "open_frame T (new @ new1) b1"
    "\<forall>t < T. newMacroElectrons b1 t = 0"
    "listParticles (electronBox b1) (L0 idx @ new @ new1) = listParticles (electronBox b) (L0 idx @ new) + newElectrons fi w (particles A)"
    "\<forall>x. x \<noteq> a \<longrightarrow> content (ionBox b1) x = content (ionBox b) x" "superCells (ionBox b1) = superCells (ionBox b)"
    using frame_ionized [where w = w and fi = fi, OF alloc ord st Suc.prems(4-6) bound pos] by blast
  have prev: "getPreviousFrame a (ionBox b1) = Some (lastOr 0 xs, xs \<noteq> [])"
    by (rule getPreviousFrame_rep [OF ion_stateD(1) [OF b1(2)] Suc.prems(2)])
  have step: "ionizeLoop T fi w malloc garbage idx order rounds (Suc fuel) a b =
      (if xs \<noteq> [] then ionizeLoop T fi w malloc garbage idx order rounds fuel (lastOr 0 xs) b1 else Some b1)"
    using b1(1) prev by (cases "ionizeFrame T fi a b") simp_all
  have a1: "content (ionBox b1) a = Some (ionizedSlots ?f A)" by (rule ion_stateD(2) [OF b1(2)])
  show ?case
  proof (cases xs rule: rev_cases)
    case Nil
    have "framesIonized ?f [a] (ionBox b) (ionBox b1)" using A(1) a1 b1(7,8) by (simp add: framesIonized_def)
    then show ?thesis using Nil step ion_stateD(1) [OF b1(2)] b1(3,6) A(1)
      by (intro exI [of _ b1] exI [of _ new1]) (simp add: frameParticles_content)
  next
    case (snoc zs z)
    have d: "a \<notin> set (zs @ [z])" using box_rep_distinct [OF Suc.prems(1), of idx] Suc.prems(2) snoc by auto
    then have same: "\<forall>x \<in> set (zs @ [z]). content (ionBox b1) x = content (ionBox b) x" using b1(7) by metis
    then have parts: "listParticles (ionBox b1) (zs @ [z]) = listParticles (ionBox b) (zs @ [z])" by (intro listParticles_cong) blast
    have "\<exists>b' new'. ionizeLoop T fi w malloc garbage idx order rounds fuel z b1 = Some b' \<and> box_rep (ionBox b') LI
        \<and> framesIonized ?f (zs @ [z]) (ionBox b1) (ionBox b') \<and> extended T idx eb0 L0 ((new @ new1) @ new') (electronBox b')
        \<and> listParticles (electronBox b') (L0 idx @ (new @ new1) @ new')
          = listParticles (electronBox b1) (L0 idx @ new @ new1) + newElectrons fi w (listParticles (ionBox b1) (zs @ [z]))"
    proof (rule Suc.IH [OF ion_stateD(1) [OF b1(2)] _ _ b1(3-5)])
      show "LI idx = zs @ z # (a # ys)" using Suc.prems(2) snoc by simp
      show "\<forall>x \<in> set (zs @ [z]). frame_ok T (ionBox b1) x" using Suc.prems(3) snoc same by (simp add: frame_ok_def)
      show "\<forall>p \<in># listParticles (ionBox b1) (zs @ [z]). snd (fi p 0) < rounds"
        using Suc.prems(7) unfolding parts snoc by auto
      show "length zs < fuel" using Suc.prems(8) snoc by simp
    qed
    then obtain b' new' where b': "ionizeLoop T fi w malloc garbage idx order rounds fuel z b1 = Some b'" "box_rep (ionBox b') LI"
      "framesIonized ?f (zs @ [z]) (ionBox b1) (ionBox b')" "extended T idx eb0 L0 ((new @ new1) @ new') (electronBox b')"
      "listParticles (electronBox b') (L0 idx @ (new @ new1) @ new')
        = listParticles (electronBox b1) (L0 idx @ new @ new1) + newElectrons fi w (listParticles (ionBox b1) (zs @ [z]))"
      by blast
    have "framesIonized ?f (xs @ [a]) (ionBox b) (ionBox b')"
      using b'(3) d b1(7,8) a1 A(1) same unfolding framesIonized_def snoc by auto
    moreover have all: "listParticles (ionBox b) (xs @ [a]) = listParticles (ionBox b) (zs @ [z]) + particles A"
      using snoc A(1) by (simp add: frameParticles_content)
    have "listParticles (electronBox b') (L0 idx @ new @ new1 @ new')
        = listParticles (electronBox b) (L0 idx @ new) + newElectrons fi w (listParticles (ionBox b) (xs @ [a]))"
      unfolding all newElectrons_simps(2) using b'(5) [unfolded parts b1(6)] by (simp only: append_assoc ac_simps)
    ultimately show ?thesis using step snoc b'(1,2,4)
      by (intro exI [of _ b'] exI [of _ "new1 @ new'"]) (simp add: lastOr_def)
  qed
qed simp

section \<open>The kernel creates the electrons of every ion\<close>

lemma kernelIonizeParticles_correct:
  assumes alloc: "good_allocator T malloc garbage" and order: "\<forall>k j. thread_order T (order k j)"
    and ions: "box_rep ions LI" "\<forall>a \<in> set (LI idx). frame_ok T ions a" and electrons: "box_rep electrons LE" "finite (dom (frames electrons))"
    and fuel: "length (LI idx) \<le> fuel" "\<forall>p \<in># listParticles ions (LI idx). snd (fi p 0) < rounds" and pos: "0 < rounds"
  shows "\<exists>ions' electrons' new. kernelIonizeParticles T fi w malloc garbage order rounds fuel idx (ions, electrons) = Some (ions', electrons')
    \<and> box_rep ions' LI \<and> framesIonized (ionAfter fi w) (LI idx) ions ions'
    \<and> extended T idx electrons LE new electrons'
    \<and> listParticles electrons' (LE idx @ new) = listParticles electrons (LE idx) + newElectrons fi w (listParticles ions (LI idx))"
proof (cases "LI idx" rule: rev_cases)
  case Nil
  then have "kernelIonizeParticles T fi w malloc garbage order rounds fuel idx (ions, electrons) = Some (ions, electrons)"
    using getLastFrame_rep [OF ions(1), of idx] by (simp add: kernelIonizeParticles_def)
  moreover have "extended T idx electrons LE [] electrons" using electrons by (simp add: extended_def)
  ultimately show ?thesis using Nil ions(1)
    by (intro exI [of _ ions] exI [of _ electrons] exI [of _ "[]"]) (simp add: framesIonized_def)
next
  case (snoc xs a)
  let ?b = "\<lparr>ionBox = ions, electronBox = electrons, electronFrame = 0, newFrameFillLvl = 0, newMacroElectrons = (\<lambda>t. 0)\<rparr>"
  have "\<exists>b' new'. ionizeLoop T fi w malloc garbage idx order rounds fuel a ?b = Some b' \<and> box_rep (ionBox b') LI
      \<and> framesIonized (ionAfter fi w) (xs @ [a]) (ionBox ?b) (ionBox b') \<and> extended T idx electrons LE ([] @ new') (electronBox b')
      \<and> listParticles (electronBox b') (LE idx @ [] @ new')
        = listParticles (electronBox ?b) (LE idx @ []) + newElectrons fi w (listParticles (ionBox ?b) (xs @ [a]))"
  proof (rule ionizeLoop_correct [OF alloc order pos])
    show "extended T idx electrons LE [] (electronBox ?b)" using electrons by (simp add: extended_def)
  qed (use ions snoc fuel in \<open>simp_all add: open_frame_def\<close>)
  then obtain b' new' where b': "ionizeLoop T fi w malloc garbage idx order rounds fuel a ?b = Some b'" "box_rep (ionBox b') LI"
    "framesIonized (ionAfter fi w) (LI idx) ions (ionBox b')" "extended T idx electrons LE new' (electronBox b')"
    "listParticles (electronBox b') (LE idx @ new') = listParticles electrons (LE idx) + newElectrons fi w (listParticles ions (LI idx))"
    unfolding snoc by auto
  have "kernelIonizeParticles T fi w malloc garbage order rounds fuel idx (ions, electrons) = Some (ionBox b', electronBox b')"
    using getLastFrame_rep [OF ions(1), of idx] b'(1) by (simp add: kernelIonizeParticles_def snoc lastOr_def)
  then show ?thesis using b'(2-5) by blast
qed

text \<open>The orders in which the threads reach the counters of the four loops of gap filling.\<close>

type_synonym gapOrders = "(nat \<Rightarrow> nat list) \<times> (nat \<Rightarrow> nat list) \<times> nat list \<times> nat list"

definition gap_orders :: "nat \<Rightarrow> gapOrders \<Rightarrow> bool" where
  "gap_orders T = (\<lambda>(gapOrder, parOrder, packOrder, srcOrder).
     (\<forall>k. thread_order T (gapOrder k) \<and> thread_order T (parOrder k)) \<and> thread_order T packOrder \<and> thread_order T srcOrder)"

text \<open>
  \<open>CallIonization\<close> for one supercell: the kernel, if the species has an ionizer, then \<open>fillAllGaps\<close> on the electrons.
\<close>

definition callIonization ::
  "bool \<Rightarrow> nat \<Rightarrow> ('i \<Rightarrow> nat \<Rightarrow> 'i \<times> nat) \<Rightarrow> ('i \<Rightarrow> 'i \<times> 'e) \<Rightarrow> ((addr \<rightharpoonup> 'e Frame) \<Rightarrow> addr) \<Rightarrow> (addr \<Rightarrow> 'e Frame)
    \<Rightarrow> (nat \<Rightarrow> nat \<Rightarrow> nat list) \<Rightarrow> nat \<Rightarrow> nat \<Rightarrow> gapOrders \<Rightarrow> nat \<Rightarrow> DataSpace
    \<Rightarrow> 'i ParticlesBox \<times> 'e ParticlesBox \<Rightarrow> ('i ParticlesBox \<times> 'e ParticlesBox) option" where
  "callIonization hasIonizer T frameIonizer writeElectron malloc garbage order rounds fuel gaps gapFuel idx boxes =
     (if hasIonizer
      then do {
        (ions, electrons) \<leftarrow> kernelIonizeParticles T frameIonizer writeElectron malloc garbage order rounds fuel idx boxes;
        let (gapOrder, parOrder, packOrder, srcOrder) = gaps;
        electrons \<leftarrow> fillGapsCell T gapOrder parOrder packOrder srcOrder gapFuel idx electrons;
        Some (ions, electrons)
      }
      else Some boxes)"

lemma particles_ionizedSlots: "particles (ionizedSlots f A) = image_mset f (particles A)"
  by (induction A) (auto simp: particles_def ionizedSlots_def slotParticle_def)

lemma listParticles_ionized:
  assumes "framesIonized f xs pb pb'" "\<forall>a \<in> set ys. a \<in> set xs"
  shows "listParticles pb' ys = image_mset f (listParticles pb ys)"
  using assms(2)
proof (induction ys)
  case (Cons a ys)
  then have "frameParticles pb' a = image_mset f (frameParticles pb a)"
    using assms(1) by (auto simp: framesIonized_def frameParticles_def particles_ionizedSlots split: option.split)
  with Cons show ?case by simp
qed simp

lemma callIonization_correct:
  assumes alloc: "good_allocator T malloc garbage" and order: "\<forall>k j. thread_order T (order k j)" "gap_orders T gaps"
    and ions: "box_rep ions LI" "\<forall>a \<in> set (LI idx). frame_ok T ions a"
    and electrons: "box_rep electrons LE" "\<forall>a \<in> set (LE idx). frame_ok T electrons a" "finite (dom (frames electrons))"
    and fuel: "length (LI idx) \<le> fuel" "\<forall>p \<in># listParticles ions (LI idx). snd (fi p 0) < rounds" "0 < rounds" and T: "T \<le> INV_LOC_IDX"
  shows "\<exists>n. \<forall>gapFuel \<ge> n. \<exists>ions' electrons' xs.
      callIonization True T fi w malloc garbage order rounds fuel gaps gapFuel idx (ions, electrons) = Some (ions', electrons')
    \<and> box_rep ions' LI \<and> framesIonized (ionAfter fi w) (LI idx) ions ions'
    \<and> box_rep electrons' (LE(idx := xs)) \<and> packed T electrons' idx xs
    \<and> listParticles electrons' xs = listParticles electrons (LE idx) + newElectrons fi w (listParticles ions (LI idx))
    \<and> (\<forall>j. j \<noteq> idx \<longrightarrow> (\<forall>a \<in> set (LE j). content electrons' a = content electrons a))"
proof -
  obtain ions' electrons1 new where k:
    "kernelIonizeParticles T fi w malloc garbage order rounds fuel idx (ions, electrons) = Some (ions', electrons1)"
    "box_rep ions' LI" "framesIonized (ionAfter fi w) (LI idx) ions ions'" "extended T idx electrons LE new electrons1"
    "listParticles electrons1 (LE idx @ new) = listParticles electrons (LE idx) + newElectrons fi w (listParticles ions (LI idx))"
    using kernelIonizeParticles_correct [where w = w and fi = fi, OF alloc order(1) ions electrons(1,3) fuel] by blast
  note e = extendedD [OF k(4)]
  let ?L = "LE(idx := LE idx @ new)"
  have ok: "\<forall>a \<in> set (?L idx). frame_ok T electrons1 a"
    using electrons(2) e(3,4) list_in_heap [OF electrons(1)] by (auto simp: frame_ok_def)
  obtain gapOrder parOrder packOrder srcOrder where gaps: "gaps = (gapOrder, parOrder, packOrder, srcOrder)" by (cases gaps)
  with order(2) have gap: "\<forall>k. thread_order T (gapOrder k) \<and> thread_order T (parOrder k)" "thread_order T packOrder" "thread_order T srcOrder"
    by (simp_all add: gap_orders_def)
  show ?thesis
  proof (intro exI [of _ "length (?L idx)"] allI impI)
    fix gapFuel
    assume "length (?L idx) \<le> gapFuel"
    from fillGapsCell_correct [OF e(1) ok this T gap]
    obtain electrons' xs rest where g: "fillGapsCell T gapOrder parOrder packOrder srcOrder gapFuel idx electrons1 = Some electrons'"
      "box_rep electrons' (?L(idx := xs))" "packed T electrons' idx xs" "listParticles electrons' xs = listParticles electrons1 (?L idx)"
      "\<forall>a. a \<notin> set (?L idx) \<longrightarrow> content electrons' a = content electrons1 a"
      by blast
    have "content electrons' a = content electrons a" if "j \<noteq> idx" "a \<in> set (LE j)" for j a
      using g(5) e(4) list_in_heap [OF electrons(1) that(2)] box_rep_disjoint [OF e(1), of j idx a] that by simp
    then show "\<exists>ions' electrons' xs.
        callIonization True T fi w malloc garbage order rounds fuel gaps gapFuel idx (ions, electrons) = Some (ions', electrons')
      \<and> box_rep ions' LI \<and> framesIonized (ionAfter fi w) (LI idx) ions ions' \<and> box_rep electrons' (LE(idx := xs)) \<and> packed T electrons' idx xs
      \<and> listParticles electrons' xs = listParticles electrons (LE idx) + newElectrons fi w (listParticles ions (LI idx))
      \<and> (\<forall>j. j \<noteq> idx \<longrightarrow> (\<forall>a \<in> set (LE j). content electrons' a = content electrons a))"
      using k g by (intro exI [of _ ions'] exI [of _ electrons'] exI [of _ xs]) (simp add: callIonization_def gaps)
  qed
qed

section \<open>Conserved quantities\<close>

text \<open>
  A quantity that an ion and its electrons share without loss is conserved in the supercell.
\<close>

locale conserved_quantity =
  fixes fi :: "'i \<Rightarrow> nat \<Rightarrow> 'i \<times> nat" and w :: "'i \<Rightarrow> 'i \<times> 'e" and ok :: "'i \<Rightarrow> bool"
    and q :: "'i \<Rightarrow> 'a::comm_monoid_add" and r :: "'e \<Rightarrow> 'a"
  assumes balance: "ok p \<Longrightarrow> q (ionAfter fi w p) + sum_list (map r (snd (ionized fi w p))) = q p"
begin

lemma balance_mset:
  "\<forall>p \<in># M. ok p \<Longrightarrow>
    sum_mset (image_mset q (image_mset (ionAfter fi w) M)) + sum_mset (image_mset r (newElectrons fi w M)) = sum_mset (image_mset q M)"
proof (induction M)
  case (add p M)
  have "sum_mset (image_mset r (mset (snd (ionized fi w p)))) = sum_list (map r (snd (ionized fi w p)))"
    by (metis mset_map sum_mset_sum_list)
  with add.IH add.prems balance [of p] show ?case by (simp add: ac_simps) (metis (no_types, lifting) add.assoc add.left_commute)
qed simp

lemma conserved:
  assumes ions: "\<forall>p \<in># listParticles ions fs. ok p" "framesIonized (ionAfter fi w) fs ions ions'"
    and new: "E' = E + newElectrons fi w (listParticles ions fs)"
  shows "sum_mset (image_mset q (listParticles ions' fs)) + sum_mset (image_mset r E')
    = sum_mset (image_mset q (listParticles ions fs)) + sum_mset (image_mset r E)"
proof -
  have "listParticles ions' fs = image_mset (ionAfter fi w) (listParticles ions fs)"
    by (rule listParticles_ionized [OF ions(2)]) simp
  with balance_mset [OF ions(1)] new show ?thesis by (simp add: ac_simps)
qed

end

section \<open>Barrier suppression ionization\<close>

lemma BSI_cases:
  obtains "BSI_Impl sp s TVec fieldE fieldB blockCell p n = (p, 0)"
  | "BSI_Impl sp s TVec fieldE fieldB blockCell p n = (p\<lparr>boundElectrons := boundElectrons p - 1\<rparr>, 1)"
  by (cases "BSI_Impl sp s TVec fieldE fieldB blockCell p n = (p, 0)")
    (auto simp: BSI_Impl_def AlgorithmBSI_def Let_def split: if_splits)

text \<open>
  An ion loses at most one electron per step. The table of fields is read before the test for a bare nucleus, at an index past its end when
  no electron is bound, but what is read there does not matter.
\<close>

lemma BSI_at_most_one: "snd (BSI_Impl sp s TVec fieldE fieldB blockCell p n) \<le> 1"
  by (rule BSI_cases [of sp s TVec fieldE fieldB blockCell p n]) simp_all

lemma AlgorithmBSI_table:
  assumes "numberOfProtons sp = of_nat Z" "boundElectrons p = of_nat k" "k \<le> Z" "Z < 2 ^ 32"
  shows "u32 \<lfloor>getChargeState sp p\<rfloor> = int (Z - k)" "k = 0 \<Longrightarrow> AlgorithmBSI sp bField eField p = p"
proof -
  have "getChargeState sp p = of_int (int (Z - k))" using assms(1-3) by (simp add: getChargeState_def of_nat_diff)
  then show "u32 \<lfloor>getChargeState sp p\<rfloor> = int (Z - k)" using assms(4) by (simp add: u32_def)
  show "k = 0 \<Longrightarrow> AlgorithmBSI sp bField eField p = p" using assms(1,2) by (simp add: AlgorithmBSI_def getChargeState_def)
qed

lemma vec_arith_nth:
  assumes "length (v :: real vec) = 3" "length w = 3" "d < 3"
  shows "vec_sub v w ! d = v ! d - w ! d" "vec_mul_s v k ! d = v ! d * k" "length (vec_mul_s v k) = 3" "length (vec_sub v w) = 3"
proof -
  obtain a b c a' b' c' where v: "v = [a, b, c]" "w = [a', b', c']"
    using assms(1,2) by (auto simp: numeral_3_eq_3 length_Suc_conv)
  have "d = 0 \<or> d = 1 \<or> d = 2" using assms(3) by auto
  then show "vec_sub v w ! d = v ! d - w ! d" "vec_mul_s v k ! d = v ! d * k" "length (vec_mul_s v k) = 3" "length (vec_sub v w) = 3"
    by (auto simp: v vec_sub_def vec_sub_assign_def vec_mul_s_def scalar_mul_assign_def)
qed

lemma WriteElectron_momentum:
  assumes "length (attr_momentum p) = 3" "d < 3"
  shows "attr_momentum (fst (WriteElectronIntoFrame sp p)) ! d + attr_momentum (snd (WriteElectronIntoFrame sp p)) ! d = attr_momentum p ! d"
  using vec_arith_nth [of "attr_momentum p" "attr_momentum p" d] vec_arith_nth(1) [of "attr_momentum p" _ d] assms
  by (simp add: WriteElectronIntoFrame_def Let_def)

text \<open>The electron starts at the place and with the velocity of its ion.\<close>

lemma WriteElectron_velocity:
  assumes "1 \<le> attr_weighting p" "attr_weighting p < 2 ^ 32"
  shows "snd (WriteElectronIntoFrame sp p) = \<lparr>attr_position = attr_position p, attr_localCellIdx = attr_localCellIdx p,
    attr_weighting = attr_weighting p, attr_momentum = vec_mul_s (attr_momentum p) (electronMass sp / ionMass sp)\<rparr>"
proof -
  have f: "1 \<le> \<lfloor>attr_weighting p\<rfloor>" "\<lfloor>attr_weighting p\<rfloor> < 2 ^ 32" using assms by (simp_all add: floor_less_iff le_floor_iff)
  have "u32 \<lfloor>attr_weighting p\<rfloor> = \<lfloor>attr_weighting p\<rfloor>" by (rule u32_id) (use f in linarith)+
  with f(1) have "u32 \<lfloor>attr_weighting p\<rfloor> \<noteq> 0" by linarith
  then show ?thesis by (simp add: WriteElectronIntoFrame_def Let_def getMass_def)
qed

lemma WriteElectron_rest:
  "boundElectrons (fst (WriteElectronIntoFrame sp p)) = boundElectrons p" "attr_weighting (fst (WriteElectronIntoFrame sp p)) = attr_weighting p"
  "attr_weighting (snd (WriteElectronIntoFrame sp p)) = attr_weighting p"
  by (simp_all add: WriteElectronIntoFrame_def Let_def)

interpretation bsi_momentum: conserved_quantity "BSI_Impl sp s TVec fieldE fieldB blockCell" "WriteElectronIntoFrame sp"
  "\<lambda>p. length (attr_momentum p) = 3 \<and> d < 3" "\<lambda>p. attr_momentum p ! d" "\<lambda>e. attr_momentum e ! d"
  for sp s TVec fieldE fieldB blockCell d
proof
  fix p :: Ion
  assume ok: "length (attr_momentum p) = 3 \<and> d < 3"
  let ?p = "p\<lparr>boundElectrons := boundElectrons p - 1\<rparr>"
  show "attr_momentum (ionAfter (BSI_Impl sp s TVec fieldE fieldB blockCell) (WriteElectronIntoFrame sp) p) ! d
      + sum_list (map (\<lambda>e. attr_momentum e ! d) (snd (ionized (BSI_Impl sp s TVec fieldE fieldB blockCell) (WriteElectronIntoFrame sp) p)))
      = attr_momentum p ! d"
    by (rule BSI_cases [of sp s TVec fieldE fieldB blockCell p 0])
      (use ok WriteElectron_momentum [of ?p d sp] in \<open>simp_all add: ionAfter_def ionized_def case_prod_beta\<close>)
qed

interpretation bsi_charge: conserved_quantity "BSI_Impl sp s TVec fieldE fieldB blockCell" "WriteElectronIntoFrame sp"
  "\<lambda>p. True" "\<lambda>p. getChargeState sp p * attr_weighting p" "\<lambda>e. - attr_weighting e"
  for sp s TVec fieldE fieldB blockCell
proof
  fix p :: Ion
  let ?w = "WriteElectronIntoFrame sp" and ?fi = "BSI_Impl sp s TVec fieldE fieldB blockCell"
  show "getChargeState sp (ionAfter ?fi ?w p) * attr_weighting (ionAfter ?fi ?w p) + sum_list (map (\<lambda>e. - attr_weighting e) (snd (ionized ?fi ?w p)))
      = getChargeState sp p * attr_weighting p"
    by (rule BSI_cases [of sp s TVec fieldE fieldB blockCell p 0])
      (simp_all add: ionAfter_def ionized_def case_prod_beta getChargeState_def WriteElectron_rest algebra_simps)
qed

lemma BSI_newElectrons:
  assumes "e \<in># newElectrons (BSI_Impl sp s TVec fieldE fieldB blockCell) (WriteElectronIntoFrame sp) M"
    and w: "\<forall>p \<in># M. 1 \<le> attr_weighting p \<and> attr_weighting p < 2 ^ 32"
  shows "\<exists>p \<in># M. e = \<lparr>attr_position = attr_position p, attr_localCellIdx = attr_localCellIdx p,
    attr_weighting = attr_weighting p, attr_momentum = vec_mul_s (attr_momentum p) (electronMass sp / ionMass sp)\<rparr>"
proof -
  let ?fi = "BSI_Impl sp s TVec fieldE fieldB blockCell"
  obtain p where p: "p \<in># M" "e \<in> set (snd (ionized ?fi (WriteElectronIntoFrame sp) p))"
    using assms(1) by (auto simp: newElectrons_def)
  let ?p = "p\<lparr>boundElectrons := boundElectrons p - 1\<rparr>"
  have "e = snd (WriteElectronIntoFrame sp ?p)"
    by (rule BSI_cases [of sp s TVec fieldE fieldB blockCell p 0]) (use p(2) in \<open>simp_all add: ionized_def case_prod_beta\<close>)
  with WriteElectron_velocity [of ?p sp] w p(1) show ?thesis by auto
qed

section \<open>Properties\<close>

text \<open>
  C10. Ionization creates exactly the electrons that the ionizer asks for. For every ionizer and every way to write an electron, and
  whatever the order in which the threads of the block reach the shared fill level, the kernel ends and so does the filling of the gaps after it. Every
  ion is then what its ionization leaves of it, with its mask and slot unchanged; the electrons of the supercell are the old ones and those
  that its ions emitted, one after the other, none lost and none twice, although an ion may emit more electrons than there are slots in a
  frame; they are packed, and the electrons of other supercells are untouched.
\<close>

theorem ionization_creates_electrons:
  assumes "good_allocator T malloc garbage" "\<forall>k j. thread_order T (order k j)" "gap_orders T gaps"
    and "box_rep ions LI" "\<forall>a \<in> set (LI idx). frame_ok T ions a"
    and "box_rep electrons LE" "\<forall>a \<in> set (LE idx). frame_ok T electrons a" "finite (dom (frames electrons))"
    and "length (LI idx) \<le> fuel" "\<forall>p \<in># listParticles ions (LI idx). snd (frameIonizer p 0) < rounds" "0 < rounds" "T \<le> INV_LOC_IDX"
  shows "\<exists>n. \<forall>gapFuel \<ge> n. \<exists>ions' electrons' xs.
      callIonization True T frameIonizer writeElectron malloc garbage order rounds fuel gaps gapFuel idx (ions, electrons) = Some (ions', electrons')
    \<and> box_rep ions' LI \<and> framesIonized (ionAfter frameIonizer writeElectron) (LI idx) ions ions'
    \<and> box_rep electrons' (LE(idx := xs)) \<and> packed T electrons' idx xs
    \<and> listParticles electrons' xs = listParticles electrons (LE idx) + newElectrons frameIonizer writeElectron (listParticles ions (LI idx))
    \<and> (\<forall>j. j \<noteq> idx \<longrightarrow> (\<forall>a \<in> set (LE j). content electrons' a = content electrons a))"
  by (rule callIonization_correct [where fi = frameIonizer, OF assms])

text \<open>Two ions, of which the first emits three electrons and the second one, in frames of two slots.\<close>

definition sampleIons :: "int ParticlesBox" where
  "sampleIons = \<lparr>frames = [1 \<mapsto> \<lparr>previousFrame = 0, nextFrame = 0, slots = [(1, 3), (1, 1)]\<rparr>],
     superCells = (\<lambda>c. if c = [4, 5] then \<lparr>firstFramePtr = 1, lastFramePtr = 1, mustShiftVal = False, sizeLastFrame = 2\<rparr> else SuperCell_init)\<rparr>"

definition sampleIonLists :: "DataSpace \<Rightarrow> addr list" where
  "sampleIonLists c = (if c = [4, 5] then [1] else [])"

definition noElectrons :: "nat ParticlesBox" where
  "noElectrons = \<lparr>frames = Map.empty, superCells = (\<lambda>c. SuperCell_init)\<rparr>"

definition twoSlots :: "addr \<Rightarrow> nat Frame" where
  "twoSlots a = \<lparr>previousFrame = 7, nextFrame = 7, slots = [(5, a), (6, a)]\<rparr>"

lemma sample_ionization:
  "good_allocator 2 nextFree twoSlots" "box_rep sampleIons sampleIonLists" "\<forall>a \<in> set (sampleIonLists [4, 5]). frame_ok 2 sampleIons a"
  "box_rep noElectrons (\<lambda>c. [])" "finite (dom (frames noElectrons))" "\<forall>k j. thread_order 2 [1, 0]" "gap_orders 2 (\<lambda>k. [1, 0], \<lambda>k. [0, 1], [1, 0], [0, 1])" "listParticles sampleIons (sampleIonLists [4, 5]) = {#3, 1#}"
proof -
  show "good_allocator 2 nextFree twoSlots" using nextFree_fresh by (simp add: good_allocator_def twoSlots_def)
  show "box_rep sampleIons sampleIonLists" by (auto simp: box_rep_def sampleIons_def sampleIonLists_def cell_list_def SuperCell_init_def)
  show "\<forall>a \<in> set (sampleIonLists [4, 5]). frame_ok 2 sampleIons a"
    by (simp add: sampleIonLists_def frame_ok_def content_def sampleIons_def settled_def)
  show "box_rep noElectrons (\<lambda>c. [])" by (auto simp: box_rep_def noElectrons_def cell_list_def SuperCell_init_def)
  show "finite (dom (frames noElectrons))" by (simp add: noElectrons_def)
  show "\<forall>k j. thread_order 2 [1, 0]" "gap_orders 2 (\<lambda>k. [1, 0], \<lambda>k. [0, 1], [1, 0], [0, 1])"
    by (auto simp: thread_order_def gap_orders_def)
  show "listParticles sampleIons (sampleIonLists [4, 5]) = {#3, 1#}"
    by (simp add: sampleIonLists_def listParticles_def frameParticles_def content_def sampleIons_def particles_def slotParticle_def)
qed

theorem ionization_creates_electrons_witness:
  "\<exists>gapFuel ions' electrons' xs.
     callIonization True 2 (\<lambda>p n. (p, nat p)) (\<lambda>p. (p + 10, nat p)) nextFree twoSlots (\<lambda>k j. [1, 0]) 4 1 (\<lambda>k. [1, 0], \<lambda>k. [0, 1], [1, 0], [0, 1]) gapFuel [4, 5] (sampleIons, noElectrons)
       = Some (ions', electrons')
     \<and> box_rep electrons' ((\<lambda>c. [])([4, 5] := xs)) \<and> packed 2 electrons' [4, 5] xs
     \<and> listParticles electrons' xs = {#3, 13, 23, 1#} \<and> content ions' 1 = Some [(1, 33), (1, 11)]"
proof -
  let ?fi = "\<lambda>p n::nat. (p::int, nat p)" and ?w = "\<lambda>p::int. (p + 10, nat p)"
  have three: "emit ?w 3 q = (q + 30, [nat q, nat (q + 10), nat (q + 20)])" for q by (simp add: numeral_3_eq_3)
  have new: "newElectrons ?fi ?w (listParticles sampleIons (sampleIonLists [4, 5])) = {#3, 13, 23, 1#}"
    unfolding sample_ionization(8) by (simp add: newElectrons_def ionized_def three)
  have "\<exists>n. \<forall>gapFuel \<ge> n. \<exists>ions' electrons' xs.
      callIonization True 2 ?fi ?w nextFree twoSlots (\<lambda>k j. [1, 0]) 4 1 (\<lambda>k. [1, 0], \<lambda>k. [0, 1], [1, 0], [0, 1]) gapFuel [4, 5] (sampleIons, noElectrons) = Some (ions', electrons')
    \<and> box_rep ions' sampleIonLists \<and> framesIonized (ionAfter ?fi ?w) (sampleIonLists [4, 5]) sampleIons ions'
    \<and> box_rep electrons' ((\<lambda>c. [])([4, 5] := xs)) \<and> packed 2 electrons' [4, 5] xs
    \<and> listParticles electrons' xs = listParticles noElectrons [] + newElectrons ?fi ?w (listParticles sampleIons (sampleIonLists [4, 5]))
    \<and> (\<forall>j::DataSpace. j \<noteq> [4, 5] \<longrightarrow> (\<forall>a \<in> set []. content electrons' a = content noElectrons a))"
    by (rule ionization_creates_electrons [where LE = "\<lambda>c. []" and LI = sampleIonLists])
      (use sample_ionization in \<open>simp_all add: sampleIonLists_def INV_LOC_IDX_def\<close>)
  then obtain gapFuel ions' electrons' xs where r:
    "callIonization True 2 ?fi ?w nextFree twoSlots (\<lambda>k j. [1, 0]) 4 1 (\<lambda>k. [1, 0], \<lambda>k. [0, 1], [1, 0], [0, 1]) gapFuel [4, 5] (sampleIons, noElectrons) = Some (ions', electrons')"
    "framesIonized (ionAfter ?fi ?w) (sampleIonLists [4, 5]) sampleIons ions'" "box_rep electrons' ((\<lambda>c. [])([4, 5] := xs))" "packed 2 electrons' [4, 5] xs"
    "listParticles electrons' xs = {#3, 13, 23, 1#}"
    unfolding new by auto
  have "content ions' 1 = Some (ionizedSlots (ionAfter ?fi ?w) [(1, 3), (1, 1)])"
    using r(2) by (simp add: framesIonized_def sampleIonLists_def content_def sampleIons_def)
  then have "content ions' 1 = Some [(1, 33), (1, 11)]" by (simp add: ionizedSlots_def ionAfter_def ionized_def three)
  with r show ?thesis by blast
qed

text \<open>
  C11. Field ionization conserves charge and momentum. With the barrier suppression model, the kernel and the filling of the gaps end, and the
  charge and every component of the momentum of the ions and electrons of a supercell are together what they were, for all fields and
  any thresholds. Each new electron starts at the place of an ion, with its weighting and with its velocity. Weightings are at least
  one: the functor reads them as integers, and the masses it divides are multiples of them.
\<close>

theorem ionization_conserves:
  fixes ions :: "Ion ParticlesBox" and electrons :: "MacroParticle ParticlesBox"
  assumes "good_allocator T malloc garbage" "\<forall>k j. thread_order T (order k j)" "gap_orders T gaps"
    and "box_rep ions LI" "\<forall>a \<in> set (LI idx). frame_ok T ions a"
    and "box_rep electrons LE" "\<forall>a \<in> set (LE idx). frame_ok T electrons a" "finite (dom (frames electrons))"
    and "length (LI idx) \<le> fuel" "2 \<le> rounds" "T \<le> INV_LOC_IDX"
    and ok: "\<forall>p \<in># listParticles ions (LI idx). length (attr_momentum p) = 3 \<and> 1 \<le> attr_weighting p \<and> attr_weighting p < 2 ^ 32"
  shows "\<exists>n. \<forall>gapFuel \<ge> n. \<exists>ions' electrons' xs N.
      callIonization True T (BSI_Impl sp s TVec fieldE fieldB blockCell) (WriteElectronIntoFrame sp) malloc garbage order rounds fuel gaps gapFuel idx
        (ions, electrons) = Some (ions', electrons')
    \<and> box_rep electrons' (LE(idx := xs)) \<and> packed T electrons' idx xs \<and> listParticles electrons' xs = listParticles electrons (LE idx) + N
    \<and> (\<forall>e \<in># N. \<exists>p \<in># listParticles ions (LI idx). e = \<lparr>attr_position = attr_position p, attr_localCellIdx = attr_localCellIdx p,
        attr_weighting = attr_weighting p, attr_momentum = vec_mul_s (attr_momentum p) (electronMass sp / ionMass sp)\<rparr>)
    \<and> (\<forall>d < 3. (\<Sum>p \<in># listParticles ions' (LI idx). attr_momentum p ! d) + (\<Sum>e \<in># listParticles electrons' xs. attr_momentum e ! d)
        = (\<Sum>p \<in># listParticles ions (LI idx). attr_momentum p ! d) + (\<Sum>e \<in># listParticles electrons (LE idx). attr_momentum e ! d))
    \<and> (\<Sum>p \<in># listParticles ions' (LI idx). getChargeState sp p * attr_weighting p) + (\<Sum>e \<in># listParticles electrons' xs. - attr_weighting e)
        = (\<Sum>p \<in># listParticles ions (LI idx). getChargeState sp p * attr_weighting p) + (\<Sum>e \<in># listParticles electrons (LE idx). - attr_weighting e)"
proof -
  let ?fi = "BSI_Impl sp s TVec fieldE fieldB blockCell" and ?w = "WriteElectronIntoFrame sp" and ?M = "listParticles ions (LI idx)"
  have "snd (?fi p 0) < rounds" for p using BSI_at_most_one [of sp s TVec fieldE fieldB blockCell p 0] assms(10) by linarith
  then have "\<forall>p \<in># ?M. snd (?fi p 0) < rounds" "0 < rounds" using assms(10) by auto
  from callIonization_correct [where w = ?w and fi = ?fi, OF assms(1-9) this assms(11)] obtain n where n: "\<forall>gapFuel \<ge> n. \<exists>ions' electrons' xs.
      callIonization True T ?fi ?w malloc garbage order rounds fuel gaps gapFuel idx (ions, electrons) = Some (ions', electrons')
    \<and> box_rep ions' LI \<and> framesIonized (ionAfter ?fi ?w) (LI idx) ions ions' \<and> box_rep electrons' (LE(idx := xs)) \<and> packed T electrons' idx xs
    \<and> listParticles electrons' xs = listParticles electrons (LE idx) + newElectrons ?fi ?w ?M
    \<and> (\<forall>j. j \<noteq> idx \<longrightarrow> (\<forall>a \<in> set (LE j). content electrons' a = content electrons a))" by blast
  show ?thesis
  proof (intro exI [of _ n] allI impI)
    fix gapFuel
    assume "n \<le> gapFuel"
    then obtain ions' electrons' xs where
      r: "callIonization True T ?fi ?w malloc garbage order rounds fuel gaps gapFuel idx (ions, electrons) = Some (ions', electrons')"
      "framesIonized (ionAfter ?fi ?w) (LI idx) ions ions'" "box_rep electrons' (LE(idx := xs))" "packed T electrons' idx xs"
      "listParticles electrons' xs = listParticles electrons (LE idx) + newElectrons ?fi ?w ?M"
      using n by blast
    have m: "\<forall>p \<in># ?M. length (attr_momentum p) = 3 \<and> d < 3" if "d < 3" for d :: nat using ok that by blast
    have w: "\<forall>p \<in># ?M. 1 \<le> attr_weighting p \<and> attr_weighting p < 2 ^ 32" using ok by blast
    show "\<exists>ions' electrons' xs N. callIonization True T ?fi ?w malloc garbage order rounds fuel gaps gapFuel idx (ions, electrons) = Some (ions', electrons')
      \<and> box_rep electrons' (LE(idx := xs)) \<and> packed T electrons' idx xs \<and> listParticles electrons' xs = listParticles electrons (LE idx) + N
      \<and> (\<forall>e \<in># N. \<exists>p \<in># ?M. e = \<lparr>attr_position = attr_position p, attr_localCellIdx = attr_localCellIdx p,
          attr_weighting = attr_weighting p, attr_momentum = vec_mul_s (attr_momentum p) (electronMass sp / ionMass sp)\<rparr>)
      \<and> (\<forall>d < 3. (\<Sum>p \<in># listParticles ions' (LI idx). attr_momentum p ! d) + (\<Sum>e \<in># listParticles electrons' xs. attr_momentum e ! d)
          = (\<Sum>p \<in># ?M. attr_momentum p ! d) + (\<Sum>e \<in># listParticles electrons (LE idx). attr_momentum e ! d))
      \<and> (\<Sum>p \<in># listParticles ions' (LI idx). getChargeState sp p * attr_weighting p) + (\<Sum>e \<in># listParticles electrons' xs. - attr_weighting e)
          = (\<Sum>p \<in># ?M. getChargeState sp p * attr_weighting p) + (\<Sum>e \<in># listParticles electrons (LE idx). - attr_weighting e)"
      using r(1,3,4,5) BSI_newElectrons [OF _ w] bsi_momentum.conserved [OF m r(2,5)] bsi_charge.conserved [OF _ r(2,5)]
      by (intro exI [of _ ions'] exI [of _ electrons'] exI [of _ xs] exI [of _ "newElectrons ?fi ?w ?M"] conjI) blast+
  qed
qed

text \<open>A neutral atom in a field of five units.\<close>

definition sampleIon :: Ion where
  "sampleIon = \<lparr>attr_position = [0, 0, 0], attr_localCellIdx = 0, attr_weighting = 3, attr_momentum = [4, 0, 0], boundElectrons = 1\<rparr>"

definition sampleSpecies :: IonSpecies where
  "sampleSpecies = \<lparr>numberOfProtons = 1, ionMass = 4, electronMass = 1, IONIZATION_EFIELD = (\<lambda>cs. 2), UNIT_EFIELD = 1\<rparr>"

definition atomBox :: "Ion ParticlesBox" where
  "atomBox = \<lparr>frames = [1 \<mapsto> \<lparr>previousFrame = 0, nextFrame = 0, slots = [(1, sampleIon), (0, sampleIon)]\<rparr>], superCells = superCells sampleIons\<rparr>"

definition freeAddress :: "(addr \<rightharpoonup> 'e Frame) \<Rightarrow> addr" where
  "freeAddress h = (if finite (dom h) then Suc (Max (insert 0 (dom h))) else 0)"

lemma freeAddress_good:
  fixes garbage :: "addr \<Rightarrow> 'e Frame"
  assumes "\<And>a. length (slots (garbage a)) = T"
  shows "good_allocator T freeAddress garbage"
proof -
  have "h (freeAddress h) = None" if "finite (dom h)" for h :: "addr \<rightharpoonup> 'e Frame"
  proof (rule ccontr)
    assume "h (freeAddress h) \<noteq> None"
    then have "freeAddress h \<le> Max (insert 0 (dom h))" using that by (intro Max_ge) auto
    then show False using that by (simp add: freeAddress_def)
  qed
  then show ?thesis using assms by (auto simp: good_allocator_def fresh_malloc_def freeAddress_def)
qed

theorem ionization_conserves_witness:
  "\<exists>gapFuel ions' electrons' xs.
     callIonization True 2 (BSI_Impl sampleSpecies CIC [1, 1, 2] (\<lambda>r. 5) (\<lambda>r. 0) [8, 8, 8]) (WriteElectronIntoFrame sampleSpecies)
       freeAddress (\<lambda>a. \<lparr>previousFrame = 7, nextFrame = 7, slots = replicate 2 (5, MacroParticle.truncate sampleIon)\<rparr>)
       (\<lambda>k j. [1, 0]) 2 1 (\<lambda>k. [1, 0], \<lambda>k. [0, 1], [1, 0], [0, 1]) gapFuel [4, 5] (atomBox, \<lparr>frames = Map.empty, superCells = (\<lambda>c. SuperCell_init)\<rparr>) = Some (ions', electrons')
     \<and> (\<Sum>p \<in># listParticles ions' [1]. attr_momentum p ! 0) + (\<Sum>e \<in># listParticles electrons' xs. attr_momentum e ! 0) = 4
     \<and> (\<Sum>p \<in># listParticles ions' [1]. getChargeState sampleSpecies p * attr_weighting p) + (\<Sum>e \<in># listParticles electrons' xs. - attr_weighting e) = 0"
proof -
  let ?E = "\<lparr>frames = Map.empty, superCells = (\<lambda>c. SuperCell_init)\<rparr> :: MacroParticle ParticlesBox"
  let ?g = "\<lambda>a. \<lparr>previousFrame = 7, nextFrame = 7, slots = replicate 2 (5, MacroParticle.truncate sampleIon)\<rparr> :: MacroParticle Frame"
  have alloc: "good_allocator 2 freeAddress ?g" by (rule freeAddress_good) simp
  have ions: "box_rep atomBox sampleIonLists" "\<forall>a \<in> set (sampleIonLists [4, 5]). frame_ok 2 atomBox a"
    by (auto simp: box_rep_def atomBox_def sampleIons_def sampleIonLists_def cell_list_def SuperCell_init_def frame_ok_def content_def settled_def)
  have E: "box_rep ?E (\<lambda>c. [])" "\<forall>a \<in> set ((\<lambda>c. []) [4, 5]). frame_ok 2 ?E a" "finite (dom (frames ?E))"
    by (auto simp: box_rep_def cell_list_def SuperCell_init_def)
  have parts: "listParticles atomBox (sampleIonLists [4, 5]) = {#sampleIon#}"
    by (simp add: sampleIonLists_def listParticles_def frameParticles_def content_def atomBox_def particles_def slotParticle_def)
  have b: "length (sampleIonLists [4, 5]) \<le> 1" "(2::nat) \<le> 2" "2 \<le> INV_LOC_IDX" by (simp_all add: sampleIonLists_def INV_LOC_IDX_def)
  have ok: "\<forall>p \<in># listParticles atomBox (sampleIonLists [4, 5]). length (attr_momentum p) = 3 \<and> 1 \<le> attr_weighting p \<and> attr_weighting p < 2 ^ 32"
    unfolding parts by (simp add: sampleIon_def)
  have L: "sampleIonLists [4, 5] = [1]" by (simp add: sampleIonLists_def)
  from ionization_conserves [where order = "\<lambda>k j. [1, 0]", OF alloc sample_ionization(6,7) ions E b ok, unfolded parts,
      of sampleSpecies CIC "[1, 1, 2]" "\<lambda>r. 5" "\<lambda>r. 0" "[8, 8, 8]"]
  show ?thesis unfolding L by (fastforce simp: sampleIon_def sampleSpecies_def getChargeState_def)
qed

end
