(* ===== verification/Spec2Isabelle.thy ===== *)
theory Spec2Isabelle
  imports FieldBuffers ExchangeMaps StrideMaps Decomposition SpeciesExchange PicSimulation
    EsirkepovNative VillaBune Interpolation LeheSolver Ionization
begin

text \<open>
  A verification library for PIConGPU, a relativistic particle-in-cell code, and for libPMacc, the
  framework it is built on. All paths below are relative to src/src/libPMacc/include (framework)
  and src/src/picongpu/include (simulation).

  \<^bold>\<open>The program and its parts.\<close> The simulation volume is a grid of cells that is divided among the
  processes of a Cartesian MPI topology. Within a process, cells form supercells; the grid of
  supercells has an outer layer GUARD, that mirrors the neighbours, then BORDER and CORE. Kernels
  run over an area of supercells through a mapper. Particles live in doubly linked lists
  of frames, one list per supercell, and travel to neighbouring processes through stacks; fields live in grid buffers whose
  guards are exchanged with the neighbours. Transfers, kernels and their dependencies are tasks of an event system. One
  step pushes the particles, updates the fields, deposits the current of the moved particles and adds
  it to the electric field. Plugins are notified between the steps and write checkpoints. With a moving window the topology rotates along y.

  \<^bold>\<open>The grid and its decomposition.\<close>
  \<^item> \<open>Prelude\<close>: conversions between machine integers (\<open>u32\<close>, \<open>i32\<close>), truncating division, shared lemmas.
  \<^item> \<open>Vectors\<close>, \<open>DataSpaces\<close>: \<open>math::Vector\<close> (math/vector/Vector.hpp), \<open>DataSpace\<close>, \<open>GridLayout\<close> (dimensions).
  \<^item> \<open>Masks\<close>: direction codes and direction sets (memory/dataTypes/Mask.hpp, types.h). A code is the
    enumerator, a set of directions a \<open>32 word\<close>. Lemmas: codes enumerate all neighbours, mirroring negates.
  \<^item> \<open>SpaceOps\<close>: \<open>DataSpaceOperations\<close> (dimensions). Lemmas: linear indices and positions are inverse,
    reduce and extend move a supercell to its image at the receiver.
  \<^item> \<open>AreaMaps\<close>, \<open>ExchangeMaps\<close>, \<open>StrideMaps\<close>: \<open>MappingDescription\<close> and the block index maps of mappings/kernel.
    Lemmas: each map is a bijection onto its area, the exchange areas partition GUARD and BORDER, a strided sweep
    ends and covers its area once with separated blocks.
  \<^item> \<open>Communicator\<close>, \<open>GridControl\<close>: \<open>CommunicatorMPI\<close> (communication), \<open>GridController\<close>, \<open>SubGrid\<close>, \<open>Selection\<close>,
    \<open>EnvironmentController\<close> (mappings/simulation). The functions of MPI on the topology are parameters; the locale
    \<open>cart_topology\<close> states the documented laws and \<open>row_major_grid\<close> provides them for the row-major
    numbering. Lemmas: neighbour tables are symmetric, slides rotate the processes, host ranks are unique.
  \<^item> \<open>MovingWindows\<close>: simulationControl/MovingWindow.hpp and Window.hpp. Lemmas: the slide counter counts the steps
    with a slide, local windows tile the global one.
  \<^item> \<open>Decomposition\<close>: initialization/ParserGridDistribution.hpp and the set-up checks of simulationControl/MySimulation.hpp.
    Lemma: a set-up that passes the checks is well-formed.

  \<^bold>\<open>Tasks and buffers.\<close>
  \<^item> \<open>EventSystem\<close>: \<open>Manager\<close>, \<open>ITask\<close>, \<open>EventTask\<close>, \<open>TaskLogicalAnd\<close>, \<open>Transaction\<close>, \<open>TransactionManager\<close>, \<open>EventPool\<close>, \<open>EventStream\<close> (eventSystem)
    over an explicit heap of task objects. The locale \<open>busy_wait\<close> is the loop of every wait; it is interpreted on the three loops of
    the manager. Lemmas: calls never touch a deleted task, the sum of two events is finished when both are, waits and operations return.
  \<^item> \<open>GridBuffers\<close>: \<open>Buffer\<close>, \<open>ExchangeIntern\<close>, \<open>GridBuffer\<close> (memory/buffers): extents, the geometry of an exchange, the table of exchanges and its tags.
  \<^item> \<open>GuardExchange\<close>: \<open>TaskSend\<close>, \<open>TaskReceive\<close> and the tasks of MPI and of copies (eventSystem/tasks) as a step relation of all processes. The locale \<open>mpi_messages\<close> is
    what MPI promises of messages with one sender, receiver and tag; queues provide it. Lemmas: whatever the schedule, the exchange ends, and then every
    guard holds the border of the neighbour.
  \<^item> \<open>DataManagement\<close>: \<open>DataConnector\<close> and \<open>Dataset\<close> (dataManagement). Lemma: data is synchronised once per request after a change.

  \<^bold>\<open>Particles.\<close>
  \<^item> \<open>FrameLists\<close>: \<open>ParticlesBox\<close>, \<open>SuperCell\<close>, \<open>Pointer\<close> (particles/memory) and \<open>kernelDeleteParticles\<close> (particles/ParticlesBase.kernel)
    over an explicit heap of frames; an access to a frame that is not allocated is \<open>None\<close>. The locale \<open>frame_deque\<close>
    is the contract of the lists. Lemmas: the operations refine sequences, deletion ends and frees every frame.
  \<^item> \<open>ExchangeStacks\<close>: the push and pop boxes of particles/memory/boxes. Besides the sequential functions, \<open>push_step\<close> lets the
    atomic steps of many calls interleave. Lemmas: reserved ranges are disjoint and without gaps, the sequential
    function is a run of the steps, batches survive the way through the stack.
  \<^item> \<open>FrameContents\<close>, \<open>FillGaps\<close>, \<open>ShiftParticles\<close>, \<open>ExchangeParticles\<close>: the kernels of particles/ParticlesBase.kernel, run by the block of one
    supercell. The threads reach the atomic counters in an order that is an argument; the lemmas hold for every order. Lemmas:
    gap filling packs the particles of a supercell into its first frames, shift hands every particle to the supercell it moved to, particles
    that leave a process are put into the stack and inserted at the other side.
  \<^item> \<open>ParticleTasks\<close>, \<open>SpeciesExchange\<close>: \<open>TaskSendParticlesExchange\<close> and \<open>TaskReceiveParticlesExchange\<close> (particles/tasks) as state machines over the species they
    are templates of (locale \<open>particle_base\<close>), interpreted on the kernels. Lemmas: under any schedule no particle is lost or
    duplicated, and the exchange completes.
  \<^item> \<open>Ionization\<close>: particles/ionization and \<open>CallIonization\<close> (particles/ParticlesFunctors.hpp), with the ionizer as an argument of the kernel. The locale
    \<open>conserved_quantity\<close> is interpreted on charge and momentum for barrier suppression. Lemmas: the kernel ends, creates exactly the electrons that the
    ions emit, and conserves charge and momentum.
  \<^item> \<open>Pushers\<close>: particles/pusher with algorithms/Gamma.hpp and Velocity.hpp. Lemmas: Boris and Axl rotate, Vay solves its implicit scheme,
    steps are shorter than a cell, except with the nonlinear trajectory of Axl.
  \<^item> \<open>Shapes\<close>, \<open>Interpolation\<close>: particles/shapes and algorithms/FieldToParticleInterpolation.hpp, FieldToParticleInterpolationNative.hpp, ShiftCoordinateSystem.hpp. The locale
    \<open>assignment_shape\<close> is what interpolation and deposition rely on; it is interpreted on the four continuous shapes. Lemmas: unit
    charge, interpolation is exact on affine fields.

  \<^bold>\<open>Fields.\<close>
  \<^item> \<open>Cursors\<close>, \<open>Esirkepov\<close>, \<open>EsirkepovNative\<close>, \<open>VillaBune\<close>: the cursors of cuSTL that twist axes, and fields/currentDeposition.
    Lemmas: the discrete continuity equation in two and three dimensions, both Esirkepov variants deposit the same current.
  \<^item> \<open>Maxwell\<close>, \<open>LeheSolver\<close>: the kernels of the Yee solver (fields/MaxwellSolver/Yee) with algorithms/DifferenceToLower.hpp and DifferenceToUpper.hpp, the
    curl of the Lehe solver, and fields/currentInterpolation. The locale \<open>difference_scheme\<close> covers the difference operators. Lemmas: the divergence of the
    magnetic field is constant.
  \<^item> \<open>BackgroundFields\<close>: fields/background/cellwiseOperation.hpp. \<open>Absorber\<close>: fields/FieldManipulator.hpp and .kernel, with the unsigned arithmetic of the kernel.
    Lemma: which cells are damped at the faces in x and y, by which factor, each once; the faces in z are not damped.
  \<^item> \<open>YeeStep\<close>, \<open>FieldBuffers\<close>: \<open>update_beforeCurrent\<close> and \<open>update_afterCurrent\<close> on all processes, with the kernels on CORE overlapped with the exchange of the
    guards, and the exchanges of \<open>FieldE\<close> and \<open>FieldB\<close>. Lemmas: the distributed step ends, and it computes what one process computes on the
    global periodic grid; the guards are as wide as the stencils.
  \<^item> This theory: the current of all particles (fields/FieldJ.kernel) and the law of Gauss through a step, which rests on
    the continuity equation, on the bound of the step, and on the field solver.

  \<^bold>\<open>Control.\<close>
  \<^item> \<open>PluginSystem\<close>: \<open>PluginConnector\<close>, \<open>INotify\<close>, \<open>IPlugin\<close> (pluginSystem). Lemma: a plugin is notified exactly at the multiples of its period.
  \<^item> \<open>SimulationControl\<close>: \<open>SimulationHelper\<close> (simulationControl). The locale \<open>total_simulation\<close> says that the virtual functions of the simulation return. Lemmas:
    the main loop ends and runs each step once, a restart finds the last checkpoint.
  \<^item> \<open>PicSimulation\<close>: \<open>MySimulation\<close> (simulationControl/MySimulation.hpp), which interprets \<open>total_simulation\<close>. Lemma: the solver never sees the background
    fields that are added for the particles.

  \<^bold>\<open>State and effects.\<close> Objects are records that are passed and returned, singletons are one record
  \<open>Env\<close>. Vectors are lists whose length is the dimension; a field is a function of cell and component.
  Assertions, null results and invalid accesses are values of option type. Where the code runs concurrently the model is a step relation
  (\<open>push_step\<close>, \<open>overlapStep\<close>, the schedules of particle and guard exchange) or takes the order of the threads as an argument.

  \<^bold>\<open>Numbers.\<close> Integers wrap where the code stores them in 32 bits. \<open>float_X\<close> and \<open>double\<close> are real numbers: rounding is not
  modelled, so statements about fields, windows and momenta are statements about exact arithmetic. In particular a background field that is added and
  subtracted leaves no residue here, while in floating point a rounding error stays, and the interval between two outputs of the progress
  (\<open>calcProgress\<close>) may differ from the model by one.

  \<^bold>\<open>Bounds and fuel.\<close> The loops over the frames of a supercell, the rounds of ionization and the sweep over strides carry fuel; the theorems show that the length of the frame
  list, one more round than an ion loses electrons, and the volume of the stride suffice. Bounds such as 2 ^ 31 in hypotheses are those of \<open>int\<close> and \<open>unsigned int\<close>. The loops of the event system and of the absorber
  are \<open>partial_function\<close>, and that they return is a theorem, for the event system with the progress of its tasks as hypothesis.

  \<^bold>\<open>Not modelled.\<close> Allocation and pitched addresses of memory (alpaka, mallocMC and the boxes over them), the parts of MPI, boost and HDF5 that the code calls (parameters
  where the code relies on them), lasers, density profiles and analytical background fields (closed formulas of transcendental functions), the
  radiation plugin (the same over complex numbers), all plugins for output (input and output through libraries), the tools beside the
  simulation. Not modelled either, although nothing would stand in the way: the ZigZag current solver, the block cache and
  the frame traversal of the current deposition, the guard addition of the current field, and the sweep of the particle shift over an area. The directional splitting solver is left out because it does not compile.
\<close>

section \<open>The current of all particles\<close>

text \<open>
  \<open>ComputeCurrentPerFrame\<close> deposits the current of one particle, whose attributes mass and charge already contain
  the weighting. \<open>computeCurrent\<close> is the sequence of these calls over all particles; the sums in
  the field do not depend on the order.
\<close>

record Particle =
  particle_cell :: DataSpace
  particle_position :: "real vec"
  particle_momentum :: "real vec"
  particle_mass :: real
  particle_charge :: real

definition ComputeCurrentPerFrame :: "PhysUnits \<Rightarrow> Shape \<Rightarrow> Particle \<Rightarrow> vectorField \<Rightarrow> vectorField" where
  "ComputeCurrentPerFrame u s p jBox =
     (let vel = Velocity u (particle_momentum p) (particle_mass p)
      in Esirkepov3 s u (particle_cell p) (particle_position p) vel (particle_charge p) (DELTA_T u) jBox)"

definition computeCurrent :: "PhysUnits \<Rightarrow> Shape \<Rightarrow> Particle list \<Rightarrow> vectorField \<Rightarrow> vectorField" where
  "computeCurrent u s ps jBox = foldl (\<lambda>jBox p. ComputeCurrentPerFrame u s p jBox) jBox ps"

definition FieldJ_clear :: "vectorField \<Rightarrow> vectorField" where
  "FieldJ_clear fieldJ = (\<lambda>r. 0)"

definition particle_ok :: "Particle \<Rightarrow> bool" where
  "particle_ok p \<longleftrightarrow> length (particle_cell p) = 3 \<and> length (particle_position p) = 3 \<and> length (particle_momentum p) = 3 \<and>
     list_all (\<lambda>x. 0 \<le> x \<and> x < 1) (particle_position p) \<and> 0 < particle_mass p"

definition oldPosition :: "PhysUnits \<Rightarrow> Particle \<Rightarrow> real vec" where
  "oldPosition u p = vec_sub (particle_position p) (deltaPosition u (Velocity u (particle_momentum p) (particle_mass p)) (DELTA_T u) 3)"

definition totalDensity :: "PhysUnits \<Rightarrow> Shape \<Rightarrow> (Particle \<Rightarrow> real vec) \<Rightarrow> Particle list \<Rightarrow> DataSpace \<Rightarrow> real" where
  "totalDensity u s position ps g = (\<Sum>p \<leftarrow> ps. chargeDensity 3 s u (particle_charge p) (particle_cell p) (position p) g)"

lemma ComputeCurrent_divergence:
  assumes u: "units_ok u" "length (cellSize u) = 3" and s: "s \<in> {CIC, TSC, PCS, P4S}" and p: "particle_ok p" and g: "length g = 3"
  shows "divergence 3 u (\<lambda>r. ComputeCurrentPerFrame u s p J r - J r) g =
    - (chargeDensity 3 s u (particle_charge p) (particle_cell p) (particle_position p) g
       - chargeDensity 3 s u (particle_charge p) (particle_cell p) (oldPosition u p) g) / DELTA_T u"
proof -
  let ?v = "Velocity u (particle_momentum p) (particle_mass p)"
  have c: "0 < SPEED_OF_LIGHT u" "\<forall>d < 3. 0 < cellSize u ! d" using u by (auto simp: units_ok_def)
  have "\<bar>?v ! d * DELTA_T u\<bar> \<le> cellSize u ! d" if "d < 3" for d
    using step_bound [OF u(1), of d ?v] Velocity_below_c [of "particle_momentum p" u "particle_mass p"] Velocity_length [of u "particle_momentum p"]
      that u(2) p c(1) by (simp add: particle_ok_def)
  then show ?thesis unfolding ComputeCurrentPerFrame_def Let_def oldPosition_def
    using Esirkepov3_div_shapes [OF s c(2)] p g by (simp add: particle_ok_def list_all_length)
qed

lemma computeCurrent_divergence:
  assumes u: "units_ok u" "length (cellSize u) = 3" and s: "s \<in> {CIC, TSC, PCS, P4S}" and ps: "\<forall>p \<in> set ps. particle_ok p" and g: "length g = 3"
  shows "divergence 3 u (computeCurrent u s ps J) g = divergence 3 u J g -
    (totalDensity u s particle_position ps g - totalDensity u s (oldPosition u) ps g) / DELTA_T u"
  using ps
proof (induction ps arbitrary: J)
  case (Cons p ps)
  let ?J = "ComputeCurrentPerFrame u s p J"
  have "divergence 3 u ?J g = divergence 3 u J g + 1 * divergence 3 u (\<lambda>r. ?J r - J r) g" by (rule divergence_add) simp_all
  with Cons ComputeCurrent_divergence [OF u s _ g, of p J]
  show ?case by (simp add: computeCurrent_def totalDensity_def add_divide_distrib diff_divide_distrib)
qed (simp add: computeCurrent_def totalDensity_def)

section \<open>Property\<close>

text \<open>
  C1. One step of the particle-in-cell cycle preserves the law of Gauss. Suppose that the discrete divergence of the
  electric field at a grid point is the charge density of all particles at their old positions over
  the electric constant. Then the update of the electric field by the curl of the magnetic field,
  the deposition of the current of all particles into the cleared current field and the addition of the
  current to the electric field lead to the same law for the new positions, for any number of particles and any fields.
\<close>
theorem pic_step_keeps_gauss_law:
  assumes "units_ok u" "length (cellSize u) = 3" "s \<in> {CIC, TSC, PCS, P4S}" "\<forall>p \<in> set ps. particle_ok p"
    and "length g = 3" "distinct area" "g \<in> set area" "\<forall>d < 3. g[d := g ! d - 1] \<in> set area"
    and "divergence 3 u fieldE g = totalDensity u s (oldPosition u) ps g / EPS0 u"
  shows "divergence 3 u (addCurrentToEMF (currentNone u) area (updateE u 3 area fieldE fieldB)
      (computeCurrent u s ps (FieldJ_clear fieldJ))) g = totalDensity u s particle_position ps g / EPS0 u"
proof -
  let ?J = "computeCurrent u s ps (FieldJ_clear fieldJ)" and ?E = "updateE u 3 area fieldE fieldB"
  have pos: "0 < DELTA_T u" "0 < EPS0 u" using assms(1) by (auto simp: units_ok_def)
  have J: "divergence 3 u ?J g = - (totalDensity u s particle_position ps g - totalDensity u s (oldPosition u) ps g) / DELTA_T u"
    using computeCurrent_divergence [OF assms(1-5), of "FieldJ_clear fieldJ"]
    by (simp add: FieldJ_clear_def divergence_def [of _ _ "\<lambda>r. 0"] minus_divide_left)
  have "divergence 3 u (addCurrentToEMF (currentNone u) area ?E ?J) g = divergence 3 u ?E g + - (DELTA_T u / EPS0 u) * divergence 3 u ?J g"
    by (rule divergence_add) (use assms(6-8) in \<open>simp_all add: addCurrentNone_at\<close>)
  also have "divergence 3 u ?E g = totalDensity u s (oldPosition u) ps g / EPS0 u"
    using updateE_divergence [OF _ assms(5-8), of u fieldE fieldB] assms(9) by simp
  finally show ?thesis unfolding J using pos by (simp add: field_simps)
qed

definition sampleParticle :: Particle where
  "sampleParticle = \<lparr>particle_cell = [5, 6, 7], particle_position = [1 / 2, 0, 0], particle_momentum = [3 / 4, 0, 0],
     particle_mass = 1, particle_charge = 8\<rparr>"

lemma sampleParticle_facts:
  "particle_ok sampleParticle" "oldPosition samplePhys sampleParticle = [1 / 5, 0, 0]"
  "totalDensity samplePhys CIC (oldPosition samplePhys) [sampleParticle] [5, 6, 7] = 4 / 5"
  "totalDensity samplePhys CIC particle_position [sampleParticle] [5, 6, 7] = 1 / 2"
proof -
  show "particle_ok sampleParticle" by (simp add: particle_ok_def sampleParticle_def)
  have "sqrt (25 / 16) = 5 / 4" by (simp add: real_sqrt_divide)
  then show old: "oldPosition samplePhys sampleParticle = [1 / 5, 0, 0]"
    by (simp add: oldPosition_def sampleParticle_def samplePhys_def deltaPosition_def Velocity_def MUE0_EPS0_def vec_sub_def vec_sub_assign_def
        numeral_3_eq_3 Let_def)
  show "totalDensity samplePhys CIC (oldPosition samplePhys) [sampleParticle] [5, 6, 7] = 4 / 5"
    "totalDensity samplePhys CIC particle_position [sampleParticle] [5, 6, 7] = 1 / 2"
    by (simp_all add: totalDensity_def old) (simp_all add: chargeDensity_def samplePhys_def sampleParticle_def CELL_VOLUME_def CIC_def
        CIC_ChargeAssignment_def lessThan_nat_numeral Let_def)
qed

theorem pic_step_keeps_gauss_law_witness:
  "divergence 3 samplePhys
     (addCurrentToEMF (currentNone samplePhys) [[5, 6, 7], [4, 6, 7], [5, 5, 7], [5, 6, 6]]
       (updateE samplePhys 3 [[5, 6, 7], [4, 6, 7], [5, 5, 7], [5, 6, 6]] (\<lambda>r. if r = ([5, 6, 7], 0) then 8 / 5 else 0) (\<lambda>r. 3))
       (computeCurrent samplePhys CIC [sampleParticle] (FieldJ_clear (\<lambda>r. 7)))) [5, 6, 7] = 1 / 2"
proof -
  have all3: "(\<forall>d < 3. Q d) = (Q 0 \<and> Q 1 \<and> Q (2 :: nat))" for Q by (auto simp: numeral_3_eq_3 numeral_2_eq_2 less_Suc_eq)
  have "divergence 3 samplePhys (\<lambda>r. if r = ([5, 6, 7], 0) then 8 / 5 else 0) [5, 6, 7] = 4 / 5"
    by (simp add: divergence3 samplePhys_def)
  moreover have u: "length (cellSize samplePhys) = 3" "EPS0 samplePhys = 1" by (simp_all add: samplePhys_def)
  ultimately show ?thesis
    using pic_step_keeps_gauss_law [OF samplePhys_ok, of CIC "[sampleParticle]" "[5, 6, 7]" "[[5, 6, 7], [4, 6, 7], [5, 5, 7], [5, 6, 6]]"
        "\<lambda>r. if r = ([5, 6, 7], 0) then 8 / 5 else 0" "\<lambda>r. 3" "\<lambda>r. 7"] sampleParticle_facts
    by (simp add: all3 u)
qed

end
